(* ===== verification/UVM_Prelude.thy ===== *)
theory UVM_Prelude
  imports Main "HOL-Library.Word" "HOL-Library.Tree"
begin

text \<open>
  Shared vocabulary of the development: the widths of the driver's integer types, the
  status codes of \<^verbatim>\<open>nvstatuscodes.h\<close> the modelled code returns or tests, the arithmetic
  helpers of \<^verbatim>\<open>uvm_common.h\<close>, the kernel's bitmap and doubly linked list primitives (which
  are the standard library of this code) on lists, and the lemma collections the
  components share.
\<close>

unbundle bit_operations_syntax

named_theorems uvm_simps \<open>equations that unfold small helper definitions\<close>
named_theorems word_arith \<open>facts that move word arithmetic to natural numbers\<close>

section \<open>Integer types and status codes\<close>

type_synonym u8 = "8 word"
type_synonym u32 = "32 word"
type_synonym u64 = "64 word"

text \<open>
  The codes that occur in modelled code have a constructor of their own; every other value
  of \<^verbatim>\<open>NV_STATUS\<close> (an \<^verbatim>\<open>NvU32\<close>) is \<open>NV_STATUS_CODE\<close> of its number.
\<close>

datatype nv_status =
  NV_OK
| NV_ERR_GENERIC
| NV_ERR_ECC_ERROR
| NV_ERR_INVALID_ADDRESS
| NV_ERR_INVALID_ARGUMENT
| NV_ERR_MORE_PROCESSING_REQUIRED
| NV_ERR_NO_MEMORY
| NV_ERR_OPERATING_SYSTEM
| NV_ERR_RC_ERROR
| NV_ERR_TIMEOUT_RETRY
| NV_ERR_UVM_ADDRESS_IN_USE
| NV_WARN_MORE_PROCESSING_REQUIRED
| NV_ERR_NOT_SUPPORTED
| NV_ERR_IN_USE
| NV_ERR_OUT_OF_RANGE
| NV_ERR_MORE_DATA_AVAILABLE
| NV_WARN_NOTHING_TO_DO
| NV_STATUS_CODE u32

section \<open>Arithmetic helpers of uvm_common.h\<close>

text \<open>Linux \<^verbatim>\<open>is_power_of_2\<close>.\<close>

definition is_power_of_2 :: "u64 \<Rightarrow> bool" where
  "is_power_of_2 n \<longleftrightarrow> n \<noteq> 0 \<and> n AND (n - 1) = 0"

definition UVM_ALIGN_DOWN :: "u64 \<Rightarrow> u64 \<Rightarrow> u64" where
  "UVM_ALIGN_DOWN x a = x AND NOT (a - 1)"

definition UVM_ALIGN_UP :: "u64 \<Rightarrow> u64 \<Rightarrow> u64" where
  "UVM_ALIGN_UP x a = (x + a - 1) AND NOT (a - 1)"

definition uvm_ranges_overlap :: "u64 \<Rightarrow> u64 \<Rightarrow> u64 \<Rightarrow> u64 \<Rightarrow> bool" where
  "uvm_ranges_overlap a_start a_end b_start b_end \<longleftrightarrow> b_start \<le> a_end \<and> a_start \<le> b_end"

text \<open>Two inclusive ranges overlap exactly when they share an address.\<close>

lemma uvm_ranges_overlap_iff:
  assumes "a \<le> b" "c \<le> d"
  shows "uvm_ranges_overlap a b c d \<longleftrightarrow> (\<exists>x. a \<le> x \<and> x \<le> b \<and> c \<le> x \<and> x \<le> d)"
proof
  assume "uvm_ranges_overlap a b c d"
  then have "c \<le> b" "a \<le> d" by (auto simp: uvm_ranges_overlap_def)
  with assms have "a \<le> max a c \<and> max a c \<le> b \<and> c \<le> max a c \<and> max a c \<le> d"
    by (auto simp: max_def)
  then show "\<exists>x. a \<le> x \<and> x \<le> b \<and> c \<le> x \<and> x \<le> d" by blast
next
  assume "\<exists>x. a \<le> x \<and> x \<le> b \<and> c \<le> x \<and> x \<le> d"
  then obtain x where "a \<le> x" "x \<le> b" "c \<le> x" "x \<le> d" by blast
  then show "uvm_ranges_overlap a b c d"
    by (auto simp: uvm_ranges_overlap_def)
qed

lemma uvm_ranges_overlap_sym: "uvm_ranges_overlap a b c d = uvm_ranges_overlap c d a b"
  by (auto simp: uvm_ranges_overlap_def)

section \<open>Word lemmas\<close>

lemma word_less_imp_le_minus_1: "(a::'a::len word) < b \<Longrightarrow> a \<le> b - 1"
  by unat_arith

lemma word_less_plus_1: "(a::'a::len word) \<noteq> - 1 \<Longrightarrow> a < a + 1"
  by (metis add.commute add_eq_0_iff2 lessI unatSuc word_less_nat_alt)

lemma unat_minus_1: "0 < (b::'a::len word) \<Longrightarrow> unat (b - 1) = unat b - 1"
  by (simp add: unat_minus_one word_gt_0)

lemma unat_plus_1: "a < (b::'a::len word) \<Longrightarrow> unat (a + 1) = unat a + 1"
  by unat_arith

lemma unat_and_not_mask:
  fixes x :: "'a::len word"
  shows "unat (x AND NOT (mask n)) = (unat x div 2 ^ n) * 2 ^ n"
proof -
  have "x AND NOT (mask n) = push_bit n (drop_bit n x)"
    by (rule bit_word_eqI) (auto simp: bit_simps)
  also have "unat \<dots> = take_bit LENGTH('a) (push_bit n (unat (drop_bit n x)))"
    by (simp add: unsigned_push_bit_eq)
  also have "push_bit n (unat (drop_bit n x)) = (unat x div 2 ^ n) * 2 ^ n"
    by (simp only: unat_drop_bit_eq) (simp add: push_bit_eq_mult drop_bit_eq_div)
  also have "take_bit LENGTH('a) ((unat x div 2 ^ n) * 2 ^ n) = (unat x div 2 ^ n) * 2 ^ n"
    by (rule take_bit_nat_eq_self)
       (metis div_times_less_eq_dividend le_less_trans unsigned_less)
  finally show ?thesis .
qed

section \<open>Kernel linked lists\<close>

text \<open>
  A \<^verbatim>\<open>struct list_head\<close> list is the list of its entries. \<open>list_add_before p n\<close> is
  \<^verbatim>\<open>list_add_tail(&n->list, &p->list)\<close> and \<open>list_add_after p n\<close> is
  \<^verbatim>\<open>list_add(&n->list, &p->list)\<close>, with \<open>p\<close> an entry; \<open>list_prev\<close> and \<open>list_next\<close> are the
  entry before and after one, \<open>None\<close> at the list's ends; \<^verbatim>\<open>list_del\<close> is \<open>remove1\<close>.
\<close>

fun list_add_before :: "'a \<Rightarrow> 'a \<Rightarrow> 'a list \<Rightarrow> 'a list" where
  "list_add_before p n [] = []"
| "list_add_before p n (x # xs) = (if x = p then n # x # xs else x # list_add_before p n xs)"

fun list_add_after :: "'a \<Rightarrow> 'a \<Rightarrow> 'a list \<Rightarrow> 'a list" where
  "list_add_after p n [] = []"
| "list_add_after p n (x # xs) = (if x = p then x # n # xs else x # list_add_after p n xs)"

fun list_prev :: "'a \<Rightarrow> 'a list \<Rightarrow> 'a option" where
  "list_prev n (x # y # zs) = (if y = n then Some x else list_prev n (y # zs))"
| "list_prev n _ = None"

fun list_next :: "'a \<Rightarrow> 'a list \<Rightarrow> 'a option" where
  "list_next n (x # y # zs) = (if x = n then Some y else list_next n (y # zs))"
| "list_next n _ = None"

lemma list_add_before_split:
  "p \<notin> set xs \<Longrightarrow> list_add_before p n (xs @ p # ys) = xs @ n # p # ys"
  by (induction xs) auto

lemma list_add_after_split:
  "p \<notin> set xs \<Longrightarrow> list_add_after p n (xs @ p # ys) = xs @ p # n # ys"
  by (induction xs) auto

lemma list_next_split:
  "p \<notin> set xs \<Longrightarrow> list_next p (xs @ p # ys) = (case ys of [] \<Rightarrow> None | y # _ \<Rightarrow> Some y)"
proof (induction xs)
  case Nil
  then show ?case by (cases ys) auto
next
  case (Cons x xs)
  then show ?case by (cases xs) auto
qed

lemma list_prev_split:
  "p \<notin> set xs \<Longrightarrow> p \<notin> set ys \<Longrightarrow>
   list_prev p (xs @ p # ys) = (if xs = [] then None else Some (last xs))"
proof (induction xs)
  case Nil
  then show ?case
  proof (induction ys rule: list.induct)
    case (Cons y ys)
    have "p \<notin> set zs \<Longrightarrow> list_prev p zs = None" for zs
      by (induction p zs rule: list_prev.induct) auto
    with Cons.prems show ?case by (cases ys) auto
  qed simp
next
  case (Cons x xs)
  then show ?case by (cases xs) auto
qed

lemma distinct_singleton: "distinct xs \<Longrightarrow> set xs = {x} \<Longrightarrow> xs = [x]"
  by (cases xs; cases "tl xs") auto

lemmas linked_list_simps =
  list_add_before_split list_add_after_split list_next_split list_prev_split

section \<open>Alignment\<close>

text \<open>A power of two in a 64-bit word is \<open>2 ^ k\<close> for some \<open>k < 64\<close>.\<close>

lemma nat_and_pred_power: "0 < (n::nat) \<Longrightarrow> n AND (n - 1) = 0 \<Longrightarrow> \<exists>k. n = 2 ^ k"
proof (induction n rule: less_induct)
  case (less n)
  show ?case
  proof (cases "even n")
    case True
    then obtain m where m: "n = 2 * m" by (elim evenE)
    with less.prems have m0: "0 < m" by simp
    have "drop_bit 1 (n AND (n - 1)) = drop_bit 1 n AND drop_bit 1 (n - 1)" by (rule drop_bit_and)
    moreover have "drop_bit 1 n = m" "drop_bit 1 (n - 1) = m - 1"
      using m m0 by (simp_all add: drop_bit_Suc)
    ultimately have "m AND (m - 1) = drop_bit 1 0" using less.prems(2) by metis
    then have "m AND (m - 1) = 0" by simp
    with less.IH[of m] m m0 obtain k where "m = 2 ^ k" by auto
    with m have "n = 2 ^ Suc k" by simp
    then show ?thesis by blast
  next
    case False
    then obtain m where m: "n = 2 * m + 1" by (elim oddE)
    have "drop_bit 1 (n AND (n - 1)) = drop_bit 1 n AND drop_bit 1 (n - 1)" by (rule drop_bit_and)
    moreover have "drop_bit 1 n = m" "drop_bit 1 (n - 1) = m"
      using m by (simp_all add: drop_bit_Suc)
    ultimately have "m AND m = drop_bit 1 0" using less.prems(2) by metis
    then have "m = 0" by simp
    with m have "n = 2 ^ 0" by simp
    then show ?thesis by blast
  qed
qed

lemma unat_lt_2_64: "unat (x::u64) < 2 ^ 64"
  by (rule order_less_le_trans[OF unsigned_less]) simp

lemma unat_lt_2_32: "unat (x::u32) < 2 ^ 32"
  by (rule order_less_le_trans[OF unsigned_less]) simp

lemma unat_of_nat_u64: "n < 2 ^ 64 \<Longrightarrow> unat (word_of_nat n :: u64) = n"
  by (simp only: unsigned_of_nat of_nat_id) (simp add: take_bit_nat_eq_self)

lemma unat_of_nat_u32: "n < 2 ^ 32 \<Longrightarrow> unat (word_of_nat n :: u32) = n"
  by (simp only: unsigned_of_nat of_nat_id) (simp add: take_bit_nat_eq_self)

lemma unat_2_power: "k < LENGTH('a) \<Longrightarrow> unat ((2::'a::len word) ^ k) = 2 ^ k"
proof -
  assume k: "k < LENGTH('a)"
  have "(2::'a word) ^ k = word_of_nat (2 ^ k)" by simp
  then have "unat ((2::'a word) ^ k) = take_bit LENGTH('a) (2 ^ k)"
    by (simp only: unsigned_of_nat of_nat_id)
  with k show ?thesis by (simp add: take_bit_nat_eq_self)
qed

lemma is_power_of_2E:
  assumes "is_power_of_2 a"
  obtains k where "k < 64" "a = 2 ^ k" "unat a = 2 ^ k"
proof -
  have a: "a \<noteq> 0" "a AND (a - 1) = 0" using assms by (auto simp: is_power_of_2_def)
  have "unat a AND (unat a - 1) = unat (a AND (a - 1))"
    by (simp only: unsigned_and_eq unat_minus_one[OF a(1)])
  then have "unat a AND (unat a - 1) = 0" by (simp only: a(2) unsigned_0)
  moreover have "0 < unat a" using a(1) by (simp add: unat_gt_0)
  ultimately obtain k where k: "unat a = 2 ^ k" using nat_and_pred_power by blast
  have "(2::nat) ^ k < 2 ^ 64" using unat_lt_2_64[of a] k by simp
  then have k64: "k < 64" by (rule power_less_imp_less_exp[rotated]) simp
  then have "unat ((2::u64) ^ k) = 2 ^ k" by (intro unat_2_power) simp
  then have "unat a = unat ((2::u64) ^ k)" by (simp only: k)
  then have "a = 2 ^ k" by (rule unsigned_word_eqI)
  with k64 k show thesis using that by blast
qed

lemma unat_align_up:
  assumes k: "k < 64" "(a::u64) = 2 ^ k"
  shows "unat (UVM_ALIGN_UP x a) = ((unat x + 2 ^ k - 1) mod 2 ^ 64) div 2 ^ k * 2 ^ k"
proof -
  have m: "a - 1 = mask k" by (simp add: k mask_eq_decr_exp)
  have ua: "unat a = 2 ^ k" using k by (simp add: unat_2_power)
  have "unat (x + a - 1) = (unat x + 2 ^ k - 1) mod 2 ^ 64"
  proof -
    have "(word_of_nat (unat x + 2 ^ k - 1) :: u64) = word_of_nat (unat x + 2 ^ k) - word_of_nat 1"
      by (rule of_nat_diff) (simp add: Suc_leI trans_le_add2)
    then have "x + a - 1 = word_of_nat (unat x + 2 ^ k - 1)" by (simp add: k)
    then show ?thesis by (simp only: unsigned_of_nat take_bit_eq_mod of_nat_id) simp
  qed
  then show ?thesis by (simp add: UVM_ALIGN_UP_def m unat_and_not_mask)
qed

lemma align_up_fits:
  assumes k: "k < 64" "(a::u64) = 2 ^ k" and ge: "x \<le> UVM_ALIGN_UP x a"
  shows "2 ^ k dvd unat (UVM_ALIGN_UP x a)"
    and "2 ^ k dvd unat b \<Longrightarrow> x \<le> b \<Longrightarrow> UVM_ALIGN_UP x a \<le> b"
proof -
  show "2 ^ k dvd unat (UVM_ALIGN_UP x a)" by (simp add: unat_align_up[OF k])
  assume "2 ^ k dvd unat b" and xb: "x \<le> b"
  then obtain c where c: "unat b = 2 ^ k * c" by (elim dvdE)
  have "(unat x + 2 ^ k - 1) mod 2 ^ 64 \<le> unat x + 2 ^ k - 1" by simp
  also have "\<dots> < (c + 1) * 2 ^ k"
  proof -
    have "\<And>p X C::nat. 0 < p \<Longrightarrow> X \<le> C \<Longrightarrow> X + p - 1 < C + p" by arith
    from this[of "2 ^ k" "unat x" "c * 2 ^ k"] show ?thesis
      using xb c by (simp add: word_le_nat_alt algebra_simps)
  qed
  finally have "((unat x + 2 ^ k - 1) mod 2 ^ 64) div 2 ^ k < c + 1"
    by (simp add: div_less_iff_less_mult)
  then have "unat (UVM_ALIGN_UP x a) \<le> c * 2 ^ k"
    by (simp add: unat_align_up[OF k])
  then show "UVM_ALIGN_UP x a \<le> b" by (simp add: word_le_nat_alt c mult.commute)
qed

lemma align_up_overflow:
  assumes k: "k < 64" "(a::u64) = 2 ^ k" and lt: "UVM_ALIGN_UP x a < x"
  shows "2 ^ k dvd unat b \<Longrightarrow> b < x"
proof -
  assume "2 ^ k dvd unat b"
  then obtain c where c: "unat b = 2 ^ k * c" by (elim dvdE)
  let ?y = "unat x + 2 ^ k - 1"
  have p: "(2::nat) ^ 64 = 2 ^ k * 2 ^ (64 - k)" using k(1) by (simp flip: power_add)
  have big: "2 ^ 64 \<le> ?y"
  proof (rule ccontr)
    assume "\<not> 2 ^ 64 \<le> ?y"
    then have "unat (UVM_ALIGN_UP x a) = ?y div 2 ^ k * 2 ^ k"
      by (simp only: unat_align_up[OF k] mod_less not_le)
    moreover have "?y < ?y div 2 ^ k * 2 ^ k + 2 ^ k"
      using dividend_less_div_times[of "2 ^ k" ?y] by simp
    ultimately show False using lt by (simp add: word_less_nat_alt)
  qed
  have "c < 2 ^ (64 - k)" using unat_lt_2_64[of b] by (simp only: c p) simp
  then have "2 ^ k * (c + 1) \<le> 2 ^ k * 2 ^ (64 - k)" by (intro mult_le_mono2) simp
  then have "unat b + 2 ^ k \<le> 2 ^ 64" by (simp only: c p) simp
  with big have "unat b < unat x" by simp
  then show "b < x" by (simp add: word_less_nat_alt)
qed

section \<open>Kernel bitmaps\<close>

text \<open>
  A \<^verbatim>\<open>DECLARE_BITMAP\<close> of \<open>n\<close> bits is a list of \<open>n\<close> booleans. As in the kernel, the searches
  return the bitmap's length when there is no such bit.
\<close>

definition find_first_bit :: "bool list \<Rightarrow> nat" where
  "find_first_bit bm = length (takeWhile Not bm)"

definition find_next_bit :: "bool list \<Rightarrow> nat \<Rightarrow> nat" where
  "find_next_bit bm i = min (length bm) (i + length (takeWhile Not (drop i bm)))"

definition bitmap_weight :: "bool list \<Rightarrow> nat" where
  "bitmap_weight bm = length (filter id bm)"

lemma find_first_bit_le: "find_first_bit bm \<le> length bm"
  by (simp add: find_first_bit_def length_takeWhile_le)

lemma find_first_bit_set: "find_first_bit bm < length bm \<Longrightarrow> bm ! find_first_bit bm"
  unfolding find_first_bit_def using nth_length_takeWhile by blast

lemma find_first_bit_least: "i < find_first_bit bm \<Longrightarrow> \<not> bm ! i"
  unfolding find_first_bit_def by (metis nth_mem set_takeWhileD takeWhile_nth)

lemma find_first_bit_none: "find_first_bit bm = length bm \<longleftrightarrow> (\<forall>i < length bm. \<not> bm ! i)"
  using find_first_bit_least find_first_bit_le find_first_bit_set
  by (metis le_neq_implies_less)

lemma find_next_bit_none:
  "find_next_bit bm i = length bm \<longleftrightarrow> (\<forall>j. i \<le> j \<longrightarrow> j < length bm \<longrightarrow> \<not> bm ! j)"
proof (cases "i < length bm")
  case True
  have "find_next_bit bm i = length bm \<longleftrightarrow> find_first_bit (drop i bm) = length (drop i bm)"
    using find_first_bit_le[of "drop i bm"] True
    by (simp add: find_next_bit_def find_first_bit_def min_def) linarith
  also have "\<dots> \<longleftrightarrow> (\<forall>j. i \<le> j \<longrightarrow> j < length bm \<longrightarrow> \<not> bm ! j)"
    unfolding find_first_bit_none using True
    by (auto simp: less_diff_conv) (metis add.commute le_add_diff_inverse2 less_diff_conv nat_le_iff_add add_diff_cancel_left')
  finally show ?thesis .
next
  case False
  then show ?thesis by (simp add: find_next_bit_def)
qed

lemma bitmap_weight_replicate [simp]:
  "bitmap_weight (replicate n True) = n" "bitmap_weight (replicate n False) = 0"
  by (simp_all add: bitmap_weight_def)

lemma bitmap_weight_Cons: "bitmap_weight (b # bm) = (if b then 1 else 0) + bitmap_weight bm"
  by (simp add: bitmap_weight_def)

lemma bitmap_weight_Nil [simp]: "bitmap_weight [] = 0"
  by (simp add: bitmap_weight_def)

lemma bitmap_weight_0: "bitmap_weight bm = 0 \<longleftrightarrow> (\<forall>i < length bm. \<not> bm ! i)"
  by (auto simp: bitmap_weight_def filter_empty_conv in_set_conv_nth)

lemma bitmap_weight_le: "bitmap_weight bm \<le> length bm"
  by (simp add: bitmap_weight_def)

lemma bitmap_weight_clear: "i < length bm \<Longrightarrow> bm ! i \<Longrightarrow> Suc (bitmap_weight (bm[i := False])) = bitmap_weight bm"
proof (induction bm arbitrary: i)
  case (Cons b bm)
  then show ?case by (cases i) (auto simp: bitmap_weight_Cons)
qed simp

lemma bitmap_weight_set: "i < length bm \<Longrightarrow> \<not> bm ! i \<Longrightarrow> bitmap_weight (bm[i := True]) = Suc (bitmap_weight bm)"
proof (induction bm arbitrary: i)
  case (Cons b bm)
  then show ?case by (cases i) (auto simp: bitmap_weight_Cons)
qed simp

lemma bitmap_weight_full: "bitmap_weight bm = length bm \<longleftrightarrow> (\<forall>i < length bm. bm ! i)"
proof (induction bm)
  case (Cons b bm)
  then show ?case
    using bitmap_weight_le[of bm] by (cases b) (auto simp: bitmap_weight_Cons All_less_Suc2)
qed simp

end
