(* ===== verification/Range_Tree.thy ===== *)
theory Range_Tree
  imports UVM_Prelude
begin

text \<open>
  \<^verbatim>\<open>uvm8_range_tree.c\<close>: a search tree of non-overlapping inclusive address ranges, threaded
  by an address-ordered list. Nodes are owned by the callers and linked by address, so the
  state holds the shape of the red-black tree and the list over node identifiers, and a
  store from identifiers to the nodes' \<^verbatim>\<open>start\<close> and \<^verbatim>\<open>end\<close>. The rebalancing of Linux'
  \<^verbatim>\<open>rbtree\<close> is a parameter (\<open>rb_ops\<close>) with its documented effect: it keeps the in-order
  sequence. Assertions are compiled out of release builds; that they hold is proved.
\<close>

section \<open>State\<close>

type_synonym node_id = nat

record range_node =
  rn_start :: u64
  rn_end :: u64

record uvm_range_tree =
  rb_root :: "node_id tree"
  rt_list :: "node_id list"
  rt_nodes :: "node_id \<Rightarrow> range_node"

text \<open>
  Linux' \<^verbatim>\<open>rb_link_node\<close> followed by \<^verbatim>\<open>rb_insert_color\<close>, at the link named, and
  \<^verbatim>\<open>rb_erase\<close>.
\<close>

datatype rb_link = RbRoot | RbLeft node_id | RbRight node_id

record rb_ops =
  rb_insert :: "node_id \<Rightarrow> rb_link \<Rightarrow> node_id tree \<Rightarrow> node_id tree"
  rb_erase :: "node_id \<Rightarrow> node_id tree \<Rightarrow> node_id tree"

fun left_free :: "node_id \<Rightarrow> node_id tree \<Rightarrow> bool" where
  "left_free p Leaf = False"
| "left_free p (Node l x r) = (if x = p then l = Leaf else left_free p l \<or> left_free p r)"

fun right_free :: "node_id \<Rightarrow> node_id tree \<Rightarrow> bool" where
  "right_free p Leaf = False"
| "right_free p (Node l x r) = (if x = p then r = Leaf else right_free p l \<or> right_free p r)"

text \<open>The documented contract of the rbtree library: positions are kept in order.\<close>

definition rb_ops_ok :: "rb_ops \<Rightarrow> bool" where
  "rb_ops_ok rb \<longleftrightarrow>
     (\<forall>n. inorder (rb_insert rb n RbRoot Leaf) = [n]) \<and>
     (\<forall>n p t. distinct (inorder t) \<longrightarrow> n \<notin> set_tree t \<longrightarrow> left_free p t \<longrightarrow>
        inorder (rb_insert rb n (RbLeft p) t) = list_add_before p n (inorder t)) \<and>
     (\<forall>n p t. distinct (inorder t) \<longrightarrow> n \<notin> set_tree t \<longrightarrow> right_free p t \<longrightarrow>
        inorder (rb_insert rb n (RbRight p) t) = list_add_after p n (inorder t)) \<and>
     (\<forall>n t. distinct (inorder t) \<longrightarrow> inorder (rb_erase rb n t) = remove1 n (inorder t))"

section \<open>Operations\<close>

abbreviation node_start :: "uvm_range_tree \<Rightarrow> node_id \<Rightarrow> u64" where
  "node_start t n \<equiv> rn_start (rt_nodes t n)"

abbreviation node_end :: "uvm_range_tree \<Rightarrow> node_id \<Rightarrow> u64" where
  "node_end t n \<equiv> rn_end (rt_nodes t n)"

definition set_start :: "node_id \<Rightarrow> u64 \<Rightarrow> uvm_range_tree \<Rightarrow> uvm_range_tree" where
  "set_start n a t = t\<lparr>rt_nodes := (rt_nodes t)(n := (rt_nodes t n)\<lparr>rn_start := a\<rparr>)\<rparr>"

definition set_end :: "node_id \<Rightarrow> u64 \<Rightarrow> uvm_range_tree \<Rightarrow> uvm_range_tree" where
  "set_end n a t = t\<lparr>rt_nodes := (rt_nodes t)(n := (rt_nodes t n)\<lparr>rn_end := a\<rparr>)\<rparr>"

definition uvm_range_tree_prev :: "uvm_range_tree \<Rightarrow> node_id \<Rightarrow> node_id option" where
  "uvm_range_tree_prev t n = list_prev n (rt_list t)"

definition uvm_range_tree_next :: "uvm_range_tree \<Rightarrow> node_id \<Rightarrow> node_id option" where
  "uvm_range_tree_next t n = list_next n (rt_list t)"

definition range_nodes_overlap :: "uvm_range_tree \<Rightarrow> node_id \<Rightarrow> node_id \<Rightarrow> bool" where
  "range_nodes_overlap t a b =
     uvm_ranges_overlap (node_start t a) (node_end t a) (node_start t b) (node_end t b)"

text \<open>The loop of \<^verbatim>\<open>range_node_find\<close>: the node found and the last node passed.\<close>

fun find_walk ::
  "(node_id \<Rightarrow> range_node) \<Rightarrow> u64 \<Rightarrow> node_id tree \<Rightarrow> node_id option \<Rightarrow> node_id option \<times> node_id option"
where
  "find_walk m addr Leaf parent = (None, parent)"
| "find_walk m addr (Node l n r) parent =
     (if addr < rn_start (m n) then find_walk m addr l (Some n)
      else if rn_end (m n) < addr then find_walk m addr r (Some n)
      else (Some n, parent))"

definition range_node_find ::
  "uvm_range_tree \<Rightarrow> u64 \<Rightarrow> node_id option \<times> node_id option \<times> node_id option" where
  "range_node_find t addr =
     (let (node, parent) = find_walk (rt_nodes t) addr (rb_root t) None;
          nxt = (case node of
                   Some n \<Rightarrow> uvm_range_tree_next t n
                 | None \<Rightarrow>
                     (case parent of
                        None \<Rightarrow> None
                      | Some p \<Rightarrow>
                          if addr < node_start t p then Some p else uvm_range_tree_next t p))
      in (node, parent, nxt))"

definition uvm_range_tree_init :: "(node_id \<Rightarrow> range_node) \<Rightarrow> uvm_range_tree" where
  "uvm_range_tree_init m = \<lparr>rb_root = Leaf, rt_list = [], rt_nodes = m\<rparr>"

definition uvm_range_tree_add ::
  "rb_ops \<Rightarrow> uvm_range_tree \<Rightarrow> node_id \<Rightarrow> nv_status \<times> uvm_range_tree" where
  "uvm_range_tree_add rb t n =
     (case range_node_find t (node_start t n) of
        (Some _, _, _) \<Rightarrow> (NV_ERR_UVM_ADDRESS_IN_USE, t)
      | (None, None, _) \<Rightarrow>
          (NV_OK, t\<lparr>rb_root := rb_insert rb n RbRoot (rb_root t), rt_list := n # rt_list t\<rparr>)
      | (None, Some p, _) \<Rightarrow>
          if range_nodes_overlap t n p then (NV_ERR_UVM_ADDRESS_IN_USE, t)
          else if node_start t n < node_start t p then
            (NV_OK, t\<lparr>rb_root := rb_insert rb n (RbLeft p) (rb_root t),
                      rt_list := list_add_before p n (rt_list t)\<rparr>)
          else if (case uvm_range_tree_next t p of
                     None \<Rightarrow> False | Some q \<Rightarrow> range_nodes_overlap t n q)
          then (NV_ERR_UVM_ADDRESS_IN_USE, t)
          else
            (NV_OK, t\<lparr>rb_root := rb_insert rb n (RbRight p) (rb_root t),
                      rt_list := list_add_after p n (rt_list t)\<rparr>))"

definition uvm_range_tree_remove :: "rb_ops \<Rightarrow> uvm_range_tree \<Rightarrow> node_id \<Rightarrow> uvm_range_tree" where
  "uvm_range_tree_remove rb t n =
     t\<lparr>rb_root := rb_erase rb n (rb_root t), rt_list := remove1 n (rt_list t)\<rparr>"

definition uvm_range_tree_shrink_node ::
  "uvm_range_tree \<Rightarrow> node_id \<Rightarrow> u64 \<Rightarrow> u64 \<Rightarrow> uvm_range_tree" where
  "uvm_range_tree_shrink_node t n new_start new_end = set_end n new_end (set_start n new_start t)"

definition uvm_range_tree_split ::
  "rb_ops \<Rightarrow> uvm_range_tree \<Rightarrow> node_id \<Rightarrow> node_id \<Rightarrow> nv_status \<times> uvm_range_tree" where
  "uvm_range_tree_split rb t existing new =
     (let t1 = set_end new (node_end t existing) t;
          t2 = set_end existing (node_start t1 new - 1) t1
      in uvm_range_tree_add rb t2 new)"

definition uvm_range_tree_merge_prev ::
  "rb_ops \<Rightarrow> uvm_range_tree \<Rightarrow> node_id \<Rightarrow> node_id option \<times> uvm_range_tree" where
  "uvm_range_tree_merge_prev rb t n =
     (case uvm_range_tree_prev t n of
        None \<Rightarrow> (None, t)
      | Some p \<Rightarrow>
          if node_end t p \<noteq> node_start t n - 1 then (None, t)
          else (Some p, set_start n (node_start t p) (uvm_range_tree_remove rb t p)))"

definition uvm_range_tree_merge_next ::
  "rb_ops \<Rightarrow> uvm_range_tree \<Rightarrow> node_id \<Rightarrow> node_id option \<times> uvm_range_tree" where
  "uvm_range_tree_merge_next rb t n =
     (case uvm_range_tree_next t n of
        None \<Rightarrow> (None, t)
      | Some q \<Rightarrow>
          if node_start t q \<noteq> node_end t n + 1 then (None, t)
          else (Some q, set_end n (node_end t q) (uvm_range_tree_remove rb t q)))"

definition uvm_range_tree_find :: "uvm_range_tree \<Rightarrow> u64 \<Rightarrow> node_id option" where
  "uvm_range_tree_find t addr = fst (range_node_find t addr)"

definition uvm_range_tree_iter_first :: "uvm_range_tree \<Rightarrow> u64 \<Rightarrow> u64 \<Rightarrow> node_id option" where
  "uvm_range_tree_iter_first t start end =
     (case range_node_find t start of
        (Some n, _, _) \<Rightarrow> Some n
      | (None, _, Some q) \<Rightarrow> if node_start t q \<le> end then Some q else None
      | (None, _, None) \<Rightarrow> None)"

definition uvm_range_tree_iter_next :: "uvm_range_tree \<Rightarrow> node_id \<Rightarrow> u64 \<Rightarrow> node_id option" where
  "uvm_range_tree_iter_next t n end =
     (case uvm_range_tree_next t n of
        None \<Rightarrow> None
      | Some q \<Rightarrow> if node_start t q \<le> end then Some q else None)"

text \<open>
  \<^verbatim>\<open>uvm_range_tree_for_each_in\<close>: the nodes the loop visits when its body does not change
  the tree. Every step moves along the list, whose length is fuel enough.
\<close>

fun for_each_from :: "nat \<Rightarrow> uvm_range_tree \<Rightarrow> u64 \<Rightarrow> node_id option \<Rightarrow> node_id list" where
  "for_each_from k t end None = []"
| "for_each_from 0 t end (Some n) = []"
| "for_each_from (Suc k) t end (Some n) =
     n # for_each_from k t end (uvm_range_tree_iter_next t n end)"

definition uvm_range_tree_for_each_in :: "uvm_range_tree \<Rightarrow> u64 \<Rightarrow> u64 \<Rightarrow> node_id list" where
  "uvm_range_tree_for_each_in t start end =
     for_each_from (length (rt_list t)) t end (uvm_range_tree_iter_first t start end)"

section \<open>Invariant\<close>

text \<open>
  The list is the in-order sequence of the tree, every node's range is non-empty, and each
  node ends before the next one starts.
\<close>

definition contains :: "(node_id \<Rightarrow> range_node) \<Rightarrow> node_id \<Rightarrow> u64 \<Rightarrow> bool" where
  "contains m n a \<longleftrightarrow> rn_start (m n) \<le> a \<and> a \<le> rn_end (m n)"

definition sorted_ranges :: "(node_id \<Rightarrow> range_node) \<Rightarrow> node_id list \<Rightarrow> bool" where
  "sorted_ranges m ns \<longleftrightarrow>
     sorted_wrt (\<lambda>a b. rn_end (m a) < rn_start (m b)) ns \<and>
     (\<forall>n \<in> set ns. rn_start (m n) \<le> rn_end (m n))"

definition range_tree_inv :: "uvm_range_tree \<Rightarrow> bool" where
  "range_tree_inv t \<longleftrightarrow>
     inorder (rb_root t) = rt_list t \<and> sorted_ranges (rt_nodes t) (rt_list t)"

lemma sorted_ranges_Nil [simp]: "sorted_ranges m []"
  by (simp add: sorted_ranges_def)

lemma sorted_ranges_Cons:
  "sorted_ranges m (x # xs) \<longleftrightarrow>
     rn_start (m x) \<le> rn_end (m x) \<and> (\<forall>y \<in> set xs. rn_end (m x) < rn_start (m y)) \<and>
     sorted_ranges m xs"
  by (auto simp: sorted_ranges_def)

lemma sorted_ranges_append:
  "sorted_ranges m (xs @ ys) \<longleftrightarrow>
     sorted_ranges m xs \<and> sorted_ranges m ys \<and>
     (\<forall>x \<in> set xs. \<forall>y \<in> set ys. rn_end (m x) < rn_start (m y))"
  by (auto simp: sorted_ranges_def sorted_wrt_append)

lemmas sorted_ranges_simps = sorted_ranges_Cons sorted_ranges_append

lemma sorted_ranges_distinct: "sorted_ranges m ns \<Longrightarrow> distinct ns"
  by (induction ns) (auto simp: sorted_ranges_Cons)

lemma sorted_ranges_cong:
  "(\<And>n. n \<in> set ns \<Longrightarrow> m n = m' n) \<Longrightarrow> sorted_ranges m ns = sorted_ranges m' ns"
  by (induction ns) (auto simp: sorted_ranges_Cons)

lemma sorted_ranges_remove1: "sorted_ranges m ns \<Longrightarrow> sorted_ranges m (remove1 n ns)"
  by (induction ns) (auto simp: sorted_ranges_Cons dest: notin_set_remove1)

lemma range_tree_inv_distinct: "range_tree_inv t \<Longrightarrow> distinct (rt_list t)"
  by (auto simp: range_tree_inv_def dest: sorted_ranges_distinct)

lemma range_tree_inv_le: "range_tree_inv t \<Longrightarrow> n \<in> set (rt_list t) \<Longrightarrow> node_start t n \<le> node_end t n"
  by (auto simp: range_tree_inv_def sorted_ranges_def)

lemma range_tree_inv_set: "range_tree_inv t \<Longrightarrow> set_tree (rb_root t) = set (rt_list t)"
  by (metis range_tree_inv_def set_inorder)

section \<open>The walk\<close>

lemma find_walk_Some:
  assumes "sorted_ranges m (inorder t)"
  shows "fst (find_walk m a t q) = Some n \<longleftrightarrow> n \<in> set (inorder t) \<and> contains m n a"
  using assms
proof (induction t arbitrary: q)
  case Leaf
  then show ?case by simp
next
  case (Node l x r)
  then have s: "sorted_ranges m (inorder l)" "sorted_ranges m (inorder r)"
    and x: "rn_start (m x) \<le> rn_end (m x)"
    and lx: "\<forall>y \<in> set (inorder l). rn_end (m y) < rn_start (m x)"
    and xr: "\<forall>y \<in> set (inorder r). rn_end (m x) < rn_start (m y)"
    by (auto simp: sorted_ranges_simps)
  consider "a < rn_start (m x)" | "rn_end (m x) < a" | "contains m x a"
    by (force simp: contains_def)
  then show ?case
  proof cases
    case 1
    then have "\<forall>y \<in> set (inorder r). \<not> contains m y a" "\<not> contains m x a"
      using x xr by (fastforce simp: contains_def)+
    with 1 Node.IH(1)[OF s(1)] show ?thesis by auto
  next
    case 2
    then have "\<forall>y \<in> set (inorder l). \<not> contains m y a" "\<not> contains m x a"
      using x lx by (fastforce simp: contains_def)+
    with 2 x Node.IH(2)[OF s(2)] show ?thesis by auto
  next
    case 3
    then have "\<forall>y \<in> set (inorder l) \<union> set (inorder r). \<not> contains m y a"
      using lx xr by (fastforce simp: contains_def)
    with 3 show ?thesis by (auto simp: contains_def)
  qed
qed

text \<open>
  When no node contains the address, the last node passed has a free link on the side of
  the address and no node lies between the two.
\<close>

lemma find_walk_None:
  assumes "sorted_ranges m (inorder t)" "fst (find_walk m a t q) = None" "t \<noteq> Leaf"
  shows "\<exists>p xs ys. snd (find_walk m a t q) = Some p \<and> inorder t = xs @ p # ys \<and>
           (a < rn_start (m p) \<and> left_free p t \<and> (\<forall>x \<in> set xs. rn_end (m x) < a) \<or>
            rn_end (m p) < a \<and> right_free p t \<and> (\<forall>y \<in> set ys. a < rn_start (m y)))"
  using assms
proof (induction t arbitrary: q)
  case Leaf
  then show ?case by simp
next
  case (Node l x r)
  then have s: "sorted_ranges m (inorder l)" "sorted_ranges m (inorder r)"
    and x: "rn_start (m x) \<le> rn_end (m x)"
    and lx: "\<forall>y \<in> set (inorder l). rn_end (m y) < rn_start (m x)"
    and xr: "\<forall>y \<in> set (inorder r). rn_end (m x) < rn_start (m y)"
    by (auto simp: sorted_ranges_simps)
  have d: "distinct (inorder l @ x # inorder r)"
    by (rule sorted_ranges_distinct) (use Node.prems(1) in simp)
  consider "a < rn_start (m x)" | "rn_end (m x) < a" "\<not> a < rn_start (m x)"
    using Node.prems(2) by (auto split: if_splits)
  then show ?case
  proof cases
    case 1
    show ?thesis
    proof (cases "l = Leaf")
      case True
      with 1 show ?thesis by fastforce
    next
      case False
      from Node.IH(1)[OF s(1) _ False, of "Some x"] Node.prems(2) 1
      obtain p xs ys where p: "snd (find_walk m a l (Some x)) = Some p" "inorder l = xs @ p # ys"
        and alt: "a < rn_start (m p) \<and> left_free p l \<and> (\<forall>x \<in> set xs. rn_end (m x) < a) \<or>
                  rn_end (m p) < a \<and> right_free p l \<and> (\<forall>y \<in> set ys. a < rn_start (m y))"
        by auto
      have "\<forall>y \<in> set (ys @ x # inorder r). y \<in> set ys \<or> a < rn_start (m y)"
        using 1 x xr by (auto intro: less_trans le_less_trans)
      with p alt 1 d show ?thesis
        by (intro exI[of _ p] exI[of _ xs] exI[of _ "ys @ x # inorder r"]) auto
    qed
  next
    case 2
    show ?thesis
    proof (cases "r = Leaf")
      case True
      with 2 show ?thesis by fastforce
    next
      case False
      from Node.IH(2)[OF s(2) _ False, of "Some x"] Node.prems(2) 2
      obtain p xs ys where p: "snd (find_walk m a r (Some x)) = Some p" "inorder r = xs @ p # ys"
        and alt: "a < rn_start (m p) \<and> left_free p r \<and> (\<forall>x \<in> set xs. rn_end (m x) < a) \<or>
                  rn_end (m p) < a \<and> right_free p r \<and> (\<forall>y \<in> set ys. a < rn_start (m y))"
        by auto
      have "\<forall>y \<in> set (inorder l @ x # xs). y \<in> set xs \<or> rn_end (m y) < a"
        using 2 x lx by (auto intro: less_trans less_le_trans)
      with p alt 2 d show ?thesis
        by (intro exI[of _ p] exI[of _ "inorder l @ x # xs"] exI[of _ ys]) auto
    qed
  qed
qed

section \<open>What range_node_find returns\<close>

text \<open>The first node of a list, the value of the \<^verbatim>\<open>next\<close> out-parameter.\<close>

definition first_opt :: "'a list \<Rightarrow> 'a option" where
  "first_opt xs = (case xs of [] \<Rightarrow> None | x # _ \<Rightarrow> Some x)"

lemma first_opt_simps [simp]: "first_opt [] = None" "first_opt (x # xs) = Some x"
  by (simp_all add: first_opt_def)

lemma range_node_find_Some:
  assumes "range_tree_inv t"
  shows "fst (range_node_find t a) = Some n \<longleftrightarrow> n \<in> set (rt_list t) \<and> contains (rt_nodes t) n a"
proof -
  have "sorted_ranges (rt_nodes t) (inorder (rb_root t))"
    using assms by (simp add: range_tree_inv_def)
  from find_walk_Some[OF this, of a None n] show ?thesis
    by (simp add: range_node_find_def Let_def case_prod_beta range_tree_inv_set[OF assms])
qed

lemma range_node_find_miss:
  assumes inv: "range_tree_inv t" and miss: "fst (range_node_find t a) = None"
  shows "rt_list t = [] \<and> rb_root t = Leaf \<and> range_node_find t a = (None, None, None) \<or>
    (\<exists>p xs ys. rt_list t = xs @ p # ys \<and> a < node_start t p \<and> left_free p (rb_root t) \<and>
       (\<forall>x \<in> set xs. node_end t x < a) \<and> range_node_find t a = (None, Some p, Some p)) \<or>
    (\<exists>p xs ys. rt_list t = xs @ p # ys \<and> node_end t p < a \<and> right_free p (rb_root t) \<and>
       (\<forall>y \<in> set ys. a < node_start t y) \<and>
       range_node_find t a = (None, Some p, first_opt ys))"
proof (cases "rb_root t = Leaf")
  case True
  with inv show ?thesis by (auto simp: range_tree_inv_def range_node_find_def)
next
  case False
  have s: "sorted_ranges (rt_nodes t) (inorder (rb_root t))"
    and l: "inorder (rb_root t) = rt_list t"
    using inv by (auto simp: range_tree_inv_def)
  have fw: "fst (find_walk (rt_nodes t) a (rb_root t) None) = None"
    using miss by (auto simp: range_node_find_def split: prod.splits)
  from find_walk_None[OF s fw False] obtain p xs ys where
    p: "snd (find_walk (rt_nodes t) a (rb_root t) None) = Some p" "rt_list t = xs @ p # ys"
    and alt: "a < node_start t p \<and> left_free p (rb_root t) \<and> (\<forall>x \<in> set xs. node_end t x < a) \<or>
      node_end t p < a \<and> right_free p (rb_root t) \<and> (\<forall>y \<in> set ys. a < node_start t y)"
    unfolding l by blast
  from fw p(1) have walk: "find_walk (rt_nodes t) a (rb_root t) None = (None, Some p)"
    by (simp add: prod_eq_iff)
  have "p \<notin> set xs" "node_start t p \<le> node_end t p"
    using range_tree_inv_distinct[OF inv] range_tree_inv_le[OF inv] p(2) by auto
  then have nx: "uvm_range_tree_next t p = first_opt ys"
    by (simp add: uvm_range_tree_next_def p(2) list_next_split first_opt_def)
  from alt show ?thesis
  proof
    assume "a < node_start t p \<and> left_free p (rb_root t) \<and> (\<forall>x \<in> set xs. node_end t x < a)"
    with walk p show ?thesis by (auto simp: range_node_find_def)
  next
    assume *: "node_end t p < a \<and> right_free p (rb_root t) \<and> (\<forall>y \<in> set ys. a < node_start t y)"
    with \<open>node_start t p \<le> node_end t p\<close> have "\<not> a < node_start t p" by auto
    with * walk p nx show ?thesis by (auto simp: range_node_find_def)
  qed
qed

text \<open>On a miss the list splits at the address, and \<^verbatim>\<open>next\<close> heads the upper part.\<close>

lemma range_node_find_next:
  assumes inv: "range_tree_inv t" and miss: "fst (range_node_find t a) = None"
  shows "\<exists>xs ys. rt_list t = xs @ ys \<and> (\<forall>x \<in> set xs. node_end t x < a) \<and>
    (\<forall>y \<in> set ys. a < node_start t y) \<and> snd (snd (range_node_find t a)) = first_opt ys"
proof -
  have srt: "sorted_ranges (rt_nodes t) (rt_list t)"
    using inv by (simp add: range_tree_inv_def)
  from range_node_find_miss[OF assms] show ?thesis
  proof (elim disjE exE conjE)
    assume "rt_list t = []" "range_node_find t a = (None, None, None)"
    then show ?thesis by auto
  next
    fix p xs ys
    assume p: "rt_list t = xs @ p # ys" "a < node_start t p" "\<forall>x \<in> set xs. node_end t x < a"
      "range_node_find t a = (None, Some p, Some p)"
    then have "\<forall>y \<in> set (p # ys). a < node_start t y"
      using srt by (auto simp: sorted_ranges_simps intro: less_trans less_le_trans)
    with p show ?thesis by (intro exI[of _ xs] exI[of _ "p # ys"]) auto
  next
    fix p xs ys
    assume p: "rt_list t = xs @ p # ys" "node_end t p < a" "\<forall>y \<in> set ys. a < node_start t y"
      "range_node_find t a = (None, Some p, first_opt ys)"
    then have "\<forall>x \<in> set (xs @ [p]). node_end t x < a"
      using srt by (auto simp: sorted_ranges_simps intro: less_trans less_le_trans)
    with p show ?thesis by (intro exI[of _ "xs @ [p]"] exI[of _ ys]) auto
  qed
qed

section \<open>find, add, remove\<close>

lemma find_iff:
  "range_tree_inv t \<Longrightarrow>
   uvm_range_tree_find t a = Some n \<longleftrightarrow>
     n \<in> set (rt_list t) \<and> node_start t n \<le> a \<and> a \<le> node_end t n"
  by (simp add: uvm_range_tree_find_def range_node_find_Some contains_def)

definition is_free :: "uvm_range_tree \<Rightarrow> node_id \<Rightarrow> bool" where
  "is_free t n \<longleftrightarrow> (\<forall>x \<in> set (rt_list t). \<not> range_nodes_overlap t n x)"

lemma no_overlap_iff:
  "\<not> range_nodes_overlap t n x \<longleftrightarrow> node_end t n < node_start t x \<or> node_end t x < node_start t n"
  by (auto simp: range_nodes_overlap_def uvm_ranges_overlap_def)

text \<open>
  The outcome of an insertion: it fails exactly when the new range overlaps one in the
  tree, leaving the tree as it was; otherwise the node is linked in its place.
\<close>

lemma add_cases:
  assumes inv: "range_tree_inv t" and ok: "rb_ops_ok rb"
    and new: "n \<notin> set (rt_list t)" and le: "node_start t n \<le> node_end t n"
  shows "\<not> is_free t n \<and> uvm_range_tree_add rb t n = (NV_ERR_UVM_ADDRESS_IN_USE, t) \<or>
    is_free t n \<and> (\<exists>t' xs ys. uvm_range_tree_add rb t n = (NV_OK, t') \<and> range_tree_inv t' \<and>
      rt_list t = xs @ ys \<and> rt_list t' = xs @ n # ys \<and> rt_nodes t' = rt_nodes t)"
proof (cases "fst (range_node_find t (node_start t n))")
  case (Some x)
  then have "x \<in> set (rt_list t)" "contains (rt_nodes t) x (node_start t n)"
    using range_node_find_Some[OF inv] by auto
  moreover from this le have "range_nodes_overlap t n x"
    by (auto simp: range_nodes_overlap_def uvm_ranges_overlap_def contains_def)
  ultimately have "\<not> is_free t n"
    by (auto simp: is_free_def)
  moreover have "uvm_range_tree_add rb t n = (NV_ERR_UVM_ADDRESS_IN_USE, t)"
    using Some by (auto simp: uvm_range_tree_add_def split: prod.splits)
  ultimately show ?thesis by blast
next
  case None
  have srt: "sorted_ranges (rt_nodes t) (rt_list t)" and io: "inorder (rb_root t) = rt_list t"
    using inv by (auto simp: range_tree_inv_def)
  have dist: "distinct (inorder (rb_root t))" and nin: "n \<notin> set_tree (rb_root t)"
    using range_tree_inv_distinct[OF inv] new range_tree_inv_set[OF inv] io by auto
  from range_node_find_miss[OF inv None] show ?thesis
  proof (elim disjE exE conjE)
    assume "rt_list t = []" "rb_root t = Leaf" "range_node_find t (node_start t n) = (None, None, None)"
    with ok le show ?thesis
      by (auto simp: is_free_def uvm_range_tree_add_def range_tree_inv_def rb_ops_ok_def sorted_ranges_Cons)
  next
    fix p xs ys
    assume p: "rt_list t = xs @ p # ys" "node_start t n < node_start t p"
      "left_free p (rb_root t)" "\<forall>x \<in> set xs. node_end t x < node_start t n"
      "range_node_find t (node_start t n) = (None, Some p, Some p)"
    have pxs: "p \<notin> set xs" using range_tree_inv_distinct[OF inv] p(1) by auto
    show ?thesis
    proof (cases "range_nodes_overlap t n p")
      case True
      with p show ?thesis by (auto simp: is_free_def uvm_range_tree_add_def)
    next
      case False
      with p(2) le have np: "node_end t n < node_start t p"
        using range_tree_inv_le[OF inv, of p] p(1) by (auto simp: no_overlap_iff)
      have "\<forall>y \<in> set ys. node_end t n < node_start t y"
        using np srt p(1) by (auto simp: sorted_ranges_simps intro: less_trans less_le_trans)
      with np p(4) have free: "is_free t n"
        by (auto simp: is_free_def no_overlap_iff p(1))
      let ?t = "t\<lparr>rb_root := rb_insert rb n (RbLeft p) (rb_root t), rt_list := xs @ n # p # ys\<rparr>"
      have "inorder (rb_root ?t) = rt_list ?t"
        using ok dist nin p(3) pxs
        by (simp add: rb_ops_ok_def io) (simp add: p(1) list_add_before_split)
      moreover have "sorted_ranges (rt_nodes t) (xs @ n # p # ys)"
        using srt p(4) np le \<open>\<forall>y \<in> set ys. node_end t n < node_start t y\<close>
        by (auto simp: p(1) sorted_ranges_simps)
      ultimately have "range_tree_inv ?t" by (simp add: range_tree_inv_def)
      moreover have "uvm_range_tree_add rb t n = (NV_OK, ?t)"
        using False p by (simp add: uvm_range_tree_add_def list_add_before_split pxs)
      ultimately show ?thesis using free p(1) by auto
    qed
  next
    fix p xs ys
    assume p: "rt_list t = xs @ p # ys" "node_end t p < node_start t n"
      "right_free p (rb_root t)" "\<forall>y \<in> set ys. node_start t n < node_start t y"
      "range_node_find t (node_start t n) = (None, Some p, first_opt ys)"
    have pxs: "p \<notin> set xs" and ple: "node_start t p \<le> node_end t p"
      using range_tree_inv_distinct[OF inv] range_tree_inv_le[OF inv] p(1) by auto
    have nx: "uvm_range_tree_next t p = first_opt ys"
      by (simp add: uvm_range_tree_next_def p(1) list_next_split[OF pxs] first_opt_def)
    have nop: "\<not> range_nodes_overlap t n p" "\<not> node_start t n < node_start t p"
      using p(2) ple by (auto simp: no_overlap_iff)
    have xsn: "\<forall>x \<in> set xs. node_end t x < node_start t n"
      using p(2) ple srt by (auto simp: p(1) sorted_ranges_simps intro: less_trans less_le_trans)
    show ?thesis
    proof (cases "\<exists>q zs. ys = q # zs \<and> range_nodes_overlap t n q")
      case True
      with p nop nx show ?thesis by (auto simp: is_free_def uvm_range_tree_add_def)
    next
      case False
      have nys: "\<forall>y \<in> set ys. node_end t n < node_start t y"
      proof (cases ys)
        case (Cons q zs)
        with False p(4) have "node_end t n < node_start t q"
          using range_tree_inv_le[OF inv, of q] by (auto simp: no_overlap_iff p(1))
        with srt show ?thesis
          by (auto simp: p(1) Cons sorted_ranges_simps intro: less_trans less_le_trans)
      qed simp
      with xsn p(2) have free: "is_free t n"
        by (auto simp: is_free_def no_overlap_iff p(1))
      let ?t = "t\<lparr>rb_root := rb_insert rb n (RbRight p) (rb_root t), rt_list := xs @ p # n # ys\<rparr>"
      have "inorder (rb_root ?t) = rt_list ?t"
        using ok dist nin p(3) pxs
        by (simp add: rb_ops_ok_def io) (simp add: p(1) list_add_after_split)
      moreover have "sorted_ranges (rt_nodes t) (xs @ p # n # ys)"
        using srt p(2) xsn nys le by (auto simp: p(1) sorted_ranges_simps)
      ultimately have "range_tree_inv ?t" by (simp add: range_tree_inv_def)
      moreover have "uvm_range_tree_add rb t n = (NV_OK, ?t)"
        using False p nop nx
        by (cases ys) (auto simp: uvm_range_tree_add_def list_add_after_split pxs)
      ultimately show ?thesis using free p(1)
        by (intro disjI2 conjI exI[of _ ?t] exI[of _ "xs @ [p]"] exI[of _ ys]) auto
    qed
  qed
qed

lemma remove_list:
  "rt_list (uvm_range_tree_remove rb t n) = remove1 n (rt_list t)"
  "rt_nodes (uvm_range_tree_remove rb t n) = rt_nodes t"
  by (simp_all add: uvm_range_tree_remove_def)

lemma remove_inv:
  assumes "range_tree_inv t" "rb_ops_ok rb"
  shows "range_tree_inv (uvm_range_tree_remove rb t n)"
  using assms range_tree_inv_distinct[OF assms(1)]
  by (simp add: range_tree_inv_def rb_ops_ok_def uvm_range_tree_remove_def sorted_ranges_remove1)

lemma set_remove:
  "range_tree_inv t \<Longrightarrow> set (rt_list (uvm_range_tree_remove rb t n)) = set (rt_list t) - {n}"
  by (simp add: remove_list range_tree_inv_distinct)

section \<open>In-place updates of a node\<close>

lemma node_updates [simp]:
  "rt_list (set_start n a t) = rt_list t" "rt_list (set_end n a t) = rt_list t"
  "rb_root (set_start n a t) = rb_root t" "rb_root (set_end n a t) = rb_root t"
  "node_start (set_start n a t) x = (if x = n then a else node_start t x)"
  "node_end (set_start n a t) x = node_end t x"
  "node_start (set_end n a t) x = node_start t x"
  "node_end (set_end n a t) x = (if x = n then a else node_end t x)"
  by (simp_all add: set_start_def set_end_def)

lemma inv_update_unlinked:
  "n \<notin> set (rt_list t) \<Longrightarrow> range_tree_inv (set_start n a t) = range_tree_inv t"
  "n \<notin> set (rt_list t) \<Longrightarrow> range_tree_inv (set_end n a t) = range_tree_inv t"
  unfolding range_tree_inv_def
  by (auto simp: set_start_def set_end_def cong: sorted_ranges_cong)
     (auto elim!: sorted_ranges_cong[THEN iffD1, rotated])

lemma sorted_ranges_subrange:
  assumes "sorted_ranges m (xs @ n # ys)"
    and "rn_start (m n) \<le> rn_start r" "rn_start r \<le> rn_end r" "rn_end r \<le> rn_end (m n)"
  shows "sorted_ranges (m(n := r)) (xs @ n # ys)"
proof -
  have nin: "n \<notin> set xs" "n \<notin> set ys"
    using sorted_ranges_distinct[OF assms(1)] by auto
  then have "sorted_ranges (m(n := r)) xs = sorted_ranges m xs"
    "sorted_ranges (m(n := r)) ys = sorted_ranges m ys"
    by (auto intro!: sorted_ranges_cong)
  with assms nin show ?thesis
    by (auto simp: sorted_ranges_simps intro: less_le_trans le_less_trans)
qed

lemma shrink_inv:
  assumes inv: "range_tree_inv t" and n: "n \<in> set (rt_list t)"
    and "node_start t n \<le> a" "a \<le> b" "b \<le> node_end t n"
  shows "range_tree_inv (uvm_range_tree_shrink_node t n a b)"
proof -
  obtain xs ys where l: "rt_list t = xs @ n # ys" using split_list[OF n] by blast
  have "sorted_ranges ((rt_nodes t)(n := (rt_nodes t n)\<lparr>rn_start := a, rn_end := b\<rparr>)) (rt_list t)"
    unfolding l by (rule sorted_ranges_subrange) (use assms l in \<open>auto simp: range_tree_inv_def\<close>)
  then show ?thesis
    using inv by (simp add: uvm_range_tree_shrink_node_def range_tree_inv_def set_start_def set_end_def)
qed

lemma shrink_fields:
  "rt_list (uvm_range_tree_shrink_node t n a b) = rt_list t"
  "node_start (uvm_range_tree_shrink_node t n a b) x = (if x = n then a else node_start t x)"
  "node_end (uvm_range_tree_shrink_node t n a b) x = (if x = n then b else node_end t x)"
  by (simp_all add: uvm_range_tree_shrink_node_def)

section \<open>The addresses a tree covers\<close>

definition covered :: "uvm_range_tree \<Rightarrow> u64 set" where
  "covered t = (\<Union>n \<in> set (rt_list t). {node_start t n .. node_end t n})"

lemma in_covered: "a \<in> covered t \<longleftrightarrow> (\<exists>n \<in> set (rt_list t). node_start t n \<le> a \<and> a \<le> node_end t n)"
  by (auto simp: covered_def)

lemma nodes_disjoint:
  assumes "range_tree_inv t" "x \<in> set (rt_list t)" "y \<in> set (rt_list t)"
    "node_start t x \<le> a" "a \<le> node_end t x" "node_start t y \<le> a" "a \<le> node_end t y"
  shows "x = y"
  using assms find_iff[OF assms(1), of a] by (metis option.inject)

section \<open>split and merge\<close>

lemma split_correct:
  assumes inv: "range_tree_inv t" and ok: "rb_ops_ok rb"
    and e: "e \<in> set (rt_list t)" and new: "n \<notin> set (rt_list t)"
    and gt: "node_start t e < node_start t n" and le: "node_start t n \<le> node_end t e"
  shows "\<exists>t'. uvm_range_tree_split rb t e n = (NV_OK, t') \<and> range_tree_inv t' \<and>
    set (rt_list t') = insert n (set (rt_list t)) \<and>
    node_end t' e = node_start t n - 1 \<and> node_end t' n = node_end t e \<and>
    (\<forall>x. node_start t' x = node_start t x) \<and>
    (\<forall>x. x \<noteq> e \<longrightarrow> x \<noteq> n \<longrightarrow> node_end t' x = node_end t x)"
proof -
  have ne: "e \<noteq> n" using e new by auto
  obtain xs ys where l: "rt_list t = xs @ e # ys" using split_list[OF e] by blast
  define b where "b = node_start t n - 1"
  have b: "node_start t e \<le> b" "b < node_start t n" "b \<le> node_end t e"
    using gt le unfolding b_def by (auto intro: word_less_imp_le_minus_1) unat_arith+
  define t1 where "t1 = set_end n (node_end t e) t"
  have inv1: "range_tree_inv t1"
    using inv new by (simp add: t1_def inv_update_unlinked)
  have e1: "e \<in> set (rt_list t1)" and e1r: "node_start t1 e = node_start t e" "node_end t1 e = node_end t e"
    using e ne by (simp_all add: t1_def)
  define t2 where "t2 = set_end e b t1"
  have t2: "t2 = uvm_range_tree_shrink_node t1 e (node_start t1 e) b"
    by (simp add: t2_def uvm_range_tree_shrink_node_def set_start_def set_end_def)
  have inv2: "range_tree_inv t2"
    unfolding t2 by (rule shrink_inv) (use inv1 e1 e1r b in auto)
  have l2: "rt_list t2 = rt_list t" by (simp add: t2_def t1_def)
  have r2: "node_start t2 x = node_start t x"
    "node_end t2 x = (if x = e then b else if x = n then node_end t e else node_end t x)" for x
    using ne by (simp_all add: t2_def t1_def)
  have srt: "sorted_ranges (rt_nodes t) (xs @ e # ys)"
    using inv by (simp add: range_tree_inv_def l)
  have free: "is_free t2 n"
    unfolding is_free_def no_overlap_iff l2
  proof
    fix x assume "x \<in> set (rt_list t)"
    then consider "x \<in> set xs" | "x = e" | "x \<in> set ys" by (auto simp: l)
    then show "node_end t2 n < node_start t2 x \<or> node_end t2 x < node_start t2 n"
    proof cases
      case 1
      then have "node_end t x < node_start t n" "x \<noteq> n" "x \<noteq> e"
        using srt gt new ne sorted_ranges_distinct[OF srt] l
        by (auto simp: sorted_ranges_simps intro: less_trans)
      then show ?thesis by (simp add: r2)
    next
      case 2
      then show ?thesis using b by (simp add: r2)
    next
      case 3
      then have "node_end t e < node_start t x" using srt by (auto simp: sorted_ranges_simps)
      then show ?thesis using ne by (simp add: r2)
    qed
  qed
  have "n \<notin> set (rt_list t2)" "node_start t2 n \<le> node_end t2 n"
    using new le ne by (simp_all add: l2 r2)
  from add_cases[OF inv2 ok this] free obtain t' us vs where
    "uvm_range_tree_add rb t2 n = (NV_OK, t')" "range_tree_inv t'"
    "rt_list t2 = us @ vs" "rt_list t' = us @ n # vs" "rt_nodes t' = rt_nodes t2"
    by blast
  moreover have "uvm_range_tree_split rb t e n = uvm_range_tree_add rb t2 n"
    by (simp add: uvm_range_tree_split_def t1_def t2_def b_def)
  moreover have "set (rt_list t) = set us \<union> set vs"
    using \<open>rt_list t2 = us @ vs\<close> l2 by auto
  ultimately show ?thesis
    using ne by (intro exI[of _ t']) (auto simp: r2 b_def)
qed

lemma merge_prev_cases:
  assumes inv: "range_tree_inv t" and ok: "rb_ops_ok rb" and n: "n \<in> set (rt_list t)"
  shows "(\<exists>p t'. uvm_range_tree_merge_prev rb t n = (Some p, t') \<and> p \<in> set (rt_list t) \<and>
      node_end t p < node_start t n \<and> node_end t p + 1 = node_start t n \<and>
      range_tree_inv t' \<and> set (rt_list t') = set (rt_list t) - {p} \<and> p \<noteq> n \<and>
      rt_nodes t' = rt_nodes (set_start n (node_start t p) t)) \<or>
    uvm_range_tree_merge_prev rb t n = (None, t) \<and>
      (\<forall>p \<in> set (rt_list t). node_end t p < node_start t n \<longrightarrow> node_end t p + 1 \<noteq> node_start t n)"
proof -
  obtain xs ys where l: "rt_list t = xs @ n # ys" using split_list[OF n] by blast
  have dist: "distinct (rt_list t)" using range_tree_inv_distinct[OF inv] .
  have srt: "sorted_ranges (rt_nodes t) (xs @ n # ys)"
    using inv by (simp add: range_tree_inv_def l)
  have pv: "uvm_range_tree_prev t n = (if xs = [] then None else Some (last xs))"
    using dist by (simp add: uvm_range_tree_prev_def l list_prev_split)
  have above: "\<not> node_end t y < node_start t n" if "y = n \<or> y \<in> set ys" for y
    using that srt range_tree_inv_le[OF inv, of y]
    by (auto simp: l sorted_ranges_simps not_less)
  show ?thesis
  proof (cases xs rule: rev_cases)
    case Nil
    with pv above show ?thesis by (auto simp: uvm_range_tree_merge_prev_def l)
  next
    case (snoc zs p)
    have plt: "node_end t p < node_start t n"
      and zlt: "\<forall>z \<in> set zs. node_end t z < node_start t p"
      using srt by (auto simp: snoc sorted_ranges_simps)
    show ?thesis
    proof (cases "node_end t p + 1 = node_start t n")
      case False
      have "node_end t z + 1 \<noteq> node_start t n" if "z \<in> set zs" for z
      proof -
        have "node_end t z < node_start t p" "node_start t p \<le> node_end t p"
          using that zlt srt by (auto simp: snoc sorted_ranges_simps)
        with plt show ?thesis by unat_arith
      qed
      moreover have "node_end t p \<noteq> node_start t n - 1" using False by auto
      ultimately show ?thesis using False pv above
        by (fastforce simp: uvm_range_tree_merge_prev_def l snoc)
    next
      case True
      define t' where "t' = set_start n (node_start t p) (uvm_range_tree_remove rb t p)"
      have l': "rt_list t' = zs @ n # ys"
        using dist by (simp add: t'_def remove_list l snoc remove1_append)
      have nn: "rt_nodes t' = rt_nodes (set_start n (node_start t p) t)"
        by (simp add: t'_def set_start_def remove_list)
      have nin: "n \<notin> set zs" "n \<notin> set ys" using dist by (auto simp: l snoc)
      have "sorted_ranges (rt_nodes t') zs = sorted_ranges (rt_nodes t) zs"
        "sorted_ranges (rt_nodes t') ys = sorted_ranges (rt_nodes t) ys"
        using nin by (auto simp: nn set_start_def intro!: sorted_ranges_cong)
      with srt zlt nin plt have "sorted_ranges (rt_nodes t') (zs @ n # ys)"
        by (auto simp: nn set_start_def snoc sorted_ranges_simps intro: order.trans less_imp_le)
      moreover have "inorder (rb_root t') = rt_list t'"
        using remove_inv[OF inv ok, of p] by (simp add: t'_def range_tree_inv_def)
      ultimately have "range_tree_inv t'" by (simp add: range_tree_inv_def l')
      moreover have "node_end t p = node_start t n - 1" using True by (metis add_diff_cancel_right')
      then have "uvm_range_tree_merge_prev rb t n = (Some p, t')"
        using pv by (simp add: uvm_range_tree_merge_prev_def snoc t'_def)
      moreover have "set (rt_list t') = set (rt_list t) - {p}" "p \<noteq> n"
        using dist by (auto simp: l' l snoc)
      ultimately show ?thesis using True plt nn by (auto simp: l snoc)
    qed
  qed
qed

lemma merge_next_cases:
  assumes inv: "range_tree_inv t" and ok: "rb_ops_ok rb" and n: "n \<in> set (rt_list t)"
  shows "(\<exists>q t'. uvm_range_tree_merge_next rb t n = (Some q, t') \<and> q \<in> set (rt_list t) \<and>
      node_end t n < node_start t q \<and> node_end t n + 1 = node_start t q \<and>
      range_tree_inv t' \<and> set (rt_list t') = set (rt_list t) - {q} \<and> q \<noteq> n \<and>
      rt_nodes t' = rt_nodes (set_end n (node_end t q) t)) \<or>
    uvm_range_tree_merge_next rb t n = (None, t) \<and>
      (\<forall>q \<in> set (rt_list t). node_end t n < node_start t q \<longrightarrow> node_end t n + 1 \<noteq> node_start t q)"
proof -
  obtain xs ys where l: "rt_list t = xs @ n # ys" using split_list[OF n] by blast
  have dist: "distinct (rt_list t)" using range_tree_inv_distinct[OF inv] .
  have srt: "sorted_ranges (rt_nodes t) (xs @ n # ys)"
    using inv by (simp add: range_tree_inv_def l)
  have nx: "uvm_range_tree_next t n = first_opt ys"
    using dist by (simp add: uvm_range_tree_next_def l list_next_split first_opt_def)
  have below: "\<not> node_end t n < node_start t x" if "x = n \<or> x \<in> set xs" for x
    using that srt range_tree_inv_le[OF inv, of x]
    by (auto simp: l sorted_ranges_simps not_less)
  show ?thesis
  proof (cases ys)
    case Nil
    with nx below show ?thesis by (auto simp: uvm_range_tree_merge_next_def l)
  next
    case (Cons q zs)
    have qlt: "node_end t n < node_start t q" and qle: "node_start t q \<le> node_end t q"
      and zlt: "\<forall>z \<in> set zs. node_end t q < node_start t z"
      using srt by (auto simp: Cons sorted_ranges_simps)
    show ?thesis
    proof (cases "node_end t n + 1 = node_start t q")
      case False
      have "node_end t n + 1 \<noteq> node_start t z" if "z \<in> set zs" for z
      proof -
        have "node_end t q < node_start t z" using that zlt by auto
        with qlt qle show ?thesis by unat_arith
      qed
      with False nx below show ?thesis
        by (fastforce simp: uvm_range_tree_merge_next_def l Cons)
    next
      case True
      define t' where "t' = set_end n (node_end t q) (uvm_range_tree_remove rb t q)"
      have l': "rt_list t' = xs @ n # zs"
        using dist by (simp add: t'_def remove_list l Cons remove1_append)
      have nn: "rt_nodes t' = rt_nodes (set_end n (node_end t q) t)"
        by (simp add: t'_def set_end_def remove_list)
      have nin: "n \<notin> set xs" "n \<notin> set zs" using dist by (auto simp: l Cons)
      have "sorted_ranges (rt_nodes t') xs = sorted_ranges (rt_nodes t) xs"
        "sorted_ranges (rt_nodes t') zs = sorted_ranges (rt_nodes t) zs"
        using nin by (auto simp: nn set_end_def intro!: sorted_ranges_cong)
      with srt zlt nin qlt qle have "sorted_ranges (rt_nodes t') (xs @ n # zs)"
        by (auto simp: nn set_end_def Cons sorted_ranges_simps)
      moreover have "inorder (rb_root t') = rt_list t'"
        using remove_inv[OF inv ok, of q] by (simp add: t'_def range_tree_inv_def)
      ultimately have "range_tree_inv t'" by (simp add: range_tree_inv_def l')
      moreover have "uvm_range_tree_merge_next rb t n = (Some q, t')"
        using nx True by (simp add: uvm_range_tree_merge_next_def Cons t'_def)
      moreover have "set (rt_list t') = set (rt_list t) - {q}" "q \<noteq> n"
        using dist by (auto simp: l' l Cons)
      ultimately show ?thesis using True qlt nn by (auto simp: l Cons)
    qed
  qed
qed

lemma merge_find:
  assumes inv: "range_tree_inv t" and inv': "range_tree_inv t'"
    and n: "n \<in> set (rt_list t)" and p: "p \<in> set (rt_list t)" "p \<noteq> n"
    and l: "set (rt_list t') = set (rt_list t) - {p}"
    and others: "\<And>x. x \<noteq> n \<Longrightarrow> node_start t' x = node_start t x \<and> node_end t' x = node_end t x"
    and cover: "\<And>a. node_start t' n \<le> a \<and> a \<le> node_end t' n \<longleftrightarrow>
      node_start t n \<le> a \<and> a \<le> node_end t n \<or> node_start t p \<le> a \<and> a \<le> node_end t p"
  shows "uvm_range_tree_find t' a =
    (if uvm_range_tree_find t a = Some p then Some n else uvm_range_tree_find t a)"
proof -
  have "uvm_range_tree_find t' a = Some x \<longleftrightarrow>
      (if uvm_range_tree_find t a = Some p then x = n else uvm_range_tree_find t a = Some x)" for x
  proof (cases "x = n")
    case True
    then show ?thesis
      using find_iff[OF inv', of a] find_iff[OF inv, of a] n p l cover[of a] by auto
  next
    case False
    then show ?thesis
      using find_iff[OF inv', of a] find_iff[OF inv, of a] n p l others[of x]
      by (auto dest: nodes_disjoint[OF inv])
  qed
  then show ?thesis by (metis not_None_eq)
qed

lemma merge_prev_find:
  assumes inv: "range_tree_inv t" and ok: "rb_ops_ok rb" and n: "n \<in> set (rt_list t)"
    and m: "uvm_range_tree_merge_prev rb t n = (p, t')"
  shows "range_tree_inv t' \<and>
    (p = None \<longleftrightarrow> node_start t n = 0 \<or> uvm_range_tree_find t (node_start t n - 1) = None) \<and>
    (\<forall>a. uvm_range_tree_find t' a =
       (if p \<noteq> None \<and> uvm_range_tree_find t a = p then Some n else uvm_range_tree_find t a))"
proof (cases p)
  case (Some x)
  with merge_prev_cases[OF inv ok n] m have x: "x \<in> set (rt_list t)" "x \<noteq> n"
    "node_end t x < node_start t n" "node_end t x + 1 = node_start t n" "range_tree_inv t'"
    "set (rt_list t') = set (rt_list t) - {x}"
    "rt_nodes t' = rt_nodes (set_start n (node_start t x) t)" by auto
  have le: "node_start t x \<le> node_end t x" "node_start t n \<le> node_end t n"
    using range_tree_inv_le[OF inv] x(1) n by auto
  have "node_start t n \<noteq> 0" using x(3) by auto
  moreover have "node_start t n - 1 = node_end t x" using x(4) by (metis add_diff_cancel_right')
  then have "uvm_range_tree_find t (node_start t n - 1) = Some x"
    using find_iff[OF inv] x(1) le by simp
  moreover have "uvm_range_tree_find t' a =
      (if uvm_range_tree_find t a = Some x then Some n else uvm_range_tree_find t a)" for a
  proof (rule merge_find[OF inv x(5) n x(1,2,6)])
    show "node_start t' n \<le> a \<and> a \<le> node_end t' n \<longleftrightarrow>
        node_start t n \<le> a \<and> a \<le> node_end t n \<or> node_start t x \<le> a \<and> a \<le> node_end t x" for a
      using x(3,4,7) le by simp unat_arith
  qed (use x(7) in auto)
  ultimately show ?thesis using x(5) Some by simp
next
  case None
  with merge_prev_cases[OF inv ok n] m have t': "t' = t" and
    no: "\<forall>p \<in> set (rt_list t). node_end t p < node_start t n \<longrightarrow> node_end t p + 1 \<noteq> node_start t n"
    by auto
  have "uvm_range_tree_find t (node_start t n - 1) = None" if nz: "node_start t n \<noteq> 0"
  proof (rule ccontr)
    assume "uvm_range_tree_find t (node_start t n - 1) \<noteq> None"
    then obtain y where y: "y \<in> set (rt_list t)" "node_start t y \<le> node_start t n - 1"
        "node_start t n - 1 \<le> node_end t y" using find_iff[OF inv] by blast
    have "y \<noteq> n" using y(2) nz by (auto, unat_arith)
    then have "\<not> (node_start t y \<le> node_start t n \<and> node_start t n \<le> node_end t y)"
      using nodes_disjoint[OF inv y(1) n] range_tree_inv_le[OF inv n] by blast
    then have "node_end t y < node_start t n" "node_end t y + 1 = node_start t n"
      using y nz by unat_arith+
    with no y(1) show False by auto
  qed
  then have "node_start t n = 0 \<or> uvm_range_tree_find t (node_start t n - 1) = None" by metis
  with t' None inv show ?thesis by simp
qed

lemma merge_next_find:
  assumes inv: "range_tree_inv t" and ok: "rb_ops_ok rb" and n: "n \<in> set (rt_list t)"
    and m: "uvm_range_tree_merge_next rb t n = (q, t')"
  shows "range_tree_inv t' \<and>
    (q = None \<longleftrightarrow> node_end t n = - 1 \<or> uvm_range_tree_find t (node_end t n + 1) = None) \<and>
    (\<forall>a. uvm_range_tree_find t' a =
       (if q \<noteq> None \<and> uvm_range_tree_find t a = q then Some n else uvm_range_tree_find t a))"
proof (cases q)
  case (Some x)
  with merge_next_cases[OF inv ok n] m have x: "x \<in> set (rt_list t)" "x \<noteq> n"
    "node_end t n < node_start t x" "node_end t n + 1 = node_start t x" "range_tree_inv t'"
    "set (rt_list t') = set (rt_list t) - {x}"
    "rt_nodes t' = rt_nodes (set_end n (node_end t x) t)" by auto
  have le: "node_start t x \<le> node_end t x" "node_start t n \<le> node_end t n"
    using range_tree_inv_le[OF inv] x(1) n by auto
  have "node_end t n \<noteq> - 1" using x(3) by auto
  moreover have "uvm_range_tree_find t (node_end t n + 1) = Some x"
    using find_iff[OF inv] x(1,4) le by simp
  moreover have "uvm_range_tree_find t' a =
      (if uvm_range_tree_find t a = Some x then Some n else uvm_range_tree_find t a)" for a
  proof (rule merge_find[OF inv x(5) n x(1,2,6)])
    show "node_start t' n \<le> a \<and> a \<le> node_end t' n \<longleftrightarrow>
        node_start t n \<le> a \<and> a \<le> node_end t n \<or> node_start t x \<le> a \<and> a \<le> node_end t x" for a
      using x(3,4,7) le by simp unat_arith
  qed (use x(7) in auto)
  ultimately show ?thesis using x(5) Some by simp
next
  case None
  with merge_next_cases[OF inv ok n] m have t': "t' = t" and
    no: "\<forall>q \<in> set (rt_list t). node_end t n < node_start t q \<longrightarrow> node_end t n + 1 \<noteq> node_start t q"
    by auto
  have "uvm_range_tree_find t (node_end t n + 1) = None" if nz: "node_end t n \<noteq> - 1"
  proof (rule ccontr)
    assume "uvm_range_tree_find t (node_end t n + 1) \<noteq> None"
    then obtain y where y: "y \<in> set (rt_list t)" "node_start t y \<le> node_end t n + 1"
        "node_end t n + 1 \<le> node_end t y" using find_iff[OF inv] by blast
    have lt: "node_end t n < node_end t n + 1"
      using nz by (rule word_less_plus_1)
    have "y \<noteq> n" using y(3) lt by auto
    then have "\<not> (node_start t y \<le> node_end t n \<and> node_end t n \<le> node_end t y)"
      using nodes_disjoint[OF inv y(1) n] range_tree_inv_le[OF inv n] by blast
    then have "node_end t n < node_start t y" "node_end t n + 1 = node_start t y"
      using y lt by unat_arith+
    with no y(1) show False by auto
  qed
  then have "node_end t n = - 1 \<or> uvm_range_tree_find t (node_end t n + 1) = None" by metis
  with t' None inv show ?thesis by simp
qed

section \<open>Iteration\<close>

lemma for_each_from_Some:
  assumes "rt_list t = xs @ n # ys" "distinct (rt_list t)" "length ys < k"
  shows "for_each_from k t e (Some n) = n # takeWhile (\<lambda>q. node_start t q \<le> e) ys"
  using assms
proof (induction ys arbitrary: xs n k)
  case Nil
  then obtain j where "k = Suc j" by (cases k) auto
  with Nil show ?case
    by (simp add: uvm_range_tree_iter_next_def uvm_range_tree_next_def list_next_split)
next
  case (Cons q zs)
  then obtain j where k: "k = Suc j" "length zs < j" by (cases k) auto
  have nx: "uvm_range_tree_next t n = Some q"
    using Cons.prems by (simp add: uvm_range_tree_next_def list_next_split)
  have "for_each_from j t e (Some q) = q # takeWhile (\<lambda>q. node_start t q \<le> e) zs"
    using Cons.IH[of "xs @ [n]" q j] Cons.prems k by simp
  with k nx show ?case by (simp add: uvm_range_tree_iter_next_def)
qed

lemma takeWhile_start:
  assumes "sorted_ranges m ns"
  shows "takeWhile (\<lambda>q. rn_start (m q) \<le> e) ns = filter (\<lambda>q. rn_start (m q) \<le> e) ns"
  using assms
proof (induction ns)
  case (Cons x xs)
  then have "\<not> rn_start (m x) \<le> e \<Longrightarrow> \<forall>y \<in> set xs. \<not> rn_start (m y) \<le> e"
    by (auto simp: sorted_ranges_Cons) (meson less_imp_le order.trans)
  with Cons show ?case by (auto simp: sorted_ranges_Cons)
qed simp

text \<open>The loop visits, in address order, exactly the nodes that overlap the range.\<close>

lemma for_each_in_filter:
  assumes inv: "range_tree_inv t" and se: "s \<le> e"
  shows "uvm_range_tree_for_each_in t s e =
    filter (\<lambda>n. uvm_ranges_overlap (node_start t n) (node_end t n) s e) (rt_list t)"
proof -
  have srt: "sorted_ranges (rt_nodes t) (rt_list t)" and dist: "distinct (rt_list t)"
    using inv range_tree_inv_distinct[OF inv] by (auto simp: range_tree_inv_def)
  have main: "for_each_from (length (rt_list t)) t e (Some q) =
      filter (\<lambda>n. uvm_ranges_overlap (node_start t n) (node_end t n) s e) (rt_list t)"
    if l: "rt_list t = xs @ q # ys" and "\<forall>x \<in> set xs. node_end t x < s"
      and q: "s \<le> node_end t q" "node_start t q \<le> e" for q xs ys
  proof -
    have "\<forall>y \<in> set ys. s \<le> node_end t y"
      using srt q range_tree_inv_le[OF inv]
      by (auto simp: l sorted_ranges_simps) (meson less_imp_le order.trans)
    then have "filter (\<lambda>n. uvm_ranges_overlap (node_start t n) (node_end t n) s e) ys =
        filter (\<lambda>n. node_start t n \<le> e) ys"
      by (intro filter_cong) (auto simp: uvm_ranges_overlap_def)
    moreover have "filter (\<lambda>n. uvm_ranges_overlap (node_start t n) (node_end t n) s e) xs = []"
      using that(2) by (auto simp: uvm_ranges_overlap_def filter_empty_conv)
    ultimately show ?thesis
      using q for_each_from_Some[OF l dist, of "length (rt_list t)" e] srt
      by (simp add: l uvm_ranges_overlap_def takeWhile_start sorted_ranges_simps)
  qed
  show ?thesis
  proof (cases "fst (range_node_find t s)")
    case (Some q)
    then have q: "q \<in> set (rt_list t)" "node_start t q \<le> s" "s \<le> node_end t q"
      using range_node_find_Some[OF inv] by (auto simp: contains_def)
    obtain xs ys where l: "rt_list t = xs @ q # ys" using split_list[OF q(1)] by blast
    have "\<forall>x \<in> set xs. node_end t x < s"
      using srt q(2) by (auto simp: l sorted_ranges_simps intro: less_le_trans)
    moreover have "uvm_range_tree_iter_first t s e = Some q"
      using Some by (auto simp: uvm_range_tree_iter_first_def split: prod.splits)
    ultimately show ?thesis
      using main[OF l] q se by (auto simp: uvm_range_tree_for_each_in_def)
  next
    case None
    from range_node_find_next[OF inv None] obtain xs ys where
      l: "rt_list t = xs @ ys" "\<forall>x \<in> set xs. node_end t x < s" "\<forall>y \<in> set ys. s < node_start t y"
      and nx: "snd (snd (range_node_find t s)) = first_opt ys" by blast
    have it: "uvm_range_tree_iter_first t s e =
      (case first_opt ys of None \<Rightarrow> None | Some q \<Rightarrow> if node_start t q \<le> e then Some q else None)"
      using None nx by (auto simp: uvm_range_tree_iter_first_def split: prod.splits option.splits)
    show ?thesis
    proof (cases "\<exists>q zs. ys = q # zs \<and> node_start t q \<le> e")
      case True
      then obtain q zs where q: "ys = q # zs" "node_start t q \<le> e" by blast
      have "s \<le> node_end t q"
        using l q range_tree_inv_le[OF inv, of q] by (auto intro: less_imp_le less_le_trans)
      then show ?thesis
        using main[of xs q zs] l q it by (simp add: uvm_range_tree_for_each_in_def)
    next
      case False
      have "\<forall>y \<in> set ys. \<not> node_start t y \<le> e"
      proof (cases ys)
        case (Cons q zs)
        with False srt show ?thesis
          by (auto simp: l sorted_ranges_simps)
      qed simp
      with l(1,2) have "filter (\<lambda>n. uvm_ranges_overlap (node_start t n) (node_end t n) s e) (rt_list t) = []"
        by (auto simp: uvm_ranges_overlap_def filter_empty_conv)
      moreover have "uvm_range_tree_iter_first t s e = None"
        using False it by (cases ys) auto
      ultimately show ?thesis by (simp add: uvm_range_tree_for_each_in_def)
    qed
  qed
qed

section \<open>The interface other components use\<close>

text \<open>
  A store of disjoint address ranges: what a lookup returns, when an insertion succeeds and
  what both updates do to the set of nodes. The clients' facts are about lookups only.
\<close>

locale range_store =
  fixes inv :: "'t \<Rightarrow> bool"
    and nodes :: "'t \<Rightarrow> 'n set"
    and lo :: "'t \<Rightarrow> 'n \<Rightarrow> u64"
    and hi :: "'t \<Rightarrow> 'n \<Rightarrow> u64"
    and find :: "'t \<Rightarrow> u64 \<Rightarrow> 'n option"
    and add :: "'t \<Rightarrow> 'n \<Rightarrow> nv_status \<times> 't"
    and remove :: "'t \<Rightarrow> 'n \<Rightarrow> 't"
  assumes find_spec:
      "inv t \<Longrightarrow> find t a = Some n \<longleftrightarrow> n \<in> nodes t \<and> lo t n \<le> a \<and> a \<le> hi t n"
    and nonempty: "inv t \<Longrightarrow> n \<in> nodes t \<Longrightarrow> lo t n \<le> hi t n"
    and add_fail:
      "inv t \<Longrightarrow> n \<notin> nodes t \<Longrightarrow> lo t n \<le> hi t n \<Longrightarrow>
       \<exists>x \<in> nodes t. uvm_ranges_overlap (lo t n) (hi t n) (lo t x) (hi t x) \<Longrightarrow>
       add t n = (NV_ERR_UVM_ADDRESS_IN_USE, t)"
    and add_ok:
      "inv t \<Longrightarrow> n \<notin> nodes t \<Longrightarrow> lo t n \<le> hi t n \<Longrightarrow>
       \<forall>x \<in> nodes t. \<not> uvm_ranges_overlap (lo t n) (hi t n) (lo t x) (hi t x) \<Longrightarrow>
       \<exists>t'. add t n = (NV_OK, t') \<and> inv t' \<and> nodes t' = insert n (nodes t) \<and>
            lo t' = lo t \<and> hi t' = hi t"
    and remove_spec:
      "inv t \<Longrightarrow> inv (remove t n) \<and> nodes (remove t n) = nodes t - {n} \<and>
         lo (remove t n) = lo t \<and> hi (remove t n) = hi t"
begin

lemma find_None: "inv t \<Longrightarrow> find t a = None \<longleftrightarrow> (\<forall>n \<in> nodes t. \<not> (lo t n \<le> a \<and> a \<le> hi t n))"
  by (metis find_spec not_None_eq)

lemma find_lo: "inv t \<Longrightarrow> n \<in> nodes t \<Longrightarrow> find t (lo t n) = Some n"
  by (simp add: find_spec nonempty)

lemma range_free_iff:
  assumes "inv t" "a \<le> b"
  shows "(\<forall>x \<in> nodes t. \<not> uvm_ranges_overlap a b (lo t x) (hi t x)) \<longleftrightarrow>
    (\<forall>c. a \<le> c \<and> c \<le> b \<longrightarrow> find t c = None)"
  using assms nonempty[OF assms(1)]
  by (simp add: find_None uvm_ranges_overlap_iff) blast

lemma in_use_not_ok: "NV_ERR_UVM_ADDRESS_IN_USE \<noteq> NV_OK"
  by simp

lemma add_outcome:
  assumes "inv t" "n \<notin> nodes t" "lo t n \<le> hi t n"
  shows "fst (add t n) = NV_OK \<longleftrightarrow> (\<forall>c. lo t n \<le> c \<and> c \<le> hi t n \<longrightarrow> find t c = None)"
    and "fst (add t n) \<noteq> NV_OK \<Longrightarrow> add t n = (NV_ERR_UVM_ADDRESS_IN_USE, t)"
  using add_fail[OF assms] add_ok[OF assms] range_free_iff[OF assms(1,3)]
  by (metis fst_conv in_use_not_ok)+

lemma find_after_add:
  assumes "inv t" "n \<notin> nodes t" "lo t n \<le> hi t n" "add t n = (NV_OK, t')"
  shows "inv t'" "nodes t' = insert n (nodes t)"
    "find t' a = (if lo t n \<le> a \<and> a \<le> hi t n then Some n else find t a)"
proof -
  have free: "\<forall>x \<in> nodes t. \<not> uvm_ranges_overlap (lo t n) (hi t n) (lo t x) (hi t x)"
    using add_fail[OF assms(1-3)] assms(4) by fastforce
  from add_ok[OF assms(1-3) free] assms(4)
  have t': "inv t'" "nodes t' = insert n (nodes t)" "lo t' = lo t" "hi t' = hi t" by auto
  then show "inv t'" "nodes t' = insert n (nodes t)" by auto
  show "find t' a = (if lo t n \<le> a \<and> a \<le> hi t n then Some n else find t a)"
  proof (cases "lo t n \<le> a \<and> a \<le> hi t n")
    case True
    with t' find_spec[OF t'(1)] show ?thesis by auto
  next
    case False
    have "find t' a = Some x \<longleftrightarrow> find t a = Some x" for x
      using False t' assms(2) find_spec[OF t'(1)] find_spec[OF assms(1)] by auto
    with False show ?thesis by (metis not_None_eq)
  qed
qed

lemma find_after_remove:
  assumes "inv t"
  shows "find (remove t n) a = (if find t a = Some n then None else find t a)"
proof -
  have r: "inv (remove t n)" "nodes (remove t n) = nodes t - {n}"
    "lo (remove t n) = lo t" "hi (remove t n) = hi t"
    using remove_spec[OF assms, of n] by auto
  have "find (remove t n) a = Some x \<longleftrightarrow> find t a = Some x \<and> x \<noteq> n" for x
    using find_spec[OF r(1)] find_spec[OF assms] r by auto
  then show ?thesis by (metis not_None_eq)
qed

lemma remove_after_add:
  assumes "inv t" "n \<notin> nodes t" "lo t n \<le> hi t n" "add t n = (NV_OK, t')"
  shows "find (remove t' n) = find t"
proof
  fix a
  have "find t a \<noteq> Some n" using find_spec[OF assms(1)] assms(2) by blast
  moreover have "lo t n \<le> a \<Longrightarrow> a \<le> hi t n \<Longrightarrow> find t a = None"
    using add_outcome(1)[OF assms(1-3)] assms(4) by simp
  ultimately show "find (remove t' n) a = find t a"
    using find_after_add[OF assms] by (simp add: find_after_remove)
qed

end

lemma range_nodes_overlap_free:
  "is_free t n \<longleftrightarrow> (\<forall>x \<in> set (rt_list t).
     \<not> uvm_ranges_overlap (node_start t n) (node_end t n) (node_start t x) (node_end t x))"
  by (simp add: is_free_def range_nodes_overlap_def)

interpretation rt: range_store
  "\<lambda>t. rb_ops_ok rb \<and> range_tree_inv t" "\<lambda>t. set (rt_list t)" node_start node_end
  uvm_range_tree_find "uvm_range_tree_add rb" "uvm_range_tree_remove rb" for rb
proof (unfold_locales, goal_cases)
  case (1 t a n)
  then show ?case by (simp add: find_iff)
next
  case (2 t n)
  then show ?case by (simp add: range_tree_inv_le)
next
  case (3 t n)
  then show ?case using add_cases[of t rb n] by (auto simp: range_nodes_overlap_free)
next
  case (4 t n)
  then have "is_free t n" by (simp add: range_nodes_overlap_free)
  with 4 add_cases[of t rb n] obtain t' xs ys where
    "uvm_range_tree_add rb t n = (NV_OK, t')" "range_tree_inv t'"
    "rt_list t = xs @ ys" "rt_list t' = xs @ n # ys" "rt_nodes t' = rt_nodes t" by auto
  with 4 show ?case by (intro exI[of _ t']) auto
next
  case (5 t n)
  then show ?case by (simp add: remove_inv set_remove) (simp add: remove_list)
qed

section \<open>A concrete tree library, for the witnesses\<close>

text \<open>Insertion without rebalancing and deletion by joining satisfy the contract.\<close>

fun link_left :: "node_id \<Rightarrow> node_id \<Rightarrow> node_id tree \<Rightarrow> node_id tree" where
  "link_left p n Leaf = Leaf"
| "link_left p n (Node l x r) =
     (if x = p then Node (Node Leaf n Leaf) x r else Node (link_left p n l) x (link_left p n r))"

fun link_right :: "node_id \<Rightarrow> node_id \<Rightarrow> node_id tree \<Rightarrow> node_id tree" where
  "link_right p n Leaf = Leaf"
| "link_right p n (Node l x r) =
     (if x = p then Node l x (Node Leaf n Leaf) else Node (link_right p n l) x (link_right p n r))"

fun join_trees :: "'a tree \<Rightarrow> 'a tree \<Rightarrow> 'a tree" where
  "join_trees Leaf r = r"
| "join_trees (Node a x b) r = Node a x (join_trees b r)"

fun plain_erase :: "node_id \<Rightarrow> node_id tree \<Rightarrow> node_id tree" where
  "plain_erase n Leaf = Leaf"
| "plain_erase n (Node l x r) =
     (if x = n then join_trees l r else Node (plain_erase n l) x (plain_erase n r))"

definition plain_rb :: rb_ops where
  "plain_rb = \<lparr>
     rb_insert = (\<lambda>n k t. case k of RbRoot \<Rightarrow> Node Leaf n Leaf
                                   | RbLeft p \<Rightarrow> link_left p n t | RbRight p \<Rightarrow> link_right p n t),
     rb_erase = plain_erase\<rparr>"

lemma link_absent: "p \<notin> set_tree t \<Longrightarrow> link_left p n t = t \<and> link_right p n t = t"
  by (induction t) auto

lemma free_in_tree: "left_free p t \<Longrightarrow> p \<in> set_tree t" "right_free p t \<Longrightarrow> p \<in> set_tree t"
  by (induction t) (auto split: if_splits)

lemma list_add_append:
  "p \<in> set xs \<Longrightarrow> list_add_before p n (xs @ ys) = list_add_before p n xs @ ys"
  "p \<notin> set xs \<Longrightarrow> list_add_before p n (xs @ ys) = xs @ list_add_before p n ys"
  "p \<in> set xs \<Longrightarrow> list_add_after p n (xs @ ys) = list_add_after p n xs @ ys"
  "p \<notin> set xs \<Longrightarrow> list_add_after p n (xs @ ys) = xs @ list_add_after p n ys"
  by (induction xs) auto

lemma inorder_link_left:
  "distinct (inorder t) \<Longrightarrow> left_free p t \<Longrightarrow> inorder (link_left p n t) = list_add_before p n (inorder t)"
proof (induction t)
  case (Node l x r)
  show ?case
  proof (cases "x = p")
    case False
    with Node.prems consider "left_free p l" "p \<notin> set_tree r" | "left_free p r" "p \<notin> set_tree l"
      by (auto dest: free_in_tree)
    then show ?thesis
      using Node False free_in_tree by cases (auto simp: list_add_append link_absent)
  qed (use Node.prems in auto)
qed simp

lemma inorder_link_right:
  "distinct (inorder t) \<Longrightarrow> right_free p t \<Longrightarrow> inorder (link_right p n t) = list_add_after p n (inorder t)"
proof (induction t)
  case (Node l x r)
  show ?case
  proof (cases "x = p")
    case False
    with Node.prems consider "right_free p l" "p \<notin> set_tree r" | "right_free p r" "p \<notin> set_tree l"
      by (auto dest: free_in_tree)
    then show ?thesis
      using Node False free_in_tree by cases (auto simp: list_add_append link_absent)
  qed (use Node.prems in \<open>auto simp: list_add_append\<close>)
qed simp

lemma inorder_join [simp]: "inorder (join_trees l r) = inorder l @ inorder r"
  by (induction l) auto

lemma plain_erase_absent: "n \<notin> set_tree t \<Longrightarrow> plain_erase n t = t"
  by (induction t) auto

lemma inorder_plain_erase: "distinct (inorder t) \<Longrightarrow> inorder (plain_erase n t) = remove1 n (inorder t)"
proof (induction t)
  case (Node l x r)
  show ?case
  proof (cases "n \<in> set_tree l")
    case True
    with Node.prems have "n \<notin> set_tree r" "x \<noteq> n" by auto
    with Node True show ?thesis by (simp add: remove1_append plain_erase_absent)
  next
    case False
    with Node show ?thesis by (auto simp: remove1_append plain_erase_absent)
  qed
qed simp

lemma plain_rb_ok: "rb_ops_ok plain_rb"
  by (simp add: rb_ops_ok_def plain_rb_def inorder_link_left inorder_link_right inorder_plain_erase)

definition example_tree :: uvm_range_tree where
  "example_tree = \<lparr>rb_root = Node Leaf 0 (Node Leaf 1 Leaf), rt_list = [0, 1],
     rt_nodes = (\<lambda>_. \<lparr>rn_start = 0x2000, rn_end = 0x2FFF\<rparr>)
       (0 := \<lparr>rn_start = 0x1000, rn_end = 0x1FFF\<rparr>, 1 := \<lparr>rn_start = 0x3000, rn_end = 0x3FFF\<rparr>)\<rparr>"

lemma example_tree_inv: "range_tree_inv example_tree"
  by (simp add: range_tree_inv_def sorted_ranges_def example_tree_def)

section \<open>Properties\<close>

text \<open>
  A lookup returns the node whose range contains the address, and NULL exactly when no
  linked node contains it.
\<close>

theorem range_tree_find_correct:
  assumes "range_tree_inv t"
  shows "(uvm_range_tree_find t a = Some n \<longleftrightarrow>
           n \<in> set (rt_list t) \<and> node_start t n \<le> a \<and> a \<le> node_end t n) \<and>
         (uvm_range_tree_find t a = None \<longleftrightarrow> a \<notin> covered t)"
  using find_iff[OF assms, of a] by (metis in_covered not_None_eq)

theorem range_tree_find_correct_witness:
  "uvm_range_tree_find example_tree 0x3800 = Some 1"
  using range_tree_find_correct[OF example_tree_inv, of "0x3800" 1]
  by (simp add: example_tree_def)

text \<open>
  C27. Inserting a node succeeds exactly when its range is disjoint from every range in the
  tree; on failure \<^verbatim>\<open>NV_ERR_UVM_ADDRESS_IN_USE\<close> is returned and the tree is unchanged, on
  success the tree stays well formed and later lookups find the new node in its range and
  what they found before elsewhere.
\<close>

theorem range_tree_add_correct:
  assumes "rb_ops_ok rb" "range_tree_inv t" "n \<notin> set (rt_list t)" "node_start t n \<le> node_end t n"
  shows "(fst (uvm_range_tree_add rb t n) = NV_OK \<longleftrightarrow>
            {node_start t n .. node_end t n} \<inter> covered t = {}) \<and>
         (fst (uvm_range_tree_add rb t n) \<noteq> NV_OK \<longrightarrow>
            uvm_range_tree_add rb t n = (NV_ERR_UVM_ADDRESS_IN_USE, t)) \<and>
         (\<forall>t' a. uvm_range_tree_add rb t n = (NV_OK, t') \<longrightarrow> range_tree_inv t' \<and>
            uvm_range_tree_find t' a =
              (if node_start t n \<le> a \<and> a \<le> node_end t n then Some n else uvm_range_tree_find t a))"
proof -
  have inv: "rb_ops_ok rb \<and> range_tree_inv t" using assms by simp
  have "(\<forall>c. node_start t n \<le> c \<and> c \<le> node_end t n \<longrightarrow> uvm_range_tree_find t c = None) \<longleftrightarrow>
      {node_start t n .. node_end t n} \<inter> covered t = {}"
    using rt.find_None[OF inv] by (auto simp: in_covered disjoint_iff)
  then show ?thesis
    using rt.add_outcome[OF inv assms(3,4)] rt.find_after_add[OF inv assms(3,4)] by simp
qed

theorem range_tree_add_correct_witness:
  "fst (uvm_range_tree_add plain_rb example_tree 2) = NV_OK"
proof -
  have "{node_start example_tree 2 .. node_end example_tree 2} \<inter> covered example_tree = {}"
    by (auto simp: covered_def example_tree_def) (unat_arith)+
  then show ?thesis
    using range_tree_add_correct[OF plain_rb_ok example_tree_inv, of 2]
    by (simp add: example_tree_def)
qed

text \<open>
  C28. Splitting a node at an address inside it always succeeds: the addresses from the
  split point on belong to the new node, the lower ones stay with the existing node, and no
  other address changes owner.
\<close>

theorem range_tree_split_correct:
  assumes "rb_ops_ok rb" "range_tree_inv t" "e \<in> set (rt_list t)" "n \<notin> set (rt_list t)"
    "node_start t e < node_start t n" "node_start t n \<le> node_end t e"
  shows "\<exists>t'. uvm_range_tree_split rb t e n = (NV_OK, t') \<and> range_tree_inv t' \<and>
    (\<forall>a. uvm_range_tree_find t' a =
       (if uvm_range_tree_find t a = Some e \<and> node_start t n \<le> a then Some n
        else uvm_range_tree_find t a))"
proof -
  from split_correct[OF assms(2,1,3-6)] obtain t' where t':
    "uvm_range_tree_split rb t e n = (NV_OK, t')" "range_tree_inv t'"
    "set (rt_list t') = insert n (set (rt_list t))"
    "node_end t' e = node_start t n - 1" "node_end t' n = node_end t e"
    "\<And>x. node_start t' x = node_start t x"
    "\<And>x. x \<noteq> e \<Longrightarrow> x \<noteq> n \<Longrightarrow> node_end t' x = node_end t x" by blast
  have below: "a \<le> node_start t n - 1 \<longleftrightarrow> a < node_start t n" for a
    using assms(5) by unat_arith
  have "uvm_range_tree_find t' a = (if uvm_range_tree_find t a = Some e \<and> node_start t n \<le> a
      then Some n else uvm_range_tree_find t a)" for a
  proof (cases "uvm_range_tree_find t a = Some e")
    case True
    then have "node_start t e \<le> a" "a \<le> node_end t e" using find_iff[OF assms(2)] by auto
    with True show ?thesis
      using assms(3-6) find_iff[OF t'(2), of a] t'(3-6) below[of a] by (auto simp: not_le)
  next
    case False
    have "uvm_range_tree_find t' a = Some x \<longleftrightarrow> uvm_range_tree_find t a = Some x" for x
    proof (cases "x = e \<or> x = n")
      case True
      then show ?thesis
        using False assms(3-6) find_iff[OF t'(2), of a] find_iff[OF assms(2), of a] t'(3-6) below[of a]
        by auto
    next
      case False
      then show ?thesis
        using find_iff[OF t'(2), of a] find_iff[OF assms(2), of a] t'(3,6,7) by auto
    qed
    with False show ?thesis by (metis not_None_eq)
  qed
  with t' show ?thesis by blast
qed

theorem range_tree_split_correct_witness:
  "\<exists>t'. uvm_range_tree_split plain_rb (set_start 2 0x1800 example_tree) 0 2 = (NV_OK, t') \<and>
     uvm_range_tree_find t' 0x1900 = Some 2 \<and> uvm_range_tree_find t' 0x1700 = Some 0"
proof -
  let ?t = "set_start 2 0x1800 example_tree"
  have inv: "range_tree_inv ?t"
    using example_tree_inv inv_update_unlinked(1)[of 2 example_tree]
    by (simp add: example_tree_def)
  have f: "uvm_range_tree_find ?t 0x1900 = Some 0" "uvm_range_tree_find ?t 0x1700 = Some 0"
    using find_iff[OF inv] by (simp_all add: example_tree_def set_start_def)
  show ?thesis
    using range_tree_split_correct[OF plain_rb_ok inv, of 0 2] f
    by (auto simp: example_tree_def set_start_def)
qed

text \<open>
  Merging a node with its neighbours: a neighbour is removed and returned exactly when
  it ends right before (starts right after) the node, and every address then belongs to the
  node if it belonged to the neighbour, and to its former owner otherwise. In particular the
  set of covered addresses does not change.
\<close>

theorem range_tree_merge_correct:
  assumes "rb_ops_ok rb" "range_tree_inv t" "n \<in> set (rt_list t)"
  shows "(\<forall>p t'. uvm_range_tree_merge_prev rb t n = (p, t') \<longrightarrow>
            range_tree_inv t' \<and>
            (p = None \<longleftrightarrow> node_start t n = 0 \<or> uvm_range_tree_find t (node_start t n - 1) = None) \<and>
            (\<forall>a. uvm_range_tree_find t' a =
               (if p \<noteq> None \<and> uvm_range_tree_find t a = p then Some n else uvm_range_tree_find t a))) \<and>
         (\<forall>q t'. uvm_range_tree_merge_next rb t n = (q, t') \<longrightarrow>
            range_tree_inv t' \<and>
            (q = None \<longleftrightarrow> node_end t n = - 1 \<or> uvm_range_tree_find t (node_end t n + 1) = None) \<and>
            (\<forall>a. uvm_range_tree_find t' a =
               (if q \<noteq> None \<and> uvm_range_tree_find t a = q then Some n else uvm_range_tree_find t a)))"
  using merge_prev_find[OF assms(2,1,3)] merge_next_find[OF assms(2,1,3)] by blast

theorem range_tree_merge_correct_witness:
  "\<exists>t'. uvm_range_tree_merge_prev plain_rb (set_start 1 0x2000 example_tree) 1 = (Some 0, t') \<and>
     uvm_range_tree_find t' 0x1234 = Some 1"
proof -
  let ?t = "set_start 1 0x2000 example_tree"
  have inv: "range_tree_inv ?t"
    by (simp add: range_tree_inv_def sorted_ranges_def example_tree_def set_start_def)
  have f: "uvm_range_tree_find ?t 0x1234 = Some 0"
    using find_iff[OF inv] by (simp add: example_tree_def set_start_def)
  have m: "fst (uvm_range_tree_merge_prev plain_rb ?t 1) = Some 0"
    by (simp add: uvm_range_tree_merge_prev_def uvm_range_tree_prev_def example_tree_def set_start_def)
  obtain t' where t': "uvm_range_tree_merge_prev plain_rb ?t 1 = (Some 0, t')"
    using m by (metis prod.collapse)
  have "1 \<in> set (rt_list ?t)" by (simp add: example_tree_def)
  from range_tree_merge_correct[OF plain_rb_ok inv this] t' f show ?thesis by auto
qed

text \<open>
  \<^verbatim>\<open>uvm_range_tree_for_each_in\<close> visits exactly the nodes that overlap the given range,
  each once and in address order.
\<close>

theorem range_tree_for_each_in_correct:
  assumes "range_tree_inv t" "s \<le> e"
  shows "uvm_range_tree_for_each_in t s e =
    filter (\<lambda>n. uvm_ranges_overlap (node_start t n) (node_end t n) s e) (rt_list t)"
  by (rule for_each_in_filter[OF assms])

theorem range_tree_for_each_in_correct_witness:
  "uvm_range_tree_for_each_in example_tree 0x2000 0x3000 = [1]"
  using range_tree_for_each_in_correct[OF example_tree_inv, of "0x2000" "0x3000"]
  by (simp add: example_tree_def uvm_ranges_overlap_def)

end
