(* ===== verification/Range_Allocator.thy ===== *)
theory Range_Allocator
  imports Range_Tree
begin

text \<open>
  \<^verbatim>\<open>uvm8_range_allocator.c\<close>: a first-fit allocator of aligned ranges in \<open>[0, size)\<close> whose
  free ranges are the nodes of a range tree. Every operation runs under the allocator's
  spin lock and is one step here. The node an allocation keeps is allocated by
  \<^verbatim>\<open>uvm_kvmalloc\<close>, whose result (a fresh identifier, or NULL) is an argument.
\<close>

section \<open>State and operations\<close>

record uvm_range_allocator =
  ra_size :: u64
  ra_tree :: uvm_range_tree

record uvm_range_allocation =
  aligned_start :: u64
  alloc_node :: "node_id option"

definition uvm_range_allocator_init ::
  "rb_ops \<Rightarrow> u64 \<Rightarrow> node_id option \<Rightarrow> (node_id \<Rightarrow> range_node) \<Rightarrow> uvm_range_allocator \<Rightarrow>
   nv_status \<times> uvm_range_allocator" where
  "uvm_range_allocator_init rb sz kvmalloc m ra =
     (let ra1 = ra\<lparr>ra_tree := uvm_range_tree_init m\<rparr>
      in case kvmalloc of
           None \<Rightarrow> (NV_ERR_NO_MEMORY, ra1)
         | Some node \<Rightarrow>
             let t = set_end node (sz - 1) (set_start node 0 (ra_tree ra1));
                 (_, t') = uvm_range_tree_add rb t node
             in (NV_OK, ra1\<lparr>ra_tree := t', ra_size := sz\<rparr>))"

text \<open>\<open>None\<close> stands for the dereference of a NULL node.\<close>

definition uvm_range_allocator_deinit :: "rb_ops \<Rightarrow> uvm_range_allocator \<Rightarrow> uvm_range_allocator option" where
  "uvm_range_allocator_deinit rb ra =
     (case uvm_range_tree_iter_first (ra_tree ra) 0 (ra_size ra - 1) of
        None \<Rightarrow> None
      | Some node \<Rightarrow> Some (ra\<lparr>ra_tree := uvm_range_tree_remove rb (ra_tree ra) node\<rparr>))"

text \<open>The search loop: the first visited node with room, and the block cut from it.\<close>

fun alloc_scan :: "uvm_range_tree \<Rightarrow> u64 \<Rightarrow> u64 \<Rightarrow> node_id list \<Rightarrow> (node_id \<times> u64 \<times> u64) option" where
  "alloc_scan t sz alignment [] = None"
| "alloc_scan t sz alignment (n # ns) =
     (let a_start = UVM_ALIGN_UP (node_start t n) alignment;
          a_end = a_start + sz - 1
      in if a_start < node_start t n \<or> a_end < a_start then alloc_scan t sz alignment ns
         else if node_end t n < a_end then alloc_scan t sz alignment ns
         else Some (n, a_start, a_end))"

definition uvm_range_allocator_alloc ::
  "rb_ops \<Rightarrow> uvm_range_allocator \<Rightarrow> node_id option \<Rightarrow> u64 \<Rightarrow> u64 \<Rightarrow> uvm_range_allocation \<Rightarrow>
   nv_status \<times> uvm_range_allocator \<times> uvm_range_allocation" where
  "uvm_range_allocator_alloc rb ra kvmalloc sz alignment0 al =
     (let alignment = (if alignment0 = 0 then 1 else alignment0); t = ra_tree ra
      in if ra_size ra < sz then (NV_ERR_UVM_ADDRESS_IN_USE, ra, al)
         else case kvmalloc of
           None \<Rightarrow> (NV_ERR_NO_MEMORY, ra, al\<lparr>alloc_node := None\<rparr>)
         | Some new \<Rightarrow>
             (case alloc_scan t sz alignment
                     (uvm_range_tree_for_each_in t 0 (ra_size ra - sz)) of
                None \<Rightarrow> (NV_ERR_UVM_ADDRESS_IN_USE, ra, al\<lparr>alloc_node := None\<rparr>)
              | Some (n, a_start, a_end) \<Rightarrow>
                  let t1 = set_end new a_end (set_start new (node_start t n) t);
                      t2 = (if a_end < node_end t n
                            then uvm_range_tree_shrink_node t1 n (a_end + 1) (node_end t1 n)
                            else uvm_range_tree_remove rb t1 n)
                  in (NV_OK, ra\<lparr>ra_tree := t2\<rparr>,
                      al\<lparr>aligned_start := a_start, alloc_node := Some new\<rparr>)))"

text \<open>\<open>None\<close> stands for the dereference of a NULL node.\<close>

definition uvm_range_allocator_free ::
  "rb_ops \<Rightarrow> uvm_range_allocator \<Rightarrow> uvm_range_allocation option \<Rightarrow>
   (uvm_range_allocator \<times> uvm_range_allocation option) option" where
  "uvm_range_allocator_free rb ra al_ptr =
     (case al_ptr of
        None \<Rightarrow> Some (ra, None)
      | Some al \<Rightarrow>
          (case alloc_node al of
             None \<Rightarrow> None
           | Some n \<Rightarrow>
               let (_, t1) = uvm_range_tree_add rb (ra_tree ra) n;
                   (_, t2) = uvm_range_tree_merge_prev rb t1 n;
                   (_, t3) = uvm_range_tree_merge_next rb t2 n
               in Some (ra\<lparr>ra_tree := t3\<rparr>, Some (al\<lparr>alloc_node := None\<rparr>))))"

section \<open>Invariant\<close>

text \<open>
  \<open>live\<close> are the nodes held by the allocations made and not freed. Every address below
  \<open>ra_size\<close> is in exactly one free or held node, and free nodes never touch: freeing merges.
\<close>

definition coalesced :: "uvm_range_tree \<Rightarrow> bool" where
  "coalesced t \<longleftrightarrow> (\<forall>x \<in> set (rt_list t). \<forall>y \<in> set (rt_list t).
     node_end t x < node_start t y \<longrightarrow> node_end t x + 1 \<noteq> node_start t y)"

definition node_range :: "uvm_range_tree \<Rightarrow> node_id \<Rightarrow> u64 set" where
  "node_range t n = {node_start t n .. node_end t n}"

definition allocator_inv :: "uvm_range_allocator \<Rightarrow> node_id set \<Rightarrow> bool" where
  "allocator_inv ra live \<longleftrightarrow>
     (let t = ra_tree ra
      in range_tree_inv t \<and> 0 < ra_size ra \<and> live \<inter> set (rt_list t) = {} \<and> coalesced t \<and>
         (\<forall>n \<in> live. node_start t n \<le> node_end t n \<and> node_range t n \<inter> covered t = {}) \<and>
         (\<forall>x \<in> live. \<forall>y \<in> live. x \<noteq> y \<longrightarrow> node_range t x \<inter> node_range t y = {}) \<and>
         {a. a < ra_size ra} = covered t \<union> (\<Union>n \<in> live. node_range t n))"

lemma alloc_scan_Some:
  assumes "alloc_scan t sz al ns = Some (n, s, e)"
  shows "n \<in> set ns \<and> s = UVM_ALIGN_UP (node_start t n) al \<and> e = s + sz - 1 \<and>
    node_start t n \<le> s \<and> s \<le> e \<and> e \<le> node_end t n"
  using assms by (induction ns) (auto simp: Let_def split: if_splits)

lemma alloc_scan_None:
  "alloc_scan t sz al ns = None \<longleftrightarrow>
   (\<forall>n \<in> set ns. let s = UVM_ALIGN_UP (node_start t n) al; e = s + sz - 1
      in s < node_start t n \<or> e < s \<or> node_end t n < e)"
  by (induction ns) (auto simp: Let_def)

text \<open>A node too short for the request is passed over, and only such a node.\<close>

lemma block_end:
  assumes "0 < (sz::u64)" shows "s + sz - 1 < s \<longleftrightarrow> 2 ^ 64 \<le> unat s + unat sz - 1"
    and "\<not> s + sz - 1 < s \<Longrightarrow> unat (s + sz - 1) = unat s + unat sz - 1"
proof -
  have e: "unat (s + sz - 1) = (unat s + unat sz - 1) mod 2 ^ 64"
  proof -
    have "(word_of_nat (unat s + unat sz - 1) :: u64) = word_of_nat (unat s + unat sz) - word_of_nat 1"
      by (rule of_nat_diff) (use assms in \<open>simp add: word_less_nat_alt\<close>)
    then have "s + sz - 1 = word_of_nat (unat s + unat sz - 1)" by simp
    then show ?thesis by (simp only: unsigned_of_nat take_bit_eq_mod of_nat_id) simp
  qed
  have b: "unat s < 2 ^ 64" "unat sz < 2 ^ 64" "0 < unat sz"
    using unat_lt_2_64 assms by (auto simp: word_less_nat_alt)
  have m: "(unat s + unat sz - 1) mod 2 ^ 64 =
    (if 2 ^ 64 \<le> unat s + unat sz - 1 then unat s + unat sz - 1 - 2 ^ 64 else unat s + unat sz - 1)"
    using b by (auto simp: mod_if le_mod_geq)
  show "s + sz - 1 < s \<longleftrightarrow> 2 ^ 64 \<le> unat s + unat sz - 1"
    unfolding word_less_nat_alt e m using b by auto
  show "\<not> s + sz - 1 < s \<Longrightarrow> unat (s + sz - 1) = unat s + unat sz - 1"
    unfolding word_less_nat_alt e m using b by (auto split: if_splits)
qed

lemma no_fit_in_node:
  assumes k: "k < 64" "(al::u64) = 2 ^ k" and sz: "0 < sz"
    and skip: "let s = UVM_ALIGN_UP x al; e = s + sz - 1 in s < x \<or> e < s \<or> y < e"
    and b: "2 ^ k dvd unat b" "x \<le> b"
  shows "unat y < unat b + unat sz - 1"
proof (cases "UVM_ALIGN_UP x al < x")
  case True
  with align_up_overflow[OF k True b(1)] b(2) show ?thesis by simp
next
  case False
  let ?s = "UVM_ALIGN_UP x al"
  have "x \<le> ?s" using False by simp
  from align_up_fits(2)[OF k this b] have sb: "unat ?s \<le> unat b"
    by (simp add: word_le_nat_alt)
  show ?thesis
  proof (cases "?s + sz - 1 < ?s")
    case True
    then have "2 ^ 64 \<le> unat ?s + unat sz - 1" using block_end(1)[OF sz] by blast
    with sb unat_lt_2_64[of y] show ?thesis by linarith
  next
    case fits: False
    with skip False have "unat y < unat ?s + unat sz - 1"
      using block_end(2)[OF sz fits] by (auto simp: Let_def word_less_nat_alt)
    with sb show ?thesis by linarith
  qed
qed

section \<open>Covered addresses of the tree operations\<close>

lemma find_None_covered: "range_tree_inv t \<Longrightarrow> uvm_range_tree_find t a = None \<longleftrightarrow> a \<notin> covered t"
  using find_iff[of t a] by (metis in_covered not_None_eq)

lemma covered_eqI:
  "range_tree_inv t \<Longrightarrow> range_tree_inv t' \<Longrightarrow>
   (\<And>a. uvm_range_tree_find t' a = None \<longleftrightarrow> uvm_range_tree_find t a = None) \<Longrightarrow> covered t' = covered t"
  by (auto simp: find_None_covered)

lemma covered_merge_prev:
  assumes "range_tree_inv t" "rb_ops_ok rb" "n \<in> set (rt_list t)"
    "uvm_range_tree_merge_prev rb t n = (p, t')"
  shows "covered t' = covered t"
  using merge_prev_find[OF assms] assms(1) by (intro covered_eqI) auto

lemma covered_merge_next:
  assumes "range_tree_inv t" "rb_ops_ok rb" "n \<in> set (rt_list t)"
    "uvm_range_tree_merge_next rb t n = (p, t')"
  shows "covered t' = covered t"
  using merge_next_find[OF assms] assms(1) by (intro covered_eqI) auto

lemma covered_cong:
  "set (rt_list t) = set (rt_list t') \<Longrightarrow> (\<And>n. n \<in> set (rt_list t) \<Longrightarrow> rt_nodes t n = rt_nodes t' n) \<Longrightarrow>
   covered t = covered t'"
  by (auto simp: covered_def)

section \<open>Allocation\<close>

text \<open>Cutting the block \<open>[start, e]\<close> off a free node and holding it by a fresh node.\<close>

definition carve :: "rb_ops \<Rightarrow> uvm_range_tree \<Rightarrow> node_id \<Rightarrow> node_id \<Rightarrow> u64 \<Rightarrow> uvm_range_tree" where
  "carve rb t new n e =
     (let t1 = set_end new e (set_start new (node_start t n) t)
      in if e < node_end t n then uvm_range_tree_shrink_node t1 n (e + 1) (node_end t1 n)
         else uvm_range_tree_remove rb t1 n)"

lemma carve_correct:
  assumes inv: "range_tree_inv t" and ok: "rb_ops_ok rb" and co: "coalesced t"
    and n: "n \<in> set (rt_list t)" and new: "new \<notin> set (rt_list t)"
    and e: "node_start t n \<le> e" "e \<le> node_end t n"
  shows "range_tree_inv (carve rb t new n e)" "coalesced (carve rb t new n e)"
    "covered (carve rb t new n e) = covered t - {node_start t n .. e}"
    "node_start (carve rb t new n e) new = node_start t n" "node_end (carve rb t new n e) new = e"
    "set (rt_list (carve rb t new n e)) \<subseteq> set (rt_list t)"
    "x \<noteq> new \<Longrightarrow> x \<notin> set (rt_list t) \<Longrightarrow> rt_nodes (carve rb t new n e) x = rt_nodes t x"
proof -
  define t1 where "t1 = set_end new e (set_start new (node_start t n) t)"
  have ne: "n \<noteq> new" using n new by auto
  have inv1: "range_tree_inv t1"
    using inv new by (simp add: t1_def inv_update_unlinked)
  have l1: "rt_list t1 = rt_list t" by (simp add: t1_def)
  have same: "rt_nodes t1 x = rt_nodes t x" if "x \<noteq> new" for x
    using that by (simp add: t1_def set_start_def set_end_def)
  have samel: "rt_nodes t1 x = rt_nodes t x" if "x \<in> set (rt_list t)" for x
    using that new by (intro same) auto
  have other: "x = n" if "x \<in> set (rt_list t)" "node_start t x \<le> a" "a \<le> node_end t x"
      "node_start t n \<le> a" "a \<le> node_end t n" for x a
    using nodes_disjoint[OF inv that(1) n that(2,3,4,5)] .
  let ?c = "carve rb t new n e"
  have goal: "range_tree_inv ?c \<and> coalesced ?c \<and> covered ?c = covered t - {node_start t n .. e} \<and>
    node_start ?c new = node_start t n \<and> node_end ?c new = e \<and> set (rt_list ?c) \<subseteq> set (rt_list t) \<and>
    (x \<noteq> new \<longrightarrow> x \<notin> set (rt_list t) \<longrightarrow> rt_nodes ?c x = rt_nodes t x)"
  proof (cases "e < node_end t n")
    case True
    have up: "e + 1 \<le> a \<longleftrightarrow> e < a" for a using True by unat_arith
    have c: "?c = uvm_range_tree_shrink_node t1 n (e + 1) (node_end t1 n)"
      using True by (simp add: carve_def t1_def Let_def)
    have sn: "node_start ?c x = (if x = n then e + 1 else node_start t1 x)"
      "node_end ?c x = node_end t1 x" "rt_list ?c = rt_list t" for x
      by (simp_all add: c shrink_fields l1)
    have "node_start t1 n \<le> e + 1" "e + 1 \<le> node_end t1 n"
      using e(1) True up[of "node_end t n"] same[OF ne] by (simp_all, unat_arith)
    moreover have "n \<in> set (rt_list t1)" by (simp only: l1 n)
    ultimately have "range_tree_inv ?c"
      unfolding c by (intro shrink_inv[OF inv1]) auto
    moreover have "coalesced ?c"
      unfolding coalesced_def sn
    proof (intro ballI impI notI)
      fix x y assume xy: "x \<in> set (rt_list t)" "y \<in> set (rt_list t)"
        and lt: "node_end t1 x < (if y = n then e + 1 else node_start t1 y)"
        and eq: "node_end t1 x + 1 = (if y = n then e + 1 else node_start t1 y)"
      have xn: "x \<noteq> new" "y \<noteq> new" using xy new by auto
      show False
      proof (cases "y = n")
        case True
        with eq have "node_end t x = e" using same[OF xn(1)] by simp
        with xy(1) e other[of x e] range_tree_inv_le[OF inv] True have "x = n" by auto
        with \<open>node_end t x = e\<close> \<open>e < node_end t n\<close> show False by simp
      next
        case False
        with lt eq same xn xy co show False by (auto simp: coalesced_def)
      qed
    qed
    moreover have "covered ?c = covered t - {node_start t n .. e}"
    proof (rule set_eqI)
      fix a
      have "a \<in> covered ?c \<longleftrightarrow> (\<exists>x \<in> set (rt_list t). (if x = n then e < a \<and> a \<le> node_end t n
          else node_start t x \<le> a \<and> a \<le> node_end t x))"
        unfolding in_covered sn by (intro bex_cong refl) (auto simp: up samel n)
      also have "\<dots> \<longleftrightarrow> a \<in> covered t - {node_start t n .. e}"
      proof (intro iffI)
        assume "\<exists>x \<in> set (rt_list t). (if x = n then e < a \<and> a \<le> node_end t n
          else node_start t x \<le> a \<and> a \<le> node_end t x)"
        then obtain x where x: "x \<in> set (rt_list t)" "x = n \<longrightarrow> e < a" "node_start t x \<le> a" "a \<le> node_end t x"
          using e(1) by (auto split: if_splits)
        have "\<not> (node_start t n \<le> a \<and> a \<le> e)"
          using other[OF x(1,3,4)] x(2) e(2) order.trans leD by blast
        with x show "a \<in> covered t - {node_start t n .. e}" by (auto simp: in_covered)
      next
        assume "a \<in> covered t - {node_start t n .. e}"
        then obtain x where "x \<in> set (rt_list t)" "node_start t x \<le> a" "a \<le> node_end t x"
          "\<not> (node_start t n \<le> a \<and> a \<le> e)" by (auto simp: in_covered)
        then show "\<exists>x \<in> set (rt_list t). (if x = n then e < a \<and> a \<le> node_end t n
          else node_start t x \<le> a \<and> a \<le> node_end t x)"
          by (intro bexI[of _ x]) (auto simp: not_le)
      qed
      finally show "a \<in> covered ?c \<longleftrightarrow> a \<in> covered t - {node_start t n .. e}" .
    qed
    ultimately show ?thesis using sn same ne n
      by (auto simp: t1_def c uvm_range_tree_shrink_node_def set_start_def set_end_def)
  next
    case False
    then have e_eq: "e = node_end t n" using e(2) by simp
    have c: "?c = uvm_range_tree_remove rb t1 n"
      using False by (simp add: carve_def t1_def Let_def)
    have lc: "set (rt_list ?c) = set (rt_list t) - {n}" "rt_nodes ?c = rt_nodes t1"
      using set_remove[OF inv1] by (auto simp: c l1 remove_list)
    have "range_tree_inv ?c" unfolding c by (rule remove_inv[OF inv1 ok])
    moreover have "coalesced ?c"
      using co samel unfolding coalesced_def lc by auto
    moreover have "covered ?c = covered t - {node_start t n .. e}"
    proof (rule set_eqI)
      fix a
      have "a \<in> covered ?c \<longleftrightarrow> (\<exists>x \<in> set (rt_list t) - {n}. node_start t x \<le> a \<and> a \<le> node_end t x)"
        unfolding in_covered lc by (intro bex_cong refl) (auto simp: samel)
      also have "\<dots> \<longleftrightarrow> a \<in> covered t - {node_start t n .. e}"
        unfolding in_covered Diff_iff atLeastAtMost_iff e_eq using n other by auto
      finally show "a \<in> covered ?c \<longleftrightarrow> a \<in> covered t - {node_start t n .. e}" .
    qed
    ultimately show ?thesis using lc same by (auto simp: t1_def)
  qed
  then show "range_tree_inv ?c" "coalesced ?c" "covered ?c = covered t - {node_start t n .. e}"
    "node_start ?c new = node_start t n" "node_end ?c new = e" "set (rt_list ?c) \<subseteq> set (rt_list t)"
    "x \<noteq> new \<Longrightarrow> x \<notin> set (rt_list t) \<Longrightarrow> rt_nodes ?c x = rt_nodes t x"
    by auto
qed

lemma alloc_scan_visits:
  assumes inv: "allocator_inv ra live" and sz: "0 < sz" "sz \<le> ra_size ra"
    and n: "n \<in> set (rt_list (ra_tree ra))" and b: "node_start (ra_tree ra) n \<le> b"
    and fit: "unat b + unat sz - 1 \<le> unat (node_end (ra_tree ra) n)"
  shows "n \<in> set (uvm_range_tree_for_each_in (ra_tree ra) 0 (ra_size ra - sz))"
proof -
  let ?t = "ra_tree ra"
  have tinv: "range_tree_inv ?t" using inv by (simp add: allocator_inv_def Let_def)
  have "node_end ?t n \<in> covered ?t"
    using n range_tree_inv_le[OF tinv n] by (auto simp: in_covered)
  then have "node_end ?t n < ra_size ra" using inv by (auto simp: allocator_inv_def Let_def)
  then have "unat (node_start ?t n) \<le> unat (ra_size ra) - unat sz"
    using b fit sz by (simp add: word_less_nat_alt word_le_nat_alt)
  then have "node_start ?t n \<le> ra_size ra - sz"
    using sz by (simp add: word_le_nat_alt unat_sub)
  then show ?thesis
    using n by (simp add: for_each_in_filter[OF tinv] uvm_ranges_overlap_def)
qed

text \<open>Free nodes never touch, so free addresses in a row lie in one free node.\<close>

lemma covered_run:
  assumes inv: "range_tree_inv t" and co: "coalesced t"
    and run: "\<And>c. b \<le> c \<Longrightarrow> c \<le> d \<Longrightarrow> c \<in> covered t" and bd: "b \<le> d"
  shows "\<exists>n \<in> set (rt_list t). node_start t n \<le> b \<and> d \<le> node_end t n"
proof -
  from run[of b] bd obtain n where n: "n \<in> set (rt_list t)" "node_start t n \<le> b" "b \<le> node_end t n"
    by (auto simp: in_covered)
  have "d \<le> node_end t n"
  proof (rule ccontr)
    assume "\<not> d \<le> node_end t n"
    then have lt: "node_end t n < node_end t n + 1" "node_end t n + 1 \<le> d"
      by unat_arith+
    then have "b \<le> node_end t n + 1" using n(3) by auto
    then obtain y where y: "y \<in> set (rt_list t)" "node_start t y \<le> node_end t n + 1"
      "node_end t n + 1 \<le> node_end t y" using run lt(2) by (auto simp: in_covered)
    have "y \<noteq> n" using y(3) lt(1) by auto
    moreover have "node_end t n \<le> node_end t y" using lt(1) y(3) by (meson less_imp_le order.trans)
    ultimately have "\<not> node_start t y \<le> node_end t n"
      using nodes_disjoint[OF inv y(1) n(1), of "node_end t n"] range_tree_inv_le[OF inv n(1)]
      by auto
    then have "node_end t n < node_start t y" "node_end t n + 1 = node_start t y"
      using y(2) by unat_arith+
    with co n(1) y(1) show False by (auto simp: coalesced_def)
  qed
  with n show ?thesis by blast
qed

lemma alloc_success:
  assumes ok: "rb_ops_ok rb" and inv: "allocator_inv ra live"
    and new: "new \<notin> live" "new \<notin> set (rt_list (ra_tree ra))"
    and n: "n \<in> set (rt_list (ra_tree ra))"
    and e: "node_start (ra_tree ra) n \<le> e" "e \<le> node_end (ra_tree ra) n"
  shows "allocator_inv (ra\<lparr>ra_tree := carve rb (ra_tree ra) new n e\<rparr>) (insert new live)"
proof -
  let ?t = "ra_tree ra"
  let ?c = "carve rb ?t new n e"
  have i: "range_tree_inv ?t" "coalesced ?t" "live \<inter> set (rt_list ?t) = {}" "0 < ra_size ra"
    "\<And>x. x \<in> live \<Longrightarrow> node_start ?t x \<le> node_end ?t x \<and> node_range ?t x \<inter> covered ?t = {}"
    "\<And>x y. x \<in> live \<Longrightarrow> y \<in> live \<Longrightarrow> x \<noteq> y \<Longrightarrow> node_range ?t x \<inter> node_range ?t y = {}"
    "{a. a < ra_size ra} = covered ?t \<union> (\<Union>x \<in> live. node_range ?t x)"
    using inv by (auto simp: allocator_inv_def Let_def)
  note c = carve_correct[OF i(1) ok i(2) n new(2) e]
  have live: "node_range ?c x = node_range ?t x" "node_start ?c x = node_start ?t x"
    "node_end ?c x = node_end ?t x" if "x \<in> live" for x
  proof -
    have "x \<noteq> new" "x \<notin> set (rt_list ?t)" using that new i(3) by auto
    then have "rt_nodes ?c x = rt_nodes ?t x" by (rule c(7))
    then show "node_range ?c x = node_range ?t x" "node_start ?c x = node_start ?t x"
      "node_end ?c x = node_end ?t x" by (simp_all add: node_range_def)
  qed
  have newr: "node_range ?c new = {node_start ?t n .. e}" by (simp add: node_range_def c(4,5))
  have sub: "{node_start ?t n .. e} \<subseteq> covered ?t"
    using n e by (auto simp: in_covered intro!: bexI[of _ n])
  have "insert new live \<inter> set (rt_list ?c) = {}" using i(3) c(6) new by blast
  moreover have "\<forall>x \<in> insert new live. node_start ?c x \<le> node_end ?c x \<and> node_range ?c x \<inter> covered ?c = {}"
    using live i(5) e(1) by (auto simp: newr c(3-5) disjoint_iff)
  moreover have "\<forall>x \<in> insert new live. \<forall>y \<in> insert new live. x \<noteq> y \<longrightarrow>
      node_range ?c x \<inter> node_range ?c y = {}"
  proof (intro ballI impI)
    fix x y assume xy: "x \<in> insert new live" "y \<in> insert new live" "x \<noteq> y"
    then consider "x \<in> live" "y \<in> live" | "x = new" "y \<in> live" | "x \<in> live" "y = new" by blast
    then show "node_range ?c x \<inter> node_range ?c y = {}"
    proof cases
      case 1
      with xy(3) i(6) live(1) show ?thesis by simp
    next
      case 2
      with i(5)[of y] live(1)[of y] newr sub show ?thesis by blast
    next
      case 3
      with i(5)[of x] live(1)[of x] newr sub show ?thesis by blast
    qed
  qed
  moreover have "{a. a < ra_size ra} = covered ?c \<union> (\<Union>x \<in> insert new live. node_range ?c x)"
    unfolding i(7) using live(1) sub by (auto simp: newr c(3))
  ultimately show ?thesis using c(1,2) i(4) by (simp add: allocator_inv_def Let_def)
qed

section \<open>Freeing\<close>

lemma free_step:
  assumes ok: "rb_ops_ok rb" and inv: "allocator_inv ra live" and n: "n \<in> live" "alloc_node al = Some n"
  shows "\<exists>ra'. uvm_range_allocator_free rb ra (Some al) = Some (ra', Some (al\<lparr>alloc_node := None\<rparr>)) \<and>
    allocator_inv ra' (live - {n}) \<and> ra_size ra' = ra_size ra \<and>
    covered (ra_tree ra') = covered (ra_tree ra) \<union> node_range (ra_tree ra) n"
proof -
  let ?t = "ra_tree ra"
  have i: "range_tree_inv ?t" "coalesced ?t" "live \<inter> set (rt_list ?t) = {}" "0 < ra_size ra"
    "\<And>x. x \<in> live \<Longrightarrow> node_start ?t x \<le> node_end ?t x \<and> node_range ?t x \<inter> covered ?t = {}"
    "\<And>x y. x \<in> live \<Longrightarrow> y \<in> live \<Longrightarrow> x \<noteq> y \<Longrightarrow> node_range ?t x \<inter> node_range ?t y = {}"
    "{a. a < ra_size ra} = covered ?t \<union> (\<Union>x \<in> live. node_range ?t x)"
    using inv by (auto simp: allocator_inv_def Let_def)
  have nin: "n \<notin> set (rt_list ?t)" using n i(3) by auto
  have "is_free ?t n"
    using i(5)[OF n(1)] range_tree_inv_le[OF i(1)]
    by (force simp: range_nodes_overlap_free uvm_ranges_overlap_iff node_range_def in_covered disjoint_iff)
  with add_cases[OF i(1) ok nin] i(5)[OF n(1)] obtain t1 xs ys where
    t1: "uvm_range_tree_add rb ?t n = (NV_OK, t1)" "range_tree_inv t1"
      "rt_list ?t = xs @ ys" "rt_list t1 = xs @ n # ys" "rt_nodes t1 = rt_nodes ?t" by blast
  have s1: "set (rt_list t1) = insert n (set (rt_list ?t))" using t1(3,4) by auto
  have cov1: "covered t1 = covered ?t \<union> node_range ?t n"
    using s1 t1(5) by (auto simp: covered_def node_range_def)
  obtain p t2 where m2: "uvm_range_tree_merge_prev rb t1 n = (p, t2)" by (cases "uvm_range_tree_merge_prev rb t1 n")
  have n1: "n \<in> set (rt_list t1)" using s1 by simp
  have inv2: "range_tree_inv t2" using merge_prev_find[OF t1(2) ok n1 m2] by simp
  note mp = merge_prev_cases[OF t1(2) ok n1, unfolded m2 prod.inject]
  have s2: "n \<in> set (rt_list t2)" "set (rt_list t2) \<subseteq> insert n (set (rt_list ?t))"
    and same2: "\<And>x. x \<noteq> n \<Longrightarrow> rt_nodes t2 x = rt_nodes ?t x"
    using mp n1 s1 t1(5) by (auto simp: set_start_def)
  have left2: "node_end t2 y + 1 \<noteq> node_start t2 n"
    if y: "y \<in> set (rt_list ?t)" "y \<in> set (rt_list t2)" "node_end t2 y < node_start t2 n" for y
  proof -
    have "y \<noteq> n" using y(1) nin by auto
    with mp y s1 i(2) t1(5) same2[of y] show ?thesis
      by (auto simp: coalesced_def set_start_def)
  qed
  obtain q t3 where m3: "uvm_range_tree_merge_next rb t2 n = (q, t3)" by (cases "uvm_range_tree_merge_next rb t2 n")
  have inv3: "range_tree_inv t3" using merge_next_find[OF inv2 ok s2(1) m3] by simp
  note mn = merge_next_cases[OF inv2 ok s2(1), unfolded m3 prod.inject]
  have s3: "n \<in> set (rt_list t3)" "set (rt_list t3) \<subseteq> set (rt_list t2)"
    and same3: "\<And>x. x \<noteq> n \<Longrightarrow> rt_nodes t3 x = rt_nodes ?t x"
    and start3: "node_start t3 n = node_start t2 n"
    using mn s2(1) same2 by (auto simp: set_end_def)
  have right3: "node_end t3 n + 1 \<noteq> node_start t3 y"
    if y: "y \<in> set (rt_list ?t)" "y \<in> set (rt_list t3)" "node_end t3 n < node_start t3 y" for y
  proof -
    have "y \<noteq> n" using y(1) nin by auto
    with mn y s2 i(2) same2 same3[of y] show ?thesis
      by (auto simp: coalesced_def set_end_def)
  qed
  have co3: "coalesced t3"
    unfolding coalesced_def
  proof (intro ballI impI notI)
    fix x y assume xy: "x \<in> set (rt_list t3)" "y \<in> set (rt_list t3)" "node_end t3 x < node_start t3 y"
      "node_end t3 x + 1 = node_start t3 y"
    have sub: "z \<noteq> n \<Longrightarrow> z \<in> set (rt_list t3) \<Longrightarrow> z \<in> set (rt_list ?t)" for z
      using s2 s3 by auto
    consider "x \<noteq> n" "y \<noteq> n" | "x \<noteq> n" "y = n" | "x = n" "y \<noteq> n" | "x = n" "y = n" by blast
    then show False
    proof cases
      case 1
      with xy sub same3 i(2) show False by (auto simp: coalesced_def)
    next
      case 2
      with xy sub[of x] s3 left2[of x] same2[of x] same3[of x] start3 show False by auto
    next
      case 3
      with xy sub[of y] right3[of y] show False by auto
    next
      case 4
      with xy(3) range_tree_inv_le[OF inv3 s3(1)] show False by auto
    qed
  qed
  have cov3: "covered t3 = covered ?t \<union> node_range ?t n"
    using covered_merge_prev[OF t1(2) ok n1 m2] covered_merge_next[OF inv2 ok s2(1) m3] cov1 by simp
  have nr: "x \<in> live - {n} \<Longrightarrow> node_range t3 x = node_range ?t x" for x
    using same3[of x] by (simp add: node_range_def)
  have "allocator_inv (ra\<lparr>ra_tree := t3\<rparr>) (live - {n})"
  proof -
    have "(live - {n}) \<inter> set (rt_list t3) = {}" using i(3) s2 s3 by blast
    moreover have "\<forall>x \<in> live - {n}. node_start t3 x \<le> node_end t3 x \<and> node_range t3 x \<inter> covered t3 = {}"
      using i(5) i(6)[OF _ n(1)] nr same3 by (auto simp: cov3)
    moreover have "{a. a < ra_size ra} = covered t3 \<union> (\<Union>x \<in> live - {n}. node_range t3 x)"
      unfolding i(7) cov3 using nr n(1) by auto
    ultimately show ?thesis using inv3 co3 i(4,6) nr by (simp add: allocator_inv_def Let_def)
  qed
  moreover have "uvm_range_allocator_free rb ra (Some al) =
      Some (ra\<lparr>ra_tree := t3\<rparr>, Some (al\<lparr>alloc_node := None\<rparr>))"
    by (simp add: uvm_range_allocator_free_def n(2) t1(1) m2 m3)
  ultimately show ?thesis using cov3 by (intro exI[of _ "ra\<lparr>ra_tree := t3\<rparr>"]) simp
qed

section \<open>Initial and final states\<close>

lemma init_correct:
  assumes ok: "rb_ops_ok rb" and sz: "0 < sz"
  shows "\<exists>ra'. uvm_range_allocator_init rb sz (Some n) m ra = (NV_OK, ra') \<and>
    allocator_inv ra' {} \<and> ra_size ra' = sz \<and> rt_list (ra_tree ra') = [n] \<and>
    node_start (ra_tree ra') n = 0 \<and> node_end (ra_tree ra') n = sz - 1"
proof -
  let ?t0 = "set_end n (sz - 1) (set_start n 0 (uvm_range_tree_init m))"
  have inv0: "range_tree_inv (uvm_range_tree_init m)"
    by (simp add: range_tree_inv_def uvm_range_tree_init_def)
  then have i0: "range_tree_inv ?t0"
    by (simp add: inv_update_unlinked uvm_range_tree_init_def)
  have l0: "rt_list (uvm_range_tree_init m) = []" by (simp add: uvm_range_tree_init_def)
  from add_cases[OF i0 ok, of n] obtain t' where t': "uvm_range_tree_add rb ?t0 n = (NV_OK, t')"
    "range_tree_inv t'" "rt_list t' = [n]" "rt_nodes t' = rt_nodes ?t0"
    by (auto simp: l0 is_free_def)
  have r: "node_start t' n = 0" "node_end t' n = sz - 1" by (simp_all add: t'(4))
  have "{a. a < sz} = covered t'"
    using sz by (auto simp: in_covered t'(3) r word_less_imp_le_minus_1) unat_arith
  with t' sz have "allocator_inv (ra\<lparr>ra_tree := t', ra_size := sz\<rparr>) {}"
    by (auto simp: allocator_inv_def Let_def coalesced_def r)
  with t' r show ?thesis
    by (intro exI[of _ "ra\<lparr>ra_tree := t', ra_size := sz\<rparr>"]) (simp add: uvm_range_allocator_init_def)
qed

text \<open>With nothing allocated the free ranges are back to one node for the whole size.\<close>

lemma all_free:
  assumes inv: "allocator_inv ra {}"
  shows "\<exists>n. rt_list (ra_tree ra) = [n] \<and> node_start (ra_tree ra) n = 0 \<and>
    node_end (ra_tree ra) n = ra_size ra - 1"
proof -
  let ?t = "ra_tree ra"
  have i: "range_tree_inv ?t" "coalesced ?t" "0 < ra_size ra" "{a. a < ra_size ra} = covered ?t"
    using inv by (auto simp: allocator_inv_def Let_def)
  have top: "ra_size ra - 1 < ra_size ra" using i(3) by unat_arith
  have "c \<in> covered ?t" if "c \<le> ra_size ra - 1" for c
    using that top i(4) by (metis le_less_trans mem_Collect_eq)
  then obtain n where n: "n \<in> set (rt_list ?t)" "node_start ?t n \<le> 0" "ra_size ra - 1 \<le> node_end ?t n"
    using covered_run[OF i(1,2), of 0 "ra_size ra - 1"] by auto
  have "node_end ?t n \<in> covered ?t" using n range_tree_inv_le[OF i(1)] by (auto simp: in_covered)
  then have "node_end ?t n \<le> ra_size ra - 1" using i(4) word_less_imp_le_minus_1 by blast
  then have e: "node_end ?t n = ra_size ra - 1" using n(3) by simp
  have "x = n" if "x \<in> set (rt_list ?t)" for x
  proof -
    have "node_start ?t x \<in> covered ?t" using that range_tree_inv_le[OF i(1) that] by (auto simp: in_covered)
    then have "node_start ?t x < ra_size ra" using i(4) by blast
    then have "node_start ?t x \<le> node_end ?t n" unfolding e by (rule word_less_imp_le_minus_1)
    moreover have "node_start ?t n \<le> node_start ?t x" using n(2) by simp
    ultimately show ?thesis
      using nodes_disjoint[OF i(1) that n(1) order.refl range_tree_inv_le[OF i(1) that]] by blast
  qed
  then have "set (rt_list ?t) = {n}" using n(1) by blast
  with range_tree_inv_distinct[OF i(1)] have "rt_list ?t = [n]" by (rule distinct_singleton)
  with n e show ?thesis by auto
qed

definition example_allocator :: uvm_range_allocator where
  "example_allocator = snd (uvm_range_allocator_init plain_rb 0x10000 (Some 0)
     (\<lambda>_. \<lparr>rn_start = 0, rn_end = 0\<rparr>) \<lparr>ra_size = 0, ra_tree = uvm_range_tree_init (\<lambda>_. \<lparr>rn_start = 0, rn_end = 0\<rparr>)\<rparr>)"

lemma example_allocator_inv: "allocator_inv example_allocator {}" "rt_list (ra_tree example_allocator) = [0]"
  "ra_size example_allocator = 0x10000"
  using init_correct[OF plain_rb_ok, of "0x10000" 0 "\<lambda>_. \<lparr>rn_start = 0, rn_end = 0\<rparr>"
      "\<lparr>ra_size = 0, ra_tree = uvm_range_tree_init (\<lambda>_. \<lparr>rn_start = 0, rn_end = 0\<rparr>)\<rparr>"]
  by (auto simp: example_allocator_def)

section \<open>Properties\<close>

text \<open>
  C33. Allocating with a fresh node: on success the block is aligned, lies inside the node
  the allocation keeps, was free and is no longer free, and the allocator stays consistent;
  the only failure is \<^verbatim>\<open>NV_ERR_UVM_ADDRESS_IN_USE\<close>, it leaves the free ranges as they were,
  and it happens only when no aligned block of that size is free anywhere.
\<close>

theorem range_allocator_alloc_correct:
  assumes "rb_ops_ok rb" "allocator_inv ra live" "new \<notin> live" "new \<notin> set (rt_list (ra_tree ra))"
    "0 < sz" "alignment = 0 \<or> is_power_of_2 alignment"
    "uvm_range_allocator_alloc rb ra (Some new) sz alignment al = (st, ra', al')"
  shows "(st = NV_OK \<and> allocator_inv ra' (insert new live) \<and> alloc_node al' = Some new \<and>
           unat (max 1 alignment) dvd unat (aligned_start al') \<and>
           node_start (ra_tree ra') new \<le> aligned_start al' \<and>
           unat (node_end (ra_tree ra') new) = unat (aligned_start al') + unat sz - 1 \<and>
           node_range (ra_tree ra') new \<subseteq> covered (ra_tree ra) \<and>
           covered (ra_tree ra') = covered (ra_tree ra) - node_range (ra_tree ra') new) \<or>
         (st = NV_ERR_UVM_ADDRESS_IN_USE \<and> ra' = ra \<and>
           (\<forall>b. unat (max 1 alignment) dvd unat b \<longrightarrow> unat b + unat sz - 1 < 2 ^ 64 \<longrightarrow>
              \<not> {b .. b + (sz - 1)} \<subseteq> covered (ra_tree ra)))"
proof -
  define al0 where "al0 = (if alignment = 0 then 1 else alignment)"
  have "is_power_of_2 al0" using assms(6) by (auto simp: al0_def is_power_of_2_def)
  then obtain k where k: "k < 64" "al0 = 2 ^ k" "unat al0 = 2 ^ k" by (rule is_power_of_2E)
  have al0: "max 1 alignment = al0"
    by (auto simp: al0_def max_def word_le_nat_alt unat_gt_0 Suc_le_eq)
  let ?t = "ra_tree ra"
  let ?scan = "alloc_scan ?t sz al0 (uvm_range_tree_for_each_in ?t 0 (ra_size ra - sz))"
  have i: "range_tree_inv ?t" "coalesced ?t" "{a. a < ra_size ra} \<supseteq> covered ?t"
    using assms(2) by (auto simp: allocator_inv_def Let_def)
  have none: "\<not> {b .. b + (sz - 1)} \<subseteq> covered ?t"
    if fail: "ra_size ra < sz \<or> ?scan = None" and b: "2 ^ k dvd unat b" "unat b + unat sz - 1 < 2 ^ 64" for b
  proof
    assume sub: "{b .. b + (sz - 1)} \<subseteq> covered ?t"
    have eq: "b + (sz - 1) = b + sz - 1" by simp
    then have end_b: "\<not> b + (sz - 1) < b" "unat (b + (sz - 1)) = unat b + unat sz - 1"
      using block_end[OF assms(5), of b] b(2) unfolding eq by auto
    have "\<And>c. b \<le> c \<Longrightarrow> c \<le> b + (sz - 1) \<Longrightarrow> c \<in> covered ?t" using sub by auto
    then obtain n where n: "n \<in> set (rt_list ?t)" "node_start ?t n \<le> b" "b + (sz - 1) \<le> node_end ?t n"
      using covered_run[OF i(1,2), of b "b + (sz - 1)"] end_b(1) not_less by blast
    then have fit: "unat b + unat sz - 1 \<le> unat (node_end ?t n)"
      using end_b by (simp add: word_le_nat_alt)
    have "b + (sz - 1) \<in> {b .. b + (sz - 1)}" using end_b(1) by (simp add: not_less)
    then have "b + (sz - 1) < ra_size ra" using sub i(3) by blast
    then have size_ok: "sz \<le> ra_size ra"
      using end_b(2) by (simp add: word_less_nat_alt word_le_nat_alt)
    with fail have "?scan = None" by auto
    with alloc_scan_visits[OF assms(2,5) size_ok n(1,2) fit]
    have "let s = UVM_ALIGN_UP (node_start ?t n) al0; e = s + sz - 1
        in s < node_start ?t n \<or> e < s \<or> node_end ?t n < e"
      by (simp add: alloc_scan_None)
    from no_fit_in_node[OF k(1,2) assms(5) this b(1) n(2)] fit show False by simp
  qed
  show ?thesis
  proof (cases "ra_size ra < sz \<or> ?scan = None")
    case True
    then have "st = NV_ERR_UVM_ADDRESS_IN_USE \<and> ra' = ra"
      using assms(7) by (auto simp: uvm_range_allocator_alloc_def Let_def al0_def split: if_splits)
    with none[OF True] show ?thesis unfolding al0 k(3) by auto
  next
    case False
    then obtain n s e where sc: "?scan = Some (n, s, e)" and size_ok: "\<not> ra_size ra < sz" by auto
    from alloc_scan_Some[OF sc] have n: "n \<in> set (rt_list ?t)" "s = UVM_ALIGN_UP (node_start ?t n) al0"
      "e = s + sz - 1" "node_start ?t n \<le> s" "s \<le> e" "e \<le> node_end ?t n"
      by (auto simp: for_each_in_filter[OF i(1)])
    have res: "st = NV_OK" "ra' = ra\<lparr>ra_tree := carve rb ?t new n e\<rparr>"
      "al' = al\<lparr>aligned_start := s, alloc_node := Some new\<rparr>"
      using assms(7) sc size_ok
      by (simp_all add: uvm_range_allocator_alloc_def carve_def Let_def al0_def split: if_splits)
    have se: "node_start ?t n \<le> e" using n(4,5) by simp
    note c = carve_correct[OF i(1) assms(1) i(2) n(1) assms(4) se n(6)]
    have "2 ^ k dvd unat s" using align_up_fits(1)[OF k(1,2)] n(2,4) by simp
    moreover have "unat e = unat s + unat sz - 1"
      using block_end(2)[OF assms(5), of s] n(3,5) by simp
    moreover have "{node_start ?t n .. e} \<subseteq> covered ?t"
      using n(1,6) by (auto simp: in_covered intro!: bexI[of _ n])
    moreover have "allocator_inv ra' (insert new live)"
      unfolding res(2) by (rule alloc_success[OF assms(1-4) n(1) se n(6)])
    ultimately show ?thesis
      unfolding al0 k(3) using c(3-5) n(4) by (simp add: res node_range_def)
  qed
qed

theorem range_allocator_alloc_correct_witness:
  "\<exists>st ra' al'. uvm_range_allocator_alloc plain_rb example_allocator (Some 1) 0x1000 0x1000
      \<lparr>aligned_start = 0, alloc_node = None\<rparr> = (st, ra', al') \<and>
      (st = NV_OK \<or> st = NV_ERR_UVM_ADDRESS_IN_USE)"
proof -
  obtain st ra' al' where r: "uvm_range_allocator_alloc plain_rb example_allocator (Some 1) 0x1000 0x1000
      \<lparr>aligned_start = 0, alloc_node = None\<rparr> = (st, ra', al')" by (metis prod_cases3)
  from range_allocator_alloc_correct[OF plain_rb_ok example_allocator_inv(1) _ _ _ _ r] r show ?thesis
    by (auto simp: example_allocator_inv is_power_of_2_def)
qed

text \<open>
  Freeing an allocation always succeeds: it returns exactly the range its node reserved
  to the free ranges, keeps every other allocation and the allocator consistent, and clears
  the node pointer.
\<close>

theorem range_allocator_free_correct:
  assumes "rb_ops_ok rb" "allocator_inv ra live" "n \<in> live" "alloc_node al = Some n"
  shows "\<exists>ra'. uvm_range_allocator_free rb ra (Some al) = Some (ra', Some (al\<lparr>alloc_node := None\<rparr>)) \<and>
    allocator_inv ra' (live - {n}) \<and> ra_size ra' = ra_size ra \<and>
    covered (ra_tree ra') = covered (ra_tree ra) \<union> node_range (ra_tree ra) n"
  by (rule free_step[OF assms])

theorem range_allocator_free_correct_witness:
  "\<exists>ra' al'. uvm_range_allocator_free plain_rb
      (example_allocator\<lparr>ra_tree := carve plain_rb (ra_tree example_allocator) 1 0 0xFFF\<rparr>)
      (Some \<lparr>aligned_start = 0, alloc_node = Some 1\<rparr>) = Some (ra', al') \<and> allocator_inv ra' {}"
proof -
  have r: "node_start (ra_tree example_allocator) 0 = 0"
    "node_end (ra_tree example_allocator) 0 = 0xFFFF"
    using all_free[OF example_allocator_inv(1)] by (auto simp: example_allocator_inv)
  have "allocator_inv (example_allocator\<lparr>ra_tree := carve plain_rb (ra_tree example_allocator) 1 0 0xFFF\<rparr>) {1}"
    using alloc_success[OF plain_rb_ok example_allocator_inv(1), of 1 0 "0xFFF"] r
    by (simp add: example_allocator_inv)
  from range_allocator_free_correct[OF plain_rb_ok this, of 1 "\<lparr>aligned_start = 0, alloc_node = Some 1\<rparr>"]
  show ?thesis by auto
qed

text \<open>
  Initialisation yields one free range of the whole size, and when every allocation has
  been freed the tree is again that one range, so the assertions of
  \<^verbatim>\<open>uvm_range_allocator_deinit\<close> hold and it leaves the tree empty.
\<close>

theorem range_allocator_lifecycle:
  assumes "rb_ops_ok rb" "0 < sz"
  shows "(\<exists>ra'. uvm_range_allocator_init rb sz (Some n) m ra = (NV_OK, ra') \<and> allocator_inv ra' {} \<and>
            ra_size ra' = sz) \<and>
         (\<forall>ra. allocator_inv ra {} \<longrightarrow>
            (\<exists>node ra'. uvm_range_tree_iter_first (ra_tree ra) 0 (ra_size ra - 1) = Some node \<and>
               node_start (ra_tree ra) node = 0 \<and> node_end (ra_tree ra) node = ra_size ra - 1 \<and>
               uvm_range_allocator_deinit rb ra = Some ra' \<and> rt_list (ra_tree ra') = []))"
proof (intro conjI allI impI)
  show "\<exists>ra'. uvm_range_allocator_init rb sz (Some n) m ra = (NV_OK, ra') \<and> allocator_inv ra' {} \<and>
      ra_size ra' = sz"
    using init_correct[OF assms] by blast
next
  fix ra assume inv: "allocator_inv ra {}"
  then obtain n where n: "rt_list (ra_tree ra) = [n]" "node_start (ra_tree ra) n = 0"
    "node_end (ra_tree ra) n = ra_size ra - 1" using all_free by blast
  have "range_tree_inv (ra_tree ra)" using inv by (simp add: allocator_inv_def Let_def)
  then have "fst (range_node_find (ra_tree ra) 0) = Some n"
    by (simp add: range_node_find_Some contains_def n)
  then have "uvm_range_tree_iter_first (ra_tree ra) 0 (ra_size ra - 1) = Some n"
    by (auto simp: uvm_range_tree_iter_first_def split: prod.splits)
  with n show "\<exists>node ra'. uvm_range_tree_iter_first (ra_tree ra) 0 (ra_size ra - 1) = Some node \<and>
      node_start (ra_tree ra) node = 0 \<and> node_end (ra_tree ra) node = ra_size ra - 1 \<and>
      uvm_range_allocator_deinit rb ra = Some ra' \<and> rt_list (ra_tree ra') = []"
    by (simp add: uvm_range_allocator_deinit_def remove_list)
qed

theorem range_allocator_lifecycle_witness:
  "\<exists>ra'. uvm_range_allocator_deinit plain_rb example_allocator = Some ra' \<and> rt_list (ra_tree ra') = []"
  using conjunct2[OF range_allocator_lifecycle[OF plain_rb_ok, of 1 0 "\<lambda>_. \<lparr>rn_start = 0, rn_end = 0\<rparr>"
      example_allocator]] example_allocator_inv(1) by auto

end
