(* ===== verification/Gpu_Semaphore.thy ===== *)
theory Gpu_Semaphore
  imports UVM_Prelude
begin

text \<open>
  \<^verbatim>\<open>uvm8_gpu_semaphore.c\<close>: 4-byte semaphores handed out from pages shared between CPU and
  GPU, and tracking semaphores, which extend the 32-bit payload the GPU writes to a 64-bit
  completed value. A page's CPU and GPU addresses come from RM
  (\<^verbatim>\<open>uvm_rm_mem_alloc_and_map_all\<close>), whose outcome is an argument, as is that of
  \<^verbatim>\<open>uvm_kvmalloc_zero\<close> (an identifier for the page, or NULL). \<open>debug\<close> is \<^verbatim>\<open>UVM_IS_DEBUG()\<close>.
  The pool's mutex makes each operation one step. Payloads live in a memory indexed by CPU
  address, which the GPU writes as well.
\<close>

section \<open>State\<close>

definition UVM_SEMAPHORE_SIZE :: nat where
  "UVM_SEMAPHORE_SIZE = 4"

definition UVM_SEMAPHORE_COUNT_PER_PAGE :: nat where
  "UVM_SEMAPHORE_COUNT_PER_PAGE = 4096 div UVM_SEMAPHORE_SIZE"

lemma semaphore_constants [simp]:
  "UVM_SEMAPHORE_SIZE = 4" "UVM_SEMAPHORE_COUNT_PER_PAGE = 1024"
  by (simp_all add: UVM_SEMAPHORE_SIZE_def UVM_SEMAPHORE_COUNT_PER_PAGE_def)

type_synonym gpu_id = nat

record rm_mem =
  rm_cpu_va :: u64
  rm_gpu_va :: "gpu_id \<Rightarrow> u64"

record uvm_gpu_semaphore_pool_page =
  page_id :: nat
  page_memory :: rm_mem
  free_semaphores :: "bool list"

record uvm_gpu_semaphore_pool =
  pool_gpu :: gpu_id
  pool_pages :: "uvm_gpu_semaphore_pool_page list"
  free_semaphores_count :: u32

type_synonym payloads = "u64 \<Rightarrow> u32"

record uvm_gpu_semaphore =
  sem_page :: "nat option"
  sem_payload :: u64

definition null_semaphore :: uvm_gpu_semaphore where
  "null_semaphore = \<lparr>sem_page = None, sem_payload = 0\<rparr>"

section \<open>Canaries\<close>

definition UVM_SEMAPHORE_CANARY_BASE :: u32 where
  "UVM_SEMAPHORE_CANARY_BASE = 0x0badc0de"

definition UVM_SEMAPHORE_CANARY_MASK :: u32 where
  "UVM_SEMAPHORE_CANARY_MASK = 0xf0000000"

definition make_canary :: "u32 \<Rightarrow> u32" where
  "make_canary payload =
     (let prev_quadrant = payload - push_bit 30 1
      in (prev_quadrant AND UVM_SEMAPHORE_CANARY_MASK) OR UVM_SEMAPHORE_CANARY_BASE)"

definition is_canary :: "u32 \<Rightarrow> bool" where
  "is_canary val \<longleftrightarrow> val AND NOT UVM_SEMAPHORE_CANARY_MASK = UVM_SEMAPHORE_CANARY_BASE"

section \<open>Pages\<close>

text \<open>\<^verbatim>\<open>offset\<close> is truncated to 32 bits before the division.\<close>

definition get_index :: "uvm_gpu_semaphore_pool_page \<Rightarrow> uvm_gpu_semaphore \<Rightarrow> u32" where
  "get_index page sem =
     (let offset = (ucast (sem_payload sem - rm_cpu_va (page_memory page)) :: u32)
      in offset div word_of_nat UVM_SEMAPHORE_SIZE)"

definition slot_va :: "rm_mem \<Rightarrow> nat \<Rightarrow> u64" where
  "slot_va m i = rm_cpu_va m + word_of_nat (i * UVM_SEMAPHORE_SIZE)"

fun fill_payloads :: "rm_mem \<Rightarrow> u32 \<Rightarrow> nat \<Rightarrow> payloads \<Rightarrow> payloads" where
  "fill_payloads m v 0 mem = mem"
| "fill_payloads m v (Suc i) mem = (fill_payloads m v i mem)(slot_va m i := v)"

definition pool_alloc_page ::
  "bool \<Rightarrow> nat option \<Rightarrow> nv_status \<times> rm_mem \<Rightarrow> uvm_gpu_semaphore_pool \<Rightarrow> payloads \<Rightarrow>
   nv_status \<times> uvm_gpu_semaphore_pool \<times> payloads" where
  "pool_alloc_page debug kvmalloc rm pool mem =
     (case kvmalloc of
        None \<Rightarrow> (NV_ERR_NO_MEMORY, pool, mem)
      | Some p \<Rightarrow>
          let (status, memory) = rm
          in if status \<noteq> NV_OK then (status, pool, mem)
             else
               let page = \<lparr>page_id = p, page_memory = memory,
                     free_semaphores = replicate UVM_SEMAPHORE_COUNT_PER_PAGE True\<rparr>;
                   pool' = pool\<lparr>pool_pages := page # pool_pages pool,
                     free_semaphores_count :=
                       free_semaphores_count pool + word_of_nat UVM_SEMAPHORE_COUNT_PER_PAGE\<rparr>;
                   mem' = (if debug
                           then fill_payloads memory (make_canary 0) UVM_SEMAPHORE_COUNT_PER_PAGE mem
                           else mem)
               in (NV_OK, pool', mem'))"

definition pool_free_page :: "uvm_gpu_semaphore_pool_page \<Rightarrow> uvm_gpu_semaphore_pool \<Rightarrow> uvm_gpu_semaphore_pool" where
  "pool_free_page page pool =
     pool\<lparr>free_semaphores_count :=
            free_semaphores_count pool - word_of_nat UVM_SEMAPHORE_COUNT_PER_PAGE,
          pool_pages := remove1 page (pool_pages pool)\<rparr>"

section \<open>Semaphores\<close>

definition uvm_gpu_semaphore_get_payload :: "payloads \<Rightarrow> uvm_gpu_semaphore \<Rightarrow> u32" where
  "uvm_gpu_semaphore_get_payload mem sem = mem (sem_payload sem)"

definition uvm_gpu_semaphore_set_payload :: "uvm_gpu_semaphore \<Rightarrow> u32 \<Rightarrow> payloads \<Rightarrow> payloads" where
  "uvm_gpu_semaphore_set_payload sem v mem = mem(sem_payload sem := v)"

text \<open>
  The loop over the pages: the pages with the first free bit of the first page that has one
  cleared, that page and the bit's index.
\<close>

fun claim_slot ::
  "uvm_gpu_semaphore_pool_page list \<Rightarrow>
   (uvm_gpu_semaphore_pool_page list \<times> uvm_gpu_semaphore_pool_page \<times> nat) option" where
  "claim_slot [] = None"
| "claim_slot (p # ps) =
     (let i = find_first_bit (free_semaphores p)
      in if i = UVM_SEMAPHORE_COUNT_PER_PAGE
         then map_option (\<lambda>(ps', r). (p # ps', r)) (claim_slot ps)
         else Some (p\<lparr>free_semaphores := (free_semaphores p)[i := False]\<rparr> # ps, p, i))"

definition uvm_gpu_semaphore_alloc ::
  "bool \<Rightarrow> nat option \<Rightarrow> nv_status \<times> rm_mem \<Rightarrow> uvm_gpu_semaphore_pool \<Rightarrow> payloads \<Rightarrow>
   nv_status \<times> uvm_gpu_semaphore \<times> uvm_gpu_semaphore_pool \<times> payloads" where
  "uvm_gpu_semaphore_alloc debug kvmalloc rm pool0 mem0 =
     (let (status, pool, mem) =
            (if free_semaphores_count pool0 = 0 then pool_alloc_page debug kvmalloc rm pool0 mem0
             else (NV_OK, pool0, mem0))
      in if status \<noteq> NV_OK then (status, null_semaphore, pool, mem)
         else case claim_slot (pool_pages pool) of
           None \<Rightarrow> (NV_ERR_GENERIC, null_semaphore, pool, mem)
         | Some (pages', page, i) \<Rightarrow>
             let sem = \<lparr>sem_page = Some (page_id page), sem_payload = slot_va (page_memory page) i\<rparr>
             in (NV_OK, sem,
                 pool\<lparr>pool_pages := pages', free_semaphores_count := free_semaphores_count pool - 1\<rparr>,
                 uvm_gpu_semaphore_set_payload sem 0 mem))"

definition find_page :: "uvm_gpu_semaphore_pool \<Rightarrow> nat \<Rightarrow> uvm_gpu_semaphore_pool_page option" where
  "find_page pool p = find (\<lambda>q. page_id q = p) (pool_pages pool)"

definition set_page_bit ::
  "nat \<Rightarrow> nat \<Rightarrow> uvm_gpu_semaphore_pool_page list \<Rightarrow> uvm_gpu_semaphore_pool_page list" where
  "set_page_bit p i = map (\<lambda>q. if page_id q = p
     then q\<lparr>free_semaphores := (free_semaphores q)[i := True]\<rparr> else q)"

text \<open>
  \<open>page\<close> is the page structure \<^verbatim>\<open>semaphore->page\<close> points to; a page that is not in the pool
  is never pointed to, and the operation is then left undefined as \<open>None\<close>.
\<close>

definition uvm_gpu_semaphore_free ::
  "bool \<Rightarrow> uvm_gpu_semaphore \<Rightarrow> uvm_gpu_semaphore_pool \<Rightarrow> payloads \<Rightarrow>
   (uvm_gpu_semaphore \<times> uvm_gpu_semaphore_pool \<times> payloads) option" where
  "uvm_gpu_semaphore_free debug sem pool mem =
     (case sem_page sem of
        None \<Rightarrow> Some (sem, pool, mem)
      | Some p \<Rightarrow>
          (case find_page pool p of
             None \<Rightarrow> None
           | Some page \<Rightarrow>
               let index = get_index page sem;
                   mem' = (if debug
                           then uvm_gpu_semaphore_set_payload sem
                                  (make_canary (uvm_gpu_semaphore_get_payload mem sem)) mem
                           else mem)
               in Some (sem\<lparr>sem_page := None, sem_payload := 0\<rparr>,
                        pool\<lparr>pool_pages := set_page_bit p (unat index) (pool_pages pool),
                             free_semaphores_count := free_semaphores_count pool + 1\<rparr>,
                        mem')))"

definition uvm_gpu_semaphore_pool_create ::
  "gpu_id \<Rightarrow> bool \<Rightarrow> nv_status \<times> uvm_gpu_semaphore_pool option" where
  "uvm_gpu_semaphore_pool_create gpu kvmalloc_ok =
     (if \<not> kvmalloc_ok then (NV_ERR_NO_MEMORY, None)
      else (NV_OK, Some \<lparr>pool_gpu = gpu, pool_pages = [], free_semaphores_count = 0\<rparr>))"

text \<open>The state of the pool when \<^verbatim>\<open>uvm_gpu_semaphore_pool_destroy\<close> frees its structure.\<close>

fun free_pages :: "uvm_gpu_semaphore_pool_page list \<Rightarrow> uvm_gpu_semaphore_pool \<Rightarrow> uvm_gpu_semaphore_pool" where
  "free_pages [] pool = pool"
| "free_pages (p # ps) pool = free_pages ps (pool_free_page p pool)"

definition uvm_gpu_semaphore_pool_destroy ::
  "uvm_gpu_semaphore_pool option \<Rightarrow> uvm_gpu_semaphore_pool option" where
  "uvm_gpu_semaphore_pool_destroy pool_ptr =
     (case pool_ptr of None \<Rightarrow> None | Some pool \<Rightarrow> Some (free_pages (pool_pages pool) pool))"

text \<open>Mapping to another GPU stops at the first page RM cannot map.\<close>

fun map_pages ::
  "(rm_mem \<Rightarrow> nv_status \<times> rm_mem) \<Rightarrow> uvm_gpu_semaphore_pool_page list \<Rightarrow>
   nv_status \<times> uvm_gpu_semaphore_pool_page list" where
  "map_pages rm_map [] = (NV_OK, [])"
| "map_pages rm_map (p # ps) =
     (let (status, m) = rm_map (page_memory p); p' = p\<lparr>page_memory := m\<rparr>
      in if status \<noteq> NV_OK then (status, p' # ps)
         else let (status', ps') = map_pages rm_map ps in (status', p' # ps'))"

definition uvm_gpu_semaphore_pool_map_gpu ::
  "(rm_mem \<Rightarrow> nv_status \<times> rm_mem) \<Rightarrow> uvm_gpu_semaphore_pool \<Rightarrow> nv_status \<times> uvm_gpu_semaphore_pool" where
  "uvm_gpu_semaphore_pool_map_gpu rm_map pool =
     (let (status, ps) = map_pages rm_map (pool_pages pool) in (status, pool\<lparr>pool_pages := ps\<rparr>))"

definition uvm_gpu_semaphore_pool_unmap_gpu ::
  "(rm_mem \<Rightarrow> rm_mem) \<Rightarrow> uvm_gpu_semaphore_pool \<Rightarrow> uvm_gpu_semaphore_pool" where
  "uvm_gpu_semaphore_pool_unmap_gpu rm_unmap pool =
     pool\<lparr>pool_pages := map (\<lambda>p. p\<lparr>page_memory := rm_unmap (page_memory p)\<rparr>) (pool_pages pool)\<rparr>"

definition uvm_gpu_semaphore_get_gpu_va :: "uvm_gpu_semaphore_pool_page \<Rightarrow> uvm_gpu_semaphore \<Rightarrow> gpu_id \<Rightarrow> u64" where
  "uvm_gpu_semaphore_get_gpu_va page sem gpu =
     rm_gpu_va (page_memory page) gpu + ucast (word_of_nat UVM_SEMAPHORE_SIZE * get_index page sem)"

section \<open>Tracking semaphores\<close>

record uvm_gpu_tracking_semaphore =
  ts_semaphore :: uvm_gpu_semaphore
  completed_value :: u64
  queued_value :: u64

definition uvm_gpu_tracking_semaphore_alloc ::
  "bool \<Rightarrow> nat option \<Rightarrow> nv_status \<times> rm_mem \<Rightarrow> uvm_gpu_semaphore_pool \<Rightarrow> payloads \<Rightarrow>
   nv_status \<times> uvm_gpu_tracking_semaphore \<times> uvm_gpu_semaphore_pool \<times> payloads" where
  "uvm_gpu_tracking_semaphore_alloc debug kvmalloc rm pool mem =
     (let (status, sem, pool', mem') = uvm_gpu_semaphore_alloc debug kvmalloc rm pool mem
      in (status, \<lparr>ts_semaphore = sem, completed_value = 0, queued_value = 0\<rparr>, pool', mem'))"

definition uvm_gpu_tracking_semaphore_free ::
  "bool \<Rightarrow> uvm_gpu_tracking_semaphore \<Rightarrow> uvm_gpu_semaphore_pool \<Rightarrow> payloads \<Rightarrow>
   (uvm_gpu_tracking_semaphore \<times> uvm_gpu_semaphore_pool \<times> payloads) option" where
  "uvm_gpu_tracking_semaphore_free debug ts pool mem =
     map_option (\<lambda>(sem, pool', mem'). (ts\<lparr>ts_semaphore := sem\<rparr>, pool', mem'))
       (uvm_gpu_semaphore_free debug (ts_semaphore ts) pool mem)"

definition update_completed_value_locked ::
  "payloads \<Rightarrow> uvm_gpu_tracking_semaphore \<Rightarrow> u64 \<times> uvm_gpu_tracking_semaphore" where
  "update_completed_value_locked mem ts =
     (let old_value = completed_value ts;
          old_sem_value = (ucast old_value :: u32);
          new_sem_value = uvm_gpu_semaphore_get_payload mem (ts_semaphore ts)
      in if old_sem_value = new_sem_value then (old_value, ts)
         else
           let new_value = (old_value AND 0xFFFFFFFF00000000) OR ucast new_sem_value;
               new_value = (if new_sem_value < old_sem_value then new_value + push_bit 32 1
                            else new_value)
           in (new_value, ts\<lparr>completed_value := new_value\<rparr>))"

definition uvm_gpu_tracking_semaphore_update_completed_value ::
  "payloads \<Rightarrow> uvm_gpu_tracking_semaphore \<Rightarrow> u64 \<times> uvm_gpu_tracking_semaphore" where
  "uvm_gpu_tracking_semaphore_update_completed_value mem ts = update_completed_value_locked mem ts"

definition uvm_gpu_tracking_semaphore_is_value_completed ::
  "payloads \<Rightarrow> uvm_gpu_tracking_semaphore \<Rightarrow> u64 \<Rightarrow> bool \<times> uvm_gpu_tracking_semaphore" where
  "uvm_gpu_tracking_semaphore_is_value_completed mem ts v =
     (if v \<le> completed_value ts then (True, ts)
      else let (completed, ts') = uvm_gpu_tracking_semaphore_update_completed_value mem ts
           in (v \<le> completed, ts'))"

section \<open>Pool invariant\<close>

text \<open>
  Pages are distinct and do not overlap in the CPU's address space, and the count is the
  number of free bits. Fewer than \<open>2 ^ 22\<close> pages keep that number in its 32 bits.
\<close>

definition page_ok :: "uvm_gpu_semaphore_pool_page \<Rightarrow> bool" where
  "page_ok p \<longleftrightarrow> length (free_semaphores p) = 1024 \<and> unat (rm_cpu_va (page_memory p)) + 4096 \<le> 2 ^ 64"

definition apart :: "rm_mem \<Rightarrow> rm_mem \<Rightarrow> bool" where
  "apart m m' \<longleftrightarrow> unat (rm_cpu_va m) + 4096 \<le> unat (rm_cpu_va m') \<or>
     unat (rm_cpu_va m') + 4096 \<le> unat (rm_cpu_va m)"

definition free_count :: "uvm_gpu_semaphore_pool_page list \<Rightarrow> nat" where
  "free_count ps = sum_list (map (\<lambda>p. bitmap_weight (free_semaphores p)) ps)"

definition pool_inv :: "uvm_gpu_semaphore_pool \<Rightarrow> bool" where
  "pool_inv pool \<longleftrightarrow>
     (let ps = pool_pages pool
      in distinct (map page_id ps) \<and> (\<forall>p \<in> set ps. page_ok p) \<and>
         (\<forall>p \<in> set ps. \<forall>q \<in> set ps. p \<noteq> q \<longrightarrow> apart (page_memory p) (page_memory q)) \<and>
         length ps < 2 ^ 22 \<and> unat (free_semaphores_count pool) = free_count ps)"

text \<open>The semaphores in use, by page and index.\<close>

definition in_use_page :: "uvm_gpu_semaphore_pool_page \<Rightarrow> (nat \<times> nat) set" where
  "in_use_page p = {(page_id p, i) | i. i < 1024 \<and> \<not> free_semaphores p ! i}"

definition in_use :: "uvm_gpu_semaphore_pool_page list \<Rightarrow> (nat \<times> nat) set" where
  "in_use ps = (\<Union>p \<in> set ps. in_use_page p)"

lemma in_use_simps [simp]:
  "in_use [] = {}" "in_use (p # ps) = in_use_page p \<union> in_use ps" "in_use (ps @ qs) = in_use ps \<union> in_use qs"
  by (simp_all add: in_use_def)

lemma in_use_page_id: "(x, i) \<in> in_use ps \<Longrightarrow> x \<in> page_id ` set ps"
  by (auto simp: in_use_def in_use_page_def)

lemma in_use_page_clear:
  "i < 1024 \<Longrightarrow> length (free_semaphores p) = 1024 \<Longrightarrow>
   in_use_page (p\<lparr>free_semaphores := (free_semaphores p)[i := False]\<rparr>) = insert (page_id p, i) (in_use_page p)"
  by (auto simp: in_use_page_def nth_list_update)

lemma in_use_page_set:
  "i < 1024 \<Longrightarrow> length (free_semaphores p) = 1024 \<Longrightarrow>
   in_use_page (p\<lparr>free_semaphores := (free_semaphores p)[i := True]\<rparr>) = in_use_page p - {(page_id p, i)}"
  by (auto simp: in_use_page_def nth_list_update)

lemma free_count_simps [simp]:
  "free_count [] = 0" "free_count (p # ps) = bitmap_weight (free_semaphores p) + free_count ps"
  "free_count (ps @ qs) = free_count ps + free_count qs"
  by (simp_all add: free_count_def)

lemma free_count_bound: "\<forall>p \<in> set ps. page_ok p \<Longrightarrow> free_count ps \<le> 1024 * length ps"
proof (induction ps)
  case (Cons p ps)
  then show ?case using bitmap_weight_le[of "free_semaphores p"] by (simp add: page_ok_def)
qed simp

lemma claim_slot_Some:
  assumes "claim_slot ps = Some (ps', p, i)" "\<forall>p \<in> set ps. page_ok p"
  shows "\<exists>xs ys. ps = xs @ p # ys \<and> ps' = xs @ p\<lparr>free_semaphores := (free_semaphores p)[i := False]\<rparr> # ys \<and>
    i < 1024 \<and> free_semaphores p ! i"
  using assms
proof (induction ps arbitrary: ps')
  case (Cons q qs)
  show ?case
  proof (cases "find_first_bit (free_semaphores q) = 1024")
    case True
    with Cons.prems obtain qs' where q: "claim_slot qs = Some (qs', p, i)" "ps' = q # qs'"
      by (auto simp: Let_def)
    from Cons.IH[OF q(1)] Cons.prems(2) obtain xs ys where
      "qs = xs @ p # ys" "qs' = xs @ p\<lparr>free_semaphores := (free_semaphores p)[i := False]\<rparr> # ys"
      "i < 1024" "free_semaphores p ! i" by auto
    then show ?thesis using q(2) by (intro exI[of _ "q # xs"] exI[of _ ys]) simp
  next
    case False
    with Cons.prems have "p = q" "i = find_first_bit (free_semaphores q)"
      "ps' = q\<lparr>free_semaphores := (free_semaphores q)[i := False]\<rparr> # qs" "length (free_semaphores q) = 1024"
      by (auto simp: Let_def page_ok_def)
    moreover from this False find_first_bit_le[of "free_semaphores q"]
      find_first_bit_set[of "free_semaphores q"] have "i < 1024" "free_semaphores q ! i" by auto
    ultimately show ?thesis by (intro exI[of _ "[]"] exI[of _ qs]) simp
  qed
qed simp

lemma claim_slot_None:
  assumes "claim_slot ps = None" "\<forall>p \<in> set ps. page_ok p"
  shows "free_count ps = 0"
  using assms
proof (induction ps)
  case (Cons p ps)
  then have "find_first_bit (free_semaphores p) = length (free_semaphores p)"
    by (auto simp: page_ok_def Let_def split: if_splits)
  then have "bitmap_weight (free_semaphores p) = 0"
    by (simp add: find_first_bit_none bitmap_weight_0)
  with Cons show ?case by (auto simp: Let_def split: if_splits)
qed simp

section \<open>Addresses of semaphores\<close>

lemma unat_slot_va:
  "page_ok p \<Longrightarrow> i < 1024 \<Longrightarrow> unat (slot_va (page_memory p) i) = unat (rm_cpu_va (page_memory p)) + 4 * i"
proof -
  assume p: "page_ok p" "i < 1024"
  have "unat (word_of_nat (i * 4) :: u64) = i * 4"
    by (rule unat_of_nat_u64) (use p(2) in simp)
  with p show ?thesis
    by (simp add: slot_va_def page_ok_def unat_word_ariths mod_less)
qed

lemma slot_va_inj:
  assumes "page_ok p" "page_ok q" "p = q \<or> apart (page_memory p) (page_memory q)" "i < 1024" "j < 1024"
    "slot_va (page_memory p) i = slot_va (page_memory q) j"
  shows "p = q \<and> i = j"
  using arg_cong[OF assms(6), of unat] assms(3-5)
  by (auto simp: unat_slot_va[OF assms(1)] unat_slot_va[OF assms(2)] apart_def)

lemma get_index_slot:
  assumes "page_ok p" "i < 1024"
  shows "unat (get_index p \<lparr>sem_page = x, sem_payload = slot_va (page_memory p) i\<rparr>) = i"
proof -
  have "slot_va (page_memory p) i - rm_cpu_va (page_memory p) = word_of_nat (i * 4)"
    by (simp add: slot_va_def)
  then have "unat (get_index p \<lparr>sem_page = x, sem_payload = slot_va (page_memory p) i\<rparr>) =
      unat ((ucast (word_of_nat (i * 4) :: u64) :: u32)) div 4"
    by (simp add: get_index_def unat_div)
  also have "unat ((ucast (word_of_nat (i * 4) :: u64) :: u32)) = i * 4"
  proof -
    have "unat (word_of_nat (i * 4) :: u64) = i * 4"
      by (rule unat_of_nat_u64) (use assms(2) in simp)
    then show ?thesis
      using assms(2) unfolding unsigned_ucast_eq by (simp only: of_nat_id) (simp add: take_bit_nat_eq_self)
  qed
  finally show ?thesis by simp
qed

section \<open>Allocation\<close>

text \<open>What the environment promises about a new page.\<close>

definition new_page_ok :: "nat option \<Rightarrow> nv_status \<times> rm_mem \<Rightarrow> uvm_gpu_semaphore_pool \<Rightarrow> bool" where
  "new_page_ok kvmalloc rm pool \<longleftrightarrow>
     (\<forall>p m. kvmalloc = Some p \<longrightarrow> rm = (NV_OK, m) \<longrightarrow>
        p \<notin> page_id ` set (pool_pages pool) \<and> unat (rm_cpu_va m) + 4096 \<le> 2 ^ 64 \<and>
        (\<forall>q \<in> set (pool_pages pool). apart m (page_memory q)) \<and>
        length (pool_pages pool) + 1 < 2 ^ 22)"

lemma pool_alloc_page_ok:
  assumes inv: "pool_inv pool" and env: "new_page_ok kvmalloc rm pool"
    and r: "pool_alloc_page debug kvmalloc rm pool mem = (NV_OK, pool', mem')"
  shows "pool_inv pool' \<and> in_use (pool_pages pool') = in_use (pool_pages pool) \<and>
    set (pool_pages pool) \<subseteq> set (pool_pages pool') \<and> 0 < free_count (pool_pages pool')"
proof -
  from r obtain p m where pm: "kvmalloc = Some p" "rm = (NV_OK, m)"
    by (auto simp: pool_alloc_page_def Let_def split: option.splits prod.splits if_splits)
  define pg where "pg = \<lparr>page_id = p, page_memory = m, free_semaphores = replicate 1024 True\<rparr>"
  have pool': "pool_pages pool' = pg # pool_pages pool"
    "free_semaphores_count pool' = free_semaphores_count pool + 1024"
    using r by (auto simp: pool_alloc_page_def pm pg_def Let_def)
  have e: "p \<notin> page_id ` set (pool_pages pool)" "unat (rm_cpu_va m) + 4096 \<le> 2 ^ 64"
    "\<forall>q \<in> set (pool_pages pool). apart m (page_memory q)" "length (pool_pages pool) + 1 < 2 ^ 22"
    using env pm by (auto simp: new_page_ok_def)
  have i: "distinct (map page_id (pool_pages pool))" "\<forall>p \<in> set (pool_pages pool). page_ok p"
    "unat (free_semaphores_count pool) = free_count (pool_pages pool)"
    "\<forall>p \<in> set (pool_pages pool). \<forall>q \<in> set (pool_pages pool). p \<noteq> q \<longrightarrow> apart (page_memory p) (page_memory q)"
    using inv by (auto simp: pool_inv_def Let_def)
  have "unat (free_semaphores_count pool) + 1024 < 2 ^ 32"
    using free_count_bound[OF i(2)] i(3) e(4) by simp
  then have "unat (free_semaphores_count pool + 1024) = unat (free_semaphores_count pool) + 1024"
    by (simp add: unat_word_ariths mod_less)
  moreover have "page_ok pg" using e(2) by (simp add: page_ok_def pg_def)
  moreover have "in_use (pool_pages pool') = in_use (pool_pages pool)"
    by (auto simp: in_use_page_def pool'(1) pg_def)
  ultimately show ?thesis
    using e i pool' by (auto simp: pool_inv_def Let_def pg_def apart_def)
qed

lemma page_ids_apart:
  "distinct (map page_id (xs @ p # ys)) \<Longrightarrow> page_id p \<notin> page_id ` set xs \<and> page_id p \<notin> page_id ` set ys"
  by auto

lemma claim_in_use:
  assumes "distinct (map page_id (xs @ p # ys))" "i < 1024" "free_semaphores p ! i"
    "length (free_semaphores p) = 1024"
  shows "(page_id p, i) \<notin> in_use (xs @ p # ys)"
    and "in_use (xs @ p\<lparr>free_semaphores := (free_semaphores p)[i := False]\<rparr> # ys) =
      insert (page_id p, i) (in_use (xs @ p # ys))"
  using page_ids_apart[OF assms(1)] in_use_page_id[of "page_id p" i] assms(2-4)
  by (auto simp: in_use_page_clear) (simp add: in_use_page_def)

lemma pool_inv_replace:
  assumes inv: "pool_inv pool" and l: "pool_pages pool = xs @ p # ys"
    and p': "page_id p' = page_id p" "page_memory p' = page_memory p" "length (free_semaphores p') = 1024"
    and c: "unat c = free_count (xs @ p' # ys)"
  shows "pool_inv (pool\<lparr>pool_pages := xs @ p' # ys, free_semaphores_count := c\<rparr>)"
proof -
  have i: "distinct (map page_id (xs @ p # ys))" "\<forall>q \<in> set (xs @ p # ys). page_ok q"
    "\<forall>q \<in> set (xs @ p # ys). \<forall>r \<in> set (xs @ p # ys). q \<noteq> r \<longrightarrow> apart (page_memory q) (page_memory r)"
    "length (xs @ p # ys) < 2 ^ 22"
    using inv by (auto simp: pool_inv_def Let_def l)
  have np: "q \<noteq> p" if "q \<in> set xs \<or> q \<in> set ys" for q
    using that page_ids_apart[OF i(1)] by auto
  have "page_ok p'" using i(2) p' by (simp add: page_ok_def)
  moreover have "apart (page_memory q) (page_memory p')" "apart (page_memory p') (page_memory q)"
    if "q \<in> set xs \<or> q \<in> set ys" for q
    using i(3) that np[OF that] p'(2) by auto
  ultimately show ?thesis
    using i p'(1) c by (auto simp: pool_inv_def Let_def)
qed

lemma claim_correct:
  assumes inv: "pool_inv pool" and c: "claim_slot (pool_pages pool) = Some (ps', p, i)"
  shows "pool_inv (pool\<lparr>pool_pages := ps', free_semaphores_count := free_semaphores_count pool - 1\<rparr>)"
    and "(page_id p, i) \<notin> in_use (pool_pages pool)"
    and "in_use ps' = insert (page_id p, i) (in_use (pool_pages pool))"
    and "p \<in> set (pool_pages pool)" "i < 1024"
proof -
  have ok: "\<forall>p \<in> set (pool_pages pool). page_ok p" and cnt: "unat (free_semaphores_count pool) = free_count (pool_pages pool)"
    and d: "distinct (map page_id (pool_pages pool))"
    using inv by (auto simp: pool_inv_def Let_def)
  from claim_slot_Some[OF c ok] obtain xs ys where s: "pool_pages pool = xs @ p # ys"
    "ps' = xs @ p\<lparr>free_semaphores := (free_semaphores p)[i := False]\<rparr> # ys" "i < 1024" "free_semaphores p ! i"
    by blast
  have len: "length (free_semaphores p) = 1024" using ok s(1) by (simp add: page_ok_def)
  note w = bitmap_weight_clear[of i "free_semaphores p", unfolded len, OF s(3,4)]
  have "free_count ps' + 1 = unat (free_semaphores_count pool)"
    using w by (simp add: cnt s(1,2))
  then have "unat (free_semaphores_count pool - 1) = free_count ps'"
    by (subst unat_minus_1) (auto simp: word_less_nat_alt)
  then show "pool_inv (pool\<lparr>pool_pages := ps', free_semaphores_count := free_semaphores_count pool - 1\<rparr>)"
    unfolding s(2) by (intro pool_inv_replace[OF inv s(1)]) (simp_all add: len)
  show "(page_id p, i) \<notin> in_use (pool_pages pool)"
    "in_use ps' = insert (page_id p, i) (in_use (pool_pages pool))"
    using claim_in_use[OF d[unfolded s(1)] s(3,4) len] by (simp_all add: s(1,2))
  show "p \<in> set (pool_pages pool)" "i < 1024" using s by auto
qed

text \<open>Where the payload of a slot lives.\<close>

definition slot_at :: "uvm_gpu_semaphore_pool_page list \<Rightarrow> nat \<times> nat \<Rightarrow> u64 \<Rightarrow> bool" where
  "slot_at ps s a \<longleftrightarrow> (\<exists>p \<in> set ps. page_id p = fst s \<and> snd s < 1024 \<and> a = slot_va (page_memory p) (snd s))"

lemma slot_at_inj:
  assumes "pool_inv pool" "slot_at (pool_pages pool) s a" "slot_at (pool_pages pool) s' a"
  shows "s = s'"
proof -
  from assms(2,3) obtain p q where pq: "p \<in> set (pool_pages pool)" "page_id p = fst s" "snd s < 1024"
    "a = slot_va (page_memory p) (snd s)" "q \<in> set (pool_pages pool)" "page_id q = fst s'" "snd s' < 1024"
    "a = slot_va (page_memory q) (snd s')" by (auto simp: slot_at_def)
  have "page_ok p" "page_ok q" "p = q \<or> apart (page_memory p) (page_memory q)"
    using assms(1) pq(1,5) by (auto simp: pool_inv_def Let_def)
  from slot_va_inj[OF this pq(3,7)] pq show ?thesis by (auto simp: prod_eq_iff)
qed

lemma slot_at_unique: "pool_inv pool \<Longrightarrow> slot_at (pool_pages pool) s a \<Longrightarrow> slot_at (pool_pages pool) s b \<Longrightarrow> a = b"
  by (auto simp: slot_at_def pool_inv_def Let_def distinct_map inj_on_def)

lemma alloc_cases:
  assumes inv: "pool_inv pool" and env: "new_page_ok kvmalloc rm pool"
    and r: "uvm_gpu_semaphore_alloc debug kvmalloc rm pool mem = (st, sem, pool', mem')"
  shows "st = NV_OK \<and> pool_inv pool' \<and>
      (\<exists>p i. sem_page sem = Some p \<and> slot_at (pool_pages pool') (p, i) (sem_payload sem) \<and>
         (p, i) \<notin> in_use (pool_pages pool) \<and>
         in_use (pool_pages pool') = insert (p, i) (in_use (pool_pages pool)) \<and>
         uvm_gpu_semaphore_get_payload mem' sem = 0) \<or>
    st \<noteq> NV_OK \<and> pool' = pool \<and> sem = null_semaphore \<and> free_count (pool_pages pool) = 0 \<and>
      (st = NV_ERR_NO_MEMORY \<and> kvmalloc = None \<or> kvmalloc \<noteq> None \<and> st = fst rm)"
proof -
  obtain s1 pool1 mem1 where s1: "(if free_semaphores_count pool = 0 then pool_alloc_page debug kvmalloc rm pool mem
      else (NV_OK, pool, mem)) = (s1, pool1, mem1)" by (metis prod_cases3)
  have cnt: "unat (free_semaphores_count pool) = free_count (pool_pages pool)"
    using inv by (auto simp: pool_inv_def Let_def)
  then have pos: "free_semaphores_count pool \<noteq> 0 \<Longrightarrow> 0 < free_count (pool_pages pool)"
    by (metis unsigned_eq_0_iff neq0_conv)
  show ?thesis
  proof (cases "s1 = NV_OK")
    case False
    then have z: "free_semaphores_count pool = 0" and pa: "pool_alloc_page debug kvmalloc rm pool mem = (s1, pool1, mem1)"
      using s1 by (auto split: if_splits)
    have "pool1 = pool \<and> (s1 = NV_ERR_NO_MEMORY \<and> kvmalloc = None \<or> kvmalloc \<noteq> None \<and> s1 = fst rm)"
      using pa False by (auto simp: pool_alloc_page_def Let_def split: option.splits prod.splits if_splits)
    moreover have "st = s1" "sem = null_semaphore" "pool' = pool1"
      using r False by (simp_all add: uvm_gpu_semaphore_alloc_def s1)
    ultimately show ?thesis using False z cnt by simp
  next
    case True
    have p1: "pool_inv pool1" "in_use (pool_pages pool1) = in_use (pool_pages pool)"
      "0 < free_count (pool_pages pool1)"
      using s1 True inv cnt pos pool_alloc_page_ok[OF inv env, of debug mem pool1 mem1]
      by (auto split: if_splits)
    have "claim_slot (pool_pages pool1) \<noteq> None"
    proof
      assume "claim_slot (pool_pages pool1) = None"
      from claim_slot_None[OF this] p1(1,3) show False by (auto simp: pool_inv_def Let_def)
    qed
    then obtain ps' p i where c: "claim_slot (pool_pages pool1) = Some (ps', p, i)"
      by (metis not_None_eq prod_cases3)
    note cc = claim_correct[OF p1(1) c]
    have res: "st = NV_OK" "sem = \<lparr>sem_page = Some (page_id p), sem_payload = slot_va (page_memory p) i\<rparr>"
      "pool' = pool1\<lparr>pool_pages := ps', free_semaphores_count := free_semaphores_count pool1 - 1\<rparr>"
      "mem' = uvm_gpu_semaphore_set_payload sem 0 mem1"
      using r True by (auto simp: uvm_gpu_semaphore_alloc_def s1 c Let_def)
    obtain q where q: "q \<in> set ps'" "page_id q = page_id p" "page_memory q = page_memory p"
      using claim_slot_Some[OF c] p1(1) by (fastforce simp: pool_inv_def Let_def)
    have "slot_at (pool_pages pool') (page_id p, i) (sem_payload sem)"
      using q cc(5) by (auto simp: slot_at_def res intro!: bexI[of _ q])
    moreover have "uvm_gpu_semaphore_get_payload mem' sem = 0"
      by (simp add: res(4) uvm_gpu_semaphore_get_payload_def uvm_gpu_semaphore_set_payload_def)
    ultimately show ?thesis using cc res p1(2) by auto
  qed
qed

section \<open>Freeing\<close>

lemma find_by_key: "distinct (map f xs) \<Longrightarrow> x \<in> set xs \<Longrightarrow> find (\<lambda>y. f y = f x) xs = Some x"
  by (induction xs) (auto simp: image_iff)

lemma find_page_split:
  "distinct (map page_id (pool_pages pool)) \<Longrightarrow> pool_pages pool = xs @ p # ys \<Longrightarrow> find_page pool (page_id p) = Some p"
  unfolding find_page_def by (rule find_by_key) auto

lemma set_page_bit_split:
  assumes "distinct (map page_id (xs @ p # ys))"
  shows "set_page_bit (page_id p) i (xs @ p # ys) = xs @ p\<lparr>free_semaphores := (free_semaphores p)[i := True]\<rparr> # ys"
proof -
  have "set_page_bit (page_id p) i zs = zs" if "page_id p \<notin> page_id ` set zs" for zs
    using that unfolding set_page_bit_def by (intro map_idI) (auto simp: image_iff)
  then have "set_page_bit (page_id p) i xs = xs" "set_page_bit (page_id p) i ys = ys"
    using page_ids_apart[OF assms] by blast+
  then show ?thesis unfolding set_page_bit_def by simp
qed

lemma free_cases:
  assumes inv: "pool_inv pool" and u: "(p, i) \<in> in_use (pool_pages pool)"
    and sem: "sem_page sem = Some p" "slot_at (pool_pages pool) (p, i) (sem_payload sem)"
  shows "\<exists>pool' mem'. uvm_gpu_semaphore_free debug sem pool mem = Some (null_semaphore, pool', mem') \<and>
    pool_inv pool' \<and> in_use (pool_pages pool') = in_use (pool_pages pool) - {(p, i)} \<and>
    free_count (pool_pages pool') = Suc (free_count (pool_pages pool))"
proof -
  have d: "distinct (map page_id (pool_pages pool))" and ok: "\<forall>p \<in> set (pool_pages pool). page_ok p"
    and cnt: "unat (free_semaphores_count pool) = free_count (pool_pages pool)"
    and len: "length (pool_pages pool) < 2 ^ 22"
    using inv by (auto simp: pool_inv_def Let_def)
  from sem(2) obtain pg where pg: "pg \<in> set (pool_pages pool)" "page_id pg = p" "i < 1024"
    "sem_payload sem = slot_va (page_memory pg) i" by (auto simp: slot_at_def)
  obtain xs ys where l: "pool_pages pool = xs @ pg # ys" using split_list[OF pg(1)] by blast
  have used: "\<not> free_semaphores pg ! i" and lpg: "length (free_semaphores pg) = 1024"
    using u page_ids_apart[OF d[unfolded l]] in_use_page_id[of p i] pg(1,2) ok
    by (auto simp: l in_use_page_def page_ok_def)
  let ?pg = "pg\<lparr>free_semaphores := (free_semaphores pg)[i := True]\<rparr>"
  have "sem = \<lparr>sem_page = Some p, sem_payload = slot_va (page_memory pg) i\<rparr>"
    using sem(1) pg(4) by simp
  then have gi: "unat (get_index pg sem) = i"
    using get_index_slot[of pg i "Some p"] ok pg(1,3) by simp
  have fp: "find_page pool p = Some pg" using find_page_split[OF d l] pg(2) by simp
  have fc: "free_count (xs @ ?pg # ys) = Suc (free_count (pool_pages pool))"
    using bitmap_weight_set[of i "free_semaphores pg"] pg(3) lpg used by (simp add: l)
  have "free_count (xs @ ?pg # ys) \<le> 1024 * length (xs @ ?pg # ys)"
    by (rule free_count_bound) (use ok l in \<open>auto simp: page_ok_def\<close>)
  then have "Suc (unat (free_semaphores_count pool)) < 2 ^ 32"
    using len fc cnt by (simp add: l)
  then have "unat (free_semaphores_count pool + 1) = Suc (unat (free_semaphores_count pool))"
    by (simp add: unat_word_ariths mod_less)
  then have inv': "pool_inv (pool\<lparr>pool_pages := xs @ ?pg # ys, free_semaphores_count := free_semaphores_count pool + 1\<rparr>)"
    using fc cnt lpg by (intro pool_inv_replace[OF inv l]) simp_all
  have "in_use (xs @ ?pg # ys) = in_use (pool_pages pool) - {(p, i)}"
    using page_ids_apart[OF d[unfolded l]] in_use_page_id[of p i] pg(2,3)
    by (auto simp: l in_use_page_set lpg)
  with inv' fc show ?thesis
    using sem(1) gi set_page_bit_split[OF d[unfolded l], of i] pg(2)
    by (simp add: uvm_gpu_semaphore_free_def fp null_semaphore_def l)
qed

section \<open>Canaries\<close>

lemma canary_mask: "UVM_SEMAPHORE_CANARY_MASK = NOT (mask 28)"
  by (simp add: UVM_SEMAPHORE_CANARY_MASK_def mask_eq_exp_minus_1)

lemma make_canary_is_canary: "is_canary (make_canary v)"
proof -
  have "UVM_SEMAPHORE_CANARY_BASE AND NOT UVM_SEMAPHORE_CANARY_MASK = UVM_SEMAPHORE_CANARY_BASE"
    by (simp add: UVM_SEMAPHORE_CANARY_BASE_def UVM_SEMAPHORE_CANARY_MASK_def)
  then show ?thesis
    by (simp add: is_canary_def make_canary_def Let_def bit.conj_disj_distrib2 and.assoc)
qed

text \<open>The canary is the base in the quadrant below, so its distance is known exactly.\<close>

lemma make_canary_distance:
  "unat (v - make_canary v) = 2 ^ 30 + unat (v - push_bit 30 1) mod 2 ^ 28 - 0x0badc0de"
proof -
  define x where "x = v - push_bit 30 1"
  define hi where "hi = x AND UVM_SEMAPHORE_CANARY_MASK"
  define lo where "lo = x AND mask 28"
  have x: "x = hi + lo"
  proof -
    have "hi AND lo = 0" "hi OR lo = x"
      unfolding hi_def lo_def canary_mask by (auto simp: bit_eq_iff bit_simps)
    then show ?thesis by (simp add: disjunctive_add_eq_or)
  qed
  have "hi AND UVM_SEMAPHORE_CANARY_BASE = 0"
    by (simp add: hi_def and.assoc UVM_SEMAPHORE_CANARY_BASE_def UVM_SEMAPHORE_CANARY_MASK_def)
  then have c: "make_canary v = hi + UVM_SEMAPHORE_CANARY_BASE"
    by (simp add: make_canary_def Let_def hi_def x_def disjunctive_add_eq_or)
  have lo: "unat lo = unat x mod 2 ^ 28"
    by (simp only: lo_def unsigned_take_bit_eq flip: take_bit_eq_mask) (simp add: take_bit_eq_mod)
  have "v = x + push_bit 30 1" by (simp add: x_def)
  then have "v - make_canary v = word_of_nat (2 ^ 30 - 0x0badc0de) + lo"
    unfolding c x by (simp add: UVM_SEMAPHORE_CANARY_BASE_def push_bit_eq_mult)
  moreover have "unat lo < 2 ^ 28" using lo by simp
  ultimately have "unat (v - make_canary v) = (2 ^ 30 - 0x0badc0de) + unat lo"
    by (simp add: unat_word_ariths mod_less)
  then show ?thesis by (simp add: lo x_def)
qed

section \<open>Tracking values\<close>

text \<open>
  The update computed on natural numbers: the top half of the old value with the new
  payload, one wrap further if the payload went down.
\<close>

lemma update_completed_value:
  assumes "uvm_gpu_semaphore_get_payload mem (ts_semaphore ts) = ucast v"
    and "completed_value ts \<le> v" "unat v - unat (completed_value ts) < 2 ^ 32"
  shows "update_completed_value_locked mem ts = (v, ts\<lparr>completed_value := v\<rparr>)"
proof -
  define old where "old = completed_value ts"
  have low: "unat (ucast w :: u32) = unat w mod 2 ^ 32" for w :: u64
    by (simp add: unsigned_ucast_eq take_bit_eq_mod)
  have le: "unat old \<le> unat v" "unat v - unat old < 2 ^ 32"
    using assms(2,3) by (simp_all add: old_def word_le_nat_alt)
  define q r where "q = unat old div 2 ^ 32" and "r = unat old mod 2 ^ 32"
  have O: "unat old = q * 2 ^ 32 + r" "r < 2 ^ 32" by (simp_all add: q_def r_def)
  define n where "n = unat v mod 2 ^ 32"
  have V: "unat v = (if n < r then (q + 1) * 2 ^ 32 + n else q * 2 ^ 32 + n)"
  proof -
    have v: "unat v = (unat v div 2 ^ 32) * 2 ^ 32 + n" "n < 2 ^ 32" by (simp_all add: n_def)
    define t where "t = unat v div 2 ^ 32"
    have vt: "unat v = t * 4294967296 + n" "n < 4294967296" using v by (simp_all add: t_def)
    have O': "unat old = q * 4294967296 + r" "r < 4294967296" using O by simp_all
    have le': "unat old \<le> unat v" "unat v < unat old + 4294967296" using le by simp_all
    have "q \<le> t" "t \<le> q + 1" using O' le' vt by linarith+
    then have "t = q \<or> t = q + 1" by arith
    then have "unat v = (if n < r then (q + 1) * 4294967296 + n else q * 4294967296 + n)"
      using O' le' vt by (elim disjE) (simp_all split: if_splits)
    then show ?thesis by simp
  qed
  have base: "unat (old AND 0xFFFFFFFF00000000) = q * 2 ^ 32"
  proof -
    have "(0xFFFFFFFF00000000 :: u64) = NOT (mask 32)" by (simp add: mask_eq_exp_minus_1)
    then show ?thesis by (simp only: unat_and_not_mask q_def)
  qed
  define lo where "lo = (ucast v :: u32)"
  have lo: "unat lo = n" by (simp add: lo_def n_def low)
  have "n < 2 ^ 32" by (simp add: n_def)
  then have "n < 2 ^ 64" by (rule less_le_trans) simp
  then have un: "unat (ucast lo :: u64) = n" using lo by (simp add: unsigned_ucast_eq take_bit_nat_eq_self)
  have "(old AND 0xFFFFFFFF00000000) AND ucast lo = 0"
  proof -
    have m: "(0xFFFFFFFF00000000 :: u64) = NOT (mask 32)" by (simp add: mask_eq_exp_minus_1)
    show ?thesis unfolding m by (rule bit_word_eqI) (auto simp: bit_simps dest: bit_imp_le_length)
  qed
  then have join: "(old AND 0xFFFFFFFF00000000) OR ucast lo = (old AND 0xFFFFFFFF00000000) + ucast lo"
    by (simp add: disjunctive_add_eq_or)
  have oldr: "unat (ucast old :: u32) = r" by (simp add: low r_def)
  have eqv: "a = v" if "unat a = unat v" for a using that by (rule unsigned_word_eqI)
  have vlt: "unat v < 2 ^ 64" by (rule unat_lt_2_64)
  let ?new = "(old AND 0xFFFFFFFF00000000) OR ucast lo"
  consider "n = r" | "n < r" | "r < n" by linarith
  then show ?thesis
  proof cases
    case 1
    then have "old = v" using O V by (intro eqv) simp
    then have "ts\<lparr>completed_value := v\<rparr> = ts" by (simp add: old_def)
    with \<open>old = v\<close> show ?thesis by (simp add: update_completed_value_locked_def assms(1) Let_def old_def)
  next
    case 2
    then have "unat ?new = q * 2 ^ 32 + n" "unat (?new + push_bit 32 1) = (q + 1) * 2 ^ 32 + n"
      using V vlt by (simp_all add: join unat_word_ariths base un push_bit_eq_mult mod_less)
    then have "?new + push_bit 32 1 = v" using 2 V by (intro eqv) simp
    moreover have "lo < ucast old" using 2 by (simp add: word_less_nat_alt lo oldr)
    moreover have "ucast old \<noteq> lo" using 2 lo oldr by force
    ultimately show ?thesis
      by (simp add: update_completed_value_locked_def assms(1) Let_def old_def flip: lo_def)
  next
    case 3
    then have "unat ?new = q * 2 ^ 32 + n"
      using V vlt by (simp add: join unat_word_ariths base un mod_less)
    then have "?new = v" using 3 V by (intro eqv) simp
    moreover have "\<not> lo < ucast old" using 3 by (simp add: word_less_nat_alt lo oldr)
    moreover have "ucast old \<noteq> lo" using 3 lo oldr by force
    ultimately show ?thesis
      by (simp add: update_completed_value_locked_def assms(1) Let_def old_def flip: lo_def)
  qed
qed

section \<open>Memory outside the pages an operation touches\<close>

lemma fill_payloads_other: "\<forall>i < n. a \<noteq> slot_va m i \<Longrightarrow> fill_payloads m v n mem a = mem a"
  by (induction n) auto

lemma alloc_page_keeps_slots:
  assumes inv: "pool_inv pool" and env: "new_page_ok kvmalloc rm pool"
    and r: "pool_alloc_page debug kvmalloc rm pool mem = (NV_OK, pool', mem')"
    and s: "slot_at (pool_pages pool) s a"
  shows "mem' a = mem a" "slot_at (pool_pages pool') s a"
proof -
  from r obtain p m where pm: "kvmalloc = Some p" "rm = (NV_OK, m)"
    "mem' = (if debug then fill_payloads m (make_canary 0) 1024 mem else mem)"
    "pool_pages pool' = \<lparr>page_id = p, page_memory = m, free_semaphores = replicate 1024 True\<rparr> # pool_pages pool"
    by (auto simp: pool_alloc_page_def Let_def split: option.splits prod.splits if_splits)
  from s obtain q where q: "q \<in> set (pool_pages pool)" "snd s < 1024" "a = slot_va (page_memory q) (snd s)"
    by (auto simp: slot_at_def)
  have "page_ok q" using inv q(1) by (simp add: pool_inv_def Let_def)
  have new: "page_ok \<lparr>page_id = p, page_memory = m, free_semaphores = replicate 1024 True\<rparr>"
    using env by (simp add: page_ok_def new_page_ok_def pm)
  have ap: "apart m (page_memory q)" using env q(1) by (simp add: new_page_ok_def pm)
  have "a \<noteq> slot_va m i" if "i < 1024" for i
    using unat_slot_va[OF \<open>page_ok q\<close> q(2)] unat_slot_va[OF new that] ap q that
    by (auto simp: apart_def)
  then show "mem' a = mem a" by (simp add: pm(3) fill_payloads_other)
  show "slot_at (pool_pages pool') s a" using s by (auto simp: slot_at_def pm(4))
qed

lemma alloc_keeps_payloads:
  assumes inv: "pool_inv pool" and env: "new_page_ok kvmalloc rm pool"
    and r: "uvm_gpu_semaphore_alloc debug kvmalloc rm pool mem = (st, sem, pool', mem')"
    and s: "s \<in> in_use (pool_pages pool)" "slot_at (pool_pages pool) s a"
  shows "mem' a = mem a \<and> slot_at (pool_pages pool') s a"
proof -
  obtain s1 pool1 mem1 where s1: "(if free_semaphores_count pool = 0 then pool_alloc_page debug kvmalloc rm pool mem
      else (NV_OK, pool, mem)) = (s1, pool1, mem1)" by (metis prod_cases3)
  show ?thesis
  proof (cases "s1 = NV_OK")
    case False
    then have "pool_alloc_page debug kvmalloc rm pool mem = (s1, pool1, mem1)"
      using s1 by (auto split: if_splits)
    then have "pool1 = pool" "mem1 = mem" using False
      by (auto simp: pool_alloc_page_def Let_def split: option.splits prod.splits if_splits)
    then show ?thesis using r False s by (simp add: uvm_gpu_semaphore_alloc_def s1)
  next
    case True
    have p1: "pool_inv pool1" "in_use (pool_pages pool1) = in_use (pool_pages pool)"
      and k: "mem1 a = mem a" "slot_at (pool_pages pool1) s a"
      using s1 True inv pool_alloc_page_ok[OF inv env, of debug mem pool1 mem1]
        alloc_page_keeps_slots[OF inv env _ s(2), of debug mem pool1 mem1] s(2)
      by (auto split: if_splits)
    show ?thesis
    proof (cases "claim_slot (pool_pages pool1)")
      case None
      then show ?thesis using r True k by (simp add: uvm_gpu_semaphore_alloc_def s1)
    next
      case (Some c)
      then obtain ps' p i where c: "claim_slot (pool_pages pool1) = Some (ps', p, i)" by (metis prod_cases3)
      note cc = claim_correct[OF p1(1) c]
      have res: "sem_payload sem = slot_va (page_memory p) i" "pool_pages pool' = ps'"
        "mem' = mem1(slot_va (page_memory p) i := 0)"
        using r True by (auto simp: uvm_gpu_semaphore_alloc_def s1 c Let_def uvm_gpu_semaphore_set_payload_def)
      have new: "slot_at (pool_pages pool1) (page_id p, i) (slot_va (page_memory p) i)"
        using cc(4,5) by (auto simp: slot_at_def)
      have "s \<noteq> (page_id p, i)" using cc(2) s(1) p1(2) by auto
      then have "a \<noteq> slot_va (page_memory p) i" using slot_at_inj[OF p1(1) k(2)] new by blast
      moreover have "slot_at ps' s a"
        using k(2) claim_slot_Some[OF c] p1(1) by (fastforce simp: slot_at_def pool_inv_def Let_def)
      ultimately show ?thesis using res k by simp
    qed
  qed
qed

section \<open>Properties\<close>

text \<open>
  C37. With a well-formed pool, \<^verbatim>\<open>uvm_gpu_semaphore_alloc\<close> either fails with the status of the
  page allocation, changing nothing, and only when no semaphore was free; or it returns a
  slot nobody uses, with payload 0, and keeps the pool well formed. Either way the payload
  and the address of every semaphore in use stay as they were. The code's fall-through to
  \<^verbatim>\<open>NV_ERR_GENERIC\<close> is not reached by a miscounted pool.
\<close>

theorem semaphore_alloc_correct:
  assumes "pool_inv pool" "new_page_ok kvmalloc rm pool"
    and "uvm_gpu_semaphore_alloc debug kvmalloc rm pool mem = (st, sem, pool', mem')"
  shows "(st = NV_OK \<and> pool_inv pool' \<and>
      (\<exists>p i. sem_page sem = Some p \<and> slot_at (pool_pages pool') (p, i) (sem_payload sem) \<and>
         (p, i) \<notin> in_use (pool_pages pool) \<and>
         in_use (pool_pages pool') = insert (p, i) (in_use (pool_pages pool)) \<and>
         uvm_gpu_semaphore_get_payload mem' sem = 0) \<or>
    st \<noteq> NV_OK \<and> pool' = pool \<and> sem = null_semaphore \<and> free_count (pool_pages pool) = 0 \<and>
      (st = NV_ERR_NO_MEMORY \<and> kvmalloc = None \<or> kvmalloc \<noteq> None \<and> st = fst rm)) \<and>
    (\<forall>s a. s \<in> in_use (pool_pages pool) \<longrightarrow> slot_at (pool_pages pool) s a \<longrightarrow>
       mem' a = mem a \<and> slot_at (pool_pages pool') s a)"
  using alloc_cases[OF assms] alloc_keeps_payloads[OF assms] by blast

definition sample_rm_mem :: rm_mem where
  "sample_rm_mem = \<lparr>rm_cpu_va = 0x7f0000, rm_gpu_va = (\<lambda>g. 0x10000)\<rparr>"

definition empty_pool :: uvm_gpu_semaphore_pool where
  "empty_pool = \<lparr>pool_gpu = 0, pool_pages = [], free_semaphores_count = 0\<rparr>"

lemma empty_pool_ok: "pool_inv empty_pool" "new_page_ok (Some 7) (NV_OK, sample_rm_mem) empty_pool"
  by (simp_all add: pool_inv_def empty_pool_def new_page_ok_def sample_rm_mem_def)

theorem semaphore_alloc_correct_witness:
  "\<exists>sem pool' mem'. uvm_gpu_semaphore_alloc True (Some 7) (NV_OK, sample_rm_mem) empty_pool (\<lambda>_. 5) = (NV_OK, sem, pool', mem') \<and>
     (\<exists>i. sem_page sem = Some 7 \<and> in_use (pool_pages pool') = {(7, i)} \<and> mem' (sem_payload sem) = 0)"
proof -
  obtain st sem pool' mem' where r:
    "uvm_gpu_semaphore_alloc True (Some 7) (NV_OK, sample_rm_mem) empty_pool (\<lambda>_. 5) = (st, sem, pool', mem')"
    by (metis prod_cases4)
  have "sem_page sem = Some 7 \<or> st \<noteq> NV_OK" using r
    by (auto simp: uvm_gpu_semaphore_alloc_def empty_pool_def pool_alloc_page_def Let_def null_semaphore_def
        split: option.splits if_splits)
  moreover have "pool_pages empty_pool = []" by (simp add: empty_pool_def)
  ultimately have "st = NV_OK \<and> (\<exists>i. sem_page sem = Some 7 \<and> in_use (pool_pages pool') = {(7, i)} \<and> mem' (sem_payload sem) = 0)"
    using semaphore_alloc_correct[OF empty_pool_ok r]
    by (auto simp: uvm_gpu_semaphore_get_payload_def)
  with r show ?thesis by blast
qed

text \<open>
  Freeing the semaphore an allocation returned gives its slot back and no other: the
  semaphores in use are those before the allocation, the pool is well formed, the
  semaphore's page pointer and address are cleared, and in a debug build the freed payload
  is a canary, so that a later write or acquire of it can be told apart.
\<close>

theorem semaphore_alloc_free_roundtrip:
  assumes "pool_inv pool" "new_page_ok kvmalloc rm pool"
    and "uvm_gpu_semaphore_alloc debug kvmalloc rm pool mem = (NV_OK, sem, pool1, mem1)"
  shows "\<exists>pool2 mem2. uvm_gpu_semaphore_free debug sem pool1 mem1 = Some (null_semaphore, pool2, mem2) \<and>
    pool_inv pool2 \<and> in_use (pool_pages pool2) = in_use (pool_pages pool) \<and>
    free_semaphores_count pool2 = free_semaphores_count pool1 + 1 \<and>
    (debug \<longrightarrow> is_canary (mem2 (sem_payload sem)))"
proof -
  from alloc_cases[OF assms] obtain p i where a: "pool_inv pool1" "sem_page sem = Some p"
    "slot_at (pool_pages pool1) (p, i) (sem_payload sem)" "(p, i) \<notin> in_use (pool_pages pool)"
    "in_use (pool_pages pool1) = insert (p, i) (in_use (pool_pages pool))" by auto
  from free_cases[OF a(1) _ a(2,3), of debug mem1] a(5) obtain pool2 mem2 where f:
    "uvm_gpu_semaphore_free debug sem pool1 mem1 = Some (null_semaphore, pool2, mem2)" "pool_inv pool2"
    "in_use (pool_pages pool2) = in_use (pool_pages pool1) - {(p, i)}" by auto
  have "free_semaphores_count pool2 = free_semaphores_count pool1 + 1"
    "debug \<longrightarrow> is_canary (mem2 (sem_payload sem))"
    using f(1) a(2) make_canary_is_canary
    by (auto simp: uvm_gpu_semaphore_free_def Let_def uvm_gpu_semaphore_set_payload_def split: option.splits if_splits)
  with f a(4,5) show ?thesis by auto
qed

theorem semaphore_alloc_free_roundtrip_witness:
  "\<exists>sem pool1 mem1 pool2 mem2.
     uvm_gpu_semaphore_alloc True (Some 7) (NV_OK, sample_rm_mem) empty_pool (\<lambda>_. 5) = (NV_OK, sem, pool1, mem1) \<and>
     uvm_gpu_semaphore_free True sem pool1 mem1 = Some (null_semaphore, pool2, mem2) \<and>
     in_use (pool_pages pool2) = {} \<and> is_canary (mem2 (sem_payload sem))"
proof -
  obtain st sem pool1 mem1 where r:
    "uvm_gpu_semaphore_alloc True (Some 7) (NV_OK, sample_rm_mem) empty_pool (\<lambda>_. 5) = (st, sem, pool1, mem1)"
    by (metis prod_cases4)
  from alloc_cases[OF empty_pool_ok r] have "st = NV_OK" by auto
  with r have r: "uvm_gpu_semaphore_alloc True (Some 7) (NV_OK, sample_rm_mem) empty_pool (\<lambda>_. 5) = (NV_OK, sem, pool1, mem1)"
    by simp
  from semaphore_alloc_free_roundtrip[OF empty_pool_ok r] show ?thesis
    using r by (auto simp: empty_pool_def[THEN arg_cong, of pool_pages])
qed

text \<open>
  The canary left in a freed semaphore is recognisable, differs from the payload, and
  lies behind it by more than \<open>2 ^ 29\<close> and less than \<open>2 ^ 31\<close>, so that neither a read of the
  canary nor a stray release over it looks like a plausible step of the tracked value.
\<close>

theorem make_canary_correct:
  "is_canary (make_canary v) \<and> make_canary v \<noteq> v \<and>
   2 ^ 29 < unat (v - make_canary v) \<and> unat (v - make_canary v) < 2 ^ 31"
proof -
  have "2 ^ 29 < unat (v - make_canary v)" "unat (v - make_canary v) < 2 ^ 31"
    unfolding make_canary_distance by simp_all
  moreover from this have "make_canary v \<noteq> v" by auto
  ultimately show ?thesis using make_canary_is_canary by blast
qed

text \<open>
  C12. The 64-bit extension of a tracking semaphore. If the GPU has completed the value \<open>v\<close>
  and written its low 32 bits, and \<open>v\<close> is ahead of the last value seen by less than
  \<open>2 ^ 32\<close>, then the update finds exactly \<open>v\<close>, through any wrap of the payload, and a value
  counts as completed exactly when it is at most \<open>v\<close>; the cached value never moves back.
\<close>

theorem tracking_update_correct:
  assumes "uvm_gpu_semaphore_get_payload mem (ts_semaphore ts) = ucast v"
    and "completed_value ts \<le> v" "unat v - unat (completed_value ts) < 2 ^ 32"
  shows "uvm_gpu_tracking_semaphore_update_completed_value mem ts = (v, ts\<lparr>completed_value := v\<rparr>) \<and>
    (\<exists>ts'. uvm_gpu_tracking_semaphore_is_value_completed mem ts w = (w \<le> v, ts') \<and>
       (ts' = ts \<or> ts' = ts\<lparr>completed_value := v\<rparr>))"
proof -
  note u = update_completed_value[OF assms]
  have "w \<le> v" if "w \<le> completed_value ts" using that assms(2) by (rule order_trans)
  then show ?thesis
    using u by (auto simp: uvm_gpu_tracking_semaphore_update_completed_value_def
        uvm_gpu_tracking_semaphore_is_value_completed_def)
qed

theorem tracking_update_correct_witness:
  "fst (uvm_gpu_tracking_semaphore_update_completed_value (\<lambda>_. 3)
     \<lparr>ts_semaphore = null_semaphore, completed_value = 0x1fffffffe, queued_value = 0\<rparr>) = 0x200000003"
  using tracking_update_correct[of "\<lambda>_. 3"
      "\<lparr>ts_semaphore = null_semaphore, completed_value = 0x1fffffffe, queued_value = 0\<rparr>" "0x200000003" 0]
  by (simp add: uvm_gpu_semaphore_get_payload_def)

end
