(* ===== verification/Tracker.thy ===== *)
theory Tracker
  imports UVM_Prelude "HOL-Library.Multiset"
begin

text \<open>
  \<^verbatim>\<open>uvm8_tracker.c\<close>: a tracker collects (channel, value) entries that work depends on. The
  storage is an array of \<open>max_size\<close> entries, one of them static, of which the first \<open>size\<close>
  are in use. Operations on two trackers work on a store of trackers, since the code allows
  both to be the same.

  The environment is explicit: \<open>kv\<close> is the outcome of \<^verbatim>\<open>uvm_kvmalloc\<close> or \<^verbatim>\<open>uvm_kvrealloc\<close>
  for a number of entries (a new array, or NULL), and a \<open>snapshot\<close> holds what the channels and
  the global error state show at one moment. Waiting loops read a sequence of snapshots, one
  for each iteration, and have fuel; \<open>None\<close> is a loop still running when it ends, or the
  dereference of a NULL channel. Printing and the spin loop's yielding are left out.
\<close>

section \<open>State\<close>

type_synonym channel_id = nat
type_synonym tracker_id = nat

record uvm_tracker_entry =
  te_channel :: "channel_id option"
  te_value :: u64

record uvm_tracker =
  tk_entries :: "uvm_tracker_entry list"
  tk_size :: u32
  tk_max_size :: u32

record snapshot =
  completed_of :: "channel_id \<Rightarrow> u64"
  channel_status :: "channel_id \<Rightarrow> nv_status"
  global_status :: nv_status

type_synonym kv_alloc = "u32 \<Rightarrow> uvm_tracker_entry list option"

definition null_entry :: uvm_tracker_entry where
  "null_entry = \<lparr>te_channel = None, te_value = 0\<rparr>"

definition used :: "uvm_tracker \<Rightarrow> uvm_tracker_entry list" where
  "used t = take (unat (tk_size t)) (tk_entries t)"

definition tracker_is_using_static_entries :: "uvm_tracker \<Rightarrow> bool" where
  "tracker_is_using_static_entries t \<longleftrightarrow> tk_max_size t = 1"

definition uvm_tracker_init :: uvm_tracker where
  "uvm_tracker_init = \<lparr>tk_entries = [null_entry], tk_size = 0, tk_max_size = 1\<rparr>"

definition uvm_tracker_clear :: "uvm_tracker \<Rightarrow> uvm_tracker" where
  "uvm_tracker_clear t = t\<lparr>tk_size := 0\<rparr>"

definition uvm_tracker_deinit :: "uvm_tracker \<Rightarrow> uvm_tracker" where
  "uvm_tracker_deinit t = \<lparr>tk_entries = [], tk_size = 0, tk_max_size = 0\<rparr>"

definition uvm_tracker_is_empty :: "uvm_tracker \<Rightarrow> bool" where
  "uvm_tracker_is_empty t \<longleftrightarrow> tk_size t = 0"

section \<open>Reserving and adding\<close>

text \<open>The kernel's \<^verbatim>\<open>fls_long\<close> (on a natural number) and \<^verbatim>\<open>roundup_pow_of_two\<close>.\<close>

fun bit_len :: "nat \<Rightarrow> nat" where
  "bit_len n = (if n = 0 then 0 else Suc (bit_len (n div 2)))"

declare bit_len.simps [simp del]

definition roundup_pow_of_two :: "u64 \<Rightarrow> u64" where
  "roundup_pow_of_two n = push_bit (bit_len (unat (n - 1))) 1"

definition uvm_tracker_reserve :: "kv_alloc \<Rightarrow> uvm_tracker \<Rightarrow> u32 \<Rightarrow> nv_status \<times> uvm_tracker" where
  "uvm_tracker_reserve kv t min_free_entries =
     (if tk_max_size t < tk_size t + min_free_entries then
        let new_max_size = max 8 (ucast (roundup_pow_of_two (ucast (tk_size t + min_free_entries))));
            keep = (if tracker_is_using_static_entries t then unat (tk_size t) else length (tk_entries t))
        in (case kv new_max_size of
              None \<Rightarrow> (NV_ERR_NO_MEMORY, t)
            | Some new_entries \<Rightarrow>
                (NV_OK, t\<lparr>tk_entries := take keep (tk_entries t) @ drop keep new_entries,
                          tk_max_size := new_max_size\<rparr>))
      else (NV_OK, t))"

text \<open>The index of the new entry, or NULL.\<close>

definition get_new_entry :: "kv_alloc \<Rightarrow> uvm_tracker \<Rightarrow> nat option \<times> uvm_tracker" where
  "get_new_entry kv t =
     (let (status, t') = uvm_tracker_reserve kv t 1
      in if status \<noteq> NV_OK then (None, t')
         else (Some (unat (tk_size t')), t'\<lparr>tk_size := tk_size t' + 1\<rparr>))"

text \<open>The loop over the entries: the entries with the one of the same channel raised, if any.\<close>

fun raise_entry :: "uvm_tracker_entry \<Rightarrow> uvm_tracker_entry list \<Rightarrow> uvm_tracker_entry list option" where
  "raise_entry e [] = None"
| "raise_entry e (x # xs) =
     (if te_channel x = te_channel e then Some (x\<lparr>te_value := max (te_value x) (te_value e)\<rparr> # xs)
      else map_option (Cons x) (raise_entry e xs))"

definition uvm_tracker_add_entry ::
  "kv_alloc \<Rightarrow> uvm_tracker \<Rightarrow> uvm_tracker_entry \<Rightarrow> nv_status \<times> uvm_tracker" where
  "uvm_tracker_add_entry kv t new_entry =
     (case raise_entry new_entry (used t) of
        Some es \<Rightarrow> (NV_OK, t\<lparr>tk_entries := es @ drop (unat (tk_size t)) (tk_entries t)\<rparr>)
      | None \<Rightarrow>
          (case get_new_entry kv t of
             (None, t') \<Rightarrow> (NV_ERR_NO_MEMORY, t')
           | (Some i, t') \<Rightarrow> (NV_OK, t'\<lparr>tk_entries := (tk_entries t')[i := new_entry]\<rparr>)))"

definition uvm_tracker_overwrite_with_entry ::
  "kv_alloc \<Rightarrow> uvm_tracker \<Rightarrow> uvm_tracker_entry \<Rightarrow> uvm_tracker" where
  "uvm_tracker_overwrite_with_entry kv t e = snd (uvm_tracker_add_entry kv (uvm_tracker_clear t) e)"

section \<open>Completion\<close>

definition uvm_tracker_is_entry_completed :: "snapshot \<Rightarrow> uvm_tracker_entry \<Rightarrow> bool" where
  "uvm_tracker_is_entry_completed s e =
     (case te_channel e of None \<Rightarrow> True | Some c \<Rightarrow> te_value e \<le> completed_of s c)"

function remove_loop ::
  "(uvm_tracker_entry \<Rightarrow> bool) \<Rightarrow> nat \<Rightarrow> nat \<Rightarrow> uvm_tracker_entry list \<Rightarrow> nat \<times> uvm_tracker_entry list" where
  "remove_loop completed i n es =
     (if i < n then
        if completed (es ! i)
        then remove_loop completed i (n - 1) (if i \<noteq> n - 1 then es[i := es ! (n - 1)] else es)
        else remove_loop completed (Suc i) n es
      else (n, es))"
  by pat_completeness auto
termination by (relation "measure (\<lambda>(_, i, n, _). n - i)") auto

declare remove_loop.simps [simp del]

definition uvm_tracker_remove_completed :: "snapshot \<Rightarrow> uvm_tracker \<Rightarrow> uvm_tracker" where
  "uvm_tracker_remove_completed s t =
     (let (n, es) = remove_loop (uvm_tracker_is_entry_completed s) 0 (unat (tk_size t)) (tk_entries t)
      in t\<lparr>tk_size := word_of_nat n, tk_entries := es\<rparr>)"

definition uvm_tracker_is_completed :: "snapshot \<Rightarrow> uvm_tracker \<Rightarrow> bool \<times> uvm_tracker" where
  "uvm_tracker_is_completed s t =
     (let t' = uvm_tracker_remove_completed s t in (tk_size t' = 0, t'))"

fun check_entries :: "snapshot \<Rightarrow> uvm_tracker_entry list \<Rightarrow> nv_status option" where
  "check_entries s [] = Some NV_OK"
| "check_entries s (e # es) =
     (case te_channel e of
        None \<Rightarrow> None
      | Some c \<Rightarrow> if channel_status s c \<noteq> NV_OK then Some (channel_status s c) else check_entries s es)"

definition uvm_tracker_check_errors :: "snapshot \<Rightarrow> uvm_tracker \<Rightarrow> nv_status option" where
  "uvm_tracker_check_errors s t =
     (if global_status s \<noteq> NV_OK then Some (global_status s) else check_entries s (used t))"

definition uvm_tracker_query :: "snapshot \<Rightarrow> uvm_tracker \<Rightarrow> (nv_status \<times> uvm_tracker) option" where
  "uvm_tracker_query s t =
     (let (completed, t') = uvm_tracker_is_completed s t
      in case uvm_tracker_check_errors s t' of
           None \<Rightarrow> None
         | Some status \<Rightarrow>
             if status \<noteq> NV_OK then Some (status, t')
             else Some (if completed then NV_OK else NV_WARN_MORE_PROCESSING_REQUIRED, t'))"

section \<open>Waiting\<close>

text \<open>
  \<open>env k\<close> is the snapshot the \<open>k\<close>th iteration sees. A loop returns its status and the
  iteration it ended in.
\<close>

fun wait_for_entry_with_spin ::
  "(nat \<Rightarrow> snapshot) \<Rightarrow> nat \<Rightarrow> nat \<Rightarrow> nv_status \<Rightarrow> uvm_tracker_entry \<Rightarrow>
   (nv_status \<times> nat \<times> uvm_tracker_entry) option" where
  "wait_for_entry_with_spin env 0 k status e = None"
| "wait_for_entry_with_spin env (Suc fuel) k status e =
     (if \<not> uvm_tracker_is_entry_completed (env k) e \<and> status = NV_OK then
        (case te_channel e of
           None \<Rightarrow> None
         | Some c \<Rightarrow>
             let status = channel_status (env k) c;
                 status = (if status = NV_OK then global_status (env k) else status)
             in wait_for_entry_with_spin env fuel (Suc k) status e)
      else Some (status, k, if status \<noteq> NV_OK then null_entry else e))"

definition uvm_tracker_wait_for_entry ::
  "(nat \<Rightarrow> snapshot) \<Rightarrow> nat \<Rightarrow> uvm_tracker_entry \<Rightarrow> (nv_status \<times> nat \<times> uvm_tracker_entry) option" where
  "uvm_tracker_wait_for_entry env fuel e = wait_for_entry_with_spin env fuel 0 NV_OK e"

fun wait_loop ::
  "(nat \<Rightarrow> snapshot) \<Rightarrow> nat \<Rightarrow> nat \<Rightarrow> nv_status \<Rightarrow> uvm_tracker \<Rightarrow> (nv_status \<times> nat \<times> uvm_tracker) option" where
  "wait_loop env 0 k status t = None"
| "wait_loop env (Suc fuel) k status t =
     (let (completed, t') = uvm_tracker_is_completed (env k) t
      in if \<not> completed \<and> status = NV_OK then
           (case uvm_tracker_check_errors (env k) t' of
              None \<Rightarrow> None
            | Some status' \<Rightarrow> wait_loop env fuel (Suc k) status' t')
         else Some (status, k, t'))"

definition uvm_tracker_wait ::
  "(nat \<Rightarrow> snapshot) \<Rightarrow> nat \<Rightarrow> uvm_tracker \<Rightarrow> (nv_status \<times> nat \<times> uvm_tracker) option" where
  "uvm_tracker_wait env fuel t =
     map_option (\<lambda>(status, k, t'). (status, k, if status \<noteq> NV_OK then uvm_tracker_clear t' else t'))
       (wait_loop env fuel 0 NV_OK t)"

text \<open>The loop over the entries at indices \<open>i\<close> to \<open>n - 1\<close>; \<open>gpu_of\<close> is \<^verbatim>\<open>uvm_channel_get_gpu\<close>.\<close>

fun wait_others ::
  "(nat \<Rightarrow> snapshot) \<Rightarrow> nat \<Rightarrow> nat \<Rightarrow> (channel_id \<Rightarrow> nat) \<Rightarrow> nat \<Rightarrow> uvm_tracker_entry list \<Rightarrow>
   (nv_status \<times> nat \<times> uvm_tracker_entry list) option" where
  "wait_others env fuel k gpu_of gpu [] = Some (NV_OK, k, [])"
| "wait_others env fuel k gpu_of gpu (e # es) =
     (case te_channel e of
        None \<Rightarrow> None
      | Some c \<Rightarrow>
          if gpu_of c = gpu
          then map_option (\<lambda>(st, k', es'). (st, k', e # es')) (wait_others env fuel k gpu_of gpu es)
          else (case wait_for_entry_with_spin env fuel k NV_OK e of
                  None \<Rightarrow> None
                | Some (st, k', e') \<Rightarrow>
                    if st \<noteq> NV_OK then Some (st, k', e' # es)
                    else map_option (\<lambda>(st, k', es'). (st, k', e' # es')) (wait_others env fuel k' gpu_of gpu es)))"

definition uvm_tracker_wait_for_other_gpus ::
  "(nat \<Rightarrow> snapshot) \<Rightarrow> nat \<Rightarrow> (channel_id \<Rightarrow> nat) \<Rightarrow> uvm_tracker \<Rightarrow> nat \<Rightarrow> (nv_status \<times> uvm_tracker) option" where
  "uvm_tracker_wait_for_other_gpus env fuel gpu_of t gpu =
     map_option (\<lambda>(st, k, es).
         let t' = t\<lparr>tk_entries := es @ drop (unat (tk_size t)) (tk_entries t)\<rparr>
         in (st, if st = NV_OK then uvm_tracker_remove_completed (env k) t' else uvm_tracker_clear t'))
       (wait_others env fuel 0 gpu_of gpu (used t))"

section \<open>Operations on two trackers\<close>

type_synonym trackers = "tracker_id \<Rightarrow> uvm_tracker"

definition uvm_tracker_overwrite ::
  "kv_alloc \<Rightarrow> trackers \<Rightarrow> tracker_id \<Rightarrow> tracker_id \<Rightarrow> nv_status \<times> trackers" where
  "uvm_tracker_overwrite kv st dst src =
     (let st = st(dst := uvm_tracker_clear (st dst));
          (status, d) = uvm_tracker_reserve kv (st dst) (tk_size (st src));
          st = st(dst := d)
      in if status \<noteq> NV_OK then (status, st)
         else
           let st = st(dst := (st dst)\<lparr>tk_size := tk_size (st src)\<rparr>);
               n = unat (tk_size (st src))
           in (NV_OK, st(dst := (st dst)\<lparr>tk_entries :=
                 take n (tk_entries (st src)) @ drop n (tk_entries (st dst))\<rparr>)))"

definition uvm_tracker_init_from ::
  "kv_alloc \<Rightarrow> trackers \<Rightarrow> tracker_id \<Rightarrow> tracker_id \<Rightarrow> nv_status \<times> trackers" where
  "uvm_tracker_init_from kv st dst src =
     (let (status, st) = uvm_tracker_overwrite kv (st(dst := uvm_tracker_init)) dst src
      in (status, if status \<noteq> NV_OK then st(dst := uvm_tracker_init) else st))"

definition reserve_for_entries_from_tracker ::
  "kv_alloc \<Rightarrow> uvm_tracker \<Rightarrow> uvm_tracker \<Rightarrow> nv_status \<times> uvm_tracker" where
  "reserve_for_entries_from_tracker kv dst src =
     (let needed = length (filter (\<lambda>e. \<not> (\<exists>d \<in> set (used dst). te_channel d = te_channel e)) (used src))
      in uvm_tracker_reserve kv dst (word_of_nat needed))"

fun add_entries :: "kv_alloc \<Rightarrow> uvm_tracker \<Rightarrow> uvm_tracker_entry list \<Rightarrow> uvm_tracker" where
  "add_entries kv t [] = t"
| "add_entries kv t (e # es) = add_entries kv (snd (uvm_tracker_add_entry kv t e)) es"

text \<open>
  \<open>kv 0\<close>, \<open>kv 1\<close> and \<open>kv 2\<close> answer the allocations of the first reservation, of the second
  one, and of the additions. The status of the last addition is dropped, as in a release build.
\<close>

definition uvm_tracker_add_tracker ::
  "(nat \<Rightarrow> kv_alloc) \<Rightarrow> snapshot \<Rightarrow> trackers \<Rightarrow> tracker_id \<Rightarrow> tracker_id \<Rightarrow> nv_status \<times> trackers" where
  "uvm_tracker_add_tracker kv s st dst src =
     (if src = dst then (NV_OK, st)
      else
        let (status, d) = uvm_tracker_reserve (kv 0) (st dst) (tk_size (st src));
            st = st(dst := d);
            (status, st) =
              (if status = NV_ERR_NO_MEMORY then
                 let st = st(dst := uvm_tracker_remove_completed s (st dst));
                     st = st(src := uvm_tracker_remove_completed s (st src));
                     (status, d) = reserve_for_entries_from_tracker (kv 1) (st dst) (st src)
                 in (status, st(dst := d))
               else (status, st))
        in if status \<noteq> NV_OK then (status, st)
           else (NV_OK, st(dst := add_entries (kv 2) (st dst) (used (st src)))))"

definition wait_if_no_memory ::
  "(nat \<Rightarrow> snapshot) \<Rightarrow> nat \<Rightarrow> tracker_id \<Rightarrow> nv_status \<times> trackers \<Rightarrow> (nv_status \<times> trackers) option" where
  "wait_if_no_memory env fuel src r =
     (let (status, st) = r
      in if status = NV_ERR_NO_MEMORY
         then map_option (\<lambda>(status, k, t). (status, st(src := t))) (uvm_tracker_wait env fuel (st src))
         else Some (status, st))"

definition uvm_tracker_overwrite_safe ::
  "kv_alloc \<Rightarrow> (nat \<Rightarrow> snapshot) \<Rightarrow> nat \<Rightarrow> trackers \<Rightarrow> tracker_id \<Rightarrow> tracker_id \<Rightarrow> (nv_status \<times> trackers) option" where
  "uvm_tracker_overwrite_safe kv env fuel st dst src =
     wait_if_no_memory env fuel src (uvm_tracker_overwrite kv st dst src)"

definition uvm_tracker_add_tracker_safe ::
  "(nat \<Rightarrow> kv_alloc) \<Rightarrow> (nat \<Rightarrow> snapshot) \<Rightarrow> nat \<Rightarrow> trackers \<Rightarrow> tracker_id \<Rightarrow> tracker_id \<Rightarrow>
   (nv_status \<times> trackers) option" where
  "uvm_tracker_add_tracker_safe kv env fuel st dst src =
     wait_if_no_memory env fuel src (uvm_tracker_add_tracker kv (env 0) st dst src)"

definition uvm_tracker_add_entry_safe ::
  "kv_alloc \<Rightarrow> (nat \<Rightarrow> snapshot) \<Rightarrow> nat \<Rightarrow> uvm_tracker \<Rightarrow> uvm_tracker_entry \<Rightarrow>
   (nv_status \<times> uvm_tracker \<times> uvm_tracker_entry) option" where
  "uvm_tracker_add_entry_safe kv env fuel t e =
     (let (status, t') = uvm_tracker_add_entry kv t e
      in if status = NV_ERR_NO_MEMORY
         then map_option (\<lambda>(status, k, e'). (status, t', e')) (uvm_tracker_wait_for_entry env fuel e)
         else Some (status, t', e))"

definition uvm_tracker_wait_deinit ::
  "(nat \<Rightarrow> snapshot) \<Rightarrow> nat \<Rightarrow> uvm_tracker \<Rightarrow> (nv_status \<times> uvm_tracker) option" where
  "uvm_tracker_wait_deinit env fuel t =
     map_option (\<lambda>(status, k, t'). (status, uvm_tracker_deinit t')) (uvm_tracker_wait env fuel t)"

section \<open>Invariant\<close>

definition channels :: "uvm_tracker_entry list \<Rightarrow> channel_id option set" where
  "channels es = te_channel ` set es"

definition tracker_inv :: "uvm_tracker \<Rightarrow> bool" where
  "tracker_inv t \<longleftrightarrow> length (tk_entries t) = unat (tk_max_size t) \<and> tk_size t \<le> tk_max_size t \<and>
     (tk_max_size t = 1 \<or> 8 \<le> tk_max_size t) \<and> unat (tk_max_size t) \<le> 2 ^ 31 \<and>
     distinct (map te_channel (used t))"

text \<open>An allocation of \<open>n\<close> entries yields an array of \<open>n\<close> entries.\<close>

definition kv_ok :: "kv_alloc \<Rightarrow> bool" where
  "kv_ok kv \<longleftrightarrow> (\<forall>n es. kv n = Some es \<longrightarrow> length es = unat n)"

lemma length_used: "tracker_inv t \<Longrightarrow> length (used t) = unat (tk_size t)"
  by (simp add: tracker_inv_def used_def word_le_nat_alt)

lemma used_split: "tk_entries t = used t @ drop (unat (tk_size t)) (tk_entries t)"
  by (simp add: used_def)

lemma init_inv: "tracker_inv uvm_tracker_init" "used uvm_tracker_init = []"
  by (simp_all add: tracker_inv_def uvm_tracker_init_def used_def)

lemma clear_inv: "tracker_inv t \<Longrightarrow> tracker_inv (uvm_tracker_clear t)" "used (uvm_tracker_clear t) = []"
  by (simp_all add: tracker_inv_def uvm_tracker_clear_def used_def)

text \<open>Replacing the used entries by as many others over distinct channels.\<close>

lemma replace_used:
  assumes "tracker_inv t" "length es = unat (tk_size t)" "distinct (map te_channel es)"
  defines "t' \<equiv> t\<lparr>tk_entries := es @ drop (unat (tk_size t)) (tk_entries t)\<rparr>"
  shows "tracker_inv t'" "used t' = es"
proof -
  show "used t' = es" using assms(2) by (simp add: t'_def used_def)
  with assms show "tracker_inv t'"
    by (auto simp: tracker_inv_def t'_def word_le_nat_alt)
qed

section \<open>Reservation\<close>

lemma bit_len_bounds: "n < 2 ^ bit_len n" "n < 2 ^ k \<Longrightarrow> bit_len n \<le> k"
proof -
  show "n < 2 ^ bit_len n"
  proof (induction n rule: bit_len.induct)
    case (1 n)
    then show ?case by (subst bit_len.simps) auto
  qed
  show "n < 2 ^ k \<Longrightarrow> bit_len n \<le> k"
  proof (induction n arbitrary: k rule: bit_len.induct)
    case (1 n)
    show ?case
    proof (cases "n = 0")
      case False
      with 1(2) obtain k' where k: "k = Suc k'" by (cases k) auto
      with 1(2) have "n div 2 < 2 ^ k'" by auto
      from 1(1)[OF False this] show ?thesis using False k by (subst bit_len.simps) simp
    qed (simp add: bit_len.simps)
  qed
qed

lemma roundup_bounds:
  assumes "0 < unat n" "unat n \<le> 2 ^ 31"
  shows "unat n \<le> unat (roundup_pow_of_two n)" "unat (roundup_pow_of_two n) \<le> 2 ^ 31"
proof -
  have m: "unat (n - 1) = unat n - 1" using assms(1) by (intro unat_minus_1) (simp add: word_less_nat_alt)
  let ?k = "bit_len (unat (n - 1))"
  have k: "?k \<le> 31" using assms by (intro bit_len_bounds(2)) (simp add: m)
  have "unat (roundup_pow_of_two n) = 2 ^ ?k"
    using k by (simp add: roundup_pow_of_two_def push_bit_eq_mult unat_2_power)
  moreover have "unat n - 1 < 2 ^ ?k" using bit_len_bounds(1)[of "unat (n - 1)"] by (simp add: m)
  moreover have "(2::nat) ^ ?k \<le> 2 ^ 31" using k by (intro power_increasing) auto
  ultimately show "unat n \<le> unat (roundup_pow_of_two n)" "unat (roundup_pow_of_two n) \<le> 2 ^ 31" by auto
qed

lemma ucast_32_64: "unat (ucast (x :: u64) :: u32) = unat x mod 2 ^ 32" "unat (ucast (y :: u32) :: u64) = unat y"
proof -
  show "unat (ucast x :: u32) = unat x mod 2 ^ 32" by (simp add: unsigned_ucast_eq take_bit_eq_mod)
  have "unat y < 2 ^ 64" using unat_lt_2_32[of y] by simp
  then show "unat (ucast y :: u64) = unat y" by (simp add: unsigned_ucast_eq take_bit_nat_eq_self)
qed

lemma unat_plus_small: "unat (a::u32) + unat b < 2 ^ 32 \<Longrightarrow> unat (a + b) = unat a + unat b"
  by (simp add: unat_word_ariths mod_less)

lemma reserve_cases:
  assumes inv: "tracker_inv t" and kv: "kv_ok kv" and small: "unat (tk_size t) + unat m \<le> 2 ^ 31"
    and r: "uvm_tracker_reserve kv t m = (st, t')"
  shows "tracker_inv t' \<and> used t' = used t \<and> tk_size t' = tk_size t \<and>
    (st = NV_OK \<and> unat (tk_size t) + unat m \<le> unat (tk_max_size t') \<or> st = NV_ERR_NO_MEMORY \<and> t' = t)"
proof -
  have sum: "unat (tk_size t + m) = unat (tk_size t) + unat m" using small by (intro unat_plus_small) simp
  show ?thesis
  proof (cases "tk_max_size t < tk_size t + m")
    case False
    then have "st = NV_OK" "t' = t" using r by (simp_all add: uvm_tracker_reserve_def)
    with False show ?thesis using inv sum by (simp add: word_less_nat_alt)
  next
    case True
    let ?n = "ucast (tk_size t + m) :: u64"
    define p where "p = (ucast (roundup_pow_of_two ?n) :: u32)"
    have un: "unat ?n = unat (tk_size t) + unat m" by (simp only: ucast_32_64 sum)
    have up: "unat p = unat (roundup_pow_of_two ?n)" and pp: "unat ?n \<le> unat p" "unat p \<le> 2 ^ 31"
    proof -
      have "unat (tk_max_size t) < unat ?n" using True unfolding un by (simp only: word_less_nat_alt sum)
      then have "0 < unat ?n" by simp
      note b = roundup_bounds[OF this] small
      have le: "unat ?n \<le> unat (roundup_pow_of_two ?n)" "unat (roundup_pow_of_two ?n) \<le> 2 ^ 31"
        using b by (simp_all add: un)
      then show "unat p = unat (roundup_pow_of_two ?n)" by (simp add: p_def ucast_32_64)
      with le show "unat ?n \<le> unat p" "unat p \<le> 2 ^ 31" by simp_all
    qed
    show ?thesis
    proof (cases "kv (max 8 p)")
      case None
      then show ?thesis using r inv True by (simp add: uvm_tracker_reserve_def Let_def p_def)
    next
      case (Some es)
      let ?keep = "if tracker_is_using_static_entries t then unat (tk_size t) else length (tk_entries t)"
      have t': "st = NV_OK" "t' = t\<lparr>tk_entries := take ?keep (tk_entries t) @ drop ?keep es, tk_max_size := max 8 p\<rparr>"
        using r True Some by (simp_all add: uvm_tracker_reserve_def Let_def p_def)
      have les: "length es = unat (max 8 p)" using kv Some by (simp add: kv_ok_def)
      have bigger: "unat (tk_max_size t) < unat (max 8 p)" "unat (tk_size t) + unat m \<le> unat (max 8 p)"
        "unat (tk_size t) \<le> unat (tk_max_size t)"
        using True pp(1) inv by (auto simp: word_less_nat_alt word_le_nat_alt sum un max_def tracker_inv_def)
      have len: "length (tk_entries t) = unat (tk_max_size t)" using inv by (simp add: tracker_inv_def)
      have keep: "unat (tk_size t) \<le> ?keep" "?keep \<le> length (tk_entries t)"
        using bigger(3) len by auto
      have u: "used t' = used t"
        using keep by (simp add: t' used_def min_def)
      have "length (tk_entries t') = unat (tk_max_size t')"
        using keep bigger(1) les len by (simp add: t')
      moreover have "(8::u32) \<le> max 8 p" by simp
      moreover have "unat (max 8 p) \<le> 2 ^ 31" using pp(2) by (simp add: max_def)
      moreover have "tk_size t \<le> max 8 p" using bigger by (simp add: word_le_nat_alt)
      moreover have "distinct (map te_channel (used t'))" using inv by (simp only: u tracker_inv_def)
      ultimately have "tracker_inv t'"
        unfolding tracker_inv_def using t' by simp
      with u show ?thesis using bigger(2) by (simp add: t')
    qed
  qed
qed

section \<open>Adding entries\<close>

text \<open>What a tracker requires of each channel, and whether all of it is completed.\<close>

definition tracker_map :: "uvm_tracker_entry list \<Rightarrow> channel_id option \<rightharpoonup> u64" where
  "tracker_map es = map_of (map (\<lambda>e. (te_channel e, te_value e)) es)"

definition raise_map :: "(channel_id option \<rightharpoonup> u64) \<Rightarrow> uvm_tracker_entry \<Rightarrow> channel_id option \<rightharpoonup> u64" where
  "raise_map m e = m(te_channel e \<mapsto>
     (case m (te_channel e) of None \<Rightarrow> te_value e | Some v \<Rightarrow> max v (te_value e)))"

lemma tracker_map_None: "tracker_map es c = None \<longleftrightarrow> c \<notin> channels es"
  by (auto simp: tracker_map_def channels_def map_of_eq_None_iff image_image)

lemma raise_entry_cases:
  assumes "distinct (map te_channel es)"
  shows "(case raise_entry e es of
      None \<Rightarrow> te_channel e \<notin> channels es
    | Some es' \<Rightarrow> te_channel e \<in> channels es \<and> map te_channel es' = map te_channel es \<and>
        tracker_map es' = raise_map (tracker_map es) e)"
  using assms
proof (induction es)
  case Nil
  then show ?case by (simp add: channels_def)
next
  case (Cons x xs)
  have ne: "te_channel x \<notin> te_channel ` set xs" using Cons.prems by simp
  show ?case
  proof (cases "te_channel x = te_channel e")
    case True
    have "tracker_map (x\<lparr>te_value := max (te_value x) (te_value e)\<rparr> # xs) = raise_map (tracker_map (x # xs)) e"
      using True by (auto simp: tracker_map_def raise_map_def)
    with True show ?thesis by (simp add: channels_def)
  next
    case False
    show ?thesis
    proof (cases "raise_entry e xs")
      case None
      with Cons False show ?thesis by (simp add: channels_def)
    next
      case (Some xs')
      with Cons have "te_channel e \<in> channels xs" "map te_channel xs' = map te_channel xs"
        "tracker_map xs' = raise_map (tracker_map xs) e" by simp_all
      moreover have "tracker_map (x # xs') = raise_map (tracker_map (x # xs)) e"
        using False calculation(3) by (auto simp: tracker_map_def raise_map_def fun_upd_twist)
      ultimately show ?thesis using Some False by (simp add: channels_def)
    qed
  qed
qed

lemma tracker_map_snoc:
  "te_channel e \<notin> channels es \<Longrightarrow> tracker_map (es @ [e]) = raise_map (tracker_map es) e"
proof -
  assume n: "te_channel e \<notin> channels es"
  then have "tracker_map es (te_channel e) = None" by (simp add: tracker_map_None)
  then show ?thesis
    by (intro ext) (auto simp: tracker_map_def raise_map_def map_add_def split: option.split)
qed

lemma get_new_entry_cases:
  assumes inv: "tracker_inv t" and kv: "kv_ok kv" and small: "unat (tk_size t) < 2 ^ 31"
    and r: "get_new_entry kv t = (i, t1)"
  shows "i = None \<and> t1 = t \<and> tk_size t = tk_max_size t \<or>
    i = Some (unat (tk_size t)) \<and> unat (tk_size t1) = Suc (unat (tk_size t)) \<and>
    unat (tk_size t) < length (tk_entries t1) \<and>
    take (unat (tk_size t)) (tk_entries t1) = used t \<and> length (tk_entries t1) = unat (tk_max_size t1) \<and>
    (tk_max_size t1 = 1 \<or> 8 \<le> tk_max_size t1) \<and> unat (tk_max_size t1) \<le> 2 ^ 31"
proof -
  obtain st t0 where s: "uvm_tracker_reserve kv t 1 = (st, t0)" by fastforce
  note c = reserve_cases[OF inv kv _ s, simplified]
  have sz: "unat (tk_size t + 1) = Suc (unat (tk_size t))"
    using unat_plus_small[of "tk_size t" 1] small by simp
  show ?thesis
  proof (cases "st = NV_OK")
    case True
    then have "tracker_inv t0" "used t0 = used t" "tk_size t0 = tk_size t" "Suc (unat (tk_size t)) \<le> unat (tk_max_size t0)"
      using c small by auto
    moreover have "i = Some (unat (tk_size t0))" "t1 = t0\<lparr>tk_size := tk_size t0 + 1\<rparr>"
      using r s True by (simp_all add: get_new_entry_def)
    ultimately show ?thesis using sz by (auto simp: tracker_inv_def used_def)
  next
    case False
    then have "t0 = t" using c small by auto
    moreover have "i = None" "t1 = t0" using r s False by (auto simp: get_new_entry_def)
    moreover have "tk_max_size t < tk_size t + 1" using s False by (auto simp: uvm_tracker_reserve_def split: if_splits)
    then have "tk_size t = tk_max_size t"
      using inv sz by (simp add: tracker_inv_def word_less_nat_alt word_le_nat_alt word_unat_eq_iff)
    ultimately show ?thesis by simp
  qed
qed

lemma add_entry_cases:
  assumes inv: "tracker_inv t" and kv: "kv_ok kv" and small: "unat (tk_size t) < 2 ^ 31"
    and r: "uvm_tracker_add_entry kv t e = (st, t')"
  shows "tracker_inv t' \<and>
    (st = NV_OK \<and> tracker_map (used t') = raise_map (tracker_map (used t)) e \<and>
       channels (used t') = insert (te_channel e) (channels (used t)) \<and>
       unat (tk_size t') = unat (tk_size t) + (if te_channel e \<in> channels (used t) then 0 else 1) \<or>
     st = NV_ERR_NO_MEMORY \<and> t' = t \<and> tk_size t = tk_max_size t \<and> te_channel e \<notin> channels (used t))"
proof (cases "raise_entry e (used t)")
  case (Some es)
  have d: "distinct (map te_channel (used t))" using inv by (simp add: tracker_inv_def)
  from raise_entry_cases[OF this, of e] Some have c: "te_channel e \<in> channels (used t)"
    "map te_channel es = map te_channel (used t)" "tracker_map es = raise_map (tracker_map (used t)) e"
    by simp_all
  have "length es = unat (tk_size t)" using arg_cong[OF c(2), of length] length_used[OF inv] by simp
  note ru = replace_used[OF inv this, unfolded c(2), OF d]
  have t': "t' = t\<lparr>tk_entries := es @ drop (unat (tk_size t)) (tk_entries t)\<rparr>" "st = NV_OK"
    using r Some by (simp_all add: uvm_tracker_add_entry_def)
  have k: "tracker_inv t'" "used t' = es" "st = NV_OK" "tk_size t' = tk_size t"
    using ru by (simp_all add: t')
  have "channels es = channels (used t)" using arg_cong[OF c(2), of set] by (simp add: channels_def)
  with k c show ?thesis by (simp add: insert_absorb)
next
  case None
  have d: "distinct (map te_channel (used t))" using inv by (simp add: tracker_inv_def)
  from raise_entry_cases[OF this, of e] None have n: "te_channel e \<notin> channels (used t)" by simp
  obtain i t1 where g: "get_new_entry kv t = (i, t1)" by fastforce
  from get_new_entry_cases[OF inv kv small g] show ?thesis
  proof (rule disjE)
    assume "i = None \<and> t1 = t \<and> tk_size t = tk_max_size t"
    then show ?thesis using r None g n inv by (simp add: uvm_tracker_add_entry_def)
  next
    assume "i = Some (unat (tk_size t)) \<and> unat (tk_size t1) = Suc (unat (tk_size t)) \<and>
      unat (tk_size t) < length (tk_entries t1) \<and> take (unat (tk_size t)) (tk_entries t1) = used t \<and>
      length (tk_entries t1) = unat (tk_max_size t1) \<and> (tk_max_size t1 = 1 \<or> 8 \<le> tk_max_size t1) \<and>
      unat (tk_max_size t1) \<le> 2 ^ 31"
    then have a: "i = Some (unat (tk_size t))" "unat (tk_size t1) = Suc (unat (tk_size t))"
      "unat (tk_size t) < length (tk_entries t1)" "take (unat (tk_size t)) (tk_entries t1) = used t"
      "length (tk_entries t1) = unat (tk_max_size t1)" "tk_max_size t1 = 1 \<or> 8 \<le> tk_max_size t1"
      "unat (tk_max_size t1) \<le> 2 ^ 31"
      by blast+
    have t': "st = NV_OK" "t' = t1\<lparr>tk_entries := (tk_entries t1)[unat (tk_size t) := e]\<rparr>"
      using r None g a(1) by (simp_all add: uvm_tracker_add_entry_def)
    have u: "used t' = used t @ [e]"
      using a(2-4) by (simp add: used_def t' take_Suc_conv_app_nth)
    have "tracker_inv t'"
      using a d n unfolding tracker_inv_def u by (auto simp: t' word_le_nat_alt channels_def)
    moreover have "channels (used t') = insert (te_channel e) (channels (used t))"
      by (simp add: u channels_def)
    moreover have "tk_size t' = tk_size t1" by (simp add: t')
    ultimately show ?thesis using tracker_map_snoc[OF n] n a(2) by (simp add: u t'(1))
  qed
qed

text \<open>Completion of a whole tracker, and how it follows the map.\<close>

definition all_completed :: "snapshot \<Rightarrow> uvm_tracker_entry list \<Rightarrow> bool" where
  "all_completed s es \<longleftrightarrow> (\<forall>e \<in> set es. uvm_tracker_is_entry_completed s e)"

definition map_completed :: "snapshot \<Rightarrow> (channel_id option \<rightharpoonup> u64) \<Rightarrow> bool" where
  "map_completed s m \<longleftrightarrow> (\<forall>c v. m (Some c) = Some v \<longrightarrow> v \<le> completed_of s c)"

lemma all_completed_map:
  assumes "distinct (map te_channel es)"
  shows "all_completed s es \<longleftrightarrow> map_completed s (tracker_map es)"
proof -
  have d: "distinct (map fst (map (\<lambda>e. (te_channel e, te_value e)) es))"
    using assms by (simp add: comp_def)
  have "tracker_map es c = Some v \<longleftrightarrow> (\<exists>e \<in> set es. te_channel e = c \<and> te_value e = v)" for c v
    unfolding tracker_map_def using map_of_eq_Some_iff[OF d, of c v] by auto
  then show ?thesis
    by (fastforce simp: all_completed_def map_completed_def uvm_tracker_is_entry_completed_def split: option.splits)
qed

lemma map_completed_raise:
  "map_completed s (raise_map m e) \<longleftrightarrow> map_completed s m \<and> uvm_tracker_is_entry_completed s e"
  unfolding map_completed_def raise_map_def uvm_tracker_is_entry_completed_def
  by (cases "te_channel e"; cases "m (te_channel e)") auto

lemma add_entries_cases:
  assumes "tracker_inv t" "kv_ok kv" "distinct (map te_channel es)"
    and "unat (tk_size t) + length (filter (\<lambda>e. te_channel e \<notin> channels (used t)) es) \<le> unat (tk_max_size t)"
  shows "tracker_inv (add_entries kv t es) \<and>
    tracker_map (used (add_entries kv t es)) = foldl raise_map (tracker_map (used t)) es"
  using assms
proof (induction es arbitrary: t)
  case (Cons e es)
  obtain st t' where a: "uvm_tracker_add_entry kv t e = (st, t')" by fastforce
  show ?case
  proof (cases "te_channel e \<in> channels (used t)")
    case True
    obtain es' where es': "raise_entry e (used t) = Some es'"
      using raise_entry_cases[of "used t" e] Cons.prems(1) True by (auto simp: tracker_inv_def split: option.splits)
    then have t': "t' = t\<lparr>tk_entries := es' @ drop (unat (tk_size t)) (tk_entries t)\<rparr>"
      using a by (simp add: uvm_tracker_add_entry_def)
    have d: "distinct (map te_channel (used t))" using Cons.prems(1) by (simp add: tracker_inv_def)
    have c: "map te_channel es' = map te_channel (used t)" "tracker_map es' = raise_map (tracker_map (used t)) e"
      using raise_entry_cases[OF d, of e] es' by simp_all
    have "length es' = unat (tk_size t)"
      using arg_cong[OF c(1), of length] length_used[OF Cons.prems(1)] by simp
    note ru = replace_used[OF Cons.prems(1) this, unfolded c(1), OF d, folded t']
    have "channels (used t') = channels (used t)"
      using arg_cong[OF c(1), of set] by (simp add: ru(2) channels_def)
    then have "unat (tk_size t') + length (filter (\<lambda>e. te_channel e \<notin> channels (used t')) es) \<le> unat (tk_max_size t')"
      using Cons.prems(4) True by (simp add: t')
    moreover have "tracker_map (used t') = raise_map (tracker_map (used t)) e" using ru(2) c(2) by simp
    ultimately show ?thesis using Cons.IH[OF ru(1) Cons.prems(2)] Cons.prems(3) a by simp
  next
    case False
    then have fits: "unat (tk_size t) + 1 \<le> unat (tk_max_size t)" using Cons.prems(4) by simp
    then have small: "unat (tk_size t) < 2 ^ 31" using Cons.prems(1) by (simp add: tracker_inv_def)
    have ne: "tk_size t \<noteq> tk_max_size t" using fits by auto
    have m: "tk_max_size t' = tk_max_size t"
    proof -
      have "unat (tk_size t + 1) = unat (tk_size t) + 1" using unat_plus_small[of "tk_size t" 1] small by simp
      then have "\<not> tk_max_size t < tk_size t + 1" using fits by (simp add: word_less_nat_alt)
      moreover have "raise_entry e (used t) = None"
        using raise_entry_cases[of "used t" e] Cons.prems(1) False by (auto simp: tracker_inv_def split: option.splits)
      ultimately show ?thesis using a
        by (auto simp: uvm_tracker_add_entry_def get_new_entry_def uvm_tracker_reserve_def)
    qed
    from add_entry_cases[OF Cons.prems(1,2) small a] ne False
    have s: "tracker_inv t'" "tracker_map (used t') = raise_map (tracker_map (used t)) e"
      "channels (used t') = insert (te_channel e) (channels (used t))" "unat (tk_size t') = unat (tk_size t) + 1"
      by auto
    have "filter (\<lambda>x. te_channel x \<notin> channels (used t')) es = filter (\<lambda>x. te_channel x \<notin> channels (used t)) es"
      using Cons.prems(3) by (intro filter_cong) (auto simp: s(3) rev_image_eqI)
    then have "unat (tk_size t') + length (filter (\<lambda>e. te_channel e \<notin> channels (used t')) es) \<le> unat (tk_max_size t')"
      using Cons.prems(4) False s(4) m by simp
    then show ?thesis using Cons.IH[OF s(1) Cons.prems(2)] Cons.prems(3) a s(2) m by simp
  qed
qed simp

lemma foldl_raise_completed:
  "map_completed s (foldl raise_map m es) \<longleftrightarrow> map_completed s m \<and> all_completed s es"
  by (induction es arbitrary: m) (auto simp: map_completed_raise all_completed_def)

section \<open>Removing completed entries\<close>

lemma remove_loop_correct:
  assumes "n \<le> length es" "i \<le> n" "remove_loop completed i n es = (n', es')"
    and "\<forall>e \<in> set (take i es). \<not> completed e"
  shows "n' \<le> n \<and> length es' = length es \<and>
    mset (take n' es') = filter_mset (\<lambda>e. \<not> completed e) (mset (take n es))"
  using assms
proof (induction completed i n es arbitrary: n' es' rule: remove_loop.induct)
  case (1 completed i n es)
  show ?case
  proof (cases "i < n")
    case False
    then have "n' = n" "es' = es" using 1(5) by (simp_all add: remove_loop.simps)
    moreover have "filter_mset (\<lambda>e. \<not> completed e) (mset (take n es)) = mset (take n es)"
      using 1(4,6) False by (intro filter_mset_eq_conv[THEN iffD2]) (auto simp: not_less)
    ultimately show ?thesis by simp
  next
    case True
    show ?thesis
    proof (cases "completed (es ! i)")
      case False
      have "\<forall>e \<in> set (take (Suc i) es). \<not> completed e"
        using 1(3,6) True False by (simp add: take_Suc_conv_app_nth)
      moreover have "remove_loop completed (Suc i) n es = (n', es')"
        using 1(5) True False by (subst (asm) remove_loop.simps) simp
      ultimately show ?thesis using 1(2)[OF True False 1(3)] True by simp
    next
      case c: True
      let ?es = "if i \<noteq> n - 1 then es[i := es ! (n - 1)] else es"
      have keep: "\<forall>e \<in> set (take i ?es). \<not> completed e" using 1(6) by simp
      have r: "remove_loop completed i (n - 1) ?es = (n', es')"
        using 1(5) True c by (subst (asm) remove_loop.simps) simp
      have s: "take n es = take i es @ es ! i # drop (Suc i) (take n es)"
        using id_take_nth_drop[of i "take n es"] 1(3) True by simp
      have "mset (take (n - 1) ?es) + {#es ! i#} = mset (take n es)"
      proof (cases "i = n - 1")
        case i: True
        then have "take n es = take (n - 1) es @ [es ! i]"
          using 1(3) True take_Suc_conv_app_nth[of "n - 1" es] by simp
        with i show ?thesis by simp
      next
        case False
        with True have lt: "i < n - 1" by simp
        have l: "take n es = take (n - 1) es @ [es ! (n - 1)]"
          using 1(3) True take_Suc_conv_app_nth[of "n - 1" es] by simp
        have "mset ((take (n - 1) es)[i := es ! (n - 1)]) =
            add_mset (es ! (n - 1)) (mset (take (n - 1) es) - {#take (n - 1) es ! i#})"
          by (rule mset_update) (use lt 1(3) in simp)
        moreover have "take (n - 1) es ! i \<in># mset (take (n - 1) es)"
          using lt 1(3) by (metis length_take min.absorb2 nth_mem set_mset_mset diff_le_self order_trans)
        ultimately have "mset ((take (n - 1) es)[i := es ! (n - 1)]) + {#es ! i#} =
            add_mset (es ! (n - 1)) (mset (take (n - 1) es))"
          using lt by simp
        then show ?thesis unfolding l using False by (simp add: take_update_swap)
      qed
      then have m: "filter_mset (\<lambda>e. \<not> completed e) (mset (take n es)) =
          filter_mset (\<lambda>e. \<not> completed e) (mset (take (n - 1) ?es))"
        using c by (metis filter_mset_add_mset add_mset_add_single)
      have "n - 1 \<le> length ?es" "i \<le> n - 1" using 1(3) True by auto
      from 1(1)[OF True c this r keep] m show ?thesis by auto
    qed
  qed
qed

lemma distinct_submset: "distinct ys \<Longrightarrow> mset xs \<subseteq># mset ys \<Longrightarrow> distinct xs"
proof -
  assume d: "distinct ys" and s: "mset xs \<subseteq># mset ys"
  have "count (mset xs) a = (if a \<in> set xs then 1 else 0)" for a
  proof (cases "a \<in> set xs")
    case True
    then have p: "count (mset xs) a \<noteq> 0" by (simp add: count_mset_0_iff)
    have "count (mset xs) a \<le> count (mset ys) a" using s by (rule mset_subset_eq_count)
    also have "count (mset ys) a \<le> 1" using d by (simp add: distinct_count_atmost_1)
    finally have "count (mset xs) a = 1" using p by linarith
    then show ?thesis using True by simp
  next
    case False
    then show ?thesis by (simp add: count_mset_0_iff)
  qed
  then show ?thesis by (simp only: distinct_count_atmost_1) simp
qed

lemma remove_completed_correct:
  assumes inv: "tracker_inv t"
  shows "tracker_inv (uvm_tracker_remove_completed s t) \<and>
    tk_max_size (uvm_tracker_remove_completed s t) = tk_max_size t \<and>
    mset (used (uvm_tracker_remove_completed s t)) =
      filter_mset (\<lambda>e. \<not> uvm_tracker_is_entry_completed s e) (mset (used t))"
proof -
  obtain n es where r: "remove_loop (uvm_tracker_is_entry_completed s) 0 (unat (tk_size t)) (tk_entries t) = (n, es)"
    by fastforce
  have len: "unat (tk_size t) \<le> length (tk_entries t)" using inv by (simp add: tracker_inv_def word_le_nat_alt)
  from remove_loop_correct[OF len _ r]
  have l: "n \<le> unat (tk_size t)" "length es = length (tk_entries t)"
    "mset (take n es) = filter_mset (\<lambda>e. \<not> uvm_tracker_is_entry_completed s e) (mset (used t))"
    by (simp_all add: used_def)
  let ?t = "t\<lparr>tk_size := word_of_nat n, tk_entries := es\<rparr>"
  have "n < 2 ^ 32" using l(1) unat_lt_2_32[of "tk_size t"] by simp
  then have n: "unat (word_of_nat n :: u32) = n" by (rule unat_of_nat_u32)
  then have u: "used ?t = take n es" by (simp add: used_def)
  have "distinct (map te_channel (used t))" using inv by (simp add: tracker_inv_def)
  have "mset (map te_channel (take n es)) \<subseteq># mset (map te_channel (used t))"
    by (simp add: l(3) image_mset_subseteq_mono)
  with \<open>distinct (map te_channel (used t))\<close> have "distinct (map te_channel (take n es))"
    by (rule distinct_submset)
  then have "tracker_inv ?t"
    using inv n l(1,2) by (simp add: tracker_inv_def u word_le_nat_alt)
  then show ?thesis using l(3) u by (simp add: uvm_tracker_remove_completed_def r)
qed

section \<open>Waiting\<close>

text \<open>Channels complete values in order.\<close>

definition env_mono :: "(nat \<Rightarrow> snapshot) \<Rightarrow> bool" where
  "env_mono env \<longleftrightarrow> (\<forall>k c. completed_of (env k) c \<le> completed_of (env (Suc k)) c)"

lemma env_mono_le: "env_mono env \<Longrightarrow> j \<le> k \<Longrightarrow> completed_of (env j) c \<le> completed_of (env k) c"
proof (induction k)
  case (Suc k)
  then show ?case by (cases "j = Suc k") (auto simp: env_mono_def le_Suc_eq intro: order_trans)
qed simp

lemma entry_completed_mono:
  "env_mono env \<Longrightarrow> j \<le> k \<Longrightarrow> uvm_tracker_is_entry_completed (env j) e \<Longrightarrow> uvm_tracker_is_entry_completed (env k) e"
  using env_mono_le[of env j k] by (auto simp: uvm_tracker_is_entry_completed_def split: option.splits intro: order_trans)

lemma removed_entries:
  assumes "tracker_inv t"
  shows "e \<in> set (used (uvm_tracker_remove_completed s t)) \<longleftrightarrow>
    e \<in> set (used t) \<and> \<not> uvm_tracker_is_entry_completed s e"
proof -
  have "set_mset (mset (used (uvm_tracker_remove_completed s t))) =
      set_mset (filter_mset (\<lambda>e. \<not> uvm_tracker_is_entry_completed s e) (mset (used t)))"
    using remove_completed_correct[OF assms, of s] by simp
  then show ?thesis unfolding set_mset_filter set_mset_mset by (simp only: mem_Collect_eq)
qed

definition error_seen :: "snapshot \<Rightarrow> uvm_tracker_entry list \<Rightarrow> nv_status \<Rightarrow> bool" where
  "error_seen s es st \<longleftrightarrow> global_status s = st \<or> (\<exists>e \<in> set es. \<exists>c. te_channel e = Some c \<and> channel_status s c = st)"

lemma check_entries_cases:
  "\<forall>e \<in> set es. te_channel e \<noteq> None \<Longrightarrow>
   \<exists>st. check_entries s es = Some st \<and> (st \<noteq> NV_OK \<longrightarrow> error_seen s es st) \<and>
     (st = NV_OK \<longrightarrow> (\<forall>e \<in> set es. \<forall>c. te_channel e = Some c \<longrightarrow> channel_status s c = NV_OK))"
proof (induction es)
  case (Cons e es)
  then obtain c where c: "te_channel e = Some c" by auto
  from Cons obtain st where st: "check_entries s es = Some st" "st \<noteq> NV_OK \<longrightarrow> error_seen s es st"
    "st = NV_OK \<longrightarrow> (\<forall>e \<in> set es. \<forall>c. te_channel e = Some c \<longrightarrow> channel_status s c = NV_OK)" by auto
  then show ?case using c by (auto simp: error_seen_def)
qed (simp add: error_seen_def)

lemma check_errors_after_remove:
  assumes "tracker_inv t"
  shows "\<exists>st. uvm_tracker_check_errors s (uvm_tracker_remove_completed s t) = Some st \<and>
    (st \<noteq> NV_OK \<longrightarrow> error_seen s (used t) st)"
proof -
  let ?es = "used (uvm_tracker_remove_completed s t)"
  have "\<forall>e \<in> set ?es. te_channel e \<noteq> None"
    by (auto simp: removed_entries[OF assms] uvm_tracker_is_entry_completed_def split: option.splits)
  from check_entries_cases[OF this, of s] obtain st where
    "check_entries s ?es = Some st" "st \<noteq> NV_OK \<longrightarrow> error_seen s ?es st" by auto
  then show ?thesis
    by (cases "global_status s = NV_OK")
       (auto simp: uvm_tracker_check_errors_def error_seen_def removed_entries[OF assms])
qed

lemma size_0_used: "tracker_inv t \<Longrightarrow> tk_size t = 0 \<longleftrightarrow> used t = []"
  using length_used[of t] by (metis length_0_conv unsigned_0 unsigned_eq_0_iff)

lemma wait_loop_returns:
  assumes "tracker_inv t" "env_mono env" "all_completed (env N) (used t)" "k \<le> N" "N - k < fuel"
  shows "\<exists>st k' t'. wait_loop env fuel k status t = Some (st, k', t') \<and> k \<le> k' \<and> k' \<le> N \<and>
    tracker_inv t' \<and> tk_max_size t' = tk_max_size t \<and>
    (status \<noteq> NV_OK \<longrightarrow> st = status \<and> k' = k) \<and>
    (st = NV_OK \<longrightarrow> used t' = [] \<and> all_completed (env k') (used t)) \<and>
    (st \<noteq> NV_OK \<and> status = NV_OK \<longrightarrow> (\<exists>j < k'. k \<le> j \<and> error_seen (env j) (used t) st))"
  using assms
proof (induction fuel arbitrary: k status t)
  case (Suc fuel)
  let ?t = "uvm_tracker_remove_completed (env k) t"
  have rc: "tracker_inv ?t" "tk_max_size ?t = tk_max_size t"
    using remove_completed_correct[OF Suc.prems(1)] by auto
  note re = removed_entries[OF Suc.prems(1), of _ "env k"]
  have done_k: "used ?t = [] \<Longrightarrow> all_completed (env k) (used t)"
    using re by (auto simp: all_completed_def)
  show ?case
  proof (cases "status = NV_OK \<and> tk_size ?t \<noteq> 0")
    case False
    then show ?thesis
      using rc Suc.prems(4) done_k size_0_used[OF rc(1)]
      by (auto simp: uvm_tracker_is_completed_def Let_def)
  next
    case True
    from check_errors_after_remove[OF Suc.prems(1), of "env k"] obtain st1 where
      st1: "uvm_tracker_check_errors (env k) ?t = Some st1" "st1 \<noteq> NV_OK \<longrightarrow> error_seen (env k) (used t) st1" by auto
    have kN: "k \<noteq> N"
    proof
      assume "k = N"
      then have "e \<notin> set (used ?t)" for e using re[of e] Suc.prems(3) by (simp add: all_completed_def)
      then have "used ?t = []" by (metis last_in_set)
      then show False using True size_0_used[OF rc(1)] by simp
    qed
    have sub: "set (used ?t) \<subseteq> set (used t)" using re by auto
    have c: "all_completed (env N) (used ?t)" using Suc.prems(3) sub by (auto simp: all_completed_def)
    have "Suc k \<le> N" "N - Suc k < fuel" using kN Suc.prems(4,5) by linarith+
    from Suc.IH[OF rc(1) Suc.prems(2) c this, of st1, unfolded rc(2)] obtain st k' t' where ih: "wait_loop env fuel (Suc k) st1 ?t = Some (st, k', t')" "Suc k \<le> k'" "k' \<le> N"
      "tracker_inv t'" "tk_max_size t' = tk_max_size t"
      "st1 \<noteq> NV_OK \<longrightarrow> st = st1 \<and> k' = Suc k"
      "st = NV_OK \<longrightarrow> used t' = [] \<and> all_completed (env k') (used ?t)"
      "st \<noteq> NV_OK \<and> st1 = NV_OK \<longrightarrow> (\<exists>j < k'. Suc k \<le> j \<and> error_seen (env j) (used ?t) st)"
      by (elim exE conjE) blast
    have ok: "st = NV_OK \<longrightarrow> all_completed (env k') (used t)"
    proof (intro impI)
      assume "st = NV_OK"
      then have "uvm_tracker_is_entry_completed (env k') e" if "e \<in> set (used t)" for e
        using that ih(2,7) re[of e] entry_completed_mono[OF Suc.prems(2), of k k' e]
        by (cases "uvm_tracker_is_entry_completed (env k) e") (auto simp: all_completed_def)
      then show "all_completed (env k') (used t)" by (simp add: all_completed_def)
    qed
    have err: "\<exists>j < k'. k \<le> j \<and> error_seen (env j) (used t) st" if "st \<noteq> NV_OK"
    proof (cases "st1 = NV_OK")
      case True
      with that ih(8) obtain j where "j < k'" "Suc k \<le> j" "error_seen (env j) (used ?t) st" by blast
      then show ?thesis using sub by (intro exI[of _ j]) (auto simp: error_seen_def)
    next
      case False
      then show ?thesis using st1(2) ih(2,6) by (intro exI[of _ k]) auto
    qed
    have "wait_loop env (Suc fuel) k status t = Some (st, k', t')"
      using True st1(1) ih(1) by (simp add: uvm_tracker_is_completed_def)
    then show ?thesis using ih(2-5,7) ok err True by auto
  qed
qed simp

lemma removed_later:
  assumes "tracker_inv t" "\<forall>c. completed_of s c \<le> completed_of s' c"
  shows "all_completed s' (used (uvm_tracker_remove_completed s t)) \<longleftrightarrow> all_completed s' (used t)"
proof -
  have "uvm_tracker_is_entry_completed s e \<Longrightarrow> uvm_tracker_is_entry_completed s' e" for e
    using assms(2) by (auto simp: uvm_tracker_is_entry_completed_def split: option.splits intro: order_trans)
  then show ?thesis by (auto simp: all_completed_def removed_entries[OF assms(1)])
qed

lemma merge_trackers:
  assumes d: "tracker_inv d" and e: "tracker_inv src" "kv_ok kv"
    and fits: "unat (tk_size d) + length (filter (\<lambda>e. te_channel e \<notin> channels (used d)) (used src)) \<le> unat (tk_max_size d)"
  shows "tracker_inv (add_entries kv d (used src))"
    "all_completed s (used (add_entries kv d (used src))) \<longleftrightarrow> all_completed s (used d) \<and> all_completed s (used src)"
proof -
  have ds: "distinct (map te_channel (used src))" "distinct (map te_channel (used d))"
    using d e by (simp_all add: tracker_inv_def)
  note c = add_entries_cases[OF d e(2) ds(1) fits]
  then show "tracker_inv (add_entries kv d (used src))" by simp
  then have "distinct (map te_channel (used (add_entries kv d (used src))))" by (simp add: tracker_inv_def)
  with c ds(2) show "all_completed s (used (add_entries kv d (used src))) \<longleftrightarrow>
      all_completed s (used d) \<and> all_completed s (used src)"
    by (simp add: all_completed_map foldl_raise_completed)
qed

lemma removed_size:
  assumes "tracker_inv t"
  shows "unat (tk_size (uvm_tracker_remove_completed s t)) \<le> unat (tk_size t)"
proof -
  have "size (mset (used (uvm_tracker_remove_completed s t))) \<le> size (mset (used t))"
    using remove_completed_correct[OF assms, of s] by (simp only: size_mset_mono multiset_filter_subset)
  moreover have "length (used (uvm_tracker_remove_completed s t)) = unat (tk_size (uvm_tracker_remove_completed s t))"
    using remove_completed_correct[OF assms, of s] by (intro length_used) simp
  ultimately show ?thesis using length_used[OF assms] by (simp only: size_mset)
qed

lemma reserve_for_entries_cases:
  assumes "tracker_inv d" "tracker_inv src" "kv_ok kv" "unat (tk_size d) + unat (tk_size src) \<le> 2 ^ 31"
    and "reserve_for_entries_from_tracker kv d src = (st, d')"
  shows "tracker_inv d' \<and> used d' = used d \<and>
    (st = NV_OK \<and> unat (tk_size d') + length (filter (\<lambda>e. te_channel e \<notin> channels (used d')) (used src)) \<le> unat (tk_max_size d') \<or>
     st = NV_ERR_NO_MEMORY)"
proof -
  define f where "f = length (filter (\<lambda>e. te_channel e \<notin> channels (used d)) (used src))"
  have ch: "(\<exists>x \<in> set (used d). te_channel x = te_channel e) \<longleftrightarrow> te_channel e \<in> channels (used d)" for e
    by (force simp: channels_def image_iff)
  have r: "uvm_tracker_reserve kv d (word_of_nat f) = (st, d')"
    using assms(5) by (simp only: reserve_for_entries_from_tracker_def Let_def f_def ch)
  have "f \<le> unat (tk_size src)" unfolding f_def length_used[OF assms(2), symmetric] by (rule length_filter_le)
  then have small: "unat (tk_size d) + f \<le> 2 ^ 31" using assms(4) by simp
  then have f: "unat (word_of_nat f :: u32) = f" by (intro unat_of_nat_u32) simp
  note c = reserve_cases[OF assms(1,3) _ r, unfolded f, OF small]
  have fd: "length (filter (\<lambda>e. te_channel e \<notin> channels (used d')) (used src)) = f" if "used d' = used d"
    using that by (simp add: f_def)
  show ?thesis using c fd by auto
qed

lemma add_tracker_cases:
  assumes inv: "tracker_inv (st dst)" "tracker_inv (st src)" and kv: "\<forall>i. kv_ok (kv i)"
    and small: "unat (tk_size (st dst)) + unat (tk_size (st src)) \<le> 2 ^ 31"
    and later: "\<forall>c. completed_of s c \<le> completed_of s' c" and ne: "src \<noteq> dst"
    and r: "uvm_tracker_add_tracker kv s st dst src = (status, st')"
  shows "tracker_inv (st' dst) \<and> tracker_inv (st' src) \<and>
    (all_completed s' (used (st' src)) \<longleftrightarrow> all_completed s' (used (st src))) \<and>
    (status = NV_OK \<and> (all_completed s' (used (st' dst)) \<longleftrightarrow>
         all_completed s' (used (st dst)) \<and> all_completed s' (used (st src))) \<or>
     status = NV_ERR_NO_MEMORY \<and> used (st' dst) = used (uvm_tracker_remove_completed s (st dst)))"
proof -
  obtain st1 d1 where r1: "uvm_tracker_reserve (kv 0) (st dst) (tk_size (st src)) = (st1, d1)" by fastforce
  have kvi: "kv_ok (kv i)" for i using kv by simp
  note c1 = reserve_cases[OF inv(1) kvi small r1]
  show ?thesis
  proof (cases "st1 = NV_OK")
    case True
    have "length (filter (\<lambda>e. te_channel e \<notin> channels (used d1)) (used (st src))) \<le> unat (tk_size (st src))"
      unfolding length_used[OF inv(2), symmetric] by (rule length_filter_le)
    then have "unat (tk_size d1) + length (filter (\<lambda>e. te_channel e \<notin> channels (used d1)) (used (st src)))
        \<le> unat (tk_max_size d1)" using c1 True by auto
    note m = merge_trackers[OF conjunct1[OF c1] inv(2) kvi[of 2] this]
    have "status = NV_OK" "st' = st(dst := add_entries (kv 2) d1 (used (st src)))"
      using r r1 True ne by (auto simp: uvm_tracker_add_tracker_def Let_def)
    then show ?thesis using m inv c1 ne by simp
  next
    case False
    with c1 have n: "st1 = NV_ERR_NO_MEMORY" "d1 = st dst" by auto
    let ?d = "uvm_tracker_remove_completed s (st dst)" and ?s = "uvm_tracker_remove_completed s (st src)"
    obtain st2 d2 where r2: "reserve_for_entries_from_tracker (kv 1) ?d ?s = (st2, d2)" by fastforce
    have i: "tracker_inv ?d" "tracker_inv ?s" using remove_completed_correct inv by blast+
    have "unat (tk_size ?d) + unat (tk_size ?s) \<le> 2 ^ 31"
      using small removed_size[OF inv(1), of s] removed_size[OF inv(2), of s] by linarith
    note c2 = reserve_for_entries_cases[OF i kvi this r2]
    note later' = removed_later[OF inv(1) later] removed_later[OF inv(2) later]
    show ?thesis
    proof (cases "st2 = NV_OK")
      case True
      with c2 have "tracker_inv d2" "used d2 = used ?d" "unat (tk_size d2) +
          length (filter (\<lambda>e. te_channel e \<notin> channels (used d2)) (used ?s)) \<le> unat (tk_max_size d2)" by auto
      note m = merge_trackers[OF this(1) i(2) kvi[of 2] this(3)] this(2)
      have "status = NV_OK" "st' dst = add_entries (kv 2) d2 (used ?s)" "st' src = ?s"
        using r r1 r2 n True ne by (auto simp: uvm_tracker_add_tracker_def Let_def)
      then show ?thesis using m i ne later' by simp
    next
      case False
      with c2 have "st2 = NV_ERR_NO_MEMORY" by auto
      then have "status = NV_ERR_NO_MEMORY" "st' dst = d2" "st' src = ?s"
        using r r1 r2 n ne by (auto simp: uvm_tracker_add_tracker_def Let_def)
      then show ?thesis using c2 i ne later' by simp
    qed
  qed
qed

section \<open>Properties\<close>

text \<open>
  Adding an entry keeps a tracker well formed, with one entry a channel: on success the
  tracker requires the larger of the old and the new value of that channel and what it did of
  every other; it fails only for want of memory, with a full array and a new channel, and then
  changes nothing.
\<close>

theorem tracker_add_entry_correct:
  assumes "tracker_inv t" "kv_ok kv" "unat (tk_size t) < 2 ^ 31"
    and "uvm_tracker_add_entry kv t e = (st, t')"
  shows "tracker_inv t' \<and>
    (st = NV_OK \<and> tracker_map (used t') = raise_map (tracker_map (used t)) e \<or>
     st = NV_ERR_NO_MEMORY \<and> t' = t \<and> tk_size t = tk_max_size t \<and> tracker_map (used t) (te_channel e) = None)"
  using add_entry_cases[OF assms] by (auto simp: tracker_map_None)

theorem tracker_add_entry_correct_witness:
  "uvm_tracker_add_entry (\<lambda>n. None) uvm_tracker_init \<lparr>te_channel = Some 3, te_value = 7\<rparr> =
     (NV_OK, \<lparr>tk_entries = [\<lparr>te_channel = Some 3, te_value = 7\<rparr>], tk_size = 1, tk_max_size = 1\<rparr>) \<and>
   tracker_inv \<lparr>tk_entries = [\<lparr>te_channel = Some 3, te_value = 7\<rparr>], tk_size = 1, tk_max_size = 1\<rparr>"
proof -
  have r: "uvm_tracker_add_entry (\<lambda>n. None) uvm_tracker_init \<lparr>te_channel = Some 3, te_value = 7\<rparr> =
     (NV_OK, \<lparr>tk_entries = [\<lparr>te_channel = Some 3, te_value = 7\<rparr>], tk_size = 1, tk_max_size = 1\<rparr>)"
    by (simp add: uvm_tracker_add_entry_def uvm_tracker_init_def used_def get_new_entry_def uvm_tracker_reserve_def)
  show ?thesis using tracker_add_entry_correct[OF init_inv(1) _ _ r] r
    by (simp add: kv_ok_def uvm_tracker_init_def)
qed

text \<open>
  C16. Adding one tracker to another. Success means the destination then waits for exactly
  what the two waited for, at this and at any later moment, though entries that had completed
  may have been dropped from either to save memory; the additions after the reservation never
  run out of memory, although their status is ignored. On failure no entry was added:
  the destination has lost at most completed entries.
\<close>

theorem tracker_add_tracker_correct:
  assumes "tracker_inv (st dst)" "tracker_inv (st src)" "\<forall>i. kv_ok (kv i)"
    and "unat (tk_size (st dst)) + unat (tk_size (st src)) \<le> 2 ^ 31"
    and "\<forall>c. completed_of s c \<le> completed_of s' c"
    and "uvm_tracker_add_tracker kv s st dst src = (status, st')"
  shows "tracker_inv (st' dst) \<and> tracker_inv (st' src) \<and>
    (all_completed s' (used (st' src)) \<longleftrightarrow> all_completed s' (used (st src))) \<and>
    (status = NV_OK \<and> (all_completed s' (used (st' dst)) \<longleftrightarrow>
         all_completed s' (used (st dst)) \<and> all_completed s' (used (st src))) \<or>
     status = NV_ERR_NO_MEMORY \<and> used (st' dst) = used (uvm_tracker_remove_completed s (st dst)))"
proof (cases "src = dst")
  case True
  then show ?thesis using assms by (auto simp: uvm_tracker_add_tracker_def)
next
  case False
  then show ?thesis using add_tracker_cases[OF assms(1-5) _ assms(6)] by blast
qed

definition sample_trackers :: trackers where
  "sample_trackers = (\<lambda>i. \<lparr>tk_entries = [\<lparr>te_channel = Some i, te_value = 7\<rparr>], tk_size = 1, tk_max_size = 1\<rparr>)"

definition sample_snapshot :: "u64 \<Rightarrow> snapshot" where
  "sample_snapshot v = \<lparr>completed_of = (\<lambda>c. v), channel_status = (\<lambda>c. NV_OK), global_status = NV_OK\<rparr>"

lemma sample_trackers_ok: "tracker_inv (sample_trackers i)" "tk_size (sample_trackers i) = 1"
  "used (sample_trackers i) = [\<lparr>te_channel = Some i, te_value = 7\<rparr>]"
  by (simp_all add: tracker_inv_def sample_trackers_def used_def)

theorem tracker_add_tracker_correct_witness:
  "\<exists>st'. uvm_tracker_add_tracker (\<lambda>i n. Some (replicate (unat n) null_entry)) (sample_snapshot 3) sample_trackers 0 1 = (NV_OK, st') \<and>
     \<not> all_completed (sample_snapshot 6) (used (st' 0)) \<and> all_completed (sample_snapshot 7) (used (st' 0))"
proof -
  let ?kv = "\<lambda>(i::nat) n::u32. Some (replicate (unat n) null_entry)"
  obtain status st' where r: "uvm_tracker_add_tracker ?kv (sample_snapshot 3) sample_trackers 0 1 = (status, st')"
    by fastforce
  have ok: "status = NV_OK"
    using r by (auto simp: uvm_tracker_add_tracker_def uvm_tracker_reserve_def Let_def split: if_splits)
  have "\<forall>i. kv_ok (?kv i)" by (simp add: kv_ok_def)
  note t = tracker_add_tracker_correct[OF sample_trackers_ok(1) sample_trackers_ok(1) this _ _ r]
  from t[of "sample_snapshot 6"] t[of "sample_snapshot 7"] show ?thesis
    using r ok by (simp add: sample_trackers_ok all_completed_def uvm_tracker_is_entry_completed_def sample_snapshot_def)
qed

text \<open>
  C21. \<^verbatim>\<open>uvm_tracker_wait\<close> returns: if every entry is completed by iteration \<open>N\<close>, then it ends
  no later than that. Its tracker is then empty and as large as before; \<^verbatim>\<open>NV_OK\<close> means every
  entry had completed when it returned, and any other status is one that the global state or
  a tracked channel showed while it waited.
\<close>

theorem tracker_wait_correct:
  assumes "tracker_inv t" "env_mono env" "all_completed (env N) (used t)" "N < fuel"
  shows "\<exists>st k t'. uvm_tracker_wait env fuel t = Some (st, k, t') \<and> k \<le> N \<and>
    tracker_inv t' \<and> used t' = [] \<and> tk_max_size t' = tk_max_size t \<and>
    (st = NV_OK \<longrightarrow> all_completed (env k) (used t)) \<and>
    (st \<noteq> NV_OK \<longrightarrow> (\<exists>j < k. error_seen (env j) (used t) st))"
proof -
  from wait_loop_returns[OF assms(1-3), of 0 fuel NV_OK] assms(4) obtain st k t' where
    w: "wait_loop env fuel 0 NV_OK t = Some (st, k, t')" "k \<le> N" "tracker_inv t'" "tk_max_size t' = tk_max_size t"
      "st = NV_OK \<longrightarrow> used t' = [] \<and> all_completed (env k) (used t)"
      "st \<noteq> NV_OK \<longrightarrow> (\<exists>j < k. error_seen (env j) (used t) st)" by auto
  show ?thesis
  proof (cases "st = NV_OK")
    case True
    then show ?thesis using w by (simp add: uvm_tracker_wait_def)
  next
    case False
    then show ?thesis using w clear_inv[of t']
      by (simp add: uvm_tracker_wait_def) (simp add: uvm_tracker_clear_def)
  qed
qed

theorem tracker_wait_correct_witness:
  "\<exists>k t'. uvm_tracker_wait (\<lambda>k. sample_snapshot (if k < 4 then 0 else 7)) 10 (sample_trackers 0) = Some (NV_OK, k, t') \<and>
     used t' = []"
proof -
  let ?env = "\<lambda>k::nat. sample_snapshot (if k < 4 then 0 else 7)"
  have "env_mono ?env" by (simp add: env_mono_def sample_snapshot_def)
  moreover have "all_completed (?env 4) (used (sample_trackers 0))"
    by (simp add: sample_trackers_ok all_completed_def uvm_tracker_is_entry_completed_def sample_snapshot_def)
  ultimately obtain st k t' where w: "uvm_tracker_wait ?env 10 (sample_trackers 0) = Some (st, k, t')"
    "used t' = []" "st \<noteq> NV_OK \<longrightarrow> (\<exists>j < k. error_seen (?env j) (used (sample_trackers 0)) st)"
    using tracker_wait_correct[OF sample_trackers_ok(1), of ?env 4 0 10] by auto
  have "st = NV_OK"
    using w(3) by (auto simp: error_seen_def sample_snapshot_def)
  with w show ?thesis by blast
qed

end
