(* ===== verification/Pushbuffer.thy ===== *)
theory Pushbuffer
  imports Gpu_Semaphore "HOL-Library.Sublist"
begin

text \<open>
  \<^verbatim>\<open>uvm8_pushbuffer.c\<close>: the ring-buffer-like allocator of push memory. A chunk is named by its
  index, a push and a GPFIFO entry by an identifier; the entries belong to the channels and
  are an argument here. The spin lock makes each operation one step. The RM memory is an
  \<open>rm_mem\<close>; procfs entries and printing are left out.
\<close>

section \<open>State\<close>

definition UVM_MAX_PUSH_SIZE :: nat where
  "UVM_MAX_PUSH_SIZE = 128 * 1024"

definition UVM_PUSHBUFFER_CHUNK_SIZE :: nat where
  "UVM_PUSHBUFFER_CHUNK_SIZE = 8 * UVM_MAX_PUSH_SIZE"

definition UVM_PUSHBUFFER_CHUNKS :: nat where
  "UVM_PUSHBUFFER_CHUNKS = 16"

lemma pushbuffer_constants [simp]:
  "UVM_MAX_PUSH_SIZE = 131072" "UVM_PUSHBUFFER_CHUNK_SIZE = 1048576" "UVM_PUSHBUFFER_CHUNKS = 16"
  by (simp_all add: UVM_MAX_PUSH_SIZE_def UVM_PUSHBUFFER_CHUNK_SIZE_def UVM_PUSHBUFFER_CHUNKS_def)

type_synonym push_id = nat
type_synonym gpfifo_id = "nat \<times> nat"
type_synonym push_info_id = "nat \<times> nat"

record uvm_push =
  push_begin :: u64
  push_next :: u64
  push_gpu :: gpu_id
  push_channel :: "nat option"
  channel_tracking_value :: u64
  push_info_index :: u32
  push_flags :: "bool list"

record uvm_push_info =
  pi_filename :: string
  pi_line :: int
  pi_function :: string
  pi_description :: string
  on_complete :: "nat option"
  on_complete_data :: nat

record uvm_gpfifo_entry =
  pushbuffer_offset :: u32
  pushbuffer_size :: u32
  tracking_semaphore_value :: u64
  entry_push_info :: push_info_id

record uvm_pushbuffer_chunk =
  next_push_start :: u32
  pending_gpfifos :: "gpfifo_id list"
  current_push :: "push_id option"

record uvm_pushbuffer =
  pb_memory :: rm_mem
  pb_chunks :: "uvm_pushbuffer_chunk list"
  available_chunks :: "bool list"
  idle_chunks :: "bool list"
  concurrent_pushes_sema :: nat

type_synonym gpfifo_entries = "gpfifo_id \<Rightarrow> uvm_gpfifo_entry"
type_synonym push_infos = "push_info_id \<Rightarrow> uvm_push_info"

section \<open>Chunks\<close>

definition uvm_pushbuffer_create_common ::
  "bool \<Rightarrow> nv_status \<times> rm_mem \<Rightarrow> nv_status \<Rightarrow> nv_status \<times> uvm_pushbuffer option" where
  "uvm_pushbuffer_create_common kvmalloc_ok rm procfs =
     (if \<not> kvmalloc_ok then (NV_ERR_NO_MEMORY, None)
      else
        let (status, memory) = rm
        in if status \<noteq> NV_OK then (status, None)
           else if procfs \<noteq> NV_OK then (procfs, None)
           else (NV_OK, Some \<lparr>pb_memory = memory,
                  pb_chunks = replicate UVM_PUSHBUFFER_CHUNKS
                    \<lparr>next_push_start = 0, pending_gpfifos = [], current_push = None\<rparr>,
                  available_chunks = replicate UVM_PUSHBUFFER_CHUNKS True,
                  idle_chunks = replicate UVM_PUSHBUFFER_CHUNKS True,
                  concurrent_pushes_sema = UVM_PUSHBUFFER_CHUNKS\<rparr>))"

definition get_chunk_in_mask :: "bool list \<Rightarrow> nat option" where
  "get_chunk_in_mask bm =
     (let index = find_first_bit bm in if index = UVM_PUSHBUFFER_CHUNKS then None else Some index)"

definition get_available_chunk :: "uvm_pushbuffer \<Rightarrow> nat option" where
  "get_available_chunk pb = get_chunk_in_mask (available_chunks pb)"

definition get_idle_chunk :: "uvm_pushbuffer \<Rightarrow> nat option" where
  "get_idle_chunk pb = get_chunk_in_mask (idle_chunks pb)"

definition chunk_get_offset :: "nat \<Rightarrow> u32" where
  "chunk_get_offset i = word_of_nat i * word_of_nat UVM_PUSHBUFFER_CHUNK_SIZE"

definition pick_chunk :: "uvm_pushbuffer \<Rightarrow> nat option" where
  "pick_chunk pb = (case get_idle_chunk pb of None \<Rightarrow> get_available_chunk pb | Some i \<Rightarrow> Some i)"

definition set_chunk :: "nat \<Rightarrow> bool list \<Rightarrow> bool list" where
  "set_chunk i bm = bm[i := True]"

definition clear_chunk :: "nat \<Rightarrow> bool list \<Rightarrow> bool list" where
  "clear_chunk i bm = bm[i := False]"

definition try_claim_chunk :: "uvm_pushbuffer \<Rightarrow> push_id \<Rightarrow> nat option \<times> uvm_pushbuffer" where
  "try_claim_chunk pb push =
     (case pick_chunk pb of
        None \<Rightarrow> (None, pb)
      | Some i \<Rightarrow>
          (Some i, pb\<lparr>pb_chunks := (pb_chunks pb)[i := (pb_chunks pb ! i)\<lparr>current_push := Some push\<rparr>],
                      idle_chunks := clear_chunk i (idle_chunks pb),
                      available_chunks := clear_chunk i (available_chunks pb)\<rparr>))"

definition chunk_get_next_push_start_addr :: "uvm_pushbuffer \<Rightarrow> nat \<Rightarrow> u64" where
  "chunk_get_next_push_start_addr pb i =
     rm_cpu_va (pb_memory pb) + ucast (chunk_get_offset i) + ucast (next_push_start (pb_chunks pb ! i))"

definition chunk_get_first_gpfifo :: "uvm_pushbuffer_chunk \<Rightarrow> gpfifo_id option" where
  "chunk_get_first_gpfifo c = (case pending_gpfifos c of [] \<Rightarrow> None | e # _ \<Rightarrow> Some e)"

definition chunk_get_last_gpfifo :: "uvm_pushbuffer_chunk \<Rightarrow> gpfifo_id option" where
  "chunk_get_last_gpfifo c = (if pending_gpfifos c = [] then None else Some (last (pending_gpfifos c)))"

definition chunk_get_cpu_put :: "gpfifo_entries \<Rightarrow> uvm_pushbuffer \<Rightarrow> nat \<Rightarrow> u32" where
  "chunk_get_cpu_put g pb i =
     (case chunk_get_last_gpfifo (pb_chunks pb ! i) of
        Some e \<Rightarrow> pushbuffer_offset (g e) + pushbuffer_size (g e) - chunk_get_offset i
      | None \<Rightarrow> 0)"

definition chunk_get_gpu_get :: "gpfifo_entries \<Rightarrow> uvm_pushbuffer \<Rightarrow> nat \<Rightarrow> u32" where
  "chunk_get_gpu_get g pb i =
     (case chunk_get_first_gpfifo (pb_chunks pb ! i) of
        Some e \<Rightarrow> pushbuffer_offset (g e) - chunk_get_offset i
      | None \<Rightarrow> 0)"

definition set_next_push_start :: "nat \<Rightarrow> u32 \<Rightarrow> uvm_pushbuffer \<Rightarrow> uvm_pushbuffer" where
  "set_next_push_start i p pb =
     pb\<lparr>pb_chunks := (pb_chunks pb)[i := (pb_chunks pb ! i)\<lparr>next_push_start := p\<rparr>]\<rparr>"

definition update_chunk :: "gpfifo_entries \<Rightarrow> uvm_pushbuffer \<Rightarrow> nat \<Rightarrow> uvm_pushbuffer" where
  "update_chunk g pb i =
     (let gpu_get = chunk_get_gpu_get g pb i;
          cpu_put = chunk_get_cpu_put g pb i
      in if gpu_get = cpu_put then
           if pending_gpfifos (pb_chunks pb ! i) \<noteq> [] then pb
           else set_next_push_start i 0
                  (pb\<lparr>idle_chunks := set_chunk i (idle_chunks pb),
                      available_chunks := set_chunk i (available_chunks pb)\<rparr>)
         else if cpu_put < gpu_get then
           if word_of_nat UVM_MAX_PUSH_SIZE \<le> gpu_get - cpu_put
           then set_next_push_start i cpu_put (pb\<lparr>available_chunks := set_chunk i (available_chunks pb)\<rparr>)
           else pb
         else if cpu_put + word_of_nat UVM_MAX_PUSH_SIZE \<le> word_of_nat UVM_PUSHBUFFER_CHUNK_SIZE
           then set_next_push_start i cpu_put (pb\<lparr>available_chunks := set_chunk i (available_chunks pb)\<rparr>)
         else if word_of_nat UVM_MAX_PUSH_SIZE \<le> gpu_get
           then set_next_push_start i 0 (pb\<lparr>available_chunks := set_chunk i (available_chunks pb)\<rparr>)
         else pb)"

section \<open>Operations\<close>

text \<open>
  Claiming a chunk. \<open>progress k\<close> is what happens in the \<open>k\<close>th iteration between two attempts:
  other threads, and \<^verbatim>\<open>uvm_channel_manager_check_errors\<close> (its status) and
  \<^verbatim>\<open>uvm_channel_manager_update_progress\<close>, which complete entries of this pushbuffer.
\<close>

fun claim_loop ::
  "(nat \<Rightarrow> uvm_pushbuffer \<Rightarrow> nv_status \<times> uvm_pushbuffer) \<Rightarrow> nat \<Rightarrow> nat \<Rightarrow> nv_status \<Rightarrow> uvm_pushbuffer \<Rightarrow>
   push_id \<Rightarrow> (nv_status \<times> nat option \<times> uvm_pushbuffer) option" where
  "claim_loop progress 0 k status pb push = None"
| "claim_loop progress (Suc fuel) k status pb push =
     (let (chunk, pb) = try_claim_chunk pb push
      in if chunk = None \<and> status = NV_OK
         then let (status, pb) = progress k pb in claim_loop progress fuel (Suc k) status pb push
         else Some (status, chunk, pb))"

definition claim_chunk ::
  "(nat \<Rightarrow> uvm_pushbuffer \<Rightarrow> nv_status \<times> uvm_pushbuffer) \<Rightarrow> nat \<Rightarrow> uvm_pushbuffer \<Rightarrow> push_id \<Rightarrow>
   (nv_status \<times> nat option \<times> uvm_pushbuffer) option" where
  "claim_chunk progress fuel pb push =
     (let (chunk, pb) = try_claim_chunk pb push
      in if chunk \<noteq> None then Some (NV_OK, chunk, pb)
         else claim_loop progress fuel 1 NV_OK (snd (progress 0 pb)) push)"

text \<open>\<open>None\<close> also stands for \<^verbatim>\<open>uvm_down\<close> blocking on a semaphore at 0.\<close>

definition uvm_pushbuffer_begin_push ::
  "(nat \<Rightarrow> uvm_pushbuffer \<Rightarrow> nv_status \<times> uvm_pushbuffer) \<Rightarrow> nat \<Rightarrow> uvm_pushbuffer \<Rightarrow> push_id \<Rightarrow> uvm_push \<Rightarrow>
   (nv_status \<times> uvm_push \<times> uvm_pushbuffer) option" where
  "uvm_pushbuffer_begin_push progress fuel pb push_id push =
     (if concurrent_pushes_sema pb = 0 then None
      else
        let pb = pb\<lparr>concurrent_pushes_sema := concurrent_pushes_sema pb - 1\<rparr>
        in case claim_chunk progress fuel pb push_id of
             None \<Rightarrow> None
           | Some (status, chunk, pb) \<Rightarrow>
               if status \<noteq> NV_OK
               then Some (status, push, pb\<lparr>concurrent_pushes_sema := concurrent_pushes_sema pb + 1\<rparr>)
               else (case chunk of
                       None \<Rightarrow> None
                     | Some i \<Rightarrow>
                         let begin = chunk_get_next_push_start_addr pb i
                         in Some (NV_OK, push\<lparr>push_begin := begin, push_next := begin\<rparr>, pb)))"

definition offset_to_chunk :: "u32 \<Rightarrow> nat" where
  "offset_to_chunk offset = unat (offset div word_of_nat UVM_PUSHBUFFER_CHUNK_SIZE)"

definition gpfifo_to_chunk :: "gpfifo_entries \<Rightarrow> gpfifo_id \<Rightarrow> nat" where
  "gpfifo_to_chunk g e = offset_to_chunk (pushbuffer_offset (g e))"

text \<open>The callback called, with its data, is returned as well.\<close>

definition uvm_pushbuffer_mark_completed ::
  "gpfifo_entries \<Rightarrow> uvm_pushbuffer \<Rightarrow> push_infos \<Rightarrow> gpfifo_id \<Rightarrow>
   (nat \<times> nat) option \<times> uvm_pushbuffer \<times> push_infos" where
  "uvm_pushbuffer_mark_completed g pb infos gpfifo =
     (let i = gpfifo_to_chunk g gpfifo;
          chunk = pb_chunks pb ! i;
          info = infos (entry_push_info (g gpfifo));
          called = map_option (\<lambda>f. (f, on_complete_data info)) (on_complete info);
          infos' = infos(entry_push_info (g gpfifo) := info\<lparr>on_complete := None, on_complete_data := 0\<rparr>);
          need_to_update_chunk =
            (chunk_get_first_gpfifo chunk = Some gpfifo \<or> chunk_get_last_gpfifo chunk = Some gpfifo);
          chunk' = chunk\<lparr>pending_gpfifos := remove1 gpfifo (pending_gpfifos chunk)\<rparr>;
          pb' = pb\<lparr>pb_chunks := (pb_chunks pb)[i := chunk']\<rparr>
      in (called,
          if need_to_update_chunk \<and> current_push chunk' = None then update_chunk g pb' i else pb',
          infos'))"

definition uvm_pushbuffer_get_offset_for_push :: "uvm_pushbuffer \<Rightarrow> uvm_push \<Rightarrow> u32" where
  "uvm_pushbuffer_get_offset_for_push pb push = ucast (push_begin push - rm_cpu_va (pb_memory pb))"

definition uvm_pushbuffer_get_gpu_va_for_push :: "uvm_pushbuffer \<Rightarrow> uvm_push \<Rightarrow> u64" where
  "uvm_pushbuffer_get_gpu_va_for_push pb push =
     rm_gpu_va (pb_memory pb) (push_gpu push) + ucast (uvm_pushbuffer_get_offset_for_push pb push)"

definition uvm_pushbuffer_end_push :: "gpfifo_entries \<Rightarrow> uvm_pushbuffer \<Rightarrow> gpfifo_id \<Rightarrow> uvm_pushbuffer" where
  "uvm_pushbuffer_end_push g pb gpfifo =
     (let i = gpfifo_to_chunk g gpfifo;
          chunk = pb_chunks pb ! i;
          pb = pb\<lparr>pb_chunks := (pb_chunks pb)[i := chunk\<lparr>pending_gpfifos := pending_gpfifos chunk @ [gpfifo]\<rparr>]\<rparr>;
          pb = update_chunk g pb i;
          pb = pb\<lparr>pb_chunks := (pb_chunks pb)[i := (pb_chunks pb ! i)\<lparr>current_push := None\<rparr>]\<rparr>
      in pb\<lparr>concurrent_pushes_sema := concurrent_pushes_sema pb + 1\<rparr>)"

definition uvm_pushbuffer_has_space :: "uvm_pushbuffer \<Rightarrow> bool" where
  "uvm_pushbuffer_has_space pb \<longleftrightarrow> pick_chunk pb \<noteq> None"

section \<open>Layout of a chunk\<close>

text \<open>
  The pending pushes of a chunk as intervals of offsets, in the order they were added: an
  ascending run, or an ascending run in the upper part followed by one that started again at
  the bottom. \<open>fits L p\<close>: the next push can take the \<^verbatim>\<open>UVM_MAX_PUSH_SIZE\<close> bytes at \<open>p\<close>.
\<close>

definition asc :: "(nat \<times> nat) list \<Rightarrow> bool" where
  "asc L \<longleftrightarrow> (\<forall>x \<in> set L. fst x < snd x \<and> snd x \<le> UVM_PUSHBUFFER_CHUNK_SIZE) \<and>
     sorted_wrt (\<lambda>a b. snd a \<le> fst b) L"

definition layout :: "(nat \<times> nat) list \<Rightarrow> bool" where
  "layout L \<longleftrightarrow> (\<exists>L1 L2. L = L1 @ L2 \<and> asc L1 \<and> asc L2 \<and> (\<forall>a \<in> set L1. \<forall>b \<in> set L2. snd b \<le> fst a))"

definition fits :: "(nat \<times> nat) list \<Rightarrow> nat \<Rightarrow> bool" where
  "fits L p \<longleftrightarrow> (\<exists>L1 L2. L = L1 @ L2 \<and> asc L1 \<and> asc L2 \<and> (\<forall>a \<in> set L1. \<forall>b \<in> set L2. snd b \<le> fst a) \<and>
     (\<forall>a \<in> set L1. p + UVM_MAX_PUSH_SIZE \<le> fst a) \<and> (\<forall>b \<in> set L2. snd b \<le> p) \<and>
     p + UVM_MAX_PUSH_SIZE \<le> UVM_PUSHBUFFER_CHUNK_SIZE)"

lemma asc_simps [simp]: "asc []" "asc (x # L) \<longleftrightarrow> fst x < snd x \<and> snd x \<le> 1048576 \<and> (\<forall>y \<in> set L. snd x \<le> fst y) \<and> asc L"
  by (auto simp: asc_def)

lemma asc_append: "asc (L @ M) \<longleftrightarrow> asc L \<and> asc M \<and> (\<forall>a \<in> set L. \<forall>b \<in> set M. snd a \<le> fst b)"
  by (auto simp: asc_def sorted_wrt_append)

lemma asc_subseq: "subseq L M \<Longrightarrow> asc M \<Longrightarrow> asc L"
proof (induction rule: list_emb.induct)
  case (list_emb_Cons2 x y xs ys)
  then show ?case using list_emb_set[of "(=)" xs ys] by auto
qed auto

lemma asc_last: "asc L \<Longrightarrow> b \<in> set L \<Longrightarrow> snd b \<le> snd (last L)"
proof (induction L)
  case (Cons x L)
  show ?case
  proof (cases "b \<in> set L")
    case True
    then show ?thesis using Cons by auto
  next
    case False
    with Cons.prems have "b = x" by simp
    show ?thesis
    proof (cases "L = []")
      case False
      then have "snd x \<le> fst (last L)" "fst (last L) < snd (last L)"
        using Cons.prems(1) last_in_set[OF False] by (auto simp: asc_def)
      with False \<open>b = x\<close> show ?thesis by simp
    qed (simp add: \<open>b = x\<close>)
  qed
qed simp

lemma asc_hd: "asc L \<Longrightarrow> a \<in> set L \<Longrightarrow> fst (hd L) \<le> fst a"
  by (cases L) auto

lemma subseq_set: "subseq L M \<Longrightarrow> set L \<subseteq> set M"
  using list_emb_set[of "(=)" L M] by blast

lemma fits_subseq: "subseq L M \<Longrightarrow> fits M p \<Longrightarrow> fits L p"
proof -
  assume s: "subseq L M" and "fits M p"
  then obtain M1 M2 where M: "M = M1 @ M2" "asc M1" "asc M2" "\<forall>a \<in> set M1. \<forall>b \<in> set M2. snd b \<le> fst a"
    "\<forall>a \<in> set M1. p + UVM_MAX_PUSH_SIZE \<le> fst a" "\<forall>b \<in> set M2. snd b \<le> p"
    "p + UVM_MAX_PUSH_SIZE \<le> UVM_PUSHBUFFER_CHUNK_SIZE" unfolding fits_def by blast
  from s obtain L1 L2 where L: "L = L1 @ L2" "subseq L1 M1" "subseq L2 M2"
    unfolding M(1) by (rule subseq_appendE)
  have "asc L1" "asc L2" using L M asc_subseq by blast+
  with L M subseq_set[OF L(2)] subseq_set[OF L(3)] show "fits L p"
    unfolding fits_def by (intro exI[of _ L1] exI[of _ L2]) blast
qed

lemma layout_subseq: "subseq L M \<Longrightarrow> layout M \<Longrightarrow> layout L"
proof -
  assume s: "subseq L M" and "layout M"
  then obtain M1 M2 where M: "M = M1 @ M2" "asc M1" "asc M2" "\<forall>a \<in> set M1. \<forall>b \<in> set M2. snd b \<le> fst a"
    unfolding layout_def by blast
  from s obtain L1 L2 where L: "L = L1 @ L2" "subseq L1 M1" "subseq L2 M2"
    unfolding M(1) by (rule subseq_appendE)
  have "asc L1" "asc L2" using L M asc_subseq by blast+
  with L M subseq_set[OF L(2)] subseq_set[OF L(3)] show "layout L"
    unfolding layout_def by (intro exI[of _ L1] exI[of _ L2]) blast
qed

text \<open>Adding a push where it fits.\<close>

lemma fits_snoc:
  assumes "fits L p" "0 < s" "s \<le> UVM_MAX_PUSH_SIZE"
  shows "layout (L @ [(p, p + s)])"
proof -
  from assms(1) obtain L1 L2 where L: "L = L1 @ L2" "asc L1" "asc L2" "\<forall>a \<in> set L1. \<forall>b \<in> set L2. snd b \<le> fst a"
    "\<forall>a \<in> set L1. p + UVM_MAX_PUSH_SIZE \<le> fst a" "\<forall>b \<in> set L2. snd b \<le> p"
    "p + UVM_MAX_PUSH_SIZE \<le> UVM_PUSHBUFFER_CHUNK_SIZE" unfolding fits_def by blast
  have "asc (L2 @ [(p, p + s)])" using L assms(2,3) by (auto simp: asc_append)
  moreover have "\<forall>a \<in> set L1. \<forall>b \<in> set (L2 @ [(p, p + s)]). snd b \<le> fst a"
    using L(4,5) assms(3) by (fastforce intro: order_trans)
  ultimately show ?thesis
    unfolding layout_def L(1) using L(2) by (intro exI[of _ L1] exI[of _ "L2 @ [(p, p + s)]"]) simp
qed

lemma fits_layout: "fits L p \<Longrightarrow> layout L"
  unfolding fits_def layout_def by blast

text \<open>The positions \<^verbatim>\<open>update_chunk\<close> chooses.\<close>

lemma fits_empty: "p + UVM_MAX_PUSH_SIZE \<le> UVM_PUSHBUFFER_CHUNK_SIZE \<Longrightarrow> fits [] p"
  by (simp add: fits_def)

lemma fits_wrapped:
  assumes "layout L" "L \<noteq> []" "snd (last L) < fst (hd L)" "UVM_MAX_PUSH_SIZE \<le> fst (hd L) - snd (last L)"
  shows "fits L (snd (last L))"
proof -
  from assms(1) obtain L1 L2 where L: "L = L1 @ L2" "asc L1" "asc L2" "\<forall>a \<in> set L1. \<forall>b \<in> set L2. snd b \<le> fst a"
    unfolding layout_def by blast
  have rising: "fst (hd K) < snd (last K)" if "asc K" "K \<noteq> []" for K
    using asc_last[OF that(1), of "hd K"] that by (cases K) auto
  have "L1 \<noteq> []" "L2 \<noteq> []" using rising[of L] rising[OF L(2)] rising[OF L(3)] assms(2,3) L by auto
  then have hl: "hd L = hd L1" "last L = last L2" by (simp_all add: L(1))
  have "snd (last L) + UVM_MAX_PUSH_SIZE \<le> fst (hd L)" using assms(3,4) by simp
  then have le: "snd (last L2) + UVM_MAX_PUSH_SIZE \<le> fst (hd L1)" by (simp only: hl)
  have "fst (hd L1) \<le> UVM_PUSHBUFFER_CHUNK_SIZE" using L(2) \<open>L1 \<noteq> []\<close> by (cases L1) auto
  with le have c: "snd (last L2) + UVM_MAX_PUSH_SIZE \<le> UVM_PUSHBUFFER_CHUNK_SIZE" by (rule order_trans)
  have "\<forall>a \<in> set L1. snd (last L2) + UVM_MAX_PUSH_SIZE \<le> fst a"
    using le asc_hd[OF L(2)] by (blast intro: order_trans)
  moreover have "\<forall>b \<in> set L2. snd b \<le> snd (last L2)" using asc_last[OF L(3)] by blast
  ultimately show ?thesis
    unfolding fits_def hl(2) using L c by blast
qed

lemma layout_unwrapped:
  assumes "layout L" "L \<noteq> []" "fst (hd L) < snd (last L)"
  shows "asc L"
proof -
  from assms(1) obtain L1 L2 where L: "L = L1 @ L2" "asc L1" "asc L2" "\<forall>a \<in> set L1. \<forall>b \<in> set L2. snd b \<le> fst a"
    unfolding layout_def by blast
  show ?thesis
  proof (cases "L1 = [] \<or> L2 = []")
    case True
    then show ?thesis using L by auto
  next
    case False
    then have "hd L1 \<in> set L1" "last L2 \<in> set L2" by auto
    with L(4) have "snd (last L2) \<le> fst (hd L1)" by blast
    with False assms(3) show ?thesis by (simp add: L(1))
  qed
qed

lemma fits_at_end:
  assumes "layout L" "L \<noteq> []" "fst (hd L) < snd (last L)"
    and "snd (last L) + UVM_MAX_PUSH_SIZE \<le> UVM_PUSHBUFFER_CHUNK_SIZE"
  shows "fits L (snd (last L))"
  unfolding fits_def using layout_unwrapped[OF assms(1-3)] asc_last assms(4)
  by (intro exI[of _ "[]"] exI[of _ L]) auto

lemma fits_at_start:
  assumes "layout L" "L \<noteq> []" "fst (hd L) < snd (last L)" "UVM_MAX_PUSH_SIZE \<le> fst (hd L)"
  shows "fits L 0"
  unfolding fits_def using layout_unwrapped[OF assms(1-3)] asc_hd assms(4)
  by (intro exI[of _ L] exI[of _ "[]"]) (fastforce intro: order_trans)

text \<open>What a layout guarantees.\<close>

lemma layout_disjoint:
  assumes "layout (map f xs)" "x \<in> set xs" "y \<in> set xs" "x \<noteq> y"
  shows "snd (f x) \<le> fst (f y) \<or> snd (f y) \<le> fst (f x)"
proof -
  from assms(1) have "sorted_wrt (\<lambda>a b. snd a \<le> fst b \<or> snd b \<le> fst a) (map f xs)"
    unfolding layout_def
    by (auto simp: asc_def sorted_wrt_append elim: sorted_wrt_mono_rel[rotated])
  then have s: "sorted_wrt (\<lambda>a b. snd (f a) \<le> fst (f b) \<or> snd (f b) \<le> fst (f a)) xs"
    by (simp add: sorted_wrt_map)
  from assms(2,3) obtain i j where "i < length xs" "j < length xs" "x = xs ! i" "y = xs ! j"
    by (auto simp: in_set_conv_nth)
  with s assms(4) show ?thesis
    by (cases i j rule: linorder_cases) (auto dest: sorted_wrt_nth_less)
qed

lemma fits_apart: "fits L p \<Longrightarrow> x \<in> set L \<Longrightarrow> snd x \<le> p \<or> p + UVM_MAX_PUSH_SIZE \<le> fst x"
  unfolding fits_def by auto

lemma layout_bounds: "layout L \<Longrightarrow> x \<in> set L \<Longrightarrow> fst x < snd x \<and> snd x \<le> UVM_PUSHBUFFER_CHUNK_SIZE"
  unfolding layout_def asc_def by auto

lemma subseq_remove1: "subseq (remove1 x xs) xs"
  by (induction xs) auto

section \<open>Updating a chunk\<close>

definition span :: "gpfifo_entries \<Rightarrow> nat \<Rightarrow> gpfifo_id \<Rightarrow> nat \<times> nat" where
  "span g i e =
     (unat (pushbuffer_offset (g e)) - i * UVM_PUSHBUFFER_CHUNK_SIZE,
      unat (pushbuffer_offset (g e)) + unat (pushbuffer_size (g e)) - i * UVM_PUSHBUFFER_CHUNK_SIZE)"

definition inside :: "gpfifo_entries \<Rightarrow> nat \<Rightarrow> gpfifo_id \<Rightarrow> bool" where
  "inside g i e \<longleftrightarrow> i * UVM_PUSHBUFFER_CHUNK_SIZE \<le> unat (pushbuffer_offset (g e)) \<and>
     unat (pushbuffer_offset (g e)) + unat (pushbuffer_size (g e)) \<le> (i + 1) * UVM_PUSHBUFFER_CHUNK_SIZE"

lemma span_cong: "e \<noteq> x \<Longrightarrow> span (g(x := v)) i e = span g i e" "e \<noteq> x \<Longrightarrow> inside (g(x := v)) i e = inside g i e"
  by (simp_all add: span_def inside_def)

lemma unat_chunk_offset: "i < 16 \<Longrightarrow> unat (chunk_get_offset i) = i * 1048576"
proof -
  assume i: "i < 16"
  have e: "chunk_get_offset i = word_of_nat (i * 1048576)" by (simp add: chunk_get_offset_def)
  show ?thesis unfolding e by (rule unat_of_nat_u32) (use i in simp)
qed

lemma unat_minus_le: "(b::'a::len word) \<le> a \<Longrightarrow> unat (a - b) = unat a - unat b"
  by (simp add: unat_sub_if' word_le_nat_alt)

lemma unat_plus_u32: "unat (a::u32) + unat b < 2 ^ 32 \<Longrightarrow> unat (a + b) = unat a + unat b"
  by (simp add: unat_word_ariths mod_less)

lemma unat_get:
  assumes i: "i < 16" and ins: "inside g i e"
  shows "unat (pushbuffer_offset (g e) - chunk_get_offset i) = fst (span g i e)"
    "unat (pushbuffer_offset (g e) + pushbuffer_size (g e) - chunk_get_offset i) = snd (span g i e)"
proof -
  have o: "unat (chunk_get_offset i) = i * 1048576" using unat_chunk_offset[OF i] .
  have "(i + 1) * UVM_PUSHBUFFER_CHUNK_SIZE \<le> 16777216" using i by simp
  then have s: "unat (pushbuffer_offset (g e) + pushbuffer_size (g e)) =
      unat (pushbuffer_offset (g e)) + unat (pushbuffer_size (g e))"
    using ins by (intro unat_plus_u32) (simp add: inside_def)
  have "chunk_get_offset i \<le> pushbuffer_offset (g e)"
    "chunk_get_offset i \<le> pushbuffer_offset (g e) + pushbuffer_size (g e)"
    using ins by (simp_all add: inside_def word_le_nat_alt o s)
  then show "unat (pushbuffer_offset (g e) - chunk_get_offset i) = fst (span g i e)"
    "unat (pushbuffer_offset (g e) + pushbuffer_size (g e) - chunk_get_offset i) = snd (span g i e)"
    by (simp_all add: unat_minus_le o s span_def)
qed

text \<open>Either nothing changes, or the chunk becomes available at a place where a push fits.\<close>

lemma update_chunk_cases:
  assumes i: "i < 16" and pend: "pending_gpfifos (pb_chunks pb ! i) = es"
    and ins: "\<forall>e \<in> set es. inside g i e" and lay: "layout (map (span g i) es)"
  shows "update_chunk g pb i = pb \<and> es \<noteq> [] \<or>
    (\<exists>p. fits (map (span g i) es) (unat p) \<and>
       update_chunk g pb i = set_next_push_start i p
         (pb\<lparr>idle_chunks := if es = [] then set_chunk i (idle_chunks pb) else idle_chunks pb,
             available_chunks := set_chunk i (available_chunks pb)\<rparr>))"
proof (cases "es = []")
  case True
  then have "chunk_get_gpu_get g pb i = 0" "chunk_get_cpu_put g pb i = 0"
    by (simp_all add: chunk_get_gpu_get_def chunk_get_cpu_put_def chunk_get_first_gpfifo_def
        chunk_get_last_gpfifo_def pend)
  then show ?thesis using True pend fits_empty[of 0]
    by (intro disjI2 exI[of _ 0]) (simp add: update_chunk_def Let_def)
next
  case False
  define get where "get = chunk_get_gpu_get g pb i"
  define put where "put = chunk_get_cpu_put g pb i"
  let ?L = "map (span g i) es"
  have L: "?L \<noteq> []" using False by simp
  have "hd es \<in> set es" "last es \<in> set es" using False by simp_all
  then have g: "unat get = fst (hd ?L)" and p: "unat put = snd (last ?L)"
    using False ins unat_get[OF i]
    by (auto simp: get_def put_def chunk_get_gpu_get_def chunk_get_cpu_put_def chunk_get_first_gpfifo_def
        chunk_get_last_gpfifo_def pend hd_map last_map split: list.splits)
  have pC: "unat put \<le> 1048576" using layout_bounds[OF lay last_in_set[OF L]] by (simp add: p)
  have M: "unat (word_of_nat UVM_MAX_PUSH_SIZE :: u32) = 131072" "unat (word_of_nat UVM_PUSHBUFFER_CHUNK_SIZE :: u32) = 1048576"
    by simp_all
  have pM: "unat (put + word_of_nat UVM_MAX_PUSH_SIZE) = unat put + 131072"
    using unat_plus_u32[of put "word_of_nat UVM_MAX_PUSH_SIZE"] pC by simp
  have u: "update_chunk g pb i =
      (if get = put then pb
       else if put < get then
         if word_of_nat UVM_MAX_PUSH_SIZE \<le> get - put
         then set_next_push_start i put (pb\<lparr>available_chunks := set_chunk i (available_chunks pb)\<rparr>) else pb
       else if put + word_of_nat UVM_MAX_PUSH_SIZE \<le> word_of_nat UVM_PUSHBUFFER_CHUNK_SIZE
         then set_next_push_start i put (pb\<lparr>available_chunks := set_chunk i (available_chunks pb)\<rparr>)
       else if word_of_nat UVM_MAX_PUSH_SIZE \<le> get
         then set_next_push_start i 0 (pb\<lparr>available_chunks := set_chunk i (available_chunks pb)\<rparr>)
       else pb)"
    using False by (simp add: update_chunk_def Let_def pend get_def put_def)
  have set_p: ?thesis if "fits ?L (unat q)"
    "update_chunk g pb i = set_next_push_start i q (pb\<lparr>available_chunks := set_chunk i (available_chunks pb)\<rparr>)" for q
    using that False by (intro disjI2 exI[of _ q]) simp
  consider (eq) "get = put" | (wrap) "put < get" | (norm) "get < put" by (meson linorder_cases)
  then show ?thesis
  proof cases
    case eq
    then show ?thesis using u False by simp
  next
    case wrap
    then have w: "snd (last ?L) < fst (hd ?L)" "get \<noteq> put" using g p by (auto simp: word_less_nat_alt)
    show ?thesis
    proof (cases "word_of_nat UVM_MAX_PUSH_SIZE \<le> get - put")
      case True
      then have "131072 \<le> unat get - unat put"
        using wrap M by (simp only: word_le_nat_alt unat_minus_le[OF less_imp_le[OF wrap]])
      then have "fits ?L (unat put)" using fits_wrapped[OF lay L w(1)] by (simp only: g p pushbuffer_constants)
      then show ?thesis using u w(2) wrap True by (intro set_p[of put]) simp_all
    next
      case False
      then show ?thesis using u w(2) wrap \<open>es \<noteq> []\<close> by simp
    qed
  next
    case norm
    then have w: "fst (hd ?L) < snd (last ?L)" "get \<noteq> put" "\<not> put < get" using g p by (auto simp: word_less_nat_alt)
    show ?thesis
    proof (cases "put + word_of_nat UVM_MAX_PUSH_SIZE \<le> word_of_nat UVM_PUSHBUFFER_CHUNK_SIZE")
      case True
      then have "unat put + 131072 \<le> 1048576" by (simp only: word_le_nat_alt pM M)
      then have "fits ?L (unat put)" using fits_at_end[OF lay L w(1)] by (simp only: p pushbuffer_constants)
      then show ?thesis using u w(2,3) True by (intro set_p[of put]) simp_all
    next
      case not_end: False
      show ?thesis
      proof (cases "word_of_nat UVM_MAX_PUSH_SIZE \<le> get")
        case True
        then have "131072 \<le> unat get" by (simp only: word_le_nat_alt M)
        then have "fits ?L 0" using fits_at_start[OF lay L w(1)] by (simp only: g pushbuffer_constants)
        then show ?thesis using u w(2,3) not_end True by (intro set_p[of 0]) simp_all
      next
        case False
        then show ?thesis using u w(2,3) not_end \<open>es \<noteq> []\<close> by simp
      qed
    qed
  qed
qed

section \<open>A pushbuffer in use\<close>

text \<open>
  The pushbuffer with the GPFIFO entries, push infos and on-going pushes around it, and the
  steps threads take: beginning a push (the claim that succeeds; earlier attempts are steps of
  others), ending it, with the space it used, in an entry that is not pending, and noticing
  that a pending entry completed.
\<close>

record pb_system =
  sys_pb :: uvm_pushbuffer
  sys_entries :: gpfifo_entries
  sys_infos :: push_infos
  sys_pushes :: "push_id \<Rightarrow> uvm_push"

definition chunk_of :: "pb_system \<Rightarrow> nat \<Rightarrow> uvm_pushbuffer_chunk" where
  "chunk_of s i = pb_chunks (sys_pb s) ! i"

definition ongoing :: "pb_system \<Rightarrow> push_id \<Rightarrow> bool" where
  "ongoing s p \<longleftrightarrow> (\<exists>i < UVM_PUSHBUFFER_CHUNKS. current_push (chunk_of s i) = Some p)"

definition pending :: "pb_system \<Rightarrow> gpfifo_id \<Rightarrow> bool" where
  "pending s e \<longleftrightarrow> (\<exists>i < UVM_PUSHBUFFER_CHUNKS. e \<in> set (pending_gpfifos (chunk_of s i)))"

inductive pb_step :: "pb_system \<Rightarrow> pb_system \<Rightarrow> bool" where
  begin_push: "\<not> ongoing s p \<Longrightarrow>
    uvm_pushbuffer_begin_push progress 1 (sys_pb s) p push = Some (NV_OK, push', pb') \<Longrightarrow>
    pick_chunk (sys_pb s) \<noteq> None \<Longrightarrow>
    pb_step s (s\<lparr>sys_pb := pb', sys_pushes := (sys_pushes s)(p := push')\<rparr>)"
| end_push: "ongoing s p \<Longrightarrow> \<not> pending s e \<Longrightarrow> 0 < pushbuffer_size entry \<Longrightarrow>
    unat (pushbuffer_size entry) \<le> UVM_MAX_PUSH_SIZE \<Longrightarrow>
    pushbuffer_offset entry = uvm_pushbuffer_get_offset_for_push (sys_pb s) (sys_pushes s p) \<Longrightarrow>
    g = (sys_entries s)(e := entry) \<Longrightarrow>
    pb_step s (s\<lparr>sys_pb := uvm_pushbuffer_end_push g (sys_pb s) e, sys_entries := g\<rparr>)"
| complete: "pending s e \<Longrightarrow>
    uvm_pushbuffer_mark_completed (sys_entries s) (sys_pb s) (sys_infos s) e = (called, pb', infos') \<Longrightarrow>
    pb_step s (s\<lparr>sys_pb := pb', sys_infos := infos'\<rparr>)"

inductive pb_reachable :: "pb_system \<Rightarrow> bool" where
  created: "uvm_pushbuffer_create_common True (NV_OK, m) NV_OK = (NV_OK, Some (sys_pb s)) \<Longrightarrow>
    unat (rm_cpu_va m) + UVM_PUSHBUFFER_CHUNKS * UVM_PUSHBUFFER_CHUNK_SIZE \<le> 2 ^ 64 \<Longrightarrow> pb_reachable s"
| step: "pb_reachable s \<Longrightarrow> pb_step s s' \<Longrightarrow> pb_reachable s'"

section \<open>Invariant\<close>

definition chunk_ok :: "pb_system \<Rightarrow> nat \<Rightarrow> bool" where
  "chunk_ok s i \<longleftrightarrow>
     (let c = chunk_of s i; L = map (span (sys_entries s) i) (pending_gpfifos c)
      in (\<forall>e \<in> set (pending_gpfifos c). inside (sys_entries s) i e) \<and> layout L \<and>
         (available_chunks (sys_pb s) ! i \<longrightarrow> current_push c = None \<and> fits L (unat (next_push_start c))) \<and>
         (idle_chunks (sys_pb s) ! i \<longleftrightarrow> pending_gpfifos c = [] \<and> current_push c = None) \<and>
         (idle_chunks (sys_pb s) ! i \<longrightarrow> available_chunks (sys_pb s) ! i) \<and>
         (\<forall>p. current_push c = Some p \<longrightarrow> fits L (unat (next_push_start c)) \<and>
            push_begin (sys_pushes s p) = chunk_get_next_push_start_addr (sys_pb s) i))"

definition pb_inv :: "pb_system \<Rightarrow> bool" where
  "pb_inv s \<longleftrightarrow> length (pb_chunks (sys_pb s)) = 16 \<and> length (available_chunks (sys_pb s)) = 16 \<and>
     length (idle_chunks (sys_pb s)) = 16 \<and>
     unat (rm_cpu_va (pb_memory (sys_pb s))) + UVM_PUSHBUFFER_CHUNKS * UVM_PUSHBUFFER_CHUNK_SIZE \<le> 2 ^ 64 \<and>
     (\<forall>i < 16. chunk_ok s i) \<and>
     (\<forall>i < 16. \<forall>j < 16. i \<noteq> j \<longrightarrow> current_push (chunk_of s i) \<noteq> None \<longrightarrow>
        current_push (chunk_of s i) \<noteq> current_push (chunk_of s j)) \<and>
     concurrent_pushes_sema (sys_pb s) + card {i. i < 16 \<and> current_push (chunk_of s i) \<noteq> None} = 16"

lemma created_inv:
  assumes "uvm_pushbuffer_create_common True (NV_OK, m) NV_OK = (NV_OK, Some (sys_pb s))"
    and "unat (rm_cpu_va m) + UVM_PUSHBUFFER_CHUNKS * UVM_PUSHBUFFER_CHUNK_SIZE \<le> 2 ^ 64"
  shows "pb_inv s"
proof -
  have pb: "sys_pb s = \<lparr>pb_memory = m, pb_chunks = replicate 16 \<lparr>next_push_start = 0, pending_gpfifos = [], current_push = None\<rparr>,
      available_chunks = replicate 16 True, idle_chunks = replicate 16 True, concurrent_pushes_sema = 16\<rparr>"
    using assms(1) by (simp add: uvm_pushbuffer_create_common_def)
  have c: "chunk_of s i = \<lparr>next_push_start = 0, pending_gpfifos = [], current_push = None\<rparr>" if "i < 16" for i
    using that by (simp add: chunk_of_def pb)
  have "chunk_ok s i" if "i < 16" for i
    using that fits_empty[of 0] fits_layout[of "[]" 0] by (simp add: chunk_ok_def Let_def c) (simp add: pb)
  then show ?thesis using assms(2) by (simp add: pb_inv_def c pb)
qed

text \<open>What a claim picks.\<close>

lemma pick_chunk_sema [simp]: "pick_chunk (pb\<lparr>concurrent_pushes_sema := x\<rparr>) = pick_chunk pb"
  by (simp add: pick_chunk_def get_idle_chunk_def get_available_chunk_def split: option.split)

lemma get_chunk_in_mask_Some: "length bm = 16 \<Longrightarrow> get_chunk_in_mask bm = Some i \<Longrightarrow> i < 16 \<and> bm ! i"
  using find_first_bit_le[of bm] find_first_bit_set[of bm]
  by (auto simp: get_chunk_in_mask_def Let_def split: if_splits)

lemma get_chunk_in_mask_None: "length bm = 16 \<Longrightarrow> get_chunk_in_mask bm = None \<longleftrightarrow> (\<forall>i < 16. \<not> bm ! i)"
  using find_first_bit_none[of bm] by (simp add: get_chunk_in_mask_def Let_def)

lemma pick_chunk_Some:
  assumes "pb_inv s" "pick_chunk (sys_pb s) = Some i"
  shows "i < 16 \<and> available_chunks (sys_pb s) ! i"
proof -
  have l: "length (available_chunks (sys_pb s)) = 16" "length (idle_chunks (sys_pb s)) = 16"
    and ok: "j < 16 \<Longrightarrow> idle_chunks (sys_pb s) ! j \<Longrightarrow> available_chunks (sys_pb s) ! j" for j
    using assms(1) by (auto simp: pb_inv_def chunk_ok_def Let_def)
  show ?thesis using assms(2) get_chunk_in_mask_Some[OF l(1)] get_chunk_in_mask_Some[OF l(2)] ok
    by (auto simp: pick_chunk_def get_idle_chunk_def get_available_chunk_def split: option.splits)
qed

lemma pick_chunk_None:
  assumes "pb_inv s"
  shows "pick_chunk (sys_pb s) = None \<longleftrightarrow> (\<forall>i < 16. \<not> available_chunks (sys_pb s) ! i)"
proof -
  have l: "length (available_chunks (sys_pb s)) = 16" "length (idle_chunks (sys_pb s)) = 16"
    and ok: "j < 16 \<Longrightarrow> idle_chunks (sys_pb s) ! j \<Longrightarrow> available_chunks (sys_pb s) ! j" for j
    using assms by (auto simp: pb_inv_def chunk_ok_def Let_def)
  show ?thesis using get_chunk_in_mask_None[OF l(1)] get_chunk_in_mask_None[OF l(2)] ok
    by (auto simp: pick_chunk_def get_idle_chunk_def get_available_chunk_def split: option.splits)
qed

text \<open>The number of on-going pushes when one chunk's push changes.\<close>

lemma card_current_set:
  "i < (n::nat) \<Longrightarrow> f i = None \<Longrightarrow> card {j. j < n \<and> (f(i := Some x)) j \<noteq> None} = Suc (card {j. j < n \<and> f j \<noteq> None})"
proof -
  assume i: "i < n" "f i = None"
  have "{j. j < n \<and> (f(i := Some x)) j \<noteq> None} = insert i {j. j < n \<and> f j \<noteq> None}" using i(1) by auto
  then show ?thesis using i(2) by simp
qed

lemma card_current_clear:
  "i < (n::nat) \<Longrightarrow> f i \<noteq> None \<Longrightarrow> Suc (card {j. j < n \<and> (f(i := None)) j \<noteq> None}) = card {j. j < n \<and> f j \<noteq> None}"
proof -
  assume i: "i < n" "f i \<noteq> None"
  have "{j. j < n \<and> f j \<noteq> None} = insert i {j. j < n \<and> (f(i := None)) j \<noteq> None}" using i by auto
  then show ?thesis by simp
qed

text \<open>A step that touches one chunk.\<close>

definition same_chunk :: "pb_system \<Rightarrow> pb_system \<Rightarrow> nat \<Rightarrow> bool" where
  "same_chunk s s' j \<longleftrightarrow> chunk_of s' j = chunk_of s j \<and>
     available_chunks (sys_pb s') ! j = available_chunks (sys_pb s) ! j \<and>
     idle_chunks (sys_pb s') ! j = idle_chunks (sys_pb s) ! j \<and>
     (\<forall>e \<in> set (pending_gpfifos (chunk_of s j)). sys_entries s' e = sys_entries s e) \<and>
     (\<forall>p. current_push (chunk_of s j) = Some p \<longrightarrow> sys_pushes s' p = sys_pushes s p)"

lemma chunk_ok_same:
  assumes "same_chunk s s' j" "pb_memory (sys_pb s') = pb_memory (sys_pb s)" "chunk_ok s j"
  shows "chunk_ok s' j"
proof -
  have e: "map (span (sys_entries s') j) (pending_gpfifos (chunk_of s j)) =
      map (span (sys_entries s) j) (pending_gpfifos (chunk_of s j))"
    using assms(1) by (simp add: same_chunk_def span_def)
  have i: "e \<in> set (pending_gpfifos (chunk_of s j)) \<Longrightarrow> inside (sys_entries s') j e = inside (sys_entries s) j e" for e
    using assms(1) by (simp add: same_chunk_def inside_def)
  have a: "chunk_get_next_push_start_addr (sys_pb s') j = chunk_get_next_push_start_addr (sys_pb s) j"
    using assms(1,2) by (simp add: same_chunk_def chunk_get_next_push_start_addr_def chunk_of_def)
  have c: "chunk_of s' j = chunk_of s j" "available_chunks (sys_pb s') ! j = available_chunks (sys_pb s) ! j"
    "idle_chunks (sys_pb s') ! j = idle_chunks (sys_pb s) ! j"
    and p: "\<And>p. current_push (chunk_of s j) = Some p \<Longrightarrow> sys_pushes s' p = sys_pushes s p"
    using assms(1) by (simp_all add: same_chunk_def)
  show ?thesis using assms(3) i p unfolding chunk_ok_def Let_def c e a by metis
qed

lemma pb_inv_step:
  assumes inv: "pb_inv s" and i: "i < 16"
    and len: "length (pb_chunks (sys_pb s')) = 16" "length (available_chunks (sys_pb s')) = 16"
      "length (idle_chunks (sys_pb s')) = 16" "pb_memory (sys_pb s') = pb_memory (sys_pb s)"
    and same: "\<And>j. j < 16 \<Longrightarrow> j \<noteq> i \<Longrightarrow> same_chunk s s' j" and ok: "chunk_ok s' i"
    and cur: "\<And>j. j < 16 \<Longrightarrow> j \<noteq> i \<Longrightarrow> current_push (chunk_of s' i) \<noteq> None \<Longrightarrow>
      current_push (chunk_of s j) \<noteq> current_push (chunk_of s' i)"
    and sema: "concurrent_pushes_sema (sys_pb s') + card {j. j < 16 \<and> current_push (chunk_of s' j) \<noteq> None} = 16"
  shows "pb_inv s'"
proof -
  have c: "chunk_of s' j = chunk_of s j" if "j < 16" "j \<noteq> i" for j
    using same[OF that] by (simp add: same_chunk_def)
  have "chunk_ok s' j" if "j < 16" for j
    using chunk_ok_same[OF same[OF that] len(4)] ok inv that by (cases "j = i") (auto simp: pb_inv_def)
  moreover have "current_push (chunk_of s' j) \<noteq> current_push (chunk_of s' k)"
    if "j < 16" "k < 16" "j \<noteq> k" "current_push (chunk_of s' j) \<noteq> None" for j k
  proof (cases "j = i")
    case True
    then show ?thesis using cur[of k] that c by auto
  next
    case jn: False
    show ?thesis
    proof (cases "k = i")
      case True
      then show ?thesis using cur[of j] that c[of j] by (cases "current_push (chunk_of s' i)") auto
    next
      case False
      then show ?thesis using inv that c jn by (simp add: pb_inv_def)
    qed
  qed
  ultimately show ?thesis
    using inv len sema unfolding pb_inv_def len(4) by blast
qed

lemma begin_push_inv:
  assumes inv: "pb_inv s" and n: "\<not> ongoing s p"
    and r: "uvm_pushbuffer_begin_push progress 1 (sys_pb s) p push = Some (NV_OK, push', pb')"
    and pick: "pick_chunk (sys_pb s) \<noteq> None"
  shows "pb_inv (s\<lparr>sys_pb := pb', sys_pushes := (sys_pushes s)(p := push')\<rparr>)" (is "pb_inv ?s'")
proof -
  from pick obtain i where p: "pick_chunk (sys_pb s) = Some i" by auto
  from pick_chunk_Some[OF inv p] have i: "i < 16" and av: "available_chunks (sys_pb s) ! i" by auto
  have len: "length (pb_chunks (sys_pb s)) = 16" "length (available_chunks (sys_pb s)) = 16" "length (idle_chunks (sys_pb s)) = 16"
    using inv by (simp_all add: pb_inv_def)
  have sema: "0 < concurrent_pushes_sema (sys_pb s)"
    using r by (auto simp: uvm_pushbuffer_begin_push_def split: if_splits)
  have p': "pick_chunk (sys_pb s\<lparr>concurrent_pushes_sema := x\<rparr>) = Some i" for x using p by simp
  have pb': "pb' = (sys_pb s)\<lparr>concurrent_pushes_sema := concurrent_pushes_sema (sys_pb s) - 1,
      pb_chunks := (pb_chunks (sys_pb s))[i := (pb_chunks (sys_pb s) ! i)\<lparr>current_push := Some p\<rparr>],
      idle_chunks := (idle_chunks (sys_pb s))[i := False], available_chunks := (available_chunks (sys_pb s))[i := False]\<rparr>"
    and push': "push_begin push' = chunk_get_next_push_start_addr pb' i"
    using r sema p' by (auto simp: uvm_pushbuffer_begin_push_def claim_chunk_def try_claim_chunk_def Let_def clear_chunk_def)
  have ci: "chunk_of ?s' i = (chunk_of s i)\<lparr>current_push := Some p\<rparr>" and cj: "j \<noteq> i \<Longrightarrow> chunk_of ?s' j = chunk_of s j" for j
    using i len by (simp_all add: chunk_of_def pb')
  have oki: "chunk_ok s i" using inv i by (simp add: pb_inv_def)
  have cur: "current_push (chunk_of s j) \<noteq> Some p" if "j < 16" for j using n that by (auto simp: ongoing_def)
  show ?thesis
  proof (rule pb_inv_step[OF inv i])
    show "chunk_ok ?s' i"
      using oki av i len push' by (simp add: chunk_ok_def Let_def ci) (simp add: pb')
    show "same_chunk s ?s' j" if "j < 16" "j \<noteq> i" for j
      using that cj[of j] cur[of j] by (auto simp: same_chunk_def pb')
    show "current_push (chunk_of s j) \<noteq> current_push (chunk_of ?s' i)" if "j < 16" "j \<noteq> i" for j
      using cur[OF that(1)] by (simp add: ci)
    have none: "current_push (chunk_of s i) = None" using oki av by (simp add: chunk_ok_def Let_def)
    have "(\<lambda>j. current_push (chunk_of ?s' j)) = (\<lambda>j. current_push (chunk_of s j))(i := Some p)"
      using ci cj by (intro ext) auto
    then have "card {j. j < 16 \<and> current_push (chunk_of ?s' j) \<noteq> None} =
        Suc (card {j. j < 16 \<and> current_push (chunk_of s j) \<noteq> None})"
      using card_current_set[of i 16 "\<lambda>j. current_push (chunk_of s j)" p, OF i none] by (simp add: fun_eq_iff)
    then show "concurrent_pushes_sema (sys_pb ?s') + card {j. j < 16 \<and> current_push (chunk_of ?s' j) \<noteq> None} = 16"
      using inv sema by (simp add: pb_inv_def pb')
  qed (use len in \<open>simp_all add: pb'\<close>)
qed

lemma update_chunk_form:
  assumes i: "i < 16" and pend: "pending_gpfifos (pb_chunks pb ! i) = es"
    and ins: "\<forall>e \<in> set es. inside g i e" and lay: "layout (map (span g i) es)"
  obtains q av where
    "update_chunk g pb i = pb\<lparr>pb_chunks := (pb_chunks pb)[i := (pb_chunks pb ! i)\<lparr>next_push_start := q\<rparr>],
       idle_chunks := if es = [] then (idle_chunks pb)[i := True] else idle_chunks pb, available_chunks := av\<rparr>"
    "av = available_chunks pb \<and> q = next_push_start (pb_chunks pb ! i) \<and> es \<noteq> [] \<or>
     av = (available_chunks pb)[i := True] \<and> fits (map (span g i) es) (unat q)"
proof -
  from update_chunk_cases[OF assms] show thesis
  proof
    assume "update_chunk g pb i = pb \<and> es \<noteq> []"
    then show thesis using that[of "available_chunks pb" "next_push_start (pb_chunks pb ! i)"] by simp
  next
    assume "\<exists>p. fits (map (span g i) es) (unat p) \<and> update_chunk g pb i = set_next_push_start i p
         (pb\<lparr>idle_chunks := if es = [] then set_chunk i (idle_chunks pb) else idle_chunks pb,
             available_chunks := set_chunk i (available_chunks pb)\<rparr>)"
    then obtain p where "fits (map (span g i) es) (unat p)" "update_chunk g pb i = set_next_push_start i p
         (pb\<lparr>idle_chunks := if es = [] then set_chunk i (idle_chunks pb) else idle_chunks pb,
             available_chunks := set_chunk i (available_chunks pb)\<rparr>)" by blast
    then show thesis using that[of "(available_chunks pb)[i := True]" p]
      by (simp add: set_next_push_start_def set_chunk_def)
  qed
qed

lemma inside_chunk:
  assumes "inside g i e" "0 < unat (pushbuffer_size (g e))"
  shows "gpfifo_to_chunk g e = i"
proof -
  have "unat (pushbuffer_offset (g e)) div 1048576 = i"
    using assms by (intro div_nat_eqI) (simp_all add: inside_def)
  then show ?thesis by (simp add: gpfifo_to_chunk_def offset_to_chunk_def unat_div)
qed

lemma offset_for_push:
  assumes i: "i < 16" and p: "push_begin push = chunk_get_next_push_start_addr pb i"
    and n: "unat (next_push_start (pb_chunks pb ! i)) \<le> 1048576"
  shows "unat (uvm_pushbuffer_get_offset_for_push pb push) = i * 1048576 + unat (next_push_start (pb_chunks pb ! i))"
proof -
  let ?x = "ucast (chunk_get_offset i) + ucast (next_push_start (pb_chunks pb ! i)) :: u64"
  have u: "unat (ucast (y::u32) :: u64) = unat y" for y
  proof -
    have "unat y < 2 ^ 64" using unat_lt_2_32[of y] by simp
    then show ?thesis by (simp add: unsigned_ucast_eq take_bit_nat_eq_self)
  qed
  have small: "i * 1048576 + unat (next_push_start (pb_chunks pb ! i)) < 2 ^ 32" using i n by simp
  then have x: "unat ?x = i * 1048576 + unat (next_push_start (pb_chunks pb ! i))"
    using unat_chunk_offset[OF i] by (simp add: unat_word_ariths u mod_less)
  have "uvm_pushbuffer_get_offset_for_push pb push = ucast ?x"
    by (simp add: uvm_pushbuffer_get_offset_for_push_def p chunk_get_next_push_start_addr_def)
  then have "unat (uvm_pushbuffer_get_offset_for_push pb push) = take_bit 32 (unat ?x)"
    by (simp add: unsigned_ucast_eq)
  with x small show ?thesis by (simp add: take_bit_nat_eq_self)
qed

lemma end_push_inv:
  assumes inv: "pb_inv s" and o: "ongoing s p" and fresh: "\<not> pending s e"
    and sz: "0 < pushbuffer_size entry" "unat (pushbuffer_size entry) \<le> UVM_MAX_PUSH_SIZE"
    and off: "pushbuffer_offset entry = uvm_pushbuffer_get_offset_for_push (sys_pb s) (sys_pushes s p)"
    and g: "g = (sys_entries s)(e := entry)"
  shows "pb_inv (s\<lparr>sys_pb := uvm_pushbuffer_end_push g (sys_pb s) e, sys_entries := g\<rparr>)" (is "pb_inv ?s'")
proof -
  from o obtain i where i: "i < 16" and cur: "current_push (chunk_of s i) = Some p" by (auto simp: ongoing_def)
  have len: "length (pb_chunks (sys_pb s)) = 16" "length (available_chunks (sys_pb s)) = 16" "length (idle_chunks (sys_pb s)) = 16"
    using inv by (simp_all add: pb_inv_def)
  define c where "c = chunk_of s i"
  let ?n = "unat (next_push_start c)"
  let ?L = "map (span (sys_entries s) i) (pending_gpfifos c)"
  have ok: "\<forall>x \<in> set (pending_gpfifos c). inside (sys_entries s) i x" "fits ?L ?n"
    "push_begin (sys_pushes s p) = chunk_get_next_push_start_addr (sys_pb s) i"
    "\<not> available_chunks (sys_pb s) ! i" "\<not> idle_chunks (sys_pb s) ! i"
    using inv i cur by (auto simp: pb_inv_def chunk_ok_def Let_def c_def)
  have nC: "?n + UVM_MAX_PUSH_SIZE \<le> UVM_PUSHBUFFER_CHUNK_SIZE" using ok(2) unfolding fits_def by blast
  have c': "pb_chunks (sys_pb s) ! i = c" by (simp add: c_def chunk_of_def)
  have uo: "unat (pushbuffer_offset entry) = i * 1048576 + ?n"
    using offset_for_push[OF i ok(3)] nC by (simp add: off c')
  have spos: "0 < unat (pushbuffer_size entry)" using sz(1) by (simp add: word_less_nat_alt)
  have ine: "inside g i e" "span g i e = (?n, ?n + unat (pushbuffer_size entry))"
    using nC sz(2) by (simp_all add: inside_def span_def g uo)
  have gc: "gpfifo_to_chunk g e = i" using inside_chunk[OF ine(1)] spos by (simp add: g)
  have ne: "x \<noteq> e" if "j < 16" "x \<in> set (pending_gpfifos (chunk_of s j))" for x j
    using fresh that by (auto simp: pending_def)
  have old: "map (span g i) (pending_gpfifos c) = ?L" "\<forall>x \<in> set (pending_gpfifos c). inside g i x"
    using ok(1) ne[OF i] by (auto simp: c_def g span_def inside_def)
  let ?es = "pending_gpfifos c @ [e]"
  have lay: "layout (map (span g i) ?es)"
    using fits_snoc[OF ok(2) spos sz(2)] unfolding map_append old(1) by (simp add: ine(2))
  define pb1 where "pb1 = (sys_pb s)\<lparr>pb_chunks := (pb_chunks (sys_pb s))[i := c\<lparr>pending_gpfifos := ?es\<rparr>]\<rparr>"
  have p1: "pb_chunks pb1 ! i = c\<lparr>pending_gpfifos := ?es\<rparr>" using i len by (simp add: pb1_def)
  have pend1: "pending_gpfifos (pb_chunks pb1 ! i) = ?es" by (simp add: p1)
  have ins1: "\<forall>x \<in> set ?es. inside g i x" using old(2) ine(1) by simp
  obtain q av where u: "update_chunk g pb1 i = pb1\<lparr>pb_chunks := (pb_chunks pb1)[i := (pb_chunks pb1 ! i)\<lparr>next_push_start := q\<rparr>],
       idle_chunks := if ?es = [] then (idle_chunks pb1)[i := True] else idle_chunks pb1, available_chunks := av\<rparr>"
    "av = available_chunks pb1 \<and> q = next_push_start (pb_chunks pb1 ! i) \<and> ?es \<noteq> [] \<or>
     av = (available_chunks pb1)[i := True] \<and> fits (map (span g i) ?es) (unat q)"
    by (rule update_chunk_form[OF i pend1 ins1 lay])
  have pb': "sys_pb ?s' = (sys_pb s)\<lparr>pb_chunks := (pb_chunks (sys_pb s))[i := c\<lparr>pending_gpfifos := ?es, next_push_start := q, current_push := None\<rparr>],
       available_chunks := av, concurrent_pushes_sema := concurrent_pushes_sema (sys_pb s) + 1\<rparr>"
  proof -
    have "uvm_pushbuffer_end_push g (sys_pb s) e =
      (let pb = update_chunk g pb1 i; pb = pb\<lparr>pb_chunks := (pb_chunks pb)[i := (pb_chunks pb ! i)\<lparr>current_push := None\<rparr>]\<rparr>
       in pb\<lparr>concurrent_pushes_sema := concurrent_pushes_sema pb + 1\<rparr>)"
      by (simp add: uvm_pushbuffer_end_push_def gc Let_def pb1_def c')
    then show ?thesis using i len unfolding u(1) by (simp add: Let_def p1) (simp add: pb1_def)
  qed
  have ci: "chunk_of ?s' i = c\<lparr>pending_gpfifos := ?es, next_push_start := q, current_push := None\<rparr>"
    and cj: "j \<noteq> i \<Longrightarrow> chunk_of ?s' j = chunk_of s j" for j
    using i len unfolding chunk_of_def pb' by simp_all
  have avl: "length av = 16" "j \<noteq> i \<Longrightarrow> av ! j = available_chunks (sys_pb s) ! j" for j
    using u(2) len by (auto simp: pb1_def)
  have avi: "av ! i \<longrightarrow> fits (map (span g i) ?es) (unat q)" using u(2) ok(4) by (auto simp: pb1_def)
  show ?thesis
  proof (rule pb_inv_step[OF inv i])
    have b: "available_chunks (sys_pb ?s') = av" "idle_chunks (sys_pb ?s') = idle_chunks (sys_pb s)" "sys_entries ?s' = g"
      using pb' by simp_all
    show "chunk_ok ?s' i"
      unfolding chunk_ok_def Let_def ci b using lay avi ok(5) old(2) ine(1) by simp
    show "same_chunk s ?s' j" if "j < 16" "j \<noteq> i" for j
      using that cj[of j] ne[of j] avl(2)[of j] unfolding same_chunk_def b by (auto simp: g)
    have "(\<lambda>j. current_push (chunk_of ?s' j)) = (\<lambda>j. current_push (chunk_of s j))(i := None)"
    proof
      fix j
      show "current_push (chunk_of ?s' j) = ((\<lambda>j. current_push (chunk_of s j))(i := None)) j"
        using ci cj[of j] by (cases "j = i") auto
    qed
    then have "Suc (card {j. j < 16 \<and> current_push (chunk_of ?s' j) \<noteq> None}) =
        card {j. j < 16 \<and> current_push (chunk_of s j) \<noteq> None}"
      using card_current_clear[of i 16 "\<lambda>j. current_push (chunk_of s j)", OF i] cur by (simp only: fun_eq_iff) simp
    then show "concurrent_pushes_sema (sys_pb ?s') + card {j. j < 16 \<and> current_push (chunk_of ?s' j) \<noteq> None} = 16"
      using inv unfolding pb' by (simp add: pb_inv_def)
    show "current_push (chunk_of s j) \<noteq> current_push (chunk_of ?s' i)" if "current_push (chunk_of ?s' i) \<noteq> None" for j
      using that ci by simp
  qed (use len avl in \<open>simp_all add: pb'[simplified]\<close>)
qed

lemma complete_inv:
  assumes inv: "pb_inv s" and pe: "pending s e"
    and r: "uvm_pushbuffer_mark_completed (sys_entries s) (sys_pb s) (sys_infos s) e = (called, pb', infos')"
  shows "pb_inv (s\<lparr>sys_pb := pb', sys_infos := infos'\<rparr>)" (is "pb_inv ?s'")
proof -
  from pe obtain i where i: "i < 16" and e: "e \<in> set (pending_gpfifos (chunk_of s i))" by (auto simp: pending_def)
  have len: "length (pb_chunks (sys_pb s)) = 16" "length (available_chunks (sys_pb s)) = 16" "length (idle_chunks (sys_pb s)) = 16"
    using inv by (simp_all add: pb_inv_def)
  define c where "c = chunk_of s i"
  have c': "pb_chunks (sys_pb s) ! i = c" by (simp add: c_def chunk_of_def)
  let ?f = "span (sys_entries s) i" and ?es = "remove1 e (pending_gpfifos c)"
  have ok: "\<forall>x \<in> set (pending_gpfifos c). inside (sys_entries s) i x" "layout (map ?f (pending_gpfifos c))"
    "available_chunks (sys_pb s) ! i \<longrightarrow> current_push c = None \<and> fits (map ?f (pending_gpfifos c)) (unat (next_push_start c))"
    "idle_chunks (sys_pb s) ! i \<longleftrightarrow> pending_gpfifos c = [] \<and> current_push c = None"
    "\<forall>p. current_push c = Some p \<longrightarrow> fits (map ?f (pending_gpfifos c)) (unat (next_push_start c)) \<and>
       push_begin (sys_pushes s p) = chunk_get_next_push_start_addr (sys_pb s) i"
    using inv i by (auto simp: pb_inv_def chunk_ok_def Let_def c_def)
  have sub: "subseq (map ?f ?es) (map ?f (pending_gpfifos c))" by (intro subseq_map subseq_remove1)
  have ins: "\<forall>x \<in> set ?es. inside (sys_entries s) i x" using ok(1) by (auto dest: notin_set_remove1[rotated])
  have lay: "layout (map ?f ?es)" by (rule layout_subseq[OF sub ok(2)])
  have "?f e \<in> set (map ?f (pending_gpfifos c))" using e by (simp add: c_def)
  from layout_bounds[OF ok(2) this] have "0 < unat (pushbuffer_size (sys_entries s e))"
    using ok(1) e by (auto simp: span_def c_def)
  with ok(1) e have gc: "gpfifo_to_chunk (sys_entries s) e = i" by (intro inside_chunk) (simp_all add: c_def)
  have e': "e \<in> set (pending_gpfifos c)" using e by (simp add: c_def)
  then have notidle: "\<not> idle_chunks (sys_pb s) ! i" using ok(4) by auto
  define pb1 where "pb1 = (sys_pb s)\<lparr>pb_chunks := (pb_chunks (sys_pb s))[i := c\<lparr>pending_gpfifos := ?es\<rparr>]\<rparr>"
  have p1: "pb_chunks pb1 ! i = c\<lparr>pending_gpfifos := ?es\<rparr>" using i len by (simp add: pb1_def)
  have pend1: "pending_gpfifos (pb_chunks pb1 ! i) = ?es" by (simp add: p1)
  let ?ends = "chunk_get_first_gpfifo c = Some e \<or> chunk_get_last_gpfifo c = Some e"
  have pb': "pb' = (if ?ends \<and> current_push c = None then update_chunk (sys_entries s) pb1 i else pb1)"
    using r by (auto simp: uvm_pushbuffer_mark_completed_def Let_def gc c' pb1_def cong: if_cong)
  have mid: "?es \<noteq> []" if "\<not> ?ends"
    using that e' by (cases "pending_gpfifos c") (auto simp: chunk_get_first_gpfifo_def chunk_get_last_gpfifo_def)
  obtain q av where u: "pb' = pb1\<lparr>pb_chunks := (pb_chunks pb1)[i := (pb_chunks pb1 ! i)\<lparr>next_push_start := q\<rparr>],
       idle_chunks := if ?es = [] \<and> current_push c = None then (idle_chunks pb1)[i := True] else idle_chunks pb1, available_chunks := av\<rparr>"
    and q: "av = available_chunks pb1 \<and> q = next_push_start (pb_chunks pb1 ! i) \<and> (?es \<noteq> [] \<or> current_push c \<noteq> None) \<or>
       av = (available_chunks pb1)[i := True] \<and> fits (map ?f ?es) (unat q) \<and> current_push c = None"
  proof (cases "?ends \<and> current_push c = None")
    case True
    obtain q av where u: "update_chunk (sys_entries s) pb1 i = pb1\<lparr>pb_chunks := (pb_chunks pb1)[i := (pb_chunks pb1 ! i)\<lparr>next_push_start := q\<rparr>],
       idle_chunks := if ?es = [] then (idle_chunks pb1)[i := True] else idle_chunks pb1, available_chunks := av\<rparr>"
      "av = available_chunks pb1 \<and> q = next_push_start (pb_chunks pb1 ! i) \<and> ?es \<noteq> [] \<or>
       av = (available_chunks pb1)[i := True] \<and> fits (map ?f ?es) (unat q)"
      by (rule update_chunk_form[OF i pend1 ins lay])
    show thesis using that[of av q] u True by (simp add: pb')
  next
    case False
    then have "?es \<noteq> [] \<or> current_push c \<noteq> None" using mid by metis
    then show thesis using that[of "available_chunks pb1" "next_push_start (pb_chunks pb1 ! i)"] False
      by (auto simp: pb')
  qed
  have ci: "chunk_of ?s' i = c\<lparr>pending_gpfifos := ?es, next_push_start := q\<rparr>"
    and cj: "j \<noteq> i \<Longrightarrow> chunk_of ?s' j = chunk_of s j" for j
    using i len unfolding chunk_of_def by (simp_all add: u p1) (simp_all add: pb1_def)
  have avl: "length av = 16" "j \<noteq> i \<Longrightarrow> av ! j = available_chunks (sys_pb s) ! j" for j
    using q len by (auto simp: pb1_def)
  have b: "available_chunks (sys_pb ?s') = av" "sys_entries ?s' = sys_entries s" "sys_pushes ?s' = sys_pushes s"
    "idle_chunks (sys_pb ?s') = (if ?es = [] \<and> current_push c = None then (idle_chunks (sys_pb s))[i := True] else idle_chunks (sys_pb s))"
    "pb_memory (sys_pb ?s') = pb_memory (sys_pb s)" "concurrent_pushes_sema (sys_pb ?s') = concurrent_pushes_sema (sys_pb s)"
    "length (pb_chunks (sys_pb ?s')) = 16"
    using len by (simp_all add: u) (simp_all add: pb1_def)
  have cont: "current_push (chunk_of ?s' j) = current_push (chunk_of s j)" for j
    using ci cj[of j] by (cases "j = i") (auto simp: c_def)
  have nq: "av = available_chunks (sys_pb s) \<and> q = next_push_start c \<and> (?es \<noteq> [] \<or> current_push c \<noteq> None) \<or>
       av = (available_chunks (sys_pb s))[i := True] \<and> fits (map ?f ?es) (unat q) \<and> current_push c = None"
    using q by (simp add: p1) (simp add: pb1_def)
  have avi: "av ! i \<longrightarrow> current_push c = None \<and> fits (map ?f ?es) (unat q)"
    using nq ok(3) fits_subseq[OF sub] by auto
  have kept: "fits (map ?f ?es) (unat q) \<and> q = next_push_start c" if "current_push c = Some p" for p
    using nq ok(5) fits_subseq[OF sub] that by auto
  have addr: "q = next_push_start c \<Longrightarrow> chunk_get_next_push_start_addr (sys_pb ?s') i = chunk_get_next_push_start_addr (sys_pb s) i"
    using ci b(5) by (simp add: chunk_get_next_push_start_addr_def chunk_of_def c')
  show ?thesis
  proof (rule pb_inv_step[OF inv i])
    have idle: "idle_chunks (sys_pb ?s') ! i \<longleftrightarrow> ?es = [] \<and> current_push c = None"
      unfolding b(4) using notidle i len by simp
    have av_idle: "?es = [] \<and> current_push c = None \<longrightarrow> av ! i" using nq i len by auto
    show "chunk_ok ?s' i"
      unfolding chunk_ok_def Let_def ci b(1-3) idle using ins lay avi av_idle kept addr ok(5) by auto
    show "same_chunk s ?s' j" if "j < 16" "j \<noteq> i" for j
      using that cj[of j] avl(2)[of j] unfolding same_chunk_def b(1-4) by simp
    show "concurrent_pushes_sema (sys_pb ?s') + card {j. j < 16 \<and> current_push (chunk_of ?s' j) \<noteq> None} = 16"
      using inv unfolding b(6) cont by (simp add: pb_inv_def)
    show "current_push (chunk_of s j) \<noteq> current_push (chunk_of ?s' i)"
      if "j < 16" "j \<noteq> i" "current_push (chunk_of ?s' i) \<noteq> None" for j
    proof -
      have "\<forall>i < 16. \<forall>j < 16. i \<noteq> j \<longrightarrow> current_push (chunk_of s i) \<noteq> None \<longrightarrow>
          current_push (chunk_of s i) \<noteq> current_push (chunk_of s j)"
        using inv unfolding pb_inv_def by (elim conjE)
      then have "current_push (chunk_of s i) \<noteq> None \<Longrightarrow> current_push (chunk_of s i) \<noteq> current_push (chunk_of s j)"
        using i that(1,2) by (elim allE impE) simp_all
      then show ?thesis using that(3) unfolding cont by metis
    qed
    show "length (available_chunks (sys_pb ?s')) = 16" "length (idle_chunks (sys_pb ?s')) = 16"
      unfolding b(1,4) using avl len by simp_all
  qed (simp_all only: b)
qed

lemma reachable_inv: "pb_reachable s \<Longrightarrow> pb_inv s"
proof (induction rule: pb_reachable.induct)
  case (created m s)
  then show ?case by (rule created_inv)
next
  case (step s s')
  from step(2,3) show ?case
    by (cases rule: pb_step.cases) (auto intro: begin_push_inv end_push_inv complete_inv)
qed

section \<open>Regions of memory\<close>

definition entry_region :: "pb_system \<Rightarrow> gpfifo_id \<Rightarrow> nat set" where
  "entry_region s e =
     {unat (pushbuffer_offset (sys_entries s e)) ..<
      unat (pushbuffer_offset (sys_entries s e)) + unat (pushbuffer_size (sys_entries s e))}"

definition push_region :: "pb_system \<Rightarrow> push_id \<Rightarrow> nat set" where
  "push_region s p =
     (let o_p = unat (uvm_pushbuffer_get_offset_for_push (sys_pb s) (sys_pushes s p))
      in {o_p ..< o_p + UVM_MAX_PUSH_SIZE})"

definition chunk_region :: "nat \<Rightarrow> nat set" where
  "chunk_region i = {i * UVM_PUSHBUFFER_CHUNK_SIZE ..< (i + 1) * UVM_PUSHBUFFER_CHUNK_SIZE}"

lemma chunk_regions_disjoint: "i \<noteq> j \<Longrightarrow> chunk_region i \<inter> chunk_region j = {}"
proof -
  assume "i \<noteq> j"
  then consider "i + 1 \<le> j" | "j + 1 \<le> i" by linarith
  then show ?thesis
  proof cases
    case 1
    then have "(i + 1) * 1048576 \<le> j * 1048576" by (intro mult_le_mono1)
    then show ?thesis by (auto simp: chunk_region_def)
  next
    case 2
    then have "(j + 1) * 1048576 \<le> i * 1048576" by (intro mult_le_mono1)
    then show ?thesis by (auto simp: chunk_region_def)
  qed
qed

lemma chunk_region_total: "i < 16 \<Longrightarrow> chunk_region i \<subseteq> {..< UVM_PUSHBUFFER_CHUNKS * UVM_PUSHBUFFER_CHUNK_SIZE}"
proof -
  assume "i < 16"
  then have "(i + 1) * 1048576 \<le> 16 * 1048576" by (intro mult_le_mono1) simp
  then show ?thesis by (auto simp: chunk_region_def)
qed

lemma pending_region:
  assumes "pb_inv s" "i < 16" "e \<in> set (pending_gpfifos (chunk_of s i))"
  shows "inside (sys_entries s) i e" "entry_region s e \<subseteq> chunk_region i"
  using assms by (auto simp: pb_inv_def chunk_ok_def Let_def inside_def entry_region_def chunk_region_def)

lemma ongoing_region:
  assumes "pb_inv s" "i < 16" "current_push (chunk_of s i) = Some p"
  shows "push_region s p = {i * 1048576 + unat (next_push_start (chunk_of s i)) ..<
      i * 1048576 + unat (next_push_start (chunk_of s i)) + 131072}"
    "push_region s p \<subseteq> chunk_region i"
    "fits (map (span (sys_entries s) i) (pending_gpfifos (chunk_of s i))) (unat (next_push_start (chunk_of s i)))"
proof -
  show f: "fits (map (span (sys_entries s) i) (pending_gpfifos (chunk_of s i))) (unat (next_push_start (chunk_of s i)))"
    using assms by (auto simp: pb_inv_def chunk_ok_def Let_def)
  then have n: "unat (next_push_start (chunk_of s i)) + 131072 \<le> 1048576" unfolding fits_def by auto
  have "push_begin (sys_pushes s p) = chunk_get_next_push_start_addr (sys_pb s) i"
    using assms by (auto simp: pb_inv_def chunk_ok_def Let_def)
  from offset_for_push[OF assms(2) this] n
  show r: "push_region s p = {i * 1048576 + unat (next_push_start (chunk_of s i)) ..<
      i * 1048576 + unat (next_push_start (chunk_of s i)) + 131072}"
    by (simp add: push_region_def chunk_of_def Let_def)
  show "push_region s p \<subseteq> chunk_region i" unfolding r using n by (auto simp: chunk_region_def)
qed

lemma pending_disjoint:
  assumes inv: "pb_inv s" and e: "pending s e" "pending s e'" "e \<noteq> e'"
  shows "entry_region s e \<inter> entry_region s e' = {}"
proof -
  from e obtain i j where i: "i < 16" "e \<in> set (pending_gpfifos (chunk_of s i))"
    and j: "j < 16" "e' \<in> set (pending_gpfifos (chunk_of s j))" by (auto simp: pending_def)
  show ?thesis
  proof (cases "i = j")
    case True
    have "layout (map (span (sys_entries s) i) (pending_gpfifos (chunk_of s i)))"
      using inv i(1) by (auto simp: pb_inv_def chunk_ok_def Let_def)
    from layout_disjoint[OF this i(2) _ e(3)] j True
    have "snd (span (sys_entries s) i e) \<le> fst (span (sys_entries s) i e') \<or>
        snd (span (sys_entries s) i e') \<le> fst (span (sys_entries s) i e)" by simp
    then show ?thesis
      using pending_region(1)[OF inv i] pending_region(1)[OF inv j] True
      by (auto simp: entry_region_def span_def inside_def)
  next
    case False
    then show ?thesis
      using pending_region(2)[OF inv i] pending_region(2)[OF inv j] chunk_regions_disjoint[OF False] by blast
  qed
qed

lemma ongoing_disjoint:
  assumes inv: "pb_inv s" and p: "ongoing s p"
  shows "pending s e \<Longrightarrow> push_region s p \<inter> entry_region s e = {}"
    and "ongoing s q \<Longrightarrow> p \<noteq> q \<Longrightarrow> push_region s p \<inter> push_region s q = {}"
proof -
  from p obtain i where i: "i < 16" "current_push (chunk_of s i) = Some p" by (auto simp: ongoing_def)
  show "push_region s p \<inter> entry_region s e = {}" if "pending s e"
  proof -
    from that obtain j where j: "j < 16" "e \<in> set (pending_gpfifos (chunk_of s j))" by (auto simp: pending_def)
    show ?thesis
    proof (cases "i = j")
      case True
      with j have "span (sys_entries s) i e \<in> set (map (span (sys_entries s) i) (pending_gpfifos (chunk_of s i)))" by simp
      from fits_apart[OF ongoing_region(3)[OF inv i] this] show ?thesis
        unfolding ongoing_region(1)[OF inv i]
        using pending_region(1)[OF inv j] True by (auto simp: entry_region_def span_def inside_def)
    next
      case False
      then show ?thesis
        using pending_region(2)[OF inv j] ongoing_region(2)[OF inv i] chunk_regions_disjoint[OF False] by blast
    qed
  qed
  show "push_region s p \<inter> push_region s q = {}" if "ongoing s q" "p \<noteq> q"
  proof -
    from that(1) obtain j where j: "j < 16" "current_push (chunk_of s j) = Some q" by (auto simp: ongoing_def)
    with i that(2) have "i \<noteq> j" by auto
    then show ?thesis
      using ongoing_region(2)[OF inv i] ongoing_region(2)[OF inv j] chunk_regions_disjoint[of i j] by blast
  qed
qed

section \<open>Properties\<close>

text \<open>
  C1. Memory safety of the pushbuffer. Whatever order pushes begin, end and complete in, the
  memory of a pending push, which the GPU may still read, overlaps neither that of another
  pending push nor the \<^verbatim>\<open>UVM_MAX_PUSH_SIZE\<close> bytes given to an on-going push, the memory of two
  on-going pushes does not overlap, and all of it lies within the pushbuffer.
\<close>

theorem pushbuffer_no_overlap:
  assumes "pb_reachable s"
  shows "(\<forall>e e'. pending s e \<longrightarrow> pending s e' \<longrightarrow> e \<noteq> e' \<longrightarrow> entry_region s e \<inter> entry_region s e' = {}) \<and>
    (\<forall>p e. ongoing s p \<longrightarrow> pending s e \<longrightarrow> push_region s p \<inter> entry_region s e = {}) \<and>
    (\<forall>p q. ongoing s p \<longrightarrow> ongoing s q \<longrightarrow> p \<noteq> q \<longrightarrow> push_region s p \<inter> push_region s q = {}) \<and>
    (\<forall>e. pending s e \<longrightarrow> entry_region s e \<subseteq> {..< UVM_PUSHBUFFER_CHUNKS * UVM_PUSHBUFFER_CHUNK_SIZE}) \<and>
    (\<forall>p. ongoing s p \<longrightarrow> push_region s p \<subseteq> {..< UVM_PUSHBUFFER_CHUNKS * UVM_PUSHBUFFER_CHUNK_SIZE})"
proof -
  note inv = reachable_inv[OF assms]
  have "entry_region s e \<subseteq> {..< UVM_PUSHBUFFER_CHUNKS * UVM_PUSHBUFFER_CHUNK_SIZE}" if "pending s e" for e
  proof -
    from that obtain i where i: "i < 16" "e \<in> set (pending_gpfifos (chunk_of s i))" by (auto simp: pending_def)
    from pending_region(2)[OF inv i] chunk_region_total[OF i(1)] show ?thesis by (rule order_trans)
  qed
  moreover have "push_region s p \<subseteq> {..< UVM_PUSHBUFFER_CHUNKS * UVM_PUSHBUFFER_CHUNK_SIZE}" if "ongoing s p" for p
  proof -
    from that obtain i where i: "i < 16" "current_push (chunk_of s i) = Some p" by (auto simp: ongoing_def)
    from ongoing_region(2)[OF inv i] chunk_region_total[OF i(1)] show ?thesis by (rule order_trans)
  qed
  ultimately show ?thesis using pending_disjoint[OF inv] ongoing_disjoint[OF inv] by blast
qed

definition sample_pushbuffer :: uvm_pushbuffer where
  "sample_pushbuffer = \<lparr>pb_memory = sample_rm_mem,
     pb_chunks = replicate 16 \<lparr>next_push_start = 0, pending_gpfifos = [], current_push = None\<rparr>,
     available_chunks = replicate 16 True, idle_chunks = replicate 16 True, concurrent_pushes_sema = 16\<rparr>"

definition sample_push :: uvm_push where
  "sample_push = \<lparr>push_begin = 0, push_next = 0, push_gpu = 0, push_channel = None, channel_tracking_value = 0,
     push_info_index = 0, push_flags = [False, False, False]\<rparr>"

definition sample_info :: uvm_push_info where
  "sample_info = \<lparr>pi_filename = [], pi_line = 0, pi_function = [], pi_description = [],
     on_complete = None, on_complete_data = 0\<rparr>"

definition sample_entry :: uvm_gpfifo_entry where
  "sample_entry = \<lparr>pushbuffer_offset = 0, pushbuffer_size = 0, tracking_semaphore_value = 0, entry_push_info = (0, 0)\<rparr>"

definition sample_system :: pb_system where
  "sample_system = \<lparr>sys_pb = sample_pushbuffer, sys_entries = (\<lambda>e. sample_entry), sys_infos = (\<lambda>i. sample_info),
     sys_pushes = (\<lambda>p. sample_push)\<rparr>"

lemma sample_system_reachable: "pb_reachable sample_system"
proof (rule pb_reachable.created)
  show "uvm_pushbuffer_create_common True (NV_OK, sample_rm_mem) NV_OK = (NV_OK, Some (sys_pb sample_system))"
    by (simp add: uvm_pushbuffer_create_common_def sample_system_def sample_pushbuffer_def)
  show "unat (rm_cpu_va sample_rm_mem) + UVM_PUSHBUFFER_CHUNKS * UVM_PUSHBUFFER_CHUNK_SIZE \<le> 2 ^ 64"
    by (simp add: sample_rm_mem_def)
qed

lemma sample_pick: "pick_chunk sample_pushbuffer = Some 0"
  by (simp add: pick_chunk_def get_idle_chunk_def get_chunk_in_mask_def sample_pushbuffer_def find_first_bit_def)

lemma sample_begins:
  "\<exists>s'. pb_step sample_system s' \<and> ongoing s' 1"
proof -
  have c: "try_claim_chunk (sample_pushbuffer\<lparr>concurrent_pushes_sema := 15\<rparr>) 1 = (Some 0, sample_pushbuffer\<lparr>
      concurrent_pushes_sema := 15, pb_chunks := (pb_chunks sample_pushbuffer)[0 := (pb_chunks sample_pushbuffer ! 0)\<lparr>current_push := Some 1\<rparr>],
      idle_chunks := clear_chunk 0 (idle_chunks sample_pushbuffer), available_chunks := clear_chunk 0 (available_chunks sample_pushbuffer)\<rparr>)"
    (is "_ = (Some 0, ?pb)")
    using sample_pick by (simp add: try_claim_chunk_def)
  let ?push = "sample_push\<lparr>push_begin := chunk_get_next_push_start_addr ?pb 0, push_next := chunk_get_next_push_start_addr ?pb 0\<rparr>"
  have b: "uvm_pushbuffer_begin_push (\<lambda>k pb. (NV_OK, pb)) 1 sample_pushbuffer 1 sample_push = Some (NV_OK, ?push, ?pb)"
    using c by (simp add: uvm_pushbuffer_begin_push_def claim_chunk_def Let_def sample_pushbuffer_def[THEN arg_cong, of concurrent_pushes_sema])
  have n: "\<not> ongoing sample_system 1"
    by (auto simp: ongoing_def chunk_of_def sample_system_def sample_pushbuffer_def)
  have "pb_step sample_system (sample_system\<lparr>sys_pb := ?pb, sys_pushes := (sys_pushes sample_system)(1 := ?push)\<rparr>)"
    by (rule pb_step.begin_push[OF n, of "\<lambda>k pb. (NV_OK, pb)" sample_push])
       (simp_all only: b sample_pick sample_system_def pb_system.simps option.distinct not_False_eq_True)
  moreover have "ongoing (sample_system\<lparr>sys_pb := ?pb, sys_pushes := (sys_pushes sample_system)(1 := ?push)\<rparr>) 1"
    by (auto simp: ongoing_def chunk_of_def sample_pushbuffer_def intro!: exI[of _ 0])
  ultimately show ?thesis by blast
qed

theorem pushbuffer_no_overlap_witness:
  "\<exists>s. pb_reachable s \<and> ongoing s 1 \<and> push_region s 1 \<subseteq> {..< UVM_PUSHBUFFER_CHUNKS * UVM_PUSHBUFFER_CHUNK_SIZE}"
proof -
  obtain s' where s': "pb_step sample_system s'" "ongoing s' 1" using sample_begins by blast
  have "pb_reachable s'" by (rule pb_reachable.step[OF sample_system_reachable s'(1)])
  with pushbuffer_no_overlap[OF this, THEN conjunct2, THEN conjunct2, THEN conjunct2, THEN conjunct2] s'(2)
  show ?thesis by blast
qed



text \<open>
  A lost chunk. \<^verbatim>\<open>claim_chunk\<close> tries to claim again before it looks at the status of the
  error check. If no chunk is available at first and in the loop, and the pass that finds a
  channel error also completes a push that frees one, the claim then succeeds, but the error is
  returned: \<^verbatim>\<open>uvm_pushbuffer_begin_push\<close> gives the semaphore back and fails, and the chunk
  stays claimed by a push that never began, neither idle nor available.
\<close>

theorem begin_push_error_leaks_chunk:
  assumes "concurrent_pushes_sema pb = Suc n" "pick_chunk pb = None"
    and "progress 0 (pb\<lparr>concurrent_pushes_sema := n\<rparr>) = (st0, pb1)" "pick_chunk pb1 = None"
    and "progress 1 pb1 = (st, pb2)" "st \<noteq> NV_OK" "pick_chunk pb2 = Some i"
    and "i < length (pb_chunks pb2)" "length (available_chunks pb2) = length (pb_chunks pb2)"
      "length (idle_chunks pb2) = length (pb_chunks pb2)"
  shows "\<exists>pb'. uvm_pushbuffer_begin_push progress (Suc (Suc fuel)) pb p push = Some (st, push, pb') \<and>
    current_push (pb_chunks pb' ! i) = Some p \<and> \<not> available_chunks pb' ! i \<and> \<not> idle_chunks pb' ! i \<and>
    concurrent_pushes_sema pb' = concurrent_pushes_sema pb2 + 1"
  using assms by (simp add: uvm_pushbuffer_begin_push_def claim_chunk_def try_claim_chunk_def Let_def clear_chunk_def)

theorem begin_push_error_leaks_chunk_witness:
  "\<exists>pb'. uvm_pushbuffer_begin_push (\<lambda>k pb. if k = 0 then (NV_OK, pb) else (NV_ERR_RC_ERROR, sample_pushbuffer\<lparr>concurrent_pushes_sema := 0\<rparr>)) 2
     (sample_pushbuffer\<lparr>concurrent_pushes_sema := 1, available_chunks := replicate 16 False, idle_chunks := replicate 16 False\<rparr>)
     4 sample_push = Some (NV_ERR_RC_ERROR, sample_push, pb') \<and> current_push (pb_chunks pb' ! 0) = Some 4"
proof -
  let ?progress = "\<lambda>k pb. if k = 0 then (NV_OK, pb) else (NV_ERR_RC_ERROR, sample_pushbuffer\<lparr>concurrent_pushes_sema := 0\<rparr>)"
  let ?pb = "sample_pushbuffer\<lparr>available_chunks := replicate 16 False, idle_chunks := replicate 16 False\<rparr>"
  have none: "pick_chunk ?pb = None"
    by (simp add: pick_chunk_def get_idle_chunk_def get_available_chunk_def get_chunk_in_mask_def find_first_bit_def)
  have swap: "sample_pushbuffer\<lparr>concurrent_pushes_sema := x, available_chunks := replicate 16 False, idle_chunks := replicate 16 False\<rparr>
      = ?pb\<lparr>concurrent_pushes_sema := x\<rparr>" for x by simp
  show ?thesis unfolding swap
    using begin_push_error_leaks_chunk[of "?pb\<lparr>concurrent_pushes_sema := 1\<rparr>" 0 ?progress NV_OK
        "?pb\<lparr>concurrent_pushes_sema := 0\<rparr>" NV_ERR_RC_ERROR "sample_pushbuffer\<lparr>concurrent_pushes_sema := 0\<rparr>" 0 0 4 sample_push]
      none sample_pick
    by (simp add: numeral_2_eq_2) (auto simp: sample_pushbuffer_def)
qed

end
