(* ===== verification/Channel.thy ===== *)
theory Channel
  imports Pushbuffer Tracker
begin

text \<open>
  \<^verbatim>\<open>uvm8_channel.c\<close>: channels, each a ring of GPFIFO entries with a tracking semaphore, and
  their manager. Channels are named by number, and a channel's entries and push infos are the
  manager's entries and infos at (channel, index). The copy engine's \<^verbatim>\<open>semaphore_release\<close> is the
  argument \<open>release\<close>, since it is called through the GPU's function table. Waiting loops have
  fuel and read what other threads and the GPU do before the \<open>k\<close>th iteration as \<open>env k\<close>.
  Creation of the RM objects, procfs entries and printing are left out.
\<close>

section \<open>State\<close>

datatype uvm_channel_type =
  UVM_CHANNEL_TYPE_CPU_TO_GPU
| UVM_CHANNEL_TYPE_GPU_TO_CPU
| UVM_CHANNEL_TYPE_GPU_INTERNAL
| UVM_CHANNEL_TYPE_MEMOPS
| UVM_CHANNEL_TYPE_GPU_TO_GPU
| UVM_CHANNEL_TYPE_ANY

datatype uvm_channel_update_mode =
  UVM_CHANNEL_UPDATE_MODE_COMPLETED
| UVM_CHANNEL_UPDATE_MODE_FORCE_ALL

record uvm_channel =
  num_gpfifo_entries :: u32
  cpu_put :: u32
  gpu_get :: u32
  current_pushes_count :: u32
  next_push_info_index :: u32
  tracking_sem :: uvm_gpu_tracking_semaphore
  error_notifier :: u32
  hw_gpfifo :: "nat \<Rightarrow> u64 \<times> u32"
  hw_gpu_put :: u32

record uvm_channel_manager =
  cm_gpu :: gpu_id
  cm_ecc_error :: bool
  cm_channels :: "channel_id \<Rightarrow> uvm_channel"
  all_channels_list :: "channel_id list"
  channel_pools :: "uvm_channel_type \<Rightarrow> channel_id list"
  cm_pushbuffer :: uvm_pushbuffer
  cm_entries :: gpfifo_entries
  cm_infos :: push_infos
  cm_memory :: payloads
  cm_fatal_error :: nv_status

definition set_channel :: "channel_id \<Rightarrow> uvm_channel \<Rightarrow> uvm_channel_manager \<Rightarrow> uvm_channel_manager" where
  "set_channel c ch m = m\<lparr>cm_channels := (cm_channels m)(c := ch)\<rparr>"

section \<open>Progress\<close>

definition uvm_channel_update_completed_value ::
  "uvm_channel_manager \<Rightarrow> channel_id \<Rightarrow> u64 \<times> uvm_channel_manager" where
  "uvm_channel_update_completed_value m c =
     (let ch = cm_channels m c;
          (v, ts) = uvm_gpu_tracking_semaphore_update_completed_value (cm_memory m) (tracking_sem ch)
      in (v, set_channel c (ch\<lparr>tracking_sem := ts\<rparr>) m))"

definition uvm_channel_is_value_completed ::
  "uvm_channel_manager \<Rightarrow> channel_id \<Rightarrow> u64 \<Rightarrow> bool \<times> uvm_channel_manager" where
  "uvm_channel_is_value_completed m c v =
     (let ch = cm_channels m c;
          (b, ts) = uvm_gpu_tracking_semaphore_is_value_completed (cm_memory m) (tracking_sem ch) v
      in (b, set_channel c (ch\<lparr>tracking_sem := ts\<rparr>) m))"

text \<open>
  The completion loop, with \<open>max_to_complete - completed_count\<close> as its first argument: the
  callbacks made, the new \<^verbatim>\<open>gpu_get\<close>, and the pushbuffer and infos after the entries retired.
\<close>

fun progress_loop ::
  "nat \<Rightarrow> uvm_channel_update_mode \<Rightarrow> u64 \<Rightarrow> gpfifo_entries \<Rightarrow> channel_id \<Rightarrow> u32 \<Rightarrow> u32 \<Rightarrow> u32 \<Rightarrow>
   uvm_pushbuffer \<Rightarrow> push_infos \<Rightarrow> (nat \<times> nat) list \<times> u32 \<times> uvm_pushbuffer \<times> push_infos" where
  "progress_loop 0 mode v g c n put get pb infos = ([], get, pb, infos)"
| "progress_loop (Suc k) mode v g c n put get pb infos =
     (if get = put then ([], get, pb, infos)
      else
        let entry = (c, unat get)
        in if mode = UVM_CHANNEL_UPDATE_MODE_COMPLETED \<and> v < tracking_semaphore_value (g entry)
           then ([], get, pb, infos)
           else
             let (called, pb, infos) = uvm_pushbuffer_mark_completed g pb infos entry;
                 get = (get + 1) mod n;
                 (calls, r) = progress_loop k mode v g c n put get pb infos
             in (case called of None \<Rightarrow> (calls, r) | Some f \<Rightarrow> (f # calls, r)))"

definition uvm_channel_update_progress_with_max ::
  "uvm_channel_manager \<Rightarrow> channel_id \<Rightarrow> u32 \<Rightarrow> uvm_channel_update_mode \<Rightarrow>
   u32 \<times> (nat \<times> nat) list \<times> uvm_channel_manager" where
  "uvm_channel_update_progress_with_max m c max_to_complete mode =
     (let (v, m) = uvm_channel_update_completed_value m c;
          ch = cm_channels m c;
          n = num_gpfifo_entries ch;
          (calls, get, pb, infos) = progress_loop (unat max_to_complete) mode v (cm_entries m) c n
             (cpu_put ch) (gpu_get ch) (cm_pushbuffer m) (cm_infos m);
          m = set_channel c (ch\<lparr>gpu_get := get\<rparr>) (m\<lparr>cm_pushbuffer := pb, cm_infos := infos\<rparr>);
          pending_gpfifos = (if get \<le> cpu_put ch then cpu_put ch - get else n - get + cpu_put ch)
      in (pending_gpfifos, calls, m))"

definition uvm_channel_update_progress ::
  "uvm_channel_manager \<Rightarrow> channel_id \<Rightarrow> u32 \<times> (nat \<times> nat) list \<times> uvm_channel_manager" where
  "uvm_channel_update_progress m c = uvm_channel_update_progress_with_max m c 8 UVM_CHANNEL_UPDATE_MODE_COMPLETED"

definition channel_update_progress_all ::
  "uvm_channel_manager \<Rightarrow> channel_id \<Rightarrow> uvm_channel_update_mode \<Rightarrow> u32 \<times> (nat \<times> nat) list \<times> uvm_channel_manager" where
  "channel_update_progress_all m c mode =
     uvm_channel_update_progress_with_max m c (num_gpfifo_entries (cm_channels m c)) mode"

definition uvm_channel_update_progress_all ::
  "uvm_channel_manager \<Rightarrow> channel_id \<Rightarrow> u32 \<times> (nat \<times> nat) list \<times> uvm_channel_manager" where
  "uvm_channel_update_progress_all m c = channel_update_progress_all m c UVM_CHANNEL_UPDATE_MODE_COMPLETED"

fun update_progress_of ::
  "channel_id list \<Rightarrow> uvm_channel_manager \<Rightarrow> u32 \<times> (nat \<times> nat) list \<times> uvm_channel_manager" where
  "update_progress_of [] m = (0, [], m)"
| "update_progress_of (c # cs) m =
     (let (p, calls, m) = uvm_channel_update_progress m c; (p', calls', m) = update_progress_of cs m
      in (p + p', calls @ calls', m))"

definition uvm_channel_manager_update_progress ::
  "uvm_channel_manager \<Rightarrow> u32 \<times> (nat \<times> nat) list \<times> uvm_channel_manager" where
  "uvm_channel_manager_update_progress m = update_progress_of (all_channels_list m) m"

section \<open>Errors\<close>

definition uvm_global_set_fatal_error :: "nv_status \<Rightarrow> uvm_channel_manager \<Rightarrow> uvm_channel_manager" where
  "uvm_global_set_fatal_error error m =
     (if cm_fatal_error m = NV_OK then m\<lparr>cm_fatal_error := error\<rparr> else m)"

definition uvm_channel_get_status :: "uvm_channel_manager \<Rightarrow> channel_id \<Rightarrow> nv_status" where
  "uvm_channel_get_status m c =
     (if error_notifier (cm_channels m c) = 0 then NV_OK
      else if cm_ecc_error m then NV_ERR_ECC_ERROR else NV_ERR_RC_ERROR)"

definition uvm_channel_get_first_pending_entry ::
  "uvm_channel_manager \<Rightarrow> channel_id \<Rightarrow> gpfifo_id option \<times> uvm_channel_manager" where
  "uvm_channel_get_first_pending_entry m c =
     (let (pending_count, _, m) = channel_update_progress_all m c UVM_CHANNEL_UPDATE_MODE_COMPLETED;
          ch = cm_channels m c
      in if pending_count = 0 then (None, m)
         else (if gpu_get ch \<noteq> cpu_put ch then Some (c, unat (gpu_get ch)) else None, m))"

definition uvm_channel_get_fatal_entry ::
  "uvm_channel_manager \<Rightarrow> channel_id \<Rightarrow> gpfifo_id option \<times> uvm_channel_manager" where
  "uvm_channel_get_fatal_entry m c = uvm_channel_get_first_pending_entry m c"

definition uvm_channel_check_errors :: "uvm_channel_manager \<Rightarrow> channel_id \<Rightarrow> nv_status \<times> uvm_channel_manager" where
  "uvm_channel_check_errors m c =
     (let status = uvm_channel_get_status m c
      in if status = NV_OK then (NV_OK, m)
         else let (fatal_entry, m) = uvm_channel_get_fatal_entry m c
              in (status, uvm_global_set_fatal_error status m))"

fun check_errors_of :: "channel_id list \<Rightarrow> uvm_channel_manager \<Rightarrow> nv_status \<times> uvm_channel_manager" where
  "check_errors_of [] m = (NV_OK, m)"
| "check_errors_of (c # cs) m =
     (let (status, m) = uvm_channel_check_errors m c
      in if status \<noteq> NV_OK then (status, m) else check_errors_of cs m)"

definition uvm_channel_manager_check_errors :: "uvm_channel_manager \<Rightarrow> nv_status \<times> uvm_channel_manager" where
  "uvm_channel_manager_check_errors m =
     (if cm_fatal_error m \<noteq> NV_OK then (cm_fatal_error m, m) else check_errors_of (all_channels_list m) m)"

fun manager_wait_loop ::
  "(nat \<Rightarrow> uvm_channel_manager \<Rightarrow> uvm_channel_manager) \<Rightarrow> nat \<Rightarrow> nat \<Rightarrow> nv_status \<Rightarrow> uvm_channel_manager \<Rightarrow>
   (nv_status \<times> uvm_channel_manager) option" where
  "manager_wait_loop env 0 k status m = None"
| "manager_wait_loop env (Suc fuel) k status m =
     (let (pending_count, _, m) = uvm_channel_manager_update_progress (env k m)
      in if 0 < pending_count \<and> status = NV_OK
         then let (status, m) = uvm_channel_manager_check_errors m in manager_wait_loop env fuel (Suc k) status m
         else Some (status, m))"

definition uvm_channel_manager_wait ::
  "(nat \<Rightarrow> uvm_channel_manager \<Rightarrow> uvm_channel_manager) \<Rightarrow> nat \<Rightarrow> uvm_channel_manager \<Rightarrow>
   (nv_status \<times> uvm_channel_manager) option" where
  "uvm_channel_manager_wait env fuel m =
     (let (pending_count, _, m) = uvm_channel_manager_update_progress m
      in if pending_count = 0 then Some (uvm_channel_manager_check_errors m)
         else manager_wait_loop env fuel 0 NV_OK m)"

section \<open>Claiming a channel\<close>

definition is_channel_available :: "uvm_channel \<Rightarrow> bool" where
  "is_channel_available ch \<longleftrightarrow>
     (cpu_put ch + current_pushes_count ch + 1) mod num_gpfifo_entries ch \<noteq> gpu_get ch"

definition try_claim_channel :: "uvm_channel \<Rightarrow> bool \<times> uvm_channel" where
  "try_claim_channel ch =
     (if is_channel_available ch
      then (True, ch\<lparr>current_pushes_count := current_pushes_count ch + 1\<rparr>) else (False, ch))"

definition claim_in :: "uvm_channel_manager \<Rightarrow> channel_id \<Rightarrow> bool \<times> uvm_channel_manager" where
  "claim_in m c = (let (b, ch) = try_claim_channel (cm_channels m c) in (b, set_channel c ch m))"

definition channels_of_type :: "uvm_channel_manager \<Rightarrow> uvm_channel_type \<Rightarrow> channel_id list" where
  "channels_of_type m t = (if t = UVM_CHANNEL_TYPE_ANY then all_channels_list m else channel_pools m t)"

fun claim_first :: "channel_id list \<Rightarrow> uvm_channel_manager \<Rightarrow> channel_id option \<times> uvm_channel_manager" where
  "claim_first [] m = (None, m)"
| "claim_first (c # cs) m = (let (b, m') = claim_in m c in if b then (Some c, m') else claim_first cs m')"

text \<open>One pass of the inner loop, and the outer loop: the status and the channel claimed.\<close>

fun reserve_pass ::
  "(nat \<Rightarrow> uvm_channel_manager \<Rightarrow> uvm_channel_manager) \<Rightarrow> nat \<Rightarrow> channel_id list \<Rightarrow> uvm_channel_manager \<Rightarrow>
   (nv_status \<times> channel_id option) option \<times> nat \<times> uvm_channel_manager" where
  "reserve_pass env k [] m = (None, k, m)"
| "reserve_pass env k (c # cs) m =
     (let (_, _, m) = uvm_channel_update_progress (env k m) c;
          (b, m) = claim_in m c
      in if b then (Some (NV_OK, Some c), Suc k, m)
         else let (status, m) = uvm_channel_check_errors m c
              in if status \<noteq> NV_OK then (Some (status, None), Suc k, m)
                 else reserve_pass env (Suc k) cs m)"

fun reserve_loop ::
  "(nat \<Rightarrow> uvm_channel_manager \<Rightarrow> uvm_channel_manager) \<Rightarrow> nat \<Rightarrow> nat \<Rightarrow> channel_id list \<Rightarrow> uvm_channel_manager \<Rightarrow>
   (nv_status \<times> channel_id option \<times> uvm_channel_manager) option" where
  "reserve_loop env 0 k cs m = None"
| "reserve_loop env (Suc fuel) k cs m =
     (case reserve_pass env k cs m of
        (Some (status, c), _, m) \<Rightarrow> Some (status, c, m)
      | (None, k, m) \<Rightarrow> reserve_loop env fuel k cs m)"

definition uvm_channel_reserve_type ::
  "(nat \<Rightarrow> uvm_channel_manager \<Rightarrow> uvm_channel_manager) \<Rightarrow> nat \<Rightarrow> uvm_channel_manager \<Rightarrow> uvm_channel_type \<Rightarrow>
   (nv_status \<times> channel_id option \<times> uvm_channel_manager) option" where
  "uvm_channel_reserve_type env fuel m type =
     (case claim_first (channels_of_type m type) m of
        (Some c, m) \<Rightarrow> Some (NV_OK, Some c, m)
      | (None, m) \<Rightarrow> reserve_loop env fuel 0 (channels_of_type m type) m)"

fun channel_reserve_loop ::
  "(nat \<Rightarrow> uvm_channel_manager \<Rightarrow> uvm_channel_manager) \<Rightarrow> nat \<Rightarrow> nat \<Rightarrow> nv_status \<Rightarrow> channel_id \<Rightarrow>
   uvm_channel_manager \<Rightarrow> (nv_status \<times> uvm_channel_manager) option" where
  "channel_reserve_loop env 0 k status c m = None"
| "channel_reserve_loop env (Suc fuel) k status c m =
     (let (b, m) = claim_in (env k m) c
      in if \<not> b \<and> status = NV_OK
         then let (status, m) = uvm_channel_check_errors m c;
                  (_, _, m) = uvm_channel_update_progress m c
              in channel_reserve_loop env fuel (Suc k) status c m
         else Some (status, m))"

definition uvm_channel_reserve ::
  "(nat \<Rightarrow> uvm_channel_manager \<Rightarrow> uvm_channel_manager) \<Rightarrow> nat \<Rightarrow> uvm_channel_manager \<Rightarrow> channel_id \<Rightarrow>
   (nv_status \<times> uvm_channel_manager) option" where
  "uvm_channel_reserve env fuel m c =
     (let (b, m) = claim_in m c
      in if b then Some (NV_OK, m)
         else let (_, _, m) = uvm_channel_update_progress m c
              in channel_reserve_loop env fuel 0 NV_OK c m)"

definition uvm_channel_manager_find_available_channel :: "uvm_channel_manager \<Rightarrow> channel_id option" where
  "uvm_channel_manager_find_available_channel m =
     find (\<lambda>c. is_channel_available (cm_channels m c)) (all_channels_list m)"

section \<open>Beginning and ending a push\<close>

definition channel_get_next_push_info_index :: "uvm_channel \<Rightarrow> u32 \<times> uvm_channel" where
  "channel_get_next_push_info_index ch =
     (next_push_info_index ch,
      ch\<lparr>next_push_info_index := (next_push_info_index ch + 1) mod num_gpfifo_entries ch\<rparr>)"

definition uvm_channel_begin_push ::
  "(nat \<Rightarrow> uvm_pushbuffer \<Rightarrow> nv_status \<times> uvm_pushbuffer) \<Rightarrow> nat \<Rightarrow> uvm_channel_manager \<Rightarrow> channel_id \<Rightarrow>
   push_id \<Rightarrow> uvm_push \<Rightarrow> (nv_status \<times> uvm_push \<times> uvm_channel_manager) option" where
  "uvm_channel_begin_push progress fuel m c p push =
     (case uvm_pushbuffer_begin_push progress fuel (cm_pushbuffer m) p push of
        None \<Rightarrow> None
      | Some (status, push, pb) \<Rightarrow>
          let m = m\<lparr>cm_pushbuffer := pb\<rparr>
          in if status \<noteq> NV_OK then Some (status, push, m)
             else
               let (index, ch) = channel_get_next_push_info_index (cm_channels m c)
               in Some (NV_OK, push\<lparr>push_channel := Some c, channel_tracking_value := 0, push_info_index := index\<rparr>,
                        set_channel c ch m))"

definition uvm_push_get_size :: "uvm_push \<Rightarrow> u32" where
  "uvm_push_get_size push = ucast ((push_next push - push_begin push) div 4 * 4)"

text \<open>The channel's own state after the entry at \<^verbatim>\<open>cpu_put\<close> was queued.\<close>

definition advance_put :: "u64 \<times> u32 \<Rightarrow> uvm_channel \<Rightarrow> uvm_channel" where
  "advance_put hw ch =
     (let ts = tracking_sem ch; put = cpu_put ch; new_cpu_put = (put + 1) mod num_gpfifo_entries ch
      in ch\<lparr>tracking_sem := ts\<lparr>queued_value := queued_value ts + 1\<rparr>,
            current_pushes_count := current_pushes_count ch - 1,
            hw_gpfifo := (hw_gpfifo ch)(unat put := hw),
            cpu_put := new_cpu_put, hw_gpu_put := new_cpu_put\<rparr>)"

definition uvm_channel_end_push ::
  "(uvm_push \<Rightarrow> uvm_gpu_semaphore \<Rightarrow> u32 \<Rightarrow> uvm_push) \<Rightarrow> uvm_channel_manager \<Rightarrow> uvm_push \<Rightarrow>
   (uvm_push \<times> uvm_channel_manager) option" where
  "uvm_channel_end_push release m push =
     (case push_channel push of
        None \<Rightarrow> None
      | Some c \<Rightarrow>
          let ch = cm_channels m c;
              new_tracking_value = queued_value (tracking_sem ch) + 1;
              new_payload = (ucast new_tracking_value :: u32);
              push = release push (ts_semaphore (tracking_sem ch)) new_payload;
              push_size = uvm_push_get_size push;
              entry = \<lparr>pushbuffer_offset = uvm_pushbuffer_get_offset_for_push (cm_pushbuffer m) push,
                       pushbuffer_size = push_size, tracking_semaphore_value = new_tracking_value,
                       entry_push_info = (c, unat (push_info_index push))\<rparr>;
              g = (cm_entries m)((c, unat (cpu_put ch)) := entry);
              pushbuffer_va = uvm_pushbuffer_get_gpu_va_for_push (cm_pushbuffer m) push;
              m = set_channel c (advance_put (pushbuffer_va, push_size) ch) (m\<lparr>cm_entries := g\<rparr>);
              m = m\<lparr>cm_pushbuffer := uvm_pushbuffer_end_push g (cm_pushbuffer m) (c, unat (cpu_put ch))\<rparr>
          in Some (push\<lparr>push_info_index := - 1, channel_tracking_value := new_tracking_value\<rparr>, m))"

section \<open>The ring\<close>

text \<open>
  The entries from \<^verbatim>\<open>gpu_get\<close> up to \<^verbatim>\<open>cpu_put\<close> are pending and carry the last values queued,
  in order. Together with the on-going pushes they never fill the ring, so that equal indices
  mean an empty one.
\<close>

definition ring_size :: "uvm_channel \<Rightarrow> nat" where
  "ring_size ch = unat (num_gpfifo_entries ch)"

definition ring_pending :: "uvm_channel \<Rightarrow> nat" where
  "ring_pending ch = (unat (cpu_put ch) + ring_size ch - unat (gpu_get ch)) mod ring_size ch"

definition ring_index :: "uvm_channel \<Rightarrow> nat \<Rightarrow> nat" where
  "ring_index ch k = (unat (gpu_get ch) + k) mod ring_size ch"

definition queued_count :: "uvm_channel \<Rightarrow> nat" where
  "queued_count ch = unat (queued_value (tracking_sem ch))"

definition ring_ok :: "gpfifo_entries \<Rightarrow> channel_id \<Rightarrow> uvm_channel \<Rightarrow> bool" where
  "ring_ok g c ch \<longleftrightarrow> 2 \<le> ring_size ch \<and> ring_size ch < 2 ^ 31 \<and>
     unat (gpu_get ch) < ring_size ch \<and> unat (cpu_put ch) < ring_size ch \<and>
     ring_pending ch + unat (current_pushes_count ch) < ring_size ch \<and>
     ring_pending ch \<le> queued_count ch \<and>
     (\<forall>k < ring_pending ch. unat (tracking_semaphore_value (g (c, ring_index ch k))) =
        queued_count ch - ring_pending ch + 1 + k)"

lemma ring_distance:
  assumes "g < n" "p < (n::nat)"
  shows "(p + n - g) mod n = (if g \<le> p then p - g else p + n - g)"
proof (cases "g \<le> p")
  case True
  then have "p + n - g = (p - g) + n" by simp
  then show ?thesis using True assms by (simp only: mod_add_self2) simp
next
  case False
  then show ?thesis using assms by simp
qed

lemma ring_mod: "a < n \<Longrightarrow> b < (n::nat) \<Longrightarrow> (a + b) mod n = (if a + b < n then a + b else a + b - n)"
proof -
  assume "a < n" "b < n"
  then show ?thesis by (cases "a + b < n") (simp_all add: mod_if)
qed

lemma unat_succ_mod:
  assumes "unat (n::u32) < 2 ^ 31" "unat a < unat n"
  shows "unat ((a + 1) mod n) = (unat a + 1) mod unat n"
proof -
  have "unat (a + 1) = unat a + 1" using assms by (simp add: unat_word_ariths mod_less)
  then show ?thesis by (simp add: unat_mod)
qed

section \<open>Availability\<close>

lemma available_iff:
  assumes "ring_ok g c ch"
  shows "is_channel_available ch \<longleftrightarrow> ring_pending ch + unat (current_pushes_count ch) + 1 < ring_size ch"
proof -
  let ?n = "ring_size ch" and ?p = "unat (cpu_put ch)" and ?g = "unat (gpu_get ch)"
    and ?k = "unat (current_pushes_count ch)"
  have b: "?n < 2 ^ 31" "?g < ?n" "?p < ?n" "ring_pending ch + ?k < ?n"
    using assms by (simp_all add: ring_ok_def)
  have "unat (cpu_put ch + current_pushes_count ch + 1) = ?p + ?k + 1"
    using b by (simp add: unat_word_ariths mod_less)
  then have u: "unat ((cpu_put ch + current_pushes_count ch + 1) mod num_gpfifo_entries ch) = (?p + ?k + 1) mod ?n"
    by (simp add: unat_mod ring_size_def)
  have d: "ring_pending ch = (if ?g \<le> ?p then ?p - ?g else ?p + ?n - ?g)"
    unfolding ring_pending_def using b by (intro ring_distance)
  have "(?p + ?k + 1) mod ?n = ?g \<longleftrightarrow> ring_pending ch + ?k + 1 = ?n"
  proof (cases "?k + 1 < ?n")
    case True
    have "(?p + (?k + 1)) mod ?n = (if ?p + (?k + 1) < ?n then ?p + (?k + 1) else ?p + (?k + 1) - ?n)"
      using b True by (intro ring_mod)
    then show ?thesis using b d by (simp add: add.assoc) (auto split: if_splits)
  next
    case False
    with b have "?k + 1 = ?n" "ring_pending ch = 0" by auto
    then have "?p + ?k + 1 = ?p + ?n" "?g = ?p" using d b by (auto split: if_splits)
    moreover have "(?p + ?n) mod ?n = ?p" using b by simp
    ultimately have "(?p + ?k + 1) mod ?n = ?g" by (simp only:)
    moreover have "ring_pending ch + ?k + 1 = ?n" using \<open>?k + 1 = ?n\<close> \<open>ring_pending ch = 0\<close> by simp
    ultimately show ?thesis by blast
  qed
  moreover have "is_channel_available ch \<longleftrightarrow> (?p + ?k + 1) mod ?n \<noteq> ?g"
    unfolding is_channel_available_def by (metis u unsigned_word_eqI)
  ultimately show ?thesis using b(4) by auto
qed

lemma try_claim_cases:
  assumes "ring_ok g c ch" "try_claim_channel ch = (b, ch')"
  shows "ring_ok g c ch' \<and> ring_pending ch' = ring_pending ch \<and>
    (b \<and> ring_pending ch + unat (current_pushes_count ch) + 1 < ring_size ch \<and>
       unat (current_pushes_count ch') = unat (current_pushes_count ch) + 1 \<or>
     \<not> b \<and> ch' = ch \<and> ring_pending ch + unat (current_pushes_count ch) + 1 = ring_size ch)"
proof (cases "is_channel_available ch")
  case True
  then have a: "ring_pending ch + unat (current_pushes_count ch) + 1 < ring_size ch"
    using available_iff[OF assms(1)] by simp
  moreover have "ring_size ch < 2 ^ 31" using assms(1) by (simp add: ring_ok_def)
  ultimately have "unat (current_pushes_count ch + 1) = unat (current_pushes_count ch) + 1"
    by (simp add: unat_word_ariths mod_less)
  moreover have "b" "ch' = ch\<lparr>current_pushes_count := current_pushes_count ch + 1\<rparr>"
    using assms(2) True by (simp_all add: try_claim_channel_def)
  ultimately show ?thesis using assms(1) a
    by (simp add: ring_ok_def ring_pending_def ring_size_def ring_index_def queued_count_def)
next
  case False
  then have "\<not> ring_pending ch + unat (current_pushes_count ch) + 1 < ring_size ch"
    using available_iff[OF assms(1)] by simp
  moreover have "ring_pending ch + unat (current_pushes_count ch) < ring_size ch" using assms(1) by (simp add: ring_ok_def)
  ultimately show ?thesis using assms False by (simp add: try_claim_channel_def)
qed

section \<open>Queueing\<close>

lemma queue_cases:
  fixes hw :: "u64 \<times> u32"
  assumes ok: "ring_ok g c ch" and cur: "current_pushes_count ch \<noteq> 0" and q: "queued_count ch + 1 < 2 ^ 64"
    and v: "tracking_semaphore_value entry = queued_value (tracking_sem ch) + 1"
  defines "ch' \<equiv> advance_put hw ch" and "g' \<equiv> g((c, unat (cpu_put ch)) := entry)"
  shows "ring_ok g' c ch' \<and> ring_pending ch' = ring_pending ch + 1 \<and> queued_count ch' = queued_count ch + 1 \<and>
    unat (current_pushes_count ch') = unat (current_pushes_count ch) - 1 \<and>
    (\<forall>k < ring_pending ch. ring_index ch k \<noteq> unat (cpu_put ch))"
proof -
  let ?n = "ring_size ch" and ?p = "unat (cpu_put ch)" and ?g = "unat (gpu_get ch)"
  have b: "?n < 2 ^ 31" "?g < ?n" "?p < ?n" "2 \<le> ?n" "ring_pending ch + unat (current_pushes_count ch) < ?n"
    using ok by (simp_all add: ring_ok_def)
  have c1: "unat (current_pushes_count ch') = unat (current_pushes_count ch) - 1" "0 < unat (current_pushes_count ch)"
    using cur by (simp_all add: ch'_def advance_put_def Let_def unat_minus_one unat_gt_0)
  have same: "ring_size ch' = ?n" "gpu_get ch' = gpu_get ch" "ring_index ch' k = ring_index ch k" for k
    by (simp_all add: ch'_def advance_put_def Let_def ring_size_def ring_index_def)
  have p': "unat (cpu_put ch') = (?p + 1) mod ?n"
    using unat_succ_mod[of "num_gpfifo_entries ch" "cpu_put ch"] b
    by (simp add: ch'_def advance_put_def Let_def ring_size_def)
  have "queued_value (tracking_sem ch') = queued_value (tracking_sem ch) + 1"
    by (simp add: ch'_def advance_put_def Let_def)
  then have q': "queued_count ch' = queued_count ch + 1" "unat (tracking_semaphore_value entry) = queued_count ch + 1"
    using q by (simp_all add: queued_count_def v unat_word_ariths mod_less)
  have d: "ring_pending ch = (if ?g \<le> ?p then ?p - ?g else ?p + ?n - ?g)"
    unfolding ring_pending_def using b by (intro ring_distance)
  have pp: "(?p + 1) mod ?n < ?n" using b by simp
  have sm: "(?p + 1) mod ?n = (if ?p + 1 < ?n then ?p + 1 else 0)" using b by (auto simp: mod_if)
  have d': "ring_pending ch' = (if ?g \<le> (?p + 1) mod ?n then (?p + 1) mod ?n - ?g else (?p + 1) mod ?n + ?n - ?g)"
    unfolding ring_pending_def same p' by (rule ring_distance[OF b(2) pp])
  have rp: "ring_pending ch' = ring_pending ch + 1"
    using b c1(2) unfolding d' d sm by (auto split: if_splits)
  have im: "ring_index ch k = (if ?g + k < ?n then ?g + k else ?g + k - ?n)" if "k < ?n" for k
    unfolding ring_index_def using b(2) that by (intro ring_mod)
  have last: "ring_index ch (ring_pending ch) = ?p"
    using b im[of "ring_pending ch"] unfolding d by (auto split: if_splits)
  have other: "ring_index ch k \<noteq> ?p" if "k < ring_pending ch" for k
    using b that im[of k] unfolding d by (auto split: if_splits)
  have vals: "unat (tracking_semaphore_value (g' (c, ring_index ch k))) = queued_count ch' - ring_pending ch' + 1 + k"
    if "k < ring_pending ch'" for k
  proof (cases "k = ring_pending ch")
    case True
    moreover have "ring_pending ch \<le> queued_count ch" using ok by (simp add: ring_ok_def)
    ultimately show ?thesis using last q' rp by (simp add: g'_def)
  next
    case False
    then have "k < ring_pending ch" using that rp by simp
    then show ?thesis using other[of k] ok q' rp by (simp add: g'_def ring_ok_def)
  qed
  have "ring_ok g' c ch'"
    using b c1 rp q' vals ok p' pp unfolding ring_ok_def same by simp
  with rp q' c1 other show ?thesis by blast
qed

section \<open>Retiring\<close>

text \<open>Retiring a list of entries in order, as a reference for the loop.\<close>

fun retire ::
  "gpfifo_entries \<Rightarrow> gpfifo_id list \<Rightarrow> uvm_pushbuffer \<Rightarrow> push_infos \<Rightarrow>
   (nat \<times> nat) list \<times> uvm_pushbuffer \<times> push_infos" where
  "retire g [] pb infos = ([], pb, infos)"
| "retire g (e # es) pb infos =
     (let (called, pb, infos) = uvm_pushbuffer_mark_completed g pb infos e; (calls, r) = retire g es pb infos
      in (case called of None \<Rightarrow> (calls, r) | Some f \<Rightarrow> (f # calls, r)))"

definition done_count :: "uvm_channel_update_mode \<Rightarrow> u64 \<Rightarrow> nat \<Rightarrow> nat \<Rightarrow> nat" where
  "done_count mode v first p =
     (case mode of UVM_CHANNEL_UPDATE_MODE_COMPLETED \<Rightarrow> min p (unat v - first)
      | UVM_CHANNEL_UPDATE_MODE_FORCE_ALL \<Rightarrow> p)"

lemma progress_loop_retires:
  assumes "unat n < 2 ^ 31" "unat get < unat n" "unat put < unat n"
    and "p = (unat put + unat n - unat get) mod unat n"
    and "\<forall>k < p. unat (tracking_semaphore_value (g (c, (unat get + k) mod unat n))) = first + 1 + k"
    and "cnt = min m (done_count mode v first p)"
  shows "\<exists>calls pb' infos'. retire g (map (\<lambda>k. (c, (unat get + k) mod unat n)) [0 ..< cnt]) pb infos = (calls, pb', infos') \<and>
    progress_loop m mode v g c n put get pb infos = (calls, word_of_nat ((unat get + cnt) mod unat n), pb', infos')"
  using assms
proof (induction m arbitrary: get pb infos p first cnt)
  case 0
  then show ?case by simp
next
  case (Suc m)
  let ?N = "unat n"
  have d: "p = (if unat get \<le> unat put then unat put - unat get else unat put + ?N - unat get)"
    unfolding Suc.prems(4) using Suc.prems(2,3) by (intro ring_distance)
  have p0: "p = 0 \<longleftrightarrow> get = put" using d Suc.prems(2,3) by (auto simp: word_unat_eq_iff split: if_splits)
  show ?case
  proof (cases "cnt = 0")
    case True
    have "progress_loop (Suc m) mode v g c n put get pb infos = ([], get, pb, infos)"
    proof (cases "p = 0")
      case False
      then have "mode = UVM_CHANNEL_UPDATE_MODE_COMPLETED" "unat v \<le> first"
        using Suc.prems(6) True by (auto simp: done_count_def split: uvm_channel_update_mode.splits)
      moreover have "unat (tracking_semaphore_value (g (c, unat get))) = first + 1"
        using Suc.prems(5) False Suc.prems(2) by (force dest: spec[of _ 0])
      ultimately have "v < tracking_semaphore_value (g (c, unat get))" by (simp add: word_less_nat_alt)
      then show ?thesis using \<open>mode = _\<close> False p0 by simp
    qed (use p0 in simp)
    then show ?thesis using True Suc.prems(2) by simp
  next
    case False
    then have pp: "0 < p" using Suc.prems(6) by (auto simp: done_count_def split: uvm_channel_update_mode.splits)
    have v0: "unat (tracking_semaphore_value (g (c, unat get))) = first + 1"
      using Suc.prems(5) pp Suc.prems(2) by (force dest: spec[of _ 0])
    have go: "\<not> (mode = UVM_CHANNEL_UPDATE_MODE_COMPLETED \<and> v < tracking_semaphore_value (g (c, unat get)))"
      using Suc.prems(6) False v0
      by (auto simp: done_count_def word_less_nat_alt split: uvm_channel_update_mode.splits)
    obtain called pb1 infos1 where mk: "uvm_pushbuffer_mark_completed g pb infos (c, unat get) = (called, pb1, infos1)"
      by (metis prod_cases3)
    define get' where "get' = (get + 1) mod n"
    have g': "unat get' = (unat get + 1) mod ?N" unfolding get'_def using Suc.prems(1,2) by (rule unat_succ_mod)
    then have gl: "unat get' < ?N" using Suc.prems(2) by simp
    have g'': "unat get' = (if unat get + 1 < ?N then unat get + 1 else 0)" using g' Suc.prems(2) by (auto simp: mod_if)
    have p': "p - 1 = (unat put + ?N - unat get') mod ?N"
      unfolding ring_distance[OF gl Suc.prems(3)] using d pp Suc.prems(2,3) g'' by (auto split: if_splits)
    have idx: "(unat get' + k) mod ?N = (unat get + Suc k) mod ?N" for k
      unfolding g' by (simp add: mod_add_left_eq)
    have vals: "\<forall>k < p - 1. unat (tracking_semaphore_value (g (c, (unat get' + k) mod ?N))) = Suc first + 1 + k"
    proof (intro allI impI)
      fix k assume "k < p - 1"
      then have "Suc k < p" by simp
      with Suc.prems(5) show "unat (tracking_semaphore_value (g (c, (unat get' + k) mod ?N))) = Suc first + 1 + k"
        unfolding idx by (metis add.assoc add_Suc_right add_Suc)
    qed
    have cnt': "cnt - 1 = min m (done_count mode v (Suc first) (p - 1))"
      using Suc.prems(6) False by (auto simp: done_count_def min_def split: uvm_channel_update_mode.splits if_splits)
    from Suc.IH[OF Suc.prems(1) gl Suc.prems(3) p' vals cnt', of pb1 infos1] obtain calls pb' infos' where
      ih: "retire g (map (\<lambda>k. (c, (unat get' + k) mod ?N)) [0 ..< cnt - 1]) pb1 infos1 = (calls, pb', infos')"
      "progress_loop m mode v g c n put get' pb1 infos1 = (calls, word_of_nat ((unat get' + (cnt - 1)) mod ?N), pb', infos')"
      by blast
    obtain cnt1 where c1: "cnt = Suc cnt1" using False by (cases cnt) auto
    have l: "map (\<lambda>k. (c, (unat get + k) mod ?N)) [0 ..< cnt] =
        (c, unat get) # map (\<lambda>k. (c, (unat get' + k) mod ?N)) [0 ..< cnt - 1]"
      unfolding idx c1 using Suc.prems(2)
      by (simp only: upt_conv_Cons[OF zero_less_Suc] list.map map_Suc_upt[symmetric] map_map comp_def diff_Suc_1) simp
    have e: "(unat get' + (cnt - 1)) mod ?N = (unat get + cnt) mod ?N" unfolding idx using c1 by simp
    have ne: "get \<noteq> put" using pp p0 by simp
    show ?thesis
      unfolding l using ih ne go mk e by (auto simp: get'_def[symmetric] split: option.split)
  qed
qed

text \<open>How many entries one update retires.\<close>

definition retired_count ::
  "uvm_channel_manager \<Rightarrow> channel_id \<Rightarrow> u32 \<Rightarrow> uvm_channel_update_mode \<Rightarrow> nat" where
  "retired_count m c max_to_complete mode =
     (let ch = cm_channels m c
      in min (unat max_to_complete)
           (done_count mode (fst (uvm_channel_update_completed_value m c)) (queued_count ch - ring_pending ch) (ring_pending ch)))"

lemma update_completed_channel:
  assumes "uvm_channel_update_completed_value m c = (v, m')"
  shows "cm_entries m' = cm_entries m \<and> cm_pushbuffer m' = cm_pushbuffer m \<and> cm_infos m' = cm_infos m \<and>
    (\<exists>ts. cm_channels m' c = (cm_channels m c)\<lparr>tracking_sem := ts\<rparr> \<and> queued_value ts = queued_value (tracking_sem (cm_channels m c)))"
proof -
  obtain v' ts where u: "update_completed_value_locked (cm_memory m) (tracking_sem (cm_channels m c)) = (v', ts)"
    by fastforce
  then have "queued_value ts = queued_value (tracking_sem (cm_channels m c))"
    by (auto simp: update_completed_value_locked_def Let_def split: if_splits)
  moreover have "m' = set_channel c ((cm_channels m c)\<lparr>tracking_sem := ts\<rparr>) m"
    using assms u by (simp add: uvm_channel_update_completed_value_def Let_def
        uvm_gpu_tracking_semaphore_update_completed_value_def)
  ultimately show ?thesis by (auto simp: set_channel_def)
qed

lemma ring_after_retire:
  assumes ok: "ring_ok g c ch" and cnt: "cnt \<le> ring_pending ch"
    and get: "unat get = (unat (gpu_get ch) + cnt) mod ring_size ch"
    and ts: "queued_value ts = queued_value (tracking_sem ch)"
  defines "ch' \<equiv> ch\<lparr>tracking_sem := ts, gpu_get := get\<rparr>"
  shows "ring_pending ch' = ring_pending ch - cnt \<and> ring_ok g c ch' \<and>
    unat (if get \<le> cpu_put ch then cpu_put ch - get else num_gpfifo_entries ch - get + cpu_put ch) = ring_pending ch - cnt"
proof -
  let ?n = "ring_size ch" and ?p = "unat (cpu_put ch)" and ?g = "unat (gpu_get ch)"
  have b: "?n < 2 ^ 31" "?g < ?n" "?p < ?n" "2 \<le> ?n" "ring_pending ch + unat (current_pushes_count ch) < ?n"
    "ring_pending ch \<le> queued_count ch"
    using ok by (simp_all add: ring_ok_def)
  have s: "ring_size ch' = ?n" "queued_count ch' = queued_count ch" "cpu_put ch' = cpu_put ch" "gpu_get ch' = get"
    "current_pushes_count ch' = current_pushes_count ch"
    by (simp_all add: ch'_def ring_size_def queued_count_def ts)
  have gl: "unat get < ?n" using get b by simp
  have d: "ring_pending ch = (if ?g \<le> ?p then ?p - ?g else ?p + ?n - ?g)"
    unfolding ring_pending_def using b by (intro ring_distance)
  have gm: "unat get = (if ?g + cnt < ?n then ?g + cnt else ?g + cnt - ?n)"
    unfolding get using b cnt by (intro ring_mod) auto
  have d': "ring_pending ch' = (if unat get \<le> ?p then ?p - unat get else ?p + ?n - unat get)"
    unfolding ring_pending_def s using gl b(3) by (intro ring_distance)
  have p': "ring_pending ch' = ring_pending ch - cnt"
    unfolding d' using b cnt d gm by (auto split: if_splits)
  have idx: "ring_index ch' k = ring_index ch (cnt + k)" for k
    unfolding ring_index_def s get by (simp add: mod_add_left_eq add.assoc)
  have "ring_ok g c ch'"
    unfolding ring_ok_def s p' idx using b gl cnt ok by (auto simp: ring_ok_def)
  moreover have "unat (if get \<le> cpu_put ch then cpu_put ch - get else num_gpfifo_entries ch - get + cpu_put ch) = ring_pending ch - cnt"
  proof (cases "get \<le> cpu_put ch")
    case True
    then show ?thesis using d' p' by (simp add: unat_minus_le word_le_nat_alt)
  next
    case False
    have le: "get \<le> num_gpfifo_entries ch" using gl by (simp add: word_le_nat_alt ring_size_def)
    have "unat (num_gpfifo_entries ch - get) = ?n - unat get" using le by (simp add: unat_minus_le ring_size_def)
    then have "unat (num_gpfifo_entries ch - get + cpu_put ch) = ?n - unat get + ?p"
      using b gl by (simp add: unat_word_ariths mod_less)
    then show ?thesis using False d' p' gl by (simp add: word_le_nat_alt)
  qed
  ultimately show ?thesis using p' by blast
qed

section \<open>Properties\<close>

text \<open>
  C4. Progress of a channel. An update retires, in the order they were queued, exactly the
  pending entries whose tracking value has completed (all of them when forced), at most
  \<open>max_to_complete\<close>; it returns the exact number still pending, around the wrap of the ring,
  and keeps the ring well formed. Retiring makes each entry's callback and releases its
  pushbuffer space, in that order.
\<close>

theorem channel_progress_correct:
  assumes ok: "ring_ok (cm_entries m) c (cm_channels m c)"
    and r: "uvm_channel_update_progress_with_max m c max_to_complete mode = (pending_count, calls, m')"
  shows "unat pending_count = ring_pending (cm_channels m c) - retired_count m c max_to_complete mode \<and>
    ring_pending (cm_channels m' c) = unat pending_count \<and>
    ring_ok (cm_entries m') c (cm_channels m' c) \<and> cm_entries m' = cm_entries m \<and>
    retire (cm_entries m) (map (\<lambda>k. (c, ring_index (cm_channels m c) k)) [0 ..< retired_count m c max_to_complete mode])
      (cm_pushbuffer m) (cm_infos m) = (calls, cm_pushbuffer m', cm_infos m')"
proof -
  obtain v m1 where v: "uvm_channel_update_completed_value m c = (v, m1)" by fastforce
  let ?ch = "cm_channels m c" and ?cnt = "retired_count m c max_to_complete mode"
  let ?n = "ring_size ?ch"
  from update_completed_channel[OF v] obtain ts where m1: "cm_entries m1 = cm_entries m" "cm_pushbuffer m1 = cm_pushbuffer m"
    "cm_infos m1 = cm_infos m" "cm_channels m1 c = ?ch\<lparr>tracking_sem := ts\<rparr>" "queued_value ts = queued_value (tracking_sem ?ch)"
    by blast
  let ?first = "queued_count ?ch - ring_pending ?ch"
  have cnt: "?cnt = min (unat max_to_complete) (done_count mode v ?first (ring_pending ?ch))"
    by (simp add: retired_count_def v Let_def)
  have vals: "\<forall>k < ring_pending ?ch. unat (tracking_semaphore_value (cm_entries m (c, (unat (gpu_get ?ch) + k) mod unat (num_gpfifo_entries ?ch)))) = ?first + 1 + k"
    using ok by (simp add: ring_ok_def ring_index_def ring_size_def)
  have b: "unat (num_gpfifo_entries ?ch) < 2 ^ 31" "unat (gpu_get ?ch) < unat (num_gpfifo_entries ?ch)" "unat (cpu_put ?ch) < unat (num_gpfifo_entries ?ch)"
    using ok by (simp_all add: ring_ok_def ring_size_def)
  have rp: "ring_pending ?ch = (unat (cpu_put ?ch) + unat (num_gpfifo_entries ?ch) - unat (gpu_get ?ch)) mod unat (num_gpfifo_entries ?ch)"
    by (simp add: ring_pending_def ring_size_def)
  from progress_loop_retires[OF b rp vals cnt, of "cm_pushbuffer m" "cm_infos m"] obtain calls' pb' infos' where
    l: "retire (cm_entries m) (map (\<lambda>k. (c, ring_index ?ch k)) [0 ..< ?cnt]) (cm_pushbuffer m) (cm_infos m) = (calls', pb', infos')"
      "progress_loop (unat max_to_complete) mode v (cm_entries m) c (num_gpfifo_entries ?ch) (cpu_put ?ch) (gpu_get ?ch) (cm_pushbuffer m) (cm_infos m)
        = (calls', word_of_nat ((unat (gpu_get ?ch) + ?cnt) mod ?n), pb', infos')"
    by (auto simp: ring_index_def ring_size_def)
  define get where "get = (word_of_nat ((unat (gpu_get ?ch) + ?cnt) mod ?n) :: u32)"
  have "(unat (gpu_get ?ch) + ?cnt) mod ?n < 2 ^ 32" using b
    by (intro order_less_trans[OF mod_less_divisor]) (simp_all add: ring_size_def)
  then have ug: "unat get = (unat (gpu_get ?ch) + ?cnt) mod ?n" unfolding get_def by (rule unat_of_nat_u32)
  have le: "?cnt \<le> ring_pending ?ch" unfolding cnt by (auto simp: done_count_def split: uvm_channel_update_mode.splits)
  note ra = ring_after_retire[OF ok le ug m1(5)]
  have res: "pending_count = (if get \<le> cpu_put ?ch then cpu_put ?ch - get else num_gpfifo_entries ?ch - get + cpu_put ?ch)"
    "calls = calls'" "m' = set_channel c (?ch\<lparr>tracking_sem := ts, gpu_get := get\<rparr>) (m1\<lparr>cm_pushbuffer := pb', cm_infos := infos'\<rparr>)"
    using r l(2) by (auto simp: uvm_channel_update_progress_with_max_def v m1 Let_def get_def)
  show ?thesis using ra l(1) by (simp add: res set_channel_def m1)
qed

definition sample_channel :: uvm_channel where
  "sample_channel = \<lparr>num_gpfifo_entries = 4, cpu_put = 0, gpu_get = 0, current_pushes_count = 0, next_push_info_index = 0,
     tracking_sem = \<lparr>ts_semaphore = null_semaphore, completed_value = 0, queued_value = 0\<rparr>, error_notifier = 0,
     hw_gpfifo = (\<lambda>i. (0, 0)), hw_gpu_put = 0\<rparr>"

text \<open>A channel with one pending entry, in a ring of two.\<close>

definition busy_channel :: uvm_channel where
  "busy_channel = sample_channel\<lparr>num_gpfifo_entries := 2, cpu_put := 1,
     tracking_sem := \<lparr>ts_semaphore = null_semaphore, completed_value = 0, queued_value = 1\<rparr>, error_notifier := 1\<rparr>"

definition sample_manager :: "uvm_channel \<Rightarrow> u32 \<Rightarrow> uvm_channel_manager" where
  "sample_manager ch payload = \<lparr>cm_gpu = 0, cm_ecc_error = False, cm_channels = (\<lambda>c. ch), all_channels_list = [0],
     channel_pools = (\<lambda>t. [0]), cm_pushbuffer = sample_pushbuffer,
     cm_entries = (\<lambda>e. sample_entry\<lparr>tracking_semaphore_value := 1\<rparr>), cm_infos = (\<lambda>i. sample_info),
     cm_memory = (\<lambda>a. payload), cm_fatal_error = NV_OK\<rparr>"

lemma sample_rings:
  "ring_ok (cm_entries (sample_manager ch p)) 0 sample_channel" "ring_pending sample_channel = 0"
  "ring_ok (cm_entries (sample_manager ch p)) 0 busy_channel" "ring_pending busy_channel = 1"
  by (simp_all add: ring_ok_def ring_pending_def ring_size_def ring_index_def queued_count_def sample_channel_def
      busy_channel_def sample_manager_def)

lemma update_completed_sample:
  "uvm_channel_update_completed_value (sample_manager busy_channel p) 0 =
     (ucast p, set_channel 0 (busy_channel\<lparr>tracking_sem := (tracking_sem busy_channel)\<lparr>completed_value := ucast p\<rparr>\<rparr>) (sample_manager busy_channel p))"
proof -
  have "\<not> p < 0" by simp
  have "ucast p = (0::u64) \<longleftrightarrow> p = 0"
  proof
    assume "ucast p = (0::u64)"
    then have "unat (ucast p :: u64) = 0" by simp
    then show "p = 0" by (simp only: ucast_32_64 unsigned_eq_0_iff)
  qed simp
  then show ?thesis
    by (auto simp: uvm_channel_update_completed_value_def uvm_gpu_tracking_semaphore_update_completed_value_def
        update_completed_value_locked_def uvm_gpu_semaphore_get_payload_def sample_manager_def busy_channel_def Let_def)
qed

theorem channel_progress_correct_witness:
  "\<exists>calls m'. uvm_channel_update_progress_with_max (sample_manager busy_channel 1) 0 8 UVM_CHANNEL_UPDATE_MODE_COMPLETED = (0, calls, m')"
proof -
  let ?m = "sample_manager busy_channel 1"
  obtain p calls m' where r: "uvm_channel_update_progress_with_max ?m 0 8 UVM_CHANNEL_UPDATE_MODE_COMPLETED = (p, calls, m')"
    by (metis prod_cases3)
  have c: "cm_channels ?m 0 = busy_channel" by (simp add: sample_manager_def)
  have "retired_count ?m 0 8 UVM_CHANNEL_UPDATE_MODE_COMPLETED = 1"
    by (simp add: retired_count_def update_completed_sample c sample_rings done_count_def Let_def)
       (simp add: queued_count_def busy_channel_def)
  with channel_progress_correct[OF _ r] have "unat p = 0" by (simp add: c sample_rings)
  with r show ?thesis by (auto simp: unsigned_eq_0_iff)
qed

text \<open>
  C25. A channel is claimed exactly when its pending and on-going pushes leave room for one more
  in the ring, of which one entry always stays free; a claim counts one more on-going push, a
  refused one changes nothing.
\<close>

theorem channel_claim_correct:
  assumes "ring_ok g c ch" "try_claim_channel ch = (b, ch')"
  shows "ring_ok g c ch' \<and> ring_pending ch' = ring_pending ch \<and>
    (b \<and> ring_pending ch + unat (current_pushes_count ch) + 1 < ring_size ch \<and>
       unat (current_pushes_count ch') = unat (current_pushes_count ch) + 1 \<or>
     \<not> b \<and> ch' = ch \<and> ring_pending ch + unat (current_pushes_count ch) + 1 = ring_size ch)"
  by (rule try_claim_cases[OF assms])

theorem channel_claim_correct_witness:
  "fst (try_claim_channel sample_channel) \<and> \<not> fst (try_claim_channel busy_channel)"
proof -
  obtain b ch b' ch' where r: "try_claim_channel sample_channel = (b, ch)" "try_claim_channel busy_channel = (b', ch')"
    by fastforce
  show ?thesis
    using channel_claim_correct[OF sample_rings(1) r(1)] channel_claim_correct[OF sample_rings(3) r(2)]
    unfolding r sample_rings by (simp add: sample_channel_def busy_channel_def ring_size_def)
qed

text \<open>
  C7. Ending a push, claimed before, queues it in an entry that is not pending, whatever is:
  the entry records the next tracking value and the push's place and size, every other entry
  is left alone, the hardware entry and put follow, and the ring stays well formed with one
  push more pending and one fewer on-going.
\<close>

theorem channel_end_push_correct:
  assumes "ring_ok (cm_entries m) c (cm_channels m c)" "push_channel push = Some c"
    and "current_pushes_count (cm_channels m c) \<noteq> 0" "queued_count (cm_channels m c) + 1 < 2 ^ 64"
    and "uvm_channel_end_push release m push = Some (push', m')"
  shows "ring_ok (cm_entries m') c (cm_channels m' c) \<and>
    ring_pending (cm_channels m' c) = ring_pending (cm_channels m c) + 1 \<and>
    unat (current_pushes_count (cm_channels m' c)) = unat (current_pushes_count (cm_channels m c)) - 1 \<and>
    unat (channel_tracking_value push') = queued_count (cm_channels m c) + 1 \<and>
    (let e = (c, unat (cpu_put (cm_channels m c)));
         released = release push (ts_semaphore (tracking_sem (cm_channels m c))) (ucast (channel_tracking_value push'))
     in (\<forall>k < ring_pending (cm_channels m c). ring_index (cm_channels m c) k \<noteq> snd e) \<and>
        (\<forall>x. x \<noteq> e \<longrightarrow> cm_entries m' x = cm_entries m x) \<and>
        tracking_semaphore_value (cm_entries m' e) = channel_tracking_value push' \<and>
        pushbuffer_size (cm_entries m' e) = uvm_push_get_size released \<and>
        pushbuffer_offset (cm_entries m' e) = uvm_pushbuffer_get_offset_for_push (cm_pushbuffer m) released \<and>
        hw_gpfifo (cm_channels m' c) (snd e) =
          (uvm_pushbuffer_get_gpu_va_for_push (cm_pushbuffer m) released, uvm_push_get_size released) \<and>
        hw_gpu_put (cm_channels m' c) = cpu_put (cm_channels m' c))"
proof -
  let ?ch = "cm_channels m c"
  let ?v = "queued_value (tracking_sem ?ch) + 1"
  let ?rel = "release push (ts_semaphore (tracking_sem ?ch)) (ucast ?v)"
  let ?entry = "\<lparr>pushbuffer_offset = uvm_pushbuffer_get_offset_for_push (cm_pushbuffer m) ?rel,
                 pushbuffer_size = uvm_push_get_size ?rel, tracking_semaphore_value = ?v,
                 entry_push_info = (c, unat (push_info_index ?rel))\<rparr>"
  let ?g = "(cm_entries m)((c, unat (cpu_put ?ch)) := ?entry)"
  let ?hw = "(uvm_pushbuffer_get_gpu_va_for_push (cm_pushbuffer m) ?rel, uvm_push_get_size ?rel)"
  have r: "push' = ?rel\<lparr>push_info_index := - 1, channel_tracking_value := ?v\<rparr>" "cm_entries m' = ?g"
    "cm_channels m' c = advance_put ?hw ?ch"
    using assms(2,5) by (auto simp: uvm_channel_end_push_def Let_def set_channel_def)
  have "unat ?v = queued_count ?ch + 1"
    using assms(4) by (simp add: queued_count_def unat_word_ariths mod_less)
  moreover have "ring_ok ?g c (advance_put ?hw ?ch) \<and> ring_pending (advance_put ?hw ?ch) = ring_pending ?ch + 1 \<and>
      queued_count (advance_put ?hw ?ch) = queued_count ?ch + 1 \<and>
      unat (current_pushes_count (advance_put ?hw ?ch)) = unat (current_pushes_count ?ch) - 1 \<and>
      (\<forall>k < ring_pending ?ch. ring_index ?ch k \<noteq> unat (cpu_put ?ch))"
    by (rule queue_cases[OF assms(1,3,4)]) simp
  ultimately show ?thesis unfolding r Let_def by (simp add: advance_put_def Let_def)
qed

theorem channel_end_push_correct_witness:
  "\<exists>push' m'. uvm_channel_end_push (\<lambda>p s v. p\<lparr>push_next := push_next p + 24\<rparr>)
       (sample_manager (sample_channel\<lparr>current_pushes_count := 1\<rparr>) 0) (sample_push\<lparr>push_channel := Some 0\<rparr>) = Some (push', m') \<and>
     channel_tracking_value push' = 1 \<and> ring_pending (cm_channels m' 0) = 1"
proof -
  let ?rel = "\<lambda>p s v. p\<lparr>push_next := push_next p + 24\<rparr>"
  let ?ch = "sample_channel\<lparr>current_pushes_count := 1\<rparr>"
  let ?m = "sample_manager ?ch 0" and ?p = "sample_push\<lparr>push_channel := Some 0\<rparr>"
  obtain push' m' where r: "uvm_channel_end_push ?rel ?m ?p = Some (push', m')"
    by (auto simp: uvm_channel_end_push_def Let_def)
  have ch: "cm_channels ?m 0 = ?ch" by (simp add: sample_manager_def)
  have k: "ring_pending ?ch = 0" "queued_count ?ch = 0" "current_pushes_count ?ch \<noteq> 0"
    by (simp_all add: ring_pending_def ring_size_def queued_count_def sample_channel_def)
  have "ring_ok (cm_entries ?m) 0 ?ch"
    by (simp add: ring_ok_def k) (simp add: ring_size_def sample_channel_def)
  with channel_end_push_correct[OF _ _ _ _ r, of 0] k
  have "unat (channel_tracking_value push') = 1" "ring_pending (cm_channels m' 0) = 1" by (simp_all add: ch)
  then have "unat (channel_tracking_value push') = unat (1::u64)" by simp
  then have "channel_tracking_value push' = 1" by (rule unsigned_word_eqI)
  with r \<open>ring_pending (cm_channels m' 0) = 1\<close> show ?thesis by blast
qed

text \<open>
  A lost reservation. \<^verbatim>\<open>uvm_channel_reserve\<close> claims again before it looks at the status of
  the error check. If the channel is full at first and in the loop, and an entry is freed in
  the pass that finds a channel error, the claim then succeeds and the error is returned all
  the same: the caller takes the reservation as failed, and the channel's count of on-going
  pushes stays one too high.
\<close>

theorem channel_reserve_error_leaks:
  assumes "claim_in m c = (False, m1)" "uvm_channel_update_progress m1 c = (p0, calls0, m2)"
    and "claim_in (env 0 m2) c = (False, m3)" "uvm_channel_check_errors m3 c = (st, m4)" "st \<noteq> NV_OK"
    and "uvm_channel_update_progress m4 c = (p1, calls1, m5)" "is_channel_available (cm_channels (env 1 m5) c)"
  shows "\<exists>m'. uvm_channel_reserve env (Suc (Suc fuel)) m c = Some (st, m') \<and>
    current_pushes_count (cm_channels m' c) = current_pushes_count (cm_channels (env 1 m5) c) + 1"
proof -
  have c: "claim_in (env 1 m5) c = (True, set_channel c
      ((cm_channels (env 1 m5) c)\<lparr>current_pushes_count := current_pushes_count (cm_channels (env 1 m5) c) + 1\<rparr>) (env 1 m5))"
    using assms(7) by (simp add: claim_in_def try_claim_channel_def)
  show ?thesis using assms(1-6) c by (simp add: uvm_channel_reserve_def set_channel_def)
qed

theorem channel_reserve_error_leaks_witness:
  "\<exists>m'. uvm_channel_reserve (\<lambda>k m. if k = 0 then m else sample_manager sample_channel 0) 2 (sample_manager busy_channel 0) 0 =
     Some (NV_ERR_RC_ERROR, m') \<and> current_pushes_count (cm_channels m' 0) = 1"
proof -
  let ?env = "\<lambda>(k::nat) m. if k = 0 then m else sample_manager sample_channel 0"
  let ?m = "sample_manager busy_channel 0"
  have same: "set_channel 0 ch m = m" if "cm_channels m 0 = ch" for m ch
  proof -
    have "set_channel 0 (cm_channels m 0) m = m" by (simp add: set_channel_def)
    then show ?thesis unfolding that .
  qed
  have "\<not> is_channel_available busy_channel"
    by (simp add: is_channel_available_def busy_channel_def sample_channel_def)
  then have full: "claim_in m 0 = (False, m)" if "cm_channels m 0 = busy_channel" for m
    using that by (simp add: claim_in_def try_claim_channel_def same)
  have keep: "\<exists>p calls m'. uvm_channel_update_progress_with_max m 0 k UVM_CHANNEL_UPDATE_MODE_COMPLETED = (p, calls, m') \<and>
      cm_channels m' 0 = busy_channel \<and> cm_entries m' = cm_entries m \<and> cm_memory m' = cm_memory m \<and> cm_ecc_error m' = cm_ecc_error m"
    if "cm_channels m 0 = busy_channel" "cm_entries m = cm_entries ?m" "cm_memory m = cm_memory ?m" for m k
  proof -
    have "uvm_channel_update_completed_value m 0 = (0, m)"
      using that by (simp add: uvm_channel_update_completed_value_def uvm_gpu_tracking_semaphore_update_completed_value_def
          update_completed_value_locked_def uvm_gpu_semaphore_get_payload_def Let_def same)
        (simp add: busy_channel_def sample_manager_def same)
    moreover have "progress_loop j UVM_CHANNEL_UPDATE_MODE_COMPLETED 0 (cm_entries ?m) 0 2 1 0 pb infos = ([], 0, pb, infos)" for j pb infos
      by (cases j) (simp_all add: sample_manager_def)
    ultimately show ?thesis using that
      by (simp add: uvm_channel_update_progress_with_max_def set_channel_def Let_def)
        (simp add: busy_channel_def sample_channel_def)
  qed
  have m: "cm_channels ?m 0 = busy_channel" by (simp add: sample_manager_def)
  from keep[of ?m 8] m obtain p0 calls0 m2 where m2: "uvm_channel_update_progress ?m 0 = (p0, calls0, m2)"
    "cm_channels m2 0 = busy_channel" "cm_entries m2 = cm_entries ?m" "cm_memory m2 = cm_memory ?m" "cm_ecc_error m2 = cm_ecc_error ?m"
    by (auto simp: uvm_channel_update_progress_def)
  from keep[of m2 "num_gpfifo_entries busy_channel"] m2 obtain p calls m3 where
    m3: "channel_update_progress_all m2 0 UVM_CHANNEL_UPDATE_MODE_COMPLETED = (p, calls, m3)"
    by (auto simp: channel_update_progress_all_def)
  have "uvm_channel_get_status m2 0 = NV_ERR_RC_ERROR"
    using m2 by (simp add: uvm_channel_get_status_def) (simp add: busy_channel_def sample_manager_def)
  then have "fst (uvm_channel_check_errors m2 0) = NV_ERR_RC_ERROR"
    using m3 by (simp add: uvm_channel_check_errors_def uvm_channel_get_fatal_entry_def
        uvm_channel_get_first_pending_entry_def Let_def)
  then obtain m4 where m4: "uvm_channel_check_errors m2 0 = (NV_ERR_RC_ERROR, m4)" by (metis prod.collapse)
  obtain p1 calls1 m5 where m5: "uvm_channel_update_progress m4 0 = (p1, calls1, m5)" by (metis prod_cases3)
  have av: "is_channel_available (cm_channels (?env 1 m5) 0)"
    by (simp add: is_channel_available_def sample_manager_def sample_channel_def)
  have full2: "claim_in (?env 0 m2) 0 = (False, m2)" using full[OF m2(2)] by simp
  from channel_reserve_error_leaks[where env = ?env and fuel = 0, OF full[OF m] m2(1) full2 m4 _ m5 av]
  show ?thesis by (simp add: numeral_2_eq_2) (simp add: sample_manager_def sample_channel_def)
qed

text \<open>
  The push infos of a channel: threads claim the channel and take an index when they begin, end
  in any order, and entries retire in order. \<open>on\<close> lists the indices of the on-going pushes.
\<close>

inductive info_step :: "uvm_channel \<times> u32 list \<Rightarrow> uvm_channel \<times> u32 list \<Rightarrow> bool" where
  begin_push: "try_claim_channel ch = (True, ch1) \<Longrightarrow> channel_get_next_push_info_index ch1 = (i, ch2) \<Longrightarrow>
    info_step (ch, on) (ch2, on @ [i])"
| end_push: "info_step (ch, xs @ i # ys) (advance_put hw ch, xs @ ys)"
| retire_entry: "gpu_get ch \<noteq> cpu_put ch \<Longrightarrow>
    info_step (ch, on) (ch\<lparr>gpu_get := (gpu_get ch + 1) mod num_gpfifo_entries ch\<rparr>, on)"

text \<open>A push that begins, ends and retires while others go on.\<close>

lemma info_step_through:
  assumes "try_claim_channel ch = (True, ch1)" "channel_get_next_push_info_index ch1 = (i, ch2)"
    and "gpu_get (advance_put hw ch2) \<noteq> cpu_put (advance_put hw ch2)"
  shows "info_step\<^sup>*\<^sup>* (ch, on) ((advance_put hw ch2)\<lparr>gpu_get := (gpu_get (advance_put hw ch2) + 1) mod
    num_gpfifo_entries (advance_put hw ch2)\<rparr>, on)"
proof -
  have "info_step\<^sup>*\<^sup>* (ch, on) (ch2, on @ [i])"
    using info_step.begin_push[OF assms(1,2)] by (rule r_into_rtranclp)
  also have "info_step (ch2, on @ [i]) (advance_put hw ch2, on)" using info_step.end_push[of ch2 on i "[]"] by simp
  also have "info_step (advance_put hw ch2, on) ((advance_put hw ch2)\<lparr>gpu_get := (gpu_get (advance_put hw ch2) + 1) mod
    num_gpfifo_entries (advance_put hw ch2)\<rparr>, on)" by (rule info_step.retire_entry[OF assms(3)])
  finally show ?thesis .
qed

text \<open>The channel of four entries after a push began and \<open>k\<close> others passed through.\<close>

definition passed :: "nat \<Rightarrow> uvm_channel" where
  "passed k = sample_channel\<lparr>cpu_put := word_of_nat (k mod 4), gpu_get := word_of_nat (k mod 4), current_pushes_count := 1,
     next_push_info_index := word_of_nat ((k + 1) mod 4),
     tracking_sem := \<lparr>ts_semaphore = null_semaphore, completed_value = 0, queued_value = word_of_nat k\<rparr>,
     hw_gpu_put := word_of_nat (k mod 4)\<rparr>"

lemma passed_step: "k = 0 \<or> k = 1 \<or> k = 2 \<Longrightarrow> info_step\<^sup>*\<^sup>* (passed k, on) (passed (Suc k), on)"
proof -
  assume k: "k = 0 \<or> k = 1 \<or> k = 2"
  let ?ch2 = "(passed k)\<lparr>current_pushes_count := 2, next_push_info_index := word_of_nat ((k + 2) mod 4)\<rparr>"
  have "try_claim_channel (passed k) = (True, (passed k)\<lparr>current_pushes_count := 2\<rparr>)"
    using k by (auto simp: try_claim_channel_def is_channel_available_def passed_def sample_channel_def)
  moreover have "snd (channel_get_next_push_info_index ((passed k)\<lparr>current_pushes_count := 2\<rparr>)) = ?ch2"
    using k by (auto simp: channel_get_next_push_info_index_def passed_def sample_channel_def)
  then have "channel_get_next_push_info_index ((passed k)\<lparr>current_pushes_count := 2\<rparr>) = (word_of_nat ((k + 1) mod 4), ?ch2)"
    using k by (auto simp: channel_get_next_push_info_index_def passed_def sample_channel_def)
  moreover have "gpu_get (advance_put (0, 0) ?ch2) \<noteq> cpu_put (advance_put (0, 0) ?ch2)"
    using k by (auto simp: advance_put_def passed_def sample_channel_def)
  ultimately have s: "info_step\<^sup>*\<^sup>* (passed k, on) ((advance_put (0, 0) ?ch2)\<lparr>gpu_get := (gpu_get (advance_put (0, 0) ?ch2) + 1) mod
    num_gpfifo_entries (advance_put (0, 0) ?ch2)\<rparr>, on)" by (rule info_step_through)
  have e: "(advance_put (0, 0) ?ch2)\<lparr>gpu_get := (gpu_get (advance_put (0, 0) ?ch2) + 1) mod
    num_gpfifo_entries (advance_put (0, 0) ?ch2)\<rparr> = passed (Suc k)"
    using k by (auto simp: advance_put_def passed_def sample_channel_def)
  show ?thesis using s unfolding e .
qed

text \<open>
  Two on-going pushes can share a push info. The index handed out at the beginning of a
  push runs round the ring on its own and is taken whenever the channel has a free GPFIFO
  entry; if one push stays on-going while as many others as the ring has entries begin, the
  last of them gets the index the first still holds, so that its description and its
  completion callback overwrite the first one's.
\<close>

theorem push_info_index_reused:
  "\<exists>ch i. info_step\<^sup>*\<^sup>* (sample_channel, []) (ch, [i, i])"
proof -
  have "info_step\<^sup>*\<^sup>* (sample_channel, []) (passed 0, [] @ [0])"
    by (rule r_into_rtranclp, rule info_step.begin_push[of _ "sample_channel\<lparr>current_pushes_count := 1\<rparr>"])
       (simp_all add: try_claim_channel_def is_channel_available_def channel_get_next_push_info_index_def passed_def sample_channel_def)
  also have "info_step\<^sup>*\<^sup>* (passed 0, [] @ [0]) (passed (Suc 0), [] @ [0])" by (rule passed_step) simp
  also have "info_step\<^sup>*\<^sup>* (passed (Suc 0), [] @ [0]) (passed (Suc (Suc 0)), [] @ [0])" by (rule passed_step) simp
  also have "info_step\<^sup>*\<^sup>* (passed (Suc (Suc 0)), [] @ [0]) (passed (Suc (Suc (Suc 0))), [] @ [0])"
    by (rule passed_step) simp
  also have "info_step (passed (Suc (Suc (Suc 0))), [] @ [0])
      ((passed 3)\<lparr>current_pushes_count := 2, next_push_info_index := 1\<rparr>, ([] @ [0]) @ [0])"
    by (rule info_step.begin_push[of _ "(passed 3)\<lparr>current_pushes_count := 2\<rparr>"])
       (simp_all add: try_claim_channel_def is_channel_available_def channel_get_next_push_info_index_def passed_def sample_channel_def)
  finally show ?thesis by auto
qed

end
