(* ===== verification/Push.thy ===== *)
theory Push
  imports Channel
begin

text \<open>
  \<^verbatim>\<open>uvm8_push.c\<close>, and the functions of \<^verbatim>\<open>uvm8_tracker.c\<close> that take a push: beginning a push on
  a reserved channel, acquiring what it depends on, its inline data, and ending it. The methods
  of the GPU's function tables are arguments: \<open>release\<close> and \<open>acquire\<close> (semaphores), \<open>noop\<close>
  and \<open>timestamp\<close>. A push lives with its owner, so it is passed and returned.
\<close>

section \<open>Flags\<close>

datatype uvm_push_flag =
  UVM_PUSH_FLAG_CE_NEXT_PIPELINED
| UVM_PUSH_FLAG_CE_NEXT_MEMBAR_NONE
| UVM_PUSH_FLAG_CE_NEXT_MEMBAR_GPU

definition UVM_PUSH_FLAG_COUNT :: nat where
  "UVM_PUSH_FLAG_COUNT = 3"

fun flag_index :: "uvm_push_flag \<Rightarrow> nat" where
  "flag_index UVM_PUSH_FLAG_CE_NEXT_PIPELINED = 0"
| "flag_index UVM_PUSH_FLAG_CE_NEXT_MEMBAR_NONE = 1"
| "flag_index UVM_PUSH_FLAG_CE_NEXT_MEMBAR_GPU = 2"

definition uvm_push_set_flag :: "uvm_push \<Rightarrow> uvm_push_flag \<Rightarrow> uvm_push" where
  "uvm_push_set_flag push flag = push\<lparr>push_flags := (push_flags push)[flag_index flag := True]\<rparr>"

definition uvm_push_get_and_reset_flag :: "uvm_push \<Rightarrow> uvm_push_flag \<Rightarrow> bool \<times> uvm_push" where
  "uvm_push_get_and_reset_flag push flag =
     (push_flags push ! flag_index flag, push\<lparr>push_flags := (push_flags push)[flag_index flag := False]\<rparr>)"

section \<open>Beginning a push\<close>

definition zero_push :: uvm_push where
  "zero_push = \<lparr>push_begin = 0, push_next = 0, push_gpu = 0, push_channel = None, channel_tracking_value = 0,
     push_info_index = 0, push_flags = replicate UVM_PUSH_FLAG_COUNT False\<rparr>"

definition push_begin_on_channel_common ::
  "(nat \<Rightarrow> uvm_pushbuffer \<Rightarrow> nv_status \<times> uvm_pushbuffer) \<Rightarrow> nat \<Rightarrow> uvm_channel_manager \<Rightarrow> channel_id \<Rightarrow> push_id \<Rightarrow>
   (nv_status \<times> uvm_push \<times> uvm_channel_manager) option" where
  "push_begin_on_channel_common progress fuel m c p =
     uvm_channel_begin_push progress fuel m c p (zero_push\<lparr>push_gpu := cm_gpu m\<rparr>)"

definition uvm_push_begin_on_channel ::
  "(nat \<Rightarrow> uvm_channel_manager \<Rightarrow> uvm_channel_manager) \<Rightarrow>
   (nat \<Rightarrow> uvm_pushbuffer \<Rightarrow> nv_status \<times> uvm_pushbuffer) \<Rightarrow> nat \<Rightarrow> uvm_channel_manager \<Rightarrow> channel_id \<Rightarrow> push_id \<Rightarrow>
   uvm_push \<Rightarrow> (nv_status \<times> uvm_push \<times> uvm_channel_manager) option" where
  "uvm_push_begin_on_channel env progress fuel m c p push =
     (case uvm_channel_reserve env fuel m c of
        None \<Rightarrow> None
      | Some (status, m) \<Rightarrow>
          if status \<noteq> NV_OK then Some (status, push, m) else push_begin_on_channel_common progress fuel m c p)"

definition uvm_push_acquire_tracker_entry ::
  "(uvm_push \<Rightarrow> uvm_gpu_semaphore \<Rightarrow> u32 \<Rightarrow> uvm_push) \<Rightarrow> uvm_channel_manager \<Rightarrow> uvm_push \<Rightarrow> uvm_tracker_entry \<Rightarrow> uvm_push" where
  "uvm_push_acquire_tracker_entry acquire m push e =
     (case te_channel e of
        None \<Rightarrow> push
      | Some c \<Rightarrow>
          if push_channel push = Some c then push
          else acquire push (ts_semaphore (tracking_sem (cm_channels m c))) (ucast (te_value e)))"

text \<open>\<open>s\<close> is what the channels of the tracker's entries (on any GPU) show as completed.\<close>

definition uvm_push_acquire_tracker ::
  "(uvm_push \<Rightarrow> uvm_gpu_semaphore \<Rightarrow> u32 \<Rightarrow> uvm_push) \<Rightarrow> uvm_channel_manager \<Rightarrow> snapshot \<Rightarrow> uvm_push \<Rightarrow>
   uvm_tracker option \<Rightarrow> uvm_push \<times> uvm_tracker option" where
  "uvm_push_acquire_tracker acquire m s push tracker =
     (case tracker of
        None \<Rightarrow> (push, None)
      | Some t \<Rightarrow>
          let t = uvm_tracker_remove_completed s t
          in (foldl (uvm_push_acquire_tracker_entry acquire m) push (used t), Some t))"

definition uvm_push_begin_acquire ::
  "(uvm_push \<Rightarrow> uvm_gpu_semaphore \<Rightarrow> u32 \<Rightarrow> uvm_push) \<Rightarrow> snapshot \<Rightarrow>
   (nat \<Rightarrow> uvm_channel_manager \<Rightarrow> uvm_channel_manager) \<Rightarrow>
   (nat \<Rightarrow> uvm_pushbuffer \<Rightarrow> nv_status \<times> uvm_pushbuffer) \<Rightarrow> nat \<Rightarrow> uvm_channel_manager \<Rightarrow> uvm_channel_type \<Rightarrow>
   uvm_tracker option \<Rightarrow> push_id \<Rightarrow> uvm_push \<Rightarrow>
   (nv_status \<times> uvm_push \<times> uvm_tracker option \<times> uvm_channel_manager) option" where
  "uvm_push_begin_acquire acquire s env progress fuel m type tracker p push =
     (case uvm_channel_reserve_type env fuel m type of
        None \<Rightarrow> None
      | Some (status, chan, m) \<Rightarrow>
          if status \<noteq> NV_OK then Some (status, push, tracker, m)
          else (case chan of
                  None \<Rightarrow> None
                | Some c \<Rightarrow>
                    (case push_begin_on_channel_common progress fuel m c p of
                       None \<Rightarrow> None
                     | Some (status, push, m) \<Rightarrow>
                         if status \<noteq> NV_OK then Some (status, push, tracker, m)
                         else let (push, tracker) = uvm_push_acquire_tracker acquire m s push tracker
                              in Some (NV_OK, push, tracker, m))))"

definition kbasename :: "string \<Rightarrow> string" where
  "kbasename path = rev (takeWhile (\<lambda>ch. ch \<noteq> CHR ''/'') (rev path))"

text \<open>\<open>description\<close> is the formatted description; \<^verbatim>\<open>vsnprintf\<close> keeps 127 characters of it.\<close>

definition uvm_push_fill_info ::
  "bool \<Rightarrow> uvm_channel_manager \<Rightarrow> uvm_push \<Rightarrow> string \<Rightarrow> string \<Rightarrow> int \<Rightarrow> string \<Rightarrow> uvm_channel_manager option" where
  "uvm_push_fill_info tracking_descriptions m push filename func line description =
     (case push_channel push of
        None \<Rightarrow> None
      | Some c \<Rightarrow>
          let i = (c, unat (push_info_index push));
              info = (cm_infos m i)\<lparr>pi_filename := kbasename filename, pi_function := func, pi_line := line\<rparr>;
              info = (if tracking_descriptions then info\<lparr>pi_description := take 127 description\<rparr> else info)
          in Some (m\<lparr>cm_infos := (cm_infos m)(i := info)\<rparr>))"

section \<open>Ending and waiting\<close>

definition uvm_push_end ::
  "(uvm_push \<Rightarrow> uvm_gpu_semaphore \<Rightarrow> u32 \<Rightarrow> uvm_push) \<Rightarrow> uvm_channel_manager \<Rightarrow> uvm_push \<Rightarrow>
   (uvm_push \<times> uvm_channel_manager) option" where
  "uvm_push_end release m push = uvm_channel_end_push release m push"

definition uvm_push_get_tracker_entry :: "uvm_push \<Rightarrow> uvm_tracker_entry" where
  "uvm_push_get_tracker_entry push = \<lparr>te_channel = push_channel push, te_value = channel_tracking_value push\<rparr>"

definition uvm_push_wait :: "(nat \<Rightarrow> snapshot) \<Rightarrow> nat \<Rightarrow> uvm_push \<Rightarrow> nv_status option" where
  "uvm_push_wait env fuel push =
     map_option fst (uvm_tracker_wait_for_entry env fuel (uvm_push_get_tracker_entry push))"

definition uvm_push_end_and_wait ::
  "(uvm_push \<Rightarrow> uvm_gpu_semaphore \<Rightarrow> u32 \<Rightarrow> uvm_push) \<Rightarrow> (nat \<Rightarrow> snapshot) \<Rightarrow> nat \<Rightarrow> uvm_channel_manager \<Rightarrow> uvm_push \<Rightarrow>
   (nv_status \<times> uvm_push \<times> uvm_channel_manager) option" where
  "uvm_push_end_and_wait release env fuel m push =
     (case uvm_push_end release m push of
        None \<Rightarrow> None
      | Some (push, m) \<Rightarrow> map_option (\<lambda>status. (status, push, m)) (uvm_push_wait env fuel push))"

definition uvm_tracker_add_push :: "kv_alloc \<Rightarrow> uvm_tracker \<Rightarrow> uvm_push \<Rightarrow> nv_status \<times> uvm_tracker" where
  "uvm_tracker_add_push kv t push = uvm_tracker_add_entry kv t (uvm_push_get_tracker_entry push)"

definition uvm_tracker_overwrite_with_push :: "kv_alloc \<Rightarrow> uvm_tracker \<Rightarrow> uvm_push \<Rightarrow> uvm_tracker" where
  "uvm_tracker_overwrite_with_push kv t push = uvm_tracker_overwrite_with_entry kv t (uvm_push_get_tracker_entry push)"

definition uvm_tracker_add_push_safe ::
  "kv_alloc \<Rightarrow> (nat \<Rightarrow> snapshot) \<Rightarrow> nat \<Rightarrow> uvm_tracker \<Rightarrow> uvm_push \<Rightarrow> (nv_status \<times> uvm_tracker) option" where
  "uvm_tracker_add_push_safe kv env fuel t push =
     (let (status, t) = uvm_tracker_add_push kv t push
      in if status = NV_ERR_NO_MEMORY then map_option (\<lambda>status. (status, t)) (uvm_push_wait env fuel push)
         else Some (status, t))"

definition uvm_push_has_space :: "uvm_push \<Rightarrow> u32 \<Rightarrow> bool" where
  "uvm_push_has_space push free_space \<longleftrightarrow> free_space \<le> word_of_nat UVM_MAX_PUSH_SIZE - uvm_push_get_size push"

section \<open>Fake pushes\<close>

text \<open>\<open>buffer\<close> is the address \<^verbatim>\<open>uvm_kvmalloc\<close> returns, or NULL.\<close>

definition uvm_push_begin_fake :: "u64 option \<Rightarrow> gpu_id \<Rightarrow> nv_status \<times> uvm_push" where
  "uvm_push_begin_fake buffer gpu =
     (case buffer of
        None \<Rightarrow> (NV_ERR_NO_MEMORY, zero_push)
      | Some a \<Rightarrow> (NV_OK, zero_push\<lparr>push_begin := a, push_next := a, push_gpu := gpu\<rparr>))"

definition uvm_push_end_fake :: "uvm_push \<Rightarrow> uvm_push" where
  "uvm_push_end_fake push = push\<lparr>push_begin := 0\<rparr>"

section \<open>Inline data\<close>

definition UVM_METHOD_SIZE :: u64 where
  "UVM_METHOD_SIZE = 4"

text \<open>An inline data fragment is its \<^verbatim>\<open>next_data\<close> pointer; the push is passed with it.\<close>

definition uvm_push_inline_data_size :: "uvm_push \<Rightarrow> u64 \<Rightarrow> u64" where
  "uvm_push_inline_data_size push next_data = next_data - (push_next push + 4)"

definition uvm_push_inline_data_begin :: "uvm_push \<Rightarrow> u64" where
  "uvm_push_inline_data_begin push = push_next push + 4"

definition uvm_push_inline_data_get :: "u64 \<Rightarrow> u64 \<Rightarrow> u64 \<times> u64" where
  "uvm_push_inline_data_get next_data sz = (next_data, next_data + sz)"

definition uvm_push_inline_data_get_aligned :: "u64 \<Rightarrow> u64 \<Rightarrow> u64 \<Rightarrow> u64 \<times> u64" where
  "uvm_push_inline_data_get_aligned next_data sz alignment =
     (let offset = UVM_ALIGN_UP next_data alignment - next_data;
          (buffer, next_data') = uvm_push_inline_data_get next_data (sz + offset)
      in (buffer + offset, next_data'))"

definition uvm_push_inline_data_end ::
  "(uvm_push \<Rightarrow> u32 \<Rightarrow> uvm_push) \<Rightarrow> uvm_pushbuffer \<Rightarrow> uvm_push \<Rightarrow> u64 \<Rightarrow> u64 \<times> uvm_push" where
  "uvm_push_inline_data_end noop pb push next_data =
     (let sz = uvm_push_inline_data_size push next_data;
          noop_size = (sz + (UVM_METHOD_SIZE - 1)) div UVM_METHOD_SIZE * UVM_METHOD_SIZE;
          addr = (if push_channel push \<noteq> None
                  then uvm_pushbuffer_get_gpu_va_for_push pb push +
                       ((push_next push - push_begin push) div 4 + 1) * UVM_METHOD_SIZE
                  else push_next push + 4)
      in (addr, noop push (ucast (noop_size + UVM_METHOD_SIZE))))"

definition uvm_push_get_single_inline_buffer_aligned ::
  "(uvm_push \<Rightarrow> u32 \<Rightarrow> uvm_push) \<Rightarrow> uvm_pushbuffer \<Rightarrow> uvm_push \<Rightarrow> u64 \<Rightarrow> u64 \<Rightarrow> u64 \<times> u64 \<times> uvm_push" where
  "uvm_push_get_single_inline_buffer_aligned noop pb push sz alignment =
     (let (buffer, next_data) = uvm_push_inline_data_get_aligned (uvm_push_inline_data_begin push) sz alignment;
          (addr, push) = uvm_push_inline_data_end noop pb push next_data
      in (buffer, UVM_ALIGN_UP addr alignment, push))"

definition uvm_push_get_single_inline_buffer ::
  "(uvm_push \<Rightarrow> u32 \<Rightarrow> uvm_push) \<Rightarrow> uvm_pushbuffer \<Rightarrow> uvm_push \<Rightarrow> u64 \<Rightarrow> u64 \<times> u64 \<times> uvm_push" where
  "uvm_push_get_single_inline_buffer noop pb push sz =
     uvm_push_get_single_inline_buffer_aligned noop pb push sz UVM_METHOD_SIZE"

definition uvm_push_timestamp ::
  "(uvm_push \<Rightarrow> u32 \<Rightarrow> uvm_push) \<Rightarrow> (uvm_push \<Rightarrow> u64 \<Rightarrow> uvm_push) \<Rightarrow> uvm_pushbuffer \<Rightarrow> uvm_push \<Rightarrow> u64 \<times> uvm_push" where
  "uvm_push_timestamp noop timestamp pb push =
     (let (buffer, addr, push) = uvm_push_get_single_inline_buffer_aligned noop pb push 16 16
      in (buffer + 8, timestamp push addr))"

section \<open>Aligned addresses\<close>

text \<open>Rounding up commutes with moving by a multiple of the alignment.\<close>

lemma and_not_mask_add:
  fixes x d :: u64
  assumes "take_bit k d = 0" "k \<le> 64"
  shows "(x + d) AND NOT (mask k) = (x AND NOT (mask k)) + d"
proof -
  have split: "y AND NOT (mask k) = y - take_bit k y" for y :: u64
  proof -
    have "(y AND NOT (mask k)) AND take_bit k y = 0" by (rule bit_eqI) (auto simp: bit_simps)
    moreover have "(y AND NOT (mask k)) OR take_bit k y = y" by (rule bit_eqI) (auto simp: bit_simps)
    ultimately have "(y AND NOT (mask k)) + take_bit k y = y" by (simp add: disjunctive_add_eq_or)
    then show ?thesis by (metis add_diff_cancel_right')
  qed
  have u: "unat (take_bit k y) = unat y mod 2 ^ k" for y :: u64
    by (simp only: unsigned_take_bit_eq) (simp add: take_bit_eq_mod)
  have "unat d mod 2 ^ k = 0" using u[of d] assms(1) by simp
  then have "(unat x + unat d) mod 2 ^ k = unat x mod 2 ^ k" by (simp add: mod_add_eq[symmetric])
  moreover have "(2::nat) ^ k dvd 2 ^ 64" using assms(2) by (rule le_imp_power_dvd)
  then have "(unat x + unat d) mod 2 ^ 64 mod 2 ^ k = (unat x + unat d) mod 2 ^ k" by (rule mod_mod_cancel)
  moreover have "unat (x + d) = (unat x + unat d) mod 2 ^ 64" by (simp add: unat_word_ariths)
  ultimately have "unat (take_bit k (x + d)) = unat (take_bit k x)" by (simp only: u)
  then have "take_bit k (x + d) = take_bit k x" by (rule unsigned_word_eqI)
  then show ?thesis unfolding split by simp
qed

lemma align_up_add:
  assumes "(a::u64) = 2 ^ k" "take_bit k d = 0" "k \<le> 64"
  shows "UVM_ALIGN_UP (x + d) a = UVM_ALIGN_UP x a + d"
proof -
  have m: "a - 1 = mask k" by (simp add: assms(1) mask_eq_exp_minus_1)
  have "x + d + a - 1 = (x + a - 1) + d" by (simp add: algebra_simps)
  then show ?thesis unfolding UVM_ALIGN_UP_def m by (simp only: and_not_mask_add[OF assms(2,3)])
qed

lemma align_up_aligned: "(a::u64) = 2 ^ k \<Longrightarrow> take_bit k (UVM_ALIGN_UP x a) = 0"
proof -
  assume "a = 2 ^ k"
  then have m: "a - 1 = mask k" by (simp add: mask_eq_exp_minus_1)
  show ?thesis unfolding UVM_ALIGN_UP_def m by (rule bit_eqI) (auto simp: bit_simps)
qed

text \<open>The offset of the aligned address and the size of the no-op that skips the data.\<close>

lemma align_up_offset:
  assumes "(a::u64) = 2 ^ k" "k < 64"
  shows "unat (UVM_ALIGN_UP x a - x) < 2 ^ k"
proof -
  have m: "a - 1 = mask k" by (simp add: assms(1) mask_eq_exp_minus_1)
  have a: "UVM_ALIGN_UP x a = (x + mask k) AND NOT (mask k)"
    unfolding UVM_ALIGN_UP_def m by (simp add: m[symmetric] algebra_simps)
  let ?y = "x + mask k"
  have "(?y AND NOT (mask k)) AND take_bit k ?y = 0" by (rule bit_eqI) (auto simp: bit_simps)
  moreover have "(?y AND NOT (mask k)) OR take_bit k ?y = ?y" by (rule bit_eqI) (auto simp: bit_simps)
  ultimately have "(?y AND NOT (mask k)) + take_bit k ?y = ?y" by (simp add: disjunctive_add_eq_or)
  then have "(?y AND NOT (mask k)) = ?y - take_bit k ?y" by (metis add_diff_cancel_right')
  then have e: "UVM_ALIGN_UP x a - x = mask k - take_bit k ?y" by (simp add: a)
  have um: "unat (mask k :: u64) = 2 ^ k - 1"
  proof -
    have "unat ((2::u64) ^ k) = 2 ^ k" using assms(2) by (intro unat_2_power) simp
    moreover from this have "0 < (2::u64) ^ k" by (simp add: word_less_nat_alt)
    ultimately show ?thesis by (simp only: mask_eq_exp_minus_1 unat_minus_1)
  qed
  have ut: "unat (take_bit k ?y) < 2 ^ k" by (simp only: unsigned_take_bit_eq) simp
  then have "take_bit k ?y \<le> mask k" by (simp add: word_le_nat_alt um)
  then show ?thesis unfolding e by (simp add: unat_minus_le um less_imp_diff_less)
qed

lemma noop_size_covers:
  assumes "unat (s::u64) + 8 < 2 ^ 64"
  shows "unat s + 4 \<le> unat ((s + (UVM_METHOD_SIZE - 1)) div UVM_METHOD_SIZE * UVM_METHOD_SIZE + UVM_METHOD_SIZE)"
    "unat ((s + (UVM_METHOD_SIZE - 1)) div UVM_METHOD_SIZE * UVM_METHOD_SIZE + UVM_METHOD_SIZE) < unat s + 8"
proof -
  have "unat (s + 3) = unat s + 3" using assms by (simp add: unat_word_ariths mod_less)
  then have d: "unat ((s + 3) div 4) = (unat s + 3) div 4" by (simp add: unat_div)
  have b: "unat s \<le> (unat s + 3) div 4 * 4" "(unat s + 3) div 4 * 4 \<le> unat s + 3" by presburger+
  have "unat ((s + 3) div 4 * 4 + 4) = (unat s + 3) div 4 * 4 + 4"
    using b(2) assms by (simp add: unat_word_ariths d mod_less)
  then show "unat s + 4 \<le> unat ((s + (UVM_METHOD_SIZE - 1)) div UVM_METHOD_SIZE * UVM_METHOD_SIZE + UVM_METHOD_SIZE)"
    "unat ((s + (UVM_METHOD_SIZE - 1)) div UVM_METHOD_SIZE * UVM_METHOD_SIZE + UVM_METHOD_SIZE) < unat s + 8"
    using b by (simp_all add: UVM_METHOD_SIZE_def)
qed

section \<open>Properties\<close>

text \<open>
  An inline buffer's two addresses name the same bytes. If the CPU and GPU mappings of the
  pushbuffer are congruent modulo the alignment, the CPU pointer returned and the GPU address
  returned, which are rounded up separately, lie at the same offset of the pushbuffer, both
  aligned; and the no-op that makes the GPU skip the data covers the padding and all of the
  buffer, with less than a method to spare.
\<close>

theorem inline_buffer_correct:
  assumes "push_channel push = Some c" "alignment = 2 ^ k" "k < 64"
    and "take_bit k (rm_gpu_va (pb_memory pb) (push_gpu push) - rm_cpu_va (pb_memory pb)) = 0"
    and "unat (push_begin push - rm_cpu_va (pb_memory pb)) < 2 ^ 32"
    and "(push_next push - push_begin push) div 4 * 4 = push_next push - push_begin push"
    and "unat sz + 2 ^ k < 2 ^ 32"
    and "uvm_push_get_single_inline_buffer_aligned noop pb push sz alignment = (buffer, addr, push')"
  shows "addr - rm_gpu_va (pb_memory pb) (push_gpu push) = buffer - rm_cpu_va (pb_memory pb) \<and>
    take_bit k buffer = 0 \<and> take_bit k addr = 0 \<and>
    unat (buffer - (push_next push + 4)) < 2 ^ k \<and>
    (\<exists>n::u64. push' = noop push (ucast n) \<and> unat (buffer + sz - push_next push) \<le> unat n \<and>
       unat n < unat (buffer + sz - push_next push) + 4)"
proof -
  let ?gpu = "rm_gpu_va (pb_memory pb) (push_gpu push)" and ?cpu = "rm_cpu_va (pb_memory pb)"
  let ?x = "push_next push + 4"
  have "ucast (ucast (push_begin push - ?cpu) :: u32) = push_begin push - ?cpu"
  proof -
    have "unat (ucast (ucast (push_begin push - ?cpu) :: u32) :: u64) = unat (push_begin push - ?cpu)"
      using assms(5) by (simp add: ucast_32_64)
    then show ?thesis by (rule unsigned_word_eqI)
  qed
  then have va: "uvm_pushbuffer_get_gpu_va_for_push pb push = ?gpu + (push_begin push - ?cpu)"
    by (simp add: uvm_pushbuffer_get_gpu_va_for_push_def uvm_pushbuffer_get_offset_for_push_def)
  have "((push_next push - push_begin push) div 4 + 1) * UVM_METHOD_SIZE = push_next push - push_begin push + 4"
    using assms(6) by (simp add: UVM_METHOD_SIZE_def distrib_right)
  then have addr0: "uvm_pushbuffer_get_gpu_va_for_push pb push +
      ((push_next push - push_begin push) div 4 + 1) * UVM_METHOD_SIZE = ?x + (?gpu - ?cpu)"
    by (simp add: va)
  define nd where "nd = sz + UVM_ALIGN_UP ?x alignment"
  let ?s = "uvm_push_inline_data_size push nd"
  let ?n = "(?s + (UVM_METHOD_SIZE - 1)) div UVM_METHOD_SIZE * UVM_METHOD_SIZE + UVM_METHOD_SIZE"
  have "uvm_push_get_single_inline_buffer_aligned noop pb push sz alignment =
      (UVM_ALIGN_UP ?x alignment, UVM_ALIGN_UP (?x + (?gpu - ?cpu)) alignment, noop push (ucast ?n))"
    using assms(1) addr0
    by (simp add: uvm_push_get_single_inline_buffer_aligned_def uvm_push_inline_data_get_aligned_def
        uvm_push_inline_data_get_def uvm_push_inline_data_begin_def uvm_push_inline_data_end_def Let_def nd_def)
  then have r: "buffer = UVM_ALIGN_UP ?x alignment" "addr = UVM_ALIGN_UP (?x + (?gpu - ?cpu)) alignment"
    "push' = noop push (ucast ?n)"
    unfolding assms(8) prod.inject by blast+
  have ad: "addr = buffer + (?gpu - ?cpu)"
    unfolding r(1,2) using assms(3) by (intro align_up_add[OF assms(2,4)]) simp
  have off: "unat (buffer - ?x) < 2 ^ k" unfolding r(1) by (rule align_up_offset[OF assms(2,3)])
  have s: "?s = (buffer - ?x) + sz" by (simp add: uvm_push_inline_data_size_def nd_def r(1) algebra_simps)
  have us: "unat ?s = unat (buffer - ?x) + unat sz"
    unfolding s using off assms(7) by (simp add: unat_word_ariths mod_less)
  have total: "unat (buffer + sz - push_next push) = unat ?s + 4"
  proof -
    have "buffer + sz - push_next push = ?s + 4" by (simp add: s algebra_simps)
    then show ?thesis using us off assms(7) by (simp add: unat_word_ariths mod_less)
  qed
  have "unat ?s + 8 < 2 ^ 64" using us off assms(7) by simp
  note ns = noop_size_covers[OF this]
  have al: "take_bit k buffer = 0" "take_bit k addr = 0"
    unfolding r(1,2) using align_up_aligned[OF assms(2)] by blast+
  have "addr - ?gpu = buffer - ?cpu" by (simp add: ad)
  moreover have "\<exists>n::u64. push' = noop push (ucast n) \<and> unat (buffer + sz - push_next push) \<le> unat n \<and>
      unat n < unat (buffer + sz - push_next push) + 4"
    using r(3) ns unfolding total by (intro exI[of _ ?n]) simp
  ultimately show ?thesis using al off by blast
qed

theorem inline_buffer_correct_witness:
  "\<exists>buffer addr push'. uvm_push_get_single_inline_buffer_aligned (\<lambda>p n. p\<lparr>push_next := push_next p + ucast n\<rparr>) sample_pushbuffer
     (sample_push\<lparr>push_channel := Some 0, push_begin := 0x7f0100, push_next := 0x7f0108\<rparr>) 16 16 = (buffer, addr, push') \<and>
     addr - 0x10000 = buffer - 0x7f0000 \<and> take_bit 4 addr = 0"
proof -
  let ?noop = "\<lambda>p n. p\<lparr>push_next := push_next p + ucast n\<rparr>"
  let ?p = "sample_push\<lparr>push_channel := Some 0, push_begin := 0x7f0100, push_next := 0x7f0108\<rparr>"
  obtain buffer addr push' where
    r: "uvm_push_get_single_inline_buffer_aligned ?noop sample_pushbuffer ?p 16 16 = (buffer, addr, push')"
    by (rule prod_cases3)
  have k: "pb_memory sample_pushbuffer = sample_rm_mem" "rm_cpu_va sample_rm_mem = 0x7f0000" "rm_gpu_va sample_rm_mem g = 0x10000"
    "push_begin ?p = 0x7f0100" "push_next ?p = 0x7f0108" "push_channel ?p = Some 0" for g
    by (simp_all add: sample_pushbuffer_def sample_rm_mem_def)
  have h: "take_bit 4 (0x10000 - 0x7f0000 :: u64) = 0" "unat (0x7f0100 - 0x7f0000 :: u64) < 2 ^ 32"
    "(0x7f0108 - 0x7f0100) div 4 * 4 = (0x7f0108 - 0x7f0100 :: u64)" "unat (16::u64) + 2 ^ 4 < 2 ^ 32" "(16::u64) = 2 ^ 4"
    by simp_all
  from inline_buffer_correct[OF k(6) h(5) _ _ _ _ h(4) r, unfolded k, OF _ h(1,2,3)]
  have "addr - 0x10000 = buffer - 0x7f0000" "take_bit 4 addr = 0" by simp_all
  with r show ?thesis by blast
qed

text \<open>
  C29. Acquiring a tracker makes the push wait, once each and for the low 32 bits of their value,
  for exactly the tracked values of other channels that have not completed; those of its own
  channel need no wait, as the channel runs its pushes in order. The tracker loses only
  completed entries.
\<close>

theorem push_acquire_tracker_correct:
  assumes "tracker_inv t" "\<forall>p sem v. push_channel (acquire p sem v) = push_channel p"
    and "uvm_push_acquire_tracker acquire m s push (Some t) = (push', Some t')"
  shows "\<exists>waits. push' = foldl (\<lambda>p e. acquire p (ts_semaphore (tracking_sem (cm_channels m (the (te_channel e))))) (ucast (te_value e))) push waits \<and>
    distinct waits \<and>
    set waits = {e \<in> set (used t). \<not> uvm_tracker_is_entry_completed s e \<and> te_channel e \<noteq> push_channel push} \<and>
    tracker_inv t' \<and> mset (used t') = filter_mset (\<lambda>e. \<not> uvm_tracker_is_entry_completed s e) (mset (used t))"
proof -
  let ?acq = "\<lambda>p e. acquire p (ts_semaphore (tracking_sem (cm_channels m (the (te_channel e))))) (ucast (te_value e))"
  have t': "t' = uvm_tracker_remove_completed s t" and p': "push' = foldl (uvm_push_acquire_tracker_entry acquire m) push (used t')"
    using assms(3) by (auto simp: uvm_push_acquire_tracker_def Let_def)
  note rc = remove_completed_correct[OF assms(1), of s, folded t'] and re = removed_entries[OF assms(1), of _ s, folded t']
  have "foldl (uvm_push_acquire_tracker_entry acquire m) p es = foldl ?acq p (filter (\<lambda>e. te_channel e \<noteq> push_channel p) es)"
    if "\<forall>e \<in> set es. te_channel e \<noteq> None" for p es
    using that
  proof (induction es arbitrary: p)
    case (Cons e es)
    have "push_channel (uvm_push_acquire_tracker_entry acquire m p e) = push_channel p"
      using assms(2) by (auto simp: uvm_push_acquire_tracker_entry_def split: option.split)
    then show ?case using Cons by (auto simp: uvm_push_acquire_tracker_entry_def)
  qed simp
  moreover have "\<forall>e \<in> set (used t'). te_channel e \<noteq> None"
    by (auto simp: re uvm_tracker_is_entry_completed_def split: option.splits)
  ultimately have "push' = foldl ?acq push (filter (\<lambda>e. te_channel e \<noteq> push_channel push) (used t'))"
    unfolding p' by blast
  moreover have "distinct (used t')" using rc by (auto simp: tracker_inv_def distinct_map)
  moreover have "set (filter (\<lambda>e. te_channel e \<noteq> push_channel push) (used t')) =
      {e \<in> set (used t). \<not> uvm_tracker_is_entry_completed s e \<and> te_channel e \<noteq> push_channel push}"
    by (auto simp: re)
  ultimately show ?thesis using rc by (intro exI[of _ "filter (\<lambda>e. te_channel e \<noteq> push_channel push) (used t')"]) auto
qed

theorem push_acquire_tracker_correct_witness:
  "\<exists>t'. uvm_push_acquire_tracker (\<lambda>p sem v. p\<lparr>push_next := push_next p + ucast v\<rparr>) (sample_manager sample_channel 0) (sample_snapshot 3)
     (sample_push\<lparr>push_channel := Some 5\<rparr>) (Some (sample_trackers 0)) = (sample_push\<lparr>push_channel := Some 5, push_next := 7\<rparr>, Some t')"
proof -
  let ?acq = "\<lambda>p sem (v::u32). p\<lparr>push_next := push_next p + ucast v\<rparr>"
  let ?p = "sample_push\<lparr>push_channel := Some 5\<rparr>"
  obtain p' t' where r: "uvm_push_acquire_tracker ?acq (sample_manager sample_channel 0) (sample_snapshot 3) ?p (Some (sample_trackers 0)) = (p', Some t')"
    by (simp add: uvm_push_acquire_tracker_def Let_def)
  have "{e \<in> set (used (sample_trackers 0)). \<not> uvm_tracker_is_entry_completed (sample_snapshot 3) e \<and> te_channel e \<noteq> push_channel ?p}
      = {\<lparr>te_channel = Some 0, te_value = 7\<rparr>}"
    by (auto simp: sample_trackers_ok uvm_tracker_is_entry_completed_def sample_snapshot_def)
  with push_acquire_tracker_correct[OF sample_trackers_ok(1) _ r] obtain waits where
    w: "p' = foldl (\<lambda>p e. ?acq p () (ucast (te_value e))) ?p waits" "distinct waits" "set waits = {\<lparr>te_channel = Some 0, te_value = 7\<rparr>}"
    by auto
  have "waits = [\<lparr>te_channel = Some 0, te_value = 7\<rparr>]" using distinct_singleton[OF w(2,3)] .
  with r w(1) show ?thesis by (simp add: sample_push_def)
qed

end
