(* ===== verification/Lock_Tracking.thy ===== *)
theory Lock_Tracking
  imports UVM_Prelude
begin

text \<open>
  \<^verbatim>\<open>uvm8_lock.c\<close> and \<^verbatim>\<open>uvm8_thread_context.c\<close>: the run-time check of the driver's lock order.
  Each thread (by pid) and each CPU in interrupt context has a context with the lock orders it
  holds. A lock is a number, its address. \<open>zalloc_ok\<close> is the outcome of the allocations a
  first retain makes. Error messages are left out; the tree of user contexts is a map.
\<close>

section \<open>Lock orders\<close>

datatype uvm_lock_order =
  UVM_LOCK_ORDER_INVALID
| UVM_LOCK_ORDER_GLOBAL
| UVM_LOCK_ORDER_ISR
| UVM_LOCK_ORDER_MMAP_SEM
| UVM_LOCK_ORDER_VA_SPACE_SERIALIZE_WRITERS
| UVM_LOCK_ORDER_VA_SPACE
| UVM_LOCK_ORDER_GPU_SEMAPHORE_POOL
| UVM_LOCK_ORDER_RM_API
| UVM_LOCK_ORDER_RM_GPUS
| UVM_LOCK_ORDER_VA_BLOCK
| UVM_LOCK_ORDER_PAGE_TREE
| UVM_LOCK_ORDER_SWIZZLE_STAGING
| UVM_LOCK_ORDER_PUSH
| UVM_LOCK_ORDER_PMM
| UVM_LOCK_ORDER_PMM_PMA
| UVM_LOCK_ORDER_PMM_ROOT_CHUNK
| UVM_LOCK_ORDER_CHANNEL
| UVM_LOCK_ORDER_TOOLS_VA_SPACE_LIST
| UVM_LOCK_ORDER_VA_SPACE_EVENTS
| UVM_LOCK_ORDER_SEMA_POOL_TRACKER
| UVM_LOCK_ORDER_LEAF

fun order_num :: "uvm_lock_order \<Rightarrow> nat" where
  "order_num UVM_LOCK_ORDER_INVALID = 0"
| "order_num UVM_LOCK_ORDER_GLOBAL = 1"
| "order_num UVM_LOCK_ORDER_ISR = 2"
| "order_num UVM_LOCK_ORDER_MMAP_SEM = 3"
| "order_num UVM_LOCK_ORDER_VA_SPACE_SERIALIZE_WRITERS = 4"
| "order_num UVM_LOCK_ORDER_VA_SPACE = 5"
| "order_num UVM_LOCK_ORDER_GPU_SEMAPHORE_POOL = 6"
| "order_num UVM_LOCK_ORDER_RM_API = 7"
| "order_num UVM_LOCK_ORDER_RM_GPUS = 8"
| "order_num UVM_LOCK_ORDER_VA_BLOCK = 9"
| "order_num UVM_LOCK_ORDER_PAGE_TREE = 10"
| "order_num UVM_LOCK_ORDER_SWIZZLE_STAGING = 11"
| "order_num UVM_LOCK_ORDER_PUSH = 12"
| "order_num UVM_LOCK_ORDER_PMM = 13"
| "order_num UVM_LOCK_ORDER_PMM_PMA = 14"
| "order_num UVM_LOCK_ORDER_PMM_ROOT_CHUNK = 15"
| "order_num UVM_LOCK_ORDER_CHANNEL = 16"
| "order_num UVM_LOCK_ORDER_TOOLS_VA_SPACE_LIST = 17"
| "order_num UVM_LOCK_ORDER_VA_SPACE_EVENTS = 18"
| "order_num UVM_LOCK_ORDER_SEMA_POOL_TRACKER = 19"
| "order_num UVM_LOCK_ORDER_LEAF = 20"

definition UVM_LOCK_ORDER_COUNT :: nat where
  "UVM_LOCK_ORDER_COUNT = 21"

datatype uvm_lock_mode = UVM_LOCK_MODE_EXCLUSIVE | UVM_LOCK_MODE_SHARED | UVM_LOCK_MODE_ANY

fun uvm_lock_order_to_string :: "uvm_lock_order \<Rightarrow> string" where
  "uvm_lock_order_to_string UVM_LOCK_ORDER_INVALID = ''UVM_LOCK_ORDER_INVALID''"
| "uvm_lock_order_to_string UVM_LOCK_ORDER_GLOBAL = ''UVM_LOCK_ORDER_GLOBAL''"
| "uvm_lock_order_to_string UVM_LOCK_ORDER_ISR = ''UVM_LOCK_ORDER_ISR''"
| "uvm_lock_order_to_string UVM_LOCK_ORDER_MMAP_SEM = ''UVM_LOCK_ORDER_MMAP_SEM''"
| "uvm_lock_order_to_string UVM_LOCK_ORDER_VA_SPACE_SERIALIZE_WRITERS = ''UVM_LOCK_ORDER_VA_SPACE_SERIALIZE_WRITERS''"
| "uvm_lock_order_to_string UVM_LOCK_ORDER_VA_SPACE = ''UVM_LOCK_ORDER_VA_SPACE''"
| "uvm_lock_order_to_string UVM_LOCK_ORDER_GPU_SEMAPHORE_POOL = ''UVM_LOCK_ORDER_GPU_SEMAPHORE_POOL''"
| "uvm_lock_order_to_string UVM_LOCK_ORDER_RM_API = ''UVM_LOCK_ORDER_RM_API''"
| "uvm_lock_order_to_string UVM_LOCK_ORDER_RM_GPUS = ''UVM_LOCK_ORDER_RM_GPUS''"
| "uvm_lock_order_to_string UVM_LOCK_ORDER_VA_BLOCK = ''UVM_LOCK_ORDER_VA_BLOCK''"
| "uvm_lock_order_to_string UVM_LOCK_ORDER_PAGE_TREE = ''UVM_LOCK_ORDER_PAGE_TREE''"
| "uvm_lock_order_to_string UVM_LOCK_ORDER_SWIZZLE_STAGING = ''UVM_LOCK_ORDER_SWIZZLE_STAGING''"
| "uvm_lock_order_to_string UVM_LOCK_ORDER_PUSH = ''UVM_LOCK_ORDER_PUSH''"
| "uvm_lock_order_to_string UVM_LOCK_ORDER_PMM = ''UVM_LOCK_ORDER_PMM''"
| "uvm_lock_order_to_string UVM_LOCK_ORDER_PMM_PMA = ''UVM_LOCK_ORDER_PMM_PMA''"
| "uvm_lock_order_to_string UVM_LOCK_ORDER_PMM_ROOT_CHUNK = ''UVM_LOCK_ORDER_PMM_ROOT_CHUNK''"
| "uvm_lock_order_to_string UVM_LOCK_ORDER_CHANNEL = ''UVM_LOCK_ORDER_CHANNEL''"
| "uvm_lock_order_to_string UVM_LOCK_ORDER_TOOLS_VA_SPACE_LIST = ''UVM_LOCK_ORDER_TOOLS_VA_SPACE_LIST''"
| "uvm_lock_order_to_string UVM_LOCK_ORDER_VA_SPACE_EVENTS = ''UVM_LOCK_ORDER_VA_SPACE_EVENTS''"
| "uvm_lock_order_to_string UVM_LOCK_ORDER_LEAF = ''UVM_LOCK_ORDER_LEAF''"
| "uvm_lock_order_to_string UVM_LOCK_ORDER_SEMA_POOL_TRACKER = ''UNKNOWN''"

section \<open>Thread contexts\<close>

record uvm_thread_context_t =
  ref_count :: u32
  skip_lock_tracking :: u32
  acquired_lock_orders :: "bool list"
  exclusive_acquired_lock_orders :: "bool list"
  acquired_locks :: "nat option list"

definition zero_context :: uvm_thread_context_t where
  "zero_context = \<lparr>ref_count = 0, skip_lock_tracking = 0,
     acquired_lock_orders = replicate UVM_LOCK_ORDER_COUNT False,
     exclusive_acquired_lock_orders = replicate UVM_LOCK_ORDER_COUNT False,
     acquired_locks = replicate UVM_LOCK_ORDER_COUNT None\<rparr>"

text \<open>Who runs: a thread, or an interrupt handler on a CPU.\<close>

datatype current = User nat | Interrupt nat

record thread_contexts =
  user_contexts :: "nat \<rightharpoonup> uvm_thread_context_t"
  interrupt_contexts :: "nat \<Rightarrow> uvm_thread_context_t"

fun uvm_thread_context :: "thread_contexts \<Rightarrow> current \<Rightarrow> uvm_thread_context_t option" where
  "uvm_thread_context s (User pid) = user_contexts s pid"
| "uvm_thread_context s (Interrupt cpu) = Some (interrupt_contexts s cpu)"

fun set_context :: "current \<Rightarrow> uvm_thread_context_t \<Rightarrow> thread_contexts \<Rightarrow> thread_contexts" where
  "set_context (User pid) c s = s\<lparr>user_contexts := (user_contexts s)(pid \<mapsto> c)\<rparr>"
| "set_context (Interrupt cpu) c s = s\<lparr>interrupt_contexts := (interrupt_contexts s)(cpu := c)\<rparr>"

definition uvm_thread_context_user_retain ::
  "bool \<Rightarrow> nat \<Rightarrow> thread_contexts \<Rightarrow> uvm_thread_context_t option \<times> thread_contexts" where
  "uvm_thread_context_user_retain zalloc_ok pid s =
     (case user_contexts s pid of
        None \<Rightarrow>
          if \<not> zalloc_ok then (None, s)
          else let c = zero_context\<lparr>ref_count := 1\<rparr> in (Some c, set_context (User pid) c s)
      | Some c \<Rightarrow>
          let c = c\<lparr>ref_count := ref_count c + 1\<rparr> in (Some c, set_context (User pid) c s))"

definition uvm_thread_context_user_release :: "nat \<Rightarrow> thread_contexts \<Rightarrow> thread_contexts" where
  "uvm_thread_context_user_release pid s =
     (case user_contexts s pid of
        None \<Rightarrow> s
      | Some c \<Rightarrow>
          let c = c\<lparr>ref_count := ref_count c - 1\<rparr>
          in if ref_count c = 0 then s\<lparr>user_contexts := (user_contexts s)(pid := None)\<rparr>
             else set_context (User pid) c s)"

definition uvm_thread_context_interrupt_retain ::
  "nat \<Rightarrow> thread_contexts \<Rightarrow> uvm_thread_context_t option \<times> thread_contexts" where
  "uvm_thread_context_interrupt_retain cpu s =
     (let c = interrupt_contexts s cpu; c = c\<lparr>ref_count := ref_count c + 1\<rparr>
      in (Some c, set_context (Interrupt cpu) c s))"

definition uvm_thread_context_interrupt_release :: "nat \<Rightarrow> thread_contexts \<Rightarrow> thread_contexts" where
  "uvm_thread_context_interrupt_release cpu s =
     (let c = interrupt_contexts s cpu in set_context (Interrupt cpu) (c\<lparr>ref_count := ref_count c - 1\<rparr>) s)"

fun uvm_thread_context_retain ::
  "bool \<Rightarrow> current \<Rightarrow> thread_contexts \<Rightarrow> uvm_thread_context_t option \<times> thread_contexts" where
  "uvm_thread_context_retain zalloc_ok (User pid) s = uvm_thread_context_user_retain zalloc_ok pid s"
| "uvm_thread_context_retain zalloc_ok (Interrupt cpu) s = uvm_thread_context_interrupt_retain cpu s"

fun uvm_thread_context_release :: "current \<Rightarrow> thread_contexts \<Rightarrow> thread_contexts" where
  "uvm_thread_context_release (User pid) s = uvm_thread_context_user_release pid s"
| "uvm_thread_context_release (Interrupt cpu) s = uvm_thread_context_interrupt_release cpu s"

definition uvm_thread_context_disable_lock_tracking :: "bool \<Rightarrow> current \<Rightarrow> thread_contexts \<Rightarrow> thread_contexts" where
  "uvm_thread_context_disable_lock_tracking zalloc_ok cur s =
     (case uvm_thread_context_retain zalloc_ok cur s of
        (None, s) \<Rightarrow> s
      | (Some c, s) \<Rightarrow> set_context cur (c\<lparr>skip_lock_tracking := skip_lock_tracking c + 1\<rparr>) s)"

definition uvm_thread_context_enable_lock_tracking :: "current \<Rightarrow> thread_contexts \<Rightarrow> thread_contexts" where
  "uvm_thread_context_enable_lock_tracking cur s =
     (case uvm_thread_context s cur of
        None \<Rightarrow> s
      | Some c \<Rightarrow>
          uvm_thread_context_release cur
            (set_context cur (c\<lparr>skip_lock_tracking := skip_lock_tracking c - 1\<rparr>) s))"

section \<open>Recording\<close>

text \<open>What \<^verbatim>\<open>__uvm_record_lock\<close> does once it has the context.\<close>

definition record_lock_in ::
  "nat \<Rightarrow> uvm_lock_order \<Rightarrow> uvm_lock_mode \<Rightarrow> uvm_thread_context_t \<Rightarrow> bool \<times> uvm_thread_context_t" where
  "record_lock_in lock lock_order mode c =
     (if 0 < skip_lock_tracking c then (True, c)
      else if lock_order = UVM_LOCK_ORDER_INVALID then (False, c)
      else
        let held = (\<lambda>k. acquired_lock_orders c ! order_num k);
            correct =
              (if lock_order = UVM_LOCK_ORDER_RM_GPUS then
                 if exclusive_acquired_lock_orders c ! order_num UVM_LOCK_ORDER_VA_SPACE then False
                 else if held UVM_LOCK_ORDER_VA_SPACE \<and> \<not> held UVM_LOCK_ORDER_VA_SPACE_SERIALIZE_WRITERS then False
                 else True
               else True);
            conflicting_order = find_next_bit (acquired_lock_orders c) (order_num lock_order);
            correct = (if conflicting_order \<noteq> UVM_LOCK_ORDER_COUNT then False else correct);
            c = c\<lparr>acquired_lock_orders := (acquired_lock_orders c)[order_num lock_order := True]\<rparr>;
            c = (if mode = UVM_LOCK_MODE_EXCLUSIVE
                 then c\<lparr>exclusive_acquired_lock_orders :=
                         (exclusive_acquired_lock_orders c)[order_num lock_order := True]\<rparr>
                 else c)
        in (correct, c\<lparr>acquired_locks := (acquired_locks c)[order_num lock_order := Some lock]\<rparr>))"

definition uvm_record_lock ::
  "bool \<Rightarrow> current \<Rightarrow> nat \<Rightarrow> uvm_lock_order \<Rightarrow> uvm_lock_mode \<Rightarrow> thread_contexts \<Rightarrow> bool \<times> thread_contexts" where
  "uvm_record_lock zalloc_ok cur lock lock_order mode s =
     (case uvm_thread_context_retain zalloc_ok cur s of
        (None, s) \<Rightarrow> (False, s)
      | (Some c, s) \<Rightarrow>
          let (correct, c) = record_lock_in lock lock_order mode c in (correct, set_context cur c s))"

definition record_unlock_in ::
  "nat \<Rightarrow> uvm_lock_order \<Rightarrow> uvm_lock_mode \<Rightarrow> bool \<Rightarrow> uvm_thread_context_t \<Rightarrow> bool \<times> uvm_thread_context_t" where
  "record_unlock_in lock lock_order mode out_of_order c =
     (let exclusive = (mode = UVM_LOCK_MODE_EXCLUSIVE); i = order_num lock_order
      in if 0 < skip_lock_tracking c then (True, c)
         else if lock_order = UVM_LOCK_ORDER_INVALID then (False, c)
         else
           let correct = (if \<not> out_of_order \<and> find_next_bit (acquired_lock_orders c) (i + 1) \<noteq> UVM_LOCK_ORDER_COUNT
                          then False else True);
               was_held = acquired_lock_orders c ! i;
               c = c\<lparr>acquired_lock_orders := (acquired_lock_orders c)[i := False]\<rparr>;
               (correct, c) =
                 (if \<not> was_held then (False, c)
                  else if acquired_locks c ! i \<noteq> Some lock then (False, c)
                  else
                    let was_exclusive = exclusive_acquired_lock_orders c ! i;
                        c = c\<lparr>exclusive_acquired_lock_orders := (exclusive_acquired_lock_orders c)[i := False]\<rparr>
                    in (if was_exclusive \<noteq> exclusive then False else correct, c))
           in (correct, c\<lparr>acquired_locks := (acquired_locks c)[i := None]\<rparr>))"

definition uvm_record_unlock ::
  "current \<Rightarrow> nat \<Rightarrow> uvm_lock_order \<Rightarrow> uvm_lock_mode \<Rightarrow> bool \<Rightarrow> thread_contexts \<Rightarrow> bool \<times> thread_contexts" where
  "uvm_record_unlock cur lock lock_order mode out_of_order s =
     (case uvm_thread_context s cur of
        None \<Rightarrow> (False, s)
      | Some c \<Rightarrow>
          let (correct, c) = record_unlock_in lock lock_order mode out_of_order c
          in (correct, uvm_thread_context_release cur (set_context cur c s)))"

definition check_locked_in :: "nat \<Rightarrow> uvm_lock_order \<Rightarrow> uvm_lock_mode \<Rightarrow> uvm_thread_context_t \<Rightarrow> bool" where
  "check_locked_in lock lock_order mode c =
     (let exclusive = (mode = UVM_LOCK_MODE_EXCLUSIVE); i = order_num lock_order
      in if 0 < skip_lock_tracking c then True
         else if \<not> acquired_lock_orders c ! i then False
         else if acquired_locks c ! i \<noteq> Some lock then False
         else if mode \<noteq> UVM_LOCK_MODE_ANY \<and> exclusive_acquired_lock_orders c ! i \<noteq> exclusive then False
         else True)"

definition uvm_check_locked :: "current \<Rightarrow> nat \<Rightarrow> uvm_lock_order \<Rightarrow> uvm_lock_mode \<Rightarrow> thread_contexts \<Rightarrow> bool" where
  "uvm_check_locked cur lock lock_order mode s =
     (case uvm_thread_context s cur of None \<Rightarrow> False | Some c \<Rightarrow> check_locked_in lock lock_order mode c)"

definition uvm_record_downgrade ::
  "current \<Rightarrow> nat \<Rightarrow> uvm_lock_order \<Rightarrow> thread_contexts \<Rightarrow> bool \<times> thread_contexts" where
  "uvm_record_downgrade cur lock lock_order s =
     (case uvm_thread_context s cur of
        None \<Rightarrow> (False, s)
      | Some c \<Rightarrow>
          if 0 < skip_lock_tracking c then (True, s)
          else if \<not> uvm_check_locked cur lock lock_order UVM_LOCK_MODE_EXCLUSIVE s then (False, s)
          else (True, set_context cur (c\<lparr>exclusive_acquired_lock_orders :=
                  (exclusive_acquired_lock_orders c)[order_num lock_order := False]\<rparr>) s))"

definition uvm_check_lockable_order :: "current \<Rightarrow> uvm_lock_order \<Rightarrow> thread_contexts \<Rightarrow> bool" where
  "uvm_check_lockable_order cur lock_order s =
     (case uvm_thread_context s cur of
        None \<Rightarrow> True
      | Some c \<Rightarrow>
          if 0 < skip_lock_tracking c then True
          else if lock_order = UVM_LOCK_ORDER_INVALID then False
          else find_next_bit (acquired_lock_orders c) (order_num lock_order) = UVM_LOCK_ORDER_COUNT)"

definition uvm_check_unlocked_order :: "current \<Rightarrow> uvm_lock_order \<Rightarrow> thread_contexts \<Rightarrow> bool" where
  "uvm_check_unlocked_order cur lock_order s =
     (case uvm_thread_context s cur of
        None \<Rightarrow> True
      | Some c \<Rightarrow>
          if 0 < skip_lock_tracking c then True
          else if lock_order = UVM_LOCK_ORDER_INVALID then False
          else \<not> acquired_lock_orders c ! order_num lock_order)"

definition uvm_check_all_unlocked :: "uvm_thread_context_t option \<Rightarrow> bool" where
  "uvm_check_all_unlocked c_ptr =
     (case c_ptr of None \<Rightarrow> True | Some c \<Rightarrow> bitmap_weight (acquired_lock_orders c) = 0)"

definition uvm_thread_check_all_unlocked :: "current \<Rightarrow> thread_contexts \<Rightarrow> bool" where
  "uvm_thread_check_all_unlocked cur s = uvm_check_all_unlocked (uvm_thread_context s cur)"

section \<open>Contexts in order\<close>

definition context_ok :: "uvm_thread_context_t \<Rightarrow> bool" where
  "context_ok c \<longleftrightarrow> length (acquired_lock_orders c) = 21 \<and> length (exclusive_acquired_lock_orders c) = 21 \<and>
     length (acquired_locks c) = 21 \<and>
     (\<forall>i < 21. exclusive_acquired_lock_orders c ! i \<longrightarrow> acquired_lock_orders c ! i) \<and>
     (\<forall>i < 21. acquired_lock_orders c ! i \<longleftrightarrow> acquired_locks c ! i \<noteq> None) \<and>
     \<not> acquired_lock_orders c ! 0"

text \<open>The lock of an order a thread holds, and whether exclusively.\<close>

definition holds :: "uvm_thread_context_t \<Rightarrow> uvm_lock_order \<Rightarrow> nat \<Rightarrow> bool" where
  "holds c lock_order lock \<longleftrightarrow> acquired_lock_orders c ! order_num lock_order \<and>
     acquired_locks c ! order_num lock_order = Some lock"

lemma order_num_less [simp]: "order_num k < 21"
  by (cases k) auto

lemma order_num_inj: "order_num k = order_num l \<Longrightarrow> k = l"
  by (cases k; cases l) auto

lemma count_21 [simp]: "UVM_LOCK_ORDER_COUNT = 21"
  by (simp add: UVM_LOCK_ORDER_COUNT_def)

lemma nothing_from:
  "length bm = 21 \<Longrightarrow> find_next_bit bm i = 21 \<longleftrightarrow> (\<forall>j. i \<le> j \<longrightarrow> j < 21 \<longrightarrow> \<not> bm ! j)"
  using find_next_bit_none[of bm i] by simp

lemma zero_context_ok: "context_ok zero_context"
  by (simp add: context_ok_def zero_context_def)

lemma context_of_set [simp]:
  "uvm_thread_context (set_context cur c s) t = (if t = cur then Some c else uvm_thread_context s t)"
  by (cases cur; cases t) auto

lemma set_context_twice [simp]: "set_context cur c (set_context cur d s) = set_context cur c s"
  by (cases cur) auto

lemma set_context_same: "uvm_thread_context s cur = Some c \<Longrightarrow> set_context cur c s = s"
  by (cases cur) (auto simp: fun_upd_idem)

lemma context_ok_ref [simp]: "context_ok (c\<lparr>ref_count := r\<rparr>) = context_ok c"
  "context_ok (c\<lparr>skip_lock_tracking := n\<rparr>) = context_ok c"
  by (simp_all add: context_ok_def)

definition contexts_ok :: "thread_contexts \<Rightarrow> bool" where
  "contexts_ok s \<longleftrightarrow> (\<forall>t c. uvm_thread_context s t = Some c \<longrightarrow> context_ok c)"

lemma contexts_okD: "contexts_ok s \<Longrightarrow> uvm_thread_context s t = Some c \<Longrightarrow> context_ok c"
  by (simp add: contexts_ok_def)

lemma contexts_ok_set: "contexts_ok s \<Longrightarrow> context_ok c \<Longrightarrow> contexts_ok (set_context cur c s)"
  by (auto simp: contexts_ok_def)

text \<open>The context a retain returns: the current one, or a zeroed one, with one more reference.\<close>

lemma retain_cases:
  assumes "uvm_thread_context_retain z cur s = (r, s')"
  obtains (none) "r = None" "s' = s" "uvm_thread_context s cur = None" "\<not> z"
  | (fresh) "r = Some (zero_context\<lparr>ref_count := 1\<rparr>)" "uvm_thread_context s cur = None" "z"
      "s' = set_context cur (zero_context\<lparr>ref_count := 1\<rparr>) s"
  | (old) c where "uvm_thread_context s cur = Some c" "r = Some (c\<lparr>ref_count := ref_count c + 1\<rparr>)"
      "s' = set_context cur (c\<lparr>ref_count := ref_count c + 1\<rparr>) s"
  using assms
  by (cases cur) (auto simp: uvm_thread_context_user_retain_def uvm_thread_context_interrupt_retain_def Let_def
      split: option.splits if_splits)

lemma release_cases:
  obtains (none) "uvm_thread_context s cur = None" "uvm_thread_context_release cur s = s"
  | (last) c pid where "cur = User pid" "uvm_thread_context s cur = Some c" "ref_count c = 1"
      "uvm_thread_context_release cur s = s\<lparr>user_contexts := (user_contexts s)(pid := None)\<rparr>"
  | (more) c where "uvm_thread_context s cur = Some c"
      "uvm_thread_context_release cur s = set_context cur (c\<lparr>ref_count := ref_count c - 1\<rparr>) s"
proof (cases "uvm_thread_context s cur")
  case None
  then show thesis
    by (intro none) (cases cur; simp add: uvm_thread_context_user_release_def)+
next
  case (Some c)
  show thesis
  proof (cases cur)
    case (User pid)
    show thesis
    proof (cases "ref_count c = 1")
      case True
      then show thesis using Some User by (intro last[of pid c]) (auto simp: uvm_thread_context_user_release_def)
    next
      case False
      then show thesis using Some User
        by (intro more[of c]) (auto simp: uvm_thread_context_user_release_def Let_def)
    qed
  next
    case (Interrupt cpu)
    then show thesis using Some
      by (intro more[of c]) (auto simp: uvm_thread_context_interrupt_release_def Let_def)
  qed
qed

lemma retain_ok: "contexts_ok s \<Longrightarrow> uvm_thread_context_retain z cur s = (r, s') \<Longrightarrow>
    contexts_ok s' \<and> (\<forall>c. r = Some c \<longrightarrow> context_ok c \<and> uvm_thread_context s' cur = Some c)"
  by (erule retain_cases) (auto simp: zero_context_ok contexts_okD intro!: contexts_ok_set)

lemma contexts_ok_remove:
  "contexts_ok s \<Longrightarrow> contexts_ok (s\<lparr>user_contexts := (user_contexts s)(pid := None)\<rparr>)"
  unfolding contexts_ok_def
proof (intro allI impI)
  fix t c
  assume ok: "\<forall>t c. uvm_thread_context s t = Some c \<longrightarrow> context_ok c"
    and c: "uvm_thread_context (s\<lparr>user_contexts := (user_contexts s)(pid := None)\<rparr>) t = Some c"
  then have "uvm_thread_context s t = Some c" by (cases t) (auto split: if_splits)
  then show "context_ok c" using ok by blast
qed

lemma release_ok: "contexts_ok s \<Longrightarrow> contexts_ok (uvm_thread_context_release cur s)"
  by (rule release_cases[of s cur]) (auto simp: contexts_okD contexts_ok_remove intro!: contexts_ok_set)

section \<open>Recording locks and unlocks\<close>

text \<open>The special rule for RM's GPU locks.\<close>

definition rm_rule :: "uvm_lock_order \<Rightarrow> uvm_thread_context_t \<Rightarrow> bool" where
  "rm_rule k c \<longleftrightarrow> (k = UVM_LOCK_ORDER_RM_GPUS \<longrightarrow>
     acquired_lock_orders c ! order_num UVM_LOCK_ORDER_VA_SPACE \<longrightarrow>
     \<not> exclusive_acquired_lock_orders c ! order_num UVM_LOCK_ORDER_VA_SPACE \<and>
     acquired_lock_orders c ! order_num UVM_LOCK_ORDER_VA_SPACE_SERIALIZE_WRITERS)"

definition none_from :: "nat \<Rightarrow> uvm_thread_context_t \<Rightarrow> bool" where
  "none_from i c \<longleftrightarrow> (\<forall>j. i \<le> j \<longrightarrow> j < 21 \<longrightarrow> \<not> acquired_lock_orders c ! j)"

lemma none_from_iff: "context_ok c \<Longrightarrow> find_next_bit (acquired_lock_orders c) i = 21 \<longleftrightarrow> none_from i c"
  by (simp add: none_from_def context_ok_def nothing_from)

lemma record_lock_in_result:
  assumes "context_ok c" "skip_lock_tracking c = 0"
  shows "fst (record_lock_in lock k m c) \<longleftrightarrow> k \<noteq> UVM_LOCK_ORDER_INVALID \<and> none_from (order_num k) c \<and> rm_rule k c"
proof -
  have "exclusive_acquired_lock_orders c ! 5 \<Longrightarrow> acquired_lock_orders c ! 5"
    using assms(1) by (simp add: context_ok_def)
  then show ?thesis
    using assms by (auto simp: record_lock_in_def Let_def none_from_iff rm_rule_def)
qed

lemma record_lock_in_context:
  assumes "skip_lock_tracking c = 0" "k \<noteq> UVM_LOCK_ORDER_INVALID"
  shows "snd (record_lock_in lock k m c) = c
    \<lparr>acquired_lock_orders := (acquired_lock_orders c)[order_num k := True],
     exclusive_acquired_lock_orders := (if m = UVM_LOCK_MODE_EXCLUSIVE
       then (exclusive_acquired_lock_orders c)[order_num k := True] else exclusive_acquired_lock_orders c),
     acquired_locks := (acquired_locks c)[order_num k := Some lock]\<rparr>"
  using assms by (simp add: record_lock_in_def Let_def)

lemma record_lock_in_skip: "0 < skip_lock_tracking c \<Longrightarrow> record_lock_in lock k m c = (True, c)"
  by (simp add: record_lock_in_def)

lemma order_0: "order_num k = 0 \<longleftrightarrow> k = UVM_LOCK_ORDER_INVALID"
  by (cases k) auto

lemma record_lock_in_ok:
  assumes "context_ok c"
  shows "context_ok (snd (record_lock_in lock k m c))"
proof (cases "0 < skip_lock_tracking c \<or> k = UVM_LOCK_ORDER_INVALID")
  case True
  then show ?thesis using assms by (auto simp: record_lock_in_def)
next
  case False
  then have e: "skip_lock_tracking c = 0" "k \<noteq> UVM_LOCK_ORDER_INVALID" by (auto simp: word_gt_0)
  have "order_num k \<noteq> 0" using e(2) by (simp add: order_0)
  then show ?thesis
    using assms unfolding record_lock_in_context[OF e] by (auto simp: context_ok_def nth_list_update)
qed

lemma record_unlock_in_result:
  assumes "context_ok c" "skip_lock_tracking c = 0"
  shows "fst (record_unlock_in lock k m ooo c) \<longleftrightarrow>
    k \<noteq> UVM_LOCK_ORDER_INVALID \<and> holds c k lock \<and>
    exclusive_acquired_lock_orders c ! order_num k = (m = UVM_LOCK_MODE_EXCLUSIVE) \<and>
    (ooo \<or> none_from (order_num k + 1) c)"
  using assms by (auto simp: record_unlock_in_def Let_def none_from_iff[symmetric] holds_def)

lemma record_unlock_in_context:
  assumes "fst (record_unlock_in lock k m ooo c)" "skip_lock_tracking c = 0"
  shows "snd (record_unlock_in lock k m ooo c) = c
    \<lparr>acquired_lock_orders := (acquired_lock_orders c)[order_num k := False],
     exclusive_acquired_lock_orders := (exclusive_acquired_lock_orders c)[order_num k := False],
     acquired_locks := (acquired_locks c)[order_num k := None]\<rparr>"
  using assms by (auto simp: record_unlock_in_def Let_def split: if_splits)

lemma record_unlock_in_ok:
  assumes "context_ok c" "fst (record_unlock_in lock k m ooo c)"
  shows "context_ok (snd (record_unlock_in lock k m ooo c))"
proof (cases "0 < skip_lock_tracking c")
  case True
  then show ?thesis using assms by (simp add: record_unlock_in_def)
next
  case False
  then have "skip_lock_tracking c = 0" by (auto simp: word_gt_0)
  from record_unlock_in_context[OF assms(2) this] show ?thesis
    using assms(1) by (auto simp: context_ok_def nth_list_update)
qed

lemma record_lock_ok: "contexts_ok s \<Longrightarrow> contexts_ok (snd (uvm_record_lock z cur lock k m s))"
proof -
  obtain r s' where r: "uvm_thread_context_retain z cur s = (r, s')" by (cases "uvm_thread_context_retain z cur s")
  assume "contexts_ok s"
  from retain_ok[OF this r] have ok: "contexts_ok s'" "\<And>c. r = Some c \<Longrightarrow> context_ok c" by auto
  show ?thesis
  proof (cases r)
    case None
    then show ?thesis using ok r by (simp add: uvm_record_lock_def)
  next
    case (Some c)
    have "context_ok (snd (record_lock_in lock k m c))" using ok(2)[OF Some] by (rule record_lock_in_ok)
    then show ?thesis using ok(1) Some r by (simp add: uvm_record_lock_def case_prod_beta contexts_ok_set)
  qed
qed

lemma record_unlock_ok:
  "contexts_ok s \<Longrightarrow> fst (uvm_record_unlock cur lock k m ooo s) \<Longrightarrow>
   contexts_ok (snd (uvm_record_unlock cur lock k m ooo s))"
proof (cases "uvm_thread_context s cur")
  case None
  assume "contexts_ok s"
  then show ?thesis using None by (simp add: uvm_record_unlock_def)
next
  case (Some c)
  assume ok: "contexts_ok s" and u: "fst (uvm_record_unlock cur lock k m ooo s)"
  have "context_ok c" using ok Some by (rule contexts_okD)
  moreover have "fst (record_unlock_in lock k m ooo c)"
    using u Some by (simp add: uvm_record_unlock_def case_prod_beta)
  ultimately have "context_ok (snd (record_unlock_in lock k m ooo c))" by (rule record_unlock_in_ok)
  then show ?thesis
    using ok Some by (simp add: uvm_record_unlock_def case_prod_beta release_ok contexts_ok_set)
qed

lemma check_locked_context:
  "uvm_check_locked cur lock k UVM_LOCK_MODE_EXCLUSIVE s \<Longrightarrow> uvm_thread_context s cur = Some c \<Longrightarrow>
   skip_lock_tracking c = 0 \<Longrightarrow> exclusive_acquired_lock_orders c ! order_num k \<and> holds c k lock"
  by (auto simp: uvm_check_locked_def check_locked_in_def Let_def holds_def split: if_splits)

lemma record_downgrade_ok:
  "contexts_ok s \<Longrightarrow> contexts_ok (snd (uvm_record_downgrade cur lock k s))"
proof (cases "uvm_thread_context s cur")
  case None
  assume "contexts_ok s"
  then show ?thesis using None by (simp add: uvm_record_downgrade_def)
next
  case (Some c)
  assume ok: "contexts_ok s"
  then have c: "context_ok c" using Some by (rule contexts_okD)
  have "context_ok (c\<lparr>exclusive_acquired_lock_orders :=
      (exclusive_acquired_lock_orders c)[order_num k := False]\<rparr>)"
    using c by (auto simp: context_ok_def nth_list_update)
  then show ?thesis using ok Some by (simp add: uvm_record_downgrade_def contexts_ok_set)
qed

text \<open>What the threads may do: take any lock, in order or not, and release and downgrade the locks
  they hold.\<close>

inductive lock_step :: "thread_contexts \<Rightarrow> thread_contexts \<Rightarrow> bool" where
  lock: "uvm_record_lock z cur l k m s = (r, s') \<Longrightarrow> lock_step s s'"
| unlock: "uvm_record_unlock cur l k m ooo s = (True, s') \<Longrightarrow> lock_step s s'"
| downgrade: "uvm_record_downgrade cur l k s = (r, s') \<Longrightarrow> lock_step s s'"
| disable: "lock_step s (uvm_thread_context_disable_lock_tracking z cur s)"
| enable: "lock_step s (uvm_thread_context_enable_lock_tracking cur s)"

definition initial_contexts :: thread_contexts where
  "initial_contexts = \<lparr>user_contexts = Map.empty, interrupt_contexts = \<lambda>_. zero_context\<rparr>"

inductive lock_reachable :: "thread_contexts \<Rightarrow> bool" where
  init: "lock_reachable initial_contexts"
| step: "lock_reachable s \<Longrightarrow> lock_step s s' \<Longrightarrow> lock_reachable s'"

lemma lock_step_ok: "lock_step s s' \<Longrightarrow> contexts_ok s \<Longrightarrow> contexts_ok s'"
proof (induction rule: lock_step.induct)
  case (lock z cur l k m s r s')
  then show ?case using record_lock_ok by (metis snd_conv)
next
  case (unlock cur l k m ooo s s')
  then show ?case using record_unlock_ok by (metis fst_conv snd_conv)
next
  case (downgrade cur l k s r s')
  then show ?case using record_downgrade_ok by (metis snd_conv)
next
  case (disable s z cur)
  obtain r s' where r: "uvm_thread_context_retain z cur s = (r, s')" by (cases "uvm_thread_context_retain z cur s")
  from retain_ok[OF disable r] have ok: "contexts_ok s'" "\<And>c. r = Some c \<Longrightarrow> context_ok c" by auto
  then show ?case
    using r by (cases r) (simp_all add: uvm_thread_context_disable_lock_tracking_def contexts_ok_set)
next
  case (enable s cur)
  show ?case
  proof (cases "uvm_thread_context s cur")
    case None
    then show ?thesis using enable by (simp add: uvm_thread_context_enable_lock_tracking_def)
  next
    case (Some c)
    have "context_ok c" using enable Some by (rule contexts_okD)
    then show ?thesis
      using enable Some by (simp add: uvm_thread_context_enable_lock_tracking_def release_ok contexts_ok_set)
  qed
qed

lemma lock_reachable_ok: "lock_reachable s \<Longrightarrow> contexts_ok s"
proof (induction rule: lock_reachable.induct)
  case init
  show ?case unfolding contexts_ok_def
  proof (intro allI impI)
    fix t c assume "uvm_thread_context initial_contexts t = Some c"
    then show "context_ok c" by (cases t) (auto simp: initial_contexts_def zero_context_ok)
  qed
next
  case step
  then show ?case by (blast intro: lock_step_ok)
qed

lemma record_lock_some:
  assumes "uvm_thread_context s cur = Some c"
  shows "uvm_record_lock z cur l k m s =
    (let (r, c') = record_lock_in l k m (c\<lparr>ref_count := ref_count c + 1\<rparr>) in (r, set_context cur c' s))"
proof -
  have "uvm_thread_context_retain z cur s =
      (Some (c\<lparr>ref_count := ref_count c + 1\<rparr>), set_context cur (c\<lparr>ref_count := ref_count c + 1\<rparr>) s)"
    using assms by (cases cur) (auto simp: uvm_thread_context_user_retain_def uvm_thread_context_interrupt_retain_def Let_def)
  then show ?thesis by (simp add: uvm_record_lock_def)
qed

lemma none_from_ref [simp]: "none_from i (c\<lparr>ref_count := n\<rparr>) = none_from i c"
  by (simp add: none_from_def)

definition held_by :: "thread_contexts \<Rightarrow> current \<Rightarrow> uvm_lock_order \<Rightarrow> nat \<Rightarrow> bool" where
  "held_by s t k l \<longleftrightarrow> (\<exists>c. uvm_thread_context s t = Some c \<and> holds c k l)"

lemma accepted_is_above:
  assumes ok: "contexts_ok s" and acc: "fst (uvm_record_lock z t l k m s)"
    and on: "\<forall>c. uvm_thread_context s t = Some c \<longrightarrow> skip_lock_tracking c = 0"
    and h: "held_by s t k' l'"
  shows "order_num k' < order_num k"
proof -
  from h obtain c where c: "uvm_thread_context s t = Some c" "holds c k' l'" by (auto simp: held_by_def)
  let ?c = "c\<lparr>ref_count := ref_count c + 1\<rparr>"
  have "context_ok ?c" "skip_lock_tracking ?c = 0" using contexts_okD[OF ok c(1)] on c(1) by auto
  moreover have "fst (record_lock_in l k m ?c)"
    using acc by (simp add: record_lock_some[OF c(1)] case_prod_beta)
  ultimately have "none_from (order_num k) c" by (simp add: record_lock_in_result)
  moreover have "acquired_lock_orders c ! order_num k'" using c(2) by (simp add: holds_def)
  ultimately show ?thesis unfolding none_from_def by (meson not_le order_num_less)
qed

text \<open>
  C30. No deadlock among tracked locks: in every state the recording can reach, take any finite set of
  threads (and interrupt handlers) none of which has tracking disabled, each about to wait for a
  lock whose acquisition \<^verbatim>\<open>__uvm_record_lock\<close> accepts. Then at least one of them waits for a lock
  that no member of the set holds, itself included.
\<close>

theorem lock_order_prevents_deadlock:
  assumes "lock_reachable s" "finite T" "T \<noteq> {}"
    and "\<forall>t\<in>T. \<forall>c. uvm_thread_context s t = Some c \<longrightarrow> skip_lock_tracking c = 0"
    and "\<forall>t\<in>T. fst (uvm_record_lock True t (waits t) (order t) (mode t) s)"
  shows "\<exists>t\<in>T. \<forall>u\<in>T. \<not> held_by s u (order t) (waits t)"
proof -
  let ?f = "\<lambda>t. order_num (order t)"
  have f: "finite (?f ` T)" "?f ` T \<noteq> {}" using assms(2,3) by auto
  obtain t where t': "t \<in> T" "Max (?f ` T) = ?f t" using Max_in[OF f] by auto
  have t: "t \<in> T" "\<forall>u\<in>T. ?f u \<le> ?f t" using t' Max_ge[OF f(1)] by auto
  have "\<not> held_by s u (order t) (waits t)" if "u \<in> T" for u
  proof
    assume "held_by s u (order t) (waits t)"
    with accepted_is_above[OF lock_reachable_ok[OF assms(1)], of True u] assms(4,5) that
    have "order_num (order t) < order_num (order u)" by blast
    then show False using t(2) that by fastforce
  qed
  then show ?thesis using t(1) by blast
qed

definition sample_contexts :: thread_contexts where
  "sample_contexts = snd (uvm_record_lock True (User 2) 5 UVM_LOCK_ORDER_PMM UVM_LOCK_MODE_EXCLUSIVE initial_contexts)"

lemma sample_reachable: "lock_reachable sample_contexts"
  unfolding sample_contexts_def
  by (rule lock_reachable.step[OF lock_reachable.init]) (rule lock_step.lock[OF prod.collapse[symmetric]])

lemma sample_context: "uvm_thread_context sample_contexts (User 2) = Some
   (zero_context\<lparr>ref_count := 1, acquired_lock_orders := (acquired_lock_orders zero_context)[13 := True],
      exclusive_acquired_lock_orders := (exclusive_acquired_lock_orders zero_context)[13 := True],
      acquired_locks := (acquired_locks zero_context)[13 := Some 5]\<rparr>)"
  "uvm_thread_context sample_contexts (User (3)) = None"
  by (simp_all add: sample_contexts_def uvm_record_lock_def uvm_thread_context_user_retain_def initial_contexts_def
      record_lock_in_context case_prod_beta Let_def zero_context_def)

lemma lock_order_prevents_deadlock_witness:
  "\<exists>t\<in>{User 2, User (3)}. \<forall>u\<in>{User 2, User (3)}. \<not> held_by sample_contexts u
     ((\<lambda>t. if t = User 2 then UVM_LOCK_ORDER_CHANNEL else UVM_LOCK_ORDER_PMM) t) ((\<lambda>t. if t = User 2 then 7 else 5) t)"
proof (rule lock_order_prevents_deadlock[where mode = "\<lambda>_. UVM_LOCK_MODE_EXCLUSIVE"])
  show "\<forall>t\<in>{User 2, User (3)}. fst (uvm_record_lock True t ((\<lambda>t. if t = User 2 then 7 else 5) t)
      ((\<lambda>t. if t = User 2 then UVM_LOCK_ORDER_CHANNEL else UVM_LOCK_ORDER_PMM) t) UVM_LOCK_MODE_EXCLUSIVE sample_contexts)"
    using sample_context
    by (simp add: uvm_record_lock_def uvm_thread_context_user_retain_def record_lock_in_result context_ok_def
        case_prod_beta Let_def zero_context_def none_from_def rm_rule_def nth_list_update)
  show "\<forall>t\<in>{User 2, User 3}. \<forall>c. uvm_thread_context sample_contexts t = Some c \<longrightarrow> skip_lock_tracking c = 0"
    using sample_context by (simp add: zero_context_def)
qed (simp_all add: sample_reachable)

lemma unlock_undoes_lock_in:
  assumes "context_ok c" "fst (record_lock_in l k m c)" "m \<noteq> UVM_LOCK_MODE_ANY"
  shows "record_unlock_in l k m ooo (snd (record_lock_in l k m c)) = (True, c)"
proof (cases "0 < skip_lock_tracking c")
  case True
  then show ?thesis by (simp add: record_lock_in_def record_unlock_in_def)
next
  case False
  then have on: "skip_lock_tracking c = 0" by (auto simp: word_gt_0)
  let ?c = "snd (record_lock_in l k m c)"
  from assms(2) on have k: "k \<noteq> UVM_LOCK_ORDER_INVALID" "none_from (order_num k) c"
    by (auto simp: record_lock_in_result[OF assms(1) on])
  note c = record_lock_in_context[OF on k(1), of l m]
  have free: "\<not> acquired_lock_orders c ! order_num k" using k(2) by (simp add: none_from_def)
  then have x: "\<not> exclusive_acquired_lock_orders c ! order_num k" "acquired_locks c ! order_num k = None"
    using assms(1) order_num_less[of k] unfolding context_ok_def by blast+
  have on': "skip_lock_tracking ?c = 0" using on by (simp add: c)
  have "none_from (order_num k + 1) ?c" using k(2) by (auto simp: none_from_def c)
  moreover have "holds ?c k l" "exclusive_acquired_lock_orders ?c ! order_num k = (m = UVM_LOCK_MODE_EXCLUSIVE)"
    using assms(1) x(1) by (auto simp: c holds_def context_ok_def)
  ultimately have u: "fst (record_unlock_in l k m ooo ?c)"
    using k(1) by (simp add: record_unlock_in_result[OF record_lock_in_ok[OF assms(1)] on'])
  have len: "length (acquired_lock_orders c) = 21" "length (exclusive_acquired_lock_orders c) = 21"
    "length (acquired_locks c) = 21" using assms(1) by (simp_all add: context_ok_def)
  have same: "(acquired_lock_orders c)[order_num k := False] = acquired_lock_orders c"
    "(exclusive_acquired_lock_orders c)[order_num k := False] = exclusive_acquired_lock_orders c"
    "(acquired_locks c)[order_num k := None] = acquired_locks c"
    using free x len by (simp_all add: list_update_same_conv)
  have "snd (record_unlock_in l k m ooo ?c) = ?c
    \<lparr>acquired_lock_orders := (acquired_lock_orders ?c)[order_num k := False],
     exclusive_acquired_lock_orders := (exclusive_acquired_lock_orders ?c)[order_num k := False],
     acquired_locks := (acquired_locks ?c)[order_num k := None]\<rparr>"
    by (rule record_unlock_in_context[OF u on'])
  also have "\<dots> = c" unfolding c by (simp add: same)
  finally have "snd (record_unlock_in l k m ooo ?c) = c" .
  with u show ?thesis by (metis prod.collapse)
qed

text \<open>
  Round trip: releasing a lock that was accepted, in the mode it was taken, is accepted in turn
  and restores every thread's context exactly, the one created by a thread's first lock being
  removed again with its last reference.
\<close>

theorem lock_unlock_roundtrip:
  assumes "contexts_ok s" "\<forall>pid c. user_contexts s pid = Some c \<longrightarrow> ref_count c \<noteq> 0"
    and "uvm_record_lock z cur l k m s = (True, s')" "m \<noteq> UVM_LOCK_MODE_ANY"
  shows "uvm_record_unlock cur l k m ooo s' = (True, s)"
proof -
  obtain c sr where r: "uvm_thread_context_retain z cur s = (Some c, sr)"
    using assms(3) by (cases "uvm_thread_context_retain z cur s"; cases "fst (uvm_thread_context_retain z cur s)")
      (auto simp: uvm_record_lock_def)
  have c: "context_ok c" using retain_ok[OF assms(1) r] by simp
  have s': "fst (record_lock_in l k m c)" "s' = set_context cur (snd (record_lock_in l k m c)) sr"
    using assms(3) r by (auto simp: uvm_record_lock_def case_prod_beta)
  have "uvm_record_unlock cur l k m ooo s' = (True, uvm_thread_context_release cur (set_context cur c sr))"
    using unlock_undoes_lock_in[OF c s'(1) assms(4), of ooo] by (simp add: uvm_record_unlock_def s'(2))
  moreover have "uvm_thread_context_release cur (set_context cur c sr) = s"
    using r assms(2)
    by (cases cur)
       (auto simp: uvm_thread_context_user_retain_def uvm_thread_context_interrupt_retain_def Let_def
          uvm_thread_context_user_release_def uvm_thread_context_interrupt_release_def fun_upd_idem
        split: option.splits if_splits)
  ultimately show ?thesis by simp
qed

lemma lock_unlock_roundtrip_witness:
  "uvm_record_unlock (User 3) 9 UVM_LOCK_ORDER_CHANNEL UVM_LOCK_MODE_SHARED False
     (snd (uvm_record_lock True (User 3) 9 UVM_LOCK_ORDER_CHANNEL UVM_LOCK_MODE_SHARED initial_contexts)) =
   (True, initial_contexts)"
proof (rule lock_unlock_roundtrip[where z = True])
  show "contexts_ok initial_contexts" by (rule lock_reachable_ok[OF lock_reachable.init])
  have "fst (uvm_record_lock True (User 3) 9 UVM_LOCK_ORDER_CHANNEL UVM_LOCK_MODE_SHARED initial_contexts)"
    by (simp add: uvm_record_lock_def uvm_thread_context_user_retain_def initial_contexts_def Let_def
        case_prod_beta record_lock_in_result context_ok_def none_from_def rm_rule_def zero_context_def)
  then show "uvm_record_lock True (User 3) 9 UVM_LOCK_ORDER_CHANNEL UVM_LOCK_MODE_SHARED initial_contexts =
    (True, snd (uvm_record_lock True (User 3) 9 UVM_LOCK_ORDER_CHANNEL UVM_LOCK_MODE_SHARED initial_contexts))"
    by (metis prod.collapse)
qed (simp_all add: initial_contexts_def)

lemma check_locked_after_lock:
  assumes "context_ok c" "skip_lock_tracking c = 0" "k \<noteq> UVM_LOCK_ORDER_INVALID"
  shows "check_locked_in l k UVM_LOCK_MODE_ANY (snd (record_lock_in l k m c))"
    and "m \<noteq> UVM_LOCK_MODE_ANY \<Longrightarrow> fst (record_lock_in l k m c) \<Longrightarrow>
      check_locked_in l k m (snd (record_lock_in l k m c))"
proof -
  note ctx = record_lock_in_context[OF assms(2,3), of l m]
  have len: "order_num k < length (acquired_lock_orders c)" "order_num k < length (acquired_locks c)"
    "order_num k < length (exclusive_acquired_lock_orders c)" using assms(1) by (auto simp: context_ok_def)
  show "check_locked_in l k UVM_LOCK_MODE_ANY (snd (record_lock_in l k m c))"
    using len by (simp add: ctx check_locked_in_def)
  assume "m \<noteq> UVM_LOCK_MODE_ANY" "fst (record_lock_in l k m c)"
  then have "\<not> acquired_lock_orders c ! order_num k"
    using assms by (simp add: record_lock_in_result none_from_def)
  then have "\<not> exclusive_acquired_lock_orders c ! order_num k"
    using assms(1) order_num_less[of k] unfolding context_ok_def by blast
  then show "check_locked_in l k m (snd (record_lock_in l k m c))"
    using len by (simp add: ctx check_locked_in_def)
qed

text \<open>
  For a thread with tracking on, \<^verbatim>\<open>__uvm_record_lock\<close> accepts exactly the valid orders for which
  \<^verbatim>\<open>__uvm_check_lockable_order\<close> holds, that is no equal or deeper order is held, and which keep the rule
  for RM's GPU locks (with the VA space lock held, it is held shared and the writer serialization
  lock with it). Accepted or not, the lock of a valid order is then held, in the requested mode if
  it was accepted; no other order of the thread and no other thread changes.
\<close>

theorem record_lock_correct:
  assumes "contexts_ok s" "uvm_thread_context s cur = Some c" "skip_lock_tracking c = 0"
    and "uvm_record_lock z cur l k m s = (r, s')" "m \<noteq> UVM_LOCK_MODE_ANY"
  shows "(r \<longleftrightarrow> uvm_check_lockable_order cur k s \<and> rm_rule k c) \<and>
    (k \<noteq> UVM_LOCK_ORDER_INVALID \<longrightarrow> uvm_check_locked cur l k UVM_LOCK_MODE_ANY s') \<and>
    (r \<longrightarrow> uvm_check_locked cur l k m s') \<and>
    (\<forall>k'. k' \<noteq> k \<longrightarrow> uvm_check_unlocked_order cur k' s' = uvm_check_unlocked_order cur k' s) \<and>
    (\<forall>t. t \<noteq> cur \<longrightarrow> uvm_thread_context s' t = uvm_thread_context s t)"
proof -
  let ?c = "c\<lparr>ref_count := ref_count c + 1\<rparr>"
  have c: "context_ok c" "context_ok ?c" "skip_lock_tracking ?c = 0"
    using contexts_okD[OF assms(1,2)] assms(3) by auto
  have s': "r = fst (record_lock_in l k m ?c)" "s' = set_context cur (snd (record_lock_in l k m ?c)) s"
    using assms(4) by (auto simp: record_lock_some[OF assms(2)] case_prod_beta)
  have ctx: "uvm_thread_context s' cur = Some (snd (record_lock_in l k m ?c))" by (simp add: s'(2))
  have r: "r \<longleftrightarrow> k \<noteq> UVM_LOCK_ORDER_INVALID \<and> none_from (order_num k) c \<and> rm_rule k c"
    by (simp add: s'(1) record_lock_in_result[OF c(2,3)]) (simp add: rm_rule_def)
  have other: "acquired_lock_orders (snd (record_lock_in l k m ?c)) ! order_num k' = acquired_lock_orders c ! order_num k' \<and>
    skip_lock_tracking (snd (record_lock_in l k m ?c)) = 0" if "k' \<noteq> k" for k'
  proof (cases "k = UVM_LOCK_ORDER_INVALID")
    case True
    then show ?thesis using assms(3) by (simp add: record_lock_in_def)
  next
    case False
    have "order_num k \<noteq> order_num k'" using that order_num_inj[of k' k] by auto
    then show ?thesis using assms(3) by (simp add: record_lock_in_context[OF c(3) False])
  qed
  have "r \<longleftrightarrow> uvm_check_lockable_order cur k s \<and> rm_rule k c"
    using assms(2,3) c(1) by (auto simp: r uvm_check_lockable_order_def none_from_iff)
  moreover have "k \<noteq> UVM_LOCK_ORDER_INVALID \<longrightarrow> uvm_check_locked cur l k UVM_LOCK_MODE_ANY s'"
    using check_locked_after_lock(1)[OF c(2,3)] by (simp add: uvm_check_locked_def ctx)
  moreover have "r \<longrightarrow> uvm_check_locked cur l k m s'"
    using check_locked_after_lock(2)[OF c(2,3) _ assms(5)] r s'(1) by (auto simp: uvm_check_locked_def ctx)
  moreover have "\<forall>k'. k' \<noteq> k \<longrightarrow> uvm_check_unlocked_order cur k' s' = uvm_check_unlocked_order cur k' s"
    using other assms(2,3) by (simp add: uvm_check_unlocked_order_def ctx)
  moreover have "\<forall>t. t \<noteq> cur \<longrightarrow> uvm_thread_context s' t = uvm_thread_context s t" by (simp add: s'(2))
  ultimately show ?thesis by blast
qed

lemma record_lock_correct_witness:
  "fst (uvm_record_lock True (User 2) 7 UVM_LOCK_ORDER_CHANNEL UVM_LOCK_MODE_SHARED sample_contexts) \<longleftrightarrow>
     uvm_check_lockable_order (User 2) UVM_LOCK_ORDER_CHANNEL sample_contexts \<and>
     rm_rule UVM_LOCK_ORDER_CHANNEL (the (uvm_thread_context sample_contexts (User 2)))"
  by (rule record_lock_correct[where z = True and l = 7 and m = UVM_LOCK_MODE_SHARED
        and s' = "snd (uvm_record_lock True (User 2) 7 UVM_LOCK_ORDER_CHANNEL UVM_LOCK_MODE_SHARED sample_contexts)",
        THEN conjunct1])
     (use sample_context in \<open>simp_all add: lock_reachable_ok sample_reachable zero_context_def\<close>)

text \<open>
  A release with the wrong lock is reported, but the test-and-clear of the exclusive bit sits behind
  that test and is skipped: when a thread that holds an order exclusively releases another instance
  of it and, later, takes a lock of that order shared, the tracking answers that the lock is held
  exclusively, and the correct release of it is reported as an error.
\<close>

theorem mismatched_unlock_keeps_exclusive:
  assumes "contexts_ok s" "uvm_thread_context s cur = Some c" "skip_lock_tracking c = 0" "1 < ref_count c"
    and "holds c k l" "exclusive_acquired_lock_orders c ! order_num k" "l' \<noteq> l"
    and "uvm_record_unlock cur l' k m ooo s = (r1, s1)"
    and "uvm_record_lock z cur l k UVM_LOCK_MODE_SHARED s1 = (r2, s2)"
  shows "\<not> r1 \<and> uvm_check_locked cur l k UVM_LOCK_MODE_EXCLUSIVE s2 \<and>
    \<not> fst (uvm_record_unlock cur l k UVM_LOCK_MODE_SHARED ooo' s2)"
proof -
  have c: "context_ok c" using assms(1,2) by (rule contexts_okD)
  have k: "k \<noteq> UVM_LOCK_ORDER_INVALID" using assms(5) c by (auto simp: holds_def context_ok_def)
  let ?c1 = "c\<lparr>acquired_lock_orders := (acquired_lock_orders c)[order_num k := False],
      acquired_locks := (acquired_locks c)[order_num k := None]\<rparr>"
  have u: "record_unlock_in l' k m ooo c = (False, ?c1)"
    using assms(3,5,7) k by (simp add: record_unlock_in_def Let_def holds_def)
  have rel: "uvm_thread_context (uvm_thread_context_release cur (set_context cur ?c1 s)) cur =
      Some (?c1\<lparr>ref_count := ref_count c - 1\<rparr>)"
  proof -
    have "ref_count c \<noteq> 1" using assms(4) by auto
    then show ?thesis
      by (cases cur)
         (auto simp: uvm_thread_context_user_release_def uvm_thread_context_interrupt_release_def Let_def)
  qed
  have r1: "\<not> r1" and s1: "s1 = uvm_thread_context_release cur (set_context cur ?c1 s)"
    using assms(2,8) u by (auto simp: uvm_record_unlock_def)
  let ?c2 = "?c1\<lparr>ref_count := ref_count c - 1\<rparr>"
  have on2: "skip_lock_tracking (?c2\<lparr>ref_count := ref_count ?c2 + 1\<rparr>) = 0" using assms(3) by simp
  let ?c3 = "snd (record_lock_in l k UVM_LOCK_MODE_SHARED (?c2\<lparr>ref_count := ref_count ?c2 + 1\<rparr>))"
  have "snd (uvm_record_lock z cur l k UVM_LOCK_MODE_SHARED s1) = set_context cur ?c3 s1"
    unfolding record_lock_some[OF rel[folded s1]] by (simp only: Let_def case_prod_beta snd_conv)
  then have s2: "uvm_thread_context s2 cur = Some ?c3" unfolding assms(9) by simp
  have len: "length (acquired_lock_orders c) = 21" "length (acquired_locks c) = 21"
    using c by (auto simp: context_ok_def)
  have c3: "skip_lock_tracking ?c3 = 0" "acquired_lock_orders ?c3 ! order_num k" "acquired_locks ?c3 ! order_num k = Some l"
    "exclusive_acquired_lock_orders ?c3 ! order_num k"
    unfolding record_lock_in_context[OF on2 k] using assms(3,6) len by simp_all
  have "check_locked_in l k UVM_LOCK_MODE_EXCLUSIVE ?c3" using c3 by (simp add: check_locked_in_def)
  moreover have "\<not> fst (record_unlock_in l k UVM_LOCK_MODE_SHARED ooo' ?c3)"
    using c3 k by (simp add: record_unlock_in_def Let_def)
  ultimately show ?thesis
    using r1 s2 by (simp add: uvm_check_locked_def uvm_record_unlock_def case_prod_beta)
qed

definition twice_locked :: thread_contexts where
  "twice_locked = set_context (User 2) (the (uvm_thread_context sample_contexts (User 2))\<lparr>ref_count := 2\<rparr>) sample_contexts"

lemma twice_ok: "contexts_ok twice_locked"
proof -
  have "context_ok (the (uvm_thread_context sample_contexts (User 2)))"
    using lock_reachable_ok[OF sample_reachable] by (rule contexts_okD[where t = "User 2"]) (use sample_context(1) in simp)
  then show ?thesis
    unfolding twice_locked_def by (intro contexts_ok_set lock_reachable_ok sample_reachable) simp
qed

lemma mismatched_unlock_keeps_exclusive_witness:
  "\<not> fst (uvm_record_unlock (User 2) 6 UVM_LOCK_ORDER_PMM UVM_LOCK_MODE_EXCLUSIVE False twice_locked)"
  by (rule mismatched_unlock_keeps_exclusive[where k = UVM_LOCK_ORDER_PMM and l = 5 and cur = "User 2" and z = True
        and s = twice_locked and c = "the (uvm_thread_context twice_locked (User 2))",
        OF _ _ _ _ _ _ _ prod.collapse[symmetric] prod.collapse[symmetric], THEN conjunct1])
     (use sample_context twice_ok in \<open>simp_all add: twice_locked_def zero_context_def holds_def\<close>)

end
