(* ===== verification/Kvmalloc.thy ===== *)
theory Kvmalloc
  imports UVM_Prelude "HOL-Library.AList" "HOL-Library.Monad_Syntax"
begin

text \<open>
  \<^verbatim>\<open>uvm8_kvmalloc.c\<close>: allocations that are kmalloc'ed when small and vmalloc'ed behind a size
  header when large, and the leak checker that counts their bytes and remembers their origins.

  The kernel's allocators are the argument \<open>km\<close>; \<open>kernel_ok\<close> states what their documentation
  promises. The heap maps the address of an allocation to its contents. An invalid pointer is
  \<open>None\<close>. \<open>o\<close> holds the outcomes of the two allocations an info needs. Messages are left out.
\<close>

section \<open>Memory\<close>

datatype kblock =
  Kmalloc_block "u8 list"
| uvm_vmalloc_hdr_t (alloc_size: u64) (hdr_ptr: "u8 list")

type_synonym heap = "u64 \<rightharpoonup> kblock"

record kernel =
  km_kmalloc :: "heap \<Rightarrow> bool \<Rightarrow> u64 \<Rightarrow> (u64 \<times> u8 list) option"
  km_krealloc :: "heap \<Rightarrow> u64 \<Rightarrow> u64 \<Rightarrow> (u64 \<times> u8 list) option"
  km_vmalloc :: "heap \<Rightarrow> bool \<Rightarrow> u64 \<Rightarrow> (u64 \<times> u8 list) option"
  km_is_vmalloc_addr :: "u64 \<Rightarrow> bool"

definition ZERO_SIZE_PTR :: u64 where
  "ZERO_SIZE_PTR = 16"

definition ZERO_OR_NULL_PTR :: "u64 \<Rightarrow> bool" where
  "ZERO_OR_NULL_PTR p \<longleftrightarrow> p \<le> ZERO_SIZE_PTR"

definition UVM_KMALLOC_THRESHOLD :: u64 where
  "UVM_KMALLOC_THRESHOLD = 4 * 4096"

text \<open>The kernel's calls on the heap; a null result is 0. The size of the header is 8.\<close>

definition kmalloc :: "kernel \<Rightarrow> bool \<Rightarrow> u64 \<Rightarrow> heap \<Rightarrow> u64 \<times> heap" where
  "kmalloc km zero n h =
     (if n = 0 then (ZERO_SIZE_PTR, h)
      else case km_kmalloc km h zero n of
             None \<Rightarrow> (0, h)
           | Some (a, bytes) \<Rightarrow> (a, h(a \<mapsto> Kmalloc_block bytes)))"

definition krealloc :: "kernel \<Rightarrow> u64 \<Rightarrow> u64 \<Rightarrow> heap \<Rightarrow> u64 \<times> heap" where
  "krealloc km p n h =
     (if n = 0 then (ZERO_SIZE_PTR, h(p := None))
      else case km_krealloc km h p n of
             None \<Rightarrow> (0, h)
           | Some (a, bytes) \<Rightarrow> (a, (h(p := None))(a \<mapsto> Kmalloc_block bytes)))"

definition ksize :: "heap \<Rightarrow> u64 \<Rightarrow> u64 option" where
  "ksize h p =
     (if ZERO_OR_NULL_PTR p then Some 0
      else case h p of Some (Kmalloc_block bytes) \<Rightarrow> Some (of_nat (length bytes)) | _ \<Rightarrow> None)"

definition kfree :: "u64 \<Rightarrow> heap \<Rightarrow> heap" where
  "kfree p h = (if ZERO_OR_NULL_PTR p then h else h(p := None))"

definition get_hdr :: "heap \<Rightarrow> u64 \<Rightarrow> (u64 \<times> kblock) option" where
  "get_hdr h p =
     (case h (p - 8) of Some (uvm_vmalloc_hdr_t n bytes) \<Rightarrow> Some (p - 8, uvm_vmalloc_hdr_t n bytes) | _ \<Rightarrow> None)"

definition alloc_internal :: "kernel \<Rightarrow> u64 \<Rightarrow> bool \<Rightarrow> heap \<Rightarrow> u64 \<times> heap" where
  "alloc_internal km n zero_memory h =
     (if n \<le> UVM_KMALLOC_THRESHOLD then kmalloc km zero_memory n h
      else case km_vmalloc km h zero_memory (8 + n) of
             None \<Rightarrow> (0, h)
           | Some (hdr, bytes) \<Rightarrow> (hdr + 8, h(hdr \<mapsto> uvm_vmalloc_hdr_t n (drop 8 bytes))))"

definition uvm_kvsize :: "kernel \<Rightarrow> heap \<Rightarrow> u64 \<Rightarrow> u64 option" where
  "uvm_kvsize km h p =
     (if km_is_vmalloc_addr km p then map_option (\<lambda>(_, hdr). alloc_size hdr) (get_hdr h p) else ksize h p)"

text \<open>What a pointer returned to a caller points to.\<close>

definition view :: "kernel \<Rightarrow> heap \<Rightarrow> u64 \<rightharpoonup> u64 \<times> u8 list" where
  "view km h p =
     (if km_is_vmalloc_addr km p
      then case h (p - 8) of Some (uvm_vmalloc_hdr_t n bytes) \<Rightarrow> Some (n, bytes) | _ \<Rightarrow> None
      else case h p of Some (Kmalloc_block bytes) \<Rightarrow> Some (of_nat (length bytes), bytes) | _ \<Rightarrow> None)"

definition memcpy :: "kernel \<Rightarrow> u64 \<Rightarrow> u64 \<Rightarrow> u64 \<Rightarrow> heap \<Rightarrow> heap option" where
  "memcpy km dst src n h =
     do {
       (_, from) \<leftarrow> view km h src;
       (_, to) \<leftarrow> view km h dst;
       let to' = take (unat n) from @ drop (unat n) to;
       Some (if km_is_vmalloc_addr km dst then h(dst - 8 := map_option (\<lambda>b. uvm_vmalloc_hdr_t (alloc_size b) to') (h (dst - 8)))
             else h(dst \<mapsto> Kmalloc_block to'))
     }"

section \<open>The leak checker\<close>

record uvm_kvmalloc_info_t =
  info_file :: string
  info_function :: string
  info_line :: nat

record outcomes =
  info_zalloc_ok :: bool
  info_preload_ok :: bool

record leak_checker =
  g_malloc_initialized :: bool
  kv_heap :: heap
  bytes_allocated :: u64
  untracked_allocations :: u64
  allocation_info :: "(u64 \<times> uvm_kvmalloc_info_t) list"
  info_cache_objects :: u64

text \<open>Levels of \<^verbatim>\<open>uvm_leak_checker\<close>, an \<^verbatim>\<open>int\<close> module parameter.\<close>

definition UVM_KVMALLOC_LEAK_CHECK_ORIGIN :: int where
  "UVM_KVMALLOC_LEAK_CHECK_ORIGIN = 2"

definition insert_info :: "outcomes \<Rightarrow> u64 \<Rightarrow> uvm_kvmalloc_info_t \<Rightarrow> leak_checker \<Rightarrow> nv_status \<times> leak_checker" where
  "insert_info o' p info s =
     (if \<not> info_preload_ok o'
      then (NV_ERR_NO_MEMORY, s\<lparr>untracked_allocations := untracked_allocations s + 1\<rparr>)
      else (NV_OK, s\<lparr>allocation_info :=
              (if map_of (allocation_info s) p = None then (p, info) # allocation_info s else allocation_info s)\<rparr>))"

definition remove_info :: "u64 \<Rightarrow> leak_checker \<Rightarrow> uvm_kvmalloc_info_t option \<times> leak_checker" where
  "remove_info p s =
     (case map_of (allocation_info s) p of
        None \<Rightarrow> (None, s\<lparr>untracked_allocations := untracked_allocations s - 1\<rparr>)
      | Some info \<Rightarrow> (Some info, s\<lparr>allocation_info := AList.delete p (allocation_info s)\<rparr>))"

definition alloc_tracking_add ::
  "kernel \<Rightarrow> int \<Rightarrow> outcomes \<Rightarrow> u64 \<Rightarrow> uvm_kvmalloc_info_t \<Rightarrow> leak_checker \<Rightarrow> leak_checker option" where
  "alloc_tracking_add km lc o' p origin s =
     do {
       n \<leftarrow> uvm_kvsize km (kv_heap s) p;
       if ZERO_OR_NULL_PTR p then Some s
       else
         let s = s\<lparr>bytes_allocated := bytes_allocated s + n\<rparr>
         in if UVM_KVMALLOC_LEAK_CHECK_ORIGIN \<le> lc then
              if \<not> info_zalloc_ok o' then Some (s\<lparr>untracked_allocations := untracked_allocations s + 1\<rparr>)
              else
                let s = s\<lparr>info_cache_objects := info_cache_objects s + 1\<rparr>;
                    (status, s) = insert_info o' p origin s
                in Some (if status \<noteq> NV_OK then s\<lparr>info_cache_objects := info_cache_objects s - 1\<rparr> else s)
            else Some s
     }"

definition alloc_tracking_remove :: "kernel \<Rightarrow> int \<Rightarrow> u64 \<Rightarrow> leak_checker \<Rightarrow> leak_checker option" where
  "alloc_tracking_remove km lc p s =
     do {
       n \<leftarrow> uvm_kvsize km (kv_heap s) p;
       if ZERO_OR_NULL_PTR p then Some s
       else
         let s = s\<lparr>bytes_allocated := bytes_allocated s - n\<rparr>
         in if UVM_KVMALLOC_LEAK_CHECK_ORIGIN \<le> lc then
              let (info, s) = remove_info p s
              in Some (if info \<noteq> None then s\<lparr>info_cache_objects := info_cache_objects s - 1\<rparr> else s)
            else Some s
     }"

section \<open>Allocation\<close>

definition kvmalloc_common ::
  "bool \<Rightarrow> kernel \<Rightarrow> int \<Rightarrow> outcomes \<Rightarrow> u64 \<Rightarrow> uvm_kvmalloc_info_t \<Rightarrow> leak_checker \<Rightarrow> (u64 \<times> leak_checker) option" where
  "kvmalloc_common zero km lc o' n origin s =
     (let (p, h) = alloc_internal km n zero (kv_heap s); s = s\<lparr>kv_heap := h\<rparr>
      in if lc \<noteq> 0 \<and> p \<noteq> 0 then map_option (Pair p) (alloc_tracking_add km lc o' p origin s) else Some (p, s))"

definition uvm_kvmalloc where "uvm_kvmalloc = kvmalloc_common False"

definition uvm_kvmalloc_zero where "uvm_kvmalloc_zero = kvmalloc_common True"

definition vfree :: "u64 \<Rightarrow> heap \<Rightarrow> heap" where
  "vfree hdr h = h(hdr := None)"

definition uvm_kvfree :: "kernel \<Rightarrow> int \<Rightarrow> u64 \<Rightarrow> leak_checker \<Rightarrow> leak_checker option" where
  "uvm_kvfree km lc p s =
     (if p = 0 then Some s
      else do {
        s \<leftarrow> (if lc \<noteq> 0 then alloc_tracking_remove km lc p s else Some s);
        if km_is_vmalloc_addr km p then do {
          (hdr, _) \<leftarrow> get_hdr (kv_heap s) p;
          Some (s\<lparr>kv_heap := vfree hdr (kv_heap s)\<rparr>)
        }
        else Some (s\<lparr>kv_heap := kfree p (kv_heap s)\<rparr>)
      })"

definition realloc_from_kmalloc :: "kernel \<Rightarrow> u64 \<Rightarrow> u64 \<Rightarrow> heap \<Rightarrow> (u64 \<times> heap) option" where
  "realloc_from_kmalloc km p new_size h =
     (if new_size \<le> UVM_KMALLOC_THRESHOLD then Some (krealloc km p new_size h)
      else
        let (new_p, h) = alloc_internal km new_size False h
        in if new_p = 0 then Some (0, h)
           else do {
             n \<leftarrow> ksize h p;
             h \<leftarrow> memcpy km new_p p (min n new_size) h;
             Some (new_p, kfree p h)
           })"

definition realloc_from_vmalloc :: "kernel \<Rightarrow> u64 \<Rightarrow> u64 \<Rightarrow> heap \<Rightarrow> (u64 \<times> heap) option" where
  "realloc_from_vmalloc km p new_size h =
     do {
       (base, old_hdr) \<leftarrow> get_hdr h p;
       if new_size = 0 then Some (ZERO_SIZE_PTR, vfree base h)
       else if new_size = alloc_size old_hdr then Some (p, h)
       else
         let (new_p, h) = alloc_internal km new_size False h
         in if new_p = 0 then Some (0, h)
            else do {
              h \<leftarrow> memcpy km new_p p (min new_size (alloc_size old_hdr)) h;
              Some (new_p, vfree base h)
            }
     }"

definition uvm_kvrealloc ::
  "kernel \<Rightarrow> int \<Rightarrow> outcomes \<Rightarrow> u64 \<Rightarrow> u64 \<Rightarrow> uvm_kvmalloc_info_t \<Rightarrow> leak_checker \<Rightarrow> (u64 \<times> leak_checker) option" where
  "uvm_kvrealloc km lc o' p new_size origin s =
     (if ZERO_OR_NULL_PTR p then uvm_kvmalloc km lc o' new_size origin s
      else do {
        old_size \<leftarrow> uvm_kvsize km (kv_heap s) p;
        (info, s) \<leftarrow>
          (if lc \<noteq> 0 then
             if new_size = 0 then map_option (Pair None) (alloc_tracking_remove km lc p s)
             else
               let s = s\<lparr>bytes_allocated := bytes_allocated s - old_size\<rparr>
               in Some (if UVM_KVMALLOC_LEAK_CHECK_ORIGIN \<le> lc then remove_info p s else (None, s))
           else Some (None, s));
        (new_p, h) \<leftarrow> (if km_is_vmalloc_addr km p then realloc_from_vmalloc km p new_size (kv_heap s)
                        else realloc_from_kmalloc km p new_size (kv_heap s));
        let s = s\<lparr>kv_heap := h\<rparr>;
        if lc = 0 then Some (new_p, s)
        else if new_p = 0 then
          let s = s\<lparr>bytes_allocated := bytes_allocated s + old_size\<rparr>
          in Some (0, if UVM_KVMALLOC_LEAK_CHECK_ORIGIN \<le> lc \<and> info \<noteq> None
                      then snd (insert_info o' p (the info) s) else s)
        else if new_size \<noteq> 0 then
          let s = (if info \<noteq> None then s\<lparr>info_cache_objects := info_cache_objects s - 1\<rparr> else s)
          in map_option (Pair new_p) (alloc_tracking_add km lc o' new_p origin s)
        else Some (new_p, s)
      })"

section \<open>Initialisation and exit\<close>

definition uvm_kvmalloc_init :: "int \<Rightarrow> bool \<Rightarrow> leak_checker \<Rightarrow> nv_status \<times> leak_checker" where
  "uvm_kvmalloc_init lc cache_ok s =
     (let s = (if UVM_KVMALLOC_LEAK_CHECK_ORIGIN \<le> lc then s\<lparr>allocation_info := []\<rparr> else s)
      in if UVM_KVMALLOC_LEAK_CHECK_ORIGIN \<le> lc \<and> \<not> cache_ok then (NV_ERR_NO_MEMORY, s)
         else (NV_OK, s\<lparr>g_malloc_initialized := True\<rparr>))"

text \<open>\<^verbatim>\<open>radix_tree_gang_lookup\<close> for one item: the entry of the least key from \<open>index\<close> on.\<close>

fun gang_lookup :: "(u64 \<times> uvm_kvmalloc_info_t) list \<Rightarrow> u64 \<Rightarrow> u64 option" where
  "gang_lookup [] i = None"
| "gang_lookup ((k, _) # xs) i =
     (case gang_lookup xs i of
        None \<Rightarrow> if i \<le> k then Some k else None
      | Some k' \<Rightarrow> Some (if i \<le> k \<and> k < k' then k else k'))"

fun exit_loop :: "nat \<Rightarrow> kernel \<Rightarrow> int \<Rightarrow> u64 \<Rightarrow> leak_checker \<Rightarrow> leak_checker option" where
  "exit_loop 0 km lc i s = None"
| "exit_loop (Suc fuel) km lc i s =
     (case gang_lookup (allocation_info s) i of
        None \<Rightarrow> Some s
      | Some p \<Rightarrow> uvm_kvfree km lc p s \<bind> exit_loop fuel km lc (p + 1))"

definition uvm_kvmalloc_exit :: "nat \<Rightarrow> kernel \<Rightarrow> int \<Rightarrow> leak_checker \<Rightarrow> leak_checker option" where
  "uvm_kvmalloc_exit fuel km lc s =
     map_option (\<lambda>s. s\<lparr>g_malloc_initialized := False\<rparr>)
       (if UVM_KVMALLOC_LEAK_CHECK_ORIGIN \<le> lc then exit_loop fuel km lc 0 s else Some s)"

section \<open>The kernel's promises\<close>

definition kmalloc_ok :: "kernel \<Rightarrow> bool" where
  "kmalloc_ok km \<longleftrightarrow> (\<forall>h zero n a bytes. n \<noteq> 0 \<longrightarrow> km_kmalloc km h zero n = Some (a, bytes) \<longrightarrow>
     16 < a \<and> h a = None \<and> \<not> km_is_vmalloc_addr km a \<and> unat n \<le> length bytes \<and> length bytes < 2 ^ 64 \<and>
     (zero \<longrightarrow> (\<forall>b \<in> set (take (unat n) bytes). b = 0)))"

definition krealloc_ok :: "kernel \<Rightarrow> bool" where
  "krealloc_ok km \<longleftrightarrow> (\<forall>h p old n a bytes. n \<noteq> 0 \<longrightarrow> h p = Some (Kmalloc_block old) \<longrightarrow>
     km_krealloc km h p n = Some (a, bytes) \<longrightarrow>
     16 < a \<and> (a = p \<or> h a = None) \<and> \<not> km_is_vmalloc_addr km a \<and> unat n \<le> length bytes \<and> length bytes < 2 ^ 64 \<and>
     take (min (length old) (unat n)) bytes = take (min (length old) (unat n)) old)"

definition vmalloc_ok :: "kernel \<Rightarrow> bool" where
  "vmalloc_ok km \<longleftrightarrow> (\<forall>h zero n a bytes. km_vmalloc km h zero n = Some (a, bytes) \<longrightarrow>
     16 < a + 8 \<and> h a = None \<and> km_is_vmalloc_addr km (a + 8) \<and> length bytes = unat n \<and>
     (zero \<longrightarrow> (\<forall>b \<in> set bytes. b = 0)))"

definition kernel_ok :: "kernel \<Rightarrow> bool" where
  "kernel_ok km \<longleftrightarrow> kmalloc_ok km \<and> krealloc_ok km \<and> vmalloc_ok km \<and>
     (\<forall>p. ZERO_OR_NULL_PTR p \<longrightarrow> \<not> km_is_vmalloc_addr km p)"

section \<open>Views of the heap\<close>

definition heap_ok :: "kernel \<Rightarrow> heap \<Rightarrow> bool" where
  "heap_ok km h \<longleftrightarrow> finite (dom (view km h)) \<and>
     (\<forall>p n bytes. view km h p = Some (n, bytes) \<longrightarrow> 16 < p \<and> unat n = length bytes)"

lemma heap_okD: "heap_ok km h \<Longrightarrow> view km h p = Some (n, bytes) \<Longrightarrow> 16 < p \<and> unat n = length bytes"
  by (simp add: heap_ok_def)

lemma view_kmalloc:
  assumes "h a = None \<or> (\<exists>old. h a = Some (Kmalloc_block old))" "\<not> km_is_vmalloc_addr km a"
  shows "view km (h(a \<mapsto> Kmalloc_block bytes)) = (view km h)(a \<mapsto> (of_nat (length bytes), bytes))"
  using assms by (auto simp: view_def fun_eq_iff split: option.splits)

lemma view_vmalloc:
  assumes "h a = None \<or> (\<exists>n old. h a = Some (uvm_vmalloc_hdr_t n old))" "km_is_vmalloc_addr km (a + 8)"
  shows "view km (h(a \<mapsto> uvm_vmalloc_hdr_t n bytes)) = (view km h)(a + 8 \<mapsto> (n, bytes))"
  using assms by (auto simp: view_def fun_eq_iff split: option.splits kblock.splits)

lemma view_kfree:
  assumes "h p = Some (Kmalloc_block old)" "\<not> km_is_vmalloc_addr km p"
  shows "view km (h(p := None)) = (view km h)(p := None)"
  using assms by (auto simp: view_def fun_eq_iff split: option.splits)

lemma view_vfree:
  assumes "h (p - 8) = Some (uvm_vmalloc_hdr_t n old)" "km_is_vmalloc_addr km p"
  shows "view km (h(p - 8 := None)) = (view km h)(p := None)"
  using assms by (auto simp: view_def fun_eq_iff split: option.splits)

lemma view_cases:
  assumes "view km h p = Some (n, bytes)"
  obtains (k) "\<not> km_is_vmalloc_addr km p" "h p = Some (Kmalloc_block bytes)" "n = of_nat (length bytes)"
  | (v) "km_is_vmalloc_addr km p" "h (p - 8) = Some (uvm_vmalloc_hdr_t n bytes)"
      "get_hdr h p = Some (p - 8, uvm_vmalloc_hdr_t n bytes)"
  using assms by (auto simp: view_def get_hdr_def split: if_splits option.splits kblock.splits)

lemma kvsize_view: "view km h p = Some (n, bytes) \<Longrightarrow> 16 < p \<Longrightarrow> uvm_kvsize km h p = Some n"
  by (erule view_cases) (auto simp: uvm_kvsize_def ksize_def ZERO_OR_NULL_PTR_def ZERO_SIZE_PTR_def)

lemma memcpy_view:
  assumes "view km h src = Some (m, from)" "view km h dst = Some (n, to)"
    and "unat k \<le> length from" "unat k \<le> length to"
  shows "\<exists>h'. memcpy km dst src k h = Some h' \<and>
    view km h' = (view km h)(dst \<mapsto> (n, take (unat k) from @ drop (unat k) to))"
  using assms(2)
proof (cases rule: view_cases)
  case k
  let ?to = "take (unat k) from @ drop (unat k) to"
  have "length ?to = length to" using assms(3,4) by simp
  then show ?thesis
    using assms(1,2) k view_kmalloc[of h dst km ?to] by (simp add: memcpy_def)
next
  case v
  let ?to = "take (unat k) from @ drop (unat k) to"
  show ?thesis
    using assms(1,2) v view_vmalloc[of h "dst - 8" km n ?to] by (simp add: memcpy_def)
qed

section \<open>Allocation and reallocation of the heap\<close>

lemma alloc_internal_spec:
  assumes "kernel_ok km" "unat n < 2 ^ 63" "alloc_internal km n zero h = (p, h')"
  shows "p = 0 \<and> h' = h \<or> p = 16 \<and> n = 0 \<and> h' = h \<or>
    16 < p \<and> n \<noteq> 0 \<and> view km h p = None \<and>
    (\<exists>m bytes. view km h' = (view km h)(p \<mapsto> (m, bytes)) \<and> unat m = length bytes \<and> n \<le> m \<and>
       (zero \<longrightarrow> (\<forall>b \<in> set (take (unat n) bytes). b = 0)))"
proof (cases "n \<le> UVM_KMALLOC_THRESHOLD")
  case True
  show ?thesis
  proof (cases "n = 0")
    case True
    then show ?thesis using assms(3) by (auto simp: alloc_internal_def kmalloc_def ZERO_SIZE_PTR_def)
  next
    case n: False
    show ?thesis
    proof (cases "km_kmalloc km h zero n")
      case None
      then show ?thesis using assms(3) True n by (simp add: alloc_internal_def kmalloc_def)
    next
      case (Some r)
      obtain a bytes where r: "r = (a, bytes)" by (cases r)
      have ok: "16 < a" "h a = None" "\<not> km_is_vmalloc_addr km a" "unat n \<le> length bytes" "length bytes < 2 ^ 64"
        "zero \<longrightarrow> (\<forall>b \<in> set (take (unat n) bytes). b = 0)"
        using assms(1) n Some unfolding r kernel_ok_def kmalloc_ok_def by blast+
      have "p = a" "h' = h(a \<mapsto> Kmalloc_block bytes)"
        using assms(3) True n Some r by (auto simp: alloc_internal_def kmalloc_def)
      moreover have "unat (of_nat (length bytes) :: u64) = length bytes" using ok(5) by (simp add: unat_of_nat)
      moreover from this ok(4) have "n \<le> of_nat (length bytes)" by (simp add: word_le_nat_alt)
      ultimately show ?thesis
        using ok n view_kmalloc[of h a km bytes] by (auto simp: view_def)
    qed
  qed
next
  case False
  then have n: "n \<noteq> 0" "\<not> n \<le> UVM_KMALLOC_THRESHOLD" by (auto simp: UVM_KMALLOC_THRESHOLD_def)
  show ?thesis
  proof (cases "km_vmalloc km h zero (8 + n)")
    case None
    then show ?thesis using assms(3) n by (simp add: alloc_internal_def)
  next
    case (Some r)
    obtain a bytes where r: "r = (a, bytes)" by (cases r)
    have ok: "16 < a + 8" "h a = None" "km_is_vmalloc_addr km (a + 8)" "length bytes = unat (8 + n)"
      "zero \<longrightarrow> (\<forall>b \<in> set bytes. b = 0)"
      using assms(1) Some unfolding r kernel_ok_def vmalloc_ok_def by blast+
    have "unat (8 + n) = 8 + unat n" using assms(2) by (simp add: unat_word_ariths)
    then have "length (drop 8 bytes) = unat n" using ok(4) by simp
    moreover have "p = a + 8" "h' = h(a \<mapsto> uvm_vmalloc_hdr_t n (drop 8 bytes))"
      using assms(3) n Some r by (auto simp: alloc_internal_def)
    moreover have "\<forall>b \<in> set (take (unat n) (drop 8 bytes)). b = 0" if zero
      using ok(5) that by (auto dest!: in_set_takeD in_set_dropD)
    moreover have "view km (h(a \<mapsto> uvm_vmalloc_hdr_t n (drop 8 bytes))) = (view km h)(a + 8 \<mapsto> (n, drop 8 bytes))"
      using ok by (intro view_vmalloc) auto
    moreover have "view km h (a + 8) = None" using ok by (simp add: view_def)
    ultimately have "16 < p \<and> n \<noteq> 0 \<and> view km h p = None \<and> view km h' = (view km h)(p \<mapsto> (n, drop 8 bytes)) \<and>
        unat n = length (drop 8 bytes) \<and> n \<le> n \<and>
        (zero \<longrightarrow> (\<forall>b \<in> set (take (unat n) (drop 8 bytes)). b = 0))"
      using ok(1) n(1) by simp
    then show ?thesis by blast
  qed
qed

text \<open>What reallocating a live pointer to \<open>n\<close> bytes does to the heap.\<close>

definition realloc_result ::
  "kernel \<Rightarrow> u64 \<Rightarrow> u64 \<Rightarrow> heap \<Rightarrow> u8 list \<Rightarrow> u64 \<Rightarrow> heap \<Rightarrow> bool" where
  "realloc_result km p n h old q h' \<longleftrightarrow>
     n = 0 \<and> q = 16 \<and> view km h' = (view km h)(p := None) \<or>
     n \<noteq> 0 \<and> q = 0 \<and> view km h' = view km h \<or>
     n \<noteq> 0 \<and> 16 < q \<and> (q = p \<or> view km h q = None) \<and>
       (\<exists>m bytes. view km h' = ((view km h)(p := None))(q \<mapsto> (m, bytes)) \<and> unat m = length bytes \<and> n \<le> m \<and>
          take (min (length old) (unat n)) bytes = take (min (length old) (unat n)) old)"

lemma krealloc_result:
  assumes "kernel_ok km" "view km h p = Some (m, old)" "\<not> km_is_vmalloc_addr km p" "krealloc km p n h = (q, h')"
  shows "realloc_result km p n h old q h'"
proof -
  from assms(2,3) have p: "h p = Some (Kmalloc_block old)" "m = of_nat (length old)" by (auto elim: view_cases)
  note free = view_kfree[of h p old km, OF p(1) assms(3)]
  consider "n = 0" | "n \<noteq> 0" "km_krealloc km h p n = None"
    | a bytes where "km_krealloc km h p n = Some (a, bytes)" "n \<noteq> 0" by fastforce
  then show ?thesis
  proof cases
    case 1
    then have "q = 16" "h' = h(p := None)" using assms(4) by (simp_all add: krealloc_def ZERO_SIZE_PTR_def)
    then show ?thesis using 1 free by (simp add: realloc_result_def)
  next
    case 2
    then have "q = 0" "h' = h" using assms(4) by (simp_all add: krealloc_def)
    then show ?thesis using 2 by (simp add: realloc_result_def)
  next
    case r: 3
    have ok: "16 < a" "a = p \<or> h a = None" "\<not> km_is_vmalloc_addr km a" "unat n \<le> length bytes" "length bytes < 2 ^ 64"
      "take (min (length old) (unat n)) bytes = take (min (length old) (unat n)) old"
      using assms(1)[unfolded kernel_ok_def krealloc_ok_def, THEN conjunct2, THEN conjunct1, rule_format, OF r(2) p(1) r(1)]
      by simp_all
    have e: "q = a" "h' = (h(p := None))(a \<mapsto> Kmalloc_block bytes)"
      using assms(4) r by (auto simp: krealloc_def)
    have "view km h' = ((view km h)(p := None))(a \<mapsto> (of_nat (length bytes), bytes))"
      unfolding e using ok(2,3) view_kmalloc[of "h(p := None)" a km bytes] free by auto
    moreover have l: "unat (of_nat (length bytes) :: u64) = length bytes" using ok(5) by (simp add: unat_of_nat)
    moreover from this ok(4) have "n \<le> of_nat (length bytes)" by (simp add: word_le_nat_alt)
    moreover have "a = p \<or> view km h a = None" using ok(2,3) by (auto simp: view_def)
    ultimately show ?thesis
      using ok e(1) r(2) unfolding realloc_result_def
      by - (rule disjI2, rule disjI2, intro conjI exI[of _ "of_nat (length bytes)"] exI[of _ bytes], auto)
  qed
qed

text \<open>The path through a new allocation and a copy, and freeing the old one.\<close>

lemma copy_result:
  assumes k: "kernel_ok km" and h: "heap_ok km h" "view km h p = Some (m, old)" and n: "unat n < 2 ^ 63"
    and a: "alloc_internal km n False h = (q, h1)" "q \<noteq> 0" "n \<noteq> 0"
    and free: "\<And>h2 b. view km h2 p = Some (m, b) \<Longrightarrow> view km (f h2) = (view km h2)(p := None)"
  shows "\<exists>h2. memcpy km q p (min m n) h1 = Some h2 \<and> realloc_result km p n h old q (f h2)"
proof -
  obtain m' bytes where v: "16 < q" "view km h q = None" "view km h1 = (view km h)(q \<mapsto> (m', bytes))"
    "unat m' = length bytes" "n \<le> m'"
    using alloc_internal_spec[OF k n a(1)] a(2,3) by auto
  have qp: "q \<noteq> p" using v(2) h(2) by auto
  have l: "unat m = length old" using heap_okD[OF h] by simp
  have mn: "unat (min m n) = min (length old) (unat n)" by (simp add: l[symmetric] min_def word_le_nat_alt)
  have len: "min (length old) (unat n) \<le> length bytes" using v(4,5) by (simp add: word_le_nat_alt)
  let ?new = "take (min (length old) (unat n)) old @ drop (min (length old) (unat n)) bytes"
  have "view km h1 p = Some (m, old)" "view km h1 q = Some (m', bytes)" using v(3) h(2) qp by auto
  from memcpy_view[OF this, of "min m n"] mn len
  obtain h2 where h2: "memcpy km q p (min m n) h1 = Some h2" "view km h2 = (view km h1)(q \<mapsto> (m', ?new))" by auto
  have "view km h2 p = Some (m, old)" using h2(2) v(3) h(2) qp by auto
  from free[OF this] have fv: "view km (f h2) = ((view km h)(p := None))(q \<mapsto> (m', ?new))"
    using h2(2) v(3) qp by (simp add: fun_upd_twist)
  have "length ?new = length bytes" using len by simp
  moreover have "take (min (length old) (unat n)) ?new = take (min (length old) (unat n)) old" by simp
  ultimately have "realloc_result km p n h old q (f h2)"
    unfolding realloc_result_def using fv v(1,2,4,5) a(3) by metis
  with h2(1) show ?thesis by blast
qed

lemma realloc_from_kmalloc_result:
  assumes "kernel_ok km" "heap_ok km h" "view km h p = Some (m, old)" "\<not> km_is_vmalloc_addr km p" "unat n < 2 ^ 63"
  shows "\<exists>q h'. realloc_from_kmalloc km p n h = Some (q, h') \<and> realloc_result km p n h old q h'"
proof (cases "n \<le> UVM_KMALLOC_THRESHOLD")
  case True
  obtain q h' where "krealloc km p n h = (q, h')" by (cases "krealloc km p n h")
  with True krealloc_result[OF assms(1,3,4)] show ?thesis by (auto simp: realloc_from_kmalloc_def)
next
  case False
  then have n: "n \<noteq> 0" by (auto simp: UVM_KMALLOC_THRESHOLD_def)
  obtain q h1 where a: "alloc_internal km n False h = (q, h1)" by (cases "alloc_internal km n False h")
  have p: "16 < p" using heap_okD[OF assms(2,3)] by simp
  show ?thesis
  proof (cases "q = 0")
    case True
    then have "h1 = h" using alloc_internal_spec[OF assms(1,5) a] by auto
    then show ?thesis using False a True n by (simp add: realloc_from_kmalloc_def realloc_result_def)
  next
    case q: False
    have free: "view km (kfree p h2) = (view km h2)(p := None)" if "view km h2 p = Some (m, b)" for h2 b
    proof -
      from that assms(4) have "h2 p = Some (Kmalloc_block b)" by (auto elim: view_cases)
      then show ?thesis
        using view_kfree[of h2 p b km] assms(4) p by (simp add: kfree_def ZERO_OR_NULL_PTR_def ZERO_SIZE_PTR_def)
    qed
    from copy_result[OF assms(1-3,5) a q n, of "kfree p"] free obtain h2
      where h2: "memcpy km q p (min m n) h1 = Some h2" "realloc_result km p n h old q (kfree p h2)" by blast
    have "view km h1 p = Some (m, old)" using alloc_internal_spec[OF assms(1,5) a] q n assms(3) by auto
    then have "ksize h1 p = Some m"
      using kvsize_view[of km h1 p m old] p assms(4) by (simp add: uvm_kvsize_def)
    then show ?thesis using False a q h2 by (simp add: realloc_from_kmalloc_def)
  qed
qed

lemma realloc_from_vmalloc_result:
  assumes "kernel_ok km" "heap_ok km h" "view km h p = Some (m, old)" "km_is_vmalloc_addr km p" "unat n < 2 ^ 63"
  shows "\<exists>q h'. realloc_from_vmalloc km p n h = Some (q, h') \<and> realloc_result km p n h old q h'"
proof -
  from assms(3,4) have hp: "h (p - 8) = Some (uvm_vmalloc_hdr_t m old)" "get_hdr h p = Some (p - 8, uvm_vmalloc_hdr_t m old)"
    by (auto elim: view_cases)
  have p: "16 < p" "unat m = length old" using heap_okD[OF assms(2,3)] by auto
  have free: "view km (vfree (p - 8) h2) = (view km h2)(p := None)" if "view km h2 p = Some (m, b)" for h2 b
  proof -
    from that assms(4) have "h2 (p - 8) = Some (uvm_vmalloc_hdr_t m b)" by (auto elim: view_cases)
    then show ?thesis using view_vfree[of h2 p m b km] assms(4) by (simp add: vfree_def)
  qed
  show ?thesis
  proof (cases "n = 0 \<or> n = m")
    case True
    show ?thesis
    proof (cases "n = 0")
      case True
      then show ?thesis
        using hp free[OF assms(3)] by (simp add: realloc_from_vmalloc_def realloc_result_def ZERO_SIZE_PTR_def)
    next
      case False
      have "realloc_result km p n h old p h"
        unfolding realloc_result_def using False True p assms(3)
        by (intro disjI2) (auto simp: fun_upd_idem intro!: exI[of _ m] exI[of _ old])
      then show ?thesis using False True hp by (simp add: realloc_from_vmalloc_def)
    qed
  next
    case False
    then have n: "n \<noteq> 0" "n \<noteq> m" by auto
    obtain q h1 where a: "alloc_internal km n False h = (q, h1)" by (cases "alloc_internal km n False h")
    show ?thesis
    proof (cases "q = 0")
      case True
      then have "h1 = h" using alloc_internal_spec[OF assms(1,5) a] by auto
      then show ?thesis using a True n hp by (simp add: realloc_from_vmalloc_def realloc_result_def)
    next
      case q: False
      from copy_result[OF assms(1-3,5) a q n(1), of "vfree (p - 8)"] free obtain h2
        where "memcpy km q p (min n m) h1 = Some h2" "realloc_result km p n h old q (vfree (p - 8) h2)"
        by (metis min.commute)
      then show ?thesis using a q n hp by (simp add: realloc_from_vmalloc_def)
    qed
  qed
qed

section \<open>Accounting\<close>

definition live :: "kernel \<Rightarrow> leak_checker \<Rightarrow> u64 set" where
  "live km s = dom (view km (kv_heap s))"

definition size_at :: "kernel \<Rightarrow> leak_checker \<Rightarrow> u64 \<Rightarrow> u64" where
  "size_at km s p = (case view km (kv_heap s) p of None \<Rightarrow> 0 | Some (n, _) \<Rightarrow> n)"

definition infos :: "leak_checker \<Rightarrow> u64 set" where
  "infos s = dom (map_of (allocation_info s))"

text \<open>The bytes counted are those of the live allocations; with origins checked, the untracked are the
  live ones without an info.\<close>

definition bytes_ok :: "kernel \<Rightarrow> int \<Rightarrow> leak_checker \<Rightarrow> bool" where
  "bytes_ok km lc s \<longleftrightarrow> (lc \<noteq> 0 \<longrightarrow> bytes_allocated s = (\<Sum>p \<in> live km s. size_at km s p))"

definition infos_ok :: "kernel \<Rightarrow> int \<Rightarrow> leak_checker \<Rightarrow> bool" where
  "infos_ok km lc s \<longleftrightarrow> (2 \<le> lc \<longrightarrow> infos s \<subseteq> live km s \<and>
     untracked_allocations s = of_nat (card (live km s - infos s)))"

definition total :: "(u64 \<rightharpoonup> u64 \<times> u8 list) \<Rightarrow> u64" where
  "total v = (\<Sum>p \<in> dom v. fst (the (v p)))"

lemma bytes_total: "(\<Sum>p \<in> live km s. size_at km s p) = total (view km (kv_heap s))"
  unfolding total_def live_def by (rule sum.cong) (auto simp: size_at_def)

lemma total_add: "finite (dom v) \<Longrightarrow> v p = None \<Longrightarrow> total (v(p \<mapsto> (n, b))) = total v + n"
proof -
  assume "finite (dom v)" "v p = None"
  then have "total (v(p \<mapsto> (n, b))) = n + (\<Sum>q \<in> dom v. fst (the ((v(p \<mapsto> (n, b))) q)))"
    unfolding total_def by (simp add: domIff)
  also have "(\<Sum>q \<in> dom v. fst (the ((v(p \<mapsto> (n, b))) q))) = total v"
    unfolding total_def using \<open>v p = None\<close> by (intro sum.cong) auto
  finally show ?thesis by (simp only: add.commute)
qed

lemma total_remove: "finite (dom v) \<Longrightarrow> v p = Some (n, b) \<Longrightarrow> total (v(p := None)) = total v - n"
  using total_add[of "v(p := None)" p n b] by (simp add: fun_upd_idem)



lemma insert_info_infos:
  "infos (snd (insert_info o' p info s)) = (if info_preload_ok o' then insert p (infos s) else infos s)"
  "untracked_allocations (snd (insert_info o' p info s)) =
     (if info_preload_ok o' then untracked_allocations s else untracked_allocations s + 1)"
  "bytes_allocated (snd (insert_info o' p info s)) = bytes_allocated s"
  "kv_heap (snd (insert_info o' p info s)) = kv_heap s"
  by (auto simp: insert_info_def infos_def)

lemma remove_info_infos:
  "infos (snd (remove_info p s)) = infos s - {p}"
  "untracked_allocations (snd (remove_info p s)) =
     (if p \<in> infos s then untracked_allocations s else untracked_allocations s - 1)"
  "bytes_allocated (snd (remove_info p s)) = bytes_allocated s"
  "kv_heap (snd (remove_info p s)) = kv_heap s"
  "fst (remove_info p s) = None \<longleftrightarrow> p \<notin> infos s"
  by (auto simp: remove_info_def infos_def AList.delete_conv' split: option.splits if_splits)

lemma tracking_add_spec:
  assumes "view km (kv_heap s) p = Some (n, b)" "16 < p"
  shows "\<exists>s'. alloc_tracking_add km lc o' p origin s = Some s' \<and> kv_heap s' = kv_heap s \<and>
    bytes_allocated s' = bytes_allocated s + n \<and>
    (if 2 \<le> lc then infos s' = insert p (infos s) \<and> untracked_allocations s' = untracked_allocations s \<or>
       infos s' = infos s \<and> untracked_allocations s' = untracked_allocations s + 1
     else infos s' = infos s \<and> untracked_allocations s' = untracked_allocations s)"
  using kvsize_view[OF assms] assms(2)
  by (auto simp: alloc_tracking_add_def ZERO_OR_NULL_PTR_def ZERO_SIZE_PTR_def UVM_KVMALLOC_LEAK_CHECK_ORIGIN_def
      insert_info_def infos_def Let_def)

lemma tracking_remove_spec:
  assumes "view km (kv_heap s) p = Some (n, b)" "16 < p"
  shows "\<exists>s'. alloc_tracking_remove km lc p s = Some s' \<and> kv_heap s' = kv_heap s \<and>
    bytes_allocated s' = bytes_allocated s - n \<and>
    (if 2 \<le> lc then infos s' = infos s - {p} \<and>
       untracked_allocations s' = (if p \<in> infos s then untracked_allocations s else untracked_allocations s - 1)
     else infos s' = infos s \<and> untracked_allocations s' = untracked_allocations s)"
  using kvsize_view[OF assms] assms(2)
  by (cases "map_of (allocation_info s) p")
     (auto simp: alloc_tracking_remove_def ZERO_OR_NULL_PTR_def ZERO_SIZE_PTR_def UVM_KVMALLOC_LEAK_CHECK_ORIGIN_def
      remove_info_def infos_def AList.delete_conv' Let_def split: if_splits)

text \<open>The accounting over a view, the bytes counted, the pointers with an info and the untracked count.\<close>

definition acc :: "int \<Rightarrow> (u64 \<rightharpoonup> u64 \<times> u8 list) \<Rightarrow> u64 set \<Rightarrow> u64 \<Rightarrow> bool" where
  "acc lc v I u \<longleftrightarrow> (2 \<le> lc \<longrightarrow> I \<subseteq> dom v \<and> u = of_nat (card (dom v - I)))"

lemma acc_add_info:
  assumes "finite (dom v)" "v p = None" "acc lc v I u"
  shows "acc lc (v(p \<mapsto> x)) (insert p I) u"
proof -
  have "I \<subseteq> dom v \<Longrightarrow> dom (v(p \<mapsto> x)) - insert p I = dom v - I" using assms(2) by auto
  then show ?thesis using assms(3) by (auto simp: acc_def)
qed

lemma acc_add_untracked:
  assumes "finite (dom v)" "v p = None" "acc lc v I u"
  shows "acc lc (v(p \<mapsto> x)) I (u + 1)"
proof -
  have "I \<subseteq> dom v \<Longrightarrow> dom (v(p \<mapsto> x)) - I = insert p (dom v - I)" "p \<notin> dom v - I" using assms(2) by auto
  then show ?thesis using assms(1,3) by (auto simp: acc_def)
qed

lemma acc_remove:
  assumes "finite (dom v)" "v p = Some x" "acc lc v I u"
  shows "acc lc (v(p := None)) (I - {p}) (if p \<in> I then u else u - 1)"
proof (cases "p \<in> I")
  case True
  then have "dom (v(p := None)) - (I - {p}) = dom v - I" by auto
  then show ?thesis using True assms(3) by (auto simp: acc_def)
next
  case False
  have "dom (v(p := None)) - (I - {p}) = (dom v - I) - {p}" by auto
  moreover have p: "p \<in> dom v - I" using False assms(2) by auto
  moreover have "card (dom v - I) = Suc (card (dom v - I - {p}))"
    using p assms(1) by (metis card_Suc_Diff1 finite_Diff)
  ultimately show ?thesis using False assms(3) by (auto simp: acc_def)
qed

lemma infos_ok_acc: "infos_ok km lc s = acc lc (view km (kv_heap s)) (infos s) (untracked_allocations s)"
  by (simp add: infos_ok_def acc_def live_def)

lemma bytes_ok_total: "bytes_ok km lc s \<longleftrightarrow> (lc \<noteq> 0 \<longrightarrow> bytes_allocated s = total (view km (kv_heap s)))"
  by (simp add: bytes_ok_def bytes_total)

definition kv_inv :: "kernel \<Rightarrow> int \<Rightarrow> bool \<Rightarrow> leak_checker \<Rightarrow> bool" where
  "kv_inv km lc b s \<longleftrightarrow> heap_ok km (kv_heap s) \<and> bytes_ok km lc s \<and> (b \<longrightarrow> infos_ok km lc s)"

lemma zero_size: "kernel_ok km \<Longrightarrow> uvm_kvsize km h 16 = Some 0" "kernel_ok km \<Longrightarrow> uvm_kvsize km h 0 = Some 0"
  by (simp_all add: kernel_ok_def uvm_kvsize_def ksize_def ZERO_OR_NULL_PTR_def ZERO_SIZE_PTR_def)

lemma heap_ok_cong: "view km h = view km h' \<Longrightarrow> heap_ok km h = heap_ok km h'"
  by (simp add: heap_ok_def)

lemma heap_ok_add: "heap_ok km h \<Longrightarrow> view km h' = (view km h)(p \<mapsto> (n, b)) \<Longrightarrow> 16 < p \<Longrightarrow> unat n = length b \<Longrightarrow> heap_ok km h'"
  by (auto simp: heap_ok_def)

lemma heap_ok_remove: "heap_ok km h \<Longrightarrow> view km h' = (view km h)(p := None) \<Longrightarrow> heap_ok km h'"
  by (auto simp: heap_ok_def)

text \<open>Tracking a pointer that the view has just gained.\<close>

lemma add_inv:
  assumes "finite (dom v)" "v p = None" "view km (kv_heap s) = v(p \<mapsto> (n, b))" "16 < p"
    and "lc \<noteq> 0 \<Longrightarrow> bytes_allocated s = total v" "c \<Longrightarrow> acc lc v (infos s) (untracked_allocations s)"
    and "heap_ok km (kv_heap s)" "lc \<noteq> 0"
  shows "\<exists>s'. alloc_tracking_add km lc o' p origin s = Some s' \<and> kv_heap s' = kv_heap s \<and> kv_inv km lc c s'"
proof -
  have "view km (kv_heap s) p = Some (n, b)" using assms(3) by simp
  from tracking_add_spec[OF this assms(4), of lc o' origin] obtain s' where
    s': "alloc_tracking_add km lc o' p origin s = Some s'" "kv_heap s' = kv_heap s"
      "bytes_allocated s' = bytes_allocated s + n"
      "if 2 \<le> lc then infos s' = insert p (infos s) \<and> untracked_allocations s' = untracked_allocations s \<or>
         infos s' = infos s \<and> untracked_allocations s' = untracked_allocations s + 1
       else infos s' = infos s \<and> untracked_allocations s' = untracked_allocations s" by blast
  have "bytes_ok km lc s'"
    using assms(5,8) by (simp add: bytes_ok_total s' assms(3) total_add[OF assms(1,2)])
  moreover have "acc lc (view km (kv_heap s')) (infos s') (untracked_allocations s')" if c
  proof (cases "2 \<le> lc")
    case True
    then show ?thesis
      using s'(4) acc_add_info[OF assms(1,2) assms(6)[OF that]] acc_add_untracked[OF assms(1,2) assms(6)[OF that]]
      by (auto simp: s'(2) assms(3))
  qed (simp add: acc_def)
  ultimately show ?thesis using s'(1,2) assms(7) by (auto simp: kv_inv_def infos_ok_acc)
qed

lemma kvmalloc_inv:
  assumes k: "kernel_ok km" and n: "unat n < 2 ^ 63" and inv: "kv_inv km lc c s"
  shows "\<exists>p s'. kvmalloc_common zero km lc o' n origin s = Some (p, s') \<and> kv_inv km lc c s' \<and>
    alloc_internal km n zero (kv_heap s) = (p, kv_heap s')"
proof -
  obtain p h where a: "alloc_internal km n zero (kv_heap s) = (p, h)" by (cases "alloc_internal km n zero (kv_heap s)")
  let ?s = "s\<lparr>kv_heap := h\<rparr>"
  have iv: "infos ?s = infos s" by (simp add: infos_def)
  consider (fail) "p = 0" "h = kv_heap s" | (zero) "p = 16" "h = kv_heap s"
    | (new) m bytes where "16 < p" "view km (kv_heap s) p = None" "view km h = (view km (kv_heap s))(p \<mapsto> (m, bytes))"
        "unat m = length bytes"
    using alloc_internal_spec[OF k n a] by auto
  then show ?thesis
  proof cases
    case fail
    then show ?thesis using inv a by (simp add: kvmalloc_common_def)
  next
    case zero
    then show ?thesis
      using inv a zero_size(1)[OF k]
      by (cases "lc = 0") (simp_all add: kvmalloc_common_def alloc_tracking_add_def ZERO_OR_NULL_PTR_def ZERO_SIZE_PTR_def)
  next
    case new
    have h: "heap_ok km h" using inv heap_ok_add[OF _ new(3,1,4)] by (simp add: kv_inv_def)
    show ?thesis
    proof (cases "lc = 0")
      case True
      then show ?thesis using a h by (simp add: kvmalloc_common_def kv_inv_def bytes_ok_def infos_ok_def)
    next
      case False
      have "\<exists>s'. alloc_tracking_add km lc o' p origin ?s = Some s' \<and> kv_heap s' = kv_heap ?s \<and> kv_inv km lc c s'"
        using inv new h False iv
        by (intro add_inv[where v = "view km (kv_heap s)" and n = m and b = bytes])
           (auto simp: kv_inv_def heap_ok_def bytes_ok_total infos_ok_acc)
      then obtain s' where "alloc_tracking_add km lc o' p origin ?s = Some s'" "kv_heap s' = h" "kv_inv km lc c s'" by auto
      moreover have "p \<noteq> 0" using new(1) by auto
      ultimately show ?thesis using a False by (simp add: kvmalloc_common_def)
    qed
  qed
qed

lemma kvfree_inv:
  assumes k: "kernel_ok km" and inv: "kv_inv km lc c s" and p: "view km (kv_heap s) p = Some (n, b)"
  shows "\<exists>s'. uvm_kvfree km lc p s = Some s' \<and> kv_inv km lc c s' \<and>
    view km (kv_heap s') = (view km (kv_heap s))(p := None) \<and>
    (lc \<noteq> 0 \<longrightarrow> bytes_allocated s' = bytes_allocated s - n) \<and>
    infos s' = (if 2 \<le> lc then infos s - {p} else infos s)"
proof -
  have h: "heap_ok km (kv_heap s)" "finite (dom (view km (kv_heap s)))" using inv by (auto simp: kv_inv_def heap_ok_def)
  have p16: "16 < p" using heap_okD[OF h(1) p] by simp
  then have p0: "p \<noteq> 0" "\<not> ZERO_OR_NULL_PTR p" by (auto simp: ZERO_OR_NULL_PTR_def ZERO_SIZE_PTR_def)
  obtain s1 where s1: "(if lc \<noteq> 0 then alloc_tracking_remove km lc p s else Some s) = Some s1" "kv_heap s1 = kv_heap s"
    "lc \<noteq> 0 \<longrightarrow> bytes_allocated s1 = bytes_allocated s - n"
    "if 2 \<le> lc then infos s1 = infos s - {p} \<and>
       untracked_allocations s1 = (if p \<in> infos s then untracked_allocations s else untracked_allocations s - 1)
     else infos s1 = infos s \<and> untracked_allocations s1 = untracked_allocations s"
    using tracking_remove_spec[OF p p16, of lc] by (cases "lc = 0") auto
  define h' where "h' = (if km_is_vmalloc_addr km p then vfree (p - 8) (kv_heap s) else kfree p (kv_heap s))"
  from p have fr: "uvm_kvfree km lc p s = Some (s1\<lparr>kv_heap := h'\<rparr>) \<and> view km h' = (view km (kv_heap s))(p := None)"
  proof (cases rule: view_cases)
    case k
    then show ?thesis using s1(1,2) p0 view_kfree[of "kv_heap s" p b km]
      by (simp add: uvm_kvfree_def h'_def kfree_def)
  next
    case v
    then show ?thesis using s1(1,2) p0 view_vfree[of "kv_heap s" p n b km]
      by (simp add: uvm_kvfree_def h'_def vfree_def)
  qed
  let ?s = "s1\<lparr>kv_heap := h'\<rparr>"
  have v: "view km (kv_heap ?s) = (view km (kv_heap s))(p := None)" using fr by simp
  have "bytes_ok km lc ?s"
    using inv s1(3) by (simp add: kv_inv_def bytes_ok_total v[simplified] total_remove[OF h(2) p])
  moreover have "infos_ok km lc ?s" if c
    using acc_remove[OF h(2) p, of lc "infos s" "untracked_allocations s"] inv that s1(4) v
    by (cases "2 \<le> lc") (auto simp: kv_inv_def infos_ok_acc infos_def acc_def)
  ultimately have "kv_inv km lc c ?s" using heap_ok_remove[OF h(1) v] by (simp add: kv_inv_def)
  moreover have "infos ?s = (if 2 \<le> lc then infos s - {p} else infos s)" using s1(4) by (simp add: infos_def split: if_splits)
  ultimately show ?thesis using fr s1(3) v by (intro exI[of _ ?s]) simp
qed

lemma realloc_heap:
  assumes "kernel_ok km" "heap_ok km h" "view km h p = Some (m, old)" "unat n < 2 ^ 63"
  shows "\<exists>q h'. (if km_is_vmalloc_addr km p then realloc_from_vmalloc km p n h else realloc_from_kmalloc km p n h) =
    Some (q, h') \<and> realloc_result km p n h old q h'"
  using realloc_from_vmalloc_result[OF assms(1-3) _ assms(4)] realloc_from_kmalloc_result[OF assms(1-3) _ assms(4)]
  by (cases "km_is_vmalloc_addr km p") auto

lemma realloc_heap_ok: "heap_ok km h \<Longrightarrow> realloc_result km p n h old q h' \<Longrightarrow> heap_ok km h'"
  unfolding realloc_result_def
proof (elim disjE conjE exE)
  fix m bytes
  assume h: "heap_ok km h" and q: "16 < q" "unat m = length bytes"
    and v: "view km h' = ((view km h)(p := None))(q \<mapsto> (m, bytes))"
  show ?thesis using h q unfolding heap_ok_def v by (auto split: if_splits)
qed (auto simp: heap_ok_def)

text \<open>The tracking before the heap is touched, for a size that is not 0.\<close>

lemma realloc_untrack:
  assumes "lc \<noteq> 0"
  shows "\<exists>info s1. (let s = s\<lparr>bytes_allocated := bytes_allocated s - m\<rparr>
      in if UVM_KVMALLOC_LEAK_CHECK_ORIGIN \<le> lc then remove_info p s else (None, s)) = (info, s1) \<and>
    kv_heap s1 = kv_heap s \<and> bytes_allocated s1 = bytes_allocated s - m \<and>
    (if 2 \<le> lc then (info \<noteq> None \<longleftrightarrow> p \<in> infos s) \<and> infos s1 = infos s - {p} \<and>
       untracked_allocations s1 = (if p \<in> infos s then untracked_allocations s else untracked_allocations s - 1)
     else info = None \<and> infos s1 = infos s \<and> untracked_allocations s1 = untracked_allocations s)"
  by (cases "map_of (allocation_info s) p")
     (auto simp: Let_def remove_info_def infos_def UVM_KVMALLOC_LEAK_CHECK_ORIGIN_def AList.delete_conv' split: if_splits)

lemma kvrealloc_spec:
  assumes k: "kernel_ok km" and inv: "kv_inv km lc c s" and p: "view km (kv_heap s) p = Some (m, old)"
    and n: "unat n < 2 ^ 63"
  shows "\<exists>q s'. uvm_kvrealloc km lc o' p n origin s = Some (q, s') \<and>
    realloc_result km p n (kv_heap s) old q (kv_heap s') \<and>
    kv_inv km lc (c \<and> \<not> (q = 0 \<and> 2 \<le> lc \<and> p \<notin> infos s)) s'"
proof -
  let ?v = "view km (kv_heap s)"
  have h: "heap_ok km (kv_heap s)" "finite (dom ?v)" using inv by (auto simp: kv_inv_def heap_ok_def)
  have p16: "16 < p" using heap_okD[OF h(1) p] by simp
  then have p0: "\<not> ZERO_OR_NULL_PTR p" by (auto simp: ZERO_OR_NULL_PTR_def ZERO_SIZE_PTR_def)
  note sz = kvsize_view[OF p p16]
  obtain q h' where q: "(if km_is_vmalloc_addr km p then realloc_from_vmalloc km p n (kv_heap s)
      else realloc_from_kmalloc km p n (kv_heap s)) = Some (q, h')" "realloc_result km p n (kv_heap s) old q h'"
    using realloc_heap[OF k h(1) p n] by blast
  have h': "heap_ok km h'" using realloc_heap_ok[OF h(1) q(2)] .
  have rem: "finite (dom (?v(p := None)))" using h(2) by auto
  note ar = acc_remove[OF h(2) p, of lc "infos s" "untracked_allocations s"]
  consider (off) "lc = 0" | (free) "lc \<noteq> 0" "n = 0" | (on) "lc \<noteq> 0" "n \<noteq> 0" by blast
  then show ?thesis
  proof cases
    case off
    then have "uvm_kvrealloc km lc o' p n origin s = Some (q, s\<lparr>kv_heap := h'\<rparr>)"
      using p0 sz q(1) by (simp add: uvm_kvrealloc_def)
    moreover have "kv_inv km lc b (s\<lparr>kv_heap := h'\<rparr>)" for b
      using off h' by (simp add: kv_inv_def bytes_ok_def infos_ok_def)
    ultimately show ?thesis using q(2) by auto
  next
    case free
    then have q': "q = 16" "view km h' = ?v(p := None)" using q(2) by (auto simp: realloc_result_def)
    obtain s1 where s1: "alloc_tracking_remove km lc p s = Some s1" "kv_heap s1 = kv_heap s"
      "bytes_allocated s1 = bytes_allocated s - m"
      "if 2 \<le> lc then infos s1 = infos s - {p} \<and>
         untracked_allocations s1 = (if p \<in> infos s then untracked_allocations s else untracked_allocations s - 1)
       else infos s1 = infos s \<and> untracked_allocations s1 = untracked_allocations s"
      using tracking_remove_spec[OF p p16, of lc] by blast
    let ?s = "s1\<lparr>kv_heap := h'\<rparr>"
    have "uvm_kvrealloc km lc o' p n origin s = Some (q, ?s)"
      using p0 sz q(1) free s1(1,2) q'(1)
      by (cases "km_is_vmalloc_addr km p") (simp_all add: uvm_kvrealloc_def Let_def)
    moreover have "bytes_ok km lc ?s"
      using inv s1(3) q'(2) by (simp add: kv_inv_def bytes_ok_total total_remove[OF h(2) p])
    moreover have "infos_ok km lc ?s" if c
      using ar inv that s1(4) q'(2) by (cases "2 \<le> lc") (auto simp: kv_inv_def infos_ok_acc infos_def acc_def)
    ultimately show ?thesis using h' q by (auto simp: kv_inv_def)
  next
    case on
    obtain info s1 where u: "(let s = s\<lparr>bytes_allocated := bytes_allocated s - m\<rparr>
        in if UVM_KVMALLOC_LEAK_CHECK_ORIGIN \<le> lc then remove_info p s else (None, s)) = (info, s1)"
      and s1: "kv_heap s1 = kv_heap s" "bytes_allocated s1 = bytes_allocated s - m"
      "if 2 \<le> lc then (info \<noteq> None \<longleftrightarrow> p \<in> infos s) \<and> infos s1 = infos s - {p} \<and>
         untracked_allocations s1 = (if p \<in> infos s then untracked_allocations s else untracked_allocations s - 1)
       else info = None \<and> infos s1 = infos s \<and> untracked_allocations s1 = untracked_allocations s"
      using realloc_untrack[OF on(1), of s m p] by blast
    have accr: "acc lc (?v(p := None)) (infos s1) (untracked_allocations s1)" if c
      using ar inv that s1(3) by (cases "2 \<le> lc") (auto simp: kv_inv_def infos_ok_acc acc_def)
    have tot: "bytes_allocated s1 = total (?v(p := None))"
      using inv on(1) s1(2) by (simp add: kv_inv_def bytes_ok_total total_remove[OF h(2) p])
    show ?thesis
    proof (cases "q = 0")
      case True
      then have q': "view km h' = ?v" using q(2) on(2) by (auto simp: realloc_result_def)
      define s2 where "s2 = s1\<lparr>kv_heap := h', bytes_allocated := bytes_allocated s1 + m\<rparr>"
      define s3 where "s3 = (if UVM_KVMALLOC_LEAK_CHECK_ORIGIN \<le> lc \<and> info \<noteq> None
        then snd (insert_info o' p (the info) s2) else s2)"
      have "uvm_kvrealloc km lc o' p n origin s = Some (q, s3)"
        using p0 sz q(1) on u s1(1) True
        by (cases "km_is_vmalloc_addr km p"; cases info) (simp_all add: uvm_kvrealloc_def s3_def s2_def Let_def)
      moreover have f: "kv_heap s3 = h'" "bytes_allocated s3 = bytes_allocated s"
        using s1(2) by (auto simp: s3_def s2_def insert_info_infos)
      moreover have "infos_ok km lc s3" if "c" "2 \<le> lc \<longrightarrow> p \<in> infos s"
      proof (cases "2 \<le> lc")
        case lc: True
        have i2: "infos s2 = infos s1" "untracked_allocations s2 = untracked_allocations s1" by (simp_all add: s2_def infos_def)
        have "acc lc (?v(p := None, p \<mapsto> (m, old))) (infos s3) (untracked_allocations s3)"
          using acc_add_info[OF rem _ accr[OF that(1)], of p] acc_add_untracked[OF rem _ accr[OF that(1)], of p]
            lc that(2) s1(3) by (simp add: s3_def insert_info_infos i2 UVM_KVMALLOC_LEAK_CHECK_ORIGIN_def)
        then show ?thesis using p by (simp add: infos_ok_acc f q' fun_upd_idem)
      qed (simp add: infos_ok_def)
      ultimately show ?thesis
        using h' q(2) inv True p by (auto simp: kv_inv_def bytes_ok_total q')
    next
      case False
      then obtain m' bytes where q': "16 < q" "q = p \<or> ?v q = None" "view km h' = ?v(p := None, q \<mapsto> (m', bytes))"
        "unat m' = length bytes" using q(2) on(2) by (auto simp: realloc_result_def)
      define s2 where "s2 = (if info \<noteq> None then s1\<lparr>kv_heap := h', info_cache_objects := info_cache_objects s1 - 1\<rparr>
        else s1\<lparr>kv_heap := h'\<rparr>)"
      have s2: "kv_heap s2 = h'" "bytes_allocated s2 = bytes_allocated s1" "infos s2 = infos s1"
        "untracked_allocations s2 = untracked_allocations s1" by (auto simp: s2_def infos_def)
      obtain s' where s': "alloc_tracking_add km lc o' q origin s2 = Some s'" "kv_heap s' = kv_heap s2" "kv_inv km lc c s'"
      proof -
        have qn: "(?v(p := None)) q = None" using q'(2) by auto
        have "view km (kv_heap s2) = (?v(p := None))(q \<mapsto> (m', bytes))" using q'(3) by (simp add: s2)
        from add_inv[OF rem qn this q'(1), of lc c o' origin] tot accr h' on(1) that show thesis by (auto simp: s2)
      qed
      have "uvm_kvrealloc km lc o' p n origin s = Some (q, s')"
        using p0 sz q(1) on u s1(1) False s'(1)
        by (cases "km_is_vmalloc_addr km p"; cases info) (simp_all add: uvm_kvrealloc_def s2_def Let_def)
      then show ?thesis using s'(2,3) q(2) False by (auto simp: s2(1))
    qed
  qed
qed

section \<open>Properties\<close>

text \<open>
  C32. Reallocation. For a live allocation of contents \<open>old\<close> the call returns, whatever the allocators
  do: size 0 frees it and returns \<^verbatim>\<open>ZERO_SIZE_PTR\<close>; a null result leaves the memory as it was;
  otherwise the result is live, at least \<open>n\<close> bytes large, holds the old contents up to the
  smaller size, is the same or a fresh pointer, and the old one is gone if it moved. In all
  three cases every other allocation is untouched.
\<close>

theorem kvrealloc_correct:
  assumes "kernel_ok km" "kv_inv km lc c s" "view km (kv_heap s) p = Some (m, old)" "unat n < 2 ^ 63"
  shows "\<exists>q s'. uvm_kvrealloc km lc o' p n origin s = Some (q, s') \<and>
    (n = 0 \<longrightarrow> q = ZERO_SIZE_PTR \<and> view km (kv_heap s') p = None) \<and>
    (q = 0 \<longrightarrow> view km (kv_heap s') = view km (kv_heap s)) \<and>
    (n \<noteq> 0 \<and> q \<noteq> 0 \<longrightarrow> (q \<noteq> p \<longrightarrow> view km (kv_heap s) q = None \<and> view km (kv_heap s') p = None) \<and>
       (\<exists>m' bytes. view km (kv_heap s') q = Some (m', bytes) \<and> n \<le> m' \<and> unat m' = length bytes \<and>
          take (min (length old) (unat n)) bytes = take (min (length old) (unat n)) old)) \<and>
    (\<forall>r. r \<noteq> p \<and> r \<noteq> q \<longrightarrow> view km (kv_heap s') r = view km (kv_heap s) r)"
proof -
  obtain q s' where r: "uvm_kvrealloc km lc o' p n origin s = Some (q, s')"
    "realloc_result km p n (kv_heap s) old q (kv_heap s')"
    using kvrealloc_spec[OF assms] by blast
  then consider (zero) "n = 0" "q = 16" "view km (kv_heap s') = (view km (kv_heap s))(p := None)"
    | (null) "n \<noteq> 0" "q = 0" "view km (kv_heap s') = view km (kv_heap s)"
    | (new) m' bytes where "n \<noteq> 0" "16 < q" "q = p \<or> view km (kv_heap s) q = None"
      "view km (kv_heap s') = (view km (kv_heap s))(p := None, q \<mapsto> (m', bytes))" "unat m' = length bytes" "n \<le> m'"
      "take (min (length old) (unat n)) bytes = take (min (length old) (unat n)) old"
    unfolding realloc_result_def by blast
  then show ?thesis
  proof cases
    case new
    then have "q \<noteq> 0" by auto
    then show ?thesis using new r(1) by (intro exI[of _ q] exI[of _ s']) auto
  qed (use r(1) in \<open>auto simp: ZERO_SIZE_PTR_def\<close>)
qed

text \<open>An instance of the kernel's allocators: a bump allocator above \<open>2 ^ 32\<close> that fails when full.\<close>

definition sample_kernel :: kernel where
  "sample_kernel = \<lparr>
     km_kmalloc = (\<lambda>h zero n. if h 4096 = None \<and> unat n < 2 ^ 20 then Some (4096, replicate (unat n) 0) else None),
     km_krealloc = (\<lambda>h p n. case h p of
        Some (Kmalloc_block old) \<Rightarrow> if 16 < p \<and> p < 2 ^ 32 \<and> unat n \<le> length old \<and> length old < 2 ^ 20 then Some (p, old) else None
      | _ \<Rightarrow> None),
     km_vmalloc = (\<lambda>h zero n. if h (2 ^ 32) = None then Some (2 ^ 32, replicate (unat n) 0) else None),
     km_is_vmalloc_addr = (\<lambda>p. 2 ^ 32 \<le> p)\<rparr>"

lemma sample_kernel_ok: "kernel_ok sample_kernel"
proof -
  have "kmalloc_ok sample_kernel" by (auto simp: kmalloc_ok_def sample_kernel_def split: if_splits)
  moreover have "krealloc_ok sample_kernel" by (auto simp: krealloc_ok_def sample_kernel_def split: if_splits)
  moreover have "vmalloc_ok sample_kernel"
    by (auto simp: vmalloc_ok_def sample_kernel_def split: if_splits)
  moreover have "\<forall>p. ZERO_OR_NULL_PTR p \<longrightarrow> \<not> km_is_vmalloc_addr sample_kernel p"
    by (auto simp: ZERO_OR_NULL_PTR_def ZERO_SIZE_PTR_def sample_kernel_def word_le_nat_alt)
  ultimately show ?thesis by (simp add: kernel_ok_def)
qed

definition initial_kv :: leak_checker where
  "initial_kv = \<lparr>g_malloc_initialized = True, kv_heap = Map.empty, bytes_allocated = 0, untracked_allocations = 0,
     allocation_info = [], info_cache_objects = 0\<rparr>"

lemma initial_kv_inv: "kv_inv km lc c initial_kv"
proof -
  have "view km Map.empty = Map.empty" by (simp add: view_def fun_eq_iff)
  then show ?thesis
    by (simp add: kv_inv_def heap_ok_def bytes_ok_total infos_ok_acc acc_def initial_kv_def infos_def total_def)
qed

definition good_outcomes :: outcomes where
  "good_outcomes = \<lparr>info_zalloc_ok = True, info_preload_ok = True\<rparr>"

definition no_info :: outcomes where
  "no_info = \<lparr>info_zalloc_ok = False, info_preload_ok = True\<rparr>"

definition sample_origin :: uvm_kvmalloc_info_t where
  "sample_origin = \<lparr>info_file = ''a.c'', info_function = ''f'', info_line = 1\<rparr>"

definition sample_kv :: "outcomes \<Rightarrow> leak_checker" where
  "sample_kv o' = snd (the (uvm_kvmalloc sample_kernel 2 o' 8 sample_origin initial_kv))"

lemma sample_kv:
  "kv_inv sample_kernel 2 c (sample_kv o')"
  "view sample_kernel (kv_heap (sample_kv o')) 4096 = Some (8, replicate 8 0)"
  "infos (sample_kv no_info) = {}"
proof -
  have "unat (8 :: u64) < 2 ^ 63" by simp
  from kvmalloc_inv[OF sample_kernel_ok this initial_kv_inv[of sample_kernel 2 c], of False o' sample_origin]
  obtain p s' where s': "uvm_kvmalloc sample_kernel 2 o' 8 sample_origin initial_kv = Some (p, s')"
    "kv_inv sample_kernel 2 c s'" "alloc_internal sample_kernel 8 False (kv_heap initial_kv) = (p, kv_heap s')"
    by (auto simp: uvm_kvmalloc_def)
  then show "kv_inv sample_kernel 2 c (sample_kv o')" by (simp add: sample_kv_def)
  have "kv_heap s' = [4096 \<mapsto> Kmalloc_block (replicate 8 0)]"
    using s'(3) by (auto simp: alloc_internal_def UVM_KMALLOC_THRESHOLD_def kmalloc_def sample_kernel_def initial_kv_def)
  then show "view sample_kernel (kv_heap (sample_kv o')) 4096 = Some (8, replicate 8 0)"
    using s'(1) by (simp add: sample_kv_def view_def) (simp add: sample_kernel_def)
  show "infos (sample_kv no_info) = {}"
    by (simp add: sample_kv_def uvm_kvmalloc_def kvmalloc_common_def alloc_internal_def UVM_KMALLOC_THRESHOLD_def
        kmalloc_def sample_kernel_def initial_kv_def alloc_tracking_add_def uvm_kvsize_def ksize_def ZERO_OR_NULL_PTR_def
        ZERO_SIZE_PTR_def no_info_def infos_def UVM_KVMALLOC_LEAK_CHECK_ORIGIN_def)
qed

lemma kvrealloc_correct_witness:
  "\<exists>q s'. uvm_kvrealloc sample_kernel 2 good_outcomes 4096 20000 sample_origin (sample_kv good_outcomes) = Some (q, s') \<and>
     (\<forall>r. r \<noteq> 4096 \<and> r \<noteq> q \<longrightarrow>
        view sample_kernel (kv_heap s') r = view sample_kernel (kv_heap (sample_kv good_outcomes)) r)"
  using kvrealloc_correct[OF sample_kernel_ok sample_kv(1)[of True] sample_kv(2)[of good_outcomes], of 20000 good_outcomes sample_origin]
  by fastforce

text \<open>Any sequence of calls on null, zero-size or live pointers; \<open>c\<close> is false once a reallocation of an
  untracked allocation has failed.\<close>

inductive kv_step :: "kernel \<Rightarrow> int \<Rightarrow> bool \<Rightarrow> leak_checker \<Rightarrow> leak_checker \<Rightarrow> bool" for km lc where
  malloc: "unat n < 2 ^ 63 \<Longrightarrow> uvm_kvmalloc km lc o' n origin s = Some (p, s') \<Longrightarrow> kv_step km lc True s s'"
| zalloc: "unat n < 2 ^ 63 \<Longrightarrow> uvm_kvmalloc_zero km lc o' n origin s = Some (p, s') \<Longrightarrow> kv_step km lc True s s'"
| free_nothing: "p = 0 \<or> p = ZERO_SIZE_PTR \<Longrightarrow> uvm_kvfree km lc p s = Some s' \<Longrightarrow> kv_step km lc True s s'"
| free: "p \<in> live km s \<Longrightarrow> uvm_kvfree km lc p s = Some s' \<Longrightarrow> kv_step km lc True s s'"
| realloc_nothing: "p = 0 \<or> p = ZERO_SIZE_PTR \<Longrightarrow> unat n < 2 ^ 63 \<Longrightarrow>
    uvm_kvrealloc km lc o' p n origin s = Some (q, s') \<Longrightarrow> kv_step km lc True s s'"
| realloc: "p \<in> live km s \<Longrightarrow> unat n < 2 ^ 63 \<Longrightarrow> uvm_kvrealloc km lc o' p n origin s = Some (q, s') \<Longrightarrow>
    kv_step km lc (\<not> (q = 0 \<and> 2 \<le> lc \<and> p \<notin> infos s)) s s'"

inductive kv_reachable :: "kernel \<Rightarrow> int \<Rightarrow> bool \<Rightarrow> leak_checker \<Rightarrow> bool" for km lc where
  init: "kv_reachable km lc True initial_kv"
| step: "kv_reachable km lc c s \<Longrightarrow> kv_step km lc d s s' \<Longrightarrow> kv_reachable km lc (c \<and> d) s'"

lemma kvfree_nothing:
  assumes "kernel_ok km" "p = 0 \<or> p = ZERO_SIZE_PTR"
  shows "uvm_kvfree km lc p s = Some s"
proof -
  have nv: "\<not> km_is_vmalloc_addr km 16"
    using assms(1) by (auto simp: kernel_ok_def ZERO_OR_NULL_PTR_def ZERO_SIZE_PTR_def)
  show ?thesis
    using assms(2) zero_size(1)[OF assms(1)] nv
    by (auto simp: uvm_kvfree_def alloc_tracking_remove_def ZERO_OR_NULL_PTR_def ZERO_SIZE_PTR_def kfree_def)
qed

lemma live_view: "p \<in> live km s \<Longrightarrow> \<exists>n b. view km (kv_heap s) p = Some (n, b)"
  by (auto simp: live_def)

lemma kv_step_inv:
  assumes "kernel_ok km" "kv_step km lc d s s'" "kv_inv km lc c s"
  shows "kv_inv km lc (c \<and> d) s'"
  using assms(2,3)
proof cases
  case (malloc n o' origin p)
  then show ?thesis using kvmalloc_inv[OF assms(1) malloc(2) assms(3), of False o' origin] by (auto simp: uvm_kvmalloc_def)
next
  case (zalloc n o' origin p)
  then show ?thesis using kvmalloc_inv[OF assms(1) zalloc(2) assms(3), of True o' origin] by (auto simp: uvm_kvmalloc_zero_def)
next
  case (free_nothing p)
  then show ?thesis using kvfree_nothing[OF assms(1), of p lc s] assms(3) by auto
next
  case (free p)
  then show ?thesis using kvfree_inv[OF assms(1,3)] live_view[OF free(2)] by fastforce
next
  case (realloc_nothing p n o' origin q)
  then show ?thesis
    using kvmalloc_inv[OF assms(1) realloc_nothing(3) assms(3), of False o' origin]
    by (auto simp: uvm_kvrealloc_def uvm_kvmalloc_def ZERO_OR_NULL_PTR_def ZERO_SIZE_PTR_def)
next
  case (realloc p n o' origin q)
  obtain m b where "view km (kv_heap s) p = Some (m, b)" using live_view[OF realloc(2)] by auto
  from kvrealloc_spec[OF assms(1,3) this realloc(3), of o' origin] show ?thesis using realloc(1,4) by auto
qed

lemma kv_reachable_inv: "kernel_ok km \<Longrightarrow> kv_reachable km lc c s \<Longrightarrow> kv_inv km lc c s"
  by (rotate_tac, induction rule: kv_reachable.induct) (auto simp: initial_kv_inv intro: kv_step_inv)

text \<open>
  The leak checker's books. After any sequence of calls, failed ones included, the bytes counted
  are exactly the sizes of the live allocations (so 0 means nothing leaks); and with origins
  checked, as long as no reallocation of an untracked allocation has failed, every recorded
  origin is of a live allocation and the untracked count is the number of the others.
\<close>

theorem kvmalloc_accounting:
  assumes "kernel_ok km" "kv_reachable km lc c s" "lc \<noteq> 0"
  shows "bytes_allocated s = (\<Sum>p \<in> live km s. size_at km s p) \<and>
    (c \<and> 2 \<le> lc \<longrightarrow> infos s \<subseteq> live km s \<and> untracked_allocations s = of_nat (card (live km s - infos s)))"
  using kv_reachable_inv[OF assms(1,2)] assms(3) by (simp add: kv_inv_def bytes_ok_def infos_ok_def)

lemma kvmalloc_accounting_witness:
  "bytes_allocated (sample_kv good_outcomes) =
     (\<Sum>p \<in> live sample_kernel (sample_kv good_outcomes). size_at sample_kernel (sample_kv good_outcomes) p)"
proof (rule kvmalloc_accounting[THEN conjunct1, OF sample_kernel_ok])
  have "unat (8 :: u64) < 2 ^ 63" by simp
  from kvmalloc_inv[OF sample_kernel_ok this initial_kv_inv[of sample_kernel 2 True], of False good_outcomes sample_origin]
  have "\<exists>p. uvm_kvmalloc sample_kernel 2 good_outcomes 8 sample_origin initial_kv = Some (p, sample_kv good_outcomes)"
    by (auto simp: sample_kv_def uvm_kvmalloc_def)
  then have "kv_step sample_kernel 2 True initial_kv (sample_kv good_outcomes)" by (auto intro: kv_step.malloc[of 8])
  from kv_reachable.step[OF kv_reachable.init this] show "kv_reachable sample_kernel 2 True (sample_kv good_outcomes)" by simp
qed simp

text \<open>
  The untracked count goes wrong. \<^verbatim>\<open>remove_info\<close> takes an allocation without an info for one
  counted as untracked and decrements the count; when the reallocation then fails, the info is
  put back only if there was one. A failed reallocation of an untracked allocation thus leaves it
  live and without an info but no longer counted, so that freeing it decrements the count again.
\<close>

theorem failed_realloc_miscounts:
  assumes "kernel_ok km" "kv_inv km lc True s" "2 \<le> lc" "p \<in> live km s" "p \<notin> infos s" "unat n < 2 ^ 63"
    and "uvm_kvrealloc km lc o' p n origin s = Some (0, s')"
  shows "live km s' = live km s \<and> infos s' = infos s \<and>
    untracked_allocations s' = untracked_allocations s - 1 \<and> \<not> infos_ok km lc s'"
proof -
  obtain m old where p: "view km (kv_heap s) p = Some (m, old)" using live_view[OF assms(4)] by auto
  have h: "heap_ok km (kv_heap s)" using assms(2) by (simp add: kv_inv_def)
  have p16: "16 < p" using heap_okD[OF h p] by simp
  then have p0: "\<not> ZERO_OR_NULL_PTR p" by (auto simp: ZERO_OR_NULL_PTR_def ZERO_SIZE_PTR_def)
  obtain q h' where q: "(if km_is_vmalloc_addr km p then realloc_from_vmalloc km p n (kv_heap s)
      else realloc_from_kmalloc km p n (kv_heap s)) = Some (q, h')" "realloc_result km p n (kv_heap s) old q h'"
    using realloc_heap[OF assms(1) h p assms(6)] by blast
  obtain info s1 where u: "(let s = s\<lparr>bytes_allocated := bytes_allocated s - m\<rparr>
      in if UVM_KVMALLOC_LEAK_CHECK_ORIGIN \<le> lc then remove_info p s else (None, s)) = (info, s1)"
    and s1: "kv_heap s1 = kv_heap s" "info = None" "infos s1 = infos s" "untracked_allocations s1 = untracked_allocations s - 1"
    using realloc_untrack[of lc s m p] assms(3,5) by auto
  obtain q' s'' where "uvm_kvrealloc km lc o' p n origin s = Some (q', s'')"
    "realloc_result km p n (kv_heap s) old q' (kv_heap s'')"
    using kvrealloc_spec[OF assms(1,2) p assms(6)] by blast
  with assms(7) have rr: "realloc_result km p n (kv_heap s) old 0 (kv_heap s')" by simp
  then have n: "n \<noteq> 0" "view km (kv_heap s') = view km (kv_heap s)" by (auto simp: realloc_result_def)
  have "q = 0"
  proof (rule ccontr)
    assume "q \<noteq> 0"
    then have "map_option fst (uvm_kvrealloc km lc o' p n origin s) \<noteq> Some 0"
      using p0 kvsize_view[OF p p16] q(1) n(1) u s1(1,2) assms(3)
      by (cases "km_is_vmalloc_addr km p") (auto simp: uvm_kvrealloc_def Let_def)
    then show False using assms(7) by simp
  qed
  then have "s' = s1\<lparr>kv_heap := h', bytes_allocated := bytes_allocated s1 + m\<rparr>"
    using p0 kvsize_view[OF p p16] q(1) n(1) u s1(1,2) assms(3,7)
    by (cases "km_is_vmalloc_addr km p") (simp_all add: uvm_kvrealloc_def Let_def)
  then have i: "infos s' = infos s" "untracked_allocations s' = untracked_allocations s - 1"
    using s1(3,4) by (auto simp: infos_def)
  have l: "live km s' = live km s" using n(2) by (simp add: live_def)
  have "untracked_allocations s = of_nat (card (live km s - infos s))"
    using assms(2,3) by (simp add: kv_inv_def infos_ok_def)
  then have "\<not> infos_ok km lc s'" using assms(3) by (simp add: infos_ok_def i l)
  then show ?thesis using i l by simp
qed

lemma sample_kv_no_info:
  "sample_kv no_info = \<lparr>g_malloc_initialized = True, kv_heap = [4096 \<mapsto> Kmalloc_block (replicate 8 0)],
     bytes_allocated = 8, untracked_allocations = 1, allocation_info = [], info_cache_objects = 0\<rparr>"
  by (simp add: sample_kv_def uvm_kvmalloc_def kvmalloc_common_def alloc_internal_def UVM_KMALLOC_THRESHOLD_def
      kmalloc_def sample_kernel_def initial_kv_def alloc_tracking_add_def uvm_kvsize_def ksize_def ZERO_OR_NULL_PTR_def
      ZERO_SIZE_PTR_def no_info_def UVM_KVMALLOC_LEAK_CHECK_ORIGIN_def)

lemma failed_realloc_miscounts_witness:
  "untracked_allocations (snd (the (uvm_kvrealloc sample_kernel 2 no_info 4096 2000 sample_origin (sample_kv no_info)))) =
   untracked_allocations (sample_kv no_info) - 1"
proof -
  let ?r = "uvm_kvrealloc sample_kernel 2 no_info 4096 2000 sample_origin (sample_kv no_info)"
  have "\<exists>s'. ?r = Some (0, s')"
    by (simp add: sample_kv_no_info uvm_kvrealloc_def realloc_from_kmalloc_def krealloc_def UVM_KMALLOC_THRESHOLD_def
        ZERO_OR_NULL_PTR_def ZERO_SIZE_PTR_def uvm_kvsize_def ksize_def UVM_KVMALLOC_LEAK_CHECK_ORIGIN_def remove_info_def)
      (simp add: sample_kernel_def)
  then obtain s' where r: "?r = Some (0, s')" by blast
  have "untracked_allocations s' = untracked_allocations (sample_kv no_info) - 1"
    by (rule failed_realloc_miscounts[OF sample_kernel_ok sample_kv(1)[of True no_info] _ _ _ _ r, THEN conjunct2, THEN conjunct2, THEN conjunct1])
       (auto simp: live_def sample_kv)
  then show ?thesis by (simp add: r)
qed

lemma gang_lookup_spec:
  "case gang_lookup xs i of None \<Rightarrow> \<forall>k \<in> fst ` set xs. k < i
   | Some p \<Rightarrow> p \<in> fst ` set xs \<and> i \<le> p \<and> (\<forall>k \<in> fst ` set xs. i \<le> k \<longrightarrow> p \<le> k)"
  by (induction xs i rule: gang_lookup.induct) (auto split: option.splits)

lemma infos_keys: "infos s = fst ` set (allocation_info s)"
  by (simp add: infos_def dom_map_of_conv_image_fst)

lemma exit_loop_frees:
  assumes "kernel_ok km" "2 \<le> lc"
  shows "kv_inv km lc True s \<Longrightarrow> \<forall>k \<in> infos s. i \<le> k \<Longrightarrow> card (infos s) < fuel \<Longrightarrow>
    \<exists>s'. exit_loop fuel km lc i s = Some s' \<and> live km s' = live km s - infos s \<and> infos s' = {} \<and> kv_inv km lc True s'"
proof (induction fuel arbitrary: i s)
  case (Suc fuel)
  show ?case
  proof (cases "gang_lookup (allocation_info s) i")
    case None
    then have "\<forall>k \<in> infos s. k < i"
      using gang_lookup_spec[of "allocation_info s" i] by (simp add: infos_keys)
    then have "infos s = {}" using Suc.prems(2) by (meson all_not_in_conv leD)
    then show ?thesis using None Suc.prems(1) by simp
  next
    case (Some p)
    then have p: "p \<in> infos s" "\<forall>k \<in> infos s. p \<le> k"
      using gang_lookup_spec[of "allocation_info s" i] Suc.prems(2) by (auto simp: infos_keys)
    have sub: "infos s \<subseteq> live km s" using Suc.prems(1) assms(2) by (simp add: kv_inv_def infos_ok_def)
    then obtain n b where v: "view km (kv_heap s) p = Some (n, b)" using p(1) live_view by blast
    obtain s1 where s1: "uvm_kvfree km lc p s = Some s1" "kv_inv km lc True s1"
      "view km (kv_heap s1) = (view km (kv_heap s))(p := None)" "infos s1 = infos s - {p}"
      using kvfree_inv[OF assms(1) Suc.prems(1) v] assms(2) by auto
    have "\<forall>k \<in> infos s1. p + 1 \<le> k"
    proof
      fix k assume "k \<in> infos s1"
      then have "p < k" using s1(4) p(2) by force
      then show "p + 1 \<le> k" by (rule inc_le)
    qed
    moreover have "card (infos s1) < fuel"
      using Suc.prems(3) s1(4) card_Suc_Diff1[OF _ p(1)] by (simp add: infos_keys)
    ultimately obtain s' where s': "exit_loop fuel km lc (p + 1) s1 = Some s'" "live km s' = live km s1 - infos s1"
      "infos s' = {}" "kv_inv km lc True s'" using Suc.IH[OF s1(2)] by blast
    have "live km s1 = live km s - {p}" using s1(3) by (auto simp: live_def)
    then have "live km s' = live km s - infos s" using s'(2) s1(4) p(1) by auto
    then show ?thesis using Some s1(1) s'(1,3,4) by simp
  qed
qed simp

text \<open>
  Unloading with origins checked ends: as many passes as there are recorded origins, and one
  more, free exactly the allocations with an origin, in the order of their addresses, and leave
  no origin behind; only untracked allocations stay live.
\<close>

theorem kvmalloc_exit_frees:
  assumes "kernel_ok km" "kv_reachable km lc True s" "2 \<le> lc" "card (infos s) < fuel"
  shows "\<exists>s'. uvm_kvmalloc_exit fuel km lc s = Some s' \<and> live km s' = live km s - infos s \<and> infos s' = {} \<and>
    \<not> g_malloc_initialized s'"
proof -
  obtain s1 where s1: "exit_loop fuel km lc 0 s = Some s1" "live km s1 = live km s - infos s" "infos s1 = {}"
    using exit_loop_frees[OF assms(1,3) kv_reachable_inv[OF assms(1,2)], of 0 fuel] assms(4) by auto
  then show ?thesis
    using assms(3) by (simp add: uvm_kvmalloc_exit_def UVM_KVMALLOC_LEAK_CHECK_ORIGIN_def live_def infos_def)
qed

lemma kvmalloc_exit_frees_witness:
  "\<exists>s'. uvm_kvmalloc_exit 3 sample_kernel 2 initial_kv = Some s' \<and> infos s' = {}"
  using kvmalloc_exit_frees[OF sample_kernel_ok kv_reachable.init, of 2 3]
  by (auto simp: infos_def initial_kv_def)

end
