(* ===== verification/Gpu_Types.thy ===== *)
theory Gpu_Types
  imports UVM_Prelude Push
begin

text \<open>
  \<^verbatim>\<open>uvm8_hal_types.h\<close>: apertures, GPU addresses and membars; memory as the GPU sees it, and the
  copy engine and host operations a push records through the HAL. A copy whose source is inline
  data carries the bytes themselves: that the GPU address of inline data names the bytes the CPU
  wrote is a property of \<^verbatim>\<open>uvm_push_inline_data_end\<close>.
\<close>

section \<open>Addresses and membars\<close>

datatype uvm_aperture =
  UVM_APERTURE_PEER u8
| UVM_APERTURE_SYS
| UVM_APERTURE_VID
| UVM_APERTURE_DEFAULT

record uvm_gpu_phys_address =
  phys_address :: u64
  phys_aperture :: uvm_aperture

record uvm_gpu_address =
  gpu_address :: u64
  gpu_aperture :: uvm_aperture
  is_virtual :: bool

definition uvm_gpu_address_virtual :: "u64 \<Rightarrow> uvm_gpu_address" where
  "uvm_gpu_address_virtual va = \<lparr>gpu_address = va, gpu_aperture = UVM_APERTURE_PEER 0, is_virtual = True\<rparr>"

definition uvm_gpu_address_physical :: "uvm_aperture \<Rightarrow> u64 \<Rightarrow> uvm_gpu_address" where
  "uvm_gpu_address_physical aperture pa = \<lparr>gpu_address = pa, gpu_aperture = aperture, is_virtual = False\<rparr>"

definition uvm_gpu_address_from_phys :: "uvm_gpu_phys_address \<Rightarrow> uvm_gpu_address" where
  "uvm_gpu_address_from_phys a = uvm_gpu_address_physical (phys_aperture a) (phys_address a)"

datatype uvm_membar = UVM_MEMBAR_NONE | UVM_MEMBAR_GPU | UVM_MEMBAR_SYS

fun membar_num :: "uvm_membar \<Rightarrow> nat" where
  "membar_num UVM_MEMBAR_NONE = 0"
| "membar_num UVM_MEMBAR_GPU = 1"
| "membar_num UVM_MEMBAR_SYS = 2"

text \<open>Membars are ordered as their numbers, so that the library's maximum is the code's.\<close>

instantiation uvm_membar :: linorder
begin

definition less_eq_uvm_membar :: "uvm_membar \<Rightarrow> uvm_membar \<Rightarrow> bool" where
  "less_eq_uvm_membar a b \<longleftrightarrow> membar_num a \<le> membar_num b"

definition less_uvm_membar :: "uvm_membar \<Rightarrow> uvm_membar \<Rightarrow> bool" where
  "less_uvm_membar a b \<longleftrightarrow> membar_num a < membar_num b"

instance
proof
  fix a b :: uvm_membar
  assume "a \<le> b" "b \<le> a"
  then show "a = b" by (cases a; cases b) (auto simp: less_eq_uvm_membar_def)
qed (auto simp: less_eq_uvm_membar_def less_uvm_membar_def)

end

definition uvm_membar_max :: "uvm_membar \<Rightarrow> uvm_membar \<Rightarrow> uvm_membar" where
  "uvm_membar_max membar_1 membar_2 = max membar_1 membar_2"

section \<open>Operations\<close>

datatype ce_op =
  Ce_memcopy (op_dst: uvm_gpu_address) (op_bytes: "u8 list") (op_flags: "bool list")
| Ce_memset_8 (op_dst: uvm_gpu_address) (op_value: u64) (op_size: u64) (op_flags: "bool list")
| Host_wait_for_idle
| Host_membar_gpu
| Host_membar_sys
| Host_tlb_invalidate_all (inv_pdb: uvm_gpu_phys_address) (inv_depth: u32) (inv_membar: uvm_membar)
| Host_tlb_invalidate_va (inv_pdb: uvm_gpu_phys_address) (inv_depth: u32) (inv_base: u64) (inv_size: u64)
    (inv_page_size: u32) (inv_membar: uvm_membar)

text \<open>A push with the operations it holds so far.\<close>

record ce_push =
  cp_push :: uvm_push
  cp_ops :: "ce_op list"

definition set_flag :: "ce_push \<Rightarrow> uvm_push_flag \<Rightarrow> ce_push" where
  "set_flag p flag = p\<lparr>cp_push := uvm_push_set_flag (cp_push p) flag\<rparr>"

text \<open>
  A copy engine call takes the flags set for it and resets them; unless no membar was asked for it is
  followed by a wait and a membar, of the system by default.
\<close>

definition emit_ce :: "(bool list \<Rightarrow> ce_op) \<Rightarrow> ce_push \<Rightarrow> ce_push" where
  "emit_ce mk p =
     (let flags = push_flags (cp_push p);
          push = snd (uvm_push_get_and_reset_flag (cp_push p) UVM_PUSH_FLAG_CE_NEXT_PIPELINED);
          (none, push) = uvm_push_get_and_reset_flag push UVM_PUSH_FLAG_CE_NEXT_MEMBAR_NONE
      in if none then p\<lparr>cp_push := push, cp_ops := cp_ops p @ [mk flags]\<rparr>
         else
           let (gpu, push) = uvm_push_get_and_reset_flag push UVM_PUSH_FLAG_CE_NEXT_MEMBAR_GPU
           in p\<lparr>cp_push := push, cp_ops := cp_ops p @
                  [mk flags, Host_wait_for_idle, if gpu then Host_membar_gpu else Host_membar_sys]\<rparr>)"

definition emit_host :: "ce_op \<Rightarrow> ce_push \<Rightarrow> ce_push" where
  "emit_host op p = p\<lparr>cp_ops := cp_ops p @ [op]\<rparr>"

definition uvm_hal_membar :: "ce_push \<Rightarrow> uvm_membar \<Rightarrow> ce_push" where
  "uvm_hal_membar p membar =
     (case membar of
        UVM_MEMBAR_SYS \<Rightarrow> emit_host Host_membar_sys p
      | UVM_MEMBAR_GPU \<Rightarrow> emit_host Host_membar_gpu p
      | UVM_MEMBAR_NONE \<Rightarrow> p)"

definition uvm_hal_wfi_membar :: "ce_push \<Rightarrow> uvm_membar \<Rightarrow> ce_push" where
  "uvm_hal_wfi_membar p membar = uvm_hal_membar (emit_host Host_wait_for_idle p) membar"

section \<open>Memory as the GPU sees it\<close>

type_synonym gpu_mem = "uvm_gpu_address \<Rightarrow> u8"

definition shift :: "nat \<Rightarrow> uvm_gpu_address \<Rightarrow> uvm_gpu_address" where
  "shift n d = d\<lparr>gpu_address := gpu_address d + of_nat n\<rparr>"

fun write_bytes :: "uvm_gpu_address \<Rightarrow> u8 list \<Rightarrow> gpu_mem \<Rightarrow> gpu_mem" where
  "write_bytes d [] m = m"
| "write_bytes d (b # bs) m = write_bytes (shift 1 d) bs (m(d := b))"

definition bytes_of :: "u64 \<Rightarrow> u8 list" where
  "bytes_of v = map (\<lambda>i. ucast (drop_bit (8 * i) v)) [0..<8]"

fun run_op :: "ce_op \<Rightarrow> gpu_mem \<Rightarrow> gpu_mem" where
  "run_op (Ce_memcopy d bs _) m = write_bytes d bs m"
| "run_op (Ce_memset_8 d v n _) m = write_bytes d (concat (replicate (unat n div 8) (bytes_of v))) m"
| "run_op Host_wait_for_idle m = m"
| "run_op Host_membar_gpu m = m"
| "run_op Host_membar_sys m = m"
| "run_op (Host_tlb_invalidate_all _ _ _) m = m"
| "run_op (Host_tlb_invalidate_va _ _ _ _ _ _) m = m"

definition run_ops :: "ce_op list \<Rightarrow> gpu_mem \<Rightarrow> gpu_mem" where
  "run_ops ops m = fold run_op ops m"

lemma run_ops_append [simp]: "run_ops (xs @ ys) m = run_ops ys (run_ops xs m)"
  by (simp add: run_ops_def)

lemma run_ops_simps [simp]: "run_ops [] m = m" "run_ops (x # xs) m = run_ops xs (run_op x m)"
  by (simp_all add: run_ops_def)

lemma shift_simps [simp]: "shift 0 d = d" "shift i (shift j d) = shift (i + j) d"
  by (simp_all add: shift_def algebra_simps)

lemma length_bytes_of [simp]: "length (bytes_of v) = 8"
  by (simp add: bytes_of_def)

lemma write_bytes_append: "write_bytes d (xs @ ys) m = write_bytes (shift (length xs) d) ys (write_bytes d xs m)"
  by (induction xs arbitrary: d m) simp_all

lemma length_concat_bytes [simp]: "length (concat (map bytes_of vs)) = 8 * length vs"
  by (induction vs) auto

lemma run_emit_ce [simp]: "run_ops (cp_ops (emit_ce mk p)) m = run_op (mk (push_flags (cp_push p))) (run_ops (cp_ops p) m)"
  by (simp add: emit_ce_def Let_def split: prod.split)

lemma set_flag_ops [simp]: "cp_ops (set_flag p f) = cp_ops p"
  by (simp add: set_flag_def)

lemma emit_host_ops [simp]: "cp_ops (emit_host op p) = cp_ops p @ [op]"
  by (simp add: emit_host_def)

lemma write_bytes_outside:
  "\<forall>i < length bs. shift i d \<noteq> x \<Longrightarrow> write_bytes d bs m x = m x"
proof (induction bs arbitrary: d m)
  case (Cons b bs)
  have "d \<noteq> x" using Cons.prems by (metis length_Cons shift_simps(1) zero_less_Suc)
  moreover have "\<forall>i < length bs. shift i (shift 1 d) \<noteq> x"
    using Cons.prems by (metis Suc_eq_plus1 Suc_less_eq length_Cons shift_simps(2))
  ultimately show ?case using Cons.IH by simp
qed simp

end
