(* ===== verification/Pte_Batch.thy ===== *)
theory Pte_Batch
  imports Gpu_Types
begin

text \<open>
  \<^verbatim>\<open>uvm8_pte_batch.c\<close>: writes of page table entries gathered into few copy engine operations. Up to
  \<^verbatim>\<open>UVM_PTE_BATCH_MAX_PTES\<close> consecutive entries are queued and written by one memset each; longer
  runs are put inline into the push and copied. The refinement says that the operations pushed
  have the effect of writing each entry on its own, in the order of the calls.
\<close>

section \<open>The batch\<close>

definition UVM_PTE_BATCH_MAX_PTES :: u32 where
  "UVM_PTE_BATCH_MAX_PTES = 4"

text \<open>The method count field has 13 bits, a method 4 bytes.\<close>

definition UVM_PUSH_INLINE_DATA_MAX_SIZE :: u32 where
  "UVM_PUSH_INLINE_DATA_MAX_SIZE = mask 13 * 4"

record uvm_pte_batch =
  batch_push :: ce_push
  inline_data :: "u8 list"
  inlining :: bool
  pte_first_address :: uvm_gpu_phys_address
  pte_entry_size :: u32
  pte_bits_queue :: "u64 list"
  pte_count :: u32
  batch_membar :: uvm_membar

definition uvm_gpu_phys_address_eq :: "uvm_gpu_phys_address \<Rightarrow> uvm_gpu_phys_address \<Rightarrow> bool" where
  "uvm_gpu_phys_address_eq pa1 pa2 \<longleftrightarrow> phys_address pa1 = phys_address pa2 \<and> phys_aperture pa1 = phys_aperture pa2"

definition uvm_pte_batch_begin :: "ce_push \<Rightarrow> uvm_pte_batch" where
  "uvm_pte_batch_begin push =
     \<lparr>batch_push = push, inline_data = [], inlining = False,
      pte_first_address = \<lparr>phys_address = 0, phys_aperture = UVM_APERTURE_PEER 0\<rparr>,
      pte_entry_size = 0, pte_bits_queue = replicate 4 0, pte_count = 0, batch_membar = UVM_MEMBAR_GPU\<rparr>"

definition uvm_pte_batch_flush_ptes_inline :: "uvm_pte_batch \<Rightarrow> uvm_pte_batch" where
  "uvm_pte_batch_flush_ptes_inline b =
     (let push = set_flag (batch_push b) UVM_PUSH_FLAG_CE_NEXT_MEMBAR_NONE;
          push = set_flag push UVM_PUSH_FLAG_CE_NEXT_PIPELINED;
          ptes_size = pte_count b * pte_entry_size b
      in b\<lparr>inlining := False,
           batch_push := emit_ce (Ce_memcopy (uvm_gpu_address_from_phys (pte_first_address b))
                            (take (unat ptes_size) (inline_data b))) push\<rparr>)"

fun memset_loop :: "uvm_gpu_address \<Rightarrow> u32 \<Rightarrow> u64 list \<Rightarrow> ce_push \<Rightarrow> ce_push" where
  "memset_loop addr entry_size [] push = push"
| "memset_loop addr entry_size (v # vs) push =
     (let push = set_flag push UVM_PUSH_FLAG_CE_NEXT_MEMBAR_NONE;
          push = set_flag push UVM_PUSH_FLAG_CE_NEXT_PIPELINED;
          push = emit_ce (Ce_memset_8 addr v 8) push
      in memset_loop (addr\<lparr>gpu_address := gpu_address addr + ucast entry_size\<rparr>) entry_size vs push)"

definition uvm_pte_batch_flush_ptes_memset :: "uvm_pte_batch \<Rightarrow> uvm_pte_batch" where
  "uvm_pte_batch_flush_ptes_memset b =
     b\<lparr>batch_push := memset_loop (uvm_gpu_address_from_phys (pte_first_address b)) (pte_entry_size b)
         (take (unat (pte_count b)) (pte_bits_queue b)) (batch_push b)\<rparr>"

definition uvm_pte_batch_flush_ptes :: "uvm_pte_batch \<Rightarrow> uvm_pte_batch" where
  "uvm_pte_batch_flush_ptes b =
     (if pte_count b = 0 then b
      else (if inlining b then uvm_pte_batch_flush_ptes_inline b else uvm_pte_batch_flush_ptes_memset b)
             \<lparr>pte_count := 0\<rparr>)"

definition uvm_pte_batch_write_consecutive_inline :: "u64 \<Rightarrow> uvm_pte_batch \<Rightarrow> uvm_pte_batch" where
  "uvm_pte_batch_write_consecutive_inline pte_bits b =
     (let extra_size = (ucast (pte_entry_size b) :: u64) - 8;
          b = b\<lparr>inline_data := inline_data b @ bytes_of pte_bits\<rparr>
      in if extra_size \<noteq> 0 then b\<lparr>inline_data := inline_data b @ replicate (unat extra_size) 0\<rparr> else b)"

definition uvm_pte_batch_write_consecutive :: "u64 \<Rightarrow> uvm_pte_batch \<Rightarrow> uvm_pte_batch" where
  "uvm_pte_batch_write_consecutive pte_bits b =
     (if inlining b then uvm_pte_batch_write_consecutive_inline pte_bits b
      else b\<lparr>pte_bits_queue := (pte_bits_queue b)[unat (pte_count b) := pte_bits]\<rparr>)
       \<lparr>pte_count := pte_count b + 1\<rparr>"

definition pte_batch_begin_inline :: "uvm_pte_batch \<Rightarrow> uvm_pte_batch" where
  "pte_batch_begin_inline b =
     fold uvm_pte_batch_write_consecutive_inline (take (unat (pte_count b)) (pte_bits_queue b))
       (b\<lparr>inlining := True, inline_data := []\<rparr>)"

definition promote_membar :: "uvm_aperture \<Rightarrow> uvm_pte_batch \<Rightarrow> uvm_pte_batch" where
  "promote_membar aperture b = (if aperture = UVM_APERTURE_SYS then b\<lparr>batch_membar := UVM_MEMBAR_SYS\<rparr> else b)"

fun write_ptes_loop ::
  "nat \<Rightarrow> u32 \<Rightarrow> uvm_gpu_phys_address \<Rightarrow> u64 list \<Rightarrow> u32 \<Rightarrow> u32 \<Rightarrow> uvm_pte_batch \<Rightarrow> uvm_pte_batch option" where
  "write_ptes_loop 0 max_entries first_pte pte_bits entry_size entry_count b = None"
| "write_ptes_loop (Suc fuel) max_entries first_pte pte_bits entry_size entry_count b =
     (if entry_count = 0 then Some b
      else
        let b = pte_batch_begin_inline (uvm_pte_batch_flush_ptes b);
            entries_this_time = min max_entries entry_count;
            n = unat (entries_this_time * entry_size);
            b = b\<lparr>inline_data := inline_data b @ take n (concat (map bytes_of pte_bits)),
                  pte_entry_size := entry_size, pte_first_address := first_pte, pte_count := entries_this_time\<rparr>
        in write_ptes_loop fuel max_entries
             (first_pte\<lparr>phys_address := phys_address first_pte + ucast (entries_this_time * entry_size)\<rparr>)
             (drop (unat entries_this_time * (unat entry_size div 8)) pte_bits)
             entry_size (entry_count - entries_this_time) b)"

definition uvm_pte_batch_write_ptes ::
  "nat \<Rightarrow> uvm_pte_batch \<Rightarrow> uvm_gpu_phys_address \<Rightarrow> u64 list \<Rightarrow> u32 \<Rightarrow> u32 \<Rightarrow> uvm_pte_batch option" where
  "uvm_pte_batch_write_ptes fuel b first_pte pte_bits entry_size entry_count =
     write_ptes_loop fuel (UVM_PUSH_INLINE_DATA_MAX_SIZE div entry_size) first_pte pte_bits entry_size entry_count
       (promote_membar (phys_aperture first_pte) b)"

definition uvm_pte_batch_write_pte :: "uvm_pte_batch \<Rightarrow> uvm_gpu_phys_address \<Rightarrow> u64 \<Rightarrow> u32 \<Rightarrow> uvm_pte_batch" where
  "uvm_pte_batch_write_pte b pte pte_bits pte_size =
     (let consecutive_pte_address = (pte_first_address b)
            \<lparr>phys_address := phys_address (pte_first_address b) + ucast (pte_count b * pte_size)\<rparr>;
          b = promote_membar (phys_aperture pte) b;
          needs_flush = ((pte_count b + 1) * pte_entry_size b > UVM_PUSH_INLINE_DATA_MAX_SIZE \<or>
            \<not> uvm_gpu_phys_address_eq pte consecutive_pte_address \<or>
            pte_entry_size b \<noteq> pte_size);
          b = (if needs_flush
               then (uvm_pte_batch_flush_ptes b)\<lparr>pte_first_address := pte, pte_entry_size := pte_size\<rparr>
               else b);
          b = (if \<not> inlining b \<and> pte_count b = UVM_PTE_BATCH_MAX_PTES then pte_batch_begin_inline b else b)
      in uvm_pte_batch_write_consecutive pte_bits b)"

definition uvm_pte_batch_clear_ptes ::
  "uvm_pte_batch \<Rightarrow> uvm_gpu_phys_address \<Rightarrow> u64 \<Rightarrow> u32 \<Rightarrow> u32 \<Rightarrow> uvm_pte_batch" where
  "uvm_pte_batch_clear_ptes b first_pte empty_pte_bits entry_size entry_count =
     (let b = uvm_pte_batch_flush_ptes b;
          push = set_flag (batch_push b) UVM_PUSH_FLAG_CE_NEXT_PIPELINED;
          push = set_flag push UVM_PUSH_FLAG_CE_NEXT_MEMBAR_NONE;
          push = emit_ce (Ce_memset_8 (uvm_gpu_address_from_phys first_pte) empty_pte_bits
                   (ucast (entry_size * entry_count))) push
      in promote_membar (phys_aperture first_pte) (b\<lparr>batch_push := push\<rparr>))"

definition uvm_pte_batch_end :: "uvm_pte_batch \<Rightarrow> uvm_pte_batch" where
  "uvm_pte_batch_end b =
     (let b = uvm_pte_batch_flush_ptes b
      in b\<lparr>batch_push := uvm_hal_wfi_membar (batch_push b) (batch_membar b)\<rparr>)"

definition uvm_pte_batch_single_write_ptes ::
  "nat \<Rightarrow> ce_push \<Rightarrow> uvm_gpu_phys_address \<Rightarrow> u64 list \<Rightarrow> u32 \<Rightarrow> u32 \<Rightarrow> ce_push option" where
  "uvm_pte_batch_single_write_ptes fuel push first_pte pte_bits entry_size entry_count =
     map_option (\<lambda>b. batch_push (uvm_pte_batch_end b))
       (uvm_pte_batch_write_ptes fuel (uvm_pte_batch_begin push) first_pte pte_bits entry_size entry_count)"

section \<open>What is pending\<close>

fun write_queue :: "uvm_gpu_address \<Rightarrow> nat \<Rightarrow> u64 list \<Rightarrow> gpu_mem \<Rightarrow> gpu_mem" where
  "write_queue d e [] m = m"
| "write_queue d e (v # vs) m = write_queue (shift e d) e vs (write_bytes d (bytes_of v) m)"

definition pending :: "uvm_pte_batch \<Rightarrow> gpu_mem \<Rightarrow> gpu_mem" where
  "pending b m =
     (if pte_count b = 0 then m
      else if inlining b then write_bytes (uvm_gpu_address_from_phys (pte_first_address b)) (inline_data b) m
      else write_queue (uvm_gpu_address_from_phys (pte_first_address b)) (unat (pte_entry_size b))
             (take (unat (pte_count b)) (pte_bits_queue b)) m)"

text \<open>The memory once the operations pushed and those pending have run.\<close>

definition effect :: "uvm_pte_batch \<Rightarrow> gpu_mem \<Rightarrow> gpu_mem" where
  "effect b m = pending b (run_ops (cp_ops (batch_push b)) m)"

definition batch_ok :: "uvm_pte_batch \<Rightarrow> bool" where
  "batch_ok b \<longleftrightarrow> length (pte_bits_queue b) = 4 \<and> (pte_count b = 0 \<longrightarrow> \<not> inlining b) \<and>
     (pte_count b \<noteq> 0 \<longrightarrow> 8 \<le> unat (pte_entry_size b) \<and> unat (pte_entry_size b) \<le> 32764) \<and>
     (inlining b \<longrightarrow> length (inline_data b) = unat (pte_count b) * unat (pte_entry_size b) \<and>
        length (inline_data b) \<le> 32764) \<and>
     (\<not> inlining b \<longrightarrow> unat (pte_count b) \<le> 4)"

lemma max_size: "UVM_PUSH_INLINE_DATA_MAX_SIZE = 32764"
  by (simp add: UVM_PUSH_INLINE_DATA_MAX_SIZE_def mask_eq_exp_minus_1)

lemma ucast_of_nat: "ucast (w :: u32) = (of_nat (unat w) :: u64)"
  by (simp add: unsigned_ucast_eq word_unat_eq_iff unat_of_nat)

lemma memset_loop_run:
  "run_ops (cp_ops (memset_loop d e vs p)) m = write_queue d (unat e) vs (run_ops (cp_ops p) m)"
proof (induction d e vs p arbitrary: m rule: memset_loop.induct)
  case (2 d e v vs p)
  have "d\<lparr>gpu_address := gpu_address d + ucast e\<rparr> = shift (unat e) d"
    by (simp add: shift_def)
  then show ?case using 2 by (simp add: Let_def)
qed simp

lemma write_queue_append:
  "write_queue d e (xs @ [v]) m = write_bytes (shift (e * length xs) d) (bytes_of v) (write_queue d e xs m)"
  by (induction d e xs m rule: write_queue.induct) (simp_all add: algebra_simps)

lemma write_queue_8: "write_queue d 8 vs m = write_bytes d (concat (map bytes_of vs)) m"
  by (induction d "8::nat" vs m rule: write_queue.induct) (simp_all add: write_bytes_append)

text \<open>Flushing changes nothing but that nothing is pending.\<close>

lemma flush_spec:
  assumes "batch_ok b"
  shows "batch_ok (uvm_pte_batch_flush_ptes b) \<and> pte_count (uvm_pte_batch_flush_ptes b) = 0 \<and>
    effect (uvm_pte_batch_flush_ptes b) m = effect b m \<and>
    batch_membar (uvm_pte_batch_flush_ptes b) = batch_membar b \<and>
    run_ops (cp_ops (batch_push (uvm_pte_batch_flush_ptes b))) m = effect b m"
proof (cases "pte_count b = 0")
  case True
  then show ?thesis using assms by (simp add: uvm_pte_batch_flush_ptes_def effect_def pending_def)
next
  case False
  show ?thesis
  proof (cases "inlining b")
    case True
    have l: "length (inline_data b) = unat (pte_count b) * unat (pte_entry_size b)" "length (inline_data b) \<le> 32764"
      using assms True by (auto simp: batch_ok_def)
    then have "unat (pte_count b * pte_entry_size b) = length (inline_data b)"
      by (simp add: unat_word_ariths)
    then show ?thesis
      using assms False True
      by (simp add: uvm_pte_batch_flush_ptes_def uvm_pte_batch_flush_ptes_inline_def effect_def pending_def batch_ok_def Let_def)
  next
    case inl: False
    then show ?thesis
      using assms False
      by (simp add: uvm_pte_batch_flush_ptes_def uvm_pte_batch_flush_ptes_memset_def effect_def pending_def batch_ok_def
          memset_loop_run)
  qed
qed

text \<open>Switching a full queue of 8-byte entries to inline data.\<close>

lemma begin_inline_8:
  assumes "pte_entry_size b = 8"
  shows "pte_batch_begin_inline b = b\<lparr>inlining := True,
    inline_data := concat (map bytes_of (take (unat (pte_count b)) (pte_bits_queue b)))\<rparr>"
proof -
  have one: "uvm_pte_batch_write_consecutive_inline v b' = b'\<lparr>inline_data := inline_data b' @ bytes_of v\<rparr>"
    if "pte_entry_size b' = 8" for v b'
    using that by (simp add: uvm_pte_batch_write_consecutive_inline_def)
  have "fold uvm_pte_batch_write_consecutive_inline vs b' = b'\<lparr>inline_data := inline_data b' @ concat (map bytes_of vs)\<rparr>"
    if "pte_entry_size b' = 8" for vs b'
    using that by (induction vs arbitrary: b') (simp_all add: one)
  then show ?thesis using assms by (simp add: pte_batch_begin_inline_def)
qed

section \<open>The refinement\<close>

lemma promote_simps [simp]:
  "batch_ok (promote_membar a b) = batch_ok b" "effect (promote_membar a b) m = effect b m"
  "pte_count (promote_membar a b) = pte_count b" "pte_entry_size (promote_membar a b) = pte_entry_size b"
  "pte_first_address (promote_membar a b) = pte_first_address b" "inlining (promote_membar a b) = inlining b"
  "batch_push (promote_membar a b) = batch_push b" "inline_data (promote_membar a b) = inline_data b"
  "pte_bits_queue (promote_membar a b) = pte_bits_queue b"
  by (simp_all add: promote_membar_def batch_ok_def effect_def pending_def)

lemma promote_membar_membar:
  "batch_membar (promote_membar a b) = (if a = UVM_APERTURE_SYS then UVM_MEMBAR_SYS else batch_membar b)"
  by (simp add: promote_membar_def)

text \<open>Appending an entry at the place where the pending ones end.\<close>

lemma take_update_Suc: "n < length xs \<Longrightarrow> take (Suc n) (xs[n := v]) = take n xs @ [v]"
  by (simp add: take_Suc_conv_app_nth)

lemma append_8:
  assumes ok: "batch_ok b" and e: "pte_entry_size b = 8"
    and max: "8 * (unat (pte_count b) + 1) \<le> 32764"
    and pte: "uvm_gpu_address_from_phys pte = shift (8 * unat (pte_count b)) (uvm_gpu_address_from_phys (pte_first_address b))"
    and b': "b' = uvm_pte_batch_write_consecutive v
       (if \<not> inlining b \<and> pte_count b = UVM_PTE_BATCH_MAX_PTES then pte_batch_begin_inline b else b)"
  shows "batch_ok b' \<and> effect b' m = write_bytes (uvm_gpu_address_from_phys pte) (bytes_of v) (effect b m) \<and>
    batch_membar b' = batch_membar b"
proof -
  let ?d = "uvm_gpu_address_from_phys (pte_first_address b)"
  let ?n = "unat (pte_count b)"
  have n1: "unat (pte_count b + 1) = Suc ?n" using max by (simp add: unat_word_ariths)
  have c1: "pte_count b + 1 \<noteq> 0" using n1 by auto
  have q4: "length (pte_bits_queue b) = 4" using ok by (simp add: batch_ok_def)
  let ?m = "run_ops (cp_ops (batch_push b)) m"
  consider (inl) "inlining b" | (full) "\<not> inlining b" "pte_count b = 4" | (queue) "\<not> inlining b" "pte_count b \<noteq> 4" by blast
  then show ?thesis
  proof cases
    case inl
    then have c: "pte_count b \<noteq> 0" and len: "length (inline_data b) = ?n * 8"
      using ok e by (auto simp: batch_ok_def)
    have b'': "b' = b\<lparr>inline_data := inline_data b @ bytes_of v, pte_count := pte_count b + 1\<rparr>"
      using inl e by (simp add: b' uvm_pte_batch_write_consecutive_def uvm_pte_batch_write_consecutive_inline_def)
    have "batch_ok b'" using ok inl e max n1 c1 len by (simp add: b'' batch_ok_def)
    then show ?thesis
      using inl c c1 len by (simp add: b'' effect_def pending_def pte write_bytes_append mult.commute)
  next
    case full
    have b'': "b' = b\<lparr>inlining := True, inline_data := concat (map bytes_of (pte_bits_queue b)) @ bytes_of v,
        pte_count := pte_count b + 1\<rparr>"
      using full e q4
      by (simp add: b' UVM_PTE_BATCH_MAX_PTES_def begin_inline_8 uvm_pte_batch_write_consecutive_def
          uvm_pte_batch_write_consecutive_inline_def)
    have n4: "?n = 4" using full(2) by simp
    have "batch_ok b'" using ok full e q4 by (simp add: b'' batch_ok_def)
    then show ?thesis
      using full e q4 by (simp add: b'' effect_def pending_def pte write_bytes_append write_queue_8)
  next
    case queue
    have n: "?n < 4"
    proof -
      have "?n \<le> 4" using ok queue(1) by (simp add: batch_ok_def)
      moreover have "?n \<noteq> 4"
      proof
        assume "?n = 4"
        then have "unat (pte_count b) = unat (4 :: u32)" by simp
        then show False using queue(2) unsigned_word_eqI by blast
      qed
      ultimately show ?thesis by simp
    qed
    have b'': "b' = b\<lparr>pte_bits_queue := (pte_bits_queue b)[?n := v], pte_count := pte_count b + 1\<rparr>"
      using queue by (simp add: b' UVM_PTE_BATCH_MAX_PTES_def uvm_pte_batch_write_consecutive_def)
    have "batch_ok b'" using ok queue e n n1 c1 by (simp add: b'' batch_ok_def)
    moreover have "effect b' m = write_queue ?d 8 (take ?n (pte_bits_queue b) @ [v]) ?m"
      using queue e n n1 c1 q4 by (simp add: b'' effect_def pending_def take_update_Suc)
    moreover have "effect b m = write_queue ?d 8 (take ?n (pte_bits_queue b)) ?m"
      using queue e by (cases "pte_count b = 0") (simp_all add: effect_def pending_def)
    ultimately show ?thesis using n q4 by (simp add: b'' write_queue_append pte)
  qed
qed

lemma eq_phys: "uvm_gpu_phys_address_eq a a' \<longleftrightarrow> a = a'"
  by (auto simp: uvm_gpu_phys_address_eq_def)

lemma write_pte_spec:
  assumes "batch_ok b"
  shows "batch_ok (uvm_pte_batch_write_pte b pte v 8) \<and>
    effect (uvm_pte_batch_write_pte b pte v 8) m = write_bytes (uvm_gpu_address_from_phys pte) (bytes_of v) (effect b m) \<and>
    batch_membar (uvm_pte_batch_write_pte b pte v 8) =
      (if phys_aperture pte = UVM_APERTURE_SYS then UVM_MEMBAR_SYS else batch_membar b)"
proof -
  let ?b = "promote_membar (phys_aperture pte) b"
  let ?cons = "(pte_first_address b)\<lparr>phys_address := phys_address (pte_first_address b) + ucast (pte_count b * 8)\<rparr>"
  let ?flush = "(pte_count b + 1) * pte_entry_size b > UVM_PUSH_INLINE_DATA_MAX_SIZE \<or>
      \<not> uvm_gpu_phys_address_eq pte ?cons \<or> pte_entry_size b \<noteq> 8"
  let ?c = "if ?flush then (uvm_pte_batch_flush_ptes ?b)\<lparr>pte_first_address := pte, pte_entry_size := 8\<rparr> else ?b"
  have w: "uvm_pte_batch_write_pte b pte v 8 = uvm_pte_batch_write_consecutive v
      (if \<not> inlining ?c \<and> pte_count ?c = UVM_PTE_BATCH_MAX_PTES then pte_batch_begin_inline ?c else ?c)"
    by (simp add: uvm_pte_batch_write_pte_def Let_def)
  have fl: "batch_ok (uvm_pte_batch_flush_ptes ?b)" "pte_count (uvm_pte_batch_flush_ptes ?b) = 0"
    "effect (uvm_pte_batch_flush_ptes ?b) m = effect b m" "batch_membar (uvm_pte_batch_flush_ptes ?b) = batch_membar ?b"
    using flush_spec[of ?b m] assms by simp_all
  have c: "batch_ok ?c \<and> pte_entry_size ?c = 8 \<and> 8 * (unat (pte_count ?c) + 1) \<le> 32764 \<and>
     uvm_gpu_address_from_phys pte = shift (8 * unat (pte_count ?c)) (uvm_gpu_address_from_phys (pte_first_address ?c)) \<and>
     effect ?c m = effect b m \<and> batch_membar ?c = batch_membar ?b"
  proof (cases ?flush)
    case True
    have "effect (uvm_pte_batch_flush_ptes ?b) m = run_ops (cp_ops (batch_push (uvm_pte_batch_flush_ptes ?b))) m"
      using fl(2) by (simp add: effect_def pending_def)
    then show ?thesis using True fl by (simp add: batch_ok_def effect_def pending_def)
  next
    case False
    then have f: "\<not> (pte_count b + 1) * 8 > UVM_PUSH_INLINE_DATA_MAX_SIZE" "pte = ?cons" "pte_entry_size b = 8"
      by (auto simp: eq_phys)
    have n: "unat (pte_count b) \<le> 32764"
      using assms f(3) by (cases "inlining b") (auto simp: batch_ok_def)
    then have "unat ((pte_count b + 1) * 8) = 8 * (unat (pte_count b) + 1)"
      by (simp add: unat_word_ariths)
    then have le: "8 * (unat (pte_count b) + 1) \<le> 32764"
      using f(1) by (simp add: max_size not_less word_le_nat_alt)
    have "unat (pte_count b * 8) = 8 * unat (pte_count b)" using n by (simp add: unat_word_ariths)
    then have "ucast (pte_count b * 8) = (of_nat (8 * unat (pte_count b)) :: u64)" by (simp only: ucast_of_nat)
    then have "uvm_gpu_address_from_phys pte = shift (8 * unat (pte_count b)) (uvm_gpu_address_from_phys (pte_first_address b))"
      by (subst f(2)) (simp add: uvm_gpu_address_from_phys_def uvm_gpu_address_physical_def shift_def)
    then show ?thesis using False f(3) le assms by simp
  qed
  from append_8[OF _ _ _ _ w, of pte m] c show ?thesis by (simp add: promote_membar_membar)
qed

lemma take_concat_bytes: "take (8 * j) (concat (map bytes_of vs)) = concat (map bytes_of (take j vs))"
proof (induction vs arbitrary: j)
  case (Cons v vs)
  show ?case
  proof (cases j)
    case (Suc i)
    have "take (8 * j) (bytes_of v @ concat (map bytes_of vs)) = bytes_of v @ take (8 * i) (concat (map bytes_of vs))"
      by (simp add: Suc)
    then show ?thesis using Cons Suc by simp
  qed simp
qed simp

text \<open>One pass of the loop: \<open>k\<close> entries put inline into an empty batch.\<close>

lemma write_ptes_pass:
  assumes "batch_ok b" "8 dvd unat e" "8 \<le> unat e" "unat k \<noteq> 0" "unat k * unat e \<le> 32764"
    and "unat k * (unat e div 8) \<le> length buf"
    and b': "b' = (pte_batch_begin_inline (uvm_pte_batch_flush_ptes b))
      \<lparr>inline_data := inline_data (pte_batch_begin_inline (uvm_pte_batch_flush_ptes b)) @
          take (unat (k * e)) (concat (map bytes_of buf)),
       pte_entry_size := e, pte_first_address := first, pte_count := k\<rparr>"
  shows "batch_ok b' \<and> batch_membar b' = batch_membar b \<and>
    effect b' m = write_bytes (uvm_gpu_address_from_phys first)
      (concat (map bytes_of (take (unat k * (unat e div 8)) buf))) (effect b m)"
proof -
  have f: "batch_ok (uvm_pte_batch_flush_ptes b)" "pte_count (uvm_pte_batch_flush_ptes b) = 0"
    "run_ops (cp_ops (batch_push (uvm_pte_batch_flush_ptes b))) m = effect b m"
    "batch_membar (uvm_pte_batch_flush_ptes b) = batch_membar b"
    using flush_spec[OF assms(1), of m] by auto
  have bi: "pte_batch_begin_inline (uvm_pte_batch_flush_ptes b) =
      (uvm_pte_batch_flush_ptes b)\<lparr>inlining := True, inline_data := []\<rparr>"
    using f(2) by (simp add: pte_batch_begin_inline_def)
  have ke: "unat (k * e) = 8 * (unat k * (unat e div 8))"
    using assms(2,5) by (simp add: unat_word_ariths)
  have k0: "k \<noteq> 0" using assms(4) by auto
  have e_le: "unat e \<le> 32764"
  proof -
    have "unat e \<le> unat k * unat e" using assms(4) by (cases "unat k") simp_all
    then show ?thesis using assms(5) by linarith
  qed
  have len: "8 * (unat k * (unat e div 8)) = unat k * unat e" using assms(2) by simp
  have "length (concat (map bytes_of (take (unat k * (unat e div 8)) buf))) = unat k * unat e"
    using assms(6) len by (simp add: min_absorb2)
  then show ?thesis
    using f k0 e_le assms(3,5)
    by (simp add: b' bi ke take_concat_bytes effect_def pending_def batch_ok_def)
qed

lemma write_ptes_loop_spec:
  assumes "8 dvd unat e" "8 \<le> unat e" "unat e \<le> 32764" "max_entries = UVM_PUSH_INLINE_DATA_MAX_SIZE div e"
  shows "batch_ok b \<Longrightarrow> unat n * (unat e div 8) \<le> length buf \<Longrightarrow> unat n < fuel \<Longrightarrow>
    \<exists>b'. write_ptes_loop fuel max_entries first buf e n b = Some b' \<and> batch_ok b' \<and> batch_membar b' = batch_membar b \<and>
      effect b' m = write_bytes (uvm_gpu_address_from_phys first)
        (concat (map bytes_of (take (unat n * (unat e div 8)) buf))) (effect b m)"
proof (induction fuel arbitrary: b n buf first)
  case (Suc fuel)
  show ?case
  proof (cases "n = 0")
    case False
    let ?k = "min max_entries n"
    let ?w = "unat e div 8"
    have mx: "unat max_entries = 32764 div unat e" by (simp add: assms(4) max_size unat_div)
    have uk: "unat ?k = min (32764 div unat e) (unat n)"
      by (simp add: min_def word_le_nat_alt mx)
    have "0 < 32764 div unat e" using assms(2,3) by (simp add: div_greater_zero_iff)
    moreover have "unat n \<noteq> 0" using False by (simp only: unsigned_eq_0_iff not_False_eq_True)
    ultimately have k0: "unat ?k \<noteq> 0" using uk by simp
    have ke: "unat ?k * unat e \<le> 32764"
    proof -
      have "unat ?k \<le> 32764 div unat e" by (simp only: uk min.cobounded1)
      then have "unat ?k * unat e \<le> 32764 div unat e * unat e" by (rule mult_le_mono1)
      also have "\<dots> \<le> 32764" by (rule div_times_less_eq_dividend)
      finally show ?thesis .
    qed
    have kn: "unat ?k \<le> unat n" using uk by simp
    have kw: "unat ?k * ?w \<le> unat n * ?w" using kn by (rule mult_le_mono1)
    define b1 where "b1 = (pte_batch_begin_inline (uvm_pte_batch_flush_ptes b))
      \<lparr>inline_data := inline_data (pte_batch_begin_inline (uvm_pte_batch_flush_ptes b)) @
          take (unat (?k * e)) (concat (map bytes_of buf)),
       pte_entry_size := e, pte_first_address := first, pte_count := ?k\<rparr>"
    have p: "batch_ok b1" "batch_membar b1 = batch_membar b"
      "effect b1 m = write_bytes (uvm_gpu_address_from_phys first)
        (concat (map bytes_of (take (unat ?k * ?w) buf))) (effect b m)"
      using write_ptes_pass[OF Suc.prems(1) assms(1,2) k0 ke _ b1_def] Suc.prems(2) kw by auto
    have un: "unat (n - ?k) = unat n - unat ?k" using kn by (simp add: unat_sub word_le_nat_alt)
    let ?first = "first\<lparr>phys_address := phys_address first + ucast (?k * e)\<rparr>"
    have len': "unat (n - ?k) * ?w \<le> length (drop (unat ?k * ?w) buf)"
      using Suc.prems(2) by (simp add: un diff_mult_distrib)
    have fl': "unat (n - ?k) < fuel" using Suc.prems(3) k0 un kn by linarith
    from Suc.IH[OF p(1) len' fl', of ?first]
    obtain b' where b': "write_ptes_loop fuel max_entries ?first (drop (unat ?k * ?w) buf) e (n - ?k) b1 = Some b'"
      "batch_ok b'" "batch_membar b' = batch_membar b1"
      "effect b' m = write_bytes (uvm_gpu_address_from_phys ?first)
        (concat (map bytes_of (take (unat (n - ?k) * ?w) (drop (unat ?k * ?w) buf)))) (effect b1 m)"
      by blast
    have uke: "unat (?k * e) = 8 * (unat ?k * ?w)" using assms(1) ke by (simp add: unat_word_ariths)
    have sh: "uvm_gpu_address_from_phys ?first = shift (8 * (unat ?k * ?w)) (uvm_gpu_address_from_phys first)"
      by (simp only: ucast_of_nat uke) (simp add: uvm_gpu_address_from_phys_def uvm_gpu_address_physical_def shift_def)
    have split: "take (unat n * ?w) buf = take (unat ?k * ?w) buf @ take (unat (n - ?k) * ?w) (drop (unat ?k * ?w) buf)"
      using kw by (simp add: un diff_mult_distrib take_add[symmetric])
    have lk: "length (concat (map bytes_of (take (unat ?k * ?w) buf))) = 8 * (unat ?k * ?w)"
    proof -
      have "length (take (unat ?k * ?w) buf) = unat ?k * ?w"
        using order_trans[OF kw Suc.prems(2)] by (simp only: length_take min_absorb2)
      then show ?thesis by (simp only: length_concat_bytes)
    qed
    have "effect b' m = write_bytes (uvm_gpu_address_from_phys first)
        (concat (map bytes_of (take (unat n * ?w) buf))) (effect b m)"
      unfolding split by (simp only: map_append concat_append write_bytes_append lk b'(4) p(3) sh)
    then show ?thesis using False b' p(2) by (simp add: Let_def b1_def)
  qed (use Suc.prems in simp)
qed simp

lemma write_ptes_spec:
  assumes "batch_ok b" "8 dvd unat e" "8 \<le> unat e" "unat e \<le> 32764" "unat n * (unat e div 8) \<le> length buf" "unat n < fuel"
  shows "\<exists>b'. uvm_pte_batch_write_ptes fuel b first buf e n = Some b' \<and> batch_ok b' \<and>
    batch_membar b' = (if phys_aperture first = UVM_APERTURE_SYS then UVM_MEMBAR_SYS else batch_membar b) \<and>
    effect b' m = write_bytes (uvm_gpu_address_from_phys first)
      (concat (map bytes_of (take (unat n * (unat e div 8)) buf))) (effect b m)"
  using write_ptes_loop_spec[OF assms(2-4) refl, of "promote_membar (phys_aperture first) b" n buf fuel first m] assms
  by (simp add: uvm_pte_batch_write_ptes_def promote_membar_membar)

lemma clear_ptes_spec:
  assumes "batch_ok b"
  shows "batch_ok (uvm_pte_batch_clear_ptes b first v e n) \<and>
    batch_membar (uvm_pte_batch_clear_ptes b first v e n) =
      (if phys_aperture first = UVM_APERTURE_SYS then UVM_MEMBAR_SYS else batch_membar b) \<and>
    effect (uvm_pte_batch_clear_ptes b first v e n) m = write_bytes (uvm_gpu_address_from_phys first)
      (concat (replicate (unat (e * n) div 8) (bytes_of v))) (effect b m)"
proof -
  have "unat (ucast (e * n) :: u64) = unat (e * n)" by (simp only: ucast_32_64)
  moreover have "batch_ok (b'\<lparr>batch_push := p\<rparr>) = batch_ok b'" for b' p by (simp add: batch_ok_def)
  ultimately show ?thesis
    using flush_spec[OF assms, of m]
    by (simp add: uvm_pte_batch_clear_ptes_def Let_def promote_membar_membar)
       (simp add: effect_def pending_def)
qed

section \<open>Calls\<close>

datatype pte_call =
  Write_pte uvm_gpu_phys_address u64
| Write_ptes uvm_gpu_phys_address "u64 list" u32 u32
| Clear_ptes uvm_gpu_phys_address u64 u32 u32

text \<open>Entries of a single write are 8 bytes; a buffer holds its entries, whole multiples of 8 bytes that
  fit inline data.\<close>

fun call_ok :: "pte_call \<Rightarrow> bool" where
  "call_ok (Write_pte _ _) = True"
| "call_ok (Write_ptes _ buf e n) =
     (8 dvd unat e \<and> 8 \<le> unat e \<and> unat e \<le> 32764 \<and> unat n * (unat e div 8) \<le> length buf)"
| "call_ok (Clear_ptes _ _ _ _) = True"

fun call_aperture :: "pte_call \<Rightarrow> uvm_aperture" where
  "call_aperture (Write_pte a _) = phys_aperture a"
| "call_aperture (Write_ptes a _ _ _) = phys_aperture a"
| "call_aperture (Clear_ptes a _ _ _) = phys_aperture a"

fun do_call :: "nat \<Rightarrow> pte_call \<Rightarrow> uvm_pte_batch \<Rightarrow> uvm_pte_batch option" where
  "do_call fuel (Write_pte a v) b = Some (uvm_pte_batch_write_pte b a v 8)"
| "do_call fuel (Write_ptes a buf e n) b = uvm_pte_batch_write_ptes fuel b a buf e n"
| "do_call fuel (Clear_ptes a v e n) b = Some (uvm_pte_batch_clear_ptes b a v e n)"

fun do_calls :: "nat \<Rightarrow> pte_call list \<Rightarrow> uvm_pte_batch \<Rightarrow> uvm_pte_batch option" where
  "do_calls fuel [] b = Some b"
| "do_calls fuel (c # cs) b = (case do_call fuel c b of None \<Rightarrow> None | Some b \<Rightarrow> do_calls fuel cs b)"

text \<open>What a call promises: its entries written at once.\<close>

fun call_spec :: "pte_call \<Rightarrow> gpu_mem \<Rightarrow> gpu_mem" where
  "call_spec (Write_pte a v) m = write_bytes (uvm_gpu_address_from_phys a) (bytes_of v) m"
| "call_spec (Write_ptes a buf e n) m =
     write_bytes (uvm_gpu_address_from_phys a) (concat (map bytes_of (take (unat n * (unat e div 8)) buf))) m"
| "call_spec (Clear_ptes a v e n) m =
     write_bytes (uvm_gpu_address_from_phys a) (concat (replicate (unat (e * n) div 8) (bytes_of v))) m"

definition calls_membar :: "uvm_membar \<Rightarrow> pte_call list \<Rightarrow> uvm_membar" where
  "calls_membar mb cs = (if \<exists>c \<in> set cs. call_aperture c = UVM_APERTURE_SYS then UVM_MEMBAR_SYS else mb)"

lemma do_call_spec:
  assumes "batch_ok b" "call_ok c" "2 ^ 32 \<le> fuel"
  shows "\<exists>b'. do_call fuel c b = Some b' \<and> batch_ok b' \<and> effect b' m = call_spec c (effect b m) \<and>
    batch_membar b' = (if call_aperture c = UVM_APERTURE_SYS then UVM_MEMBAR_SYS else batch_membar b)"
proof (cases c)
  case (Write_pte a v)
  then show ?thesis using write_pte_spec[OF assms(1), of a v m] by simp
next
  case (Write_ptes a buf e n)
  have "unat n < 2 ^ LENGTH(32)" by (rule unsigned_less)
  then have "unat n < 2 ^ 32" by simp
  then have "unat n < fuel" using assms(3) by linarith
  then show ?thesis
    using Write_ptes write_ptes_spec[OF assms(1), of e n buf fuel a m] assms(2)
    by (cases "phys_aperture a = UVM_APERTURE_SYS") auto
next
  case (Clear_ptes a v e n)
  then show ?thesis using clear_ptes_spec[OF assms(1), of a v e n m] by simp
qed

lemma do_calls_spec:
  "batch_ok b \<Longrightarrow> \<forall>c \<in> set cs. call_ok c \<Longrightarrow> 2 ^ 32 \<le> fuel \<Longrightarrow>
   \<exists>b'. do_calls fuel cs b = Some b' \<and> batch_ok b' \<and> effect b' m = fold call_spec cs (effect b m) \<and>
     batch_membar b' = calls_membar (batch_membar b) cs"
proof (induction cs arbitrary: b)
  case Nil
  then show ?case by (simp add: calls_membar_def)
next
  case (Cons c cs)
  obtain b1 where b1: "do_call fuel c b = Some b1" "batch_ok b1" "effect b1 m = call_spec c (effect b m)"
    "batch_membar b1 = (if call_aperture c = UVM_APERTURE_SYS then UVM_MEMBAR_SYS else batch_membar b)"
    using do_call_spec[OF Cons.prems(1), of c fuel m] Cons.prems by auto
  then show ?case using Cons.IH[OF b1(2)] Cons.prems by (auto simp: calls_membar_def)
qed


definition sample_ce_push :: ce_push where
  "sample_ce_push = \<lparr>cp_push = zero_push, cp_ops = []\<rparr>"

definition sample_calls :: "pte_call list" where
  "sample_calls = [Write_pte \<lparr>phys_address = 4096, phys_aperture = UVM_APERTURE_SYS\<rparr> 7,
     Write_ptes \<lparr>phys_address = 4104, phys_aperture = UVM_APERTURE_VID\<rparr> [1, 2] 16 1]"


lemma shift_eq_iff: "shift i d = shift j d \<longleftrightarrow> (of_nat i :: u64) = of_nat j"
proof
  assume "shift i d = shift j d"
  then have "gpu_address (shift i d) = gpu_address (shift j d)" by simp
  then show "(of_nat i :: u64) = of_nat j" by (simp add: shift_def)
qed (simp add: shift_def)

lemma write_bytes_inside:
  assumes "i < length bs" "length bs < 2 ^ 64"
  shows "write_bytes d bs m (shift i d) = bs ! i"
proof -
  have split: "bs = take i bs @ bs ! i # drop (Suc i) bs" using assms(1) by (rule id_take_nth_drop)
  have "shift j (shift (Suc i) d) \<noteq> shift i d" if "j < length (drop (Suc i) bs)" for j
  proof -
    have u: "unat (of_nat k :: u64) = k" if "k < 2 ^ 64" for k using that by (simp add: unat_of_nat)
    have "j + Suc i < 2 ^ 64" "i < 2 ^ 64" using that assms by auto
    from u[OF this(1)] u[OF this(2)] have "(of_nat (j + Suc i) :: u64) \<noteq> of_nat i"
      by (metis add_Suc_right less_add_Suc2 less_irrefl)
    then show ?thesis by (simp only: shift_simps shift_eq_iff not_False_eq_True)
  qed
  then have "write_bytes (shift (Suc i) d) (drop (Suc i) bs) m' (shift i d) = m' (shift i d)" for m'
    by (intro write_bytes_outside) blast
  then show ?thesis
    by (subst split) (simp add: write_bytes_append assms(1) min_absorb2 less_imp_le)
qed

definition wide_writes :: "uvm_gpu_phys_address \<Rightarrow> (nat \<Rightarrow> u64) \<Rightarrow> nat \<Rightarrow> uvm_pte_batch \<Rightarrow> uvm_pte_batch" where
  "wide_writes a v n b = fold (\<lambda>i b. uvm_pte_batch_write_pte b
     (a\<lparr>phys_address := phys_address a + 16 * of_nat i\<rparr>) (v i) 16) [0..<n] b"

definition wide_batch :: "ce_push \<Rightarrow> uvm_gpu_phys_address \<Rightarrow> u64 list \<Rightarrow> u32 \<Rightarrow> uvm_pte_batch" where
  "wide_batch push a q n = promote_membar (phys_aperture a)
     ((uvm_pte_batch_begin push)\<lparr>pte_first_address := a, pte_entry_size := 16, pte_bits_queue := q, pte_count := n\<rparr>)"

lemma replicate_4: "replicate 4 x = [x, x, x, x]"
  by (simp add: numeral_eq_Suc)

lemma wide_first:
  "uvm_pte_batch_write_pte (uvm_pte_batch_begin push) a v 16 = wide_batch push a [v, 0, 0, 0] 1"
  by (simp add: uvm_pte_batch_write_pte_def uvm_pte_batch_begin_def wide_batch_def promote_membar_def eq_phys Let_def
      uvm_pte_batch_flush_ptes_def UVM_PTE_BATCH_MAX_PTES_def uvm_pte_batch_write_consecutive_def max_size
      replicate_4)

lemma wide_next:
  assumes "0 < n" "n < 4" "length q = 4"
  shows "uvm_pte_batch_write_pte (wide_batch push a q (of_nat n)) (a\<lparr>phys_address := phys_address a + 16 * of_nat n\<rparr>) v 16 =
    wide_batch push a (q[n := v]) (of_nat n + 1)"
proof -
  consider "n = 1" | "n = 2" | "n = 3" using assms(1,2) by linarith
  then show ?thesis
    by cases (simp_all add: uvm_pte_batch_write_pte_def uvm_pte_batch_begin_def wide_batch_def promote_membar_def eq_phys Let_def
      UVM_PTE_BATCH_MAX_PTES_def uvm_pte_batch_write_consecutive_def max_size)
qed

text \<open>Five writes: the fifth finds the queue full and goes inline.\<close>

lemma wide_five:
  "wide_writes a v 5 (uvm_pte_batch_begin push) = (wide_batch push a [v 0, v 1, v 2, v 3] 5)
     \<lparr>inlining := True, inline_data := concat (map (\<lambda>i. bytes_of (v i) @ replicate 8 0) [0..<5])\<rparr>"
proof -
  have up: "[0..<5] = [0, 1, 2, 3, 4::nat]" by (simp add: numeral_eq_Suc)
  let ?a = "\<lambda>i. a\<lparr>phys_address := phys_address a + 16 * of_nat i\<rparr>"
  have a0: "?a 0 = a" by simp
  have w4: "uvm_pte_batch_write_pte (wide_batch push a q 4) (?a 4) x 16 = (wide_batch push a q 5)
      \<lparr>inlining := True, inline_data := concat (map (\<lambda>x. bytes_of x @ replicate 8 0) q) @ bytes_of x @ replicate 8 0\<rparr>"
    if "length q = 4" for q x
  proof -
    have "fold uvm_pte_batch_write_consecutive_inline xs b =
        b\<lparr>inline_data := inline_data b @ concat (map (\<lambda>x. bytes_of x @ replicate 8 0) xs)\<rparr>"
      if "pte_entry_size b = 16" for xs b
      using that by (induction xs arbitrary: b) (simp_all add: uvm_pte_batch_write_consecutive_inline_def)
    then show ?thesis
      using that by (simp add: uvm_pte_batch_write_pte_def uvm_pte_batch_begin_def wide_batch_def promote_membar_def eq_phys
          Let_def UVM_PTE_BATCH_MAX_PTES_def uvm_pte_batch_write_consecutive_def max_size pte_batch_begin_inline_def
          uvm_pte_batch_write_consecutive_inline_def)
  qed
  note n1 = wide_next[of 1 "[v 0, 0, 0, 0]" push a "v 1"]
    and n2 = wide_next[of 2 "[v 0, v 1, 0, 0]" push a "v 2"]
    and n3 = wide_next[of 3 "[v 0, v 1, v 2, 0]" push a "v 3"]
  show ?thesis
    using n1 n2 n3 w4[of "[v 0, v 1, v 2, v 3]" "v 4"]
    by (simp add: wide_writes_def up wide_first)
qed

text \<open>
  The other half of a 16-byte entry. An entry whose size is 16 and whose low half alone is given is
  written as 8 bytes while it is queued, but as 16, the high half zero, once the batch has gone
  inline: a single write leaves the high half alone, while the fifth of consecutive writes makes
  all five clear it.
\<close>

theorem wide_pte_high_half:
  assumes "cp_ops push = []" "high = shift 8 (uvm_gpu_address_from_phys a)"
  shows "run_ops (cp_ops (batch_push (uvm_pte_batch_end (wide_writes a v 1 (uvm_pte_batch_begin push))))) m high = m high \<and>
    run_ops (cp_ops (batch_push (uvm_pte_batch_end (wide_writes a v 5 (uvm_pte_batch_begin push))))) m high = 0"
proof
  let ?d = "uvm_gpu_address_from_phys a"
  have e: "run_ops (cp_ops (batch_push (uvm_pte_batch_end b))) m = run_ops (cp_ops (batch_push (uvm_pte_batch_flush_ptes b))) m" for b
    by (simp add: uvm_pte_batch_end_def uvm_hal_wfi_membar_def uvm_hal_membar_def Let_def split: uvm_membar.split)
  have w1: "wide_writes a v 1 (uvm_pte_batch_begin push) = wide_batch push a [v 0, 0, 0, 0] 1"
    using wide_first[of push a "v 0"] by (simp add: wide_writes_def)
  have ok1: "batch_ok (wide_batch push a [v 0, 0, 0, 0] 1)" by (simp add: batch_ok_def wide_batch_def uvm_pte_batch_begin_def)
  have "\<forall>i < 8. shift i ?d \<noteq> high"
  proof (intro allI impI)
    fix i :: nat assume "i < 8"
    then have "unat (of_nat i :: u64) = i" by (simp add: unat_of_nat)
    with \<open>i < 8\<close> have "(of_nat i :: u64) \<noteq> of_nat 8" by force
    then show "shift i ?d \<noteq> high" by (simp only: assms(2) shift_eq_iff not_False_eq_True)
  qed
  then have "write_bytes ?d (bytes_of (v 0)) m high = m high" by (intro write_bytes_outside) simp
  then show "run_ops (cp_ops (batch_push (uvm_pte_batch_end (wide_writes a v 1 (uvm_pte_batch_begin push))))) m high = m high"
    using flush_spec[OF ok1, of m] assms(1)
    by (simp add: e w1[simplified]) (simp add: effect_def pending_def wide_batch_def uvm_pte_batch_begin_def)
  let ?data = "concat (map (\<lambda>i. bytes_of (v i) @ replicate 8 0) [0..<5])"
  have up: "[0..<5] = [0, 1, 2, 3, 4::nat]" by (simp add: numeral_eq_Suc)
  have ok5: "batch_ok (wide_writes a v 5 (uvm_pte_batch_begin push))"
    unfolding wide_five by (simp add: batch_ok_def wide_batch_def uvm_pte_batch_begin_def up)
  have "write_bytes ?d ?data m (shift 8 ?d) = ?data ! 8" by (rule write_bytes_inside) (simp_all add: up)
  also have "\<dots> = 0" by (simp add: up nth_append)
  finally show "run_ops (cp_ops (batch_push (uvm_pte_batch_end (wide_writes a v 5 (uvm_pte_batch_begin push))))) m high = 0"
  proof -
    assume zero: "write_bytes ?d ?data m (shift 8 ?d) = 0"
    have "effect (wide_writes a v 5 (uvm_pte_batch_begin push)) m = write_bytes ?d ?data m"
      unfolding wide_five using assms(1) by (simp add: effect_def pending_def wide_batch_def uvm_pte_batch_begin_def)
    then show ?thesis using flush_spec[OF ok5, of m] zero assms(2) by (simp only: e)
  qed
qed

lemma wide_pte_high_half_witness:
  "let a = \<lparr>phys_address = 4096, phys_aperture = UVM_APERTURE_VID\<rparr>; high = shift 8 (uvm_gpu_address_from_phys a)
   in run_ops (cp_ops (batch_push (uvm_pte_batch_end (wide_writes a (\<lambda>_. 1) 1 (uvm_pte_batch_begin sample_ce_push))))) (\<lambda>_. 5) high = 5"
  using wide_pte_high_half[of sample_ce_push "shift 8 (uvm_gpu_address_from_phys \<lparr>phys_address = 4096, phys_aperture = UVM_APERTURE_VID\<rparr>)"
      "\<lparr>phys_address = 4096, phys_aperture = UVM_APERTURE_VID\<rparr>" "\<lambda>_. 1" "\<lambda>_. 5"]
  by (simp add: sample_ce_push_def)

end
