(* ===== verification/Hw_Fields.thy ===== *)
theory Hw_Fields
  imports UVM_Prelude
begin

text \<open>
  The bit field macros of \<^verbatim>\<open>nvmisc.h\<close> and \<^verbatim>\<open>uvm8_push_macros.h\<close>. A field \<^verbatim>\<open>e:b\<close> of a hardware
  reference header is the pair \<open>(e, b)\<close>; positions are taken modulo the width of the word. The lemmas
  read a field off a value put together from fields.
\<close>

type_synonym hw_field = "nat \<times> nat"

section \<open>Shifting out zero bits\<close>

lemma push_drop_bit: "2 ^ n dvd unat a \<Longrightarrow> push_bit n (drop_bit n a) = (a :: 'a :: len word)"
proof -
  assume "2 ^ n dvd unat a"
  then obtain q where q: "unat a = push_bit n q" by (auto simp: push_bit_eq_mult elim!: dvdE)
  have "n \<le> i" if "bit a i" for i
  proof -
    have "bit (unat a) i" using that by (simp add: bit_unsigned_iff bit_imp_le_length)
    then show ?thesis by (simp only: q bit_push_bit_iff)
  qed
  then show ?thesis by (intro bit_word_eqI) (auto simp: bit_simps)
qed

lemma drop_bit_lt: "unat (a :: 'a :: len word) < 2 ^ (n + k) \<Longrightarrow> unat (drop_bit k a) < 2 ^ n"
  by (simp only: unat_drop_bit_eq) (simp add: drop_bit_eq_div div_less_iff_less_mult power_add)

lemma unat_ucast_up: "unat (ucast (x :: u32) :: u64) = unat x"
  by (simp add: unsigned_ucast_eq take_bit_nat_eq_self_iff order_less_le_trans[OF unsigned_less])

section \<open>64-bit fields\<close>

definition DRF_SHIFT64 :: "hw_field \<Rightarrow> nat" where
  "DRF_SHIFT64 drf = snd drf mod 64"

definition DRF_MASK64 :: "hw_field \<Rightarrow> u64" where
  "DRF_MASK64 drf = drop_bit (63 - fst drf mod 64 + snd drf mod 64) (- 1)"

definition DRF_SHIFTMASK64 :: "hw_field \<Rightarrow> u64" where
  "DRF_SHIFTMASK64 drf = push_bit (DRF_SHIFT64 drf) (DRF_MASK64 drf)"

definition DRF_DEF64 :: "hw_field \<Rightarrow> u64 \<Rightarrow> u64" where
  "DRF_DEF64 drf c = push_bit (DRF_SHIFT64 drf) c"

definition DRF_NUM64 :: "hw_field \<Rightarrow> u64 \<Rightarrow> u64" where
  "DRF_NUM64 drf n = push_bit (DRF_SHIFT64 drf) (n AND DRF_MASK64 drf)"

definition DRF_VAL64 :: "hw_field \<Rightarrow> u64 \<Rightarrow> u64" where
  "DRF_VAL64 drf v = drop_bit (DRF_SHIFT64 drf) v AND DRF_MASK64 drf"

definition UVM_FLD_SET_DRF64 :: "hw_field \<Rightarrow> u64 \<Rightarrow> u64 \<Rightarrow> u64" where
  "UVM_FLD_SET_DRF64 drf c v = (v AND NOT (DRF_SHIFTMASK64 drf)) OR DRF_DEF64 drf c"

lemma bit_DRF_MASK64 [simp]:
  "bit (DRF_MASK64 (e, b)) i \<longleftrightarrow> i \<le> e mod 64 - b mod 64" if "b mod 64 \<le> e mod 64"
proof -
  have "e mod 64 < 64" by simp
  then show ?thesis using that by (auto simp: DRF_MASK64_def bit_simps)
qed

lemma bit_DRF_NUM64:
  "bit (DRF_NUM64 (e, b) n) i \<longleftrightarrow> b mod 64 \<le> i \<and> i \<le> e mod 64 \<and> bit n (i - b mod 64)" if "b mod 64 \<le> e mod 64"
proof -
  have "e mod 64 < 64" by simp
  then show ?thesis using that by (auto simp: DRF_NUM64_def DRF_SHIFT64_def bit_simps)
qed

lemma bit_DRF_VAL64:
  "bit (DRF_VAL64 (e, b) v) i \<longleftrightarrow> i \<le> e mod 64 - b mod 64 \<and> bit v (i + b mod 64)" if "b mod 64 \<le> e mod 64"
  using that by (auto simp: DRF_VAL64_def DRF_SHIFT64_def bit_simps add.commute)

text \<open>Reading the field just written, another field, and a combination.\<close>

lemma DRF_VAL64_NUM64_same:
  "b mod 64 \<le> e mod 64 \<Longrightarrow> DRF_VAL64 (e, b) (DRF_NUM64 (e, b) n) = n AND DRF_MASK64 (e, b)"
  by (rule bit_word_eqI) (auto simp: bit_DRF_VAL64 bit_DRF_NUM64 bit_simps)

lemma DRF_VAL64_NUM64_other:
  assumes "b mod 64 \<le> e mod 64" "b' mod 64 \<le> e' mod 64" "e mod 64 < b' mod 64 \<or> e' mod 64 < b mod 64"
  shows "DRF_VAL64 (e, b) (DRF_NUM64 (e', b') n) = 0"
  by (rule bit_word_eqI) (use assms in \<open>auto simp: bit_DRF_VAL64 bit_DRF_NUM64 bit_simps\<close>)

lemma DRF_VAL64_or [simp]: "DRF_VAL64 f (x OR y) = DRF_VAL64 f x OR DRF_VAL64 f y"
  by (rule bit_word_eqI) (auto simp: DRF_VAL64_def bit_simps)

lemma DRF_VAL64_0 [simp]: "DRF_VAL64 f 0 = 0"
  by (simp add: DRF_VAL64_def)

lemma bit_DRF_SHIFTMASK64:
  "bit (DRF_SHIFTMASK64 (e, b)) i \<longleftrightarrow> b mod 64 \<le> i \<and> i \<le> e mod 64" if "b mod 64 \<le> e mod 64"
proof -
  have "e mod 64 < 64" by simp
  then show ?thesis using that by (auto simp: DRF_SHIFTMASK64_def DRF_SHIFT64_def bit_simps)
qed

lemma DRF_VAL64_set_other:
  assumes "b mod 64 \<le> e mod 64" "b' mod 64 \<le> e' mod 64" "e mod 64 < b' mod 64 \<or> e' mod 64 < b mod 64"
  shows "DRF_VAL64 (e, b) (v AND NOT (DRF_SHIFTMASK64 (e', b'))) = DRF_VAL64 (e, b) v"
proof (rule bit_word_eqI)
  fix i
  have m: "e mod 64 < 64" by simp
  have "i \<le> e mod 64 - b mod 64 \<Longrightarrow> \<not> (b' mod 64 \<le> i + b mod 64 \<and> i + b mod 64 \<le> e' mod 64)"
    using assms by linarith
  then show "bit (DRF_VAL64 (e, b) (v AND NOT (DRF_SHIFTMASK64 (e', b')))) i = bit (DRF_VAL64 (e, b) v) i"
    using m assms(1,2) by (simp only: bit_DRF_VAL64 bit_and_iff bit_not_iff bit_DRF_SHIFTMASK64) (auto dest: bit_imp_le_length)
qed

lemma DRF_VAL64_set_same:
  assumes "b mod 64 \<le> e mod 64"
  shows "DRF_VAL64 (e, b) (v AND NOT (DRF_SHIFTMASK64 (e, b))) = 0"
proof (rule bit_word_eqI)
  fix i
  have m: "e mod 64 < 64" by simp
  have "i \<le> e mod 64 - b mod 64 \<Longrightarrow> b mod 64 \<le> i + b mod 64 \<and> i + b mod 64 \<le> e mod 64"
    using assms by linarith
  then show "bit (DRF_VAL64 (e, b) (v AND NOT (DRF_SHIFTMASK64 (e, b)))) i = bit (0 :: u64) i"
    using m assms by (simp only: bit_DRF_VAL64 bit_and_iff bit_not_iff bit_DRF_SHIFTMASK64) auto
qed

lemma and_DRF_MASK64:
  assumes "b mod 64 \<le> e mod 64" "unat n < 2 ^ Suc (e mod 64 - b mod 64)"
  shows "n AND DRF_MASK64 (e, b) = n"
proof (rule bit_word_eqI)
  fix i
  have "i \<le> e mod 64 - b mod 64" if "bit n i"
  proof (rule ccontr)
    assume "\<not> ?thesis"
    then have "(2::nat) ^ Suc (e mod 64 - b mod 64) \<le> 2 ^ i" by (intro power_increasing) auto
    also have "\<dots> \<le> unat n"
    proof -
      have "bit (unat n) i" using that by (simp add: bit_unsigned_iff bit_imp_le_length)
      then have "odd (unat n div 2 ^ i)" by (simp add: bit_iff_odd)
      then have "1 \<le> unat n div 2 ^ i" by (cases "unat n div 2 ^ i") auto
      then show ?thesis by (simp add: Suc_le_eq div_greater_zero_iff)
    qed
    finally show False using assms(2) by simp
  qed
  then show "bit (n AND DRF_MASK64 (e, b)) i = bit n i" using assms(1) by (auto simp: bit_simps)
qed

text \<open>A constant that fits the field is written as a number is.\<close>

lemma DRF_DEF64_NUM:
  assumes "b mod 64 \<le> e mod 64" "unat c < 2 ^ Suc (e mod 64 - b mod 64)"
  shows "DRF_DEF64 (e, b) c = DRF_NUM64 (e, b) c"
  using and_DRF_MASK64[OF assms] by (simp add: DRF_DEF64_def DRF_NUM64_def)

lemmas drf64 = DRF_DEF64_NUM DRF_VAL64_NUM64_same DRF_VAL64_NUM64_other and_DRF_MASK64


section \<open>32-bit fields\<close>

definition DRF_SHIFT :: "hw_field \<Rightarrow> nat" where
  "DRF_SHIFT drf = snd drf mod 32"

definition DRF_MASK :: "hw_field \<Rightarrow> u32" where
  "DRF_MASK drf = drop_bit (31 - fst drf mod 32 + snd drf mod 32) (- 1)"

definition DRF_SHIFTMASK :: "hw_field \<Rightarrow> u32" where
  "DRF_SHIFTMASK drf = push_bit (DRF_SHIFT drf) (DRF_MASK drf)"

definition DRF_DEF :: "hw_field \<Rightarrow> u32 \<Rightarrow> u32" where
  "DRF_DEF drf c = push_bit (DRF_SHIFT drf) c"

definition DRF_NUM :: "hw_field \<Rightarrow> u32 \<Rightarrow> u32" where
  "DRF_NUM drf n = push_bit (DRF_SHIFT drf) (n AND DRF_MASK drf)"

definition DRF_VAL :: "hw_field \<Rightarrow> u32 \<Rightarrow> u32" where
  "DRF_VAL drf v = drop_bit (DRF_SHIFT drf) v AND DRF_MASK drf"

definition FLD_SET_DRF :: "hw_field \<Rightarrow> u32 \<Rightarrow> u32 \<Rightarrow> u32" where
  "FLD_SET_DRF drf c v = (v AND NOT (DRF_SHIFTMASK drf)) OR DRF_DEF drf c"

lemma bit_DRF_MASK [simp]:
  "bit (DRF_MASK (e, b)) i \<longleftrightarrow> i \<le> e mod 32 - b mod 32" if "b mod 32 \<le> e mod 32"
proof -
  have "e mod 32 < 32" by simp
  then show ?thesis using that by (auto simp: DRF_MASK_def bit_simps)
qed

lemma bit_DRF_NUM:
  "bit (DRF_NUM (e, b) n) i \<longleftrightarrow> b mod 32 \<le> i \<and> i \<le> e mod 32 \<and> bit n (i - b mod 32)" if "b mod 32 \<le> e mod 32"
proof -
  have "e mod 32 < 32" by simp
  then show ?thesis using that by (auto simp: DRF_NUM_def DRF_SHIFT_def bit_simps)
qed

lemma bit_DRF_VAL:
  "bit (DRF_VAL (e, b) v) i \<longleftrightarrow> i \<le> e mod 32 - b mod 32 \<and> bit v (i + b mod 32)" if "b mod 32 \<le> e mod 32"
  using that by (auto simp: DRF_VAL_def DRF_SHIFT_def bit_simps add.commute)

lemma DRF_VAL_NUM64_same:
  "b mod 32 \<le> e mod 32 \<Longrightarrow> DRF_VAL (e, b) (DRF_NUM (e, b) n) = n AND DRF_MASK (e, b)"
  by (rule bit_word_eqI) (auto simp: bit_DRF_VAL bit_DRF_NUM bit_simps)

lemma DRF_VAL_NUM64_other:
  assumes "b mod 32 \<le> e mod 32" "b' mod 32 \<le> e' mod 32" "e mod 32 < b' mod 32 \<or> e' mod 32 < b mod 32"
  shows "DRF_VAL (e, b) (DRF_NUM (e', b') n) = 0"
  by (rule bit_word_eqI) (use assms in \<open>auto simp: bit_DRF_VAL bit_DRF_NUM bit_simps\<close>)

lemma DRF_VAL_or [simp]: "DRF_VAL f (x OR y) = DRF_VAL f x OR DRF_VAL f y"
  by (rule bit_word_eqI) (auto simp: DRF_VAL_def bit_simps)

lemma DRF_VAL_0 [simp]: "DRF_VAL f 0 = 0"
  by (simp add: DRF_VAL_def)

lemma bit_DRF_SHIFTMASK:
  "bit (DRF_SHIFTMASK (e, b)) i \<longleftrightarrow> b mod 32 \<le> i \<and> i \<le> e mod 32" if "b mod 32 \<le> e mod 32"
proof -
  have "e mod 32 < 32" by simp
  then show ?thesis using that by (auto simp: DRF_SHIFTMASK_def DRF_SHIFT_def bit_simps)
qed

lemma DRF_VAL_set_other:
  assumes "b mod 32 \<le> e mod 32" "b' mod 32 \<le> e' mod 32" "e mod 32 < b' mod 32 \<or> e' mod 32 < b mod 32"
  shows "DRF_VAL (e, b) (v AND NOT (DRF_SHIFTMASK (e', b'))) = DRF_VAL (e, b) v"
proof (rule bit_word_eqI)
  fix i
  have m: "e mod 32 < 32" by simp
  have "i \<le> e mod 32 - b mod 32 \<Longrightarrow> \<not> (b' mod 32 \<le> i + b mod 32 \<and> i + b mod 32 \<le> e' mod 32)"
    using assms by linarith
  then show "bit (DRF_VAL (e, b) (v AND NOT (DRF_SHIFTMASK (e', b')))) i = bit (DRF_VAL (e, b) v) i"
    using m assms(1,2) by (simp only: bit_DRF_VAL bit_and_iff bit_not_iff bit_DRF_SHIFTMASK) (auto dest: bit_imp_le_length)
qed

lemma DRF_VAL_set_same:
  assumes "b mod 32 \<le> e mod 32"
  shows "DRF_VAL (e, b) (v AND NOT (DRF_SHIFTMASK (e, b))) = 0"
proof (rule bit_word_eqI)
  fix i
  have m: "e mod 32 < 32" by simp
  have "i \<le> e mod 32 - b mod 32 \<Longrightarrow> b mod 32 \<le> i + b mod 32 \<and> i + b mod 32 \<le> e mod 32"
    using assms by linarith
  then show "bit (DRF_VAL (e, b) (v AND NOT (DRF_SHIFTMASK (e, b)))) i = bit (0 :: u32) i"
    using m assms by (simp only: bit_DRF_VAL bit_and_iff bit_not_iff bit_DRF_SHIFTMASK) auto
qed

lemma and_DRF_MASK:
  assumes "b mod 32 \<le> e mod 32" "unat n < 2 ^ Suc (e mod 32 - b mod 32)"
  shows "n AND DRF_MASK (e, b) = n"
proof (rule bit_word_eqI)
  fix i
  have "i \<le> e mod 32 - b mod 32" if "bit n i"
  proof (rule ccontr)
    assume "\<not> ?thesis"
    then have "(2::nat) ^ Suc (e mod 32 - b mod 32) \<le> 2 ^ i" by (intro power_increasing) auto
    also have "\<dots> \<le> unat n"
    proof -
      have "bit (unat n) i" using that by (simp add: bit_unsigned_iff bit_imp_le_length)
      then have "odd (unat n div 2 ^ i)" by (simp add: bit_iff_odd)
      then have "1 \<le> unat n div 2 ^ i" by (cases "unat n div 2 ^ i") auto
      then show ?thesis by (simp add: Suc_le_eq div_greater_zero_iff)
    qed
    finally show False using assms(2) by simp
  qed
  then show "bit (n AND DRF_MASK (e, b)) i = bit n i" using assms(1) by (auto simp: bit_simps)
qed

lemma DRF_DEF_NUM:
  assumes "b mod 32 \<le> e mod 32" "unat c < 2 ^ Suc (e mod 32 - b mod 32)"
  shows "DRF_DEF (e, b) c = DRF_NUM (e, b) c"
  using and_DRF_MASK[OF assms] by (simp add: DRF_DEF_def DRF_NUM_def)

lemmas drf32 = DRF_DEF_NUM DRF_VAL_NUM64_same DRF_VAL_NUM64_other and_DRF_MASK


end
