(* ===== verification/Mmu_Format.thy ===== *)
theory Mmu_Format
  imports Gpu_Types Hw_Fields
begin

text \<open>
  The page table formats of the GPUs: \<^verbatim>\<open>uvm8_pascal_mmu.c\<close> and \<^verbatim>\<open>uvm8_kepler_mmu.c\<close> (which Maxwell
  shares), with the fields of their \<^verbatim>\<open>dev_mmu.h\<close>. Each is a record of functions, \<^verbatim>\<open>uvm_mmu_mode_hal_t\<close>.
  Shown: the bits of entries decode to what they were made from, and the geometry of each format
  (index bits, depths, sizes of tables) is coherent, stated as a locale the formats interpret.
\<close>

definition UVM_PAGE_SIZE_4K :: u32 where "UVM_PAGE_SIZE_4K = 0x1000"

definition UVM_PAGE_SIZE_64K :: u32 where "UVM_PAGE_SIZE_64K = 0x10000"

definition UVM_PAGE_SIZE_128K :: u32 where "UVM_PAGE_SIZE_128K = 0x20000"

definition UVM_PAGE_SIZE_2M :: u32 where "UVM_PAGE_SIZE_2M = 0x200000"

definition UVM_PAGE_SIZE_AGNOSTIC :: u32 where "UVM_PAGE_SIZE_AGNOSTIC = 0"

datatype uvm_prot = UVM_PROT_NONE | UVM_PROT_READ_ONLY | UVM_PROT_READ_WRITE | UVM_PROT_READ_WRITE_ATOMIC

text \<open>The handle, a page of the kernel or a chunk of GPU memory, is only passed on.\<close>

record uvm_mmu_page_table_alloc =
  alloc_addr :: uvm_gpu_phys_address
  alloc_size :: u64
  alloc_handle :: nat

record uvm_mmu_mode_hal =
  hal_make_pte :: "uvm_aperture \<Rightarrow> u64 \<Rightarrow> uvm_prot \<Rightarrow> bool \<Rightarrow> u32 \<Rightarrow> u64"
  hal_make_sked_reflected_pte :: u64
  hal_unmapped_pte :: "u32 \<Rightarrow> u64"
  hal_poisoned_pte :: "u32 \<Rightarrow> u64"
  hal_make_pde :: "uvm_mmu_page_table_alloc option list \<Rightarrow> u32 \<Rightarrow> u64 list"
  hal_entry_size :: "u32 \<Rightarrow> u64"
  hal_index_bits :: "u32 \<Rightarrow> u32 \<Rightarrow> u32"
  hal_entries_per_index :: "u32 \<Rightarrow> u32"
  hal_entry_offset :: "u32 \<Rightarrow> u32 \<Rightarrow> u64"
  hal_num_va_bits :: u32
  hal_allocation_size :: "u32 \<Rightarrow> u32 \<Rightarrow> u64"
  hal_page_table_depth :: "u32 \<Rightarrow> u32"
  hal_page_sizes :: u32

fun aperture_num :: "uvm_aperture \<Rightarrow> u32" where
  "aperture_num (UVM_APERTURE_PEER i) = ucast i"
| "aperture_num UVM_APERTURE_SYS = 9"
| "aperture_num UVM_APERTURE_VID = 10"
| "aperture_num UVM_APERTURE_DEFAULT = 11"

definition UVM_APERTURE_PEER_ID :: "uvm_aperture \<Rightarrow> u32" where
  "UVM_APERTURE_PEER_ID aperture = aperture_num aperture"

definition is_peer_aperture :: "uvm_aperture \<Rightarrow> bool" where
  "is_peer_aperture aperture \<longleftrightarrow> aperture_num aperture \<le> 7"

definition MMU_BIG :: u64 where "MMU_BIG = 0"

definition MMU_SMALL :: u64 where "MMU_SMALL = 1"

section \<open>Pascal\<close>

subsection \<open>Fields\<close>

abbreviation NV_MMU_VER2_PDE_IS_PDE :: hw_field where "NV_MMU_VER2_PDE_IS_PDE \<equiv> (0, 0)"
abbreviation NV_MMU_VER2_PDE_APERTURE :: hw_field where "NV_MMU_VER2_PDE_APERTURE \<equiv> (2, 1)"
abbreviation NV_MMU_VER2_PDE_VOL :: hw_field where "NV_MMU_VER2_PDE_VOL \<equiv> (3, 3)"
abbreviation NV_MMU_VER2_PDE_ADDRESS_SYS :: hw_field where "NV_MMU_VER2_PDE_ADDRESS_SYS \<equiv> (53, 8)"
abbreviation NV_MMU_VER2_PDE_ADDRESS_VID :: hw_field where "NV_MMU_VER2_PDE_ADDRESS_VID \<equiv> (32, 8)"
abbreviation NV_MMU_VER2_DUAL_PDE_IS_PDE :: hw_field where "NV_MMU_VER2_DUAL_PDE_IS_PDE \<equiv> (0, 0)"
abbreviation NV_MMU_VER2_DUAL_PDE_APERTURE_BIG :: hw_field where "NV_MMU_VER2_DUAL_PDE_APERTURE_BIG \<equiv> (2, 1)"
abbreviation NV_MMU_VER2_DUAL_PDE_VOL_BIG :: hw_field where "NV_MMU_VER2_DUAL_PDE_VOL_BIG \<equiv> (3, 3)"
abbreviation NV_MMU_VER2_DUAL_PDE_ADDRESS_BIG_SYS :: hw_field where "NV_MMU_VER2_DUAL_PDE_ADDRESS_BIG_SYS \<equiv> (53, 4)"
abbreviation NV_MMU_VER2_DUAL_PDE_ADDRESS_BIG_VID :: hw_field where "NV_MMU_VER2_DUAL_PDE_ADDRESS_BIG_VID \<equiv> (32, 4)"
abbreviation NV_MMU_VER2_DUAL_PDE_APERTURE_SMALL :: hw_field where "NV_MMU_VER2_DUAL_PDE_APERTURE_SMALL \<equiv> (66, 65)"
abbreviation NV_MMU_VER2_DUAL_PDE_VOL_SMALL :: hw_field where "NV_MMU_VER2_DUAL_PDE_VOL_SMALL \<equiv> (67, 67)"
abbreviation NV_MMU_VER2_DUAL_PDE_ADDRESS_SMALL_SYS :: hw_field where "NV_MMU_VER2_DUAL_PDE_ADDRESS_SMALL_SYS \<equiv> (117, 72)"
abbreviation NV_MMU_VER2_DUAL_PDE_ADDRESS_SMALL_VID :: hw_field where "NV_MMU_VER2_DUAL_PDE_ADDRESS_SMALL_VID \<equiv> (96, 72)"
abbreviation NV_MMU_VER2_PTE_VALID :: hw_field where "NV_MMU_VER2_PTE_VALID \<equiv> (0, 0)"
abbreviation NV_MMU_VER2_PTE_APERTURE :: hw_field where "NV_MMU_VER2_PTE_APERTURE \<equiv> (2, 1)"
abbreviation NV_MMU_VER2_PTE_VOL :: hw_field where "NV_MMU_VER2_PTE_VOL \<equiv> (3, 3)"
abbreviation NV_MMU_VER2_PTE_ENCRYPTED :: hw_field where "NV_MMU_VER2_PTE_ENCRYPTED \<equiv> (4, 4)"
abbreviation NV_MMU_VER2_PTE_PRIVILEGE :: hw_field where "NV_MMU_VER2_PTE_PRIVILEGE \<equiv> (5, 5)"
abbreviation NV_MMU_VER2_PTE_READ_ONLY :: hw_field where "NV_MMU_VER2_PTE_READ_ONLY \<equiv> (6, 6)"
abbreviation NV_MMU_VER2_PTE_ATOMIC_DISABLE :: hw_field where "NV_MMU_VER2_PTE_ATOMIC_DISABLE \<equiv> (7, 7)"
abbreviation NV_MMU_VER2_PTE_ADDRESS_SYS :: hw_field where "NV_MMU_VER2_PTE_ADDRESS_SYS \<equiv> (53, 8)"
abbreviation NV_MMU_VER2_PTE_ADDRESS_VID :: hw_field where "NV_MMU_VER2_PTE_ADDRESS_VID \<equiv> (32, 8)"
abbreviation NV_MMU_VER2_PTE_ADDRESS_VID_PEER :: hw_field where "NV_MMU_VER2_PTE_ADDRESS_VID_PEER \<equiv> (35, 33)"
abbreviation NV_MMU_VER2_PTE_COMPTAGLINE :: hw_field where "NV_MMU_VER2_PTE_COMPTAGLINE \<equiv> (53, 36)"
abbreviation NV_MMU_VER2_PTE_KIND :: hw_field where "NV_MMU_VER2_PTE_KIND \<equiv> (63, 56)"

subsection \<open>Entries\<close>

definition entries_per_index_pascal :: "u32 \<Rightarrow> u32" where
  "entries_per_index_pascal depth = (if depth = 3 then 2 else 1)"

definition entry_offset_pascal :: "u32 \<Rightarrow> u32 \<Rightarrow> u64" where
  "entry_offset_pascal depth page_size =
     (if page_size = UVM_PAGE_SIZE_4K \<and> depth = 3 then MMU_SMALL else MMU_BIG)"

definition single_pde_pascal :: "uvm_mmu_page_table_alloc option \<Rightarrow> u64" where
  "single_pde_pascal phys_alloc =
     (case phys_alloc of
        None \<Rightarrow> 0
      | Some a \<Rightarrow>
          let address = drop_bit 12 (phys_address (alloc_addr a));
              pde_bits = DRF_DEF64 NV_MMU_VER2_PDE_IS_PDE 0 OR DRF_DEF64 NV_MMU_VER2_PDE_VOL 1
          in (case phys_aperture (alloc_addr a) of
                UVM_APERTURE_SYS \<Rightarrow> pde_bits OR DRF_DEF64 NV_MMU_VER2_PDE_APERTURE 2 OR
                  DRF_NUM64 NV_MMU_VER2_PDE_ADDRESS_SYS address
              | UVM_APERTURE_VID \<Rightarrow> pde_bits OR DRF_DEF64 NV_MMU_VER2_PDE_APERTURE 1 OR
                  DRF_NUM64 NV_MMU_VER2_PDE_ADDRESS_VID address
              | _ \<Rightarrow> pde_bits))"

definition big_half_pde_pascal :: "uvm_mmu_page_table_alloc option \<Rightarrow> u64" where
  "big_half_pde_pascal phys_alloc =
     (case phys_alloc of
        None \<Rightarrow> 0
      | Some a \<Rightarrow>
          let address = drop_bit 8 (phys_address (alloc_addr a));
              pde_bits = DRF_DEF64 NV_MMU_VER2_DUAL_PDE_VOL_BIG 1
          in (case phys_aperture (alloc_addr a) of
                UVM_APERTURE_SYS \<Rightarrow> pde_bits OR DRF_DEF64 NV_MMU_VER2_DUAL_PDE_APERTURE_BIG 2 OR
                  DRF_NUM64 NV_MMU_VER2_DUAL_PDE_ADDRESS_BIG_SYS address
              | UVM_APERTURE_VID \<Rightarrow> pde_bits OR DRF_DEF64 NV_MMU_VER2_DUAL_PDE_APERTURE_BIG 1 OR
                  DRF_NUM64 NV_MMU_VER2_DUAL_PDE_ADDRESS_BIG_VID address
              | _ \<Rightarrow> pde_bits))"

definition small_half_pde_pascal :: "uvm_mmu_page_table_alloc option \<Rightarrow> u64" where
  "small_half_pde_pascal phys_alloc =
     (case phys_alloc of
        None \<Rightarrow> 0
      | Some a \<Rightarrow>
          let address = drop_bit 12 (phys_address (alloc_addr a));
              pde_bits = DRF_DEF64 NV_MMU_VER2_DUAL_PDE_VOL_SMALL 1
          in (case phys_aperture (alloc_addr a) of
                UVM_APERTURE_SYS \<Rightarrow> pde_bits OR DRF_DEF64 NV_MMU_VER2_DUAL_PDE_APERTURE_SMALL 2 OR
                  DRF_NUM64 NV_MMU_VER2_DUAL_PDE_ADDRESS_SMALL_SYS address
              | UVM_APERTURE_VID \<Rightarrow> pde_bits OR DRF_DEF64 NV_MMU_VER2_DUAL_PDE_APERTURE_SMALL 1 OR
                  DRF_NUM64 NV_MMU_VER2_DUAL_PDE_ADDRESS_SMALL_VID address
              | _ \<Rightarrow> pde_bits))"

text \<open>An entry is one or two 64-bit words.\<close>

definition make_pde_pascal :: "uvm_mmu_page_table_alloc option list \<Rightarrow> u32 \<Rightarrow> u64 list" where
  "make_pde_pascal phys_allocs depth =
     (if entries_per_index_pascal depth = 1 then [single_pde_pascal (phys_allocs ! 0)]
      else [big_half_pde_pascal (phys_allocs ! 0) OR DRF_DEF64 NV_MMU_VER2_DUAL_PDE_IS_PDE 0,
            small_half_pde_pascal (phys_allocs ! 1)])"

definition unmapped_pte_pascal :: "u32 \<Rightarrow> u64" where
  "unmapped_pte_pascal page_size =
     (if page_size \<noteq> UVM_PAGE_SIZE_64K then 0
      else DRF_DEF64 NV_MMU_VER2_PTE_VALID 0 OR DRF_DEF64 NV_MMU_VER2_PTE_VOL 0 OR
        DRF_DEF64 NV_MMU_VER2_PTE_PRIVILEGE 1)"

definition make_pte_pascal :: "uvm_aperture \<Rightarrow> u64 \<Rightarrow> uvm_prot \<Rightarrow> bool \<Rightarrow> u32 \<Rightarrow> u64" where
  "make_pte_pascal aperture address prot vol page_size =
     (let pte_bits = DRF_DEF64 NV_MMU_VER2_PTE_VALID 1;
          aperture_bits = (if aperture = UVM_APERTURE_SYS then 2 else if aperture = UVM_APERTURE_VID then 0
            else if is_peer_aperture aperture then 1 else 0);
          pte_bits = pte_bits OR DRF_NUM64 NV_MMU_VER2_PTE_APERTURE aperture_bits;
          pte_bits = pte_bits OR (if vol then DRF_DEF64 NV_MMU_VER2_PTE_VOL 1 else DRF_DEF64 NV_MMU_VER2_PTE_VOL 0);
          pte_bits = pte_bits OR DRF_DEF64 NV_MMU_VER2_PTE_ENCRYPTED 0;
          pte_bits = pte_bits OR DRF_DEF64 NV_MMU_VER2_PTE_PRIVILEGE 0;
          pte_bits = pte_bits OR (if prot = UVM_PROT_READ_ONLY then DRF_DEF64 NV_MMU_VER2_PTE_READ_ONLY 1
            else DRF_DEF64 NV_MMU_VER2_PTE_READ_ONLY 0);
          pte_bits = pte_bits OR (if prot = UVM_PROT_READ_WRITE_ATOMIC
            then DRF_DEF64 NV_MMU_VER2_PTE_ATOMIC_DISABLE 0 else DRF_DEF64 NV_MMU_VER2_PTE_ATOMIC_DISABLE 1);
          address = drop_bit 12 address
      in if aperture = UVM_APERTURE_SYS then pte_bits OR DRF_NUM64 NV_MMU_VER2_PTE_ADDRESS_SYS address
         else
           let pte_bits = pte_bits OR DRF_NUM64 NV_MMU_VER2_PTE_ADDRESS_VID address;
               pte_bits = (if aperture \<noteq> UVM_APERTURE_VID
                 then pte_bits OR DRF_NUM64 NV_MMU_VER2_PTE_ADDRESS_VID_PEER (ucast (UVM_APERTURE_PEER_ID aperture))
                 else pte_bits)
           in pte_bits OR DRF_NUM64 NV_MMU_VER2_PTE_COMPTAGLINE 0)"

definition make_sked_reflected_pte_pascal :: u64 where
  "make_sked_reflected_pte_pascal = DRF_DEF64 NV_MMU_VER2_PTE_VALID 1 OR DRF_NUM64 NV_MMU_VER2_PTE_KIND 0xca"

definition poisoned_pte_pascal :: "u32 \<Rightarrow> u64" where
  "poisoned_pte_pascal page_size =
     UVM_FLD_SET_DRF64 NV_MMU_VER2_PTE_PRIVILEGE 1
       (make_pte_pascal UVM_APERTURE_VID 0x1bad000000 UVM_PROT_READ_ONLY True page_size)"

subsection \<open>Geometry\<close>

definition entry_size_pascal :: "u32 \<Rightarrow> u64" where
  "entry_size_pascal depth = (if depth = 3 then 16 else 8)"

definition index_bits_pascal :: "u32 \<Rightarrow> u32 \<Rightarrow> u32" where
  "index_bits_pascal depth page_size =
     (if depth < 4 then [2, 9, 9, 8] ! unat depth
      else if depth = 4 then
        (if page_size = UVM_PAGE_SIZE_4K then 9 else if page_size = UVM_PAGE_SIZE_64K then 5 else 0)
      else 0)"

definition num_va_bits_pascal :: u32 where "num_va_bits_pascal = 49"

definition allocation_size_pascal :: "u32 \<Rightarrow> u32 \<Rightarrow> u64" where
  "allocation_size_pascal depth page_size = (if depth = 4 \<and> page_size = UVM_PAGE_SIZE_64K then 256 else 4096)"

definition page_table_depth_pascal :: "u32 \<Rightarrow> u32" where
  "page_table_depth_pascal page_size = (if page_size = UVM_PAGE_SIZE_2M then 3 else 4)"

definition page_sizes_pascal :: u32 where
  "page_sizes_pascal = UVM_PAGE_SIZE_2M OR UVM_PAGE_SIZE_64K OR UVM_PAGE_SIZE_4K"

definition pascal_mmu_mode_hal :: uvm_mmu_mode_hal where
  "pascal_mmu_mode_hal =
     \<lparr>hal_make_pte = make_pte_pascal, hal_make_sked_reflected_pte = make_sked_reflected_pte_pascal,
      hal_unmapped_pte = unmapped_pte_pascal, hal_poisoned_pte = poisoned_pte_pascal,
      hal_make_pde = make_pde_pascal, hal_entry_size = entry_size_pascal, hal_index_bits = index_bits_pascal,
      hal_entries_per_index = entries_per_index_pascal, hal_entry_offset = entry_offset_pascal,
      hal_num_va_bits = num_va_bits_pascal, hal_allocation_size = allocation_size_pascal,
      hal_page_table_depth = page_table_depth_pascal, hal_page_sizes = page_sizes_pascal\<rparr>"

definition uvm_hal_mmu_mode_pascal :: "u32 \<Rightarrow> uvm_mmu_mode_hal option" where
  "uvm_hal_mmu_mode_pascal big_page_size =
     (if big_page_size = UVM_PAGE_SIZE_64K then Some pascal_mmu_mode_hal else None)"

section \<open>Kepler and Maxwell\<close>

subsection \<open>Fields\<close>

abbreviation NV_MMU_PDE_APERTURE_BIG :: hw_field where "NV_MMU_PDE_APERTURE_BIG \<equiv> (1, 0)"
abbreviation NV_MMU_PDE_SIZE :: hw_field where "NV_MMU_PDE_SIZE \<equiv> (3, 2)"
abbreviation NV_MMU_PDE_ADDRESS_BIG_SYS :: hw_field where "NV_MMU_PDE_ADDRESS_BIG_SYS \<equiv> (31, 4)"
abbreviation NV_MMU_PDE_ADDRESS_BIG_VID :: hw_field where "NV_MMU_PDE_ADDRESS_BIG_VID \<equiv> (28, 4)"
abbreviation NV_MMU_PDE_APERTURE_SMALL :: hw_field where "NV_MMU_PDE_APERTURE_SMALL \<equiv> (33, 32)"
abbreviation NV_MMU_PDE_VOL_SMALL :: hw_field where "NV_MMU_PDE_VOL_SMALL \<equiv> (34, 34)"
abbreviation NV_MMU_PDE_VOL_BIG :: hw_field where "NV_MMU_PDE_VOL_BIG \<equiv> (35, 35)"
abbreviation NV_MMU_PDE_ADDRESS_SMALL_SYS :: hw_field where "NV_MMU_PDE_ADDRESS_SMALL_SYS \<equiv> (63, 36)"
abbreviation NV_MMU_PDE_ADDRESS_SMALL_VID :: hw_field where "NV_MMU_PDE_ADDRESS_SMALL_VID \<equiv> (60, 36)"
abbreviation NV_MMU_PTE_VALID :: hw_field where "NV_MMU_PTE_VALID \<equiv> (0, 0)"
abbreviation NV_MMU_PTE_PRIVILEGE :: hw_field where "NV_MMU_PTE_PRIVILEGE \<equiv> (1, 1)"
abbreviation NV_MMU_PTE_READ_ONLY :: hw_field where "NV_MMU_PTE_READ_ONLY \<equiv> (2, 2)"
abbreviation NV_MMU_PTE_ENCRYPTED :: hw_field where "NV_MMU_PTE_ENCRYPTED \<equiv> (3, 3)"
abbreviation NV_MMU_PTE_ADDRESS_SYS :: hw_field where "NV_MMU_PTE_ADDRESS_SYS \<equiv> (31, 4)"
abbreviation NV_MMU_PTE_ADDRESS_VID :: hw_field where "NV_MMU_PTE_ADDRESS_VID \<equiv> (28, 4)"
abbreviation NV_MMU_PTE_ADDRESS_VID_PEER :: hw_field where "NV_MMU_PTE_ADDRESS_VID_PEER \<equiv> (31, 29)"
abbreviation NV_MMU_PTE_VOL :: hw_field where "NV_MMU_PTE_VOL \<equiv> (32, 32)"
abbreviation NV_MMU_PTE_APERTURE :: hw_field where "NV_MMU_PTE_APERTURE \<equiv> (34, 33)"
abbreviation NV_MMU_PTE_LOCK :: hw_field where "NV_MMU_PTE_LOCK \<equiv> (35, 35)"
abbreviation NV_MMU_PTE_KIND :: hw_field where "NV_MMU_PTE_KIND \<equiv> (43, 36)"
abbreviation NV_MMU_PTE_COMPTAGLINE :: hw_field where "NV_MMU_PTE_COMPTAGLINE \<equiv> (60, 44)"
abbreviation NV_MMU_PTE_READ_DISABLE :: hw_field where "NV_MMU_PTE_READ_DISABLE \<equiv> (62, 62)"
abbreviation NV_MMU_PTE_WRITE_DISABLE :: hw_field where "NV_MMU_PTE_WRITE_DISABLE \<equiv> (63, 63)"

subsection \<open>Entries\<close>

definition entries_per_index_kepler :: "u32 \<Rightarrow> u32" where
  "entries_per_index_kepler depth = (if depth = 0 then 2 else 1)"

definition entry_offset_kepler :: "u32 \<Rightarrow> u32 \<Rightarrow> u64" where
  "entry_offset_kepler depth page_size =
     (if page_size = UVM_PAGE_SIZE_4K \<and> depth = 0 then MMU_SMALL else MMU_BIG)"

definition big_half_pde_kepler :: "uvm_mmu_page_table_alloc option \<Rightarrow> u64" where
  "big_half_pde_kepler phys_alloc =
     (case phys_alloc of
        None \<Rightarrow> 0
      | Some a \<Rightarrow>
          let address = drop_bit 12 (phys_address (alloc_addr a));
              pde_bits = DRF_DEF64 NV_MMU_PDE_VOL_BIG 1
          in (case phys_aperture (alloc_addr a) of
                UVM_APERTURE_SYS \<Rightarrow> pde_bits OR DRF_DEF64 NV_MMU_PDE_APERTURE_BIG 2 OR
                  DRF_NUM64 NV_MMU_PDE_ADDRESS_BIG_SYS address
              | UVM_APERTURE_VID \<Rightarrow> pde_bits OR DRF_DEF64 NV_MMU_PDE_APERTURE_BIG 1 OR
                  DRF_NUM64 NV_MMU_PDE_ADDRESS_BIG_VID (drop_bit 12 (phys_address (alloc_addr a)))
              | _ \<Rightarrow> pde_bits))"

definition small_half_pde_kepler :: "uvm_mmu_page_table_alloc option \<Rightarrow> u64" where
  "small_half_pde_kepler phys_alloc =
     (case phys_alloc of
        None \<Rightarrow> 0
      | Some a \<Rightarrow>
          let address = drop_bit 12 (phys_address (alloc_addr a));
              pde_bits = DRF_DEF64 NV_MMU_PDE_VOL_SMALL 1
          in (case phys_aperture (alloc_addr a) of
                UVM_APERTURE_SYS \<Rightarrow> pde_bits OR DRF_DEF64 NV_MMU_PDE_APERTURE_SMALL 2 OR
                  DRF_NUM64 NV_MMU_PDE_ADDRESS_SMALL_SYS address
              | UVM_APERTURE_VID \<Rightarrow> pde_bits OR DRF_DEF64 NV_MMU_PDE_APERTURE_SMALL 1 OR
                  DRF_NUM64 NV_MMU_PDE_ADDRESS_SMALL_VID address
              | _ \<Rightarrow> pde_bits))"

definition make_pde_kepler :: "uvm_mmu_page_table_alloc option list \<Rightarrow> u32 \<Rightarrow> u64 list" where
  "make_pde_kepler phys_allocs depth =
     [DRF_DEF64 NV_MMU_PDE_SIZE 0 OR (big_half_pde_kepler (phys_allocs ! 0) OR small_half_pde_kepler (phys_allocs ! 1))]"

definition unmapped_pte_kepler :: "u32 \<Rightarrow> u64" where
  "unmapped_pte_kepler page_size =
     (if page_size = UVM_PAGE_SIZE_4K then 0
      else DRF_DEF64 NV_MMU_PTE_VALID 0 OR DRF_DEF64 NV_MMU_PTE_PRIVILEGE 1 OR DRF_DEF64 NV_MMU_PTE_VOL 0)"

definition make_pte_kepler :: "uvm_aperture \<Rightarrow> u64 \<Rightarrow> uvm_prot \<Rightarrow> bool \<Rightarrow> u32 \<Rightarrow> u64" where
  "make_pte_kepler aperture address prot vol page_size =
     (let pte_bits = DRF_DEF64 NV_MMU_PTE_VALID 1;
          pte_bits = pte_bits OR DRF_DEF64 NV_MMU_PTE_PRIVILEGE 0;
          pte_bits = pte_bits OR (if prot = UVM_PROT_READ_ONLY then DRF_DEF64 NV_MMU_PTE_READ_ONLY 1
            else DRF_DEF64 NV_MMU_PTE_READ_ONLY 0);
          pte_bits = pte_bits OR DRF_DEF64 NV_MMU_PTE_ENCRYPTED 0;
          address = drop_bit 12 address;
          pte_bits = (if aperture = UVM_APERTURE_SYS then pte_bits OR DRF_NUM64 NV_MMU_PTE_ADDRESS_SYS address
            else
              let pte_bits = pte_bits OR DRF_NUM64 NV_MMU_PTE_ADDRESS_VID address
              in if aperture \<noteq> UVM_APERTURE_VID
                 then pte_bits OR DRF_NUM64 NV_MMU_PTE_ADDRESS_VID_PEER (ucast (UVM_APERTURE_PEER_ID aperture))
                 else pte_bits);
          pte_bits = pte_bits OR (if vol then DRF_DEF64 NV_MMU_PTE_VOL 1 else DRF_DEF64 NV_MMU_PTE_VOL 0);
          aperture_bits = (if aperture = UVM_APERTURE_SYS then 2 else if aperture = UVM_APERTURE_VID then 0
            else if is_peer_aperture aperture then 1 else 0);
          pte_bits = pte_bits OR DRF_NUM64 NV_MMU_PTE_APERTURE aperture_bits;
          pte_bits = pte_bits OR DRF_DEF64 NV_MMU_PTE_LOCK 0;
          pte_bits = pte_bits OR DRF_DEF64 NV_MMU_PTE_KIND 0;
          pte_bits = pte_bits OR DRF_NUM64 NV_MMU_PTE_COMPTAGLINE 0;
          pte_bits = pte_bits OR DRF_DEF64 NV_MMU_PTE_READ_DISABLE 0
      in pte_bits OR (if prot = UVM_PROT_READ_ONLY then DRF_DEF64 NV_MMU_PTE_WRITE_DISABLE 1
            else DRF_DEF64 NV_MMU_PTE_WRITE_DISABLE 0))"

definition make_sked_reflected_pte_kepler :: u64 where
  "make_sked_reflected_pte_kepler = DRF_DEF64 NV_MMU_PTE_VALID 1 OR DRF_DEF64 NV_MMU_PTE_KIND 0xca"

definition poisoned_pte_kepler :: "u32 \<Rightarrow> u64" where
  "poisoned_pte_kepler page_size =
     UVM_FLD_SET_DRF64 NV_MMU_PTE_PRIVILEGE 1
       (make_pte_kepler UVM_APERTURE_VID 0x1bad000000 UVM_PROT_READ_ONLY True page_size)"

subsection \<open>Geometry\<close>

definition entry_size_kepler :: "u32 \<Rightarrow> u64" where
  "entry_size_kepler depth = 8"

definition index_bits_kepler_64 :: "u32 \<Rightarrow> u32 \<Rightarrow> u32" where
  "index_bits_kepler_64 depth page_size =
     (if depth = 0 then 14 else if page_size = UVM_PAGE_SIZE_4K then 14 else 10)"

definition index_bits_kepler_128 :: "u32 \<Rightarrow> u32 \<Rightarrow> u32" where
  "index_bits_kepler_128 depth page_size =
     (if depth = 0 then 13 else if page_size = UVM_PAGE_SIZE_4K then 15 else 10)"

definition num_va_bits_kepler :: u32 where "num_va_bits_kepler = 40"

definition allocation_size_kepler_64 :: "u32 \<Rightarrow> u32 \<Rightarrow> u64" where
  "allocation_size_kepler_64 depth page_size =
     push_bit (unat (index_bits_kepler_64 depth page_size)) (entry_size_kepler depth)"

definition allocation_size_kepler_128 :: "u32 \<Rightarrow> u32 \<Rightarrow> u64" where
  "allocation_size_kepler_128 depth page_size =
     push_bit (unat (index_bits_kepler_128 depth page_size)) (entry_size_kepler depth)"

definition page_table_depth_kepler :: "u32 \<Rightarrow> u32" where
  "page_table_depth_kepler page_size = 1"

definition page_sizes_kepler_128 :: u32 where
  "page_sizes_kepler_128 = UVM_PAGE_SIZE_128K OR UVM_PAGE_SIZE_4K"

definition page_sizes_kepler_64 :: u32 where
  "page_sizes_kepler_64 = UVM_PAGE_SIZE_64K OR UVM_PAGE_SIZE_4K"

definition kepler_64_mmu_mode_hal :: uvm_mmu_mode_hal where
  "kepler_64_mmu_mode_hal =
     \<lparr>hal_make_pte = make_pte_kepler, hal_make_sked_reflected_pte = make_sked_reflected_pte_kepler,
      hal_unmapped_pte = unmapped_pte_kepler, hal_poisoned_pte = poisoned_pte_kepler,
      hal_make_pde = make_pde_kepler, hal_entry_size = entry_size_kepler, hal_index_bits = index_bits_kepler_64,
      hal_entries_per_index = entries_per_index_kepler, hal_entry_offset = entry_offset_kepler,
      hal_num_va_bits = num_va_bits_kepler, hal_allocation_size = allocation_size_kepler_64,
      hal_page_table_depth = page_table_depth_kepler, hal_page_sizes = page_sizes_kepler_64\<rparr>"

definition kepler_128_mmu_mode_hal :: uvm_mmu_mode_hal where
  "kepler_128_mmu_mode_hal =
     \<lparr>hal_make_pte = make_pte_kepler, hal_make_sked_reflected_pte = make_sked_reflected_pte_kepler,
      hal_unmapped_pte = unmapped_pte_kepler, hal_poisoned_pte = poisoned_pte_kepler,
      hal_make_pde = make_pde_kepler, hal_entry_size = entry_size_kepler, hal_index_bits = index_bits_kepler_128,
      hal_entries_per_index = entries_per_index_kepler, hal_entry_offset = entry_offset_kepler,
      hal_num_va_bits = num_va_bits_kepler, hal_allocation_size = allocation_size_kepler_128,
      hal_page_table_depth = page_table_depth_kepler, hal_page_sizes = page_sizes_kepler_128\<rparr>"

definition uvm_hal_mmu_mode_kepler :: "u32 \<Rightarrow> uvm_mmu_mode_hal" where
  "uvm_hal_mmu_mode_kepler big_page_size =
     (if big_page_size = UVM_PAGE_SIZE_64K then kepler_64_mmu_mode_hal else kepler_128_mmu_mode_hal)"

section \<open>Entries decode to what they were made from\<close>

text \<open>The reading of an entry the format's header gives.\<close>

definition pte_decode_pascal :: "u64 \<Rightarrow> (uvm_aperture \<times> u64 \<times> uvm_prot \<times> bool) option" where
  "pte_decode_pascal v =
     (let code = DRF_VAL64 NV_MMU_VER2_PTE_APERTURE v;
          prot = (if DRF_VAL64 NV_MMU_VER2_PTE_READ_ONLY v = 1 then UVM_PROT_READ_ONLY
            else if DRF_VAL64 NV_MMU_VER2_PTE_ATOMIC_DISABLE v = 1 then UVM_PROT_READ_WRITE
            else UVM_PROT_READ_WRITE_ATOMIC);
          vol = (DRF_VAL64 NV_MMU_VER2_PTE_VOL v = 1)
      in if DRF_VAL64 NV_MMU_VER2_PTE_VALID v = 0 then None
         else if code = 2 then Some (UVM_APERTURE_SYS, push_bit 12 (DRF_VAL64 NV_MMU_VER2_PTE_ADDRESS_SYS v), prot, vol)
         else if code = 0 then Some (UVM_APERTURE_VID, push_bit 12 (DRF_VAL64 NV_MMU_VER2_PTE_ADDRESS_VID v), prot, vol)
         else if code = 1 then Some (UVM_APERTURE_PEER (ucast (DRF_VAL64 NV_MMU_VER2_PTE_ADDRESS_VID_PEER v)),
           push_bit 12 (DRF_VAL64 NV_MMU_VER2_PTE_ADDRESS_VID v), prot, vol)
         else None)"

definition pte_decode_kepler :: "u64 \<Rightarrow> (uvm_aperture \<times> u64 \<times> uvm_prot \<times> bool) option" where
  "pte_decode_kepler v =
     (let code = DRF_VAL64 NV_MMU_PTE_APERTURE v;
          prot = (if DRF_VAL64 NV_MMU_PTE_READ_ONLY v = 1 \<and> DRF_VAL64 NV_MMU_PTE_WRITE_DISABLE v = 1
            then UVM_PROT_READ_ONLY else UVM_PROT_READ_WRITE);
          vol = (DRF_VAL64 NV_MMU_PTE_VOL v = 1)
      in if DRF_VAL64 NV_MMU_PTE_VALID v = 0 then None
         else if code = 2 then Some (UVM_APERTURE_SYS, push_bit 12 (DRF_VAL64 NV_MMU_PTE_ADDRESS_SYS v), prot, vol)
         else if code = 0 then Some (UVM_APERTURE_VID, push_bit 12 (DRF_VAL64 NV_MMU_PTE_ADDRESS_VID v), prot, vol)
         else if code = 1 then Some (UVM_APERTURE_PEER (ucast (DRF_VAL64 NV_MMU_PTE_ADDRESS_VID_PEER v)),
           push_bit 12 (DRF_VAL64 NV_MMU_PTE_ADDRESS_VID v), prot, vol)
         else None)"

definition aperture_ok :: "nat \<Rightarrow> uvm_aperture \<Rightarrow> u64 \<Rightarrow> bool" where
  "aperture_ok sys_bits aperture address \<longleftrightarrow> 2 ^ 12 dvd unat address \<and>
     (case aperture of
        UVM_APERTURE_SYS \<Rightarrow> unat address < 2 ^ sys_bits
      | UVM_APERTURE_VID \<Rightarrow> unat address < 2 ^ 37
      | UVM_APERTURE_PEER i \<Rightarrow> i \<le> 7 \<and> unat address < 2 ^ 37
      | UVM_APERTURE_DEFAULT \<Rightarrow> False)"

lemma and_mask_of_address:
  "unat (a :: u64) < 2 ^ (Suc (e mod 64 - b mod 64) + k) \<Longrightarrow> b mod 64 \<le> e mod 64 \<Longrightarrow>
    drop_bit k a AND DRF_MASK64 (e, b) = drop_bit k a"
  by (rule and_DRF_MASK64[OF _ drop_bit_lt])

lemma peer_number:
  assumes "i \<le> (7 :: u8)"
  shows "(ucast i :: u32) \<le> 7" "unat (ucast (ucast i :: u32) :: u64) < 8"
    "ucast (ucast (ucast i :: u32) :: u64) = i"
proof -
  have "unat i \<le> 7" using assms by (simp add: word_le_nat_alt)
  moreover have u: "unat (ucast i :: u32) = unat i"
    by (simp add: unsigned_ucast_eq take_bit_nat_eq_self_iff order_less_le_trans[OF unsigned_less])
  moreover note unat_ucast_up
  ultimately show "(ucast i :: u32) \<le> 7" "unat (ucast (ucast i :: u32) :: u64) < 8"
    by (simp_all add: word_le_nat_alt)
  show "ucast (ucast (ucast i :: u32) :: u64) = i"
    by (rule bit_word_eqI) (auto simp: bit_simps dest: bit_imp_le_length)
qed

lemmas pte_pascal_simps = pte_decode_pascal_def make_pte_pascal_def drf64 Let_def UVM_APERTURE_PEER_ID_def
  is_peer_aperture_def

lemmas pte_kepler_simps = pte_decode_kepler_def make_pte_kepler_def drf64 Let_def UVM_APERTURE_PEER_ID_def
  is_peer_aperture_def

lemma pte_roundtrip_pascal:
  assumes "prot \<noteq> UVM_PROT_NONE" and ok: "aperture_ok 58 aperture address"
  shows "pte_decode_pascal (make_pte_pascal aperture address prot vol page_size) = Some (aperture, address, prot, vol)"
proof -
  have al: "push_bit 12 (drop_bit 12 address) = address" using ok by (intro push_drop_bit) (simp add: aperture_ok_def)
  have sys: "aperture = UVM_APERTURE_SYS \<Longrightarrow> drop_bit 12 address AND DRF_MASK64 (53, 8) = drop_bit 12 address"
    using ok by (intro and_mask_of_address) (simp_all add: aperture_ok_def)
  have vid: "aperture \<noteq> UVM_APERTURE_SYS \<Longrightarrow> drop_bit 12 address AND DRF_MASK64 (32, 8) = drop_bit 12 address"
    using ok by (intro and_mask_of_address) (auto simp: aperture_ok_def split: uvm_aperture.splits)
  show ?thesis
  proof (cases aperture)
    case (UVM_APERTURE_PEER i)
    then have "i \<le> 7" using ok by (simp add: aperture_ok_def)
    from peer_number[OF this] UVM_APERTURE_PEER assms(1) al vid show ?thesis
      by (cases prot) (simp_all add: pte_pascal_simps)
  next
    case UVM_APERTURE_SYS
    then show ?thesis using assms(1) al sys by (cases prot) (simp_all add: pte_pascal_simps)
  next
    case UVM_APERTURE_VID
    then show ?thesis using assms(1) al vid by (cases prot) (simp_all add: pte_pascal_simps)
  qed (use ok in \<open>simp add: aperture_ok_def\<close>)
qed

lemma pte_roundtrip_kepler:
  assumes "prot \<noteq> UVM_PROT_NONE" and ok: "aperture_ok 40 aperture address"
  shows "pte_decode_kepler (make_pte_kepler aperture address prot vol page_size) =
    Some (aperture, address, if prot = UVM_PROT_READ_WRITE_ATOMIC then UVM_PROT_READ_WRITE else prot, vol)"
proof -
  have al: "push_bit 12 (drop_bit 12 address) = address" using ok by (intro push_drop_bit) (simp add: aperture_ok_def)
  have sys: "aperture = UVM_APERTURE_SYS \<Longrightarrow> drop_bit 12 address AND DRF_MASK64 (31, 4) = drop_bit 12 address"
    using ok by (intro and_mask_of_address) (simp_all add: aperture_ok_def)
  have vid: "aperture \<noteq> UVM_APERTURE_SYS \<Longrightarrow> drop_bit 12 address AND DRF_MASK64 (28, 4) = drop_bit 12 address"
    using ok by (intro and_mask_of_address) (auto simp: aperture_ok_def split: uvm_aperture.splits)
  show ?thesis
  proof (cases aperture)
    case (UVM_APERTURE_PEER i)
    then have "i \<le> 7" using ok by (simp add: aperture_ok_def)
    from peer_number[OF this] UVM_APERTURE_PEER assms(1) al vid show ?thesis
      by (cases prot) (simp_all add: pte_kepler_simps)
  next
    case UVM_APERTURE_SYS
    then show ?thesis using assms(1) al sys by (cases prot) (simp_all add: pte_kepler_simps)
  next
    case UVM_APERTURE_VID
    then show ?thesis using assms(1) al vid by (cases prot) (simp_all add: pte_kepler_simps)
  qed (use ok in \<open>simp add: aperture_ok_def\<close>)
qed

text \<open>
  C34. The bits of a page table entry say what the entry was made from. Reading an entry by the fields
  of the format's header gives back the aperture, with the peer's number, the 4K aligned address, the
  protection and the volatile bit, for every address within the bits the format has for it; Kepler has
  no bit that tells atomic access from read-write.
\<close>

theorem pte_roundtrip:
  assumes "prot \<noteq> UVM_PROT_NONE"
  shows "(aperture_ok 58 aperture address \<longrightarrow>
      pte_decode_pascal (make_pte_pascal aperture address prot vol page_size) = Some (aperture, address, prot, vol)) \<and>
    (aperture_ok 40 aperture address \<longrightarrow>
      pte_decode_kepler (make_pte_kepler aperture address prot vol page_size) =
        Some (aperture, address, if prot = UVM_PROT_READ_WRITE_ATOMIC then UVM_PROT_READ_WRITE else prot, vol))"
  using pte_roundtrip_pascal[OF assms] pte_roundtrip_kepler[OF assms] by blast

lemma pte_roundtrip_witness:
  "pte_decode_pascal (make_pte_pascal (UVM_APERTURE_PEER 3) 0x12345000 UVM_PROT_READ_WRITE True UVM_PAGE_SIZE_4K) =
    Some (UVM_APERTURE_PEER 3, 0x12345000, UVM_PROT_READ_WRITE, True)"
proof -
  have "2 ^ 12 dvd unat (0x12345000 :: u64)" "UVM_PROT_READ_WRITE \<noteq> UVM_PROT_NONE" by simp_all
  then show ?thesis
    using pte_roundtrip[of UVM_PROT_READ_WRITE "UVM_APERTURE_PEER 3" "0x12345000" True UVM_PAGE_SIZE_4K]
    by (simp add: aperture_ok_def)
qed

text \<open>One half of a directory entry, or all of it: an aperture, and an address above its low \<open>k\<close> bits.\<close>

definition pde_half :: "hw_field \<Rightarrow> hw_field \<Rightarrow> hw_field \<Rightarrow> nat \<Rightarrow> u64 \<Rightarrow> uvm_gpu_phys_address option" where
  "pde_half ap sys vid k v =
     (let code = DRF_VAL64 ap v
      in if code = 1 then Some \<lparr>phys_address = push_bit k (DRF_VAL64 vid v), phys_aperture = UVM_APERTURE_VID\<rparr>
         else if code = 2 then Some \<lparr>phys_address = push_bit k (DRF_VAL64 sys v), phys_aperture = UVM_APERTURE_SYS\<rparr>
         else None)"

definition pde_decode_pascal :: "u32 \<Rightarrow> u64 list \<Rightarrow> uvm_gpu_phys_address option list" where
  "pde_decode_pascal depth v =
     (if depth = 3
      then [pde_half NV_MMU_VER2_DUAL_PDE_APERTURE_BIG NV_MMU_VER2_DUAL_PDE_ADDRESS_BIG_SYS
              NV_MMU_VER2_DUAL_PDE_ADDRESS_BIG_VID 8 (v ! 0),
            pde_half NV_MMU_VER2_DUAL_PDE_APERTURE_SMALL NV_MMU_VER2_DUAL_PDE_ADDRESS_SMALL_SYS
              NV_MMU_VER2_DUAL_PDE_ADDRESS_SMALL_VID 12 (v ! 1)]
      else [pde_half NV_MMU_VER2_PDE_APERTURE NV_MMU_VER2_PDE_ADDRESS_SYS NV_MMU_VER2_PDE_ADDRESS_VID 12 (v ! 0)])"

definition pde_decode_kepler :: "u64 list \<Rightarrow> uvm_gpu_phys_address option list" where
  "pde_decode_kepler v =
     [pde_half NV_MMU_PDE_APERTURE_BIG NV_MMU_PDE_ADDRESS_BIG_SYS NV_MMU_PDE_ADDRESS_BIG_VID 12 (v ! 0),
      pde_half NV_MMU_PDE_APERTURE_SMALL NV_MMU_PDE_ADDRESS_SMALL_SYS NV_MMU_PDE_ADDRESS_SMALL_VID 12 (v ! 0)]"

definition table_addr_ok :: "nat \<Rightarrow> nat \<Rightarrow> uvm_mmu_page_table_alloc option \<Rightarrow> bool" where
  "table_addr_ok k sys_bits a \<longleftrightarrow>
     (case a of None \<Rightarrow> True
      | Some a \<Rightarrow> 2 ^ k dvd unat (phys_address (alloc_addr a)) \<and>
          (phys_aperture (alloc_addr a) = UVM_APERTURE_SYS \<and> unat (phys_address (alloc_addr a)) < 2 ^ sys_bits \<or>
           phys_aperture (alloc_addr a) = UVM_APERTURE_VID \<and> unat (phys_address (alloc_addr a)) < 2 ^ 37))"

lemma half_sys:
  assumes "table_addr_ok k n (Some a)" "phys_aperture (alloc_addr a) = UVM_APERTURE_SYS"
    and "b mod 64 \<le> e mod 64" "n = Suc (e mod 64 - b mod 64) + k"
  shows "drop_bit k (phys_address (alloc_addr a)) AND DRF_MASK64 (e, b) = drop_bit k (phys_address (alloc_addr a))"
    and "push_bit k (drop_bit k (phys_address (alloc_addr a))) = phys_address (alloc_addr a)"
  using assms push_drop_bit[of k "phys_address (alloc_addr a)"] by (auto simp: table_addr_ok_def intro!: and_mask_of_address)

lemma half_vid:
  assumes "table_addr_ok k n (Some a)" "phys_aperture (alloc_addr a) = UVM_APERTURE_VID"
    and "b mod 64 \<le> e mod 64" "37 = Suc (e mod 64 - b mod 64) + k"
  shows "drop_bit k (phys_address (alloc_addr a)) AND DRF_MASK64 (e, b) = drop_bit k (phys_address (alloc_addr a))"
    and "push_bit k (drop_bit k (phys_address (alloc_addr a))) = phys_address (alloc_addr a)"
  using assms push_drop_bit[of k "phys_address (alloc_addr a)"] by (auto simp: table_addr_ok_def intro!: and_mask_of_address)

lemma table_addr_cases:
  assumes "table_addr_ok k n a"
  obtains "a = None" | a' where "a = Some a'" "phys_aperture (alloc_addr a') = UVM_APERTURE_SYS"
  | a' where "a = Some a'" "phys_aperture (alloc_addr a') = UVM_APERTURE_VID"
  using assms by (cases a) (auto simp: table_addr_ok_def)

lemma single_pde_decode:
  assumes "table_addr_ok 12 58 a"
  shows "pde_half NV_MMU_VER2_PDE_APERTURE NV_MMU_VER2_PDE_ADDRESS_SYS NV_MMU_VER2_PDE_ADDRESS_VID 12 (single_pde_pascal a)
    = map_option alloc_addr a"
  using assms
proof (cases rule: table_addr_cases)
  case (2 a')
  have "table_addr_ok 12 58 (Some a')" using assms 2(1) by simp
  from half_sys[OF this 2(2), of 8 53] have h: "drop_bit 12 (phys_address (alloc_addr a')) AND DRF_MASK64 (53, 8) =
    drop_bit 12 (phys_address (alloc_addr a'))"
    "push_bit 12 (drop_bit 12 (phys_address (alloc_addr a'))) = phys_address (alloc_addr a')" by simp_all
  show ?thesis using h 2 by (simp add: single_pde_pascal_def pde_half_def drf64 Let_def)
next
  case (3 a')
  have "table_addr_ok 12 58 (Some a')" using assms 3(1) by simp
  from half_vid[OF this 3(2), of 8 32] have h: "drop_bit 12 (phys_address (alloc_addr a')) AND DRF_MASK64 (32, 8) =
    drop_bit 12 (phys_address (alloc_addr a'))"
    "push_bit 12 (drop_bit 12 (phys_address (alloc_addr a'))) = phys_address (alloc_addr a')" by simp_all
  show ?thesis using h 3 by (simp add: single_pde_pascal_def pde_half_def drf64 Let_def)
qed (simp add: single_pde_pascal_def pde_half_def)

lemma big_half_pde_decode:
  assumes "table_addr_ok 8 58 a"
  shows "pde_half NV_MMU_VER2_DUAL_PDE_APERTURE_BIG NV_MMU_VER2_DUAL_PDE_ADDRESS_BIG_SYS
      NV_MMU_VER2_DUAL_PDE_ADDRESS_BIG_VID 8 (big_half_pde_pascal a OR DRF_DEF64 NV_MMU_VER2_DUAL_PDE_IS_PDE 0)
    = map_option alloc_addr a"
  using assms
proof (cases rule: table_addr_cases)
  case (2 a')
  have "table_addr_ok 8 58 (Some a')" using assms 2(1) by simp
  from half_sys[OF this 2(2), of 4 53] have h: "drop_bit 8 (phys_address (alloc_addr a')) AND DRF_MASK64 (53, 4) =
    drop_bit 8 (phys_address (alloc_addr a'))"
    "push_bit 8 (drop_bit 8 (phys_address (alloc_addr a'))) = phys_address (alloc_addr a')" by simp_all
  show ?thesis using h 2 by (simp add: big_half_pde_pascal_def pde_half_def drf64 Let_def)
next
  case (3 a')
  have "table_addr_ok 8 58 (Some a')" using assms 3(1) by simp
  from half_vid[OF this 3(2), of 4 32] have h: "drop_bit 8 (phys_address (alloc_addr a')) AND DRF_MASK64 (32, 4) =
    drop_bit 8 (phys_address (alloc_addr a'))"
    "push_bit 8 (drop_bit 8 (phys_address (alloc_addr a'))) = phys_address (alloc_addr a')" by simp_all
  show ?thesis using h 3 by (simp add: big_half_pde_pascal_def pde_half_def drf64 Let_def)
qed (simp add: big_half_pde_pascal_def pde_half_def drf64)

lemma small_half_pde_decode:
  assumes "table_addr_ok 12 58 a"
  shows "pde_half NV_MMU_VER2_DUAL_PDE_APERTURE_SMALL NV_MMU_VER2_DUAL_PDE_ADDRESS_SMALL_SYS
      NV_MMU_VER2_DUAL_PDE_ADDRESS_SMALL_VID 12 (small_half_pde_pascal a)
    = map_option alloc_addr a"
  using assms
proof (cases rule: table_addr_cases)
  case (2 a')
  have "table_addr_ok 12 58 (Some a')" using assms 2(1) by simp
  from half_sys[OF this 2(2), of 72 117] have h: "drop_bit 12 (phys_address (alloc_addr a')) AND DRF_MASK64 (117, 72) =
    drop_bit 12 (phys_address (alloc_addr a'))"
    "push_bit 12 (drop_bit 12 (phys_address (alloc_addr a'))) = phys_address (alloc_addr a')" by simp_all
  show ?thesis using h 2 by (simp add: small_half_pde_pascal_def pde_half_def drf64 Let_def)
next
  case (3 a')
  have "table_addr_ok 12 58 (Some a')" using assms 3(1) by simp
  from half_vid[OF this 3(2), of 72 96] have h: "drop_bit 12 (phys_address (alloc_addr a')) AND DRF_MASK64 (96, 72) =
    drop_bit 12 (phys_address (alloc_addr a'))"
    "push_bit 12 (drop_bit 12 (phys_address (alloc_addr a'))) = phys_address (alloc_addr a')" by simp_all
  show ?thesis using h 3 by (simp add: small_half_pde_pascal_def pde_half_def drf64 Let_def)
qed (simp add: small_half_pde_pascal_def pde_half_def)

lemma big_pde_kepler_decode:
  assumes "table_addr_ok 12 40 a"
  shows "pde_half NV_MMU_PDE_APERTURE_BIG NV_MMU_PDE_ADDRESS_BIG_SYS NV_MMU_PDE_ADDRESS_BIG_VID 12 (big_half_pde_kepler a)
    = map_option alloc_addr a"
  using assms
proof (cases rule: table_addr_cases)
  case (2 a')
  have "table_addr_ok 12 40 (Some a')" using assms 2(1) by simp
  from half_sys[OF this 2(2), of 4 31] have h: "drop_bit 12 (phys_address (alloc_addr a')) AND DRF_MASK64 (31, 4) =
    drop_bit 12 (phys_address (alloc_addr a'))"
    "push_bit 12 (drop_bit 12 (phys_address (alloc_addr a'))) = phys_address (alloc_addr a')" by simp_all
  show ?thesis using h 2 by (simp add: big_half_pde_kepler_def pde_half_def drf64 Let_def)
next
  case (3 a')
  have "table_addr_ok 12 40 (Some a')" using assms 3(1) by simp
  from half_vid[OF this 3(2), of 4 28] have h: "drop_bit 12 (phys_address (alloc_addr a')) AND DRF_MASK64 (28, 4) =
    drop_bit 12 (phys_address (alloc_addr a'))"
    "push_bit 12 (drop_bit 12 (phys_address (alloc_addr a'))) = phys_address (alloc_addr a')" by simp_all
  show ?thesis using h 3 by (simp add: big_half_pde_kepler_def pde_half_def drf64 Let_def)
qed (simp add: big_half_pde_kepler_def pde_half_def)

lemma small_pde_kepler_decode:
  assumes "table_addr_ok 12 40 a"
  shows "pde_half NV_MMU_PDE_APERTURE_SMALL NV_MMU_PDE_ADDRESS_SMALL_SYS NV_MMU_PDE_ADDRESS_SMALL_VID 12 (small_half_pde_kepler a)
    = map_option alloc_addr a"
  using assms
proof (cases rule: table_addr_cases)
  case (2 a')
  have "table_addr_ok 12 40 (Some a')" using assms 2(1) by simp
  from half_sys[OF this 2(2), of 36 63] have h: "drop_bit 12 (phys_address (alloc_addr a')) AND DRF_MASK64 (63, 36) =
    drop_bit 12 (phys_address (alloc_addr a'))"
    "push_bit 12 (drop_bit 12 (phys_address (alloc_addr a'))) = phys_address (alloc_addr a')" by simp_all
  show ?thesis using h 2 by (simp add: small_half_pde_kepler_def pde_half_def drf64 Let_def)
next
  case (3 a')
  have "table_addr_ok 12 40 (Some a')" using assms 3(1) by simp
  from half_vid[OF this 3(2), of 36 60] have h: "drop_bit 12 (phys_address (alloc_addr a')) AND DRF_MASK64 (60, 36) =
    drop_bit 12 (phys_address (alloc_addr a'))"
    "push_bit 12 (drop_bit 12 (phys_address (alloc_addr a'))) = phys_address (alloc_addr a')" by simp_all
  show ?thesis using h 3 by (simp add: small_half_pde_kepler_def pde_half_def drf64 Let_def)
qed (simp add: small_half_pde_kepler_def pde_half_def)

text \<open>The two halves of a Kepler entry share a word and do not disturb each other.\<close>

lemma big_half_kepler_others:
  "DRF_VAL64 NV_MMU_PDE_APERTURE_SMALL (big_half_pde_kepler a) = 0"
  "DRF_VAL64 NV_MMU_PDE_ADDRESS_SMALL_SYS (big_half_pde_kepler a) = 0"
  "DRF_VAL64 NV_MMU_PDE_ADDRESS_SMALL_VID (big_half_pde_kepler a) = 0"
  by (simp_all add: big_half_pde_kepler_def drf64 Let_def split: option.split uvm_aperture.split)

lemma small_half_kepler_others:
  "DRF_VAL64 NV_MMU_PDE_APERTURE_BIG (small_half_pde_kepler a) = 0"
  "DRF_VAL64 NV_MMU_PDE_ADDRESS_BIG_SYS (small_half_pde_kepler a) = 0"
  "DRF_VAL64 NV_MMU_PDE_ADDRESS_BIG_VID (small_half_pde_kepler a) = 0"
  by (simp_all add: small_half_pde_kepler_def drf64 Let_def split: option.split uvm_aperture.split)

lemma pde_half_or:
  assumes "DRF_VAL64 ap y = 0" "DRF_VAL64 sys y = 0" "DRF_VAL64 vid y = 0"
  shows "pde_half ap sys vid k (x OR y) = pde_half ap sys vid k x" "pde_half ap sys vid k (y OR x) = pde_half ap sys vid k x"
  using assms by (simp_all add: pde_half_def Let_def)

text \<open>
  C36. A directory entry names exactly the tables it was made from. Decoding the words \<^verbatim>\<open>make_pde\<close>
  writes gives back, for a single entry and for both halves of a dual one, the aperture and address of
  each table or nothing for an absent one; neither half of a dual entry disturbs the other.
\<close>

theorem pde_roundtrip:
  "(depth \<noteq> 3 \<and> table_addr_ok 12 58 a \<longrightarrow>
      pde_decode_pascal depth (make_pde_pascal [a] depth) = [map_option alloc_addr a]) \<and>
   (table_addr_ok 8 58 a \<and> table_addr_ok 12 58 b \<longrightarrow>
      pde_decode_pascal 3 (make_pde_pascal [a, b] 3) = [map_option alloc_addr a, map_option alloc_addr b]) \<and>
   (table_addr_ok 12 40 a \<and> table_addr_ok 12 40 b \<longrightarrow>
      pde_decode_kepler (make_pde_kepler [a, b] depth) = [map_option alloc_addr a, map_option alloc_addr b])"
proof (intro conjI impI; elim conjE)
  show "pde_decode_pascal depth (make_pde_pascal [a] depth) = [map_option alloc_addr a]"
    if "depth \<noteq> 3" "table_addr_ok 12 58 a"
    using that(1) single_pde_decode[OF that(2)]
    by (simp add: pde_decode_pascal_def make_pde_pascal_def entries_per_index_pascal_def)
  show "pde_decode_pascal 3 (make_pde_pascal [a, b] 3) = [map_option alloc_addr a, map_option alloc_addr b]"
    if "table_addr_ok 8 58 a" "table_addr_ok 12 58 b"
    using big_half_pde_decode[OF that(1)] small_half_pde_decode[OF that(2)]
    by (simp add: pde_decode_pascal_def make_pde_pascal_def entries_per_index_pascal_def)
  show "pde_decode_kepler (make_pde_kepler [a, b] depth) = [map_option alloc_addr a, map_option alloc_addr b]"
    if "table_addr_ok 12 40 a" "table_addr_ok 12 40 b"
  proof -
    have z: "DRF_DEF64 NV_MMU_PDE_SIZE 0 = 0" by (simp add: DRF_DEF64_def)
    show ?thesis
      unfolding pde_decode_kepler_def make_pde_kepler_def z
      using big_pde_kepler_decode[OF that(1)] small_pde_kepler_decode[OF that(2)]
        pde_half_or(1)[OF small_half_kepler_others] pde_half_or(2)[OF big_half_kepler_others] by simp
  qed
qed

lemma pde_roundtrip_witness:
  "pde_decode_pascal 3 (make_pde_pascal [Some \<lparr>alloc_addr = \<lparr>phys_address = 0x4100, phys_aperture = UVM_APERTURE_VID\<rparr>,
      alloc_size = 256, alloc_handle = 0\<rparr>, None] 3) =
    [Some \<lparr>phys_address = 0x4100, phys_aperture = UVM_APERTURE_VID\<rparr>, None]"
proof -
  have "2 ^ 8 dvd unat (0x4100 :: u64)" by simp
  then show ?thesis
    using pde_roundtrip[where b = None and a = "Some \<lparr>alloc_addr = \<lparr>phys_address = 0x4100, phys_aperture = UVM_APERTURE_VID\<rparr>,
      alloc_size = 256, alloc_handle = 0\<rparr>"] by (simp add: table_addr_ok_def)
qed

section \<open>The geometry of a format\<close>

definition entry_index_from_vaddr :: "u64 \<Rightarrow> u32 \<Rightarrow> u32 \<Rightarrow> u32" where
  "entry_index_from_vaddr vaddr addr_bit_shift bits =
     (let msk = push_bit (unat bits) 1 - 1 in ucast (drop_bit (unat addr_bit_shift) vaddr AND msk))"

text \<open>The bits of an address below those that index the tables down to depth \<open>d\<close>, and the index at depth \<open>d\<close>.\<close>

fun va_shift :: "uvm_mmu_mode_hal \<Rightarrow> u32 \<Rightarrow> nat \<Rightarrow> u32" where
  "va_shift hal page_size 0 = hal_num_va_bits hal - hal_index_bits hal 0 page_size"
| "va_shift hal page_size (Suc d) = va_shift hal page_size d - hal_index_bits hal (of_nat (Suc d)) page_size"

definition va_index :: "uvm_mmu_mode_hal \<Rightarrow> u32 \<Rightarrow> u64 \<Rightarrow> nat \<Rightarrow> u32" where
  "va_index hal page_size va d =
     entry_index_from_vaddr va (va_shift hal page_size d) (hal_index_bits hal (of_nat d) page_size)"

definition page_exp :: "uvm_mmu_mode_hal \<Rightarrow> nat \<Rightarrow> bool" where
  "page_exp hal k \<longleftrightarrow> bit (hal_page_sizes hal) k"

definition bits_above :: "uvm_mmu_mode_hal \<Rightarrow> nat \<Rightarrow> nat \<Rightarrow> nat" where
  "bits_above hal k n = (\<Sum>d < n. unat (hal_index_bits hal (of_nat d) (2 ^ k)))"

definition pt_depth :: "uvm_mmu_mode_hal \<Rightarrow> nat \<Rightarrow> nat" where
  "pt_depth hal k = unat (hal_page_table_depth hal (2 ^ k))"

locale mmu_geometry =
  fixes hal :: uvm_mmu_mode_hal
  assumes depth_antimono: "page_exp hal j \<Longrightarrow> page_exp hal k \<Longrightarrow> j \<le> k \<Longrightarrow> pt_depth hal k \<le> pt_depth hal j"
    and va_bits: "page_exp hal k \<Longrightarrow> bits_above hal k (Suc (pt_depth hal k)) + k = unat (hal_num_va_bits hal)"
    and va_64: "unat (hal_num_va_bits hal) < 64"
    and index_32: "page_exp hal k \<Longrightarrow> d \<le> pt_depth hal k \<Longrightarrow> unat (hal_index_bits hal (of_nat d) (2 ^ k)) < 32"
    and agnostic: "page_exp hal k \<Longrightarrow> d < pt_depth hal k \<Longrightarrow>
      hal_index_bits hal (of_nat d) (2 ^ k) = hal_index_bits hal (of_nat d) UVM_PAGE_SIZE_AGNOSTIC"
    and table_fits: "page_exp hal k \<Longrightarrow> d \<le> pt_depth hal k \<Longrightarrow>
      unat (hal_entry_size hal (of_nat d)) * 2 ^ unat (hal_index_bits hal (of_nat d) (2 ^ k)) \<le>
        unat (hal_allocation_size hal (of_nat d) (2 ^ k))"
    and offset: "unat (hal_entry_offset hal d32 p) < unat (hal_entries_per_index hal d32)"
begin

lemma bits_le: "page_exp hal k \<Longrightarrow> n \<le> Suc (pt_depth hal k) \<Longrightarrow> bits_above hal k n + k \<le> unat (hal_num_va_bits hal)"
proof -
  assume k: "page_exp hal k" and n: "n \<le> Suc (pt_depth hal k)"
  have "bits_above hal k n \<le> bits_above hal k (Suc (pt_depth hal k))"
    unfolding bits_above_def by (rule sum_mono2) (use n in auto)
  then show ?thesis using va_bits[OF k] by simp
qed

lemma va_shift_eq:
  assumes "page_exp hal k" "d \<le> pt_depth hal k"
  shows "unat (va_shift hal (2 ^ k) d) = unat (hal_num_va_bits hal) - bits_above hal k (Suc d)"
  using assms(2)
proof (induction d)
  case 0
  then have "bits_above hal k (Suc 0) + k \<le> unat (hal_num_va_bits hal)" by (intro bits_le[OF assms(1)]) simp
  then show ?case by (simp add: bits_above_def unat_sub word_le_nat_alt)
next
  case (Suc d)
  then have "bits_above hal k (Suc (Suc d)) + k \<le> unat (hal_num_va_bits hal)" by (intro bits_le[OF assms(1)]) simp
  then have le: "bits_above hal k (Suc d) + unat (hal_index_bits hal (of_nat (Suc d)) (2 ^ k)) \<le> unat (hal_num_va_bits hal)"
    by (simp add: bits_above_def)
  have "unat (va_shift hal (2 ^ k) d) = unat (hal_num_va_bits hal) - bits_above hal k (Suc d)" using Suc by simp
  then have "hal_index_bits hal (of_nat (Suc d)) (2 ^ k) \<le> va_shift hal (2 ^ k) d"
    using le by (simp add: word_le_nat_alt)
  then show ?case using Suc le by (simp add: unat_sub bits_above_def)
qed

lemma va_index_eq:
  assumes "page_exp hal k" "d \<le> pt_depth hal k"
  shows "unat (va_index hal (2 ^ k) va d) =
    unat va div 2 ^ (unat (hal_num_va_bits hal) - bits_above hal k (Suc d)) mod
      2 ^ unat (hal_index_bits hal (of_nat d) (2 ^ k))"
proof -
  let ?b = "unat (hal_index_bits hal (of_nat d) (2 ^ k))"
  let ?s = "unat (va_shift hal (2 ^ k) d)"
  have b: "?b < 32" using index_32[OF assms] .
  have m: "push_bit ?b 1 - 1 = (mask ?b :: u64)" by (simp add: mask_eq_exp_minus_1)
  have "unat (drop_bit ?s va AND mask ?b) = unat va div 2 ^ ?s mod 2 ^ ?b"
  proof -
    have "unat (drop_bit ?s va AND mask ?b) = take_bit ?b (drop_bit ?s (unat va))"
      by (simp only: take_bit_eq_mask[symmetric] unsigned_take_bit_eq unat_drop_bit_eq)
    then show ?thesis by (simp only: take_bit_eq_mod drop_bit_eq_div)
  qed
  moreover have "\<dots> < 2 ^ 32"
  proof -
    have "unat va div 2 ^ ?s mod 2 ^ ?b < 2 ^ ?b" by simp
    also have "(2::nat) ^ ?b \<le> 2 ^ 32" using b by (intro power_increasing) auto
    finally show ?thesis .
  qed
  ultimately show ?thesis
    using va_shift_eq[OF assms] m
    by (simp add: va_index_def entry_index_from_vaddr_def Let_def unsigned_ucast_eq take_bit_eq_mod)
qed

text \<open>Pages with the same indices down to the page table agree above their offset.\<close>

lemma same_indices:
  assumes "page_exp hal k" and va: "unat va < 2 ^ unat (hal_num_va_bits hal)" "unat va' < 2 ^ unat (hal_num_va_bits hal)"
    and eq: "\<forall>d < n. va_index hal (2 ^ k) va d = va_index hal (2 ^ k) va' d" and n: "n \<le> Suc (pt_depth hal k)"
  shows "unat va div 2 ^ (unat (hal_num_va_bits hal) - bits_above hal k n) =
    unat va' div 2 ^ (unat (hal_num_va_bits hal) - bits_above hal k n)"
  using eq n
proof (induction n)
  case 0
  then show ?case using va by (simp add: bits_above_def)
next
  case (Suc n)
  let ?N = "unat (hal_num_va_bits hal)"
  let ?b = "unat (hal_index_bits hal (of_nat n) (2 ^ k))"
  let ?s = "?N - bits_above hal k (Suc n)"
  have "bits_above hal k (Suc n) + k \<le> ?N" using bits_le[OF assms(1) Suc.prems(2)] .
  then have s: "?N - bits_above hal k n = ?s + ?b" by (simp add: bits_above_def)
  have "unat va div 2 ^ (?s + ?b) = unat va' div 2 ^ (?s + ?b)" using Suc s by simp
  then have hi: "unat va div 2 ^ ?s div 2 ^ ?b = unat va' div 2 ^ ?s div 2 ^ ?b"
    by (simp add: power_add div_mult2_eq)
  have "va_index hal (2 ^ k) va n = va_index hal (2 ^ k) va' n" using Suc.prems by simp
  then have lo: "unat va div 2 ^ ?s mod 2 ^ ?b = unat va' div 2 ^ ?s mod 2 ^ ?b"
    using va_index_eq[OF assms(1), of n va] va_index_eq[OF assms(1), of n va'] Suc.prems(2) by simp
  show ?case using hi lo by (metis div_mult_mod_eq)
qed

lemma index_unique:
  assumes "page_exp hal k" "unat va < 2 ^ unat (hal_num_va_bits hal)" "unat va' < 2 ^ unat (hal_num_va_bits hal)"
  shows "(\<forall>d \<le> pt_depth hal k. va_index hal (2 ^ k) va d = va_index hal (2 ^ k) va' d) \<longleftrightarrow>
    unat va div 2 ^ k = unat va' div 2 ^ k"
proof
  have k: "unat (hal_num_va_bits hal) - bits_above hal k (Suc (pt_depth hal k)) = k" using va_bits[OF assms(1)] by simp
  show "unat va div 2 ^ k = unat va' div 2 ^ k"
    if "\<forall>d \<le> pt_depth hal k. va_index hal (2 ^ k) va d = va_index hal (2 ^ k) va' d"
    using same_indices[OF assms, of "Suc (pt_depth hal k)"] that k by (simp add: less_Suc_eq_le)
  assume eq: "unat va div 2 ^ k = unat va' div 2 ^ k"
  show "\<forall>d \<le> pt_depth hal k. va_index hal (2 ^ k) va d = va_index hal (2 ^ k) va' d"
  proof (intro allI impI)
    fix d assume d: "d \<le> pt_depth hal k"
    let ?s = "unat (hal_num_va_bits hal) - bits_above hal k (Suc d)"
    have "k \<le> ?s" using bits_le[OF assms(1), of "Suc d"] d by simp
    then have "x div 2 ^ ?s = x div 2 ^ k div 2 ^ (?s - k)" for x :: nat
      by (simp add: div_mult2_eq[symmetric] power_add[symmetric] del: diff_diff_left diff_diff_eq)
    then have "unat va div 2 ^ ?s = unat va' div 2 ^ ?s" using eq by simp
    then have "unat (va_index hal (2 ^ k) va d) = unat (va_index hal (2 ^ k) va' d)"
      using va_index_eq[OF assms(1) d] by simp
    then show "va_index hal (2 ^ k) va d = va_index hal (2 ^ k) va' d" by (rule unsigned_word_eqI)
  qed
qed

end

lemma page_exp_pascal: "page_exp pascal_mmu_mode_hal k \<longleftrightarrow> k = 12 \<or> k = 16 \<or> k = 21"
proof -
  have e: "page_sizes_pascal = 2 ^ 21 OR 2 ^ 16 OR 2 ^ 12"
    by (simp add: page_sizes_pascal_def UVM_PAGE_SIZE_2M_def UVM_PAGE_SIZE_64K_def UVM_PAGE_SIZE_4K_def)
  have p: "page_exp pascal_mmu_mode_hal k \<longleftrightarrow> bit page_sizes_pascal k"
    by (simp add: page_exp_def pascal_mmu_mode_hal_def)
  show ?thesis unfolding p e by (simp only: bit_or_iff bit_exp_iff) auto
qed

lemma page_exp_kepler_64: "page_exp kepler_64_mmu_mode_hal k \<longleftrightarrow> k = 12 \<or> k = 16"
proof -
  have e: "page_sizes_kepler_64 = 2 ^ 16 OR 2 ^ 12"
    by (simp add: page_sizes_kepler_64_def UVM_PAGE_SIZE_64K_def UVM_PAGE_SIZE_4K_def)
  have p: "page_exp kepler_64_mmu_mode_hal k \<longleftrightarrow> bit page_sizes_kepler_64 k"
    by (simp add: page_exp_def kepler_64_mmu_mode_hal_def)
  show ?thesis unfolding p e by (simp only: bit_or_iff bit_exp_iff) auto
qed

lemma page_exp_kepler_128: "page_exp kepler_128_mmu_mode_hal k \<longleftrightarrow> k = 12 \<or> k = 17"
proof -
  have e: "page_sizes_kepler_128 = 2 ^ 17 OR 2 ^ 12"
    by (simp add: page_sizes_kepler_128_def UVM_PAGE_SIZE_128K_def UVM_PAGE_SIZE_4K_def)
  have p: "page_exp kepler_128_mmu_mode_hal k \<longleftrightarrow> bit page_sizes_kepler_128 k"
    by (simp add: page_exp_def kepler_128_mmu_mode_hal_def)
  show ?thesis unfolding p e by (simp only: bit_or_iff bit_exp_iff) auto
qed

lemmas page_size_defs = UVM_PAGE_SIZE_4K_def UVM_PAGE_SIZE_64K_def UVM_PAGE_SIZE_128K_def UVM_PAGE_SIZE_2M_def

lemma pt_depth_simps:
  "pt_depth pascal_mmu_mode_hal 12 = 4" "pt_depth pascal_mmu_mode_hal 16 = 4" "pt_depth pascal_mmu_mode_hal 21 = 3"
  "pt_depth kepler_64_mmu_mode_hal k = 1" "pt_depth kepler_128_mmu_mode_hal k = 1"
  by (simp_all add: pt_depth_def pascal_mmu_mode_hal_def kepler_64_mmu_mode_hal_def kepler_128_mmu_mode_hal_def
      page_table_depth_pascal_def page_table_depth_kepler_def page_size_defs)

lemmas geometry_simps = pascal_mmu_mode_hal_def kepler_64_mmu_mode_hal_def kepler_128_mmu_mode_hal_def
  num_va_bits_pascal_def num_va_bits_kepler_def index_bits_pascal_def index_bits_kepler_64_def
  index_bits_kepler_128_def entry_size_pascal_def entry_size_kepler_def allocation_size_pascal_def
  allocation_size_kepler_64_def allocation_size_kepler_128_def entries_per_index_pascal_def
  entries_per_index_kepler_def entry_offset_pascal_def entry_offset_kepler_def UVM_PAGE_SIZE_AGNOSTIC_def
  MMU_BIG_def MMU_SMALL_def page_size_defs

lemma le4_cases: "d \<le> (4::nat) \<Longrightarrow> d = 0 \<or> d = 1 \<or> d = 2 \<or> d = 3 \<or> d = 4"
  by linarith

lemma sum_lt_5: "(\<Sum>d < Suc 4. f d) = f 0 + f 1 + f 2 + f 3 + f (4::nat)" for f :: "nat \<Rightarrow> nat"
  by (simp add: numeral_eq_Suc)

lemma sum_lt_4: "(\<Sum>d < Suc 3. f d) = f 0 + f 1 + f 2 + f (3::nat)" for f :: "nat \<Rightarrow> nat"
  by (simp add: numeral_eq_Suc)

lemma sum_lt_2: "(\<Sum>d < Suc 1. f d) = f 0 + f (1::nat)" for f :: "nat \<Rightarrow> nat"
  by simp

interpretation pascal: mmu_geometry pascal_mmu_mode_hal
proof
  fix j k assume "page_exp pascal_mmu_mode_hal j" "page_exp pascal_mmu_mode_hal k" "j \<le> k"
  then show "pt_depth pascal_mmu_mode_hal k \<le> pt_depth pascal_mmu_mode_hal j"
    by (auto simp: page_exp_pascal pt_depth_simps)
next
  fix k assume "page_exp pascal_mmu_mode_hal k"
  then show "bits_above pascal_mmu_mode_hal k (Suc (pt_depth pascal_mmu_mode_hal k)) + k = unat (hal_num_va_bits pascal_mmu_mode_hal)"
    by (simp only: page_exp_pascal, elim disjE; simp only: pt_depth_simps bits_above_def sum_lt_5 sum_lt_4)
      (simp_all add: geometry_simps)
next
  show "unat (hal_num_va_bits pascal_mmu_mode_hal) < 64" by (simp add: geometry_simps)
next
  fix k d assume k: "page_exp pascal_mmu_mode_hal k" and "d \<le> pt_depth pascal_mmu_mode_hal k"
  then have d: "d = 0 \<or> d = 1 \<or> d = 2 \<or> d = 3 \<or> d = 4" by (intro le4_cases) (auto simp: page_exp_pascal pt_depth_simps)
  show "unat (hal_index_bits pascal_mmu_mode_hal (of_nat d) (2 ^ k)) < 32"
    using d by (elim disjE) (simp_all add: geometry_simps)
  show "unat (hal_entry_size pascal_mmu_mode_hal (of_nat d)) * 2 ^ unat (hal_index_bits pascal_mmu_mode_hal (of_nat d) (2 ^ k)) \<le>
        unat (hal_allocation_size pascal_mmu_mode_hal (of_nat d) (2 ^ k))"
    using d k[unfolded page_exp_pascal] by (elim disjE) (simp_all add: geometry_simps)
next
  fix k d assume k: "page_exp pascal_mmu_mode_hal k" and "d < pt_depth pascal_mmu_mode_hal k"
  then have "d = 0 \<or> d = 1 \<or> d = 2 \<or> d = 3" by (auto simp: page_exp_pascal pt_depth_simps)
  then show "hal_index_bits pascal_mmu_mode_hal (of_nat d) (2 ^ k) =
      hal_index_bits pascal_mmu_mode_hal (of_nat d) UVM_PAGE_SIZE_AGNOSTIC"
    by (elim disjE) (simp_all add: geometry_simps)
next
  fix d p show "unat (hal_entry_offset pascal_mmu_mode_hal d p) < unat (hal_entries_per_index pascal_mmu_mode_hal d)"
    by (simp add: geometry_simps)
qed

interpretation kepler_64: mmu_geometry kepler_64_mmu_mode_hal
proof
  fix k assume "page_exp kepler_64_mmu_mode_hal k"
  then show "bits_above kepler_64_mmu_mode_hal k (Suc (pt_depth kepler_64_mmu_mode_hal k)) + k = unat (hal_num_va_bits kepler_64_mmu_mode_hal)"
    by (simp only: page_exp_kepler_64, elim disjE; simp only: pt_depth_simps bits_above_def sum_lt_2)
      (simp_all add: geometry_simps)
next
  fix k d assume k: "page_exp kepler_64_mmu_mode_hal k" and "d \<le> pt_depth kepler_64_mmu_mode_hal k"
  then have d: "d = 0 \<or> d = 1" by (auto simp: pt_depth_simps)
  show "unat (hal_index_bits kepler_64_mmu_mode_hal (of_nat d) (2 ^ k)) < 32"
    using d by (elim disjE) (simp_all add: geometry_simps)
  show "unat (hal_entry_size kepler_64_mmu_mode_hal (of_nat d)) * 2 ^ unat (hal_index_bits kepler_64_mmu_mode_hal (of_nat d) (2 ^ k)) \<le>
        unat (hal_allocation_size kepler_64_mmu_mode_hal (of_nat d) (2 ^ k))"
    using d k[unfolded page_exp_kepler_64] by (elim disjE) (simp_all add: geometry_simps)
next
  fix j k show "pt_depth kepler_64_mmu_mode_hal k \<le> pt_depth kepler_64_mmu_mode_hal j" by (simp only: pt_depth_simps)
next
  fix k d assume "d < pt_depth kepler_64_mmu_mode_hal k"
  then have "d = 0" by (simp add: pt_depth_simps)
  then show "hal_index_bits kepler_64_mmu_mode_hal (of_nat d) (2 ^ k) =
      hal_index_bits kepler_64_mmu_mode_hal (of_nat d) UVM_PAGE_SIZE_AGNOSTIC"
    by (simp add: geometry_simps)
qed (simp_all add: geometry_simps)

interpretation kepler_128: mmu_geometry kepler_128_mmu_mode_hal
proof
  fix k assume "page_exp kepler_128_mmu_mode_hal k"
  then show "bits_above kepler_128_mmu_mode_hal k (Suc (pt_depth kepler_128_mmu_mode_hal k)) + k = unat (hal_num_va_bits kepler_128_mmu_mode_hal)"
    by (simp only: page_exp_kepler_128, elim disjE; simp only: pt_depth_simps bits_above_def sum_lt_2)
      (simp_all add: geometry_simps)
next
  fix k d assume k: "page_exp kepler_128_mmu_mode_hal k" and "d \<le> pt_depth kepler_128_mmu_mode_hal k"
  then have d: "d = 0 \<or> d = 1" by (auto simp: pt_depth_simps)
  show "unat (hal_index_bits kepler_128_mmu_mode_hal (of_nat d) (2 ^ k)) < 32"
    using d by (elim disjE) (simp_all add: geometry_simps)
  show "unat (hal_entry_size kepler_128_mmu_mode_hal (of_nat d)) * 2 ^ unat (hal_index_bits kepler_128_mmu_mode_hal (of_nat d) (2 ^ k)) \<le>
        unat (hal_allocation_size kepler_128_mmu_mode_hal (of_nat d) (2 ^ k))"
    using d k[unfolded page_exp_kepler_128] by (elim disjE) (simp_all add: geometry_simps)
next
  fix j k show "pt_depth kepler_128_mmu_mode_hal k \<le> pt_depth kepler_128_mmu_mode_hal j" by (simp only: pt_depth_simps)
next
  fix k d assume "d < pt_depth kepler_128_mmu_mode_hal k"
  then have "d = 0" by (simp add: pt_depth_simps)
  then show "hal_index_bits kepler_128_mmu_mode_hal (of_nat d) (2 ^ k) =
      hal_index_bits kepler_128_mmu_mode_hal (of_nat d) UVM_PAGE_SIZE_AGNOSTIC"
    by (simp add: geometry_simps)
qed (simp_all add: geometry_simps)

definition mmu_formats :: "uvm_mmu_mode_hal list" where
  "mmu_formats = [pascal_mmu_mode_hal, kepler_64_mmu_mode_hal, kepler_128_mmu_mode_hal]"

lemma mmu_formats_geometry: "hal \<in> set mmu_formats \<Longrightarrow> mmu_geometry hal"
  using pascal.mmu_geometry_axioms kepler_64.mmu_geometry_axioms kepler_128.mmu_geometry_axioms
  by (auto simp: mmu_formats_def)

text \<open>
  C39. The indices into the page tables identify a page. In every format, for every page size it
  supports, two addresses of the virtual address space have the same index at each depth down to the
  page table exactly when they lie in the same page.
\<close>

theorem mmu_index_unique:
  assumes "hal \<in> set mmu_formats" "page_exp hal k"
    and "unat va < 2 ^ unat (hal_num_va_bits hal)" "unat va' < 2 ^ unat (hal_num_va_bits hal)"
  shows "(\<forall>d \<le> pt_depth hal k. va_index hal (2 ^ k) va d = va_index hal (2 ^ k) va' d) \<longleftrightarrow>
    unat va div 2 ^ k = unat va' div 2 ^ k"
  using mmu_geometry.index_unique[OF mmu_formats_geometry[OF assms(1)] assms(2-4)] .

lemma mmu_index_unique_witness:
  "\<not> (\<forall>d \<le> pt_depth pascal_mmu_mode_hal 21. va_index pascal_mmu_mode_hal (2 ^ 21) 0x40000000 d =
    va_index pascal_mmu_mode_hal (2 ^ 21) 0x40200000 d)"
proof -
  have "pascal_mmu_mode_hal \<in> set mmu_formats" "page_exp pascal_mmu_mode_hal 21"
    by (simp_all add: mmu_formats_def page_exp_pascal)
  moreover have "unat (0x40000000 :: u64) < 2 ^ unat (hal_num_va_bits pascal_mmu_mode_hal)"
    "unat (0x40200000 :: u64) < 2 ^ unat (hal_num_va_bits pascal_mmu_mode_hal)"
    by (simp_all add: geometry_simps)
  ultimately show ?thesis
    using mmu_index_unique[of pascal_mmu_mode_hal 21 "0x40000000" "0x40200000"] by simp
qed

end
