(* ===== verification/Tlb_Batch.thy ===== *)
theory Tlb_Batch
  imports Mmu_Format
begin

text \<open>
  \<^verbatim>\<open>uvm8_tlb_batch.c\<close>: TLB invalidates gathered over a batch of page table changes. Up to
  \<^verbatim>\<open>UVM_TLB_BATCH_MAX_ENTRIES\<close> ranges with few pages are invalidated one by one; anything larger
  becomes one invalidate of everything. The HAL's invalidates are recorded as operations of the
  push; the page tree and the GPU are arguments that give the properties the batch reads.
\<close>

section \<open>The batch\<close>

definition UVM_TLB_BATCH_MAX_ENTRIES :: u32 where
  "UVM_TLB_BATCH_MAX_ENTRIES = 4"

record uvm_tlb_batch_range =
  tlb_start :: u64
  tlb_size :: u64
  tlb_page_sizes :: u32

text \<open>What the batch reads of the page tree, its GPU and their HALs.\<close>

record tlb_tree =
  tree_pdb_addr :: uvm_gpu_phys_address
  tree_hal :: uvm_mmu_mode_hal
  va_invalidate_supported :: bool
  max_pages :: u32

record uvm_tlb_batch =
  tlb_tree :: tlb_tree
  total_pages :: u32
  tlb_ranges :: "uvm_tlb_batch_range list"
  tlb_count :: u32
  tlb_biggest_page_size :: u32
  tlb_membar :: uvm_membar

datatype tlb_op =
  Tlb_invalidate_all (op_pdb: uvm_gpu_phys_address) (op_depth: u32) (op_membar: uvm_membar)
| Tlb_invalidate_va (op_pdb: uvm_gpu_phys_address) (op_depth: u32) (op_base: u64) (op_va_size: u64)
    (op_page_size: u32) (op_membar: uvm_membar)

definition uvm_tlb_batch_begin :: "tlb_tree \<Rightarrow> uvm_tlb_batch" where
  "uvm_tlb_batch_begin tree =
     \<lparr>tlb_tree = tree, total_pages = 0,
      tlb_ranges = replicate 4 \<lparr>tlb_start = 0, tlb_size = 0, tlb_page_sizes = 0\<rparr>,
      tlb_count = 0, tlb_biggest_page_size = 0, tlb_membar = UVM_MEMBAR_NONE\<rparr>"

text \<open>Linux \<^verbatim>\<open>__ffs\<close> and \<^verbatim>\<open>__fls\<close> (also \<^verbatim>\<open>ilog2\<close>): the lowest and the highest set bit. The code does
  not call them on 0.\<close>

definition ffs :: "'a :: len word \<Rightarrow> nat" where
  "ffs w = hd (filter (bit w) [0..<LENGTH('a)] @ [0])"

definition fls :: "'a :: len word \<Rightarrow> nat" where
  "fls w = last (0 # filter (bit w) [0..<LENGTH('a)])"

definition smallest_page_size :: "u32 \<Rightarrow> u32" where
  "smallest_page_size page_sizes = push_bit (ffs page_sizes) 1"

definition biggest_page_size :: "u32 \<Rightarrow> u32" where
  "biggest_page_size page_sizes = push_bit (fls page_sizes) 1"

definition uvm_div_pow2_64 :: "u64 \<Rightarrow> u64 \<Rightarrow> u64" where
  "uvm_div_pow2_64 numerator denominator_pow2 = drop_bit (fls denominator_pow2) numerator"

fun tlb_flush_loop :: "uvm_tlb_batch \<Rightarrow> nat \<Rightarrow> nat \<Rightarrow> uvm_membar \<Rightarrow> tlb_op list \<Rightarrow> tlb_op list" where
  "tlb_flush_loop b i 0 membar push = push"
| "tlb_flush_loop b i (Suc n) membar push =
     (let entry = tlb_ranges b ! i;
          min_page_size = smallest_page_size (tlb_page_sizes entry);
          max_page_size = biggest_page_size (tlb_page_sizes entry);
          depth = hal_page_table_depth (tree_hal (tlb_tree b)) max_page_size;
          membar = (if n = 0 then tlb_membar b else membar)
      in tlb_flush_loop b (Suc i) n membar
           (push @ [Tlb_invalidate_va (tree_pdb_addr (tlb_tree b)) depth (tlb_start entry) (tlb_size entry)
              min_page_size membar]))"

definition tlb_batch_flush_invalidate_per_va :: "uvm_tlb_batch \<Rightarrow> tlb_op list \<Rightarrow> tlb_op list" where
  "tlb_batch_flush_invalidate_per_va b push = tlb_flush_loop b 0 (unat (tlb_count b)) UVM_MEMBAR_NONE push"

definition tlb_batch_flush_invalidate_all :: "uvm_tlb_batch \<Rightarrow> tlb_op list \<Rightarrow> tlb_op list" where
  "tlb_batch_flush_invalidate_all b push =
     push @ [Tlb_invalidate_all (tree_pdb_addr (tlb_tree b)) (hal_page_table_depth (tree_hal (tlb_tree b)) (tlb_biggest_page_size b))
       (tlb_membar b)]"

definition tlb_batch_should_invalidate_all :: "uvm_tlb_batch \<Rightarrow> bool" where
  "tlb_batch_should_invalidate_all b \<longleftrightarrow>
     \<not> va_invalidate_supported (tlb_tree b) \<or> tlb_count b > UVM_TLB_BATCH_MAX_ENTRIES \<or>
     total_pages b > max_pages (tlb_tree b)"

definition uvm_tlb_batch_end :: "uvm_tlb_batch \<Rightarrow> tlb_op list \<Rightarrow> uvm_membar \<Rightarrow> tlb_op list" where
  "uvm_tlb_batch_end b push membar =
     (if tlb_count b = 0 then push
      else
        let b = b\<lparr>tlb_membar := uvm_membar_max membar (tlb_membar b)\<rparr>
        in if tlb_batch_should_invalidate_all b then tlb_batch_flush_invalidate_all b push
           else tlb_batch_flush_invalidate_per_va b push)"

definition uvm_tlb_batch_invalidate ::
  "uvm_tlb_batch \<Rightarrow> u64 \<Rightarrow> u64 \<Rightarrow> u32 \<Rightarrow> uvm_membar \<Rightarrow> uvm_tlb_batch" where
  "uvm_tlb_batch_invalidate b start sz page_sizes membar =
     (let b = b\<lparr>tlb_membar := uvm_membar_max membar (tlb_membar b), tlb_count := tlb_count b + 1,
            total_pages := total_pages b + ucast (uvm_div_pow2_64 sz (ucast (smallest_page_size page_sizes))),
            tlb_biggest_page_size := max (tlb_biggest_page_size b) (biggest_page_size page_sizes)\<rparr>
      in if tlb_batch_should_invalidate_all b then b
         else b\<lparr>tlb_ranges := (tlb_ranges b)[unat (tlb_count b - 1) :=
                  \<lparr>tlb_start = start, tlb_size = sz, tlb_page_sizes = page_sizes\<rparr>]\<rparr>)"

definition uvm_tlb_batch_single_invalidate ::
  "tlb_tree \<Rightarrow> tlb_op list \<Rightarrow> u64 \<Rightarrow> u64 \<Rightarrow> u32 \<Rightarrow> uvm_membar \<Rightarrow> tlb_op list" where
  "uvm_tlb_batch_single_invalidate tree push start sz page_sizes membar =
     uvm_tlb_batch_end (uvm_tlb_batch_invalidate (uvm_tlb_batch_begin tree) start sz page_sizes UVM_MEMBAR_NONE)
       push membar"

section \<open>Page sizes\<close>

lemma set_bits_nonempty:
  fixes w :: "'a :: len word"
  assumes "w \<noteq> 0"
  shows "filter (bit w) [0..<LENGTH('a)] \<noteq> []"
proof -
  obtain n where "bit w n" using assms by (auto simp: bit_eq_iff)
  then show ?thesis using bit_imp_le_length by (fastforce simp: filter_empty_conv)
qed

lemma ffs_props:
  fixes w :: "'a :: len word"
  assumes "w \<noteq> 0"
  shows "bit w (ffs w)" and "bit w n \<Longrightarrow> ffs w \<le> n" and "ffs w < LENGTH('a)"
proof -
  let ?l = "filter (bit w) [0..<LENGTH('a)]"
  have ne: "?l \<noteq> []" using set_bits_nonempty[OF assms] .
  have h: "ffs w = hd ?l" using ne by (simp add: ffs_def)
  have "ffs w \<in> set ?l" unfolding h using ne by (rule hd_in_set)
  then show "bit w (ffs w)" "ffs w < LENGTH('a)" by auto
  have s: "sorted ?l" by (rule sorted_wrt_filter) simp
  show "ffs w \<le> n" if "bit w n"
  proof -
    have "n \<in> set ?l" using that bit_imp_le_length by fastforce
    then show ?thesis unfolding h using s ne by (cases ?l) auto
  qed
qed

lemma fls_props:
  fixes w :: "'a :: len word"
  assumes "w \<noteq> 0"
  shows "bit w (fls w)" and "bit w n \<Longrightarrow> n \<le> fls w" and "fls w < LENGTH('a)"
proof -
  let ?l = "filter (bit w) [0..<LENGTH('a)]"
  have ne: "?l \<noteq> []" using set_bits_nonempty[OF assms] .
  have h: "fls w = last ?l" using ne by (simp add: fls_def)
  have "fls w \<in> set ?l" unfolding h using ne by (rule last_in_set)
  then show "bit w (fls w)" "fls w < LENGTH('a)" by auto
  have s: "sorted ?l" by (rule sorted_wrt_filter) simp
  show "n \<le> fls w" if "bit w n"
  proof -
    have n: "n \<in> set ?l" using that bit_imp_le_length by fastforce
    have "?l = butlast ?l @ [last ?l]" using ne by simp
    then have "sorted (butlast ?l @ [last ?l])" "n \<in> set (butlast ?l @ [last ?l])" using s n by simp_all
    then show ?thesis unfolding h by (auto simp: sorted_append)
  qed
qed

lemma fls_power:
  assumes "k < LENGTH('a :: len)"
  shows "fls (push_bit k (1 :: 'a word)) = k"
proof -
  have b: "bit (push_bit k (1 :: 'a word)) n \<longleftrightarrow> n = k" for n using assms by (auto simp: bit_simps)
  then have "push_bit k (1 :: 'a word) \<noteq> 0" by (metis bit_0_eq bot_apply bot_bool_def)
  from fls_props(1)[OF this] show ?thesis using b by simp
qed

section \<open>The reference: what the calls ask for\<close>

type_synonym tlb_call = "u64 \<times> u64 \<times> u32 \<times> uvm_membar"

fun call_pages :: "tlb_call \<Rightarrow> nat" where
  "call_pages (start, sz, page_sizes, membar) = unat sz div 2 ^ ffs page_sizes"

fun call_page_sizes :: "tlb_call \<Rightarrow> u32" where
  "call_page_sizes (start, sz, page_sizes, membar) = page_sizes"

fun call_membar :: "tlb_call \<Rightarrow> uvm_membar" where
  "call_membar (start, sz, page_sizes, membar) = membar"

fun call_range :: "tlb_call \<Rightarrow> uvm_tlb_batch_range" where
  "call_range (start, sz, page_sizes, membar) = \<lparr>tlb_start = start, tlb_size = sz, tlb_page_sizes = page_sizes\<rparr>"

fun tlb_step :: "uvm_tlb_batch \<Rightarrow> tlb_call \<Rightarrow> uvm_tlb_batch" where
  "tlb_step b (start, sz, page_sizes, membar) = uvm_tlb_batch_invalidate b start sz page_sizes membar"

definition tlb_calls :: "tlb_tree \<Rightarrow> tlb_call list \<Rightarrow> uvm_tlb_batch" where
  "tlb_calls tree cs = foldl tlb_step (uvm_tlb_batch_begin tree) cs"

definition too_many :: "tlb_tree \<Rightarrow> tlb_call list \<Rightarrow> bool" where
  "too_many tree cs \<longleftrightarrow> \<not> va_invalidate_supported tree \<or> 4 < length cs \<or>
     unat (max_pages tree) < sum_list (map call_pages cs)"

definition va_op :: "tlb_tree \<Rightarrow> uvm_membar \<Rightarrow> tlb_call \<Rightarrow> tlb_op" where
  "va_op tree m c =
     (let r = call_range c
      in Tlb_invalidate_va (tree_pdb_addr tree) (hal_page_table_depth (tree_hal tree) (biggest_page_size (tlb_page_sizes r)))
           (tlb_start r) (tlb_size r) (smallest_page_size (tlb_page_sizes r)) m)"

definition tlb_reference :: "tlb_tree \<Rightarrow> tlb_call list \<Rightarrow> uvm_membar \<Rightarrow> tlb_op list" where
  "tlb_reference tree cs m =
     (let membar = Max (insert m (set (map call_membar cs)));
          biggest = Max (set (map (\<lambda>c. biggest_page_size (call_page_sizes c)) cs))
      in if cs = [] then []
         else if too_many tree cs
         then [Tlb_invalidate_all (tree_pdb_addr tree) (hal_page_table_depth (tree_hal tree) biggest) membar]
         else map (va_op tree UVM_MEMBAR_NONE) (butlast cs) @ [va_op tree membar (last cs)])"

section \<open>The equivalence\<close>

definition tlb_inv :: "tlb_tree \<Rightarrow> tlb_call list \<Rightarrow> uvm_tlb_batch \<Rightarrow> bool" where
  "tlb_inv tree cs b \<longleftrightarrow> tlb_tree b = tree \<and> tlb_count b = of_nat (length cs) \<and>
     unat (total_pages b) = sum_list (map call_pages cs) \<and> length (tlb_ranges b) = 4 \<and>
     tlb_biggest_page_size b = Max (insert 0 (set (map (\<lambda>c. biggest_page_size (call_page_sizes c)) cs))) \<and>
     tlb_membar b = Max (insert UVM_MEMBAR_NONE (set (map call_membar cs))) \<and>
     (\<not> too_many tree cs \<longrightarrow> take (length cs) (tlb_ranges b) = map call_range cs)"

lemma div_pow2: 
  assumes "page_sizes \<noteq> 0"
  shows "unat (uvm_div_pow2_64 sz (ucast (smallest_page_size page_sizes))) = unat sz div 2 ^ ffs page_sizes"
proof -
  have k: "ffs page_sizes < 32" using ffs_props(3)[OF assms] by simp
  have "(ucast (smallest_page_size page_sizes) :: u64) = push_bit (ffs page_sizes) 1"
    by (rule bit_word_eqI) (use k in \<open>auto simp: smallest_page_size_def bit_simps\<close>)
  then have "uvm_div_pow2_64 sz (ucast (smallest_page_size page_sizes)) = drop_bit (ffs page_sizes) sz"
    using k fls_power[of "ffs page_sizes", where 'a = 64] by (simp add: uvm_div_pow2_64_def del: push_bit_of_1)
  then have "unat (uvm_div_pow2_64 sz (ucast (smallest_page_size page_sizes))) = drop_bit (ffs page_sizes) (unat sz)"
    by (simp only: unat_drop_bit_eq)
  then show ?thesis by (simp only: drop_bit_eq_div)
qed

lemma should_iff:
  assumes "tlb_tree b = tree" "tlb_count b = of_nat (length cs)" "length cs < 2 ^ 32"
    and "unat (total_pages b) = sum_list (map call_pages cs)"
  shows "tlb_batch_should_invalidate_all b = too_many tree cs"
  using assms by (simp add: tlb_batch_should_invalidate_all_def too_many_def UVM_TLB_BATCH_MAX_ENTRIES_def
      word_less_nat_alt unat_of_nat)

lemma Max_insert_second: "finite A \<Longrightarrow> Max (insert a (insert x A)) = max x (Max (insert a (A :: 'a :: linorder set)))"
  by (subst insert_commute) (simp add: Max_insert)

lemma too_many_prefix: "too_many tree cs \<Longrightarrow> too_many tree (cs @ [c])"
  by (auto simp: too_many_def)

lemma tlb_inv_step:
  assumes inv: "tlb_inv tree cs b" and ps: "call_page_sizes c \<noteq> 0" and len: "length cs + 1 < 2 ^ 32"
    and sum: "sum_list (map call_pages (cs @ [c])) < 2 ^ 32"
  shows "tlb_inv tree (cs @ [c]) (tlb_step b c)"
proof -
  obtain s z p m where c: "c = (s, z, p, m)" by (cases c) auto
  let ?b = "b\<lparr>tlb_membar := uvm_membar_max m (tlb_membar b), tlb_count := tlb_count b + 1,
    total_pages := total_pages b + ucast (uvm_div_pow2_64 z (ucast (smallest_page_size p))),
    tlb_biggest_page_size := max (tlb_biggest_page_size b) (biggest_page_size p)\<rparr>"
  have n: "tlb_count ?b = of_nat (length (cs @ [c]))" using inv by (simp add: tlb_inv_def)
  have t: "unat (total_pages ?b) = sum_list (map call_pages (cs @ [c]))"
  proof -
    have "unat (ucast (uvm_div_pow2_64 z (ucast (smallest_page_size p))) :: u32) = call_pages c"
      using ps sum by (simp add: c unsigned_ucast_eq take_bit_eq_mod div_pow2)
    then show ?thesis using inv sum by (simp add: tlb_inv_def unat_word_ariths)
  qed
  have sh: "tlb_batch_should_invalidate_all ?b = too_many tree (cs @ [c])"
    using should_iff[of ?b tree "cs @ [c]"] inv n t len by (simp add: tlb_inv_def)
  have k: "unat (tlb_count ?b - 1) = length cs" using inv len by (simp add: tlb_inv_def unat_of_nat)
  show ?thesis
  proof (cases "too_many tree (cs @ [c])")
    case True
    then have "tlb_step b c = ?b" using sh by (simp add: c uvm_tlb_batch_invalidate_def Let_def)
    then show ?thesis using inv True n t
      by (simp add: tlb_inv_def c uvm_membar_max_def max.commute Max_insert_second del: Max_insert)
  next
    case False
    then have "\<not> too_many tree cs" using too_many_prefix by blast
    then have tk: "take (length cs) (tlb_ranges b) = map call_range cs" using inv by (simp add: tlb_inv_def)
    have l: "length cs < 4" using False by (simp add: too_many_def)
    have "tlb_step b c = ?b\<lparr>tlb_ranges := (tlb_ranges ?b)[length cs := call_range c]\<rparr>"
      using sh False k by (simp add: c uvm_tlb_batch_invalidate_def Let_def)
    moreover have "take (Suc (length cs)) ((tlb_ranges b)[length cs := call_range c]) = map call_range (cs @ [c])"
      using tk l inv by (simp add: tlb_inv_def take_Suc_conv_app_nth)
    ultimately show ?thesis using inv n t
      by (simp add: tlb_inv_def c uvm_membar_max_def max.commute Max_insert_second del: Max_insert)
  qed
qed

lemma tlb_inv_calls:
  assumes "\<forall>c \<in> set cs. call_page_sizes c \<noteq> 0" "length cs < 2 ^ 32" "sum_list (map call_pages cs) < 2 ^ 32"
  shows "tlb_inv tree cs (tlb_calls tree cs)"
  using assms
proof (induction cs rule: rev_induct)
  case Nil
  then show ?case by (simp add: tlb_inv_def tlb_calls_def uvm_tlb_batch_begin_def)
next
  case (snoc c cs)
  then have "tlb_inv tree cs (tlb_calls tree cs)" by simp
  from tlb_inv_step[OF this] snoc.prems show ?case by (simp add: tlb_calls_def)
qed

lemma tlb_flush_loop_Suc:
  assumes "call_range c = tlb_ranges b ! i"
  shows "tlb_flush_loop b i (Suc n) membar push =
    (let membar = (if n = 0 then tlb_membar b else membar)
     in tlb_flush_loop b (Suc i) n membar (push @ [va_op (tlb_tree b) membar c]))"
  using assms by (simp add: va_op_def Let_def)

declare tlb_flush_loop.simps(2) [simp del]

lemma tlb_flush_loop_eq:
  assumes "i + Suc n \<le> length (tlb_ranges b)" "take (Suc n) (drop i (tlb_ranges b)) = map call_range cs"
  shows "tlb_flush_loop b i (Suc n) UVM_MEMBAR_NONE push =
    push @ map (va_op (tlb_tree b) UVM_MEMBAR_NONE) (butlast cs) @ [va_op (tlb_tree b) (tlb_membar b) (last cs)]"
  using assms
proof (induction n arbitrary: i cs push)
  case 0
  then have "map call_range cs = [tlb_ranges b ! i]" by (simp add: take_Suc_conv_app_nth)
  then obtain c where "cs = [c]" "call_range c = tlb_ranges b ! i" by auto
  then show ?case by (simp add: tlb_flush_loop_Suc)
next
  case (Suc n)
  have "map call_range cs = tlb_ranges b ! i # take (Suc n) (drop (Suc i) (tlb_ranges b))"
    using Suc.prems by (metis Cons_nth_drop_Suc Suc_le_lessD add_Suc_right add_lessD1 take_Suc_Cons)
  then obtain c cs' where cs: "cs = c # cs'" "call_range c = tlb_ranges b ! i"
    "map call_range cs' = take (Suc n) (drop (Suc i) (tlb_ranges b))" by auto
  then have ne: "cs' \<noteq> []" using Suc.prems by auto
  show ?case
    using Suc.IH[of "Suc i" cs'] Suc.prems cs ne by (simp add: tlb_flush_loop_Suc)
qed

text \<open>
  C35. A TLB batch is equivalent to its reference: what it pushes for any sequence of invalidates is
  nothing, one invalidate of everything below the shallowest page table touched, or one targeted
  invalidate per range in order, chosen by the number of ranges and of pages; the last one carries
  the strongest membar asked for. The counters are 32 bits wide, so the pages must number less
  than 2 to the 32.
\<close>

theorem tlb_batch_equals_reference:
  assumes "\<forall>c \<in> set cs. call_page_sizes c \<noteq> 0" "length cs < 2 ^ 32" "sum_list (map call_pages cs) < 2 ^ 32"
  shows "uvm_tlb_batch_end (tlb_calls tree cs) push m = push @ tlb_reference tree cs m"
proof (cases "cs = []")
  case True
  then show ?thesis by (simp add: tlb_reference_def uvm_tlb_batch_end_def tlb_calls_def uvm_tlb_batch_begin_def)
next
  case False
  let ?b = "tlb_calls tree cs"
  let ?m = "Max (insert m (set (map call_membar cs)))"
  let ?b' = "?b\<lparr>tlb_membar := uvm_membar_max m (tlb_membar ?b)\<rparr>"
  have inv: "tlb_inv tree cs ?b" using tlb_inv_calls[OF assms] .
  have n: "unat (tlb_count ?b) = length cs" using inv assms(2) by (simp add: tlb_inv_def unat_of_nat)
  have fin: "finite (call_membar ` set cs)" "call_membar ` set cs \<noteq> {}" using False by auto
  have "Max (insert UVM_MEMBAR_NONE (call_membar ` set cs)) = Max (call_membar ` set cs)"
    using fin by (simp add: max_def less_eq_uvm_membar_def)
  then have m: "tlb_membar ?b' = ?m" using inv fin by (simp add: tlb_inv_def uvm_membar_max_def)
  have sh: "tlb_batch_should_invalidate_all ?b' = too_many tree cs"
    using should_iff[of ?b' tree cs] inv assms(2) by (simp add: tlb_inv_def)
  have nz: "tlb_count ?b \<noteq> 0" using n False by (metis length_0_conv unsigned_0)
  have "tlb_biggest_page_size ?b = Max (set (map (\<lambda>c. biggest_page_size (call_page_sizes c)) cs))"
    using inv False by (simp add: tlb_inv_def)
  then have all: "tlb_batch_flush_invalidate_all ?b' push = push @ [Tlb_invalidate_all (tree_pdb_addr tree)
      (hal_page_table_depth (tree_hal tree) (Max (set (map (\<lambda>c. biggest_page_size (call_page_sizes c)) cs)))) ?m]"
    using inv m by (simp add: tlb_batch_flush_invalidate_all_def tlb_inv_def)
  have va: "tlb_batch_flush_invalidate_per_va ?b' push =
      push @ map (va_op tree UVM_MEMBAR_NONE) (butlast cs) @ [va_op tree ?m (last cs)]" if "\<not> too_many tree cs"
  proof -
    obtain k where k: "length cs = Suc k" using False by (cases cs) auto
    have "length (tlb_ranges ?b') = 4" "length cs \<le> 4" using inv that by (simp_all add: tlb_inv_def too_many_def)
    moreover have "take (length cs) (tlb_ranges ?b') = map call_range cs" using inv that by (simp add: tlb_inv_def)
    ultimately show ?thesis
      using tlb_flush_loop_eq[of 0 k ?b' cs push] inv n k m
      by (simp add: tlb_batch_flush_invalidate_per_va_def tlb_inv_def)
  qed
  show ?thesis
    using False nz sh all va by (simp add: uvm_tlb_batch_end_def tlb_reference_def Let_def)
qed

definition pascal_tree :: "tlb_tree" where
  "pascal_tree = \<lparr>tree_pdb_addr = \<lparr>phys_address = 0x10000, phys_aperture = UVM_APERTURE_VID\<rparr>,
     tree_hal = pascal_mmu_mode_hal, va_invalidate_supported = True, max_pages = 32\<rparr>"

definition sample_tlb_calls :: "tlb_call list" where
  "sample_tlb_calls = [(0x400000, 0x200000, 0x200000, UVM_MEMBAR_NONE), (0x10000, 0x20000, 0x11000, UVM_MEMBAR_GPU)]"

lemma sample_ffs: "ffs (0x200000 :: u32) = 21" "ffs (0x11000 :: u32) = 12"
  by code_simp+

lemma tlb_batch_equals_reference_witness:
  "uvm_tlb_batch_end (tlb_calls pascal_tree sample_tlb_calls) [] UVM_MEMBAR_SYS =
     tlb_reference pascal_tree sample_tlb_calls UVM_MEMBAR_SYS"
  using tlb_batch_equals_reference[of sample_tlb_calls pascal_tree "[]" UVM_MEMBAR_SYS]
  by (simp add: sample_tlb_calls_def sample_ffs)

section \<open>What an invalidate reaches\<close>

text \<open>
  The translation of the page of size \<open>2 ^ k\<close> at \<open>va\<close> under \<open>pdb\<close> is gone after an invalidate that
  starts at or above the depth of its page table and, if targeted, names an address in the page.
\<close>

fun reaches :: "uvm_mmu_mode_hal \<Rightarrow> uvm_gpu_phys_address \<Rightarrow> nat \<Rightarrow> nat \<Rightarrow> tlb_op \<Rightarrow> bool" where
  "reaches hal pdb va k (Tlb_invalidate_all pdb' d m) \<longleftrightarrow> pdb' = pdb \<and> unat d \<le> pt_depth hal k"
| "reaches hal pdb va k (Tlb_invalidate_va pdb' d base sz page_size m) \<longleftrightarrow>
     pdb' = pdb \<and> unat d \<le> pt_depth hal k \<and>
     (\<exists>i. i * unat page_size < unat sz \<and> va \<le> unat base + i * unat page_size \<and>
        unat base + i * unat page_size < va + 2 ^ k)"

definition supported :: "uvm_mmu_mode_hal \<Rightarrow> u32 \<Rightarrow> bool" where
  "supported hal page_sizes \<longleftrightarrow> page_sizes \<noteq> 0 \<and> page_sizes AND NOT (hal_page_sizes hal) = 0"

lemma supported_bit:
  assumes "supported hal page_sizes" "bit page_sizes k"
  shows "page_exp hal k"
proof (rule ccontr)
  assume "\<not> ?thesis"
  then have "bit (page_sizes AND NOT (hal_page_sizes hal)) k"
    using assms(2) bit_imp_le_length[OF assms(2)] by (simp add: page_exp_def bit_simps)
  then show False using assms(1) by (simp add: supported_def)
qed

lemma unat_smallest: "page_sizes \<noteq> 0 \<Longrightarrow> unat (smallest_page_size page_sizes) = 2 ^ ffs page_sizes"
  using ffs_props(3)[of page_sizes] by (simp add: smallest_page_size_def unat_2_power)

text \<open>The biggest of several sets of sizes has the shallowest page table.\<close>

lemma biggest_depth:
  assumes geo: "mmu_geometry hal" and p: "supported hal page_sizes" and q: "supported hal q"
    and k: "bit page_sizes k" and le: "biggest_page_size page_sizes \<le> biggest_page_size q"
  shows "unat (hal_page_table_depth hal (biggest_page_size q)) \<le> pt_depth hal k"
proof -
  have nz: "page_sizes \<noteq> 0" "q \<noteq> 0" using p q by (simp_all add: supported_def)
  have "unat (biggest_page_size page_sizes) \<le> unat (biggest_page_size q)" using le by (simp add: word_le_nat_alt)
  then have "fls page_sizes \<le> fls q"
    using fls_props(3)[OF nz(1)] fls_props(3)[OF nz(2)] by (simp add: biggest_page_size_def unat_2_power)
  moreover have "k \<le> fls page_sizes" using fls_props(2)[OF nz(1) k] .
  moreover have "page_exp hal k" "page_exp hal (fls q)"
    using supported_bit[OF p k] supported_bit[OF q fls_props(1)[OF nz(2)]] by simp_all
  ultimately have "pt_depth hal (fls q) \<le> pt_depth hal k" by (intro mmu_geometry.depth_antimono[OF geo]) auto
  then show ?thesis by (simp add: biggest_page_size_def pt_depth_def)
qed

text \<open>
  C10. No stale translation survives a TLB batch. For every range of the batch and every page in it,
  of any of the sizes named for it, one of the invalidates pushed reaches the page's translation;
  and the last invalidate carries a membar at least as strong as each one asked for. It holds in every
  page table format, whose page tables are no deeper for bigger pages.
\<close>

theorem tlb_batch_covers:
  assumes calls: "\<forall>c \<in> set cs. supported (tree_hal tree) (call_page_sizes c)" "length cs < 2 ^ 32"
      "sum_list (map call_pages cs) < 2 ^ 32"
    and hal: "tree_hal tree \<in> set mmu_formats"
    and c: "(start, sz, page_sizes, membar) \<in> set cs" and k: "bit page_sizes k"
    and al: "2 ^ ffs page_sizes dvd unat start" "2 ^ k dvd va"
    and va: "unat start \<le> va" "va + 2 ^ k \<le> unat start + unat sz"
  shows "\<exists>ops. uvm_tlb_batch_end (tlb_calls tree cs) push m = push @ ops \<and>
    (\<exists>op \<in> set ops. reaches (tree_hal tree) (tree_pdb_addr tree) va k op) \<and>
    m \<le> op_membar (last ops) \<and> membar \<le> op_membar (last ops)"
proof -
  let ?c = "(start, sz, page_sizes, membar)"
  let ?ops = "tlb_reference tree cs m"
  let ?big = "\<lambda>c. biggest_page_size (call_page_sizes c)"
  let ?M = "Max (insert m (set (map call_membar cs)))"
  have geo: "mmu_geometry (tree_hal tree)" using mmu_formats_geometry[OF hal] .
  have ne: "cs \<noteq> []" using c by auto
  have p0: "page_sizes \<noteq> 0" using k by auto
  have cs0: "\<forall>c \<in> set cs. call_page_sizes c \<noteq> 0" using calls(1) by (simp add: supported_def)
  have sup: "supported (tree_hal tree) page_sizes" using calls(1) c by fastforce
  have mc: "call_membar ?c \<in> set (map call_membar cs)" using c by (simp only: set_map) (rule imageI)
  have M: "m \<le> ?M" "membar \<le> ?M" using mc by (auto intro: Max_ge)
  have "op_membar (last ?ops) = ?M" using ne by (simp add: tlb_reference_def va_op_def Let_def)
  moreover have "\<exists>op \<in> set ?ops. reaches (tree_hal tree) (tree_pdb_addr tree) va k op"
  proof (cases "too_many tree cs")
    case True
    have "Max (set (map ?big cs)) \<in> set (map ?big cs)" using ne by (intro Max_in) auto
    then obtain q where q: "q \<in> set cs" "Max (set (map ?big cs)) = ?big q" by auto
    have "?big ?c \<in> set (map ?big cs)" using c by (simp only: set_map) (rule imageI)
    then have "biggest_page_size page_sizes \<le> ?big q" unfolding q(2)[symmetric] by simp
    from biggest_depth[OF geo sup _ k this] calls(1) q(1)
    show ?thesis using True ne q(2) by (simp add: tlb_reference_def Let_def)
  next
    case False
    let ?p = "2 ^ ffs page_sizes :: nat"
    have "?p dvd 2 ^ k" using ffs_props(2)[OF p0 k] by (simp add: le_imp_power_dvd)
    then have "?p dvd va - unat start" using al by (meson dvd_diff_nat dvd_trans)
    then have "(va - unat start) div ?p * ?p = va - unat start" by simp
    then have "\<exists>i. i * ?p < unat sz \<and> va \<le> unat start + i * ?p \<and> unat start + i * ?p < va + 2 ^ k"
      using va zero_less_power[of "2 :: nat" k] by (intro exI[of _ "(va - unat start) div ?p"]) linarith
    moreover have "unat (hal_page_table_depth (tree_hal tree) (biggest_page_size page_sizes)) \<le> pt_depth (tree_hal tree) k"
      using biggest_depth[OF geo sup sup k] by simp
    ultimately have r: "reaches (tree_hal tree) (tree_pdb_addr tree) va k (va_op tree M' ?c)" for M'
      using unat_smallest[OF p0] by (simp add: va_op_def Let_def)
    have "cs = butlast cs @ [last cs]" using ne by simp
    then have "?c \<in> set (butlast cs @ [last cs])" using c by simp
    then have "?c \<in> set (butlast cs) \<or> ?c = last cs" unfolding set_append list.set by blast
    then show ?thesis using r ne False by (auto simp: tlb_reference_def Let_def)
  qed
  ultimately show ?thesis using M tlb_batch_equals_reference[OF cs0 calls(2,3)] by auto
qed

lemma tlb_batch_covers_witness:
  "\<exists>ops. uvm_tlb_batch_end (tlb_calls pascal_tree sample_tlb_calls) [] UVM_MEMBAR_SYS = [] @ ops \<and>
    (\<exists>op \<in> set ops. reaches (tree_hal pascal_tree) (tree_pdb_addr pascal_tree) 0x20000 16 op) \<and>
    UVM_MEMBAR_SYS \<le> op_membar (last ops) \<and> UVM_MEMBAR_GPU \<le> op_membar (last ops)"
proof (rule tlb_batch_covers[where start = "0x10000" and sz = "0x20000" and page_sizes = "0x11000"])
  show "bit (0x11000 :: u32) 16" by code_simp
  show "(0x10000, 0x20000, 0x11000, UVM_MEMBAR_GPU) \<in> set sample_tlb_calls" by (simp add: sample_tlb_calls_def)
  show "\<forall>c \<in> set sample_tlb_calls. supported (tree_hal pascal_tree) (call_page_sizes c)"
    by (simp add: sample_tlb_calls_def supported_def pascal_tree_def pascal_mmu_mode_hal_def page_sizes_pascal_def
        page_size_defs)
  show "tree_hal pascal_tree \<in> set mmu_formats" by (simp add: pascal_tree_def mmu_formats_def)
qed (simp_all add: sample_tlb_calls_def sample_ffs)

end
