(* ===== verification/Hal_Methods.thy ===== *)
theory Hal_Methods
  imports Gpu_Types Hw_Fields
begin

text \<open>
  What a push writes: the method macros of \<^verbatim>\<open>uvm8_push_macros.h\<close> and the host methods of
  \<^verbatim>\<open>uvm8_kepler_host.c\<close>, \<^verbatim>\<open>uvm8_maxwell_host.c\<close> and \<^verbatim>\<open>uvm8_pascal_host.c\<close>. A push is the list of the words
  written so far. The words decode back to the methods, and the decoded methods of a targeted TLB
  invalidate name the pages of its range.
\<close>

type_synonym push_words = "u32 list"

definition NvU64_LO32 :: "u64 \<Rightarrow> u32" where "NvU64_LO32 n = ucast n"

definition NvU64_HI32 :: "u64 \<Rightarrow> u32" where "NvU64_HI32 n = ucast (drop_bit 32 n)"

definition NvOffset_LO32 :: "u64 \<Rightarrow> u32" where "NvOffset_LO32 n = ucast n"

definition NvOffset_HI32 :: "u64 \<Rightarrow> u32" where "NvOffset_HI32 n = ucast (drop_bit 32 n)"

section \<open>Methods\<close>

abbreviation NVA06F_DMA_METHOD_ADDRESS :: hw_field where "NVA06F_DMA_METHOD_ADDRESS \<equiv> (11, 0)"
abbreviation NVA06F_DMA_METHOD_SUBCHANNEL :: hw_field where "NVA06F_DMA_METHOD_SUBCHANNEL \<equiv> (15, 13)"
abbreviation NVA06F_DMA_METHOD_COUNT :: hw_field where "NVA06F_DMA_METHOD_COUNT \<equiv> (28, 16)"
abbreviation NVA06F_DMA_SEC_OP :: hw_field where "NVA06F_DMA_SEC_OP \<equiv> (31, 29)"

definition UVM_METHOD_COUNT_MAX :: u32 where
  "UVM_METHOD_COUNT_MAX = DRF_MASK NVA06F_DMA_METHOD_COUNT"

definition UVM_SUBCHANNEL_HOST :: u32 where "UVM_SUBCHANNEL_HOST = 0"

definition UVM_SUBCHANNEL_CE :: u32 where "UVM_SUBCHANNEL_CE = 4"

definition UVM_SUBCHANNEL_C076 :: u32 where "UVM_SUBCHANNEL_C076 = 5"

definition UVM_METHOD :: "u32 \<Rightarrow> u32 \<Rightarrow> u32 \<Rightarrow> u32 \<Rightarrow> u32" where
  "UVM_METHOD op_type subch address cnt =
     DRF_DEF NVA06F_DMA_SEC_OP op_type OR DRF_NUM NVA06F_DMA_METHOD_ADDRESS (drop_bit 2 address) OR
     DRF_NUM NVA06F_DMA_METHOD_SUBCHANNEL subch OR DRF_NUM NVA06F_DMA_METHOD_COUNT cnt"

text \<open>\<^verbatim>\<open>NV_PUSH_1U\<close> to \<^verbatim>\<open>NV_PUSH_6U\<close>: an incrementing method at \<open>a1\<close> with its data.\<close>

definition nv_push :: "u32 \<Rightarrow> u32 \<Rightarrow> u32 list \<Rightarrow> push_words \<Rightarrow> push_words" where
  "nv_push subch a1 ds push = push @ [UVM_METHOD 1 subch a1 (of_nat (length ds))] @ ds"

text \<open>The data of a non-incrementing no-op is left as it was: whatever the buffer held.\<close>

definition nv_push_nu_noninc :: "u32 \<Rightarrow> u32 \<Rightarrow> u32 \<Rightarrow> (nat \<Rightarrow> u32) \<Rightarrow> push_words \<Rightarrow> push_words" where
  "nv_push_nu_noninc subch address cnt old push =
     push @ [UVM_METHOD 3 subch address cnt] @ map (\<lambda>i. old (length push + 1 + i)) [0..<unat cnt]"

section \<open>Kepler host methods\<close>

abbreviation NVA06F_SEMAPHORED_OPERATION :: hw_field where "NVA06F_SEMAPHORED_OPERATION \<equiv> (3, 0)"
abbreviation NVA06F_SEMAPHORED_ACQUIRE_SWITCH :: hw_field where "NVA06F_SEMAPHORED_ACQUIRE_SWITCH \<equiv> (12, 12)"
abbreviation NVA06F_SEMAPHORED_RELEASE_WFI :: hw_field where "NVA06F_SEMAPHORED_RELEASE_WFI \<equiv> (20, 20)"
abbreviation NVA06F_SEMAPHORED_RELEASE_SIZE :: hw_field where "NVA06F_SEMAPHORED_RELEASE_SIZE \<equiv> (24, 24)"
abbreviation NVA06F_MEM_OP_A_TLB_INVALIDATE_ADDR :: hw_field where "NVA06F_MEM_OP_A_TLB_INVALIDATE_ADDR \<equiv> (29, 2)"
abbreviation NVA06F_MEM_OP_A_TLB_INVALIDATE_TARGET :: hw_field where "NVA06F_MEM_OP_A_TLB_INVALIDATE_TARGET \<equiv> (31, 30)"
abbreviation NVA06F_MEM_OP_B_OPERATION :: hw_field where "NVA06F_MEM_OP_B_OPERATION \<equiv> (31, 27)"
abbreviation NVA06F_MEM_OP_B_MMU_TLB_INVALIDATE_PDB :: hw_field where "NVA06F_MEM_OP_B_MMU_TLB_INVALIDATE_PDB \<equiv> (0, 0)"
abbreviation NVA06F_MEM_OP_B_MMU_TLB_INVALIDATE_GPC :: hw_field where "NVA06F_MEM_OP_B_MMU_TLB_INVALIDATE_GPC \<equiv> (1, 1)"
abbreviation NVA06F_GP_ENTRY0_GET :: hw_field where "NVA06F_GP_ENTRY0_GET \<equiv> (31, 2)"
abbreviation NVA06F_GP_ENTRY1_GET_HI :: hw_field where "NVA06F_GP_ENTRY1_GET_HI \<equiv> (7, 0)"
abbreviation NVA06F_GP_ENTRY1_PRIV :: hw_field where "NVA06F_GP_ENTRY1_PRIV \<equiv> (8, 8)"
abbreviation NVA06F_GP_ENTRY1_LENGTH :: hw_field where "NVA06F_GP_ENTRY1_LENGTH \<equiv> (30, 10)"

definition uvm_hal_kepler_host_wait_for_idle_a06f :: "push_words \<Rightarrow> push_words" where
  "uvm_hal_kepler_host_wait_for_idle_a06f = nv_push UVM_SUBCHANNEL_HOST 0x50 [0]"

definition uvm_hal_kepler_host_wait_for_idle_a16f :: "push_words \<Rightarrow> push_words" where
  "uvm_hal_kepler_host_wait_for_idle_a16f = nv_push UVM_SUBCHANNEL_HOST 0x78 [0]"

definition uvm_hal_kepler_host_membar_sys :: "push_words \<Rightarrow> push_words" where
  "uvm_hal_kepler_host_membar_sys = nv_push UVM_SUBCHANNEL_HOST 0x2c [DRF_DEF NVA06F_MEM_OP_B_OPERATION 5]"

definition uvm_hal_kepler_host_tlb_invalidate_all ::
  "uvm_gpu_phys_address \<Rightarrow> u32 \<Rightarrow> uvm_membar \<Rightarrow> push_words \<Rightarrow> push_words" where
  "uvm_hal_kepler_host_tlb_invalidate_all pdb depth membar =
     (let target = (if phys_aperture pdb = UVM_APERTURE_VID then DRF_DEF NVA06F_MEM_OP_A_TLB_INVALIDATE_TARGET 0
            else DRF_DEF NVA06F_MEM_OP_A_TLB_INVALIDATE_TARGET 2);
          address = drop_bit 12 (phys_address pdb)
      in nv_push UVM_SUBCHANNEL_HOST 0x28
           [target OR DRF_NUM NVA06F_MEM_OP_A_TLB_INVALIDATE_ADDR (ucast address),
            DRF_DEF NVA06F_MEM_OP_B_OPERATION 9 OR DRF_DEF NVA06F_MEM_OP_B_MMU_TLB_INVALIDATE_PDB 0 OR
              DRF_DEF NVA06F_MEM_OP_B_MMU_TLB_INVALIDATE_GPC 0])"

text \<open>The GPU's own \<^verbatim>\<open>tlb_invalidate_all\<close> is an argument: it is reached through the GPU's table.\<close>

definition uvm_hal_kepler_host_tlb_invalidate_va ::
  "(uvm_gpu_phys_address \<Rightarrow> u32 \<Rightarrow> uvm_membar \<Rightarrow> push_words \<Rightarrow> push_words) \<Rightarrow>
     uvm_gpu_phys_address \<Rightarrow> u32 \<Rightarrow> u64 \<Rightarrow> u64 \<Rightarrow> u32 \<Rightarrow> uvm_membar \<Rightarrow> push_words \<Rightarrow> push_words" where
  "uvm_hal_kepler_host_tlb_invalidate_va tlb_invalidate_all pdb depth base sz page_size membar =
     tlb_invalidate_all pdb depth membar"

fun noop_loop :: "nat \<Rightarrow> u32 \<Rightarrow> (nat \<Rightarrow> u32) \<Rightarrow> push_words \<Rightarrow> push_words option" where
  "noop_loop 0 sz old push = None"
| "noop_loop (Suc fuel) sz old push =
     (if sz = 0 then Some push
      else
        let noop_this_time = min (UVM_METHOD_COUNT_MAX + 1) sz
        in noop_loop fuel (sz - noop_this_time) old
             (nv_push_nu_noninc UVM_SUBCHANNEL_HOST 8 (noop_this_time - 1) old push))"

definition uvm_hal_kepler_host_noop :: "nat \<Rightarrow> u32 \<Rightarrow> (nat \<Rightarrow> u32) \<Rightarrow> push_words \<Rightarrow> push_words option" where
  "uvm_hal_kepler_host_noop fuel sz old push =
     (if sz = 0 then Some push else noop_loop fuel (sz div 4) old push)"

definition uvm_hal_kepler_host_interrupt :: "push_words \<Rightarrow> push_words" where
  "uvm_hal_kepler_host_interrupt = nv_push UVM_SUBCHANNEL_HOST 0x20 [0]"

definition uvm_hal_kepler_host_semaphore_release :: "u64 \<Rightarrow> u32 \<Rightarrow> push_words \<Rightarrow> push_words" where
  "uvm_hal_kepler_host_semaphore_release semaphore_va payload =
     nv_push UVM_SUBCHANNEL_HOST 0x10
       [NvOffset_HI32 semaphore_va, NvOffset_LO32 semaphore_va, payload,
        DRF_DEF NVA06F_SEMAPHORED_OPERATION 2 OR DRF_DEF NVA06F_SEMAPHORED_RELEASE_SIZE 1 OR
          DRF_DEF NVA06F_SEMAPHORED_RELEASE_WFI 1]"

definition uvm_hal_kepler_host_semaphore_acquire :: "u64 \<Rightarrow> u32 \<Rightarrow> push_words \<Rightarrow> push_words" where
  "uvm_hal_kepler_host_semaphore_acquire semaphore_va payload =
     nv_push UVM_SUBCHANNEL_HOST 0x10
       [NvOffset_HI32 semaphore_va, NvOffset_LO32 semaphore_va, payload,
        DRF_DEF NVA06F_SEMAPHORED_ACQUIRE_SWITCH 1 OR DRF_DEF NVA06F_SEMAPHORED_OPERATION 4]"

definition uvm_hal_kepler_host_set_gpfifo_entry :: "u64 \<Rightarrow> u32 \<Rightarrow> u64" where
  "uvm_hal_kepler_host_set_gpfifo_entry pushbuffer_va pushbuffer_length =
     (let fifo_entry_value = (ucast (DRF_NUM NVA06F_GP_ENTRY0_GET (drop_bit 2 (NvU64_LO32 pushbuffer_va))) :: u64)
      in fifo_entry_value OR
           push_bit 32 (ucast (DRF_NUM NVA06F_GP_ENTRY1_GET_HI (NvU64_HI32 pushbuffer_va) OR
             DRF_NUM NVA06F_GP_ENTRY1_LENGTH (drop_bit 2 pushbuffer_length) OR
             DRF_DEF NVA06F_GP_ENTRY1_PRIV 1)))"

definition uvm_hal_kepler_host_init_noop :: "push_words \<Rightarrow> push_words" where
  "uvm_hal_kepler_host_init_noop push = push"

datatype invalidate_membar = UvmInvalidateTlbMemBarNone | UvmInvalidateTlbMemBarSys | UvmInvalidateTlbMemBarLocal

record UVM_TEST_INVALIDATE_TLB_PARAMS =
  target_pdb_mode_one :: bool
  target_va_mode_targeted :: bool
  test_va :: u64
  test_page_table_level :: u32
  test_membar :: invalidate_membar
  disable_gpc_invalidate :: bool

definition uvm_hal_kepler_host_tlb_invalidate_test ::
  "uvm_gpu_phys_address \<Rightarrow> UVM_TEST_INVALIDATE_TLB_PARAMS \<Rightarrow> push_words \<Rightarrow> push_words" where
  "uvm_hal_kepler_host_tlb_invalidate_test pdb params =
     (let address = drop_bit 12 (phys_address pdb);
          (target_pdb, pdb_mode_value) =
            (if target_pdb_mode_one params
             then ((if phys_aperture pdb = UVM_APERTURE_VID then DRF_DEF NVA06F_MEM_OP_A_TLB_INVALIDATE_TARGET 0
                    else DRF_DEF NVA06F_MEM_OP_A_TLB_INVALIDATE_TARGET 2) OR
                    DRF_NUM NVA06F_MEM_OP_A_TLB_INVALIDATE_ADDR (ucast address),
                   DRF_DEF NVA06F_MEM_OP_B_MMU_TLB_INVALIDATE_PDB 0)
             else (0, DRF_DEF NVA06F_MEM_OP_B_MMU_TLB_INVALIDATE_PDB 1));
          invalidate_gpc_value = (if disable_gpc_invalidate params
            then DRF_DEF NVA06F_MEM_OP_B_MMU_TLB_INVALIDATE_GPC 1
            else DRF_DEF NVA06F_MEM_OP_B_MMU_TLB_INVALIDATE_GPC 0)
      in nv_push UVM_SUBCHANNEL_HOST 0x28
           [target_pdb, DRF_DEF NVA06F_MEM_OP_B_OPERATION 9 OR pdb_mode_value OR invalidate_gpc_value])"

section \<open>Maxwell host methods\<close>

abbreviation NVB06F_MEM_OP_C_TLB_INVALIDATE_PDB :: hw_field where "NVB06F_MEM_OP_C_TLB_INVALIDATE_PDB \<equiv> (0, 0)"
abbreviation NVB06F_MEM_OP_C_TLB_INVALIDATE_GPC :: hw_field where "NVB06F_MEM_OP_C_TLB_INVALIDATE_GPC \<equiv> (1, 1)"
abbreviation NVB06F_MEM_OP_C_TLB_INVALIDATE_TARGET :: hw_field where "NVB06F_MEM_OP_C_TLB_INVALIDATE_TARGET \<equiv> (11, 10)"
abbreviation NVB06F_MEM_OP_C_TLB_INVALIDATE_ADDR_LO :: hw_field where "NVB06F_MEM_OP_C_TLB_INVALIDATE_ADDR_LO \<equiv> (31, 12)"
abbreviation NVB06F_MEM_OP_D_OPERATION :: hw_field where "NVB06F_MEM_OP_D_OPERATION \<equiv> (31, 27)"
abbreviation NVB06F_MEM_OP_D_TLB_INVALIDATE_ADDR_HI :: hw_field where "NVB06F_MEM_OP_D_TLB_INVALIDATE_ADDR_HI \<equiv> (7, 0)"

definition DRF_SIZE :: "hw_field \<Rightarrow> nat" where "DRF_SIZE drf = fst drf - snd drf + 1"

definition uvm_hal_maxwell_host_tlb_invalidate_all ::
  "uvm_gpu_phys_address \<Rightarrow> u32 \<Rightarrow> uvm_membar \<Rightarrow> push_words \<Rightarrow> push_words" where
  "uvm_hal_maxwell_host_tlb_invalidate_all pdb depth membar =
     (let target = (if phys_aperture pdb = UVM_APERTURE_VID then DRF_DEF NVB06F_MEM_OP_C_TLB_INVALIDATE_TARGET 0
            else DRF_DEF NVB06F_MEM_OP_C_TLB_INVALIDATE_TARGET 2);
          address = drop_bit 12 (phys_address pdb);
          pdb_lo = ucast (address AND ucast (DRF_MASK NVB06F_MEM_OP_C_TLB_INVALIDATE_ADDR_LO));
          pdb_hi = ucast (drop_bit (DRF_SIZE NVB06F_MEM_OP_C_TLB_INVALIDATE_ADDR_LO) address)
      in nv_push UVM_SUBCHANNEL_HOST 0x30
           [target OR DRF_DEF NVB06F_MEM_OP_C_TLB_INVALIDATE_PDB 0 OR DRF_DEF NVB06F_MEM_OP_C_TLB_INVALIDATE_GPC 0 OR
              DRF_NUM NVB06F_MEM_OP_C_TLB_INVALIDATE_ADDR_LO pdb_lo,
            DRF_DEF NVB06F_MEM_OP_D_OPERATION 9 OR DRF_NUM NVB06F_MEM_OP_D_TLB_INVALIDATE_ADDR_HI pdb_hi])"

section \<open>Pascal host methods\<close>

abbreviation NVC06F_MEM_OP_A_TLB_INVALIDATE_SYSMEMBAR :: hw_field where "NVC06F_MEM_OP_A_TLB_INVALIDATE_SYSMEMBAR \<equiv> (11, 11)"
abbreviation NVC06F_MEM_OP_A_TLB_INVALIDATE_TARGET_ADDR_LO :: hw_field where "NVC06F_MEM_OP_A_TLB_INVALIDATE_TARGET_ADDR_LO \<equiv> (31, 12)"
abbreviation NVC06F_MEM_OP_B_TLB_INVALIDATE_TARGET_ADDR_HI :: hw_field where "NVC06F_MEM_OP_B_TLB_INVALIDATE_TARGET_ADDR_HI \<equiv> (31, 0)"
abbreviation NVC06F_MEM_OP_C_MEMBAR_TYPE :: hw_field where "NVC06F_MEM_OP_C_MEMBAR_TYPE \<equiv> (2, 0)"
abbreviation NVC06F_MEM_OP_C_TLB_INVALIDATE_PDB :: hw_field where "NVC06F_MEM_OP_C_TLB_INVALIDATE_PDB \<equiv> (0, 0)"
abbreviation NVC06F_MEM_OP_C_TLB_INVALIDATE_GPC :: hw_field where "NVC06F_MEM_OP_C_TLB_INVALIDATE_GPC \<equiv> (1, 1)"
abbreviation NVC06F_MEM_OP_C_TLB_INVALIDATE_REPLAY :: hw_field where "NVC06F_MEM_OP_C_TLB_INVALIDATE_REPLAY \<equiv> (4, 2)"
abbreviation NVC06F_MEM_OP_C_TLB_INVALIDATE_ACK_TYPE :: hw_field where "NVC06F_MEM_OP_C_TLB_INVALIDATE_ACK_TYPE \<equiv> (6, 5)"
abbreviation NVC06F_MEM_OP_C_TLB_INVALIDATE_PAGE_TABLE_LEVEL :: hw_field where "NVC06F_MEM_OP_C_TLB_INVALIDATE_PAGE_TABLE_LEVEL \<equiv> (9, 7)"
abbreviation NVC06F_MEM_OP_C_TLB_INVALIDATE_PDB_APERTURE :: hw_field where "NVC06F_MEM_OP_C_TLB_INVALIDATE_PDB_APERTURE \<equiv> (11, 10)"
abbreviation NVC06F_MEM_OP_C_TLB_INVALIDATE_PDB_ADDR_LO :: hw_field where "NVC06F_MEM_OP_C_TLB_INVALIDATE_PDB_ADDR_LO \<equiv> (31, 12)"
abbreviation NVC06F_MEM_OP_D_TLB_INVALIDATE_PDB_ADDR_HI :: hw_field where "NVC06F_MEM_OP_D_TLB_INVALIDATE_PDB_ADDR_HI \<equiv> (26, 0)"
abbreviation NVC06F_MEM_OP_D_OPERATION :: hw_field where "NVC06F_MEM_OP_D_OPERATION \<equiv> (31, 27)"
abbreviation NVC076_FAULT_CANCEL_A_INST_APERTURE :: hw_field where "NVC076_FAULT_CANCEL_A_INST_APERTURE \<equiv> (1, 0)"
abbreviation NVC076_FAULT_CANCEL_A_INST_LOW :: hw_field where "NVC076_FAULT_CANCEL_A_INST_LOW \<equiv> (31, 12)"
abbreviation NVC076_FAULT_CANCEL_B_INST_HI :: hw_field where "NVC076_FAULT_CANCEL_B_INST_HI \<equiv> (31, 0)"
abbreviation NVC076_FAULT_CANCEL_C_CLIENT_ID :: hw_field where "NVC076_FAULT_CANCEL_C_CLIENT_ID \<equiv> (5, 0)"
abbreviation NVC076_FAULT_CANCEL_C_GPC_ID :: hw_field where "NVC076_FAULT_CANCEL_C_GPC_ID \<equiv> (10, 6)"

definition uvm_hal_pascal_host_membar_sys :: "push_words \<Rightarrow> push_words" where
  "uvm_hal_pascal_host_membar_sys = nv_push UVM_SUBCHANNEL_HOST 0x28
     [0, 0, DRF_DEF NVC06F_MEM_OP_C_MEMBAR_TYPE 0, DRF_DEF NVC06F_MEM_OP_D_OPERATION 5]"

definition uvm_hal_pascal_host_membar_gpu :: "push_words \<Rightarrow> push_words" where
  "uvm_hal_pascal_host_membar_gpu = nv_push UVM_SUBCHANNEL_HOST 0x28
     [0, 0, DRF_DEF NVC06F_MEM_OP_C_MEMBAR_TYPE 1, DRF_DEF NVC06F_MEM_OP_D_OPERATION 5]"

definition pascal_membar :: "uvm_membar \<Rightarrow> push_words \<Rightarrow> push_words" where
  "pascal_membar membar push =
     (case membar of
        UVM_MEMBAR_SYS \<Rightarrow> uvm_hal_pascal_host_membar_sys push
      | UVM_MEMBAR_GPU \<Rightarrow> uvm_hal_pascal_host_membar_gpu push
      | UVM_MEMBAR_NONE \<Rightarrow> push)"

text \<open>The address of the PDB split over two methods, and its aperture, as every Pascal invalidate has it.\<close>

definition pascal_pdb_lo :: "uvm_gpu_phys_address \<Rightarrow> u32" where
  "pascal_pdb_lo pdb =
     ucast (drop_bit 12 (phys_address pdb) AND ucast (DRF_MASK NVC06F_MEM_OP_C_TLB_INVALIDATE_PDB_ADDR_LO))"

definition pascal_pdb_hi :: "uvm_gpu_phys_address \<Rightarrow> u32" where
  "pascal_pdb_hi pdb =
     ucast (drop_bit (DRF_SIZE NVC06F_MEM_OP_C_TLB_INVALIDATE_PDB_ADDR_LO) (drop_bit 12 (phys_address pdb)))"

definition pascal_aperture_value :: "uvm_gpu_phys_address \<Rightarrow> u32" where
  "pascal_aperture_value pdb =
     (if phys_aperture pdb = UVM_APERTURE_VID then DRF_DEF NVC06F_MEM_OP_C_TLB_INVALIDATE_PDB_APERTURE 0
      else DRF_DEF NVC06F_MEM_OP_C_TLB_INVALIDATE_PDB_APERTURE 2)"

definition uvm_hal_pascal_host_tlb_invalidate_all ::
  "uvm_gpu_phys_address \<Rightarrow> u32 \<Rightarrow> uvm_membar \<Rightarrow> push_words \<Rightarrow> push_words" where
  "uvm_hal_pascal_host_tlb_invalidate_all pdb depth membar push =
     (let page_table_level = 5 - depth;
          ack_value = (if membar \<noteq> UVM_MEMBAR_NONE then DRF_DEF NVC06F_MEM_OP_C_TLB_INVALIDATE_ACK_TYPE 1 else 0);
          push = nv_push UVM_SUBCHANNEL_HOST 0x28
            [DRF_DEF NVC06F_MEM_OP_A_TLB_INVALIDATE_SYSMEMBAR 0,
             0,
             DRF_DEF NVC06F_MEM_OP_C_TLB_INVALIDATE_PDB 0 OR
               DRF_NUM NVC06F_MEM_OP_C_TLB_INVALIDATE_PDB_ADDR_LO (pascal_pdb_lo pdb) OR
               DRF_DEF NVC06F_MEM_OP_C_TLB_INVALIDATE_GPC 0 OR
               DRF_DEF NVC06F_MEM_OP_C_TLB_INVALIDATE_REPLAY 0 OR
               DRF_NUM NVC06F_MEM_OP_C_TLB_INVALIDATE_PAGE_TABLE_LEVEL page_table_level OR
               pascal_aperture_value pdb OR ack_value,
             DRF_DEF NVC06F_MEM_OP_D_OPERATION 9 OR
               DRF_NUM NVC06F_MEM_OP_D_TLB_INVALIDATE_PDB_ADDR_HI (pascal_pdb_hi pdb)] push
      in pascal_membar membar push)"

fun tlb_va_loop :: "nat \<Rightarrow> (u64 \<Rightarrow> push_words \<Rightarrow> push_words) \<Rightarrow> u64 \<Rightarrow> u64 \<Rightarrow> u64 \<Rightarrow> push_words \<Rightarrow> push_words option" where
  "tlb_va_loop 0 invalidate va va_end step push = None"
| "tlb_va_loop (Suc fuel) invalidate va va_end step push =
     (if va < va_end then tlb_va_loop fuel invalidate (va + step) va_end step (invalidate va push) else Some push)"

definition pascal_invalidate_page :: "uvm_gpu_phys_address \<Rightarrow> u32 \<Rightarrow> u32 \<Rightarrow> u64 \<Rightarrow> push_words \<Rightarrow> push_words" where
  "pascal_invalidate_page pdb page_table_level ack_value va =
     (let va_lo = ucast (va AND ucast (DRF_MASK NVC06F_MEM_OP_A_TLB_INVALIDATE_TARGET_ADDR_LO));
          va_hi = ucast (drop_bit (DRF_SIZE NVC06F_MEM_OP_A_TLB_INVALIDATE_TARGET_ADDR_LO) va)
      in nv_push UVM_SUBCHANNEL_HOST 0x28
           [DRF_DEF NVC06F_MEM_OP_A_TLB_INVALIDATE_SYSMEMBAR 0 OR
              DRF_NUM NVC06F_MEM_OP_A_TLB_INVALIDATE_TARGET_ADDR_LO va_lo,
            DRF_NUM NVC06F_MEM_OP_B_TLB_INVALIDATE_TARGET_ADDR_HI va_hi,
            DRF_DEF NVC06F_MEM_OP_C_TLB_INVALIDATE_PDB 0 OR
              DRF_NUM NVC06F_MEM_OP_C_TLB_INVALIDATE_PDB_ADDR_LO (pascal_pdb_lo pdb) OR
              DRF_DEF NVC06F_MEM_OP_C_TLB_INVALIDATE_GPC 0 OR
              DRF_DEF NVC06F_MEM_OP_C_TLB_INVALIDATE_REPLAY 0 OR
              DRF_NUM NVC06F_MEM_OP_C_TLB_INVALIDATE_PAGE_TABLE_LEVEL page_table_level OR
              pascal_aperture_value pdb OR ack_value,
            DRF_DEF NVC06F_MEM_OP_D_OPERATION 0xa OR
              DRF_NUM NVC06F_MEM_OP_D_TLB_INVALIDATE_PDB_ADDR_HI (pascal_pdb_hi pdb)])"

definition uvm_hal_pascal_host_tlb_invalidate_va ::
  "nat \<Rightarrow> uvm_gpu_phys_address \<Rightarrow> u32 \<Rightarrow> u64 \<Rightarrow> u64 \<Rightarrow> u32 \<Rightarrow> uvm_membar \<Rightarrow> push_words \<Rightarrow> push_words option" where
  "uvm_hal_pascal_host_tlb_invalidate_va fuel pdb depth base sz page_size membar push =
     (let page_table_level = 5 - depth;
          ack_value = (if membar \<noteq> UVM_MEMBAR_NONE then DRF_DEF NVC06F_MEM_OP_C_TLB_INVALIDATE_ACK_TYPE 1 else 0);
          base = drop_bit 12 base;
          sz = drop_bit 12 sz;
          page_size = drop_bit 12 page_size
      in map_option (pascal_membar membar)
           (tlb_va_loop fuel (pascal_invalidate_page pdb page_table_level ack_value) base (base + sz) (ucast page_size) push))"

definition uvm_hal_pascal_host_tlb_invalidate_test ::
  "uvm_gpu_phys_address \<Rightarrow> UVM_TEST_INVALIDATE_TLB_PARAMS \<Rightarrow> push_words \<Rightarrow> push_words" where
  "uvm_hal_pascal_host_tlb_invalidate_test pdb params push =
     (let one = target_pdb_mode_one params;
          aperture_value = (if one then pascal_aperture_value pdb else 0);
          pdb_lo = (if one then pascal_pdb_lo pdb else 0);
          pdb_hi = (if one then pascal_pdb_hi pdb else 0);
          pdb_mode_value = (if one then DRF_DEF NVC06F_MEM_OP_C_TLB_INVALIDATE_PDB 0
            else DRF_DEF NVC06F_MEM_OP_C_TLB_INVALIDATE_PDB 1);
          page_table_level = (if test_page_table_level params \<noteq> 1 then test_page_table_level params - 1 else 0);
          ack_value = (if test_membar params \<noteq> UvmInvalidateTlbMemBarNone
            then DRF_DEF NVC06F_MEM_OP_C_TLB_INVALIDATE_ACK_TYPE 1 else 0);
          invalidate_gpc_value = (if disable_gpc_invalidate params then DRF_DEF NVC06F_MEM_OP_C_TLB_INVALIDATE_GPC 1
            else DRF_DEF NVC06F_MEM_OP_C_TLB_INVALIDATE_GPC 0);
          mem_op_c = DRF_DEF NVC06F_MEM_OP_C_TLB_INVALIDATE_REPLAY 0 OR
            DRF_NUM NVC06F_MEM_OP_C_TLB_INVALIDATE_PAGE_TABLE_LEVEL page_table_level OR pdb_mode_value OR
            DRF_NUM NVC06F_MEM_OP_C_TLB_INVALIDATE_PDB_ADDR_LO pdb_lo OR invalidate_gpc_value OR
            aperture_value OR ack_value;
          va = drop_bit 12 (test_va params);
          va_lo = ucast (va AND ucast (DRF_MASK NVC06F_MEM_OP_A_TLB_INVALIDATE_TARGET_ADDR_LO));
          va_hi = ucast (drop_bit (DRF_SIZE NVC06F_MEM_OP_A_TLB_INVALIDATE_TARGET_ADDR_LO) va);
          push =
            (if target_va_mode_targeted params
             then nv_push UVM_SUBCHANNEL_HOST 0x28
               [DRF_DEF NVC06F_MEM_OP_A_TLB_INVALIDATE_SYSMEMBAR 0 OR
                  DRF_NUM NVC06F_MEM_OP_A_TLB_INVALIDATE_TARGET_ADDR_LO va_lo,
                DRF_NUM NVC06F_MEM_OP_B_TLB_INVALIDATE_TARGET_ADDR_HI va_hi, mem_op_c,
                DRF_DEF NVC06F_MEM_OP_D_OPERATION 0xa OR
                  DRF_NUM NVC06F_MEM_OP_D_TLB_INVALIDATE_PDB_ADDR_HI pdb_hi] push
             else nv_push UVM_SUBCHANNEL_HOST 0x28
               [DRF_DEF NVC06F_MEM_OP_A_TLB_INVALIDATE_SYSMEMBAR 0, 0, mem_op_c,
                DRF_DEF NVC06F_MEM_OP_D_OPERATION 9 OR
                  DRF_NUM NVC06F_MEM_OP_D_TLB_INVALIDATE_PDB_ADDR_HI pdb_hi] push);
          membar = (if test_membar params = UvmInvalidateTlbMemBarSys then UVM_MEMBAR_SYS
            else if test_membar params = UvmInvalidateTlbMemBarLocal then UVM_MEMBAR_GPU else UVM_MEMBAR_NONE)
      in pascal_membar membar push)"

datatype uvm_fault_replay_type = UVM_FAULT_REPLAY_TYPE_START | UVM_FAULT_REPLAY_TYPE_START_ACK_ALL

text \<open>The PDB is that of the GPU's own address space, read through the GPU of the push.\<close>

definition uvm_hal_pascal_replay_faults :: "uvm_gpu_phys_address \<Rightarrow> uvm_fault_replay_type \<Rightarrow> push_words \<Rightarrow> push_words" where
  "uvm_hal_pascal_replay_faults pdb type =
     (let replay_value = (case type of
            UVM_FAULT_REPLAY_TYPE_START \<Rightarrow> DRF_DEF NVC06F_MEM_OP_C_TLB_INVALIDATE_REPLAY 1
          | UVM_FAULT_REPLAY_TYPE_START_ACK_ALL \<Rightarrow> DRF_DEF NVC06F_MEM_OP_C_TLB_INVALIDATE_REPLAY 2)
      in nv_push UVM_SUBCHANNEL_HOST 0x28
           [DRF_DEF NVC06F_MEM_OP_A_TLB_INVALIDATE_SYSMEMBAR 0 OR
              DRF_NUM NVC06F_MEM_OP_A_TLB_INVALIDATE_TARGET_ADDR_LO 0,
            DRF_NUM NVC06F_MEM_OP_B_TLB_INVALIDATE_TARGET_ADDR_HI 0,
            DRF_DEF NVC06F_MEM_OP_C_TLB_INVALIDATE_PDB 0 OR
              DRF_NUM NVC06F_MEM_OP_C_TLB_INVALIDATE_PDB_ADDR_LO (pascal_pdb_lo pdb) OR
              DRF_DEF NVC06F_MEM_OP_C_TLB_INVALIDATE_GPC 0 OR
              DRF_DEF NVC06F_MEM_OP_C_TLB_INVALIDATE_PAGE_TABLE_LEVEL 1 OR
              pascal_aperture_value pdb OR replay_value,
            DRF_DEF NVC06F_MEM_OP_D_OPERATION 0xa OR
              DRF_NUM NVC06F_MEM_OP_D_TLB_INVALIDATE_PDB_ADDR_HI (pascal_pdb_hi pdb)])"

definition instance_ptr_aperture_type_to_hw_value :: "uvm_aperture \<Rightarrow> u32" where
  "instance_ptr_aperture_type_to_hw_value aperture = (if aperture = UVM_APERTURE_SYS then 2 else 0)"

definition uvm_hal_pascal_host_init :: "push_words \<Rightarrow> push_words" where
  "uvm_hal_pascal_host_init = nv_push UVM_SUBCHANNEL_C076 0 [0x76]"

definition uvm_hal_pascal_cancel_faults_targeted ::
  "uvm_gpu_phys_address \<Rightarrow> u32 \<Rightarrow> u32 \<Rightarrow> push_words \<Rightarrow> push_words" where
  "uvm_hal_pascal_cancel_faults_targeted instance_ptr gpc_id client_id =
     (let address = drop_bit 12 (phys_address instance_ptr);
          instance_ptr_lo = ucast (address AND ucast (DRF_MASK NVC076_FAULT_CANCEL_A_INST_LOW));
          instance_ptr_hi = ucast (drop_bit (DRF_SIZE NVC076_FAULT_CANCEL_A_INST_LOW) address)
      in nv_push UVM_SUBCHANNEL_C076 0x104
           [DRF_NUM NVC076_FAULT_CANCEL_A_INST_LOW instance_ptr_lo OR
              DRF_NUM NVC076_FAULT_CANCEL_A_INST_APERTURE
                (instance_ptr_aperture_type_to_hw_value (phys_aperture instance_ptr)),
            DRF_NUM NVC076_FAULT_CANCEL_B_INST_HI instance_ptr_hi,
            DRF_NUM NVC076_FAULT_CANCEL_C_CLIENT_ID client_id OR DRF_NUM NVC076_FAULT_CANCEL_C_GPC_ID gpc_id])"

section \<open>Decoding\<close>

text \<open>
  How the host reads a push: a method header with the opcode, subchannel, address and count of
  \<^verbatim>\<open>cla06f.h\<close>, then that many data words, each a write to a method address, the next address for each
  word of an incrementing method and the same one for a non-incrementing one.
\<close>

type_synonym method_write = "u32 \<times> u32 \<times> u32"

definition header_count :: "u32 \<Rightarrow> nat" where
  "header_count h = unat (DRF_VAL NVA06F_DMA_METHOD_COUNT h)"

definition header_writes :: "u32 \<Rightarrow> u32 list \<Rightarrow> method_write list" where
  "header_writes h ds =
     (let subch = DRF_VAL NVA06F_DMA_METHOD_SUBCHANNEL h;
          address = push_bit 2 (DRF_VAL NVA06F_DMA_METHOD_ADDRESS h)
      in if DRF_VAL NVA06F_DMA_SEC_OP h = 1
         then map (\<lambda>i. (subch, address + 4 * of_nat i, ds ! i)) [0..<length ds]
         else map (\<lambda>d. (subch, address, d)) ds)"

fun decode :: "push_words \<Rightarrow> method_write list option" where
  "decode [] = Some []"
| "decode (h # ws) =
     (if length ws < header_count h \<or> DRF_VAL NVA06F_DMA_SEC_OP h \<noteq> 1 \<and> DRF_VAL NVA06F_DMA_SEC_OP h \<noteq> 3 then None
      else map_option (\<lambda>ms. header_writes h (take (header_count h) ws) @ ms) (decode (drop (header_count h) ws)))"

lemma method_fields:
  assumes "unat address < 2 ^ 14" "4 dvd unat address" "unat subch < 8" "unat cnt < 2 ^ 13" "unat op_type < 8"
  shows "DRF_VAL NVA06F_DMA_SEC_OP (UVM_METHOD op_type subch address cnt) = op_type"
    "push_bit 2 (DRF_VAL NVA06F_DMA_METHOD_ADDRESS (UVM_METHOD op_type subch address cnt)) = address"
    "DRF_VAL NVA06F_DMA_METHOD_SUBCHANNEL (UVM_METHOD op_type subch address cnt) = subch"
    "DRF_VAL NVA06F_DMA_METHOD_COUNT (UVM_METHOD op_type subch address cnt) = cnt"
proof -
  have a: "unat (drop_bit 2 address) < 2 ^ 12"
    by (simp only: unat_drop_bit_eq) (use assms(1) in \<open>simp add: drop_bit_eq_div div_less_iff_less_mult\<close>)
  have am: "drop_bit 2 address AND DRF_MASK (11, 0) = drop_bit 2 address" using a by (intro and_DRF_MASK) simp_all
  have pd: "push_bit 2 (drop_bit 2 address) = address" using assms(2) by (intro push_drop_bit) simp
  show "DRF_VAL NVA06F_DMA_SEC_OP (UVM_METHOD op_type subch address cnt) = op_type"
    "push_bit 2 (DRF_VAL NVA06F_DMA_METHOD_ADDRESS (UVM_METHOD op_type subch address cnt)) = address"
    "DRF_VAL NVA06F_DMA_METHOD_SUBCHANNEL (UVM_METHOD op_type subch address cnt) = subch"
    "DRF_VAL NVA06F_DMA_METHOD_COUNT (UVM_METHOD op_type subch address cnt) = cnt"
    using assms am pd by (simp_all add: UVM_METHOD_def drf32)
qed

lemma decode_append: "decode p = Some ms \<Longrightarrow> decode (p @ ws) = map_option (\<lambda>ms'. ms @ ms') (decode ws)"
proof (induction p arbitrary: ms rule: decode.induct)
  case (2 h p)
  let ?n = "header_count h"
  have ok: "\<not> (length p < ?n \<or> DRF_VAL NVA06F_DMA_SEC_OP h \<noteq> 1 \<and> DRF_VAL NVA06F_DMA_SEC_OP h \<noteq> 3)"
    using 2(2) by (auto split: if_splits)
  then obtain ms' where ms': "decode (drop ?n p) = Some ms'" "ms = header_writes h (take ?n p) @ ms'"
    using 2(2) by auto
  have "decode (drop ?n p @ ws) = map_option (\<lambda>ms''. ms' @ ms'') (decode ws)" using 2(1)[OF ok ms'(1)] .
  then show ?case using ok ms'(2) by (cases "decode ws") auto
next
  case 1
  then show ?case by (cases "decode ws") auto
qed

text \<open>A writer of methods that writes exactly \<open>ms\<close>.\<close>

definition writes :: "(push_words \<Rightarrow> push_words) \<Rightarrow> method_write list \<Rightarrow> bool" where
  "writes f ms \<longleftrightarrow> (\<forall>push pm. decode push = Some pm \<longrightarrow> decode (f push) = Some (pm @ ms))"

lemma writes_nv_push:
  assumes "unat a < 2 ^ 14" "4 dvd unat a" "unat s < 8" "length ds < 2 ^ 13"
  shows "writes (nv_push s a ds) (map (\<lambda>i. (s, a + 4 * of_nat i, ds ! i)) [0..<length ds])"
  unfolding writes_def
proof (intro allI impI)
  fix push pm assume d: "decode push = Some pm"
  let ?h = "UVM_METHOD 1 s a (of_nat (length ds))"
  have n: "unat (of_nat (length ds) :: u32) = length ds" using assms(4) by (intro unat_of_nat_u32) simp
  have "unat (1 :: u32) < 8" by simp
  note f = method_fields[OF assms(1-3) _ this, of "of_nat (length ds)", unfolded n, OF assms(4)]
  have "decode (?h # ds) = Some (map (\<lambda>i. (s, a + 4 * of_nat i, ds ! i)) [0..<length ds])"
    using f n by (simp add: header_count_def header_writes_def Let_def)
  then show "decode (nv_push s a ds push) = Some (pm @ map (\<lambda>i. (s, a + 4 * of_nat i, ds ! i)) [0..<length ds])"
    unfolding nv_push_def decode_append[OF d] by simp
qed

lemma writes_comp: "writes f ms \<Longrightarrow> writes g ms' \<Longrightarrow> writes (\<lambda>push. g (f push)) (ms @ ms')"
  by (simp add: writes_def)

lemma writes_id: "writes (\<lambda>push. push) []"
  by (simp add: writes_def)

text \<open>The four writes of a memory operation.\<close>

lemma writes_mem_op:
  "writes (nv_push UVM_SUBCHANNEL_HOST 0x28 [w1, w2, w3, w4]) [(0, 0x28, w1), (0, 0x2c, w2), (0, 0x30, w3), (0, 0x34, w4)]"
proof -
  have "[0..<length [w1, w2, w3, w4]] = [0, 1, 2, 3]" by (simp add: upt_rec)
  moreover have "writes (nv_push UVM_SUBCHANNEL_HOST 0x28 [w1, w2, w3, w4])
      (map (\<lambda>i. (UVM_SUBCHANNEL_HOST, 0x28 + 4 * of_nat i, [w1, w2, w3, w4] ! i)) [0..<length [w1, w2, w3, w4]])"
    by (rule writes_nv_push) (simp_all add: UVM_SUBCHANNEL_HOST_def)
  ultimately show ?thesis by (simp add: UVM_SUBCHANNEL_HOST_def)
qed

section \<open>Memory operations of Pascal\<close>

datatype mem_op =
  Mem_invalidate_all uvm_gpu_phys_address u32 bool
| Mem_invalidate_va uvm_gpu_phys_address u32 u64 bool
| Mem_membar u32

definition read_pdb :: "u32 \<Rightarrow> u32 \<Rightarrow> uvm_gpu_phys_address" where
  "read_pdb c d =
     \<lparr>phys_address = push_bit 12 (ucast (DRF_VAL NVC06F_MEM_OP_C_TLB_INVALIDATE_PDB_ADDR_LO c) OR
        push_bit 20 (ucast (DRF_VAL NVC06F_MEM_OP_D_TLB_INVALIDATE_PDB_ADDR_HI d))),
      phys_aperture = (if DRF_VAL NVC06F_MEM_OP_C_TLB_INVALIDATE_PDB_APERTURE c = 0 then UVM_APERTURE_VID
        else UVM_APERTURE_SYS)\<rparr>"

definition read_mem_op :: "u32 \<Rightarrow> u32 \<Rightarrow> u32 \<Rightarrow> u32 \<Rightarrow> mem_op" where
  "read_mem_op a b c d =
     (let level = DRF_VAL NVC06F_MEM_OP_C_TLB_INVALIDATE_PAGE_TABLE_LEVEL c;
          ack = (DRF_VAL NVC06F_MEM_OP_C_TLB_INVALIDATE_ACK_TYPE c = 1);
          va = push_bit 12 (ucast (DRF_VAL NVC06F_MEM_OP_A_TLB_INVALIDATE_TARGET_ADDR_LO a) OR
            push_bit 20 (ucast (DRF_VAL NVC06F_MEM_OP_B_TLB_INVALIDATE_TARGET_ADDR_HI b)))
      in if DRF_VAL NVC06F_MEM_OP_D_OPERATION d = 0xa then Mem_invalidate_va (read_pdb c d) level va ack
         else if DRF_VAL NVC06F_MEM_OP_D_OPERATION d = 9 then Mem_invalidate_all (read_pdb c d) level ack
         else Mem_membar (DRF_VAL NVC06F_MEM_OP_C_MEMBAR_TYPE c))"

fun mem_ops :: "method_write list \<Rightarrow> mem_op list" where
  "mem_ops ((_, _, a) # (_, _, b) # (_, _, c) # (_, _, d) # ms) = read_mem_op a b c d # mem_ops ms"
| "mem_ops ms = []"

text \<open>A writer of memory operations that writes exactly \<open>ops\<close>.\<close>

definition writes_ops :: "(push_words \<Rightarrow> push_words) \<Rightarrow> mem_op list \<Rightarrow> bool" where
  "writes_ops f ops \<longleftrightarrow> (\<exists>ms. writes f ms \<and> (\<forall>ms'. mem_ops (ms @ ms') = ops @ mem_ops ms'))"

lemma writes_ops_comp: "writes_ops f ops \<Longrightarrow> writes_ops g ops' \<Longrightarrow> writes_ops (\<lambda>push. g (f push)) (ops @ ops')"
  unfolding writes_ops_def by (metis append.assoc writes_comp)

lemma writes_ops_id: "writes_ops (\<lambda>push. push) []"
  unfolding writes_ops_def using writes_id by fastforce

lemma writes_ops_mem_op: "writes_ops (nv_push UVM_SUBCHANNEL_HOST 0x28 [a, b, c, d]) [read_mem_op a b c d]"
  unfolding writes_ops_def using writes_mem_op by fastforce

lemma split_address:
  fixes x :: u64
  assumes lo: "lo = (ucast (x AND ucast (DRF_MASK (31, 12))) :: u32)" and hi: "hi = (ucast (drop_bit 20 x) :: u32)"
  shows "lo AND DRF_MASK (31, 12) = lo"
    and "unat x < 2 ^ 52 \<Longrightarrow> hi AND DRF_MASK (31, 0) = hi \<and> ucast lo OR push_bit 20 (ucast hi) = x"
    and "unat x < 2 ^ 47 \<Longrightarrow> hi AND DRF_MASK (26, 0) = hi"
proof -
  have small: "i < n" if "bit x i" "unat x < 2 ^ n" for i n
  proof (rule ccontr)
    assume "\<not> i < n"
    have "bit (unat x) i" using that(1) by (simp add: bit_unsigned_iff bit_imp_le_length)
    then have "2 ^ i \<le> unat x"
      by (metis bit_iff_odd div_less even_zero not_le)
    moreover have "(2::nat) ^ n \<le> 2 ^ i" using \<open>\<not> i < n\<close> by (intro power_increasing) auto
    ultimately show False using that(2) by simp
  qed
  show "lo AND DRF_MASK (31, 12) = lo" unfolding lo by (rule bit_word_eqI) (auto simp: bit_simps)
  show "hi AND DRF_MASK (31, 0) = hi \<and> ucast lo OR push_bit 20 (ucast hi) = x" if "unat x < 2 ^ 52"
  proof
    show "hi AND DRF_MASK (31, 0) = hi" by (rule bit_word_eqI) (auto simp: bit_simps)
    show "ucast lo OR push_bit 20 (ucast hi) = x"
      unfolding lo hi by (rule bit_word_eqI) (auto simp: bit_simps dest: small[OF _ that])
  qed
  show "hi AND DRF_MASK (26, 0) = hi" if "unat x < 2 ^ 47"
    unfolding hi by (rule bit_word_eqI) (auto simp: bit_simps dest: small[OF _ that])
qed

definition pdb_ok :: "uvm_gpu_phys_address \<Rightarrow> bool" where
  "pdb_ok pdb \<longleftrightarrow> 2 ^ 12 dvd unat (phys_address pdb) \<and> unat (phys_address pdb) < 2 ^ 59 \<and>
     (phys_aperture pdb = UVM_APERTURE_VID \<or> phys_aperture pdb = UVM_APERTURE_SYS)"

lemma page_number_lt: "unat (drop_bit 12 (x :: u64)) < 2 ^ 52"
  by (rule drop_bit_lt) (use unat_lt_2_64[of x] in simp)

lemma read_pdb_fields:
  assumes "pdb_ok pdb"
    and "DRF_VAL (31, 12) c = pascal_pdb_lo pdb AND DRF_MASK (31, 12)"
    and "DRF_VAL (26, 0) d = pascal_pdb_hi pdb AND DRF_MASK (26, 0)"
    and "DRF_VAL (11, 10) c = (if phys_aperture pdb = UVM_APERTURE_VID then 0 else 2)"
  shows "read_pdb c d = pdb"
proof -
  let ?x = "drop_bit 12 (phys_address pdb)"
  have x: "unat ?x < 2 ^ 47" using assms(1) by (intro drop_bit_lt) (simp add: pdb_ok_def)
  have lo: "pascal_pdb_lo pdb = ucast (?x AND ucast (DRF_MASK (31, 12)))" by (simp add: pascal_pdb_lo_def)
  have hi: "pascal_pdb_hi pdb = ucast (drop_bit 20 ?x)" unfolding pascal_pdb_hi_def DRF_SIZE_def by simp
  note s = split_address[OF lo hi]
  have "read_pdb c d = \<lparr>phys_address = push_bit 12 ?x, phys_aperture =
      (if phys_aperture pdb = UVM_APERTURE_VID then UVM_APERTURE_VID else UVM_APERTURE_SYS)\<rparr>"
    unfolding read_pdb_def assms(2-4) s(1) s(3)[OF x] using s(2)[OF page_number_lt] by simp
  moreover have "push_bit 12 ?x = phys_address pdb" using assms(1) by (intro push_drop_bit) (simp add: pdb_ok_def)
  ultimately show ?thesis using assms(1) by (cases pdb) (auto simp: pdb_ok_def)
qed

text \<open>Aperture values do not reach into the other fields of \<^verbatim>\<open>MEM_OP_C\<close>.\<close>

lemma aperture_value_fields:
  "DRF_VAL (11, 10) (pascal_aperture_value pdb) = (if phys_aperture pdb = UVM_APERTURE_VID then 0 else 2)"
  "DRF_VAL (31, 12) (pascal_aperture_value pdb) = 0" "DRF_VAL (9, 7) (pascal_aperture_value pdb) = 0"
  "DRF_VAL (6, 5) (pascal_aperture_value pdb) = 0"
  by (simp_all add: pascal_aperture_value_def drf32)

definition ack_word :: "uvm_membar \<Rightarrow> u32" where
  "ack_word membar = (if membar \<noteq> UVM_MEMBAR_NONE then DRF_DEF (6, 5) 1 else 0)"

lemma ack_word_fields:
  "DRF_VAL (6, 5) (ack_word membar) = (if membar \<noteq> UVM_MEMBAR_NONE then 1 else 0)"
  "DRF_VAL (31, 12) (ack_word membar) = 0" "DRF_VAL (9, 7) (ack_word membar) = 0"
  "DRF_VAL (11, 10) (ack_word membar) = 0"
  by (simp_all add: ack_word_def drf32)

lemma level_lt: "depth \<le> 4 \<Longrightarrow> unat (5 - depth :: u32) < 8"
proof -
  assume "depth \<le> 4"
  then have "unat depth \<le> 4" by (simp add: word_le_nat_alt)
  then show ?thesis by (simp add: unat_sub word_le_nat_alt)
qed

definition membar_ops :: "uvm_membar \<Rightarrow> mem_op list" where
  "membar_ops membar = (case membar of UVM_MEMBAR_NONE \<Rightarrow> [] | UVM_MEMBAR_SYS \<Rightarrow> [Mem_membar 0] | UVM_MEMBAR_GPU \<Rightarrow> [Mem_membar 1])"

lemma pascal_membar_simps:
  "pascal_membar UVM_MEMBAR_NONE = (\<lambda>push. push)"
  "pascal_membar UVM_MEMBAR_SYS = uvm_hal_pascal_host_membar_sys"
  "pascal_membar UVM_MEMBAR_GPU = uvm_hal_pascal_host_membar_gpu"
  by (simp_all add: pascal_membar_def fun_eq_iff)

lemma writes_membar: "writes_ops (pascal_membar membar) (membar_ops membar)"
proof -
  have "read_mem_op 0 0 (DRF_DEF (2, 0) t) (DRF_DEF (31, 27) 5) = Mem_membar t" if "unat t < 8" for t
    using that by (simp add: read_mem_op_def drf32 Let_def)
  from this[of 0] this[of 1] show ?thesis
    using writes_ops_mem_op[of 0 0 "DRF_DEF (2, 0) 0" "DRF_DEF (31, 27) 5"]
      writes_ops_mem_op[of 0 0 "DRF_DEF (2, 0) 1" "DRF_DEF (31, 27) 5"] writes_ops_id
    by (cases membar) (simp_all add: pascal_membar_simps membar_ops_def uvm_hal_pascal_host_membar_sys_def
        uvm_hal_pascal_host_membar_gpu_def)
qed

lemma writes_invalidate_page:
  assumes "pdb_ok pdb" "depth \<le> 4" "unat va < 2 ^ 52"
  shows "writes_ops (pascal_invalidate_page pdb (5 - depth) (ack_word membar) va)
    [Mem_invalidate_va pdb (5 - depth) (push_bit 12 va) (membar \<noteq> UVM_MEMBAR_NONE)]"
proof -
  let ?lo = "ucast (va AND ucast (DRF_MASK (31, 12))) :: u32"
  let ?hi = "ucast (drop_bit (DRF_SIZE (31, 12)) va) :: u32"
  have hi: "?hi = ucast (drop_bit 20 va)" unfolding DRF_SIZE_def by simp
  note s = split_address[OF refl hi]
  have l: "(5 - depth) AND DRF_MASK (9, 7) = 5 - depth" using level_lt[OF assms(2)] by (intro and_DRF_MASK) simp_all
  let ?a = "DRF_DEF (11, 11) 0 OR DRF_NUM (31, 12) ?lo"
  let ?b = "DRF_NUM (31, 0) ?hi"
  let ?c = "DRF_DEF (0, 0) 0 OR DRF_NUM (31, 12) (pascal_pdb_lo pdb) OR DRF_DEF (1, 1) 0 OR DRF_DEF (4, 2) 0 OR
    DRF_NUM (9, 7) (5 - depth) OR pascal_aperture_value pdb OR ack_word membar"
  let ?d = "DRF_DEF (31, 27) 0xa OR DRF_NUM (26, 0) (pascal_pdb_hi pdb)"
  have "read_pdb ?c ?d = pdb"
    by (rule read_pdb_fields[OF assms(1)]) (simp_all add: drf32 aperture_value_fields ack_word_fields)
  moreover have "DRF_VAL (9, 7) ?c = 5 - depth" by (simp add: drf32 aperture_value_fields ack_word_fields l)
  moreover have "DRF_VAL (6, 5) ?c = (if membar \<noteq> UVM_MEMBAR_NONE then 1 else 0)"
    by (simp add: drf32 aperture_value_fields ack_word_fields)
  moreover have "DRF_VAL (31, 27) ?d = 0xa" by (simp add: drf32)
  moreover have "ucast (DRF_VAL (31, 12) ?a) OR push_bit 20 (ucast (DRF_VAL (31, 0) ?b)) = va"
    using s(1) s(2)[OF assms(3)] by (simp add: drf32)
  ultimately have "read_mem_op ?a ?b ?c ?d =
      Mem_invalidate_va pdb (5 - depth) (push_bit 12 va) (membar \<noteq> UVM_MEMBAR_NONE)"
    unfolding read_mem_op_def Let_def by simp
  then show ?thesis
    using writes_ops_mem_op[of ?a ?b ?c ?d] by (simp add: pascal_invalidate_page_def Let_def)
qed

lemma tlb_va_loop_eq:
  assumes "unat va + n * unat step = unat va_end" "0 < unat step" "n < fuel"
  shows "tlb_va_loop fuel f va va_end step push = Some (fold f (map (\<lambda>i. va + of_nat i * step) [0..<n]) push)"
  using assms
proof (induction n arbitrary: fuel va push)
  case 0
  then show ?case by (cases fuel) (auto simp: word_less_nat_alt)
next
  case (Suc n)
  then obtain fuel' where f: "fuel = Suc fuel'" "n < fuel'" by (cases fuel) auto
  have lt: "va < va_end" using Suc.prems by (simp add: word_less_nat_alt flip: Suc.prems(1))
  have "unat va + unat step < 2 ^ 64" using Suc.prems(1) unat_lt_2_64[of va_end] by simp
  then have "unat (va + step) = unat va + unat step" by (simp add: unat_word_ariths)
  then have "tlb_va_loop fuel' f (va + step) va_end step (f va push) =
      Some (fold f (map (\<lambda>i. va + step + of_nat i * step) [0..<n]) (f va push))"
    using Suc.prems f by (intro Suc.IH) simp_all
  moreover have "map (\<lambda>i. va + of_nat i * step) [0..<Suc n] = va # map (\<lambda>i. va + step + of_nat i * step) [0..<n]"
    by (simp add: upt_conv_Cons map_Suc_upt[symmetric] algebra_simps del: upt_Suc)
  ultimately show ?case using lt f by simp
qed

lemma writes_ops_fold:
  "(\<And>x. x \<in> set xs \<Longrightarrow> writes_ops (f x) [g x]) \<Longrightarrow> writes_ops (fold f xs) (map g xs)"
proof (induction xs)
  case Nil
  then show ?case using writes_ops_id by (simp add: id_def)
next
  case (Cons x xs)
  have "writes_ops (\<lambda>push. fold f xs (f x push)) ([g x] @ map g xs)"
    by (rule writes_ops_comp) (use Cons in auto)
  then show ?case by (simp add: comp_def)
qed

text \<open>
  A targeted TLB invalidate on Pascal names every page of its range, once and in order. The words
  pushed decode, by the method format of the host class, to one targeted invalidate per page with the
  address space, the level the depth stands for and the page's address, followed by the membar asked
  for, after which the invalidates are acknowledged globally. The loop ends when the fuel exceeds the
  number of pages.
\<close>

theorem pascal_tlb_va_pages:
  assumes "pdb_ok pdb" "depth \<le> 4" "12 \<le> k" "k < 32" "2 ^ k dvd unat base" "2 ^ k dvd unat sz"
    and "unat base + unat sz \<le> 2 ^ 64" "unat sz div 2 ^ k < fuel" "decode push = Some pm"
  shows "\<exists>words ms. uvm_hal_pascal_host_tlb_invalidate_va fuel pdb depth base sz (2 ^ k) membar push = Some words \<and>
    decode words = Some (pm @ ms) \<and>
    mem_ops ms = map (\<lambda>i. Mem_invalidate_va pdb (5 - depth) (base + of_nat (i * 2 ^ k)) (membar \<noteq> UVM_MEMBAR_NONE))
      [0..<unat sz div 2 ^ k] @ membar_ops membar"
proof -
  let ?n = "unat sz div 2 ^ k"
  let ?f = "pascal_invalidate_page pdb (5 - depth) (ack_word membar)"
  let ?base = "drop_bit 12 base" and ?sz = "drop_bit 12 sz"
  let ?step = "ucast (drop_bit 12 (2 ^ k :: u32)) :: u64"
  let ?vas = "map (\<lambda>i. ?base + of_nat i * ?step) [0..<?n]"
  let ?g = "\<lambda>va. Mem_invalidate_va pdb (5 - depth) (push_bit 12 va) (membar \<noteq> UVM_MEMBAR_NONE)"
  obtain q r where q: "unat base = q * 2 ^ k" and r: "unat sz = r * 2 ^ k" using assms(5,6) by (metis dvd_def mult.commute)
  have k12: "(2::nat) ^ k = 2 ^ (k - 12) * 2 ^ 12" using assms(3) by (metis le_add_diff_inverse2 power_add)
  have n: "?n = r" using r by simp
  have b: "unat ?base = q * 2 ^ (k - 12)" by (simp only: unat_drop_bit_eq) (simp add: drop_bit_eq_div q k12)
  have s: "unat ?sz = r * 2 ^ (k - 12)" by (simp only: unat_drop_bit_eq) (simp add: drop_bit_eq_div r k12)
  have "unat (drop_bit 12 (2 ^ k :: u32)) = 2 ^ (k - 12)"
    using assms(4) by (simp only: unat_drop_bit_eq) (simp add: drop_bit_eq_div unat_2_power k12)
  then have st: "unat ?step = 2 ^ (k - 12)"
    by (simp only: unat_ucast_up)
  have "(q + r) * 2 ^ (k - 12) * 2 ^ 12 \<le> 2 ^ 52 * 2 ^ 12" using assms(7) q r k12 by (simp add: algebra_simps)
  then have tot: "(q + r) * 2 ^ (k - 12) \<le> 2 ^ 52" by simp
  then have "unat ?base + unat ?sz \<le> 2 ^ 52" unfolding b s by (simp only: add_mult_distrib)
  moreover have "(2::nat) ^ 52 < 2 ^ LENGTH(64)" by simp
  ultimately have "unat ?base + unat ?sz < 2 ^ LENGTH(64)" by linarith
  then have e: "unat (?base + ?sz) = unat ?base + unat ?sz" unfolding unat_word_ariths by (rule mod_less)
  have loop: "tlb_va_loop fuel ?f ?base (?base + ?sz) ?step push = Some (fold ?f ?vas push)"
  proof (rule tlb_va_loop_eq)
    show "unat ?base + ?n * unat ?step = unat (?base + ?sz)" unfolding e b s st n ..
    show "0 < unat ?step" unfolding st by simp
  qed (rule assms(8))
  have w: "?base + of_nat i * ?step = of_nat ((q + i) * 2 ^ (k - 12))" for i
  proof -
    have "?base = of_nat (q * 2 ^ (k - 12))" unfolding b[symmetric] by simp
    moreover have "?step = of_nat (2 ^ (k - 12))" unfolding st[symmetric] by simp
    ultimately show ?thesis by (simp only: of_nat_mult of_nat_add distrib_right)
  qed
  have lt: "unat (?base + of_nat i * ?step) < 2 ^ 52" if "i < r" for i
  proof -
    have "(q + i) * 2 ^ (k - 12) < (q + r) * 2 ^ (k - 12)" using that by simp
    then have "(q + i) * 2 ^ (k - 12) < 2 ^ 52" using tot by linarith
    then show ?thesis unfolding w by (subst unat_of_nat_u64) simp_all
  qed
  have g: "?g (?base + of_nat i * ?step) = Mem_invalidate_va pdb (5 - depth) (base + of_nat (i * 2 ^ k)) (membar \<noteq> UVM_MEMBAR_NONE)" for i
  proof -
    have "base = of_nat (q * 2 ^ k)" unfolding q[symmetric] by simp
    then have "push_bit 12 (?base + of_nat i * ?step) = base + of_nat (i * 2 ^ k)"
      unfolding w push_bit_eq_mult k12 by (simp add: algebra_simps)
    then show ?thesis by simp
  qed
  have "writes_ops (fold ?f ?vas) (map ?g ?vas)"
    by (rule writes_ops_fold, rule writes_invalidate_page[OF assms(1,2)]) (use lt n in auto)
  from writes_ops_comp[OF this writes_membar]
  obtain ms where ms: "writes (\<lambda>push. pascal_membar membar (fold ?f ?vas push)) ms"
    "mem_ops (ms @ []) = (map ?g ?vas @ membar_ops membar) @ mem_ops []"
    unfolding writes_ops_def by blast
  have "mem_ops ms = map (\<lambda>i. Mem_invalidate_va pdb (5 - depth) (base + of_nat (i * 2 ^ k)) (membar \<noteq> UVM_MEMBAR_NONE))
      [0..<?n] @ membar_ops membar"
    using ms(2) by (simp add: g comp_def del: of_nat_mult)
  moreover have "decode (pascal_membar membar (fold ?f ?vas push)) = Some (pm @ ms)"
    using ms(1) assms(9) by (simp add: writes_def)
  moreover have "uvm_hal_pascal_host_tlb_invalidate_va fuel pdb depth base sz (2 ^ k) membar push =
      Some (pascal_membar membar (fold ?f ?vas push))"
    using loop by (simp add: uvm_hal_pascal_host_tlb_invalidate_va_def Let_def flip: ack_word_def)
  ultimately show ?thesis by blast
qed

definition sample_pdb :: uvm_gpu_phys_address where
  "sample_pdb = \<lparr>phys_address = 0x345000, phys_aperture = UVM_APERTURE_VID\<rparr>"

lemma pascal_tlb_va_pages_witness:
  "\<exists>words ms. uvm_hal_pascal_host_tlb_invalidate_va 4 sample_pdb 4 0x200000000 0x20000 (2 ^ 16) UVM_MEMBAR_SYS [] = Some words \<and>
    decode words = Some ([] @ ms) \<and>
    mem_ops ms = map (\<lambda>i. Mem_invalidate_va sample_pdb (5 - 4) (0x200000000 + of_nat (i * 2 ^ 16)) (UVM_MEMBAR_SYS \<noteq> UVM_MEMBAR_NONE))
      [0..<unat (0x20000 :: u64) div 2 ^ 16] @ membar_ops UVM_MEMBAR_SYS"
  by (rule pascal_tlb_va_pages) (simp_all add: pdb_ok_def sample_pdb_def)

section \<open>GPFIFO entries\<close>

text \<open>What the host reads off an entry: the address of the methods, their bytes, and the privilege.\<close>

definition read_gpfifo_entry :: "u64 \<Rightarrow> u64 \<times> u32 \<times> bool" where
  "read_gpfifo_entry e =
     (let entry0 = ucast e :: u32; entry1 = ucast (drop_bit 32 e) :: u32
      in (push_bit 2 (ucast (DRF_VAL NVA06F_GP_ENTRY0_GET entry0)) OR
            push_bit 32 (ucast (DRF_VAL NVA06F_GP_ENTRY1_GET_HI entry1)),
          push_bit 2 (DRF_VAL NVA06F_GP_ENTRY1_LENGTH entry1),
          DRF_VAL NVA06F_GP_ENTRY1_PRIV entry1 = 1))"

lemma two_words:
  "ucast ((ucast x :: u64) OR push_bit 32 (ucast y)) = (x :: u32)"
  "ucast (drop_bit 32 ((ucast x :: u64) OR push_bit 32 (ucast y))) = (y :: u32)"
  by (rule bit_word_eqI, auto simp: bit_simps dest: bit_imp_le_length)+

lemma bit_lt_if_small:
  assumes "unat (x :: 'a :: len word) < 2 ^ n" "bit x i"
  shows "i < n"
proof (rule ccontr)
  assume "\<not> i < n"
  have "bit (unat x) i" using assms(2) by (simp add: bit_unsigned_iff bit_imp_le_length)
  then have "2 ^ i \<le> unat x" by (metis bit_iff_odd div_less even_zero not_le)
  moreover have "(2::nat) ^ n \<le> 2 ^ i" using \<open>\<not> i < n\<close> by (intro power_increasing) auto
  ultimately show False using assms(1) by simp
qed

lemma bit_ge_if_dvd:
  assumes "2 ^ n dvd unat (x :: 'a :: len word)" "bit x i"
  shows "n \<le> i"
proof -
  obtain q where q: "unat x = push_bit n q" using assms(1) by (auto simp: push_bit_eq_mult elim!: dvdE)
  have "bit (unat x) i" using assms(2) by (simp add: bit_unsigned_iff bit_imp_le_length)
  then show ?thesis by (simp only: q bit_push_bit_iff)
qed

text \<open>
  A GPFIFO entry tells the GPU where a push is. Reading an entry by the fields of the host class gives
  back the address and the length it was written with, marked as the kernel's, for every 4-byte
  aligned address below 2 to the 40 and every multiple of 4 below 2 to the 23.
\<close>

theorem gpfifo_entry_roundtrip:
  assumes "2 ^ 2 dvd unat va" "unat va < 2 ^ 40" "2 ^ 2 dvd unat len" "unat len < 2 ^ 23"
  shows "read_gpfifo_entry (uvm_hal_kepler_host_set_gpfifo_entry va len) = (va, len, True)"
proof -
  let ?lo = "drop_bit 2 (NvU64_LO32 va)" and ?hi = "NvU64_HI32 va" and ?len = "drop_bit 2 len"
  note small = bit_lt_if_small[OF assms(2)] bit_lt_if_small[OF assms(4)] bit_ge_if_dvd[OF assms(1)]
  have lo: "?lo AND DRF_MASK (31, 2) = ?lo"
    by (rule bit_word_eqI) (auto simp: NvU64_LO32_def bit_simps)
  have hi: "?hi AND DRF_MASK (7, 0) = ?hi"
    by (rule bit_word_eqI) (auto simp: NvU64_HI32_def bit_simps dest: small)
  have len: "?len AND DRF_MASK (30, 10) = ?len"
    by (rule bit_word_eqI) (auto simp: bit_simps dest: small)
  have va: "push_bit 2 (ucast ?lo) OR push_bit 32 (ucast ?hi) = va"
  proof (rule bit_word_eqI)
    fix n assume n: "n < LENGTH(64)"
    consider "n < 2" | j where "n = j + 2" "j < 30" | j where "n = j + 32" "j < 32"
    proof (cases "n < 2", goal_cases)
      case 2
      then show ?case using n that(2)[of "n - 2"] that(3)[of "n - 32"] by (cases "n < 32") auto
    qed auto
    then show "bit (push_bit 2 (ucast ?lo) OR push_bit 32 (ucast ?hi) :: u64) n = bit va n"
      by cases (auto simp: NvU64_LO32_def NvU64_HI32_def bit_simps add.commute dest: small)
  qed
  have "push_bit 2 ?len = len" using assms(3) by (rule push_drop_bit)
  then show ?thesis
    unfolding read_gpfifo_entry_def uvm_hal_kepler_host_set_gpfifo_entry_def Let_def two_words
    by (simp add: drf32 lo hi len va)
qed

lemma gpfifo_entry_roundtrip_witness:
  "read_gpfifo_entry (uvm_hal_kepler_host_set_gpfifo_entry 0x1234567890 0x1000) = (0x1234567890, 0x1000, True)"
  by (rule gpfifo_entry_roundtrip) simp_all

section \<open>No-ops\<close>

lemma count_max: "UVM_METHOD_COUNT_MAX = 8191"
  by (simp add: UVM_METHOD_COUNT_MAX_def DRF_MASK_def) code_simp

text \<open>A no-op is one non-incrementing method that skips its data.\<close>

lemma decode_noop:
  assumes "unat cnt < 2 ^ 13"
  shows "decode (nv_push_nu_noninc UVM_SUBCHANNEL_HOST 8 cnt old []) =
    Some (map (\<lambda>i. (0, 8, old (Suc i))) [0..<unat cnt])"
proof -
  have s: "unat (8 :: u32) < 2 ^ 14" "4 dvd unat (8 :: u32)" "unat (0 :: u32) < 8" "unat (3 :: u32) < 8" by simp_all
  note f = method_fields[OF s(1-3) assms s(4)]
  show ?thesis using f
    by (simp add: nv_push_nu_noninc_def UVM_SUBCHANNEL_HOST_def header_count_def header_writes_def Let_def comp_def)
qed

lemma noop_append:
  "nv_push_nu_noninc s a cnt old push = push @ nv_push_nu_noninc s a cnt (\<lambda>j. old (length push + j)) []"
  by (simp add: nv_push_nu_noninc_def)

lemma noop_step:
  assumes "decode push = Some pm" "0 < unat n" "unat n \<le> 8192"
  shows "\<exists>ms. decode (nv_push_nu_noninc UVM_SUBCHANNEL_HOST 8 (n - 1) old push) = Some (pm @ ms) \<and>
    (\<forall>m \<in> set ms. fst m = 0 \<and> fst (snd m) = 8)"
    and "length (nv_push_nu_noninc UVM_SUBCHANNEL_HOST 8 (n - 1) old push) = length push + unat n"
proof -
  have n1: "unat (n - 1) = unat n - 1" using assms(2) by (simp add: unat_sub word_le_nat_alt)
  then have "unat (n - 1) < 2 ^ 13" using assms(2,3) by simp
  from decode_noop[OF this, of "\<lambda>j. old (length push + j)"] show
    "\<exists>ms. decode (nv_push_nu_noninc UVM_SUBCHANNEL_HOST 8 (n - 1) old push) = Some (pm @ ms) \<and>
      (\<forall>m \<in> set ms. fst m = 0 \<and> fst (snd m) = 8)"
    unfolding noop_append[of _ _ _ _ push] decode_append[OF assms(1)] by auto
  show "length (nv_push_nu_noninc UVM_SUBCHANNEL_HOST 8 (n - 1) old push) = length push + unat n"
    using n1 assms(2) by (simp add: nv_push_nu_noninc_def)
qed

lemma noop_loop_eq:
  assumes "decode push = Some pm" "unat sz < fuel"
  shows "\<exists>words ms. noop_loop fuel sz old push = Some words \<and> decode words = Some (pm @ ms) \<and>
    length words = length push + unat sz \<and> (\<forall>m \<in> set ms. fst m = 0 \<and> fst (snd m) = 8)"
  using assms
proof (induction fuel arbitrary: sz push pm)
  case (Suc fuel)
  show ?case
  proof (cases "sz = 0")
    case False
    let ?n = "min (UVM_METHOD_COUNT_MAX + 1) sz"
    have n: "unat ?n = min 8192 (unat sz)" by (simp add: count_max min_def word_le_nat_alt)
    have pos: "0 < unat sz" using False by (simp add: unat_gt_0)
    have n0: "0 < unat ?n" "unat ?n \<le> 8192" using n pos by simp_all
    obtain ms where ms: "decode (nv_push_nu_noninc UVM_SUBCHANNEL_HOST 8 (?n - 1) old push) = Some (pm @ ms)"
      "\<forall>m \<in> set ms. fst m = 0 \<and> fst (snd m) = 8" using noop_step(1)[OF Suc.prems(1) n0] by blast
    have sub: "unat (sz - ?n) = unat sz - unat ?n" using n by (intro unat_sub) (simp add: word_le_nat_alt)
    have "unat (sz - ?n) < fuel" using sub n0(1) Suc.prems(2) n by simp
    from Suc.IH[OF ms(1) this] obtain words ms' where w:
      "noop_loop fuel (sz - ?n) old (nv_push_nu_noninc UVM_SUBCHANNEL_HOST 8 (?n - 1) old push) = Some words"
      "decode words = Some ((pm @ ms) @ ms')"
      "length words = length (nv_push_nu_noninc UVM_SUBCHANNEL_HOST 8 (?n - 1) old push) + unat (sz - ?n)"
      "\<forall>m \<in> set ms'. fst m = 0 \<and> fst (snd m) = 8" by blast
    have "noop_loop (Suc fuel) sz old push = Some words" using False w(1) by (simp add: Let_def)
    moreover have "length words = length push + unat sz"
      using w(3) noop_step(2)[OF Suc.prems(1) n0] sub n by simp
    ultimately show ?thesis using w(2,4) ms(2) by (intro exI[of _ words] exI[of _ "ms @ ms'"]) auto
  qed (use Suc.prems in auto)
qed simp

text \<open>
  A no-op of any size skips exactly that many bytes. The words written number the size over four
  and decode to writes of the NOP method alone, whatever the buffer held before; the loop needs at most
  one iteration per word.
\<close>

theorem host_noop_exact:
  assumes "decode push = Some pm" "4 dvd unat sz" "unat sz < fuel"
  shows "\<exists>words ms. uvm_hal_kepler_host_noop fuel sz old push = Some words \<and> decode words = Some (pm @ ms) \<and>
    4 * (length words - length push) = unat sz \<and> length push \<le> length words \<and>
    (\<forall>m \<in> set ms. fst m = 0 \<and> fst (snd m) = 8)"
proof (cases "sz = 0")
  case True
  then show ?thesis using assms(1) by (simp add: uvm_hal_kepler_host_noop_def exI[of _ "[]"])
next
  case False
  have u: "unat (sz div 4) = unat sz div 4" by (simp add: unat_div)
  then have "unat (sz div 4) < fuel" using assms(3) by simp
  from noop_loop_eq[OF assms(1) this, of old] obtain words ms where
    "noop_loop fuel (sz div 4) old push = Some words" "decode words = Some (pm @ ms)"
    "length words = length push + unat sz div 4" "\<forall>m \<in> set ms. fst m = 0 \<and> fst (snd m) = 8"
    unfolding u by blast
  then show ?thesis using False assms(2) by (auto simp: uvm_hal_kepler_host_noop_def)
qed

lemma host_noop_exact_witness:
  "\<exists>words ms. uvm_hal_kepler_host_noop 40000 32772 (\<lambda>_. 7) [] = Some words \<and> decode words = Some ([] @ ms) \<and>
    4 * (length words - length ([] :: u32 list)) = unat (32772 :: u32) \<and> length ([] :: u32 list) \<le> length words \<and>
    (\<forall>m \<in> set ms. fst m = 0 \<and> fst (snd m) = 8)"
  by (rule host_noop_exact) simp_all

section \<open>The membar of Maxwell\<close>

text \<open>The methods of class B06F, by \<^verbatim>\<open>clb06f.h\<close>, which says that \<^verbatim>\<open>MEM_OP_A\<close> and \<^verbatim>\<open>MEM_OP_B\<close> have been removed.\<close>

definition b06f_methods :: "u32 list" where
  "b06f_methods = [0, 8, 0x10, 0x14, 0x18, 0x1c, 0x30, 0x34]"

lemma kepler_membar_decodes:
  "decode (uvm_hal_kepler_host_membar_sys []) = Some [(0, 0x2c, 0x28000000)]"
proof -
  have "writes (nv_push 0 0x2c [0x28000000]) (map (\<lambda>i. (0, 0x2c + 4 * of_nat i, [0x28000000] ! i)) [0..<length [0x28000000 :: u32]])"
    by (rule writes_nv_push) simp_all
  moreover have "DRF_DEF NVA06F_MEM_OP_B_OPERATION 5 = 0x28000000" by (simp add: DRF_DEF_def DRF_SHIFT_def)
  ultimately show ?thesis
    by (simp add: writes_def uvm_hal_kepler_host_membar_sys_def UVM_SUBCHANNEL_HOST_def)
qed

end

