(* ===== verification/Hal_Table.thy ===== *)
theory Hal_Table
  imports Hal_Methods
begin

text \<open>
  \<^verbatim>\<open>uvm8_hal.c\<close>: the tables of functions per hardware class and how a class inherits the functions it
  leaves out from its parent, with the host and copy engine tables of the driver. Inheritance in
  place equals looking a function up along the parents. The row of the Maxwell host class shows a
  membar inherited from Kepler that writes a method its class does not have.
\<close>

record 'f uvm_hal_class_ops =
  class_id :: u32
  parent_id :: u32
  class_ops :: "'f option list"

definition NV_ERR_INVALID_CLASS :: nv_status where "NV_ERR_INVALID_CLASS = NV_STATUS_CODE 0x22"

definition NV_ERR_INVALID_STATE :: nv_status where "NV_ERR_INVALID_STATE = NV_STATUS_CODE 0x40"

text \<open>The index of the first of the first \<open>row_count\<close> rows with the id.\<close>

definition ops_find_by_id :: "'f uvm_hal_class_ops list \<Rightarrow> nat \<Rightarrow> u32 \<Rightarrow> nat option" where
  "ops_find_by_id table row_count cls = List.find (\<lambda>k. class_id (table ! k) = cls) [0..<row_count]"

definition op_is_null :: "'f uvm_hal_class_ops \<Rightarrow> nat \<Rightarrow> bool" where
  "op_is_null row op_idx \<longleftrightarrow> class_ops row ! op_idx = None"

definition op_copy :: "'f uvm_hal_class_ops \<Rightarrow> 'f uvm_hal_class_ops \<Rightarrow> nat \<Rightarrow> 'f uvm_hal_class_ops" where
  "op_copy dst src op_idx = dst\<lparr>class_ops := (class_ops dst)[op_idx := class_ops src ! op_idx]\<rparr>"

text \<open>Going through the operations of a row and taking the parent's where there is none.\<close>

definition inherit_ops :: "nat \<Rightarrow> 'f uvm_hal_class_ops \<Rightarrow> 'f uvm_hal_class_ops \<Rightarrow> 'f uvm_hal_class_ops" where
  "inherit_ops op_count parent row =
     fold (\<lambda>j row. if op_is_null row j then op_copy row parent j else row) [0..<op_count] row"

fun ops_init_loop ::
  "nat \<Rightarrow> nat \<Rightarrow> nat \<Rightarrow> 'f uvm_hal_class_ops list \<Rightarrow> nv_status \<times> 'f uvm_hal_class_ops list" where
  "ops_init_loop i 0 op_count table = (NV_OK, table)"
| "ops_init_loop i (Suc n) op_count table =
     (let row = table ! i
      in case (if parent_id row \<noteq> 0
               then case ops_find_by_id table i (parent_id row) of
                      None \<Rightarrow> None
                    | Some p \<Rightarrow> Some (table[i := inherit_ops op_count (table ! p) row])
               else Some table) of
           None \<Rightarrow> (NV_ERR_INVALID_CLASS, table)
         | Some table \<Rightarrow>
             if \<exists>j \<in> set [0..<op_count]. op_is_null (table ! i) j then (NV_ERR_INVALID_STATE, table)
             else ops_init_loop (Suc i) n op_count table)"

definition ops_init_from_parent ::
  "'f uvm_hal_class_ops list \<Rightarrow> nat \<Rightarrow> nv_status \<times> 'f uvm_hal_class_ops list" where
  "ops_init_from_parent table op_count = ops_init_loop 0 (length table) op_count table"

section \<open>The reference: looking a function up along the parents\<close>

lemma ops_find_less: "ops_find_by_id table n i = Some k \<Longrightarrow> k < n"
  by (auto simp: ops_find_by_id_def find_Some_iff)

function resolve :: "'f uvm_hal_class_ops list \<Rightarrow> nat \<Rightarrow> nat \<Rightarrow> 'f option" where
  "resolve table i j =
     (case class_ops (table ! i) ! j of
        Some f \<Rightarrow> Some f
      | None \<Rightarrow>
          if parent_id (table ! i) = 0 then None
          else case ops_find_by_id table i (parent_id (table ! i)) of
                 None \<Rightarrow> None
               | Some p \<Rightarrow> resolve table p j)"
  by pat_completeness auto
termination by (relation "measure (\<lambda>(table, i, j). i)") (auto dest: ops_find_less)

declare resolve.simps [simp del]

definition parent_found :: "'f uvm_hal_class_ops list \<Rightarrow> nat \<Rightarrow> bool" where
  "parent_found table i \<longleftrightarrow> parent_id (table ! i) = 0 \<or> ops_find_by_id table i (parent_id (table ! i)) \<noteq> None"

lemma inherit_ops_nth:
  assumes "n \<le> length (class_ops row)"
  shows "length (class_ops (inherit_ops n parent row)) = length (class_ops row) \<and>
    class_id (inherit_ops n parent row) = class_id row \<and> parent_id (inherit_ops n parent row) = parent_id row \<and>
    (\<forall>j < length (class_ops row). class_ops (inherit_ops n parent row) ! j =
      (if j < n \<and> class_ops row ! j = None then class_ops parent ! j else class_ops row ! j))"
  using assms
proof (induction n)
  case (Suc n)
  have "inherit_ops (Suc n) parent row =
      (if op_is_null (inherit_ops n parent row) n then op_copy (inherit_ops n parent row) parent n else inherit_ops n parent row)"
    by (simp add: inherit_ops_def)
  then show ?case using Suc by (auto simp: op_is_null_def op_copy_def nth_list_update less_Suc_eq)
qed (simp add: inherit_ops_def)

definition init_inv :: "nat \<Rightarrow> 'f uvm_hal_class_ops list \<Rightarrow> nat \<Rightarrow> 'f uvm_hal_class_ops list \<Rightarrow> bool" where
  "init_inv op_count table i t \<longleftrightarrow> length t = length table \<and>
     (\<forall>k < length table. class_id (t ! k) = class_id (table ! k) \<and> parent_id (t ! k) = parent_id (table ! k)) \<and>
     (\<forall>k < length table. length (class_ops (t ! k)) = op_count) \<and>
     (\<forall>k < i. \<forall>j < op_count. class_ops (t ! k) ! j = resolve table k j) \<and>
     (\<forall>k < length table. i \<le> k \<longrightarrow> t ! k = table ! k)"

lemma find_same_ids:
  assumes "\<forall>k < length table. class_id (t ! k) = class_id (table ! k)" "i \<le> length table"
  shows "ops_find_by_id t i x = ops_find_by_id table i x"
  unfolding ops_find_by_id_def by (rule find_cong) (use assms in auto)

text \<open>One row: what the loop does with row \<open>i\<close>.\<close>

lemma init_step:
  assumes inv: "init_inv op_count table i t" and i: "i < length table"
  shows "(\<not> parent_found table i \<longrightarrow> fst (ops_init_loop i (Suc n) op_count t) = NV_ERR_INVALID_CLASS) \<and>
    (parent_found table i \<and> (\<exists>j < op_count. resolve table i j = None) \<longrightarrow>
       fst (ops_init_loop i (Suc n) op_count t) = NV_ERR_INVALID_STATE) \<and>
    (parent_found table i \<and> (\<forall>j < op_count. resolve table i j \<noteq> None) \<longrightarrow>
       (\<exists>t'. init_inv op_count table (Suc i) t' \<and> ops_init_loop i (Suc n) op_count t = ops_init_loop (Suc i) n op_count t'))"
proof -
  let ?row = "t ! i"
  have row: "?row = table ! i" using inv i by (simp add: init_inv_def)
  have find: "ops_find_by_id t i x = ops_find_by_id table i x" for x
    using inv i by (intro find_same_ids) (simp_all add: init_inv_def)
  have len: "length (class_ops ?row) = op_count" "length t = length table"
    using inv i unfolding init_inv_def by blast+
  have main: "(parent_found table i \<and> (\<exists>j < op_count. resolve table i j = None) \<longrightarrow> fst r = NV_ERR_INVALID_STATE) \<and>
      (parent_found table i \<and> (\<forall>j < op_count. resolve table i j \<noteq> None) \<longrightarrow>
         (\<exists>t'. init_inv op_count table (Suc i) t' \<and> r = ops_init_loop (Suc i) n op_count t'))"
    if r: "r = (if \<exists>j \<in> set [0..<op_count]. op_is_null (t' ! i) j then (NV_ERR_INVALID_STATE, t')
        else ops_init_loop (Suc i) n op_count t')"
      and t': "\<forall>k < length table. k \<noteq> i \<longrightarrow> t' ! k = t ! k" "length t' = length table"
        "class_id (t' ! i) = class_id (table ! i)" "parent_id (t' ! i) = parent_id (table ! i)"
        "length (class_ops (t' ! i)) = op_count" "\<forall>j < op_count. class_ops (t' ! i) ! j = resolve table i j" for r t'
  proof -
    have "\<forall>k < i. t' ! k = t ! k" using t'(1) i by auto
    then have "init_inv op_count table (Suc i) t'"
      using inv t' by (auto simp: init_inv_def less_Suc_eq)
    moreover have "(\<exists>j \<in> set [0..<op_count]. op_is_null (t' ! i) j) \<longleftrightarrow> (\<exists>j < op_count. resolve table i j = None)"
      using t'(6) by (auto simp: op_is_null_def Bex_def)
    ultimately show ?thesis unfolding r by auto
  qed
  show ?thesis
  proof (cases "parent_id (table ! i) = 0")
    case True
    then have "resolve table i j = class_ops ?row ! j" for j
      by (simp add: resolve.simps[of table i] row split: option.split)
    then show ?thesis using main[OF refl, of t] True len row i
      by (simp add: parent_found_def Let_def)
  next
    case par: False
    show ?thesis
    proof (cases "ops_find_by_id table i (parent_id (table ! i))")
      case None
      then show ?thesis using par row find by (simp add: parent_found_def Let_def)
    next
      case (Some p)
      have p: "p < i" using ops_find_less[OF Some] .
      let ?t' = "t[i := inherit_ops op_count (t ! p) ?row]"
      have "\<forall>j < op_count. class_ops (t ! p) ! j = resolve table p j" using inv p by (simp add: init_inv_def)
      then have "\<forall>j < op_count. class_ops (?t' ! i) ! j = resolve table i j"
        using inherit_ops_nth[of op_count ?row "t ! p"] len i Some par
        by (auto simp: resolve.simps[of table i] row split: option.split)
      moreover have "ops_init_loop i (Suc n) op_count t =
          (if \<exists>j \<in> set [0..<op_count]. op_is_null (?t' ! i) j then (NV_ERR_INVALID_STATE, ?t')
           else ops_init_loop (Suc i) n op_count ?t')"
        using par row find Some by (simp add: Let_def)
      ultimately show ?thesis
        using main[OF refl, of ?t'] inherit_ops_nth[of op_count ?row "t ! p"] len i Some row
        by (simp add: parent_found_def)
    qed
  qed
qed

definition all_resolve :: "'f uvm_hal_class_ops list \<Rightarrow> nat \<Rightarrow> bool" where
  "all_resolve table op_count \<longleftrightarrow>
     (\<forall>i < length table. parent_found table i \<and> (\<forall>j < op_count. resolve table i j \<noteq> None))"

lemma ops_init_loop_eq:
  assumes "init_inv op_count table i t" "i + n = length table"
    and "\<forall>k < i. parent_found table k \<and> (\<forall>j < op_count. resolve table k j \<noteq> None)"
  shows "(fst (ops_init_loop i n op_count t) = NV_OK \<longleftrightarrow> all_resolve table op_count) \<and>
    (all_resolve table op_count \<longrightarrow>
      init_inv op_count table (length table) (snd (ops_init_loop i n op_count t)))"
  using assms
proof (induction n arbitrary: i t)
  case 0
  then show ?case by (simp add: all_resolve_def init_inv_def)
next
  case (Suc n)
  have i: "i < length table" using Suc.prems(2) by simp
  note step = init_step[OF Suc.prems(1) i, of n]
  have ne: "NV_ERR_INVALID_CLASS \<noteq> NV_OK" "NV_ERR_INVALID_STATE \<noteq> NV_OK"
    by (simp_all add: NV_ERR_INVALID_CLASS_def NV_ERR_INVALID_STATE_def)
  show ?case
  proof (cases "parent_found table i \<and> (\<forall>j < op_count. resolve table i j \<noteq> None)")
    case True
    then obtain t' where t': "init_inv op_count table (Suc i) t'"
      "ops_init_loop i (Suc n) op_count t = ops_init_loop (Suc i) n op_count t'" using step by blast
    have "\<forall>k < Suc i. parent_found table k \<and> (\<forall>j < op_count. resolve table k j \<noteq> None)"
      using Suc.prems(3) True by (auto simp: less_Suc_eq)
    then show ?thesis unfolding t'(2) using Suc.prems(2) by (intro Suc.IH[OF t'(1)]) simp_all
  next
    case False
    then have "\<not> all_resolve table op_count" using i by (auto simp: all_resolve_def)
    moreover have "fst (ops_init_loop i (Suc n) op_count t) \<noteq> NV_OK" using step False ne by metis
    ultimately show ?thesis by blast
  qed
qed

lemma ops_init_from_parent_eq:
  assumes "\<forall>row \<in> set table. length (class_ops row) = op_count"
  shows "(fst (ops_init_from_parent table op_count) = NV_OK \<longleftrightarrow> all_resolve table op_count) \<and>
    (all_resolve table op_count \<longrightarrow>
      init_inv op_count table (length table) (snd (ops_init_from_parent table op_count)))"
  unfolding ops_init_from_parent_def
  by (rule ops_init_loop_eq) (use assms in \<open>simp_all add: init_inv_def\<close>)

text \<open>
  C38. Initialising a table of classes equals looking functions up along the parents. It succeeds exactly
  when every row's parent stands before it and every operation is found in the row or an ancestor, and
  then each row holds, for each operation, its own function or that of its nearest ancestor with one.
\<close>

theorem hal_init_equals_resolve:
  assumes "\<forall>row \<in> set table. length (class_ops row) = op_count"
  shows "(fst (ops_init_from_parent table op_count) = NV_OK \<longleftrightarrow> all_resolve table op_count) \<and>
    (all_resolve table op_count \<longrightarrow>
      (\<forall>k < length table. \<forall>j < op_count.
         class_ops (snd (ops_init_from_parent table op_count) ! k) ! j = resolve table k j))"
  using ops_init_from_parent_eq[OF assms] by (simp add: init_inv_def)

section \<open>The tables of the driver\<close>

text \<open>The functions of a row by name, in the order of \<^verbatim>\<open>uvm_host_hal_struct\<close> and \<^verbatim>\<open>uvm_ce_hal_struct\<close>.\<close>

type_synonym named_ops = "string uvm_hal_class_ops"

definition HOST_OP_COUNT :: nat where "HOST_OP_COUNT = 15"

definition CE_OP_COUNT :: nat where "CE_OP_COUNT = 12"

definition host_table_base :: "named_ops list" where
  "host_table_base =
     [\<lparr>class_id = 0xA06F, parent_id = 0, class_ops =
        [Some ''uvm_hal_kepler_host_init_noop'', Some ''uvm_hal_kepler_host_wait_for_idle_a06f'',
         Some ''uvm_hal_kepler_host_membar_sys'', Some ''uvm_hal_kepler_host_membar_sys'',
         Some ''uvm_hal_kepler_host_noop'', Some ''uvm_hal_kepler_host_interrupt'',
         Some ''uvm_hal_kepler_host_semaphore_release'', Some ''uvm_hal_kepler_host_semaphore_acquire'',
         Some ''uvm_hal_kepler_host_set_gpfifo_entry'', Some ''uvm_hal_kepler_host_write_gpu_put'',
         Some ''uvm_hal_kepler_host_tlb_invalidate_all'', Some ''uvm_hal_kepler_host_tlb_invalidate_va'',
         Some ''uvm_hal_kepler_host_tlb_invalidate_test'', Some ''uvm_hal_kepler_replay_faults_unsupported'',
         Some ''uvm_hal_kepler_cancel_faults_targeted_unsupported'']\<rparr>,
      \<lparr>class_id = 0xA16F, parent_id = 0xA06F, class_ops =
        (replicate 15 None)[1 := Some ''uvm_hal_kepler_host_wait_for_idle_a16f'']\<rparr>,
      \<lparr>class_id = 0xB06F, parent_id = 0xA06F, class_ops =
        (replicate 15 None)[10 := Some ''uvm_hal_maxwell_host_tlb_invalidate_all'']\<rparr>,
      \<lparr>class_id = 0xC06F, parent_id = 0xB06F, class_ops =
        (replicate 15 None)
          [0 := Some ''uvm_hal_pascal_host_init'', 2 := Some ''uvm_hal_pascal_host_membar_sys'',
           3 := Some ''uvm_hal_pascal_host_membar_gpu'', 10 := Some ''uvm_hal_pascal_host_tlb_invalidate_all'',
           11 := Some ''uvm_hal_pascal_host_tlb_invalidate_va'', 12 := Some ''uvm_hal_pascal_host_tlb_invalidate_test'',
           13 := Some ''uvm_hal_pascal_replay_faults'', 14 := Some ''uvm_hal_pascal_cancel_faults_targeted'']\<rparr>]"

definition ce_table_base :: "named_ops list" where
  "ce_table_base =
     [\<lparr>class_id = 0xA0B5, parent_id = 0, class_ops =
        [Some ''uvm_hal_kepler_ce_init'', Some ''uvm_hal_kepler_ce_semaphore_release'',
         Some ''uvm_hal_kepler_ce_semaphore_timestamp'', Some ''uvm_hal_kepler_ce_offset_out'',
         Some ''uvm_hal_kepler_ce_offset_in_out'', Some ''uvm_hal_kepler_ce_memcopy'',
         Some ''uvm_hal_kepler_ce_memcopy_v_to_v'', Some ''uvm_hal_kepler_ce_memset_1'',
         Some ''uvm_hal_kepler_ce_memset_4'', Some ''uvm_hal_kepler_ce_memset_8'',
         Some ''uvm_hal_kepler_ce_memset_v_4'', Some ''uvm_hal_kepler_ce_semaphore_reduction_inc'']\<rparr>,
      \<lparr>class_id = 0xB0B5, parent_id = 0xA0B5, class_ops = replicate 12 None\<rparr>,
      \<lparr>class_id = 0xC0B5, parent_id = 0xB0B5, class_ops =
        (replicate 12 None)
          [3 := Some ''uvm_hal_pascal_ce_offset_out'', 4 := Some ''uvm_hal_pascal_ce_offset_in_out'']\<rparr>,
      \<lparr>class_id = 0xC1B5, parent_id = 0xC0B5, class_ops = replicate 12 None\<rparr>]"

definition ARCH_OP_COUNT :: nat where "ARCH_OP_COUNT = 4"

definition FAULT_BUFFER_OP_COUNT :: nat where "FAULT_BUFFER_OP_COUNT = 6"

definition arch_table_base :: "named_ops list" where
  "arch_table_base =
     [\<lparr>class_id = 0xE0, parent_id = 0, class_ops =
        [Some ''uvm_hal_kepler_arch_init_properties'', Some ''uvm_hal_mmu_mode_kepler'',
         Some ''uvm_hal_kepler_mmu_enable_prefetch_faults_unsupported'',
         Some ''uvm_hal_kepler_mmu_disable_prefetch_faults_unsupported'']\<rparr>,
      \<lparr>class_id = 0xF0, parent_id = 0xE0, class_ops = replicate 4 None\<rparr>,
      \<lparr>class_id = 0x100, parent_id = 0xE0, class_ops = replicate 4 None\<rparr>,
      \<lparr>class_id = 0x110, parent_id = 0xE0, class_ops =
        (replicate 4 None)[0 := Some ''uvm_hal_maxwell_arch_init_properties'']\<rparr>,
      \<lparr>class_id = 0x120, parent_id = 0x110, class_ops = replicate 4 None\<rparr>,
      \<lparr>class_id = 0x130, parent_id = 0x110, class_ops =
        [Some ''uvm_hal_pascal_arch_init_properties'', Some ''uvm_hal_mmu_mode_pascal'',
         Some ''uvm_hal_pascal_mmu_enable_prefetch_faults'',
         Some ''uvm_hal_pascal_mmu_disable_prefetch_faults'']\<rparr>]"

definition fault_buffer_table_base :: "named_ops list" where
  "fault_buffer_table_base =
     [\<lparr>class_id = 0xB069, parent_id = 0, class_ops =
        [Some ''uvm_hal_pascal_enable_replayable_faults'', Some ''uvm_hal_pascal_disable_replayable_faults'',
         Some ''uvm_hal_pascal_fault_buffer_parse_entry'', Some ''uvm_hal_pascal_fault_buffer_entry_is_valid'',
         Some ''uvm_hal_pascal_fault_buffer_entry_clear_valid'', Some ''uvm_hal_pascal_fault_buffer_entry_size'']\<rparr>]"

section \<open>Loading the module and adding a GPU\<close>

text \<open>
  The tables in use, NULL before they are built. Whether each of the four allocations succeeds is given;
  the next-generation tables that extend the base ones are arguments (the driver as shipped has none).
\<close>

record hal_tables =
  ce_table_all :: "named_ops list option"
  host_table_all :: "named_ops list option"
  arch_table_all :: "named_ops list option"
  fault_buffer_table_all :: "named_ops list option"

record hal_next =
  ce_table_next :: "named_ops list"
  host_table_next :: "named_ops list"
  arch_table_next :: "named_ops list"
  fault_buffer_table_next :: "named_ops list"

definition combine_tables :: "bool \<Rightarrow> named_ops list \<Rightarrow> named_ops list \<Rightarrow> named_ops list option" where
  "combine_tables alloc_ok base_table next_table = (if alloc_ok then Some (base_table @ next_table) else None)"

definition uvm_hal_init_combine_tables :: "(nat \<Rightarrow> bool) \<Rightarrow> hal_next \<Rightarrow> hal_tables \<Rightarrow> nv_status \<times> hal_tables" where
  "uvm_hal_init_combine_tables ok nx h =
     (let h = h\<lparr>ce_table_all := combine_tables (ok 0) ce_table_base (ce_table_next nx)\<rparr>
      in if ce_table_all h = None then (NV_ERR_NO_MEMORY, h)
         else let h = h\<lparr>host_table_all := combine_tables (ok 1) host_table_base (host_table_next nx)\<rparr>
      in if host_table_all h = None then (NV_ERR_NO_MEMORY, h)
         else let h = h\<lparr>arch_table_all := combine_tables (ok 2) arch_table_base (arch_table_next nx)\<rparr>
      in if arch_table_all h = None then (NV_ERR_NO_MEMORY, h)
         else let h = h\<lparr>fault_buffer_table_all :=
                          combine_tables (ok 3) fault_buffer_table_base (fault_buffer_table_next nx)\<rparr>
      in if fault_buffer_table_all h = None then (NV_ERR_NO_MEMORY, h) else (NV_OK, h))"

definition uvm_hal_init_table :: "(nat \<Rightarrow> bool) \<Rightarrow> hal_next \<Rightarrow> hal_tables \<Rightarrow> nv_status \<times> hal_tables" where
  "uvm_hal_init_table ok nx h =
     (case uvm_hal_init_combine_tables ok nx h of (status, h) \<Rightarrow>
        if status \<noteq> NV_OK then (status, h)
        else case ops_init_from_parent (the (ce_table_all h)) CE_OP_COUNT of (status, t) \<Rightarrow>
        let h = h\<lparr>ce_table_all := Some t\<rparr> in
        if status \<noteq> NV_OK then (status, h)
        else case ops_init_from_parent (the (host_table_all h)) HOST_OP_COUNT of (status, t) \<Rightarrow>
        let h = h\<lparr>host_table_all := Some t\<rparr> in
        if status \<noteq> NV_OK then (status, h)
        else case ops_init_from_parent (the (arch_table_all h)) ARCH_OP_COUNT of (status, t) \<Rightarrow>
        let h = h\<lparr>arch_table_all := Some t\<rparr> in
        if status \<noteq> NV_OK then (status, h)
        else case ops_init_from_parent (the (fault_buffer_table_all h)) FAULT_BUFFER_OP_COUNT of (status, t) \<Rightarrow>
        let h = h\<lparr>fault_buffer_table_all := Some t\<rparr> in
        if status \<noteq> NV_OK then (status, h) else (NV_OK, h))"

text \<open>The classes of a GPU, reported by RM, and the functions picked for it.\<close>

record gpu_hal =
  gpu_ce_class :: u32
  gpu_host_class :: u32
  gpu_architecture :: u32
  gpu_fault_buffer_class :: u32
  ce_hal :: "string option list"
  host_hal :: "string option list"
  arch_hal :: "string option list"
  fault_buffer_hal :: "string option list option"

definition find_ops :: "named_ops list \<Rightarrow> u32 \<Rightarrow> string option list option" where
  "find_ops table cls = map_option (\<lambda>k. class_ops (table ! k)) (ops_find_by_id table (length table) cls)"

definition uvm_hal_init_gpu :: "hal_tables \<Rightarrow> gpu_hal \<Rightarrow> nv_status \<times> gpu_hal" where
  "uvm_hal_init_gpu h gpu =
     (case find_ops (the (ce_table_all h)) (gpu_ce_class gpu) of
        None \<Rightarrow> (NV_ERR_INVALID_CLASS, gpu)
      | Some ops \<Rightarrow>
      let gpu = gpu\<lparr>ce_hal := ops\<rparr> in
      case find_ops (the (host_table_all h)) (gpu_host_class gpu) of
        None \<Rightarrow> (NV_ERR_INVALID_CLASS, gpu)
      | Some ops \<Rightarrow>
      let gpu = gpu\<lparr>host_hal := ops\<rparr> in
      case find_ops (the (arch_table_all h)) (gpu_architecture gpu) of
        None \<Rightarrow> (NV_ERR_INVALID_CLASS, gpu)
      | Some ops \<Rightarrow>
      let gpu = gpu\<lparr>arch_hal := ops\<rparr> in
      if gpu_fault_buffer_class gpu \<noteq> 0
      then case find_ops (the (fault_buffer_table_all h)) (gpu_fault_buffer_class gpu) of
             None \<Rightarrow> (NV_ERR_INVALID_CLASS, gpu)
           | Some ops \<Rightarrow> (NV_OK, gpu\<lparr>fault_buffer_hal := Some ops\<rparr>)
      else (NV_OK, gpu\<lparr>fault_buffer_hal := None\<rparr>))"

lemma host_table_resolves:
  "map (\<lambda>k. map (resolve host_table_base k) [0..<15]) [2, 3] =
    [[Some ''uvm_hal_kepler_host_init_noop'', Some ''uvm_hal_kepler_host_wait_for_idle_a06f'',
      Some ''uvm_hal_kepler_host_membar_sys'', Some ''uvm_hal_kepler_host_membar_sys'',
      Some ''uvm_hal_kepler_host_noop'', Some ''uvm_hal_kepler_host_interrupt'',
      Some ''uvm_hal_kepler_host_semaphore_release'', Some ''uvm_hal_kepler_host_semaphore_acquire'',
      Some ''uvm_hal_kepler_host_set_gpfifo_entry'', Some ''uvm_hal_kepler_host_write_gpu_put'',
      Some ''uvm_hal_maxwell_host_tlb_invalidate_all'', Some ''uvm_hal_kepler_host_tlb_invalidate_va'',
      Some ''uvm_hal_kepler_host_tlb_invalidate_test'', Some ''uvm_hal_kepler_replay_faults_unsupported'',
      Some ''uvm_hal_kepler_cancel_faults_targeted_unsupported''],
     [Some ''uvm_hal_pascal_host_init'', Some ''uvm_hal_kepler_host_wait_for_idle_a06f'',
      Some ''uvm_hal_pascal_host_membar_sys'', Some ''uvm_hal_pascal_host_membar_gpu'',
      Some ''uvm_hal_kepler_host_noop'', Some ''uvm_hal_kepler_host_interrupt'',
      Some ''uvm_hal_kepler_host_semaphore_release'', Some ''uvm_hal_kepler_host_semaphore_acquire'',
      Some ''uvm_hal_kepler_host_set_gpfifo_entry'', Some ''uvm_hal_kepler_host_write_gpu_put'',
      Some ''uvm_hal_pascal_host_tlb_invalidate_all'', Some ''uvm_hal_pascal_host_tlb_invalidate_va'',
      Some ''uvm_hal_pascal_host_tlb_invalidate_test'', Some ''uvm_hal_pascal_replay_faults'',
      Some ''uvm_hal_pascal_cancel_faults_targeted'']]"
  by code_simp

lemma hal_init_equals_resolve_witness:
  "fst (ops_init_from_parent host_table_base HOST_OP_COUNT) = NV_OK \<longleftrightarrow> all_resolve host_table_base HOST_OP_COUNT"
proof -
  have "\<forall>row \<in> set host_table_base. length (class_ops row) = HOST_OP_COUNT"
    by (simp add: host_table_base_def HOST_OP_COUNT_def)
  from hal_init_equals_resolve[OF this] show ?thesis by blast
qed

text \<open>Both tables of the driver are complete: the initialisation of them succeeds.\<close>

lemma all_resolve_exec:
  "all_resolve table n \<longleftrightarrow>
     list_all (\<lambda>i. (parent_id (table ! i) = 0 \<or> \<not> Option.is_none (ops_find_by_id table i (parent_id (table ! i)))) \<and>
       list_all (\<lambda>j. \<not> Option.is_none (resolve table i j)) [0..<n]) [0..<length table]"
  by (auto simp: all_resolve_def parent_found_def list_all_iff Option.is_none_def)

lemma host_table_complete: "all_resolve host_table_base HOST_OP_COUNT"
  unfolding all_resolve_exec by code_simp

lemma ce_table_complete: "all_resolve ce_table_base CE_OP_COUNT"
  unfolding all_resolve_exec by code_simp

lemma arch_table_complete: "all_resolve arch_table_base ARCH_OP_COUNT"
  unfolding all_resolve_exec by code_simp

lemma fault_buffer_table_complete: "all_resolve fault_buffer_table_base FAULT_BUFFER_OP_COUNT"
  unfolding all_resolve_exec by code_simp

section \<open>What a GPU gets\<close>

text \<open>The functions of a class by the reference: each its own or its nearest ancestor's.\<close>

definition resolved_ops :: "named_ops list \<Rightarrow> nat \<Rightarrow> u32 \<Rightarrow> string option list option" where
  "resolved_ops table n cls =
     map_option (\<lambda>k. map (resolve table k) [0..<n]) (ops_find_by_id table (length table) cls)"

lemma init_table_find:
  assumes len: "\<forall>row \<in> set table. length (class_ops row) = n"
    and ok: "ops_init_from_parent table n = (NV_OK, t)"
  shows "find_ops t cls = resolved_ops table n cls"
    and "resolved_ops table n cls = Some ops \<Longrightarrow> length ops = n \<and> None \<notin> set ops"
    and "resolved_ops table n cls \<noteq> None \<longleftrightarrow> cls \<in> class_id ` set table"
proof -
  have res: "all_resolve table n" and inv: "init_inv n table (length table) t"
    using ops_init_from_parent_eq[OF len] ok by auto
  have find: "ops_find_by_id t (length t) cls = ops_find_by_id table (length table) cls"
    using inv find_same_ids[of table t "length table" cls] by (simp add: init_inv_def)
  have row: "class_ops (t ! k) = map (resolve table k) [0..<n]" if "k < length table" for k
    using inv that by (intro nth_equalityI) (auto simp: init_inv_def)
  show "find_ops t cls = resolved_ops table n cls"
    unfolding find_ops_def resolved_ops_def find
    by (cases "ops_find_by_id table (length table) cls") (auto dest!: ops_find_less row)
  show "length ops = n \<and> None \<notin> set ops" if eq: "resolved_ops table n cls = Some ops"
  proof -
    obtain k where "ops_find_by_id table (length table) cls = Some k" "ops = map (resolve table k) [0..<n]"
      using eq by (auto simp: resolved_ops_def)
    then show ?thesis using res ops_find_less unfolding all_resolve_def by (fastforce simp: image_iff)
  qed
  show "resolved_ops table n cls \<noteq> None \<longleftrightarrow> cls \<in> class_id ` set table"
    by (auto simp: resolved_ops_def ops_find_by_id_def find_None_iff in_set_conv_nth intro!: imageI)
qed

definition hal_next_ok :: "hal_next \<Rightarrow> bool" where
  "hal_next_ok nx \<longleftrightarrow> list_all (\<lambda>row. length (class_ops row) = CE_OP_COUNT) (ce_table_next nx) \<and>
     list_all (\<lambda>row. length (class_ops row) = HOST_OP_COUNT) (host_table_next nx) \<and>
     list_all (\<lambda>row. length (class_ops row) = ARCH_OP_COUNT) (arch_table_next nx) \<and>
     list_all (\<lambda>row. length (class_ops row) = FAULT_BUFFER_OP_COUNT) (fault_buffer_table_next nx)"

lemma base_lengths:
  "\<forall>row \<in> set ce_table_base. length (class_ops row) = CE_OP_COUNT"
  "\<forall>row \<in> set host_table_base. length (class_ops row) = HOST_OP_COUNT"
  "\<forall>row \<in> set arch_table_base. length (class_ops row) = ARCH_OP_COUNT"
  "\<forall>row \<in> set fault_buffer_table_base. length (class_ops row) = FAULT_BUFFER_OP_COUNT"
  by (simp_all add: ce_table_base_def CE_OP_COUNT_def host_table_base_def HOST_OP_COUNT_def
      arch_table_base_def ARCH_OP_COUNT_def fault_buffer_table_base_def FAULT_BUFFER_OP_COUNT_def)

lemma init_table_ok:
  assumes "uvm_hal_init_table ok nx h0 = (NV_OK, h)"
  shows "\<exists>ce host arch fb. h = h0\<lparr>ce_table_all := Some ce, host_table_all := Some host, arch_table_all := Some arch,
      fault_buffer_table_all := Some fb\<rparr> \<and>
    ops_init_from_parent (ce_table_base @ ce_table_next nx) CE_OP_COUNT = (NV_OK, ce) \<and>
    ops_init_from_parent (host_table_base @ host_table_next nx) HOST_OP_COUNT = (NV_OK, host) \<and>
    ops_init_from_parent (arch_table_base @ arch_table_next nx) ARCH_OP_COUNT = (NV_OK, arch) \<and>
    ops_init_from_parent (fault_buffer_table_base @ fault_buffer_table_next nx) FAULT_BUFFER_OP_COUNT = (NV_OK, fb)"
  using assms
  by (auto simp: uvm_hal_init_table_def uvm_hal_init_combine_tables_def combine_tables_def Let_def
      split: prod.splits if_splits)

text \<open>
  A GPU gets a complete set of functions or is refused. Once the tables are built, \<^verbatim>\<open>uvm_hal_init_gpu\<close>
  succeeds exactly when each of its classes is in the base or next-generation tables (class 0 meaning
  no fault buffer), and then the copy engine, host, architecture and fault buffer functions are those of
  its classes or their nearest ancestors, none of them NULL.
\<close>

theorem hal_init_gpu_correct:
  assumes init: "uvm_hal_init_table ok nx h0 = (NV_OK, h)" and next_ok: "hal_next_ok nx"
  shows "(fst (uvm_hal_init_gpu h gpu) = NV_OK \<longleftrightarrow>
      gpu_ce_class gpu \<in> class_id ` set (ce_table_base @ ce_table_next nx) \<and>
      gpu_host_class gpu \<in> class_id ` set (host_table_base @ host_table_next nx) \<and>
      gpu_architecture gpu \<in> class_id ` set (arch_table_base @ arch_table_next nx) \<and>
      (gpu_fault_buffer_class gpu \<noteq> 0 \<longrightarrow>
        gpu_fault_buffer_class gpu \<in> class_id ` set (fault_buffer_table_base @ fault_buffer_table_next nx))) \<and>
    (\<forall>gpu'. uvm_hal_init_gpu h gpu = (NV_OK, gpu') \<longrightarrow>
      resolved_ops (ce_table_base @ ce_table_next nx) CE_OP_COUNT (gpu_ce_class gpu) = Some (ce_hal gpu') \<and>
      resolved_ops (host_table_base @ host_table_next nx) HOST_OP_COUNT (gpu_host_class gpu) = Some (host_hal gpu') \<and>
      resolved_ops (arch_table_base @ arch_table_next nx) ARCH_OP_COUNT (gpu_architecture gpu) = Some (arch_hal gpu') \<and>
      fault_buffer_hal gpu' = (if gpu_fault_buffer_class gpu = 0 then None
        else resolved_ops (fault_buffer_table_base @ fault_buffer_table_next nx) FAULT_BUFFER_OP_COUNT
               (gpu_fault_buffer_class gpu)) \<and>
      None \<notin> set (ce_hal gpu') \<union> set (host_hal gpu') \<union> set (arch_hal gpu'))"
proof -
  from init_table_ok[OF init] obtain ce host arch fb where h: "h = h0\<lparr>ce_table_all := Some ce,
      host_table_all := Some host, arch_table_all := Some arch, fault_buffer_table_all := Some fb\<rparr>"
    and ops: "ops_init_from_parent (ce_table_base @ ce_table_next nx) CE_OP_COUNT = (NV_OK, ce)"
      "ops_init_from_parent (host_table_base @ host_table_next nx) HOST_OP_COUNT = (NV_OK, host)"
      "ops_init_from_parent (arch_table_base @ arch_table_next nx) ARCH_OP_COUNT = (NV_OK, arch)"
      "ops_init_from_parent (fault_buffer_table_base @ fault_buffer_table_next nx) FAULT_BUFFER_OP_COUNT = (NV_OK, fb)"
    by blast
  have len: "\<forall>row \<in> set (ce_table_base @ ce_table_next nx). length (class_ops row) = CE_OP_COUNT"
    "\<forall>row \<in> set (host_table_base @ host_table_next nx). length (class_ops row) = HOST_OP_COUNT"
    "\<forall>row \<in> set (arch_table_base @ arch_table_next nx). length (class_ops row) = ARCH_OP_COUNT"
    "\<forall>row \<in> set (fault_buffer_table_base @ fault_buffer_table_next nx). length (class_ops row) = FAULT_BUFFER_OP_COUNT"
    using base_lengths next_ok by (auto simp: hal_next_ok_def list_all_iff)
  note ce = init_table_find[OF len(1) ops(1)] and host = init_table_find[OF len(2) ops(2)]
    and arch = init_table_find[OF len(3) ops(3)] and fb = init_table_find[OF len(4) ops(4)]
  have ne: "NV_ERR_INVALID_CLASS \<noteq> NV_OK" by (simp add: NV_ERR_INVALID_CLASS_def)
  show ?thesis
    unfolding uvm_hal_init_gpu_def h ce(3)[symmetric] host(3)[symmetric] arch(3)[symmetric] fb(3)[symmetric]
    using ce(2) host(2) arch(2) ne
    by (auto simp: ce(1) host(1) arch(1) fb(1) Let_def split: option.splits)
qed

definition hal_next_none :: hal_next where
  "hal_next_none = \<lparr>ce_table_next = [], host_table_next = [], arch_table_next = [], fault_buffer_table_next = []\<rparr>"

definition hal_tables_none :: hal_tables where
  "hal_tables_none = \<lparr>ce_table_all = None, host_table_all = None, arch_table_all = None, fault_buffer_table_all = None\<rparr>"

text \<open>The module loads: with memory for the tables their initialisation succeeds.\<close>

lemma hal_init_table_succeeds:
  "fst (uvm_hal_init_table (\<lambda>_. True) hal_next_none hal_tables_none) = NV_OK"
proof -
  have "fst (ops_init_from_parent ce_table_base CE_OP_COUNT) = NV_OK"
    "fst (ops_init_from_parent host_table_base HOST_OP_COUNT) = NV_OK"
    "fst (ops_init_from_parent arch_table_base ARCH_OP_COUNT) = NV_OK"
    "fst (ops_init_from_parent fault_buffer_table_base FAULT_BUFFER_OP_COUNT) = NV_OK"
    using ops_init_from_parent_eq[OF base_lengths(1)] ops_init_from_parent_eq[OF base_lengths(2)]
      ops_init_from_parent_eq[OF base_lengths(3)] ops_init_from_parent_eq[OF base_lengths(4)]
      ce_table_complete host_table_complete arch_table_complete fault_buffer_table_complete by blast+
  then show ?thesis
    by (auto simp: uvm_hal_init_table_def uvm_hal_init_combine_tables_def combine_tables_def Let_def
        hal_next_none_def hal_tables_none_def split: prod.split)
qed

definition sample_gpu_hal :: gpu_hal where
  "sample_gpu_hal = \<lparr>gpu_ce_class = 0xC0B5, gpu_host_class = 0xC06F, gpu_architecture = 0x130,
     gpu_fault_buffer_class = 0xB069, ce_hal = [], host_hal = [], arch_hal = [], fault_buffer_hal = None\<rparr>"

lemma hal_init_gpu_correct_witness:
  "fst (uvm_hal_init_gpu (snd (uvm_hal_init_table (\<lambda>_. True) hal_next_none hal_tables_none)) sample_gpu_hal) = NV_OK"
proof -
  have "uvm_hal_init_table (\<lambda>_. True) hal_next_none hal_tables_none =
      (NV_OK, snd (uvm_hal_init_table (\<lambda>_. True) hal_next_none hal_tables_none))"
    using hal_init_table_succeeds by (metis prod.collapse)
  moreover have "hal_next_ok hal_next_none" by (simp add: hal_next_ok_def hal_next_none_def)
  ultimately show ?thesis
    using hal_init_gpu_correct[of "\<lambda>_. True" hal_next_none hal_tables_none _ sample_gpu_hal]
    by (simp add: sample_gpu_hal_def hal_next_none_def ce_table_base_def host_table_base_def
        arch_table_base_def fault_buffer_table_base_def)
qed

text \<open>
  A host class inherits a membar its hardware does not have. The row of \<^verbatim>\<open>MAXWELL_CHANNEL_GPFIFO_A\<close>
  takes both membars from Kepler, so each of them writes the method \<^verbatim>\<open>MEM_OP_B\<close> at 0x2c, which is none of
  the memory operation and host methods \<^verbatim>\<open>clb06f.h\<close> lists for the class.
\<close>

theorem maxwell_membar_mem_op_b:
  "resolve host_table_base 2 2 = Some ''uvm_hal_kepler_host_membar_sys'' \<and>
   resolve host_table_base 2 3 = Some ''uvm_hal_kepler_host_membar_sys'' \<and>
   decode (uvm_hal_kepler_host_membar_sys []) = Some [(0, 0x2c, 0x28000000)] \<and>
   0x2c \<notin> set b06f_methods"
proof (intro conjI)
  show "resolve host_table_base 2 2 = Some ''uvm_hal_kepler_host_membar_sys''" by code_simp
  show "resolve host_table_base 2 3 = Some ''uvm_hal_kepler_host_membar_sys''" by code_simp
  show "decode (uvm_hal_kepler_host_membar_sys []) = Some [(0, 0x2c, 0x28000000)]" by (rule kepler_membar_decodes)
  show "0x2c \<notin> set b06f_methods" by (simp add: b06f_methods_def)
qed

section \<open>The properties of the architectures\<close>

text \<open>
  \<^verbatim>\<open>uvm8_kepler.c\<close>, \<^verbatim>\<open>uvm8_maxwell.c\<close>, \<^verbatim>\<open>uvm8_pascal.c\<close>: what \<^verbatim>\<open>init_properties\<close> sets in the GPU. A field it does
  not set keeps its value, zero in a fresh GPU.
\<close>

record gpu_arch_props =
  big_page_swizzling :: bool
  identity_mapping_base :: u64
  va_invalidate_supported :: bool
  tlb_batch_max_pages :: u32
  utlb_count :: u32
  rm_va_base :: u64
  rm_va_size :: u64
  uvm_mem_va_base :: u64
  uvm_mem_va_size :: u64
  peer_identity_mappings_supported :: bool
  max_channel_va :: u64
  can_map_sysmem_with_large_pages :: bool
  prefetch_fault_supported :: bool

definition UVM_MEM_VA_SIZE :: u64 where "UVM_MEM_VA_SIZE = 128 * 1024 * 1024 * 1024"

definition uvm_hal_kepler_arch_init_properties :: "gpu_arch_props \<Rightarrow> gpu_arch_props" where
  "uvm_hal_kepler_arch_init_properties g =
     (let g = g\<lparr>big_page_swizzling := True\<rparr>;
          g = g\<lparr>rm_va_base := 0, rm_va_size := 128 * 1024 * 1024 * 1024\<rparr>;
          g = g\<lparr>identity_mapping_base := rm_va_base g + rm_va_size g\<rparr>
      in g\<lparr>va_invalidate_supported := False,
           uvm_mem_va_base := 768 * 1024 * 1024 * 1024, uvm_mem_va_size := UVM_MEM_VA_SIZE,
           peer_identity_mappings_supported := False, max_channel_va := push_bit 40 1,
           can_map_sysmem_with_large_pages := False\<rparr>)"

definition uvm_hal_maxwell_arch_init_properties :: "gpu_arch_props \<Rightarrow> gpu_arch_props" where
  "uvm_hal_maxwell_arch_init_properties g =
     g\<lparr>big_page_swizzling := False, va_invalidate_supported := False,
       rm_va_base := 0, rm_va_size := 128 * 1024 * 1024 * 1024,
       uvm_mem_va_base := 768 * 1024 * 1024 * 1024, uvm_mem_va_size := UVM_MEM_VA_SIZE,
       peer_identity_mappings_supported := False, max_channel_va := push_bit 40 1,
       can_map_sysmem_with_large_pages := False\<rparr>"

definition uvm_hal_pascal_arch_init_properties :: "u32 \<Rightarrow> gpu_arch_props \<Rightarrow> gpu_arch_props" where
  "uvm_hal_pascal_arch_init_properties uvm_force_prefetch_fault_support g =
     g\<lparr>big_page_swizzling := False, va_invalidate_supported := True, tlb_batch_max_pages := 32,
       utlb_count := 6 * 6, rm_va_base := 0, rm_va_size := 128 * 1024 * 1024 * 1024 * 1024,
       uvm_mem_va_base := 384 * 1024 * 1024 * 1024 * 1024, uvm_mem_va_size := UVM_MEM_VA_SIZE,
       peer_identity_mappings_supported := True, max_channel_va := push_bit 40 1,
       can_map_sysmem_with_large_pages := True,
       prefetch_fault_supported := uvm_force_prefetch_fault_support \<noteq> 0\<rparr>"

text \<open>
  The ranges UVM maps its own memory in and RM maps channels in are disjoint, do not wrap and lie below
  the end of the addresses the page tables of the architecture translate; on Kepler the identity mapping
  of big pages starts after RM's range and leaves 640 GB up to UVM's.
\<close>

definition va_layout_ok :: "nat \<Rightarrow> gpu_arch_props \<Rightarrow> bool" where
  "va_layout_ok va_bits g \<longleftrightarrow>
     unat (rm_va_base g) + unat (rm_va_size g) \<le> unat (uvm_mem_va_base g) \<and>
     unat (uvm_mem_va_base g) + unat (uvm_mem_va_size g) \<le> 2 ^ va_bits \<and>
     (big_page_swizzling g \<longrightarrow> unat (rm_va_base g) + unat (rm_va_size g) = unat (identity_mapping_base g) \<and>
        unat (identity_mapping_base g) + 640 * 1024 ^ 3 \<le> unat (uvm_mem_va_base g))"

lemma arch_va_layout:
  "va_layout_ok 40 (uvm_hal_kepler_arch_init_properties g)"
  "va_layout_ok 40 (uvm_hal_maxwell_arch_init_properties g)"
  "va_layout_ok 49 (uvm_hal_pascal_arch_init_properties force g)"
  by (simp_all add: va_layout_ok_def uvm_hal_kepler_arch_init_properties_def Let_def UVM_MEM_VA_SIZE_def
      uvm_hal_maxwell_arch_init_properties_def uvm_hal_pascal_arch_init_properties_def)

end
