(* ===== verification/Copy_Engine.thy ===== *)
theory Copy_Engine
  imports Hal_Methods
begin

text \<open>
  \<^verbatim>\<open>uvm8_kepler_ce.c\<close> and \<^verbatim>\<open>uvm8_pascal_ce.c\<close>: the methods of the copy engine (CE). A push is its flags
  and its words. The words are read back by a model of the engine, its registers and the fields of
  \<^verbatim>\<open>cla0b5.h\<close>, into transfers; copies and fills of any size are shown to have the effect that the
  page table theories assume of one copy engine call, and to end with the membar the flags ask for.
\<close>

section \<open>The methods\<close>

abbreviation NVA0B5_OFFSET_LOWER :: hw_field where "NVA0B5_OFFSET_LOWER \<equiv> (31, 0)"
abbreviation NVA0B5_OFFSET_UPPER :: hw_field where "NVA0B5_OFFSET_UPPER \<equiv> (7, 0)"
abbreviation NVC0B5_OFFSET_UPPER :: hw_field where "NVC0B5_OFFSET_UPPER \<equiv> (16, 0)"
abbreviation NVA0B5_PHYS_MODE_TARGET :: hw_field where "NVA0B5_PHYS_MODE_TARGET \<equiv> (1, 0)"
abbreviation NVA0B5_LAUNCH_DMA_DATA_TRANSFER_TYPE :: hw_field where "NVA0B5_LAUNCH_DMA_DATA_TRANSFER_TYPE \<equiv> (1, 0)"
abbreviation NVA0B5_LAUNCH_DMA_FLUSH_ENABLE :: hw_field where "NVA0B5_LAUNCH_DMA_FLUSH_ENABLE \<equiv> (2, 2)"
abbreviation NVA0B5_LAUNCH_DMA_SEMAPHORE_TYPE :: hw_field where "NVA0B5_LAUNCH_DMA_SEMAPHORE_TYPE \<equiv> (4, 3)"
abbreviation NVA0B5_LAUNCH_DMA_SRC_MEMORY_LAYOUT :: hw_field where "NVA0B5_LAUNCH_DMA_SRC_MEMORY_LAYOUT \<equiv> (7, 7)"
abbreviation NVA0B5_LAUNCH_DMA_DST_MEMORY_LAYOUT :: hw_field where "NVA0B5_LAUNCH_DMA_DST_MEMORY_LAYOUT \<equiv> (8, 8)"
abbreviation NVA0B5_LAUNCH_DMA_MULTI_LINE_ENABLE :: hw_field where "NVA0B5_LAUNCH_DMA_MULTI_LINE_ENABLE \<equiv> (9, 9)"
abbreviation NVA0B5_LAUNCH_DMA_REMAP_ENABLE :: hw_field where "NVA0B5_LAUNCH_DMA_REMAP_ENABLE \<equiv> (10, 10)"
abbreviation NVA0B5_LAUNCH_DMA_SRC_TYPE :: hw_field where "NVA0B5_LAUNCH_DMA_SRC_TYPE \<equiv> (12, 12)"
abbreviation NVA0B5_LAUNCH_DMA_DST_TYPE :: hw_field where "NVA0B5_LAUNCH_DMA_DST_TYPE \<equiv> (13, 13)"
abbreviation NVA0B5_LAUNCH_DMA_SEMAPHORE_REDUCTION :: hw_field where "NVA0B5_LAUNCH_DMA_SEMAPHORE_REDUCTION \<equiv> (17, 14)"
abbreviation NVA0B5_LAUNCH_DMA_SEMAPHORE_REDUCTION_SIGN :: hw_field where "NVA0B5_LAUNCH_DMA_SEMAPHORE_REDUCTION_SIGN \<equiv> (18, 18)"
abbreviation NVA0B5_LAUNCH_DMA_SEMAPHORE_REDUCTION_ENABLE :: hw_field where "NVA0B5_LAUNCH_DMA_SEMAPHORE_REDUCTION_ENABLE \<equiv> (19, 19)"
abbreviation NVA0B5_REMAP_DST_X :: hw_field where "NVA0B5_REMAP_DST_X \<equiv> (2, 0)"
abbreviation NVA0B5_REMAP_DST_Y :: hw_field where "NVA0B5_REMAP_DST_Y \<equiv> (6, 4)"
abbreviation NVA0B5_REMAP_COMPONENT_SIZE :: hw_field where "NVA0B5_REMAP_COMPONENT_SIZE \<equiv> (17, 16)"
abbreviation NVA0B5_REMAP_NUM_DST_COMPONENTS :: hw_field where "NVA0B5_REMAP_NUM_DST_COMPONENTS \<equiv> (25, 24)"

text \<open>A push: its flags, in the \<^verbatim>\<open>uvm_push_t\<close>, and the words written so far.\<close>

record hal_push =
  hp_push :: uvm_push
  hp_words :: push_words

text \<open>The functions of the GPU that the copy engine methods call through the HAL.\<close>

record ce_hal =
  hal_offset_out :: "u64 \<Rightarrow> push_words \<Rightarrow> push_words"
  hal_offset_in_out :: "u64 \<Rightarrow> u64 \<Rightarrow> push_words \<Rightarrow> push_words"
  hal_wait_for_idle :: "push_words \<Rightarrow> push_words"
  hal_membar_gpu :: "push_words \<Rightarrow> push_words"
  hal_membar_sys :: "push_words \<Rightarrow> push_words"

definition hp_write :: "(push_words \<Rightarrow> push_words) \<Rightarrow> hal_push \<Rightarrow> hal_push" where
  "hp_write f p = p\<lparr>hp_words := f (hp_words p)\<rparr>"

definition hp_method :: "u32 \<Rightarrow> u32 list \<Rightarrow> hal_push \<Rightarrow> hal_push" where
  "hp_method a ds p = hp_write (nv_push UVM_SUBCHANNEL_CE a ds) p"

definition hp_get_and_reset_flag :: "hal_push \<Rightarrow> uvm_push_flag \<Rightarrow> bool \<times> hal_push" where
  "hp_get_and_reset_flag p flag =
     (let (set, push) = uvm_push_get_and_reset_flag (hp_push p) flag in (set, p\<lparr>hp_push := push\<rparr>))"

definition uvm_hal_kepler_ce_init :: "u32 \<Rightarrow> push_words \<Rightarrow> push_words" where
  "uvm_hal_kepler_ce_init ce_class = nv_push UVM_SUBCHANNEL_HOST 0 [ce_class]"

definition uvm_hal_kepler_ce_offset_out :: "u64 \<Rightarrow> push_words \<Rightarrow> push_words" where
  "uvm_hal_kepler_ce_offset_out offset_out =
     nv_push UVM_SUBCHANNEL_CE 0x408
       [DRF_NUM NVA0B5_OFFSET_UPPER (NvOffset_HI32 offset_out), DRF_NUM NVA0B5_OFFSET_LOWER (NvOffset_LO32 offset_out)]"

definition uvm_hal_kepler_ce_offset_in_out :: "u64 \<Rightarrow> u64 \<Rightarrow> push_words \<Rightarrow> push_words" where
  "uvm_hal_kepler_ce_offset_in_out offset_in offset_out =
     nv_push UVM_SUBCHANNEL_CE 0x400
       [DRF_NUM NVA0B5_OFFSET_UPPER (NvOffset_HI32 offset_in), DRF_NUM NVA0B5_OFFSET_LOWER (NvOffset_LO32 offset_in),
        DRF_NUM NVA0B5_OFFSET_UPPER (NvOffset_HI32 offset_out), DRF_NUM NVA0B5_OFFSET_LOWER (NvOffset_LO32 offset_out)]"

definition uvm_hal_pascal_ce_offset_out :: "u64 \<Rightarrow> push_words \<Rightarrow> push_words" where
  "uvm_hal_pascal_ce_offset_out offset_out =
     nv_push UVM_SUBCHANNEL_CE 0x408
       [DRF_NUM NVC0B5_OFFSET_UPPER (NvOffset_HI32 offset_out), DRF_NUM NVA0B5_OFFSET_LOWER (NvOffset_LO32 offset_out)]"

definition uvm_hal_pascal_ce_offset_in_out :: "u64 \<Rightarrow> u64 \<Rightarrow> push_words \<Rightarrow> push_words" where
  "uvm_hal_pascal_ce_offset_in_out offset_in offset_out =
     nv_push UVM_SUBCHANNEL_CE 0x400
       [DRF_NUM NVC0B5_OFFSET_UPPER (NvOffset_HI32 offset_in), DRF_NUM NVA0B5_OFFSET_LOWER (NvOffset_LO32 offset_in),
        DRF_NUM NVC0B5_OFFSET_UPPER (NvOffset_HI32 offset_out), DRF_NUM NVA0B5_OFFSET_LOWER (NvOffset_LO32 offset_out)]"

section \<open>Membars and semaphores\<close>

text \<open>Whether the semaphore operation must flush, and the push with the membar done otherwise.\<close>

definition kepler_membar_before_semaphore :: "ce_hal \<Rightarrow> hal_push \<Rightarrow> bool \<times> hal_push" where
  "kepler_membar_before_semaphore hal p =
     (let (none, p) = hp_get_and_reset_flag p UVM_PUSH_FLAG_CE_NEXT_MEMBAR_NONE
      in if none then (False, p)
         else
           let (gpu, p) = hp_get_and_reset_flag p UVM_PUSH_FLAG_CE_NEXT_MEMBAR_GPU
           in if \<not> gpu then (True, p)
              else (False, hp_write (hal_membar_gpu hal) (hp_write (hal_wait_for_idle hal) p)))"

definition flush_value :: "bool \<Rightarrow> u32" where
  "flush_value use_flush =
     (if use_flush then DRF_DEF NVA0B5_LAUNCH_DMA_FLUSH_ENABLE 1 else DRF_DEF NVA0B5_LAUNCH_DMA_FLUSH_ENABLE 0)"

definition uvm_hal_kepler_ce_semaphore_release :: "ce_hal \<Rightarrow> u64 \<Rightarrow> u32 \<Rightarrow> hal_push \<Rightarrow> hal_push" where
  "uvm_hal_kepler_ce_semaphore_release hal semaphore_va payload p =
     (let (use_flush, p) = kepler_membar_before_semaphore hal p;
          p = hp_method 0x240 [NvOffset_HI32 semaphore_va, NvOffset_LO32 semaphore_va, payload] p
      in hp_method 0x300 [flush_value use_flush OR DRF_DEF NVA0B5_LAUNCH_DMA_DATA_TRANSFER_TYPE 0 OR
           DRF_DEF NVA0B5_LAUNCH_DMA_SEMAPHORE_TYPE 1] p)"

definition uvm_hal_kepler_ce_semaphore_reduction_inc :: "ce_hal \<Rightarrow> u64 \<Rightarrow> u32 \<Rightarrow> hal_push \<Rightarrow> hal_push" where
  "uvm_hal_kepler_ce_semaphore_reduction_inc hal semaphore_va payload p =
     (let (use_flush, p) = kepler_membar_before_semaphore hal p;
          p = hp_method 0x240 [NvOffset_HI32 semaphore_va, NvOffset_LO32 semaphore_va, payload] p
      in hp_method 0x300 [flush_value use_flush OR DRF_DEF NVA0B5_LAUNCH_DMA_DATA_TRANSFER_TYPE 0 OR
           DRF_DEF NVA0B5_LAUNCH_DMA_SEMAPHORE_TYPE 1 OR DRF_DEF NVA0B5_LAUNCH_DMA_SEMAPHORE_REDUCTION 6 OR
           DRF_DEF NVA0B5_LAUNCH_DMA_SEMAPHORE_REDUCTION_SIGN 1 OR
           DRF_DEF NVA0B5_LAUNCH_DMA_SEMAPHORE_REDUCTION_ENABLE 1] p)"

definition uvm_hal_kepler_ce_semaphore_timestamp :: "ce_hal \<Rightarrow> u64 \<Rightarrow> hal_push \<Rightarrow> hal_push" where
  "uvm_hal_kepler_ce_semaphore_timestamp hal gpu_va p =
     (let (use_flush, p) = kepler_membar_before_semaphore hal p;
          p = hp_method 0x240 [NvOffset_HI32 gpu_va, NvOffset_LO32 gpu_va, 0xdeadbeef] p
      in hp_method 0x300 [flush_value use_flush OR DRF_DEF NVA0B5_LAUNCH_DMA_DATA_TRANSFER_TYPE 0 OR
           DRF_DEF NVA0B5_LAUNCH_DMA_SEMAPHORE_TYPE 2] p)"

definition kepler_membar_after_transfer :: "ce_hal \<Rightarrow> hal_push \<Rightarrow> hal_push" where
  "kepler_membar_after_transfer hal p =
     (let (none, p) = hp_get_and_reset_flag p UVM_PUSH_FLAG_CE_NEXT_MEMBAR_NONE
      in if none then p
         else
           let p = hp_write (hal_wait_for_idle hal) p;
               (gpu, p) = hp_get_and_reset_flag p UVM_PUSH_FLAG_CE_NEXT_MEMBAR_GPU
           in if gpu then hp_write (hal_membar_gpu hal) p else hp_write (hal_membar_sys hal) p)"

section \<open>Copies and fills\<close>

definition ce_aperture :: "uvm_aperture \<Rightarrow> u32" where
  "ce_aperture aperture =
     (if aperture = UVM_APERTURE_SYS then DRF_DEF NVA0B5_PHYS_MODE_TARGET 1 else DRF_DEF NVA0B5_PHYS_MODE_TARGET 0)"

definition memcopy_push_phys_mode :: "uvm_gpu_address \<Rightarrow> uvm_gpu_address \<Rightarrow> hal_push \<Rightarrow> u32 \<times> hal_push" where
  "memcopy_push_phys_mode dst src p =
     ((if is_virtual src then DRF_DEF NVA0B5_LAUNCH_DMA_SRC_TYPE 0 else DRF_DEF NVA0B5_LAUNCH_DMA_SRC_TYPE 1) OR
      (if is_virtual dst then DRF_DEF NVA0B5_LAUNCH_DMA_DST_TYPE 0 else DRF_DEF NVA0B5_LAUNCH_DMA_DST_TYPE 1),
      if \<not> is_virtual src \<and> \<not> is_virtual dst
      then hp_method 0x260 [ce_aperture (gpu_aperture src), ce_aperture (gpu_aperture dst)] p
      else if \<not> is_virtual src then hp_method 0x260 [ce_aperture (gpu_aperture src)] p
      else if \<not> is_virtual dst then hp_method 0x264 [ce_aperture (gpu_aperture dst)] p
      else p)"

definition advance_address :: "u64 \<Rightarrow> uvm_gpu_address \<Rightarrow> uvm_gpu_address" where
  "advance_address n a = a\<lparr>gpu_address := gpu_address a + n\<rparr>"

definition pipelined_value :: "bool \<Rightarrow> u32" where
  "pipelined_value pipelined =
     (if pipelined then DRF_DEF NVA0B5_LAUNCH_DMA_DATA_TRANSFER_TYPE 1 else DRF_DEF NVA0B5_LAUNCH_DMA_DATA_TRANSFER_TYPE 2)"

definition first_pipelined :: "bool \<Rightarrow> hal_push \<Rightarrow> bool \<times> hal_push" where
  "first_pipelined first_operation p =
     (if first_operation then hp_get_and_reset_flag p UVM_PUSH_FLAG_CE_NEXT_PIPELINED else (False, p))"

lemma this_time:
  "(ucast (ucast (min sz 0xFFFFFFFF) :: u32) :: u64) = min sz 0xFFFFFFFF"
  "unat (ucast (min sz 0xFFFFFFFF) :: u32) = unat (min sz (0xFFFFFFFF :: u64))"
proof -
  have "unat (min sz (0xFFFFFFFF :: u64)) \<le> 0xFFFFFFFF" by (simp add: min_def word_le_nat_alt)
  then show "unat (ucast (min sz 0xFFFFFFFF) :: u32) = unat (min sz (0xFFFFFFFF :: u64))"
    by (simp add: unsigned_ucast_eq take_bit_nat_eq_self)
  then show "(ucast (ucast (min sz 0xFFFFFFFF) :: u32) :: u64) = min sz 0xFFFFFFFF"
    by (simp add: word_unat_eq_iff unat_ucast_up)
qed

lemma rest_less: "0 < sz - min sz 0xFFFFFFFF \<Longrightarrow> unat (sz - min sz (0xFFFFFFFF :: u64)) < unat sz"
  by (auto simp: min_def unat_sub word_le_nat_alt split: if_splits)

function memcopy_loop ::
  "ce_hal \<Rightarrow> u32 \<Rightarrow> bool \<Rightarrow> uvm_gpu_address \<Rightarrow> uvm_gpu_address \<Rightarrow> u64 \<Rightarrow> hal_push \<Rightarrow> hal_push" where
  "memcopy_loop hal launch_dma_src_dst_type first_operation dst src sz p =
     (let copy_this_time = ucast (min sz 0xFFFFFFFF) :: u32;
          (pipelined, p) = first_pipelined first_operation p;
          p = hp_write (hal_offset_in_out hal (gpu_address src) (gpu_address dst)) p;
          p = hp_method 0x418 [copy_this_time] p;
          p = hp_method 0x300 [DRF_DEF NVA0B5_LAUNCH_DMA_SRC_MEMORY_LAYOUT 1 OR DRF_DEF NVA0B5_LAUNCH_DMA_DST_MEMORY_LAYOUT 1 OR
                DRF_DEF NVA0B5_LAUNCH_DMA_MULTI_LINE_ENABLE 0 OR DRF_DEF NVA0B5_LAUNCH_DMA_REMAP_ENABLE 0 OR
                DRF_DEF NVA0B5_LAUNCH_DMA_FLUSH_ENABLE 0 OR launch_dma_src_dst_type OR pipelined_value pipelined] p;
          dst = advance_address (ucast copy_this_time) dst;
          src = advance_address (ucast copy_this_time) src;
          sz' = sz - ucast copy_this_time
      in if 0 < sz' then memcopy_loop hal launch_dma_src_dst_type False dst src sz' p else p)"
  by pat_completeness auto
termination
  by (relation "measure (\<lambda>(hal, ty, first, dst, src, sz, p). unat sz)") (auto simp: this_time rest_less)

declare memcopy_loop.simps [simp del]

definition uvm_hal_kepler_ce_memcopy :: "ce_hal \<Rightarrow> uvm_gpu_address \<Rightarrow> uvm_gpu_address \<Rightarrow> u64 \<Rightarrow> hal_push \<Rightarrow> hal_push" where
  "uvm_hal_kepler_ce_memcopy hal dst src sz p =
     (let (launch_dma_src_dst_type, p) = memcopy_push_phys_mode dst src p
      in kepler_membar_after_transfer hal (memcopy_loop hal launch_dma_src_dst_type True dst src sz p))"

definition uvm_hal_kepler_ce_memcopy_v_to_v :: "ce_hal \<Rightarrow> u64 \<Rightarrow> u64 \<Rightarrow> u64 \<Rightarrow> hal_push \<Rightarrow> hal_push" where
  "uvm_hal_kepler_ce_memcopy_v_to_v hal dst_va src_va sz p =
     uvm_hal_kepler_ce_memcopy hal (uvm_gpu_address_virtual dst_va) (uvm_gpu_address_virtual src_va) sz p"

definition memset_push_phys_mode :: "uvm_gpu_address \<Rightarrow> hal_push \<Rightarrow> u32 \<times> hal_push" where
  "memset_push_phys_mode dst p =
     (if is_virtual dst then (DRF_DEF NVA0B5_LAUNCH_DMA_DST_TYPE 0, p)
      else (DRF_DEF NVA0B5_LAUNCH_DMA_DST_TYPE 1, hp_method 0x264 [ce_aperture (gpu_aperture dst)] p))"

function memset_common_loop ::
  "ce_hal \<Rightarrow> u32 \<Rightarrow> bool \<Rightarrow> uvm_gpu_address \<Rightarrow> u64 \<Rightarrow> u64 \<Rightarrow> hal_push \<Rightarrow> hal_push" where
  "memset_common_loop hal launch_dma_dst_type first_operation dst sz memset_element_size p =
     (let memset_this_time = ucast (min sz 0xFFFFFFFF) :: u32;
          (pipelined, p) = first_pipelined first_operation p;
          p = hp_write (hal_offset_out hal (gpu_address dst)) p;
          p = hp_method 0x418 [memset_this_time] p;
          p = hp_method 0x300 [DRF_DEF NVA0B5_LAUNCH_DMA_SRC_MEMORY_LAYOUT 1 OR DRF_DEF NVA0B5_LAUNCH_DMA_DST_MEMORY_LAYOUT 1 OR
                DRF_DEF NVA0B5_LAUNCH_DMA_MULTI_LINE_ENABLE 0 OR DRF_DEF NVA0B5_LAUNCH_DMA_REMAP_ENABLE 1 OR
                DRF_DEF NVA0B5_LAUNCH_DMA_FLUSH_ENABLE 0 OR launch_dma_dst_type OR pipelined_value pipelined] p;
          dst = advance_address (ucast memset_this_time * memset_element_size) dst;
          sz' = sz - ucast memset_this_time
      in if 0 < sz' then memset_common_loop hal launch_dma_dst_type False dst sz' memset_element_size p else p)"
  by pat_completeness auto
termination
  by (relation "measure (\<lambda>(hal, ty, first, dst, sz, e, p). unat sz)") (auto simp: this_time rest_less)

declare memset_common_loop.simps [simp del]

definition memset_common :: "ce_hal \<Rightarrow> uvm_gpu_address \<Rightarrow> u64 \<Rightarrow> u64 \<Rightarrow> hal_push \<Rightarrow> hal_push" where
  "memset_common hal dst sz memset_element_size p =
     (let (launch_dma_dst_type, p) = memset_push_phys_mode dst p
      in kepler_membar_after_transfer hal (memset_common_loop hal launch_dma_dst_type True dst sz memset_element_size p))"

definition uvm_hal_kepler_ce_memset_1 :: "ce_hal \<Rightarrow> uvm_gpu_address \<Rightarrow> u8 \<Rightarrow> u64 \<Rightarrow> hal_push \<Rightarrow> hal_push" where
  "uvm_hal_kepler_ce_memset_1 hal dst val sz p =
     (let p = hp_method 0x700 [ucast val] p;
          p = hp_method 0x708 [DRF_DEF NVA0B5_REMAP_DST_X 4 OR DRF_DEF NVA0B5_REMAP_COMPONENT_SIZE 0 OR
                DRF_DEF NVA0B5_REMAP_NUM_DST_COMPONENTS 0] p
      in memset_common hal dst sz 1 p)"

definition uvm_hal_kepler_ce_memset_4 :: "ce_hal \<Rightarrow> uvm_gpu_address \<Rightarrow> u32 \<Rightarrow> u64 \<Rightarrow> hal_push \<Rightarrow> hal_push" where
  "uvm_hal_kepler_ce_memset_4 hal dst val sz p =
     (let sz = sz div 4;
          p = hp_method 0x700 [val] p;
          p = hp_method 0x708 [DRF_DEF NVA0B5_REMAP_DST_X 4 OR DRF_DEF NVA0B5_REMAP_COMPONENT_SIZE 3 OR
                DRF_DEF NVA0B5_REMAP_NUM_DST_COMPONENTS 0] p
      in memset_common hal dst sz 4 p)"

definition uvm_hal_kepler_ce_memset_8 :: "ce_hal \<Rightarrow> uvm_gpu_address \<Rightarrow> u64 \<Rightarrow> u64 \<Rightarrow> hal_push \<Rightarrow> hal_push" where
  "uvm_hal_kepler_ce_memset_8 hal dst val sz p =
     (let sz = sz div 8;
          p = hp_method 0x700 [ucast val, ucast (drop_bit 32 val),
                DRF_DEF NVA0B5_REMAP_DST_X 4 OR DRF_DEF NVA0B5_REMAP_DST_Y 5 OR
                DRF_DEF NVA0B5_REMAP_COMPONENT_SIZE 3 OR DRF_DEF NVA0B5_REMAP_NUM_DST_COMPONENTS 1] p
      in memset_common hal dst sz 8 p)"

definition uvm_hal_kepler_ce_memset_v_4 :: "ce_hal \<Rightarrow> u64 \<Rightarrow> u32 \<Rightarrow> u64 \<Rightarrow> hal_push \<Rightarrow> hal_push" where
  "uvm_hal_kepler_ce_memset_v_4 hal dst_va val sz p =
     uvm_hal_kepler_ce_memset_4 hal (uvm_gpu_address_virtual dst_va) val sz p"

section \<open>Reading the methods back\<close>

text \<open>
  The copy engine: a method other than \<^verbatim>\<open>LAUNCH_DMA\<close> sets a register; \<^verbatim>\<open>LAUNCH_DMA\<close> starts what its
  fields say on the registers as they are. Methods of the host stay as they are. The width of the
  upper half of an address is that of the class.
\<close>

type_synonym ce_regs = "u32 \<Rightarrow> u32"

record ce_transfer =
  tr_src :: "uvm_gpu_address option"
  tr_fill :: "u8 list"
  tr_dst :: uvm_gpu_address
  tr_length :: nat
  tr_pipelined :: bool

datatype ce_action =
  Ce_transfer ce_transfer
| Ce_semaphore (sem_va: u64) (sem_payload: u32) (sem_type: u32) (sem_reduction: "u32 option") (sem_flush: bool)
| Ce_host u32 u32

definition ce_offset :: "hw_field \<Rightarrow> u32 \<Rightarrow> u32 \<Rightarrow> u64" where
  "ce_offset upper h l = push_bit 32 (ucast (DRF_VAL upper h)) OR ucast l"

definition ce_address :: "bool \<Rightarrow> u32 \<Rightarrow> u64 \<Rightarrow> uvm_gpu_address" where
  "ce_address physical mode a =
     (if physical
      then uvm_gpu_address_physical (if DRF_VAL NVA0B5_PHYS_MODE_TARGET mode = 1 then UVM_APERTURE_SYS else UVM_APERTURE_VID) a
      else uvm_gpu_address_virtual a)"

definition bytes_of_32 :: "u32 \<Rightarrow> u8 list" where
  "bytes_of_32 v = map (\<lambda>i. ucast (drop_bit (8 * i) v)) [0..<4]"

definition remap_const :: "ce_regs \<Rightarrow> u32 \<Rightarrow> u8 list" where
  "remap_const r sel = bytes_of_32 (if sel = 4 then r 0x700 else if sel = 5 then r 0x704 else 0)"

definition remap_pattern :: "ce_regs \<Rightarrow> u8 list" where
  "remap_pattern r =
     (let c = r 0x708;
          component_size = unat (DRF_VAL NVA0B5_REMAP_COMPONENT_SIZE c) + 1;
          components = unat (DRF_VAL NVA0B5_REMAP_NUM_DST_COMPONENTS c) + 1
      in concat (map (\<lambda>sel. take component_size (remap_const r sel))
           (take components [DRF_VAL NVA0B5_REMAP_DST_X c, DRF_VAL NVA0B5_REMAP_DST_Y c])))"

definition read_launch :: "hw_field \<Rightarrow> ce_regs \<Rightarrow> u32 \<Rightarrow> ce_action" where
  "read_launch upper r v =
     (if DRF_VAL NVA0B5_LAUNCH_DMA_DATA_TRANSFER_TYPE v = 0
      then Ce_semaphore (ce_offset upper (r 0x240) (r 0x244)) (r 0x248) (DRF_VAL NVA0B5_LAUNCH_DMA_SEMAPHORE_TYPE v)
             (if DRF_VAL NVA0B5_LAUNCH_DMA_SEMAPHORE_REDUCTION_ENABLE v = 1
              then Some (DRF_VAL NVA0B5_LAUNCH_DMA_SEMAPHORE_REDUCTION v) else None)
             (DRF_VAL NVA0B5_LAUNCH_DMA_FLUSH_ENABLE v = 1)
      else
        let remap = (DRF_VAL NVA0B5_LAUNCH_DMA_REMAP_ENABLE v = 1)
        in Ce_transfer
             \<lparr>tr_src = (if remap then None
                else Some (ce_address (DRF_VAL NVA0B5_LAUNCH_DMA_SRC_TYPE v = 1) (r 0x260) (ce_offset upper (r 0x400) (r 0x404)))),
              tr_fill = (if remap then remap_pattern r else []),
              tr_dst = ce_address (DRF_VAL NVA0B5_LAUNCH_DMA_DST_TYPE v = 1) (r 0x264) (ce_offset upper (r 0x408) (r 0x40c)),
              tr_length = unat (r 0x418),
              tr_pipelined = (DRF_VAL NVA0B5_LAUNCH_DMA_DATA_TRANSFER_TYPE v = 1)\<rparr>)"

fun ce_exec :: "hw_field \<Rightarrow> method_write list \<Rightarrow> ce_regs \<Rightarrow> ce_action list \<times> ce_regs" where
  "ce_exec upper [] r = ([], r)"
| "ce_exec upper ((s, a, v) # ms) r =
     (if s \<noteq> UVM_SUBCHANNEL_CE then let (as, r) = ce_exec upper ms r in (Ce_host a v # as, r)
      else if a = 0x300 then let (as, r') = ce_exec upper ms r in (read_launch upper r v # as, r')
      else ce_exec upper ms (r(a := v)))"

text \<open>The effect of a transfer on memory: a copy reads all bytes, then writes them.\<close>

definition read_bytes :: "uvm_gpu_address \<Rightarrow> nat \<Rightarrow> gpu_mem \<Rightarrow> u8 list" where
  "read_bytes s n m = map (\<lambda>i. m (shift i s)) [0..<n]"

definition run_transfer :: "ce_transfer \<Rightarrow> gpu_mem \<Rightarrow> gpu_mem" where
  "run_transfer t m =
     (case tr_src t of
        None \<Rightarrow> write_bytes (tr_dst t) (concat (replicate (tr_length t) (tr_fill t))) m
      | Some s \<Rightarrow> write_bytes (tr_dst t) (read_bytes s (tr_length t) m) m)"

lemma ce_exec_append:
  "ce_exec upper (ms @ ms') r =
    (let (as, r') = ce_exec upper ms r; (bs, r'') = ce_exec upper ms' r' in (as @ bs, r''))"
proof (induction ms arbitrary: r)
  case (Cons m ms)
  obtain s a v where m: "m = (s, a, v)" by (cases m)
  show ?case unfolding m using Cons[of r] Cons[of "r(a := v)"]
    by (simp add: Let_def split: prod.split del: fun_upd_apply)
qed (simp split: prod.split)

text \<open>From \<open>p\<close> to \<open>p'\<close> a push grows by methods that perform \<open>as\<close> and lead from registers \<open>r\<close> to \<open>r'\<close>.\<close>

definition emits :: "hw_field \<Rightarrow> hal_push \<Rightarrow> ce_regs \<Rightarrow> hal_push \<Rightarrow> ce_action list \<Rightarrow> ce_regs \<Rightarrow> bool" where
  "emits upper p r p' as r' \<longleftrightarrow>
     (\<exists>ms. (\<forall>pm. decode (hp_words p) = Some pm \<longrightarrow> decode (hp_words p') = Some (pm @ ms)) \<and>
       ce_exec upper ms r = (as, r'))"

lemma emits_refl: "hp_words p' = hp_words p \<Longrightarrow> emits upper p r p' [] r"
  unfolding emits_def by (rule exI[of _ "[]"]) simp

lemma emits_trans: "emits upper p r p1 as r1 \<Longrightarrow> emits upper p1 r1 p2 bs r2 \<Longrightarrow> emits upper p r p2 (as @ bs) r2"
  unfolding emits_def
proof (elim exE conjE)
  fix ms ms' assume 1: "\<forall>pm. decode (hp_words p) = Some pm \<longrightarrow> decode (hp_words p1) = Some (pm @ ms)" "ce_exec upper ms r = (as, r1)"
    and 2: "\<forall>pm. decode (hp_words p1) = Some pm \<longrightarrow> decode (hp_words p2) = Some (pm @ ms')" "ce_exec upper ms' r1 = (bs, r2)"
  show "\<exists>ms. (\<forall>pm. decode (hp_words p) = Some pm \<longrightarrow> decode (hp_words p2) = Some (pm @ ms)) \<and> ce_exec upper ms r = (as @ bs, r2)"
    using 1 2 by (intro exI[of _ "ms @ ms'"]) (simp add: ce_exec_append)
qed

lemma emits_writes: "writes f ms \<Longrightarrow> ce_exec upper ms r = (as, r') \<Longrightarrow> emits upper p r (hp_write f p) as r'"
  unfolding emits_def writes_def hp_write_def by auto

lemma emits_method_1: "unat a < 2 ^ 14 \<Longrightarrow> 4 dvd unat a \<Longrightarrow> a \<noteq> 0x300 \<Longrightarrow> emits upper p r (hp_method a [d] p) [] (r(a := d))"
  unfolding hp_method_def
  by (rule emits_writes[OF writes_nv_push]) (simp_all add: UVM_SUBCHANNEL_CE_def)

lemma emits_launch: "emits upper p r (hp_method 0x300 [v] p) [read_launch upper r v] r"
  unfolding hp_method_def
  by (rule emits_writes[OF writes_nv_push]) (simp_all add: UVM_SUBCHANNEL_CE_def)

lemma emits_modes: "emits upper p r (hp_method 0x260 [d, e] p) [] (r(0x260 := d, 0x264 := e))"
  unfolding hp_method_def
  by (rule emits_writes[OF writes_nv_push]) (simp_all add: UVM_SUBCHANNEL_CE_def upt_rec)

lemma emits_remap_8: "emits upper p r (hp_method 0x700 [d, e, f] p) [] (r(0x700 := d, 0x704 := e, 0x708 := f))"
  unfolding hp_method_def
  by (rule emits_writes[OF writes_nv_push]) (simp_all add: UVM_SUBCHANNEL_CE_def upt_rec)

lemma emits_semaphore: "emits upper p r (hp_method 0x240 [d, e, f] p) [] (r(0x240 := d, 0x244 := e, 0x248 := f))"
  unfolding hp_method_def
  by (rule emits_writes[OF writes_nv_push]) (simp_all add: UVM_SUBCHANNEL_CE_def upt_rec)

section \<open>The classes\<close>

text \<open>A copy engine class as the GPU's tables combine it with its host class.\<close>

record ce_class =
  cc_hal :: ce_hal
  cc_upper :: hw_field
  cc_bits :: nat
  cc_wfi :: "method_write list"
  cc_membar_gpu :: "method_write list"
  cc_membar_sys :: "method_write list"

definition kepler_ce :: ce_class where
  "kepler_ce =
     \<lparr>cc_hal = \<lparr>hal_offset_out = uvm_hal_kepler_ce_offset_out, hal_offset_in_out = uvm_hal_kepler_ce_offset_in_out,
        hal_wait_for_idle = uvm_hal_kepler_host_wait_for_idle_a06f, hal_membar_gpu = uvm_hal_kepler_host_membar_sys,
        hal_membar_sys = uvm_hal_kepler_host_membar_sys\<rparr>,
      cc_upper = NVA0B5_OFFSET_UPPER, cc_bits = 40, cc_wfi = [(0, 0x50, 0)],
      cc_membar_gpu = [(0, 0x2c, 0x28000000)], cc_membar_sys = [(0, 0x2c, 0x28000000)]\<rparr>"

definition pascal_ce :: ce_class where
  "pascal_ce =
     \<lparr>cc_hal = \<lparr>hal_offset_out = uvm_hal_pascal_ce_offset_out, hal_offset_in_out = uvm_hal_pascal_ce_offset_in_out,
        hal_wait_for_idle = uvm_hal_kepler_host_wait_for_idle_a06f, hal_membar_gpu = uvm_hal_pascal_host_membar_gpu,
        hal_membar_sys = uvm_hal_pascal_host_membar_sys\<rparr>,
      cc_upper = NVC0B5_OFFSET_UPPER, cc_bits = 49, cc_wfi = [(0, 0x50, 0)],
      cc_membar_gpu = [(0, 0x28, 0), (0, 0x2c, 0), (0, 0x30, DRF_DEF NVC06F_MEM_OP_C_MEMBAR_TYPE 1), (0, 0x34, DRF_DEF NVC06F_MEM_OP_D_OPERATION 5)],
      cc_membar_sys = [(0, 0x28, 0), (0, 0x2c, 0), (0, 0x30, DRF_DEF NVC06F_MEM_OP_C_MEMBAR_TYPE 0), (0, 0x34, DRF_DEF NVC06F_MEM_OP_D_OPERATION 5)]\<rparr>"

definition ce_classes :: "ce_class list" where
  "ce_classes = [kepler_ce, pascal_ce]"

lemma ce_offset_halves:
  assumes "unat a < 2 ^ (32 + Suc e)" "e < 32"
  shows "ce_offset (e, 0) (DRF_NUM (e, 0) (NvOffset_HI32 a)) (DRF_NUM (31, 0) (NvOffset_LO32 a)) = a"
proof (rule bit_word_eqI)
  fix n assume n: "n < LENGTH(64)"
  have small: "i < 32 + Suc e" if "bit a i" for i using bit_lt_if_small[OF assms(1) that] .
  show "bit (ce_offset (e, 0) (DRF_NUM (e, 0) (NvOffset_HI32 a)) (DRF_NUM (31, 0) (NvOffset_LO32 a))) n = bit a n"
    using n assms(2) small[of n]
    by (auto simp: ce_offset_def NvOffset_HI32_def NvOffset_LO32_def bit_DRF_NUM bit_DRF_VAL bit_simps)
qed

text \<open>What the copy engine methods rely on: addresses arrive, and the host methods are the host's.\<close>

locale ce_class_laws =
  fixes c :: ce_class
  assumes out: "unat a < 2 ^ cc_bits c \<Longrightarrow>
      \<exists>h l. writes (hal_offset_out (cc_hal c) a) [(UVM_SUBCHANNEL_CE, 0x408, h), (UVM_SUBCHANNEL_CE, 0x40c, l)] \<and>
        ce_offset (cc_upper c) h l = a"
    and in_out: "unat a < 2 ^ cc_bits c \<Longrightarrow> unat b < 2 ^ cc_bits c \<Longrightarrow>
      \<exists>h l h' l'. writes (hal_offset_in_out (cc_hal c) a b) [(UVM_SUBCHANNEL_CE, 0x400, h), (UVM_SUBCHANNEL_CE, 0x404, l),
          (UVM_SUBCHANNEL_CE, 0x408, h'), (UVM_SUBCHANNEL_CE, 0x40c, l')] \<and>
        ce_offset (cc_upper c) h l = a \<and> ce_offset (cc_upper c) h' l' = b"
    and wfi: "writes (hal_wait_for_idle (cc_hal c)) (cc_wfi c)"
    and membar_gpu: "writes (hal_membar_gpu (cc_hal c)) (cc_membar_gpu c)"
    and membar_sys: "writes (hal_membar_sys (cc_hal c)) (cc_membar_sys c)"
    and host: "\<forall>m \<in> set (cc_wfi c @ cc_membar_gpu c @ cc_membar_sys c). fst m \<noteq> UVM_SUBCHANNEL_CE"
    and bits: "cc_bits c < 64"

lemma writes_1: "unat a < 2 ^ 14 \<Longrightarrow> 4 dvd unat a \<Longrightarrow> unat s < 8 \<Longrightarrow> writes (nv_push s a [v]) [(s, a, v)]"
  using writes_nv_push[of a s "[v]"] by simp

lemma writes_2: "writes (nv_push UVM_SUBCHANNEL_CE 0x408 [v, w]) [(UVM_SUBCHANNEL_CE, 0x408, v), (UVM_SUBCHANNEL_CE, 0x40c, w)]"
  using writes_nv_push[of "0x408" UVM_SUBCHANNEL_CE "[v, w]"] by (simp add: UVM_SUBCHANNEL_CE_def upt_rec)

lemma writes_4: "writes (nv_push UVM_SUBCHANNEL_CE 0x400 [u, v, w, x])
    [(UVM_SUBCHANNEL_CE, 0x400, u), (UVM_SUBCHANNEL_CE, 0x404, v), (UVM_SUBCHANNEL_CE, 0x408, w), (UVM_SUBCHANNEL_CE, 0x40c, x)]"
  using writes_nv_push[of "0x400" UVM_SUBCHANNEL_CE "[u, v, w, x]"] by (simp add: UVM_SUBCHANNEL_CE_def upt_rec)

lemma kepler_wfi: "writes uvm_hal_kepler_host_wait_for_idle_a06f [(0, 0x50, 0)]"
  unfolding uvm_hal_kepler_host_wait_for_idle_a06f_def UVM_SUBCHANNEL_HOST_def by (rule writes_1) simp_all

interpretation kepler_ce: ce_class_laws kepler_ce
proof
  show "\<exists>h l. writes (hal_offset_out (cc_hal kepler_ce) a) [(UVM_SUBCHANNEL_CE, 0x408, h), (UVM_SUBCHANNEL_CE, 0x40c, l)] \<and>
      ce_offset (cc_upper kepler_ce) h l = a" if "unat a < 2 ^ cc_bits kepler_ce" for a
    using that ce_offset_halves[of a 7] writes_2
    by (auto simp: kepler_ce_def uvm_hal_kepler_ce_offset_out_def)
  show "\<exists>h l h' l'. writes (hal_offset_in_out (cc_hal kepler_ce) a b) [(UVM_SUBCHANNEL_CE, 0x400, h), (UVM_SUBCHANNEL_CE, 0x404, l),
      (UVM_SUBCHANNEL_CE, 0x408, h'), (UVM_SUBCHANNEL_CE, 0x40c, l')] \<and>
      ce_offset (cc_upper kepler_ce) h l = a \<and> ce_offset (cc_upper kepler_ce) h' l' = b"
    if "unat a < 2 ^ cc_bits kepler_ce" "unat b < 2 ^ cc_bits kepler_ce" for a b
    using that ce_offset_halves[of a 7] ce_offset_halves[of b 7] writes_4
    by (fastforce simp: kepler_ce_def uvm_hal_kepler_ce_offset_in_out_def)
  have m: "writes uvm_hal_kepler_host_membar_sys [(0, 0x2c, 0x28000000)]"
    unfolding uvm_hal_kepler_host_membar_sys_def UVM_SUBCHANNEL_HOST_def DRF_DEF_def DRF_SHIFT_def
    using writes_1[of "0x2c" 0 "0x28000000"] by simp
  show "writes (hal_membar_gpu (cc_hal kepler_ce)) (cc_membar_gpu kepler_ce)"
    "writes (hal_membar_sys (cc_hal kepler_ce)) (cc_membar_sys kepler_ce)"
    using m by (simp_all add: kepler_ce_def)
qed (simp_all add: kepler_ce_def kepler_wfi UVM_SUBCHANNEL_CE_def)

interpretation pascal_ce: ce_class_laws pascal_ce
proof
  show "\<exists>h l. writes (hal_offset_out (cc_hal pascal_ce) a) [(UVM_SUBCHANNEL_CE, 0x408, h), (UVM_SUBCHANNEL_CE, 0x40c, l)] \<and>
      ce_offset (cc_upper pascal_ce) h l = a" if "unat a < 2 ^ cc_bits pascal_ce" for a
    using that ce_offset_halves[of a 16] writes_2
    by (auto simp: pascal_ce_def uvm_hal_pascal_ce_offset_out_def)
  show "\<exists>h l h' l'. writes (hal_offset_in_out (cc_hal pascal_ce) a b) [(UVM_SUBCHANNEL_CE, 0x400, h), (UVM_SUBCHANNEL_CE, 0x404, l),
      (UVM_SUBCHANNEL_CE, 0x408, h'), (UVM_SUBCHANNEL_CE, 0x40c, l')] \<and>
      ce_offset (cc_upper pascal_ce) h l = a \<and> ce_offset (cc_upper pascal_ce) h' l' = b"
    if "unat a < 2 ^ cc_bits pascal_ce" "unat b < 2 ^ cc_bits pascal_ce" for a b
    using that ce_offset_halves[of a 16] ce_offset_halves[of b 16] writes_4
    by (fastforce simp: pascal_ce_def uvm_hal_pascal_ce_offset_in_out_def)
  show "writes (hal_membar_gpu (cc_hal pascal_ce)) (cc_membar_gpu pascal_ce)"
    "writes (hal_membar_sys (cc_hal pascal_ce)) (cc_membar_sys pascal_ce)"
    using writes_mem_op
    by (simp_all add: pascal_ce_def uvm_hal_pascal_host_membar_gpu_def uvm_hal_pascal_host_membar_sys_def)
qed (simp_all add: pascal_ce_def kepler_wfi UVM_SUBCHANNEL_CE_def)

lemma ce_classes_laws: "c \<in> set ce_classes \<Longrightarrow> ce_class_laws c"
  using kepler_ce.ce_class_laws_axioms pascal_ce.ce_class_laws_axioms by (auto simp: ce_classes_def)

lemma launch_fields:
  fixes sv dv pl rm :: bool
  defines "v \<equiv> DRF_DEF NVA0B5_LAUNCH_DMA_SRC_MEMORY_LAYOUT 1 OR DRF_DEF NVA0B5_LAUNCH_DMA_DST_MEMORY_LAYOUT 1 OR
      DRF_DEF NVA0B5_LAUNCH_DMA_MULTI_LINE_ENABLE 0 OR DRF_DEF NVA0B5_LAUNCH_DMA_REMAP_ENABLE (if rm then 1 else 0) OR
      DRF_DEF NVA0B5_LAUNCH_DMA_FLUSH_ENABLE 0 OR
      (DRF_DEF NVA0B5_LAUNCH_DMA_SRC_TYPE (if sv then 0 else 1) OR DRF_DEF NVA0B5_LAUNCH_DMA_DST_TYPE (if dv then 0 else 1)) OR
      pipelined_value pl"
  shows "DRF_VAL NVA0B5_LAUNCH_DMA_DATA_TRANSFER_TYPE v = (if pl then 1 else 2)"
    "DRF_VAL NVA0B5_LAUNCH_DMA_REMAP_ENABLE v = (if rm then 1 else 0)"
    "DRF_VAL NVA0B5_LAUNCH_DMA_SRC_TYPE v = (if sv then 0 else 1)"
    "DRF_VAL NVA0B5_LAUNCH_DMA_DST_TYPE v = (if dv then 0 else 1)"
  unfolding v_def pipelined_value_def by (simp_all add: drf32)

section \<open>What copies and fills do\<close>

text \<open>The transfers of a run cut into pieces of \<open>ns\<close> elements; only the first may be pipelined.\<close>

fun fill_transfers :: "u8 list \<Rightarrow> uvm_gpu_address \<Rightarrow> bool \<Rightarrow> nat list \<Rightarrow> ce_transfer list" where
  "fill_transfers pat dst pl [] = []"
| "fill_transfers pat dst pl (n # ns) =
     \<lparr>tr_src = None, tr_fill = pat, tr_dst = dst, tr_length = n, tr_pipelined = pl\<rparr> #
     fill_transfers pat (shift (n * length pat) dst) False ns"

fun copy_transfers :: "uvm_gpu_address \<Rightarrow> uvm_gpu_address \<Rightarrow> bool \<Rightarrow> nat list \<Rightarrow> ce_transfer list" where
  "copy_transfers dst src pl [] = []"
| "copy_transfers dst src pl (n # ns) =
     \<lparr>tr_src = Some src, tr_fill = [], tr_dst = dst, tr_length = n, tr_pipelined = pl\<rparr> #
     copy_transfers (shift n dst) (shift n src) False ns"

text \<open>Pieces that a single launch can do and that make up the whole.\<close>

definition pieces :: "nat \<Rightarrow> nat list \<Rightarrow> bool" where
  "pieces n ns \<longleftrightarrow> ns \<noteq> [] \<and> sum_list ns = n \<and> (\<forall>k \<in> set ns. k \<le> 0xFFFFFFFF)"

lemma shift_ce_address: "shift n (ce_address ph mode a) = ce_address ph mode (a + of_nat n)"
  by (simp add: shift_def ce_address_def uvm_gpu_address_physical_def uvm_gpu_address_virtual_def)

lemma advance_ce_address: "advance_address x (ce_address ph mode a) = ce_address ph mode (a + x)"
  by (simp add: advance_address_def ce_address_def uvm_gpu_address_physical_def uvm_gpu_address_virtual_def)

lemma gpu_address_ce [simp]: "gpu_address (ce_address ph mode a) = a"
  by (simp add: ce_address_def uvm_gpu_address_physical_def uvm_gpu_address_virtual_def)

definition flag_set :: "hal_push \<Rightarrow> uvm_push_flag \<Rightarrow> bool" where
  "flag_set p f \<longleftrightarrow> push_flags (hp_push p) ! flag_index f"

lemma first_pipelined_eq:
  "fst (first_pipelined first p) = (first \<and> flag_set p UVM_PUSH_FLAG_CE_NEXT_PIPELINED)"
  "hp_words (snd (first_pipelined first p)) = hp_words p"
  by (simp_all add: first_pipelined_def hp_get_and_reset_flag_def uvm_push_get_and_reset_flag_def flag_set_def)

lemma emits_words:
  "hp_words q = hp_words p \<Longrightarrow> emits upper q r p' as r' \<Longrightarrow> emits upper p r p' as r'"
  by (simp add: emits_def)

text \<open>Registers that say where addresses are and what a fill writes, which the loops leave alone.\<close>

definition same_setup :: "ce_regs \<Rightarrow> ce_regs \<Rightarrow> bool" where
  "same_setup r r' \<longleftrightarrow> (\<forall>a \<in> {0x260, 0x264, 0x700, 0x704, 0x708}. r' a = r a)"

lemma same_setup_simps:
  "same_setup r r' \<Longrightarrow> remap_pattern r' = remap_pattern r \<and> r' 0x260 = r 0x260 \<and> r' 0x264 = r 0x264"
proof -
  assume "same_setup r r'"
  then have e: "r' 0x700 = r 0x700" "r' 0x704 = r 0x704" "r' 0x708 = r 0x708" "r' 0x260 = r 0x260" "r' 0x264 = r 0x264"
    by (simp_all add: same_setup_def)
  have "remap_const r' = remap_const r" unfolding remap_const_def e ..
  then show ?thesis unfolding remap_pattern_def e by simp
qed

lemma remap_pattern_upd: "a \<notin> {0x700, 0x704, 0x708} \<Longrightarrow> remap_pattern (r(a := v)) = remap_pattern r"
proof -
  assume "a \<notin> {0x700, 0x704, 0x708}"
  then have "remap_const (r(a := v)) = remap_const r" "(r(a := v)) 0x708 = r 0x708"
    by (auto simp: remap_const_def fun_eq_iff)
  then show ?thesis unfolding remap_pattern_def by simp
qed

lemma unat_pieces:
  fixes sz :: u64
  shows "unat sz = unat (min sz 0xFFFFFFFF) + unat (sz - min sz 0xFFFFFFFF)"
    and "unat (min sz (0xFFFFFFFF :: u64)) \<le> 0xFFFFFFFF"
  by (auto simp: min_def unat_sub word_le_nat_alt)

context ce_class_laws begin

lemma fill_step:
  assumes a: "unat a < 2 ^ cc_bits c"
    and r: "ph \<longrightarrow> r 0x264 = mode"
  shows "\<exists>r'. emits (cc_upper c) p r
      (hp_method 0x300 [DRF_DEF NVA0B5_LAUNCH_DMA_SRC_MEMORY_LAYOUT 1 OR DRF_DEF NVA0B5_LAUNCH_DMA_DST_MEMORY_LAYOUT 1 OR
          DRF_DEF NVA0B5_LAUNCH_DMA_MULTI_LINE_ENABLE 0 OR DRF_DEF NVA0B5_LAUNCH_DMA_REMAP_ENABLE 1 OR
          DRF_DEF NVA0B5_LAUNCH_DMA_FLUSH_ENABLE 0 OR DRF_DEF NVA0B5_LAUNCH_DMA_DST_TYPE (if ph then 1 else 0) OR pipelined_value pl]
        (hp_method 0x418 [n] (hp_write (hal_offset_out (cc_hal c) a) p)))
      [Ce_transfer \<lparr>tr_src = None, tr_fill = remap_pattern r, tr_dst = ce_address ph mode a, tr_length = unat n, tr_pipelined = pl\<rparr>] r' \<and>
    same_setup r r'"
proof -
  obtain h l where w: "writes (hal_offset_out (cc_hal c) a) [(UVM_SUBCHANNEL_CE, 0x408, h), (UVM_SUBCHANNEL_CE, 0x40c, l)]"
    and off: "ce_offset (cc_upper c) h l = a" using out[OF a] by blast
  let ?r1 = "r(0x408 := h, 0x40c := l)" and ?r2 = "r(0x408 := h, 0x40c := l, 0x418 := n)"
  let ?p1 = "hp_write (hal_offset_out (cc_hal c) a) p" and ?v = "DRF_DEF NVA0B5_LAUNCH_DMA_SRC_MEMORY_LAYOUT 1 OR DRF_DEF NVA0B5_LAUNCH_DMA_DST_MEMORY_LAYOUT 1 OR
          DRF_DEF NVA0B5_LAUNCH_DMA_MULTI_LINE_ENABLE 0 OR DRF_DEF NVA0B5_LAUNCH_DMA_REMAP_ENABLE 1 OR
          DRF_DEF NVA0B5_LAUNCH_DMA_FLUSH_ENABLE 0 OR DRF_DEF NVA0B5_LAUNCH_DMA_DST_TYPE (if ph then 1 else 0) OR pipelined_value pl"
  have "emits (cc_upper c) p r ?p1 [] ?r1" by (rule emits_writes[OF w]) simp
  moreover have "emits (cc_upper c) ?p1 ?r1 (hp_method 0x418 [n] ?p1) [] ?r2" by (rule emits_method_1) simp_all
  moreover have "emits (cc_upper c) (hp_method 0x418 [n] ?p1) ?r2 (hp_method 0x300 [?v] (hp_method 0x418 [n] ?p1))
      [read_launch (cc_upper c) ?r2 ?v] ?r2" by (rule emits_launch)
  ultimately have "emits (cc_upper c) p r (hp_method 0x300 [?v] (hp_method 0x418 [n] ?p1)) ([] @ [] @ [read_launch (cc_upper c) ?r2 ?v]) ?r2"
    by (intro emits_trans)
  moreover have "same_setup r ?r2" by (simp add: same_setup_def)
  moreover have "?v = DRF_DEF NVA0B5_LAUNCH_DMA_SRC_MEMORY_LAYOUT 1 OR DRF_DEF NVA0B5_LAUNCH_DMA_DST_MEMORY_LAYOUT 1 OR
      DRF_DEF NVA0B5_LAUNCH_DMA_MULTI_LINE_ENABLE 0 OR DRF_DEF NVA0B5_LAUNCH_DMA_REMAP_ENABLE (if True then 1 else 0) OR
      DRF_DEF NVA0B5_LAUNCH_DMA_FLUSH_ENABLE 0 OR
      (DRF_DEF NVA0B5_LAUNCH_DMA_SRC_TYPE (if True then 0 else 1) OR DRF_DEF NVA0B5_LAUNCH_DMA_DST_TYPE (if \<not> ph then 0 else 1)) OR
      pipelined_value pl" by (simp add: DRF_DEF_def)
  note v = launch_fields[where rm = True and sv = True and dv = "\<not> ph" and pl = pl, folded this]
  have "read_launch (cc_upper c) ?r2 ?v =
      Ce_transfer \<lparr>tr_src = None, tr_fill = remap_pattern r, tr_dst = ce_address ph mode a, tr_length = unat n, tr_pipelined = pl\<rparr>"
    using v off r same_setup_simps[OF \<open>same_setup r ?r2\<close>]
    by (cases ph) (simp_all add: read_launch_def Let_def ce_address_def)
  ultimately show ?thesis by auto
qed

end

context ce_class_laws begin

lemma memset_loop_emits:
  assumes "unat a < 2 ^ cc_bits c" "unat a + unat sz * length (remap_pattern r) \<le> 2 ^ cc_bits c"
    and "remap_pattern r \<noteq> []" and "ph \<longrightarrow> r 0x264 = mode"
  shows "\<exists>ns r'. pieces (unat sz) ns \<and>
    emits (cc_upper c) p r
      (memset_common_loop (cc_hal c) (DRF_DEF NVA0B5_LAUNCH_DMA_DST_TYPE (if ph then 1 else 0)) first (ce_address ph mode a) sz
         (of_nat (length (remap_pattern r))) p)
      (map Ce_transfer (fill_transfers (remap_pattern r) (ce_address ph mode a) (first \<and> flag_set p UVM_PUSH_FLAG_CE_NEXT_PIPELINED) ns)) r'"
  using assms
proof (induction "unat sz" arbitrary: a sz first p r rule: less_induct)
  case less
  let ?pat = "remap_pattern r" and ?k = "length (remap_pattern r)" and ?m = "min sz 0xFFFFFFFF"
  let ?pl = "first \<and> flag_set p UVM_PUSH_FLAG_CE_NEXT_PIPELINED"
  obtain q where fp: "first_pipelined first p = (?pl, q)"
    using first_pipelined_eq(1)[of first p] by (cases "first_pipelined first p") simp
  then have q: "hp_words q = hp_words p" using first_pipelined_eq(2)[of first p] by simp
  let ?p3 = "hp_method 0x300 [DRF_DEF NVA0B5_LAUNCH_DMA_SRC_MEMORY_LAYOUT 1 OR DRF_DEF NVA0B5_LAUNCH_DMA_DST_MEMORY_LAYOUT 1 OR
          DRF_DEF NVA0B5_LAUNCH_DMA_MULTI_LINE_ENABLE 0 OR DRF_DEF NVA0B5_LAUNCH_DMA_REMAP_ENABLE 1 OR
          DRF_DEF NVA0B5_LAUNCH_DMA_FLUSH_ENABLE 0 OR DRF_DEF NVA0B5_LAUNCH_DMA_DST_TYPE (if ph then 1 else 0) OR pipelined_value ?pl]
        (hp_method 0x418 [ucast ?m] (hp_write (hal_offset_out (cc_hal c) a) q))"
  from fill_step[where a = a and ph = ph and r = r and mode = mode and p = q and pl = ?pl and n = "ucast ?m",
      OF less.prems(1,4), unfolded this_time] obtain r1 where
    "emits (cc_upper c) q r ?p3 [Ce_transfer \<lparr>tr_src = None, tr_fill = ?pat, tr_dst = ce_address ph mode a,
      tr_length = unat ?m, tr_pipelined = ?pl\<rparr>] r1" and "same_setup r r1"
    by blast
  then have r1: "emits (cc_upper c) p r ?p3 [Ce_transfer \<lparr>tr_src = None, tr_fill = ?pat, tr_dst = ce_address ph mode a,
      tr_length = unat ?m, tr_pipelined = ?pl\<rparr>] r1" "same_setup r r1"
    using emits_words[OF q] by blast+
  note up = unat_pieces[of sz]
  have loop: "memset_common_loop (cc_hal c) ty first (ce_address ph mode a) sz (of_nat ?k) p =
      (if 0 < sz - ?m then memset_common_loop (cc_hal c) ty False (ce_address ph mode (a + ?m * of_nat ?k)) (sz - ?m) (of_nat ?k) ?p3
       else ?p3)" if "ty = DRF_DEF NVA0B5_LAUNCH_DMA_DST_TYPE (if ph then 1 else 0)" for ty
    unfolding that by (subst memset_common_loop.simps)
      (simp add: fp Let_def this_time advance_ce_address)
  show ?case
  proof (cases "0 < sz - ?m")
    case False
    then have "sz - ?m = 0" by (simp add: word_gt_0)
    then have "pieces (unat sz) [unat ?m]" using up by (simp add: pieces_def)
    then show ?thesis using r1(1) False
      by (intro exI[of _ "[unat ?m]"] exI[of _ r1]) (simp add: loop)
  next
    case True
    let ?a = "a + ?m * of_nat ?k"
    have pos: "0 < unat (sz - ?m)" using True by (simp add: word_less_nat_alt)
    have lt: "unat (sz - ?m) < unat sz" using rest_less[OF True] .
    have "unat ?m * ?k \<le> unat sz * ?k" using up(1) by simp
    then have le: "unat a + unat ?m * ?k \<le> 2 ^ cc_bits c" using less.prems(2) by linarith
    also have "(2::nat) ^ cc_bits c < 2 ^ 64" using bits by (intro power_strict_increasing) auto
    finally have "unat a + unat ?m * ?k < 2 ^ 64" .
    then have ua: "unat ?a = unat a + unat ?m * ?k"
      by (simp add: unat_word_ariths unat_of_nat mod_mult_right_eq mod_add_right_eq)
    have same: "remap_pattern r1 = ?pat" "r1 0x264 = r 0x264" using same_setup_simps[OF r1(2)] by auto
    have sum: "unat ?a + unat (sz - ?m) * ?k = unat a + unat sz * ?k"
      unfolding ua using arg_cong[OF up(1), of "\<lambda>x. x * ?k"] by (simp add: add_mult_distrib)
    have "0 < unat (sz - ?m) * ?k" using pos less.prems(3) by simp
    then have "unat ?a < 2 ^ cc_bits c" using sum less.prems(2) by linarith
    moreover have "unat ?a + unat (sz - ?m) * length (remap_pattern r1) \<le> 2 ^ cc_bits c"
      using sum less.prems(2) same by simp
    moreover have "remap_pattern r1 \<noteq> []" "ph \<longrightarrow> r1 0x264 = mode" using less.prems(3,4) same by simp_all
    ultimately obtain ns r' where ns: "pieces (unat (sz - ?m)) ns"
      and e: "emits (cc_upper c) ?p3 r1
        (memset_common_loop (cc_hal c) (DRF_DEF NVA0B5_LAUNCH_DMA_DST_TYPE (if ph then 1 else 0)) False (ce_address ph mode ?a) (sz - ?m) (of_nat ?k) ?p3)
        (map Ce_transfer (fill_transfers ?pat (ce_address ph mode ?a) False ns)) r'"
      using less.hyps[OF lt, of ?a r1 ?p3 False] unfolding same(1) by auto
    have "shift (unat ?m * ?k) (ce_address ph mode a) = ce_address ph mode ?a" by (simp add: shift_ce_address)
    moreover have "pieces (unat sz) (unat ?m # ns)" using ns up by (simp add: pieces_def)
    ultimately show ?thesis using emits_trans[OF r1(1) e] True
      by (intro exI[of _ "unat ?m # ns"] exI[of _ r']) (simp add: loop)
  qed
qed

end

context ce_class_laws begin

lemma copy_step:
  assumes a: "unat a < 2 ^ cc_bits c" and b: "unat b < 2 ^ cc_bits c"
    and r: "pd \<longrightarrow> r 0x264 = md" "ps \<longrightarrow> r 0x260 = ms"
  shows "\<exists>r'. emits (cc_upper c) p r
      (hp_method 0x300 [DRF_DEF NVA0B5_LAUNCH_DMA_SRC_MEMORY_LAYOUT 1 OR DRF_DEF NVA0B5_LAUNCH_DMA_DST_MEMORY_LAYOUT 1 OR
          DRF_DEF NVA0B5_LAUNCH_DMA_MULTI_LINE_ENABLE 0 OR DRF_DEF NVA0B5_LAUNCH_DMA_REMAP_ENABLE 0 OR
          DRF_DEF NVA0B5_LAUNCH_DMA_FLUSH_ENABLE 0 OR
          (DRF_DEF NVA0B5_LAUNCH_DMA_SRC_TYPE (if \<not> ps then 0 else 1) OR DRF_DEF NVA0B5_LAUNCH_DMA_DST_TYPE (if \<not> pd then 0 else 1)) OR
          pipelined_value pl]
        (hp_method 0x418 [n] (hp_write (hal_offset_in_out (cc_hal c) b a) p)))
      [Ce_transfer \<lparr>tr_src = Some (ce_address ps ms b), tr_fill = [], tr_dst = ce_address pd md a, tr_length = unat n, tr_pipelined = pl\<rparr>] r' \<and>
    same_setup r r'"
proof -
  obtain h l h' l' where w: "writes (hal_offset_in_out (cc_hal c) b a) [(UVM_SUBCHANNEL_CE, 0x400, h), (UVM_SUBCHANNEL_CE, 0x404, l),
      (UVM_SUBCHANNEL_CE, 0x408, h'), (UVM_SUBCHANNEL_CE, 0x40c, l')]"
    and off: "ce_offset (cc_upper c) h l = b" "ce_offset (cc_upper c) h' l' = a" using in_out[OF b a] by blast
  let ?r1 = "r(0x400 := h, 0x404 := l, 0x408 := h', 0x40c := l')"
  let ?r2 = "?r1(0x418 := n)"
  let ?p1 = "hp_write (hal_offset_in_out (cc_hal c) b a) p" and ?v = "DRF_DEF NVA0B5_LAUNCH_DMA_SRC_MEMORY_LAYOUT 1 OR DRF_DEF NVA0B5_LAUNCH_DMA_DST_MEMORY_LAYOUT 1 OR
          DRF_DEF NVA0B5_LAUNCH_DMA_MULTI_LINE_ENABLE 0 OR DRF_DEF NVA0B5_LAUNCH_DMA_REMAP_ENABLE 0 OR
          DRF_DEF NVA0B5_LAUNCH_DMA_FLUSH_ENABLE 0 OR
          (DRF_DEF NVA0B5_LAUNCH_DMA_SRC_TYPE (if \<not> ps then 0 else 1) OR DRF_DEF NVA0B5_LAUNCH_DMA_DST_TYPE (if \<not> pd then 0 else 1)) OR
          pipelined_value pl"
  have "emits (cc_upper c) p r ?p1 [] ?r1" by (rule emits_writes[OF w]) simp
  moreover have "emits (cc_upper c) ?p1 ?r1 (hp_method 0x418 [n] ?p1) [] ?r2" by (rule emits_method_1) simp_all
  moreover have "emits (cc_upper c) (hp_method 0x418 [n] ?p1) ?r2 (hp_method 0x300 [?v] (hp_method 0x418 [n] ?p1))
      [read_launch (cc_upper c) ?r2 ?v] ?r2" by (rule emits_launch)
  ultimately have "emits (cc_upper c) p r (hp_method 0x300 [?v] (hp_method 0x418 [n] ?p1)) ([] @ [] @ [read_launch (cc_upper c) ?r2 ?v]) ?r2"
    by (intro emits_trans)
  moreover have "same_setup r ?r2" by (simp add: same_setup_def)
  moreover have "read_launch (cc_upper c) ?r2 ?v =
      Ce_transfer \<lparr>tr_src = Some (ce_address ps ms b), tr_fill = [], tr_dst = ce_address pd md a, tr_length = unat n, tr_pipelined = pl\<rparr>"
    using launch_fields[where rm = False and sv = "\<not> ps" and dv = "\<not> pd" and pl = pl] off r
    by (cases pd; cases ps) (simp_all add: read_launch_def Let_def ce_address_def)
  ultimately show ?thesis by auto
qed

lemma memcopy_loop_emits:
  assumes "unat a < 2 ^ cc_bits c" "unat a + unat sz \<le> 2 ^ cc_bits c"
    and "unat b < 2 ^ cc_bits c" "unat b + unat sz \<le> 2 ^ cc_bits c"
    and "pd \<longrightarrow> r 0x264 = md" "ps \<longrightarrow> r 0x260 = ms"
  shows "\<exists>ns r'. pieces (unat sz) ns \<and>
    emits (cc_upper c) p r
      (memcopy_loop (cc_hal c)
         (DRF_DEF NVA0B5_LAUNCH_DMA_SRC_TYPE (if \<not> ps then 0 else 1) OR DRF_DEF NVA0B5_LAUNCH_DMA_DST_TYPE (if \<not> pd then 0 else 1))
         first (ce_address pd md a) (ce_address ps ms b) sz p)
      (map Ce_transfer (copy_transfers (ce_address pd md a) (ce_address ps ms b) (first \<and> flag_set p UVM_PUSH_FLAG_CE_NEXT_PIPELINED) ns)) r'"
  using assms
proof (induction "unat sz" arbitrary: a b sz first p r rule: less_induct)
  case less
  let ?m = "min sz 0xFFFFFFFF" and ?pl = "first \<and> flag_set p UVM_PUSH_FLAG_CE_NEXT_PIPELINED"
  let ?ty = "DRF_DEF NVA0B5_LAUNCH_DMA_SRC_TYPE (if \<not> ps then 0 else 1) OR DRF_DEF NVA0B5_LAUNCH_DMA_DST_TYPE (if \<not> pd then 0 else 1)"
  obtain q where fp: "first_pipelined first p = (?pl, q)"
    using first_pipelined_eq(1)[of first p] by (cases "first_pipelined first p") simp
  then have q: "hp_words q = hp_words p" using first_pipelined_eq(2)[of first p] by simp
  let ?p3 = "hp_method 0x300 [DRF_DEF NVA0B5_LAUNCH_DMA_SRC_MEMORY_LAYOUT 1 OR DRF_DEF NVA0B5_LAUNCH_DMA_DST_MEMORY_LAYOUT 1 OR
          DRF_DEF NVA0B5_LAUNCH_DMA_MULTI_LINE_ENABLE 0 OR DRF_DEF NVA0B5_LAUNCH_DMA_REMAP_ENABLE 0 OR
          DRF_DEF NVA0B5_LAUNCH_DMA_FLUSH_ENABLE 0 OR ?ty OR pipelined_value ?pl]
        (hp_method 0x418 [ucast ?m] (hp_write (hal_offset_in_out (cc_hal c) b a) q))"
  let ?t = "Ce_transfer \<lparr>tr_src = Some (ce_address ps ms b), tr_fill = [], tr_dst = ce_address pd md a, tr_length = unat ?m, tr_pipelined = ?pl\<rparr>"
  from copy_step[where a = a and b = b and pd = pd and ps = ps and r = r and md = md and ms = ms and p = q and pl = ?pl
      and n = "ucast ?m", OF less.prems(1,3,5,6), unfolded this_time] obtain r1 where
    "emits (cc_upper c) q r ?p3 [?t] r1" and keep1: "same_setup r r1" by blast
  then have r1: "emits (cc_upper c) p r ?p3 [?t] r1" using emits_words[OF q] by blast
  note up = unat_pieces[of sz]
  have loop: "memcopy_loop (cc_hal c) ?ty first (ce_address pd md a) (ce_address ps ms b) sz p =
      (if 0 < sz - ?m then memcopy_loop (cc_hal c) ?ty False (ce_address pd md (a + ?m)) (ce_address ps ms (b + ?m)) (sz - ?m) ?p3
       else ?p3)"
    by (subst memcopy_loop.simps) (simp add: fp Let_def this_time advance_ce_address)
  show ?case
  proof (cases "0 < sz - ?m")
    case False
    then have "sz - ?m = 0" by (simp add: word_gt_0)
    then have "pieces (unat sz) [unat ?m]" using up by (simp add: pieces_def)
    then show ?thesis using r1(1) False
      by (intro exI[of _ "[unat ?m]"] exI[of _ r1]) (simp add: loop)
  next
    case True
    have pos: "0 < unat (sz - ?m)" using True by (simp add: word_less_nat_alt)
    have lt: "unat (sz - ?m) < unat sz" using rest_less[OF True] .
    have "(2::nat) ^ cc_bits c < 2 ^ 64" using bits by (intro power_strict_increasing) auto
    then have "unat a + unat ?m < 2 ^ 64" "unat b + unat ?m < 2 ^ 64"
      using less.prems(2,4) up(1) by linarith+
    then have ua: "unat (a + ?m) = unat a + unat ?m" "unat (b + ?m) = unat b + unat ?m"
      by (simp_all add: unat_word_ariths)
    have "unat (a + ?m) < 2 ^ cc_bits c" "unat (a + ?m) + unat (sz - ?m) \<le> 2 ^ cc_bits c"
      "unat (b + ?m) < 2 ^ cc_bits c" "unat (b + ?m) + unat (sz - ?m) \<le> 2 ^ cc_bits c"
      unfolding ua using less.prems(2,4) up(1) pos by linarith+
    moreover have "pd \<longrightarrow> r1 0x264 = md" "ps \<longrightarrow> r1 0x260 = ms"
      using less.prems(5,6) same_setup_simps[OF keep1] by simp_all
    ultimately obtain ns r' where ns: "pieces (unat (sz - ?m)) ns"
      and e: "emits (cc_upper c) ?p3 r1
        (memcopy_loop (cc_hal c) ?ty False (ce_address pd md (a + ?m)) (ce_address ps ms (b + ?m)) (sz - ?m) ?p3)
        (map Ce_transfer (copy_transfers (ce_address pd md (a + ?m)) (ce_address ps ms (b + ?m)) False ns)) r'"
      using less.hyps[OF lt, of "a + ?m" "b + ?m" r1 ?p3 False] by auto
    have "shift (unat ?m) (ce_address pd md a) = ce_address pd md (a + ?m)" "shift (unat ?m) (ce_address ps ms b) = ce_address ps ms (b + ?m)"
      by (simp_all add: shift_ce_address)
    moreover have "pieces (unat sz) (unat ?m # ns)" using ns up by (simp add: pieces_def)
    ultimately show ?thesis using emits_trans[OF r1(1) e] True
      by (intro exI[of _ "unat ?m # ns"] exI[of _ r']) (simp add: loop)
  qed
qed

end

subsection \<open>Effects on memory\<close>

lemma run_transfer_simps [simp]:
  "run_transfer \<lparr>tr_src = None, tr_fill = pat, tr_dst = d, tr_length = n, tr_pipelined = pl\<rparr> m =
    write_bytes d (concat (replicate n pat)) m"
  "run_transfer \<lparr>tr_src = Some s, tr_fill = pat, tr_dst = d, tr_length = n, tr_pipelined = pl\<rparr> m =
    write_bytes d (read_bytes s n m) m"
  by (simp_all add: run_transfer_def)

lemma fill_transfers_run:
  "fold run_transfer (fill_transfers pat dst pl ns) m = write_bytes dst (concat (replicate (sum_list ns) pat)) m"
proof (induction ns arbitrary: dst pl m)
  case (Cons n ns)
  have "concat (replicate (n + sum_list ns) pat) = concat (replicate n pat) @ concat (replicate (sum_list ns) pat)"
    by (simp add: replicate_add)
  moreover have "length (concat (replicate n pat)) = n * length pat" by (induction n) auto
  ultimately show ?case by (simp add: Cons write_bytes_append)
qed simp

lemma length_read_bytes [simp]: "length (read_bytes s n m) = n"
  by (simp add: read_bytes_def)

lemma read_bytes_add: "read_bytes s (n + k) m = read_bytes s n m @ read_bytes (shift n s) k m"
proof (rule nth_equalityI)
  fix i assume "i < length (read_bytes s (n + k) m)"
  then show "read_bytes s (n + k) m ! i = (read_bytes s n m @ read_bytes (shift n s) k m) ! i"
    by (auto simp: read_bytes_def nth_append)
qed simp

text \<open>Copying piece by piece is copying at once when source and destination do not overlap.\<close>

lemma copy_transfers_run:
  assumes "\<forall>i < sum_list ns. \<forall>j < sum_list ns. shift i dst \<noteq> shift j src"
  shows "fold run_transfer (copy_transfers dst src pl ns) m = write_bytes dst (read_bytes src (sum_list ns) m) m"
  using assms
proof (induction ns arbitrary: dst src pl m)
  case (Cons n ns)
  let ?k = "sum_list ns" and ?m = "write_bytes dst (read_bytes src n m) m"
  have dis: "shift i dst \<noteq> shift j src" if "i < n + ?k" "j < n + ?k" for i j using Cons.prems that by simp
  have "read_bytes (shift n src) ?k ?m = read_bytes (shift n src) ?k m"
    unfolding read_bytes_def
  proof (rule map_cong[OF refl])
    fix j assume "j \<in> set [0..<?k]"
    then have "\<forall>i < length (read_bytes src n m). shift i dst \<noteq> shift (j + n) src" using dis[of _ "j + n"] by simp
    from write_bytes_outside[OF this, of m]
    show "write_bytes dst (map (\<lambda>i. m (shift i src)) [0..<n]) m (shift j (shift n src)) = m (shift j (shift n src))"
      by (simp add: read_bytes_def)
  qed
  moreover have "\<forall>i < ?k. \<forall>j < ?k. shift i (shift n dst) \<noteq> shift j (shift n src)" using dis by simp
  ultimately show ?case by (simp add: Cons.IH read_bytes_add write_bytes_append)
qed (simp add: read_bytes_def)

lemma fill_transfers_shape:
  "ns \<noteq> [] \<Longrightarrow> fill_transfers pat dst pl ns \<noteq> [] \<and> tr_pipelined (hd (fill_transfers pat dst pl ns)) = pl"
  "\<forall>t \<in> set (fill_transfers pat dst False ns). \<not> tr_pipelined t"
  "\<forall>t \<in> set (tl (fill_transfers pat dst pl ns)). \<not> tr_pipelined t"
  "\<forall>t \<in> set (fill_transfers pat dst pl ns). tr_length t \<in> set ns"
proof -
  show no: "\<forall>t \<in> set (fill_transfers pat dst False ns). \<not> tr_pipelined t" for dst ns
    by (induction ns arbitrary: dst) auto
  show "ns \<noteq> [] \<Longrightarrow> fill_transfers pat dst pl ns \<noteq> [] \<and> tr_pipelined (hd (fill_transfers pat dst pl ns)) = pl"
    by (cases ns) auto
  show "\<forall>t \<in> set (tl (fill_transfers pat dst pl ns)). \<not> tr_pipelined t" using no by (cases ns) auto
  show "\<forall>t \<in> set (fill_transfers pat dst pl ns). tr_length t \<in> set ns" by (induction ns arbitrary: dst pl) auto
qed

lemma copy_transfers_shape:
  "ns \<noteq> [] \<Longrightarrow> copy_transfers dst src pl ns \<noteq> [] \<and> tr_pipelined (hd (copy_transfers dst src pl ns)) = pl"
  "\<forall>t \<in> set (tl (copy_transfers dst src pl ns)). \<not> tr_pipelined t"
  "\<forall>t \<in> set (copy_transfers dst src pl ns). tr_length t \<in> set ns"
proof -
  have no: "\<forall>t \<in> set (copy_transfers dst src False ns). \<not> tr_pipelined t" for dst src ns
    by (induction ns arbitrary: dst src) auto
  show "ns \<noteq> [] \<Longrightarrow> copy_transfers dst src pl ns \<noteq> [] \<and> tr_pipelined (hd (copy_transfers dst src pl ns)) = pl"
    by (cases ns) auto
  show "\<forall>t \<in> set (tl (copy_transfers dst src pl ns)). \<not> tr_pipelined t" using no by (cases ns) auto
  show "\<forall>t \<in> set (copy_transfers dst src pl ns). tr_length t \<in> set ns" by (induction ns arbitrary: dst src pl) auto
qed

subsection \<open>Flags and membars\<close>

lemma flag_index_inj [simp]: "flag_index f = flag_index g \<longleftrightarrow> f = g"
  by (cases f; cases g) auto

lemma hp_get_and_reset_flag_eq:
  "fst (hp_get_and_reset_flag p f) = flag_set p f"
  "hp_words (snd (hp_get_and_reset_flag p f)) = hp_words p"
  "g \<noteq> f \<Longrightarrow> flag_set (snd (hp_get_and_reset_flag p f)) g = flag_set p g"
  by (simp_all add: hp_get_and_reset_flag_def uvm_push_get_and_reset_flag_def flag_set_def Let_def)

lemma flag_set_simps [simp]:
  "flag_set (hp_write f p) g = flag_set p g" "flag_set (hp_method a ds p) g = flag_set p g"
  by (simp_all add: flag_set_def hp_write_def hp_method_def)

lemma first_pipelined_flags: "g \<noteq> UVM_PUSH_FLAG_CE_NEXT_PIPELINED \<Longrightarrow> flag_set (snd (first_pipelined first p)) g = flag_set p g"
  by (simp add: first_pipelined_def hp_get_and_reset_flag_eq)

lemma memset_loop_flags:
  "g \<noteq> UVM_PUSH_FLAG_CE_NEXT_PIPELINED \<Longrightarrow> flag_set (memset_common_loop hal ty first dst sz e p) g = flag_set p g"
proof (induction hal ty first dst sz e p rule: memset_common_loop.induct)
  case (1 hal ty first dst sz e p)
  obtain pl q where fp: "first_pipelined first p = (pl, q)" by (cases "first_pipelined first p")
  have "flag_set q g = flag_set p g" using first_pipelined_flags[OF 1(2), of first p] fp by simp
  then show ?case using 1(1)[OF refl fp[symmetric] refl refl refl refl refl refl] 1(2)
    by (subst memset_common_loop.simps) (simp add: fp Let_def)
qed

lemma memcopy_loop_flags:
  "g \<noteq> UVM_PUSH_FLAG_CE_NEXT_PIPELINED \<Longrightarrow> flag_set (memcopy_loop hal ty first dst src sz p) g = flag_set p g"
proof (induction hal ty first dst src sz p rule: memcopy_loop.induct)
  case (1 hal ty first dst src sz p)
  obtain pl q where fp: "first_pipelined first p = (pl, q)" by (cases "first_pipelined first p")
  have "flag_set q g = flag_set p g" using first_pipelined_flags[OF 1(2), of first p] fp by simp
  then show ?case using 1(1)[OF refl fp[symmetric] refl refl refl refl refl refl] 1(2)
    by (subst memcopy_loop.simps) (simp add: fp Let_def)
qed

text \<open>The membar the flags of a push ask for after a transfer: none, else a wait and a GPU or system membar.\<close>

definition membar_actions :: "ce_class \<Rightarrow> hal_push \<Rightarrow> ce_action list" where
  "membar_actions c p =
     (if flag_set p UVM_PUSH_FLAG_CE_NEXT_MEMBAR_NONE then []
      else map (\<lambda>(s, a, v). Ce_host a v)
             (cc_wfi c @ (if flag_set p UVM_PUSH_FLAG_CE_NEXT_MEMBAR_GPU then cc_membar_gpu c else cc_membar_sys c)))"

lemma ce_exec_host:
  "\<forall>m \<in> set ms. fst m \<noteq> UVM_SUBCHANNEL_CE \<Longrightarrow> ce_exec upper ms r = (map (\<lambda>(s, a, v). Ce_host a v) ms, r)"
  by (induction ms) auto

text \<open>
  From \<open>p\<close> to \<open>p'\<close> a push performs, whatever the registers, transfers of at most 0xFFFFFFFF elements with
  the effect \<open>eff\<close>, the first pipelined if the flag asks for it and no other, and then the membar asked for.
\<close>

definition ce_performs :: "ce_class \<Rightarrow> hal_push \<Rightarrow> (gpu_mem \<Rightarrow> gpu_mem) \<Rightarrow> hal_push \<Rightarrow> bool" where
  "ce_performs c p eff p' \<longleftrightarrow>
     (\<forall>r. \<exists>ts r'. emits (cc_upper c) p r p' (map Ce_transfer ts @ membar_actions c p) r' \<and> ts \<noteq> [] \<and>
       tr_pipelined (hd ts) = flag_set p UVM_PUSH_FLAG_CE_NEXT_PIPELINED \<and> (\<forall>t \<in> set (tl ts). \<not> tr_pipelined t) \<and>
       (\<forall>t \<in> set ts. tr_length t \<le> 0xFFFFFFFF) \<and> (\<forall>m. fold run_transfer ts m = eff m))"

text \<open>Addresses that the copy engine can be given: virtual, or physical in video or system memory.\<close>

definition ce_address_ok :: "uvm_gpu_address \<Rightarrow> bool" where
  "ce_address_ok d \<longleftrightarrow>
     (if is_virtual d then d = uvm_gpu_address_virtual (gpu_address d)
      else gpu_aperture d = UVM_APERTURE_VID \<or> gpu_aperture d = UVM_APERTURE_SYS)"

lemma ce_address_eq:
  assumes "ce_address_ok d"
  shows "ce_address (\<not> is_virtual d) (ce_aperture (gpu_aperture d)) (gpu_address d) = d"
proof -
  have "DRF_VAL NVA0B5_PHYS_MODE_TARGET (DRF_DEF NVA0B5_PHYS_MODE_TARGET 1) = 1"
    "DRF_VAL NVA0B5_PHYS_MODE_TARGET (DRF_DEF NVA0B5_PHYS_MODE_TARGET 0) = 0" by (simp_all add: drf32)
  then show ?thesis using assms
    by (cases d) (auto simp: ce_address_ok_def ce_address_def ce_aperture_def uvm_gpu_address_physical_def
        uvm_gpu_address_virtual_def split: if_splits)
qed

lemma no_match:
  "DRF_DEF NVA0B5_REMAP_DST_X 4 OR DRF_DEF NVA0B5_REMAP_COMPONENT_SIZE 0 OR DRF_DEF NVA0B5_REMAP_NUM_DST_COMPONENTS 0 = (4 :: u32)"
  "DRF_DEF NVA0B5_REMAP_DST_X 4 OR DRF_DEF NVA0B5_REMAP_COMPONENT_SIZE 3 OR DRF_DEF NVA0B5_REMAP_NUM_DST_COMPONENTS 0 = (0x30004 :: u32)"
  "DRF_DEF NVA0B5_REMAP_DST_X 4 OR DRF_DEF NVA0B5_REMAP_DST_Y 5 OR DRF_DEF NVA0B5_REMAP_COMPONENT_SIZE 3 OR
    DRF_DEF NVA0B5_REMAP_NUM_DST_COMPONENTS 1 = (0x1030054 :: u32)"
  by (simp_all add: DRF_DEF_def DRF_SHIFT_def)

lemma remap_fields:
  "DRF_VAL NVA0B5_REMAP_COMPONENT_SIZE 4 = 0" "DRF_VAL NVA0B5_REMAP_NUM_DST_COMPONENTS 4 = 0" "DRF_VAL NVA0B5_REMAP_DST_X 4 = 4"
  "DRF_VAL NVA0B5_REMAP_COMPONENT_SIZE 0x30004 = 3" "DRF_VAL NVA0B5_REMAP_NUM_DST_COMPONENTS 0x30004 = 0" "DRF_VAL NVA0B5_REMAP_DST_X 0x30004 = 4"
  "DRF_VAL NVA0B5_REMAP_COMPONENT_SIZE 0x1030054 = 3" "DRF_VAL NVA0B5_REMAP_NUM_DST_COMPONENTS 0x1030054 = 1"
  "DRF_VAL NVA0B5_REMAP_DST_X 0x1030054 = 4" "DRF_VAL NVA0B5_REMAP_DST_Y 0x1030054 = 5"
  by (simp_all add: DRF_VAL_def DRF_SHIFT_def DRF_MASK_def mask_eq_exp_minus_1)

lemma list_0_4: "[0..<4] = [0, 1, 2, 3 :: nat]" and list_0_8: "[0..<8] = [0, 1, 2, 3, 4, 5, 6, 7 :: nat]"
  by (simp_all add: upt_rec)

lemma two_halves_bytes: "bytes_of_32 (ucast v) @ bytes_of_32 (ucast (drop_bit 32 v)) = bytes_of (v :: u64)"
  unfolding bytes_of_32_def bytes_of_def list_0_4 list_0_8
  by (simp, intro conjI; rule bit_word_eqI; simp add: bit_simps)

lemma byte_back: "ucast (ucast (b :: u8) :: u32) = b"
  by (rule bit_word_eqI) (auto simp: bit_simps)

lemma remap_patterns:
  "r 0x708 = 4 \<Longrightarrow> r 0x700 = ucast (b :: u8) \<Longrightarrow> remap_pattern r = [b]"
  "r 0x708 = 0x30004 \<Longrightarrow> remap_pattern r = bytes_of_32 (r 0x700)"
  "r 0x708 = 0x1030054 \<Longrightarrow> remap_pattern r = bytes_of_32 (r 0x700) @ bytes_of_32 (r 0x704)"
  by (simp_all add: remap_pattern_def Let_def remap_fields remap_const_def bytes_of_32_def list_0_4 byte_back)

lemma membar_actions_words: "membar_actions c (hp_write f p) = membar_actions c p" "membar_actions c (hp_method a ds p) = membar_actions c p"
  by (simp_all add: membar_actions_def)

context ce_class_laws begin

lemma membar_after_emits: "emits (cc_upper c) p r (kepler_membar_after_transfer (cc_hal c) p) (membar_actions c p) r"
proof -
  obtain q where q: "hp_get_and_reset_flag p UVM_PUSH_FLAG_CE_NEXT_MEMBAR_NONE = (flag_set p UVM_PUSH_FLAG_CE_NEXT_MEMBAR_NONE, q)"
    using hp_get_and_reset_flag_eq(1)[of p UVM_PUSH_FLAG_CE_NEXT_MEMBAR_NONE]
    by (cases "hp_get_and_reset_flag p UVM_PUSH_FLAG_CE_NEXT_MEMBAR_NONE") simp
  have w: "hp_words q = hp_words p" and fl: "flag_set q UVM_PUSH_FLAG_CE_NEXT_MEMBAR_GPU = flag_set p UVM_PUSH_FLAG_CE_NEXT_MEMBAR_GPU"
    using hp_get_and_reset_flag_eq(2)[of p UVM_PUSH_FLAG_CE_NEXT_MEMBAR_NONE]
      hp_get_and_reset_flag_eq(3)[of UVM_PUSH_FLAG_CE_NEXT_MEMBAR_GPU UVM_PUSH_FLAG_CE_NEXT_MEMBAR_NONE p] q by auto
  show ?thesis
  proof (cases "flag_set p UVM_PUSH_FLAG_CE_NEXT_MEMBAR_NONE")
    case True
    then show ?thesis using q w by (simp add: kepler_membar_after_transfer_def membar_actions_def emits_refl)
  next
    case False
    let ?w = "hp_write (hal_wait_for_idle (cc_hal c)) q"
    let ?gpu = "flag_set p UVM_PUSH_FLAG_CE_NEXT_MEMBAR_GPU"
    obtain u where u: "hp_get_and_reset_flag ?w UVM_PUSH_FLAG_CE_NEXT_MEMBAR_GPU = (?gpu, u)"
      using hp_get_and_reset_flag_eq(1)[of ?w UVM_PUSH_FLAG_CE_NEXT_MEMBAR_GPU] fl
      by (cases "hp_get_and_reset_flag ?w UVM_PUSH_FLAG_CE_NEXT_MEMBAR_GPU") simp
    have uw: "hp_words u = hp_words ?w" using hp_get_and_reset_flag_eq(2)[of ?w UVM_PUSH_FLAG_CE_NEXT_MEMBAR_GPU] u by simp
    let ?ms = "if ?gpu then cc_membar_gpu c else cc_membar_sys c"
    let ?f = "if ?gpu then hal_membar_gpu (cc_hal c) else hal_membar_sys (cc_hal c)"
    have f: "writes ?f ?ms" using membar_gpu membar_sys by simp
    have host': "\<forall>m \<in> set (cc_wfi c). fst m \<noteq> UVM_SUBCHANNEL_CE" "\<forall>m \<in> set ?ms. fst m \<noteq> UVM_SUBCHANNEL_CE"
      using host by auto
    have e1: "emits (cc_upper c) q r ?w (map (\<lambda>(s, a, v). Ce_host a v) (cc_wfi c)) r"
      by (rule emits_writes[OF wfi ce_exec_host[OF host'(1)]])
    have e2: "emits (cc_upper c) u r (hp_write ?f u) (map (\<lambda>(s, a, v). Ce_host a v) ?ms) r"
      by (rule emits_writes[OF f ce_exec_host[OF host'(2)]])
    have "emits (cc_upper c) q r (hp_write ?f u) (map (\<lambda>(s, a, v). Ce_host a v) (cc_wfi c) @ map (\<lambda>(s, a, v). Ce_host a v) ?ms) r"
      by (rule emits_trans[OF e1 emits_words[OF uw e2]])
    moreover have "kepler_membar_after_transfer (cc_hal c) p = hp_write ?f u"
      using q u False by (simp add: kepler_membar_after_transfer_def Let_def)
    ultimately show ?thesis using emits_words[OF w] False by (simp add: membar_actions_def)
  qed
qed

lemma memset_common_performs:
  assumes "ce_address_ok dst" "unat (gpu_address dst) < 2 ^ cc_bits c" "remap_pattern r \<noteq> []"
    and "unat (gpu_address dst) + unat sz * length (remap_pattern r) \<le> 2 ^ cc_bits c"
  shows "\<exists>ts r'. emits (cc_upper c) p r (memset_common (cc_hal c) dst sz (of_nat (length (remap_pattern r))) p)
      (map Ce_transfer ts @ membar_actions c p) r' \<and> ts \<noteq> [] \<and>
    tr_pipelined (hd ts) = flag_set p UVM_PUSH_FLAG_CE_NEXT_PIPELINED \<and> (\<forall>t \<in> set (tl ts). \<not> tr_pipelined t) \<and>
    (\<forall>t \<in> set ts. tr_length t \<le> 0xFFFFFFFF) \<and>
    (\<forall>m. fold run_transfer ts m = write_bytes dst (concat (replicate (unat sz) (remap_pattern r))) m)"
proof -
  let ?pat = "remap_pattern r" and ?mode = "ce_aperture (gpu_aperture dst)" and ?ph = "\<not> is_virtual dst"
  let ?ty = "DRF_DEF NVA0B5_LAUNCH_DMA_DST_TYPE (if ?ph then 1 else 0)"
  let ?p1 = "if ?ph then hp_method 0x264 [?mode] p else p" and ?r1 = "if ?ph then r(0x264 := ?mode) else r"
  note dst = ce_address_eq[OF assms(1)]
  have modes: "memset_push_phys_mode dst p = (?ty, ?p1)" by (simp add: memset_push_phys_mode_def)
  have e1: "emits (cc_upper c) p r ?p1 [] ?r1"
    by (cases ?ph) (simp_all add: emits_refl emits_method_1)
  have fl1: "flag_set ?p1 g = flag_set p g" for g by simp
  have pat1: "remap_pattern ?r1 = ?pat" by (simp add: remap_pattern_upd)
  have "\<exists>ns r'. pieces (unat sz) ns \<and>
    emits (cc_upper c) ?p1 ?r1
      (memset_common_loop (cc_hal c) ?ty True (ce_address ?ph ?mode (gpu_address dst)) sz (of_nat (length (remap_pattern ?r1))) ?p1)
      (map Ce_transfer (fill_transfers (remap_pattern ?r1) (ce_address ?ph ?mode (gpu_address dst))
         (True \<and> flag_set ?p1 UVM_PUSH_FLAG_CE_NEXT_PIPELINED) ns)) r'"
    by (rule memset_loop_emits) (use assms pat1 in simp_all)
  then obtain ns r' where ns: "pieces (unat sz) ns" and e2: "emits (cc_upper c) ?p1 ?r1
      (memset_common_loop (cc_hal c) ?ty True dst sz (of_nat (length ?pat)) ?p1)
      (map Ce_transfer (fill_transfers ?pat dst (flag_set p UVM_PUSH_FLAG_CE_NEXT_PIPELINED) ns)) r'"
    unfolding pat1 dst fl1 simp_thms by blast
  let ?q = "memset_common_loop (cc_hal c) ?ty True dst sz (of_nat (length ?pat)) ?p1"
  let ?ts = "fill_transfers ?pat dst (flag_set p UVM_PUSH_FLAG_CE_NEXT_PIPELINED) ns"
  have "membar_actions c ?q = membar_actions c p" by (simp add: membar_actions_def memset_loop_flags)
  then have "emits (cc_upper c) p r (memset_common (cc_hal c) dst sz (of_nat (length ?pat)) p) (map Ce_transfer ?ts @ membar_actions c p) r'"
    using emits_trans[OF e1 emits_trans[OF e2 membar_after_emits]] modes by (simp add: memset_common_def)
  moreover have "ns \<noteq> []" "sum_list ns = unat sz" "\<forall>k \<in> set ns. k \<le> 0xFFFFFFFF" using ns by (auto simp: pieces_def)
  ultimately show ?thesis using fill_transfers_shape(1,3,4)[where ns = ns and pat = ?pat and dst = dst and pl = "flag_set p UVM_PUSH_FLAG_CE_NEXT_PIPELINED"]
    by (intro exI[of _ ?ts] exI[of _ r']) (auto simp: fill_transfers_run)
qed

lemma memcopy_performs:
  assumes "ce_address_ok dst" "unat (gpu_address dst) < 2 ^ cc_bits c" "unat (gpu_address dst) + unat sz \<le> 2 ^ cc_bits c"
    and "ce_address_ok src" "unat (gpu_address src) < 2 ^ cc_bits c" "unat (gpu_address src) + unat sz \<le> 2 ^ cc_bits c"
    and dis: "\<forall>i < unat sz. \<forall>j < unat sz. shift i dst \<noteq> shift j src"
  shows "ce_performs c p (\<lambda>m. write_bytes dst (read_bytes src (unat sz) m) m) (uvm_hal_kepler_ce_memcopy (cc_hal c) dst src sz p)"
  unfolding ce_performs_def
proof
  fix r
  let ?md = "ce_aperture (gpu_aperture dst)" and ?pd = "\<not> is_virtual dst"
  let ?ms = "ce_aperture (gpu_aperture src)" and ?ps = "\<not> is_virtual src"
  let ?ty = "DRF_DEF NVA0B5_LAUNCH_DMA_SRC_TYPE (if \<not> ?ps then 0 else 1) OR DRF_DEF NVA0B5_LAUNCH_DMA_DST_TYPE (if \<not> ?pd then 0 else 1)"
  note ad = ce_address_eq[OF assms(1)] ce_address_eq[OF assms(4)]
  obtain p1 where modes: "memcopy_push_phys_mode dst src p = (?ty, p1)" and fl: "\<And>g. flag_set p1 g = flag_set p g"
    and "\<exists>r1. emits (cc_upper c) p r p1 [] r1 \<and> (?pd \<longrightarrow> r1 0x264 = ?md) \<and> (?ps \<longrightarrow> r1 0x260 = ?ms)"
  proof
    show "memcopy_push_phys_mode dst src p = (?ty, snd (memcopy_push_phys_mode dst src p))"
      "flag_set (snd (memcopy_push_phys_mode dst src p)) g = flag_set p g" for g
      by (simp_all add: memcopy_push_phys_mode_def)
    show "\<exists>r1. emits (cc_upper c) p r (snd (memcopy_push_phys_mode dst src p)) [] r1 \<and> (?pd \<longrightarrow> r1 0x264 = ?md) \<and> (?ps \<longrightarrow> r1 0x260 = ?ms)"
    proof (cases "?ps"; cases "?pd")
      assume "?ps" "?pd"
      then show ?thesis using emits_modes[of "cc_upper c" p r ?ms ?md]
        by (intro exI[of _ "r(0x260 := ?ms, 0x264 := ?md)"]) (simp add: memcopy_push_phys_mode_def)
    next
      assume "?ps" "\<not> ?pd"
      then show ?thesis using emits_method_1[of "0x260" "cc_upper c" p r ?ms]
        by (intro exI[of _ "r(0x260 := ?ms)"]) (simp add: memcopy_push_phys_mode_def)
    next
      assume "\<not> ?ps" "?pd"
      then show ?thesis using emits_method_1[of "0x264" "cc_upper c" p r ?md]
        by (intro exI[of _ "r(0x264 := ?md)"]) (simp add: memcopy_push_phys_mode_def)
    next
      assume "\<not> ?ps" "\<not> ?pd"
      then show ?thesis by (intro exI[of _ r]) (simp add: memcopy_push_phys_mode_def emits_refl)
    qed
  qed
  then obtain r1 where r1: "emits (cc_upper c) p r p1 [] r1" "?pd \<longrightarrow> r1 0x264 = ?md" "?ps \<longrightarrow> r1 0x260 = ?ms" by blast
  obtain ns r' where ns: "pieces (unat sz) ns" and e2: "emits (cc_upper c) p1 r1
      (memcopy_loop (cc_hal c) ?ty True dst src sz p1)
      (map Ce_transfer (copy_transfers dst src (flag_set p UVM_PUSH_FLAG_CE_NEXT_PIPELINED) ns)) r'"
    using memcopy_loop_emits[OF assms(2,3,5,6) r1(2,3), of p1 True] unfolding ad fl by auto
  let ?q = "memcopy_loop (cc_hal c) ?ty True dst src sz p1"
  let ?ts = "copy_transfers dst src (flag_set p UVM_PUSH_FLAG_CE_NEXT_PIPELINED) ns"
  have "membar_actions c ?q = membar_actions c p" by (simp add: membar_actions_def memcopy_loop_flags fl)
  then have "emits (cc_upper c) p r (uvm_hal_kepler_ce_memcopy (cc_hal c) dst src sz p) (map Ce_transfer ?ts @ membar_actions c p) r'"
    using emits_trans[OF r1(1) emits_trans[OF e2 membar_after_emits]] modes by (simp add: uvm_hal_kepler_ce_memcopy_def)
  moreover have k: "ns \<noteq> []" "sum_list ns = unat sz" "\<forall>k \<in> set ns. k \<le> 0xFFFFFFFF" using ns by (auto simp: pieces_def)
  moreover have "fold run_transfer ?ts m = write_bytes dst (read_bytes src (unat sz) m) m" for m
    using copy_transfers_run[of ns dst src] dis k(2) by simp
  ultimately show "\<exists>ts r'. emits (cc_upper c) p r (uvm_hal_kepler_ce_memcopy (cc_hal c) dst src sz p) (map Ce_transfer ts @ membar_actions c p) r' \<and>
      ts \<noteq> [] \<and> tr_pipelined (hd ts) = flag_set p UVM_PUSH_FLAG_CE_NEXT_PIPELINED \<and> (\<forall>t \<in> set (tl ts). \<not> tr_pipelined t) \<and>
      (\<forall>t \<in> set ts. tr_length t \<le> 0xFFFFFFFF) \<and> (\<forall>m. fold run_transfer ts m = write_bytes dst (read_bytes src (unat sz) m) m)"
    using copy_transfers_shape[where ns = ns and dst = dst and src = src and pl = "flag_set p UVM_PUSH_FLAG_CE_NEXT_PIPELINED"]
    by (intro exI[of _ ?ts] exI[of _ r']) auto
qed

end

context ce_class_laws begin

text \<open>A fill once methods without an action have set the pattern.\<close>

lemma pattern_performs:
  assumes "ce_address_ok dst" "unat (gpu_address dst) < 2 ^ cc_bits c"
    and "unat (gpu_address dst) + unat n * length pat \<le> 2 ^ cc_bits c" "pat \<noteq> []"
    and q: "\<And>r. \<exists>r'. emits (cc_upper c) p r q [] r' \<and> remap_pattern r' = pat" and fl: "\<And>g. flag_set q g = flag_set p g"
  shows "ce_performs c p (write_bytes dst (concat (replicate (unat n) pat))) (memset_common (cc_hal c) dst n (of_nat (length pat)) q)"
  unfolding ce_performs_def
proof
  fix r :: ce_regs
  obtain r' where r': "emits (cc_upper c) p r q [] r'" "remap_pattern r' = pat" using q by blast
  have mem: "membar_actions c q = membar_actions c p" by (simp add: membar_actions_def fl)
  obtain ts r'' where ts: "emits (cc_upper c) q r' (memset_common (cc_hal c) dst n (of_nat (length pat)) q)
      (map Ce_transfer ts @ membar_actions c p) r''" "ts \<noteq> []"
    "tr_pipelined (hd ts) = flag_set p UVM_PUSH_FLAG_CE_NEXT_PIPELINED" "\<forall>t \<in> set (tl ts). \<not> tr_pipelined t"
    "\<forall>t \<in> set ts. tr_length t \<le> 0xFFFFFFFF" "\<forall>m. fold run_transfer ts m = write_bytes dst (concat (replicate (unat n) pat)) m"
    using memset_common_performs[OF assms(1,2), of r' n q, unfolded r'(2) fl mem, OF assms(4,3)] by blast
  have "emits (cc_upper c) p r (memset_common (cc_hal c) dst n (of_nat (length pat)) q) (map Ce_transfer ts @ membar_actions c p) r''"
    using emits_trans[OF r'(1) ts(1)] by simp
  then show "\<exists>ts r'. emits (cc_upper c) p r (memset_common (cc_hal c) dst n (of_nat (length pat)) q) (map Ce_transfer ts @ membar_actions c p) r' \<and>
      ts \<noteq> [] \<and> tr_pipelined (hd ts) = flag_set p UVM_PUSH_FLAG_CE_NEXT_PIPELINED \<and> (\<forall>t \<in> set (tl ts). \<not> tr_pipelined t) \<and>
      (\<forall>t \<in> set ts. tr_length t \<le> 0xFFFFFFFF) \<and> (\<forall>m. fold run_transfer ts m = write_bytes dst (concat (replicate (unat n) pat)) m)"
    using ts(2-6) by blast
qed

lemma memset_performs:
  assumes "ce_address_ok dst" "unat (gpu_address dst) < 2 ^ cc_bits c" "unat (gpu_address dst) + unat sz \<le> 2 ^ cc_bits c"
  shows "ce_performs c p (write_bytes dst (replicate (unat sz) b)) (uvm_hal_kepler_ce_memset_1 (cc_hal c) dst b sz p)"
    and "ce_performs c p (write_bytes dst (concat (replicate (unat sz div 4) (bytes_of_32 w)))) (uvm_hal_kepler_ce_memset_4 (cc_hal c) dst w sz p)"
    and "ce_performs c p (write_bytes dst (concat (replicate (unat sz div 8) (bytes_of v)))) (uvm_hal_kepler_ce_memset_8 (cc_hal c) dst v sz p)"
proof -
  have len: "length (bytes_of_32 x) = 4" for x by (simp add: bytes_of_32_def)
  have d: "unat (sz div 4) = unat sz div 4" "unat (sz div 8) = unat sz div 8" by (simp_all add: unat_div)
  have le: "unat sz div 4 * 4 \<le> unat sz" "unat sz div 8 * 8 \<le> unat sz" by simp_all
  have one: "concat (replicate n [b]) = replicate n b" for n by (induction n) auto
  have two: "emits (cc_upper c) p r (hp_method 0x708 [y] (hp_method 0x700 [x] p)) ([] @ []) (r(0x700 := x, 0x708 := y))" for r x y
    by (rule emits_trans[OF emits_method_1 emits_method_1]) simp_all
  have "ce_performs c p (write_bytes dst (concat (replicate (unat sz) [b])))
      (memset_common (cc_hal c) dst sz (of_nat (length [b])) (hp_method 0x708 [4] (hp_method 0x700 [ucast b] p)))"
  proof (rule pattern_performs)
    fix r :: ce_regs
    show "\<exists>r'. emits (cc_upper c) p r (hp_method 0x708 [4] (hp_method 0x700 [ucast b] p)) [] r' \<and> remap_pattern r' = [b]"
      using two[of r 4 "ucast b"] by (intro exI[of _ "r(0x700 := ucast b, 0x708 := 4)"]) (simp add: remap_patterns(1)[of _ b])
  qed (use assms in simp_all)
  then show "ce_performs c p (write_bytes dst (replicate (unat sz) b)) (uvm_hal_kepler_ce_memset_1 (cc_hal c) dst b sz p)"
    by (simp add: uvm_hal_kepler_ce_memset_1_def no_match one)
  have "ce_performs c p (write_bytes dst (concat (replicate (unat (sz div 4)) (bytes_of_32 w))))
      (memset_common (cc_hal c) dst (sz div 4) (of_nat (length (bytes_of_32 w))) (hp_method 0x708 [0x30004] (hp_method 0x700 [w] p)))"
  proof (rule pattern_performs)
    fix r :: ce_regs
    show "\<exists>r'. emits (cc_upper c) p r (hp_method 0x708 [0x30004] (hp_method 0x700 [w] p)) [] r' \<and> remap_pattern r' = bytes_of_32 w"
      using two[of r "0x30004" w] by (intro exI[of _ "r(0x700 := w, 0x708 := 0x30004)"]) (simp add: remap_patterns(2))
    show "bytes_of_32 w \<noteq> []" using len[of w] by auto
    show "unat (gpu_address dst) + unat (sz div 4) * length (bytes_of_32 w) \<le> 2 ^ cc_bits c"
      using assms(3) le(1) by (simp add: d len)
  qed (use assms in simp_all)
  then show "ce_performs c p (write_bytes dst (concat (replicate (unat sz div 4) (bytes_of_32 w)))) (uvm_hal_kepler_ce_memset_4 (cc_hal c) dst w sz p)"
    by (simp add: uvm_hal_kepler_ce_memset_4_def no_match d len)
  have "ce_performs c p (write_bytes dst (concat (replicate (unat (sz div 8)) (bytes_of v))))
      (memset_common (cc_hal c) dst (sz div 8) (of_nat (length (bytes_of v))) (hp_method 0x700 [ucast v, ucast (drop_bit 32 v), 0x1030054] p))"
  proof (rule pattern_performs)
    fix r :: ce_regs
    let ?r = "r(0x700 := ucast v, 0x704 := ucast (drop_bit 32 v), 0x708 := 0x1030054)"
    have "remap_pattern ?r = bytes_of v" by (subst remap_patterns(3)) (simp_all add: two_halves_bytes)
    then show "\<exists>r'. emits (cc_upper c) p r (hp_method 0x700 [ucast v, ucast (drop_bit 32 v), 0x1030054] p) [] r' \<and> remap_pattern r' = bytes_of v"
      using emits_remap_8 by blast
    show "bytes_of v \<noteq> []" by (simp add: bytes_of_def)
    show "unat (gpu_address dst) + unat (sz div 8) * length (bytes_of v) \<le> 2 ^ cc_bits c"
      using assms(3) le(2) by (simp add: d)
  qed (use assms in simp_all)
  then show "ce_performs c p (write_bytes dst (concat (replicate (unat sz div 8) (bytes_of v)))) (uvm_hal_kepler_ce_memset_8 (cc_hal c) dst v sz p)"
    by (simp add: uvm_hal_kepler_ce_memset_8_def no_match d)
qed

end

section \<open>Properties\<close>

text \<open>
  C13. Fills of any size do on the hardware what the page table code assumes of them. The methods of a
  1-, 4- or 8-byte fill are read back as transfers of at most 0xFFFFFFFF elements each that together
  have the effect of one fill of the whole range (for 8 bytes, that of the operation a PTE batch
  records), of which only the first may be pipelined, then the membar the flags ask for.
\<close>

theorem ce_memset_correct:
  assumes "c \<in> set ce_classes" "ce_address_ok dst" "unat (gpu_address dst) < 2 ^ cc_bits c"
    and "unat (gpu_address dst) + unat sz \<le> 2 ^ cc_bits c"
  shows "ce_performs c p (write_bytes dst (replicate (unat sz) b)) (uvm_hal_kepler_ce_memset_1 (cc_hal c) dst b sz p) \<and>
    ce_performs c p (write_bytes dst (concat (replicate (unat sz div 4) (bytes_of_32 w)))) (uvm_hal_kepler_ce_memset_4 (cc_hal c) dst w sz p) \<and>
    ce_performs c p (run_op (Ce_memset_8 dst v sz flags)) (uvm_hal_kepler_ce_memset_8 (cc_hal c) dst v sz p)"
proof -
  have "run_op (Ce_memset_8 dst v sz flags) = write_bytes dst (concat (replicate (unat sz div 8) (bytes_of v)))"
    by (rule ext) simp
  then show ?thesis using ce_class_laws.memset_performs[OF ce_classes_laws[OF assms(1)] assms(2-4)] by simp
qed

definition sample_hal_push :: hal_push where
  "sample_hal_push = \<lparr>hp_push = zero_push, hp_words = []\<rparr>"

lemma ce_memset_correct_witness:
  "ce_performs pascal_ce sample_hal_push (run_op (Ce_memset_8 (uvm_gpu_address_physical UVM_APERTURE_VID 0x1000) 7 0xa00000000 []))
     (uvm_hal_kepler_ce_memset_8 (cc_hal pascal_ce) (uvm_gpu_address_physical UVM_APERTURE_VID 0x1000) 7 0xa00000000 sample_hal_push)"
proof -
  have "pascal_ce \<in> set ce_classes" "cc_bits pascal_ce = 49" by (simp_all add: ce_classes_def pascal_ce_def)
  moreover have "ce_address_ok (uvm_gpu_address_physical UVM_APERTURE_VID 0x1000)"
    by (simp add: ce_address_ok_def uvm_gpu_address_physical_def)
  moreover have "unat (gpu_address (uvm_gpu_address_physical UVM_APERTURE_VID 0x1000)) < 2 ^ 49"
    "unat (gpu_address (uvm_gpu_address_physical UVM_APERTURE_VID 0x1000)) + unat (0xa00000000 :: u64) \<le> 2 ^ 49"
    by (simp_all add: uvm_gpu_address_physical_def)
  ultimately show ?thesis
    using ce_memset_correct[of pascal_ce "uvm_gpu_address_physical UVM_APERTURE_VID 0x1000" "0xa00000000"] by metis
qed

text \<open>
  C17. Copies of any size copy. The methods of a copy between ranges that do not overlap are read back as
  transfers of at most 0xFFFFFFFF bytes that together write to the destination the bytes the source
  held at the start, of which only the first may be pipelined, then the membar the flags ask for.
\<close>

theorem ce_memcopy_correct:
  assumes "c \<in> set ce_classes"
    and "ce_address_ok dst" "unat (gpu_address dst) < 2 ^ cc_bits c" "unat (gpu_address dst) + unat sz \<le> 2 ^ cc_bits c"
    and "ce_address_ok src" "unat (gpu_address src) < 2 ^ cc_bits c" "unat (gpu_address src) + unat sz \<le> 2 ^ cc_bits c"
    and "\<forall>i < unat sz. \<forall>j < unat sz. shift i dst \<noteq> shift j src"
  shows "ce_performs c p (\<lambda>m. write_bytes dst (read_bytes src (unat sz) m) m) (uvm_hal_kepler_ce_memcopy (cc_hal c) dst src sz p)"
  using ce_class_laws.memcopy_performs[OF ce_classes_laws[OF assms(1)] assms(2-8)] .

lemma ce_memcopy_correct_witness:
  "ce_performs kepler_ce sample_hal_push
     (\<lambda>m. write_bytes (uvm_gpu_address_virtual 0x1000) (read_bytes (uvm_gpu_address_physical UVM_APERTURE_SYS 0x1000) 0x200000000 m) m)
     (uvm_hal_kepler_ce_memcopy (cc_hal kepler_ce) (uvm_gpu_address_virtual 0x1000) (uvm_gpu_address_physical UVM_APERTURE_SYS 0x1000)
        0x200000000 sample_hal_push)"
proof -
  have "kepler_ce \<in> set ce_classes" "cc_bits kepler_ce = 40" by (simp_all add: ce_classes_def kepler_ce_def)
  moreover have "ce_address_ok (uvm_gpu_address_virtual 0x1000)" "ce_address_ok (uvm_gpu_address_physical UVM_APERTURE_SYS 0x1000)"
    by (simp_all add: ce_address_ok_def uvm_gpu_address_physical_def uvm_gpu_address_virtual_def)
  moreover have "gpu_address (uvm_gpu_address_virtual 0x1000) = 0x1000" "gpu_address (uvm_gpu_address_physical UVM_APERTURE_SYS 0x1000) = 0x1000"
    "unat (0x1000 :: u64) = 0x1000" "unat (0x200000000 :: u64) = 0x200000000"
    by (simp_all add: uvm_gpu_address_physical_def uvm_gpu_address_virtual_def)
  moreover have "shift i (uvm_gpu_address_virtual 0x1000) \<noteq> shift j (uvm_gpu_address_physical UVM_APERTURE_SYS 0x1000)" for i j
    by (simp add: shift_def uvm_gpu_address_physical_def uvm_gpu_address_virtual_def)
  ultimately show ?thesis
    using ce_memcopy_correct[of kepler_ce "uvm_gpu_address_virtual 0x1000" "0x200000000" "uvm_gpu_address_physical UVM_APERTURE_SYS 0x1000" sample_hal_push]
    by simp
qed

end
