(* ===== verification/Page_Tree.thy ===== *)
theory Page_Tree
  imports Mmu_Format
begin

text \<open>
  \<^verbatim>\<open>uvm8_mmu.c\<close>: the tree of page directories of one virtual address space, kept on the host and
  written to the GPU by pushes. A caller gets the entries that map a range of addresses, which links
  the missing directories into the tree, and puts them back, which unlinks and frees the directories
  no other range needs.

  Directories are identified by numbers, a page tree holds the store of them. Pushes record the
  operations of \<open>Gpu_Types\<close>; how a push begins and what allocations return are arguments. Each critical
  section under the tree's lock is one step, and what other threads do between two of them is an
  argument. Shown: the invariant of the tree, that a failed attempt leaves it as it was, and that its
  directories are exactly those the held ranges need.
\<close>

section \<open>Data\<close>

type_synonym dir_id = nat

definition MAX_OPERATION_DEPTH :: nat where
  "MAX_OPERATION_DEPTH = 4"

record uvm_page_directory =
  host_parent :: "dir_id option"
  index_in_parent :: u32
  phys_alloc :: uvm_mmu_page_table_alloc
  ref_count :: u32
  dir_depth :: u32
  dir_entries :: "dir_id option list"

record uvm_page_table_range =
  rg_table :: dir_id
  rg_start_index :: u32
  rg_entry_count :: u32
  rg_page_size :: u32

text \<open>
  \<open>pt_fake\<close>: the GPU has no channel manager. \<open>pt_pushes\<close> are the pushes submitted and \<open>pt_freed\<close> the
  handles of the memory given back, each with the tracker its next user has to wait for, if any.
\<close>

record uvm_page_tree =
  pt_dirs :: "dir_id \<Rightarrow> uvm_page_directory option"
  pt_root :: dir_id
  pt_hal :: uvm_mmu_mode_hal
  pt_big_page_size :: u32
  pt_location :: uvm_aperture
  pt_tracker :: uvm_tracker
  pt_fake :: bool
  pt_pushes :: "ce_push list"
  pt_freed :: "(nat \<times> uvm_tracker option) list"

text \<open>
  What \<^verbatim>\<open>uvm_kvmalloc_zero\<close>, \<^verbatim>\<open>alloc_pages\<close> (a page and its address) and \<^verbatim>\<open>uvm_pmm_gpu_alloc_kernel\<close> (a
  status, a chunk and its address, the work it still has to wait for) return for one directory, and
  what adding that work to the tree's tracker meets.
\<close>

record alloc_outcome =
  ao_dir :: "dir_id option"
  ao_page :: "(nat \<times> u64) option"
  ao_chunk :: "nv_status \<times> nat \<times> u64 \<times> uvm_tracker"
  ao_kv :: "nat \<Rightarrow> kv_alloc"
  ao_env :: "nat \<Rightarrow> snapshot"

text \<open>How beginning a push ends, what its acquire sees as completed, and the tracker's allocations.\<close>

record begin_outcome =
  bg_status :: nv_status
  bg_push :: uvm_push
  bg_snapshot :: snapshot
  bg_kv :: kv_alloc

definition dir :: "uvm_page_tree \<Rightarrow> dir_id \<Rightarrow> uvm_page_directory" where
  "dir t d = the (pt_dirs t d)"

definition upd_dir :: "dir_id \<Rightarrow> (uvm_page_directory \<Rightarrow> uvm_page_directory) \<Rightarrow> uvm_page_tree \<Rightarrow> uvm_page_tree" where
  "upd_dir d f t = t\<lparr>pt_dirs := (pt_dirs t)(d := Some (f (dir t d)))\<rparr>"

definition kvfree_dir :: "dir_id \<Rightarrow> uvm_page_tree \<Rightarrow> uvm_page_tree" where
  "kvfree_dir d t = t\<lparr>pt_dirs := (pt_dirs t)(d := None)\<rparr>"

definition uvm_page_tree_pdb :: "uvm_page_tree \<Rightarrow> uvm_mmu_page_table_alloc" where
  "uvm_page_tree_pdb t = phys_alloc (dir t (pt_root t))"

section \<open>The location of page tables\<close>

definition uvm_mmu_init :: "string option \<Rightarrow> uvm_aperture \<Rightarrow> nv_status \<times> uvm_aperture" where
  "uvm_mmu_init uvm_page_table_location page_table_aperture =
     (case uvm_page_table_location of
        None \<Rightarrow> (NV_OK, page_table_aperture)
      | Some l \<Rightarrow>
          if l = ''vid'' then (NV_OK, UVM_APERTURE_VID)
          else if l = ''sys'' then (NV_OK, UVM_APERTURE_SYS)
          else (NV_OK, page_table_aperture))"

definition page_tree_pick_location_for_dir :: "uvm_aperture \<Rightarrow> uvm_page_tree \<Rightarrow> uvm_aperture" where
  "page_tree_pick_location_for_dir page_table_aperture t =
     (if pt_location t \<noteq> UVM_APERTURE_DEFAULT then pt_location t else page_table_aperture)"

section \<open>Memory of directories\<close>

definition zero_alloc :: uvm_mmu_page_table_alloc where
  "zero_alloc = \<lparr>alloc_addr = \<lparr>phys_address = 0, phys_aperture = UVM_APERTURE_PEER 0\<rparr>, alloc_size = 0, alloc_handle = 0\<rparr>"

definition phys_mem_allocate_sysmem ::
  "alloc_outcome \<Rightarrow> u64 \<Rightarrow> uvm_mmu_page_table_alloc \<Rightarrow> nv_status \<times> uvm_mmu_page_table_alloc" where
  "phys_mem_allocate_sysmem oc size' out =
     (case ao_page oc of
        None \<Rightarrow> (NV_ERR_NO_MEMORY, out\<lparr>alloc_handle := 0\<rparr>)
      | Some (page, phys) \<Rightarrow>
          (NV_OK, out\<lparr>alloc_handle := page,
             alloc_addr := \<lparr>phys_address = phys, phys_aperture = UVM_APERTURE_SYS\<rparr>, alloc_size := size'\<rparr>))"

text \<open>Tracker 0 is the tree's, tracker 1 the local one of the call.\<close>

definition phys_mem_allocate_vidmem ::
  "nat \<Rightarrow> alloc_outcome \<Rightarrow> uvm_page_tree \<Rightarrow> u64 \<Rightarrow> uvm_mmu_page_table_alloc \<Rightarrow>
   (nv_status \<times> uvm_mmu_page_table_alloc \<times> uvm_page_tree) option" where
  "phys_mem_allocate_vidmem fuel oc t size' out =
     (let (status, chunk, address, local_tracker) = ao_chunk oc;
          out = out\<lparr>alloc_handle := chunk\<rparr>
      in if status \<noteq> NV_OK then Some (status, out, t)
         else
           (case (if \<not> uvm_tracker_is_empty local_tracker then
                    map_option (\<lambda>(status, st). (status, t\<lparr>pt_tracker := st 0\<rparr>))
                      (uvm_tracker_add_tracker_safe (ao_kv oc) (ao_env oc) fuel
                        (\<lambda>i. if i = 0 then pt_tracker t else local_tracker) 0 1)
                  else Some (NV_OK, t)) of
              None \<Rightarrow> None
            | Some (status, t) \<Rightarrow>
                if status \<noteq> NV_OK then Some (status, out, t\<lparr>pt_freed := pt_freed t @ [(chunk, None)]\<rparr>)
                else Some (NV_OK, out\<lparr>alloc_addr := \<lparr>phys_address = address, phys_aperture = UVM_APERTURE_VID\<rparr>,
                                      alloc_size := size'\<rparr>, t)))"

definition phys_mem_allocate ::
  "nat \<Rightarrow> alloc_outcome \<Rightarrow> uvm_page_tree \<Rightarrow> u64 \<Rightarrow> uvm_aperture \<Rightarrow>
   (nv_status \<times> uvm_mmu_page_table_alloc \<times> uvm_page_tree) option" where
  "phys_mem_allocate fuel oc t size' location =
     (if location = UVM_APERTURE_SYS then
        (let (status, out) = phys_mem_allocate_sysmem oc size' zero_alloc in Some (status, out, t))
      else phys_mem_allocate_vidmem fuel oc t size' zero_alloc)"

definition phys_mem_deallocate_vidmem :: "uvm_mmu_page_table_alloc \<Rightarrow> uvm_page_tree \<Rightarrow> uvm_page_tree" where
  "phys_mem_deallocate_vidmem a t = t\<lparr>pt_freed := pt_freed t @ [(alloc_handle a, Some (pt_tracker t))]\<rparr>"

definition phys_mem_deallocate_sysmem :: "uvm_mmu_page_table_alloc \<Rightarrow> uvm_page_tree \<Rightarrow> uvm_page_tree" where
  "phys_mem_deallocate_sysmem a t = t\<lparr>pt_freed := pt_freed t @ [(alloc_handle a, None)]\<rparr>"

definition phys_mem_deallocate :: "dir_id \<Rightarrow> uvm_page_tree \<Rightarrow> uvm_page_tree" where
  "phys_mem_deallocate d t =
     (let a = phys_alloc (dir t d);
          t = (if phys_aperture (alloc_addr a) = UVM_APERTURE_SYS then phys_mem_deallocate_sysmem a t
               else phys_mem_deallocate_vidmem a t)
      in upd_dir d (\<lambda>r. r\<lparr>phys_alloc := zero_alloc\<rparr>) t)"

definition page_table_range_init ::
  "u32 \<Rightarrow> dir_id \<Rightarrow> u32 \<Rightarrow> u32 \<Rightarrow> uvm_page_tree \<Rightarrow> uvm_page_table_range \<times> uvm_page_tree" where
  "page_table_range_init page_size d start_index end_index t =
     (let entry_count = 1 + end_index - start_index
      in (\<lparr>rg_table = d, rg_start_index = start_index, rg_entry_count = entry_count, rg_page_size = page_size\<rparr>,
          upd_dir d (\<lambda>r. r\<lparr>ref_count := ref_count r + entry_count\<rparr>) t))"

definition phys_mem_init :: "uvm_page_tree \<Rightarrow> u32 \<Rightarrow> dir_id \<Rightarrow> ce_push \<Rightarrow> ce_push" where
  "phys_mem_init t page_size d push =
     (let r = dir t d; hal = pt_hal t;
          clear_bits = (if dir_depth r = hal_page_table_depth hal page_size then [0]
                        else hal_make_pde hal [None, None] (dir_depth r))
      in emit_ce (Ce_memset_8 (uvm_gpu_address_from_phys (alloc_addr (phys_alloc r))) (clear_bits ! 0)
           (alloc_size (phys_alloc r))) push)"

section \<open>Directories and their entries\<close>

definition dir_entry_count :: "uvm_mmu_mode_hal \<Rightarrow> u32 \<Rightarrow> u32 \<Rightarrow> u32" where
  "dir_entry_count hal depth page_size =
     (if depth = hal_page_table_depth hal UVM_PAGE_SIZE_AGNOSTIC then 0
      else push_bit (unat (hal_index_bits hal depth page_size)) (hal_entries_per_index hal depth))"

definition allocate_directory_with_location ::
  "nat \<Rightarrow> alloc_outcome \<Rightarrow> uvm_page_tree \<Rightarrow> u32 \<Rightarrow> u32 \<Rightarrow> uvm_aperture \<Rightarrow> (dir_id option \<times> uvm_page_tree) option" where
  "allocate_directory_with_location fuel oc t page_size depth location =
     (let hal = pt_hal t;
          phys_alloc_size = hal_allocation_size hal depth page_size;
          entry_count = dir_entry_count hal depth page_size
      in case ao_dir oc of
           None \<Rightarrow> Some (None, t)
         | Some d \<Rightarrow>
             (case phys_mem_allocate fuel oc t phys_alloc_size location of
                None \<Rightarrow> None
              | Some (status, a, t) \<Rightarrow>
                  if status \<noteq> NV_OK then Some (None, t)
                  else Some (Some d,
                    t\<lparr>pt_dirs := (pt_dirs t)(d := Some
                        \<lparr>host_parent = None, index_in_parent = 0, phys_alloc = a, ref_count = 0, dir_depth = depth,
                         dir_entries = replicate (unat entry_count) None\<rparr>)\<rparr>)))"

definition allocate_directory ::
  "uvm_aperture \<Rightarrow> nat \<Rightarrow> alloc_outcome \<Rightarrow> uvm_page_tree \<Rightarrow> u32 \<Rightarrow> u32 \<Rightarrow> (dir_id option \<times> uvm_page_tree) option" where
  "allocate_directory page_table_aperture fuel oc t page_size depth =
     allocate_directory_with_location fuel oc t page_size depth
       (page_tree_pick_location_for_dir page_table_aperture t)"

definition index_to_entry :: "uvm_mmu_mode_hal \<Rightarrow> u32 \<Rightarrow> u32 \<Rightarrow> u32 \<Rightarrow> u32" where
  "index_to_entry hal entry_index depth page_size =
     hal_entries_per_index hal depth * entry_index + ucast (hal_entry_offset hal depth page_size)"

definition host_pde_write :: "dir_id \<Rightarrow> dir_id \<Rightarrow> u32 \<Rightarrow> uvm_page_tree \<Rightarrow> uvm_page_tree" where
  "host_pde_write d parent index t =
     (let t = upd_dir d (\<lambda>r. r\<lparr>host_parent := Some parent\<rparr>) t;
          t = upd_dir d (\<lambda>r. r\<lparr>index_in_parent := index\<rparr>) t
      in upd_dir parent (\<lambda>r. r\<lparr>ref_count := ref_count r + 1\<rparr>) t)"

definition set_entry :: "dir_id \<Rightarrow> u32 \<Rightarrow> dir_id option \<Rightarrow> uvm_page_tree \<Rightarrow> uvm_page_tree" where
  "set_entry d e v t = upd_dir d (\<lambda>r. r\<lparr>dir_entries := (dir_entries r)[unat e := v]\<rparr>) t"

definition take_flag :: "ce_push \<Rightarrow> uvm_push_flag \<Rightarrow> bool \<times> ce_push" where
  "take_flag p flag = (let (b, q) = uvm_push_get_and_reset_flag (cp_push p) flag in (b, p\<lparr>cp_push := q\<rparr>))"

definition take_membar_flag :: "ce_push \<Rightarrow> uvm_push_flag option \<times> ce_push" where
  "take_membar_flag push =
     (let (none, push) = take_flag push UVM_PUSH_FLAG_CE_NEXT_MEMBAR_NONE
      in if none then (Some UVM_PUSH_FLAG_CE_NEXT_MEMBAR_NONE, push)
         else let (gpu, push) = take_flag push UVM_PUSH_FLAG_CE_NEXT_MEMBAR_GPU
              in (if gpu then Some UVM_PUSH_FLAG_CE_NEXT_MEMBAR_GPU else None, push))"

fun pde_write_loop ::
  "uvm_aperture \<Rightarrow> u64 \<Rightarrow> uvm_push_flag option \<Rightarrow> nat \<Rightarrow> nat \<Rightarrow> u64 list \<Rightarrow> ce_push \<Rightarrow> ce_push" where
  "pde_write_loop ap dev_entry membar_flag memset_count i [] push = push"
| "pde_write_loop ap dev_entry membar_flag memset_count i (b # bs) push =
     (let push = (if i \<noteq> 0 then set_flag push UVM_PUSH_FLAG_CE_NEXT_PIPELINED else push);
          push = (if i \<noteq> memset_count - 1 then set_flag push UVM_PUSH_FLAG_CE_NEXT_MEMBAR_NONE
                  else (case membar_flag of None \<Rightarrow> push | Some f \<Rightarrow> set_flag push f));
          push = emit_ce (Ce_memset_8 (uvm_gpu_address_physical ap (dev_entry + 8 * of_nat i)) b 8) push
      in pde_write_loop ap dev_entry membar_flag memset_count (Suc i) bs push)"

definition pde_allocs :: "uvm_page_tree \<Rightarrow> dir_id \<Rightarrow> u32 \<Rightarrow> bool \<Rightarrow> uvm_mmu_page_table_alloc option list" where
  "pde_allocs t d entry_index force_clear =
     (let entries_per_index = hal_entries_per_index (pt_hal t) (dir_depth (dir t d))
      in map (\<lambda>i. case dir_entries (dir t d) ! unat (entries_per_index * entry_index + of_nat i) of
                    None \<Rightarrow> None
                  | Some c \<Rightarrow> if force_clear then None else Some (phys_alloc (dir t c)))
           [0..<unat entries_per_index])"

definition pde_write :: "uvm_page_tree \<Rightarrow> dir_id \<Rightarrow> u32 \<Rightarrow> bool \<Rightarrow> ce_push \<Rightarrow> ce_push" where
  "pde_write t d entry_index force_clear push =
     (let hal = pt_hal t; r = dir t d;
          dev_entry = phys_address (alloc_addr (phys_alloc r)) + hal_entry_size hal (dir_depth r) * ucast entry_index;
          memset_count = unat (hal_entry_size hal (dir_depth r) div 8);
          entry_bits = hal_make_pde hal (pde_allocs t d entry_index force_clear) (dir_depth r);
          (membar_flag, push) = take_membar_flag push
      in pde_write_loop (phys_aperture (alloc_addr (phys_alloc r))) dev_entry membar_flag memset_count 0
           (take memset_count entry_bits) push)"

definition host_pde_clear :: "dir_id \<Rightarrow> u32 \<Rightarrow> u32 \<Rightarrow> uvm_page_tree \<Rightarrow> uvm_page_tree" where
  "host_pde_clear d entry_index page_size t =
     (let t = set_entry d (index_to_entry (pt_hal t) entry_index (dir_depth (dir t d)) page_size) None t
      in upd_dir d (\<lambda>r. r\<lparr>ref_count := ref_count r - 1\<rparr>) t)"

definition pde_clear :: "dir_id \<Rightarrow> u32 \<Rightarrow> u32 \<Rightarrow> ce_push \<Rightarrow> uvm_page_tree \<Rightarrow> ce_push \<times> uvm_page_tree" where
  "pde_clear d entry_index page_size push t =
     (let t = host_pde_clear d entry_index page_size t in (pde_write t d entry_index False push, t))"

section \<open>Pushes of the tree\<close>

definition page_tree_begin_acquire ::
  "begin_outcome \<Rightarrow> uvm_page_tree \<Rightarrow> uvm_tracker \<Rightarrow> nv_status \<times> ce_push \<times> uvm_tracker" where
  "page_tree_begin_acquire bg t tracker =
     (bg_status bg, \<lparr>cp_push = bg_push bg, cp_ops = []\<rparr>,
      if bg_status bg = NV_OK \<and> \<not> pt_fake t then uvm_tracker_remove_completed (bg_snapshot bg) tracker else tracker)"

text \<open>The acquire of the tree's own tracker.\<close>

definition begin_acquire_tree :: "begin_outcome \<Rightarrow> uvm_page_tree \<Rightarrow> nv_status \<times> ce_push \<times> uvm_page_tree" where
  "begin_acquire_tree bg t =
     (let (status, push, tracker) = page_tree_begin_acquire bg t (pt_tracker t)
      in (status, push, t\<lparr>pt_tracker := tracker\<rparr>))"

definition page_tree_end :: "ce_push \<Rightarrow> uvm_page_tree \<Rightarrow> uvm_page_tree" where
  "page_tree_end push t = t\<lparr>pt_pushes := pt_pushes t @ [push]\<rparr>"

definition page_tree_tracker_overwrite_with_push :: "kv_alloc \<Rightarrow> ce_push \<Rightarrow> uvm_page_tree \<Rightarrow> uvm_page_tree" where
  "page_tree_tracker_overwrite_with_push kv push t =
     (if pt_fake t then t
      else t\<lparr>pt_tracker := uvm_tracker_overwrite_with_push kv (pt_tracker t) (cp_push push)\<rparr>)"

definition page_tree_end_and_wait ::
  "(nat \<Rightarrow> snapshot) \<Rightarrow> nat \<Rightarrow> ce_push \<Rightarrow> uvm_page_tree \<Rightarrow> (nv_status \<times> uvm_page_tree) option" where
  "page_tree_end_and_wait env fuel push t =
     (let t' = page_tree_end push t
      in if pt_fake t then Some (NV_OK, t')
         else map_option (\<lambda>status. (status, t')) (uvm_push_wait env fuel (cp_push push)))"

definition tlb_invalidate_all :: "ce_push \<Rightarrow> uvm_gpu_phys_address \<Rightarrow> u32 \<Rightarrow> uvm_membar \<Rightarrow> ce_push" where
  "tlb_invalidate_all push pdb depth membar = emit_host (Host_tlb_invalidate_all pdb depth membar) push"

text \<open>Clear new tables, then write the entries that lead to them.\<close>

definition is_sys :: "uvm_page_tree \<Rightarrow> dir_id \<Rightarrow> bool" where
  "is_sys t d \<longleftrightarrow> phys_aperture (alloc_addr (phys_alloc (dir t d))) = UVM_APERTURE_SYS"

fun init_tables :: "uvm_page_tree \<Rightarrow> u32 \<Rightarrow> dir_id list \<Rightarrow> ce_push \<Rightarrow> uvm_membar \<Rightarrow> ce_push \<times> uvm_membar" where
  "init_tables t page_size [] push membar = (push, membar)"
| "init_tables t page_size (d # ds) push membar =
     (let push = set_flag push UVM_PUSH_FLAG_CE_NEXT_PIPELINED;
          push = set_flag push UVM_PUSH_FLAG_CE_NEXT_MEMBAR_NONE;
          push = phys_mem_init t page_size d push
      in init_tables t page_size ds push (if is_sys t d then UVM_MEMBAR_SYS else membar))"

fun write_pdes :: "uvm_page_tree \<Rightarrow> dir_id list \<Rightarrow> ce_push \<Rightarrow> uvm_membar \<Rightarrow> ce_push \<times> uvm_membar" where
  "write_pdes t [] push membar = (push, membar)"
| "write_pdes t (d # ds) push membar =
     (let parent = the (host_parent (dir t d));
          push = set_flag push UVM_PUSH_FLAG_CE_NEXT_PIPELINED;
          push = set_flag push UVM_PUSH_FLAG_CE_NEXT_MEMBAR_NONE;
          push = pde_write t parent (index_in_parent (dir t d)) False push
      in write_pdes t ds push (if is_sys t parent then UVM_MEMBAR_SYS else membar))"

definition gpu_state_push :: "uvm_page_tree \<Rightarrow> u32 \<Rightarrow> u32 \<Rightarrow> dir_id list \<Rightarrow> ce_push \<Rightarrow> ce_push" where
  "gpu_state_push t page_size invalidate_depth dirs_used push =
     (let (push, membar_after_writes) = init_tables t page_size dirs_used push UVM_MEMBAR_GPU;
          push = emit_host Host_wait_for_idle push;
          push = uvm_hal_membar push membar_after_writes;
          (push, membar_after_writes) = write_pdes t (rev dirs_used) push UVM_MEMBAR_GPU;
          push = emit_host Host_wait_for_idle push;
          push = uvm_hal_membar push membar_after_writes;
          push = tlb_invalidate_all push (alloc_addr (uvm_page_tree_pdb t)) invalidate_depth UVM_MEMBAR_NONE
      in set_flag push UVM_PUSH_FLAG_CE_NEXT_MEMBAR_NONE)"

definition write_gpu_state ::
  "begin_outcome \<Rightarrow> u32 \<Rightarrow> u32 \<Rightarrow> dir_id list \<Rightarrow> uvm_page_tree \<Rightarrow> nv_status \<times> uvm_page_tree" where
  "write_gpu_state bg page_size invalidate_depth dirs_used t =
     (if dirs_used = [] then (NV_OK, t)
      else
        let (status, push, t) = begin_acquire_tree bg t
        in if status \<noteq> NV_OK then (status, t)
           else
             let push = gpu_state_push t page_size invalidate_depth dirs_used push;
                 t = page_tree_end push t
             in (NV_OK, page_tree_tracker_overwrite_with_push (bg_kv bg) push t))"

definition free_dir :: "dir_id \<Rightarrow> uvm_page_tree \<Rightarrow> uvm_page_tree" where
  "free_dir d t = kvfree_dir d (phys_mem_deallocate d t)"

fun free_unused_directories :: "dir_id list \<Rightarrow> dir_id option list \<Rightarrow> uvm_page_tree \<Rightarrow> uvm_page_tree" where
  "free_unused_directories dirs_used [] t = t"
| "free_unused_directories dirs_used (c # cache) t =
     free_unused_directories dirs_used cache
       (case c of
          None \<Rightarrow> t
        | Some d \<Rightarrow> if d \<in> set dirs_used then t else free_dir d t)"

section \<open>Creating and destroying a tree\<close>

text \<open>\<open>hal\<close> is what the architecture returns for the big page size.\<close>

definition uvm_page_tree_init ::
  "uvm_aperture \<Rightarrow> nat \<Rightarrow> alloc_outcome \<Rightarrow> begin_outcome \<Rightarrow> (nat \<Rightarrow> snapshot) \<Rightarrow> bool \<Rightarrow> uvm_mmu_mode_hal \<Rightarrow> u32 \<Rightarrow>
   uvm_aperture \<Rightarrow> (nv_status \<times> uvm_page_tree) option" where
  "uvm_page_tree_init page_table_aperture fuel oc bg env fake hal big_page_size location =
     (let t = \<lparr>pt_dirs = Map.empty, pt_root = 0, pt_hal = hal, pt_big_page_size = big_page_size,
               pt_location = location, pt_tracker = uvm_tracker_init, pt_fake = fake, pt_pushes = [], pt_freed = []\<rparr>
      in case allocate_directory page_table_aperture fuel oc t UVM_PAGE_SIZE_AGNOSTIC 0 of
           None \<Rightarrow> None
         | Some (None, t) \<Rightarrow> Some (NV_ERR_NO_MEMORY, t)
         | Some (Some root, t) \<Rightarrow>
             (let (status, push, t) = begin_acquire_tree bg (t\<lparr>pt_root := root\<rparr>)
              in if status \<noteq> NV_OK then Some (status, t)
                 else page_tree_end_and_wait env fuel (phys_mem_init t UVM_PAGE_SIZE_AGNOSTIC root push) t))"

definition uvm_page_tree_wait :: "(nat \<Rightarrow> snapshot) \<Rightarrow> nat \<Rightarrow> uvm_page_tree \<Rightarrow> (nv_status \<times> uvm_page_tree) option" where
  "uvm_page_tree_wait env fuel t =
     map_option (\<lambda>(status, k, tracker). (status, t\<lparr>pt_tracker := tracker\<rparr>)) (uvm_tracker_wait env fuel (pt_tracker t))"

definition uvm_page_tree_deinit :: "(nat \<Rightarrow> snapshot) \<Rightarrow> nat \<Rightarrow> uvm_page_tree \<Rightarrow> uvm_page_tree option" where
  "uvm_page_tree_deinit env fuel t =
     map_option (\<lambda>(status, t).
         let t = phys_mem_deallocate (pt_root t) t;
             t = t\<lparr>pt_tracker := uvm_tracker_deinit (pt_tracker t)\<rparr>
         in kvfree_dir (pt_root t) t)
       (uvm_page_tree_wait env fuel t)"

section \<open>Putting entries\<close>

record put_state =
  ps_push :: ce_push
  ps_free_queue :: "dir_id list"
  ps_invalidate_depth :: u32
  ps_after_pde_clears :: uvm_membar
  ps_after_invalidate :: uvm_membar

text \<open>One directory unlinked from its parent.\<close>

definition put_step :: "u32 \<Rightarrow> dir_id \<Rightarrow> dir_id \<Rightarrow> put_state \<Rightarrow> uvm_page_tree \<Rightarrow> put_state \<times> uvm_page_tree" where
  "put_step page_size d parent ps t =
     (let push = set_flag (ps_push ps) UVM_PUSH_FLAG_CE_NEXT_PIPELINED;
          push = set_flag push UVM_PUSH_FLAG_CE_NEXT_MEMBAR_NONE;
          (push, t) = pde_clear parent (index_in_parent (dir t d)) page_size push t
      in (\<lparr>ps_push = push, ps_free_queue = ps_free_queue ps @ [d], ps_invalidate_depth = dir_depth (dir t parent),
           ps_after_pde_clears = (if is_sys t parent then UVM_MEMBAR_SYS else ps_after_pde_clears ps),
           ps_after_invalidate = (if is_sys t d then UVM_MEMBAR_SYS else ps_after_invalidate ps)\<rparr>, t))"

text \<open>\<open>None\<close>: out of fuel. The push is begun when the first directory is found unused.\<close>

fun put_loop ::
  "nat \<Rightarrow> begin_outcome \<Rightarrow> u32 \<Rightarrow> dir_id \<Rightarrow> put_state option \<Rightarrow> uvm_page_tree \<Rightarrow>
   (nv_status \<times> put_state option \<times> uvm_page_tree) option" where
  "put_loop 0 bg page_size d ps t = None"
| "put_loop (Suc fuel) bg page_size d ps t =
     (case host_parent (dir t d) of
        None \<Rightarrow> Some (NV_OK, ps, t)
      | Some parent \<Rightarrow>
          if ref_count (dir t d) \<noteq> 0 then Some (NV_OK, ps, t)
          else
            (let (status, ps', t) =
               (case ps of
                  Some s \<Rightarrow> (NV_OK, s, t)
                | None \<Rightarrow>
                    let (status, push, t) = begin_acquire_tree bg t
                    in (status, \<lparr>ps_push = push, ps_free_queue = [], ps_invalidate_depth = 0,
                          ps_after_pde_clears = UVM_MEMBAR_GPU, ps_after_invalidate = UVM_MEMBAR_GPU\<rparr>, t))
             in if status \<noteq> NV_OK then Some (status, ps, t)
                else let (s, t) = put_step page_size d parent ps' t
                     in put_loop fuel bg page_size parent (Some s) t))"

definition put_push :: "uvm_page_tree \<Rightarrow> put_state \<Rightarrow> ce_push" where
  "put_push t s =
     (let push = emit_host Host_wait_for_idle (ps_push s);
          push = uvm_hal_membar push (ps_after_pde_clears s);
          push = tlb_invalidate_all push (alloc_addr (uvm_page_tree_pdb t)) (ps_invalidate_depth s) (ps_after_invalidate s)
      in set_flag push UVM_PUSH_FLAG_CE_NEXT_MEMBAR_NONE)"

definition uvm_page_tree_put_ptes_async ::
  "begin_outcome \<Rightarrow> uvm_page_table_range \<Rightarrow> uvm_page_tree \<Rightarrow> uvm_page_tree option" where
  "uvm_page_tree_put_ptes_async bg rg t =
     (let d = rg_table rg;
          t = upd_dir d (\<lambda>r. r\<lparr>ref_count := ref_count r - rg_entry_count rg\<rparr>) t
      in case put_loop (Suc MAX_OPERATION_DEPTH) bg (rg_page_size rg) d None t of
           None \<Rightarrow> None
         | Some (status, ps, t) \<Rightarrow>
             if status \<noteq> NV_OK then Some (upd_dir d (\<lambda>r. r\<lparr>ref_count := ref_count r + rg_entry_count rg\<rparr>) t)
             else (case ps of
                     None \<Rightarrow> Some t
                   | Some s \<Rightarrow>
                       let push = put_push t s;
                           t = page_tree_end push t;
                           t = page_tree_tracker_overwrite_with_push (bg_kv bg) push t
                       in Some (fold free_dir (ps_free_queue s) t)))"

definition uvm_page_tree_put_ptes ::
  "(nat \<Rightarrow> snapshot) \<Rightarrow> nat \<Rightarrow> begin_outcome \<Rightarrow> uvm_page_table_range \<Rightarrow> uvm_page_tree \<Rightarrow> uvm_page_tree option" where
  "uvm_page_tree_put_ptes env fuel bg rg t =
     (case uvm_page_tree_put_ptes_async bg rg t of
        None \<Rightarrow> None
      | Some t \<Rightarrow> map_option snd (uvm_page_tree_wait env fuel t))"

section \<open>Getting entries\<close>

datatype walk_result =
  Walk_needs uvm_page_tree u32
| Walk_found uvm_page_tree uvm_page_table_range u32 "dir_id list"

text \<open>The links made in an attempt are undone when a directory is missing from the cache.\<close>

fun undo_links :: "u32 \<Rightarrow> dir_id list \<Rightarrow> uvm_page_tree \<Rightarrow> uvm_page_tree" where
  "undo_links page_size [] t = t"
| "undo_links page_size (d # ds) t =
     undo_links page_size ds (host_pde_clear (the (host_parent (dir t d))) (index_in_parent (dir t d)) page_size t)"

definition link_cached :: "dir_id \<Rightarrow> dir_id \<Rightarrow> u32 \<Rightarrow> u32 \<Rightarrow> uvm_page_tree \<Rightarrow> uvm_page_tree" where
  "link_cached d c start_index page_size t =
     (let e = index_to_entry (pt_hal t) start_index (dir_depth (dir t d)) page_size
      in set_entry d e (Some c) (host_pde_write c d start_index t))"

fun walk_loop ::
  "nat \<Rightarrow> u32 \<Rightarrow> u64 \<Rightarrow> u64 \<Rightarrow> dir_id option list \<Rightarrow> dir_id \<Rightarrow> u32 \<Rightarrow> u32 \<Rightarrow> dir_id list \<Rightarrow> uvm_page_tree \<Rightarrow>
   walk_result option" where
  "walk_loop 0 page_size start size' cache d addr_bit_shift invalidate_depth dirs_used t = None"
| "walk_loop (Suc fuel) page_size start size' cache d addr_bit_shift invalidate_depth dirs_used t =
     (let hal = pt_hal t;
          depth = dir_depth (dir t d);
          index_bits = hal_index_bits hal depth page_size;
          addr_bit_shift = addr_bit_shift - index_bits;
          start_index = entry_index_from_vaddr start addr_bit_shift index_bits;
          end_index = entry_index_from_vaddr (start + size' - 1) addr_bit_shift index_bits
      in if depth = hal_page_table_depth hal page_size then
           (let (rg, t) = page_table_range_init page_size d start_index end_index t
            in Some (Walk_found t rg invalidate_depth dirs_used))
         else
           (case dir_entries (dir t d) ! unat (index_to_entry hal start_index depth page_size) of
              Some c \<Rightarrow> walk_loop fuel page_size start size' cache c addr_bit_shift invalidate_depth dirs_used t
            | None \<Rightarrow>
                (case cache ! unat depth of
                   None \<Rightarrow> Some (Walk_needs (undo_links page_size dirs_used t) depth)
                 | Some c \<Rightarrow>
                     walk_loop fuel page_size start size' cache c addr_bit_shift
                       (if invalidate_depth = - 1 then depth else invalidate_depth) (dirs_used @ [c])
                       (link_cached d c start_index page_size t))))"

text \<open>The status, the depth and the range are written through pointers: \<open>None\<close> leaves them alone.\<close>

definition try_get_ptes ::
  "begin_outcome \<Rightarrow> u32 \<Rightarrow> u64 \<Rightarrow> u64 \<Rightarrow> dir_id option list \<Rightarrow> uvm_page_tree \<Rightarrow>
   (nv_status \<times> u32 option \<times> uvm_page_table_range option \<times> uvm_page_tree) option" where
  "try_get_ptes bg page_size start size' cache t =
     (case walk_loop (Suc MAX_OPERATION_DEPTH) page_size start size' cache (pt_root t) (hal_num_va_bits (pt_hal t)) (- 1) [] t of
        None \<Rightarrow> None
      | Some (Walk_needs t depth) \<Rightarrow> Some (NV_ERR_MORE_PROCESSING_REQUIRED, Some depth, None, t)
      | Some (Walk_found t rg invalidate_depth dirs_used) \<Rightarrow>
          (let t = free_unused_directories dirs_used cache t;
               (status, t) = write_gpu_state bg page_size invalidate_depth dirs_used t
           in Some (status, None, Some rg, t)))"

text \<open>
  \<open>outs k\<close> answers the allocation after attempt \<open>k\<close>, \<open>others k\<close> is what other threads do to the tree
  before attempt \<open>k + 1\<close>.
\<close>

fun get_loop ::
  "uvm_aperture \<Rightarrow> (nat \<Rightarrow> alloc_outcome) \<Rightarrow> (nat \<Rightarrow> uvm_page_tree \<Rightarrow> uvm_page_tree) \<Rightarrow> nat \<Rightarrow> begin_outcome \<Rightarrow> nat \<Rightarrow> nat \<Rightarrow>
   u32 \<Rightarrow> u64 \<Rightarrow> u64 \<Rightarrow> u32 \<Rightarrow> dir_id option list \<Rightarrow> uvm_page_tree \<Rightarrow>
   (nv_status \<times> uvm_page_table_range option \<times> uvm_page_tree) option" where
  "get_loop ap outs others wait_fuel bg 0 k page_size start size' cur_depth cache t = None"
| "get_loop ap outs others wait_fuel bg (Suc fuel) k page_size start size' cur_depth cache t =
     (case try_get_ptes bg page_size start size' cache t of
        None \<Rightarrow> None
      | Some (status, depth, rg, t) \<Rightarrow>
          if status \<noteq> NV_ERR_MORE_PROCESSING_REQUIRED then Some (status, rg, t)
          else
            (let cur_depth = (case depth of None \<Rightarrow> cur_depth | Some n \<Rightarrow> n)
             in case allocate_directory ap wait_fuel (outs k) t page_size (cur_depth + 1) of
                  None \<Rightarrow> None
                | Some (c, t) \<Rightarrow>
                    let cache = cache[unat cur_depth := c];
                        t = others k t
                    in if c = None
                       then Some (NV_ERR_NO_MEMORY, rg, free_unused_directories [] cache t)
                       else get_loop ap outs others wait_fuel bg fuel (Suc k) page_size start size' cur_depth cache t))"

definition uvm_page_tree_get_ptes_async ::
  "uvm_aperture \<Rightarrow> (nat \<Rightarrow> alloc_outcome) \<Rightarrow> (nat \<Rightarrow> uvm_page_tree \<Rightarrow> uvm_page_tree) \<Rightarrow> nat \<Rightarrow> begin_outcome \<Rightarrow> nat \<Rightarrow>
   u32 \<Rightarrow> u64 \<Rightarrow> u64 \<Rightarrow> uvm_page_tree \<Rightarrow> (nv_status \<times> uvm_page_table_range option \<times> uvm_page_tree) option" where
  "uvm_page_tree_get_ptes_async ap outs others wait_fuel bg fuel page_size start size' t =
     get_loop ap outs others wait_fuel bg fuel 0 page_size start size' 0 (replicate MAX_OPERATION_DEPTH None) t"

definition uvm_page_tree_get_ptes ::
  "uvm_aperture \<Rightarrow> (nat \<Rightarrow> alloc_outcome) \<Rightarrow> (nat \<Rightarrow> uvm_page_tree \<Rightarrow> uvm_page_tree) \<Rightarrow> nat \<Rightarrow> begin_outcome \<Rightarrow> nat \<Rightarrow>
   (nat \<Rightarrow> snapshot) \<Rightarrow> u32 \<Rightarrow> u64 \<Rightarrow> u64 \<Rightarrow> uvm_page_tree \<Rightarrow>
   (nv_status \<times> uvm_page_table_range option \<times> uvm_page_tree) option" where
  "uvm_page_tree_get_ptes ap outs others wait_fuel bg fuel env page_size start size' t =
     (case uvm_page_tree_get_ptes_async ap outs others wait_fuel bg fuel page_size start size' t of
        None \<Rightarrow> None
      | Some (status, rg, t) \<Rightarrow>
          if status \<noteq> NV_OK then Some (status, rg, t)
          else map_option (\<lambda>(status, t). (status, rg, t)) (uvm_page_tree_wait env wait_fuel t))"

definition uvm_page_tree_get_entry ::
  "uvm_aperture \<Rightarrow> (nat \<Rightarrow> alloc_outcome) \<Rightarrow> (nat \<Rightarrow> uvm_page_tree \<Rightarrow> uvm_page_tree) \<Rightarrow> nat \<Rightarrow> begin_outcome \<Rightarrow> nat \<Rightarrow>
   (nat \<Rightarrow> snapshot) \<Rightarrow> u32 \<Rightarrow> u64 \<Rightarrow> uvm_page_tree \<Rightarrow>
   (nv_status \<times> uvm_page_table_range option \<times> uvm_page_tree) option" where
  "uvm_page_tree_get_entry ap outs others wait_fuel bg fuel env page_size start t =
     uvm_page_tree_get_ptes ap outs others wait_fuel bg fuel env page_size start (ucast page_size) t"

section \<open>Parts of ranges, entries of directories\<close>

definition uvm_page_table_range_get_upper ::
  "uvm_page_table_range \<Rightarrow> u32 \<Rightarrow> uvm_page_tree \<Rightarrow> uvm_page_table_range \<times> uvm_page_tree" where
  "uvm_page_table_range_get_upper existing num_upper_pages t =
     (let upper_start_index = rg_start_index existing + (rg_entry_count existing - num_upper_pages);
          upper_end_index = upper_start_index + num_upper_pages - 1
      in page_table_range_init (rg_page_size existing) (rg_table existing) upper_start_index upper_end_index t)"

definition uvm_page_table_range_shrink ::
  "(nat \<Rightarrow> snapshot) \<Rightarrow> nat \<Rightarrow> begin_outcome \<Rightarrow> uvm_page_table_range \<Rightarrow> u32 \<Rightarrow> uvm_page_tree \<Rightarrow>
   (uvm_page_table_range \<times> uvm_page_tree) option" where
  "uvm_page_table_range_shrink env fuel bg rg new_page_count t =
     (if new_page_count > 0 then
        Some (rg\<lparr>rg_entry_count := new_page_count\<rparr>,
          upd_dir (rg_table rg) (\<lambda>r. r\<lparr>ref_count := ref_count r - (rg_entry_count rg - new_page_count)\<rparr>) t)
      else map_option (\<lambda>t. (rg, t)) (uvm_page_tree_put_ptes env fuel bg rg t))"

definition uvm_page_tree_write_pde :: "uvm_page_tree \<Rightarrow> uvm_page_table_range \<Rightarrow> ce_push \<Rightarrow> ce_push" where
  "uvm_page_tree_write_pde t single push = pde_write t (rg_table single) (rg_start_index single) False push"

definition uvm_page_tree_clear_pde :: "uvm_page_tree \<Rightarrow> uvm_page_table_range \<Rightarrow> ce_push \<Rightarrow> ce_push" where
  "uvm_page_tree_clear_pde t single push = pde_write t (rg_table single) (rg_start_index single) True push"

definition poison_ptes :: "begin_outcome \<Rightarrow> dir_id \<Rightarrow> dir_id \<Rightarrow> u32 \<Rightarrow> uvm_page_tree \<Rightarrow> nv_status \<times> uvm_page_tree" where
  "poison_ptes bg pte_dir parent page_size t =
     (let (status, push, t) = begin_acquire_tree bg t
      in if status \<noteq> NV_OK then (status, t)
         else
           let a = phys_alloc (dir t pte_dir);
               push = emit_ce (Ce_memset_8 (uvm_gpu_address_from_phys (alloc_addr a))
                        (hal_poisoned_pte (pt_hal t) page_size) (alloc_size a)) push;
               push = (if phys_aperture (alloc_addr a) = UVM_APERTURE_VID \<and>
                          phys_aperture (alloc_addr (phys_alloc (dir t parent))) = UVM_APERTURE_VID
                       then set_flag push UVM_PUSH_FLAG_CE_NEXT_MEMBAR_GPU else push);
               t = page_tree_end push t
           in (NV_OK, page_tree_tracker_overwrite_with_push (bg_kv bg) push t))"

text \<open>\<open>debug\<close> is \<^verbatim>\<open>UVM_IS_DEBUG\<close>. The children's range is written when a table is returned.\<close>

definition uvm_page_tree_alloc_table ::
  "bool \<Rightarrow> uvm_aperture \<Rightarrow> alloc_outcome \<Rightarrow> nat \<Rightarrow> begin_outcome \<Rightarrow> (nat \<Rightarrow> snapshot) \<Rightarrow> u32 \<Rightarrow> uvm_page_table_range \<Rightarrow>
   uvm_page_tree \<Rightarrow> (nv_status \<times> uvm_page_table_range option \<times> uvm_page_tree) option" where
  "uvm_page_tree_alloc_table debug ap oc fuel bg env page_size single t =
     (let s = rg_table single;
          e = index_to_entry (pt_hal t) (rg_start_index single) (dir_depth (dir t s)) page_size
      in case allocate_directory ap fuel oc t page_size (dir_depth (dir t s) + 1) of
           None \<Rightarrow> None
         | Some (None, t) \<Rightarrow> Some (NV_ERR_NO_MEMORY, None, t)
         | Some (Some d, t) \<Rightarrow>
             (let (status, t) = (if debug then poison_ptes bg d s page_size t else (NV_OK, t))
              in if status \<noteq> NV_OK then Some (status, None, free_dir d t)
                 else
                   (case uvm_page_tree_wait env fuel t of
                      None \<Rightarrow> None
                    | Some (status, t) \<Rightarrow>
                        if status \<noteq> NV_OK then Some (status, None, free_dir d t)
                        else
                          let children_count = push_bit (unat (hal_index_bits (pt_hal t) (dir_depth (dir t d)) page_size)) 1;
                              entry = dir_entries (dir t s) ! unat e;
                              (table, t) =
                                (case entry of
                                   None \<Rightarrow> (d, host_pde_write d s (rg_start_index single) (set_entry s e (Some d) t))
                                 | Some c \<Rightarrow> (c, t));
                              t = upd_dir table (\<lambda>r. r\<lparr>ref_count := ref_count r + children_count\<rparr>) t;
                              t = (if entry \<noteq> None then free_dir d t else t)
                          in Some (NV_OK, Some \<lparr>rg_table = table, rg_start_index = 0, rg_entry_count = children_count,
                               rg_page_size = page_size\<rparr>, t))))"

section \<open>Sizes\<close>

definition uvm_mmu_page_tree_entries :: "uvm_mmu_mode_hal \<Rightarrow> u32 \<Rightarrow> u32 \<Rightarrow> u64" where
  "uvm_mmu_page_tree_entries hal depth page_size = push_bit (unat (hal_index_bits hal depth page_size)) 1"

definition uvm_mmu_pde_coverage :: "uvm_mmu_mode_hal \<Rightarrow> u32 \<Rightarrow> u64" where
  "uvm_mmu_pde_coverage hal page_size =
     uvm_mmu_page_tree_entries hal (hal_page_table_depth hal page_size) page_size * ucast page_size"

definition uvm_mmu_page_size_supported :: "uvm_mmu_mode_hal \<Rightarrow> u32 \<Rightarrow> bool" where
  "uvm_mmu_page_size_supported hal page_size \<longleftrightarrow> hal_page_sizes hal AND page_size \<noteq> 0"

definition uvm_mmu_pte_size :: "uvm_mmu_mode_hal \<Rightarrow> u32 \<Rightarrow> u32" where
  "uvm_mmu_pte_size hal page_size = ucast (hal_entry_size hal (hal_page_table_depth hal page_size))"

definition uvm_page_table_range_size :: "uvm_page_table_range \<Rightarrow> u64" where
  "uvm_page_table_range_size rg = ucast (rg_entry_count rg * rg_page_size rg)"

definition uvm_page_table_range_entry_address ::
  "uvm_page_tree \<Rightarrow> uvm_page_table_range \<Rightarrow> u64 \<Rightarrow> uvm_gpu_phys_address" where
  "uvm_page_table_range_entry_address t rg entry_index =
     (let entry_size = uvm_mmu_pte_size (pt_hal t) (rg_page_size rg);
          entry = alloc_addr (phys_alloc (dir t (rg_table rg)))
      in entry\<lparr>phys_address := phys_address entry + (ucast (rg_start_index rg) + entry_index) * ucast entry_size\<rparr>)"

definition uvm_page_table_range_aperture :: "uvm_page_tree \<Rightarrow> uvm_page_table_range \<Rightarrow> uvm_aperture" where
  "uvm_page_table_range_aperture t rg = phys_aperture (alloc_addr (phys_alloc (dir t (rg_table rg))))"

text \<open>The sizes of tables a format needs, and of the memory it can map.\<close>

definition allocation_sizes_for_big_page_size :: "(u32 \<Rightarrow> uvm_mmu_mode_hal option) \<Rightarrow> u32 \<Rightarrow> u32" where
  "allocation_sizes_for_big_page_size mmu_mode_hal big_page_size =
     (case mmu_mode_hal big_page_size of
        None \<Rightarrow> 0
      | Some hal \<Rightarrow>
          fold (\<lambda>page_size_log2 alloc_sizes.
              if bit (hal_page_sizes hal) page_size_log2 then
                let page_size = push_bit page_size_log2 1
                in fold (\<lambda>i alloc_sizes. ucast (ucast alloc_sizes OR hal_allocation_size hal (of_nat i) page_size))
                     [0..<Suc (unat (hal_page_table_depth hal page_size))] alloc_sizes
              else alloc_sizes) [0..<32] 0)"

definition page_sizes_for_big_page_size :: "(u32 \<Rightarrow> uvm_mmu_mode_hal option) \<Rightarrow> u32 \<Rightarrow> u32" where
  "page_sizes_for_big_page_size mmu_mode_hal big_page_size =
     (case mmu_mode_hal big_page_size of Some hal \<Rightarrow> hal_page_sizes hal | None \<Rightarrow> 0)"

definition uvm_mmu_kernel_chunk_sizes :: "(u32 \<Rightarrow> uvm_mmu_mode_hal option) \<Rightarrow> u32" where
  "uvm_mmu_kernel_chunk_sizes mmu_mode_hal =
     allocation_sizes_for_big_page_size mmu_mode_hal UVM_PAGE_SIZE_64K OR
     allocation_sizes_for_big_page_size mmu_mode_hal UVM_PAGE_SIZE_128K"

text \<open>\<open>page_shift\<close> is the kernel's: \<^verbatim>\<open>PAGE_SIZE\<close> is \<^verbatim>\<open>1 << PAGE_SHIFT\<close> and \<^verbatim>\<open>PAGE_MASK\<close> the bits from it up.\<close>

definition uvm_mmu_user_chunk_sizes :: "nat \<Rightarrow> (u32 \<Rightarrow> uvm_mmu_mode_hal option) \<Rightarrow> u32" where
  "uvm_mmu_user_chunk_sizes page_shift mmu_mode_hal =
     (let sizes = page_sizes_for_big_page_size mmu_mode_hal UVM_PAGE_SIZE_64K OR
                  page_sizes_for_big_page_size mmu_mode_hal UVM_PAGE_SIZE_128K OR push_bit page_shift 1
      in sizes AND NOT (mask page_shift))"

end
