(* ===== verification/Page_Tree_Inv.thy ===== *)
theory Page_Tree_Inv
  imports Page_Tree
begin

text \<open>
  The invariant of the page tree and the steps that keep it: linking a cached directory, unlinking an
  unused one, counting references, allocating and freeing directories that are not in the tree.
\<close>

section \<open>Formats the tree can be built with\<close>

locale tree_format = mmu_geometry +
  assumes depth_range: "page_exp hal k \<Longrightarrow> 1 \<le> pt_depth hal k \<and> pt_depth hal k \<le> unat (hal_page_table_depth hal UVM_PAGE_SIZE_AGNOSTIC)"
    and depth_max: "unat (hal_page_table_depth hal UVM_PAGE_SIZE_AGNOSTIC) \<le> MAX_OPERATION_DEPTH"
    and entry_count_agnostic: "page_exp hal k \<Longrightarrow> d \<le> pt_depth hal k \<Longrightarrow>
      dir_entry_count hal (of_nat d) (2 ^ k) = dir_entry_count hal (of_nat d) UVM_PAGE_SIZE_AGNOSTIC"
    and entry_count_eq: "d < unat (hal_page_table_depth hal UVM_PAGE_SIZE_AGNOSTIC) \<Longrightarrow>
      unat (dir_entry_count hal (of_nat d) UVM_PAGE_SIZE_AGNOSTIC) =
        unat (hal_entries_per_index hal (of_nat d)) * 2 ^ unat (hal_index_bits hal (of_nat d) UVM_PAGE_SIZE_AGNOSTIC)"
    and index_bits_small: "page_exp hal k \<Longrightarrow> d \<le> pt_depth hal k \<Longrightarrow> unat (hal_index_bits hal (of_nat d) (2 ^ k)) \<le> 16"
    and exp_small: "page_exp hal k \<Longrightarrow> k < 32"
    and entry_count_small: "d \<le> unat (hal_page_table_depth hal UVM_PAGE_SIZE_AGNOSTIC) \<Longrightarrow>
      unat (dir_entry_count hal (of_nat d) UVM_PAGE_SIZE_AGNOSTIC) \<le> 2 ^ 17"
    and entries_per_index_small: "unat (hal_entries_per_index hal d32) \<le> 2"

lemmas tree_format_simps = dir_entry_count_def MAX_OPERATION_DEPTH_def geometry_simps page_table_depth_pascal_def
  page_table_depth_kepler_def pt_depth_def

lemma le_cases_4: "(d::nat) < 4 \<Longrightarrow> d = 0 \<or> d = 1 \<or> d = 2 \<or> d = 3"
  by linarith

interpretation pascal_tree: tree_format pascal_mmu_mode_hal
proof
  fix k assume k: "page_exp pascal_mmu_mode_hal k"
  then show "1 \<le> pt_depth pascal_mmu_mode_hal k \<and> pt_depth pascal_mmu_mode_hal k \<le>
      unat (hal_page_table_depth pascal_mmu_mode_hal UVM_PAGE_SIZE_AGNOSTIC)"
    by (auto simp: page_exp_pascal tree_format_simps)
  show "k < 32" using k by (auto simp: page_exp_pascal)
  fix d assume "d \<le> pt_depth pascal_mmu_mode_hal k"
  then have d: "d = 0 \<or> d = 1 \<or> d = 2 \<or> d = 3 \<or> d = 4 \<and> k \<noteq> 21"
    using k le4_cases[of d] by (auto simp: page_exp_pascal pt_depth_simps)
  show "dir_entry_count pascal_mmu_mode_hal (of_nat d) (2 ^ k) = dir_entry_count pascal_mmu_mode_hal (of_nat d) UVM_PAGE_SIZE_AGNOSTIC"
    using d k[unfolded page_exp_pascal] by (elim disjE conjE) (simp_all add: tree_format_simps)
  show "unat (hal_index_bits pascal_mmu_mode_hal (of_nat d) (2 ^ k)) \<le> 16"
    using d k[unfolded page_exp_pascal] by (elim disjE conjE) (simp_all add: tree_format_simps)
next
  fix d assume "d < unat (hal_page_table_depth pascal_mmu_mode_hal UVM_PAGE_SIZE_AGNOSTIC)"
  then have "d < 4" by (simp add: tree_format_simps)
  from le_cases_4[OF this]
  show "unat (dir_entry_count pascal_mmu_mode_hal (of_nat d) UVM_PAGE_SIZE_AGNOSTIC) =
        unat (hal_entries_per_index pascal_mmu_mode_hal (of_nat d)) *
          2 ^ unat (hal_index_bits pascal_mmu_mode_hal (of_nat d) UVM_PAGE_SIZE_AGNOSTIC)"
    by (elim disjE) (simp_all add: tree_format_simps)
next
  fix d assume "d \<le> unat (hal_page_table_depth pascal_mmu_mode_hal UVM_PAGE_SIZE_AGNOSTIC)"
  then have "d \<le> 4" by (simp add: tree_format_simps)
  from le4_cases[OF this]
  show "unat (dir_entry_count pascal_mmu_mode_hal (of_nat d) UVM_PAGE_SIZE_AGNOSTIC) \<le> 2 ^ 17"
    by (elim disjE) (simp_all add: tree_format_simps)
qed (simp_all add: tree_format_simps)

lemma kepler_facts:
  assumes "hal = kepler_64_mmu_mode_hal \<or> hal = kepler_128_mmu_mode_hal"
  shows "d \<le> 1 \<Longrightarrow> dir_entry_count hal (of_nat d) p = dir_entry_count hal (of_nat d) UVM_PAGE_SIZE_AGNOSTIC"
    "d \<le> 1 \<Longrightarrow> unat (hal_index_bits hal (of_nat d) p) \<le> 16"
    "pt_depth hal k = 1" "unat (hal_page_table_depth hal UVM_PAGE_SIZE_AGNOSTIC) = 1"
    "unat (dir_entry_count hal 0 UVM_PAGE_SIZE_AGNOSTIC) =
       unat (hal_entries_per_index hal 0) * 2 ^ unat (hal_index_bits hal 0 UVM_PAGE_SIZE_AGNOSTIC)"
    "unat (hal_entries_per_index hal d32) \<le> 2" "page_exp hal k \<Longrightarrow> k < 32" "mmu_geometry hal"
    "d \<le> 1 \<Longrightarrow> unat (dir_entry_count hal (of_nat d) UVM_PAGE_SIZE_AGNOSTIC) \<le> 2 ^ 17"
proof -
  have d: "d \<le> 1 \<Longrightarrow> d = 0 \<or> d = 1" by linarith
  show "d \<le> 1 \<Longrightarrow> dir_entry_count hal (of_nat d) p = dir_entry_count hal (of_nat d) UVM_PAGE_SIZE_AGNOSTIC"
    "d \<le> 1 \<Longrightarrow> unat (hal_index_bits hal (of_nat d) p) \<le> 16"
    "d \<le> 1 \<Longrightarrow> unat (dir_entry_count hal (of_nat d) UVM_PAGE_SIZE_AGNOSTIC) \<le> 2 ^ 17"
    using assms d by (elim disjE; simp add: tree_format_simps)+
  show "pt_depth hal k = 1" "unat (hal_page_table_depth hal UVM_PAGE_SIZE_AGNOSTIC) = 1"
    "unat (dir_entry_count hal 0 UVM_PAGE_SIZE_AGNOSTIC) =
       unat (hal_entries_per_index hal 0) * 2 ^ unat (hal_index_bits hal 0 UVM_PAGE_SIZE_AGNOSTIC)"
    "unat (hal_entries_per_index hal d32) \<le> 2"
    using assms by (elim disjE; simp add: tree_format_simps)+
  show "page_exp hal k \<Longrightarrow> k < 32" using assms by (auto simp: page_exp_kepler_64 page_exp_kepler_128)
  show "mmu_geometry hal" using assms mmu_formats_geometry[of hal] by (auto simp: mmu_formats_def)
qed

lemma kepler_tree_format:
  assumes "hal = kepler_64_mmu_mode_hal \<or> hal = kepler_128_mmu_mode_hal"
  shows "tree_format hal"
proof -
  note f = kepler_facts[OF assms]
  show ?thesis
  proof (intro tree_format.intro tree_format_axioms.intro f(8))
    fix k assume k: "page_exp hal k"
    show "1 \<le> pt_depth hal k \<and> pt_depth hal k \<le> unat (hal_page_table_depth hal UVM_PAGE_SIZE_AGNOSTIC)"
      by (simp add: f(3,4))
    show "k < 32" using f(7)[OF k] .
    fix d assume "d \<le> pt_depth hal k"
    then have d: "d \<le> 1" by (simp only: f(3))
    show "dir_entry_count hal (of_nat d) (2 ^ k) = dir_entry_count hal (of_nat d) UVM_PAGE_SIZE_AGNOSTIC"
      "unat (hal_index_bits hal (of_nat d) (2 ^ k)) \<le> 16"
      by (rule f(1)[OF d], rule f(2)[OF d])
  next
    fix d assume "d < unat (hal_page_table_depth hal UVM_PAGE_SIZE_AGNOSTIC)"
    then have d: "d = 0" by (simp only: f(4) less_one)
    show "unat (dir_entry_count hal (of_nat d) UVM_PAGE_SIZE_AGNOSTIC) =
        unat (hal_entries_per_index hal (of_nat d)) * 2 ^ unat (hal_index_bits hal (of_nat d) UVM_PAGE_SIZE_AGNOSTIC)"
      using f(5) by (simp add: d)
  next
    fix d assume "d \<le> unat (hal_page_table_depth hal UVM_PAGE_SIZE_AGNOSTIC)"
    then have d: "d \<le> 1" by (simp only: f(4))
    show "unat (dir_entry_count hal (of_nat d) UVM_PAGE_SIZE_AGNOSTIC) \<le> 2 ^ 17" by (rule f(9)[OF d])
  qed (simp_all add: f(4,6) MAX_OPERATION_DEPTH_def)
qed

interpretation kepler_64_tree: tree_format kepler_64_mmu_mode_hal
  by (rule kepler_tree_format) simp

interpretation kepler_128_tree: tree_format kepler_128_mmu_mode_hal
  by (rule kepler_tree_format) simp

lemma mmu_formats_tree: "hal \<in> set mmu_formats \<Longrightarrow> tree_format hal"
  using pascal_tree.tree_format_axioms kepler_64_tree.tree_format_axioms kepler_128_tree.tree_format_axioms
  by (auto simp: mmu_formats_def)

section \<open>The invariant\<close>

definition linked :: "uvm_page_tree \<Rightarrow> dir_id \<Rightarrow> nat \<Rightarrow> dir_id \<Rightarrow> bool" where
  "linked t p i d \<longleftrightarrow>
     (case pt_dirs t p of None \<Rightarrow> False | Some r \<Rightarrow> i < length (dir_entries r) \<and> dir_entries r ! i = Some d)"

text \<open>The slot an address uses in a directory at depth \<open>n\<close>, and the directory it leads to at depth \<open>n\<close>.\<close>

definition slot :: "uvm_mmu_mode_hal \<Rightarrow> u32 \<Rightarrow> u64 \<Rightarrow> nat \<Rightarrow> nat" where
  "slot hal page_size va n = unat (index_to_entry hal (va_index hal page_size va n) (of_nat n) page_size)"

fun walk :: "uvm_page_tree \<Rightarrow> u32 \<Rightarrow> u64 \<Rightarrow> nat \<Rightarrow> dir_id option" where
  "walk t page_size va 0 = Some (pt_root t)"
| "walk t page_size va (Suc n) =
     (case walk t page_size va n of
        None \<Rightarrow> None
      | Some d \<Rightarrow>
          (case pt_dirs t d of
             None \<Rightarrow> None
           | Some r \<Rightarrow> if slot (pt_hal t) page_size va n < length (dir_entries r)
                       then dir_entries r ! slot (pt_hal t) page_size va n else None))"

definition children :: "uvm_page_directory \<Rightarrow> nat" where
  "children r = length (filter (\<lambda>e. e \<noteq> None) (dir_entries r))"

definition held_count :: "uvm_page_table_range list \<Rightarrow> dir_id \<Rightarrow> nat" where
  "held_count held d = (\<Sum>r \<leftarrow> held. if rg_table r = d then unat (rg_entry_count r) else 0)"

text \<open>A range lies within the table that some address leads to.\<close>

definition range_ok :: "uvm_page_tree \<Rightarrow> uvm_page_table_range \<Rightarrow> bool" where
  "range_ok t r \<longleftrightarrow>
     (\<exists>k va. page_exp (pt_hal t) k \<and> rg_page_size r = 2 ^ k \<and>
        walk t (2 ^ k) va (pt_depth (pt_hal t) k) = Some (rg_table r) \<and> 0 < rg_entry_count r \<and>
        unat (rg_start_index r) + unat (rg_entry_count r) \<le>
          2 ^ unat (hal_index_bits (pt_hal t) (of_nat (pt_depth (pt_hal t) k)) (2 ^ k)))"

definition links_ok :: "uvm_page_tree \<Rightarrow> bool" where
  "links_ok t \<longleftrightarrow>
     (\<forall>p i d. linked t p i d \<longrightarrow>
        pt_dirs t d \<noteq> None \<and> host_parent (dir t d) = Some p \<and>
        i div unat (hal_entries_per_index (pt_hal t) (dir_depth (dir t p))) = unat (index_in_parent (dir t d)) \<and>
        unat (dir_depth (dir t d)) = Suc (unat (dir_depth (dir t p)))) \<and>
     (\<forall>p i j d. linked t p i d \<longrightarrow> linked t p j d \<longrightarrow> i = j)"

definition dir_ok :: "uvm_page_tree \<Rightarrow> uvm_page_table_range list \<Rightarrow> dir_id \<Rightarrow> bool" where
  "dir_ok t held p \<longleftrightarrow>
     unat (dir_depth (dir t p)) \<le> unat (hal_page_table_depth (pt_hal t) UVM_PAGE_SIZE_AGNOSTIC) \<and>
     length (dir_entries (dir t p)) = unat (dir_entry_count (pt_hal t) (dir_depth (dir t p)) UVM_PAGE_SIZE_AGNOSTIC) \<and>
     unat (ref_count (dir t p)) = children (dir t p) + held_count held p"

definition in_tree :: "uvm_page_tree \<Rightarrow> dir_id \<Rightarrow> bool" where
  "in_tree t d \<longleftrightarrow> d = pt_root t \<or> (\<exists>p i. linked t p i d)"

text \<open>\<open>pend\<close> is a directory of the tree that may have no reference yet, or any more.\<close>

definition tree_inv_at :: "uvm_page_tree \<Rightarrow> uvm_page_table_range list \<Rightarrow> dir_id option \<Rightarrow> bool" where
  "tree_inv_at t held pend \<longleftrightarrow>
     pt_dirs t (pt_root t) \<noteq> None \<and> dir_depth (dir t (pt_root t)) = 0 \<and> host_parent (dir t (pt_root t)) = None \<and>
     links_ok t \<and>
     (\<forall>p. pt_dirs t p \<noteq> None \<longrightarrow> dir_ok t held p) \<and>
     (\<forall>p i d. linked t p i d \<longrightarrow> ref_count (dir t d) \<noteq> 0 \<or> pend = Some d) \<and>
     (\<forall>p. pt_dirs t p \<noteq> None \<longrightarrow> \<not> in_tree t p \<longrightarrow> ref_count (dir t p) = 0) \<and>
     (\<forall>r \<in> set held. range_ok t r)"

definition tree_inv :: "uvm_page_tree \<Rightarrow> uvm_page_table_range list \<Rightarrow> bool" where
  "tree_inv t held \<longleftrightarrow> tree_inv_at t held None"

text \<open>A directory that is allocated but not in the tree.\<close>

definition spare :: "uvm_page_tree \<Rightarrow> dir_id \<Rightarrow> nat \<Rightarrow> bool" where
  "spare t c n \<longleftrightarrow> pt_dirs t c \<noteq> None \<and> \<not> in_tree t c \<and> unat (dir_depth (dir t c)) = n"

section \<open>Links and walks\<close>

lemma spare_iff: "(\<exists>m. spare t x m) \<longleftrightarrow> pt_dirs t x \<noteq> None \<and> \<not> in_tree t x"
  by (simp add: spare_def)

lemma dir_upd: "dir (upd_dir d f t) x = (if x = d then f (dir t d) else dir t x)"
  by (simp add: dir_def upd_dir_def)

lemma upd_dir_fields [simp]:
  "pt_root (upd_dir d f t) = pt_root t" "pt_hal (upd_dir d f t) = pt_hal t"
  "pt_dirs (upd_dir d f t) = (pt_dirs t)(d := Some (f (dir t d)))"
  by (simp_all add: upd_dir_def)

lemma linked_iff:
  "linked t p i d \<longleftrightarrow> pt_dirs t p \<noteq> None \<and> i < length (dir_entries (dir t p)) \<and> dir_entries (dir t p) ! i = Some d"
  by (auto simp: linked_def dir_def split: option.splits)

lemma walk_Suc_iff:
  "walk t ps va (Suc n) = Some c \<longleftrightarrow> (\<exists>d. walk t ps va n = Some d \<and> linked t d (slot (pt_hal t) ps va n) c)"
  by (auto simp: linked_def split: option.splits)

lemma walk_transfer:
  assumes "pt_root t' = pt_root t" "pt_hal t' = pt_hal t" "walk t ps va n = Some d"
    and "\<And>m p c. m < n \<Longrightarrow> walk t ps va m = Some p \<Longrightarrow> walk t ps va (Suc m) = Some c \<Longrightarrow>
      linked t p (slot (pt_hal t) ps va m) c \<Longrightarrow> linked t' p (slot (pt_hal t) ps va m) c"
  shows "walk t' ps va n = Some d"
  using assms(3,4)
proof (induction n arbitrary: d)
  case 0
  then show ?case using assms(1) by simp
next
  case (Suc n)
  from Suc.prems(1) obtain p where p: "walk t ps va n = Some p" "linked t p (slot (pt_hal t) ps va n) d"
    by (auto simp only: walk_Suc_iff)
  have "walk t' ps va n = Some p"
    by (rule Suc.IH[OF p(1)]) (use Suc.prems(2) less_SucI in blast)
  moreover have "linked t' p (slot (pt_hal t) ps va n) d"
    using Suc.prems(2)[of n] p Suc.prems(1) by blast
  ultimately show ?case using assms(2) by (auto simp only: walk_Suc_iff)
qed

lemma walk_prefix: "walk t ps va n = Some d \<Longrightarrow> m \<le> n \<Longrightarrow> \<exists>c. walk t ps va m = Some c"
proof (induction n arbitrary: d)
  case (Suc n)
  then show ?case by (cases "m = Suc n") (auto simp only: walk_Suc_iff le_Suc_eq)
qed simp

lemma inv_root: "tree_inv_at t held pend \<Longrightarrow> pt_dirs t (pt_root t) \<noteq> None"
    "tree_inv_at t held pend \<Longrightarrow> dir_depth (dir t (pt_root t)) = 0"
    "tree_inv_at t held pend \<Longrightarrow> host_parent (dir t (pt_root t)) = None"
  and inv_links: "tree_inv_at t held pend \<Longrightarrow> links_ok t"
  and inv_dir: "tree_inv_at t held pend \<Longrightarrow> pt_dirs t p \<noteq> None \<Longrightarrow> dir_ok t held p"
  and inv_ref: "tree_inv_at t held pend \<Longrightarrow> linked t p i d \<Longrightarrow> ref_count (dir t d) \<noteq> 0 \<or> pend = Some d"
  and inv_spare: "tree_inv_at t held pend \<Longrightarrow> pt_dirs t p \<noteq> None \<Longrightarrow> \<not> in_tree t p \<Longrightarrow> ref_count (dir t p) = 0"
  and inv_range: "tree_inv_at t held pend \<Longrightarrow> r \<in> set held \<Longrightarrow> range_ok t r"
  by (simp_all add: tree_inv_at_def)

lemma link_facts:
  assumes "links_ok t" "linked t p i d"
  shows "pt_dirs t d \<noteq> None" "host_parent (dir t d) = Some p" "pt_dirs t p \<noteq> None"
    "i div unat (hal_entries_per_index (pt_hal t) (dir_depth (dir t p))) = unat (index_in_parent (dir t d))"
    "unat (dir_depth (dir t d)) = Suc (unat (dir_depth (dir t p)))"
  using assms(2) assms(1)[unfolded links_ok_def, THEN conjunct1, rule_format, OF assms(2)]
  by (simp_all add: linked_iff)

lemma link_unique: "links_ok t \<Longrightarrow> linked t p i d \<Longrightarrow> linked t q j d \<Longrightarrow> p = q \<and> i = j"
  using link_facts(2)[of t p i d] link_facts(2)[of t q j d] unfolding links_ok_def by fastforce

lemma not_root_linked: "tree_inv_at t held pend \<Longrightarrow> linked t p i d \<Longrightarrow> d \<noteq> pt_root t"
  using link_facts(2)[OF inv_links, of t held pend p i d] inv_root(3)[of t held pend] by auto

lemma walk_facts:
  assumes "tree_inv_at t held pend" "walk t ps va n = Some d"
  shows "pt_dirs t d \<noteq> None \<and> unat (dir_depth (dir t d)) = n \<and> in_tree t d"
  using assms(2)
proof (induction n arbitrary: d)
  case 0
  then show ?case using inv_root[OF assms(1)] by (simp add: in_tree_def)
next
  case (Suc n)
  then obtain p where p: "walk t ps va n = Some p" "linked t p (slot (pt_hal t) ps va n) d"
    by (auto simp only: walk_Suc_iff)
  then show ?case
    using Suc.IH[OF p(1)] link_facts[OF inv_links[OF assms(1)] p(2)] by (auto simp: in_tree_def)
qed

lemma range_in_tree:
  assumes "tree_inv_at t held pend" "range_ok t r"
  shows "in_tree t (rg_table r)" "pt_dirs t (rg_table r) \<noteq> None"
proof -
  from assms(2) obtain k va where "walk t (2 ^ k) va (pt_depth (pt_hal t) k) = Some (rg_table r)" by (auto simp: range_ok_def)
  from walk_facts[OF assms(1) this] show "in_tree t (rg_table r)" "pt_dirs t (rg_table r) \<noteq> None" by simp_all
qed

lemma children_0: "children r = 0 \<Longrightarrow> i < length (dir_entries r) \<Longrightarrow> dir_entries r ! i = None"
  by (auto simp: children_def filter_empty_conv dest: nth_mem)

lemma no_children_linked: "children (dir t p) = 0 \<Longrightarrow> \<not> linked t p i d"
  using children_0[of "dir t p" i] by (auto simp: linked_iff)

lemma ref_0_no_links:
  assumes "tree_inv_at t held pend" "pt_dirs t p \<noteq> None" "ref_count (dir t p) = 0"
  shows "\<not> linked t p i d" "held_count held p = 0" "children (dir t p) = 0"
  using inv_dir[OF assms(1,2)] assms(3) no_children_linked[of t p] by (simp_all add: dir_ok_def)

lemma held_count_0: "held_count held d = 0 \<Longrightarrow> r \<in> set held \<Longrightarrow> 0 < rg_entry_count r \<Longrightarrow> rg_table r \<noteq> d"
proof
  assume "held_count held d = 0" "r \<in> set held" "0 < rg_entry_count r" "rg_table r = d"
  then have "unat (rg_entry_count r) = 0" unfolding held_count_def sum_list_eq_0_iff by force
  with \<open>0 < rg_entry_count r\<close> show False by (simp add: unat_eq_0)
qed

lemma length_filter_update:
  assumes "i < length xs"
  shows "length (filter P (xs[i := x])) + (if P (xs ! i) then 1 else 0) = length (filter P xs) + (if P x then 1 else 0)"
  using assms
proof (induction xs arbitrary: i)
  case (Cons a xs)
  then show ?case by (cases i) auto
qed simp

lemma children_update:
  "i < length es \<Longrightarrow> children (r\<lparr>dir_entries := es[i := v]\<rparr>) + (if es ! i \<noteq> None then 1 else 0) =
    children (r\<lparr>dir_entries := es\<rparr>) + (if v \<noteq> None then 1 else 0)"
  using length_filter_update[of i es "\<lambda>e. e \<noteq> None" v] by (simp add: children_def)

section \<open>Steps that keep the invariant\<close>

lemma inv_intro:
  assumes "pt_dirs t (pt_root t) \<noteq> None" "dir_depth (dir t (pt_root t)) = 0" "host_parent (dir t (pt_root t)) = None"
    and "\<And>p i d. linked t p i d \<Longrightarrow>
        pt_dirs t d \<noteq> None \<and> host_parent (dir t d) = Some p \<and>
        i div unat (hal_entries_per_index (pt_hal t) (dir_depth (dir t p))) = unat (index_in_parent (dir t d)) \<and>
        unat (dir_depth (dir t d)) = Suc (unat (dir_depth (dir t p)))"
    and "\<And>p i j d. linked t p i d \<Longrightarrow> linked t p j d \<Longrightarrow> i = j"
    and "\<And>p. pt_dirs t p \<noteq> None \<Longrightarrow> dir_ok t held p"
    and "\<And>p i d. linked t p i d \<Longrightarrow> pend \<noteq> Some d \<Longrightarrow> ref_count (dir t d) \<noteq> 0"
    and "\<And>p. pt_dirs t p \<noteq> None \<Longrightarrow> \<not> in_tree t p \<Longrightarrow> ref_count (dir t p) = 0"
    and "\<And>r. r \<in> set held \<Longrightarrow> range_ok t r"
  shows "tree_inv_at t held pend"
  using assms unfolding tree_inv_at_def links_ok_def by blast

lemma range_transfer:
  assumes "range_ok t r" "pt_root t' = pt_root t" "pt_hal t' = pt_hal t"
    and "\<And>n m va k p c. walk t (2 ^ k) va n = Some (rg_table r) \<Longrightarrow> m < n \<Longrightarrow> walk t (2 ^ k) va m = Some p \<Longrightarrow>
      walk t (2 ^ k) va (Suc m) = Some c \<Longrightarrow> linked t p (slot (pt_hal t) (2 ^ k) va m) c \<Longrightarrow>
      linked t' p (slot (pt_hal t) (2 ^ k) va m) c"
  shows "range_ok t' r"
proof -
  from assms(1) obtain k va where r: "page_exp (pt_hal t) k" "rg_page_size r = 2 ^ k"
    "walk t (2 ^ k) va (pt_depth (pt_hal t) k) = Some (rg_table r)" "0 < rg_entry_count r"
    "unat (rg_start_index r) + unat (rg_entry_count r) \<le>
       2 ^ unat (hal_index_bits (pt_hal t) (of_nat (pt_depth (pt_hal t) k)) (2 ^ k))"
    unfolding range_ok_def by blast
  have "walk t' (2 ^ k) va (pt_depth (pt_hal t) k) = Some (rg_table r)"
    by (rule walk_transfer[OF assms(2,3) r(3)]) (use assms(4)[OF r(3)] in blast)
  with r assms(3) show ?thesis unfolding range_ok_def by metis
qed

lemma unlink_inv:
  assumes inv: "tree_inv_at t held (Some d)" and l: "linked t p e d" and ref: "ref_count (dir t d) = 0"
    and e: "e = unat (index_to_entry (pt_hal t) idx (dir_depth (dir t p)) ps)"
  shows "tree_inv_at (host_pde_clear p idx ps t) held (Some p)"
    "spare (host_pde_clear p idx ps t) d (unat (dir_depth (dir t d)))"
    "linked (host_pde_clear p idx ps t) q i c \<longleftrightarrow> linked t q i c \<and> \<not> (q = p \<and> i = e)"
    "spare t x m \<Longrightarrow> spare (host_pde_clear p idx ps t) x m"
    "in_tree (host_pde_clear p idx ps t) x \<longleftrightarrow> in_tree t x \<and> x \<noteq> d"
proof -
  let ?t = "host_pde_clear p idx ps t"
  let ?P = "dir t p"
  note links = inv_links[OF inv]
  note lf = link_facts[OF links l]
  have e_len: "e < length (dir_entries ?P)" "dir_entries ?P ! e = Some d" using l by (simp_all add: linked_iff)
  have dp: "d \<noteq> p" using lf(5) by auto
  have t_eq: "?t = upd_dir p (\<lambda>r. r\<lparr>ref_count := ref_count r - 1\<rparr>)
      (upd_dir p (\<lambda>r. r\<lparr>dir_entries := (dir_entries r)[e := None]\<rparr>) t)"
    by (simp add: host_pde_clear_def set_entry_def Let_def e)
  have fields: "pt_root ?t = pt_root t" "pt_hal ?t = pt_hal t" by (simp_all add: t_eq)
  have dom: "pt_dirs ?t x = None \<longleftrightarrow> pt_dirs t x = None" for x using lf(3) by (auto simp: t_eq)
  have same: "x \<noteq> p \<Longrightarrow> dir ?t x = dir t x" for x by (simp add: t_eq dir_upd)
  have P: "dir ?t p = ?P\<lparr>dir_entries := (dir_entries ?P)[e := None], ref_count := ref_count ?P - 1\<rparr>"
    by (simp add: t_eq dir_upd)
  have keep: "host_parent (dir ?t x) = host_parent (dir t x)" "index_in_parent (dir ?t x) = index_in_parent (dir t x)"
    "dir_depth (dir ?t x) = dir_depth (dir t x)" for x
    by (cases "x = p"; simp add: same P)+
  show linked': "linked ?t q i c \<longleftrightarrow> linked t q i c \<and> \<not> (q = p \<and> i = e)" for q i c
    using e_len by (cases "q = p"; cases "i = e") (auto simp: linked_iff dom same P)
  have e_only: "linked t p e x \<Longrightarrow> x = d" for x using e_len by (simp add: linked_iff)
  show in_tree': "in_tree ?t x \<longleftrightarrow> in_tree t x \<and> x \<noteq> d" for x
  proof (cases "x = d")
    case True
    have "\<not> linked ?t q i d" for q i using link_unique[OF links l] by (auto simp: linked')
    then show ?thesis using not_root_linked[OF inv l] True by (auto simp: in_tree_def fields)
  next
    case False
    then have "linked ?t q i x \<longleftrightarrow> linked t q i x" for q i using e_only by (auto simp: linked')
    then show ?thesis using False by (simp add: in_tree_def fields)
  qed
  have d_spare: "spare ?t d (unat (dir_depth (dir t d)))"
    using lf(1) by (simp add: spare_def dom in_tree' keep)
  then show "spare ?t d (unat (dir_depth (dir t d)))" .
  show "spare t x m \<Longrightarrow> spare ?t x m" by (simp add: spare_def dom in_tree' keep)
  have dref: "\<not> linked t d i x" "held_count held d = 0" for i x
    using ref_0_no_links[OF inv lf(1) ref] by auto
  have Pok: "dir_ok t held p" using inv_dir[OF inv lf(3)] .
  have ch: "children (dir ?t p) + 1 = children ?P"
    using children_update[OF e_len(1), where r = ?P and v = None] e_len(2) by (simp add: P children_def)
  then have refP0: "ref_count ?P \<noteq> 0" using Pok by (auto simp: dir_ok_def)
  then have refP: "unat (ref_count ?P - 1) = unat (ref_count ?P) - 1" by (rule unat_minus_one)
  show "tree_inv_at ?t held (Some p)"
  proof (rule inv_intro)
    show "pt_dirs ?t (pt_root ?t) \<noteq> None" "dir_depth (dir ?t (pt_root ?t)) = 0" "host_parent (dir ?t (pt_root ?t)) = None"
      using inv_root[OF inv] by (simp_all add: fields dom keep)
  next
    fix q i x assume "linked ?t q i x"
    then show "pt_dirs ?t x \<noteq> None \<and> host_parent (dir ?t x) = Some q \<and>
        i div unat (hal_entries_per_index (pt_hal ?t) (dir_depth (dir ?t q))) = unat (index_in_parent (dir ?t x)) \<and>
        unat (dir_depth (dir ?t x)) = Suc (unat (dir_depth (dir ?t q)))"
      using link_facts[OF links, of q i x] by (simp add: linked' keep dom fields)
  next
    show "linked ?t q i x \<Longrightarrow> linked ?t q j x \<Longrightarrow> i = j" for q i j x
      using link_unique[OF links] by (auto simp: linked')
  next
    fix q assume "pt_dirs ?t q \<noteq> None"
    then have "dir_ok t held q" using inv_dir[OF inv] by (simp add: dom)
    then show "dir_ok ?t held q"
      using ch refP by (cases "q = p") (auto simp: dir_ok_def same keep fields P children_def)
  next
    fix q i x assume l': "linked ?t q i x" "Some p \<noteq> Some x"
    then have "linked t q i x" "x \<noteq> d" using link_unique[OF links l] by (auto simp: linked')
    then show "ref_count (dir ?t x) \<noteq> 0" using inv_ref[OF inv, of q i x] l'(2) by (auto simp: same)
  next
    fix q assume q: "pt_dirs ?t q \<noteq> None" "\<not> in_tree ?t q"
    show "ref_count (dir ?t q) = 0"
    proof (cases "q = d")
      case True
      then show ?thesis using ref dp by (simp add: same)
    next
      case False
      then have "ref_count (dir t q) = 0" using inv_spare[OF inv, of q] q by (simp add: dom in_tree')
      moreover from this have "q \<noteq> p" using refP0 by auto
      ultimately show ?thesis by (simp add: same)
    qed
  next
    fix r assume r: "r \<in> set held"
    show "range_ok ?t r"
    proof (rule range_transfer[OF inv_range[OF inv r] fields])
      fix n m va k pp c
      assume w: "walk t (2 ^ k) va n = Some (rg_table r)" "m < n" "walk t (2 ^ k) va (Suc m) = Some c"
        and lk: "linked t pp (slot (pt_hal t) (2 ^ k) va m) c"
      have "c \<noteq> d"
      proof
        assume c: "c = d"
        have "0 < rg_entry_count r" using inv_range[OF inv r] by (auto simp: range_ok_def)
        then have "rg_table r \<noteq> d" using held_count_0[OF dref(2) r] by simp
        then have "Suc m \<noteq> n" using w c by auto
        then have "Suc (Suc m) \<le> n" using w(2) by simp
        then obtain x where "walk t (2 ^ k) va (Suc (Suc m)) = Some x" using walk_prefix[OF w(1)] by blast
        then show False using dref(1) w(3) c unfolding walk_Suc_iff[of t "2 ^ k" va "Suc m"] by auto
      qed
      then show "linked ?t pp (slot (pt_hal t) (2 ^ k) va m) c"
        using lk e_only by (auto simp: linked')
    qed
  qed
qed

lemma link_inv:
  assumes inv: "tree_inv_at t held pend" and p: "in_tree t p" "pt_dirs t p \<noteq> None" and c: "spare t c (Suc (unat (dir_depth (dir t p))))"
    and e: "e = unat (index_to_entry (pt_hal t) idx (dir_depth (dir t p)) ps)"
    and slot: "e < length (dir_entries (dir t p))" "dir_entries (dir t p) ! e = None"
      "e div unat (hal_entries_per_index (pt_hal t) (dir_depth (dir t p))) = unat idx"
    and room: "unat (ref_count (dir t p)) + 1 < 2 ^ 32" and pend: "pend = None \<or> pend = Some p"
  shows "tree_inv_at (link_cached p c idx ps t) held (Some c)"
    "linked (link_cached p c idx ps t) q i x \<longleftrightarrow> linked t q i x \<or> q = p \<and> i = e \<and> x = c"
    "pt_dirs (link_cached p c idx ps t) = (pt_dirs t)(c := Some ((dir t c)\<lparr>host_parent := Some p, index_in_parent := idx\<rparr>),
       p := Some ((dir t p)\<lparr>ref_count := ref_count (dir t p) + 1, dir_entries := (dir_entries (dir t p))[e := Some c]\<rparr>))"
    "pt_root (link_cached p c idx ps t) = pt_root t" "pt_hal (link_cached p c idx ps t) = pt_hal t"
    "dir (link_cached p c idx ps t) c = (dir t c)\<lparr>host_parent := Some p, index_in_parent := idx\<rparr>"
proof -
  let ?t = "link_cached p c idx ps t"
  let ?P = "dir t p"
  note links = inv_links[OF inv]
  have c': "pt_dirs t c \<noteq> None" "\<not> in_tree t c" "unat (dir_depth (dir t c)) = Suc (unat (dir_depth ?P))"
    using c by (simp_all add: spare_def)
  have cp: "c \<noteq> p" using p c' by auto
  have cr: "c \<noteq> pt_root t" using c' by (auto simp: in_tree_def)
  have t_eq: "?t = upd_dir p (\<lambda>r. r\<lparr>dir_entries := (dir_entries r)[e := Some c]\<rparr>)
      (upd_dir p (\<lambda>r. r\<lparr>ref_count := ref_count r + 1\<rparr>)
        (upd_dir c (\<lambda>r. r\<lparr>index_in_parent := idx\<rparr>) (upd_dir c (\<lambda>r. r\<lparr>host_parent := Some p\<rparr>) t)))"
    by (simp add: link_cached_def set_entry_def host_pde_write_def Let_def e)
  show fields: "pt_root ?t = pt_root t" "pt_hal ?t = pt_hal t" by (simp_all add: t_eq)
  have P: "dir ?t p = ?P\<lparr>ref_count := ref_count ?P + 1, dir_entries := (dir_entries ?P)[e := Some c]\<rparr>"
    using cp by (simp add: t_eq dir_upd)
  show C: "dir ?t c = (dir t c)\<lparr>host_parent := Some p, index_in_parent := idx\<rparr>"
    using cp by (simp add: t_eq dir_upd)
  show dirs: "pt_dirs ?t = (pt_dirs t)(c := Some ((dir t c)\<lparr>host_parent := Some p, index_in_parent := idx\<rparr>),
       p := Some (?P\<lparr>ref_count := ref_count ?P + 1, dir_entries := (dir_entries ?P)[e := Some c]\<rparr>))"
    using cp by (simp add: t_eq dir_upd fun_eq_iff)
  have same: "x \<noteq> p \<Longrightarrow> x \<noteq> c \<Longrightarrow> dir ?t x = dir t x" for x by (simp add: dirs dir_def)
  have dom: "pt_dirs ?t x = None \<longleftrightarrow> pt_dirs t x = None" for x using c'(1) p(2) by (simp add: dirs)
  have keep: "dir_depth (dir ?t x) = dir_depth (dir t x)"
    "x \<noteq> c \<Longrightarrow> host_parent (dir ?t x) = host_parent (dir t x)"
    "x \<noteq> c \<Longrightarrow> index_in_parent (dir ?t x) = index_in_parent (dir t x)" for x
    using cp by (simp_all add: dir_def dirs)
  show linked': "linked ?t q i x \<longleftrightarrow> linked t q i x \<or> q = p \<and> i = e \<and> x = c" for q i x
    using slot cp p(2) by (cases "q = p"; cases "q = c"; cases "i = e") (auto simp: linked_iff dom same P C)
  have nolink: "\<not> linked t q i c" for q i using c'(2) by (auto simp: in_tree_def)
  have in_tree': "in_tree ?t x \<longleftrightarrow> in_tree t x \<or> x = c" for x
    by (auto simp: in_tree_def linked' fields)
  have refP: "unat (ref_count ?P + 1) = unat (ref_count ?P) + 1"
    using room by (simp add: unat_word_ariths)
  show "tree_inv_at ?t held (Some c)"
  proof (rule inv_intro)
    show "pt_dirs ?t (pt_root ?t) \<noteq> None" "dir_depth (dir ?t (pt_root ?t)) = 0" "host_parent (dir ?t (pt_root ?t)) = None"
      using inv_root[OF inv] cr keep(2)[of "pt_root t"] by (auto simp: fields dom keep)
  next
    fix q i x assume "linked ?t q i x"
    then show "pt_dirs ?t x \<noteq> None \<and> host_parent (dir ?t x) = Some q \<and>
        i div unat (hal_entries_per_index (pt_hal ?t) (dir_depth (dir ?t q))) = unat (index_in_parent (dir ?t x)) \<and>
        unat (dir_depth (dir ?t x)) = Suc (unat (dir_depth (dir ?t q)))"
      using link_facts[OF links, of q i x] nolink c' slot(3)
      by (cases "x = c") (auto simp: linked' keep dom fields C)
  next
    show "linked ?t q i x \<Longrightarrow> linked ?t q j x \<Longrightarrow> i = j" for q i j x
      using link_unique[OF links] nolink by (auto simp: linked')
  next
    fix q assume "pt_dirs ?t q \<noteq> None"
    then have "dir_ok t held q" using inv_dir[OF inv] by (simp add: dom)
    moreover have "children (dir ?t p) = children ?P + 1"
      using children_update[OF slot(1), where r = ?P and v = "Some c"] slot(2) by (simp add: P children_def)
    ultimately show "dir_ok ?t held q"
      using refP cp by (cases "q = p"; cases "q = c") (auto simp: dir_ok_def same keep fields P C children_def)
  next
    fix q i x assume l': "linked ?t q i x" "Some c \<noteq> Some x"
    then have "ref_count (dir t x) \<noteq> 0 \<or> x = p" using inv_ref[OF inv, of q i x] pend by (auto simp: linked')
    moreover have "ref_count ?P + 1 \<noteq> 0" using refP by (metis add_is_0 one_neq_zero unat_0)
    ultimately show "ref_count (dir ?t x) \<noteq> 0" using l'(2) by (cases "x = p") (auto simp: same P)
  next
    fix q assume q: "pt_dirs ?t q \<noteq> None" "\<not> in_tree ?t q"
    then have "ref_count (dir t q) = 0" "q \<noteq> p" "q \<noteq> c" using inv_spare[OF inv, of q] p(1) by (auto simp: dom in_tree')
    then show "ref_count (dir ?t q) = 0" by (simp add: same)
  next
    fix r assume r: "r \<in> set held"
    show "range_ok ?t r"
      by (rule range_transfer[OF inv_range[OF inv r] fields]) (simp add: linked')
  qed
qed

lemma host_pde_clear_fields [simp]:
  "pt_root (host_pde_clear p idx ps t) = pt_root t" "pt_hal (host_pde_clear p idx ps t) = pt_hal t"
  "pt_dirs (host_pde_clear p idx ps t) = (pt_dirs t)(p := Some ((dir t p)\<lparr>
     dir_entries := (dir_entries (dir t p))[unat (index_to_entry (pt_hal t) idx (dir_depth (dir t p)) ps) := None],
     ref_count := ref_count (dir t p) - 1\<rparr>))"
  "pt_freed (host_pde_clear p idx ps t) = pt_freed t" "pt_pushes (host_pde_clear p idx ps t) = pt_pushes t"
  "pt_fake (host_pde_clear p idx ps t) = pt_fake t" "pt_tracker (host_pde_clear p idx ps t) = pt_tracker t"
  by (simp_all add: host_pde_clear_def set_entry_def Let_def dir_upd) (simp_all add: upd_dir_def)

text \<open>References taken on a directory by a range, or given up.\<close>

lemma held_count_Cons: "held_count (r # held) d = (if rg_table r = d then unat (rg_entry_count r) else 0) + held_count held d"
  by (simp add: held_count_def)

lemma held_count_remove1:
  "r \<in> set held \<Longrightarrow> held_count held d = (if rg_table r = d then unat (rg_entry_count r) else 0) + held_count (remove1 r held) d"
  by (induction held) (auto simp: held_count_def)

text \<open>Only reference counts and what is held change.\<close>

lemma ref_inv:
  assumes inv: "tree_inv_at t held pend" and d: "pt_dirs t d \<noteq> None"
    and ref: "unat ref = children (dir t d) + held_count held' d"
    and others: "\<And>p. p \<noteq> d \<Longrightarrow> held_count held' p = held_count held p"
    and ranges: "\<And>r. r \<in> set held' \<Longrightarrow> range_ok t r"
    and tree: "ref = 0 \<or> in_tree t d" and pend: "pend' = Some d \<or> ref \<noteq> 0 \<and> (pend = None \<or> pend = Some d \<and> pend' = None)"
    and pend_d: "pend = None \<or> pend = Some d"
  shows "tree_inv_at (upd_dir d (\<lambda>r. r\<lparr>ref_count := ref\<rparr>) t) held' pend'"
proof -
  let ?t = "upd_dir d (\<lambda>r. r\<lparr>ref_count := ref\<rparr>) t"
  have fields: "pt_root ?t = pt_root t" "pt_hal ?t = pt_hal t" by simp_all
  have dom: "pt_dirs ?t x = None \<longleftrightarrow> pt_dirs t x = None" for x using d by simp
  have dir': "dir ?t x = (if x = d then (dir t d)\<lparr>ref_count := ref\<rparr> else dir t x)" for x by (simp add: dir_upd)
  have keep: "dir_depth (dir ?t x) = dir_depth (dir t x)" "host_parent (dir ?t x) = host_parent (dir t x)"
    "index_in_parent (dir ?t x) = index_in_parent (dir t x)" "dir_entries (dir ?t x) = dir_entries (dir t x)"
    "children (dir ?t x) = children (dir t x)" for x
    by (simp_all add: dir' children_def)
  have linked': "linked ?t q i x \<longleftrightarrow> linked t q i x" for q i x by (simp add: linked_iff dom keep del: upd_dir_fields)
  have in_tree': "in_tree ?t x \<longleftrightarrow> in_tree t x" for x by (simp add: in_tree_def linked')
  show ?thesis
  proof (rule inv_intro)
    show "pt_dirs ?t (pt_root ?t) \<noteq> None" "dir_depth (dir ?t (pt_root ?t)) = 0" "host_parent (dir ?t (pt_root ?t)) = None"
      using inv_root[OF inv] by (simp_all add: dom keep fields del: upd_dir_fields)
  next
    show "linked ?t q i x \<Longrightarrow> pt_dirs ?t x \<noteq> None \<and> host_parent (dir ?t x) = Some q \<and>
        i div unat (hal_entries_per_index (pt_hal ?t) (dir_depth (dir ?t q))) = unat (index_in_parent (dir ?t x)) \<and>
        unat (dir_depth (dir ?t x)) = Suc (unat (dir_depth (dir ?t q)))" for q i x
      using link_facts[OF inv_links[OF inv], of q i x] by (simp add: linked' dom keep fields del: upd_dir_fields)
  next
    show "linked ?t q i x \<Longrightarrow> linked ?t q j x \<Longrightarrow> i = j" for q i j x
      using link_unique[OF inv_links[OF inv]] by (auto simp: linked')
  next
    fix q assume "pt_dirs ?t q \<noteq> None"
    then have "dir_ok t held q" using inv_dir[OF inv] by (simp add: dom del: upd_dir_fields)
    then show "dir_ok ?t held' q"
      using ref others by (cases "q = d") (simp_all add: dir_ok_def keep dir' children_def)
  next
    fix q i x assume l: "linked ?t q i x" "pend' \<noteq> Some x"
    then show "ref_count (dir ?t x) \<noteq> 0" using inv_ref[OF inv, of q i x] pend pend_d by (auto simp: linked' dir')
  next
    fix q assume "pt_dirs ?t q \<noteq> None" "\<not> in_tree ?t q"
    then show "ref_count (dir ?t q) = 0"
      using inv_spare[OF inv, of q] tree by (cases "q = d") (auto simp: dom in_tree' dir_upd simp del: upd_dir_fields)
  next
    fix r assume "r \<in> set held'"
    from ranges[OF this] show "range_ok ?t r" by (rule range_transfer[OF _ fields]) (simp add: linked')
  qed
qed

lemma take_refs_inv:
  assumes inv: "tree_inv_at t held pend" and d: "in_tree t (rg_table r)" "pt_dirs t (rg_table r) \<noteq> None"
    and r: "range_ok t r" and room: "unat (ref_count (dir t (rg_table r))) + unat (rg_entry_count r) < 2 ^ 32"
    and pend: "pend = None \<or> pend = Some (rg_table r)"
  shows "tree_inv_at (upd_dir (rg_table r) (\<lambda>q. q\<lparr>ref_count := ref_count (dir t (rg_table r)) + rg_entry_count r\<rparr>) t) (r # held) None"
proof (rule ref_inv[OF inv d(2)])
  have "unat (ref_count (dir t (rg_table r)) + rg_entry_count r) = unat (ref_count (dir t (rg_table r))) + unat (rg_entry_count r)"
    using room by (simp add: unat_word_ariths)
  then show "unat (ref_count (dir t (rg_table r)) + rg_entry_count r) = children (dir t (rg_table r)) + held_count (r # held) (rg_table r)"
    and "None = Some (rg_table r) \<or> ref_count (dir t (rg_table r)) + rg_entry_count r \<noteq> 0 \<and>
      (pend = None \<or> pend = Some (rg_table r) \<and> None = None)"
    using inv_dir[OF inv d(2)] r pend by (auto simp: dir_ok_def held_count_Cons range_ok_def word_greater_zero_iff unat_gt_0[symmetric])
  show "\<And>p. p \<noteq> rg_table r \<Longrightarrow> held_count (r # held) p = held_count held p" by (simp add: held_count_Cons)
  show "\<And>q. q \<in> set (r # held) \<Longrightarrow> range_ok t q" using r inv_range[OF inv] by auto
qed (use d pend in auto)

lemma drop_refs_inv:
  assumes inv: "tree_inv_at t held None" and r: "r \<in> set held" and cnt: "cnt \<le> rg_entry_count r"
    and held': "\<And>p. held_count held' p + (if p = rg_table r then unat cnt else 0) = held_count held p"
    and ranges: "\<And>q. q \<in> set held' \<Longrightarrow> range_ok t q"
  shows "tree_inv_at (upd_dir (rg_table r) (\<lambda>q. q\<lparr>ref_count := ref_count (dir t (rg_table r)) - cnt\<rparr>) t) held' (Some (rg_table r))"
    "in_tree t (rg_table r) \<and> pt_dirs t (rg_table r) \<noteq> None"
    "unat (ref_count (dir t (rg_table r)) - cnt) = children (dir t (rg_table r)) + held_count held' (rg_table r)"
proof -
  show d: "in_tree t (rg_table r) \<and> pt_dirs t (rg_table r) \<noteq> None"
    using range_in_tree[OF inv inv_range[OF inv r]] by blast
  have ok: "dir_ok t held (rg_table r)" using inv_dir[OF inv] d by blast
  have oth: "p \<noteq> rg_table r \<Longrightarrow> held_count held' p = held_count held p" for p using held'[of p] by simp
  from ok have "unat cnt \<le> unat (ref_count (dir t (rg_table r)))"
    using held'[of "rg_table r"] by (simp add: dir_ok_def)
  then have sub: "unat (ref_count (dir t (rg_table r)) - cnt) = unat (ref_count (dir t (rg_table r))) - unat cnt"
    by (simp add: unat_sub word_le_nat_alt)
  then show c: "unat (ref_count (dir t (rg_table r)) - cnt) = children (dir t (rg_table r)) + held_count held' (rg_table r)"
    using ok held'[of "rg_table r"] by (simp add: dir_ok_def)
  show "tree_inv_at (upd_dir (rg_table r) (\<lambda>q. q\<lparr>ref_count := ref_count (dir t (rg_table r)) - cnt\<rparr>) t) held' (Some (rg_table r))"
    by (rule ref_inv[OF inv _ c]) (use d ranges oth in auto)
qed

lemma linked_cong: "pt_dirs t' = pt_dirs t \<Longrightarrow> linked t' = linked t"
  by (simp add: linked_def fun_eq_iff)

lemma walk_cong: "pt_dirs t' = pt_dirs t \<Longrightarrow> pt_root t' = pt_root t \<Longrightarrow> pt_hal t' = pt_hal t \<Longrightarrow> walk t' ps va n = walk t ps va n"
  by (induction n) (simp_all cong: option.case_cong if_cong)

text \<open>The invariant is about the directories only.\<close>

definition same_dirs :: "uvm_page_tree \<Rightarrow> uvm_page_tree \<Rightarrow> bool" where
  "same_dirs t t' \<longleftrightarrow> pt_dirs t' = pt_dirs t \<and> pt_root t' = pt_root t \<and> pt_hal t' = pt_hal t"

lemma same_dirs_cong:
  assumes "same_dirs t t'"
  shows "tree_inv_at t' held pend = tree_inv_at t held pend" "spare t' c n = spare t c n" "dir t' = dir t" "in_tree t' = in_tree t"
    "linked t' = linked t" "walk t' ps va n = walk t ps va n" "range_ok t' r = range_ok t r"
    "pt_dirs t' = pt_dirs t" "pt_root t' = pt_root t" "pt_hal t' = pt_hal t"
proof -
  show f: "pt_dirs t' = pt_dirs t" "pt_root t' = pt_root t" "pt_hal t' = pt_hal t" using assms by (simp_all add: same_dirs_def)
  show l: "linked t' = linked t" using f linked_cong by blast
  show w: "walk t' ps va n = walk t ps va n" for ps va n using f walk_cong by blast
  show d: "dir t' = dir t" using f by (simp add: dir_def fun_eq_iff)
  show i: "in_tree t' = in_tree t" by (simp add: in_tree_def f l fun_eq_iff)
  show r: "range_ok t' r = range_ok t r" for r by (simp add: range_ok_def f w)
  show "spare t' c n = spare t c n" by (simp add: spare_def f d i)
  show "tree_inv_at t' held pend = tree_inv_at t held pend"
    by (simp add: tree_inv_at_def links_ok_def dir_ok_def f l d i r)
qed

lemma same_dirs_simps [simp]:
  "same_dirs t (t\<lparr>pt_tracker := tr\<rparr>)" "same_dirs t (t\<lparr>pt_pushes := pu\<rparr>)" "same_dirs t (t\<lparr>pt_freed := fr\<rparr>)" "same_dirs t t"
  by (simp_all add: same_dirs_def)

lemma same_dirs_trans: "same_dirs t t' \<Longrightarrow> same_dirs t' t'' \<Longrightarrow> same_dirs t t''"
  by (simp add: same_dirs_def)

text \<open>A spare directory has no links and no references; it may go, or come.\<close>

lemma spare_no_links:
  assumes "tree_inv_at t held pend" "spare t c n"
  shows "\<not> linked t c i x" "\<not> linked t q i c" "c \<noteq> pt_root t" "held_count held c = 0" "ref_count (dir t c) = 0" "children (dir t c) = 0"
proof -
  have c: "pt_dirs t c \<noteq> None" "\<not> in_tree t c" using assms(2) by (simp_all add: spare_def)
  then show r: "ref_count (dir t c) = 0" using inv_spare[OF assms(1)] by simp
  show "\<not> linked t c i x" "held_count held c = 0" "children (dir t c) = 0" using ref_0_no_links[OF assms(1) c(1) r] by simp_all
  show "\<not> linked t q i c" "c \<noteq> pt_root t" using c(2) by (auto simp: in_tree_def)
qed

lemma dirs_outside_inv:
  assumes inv: "tree_inv_at t held pend" and root: "pt_root t' = pt_root t" and hal: "pt_hal t' = pt_hal t"
    and linked': "\<And>p i d. linked t' p i d \<longleftrightarrow> linked t p i d"
    and keep: "\<And>d. in_tree t d \<Longrightarrow> pt_dirs t' d = pt_dirs t d"
    and ok: "\<And>p. pt_dirs t' p \<noteq> None \<Longrightarrow> \<not> in_tree t p \<Longrightarrow> dir_ok t' held p \<and> ref_count (dir t' p) = 0"
  shows "tree_inv_at t' held pend"
proof -
  have dir': "in_tree t d \<Longrightarrow> dir t' d = dir t d" for d by (simp add: dir_def keep)
  have in_tree': "in_tree t' d = in_tree t d" for d by (simp add: in_tree_def linked' root)
  have intree: "linked t p i d \<Longrightarrow> in_tree t p \<and> in_tree t d" for p i d
  proof -
    assume l: "linked t p i d"
    have "in_tree t p"
    proof (rule ccontr)
      assume "\<not> in_tree t p"
      then have "spare t p (unat (dir_depth (dir t p)))" using link_facts(3)[OF inv_links[OF inv] l] by (simp add: spare_def)
      then show False using spare_no_links(1)[OF inv] l by blast
    qed
    then show ?thesis using l by (auto simp: in_tree_def)
  qed
  show ?thesis
  proof (rule inv_intro)
    show "pt_dirs t' (pt_root t') \<noteq> None" "dir_depth (dir t' (pt_root t')) = 0" "host_parent (dir t' (pt_root t')) = None"
      using inv_root[OF inv] keep[of "pt_root t"] dir'[of "pt_root t"] by (simp_all add: root in_tree_def)
  next
    fix p i d assume "linked t' p i d"
    then show "pt_dirs t' d \<noteq> None \<and> host_parent (dir t' d) = Some p \<and>
        i div unat (hal_entries_per_index (pt_hal t') (dir_depth (dir t' p))) = unat (index_in_parent (dir t' d)) \<and>
        unat (dir_depth (dir t' d)) = Suc (unat (dir_depth (dir t' p)))"
      using link_facts[OF inv_links[OF inv], of p i d] intree[of p i d] by (simp add: linked' keep dir' hal)
  next
    show "linked t' p i d \<Longrightarrow> linked t' p j d \<Longrightarrow> i = j" for p i j d
      using link_unique[OF inv_links[OF inv]] by (auto simp: linked')
  next
    fix p assume p: "pt_dirs t' p \<noteq> None"
    show "dir_ok t' held p"
    proof (cases "in_tree t p")
      case True
      then have "dir_ok t held p" using inv_dir[OF inv] p keep by simp
      then show ?thesis using dir'[OF True] by (simp add: dir_ok_def hal)
    qed (use ok[OF p] in blast)
  next
    show "linked t' p i d \<Longrightarrow> pend \<noteq> Some d \<Longrightarrow> ref_count (dir t' d) \<noteq> 0" for p i d
      using inv_ref[OF inv, of p i d] intree[of p i d] by (auto simp: linked' dir')
  next
    show "pt_dirs t' p \<noteq> None \<Longrightarrow> \<not> in_tree t' p \<Longrightarrow> ref_count (dir t' p) = 0" for p
      using ok by (simp add: in_tree')
  next
    show "r \<in> set held \<Longrightarrow> range_ok t' r" for r
      by (rule range_transfer[OF inv_range[OF inv] root hal]) (simp_all add: linked')
  qed
qed

lemma free_dir_fields [simp]:
  "pt_root (free_dir d t) = pt_root t" "pt_hal (free_dir d t) = pt_hal t" "pt_tracker (free_dir d t) = pt_tracker t"
  "pt_pushes (free_dir d t) = pt_pushes t" "pt_dirs (free_dir d t) = (pt_dirs t)(d := None)" "pt_fake (free_dir d t) = pt_fake t"
  "pt_freed (free_dir d t) = pt_freed t @ [(alloc_handle (phys_alloc (dir t d)),
     if is_sys t d then None else Some (pt_tracker t))]"
  by (simp_all add: free_dir_def kvfree_dir_def phys_mem_deallocate_def Let_def phys_mem_deallocate_sysmem_def
      phys_mem_deallocate_vidmem_def upd_dir_def is_sys_def)

lemma free_dir_inv:
  assumes inv: "tree_inv_at t held pend" and c: "spare t c n"
  shows "tree_inv_at (free_dir c t) held pend" "linked (free_dir c t) p i d = linked t p i d"
    "x \<noteq> c \<Longrightarrow> spare (free_dir c t) x m = spare t x m" "in_tree (free_dir c t) d = in_tree t d"
    "x \<noteq> c \<Longrightarrow> dir (free_dir c t) x = dir t x"
proof -
  note sp = spare_no_links[OF inv c]
  show l: "linked (free_dir c t) p i d = linked t p i d" for p i d
    using sp(1)[of i d] by (cases "p = c") (auto simp: linked_def)
  show it: "in_tree (free_dir c t) d = in_tree t d" for d by (simp add: in_tree_def l)
  show d: "x \<noteq> c \<Longrightarrow> dir (free_dir c t) x = dir t x" for x by (simp add: dir_def)
  show "x \<noteq> c \<Longrightarrow> spare (free_dir c t) x m = spare t x m" by (simp add: spare_def it d)
  show "tree_inv_at (free_dir c t) held pend"
  proof (rule dirs_outside_inv[OF inv _ _ l])
    show "in_tree t d \<Longrightarrow> pt_dirs (free_dir c t) d = pt_dirs t d" for d using c by (auto simp: spare_def)
    show "pt_dirs (free_dir c t) p \<noteq> None \<Longrightarrow> \<not> in_tree t p \<Longrightarrow> dir_ok (free_dir c t) held p \<and> ref_count (dir (free_dir c t) p) = 0" for p
      using inv_dir[OF inv, of p] inv_spare[OF inv, of p] by (cases "p = c") (auto simp: dir_ok_def d)
  qed simp_all
qed

text \<open>Allocation: nothing, or a new spare directory.\<close>

lemma phys_mem_allocate_dirs: "phys_mem_allocate fuel oc t sz loc = Some (status, a, t') \<Longrightarrow> same_dirs t t' \<and> pt_fake t' = pt_fake t \<and> pt_pushes t' = pt_pushes t \<and>
    pt_location t' = pt_location t"
  by (auto simp: phys_mem_allocate_def phys_mem_allocate_sysmem_def phys_mem_allocate_vidmem_def Let_def same_dirs_def
      split: if_splits prod.splits option.splits)

lemma allocate_directory_cases:
  assumes "allocate_directory ap fuel oc t ps n = Some (c, t')"
  obtains (none) "c = None" "same_dirs t t'"
  | (some) d a where "c = Some d" "ao_dir oc = Some d"
      "pt_dirs t' = (pt_dirs t)(d := Some \<lparr>host_parent = None, index_in_parent = 0, phys_alloc = a, ref_count = 0, dir_depth = n,
         dir_entries = replicate (unat (dir_entry_count (pt_hal t) n ps)) None\<rparr>)"
      "pt_root t' = pt_root t" "pt_hal t' = pt_hal t"
proof (cases "ao_dir oc")
  case None
  with assms show ?thesis using none by (simp add: allocate_directory_def allocate_directory_with_location_def Let_def)
next
  case (Some d)
  with assms obtain status a t1 where p: "phys_mem_allocate fuel oc t (hal_allocation_size (pt_hal t) n ps)
      (page_tree_pick_location_for_dir ap t) = Some (status, a, t1)"
    by (auto simp: allocate_directory_def allocate_directory_with_location_def Let_def split: option.splits)
  from phys_mem_allocate_dirs[OF p] have s: "same_dirs t t1" by simp
  show ?thesis
  proof (cases "status = NV_OK")
    case True
    then show ?thesis
      using assms Some p s by (intro some[of d a])
        (auto simp: allocate_directory_def allocate_directory_with_location_def Let_def same_dirs_def)
  next
    case False
    then show ?thesis
      using assms Some p s none by (simp add: allocate_directory_def allocate_directory_with_location_def Let_def)
  qed
qed

lemma alloc_inv:
  assumes inv: "tree_inv_at t held pend" and d: "pt_dirs t d = None"
    and t': "pt_dirs t' = (pt_dirs t)(d := Some \<lparr>host_parent = None, index_in_parent = 0, phys_alloc = a, ref_count = 0, dir_depth = n,
         dir_entries = replicate (unat (dir_entry_count (pt_hal t) n ps)) None\<rparr>)"
      "pt_root t' = pt_root t" "pt_hal t' = pt_hal t"
    and n: "unat n \<le> unat (hal_page_table_depth (pt_hal t) UVM_PAGE_SIZE_AGNOSTIC)"
      "dir_entry_count (pt_hal t) n ps = dir_entry_count (pt_hal t) n UVM_PAGE_SIZE_AGNOSTIC"
  shows "tree_inv_at t' held pend" "spare t' d (unat n)" "spare t x m \<Longrightarrow> spare t' x m" "linked t' p i c = linked t p i c"
    "in_tree t' c = in_tree t c"
proof -
  have it0: "in_tree t x \<Longrightarrow> x \<noteq> d" for x
    using d inv_root(1)[OF inv] link_facts(1)[OF inv_links[OF inv], where d = d] by (auto simp: in_tree_def)
  show l: "linked t' p i c = linked t p i c" for p i c
    using d by (cases "p = d") (auto simp: linked_def t')
  show it: "in_tree t' c = in_tree t c" for c by (simp add: in_tree_def l t')
  have dir': "x \<noteq> d \<Longrightarrow> dir t' x = dir t x" for x by (simp add: dir_def t')
  have held_d: "held_count held d = 0"
  proof -
    have "rg_table r \<noteq> d" if r: "r \<in> set held" for r
      using range_in_tree(1)[OF inv inv_range[OF inv r]] it0 by blast
    then show ?thesis by (induction held) (auto simp: held_count_def)
  qed
  show "spare t' d (unat n)" using it0[of d] by (auto simp: spare_def it t' dir_def)
  show "spare t x m \<Longrightarrow> spare t' x m" using d dir'[of x] by (auto simp: spare_def it t')
  show "tree_inv_at t' held pend"
  proof (rule dirs_outside_inv[OF inv t'(2,3) l])
    show "in_tree t c \<Longrightarrow> pt_dirs t' c = pt_dirs t c" for c using it0[of c] by (simp add: t')
    fix p assume p: "pt_dirs t' p \<noteq> None" "\<not> in_tree t p"
    show "dir_ok t' held p \<and> ref_count (dir t' p) = 0"
    proof (cases "p = d")
      case True
      then show ?thesis using n held_d by (simp add: dir_ok_def dir_def t' children_def)
    next
      case False
      then show ?thesis using inv_dir[OF inv, of p] inv_spare[OF inv, of p] p by (simp add: dir_ok_def dir' t')
    qed
  qed
qed

end
