(* ===== verification/Page_Tree_Ops.thy ===== *)
theory Page_Tree_Ops
  imports Page_Tree_Inv
begin

text \<open>
  The operations of the page tree against its invariant: putting entries always ends and leaves the
  tree the remaining ranges need, getting them ends after at most as many allocations as the tree has
  levels, and a failed attempt changes nothing that is in the tree.
\<close>

section \<open>Slots\<close>

context tree_format
begin

lemma va_index_less: "page_exp hal k \<Longrightarrow> d \<le> pt_depth hal k \<Longrightarrow>
    unat (va_index hal (2 ^ k) va d) < 2 ^ unat (hal_index_bits hal (of_nat d) (2 ^ k))"
  by (simp add: va_index_eq)

lemma entry_eq:
  assumes "unat idx < 2 ^ 16"
  shows "unat (index_to_entry hal idx d32 p) = unat (hal_entries_per_index hal d32) * unat idx + unat (hal_entry_offset hal d32 p)"
    "unat (index_to_entry hal idx d32 p) div unat (hal_entries_per_index hal d32) = unat idx"
proof -
  let ?e = "unat (hal_entries_per_index hal d32)" and ?o = "unat (hal_entry_offset hal d32 p)"
  have o: "?o < ?e" "?e \<le> 2" using offset entries_per_index_small by simp_all
  have "?e * unat idx \<le> 2 * 2 ^ 16" by (rule mult_le_mono) (use o assms in auto)
  then have b: "?e * unat idx + ?o < 2 ^ 32" using o by simp
  have "unat (ucast (hal_entry_offset hal d32 p) :: u32) = ?o"
    using o by (simp add: unsigned_ucast_eq take_bit_nat_eq_self)
  then show eq: "unat (index_to_entry hal idx d32 p) = ?e * unat idx + ?o"
    using b by (simp add: index_to_entry_def unat_word_ariths)
  show "unat (index_to_entry hal idx d32 p) div ?e = unat idx"
    unfolding eq using o by simp
qed

lemma slot_facts:
  assumes k: "page_exp hal k" and d: "d < pt_depth hal k"
  shows "slot hal (2 ^ k) va d div unat (hal_entries_per_index hal (of_nat d)) = unat (va_index hal (2 ^ k) va d)"
    "slot hal (2 ^ k) va d < unat (dir_entry_count hal (of_nat d) UVM_PAGE_SIZE_AGNOSTIC)"
proof -
  let ?i = "va_index hal (2 ^ k) va d" and ?b = "unat (hal_index_bits hal (of_nat d) (2 ^ k))"
  have i: "unat ?i < 2 ^ ?b" using va_index_less[OF k] d by simp
  have "(2::nat) ^ ?b \<le> 2 ^ 16" using index_bits_small[OF k, of d] d by (intro power_increasing) auto
  then have i16: "unat ?i < 2 ^ 16" using i by linarith
  note e = entry_eq[OF i16, of "of_nat d" "2 ^ k"]
  show "slot hal (2 ^ k) va d div unat (hal_entries_per_index hal (of_nat d)) = unat ?i"
    unfolding slot_def by (rule e(2))
  have "slot hal (2 ^ k) va d < unat (hal_entries_per_index hal (of_nat d)) * (unat ?i + 1)"
    using offset[of "of_nat d" "2 ^ k"] by (simp add: slot_def e(1))
  also have "\<dots> \<le> unat (hal_entries_per_index hal (of_nat d)) * 2 ^ ?b"
    using i by (intro mult_le_mono2) simp
  also have "\<dots> = unat (dir_entry_count hal (of_nat d) UVM_PAGE_SIZE_AGNOSTIC)"
    using entry_count_eq[of d] depth_range[OF k] d agnostic[OF k d] by simp
  finally show "slot hal (2 ^ k) va d < unat (dir_entry_count hal (of_nat d) UVM_PAGE_SIZE_AGNOSTIC)" .
qed

end

lemma depth_word: "unat (w :: u32) = n \<Longrightarrow> w = of_nat n"
  by auto

section \<open>Putting entries\<close>

lemma pend_drop:
  assumes "tree_inv_at t held (Some d)" "d = pt_root t \<or> ref_count (dir t d) \<noteq> 0"
  shows "tree_inv_at t held None"
proof (rule inv_intro)
  show "pt_dirs t (pt_root t) \<noteq> None" "dir_depth (dir t (pt_root t)) = 0" "host_parent (dir t (pt_root t)) = None"
    using inv_root[OF assms(1)] .
  show "linked t p i d \<Longrightarrow> pt_dirs t d \<noteq> None \<and> host_parent (dir t d) = Some p \<and>
      i div unat (hal_entries_per_index (pt_hal t) (dir_depth (dir t p))) = unat (index_in_parent (dir t d)) \<and>
      unat (dir_depth (dir t d)) = Suc (unat (dir_depth (dir t p)))" for p i d
    using link_facts[OF inv_links[OF assms(1)], of p i d] by simp
  show "linked t p i d \<Longrightarrow> linked t p j d \<Longrightarrow> i = j" for p i j d
    using link_unique[OF inv_links[OF assms(1)]] by blast
  show "pt_dirs t p \<noteq> None \<Longrightarrow> dir_ok t held p" for p using inv_dir[OF assms(1)] .
  show "linked t p i x \<Longrightarrow> None \<noteq> Some x \<Longrightarrow> ref_count (dir t x) \<noteq> 0" for p i x
    using inv_ref[OF assms(1), of p i x] assms(2) not_root_linked[OF assms(1), of p i x] by auto
  show "pt_dirs t p \<noteq> None \<Longrightarrow> \<not> in_tree t p \<Longrightarrow> ref_count (dir t p) = 0" for p using inv_spare[OF assms(1)] .
  show "r \<in> set held \<Longrightarrow> range_ok t r" for r using inv_range[OF assms(1)] .
qed

definition queue :: "put_state option \<Rightarrow> dir_id list" where
  "queue ps = (case ps of None \<Rightarrow> [] | Some s \<Rightarrow> ps_free_queue s)"

lemma begin_acquire_same: "begin_acquire_tree bg t = (status, push, t') \<Longrightarrow> same_dirs t t' \<and> status = bg_status bg \<and>
    pt_fake t' = pt_fake t \<and> pt_freed t' = pt_freed t \<and> pt_pushes t' = pt_pushes t \<and> push = \<lparr>cp_push = bg_push bg, cp_ops = []\<rparr>"
  by (auto simp: begin_acquire_tree_def page_tree_begin_acquire_def Let_def)

lemma walk_unchanged:
  assumes inv: "tree_inv_at t held pend" and w: "walk t ps va n = Some d"
    and t': "pt_root t' = pt_root t" "pt_hal t' = pt_hal t"
    and keep: "\<And>p i c. linked t p i c \<Longrightarrow> unat (dir_depth (dir t p)) < n \<Longrightarrow> linked t' p i c"
  shows "walk t' ps va n = Some d"
  by (rule walk_transfer[OF t' w]) (use walk_facts[OF inv] keep in metis)

text \<open>The directories added to the queue have left the tree; they are spare now.\<close>

definition unlinked_unused ::
  "uvm_page_tree \<Rightarrow> uvm_page_table_range list \<Rightarrow> dir_id list \<Rightarrow> uvm_page_tree \<Rightarrow> dir_id list \<Rightarrow> bool" where
  "unlinked_unused t held q t' q' \<longleftrightarrow>
     tree_inv_at t' held None \<and> distinct q' \<and> set q \<subseteq> set q' \<and> (\<forall>x \<in> set q'. \<exists>m. spare t' x m) \<and>
     (\<forall>x. (\<exists>m. spare t' x m) \<longleftrightarrow> (\<exists>m. spare t x m) \<or> x \<in> set q') \<and>
     (\<forall>x \<in> set q' - set q. in_tree t x) \<and> (\<forall>x m. spare t x m \<longrightarrow> spare t' x m) \<and>
     (\<forall>x. (pt_dirs t' x = None) = (pt_dirs t x = None)) \<and> (\<forall>x. phys_alloc (dir t' x) = phys_alloc (dir t x))"

lemma put_loop_ok:
  assumes "tree_format (pt_hal t)" "page_exp (pt_hal t) k" "tree_inv_at t held (Some d)" "walk t (2 ^ k) va n = Some d"
    and "n \<le> pt_depth (pt_hal t) k" "n < fuel" "\<forall>x \<in> set (queue ps). \<exists>m. spare t x m" "distinct (queue ps)"
  shows "\<exists>status ps' t'. put_loop fuel bg (2 ^ k) d ps t = Some (status, ps', t') \<and>
    pt_root t' = pt_root t \<and> pt_hal t' = pt_hal t \<and> pt_freed t' = pt_freed t \<and> pt_pushes t' = pt_pushes t \<and> pt_fake t' = pt_fake t \<and>
    (status \<noteq> NV_OK \<and> ps = None \<and> ps' = None \<and> status = bg_status bg \<and> same_dirs t t' \<or>
     status = NV_OK \<and> unlinked_unused t held (queue ps) t' (queue ps') \<and> (ps = None \<and> ps' \<noteq> None \<longrightarrow> bg_status bg = NV_OK))"
  using assms
proof (induction fuel arbitrary: t d ps n)
  case (Suc fuel)
  note inv = Suc.prems(3)
  note links = inv_links[OF inv]
  show ?case
  proof (cases n)
    case 0
    then have "d = pt_root t" using Suc.prems(4) by simp
    then show ?thesis using inv_root(3)[OF inv] pend_drop[OF inv] Suc.prems(7,8) by (auto simp: unlinked_unused_def)
  next
    case (Suc m)
    then obtain p where p: "walk t (2 ^ k) va m = Some p" "linked t p (slot (pt_hal t) (2 ^ k) va m) d"
      using Suc.prems(4) by (auto simp only: walk_Suc_iff)
    note lf = link_facts[OF links p(2)]
    show ?thesis
    proof (cases "ref_count (dir t d) = 0")
      case False
      then show ?thesis using lf(2) pend_drop[OF inv] Suc.prems(7,8) by (auto simp: unlinked_unused_def)
    next
      case ref: True
      obtain status s t1 where b: "(case ps of
                  Some s \<Rightarrow> (NV_OK, s, t)
                | None \<Rightarrow>
                    let (status, push, t) = begin_acquire_tree bg t
                    in (status, \<lparr>ps_push = push, ps_free_queue = [], ps_invalidate_depth = 0,
                          ps_after_pde_clears = UVM_MEMBAR_GPU, ps_after_invalidate = UVM_MEMBAR_GPU\<rparr>, t)) = (status, s, t1)"
        by (metis surj_pair)
      then have t1: "same_dirs t t1" "pt_freed t1 = pt_freed t" "pt_pushes t1 = pt_pushes t" "pt_fake t1 = pt_fake t"
        "ps_free_queue s = queue ps" "ps = None \<longrightarrow> status = bg_status bg" "ps \<noteq> None \<longrightarrow> status = NV_OK"
        using begin_acquire_same[of bg t]
        by (auto simp: queue_def Let_def split: option.splits prod.splits)
      show ?thesis
      proof (cases "status = NV_OK")
        case False
        then show ?thesis using lf(2) ref b t1 by (auto simp: same_dirs_def)
      next
        case True
        note c = same_dirs_cong[OF t1(1)]
        obtain s' t2 where st: "put_step (2 ^ k) d p s t1 = (s', t2)" by (cases "put_step (2 ^ k) d p s t1")
        have t2: "t2 = host_pde_clear p (index_in_parent (dir t d)) (2 ^ k) t1" "ps_free_queue s' = queue ps @ [d]"
          using st t1(5) by (auto simp: put_step_def pde_clear_def Let_def c)
        have inv1: "tree_inv_at t1 held (Some d)" using inv by (simp add: c)
        have m: "m < pt_depth (pt_hal t) k" using Suc Suc.prems(5) by simp
        have pd: "dir_depth (dir t p) = of_nat m" using walk_facts[OF inv p(1)] depth_word by blast
        have "index_in_parent (dir t d) = va_index (pt_hal t) (2 ^ k) va m"
          using lf(4) tree_format.slot_facts(1)[OF Suc.prems(1,2) m, of va] by (simp add: pd word_unat_eq_iff)
        then have e: "slot (pt_hal t) (2 ^ k) va m = unat (index_to_entry (pt_hal t1) (index_in_parent (dir t d)) (dir_depth (dir t1 p)) (2 ^ k))"
          by (simp add: slot_def c pd)
        note u = unlink_inv[OF inv1 p(2)[folded c(5)] ref[folded c(3)] e, folded t2(1)]
        have w2: "walk t2 (2 ^ k) va m = Some p"
        proof (rule walk_unchanged[OF inv p(1)])
          fix q i x assume "linked t q i x" "unat (dir_depth (dir t q)) < m"
          moreover have "unat (dir_depth (dir t p)) = m" using walk_facts[OF inv p(1)] by blast
          ultimately show "linked t2 q i x" using u(3)[of q i x] by (auto simp: c)
        qed (simp_all add: t2 c)
        have qs: "queue (Some s') = queue ps @ [d]" by (simp add: queue_def[of "Some s'"] t2(2))
        have sp_iff: "(\<exists>m. spare t2 x m) \<longleftrightarrow> (\<exists>m. spare t x m) \<or> x = d" for x
          using u(5) lf(1,3) by (simp add: spare_iff t2(1) c) (auto simp: spare_iff)
        have sp: "\<forall>x \<in> set (queue (Some s')). \<exists>m. spare t2 x m"
          unfolding qs sp_iff using Suc.prems(7) by auto
        have dist: "distinct (queue (Some s'))"
          unfolding qs using Suc.prems(7,8) p(2) by (auto simp: spare_def in_tree_def)
        have eq: "put_loop (Suc fuel) bg (2 ^ k) d ps t = put_loop fuel bg (2 ^ k) p (Some s') t2"
          using lf(2) ref b True st by simp
        have f: "m < fuel" "m \<le> pt_depth (pt_hal t2) k" "pt_hal t2 = pt_hal t" "pt_root t2 = pt_root t"
          "pt_freed t2 = pt_freed t" "pt_pushes t2 = pt_pushes t" "pt_fake t2 = pt_fake t"
          "phys_alloc (dir t2 x) = phys_alloc (dir t x)" for x
          using Suc.prems(5,6) Suc by (simp_all add: t2 t1 c) (simp add: dir_def t1 c)
        have more: "in_tree t2 x \<Longrightarrow> in_tree t x" "in_tree t d" "spare t x m \<Longrightarrow> spare t2 x m"
          "(pt_dirs t2 x = None) = (pt_dirs t x = None)" for x m
          using u(4,5) p(2) lf(3) by (auto simp: c in_tree_def t2(1)) 
        have tree: "\<forall>x \<in> set q - set (queue ps @ [d]). in_tree t2 x \<Longrightarrow> \<forall>x \<in> set q - set (queue ps). in_tree t x" for q
          using more(1,2) by fastforce
        have bg: "ps = None \<Longrightarrow> bg_status bg = NV_OK" using t1(6) True by simp
        have "tree_format (pt_hal t2)" "page_exp (pt_hal t2) k" using Suc.prems(1,2) f(3) by simp_all
        from Suc.IH[OF this u(1) w2 f(2,1) sp dist]
        show ?thesis unfolding eq f(3-7) unlinked_unused_def sp_iff f(8) qs
          by (elim exE conjE disjE) (use bg more(3,4) tree in \<open>auto simp del: put_loop.simps\<close>)
      qed
    qed
  qed
qed simp

definition freed_with :: "uvm_page_tree \<Rightarrow> uvm_tracker \<Rightarrow> dir_id \<Rightarrow> nat \<times> uvm_tracker option" where
  "freed_with t tracker d = (alloc_handle (phys_alloc (dir t d)), if is_sys t d then None else Some tracker)"

lemma fold_free:
  assumes "tree_inv_at t held pend" "\<forall>x \<in> set q. \<exists>m. spare t x m" "distinct q"
  shows "tree_inv_at (fold free_dir q t) held pend \<and> pt_root (fold free_dir q t) = pt_root t \<and> pt_hal (fold free_dir q t) = pt_hal t \<and>
    (\<forall>x. pt_dirs (fold free_dir q t) x = (if x \<in> set q then None else pt_dirs t x)) \<and>
    pt_tracker (fold free_dir q t) = pt_tracker t \<and> (\<forall>x. in_tree (fold free_dir q t) x = in_tree t x) \<and>
    (\<forall>p i x. linked (fold free_dir q t) p i x = linked t p i x) \<and> pt_pushes (fold free_dir q t) = pt_pushes t \<and>
    pt_freed (fold free_dir q t) = pt_freed t @ map (freed_with t (pt_tracker t)) q"
  using assms
proof (induction q arbitrary: t)
  case (Cons d q)
  then obtain m where d: "spare t d m" by auto
  note f = free_dir_inv[OF Cons.prems(1) d]
  have "\<forall>x \<in> set q. \<exists>m. spare (free_dir d t) x m" "distinct q"
    using Cons.prems(2,3) f(3) by (metis distinct.simps(2) list.set_intros(2))+
  note IH = Cons.IH[OF f(1) this]
  have "map (freed_with (free_dir d t) (pt_tracker t)) q = map (freed_with t (pt_tracker t)) q"
  proof (rule map_cong[OF refl])
    fix x assume "x \<in> set q"
    then have "x \<noteq> d" using Cons.prems(3) by auto
    then have "dir (free_dir d t) x = dir t x" by (rule f(5))
    then show "freed_with (free_dir d t) (pt_tracker t) x = freed_with t (pt_tracker t) x" by (simp add: freed_with_def is_sys_def)
  qed
  then show ?case using IH Cons.prems(3) by (simp add: f(2,4) freed_with_def)
qed simp

lemma end_push_same:
  "same_dirs t (page_tree_tracker_overwrite_with_push kv push (page_tree_end push t))"
  "pt_freed (page_tree_tracker_overwrite_with_push kv push (page_tree_end push t)) = pt_freed t"
  "pt_pushes (page_tree_tracker_overwrite_with_push kv push (page_tree_end push t)) = pt_pushes t @ [push]"
  by (simp_all add: page_tree_tracker_overwrite_with_push_def page_tree_end_def same_dirs_def)

text \<open>Either the directories nobody needs any more are gone, or the push could not begin and none is.\<close>

definition put_done :: "uvm_page_tree \<Rightarrow> uvm_page_table_range list \<Rightarrow> uvm_page_tree \<Rightarrow> dir_id list \<Rightarrow> bool" where
  "put_done t held t' gone \<longleftrightarrow>
     tree_inv t' held \<and> pt_root t' = pt_root t \<and> pt_hal t' = pt_hal t \<and> distinct gone \<and>
     (\<forall>d \<in> set gone. in_tree t d) \<and> {d. pt_dirs t' d \<noteq> None} = {d. pt_dirs t d \<noteq> None} - set gone \<and>
     (\<forall>d. d \<notin> set gone \<longrightarrow> phys_alloc (dir t' d) = phys_alloc (dir t d)) \<and>
     (\<forall>d m. spare t d m \<longrightarrow> spare t' d m) \<and>
     pt_freed t' = pt_freed t @ map (freed_with t (pt_tracker t')) gone"

lemma put_async_ok:
  assumes fmt: "tree_format (pt_hal t)" and inv: "tree_inv t held" and r: "r \<in> set held"
  shows "\<exists>t'. uvm_page_tree_put_ptes_async bg r t = Some t' \<and>
    ((\<exists>gone. put_done t (remove1 r held) t' gone) \<or> bg_status bg \<noteq> NV_OK \<and> pt_dirs t' = pt_dirs t \<and> tree_inv t' held)"
proof -
  let ?d = "rg_table r"
  let ?t = "upd_dir ?d (\<lambda>q. q\<lparr>ref_count := ref_count (dir t ?d) - rg_entry_count r\<rparr>) t"
  have inv': "tree_inv_at t held None" using inv by (simp add: tree_inv_def)
  have ranges: "\<And>q. q \<in> set (remove1 r held) \<Longrightarrow> range_ok t q"
    using inv_range[OF inv'] set_remove1_subset[of r held] by blast
  have held': "held_count (remove1 r held) p + (if p = ?d then unat (rg_entry_count r) else 0) = held_count held p" for p
    using held_count_remove1[OF r, of p] by simp
  note rel = drop_refs_inv[OF inv' r order_refl held' ranges]
  have upd: "upd_dir ?d (\<lambda>q. q\<lparr>ref_count := ref_count q - rg_entry_count r\<rparr>) t = ?t" by (simp add: upd_dir_def)
  have lk: "linked ?t = linked t" using rel(2) by (auto simp: fun_eq_iff linked_iff dir_upd)
  have phys: "phys_alloc (dir ?t x) = phys_alloc (dir t x)" "dir_depth (dir ?t x) = dir_depth (dir t x)" for x by (simp_all add: dir_upd)
  have it: "in_tree ?t = in_tree t" by (simp add: in_tree_def fun_eq_iff lk)
  have dom0: "(pt_dirs ?t x = None) = (pt_dirs t x = None)" for x using rel(2) by simp
  have sp: "spare ?t x m = spare t x m" for x m by (simp add: spare_def it phys dom0 del: upd_dir_fields)
  obtain k va where w: "page_exp (pt_hal t) k" "rg_page_size r = 2 ^ k" "walk t (2 ^ k) va (pt_depth (pt_hal t) k) = Some ?d"
    using inv_range[OF inv' r] by (auto simp: range_ok_def)
  have w': "walk ?t (2 ^ k) va (pt_depth (pt_hal t) k) = Some ?d"
    by (rule walk_transfer[OF _ _ w(3)]) (simp_all add: lk)
  have depth: "pt_depth (pt_hal t) k < Suc MAX_OPERATION_DEPTH"
    using tree_format.depth_range[OF fmt w(1)] tree_format.depth_max[OF fmt] by simp
  have "tree_format (pt_hal ?t)" "page_exp (pt_hal ?t) k" "pt_depth (pt_hal t) k \<le> pt_depth (pt_hal ?t) k"
    "\<forall>x \<in> set (queue None). \<exists>m. spare ?t x m" "distinct (queue None)"
    using fmt w(1) by (simp_all add: queue_def)
  from put_loop_ok[OF this(1,2) rel(1) w' this(3) depth this(4,5), where bg = bg]
  obtain status ps' t1 where loop: "put_loop (Suc MAX_OPERATION_DEPTH) bg (2 ^ k) ?d None ?t = Some (status, ps', t1)"
    and t1: "pt_root t1 = pt_root ?t" "pt_hal t1 = pt_hal ?t" "pt_freed t1 = pt_freed ?t"
    and cases: "status \<noteq> NV_OK \<and> ps' = None \<and> status = bg_status bg \<and> same_dirs ?t t1 \<or>
      status = NV_OK \<and> unlinked_unused ?t (remove1 r held) (queue None) t1 (queue ps')"
    by blast
  have freed: "pt_freed ?t = pt_freed t" by (simp add: upd_dir_def)
  show ?thesis
  proof (cases "status = NV_OK")
    case False
    have "upd_dir ?d (\<lambda>q. q\<lparr>ref_count := ref_count q + rg_entry_count r\<rparr>) t1 = t1\<lparr>pt_dirs := pt_dirs t\<rparr>"
    proof -
      have t1d: "pt_dirs t1 = pt_dirs ?t" using False cases by (simp add: same_dirs_def)
      then have "dir t1 ?d = (dir t ?d)\<lparr>ref_count := ref_count (dir t ?d) - rg_entry_count r\<rparr>" by (simp add: dir_def)
      moreover have "pt_dirs t ?d = Some (dir t ?d)" using rel(2) by (auto simp: dir_def)
      ultimately have "(pt_dirs t1)(?d := Some ((dir t1 ?d)\<lparr>ref_count := ref_count (dir t1 ?d) + rg_entry_count r\<rparr>)) = pt_dirs t"
        unfolding t1d by (simp add: fun_eq_iff)
      then show ?thesis by (simp add: upd_dir_def)
    qed
    moreover have "tree_inv (t1\<lparr>pt_dirs := pt_dirs t\<rparr>) held"
      using same_dirs_cong(1)[of t "t1\<lparr>pt_dirs := pt_dirs t\<rparr>"] inv t1 by (simp add: same_dirs_def tree_inv_def)
    ultimately show ?thesis
      using False loop cases by (simp add: uvm_page_tree_put_ptes_async_def Let_def w(2) upd del: put_loop.simps)
  next
    case True
    then have un: "unlinked_unused ?t (remove1 r held) [] t1 (queue ps')" using cases by (simp add: queue_def)
    note un' = un[unfolded unlinked_unused_def sp phys it dom0]
    show ?thesis
    proof (cases ps')
      case None
      then have "put_done t (remove1 r held) t1 []"
        using un' t1 freed by (simp add: put_done_def queue_def tree_inv_def)
      then show ?thesis using True None loop by (auto simp: uvm_page_tree_put_ptes_async_def Let_def w(2) upd simp del: put_loop.simps)
    next
      case (Some s)
      let ?t2 = "page_tree_tracker_overwrite_with_push (bg_kv bg) (put_push t1 s) (page_tree_end (put_push t1 s) t1)"
      note c = same_dirs_cong[OF end_push_same(1)[of t1 "bg_kv bg" "put_push t1 s"]]
      have q: "queue ps' = ps_free_queue s" by (simp add: queue_def Some)
      have "tree_inv_at ?t2 (remove1 r held) None" "\<forall>x \<in> set (ps_free_queue s). \<exists>m. spare ?t2 x m" "distinct (ps_free_queue s)"
        using un' by (simp_all add: c q)
      from fold_free[OF this] obtain t3 where t3: "t3 = fold free_dir (ps_free_queue s) ?t2"
        and inv3: "tree_inv_at t3 (remove1 r held) None" and f3: "pt_root t3 = pt_root t" "pt_hal t3 = pt_hal t"
        and dirs3: "\<And>x. pt_dirs t3 x = (if x \<in> set (ps_free_queue s) then None else pt_dirs t1 x)"
        and tr3: "pt_tracker t3 = pt_tracker ?t2" and it3: "\<And>x. in_tree t3 x = in_tree t1 x"
        and fr3: "pt_freed t3 = pt_freed t @ map (freed_with ?t2 (pt_tracker t3)) (ps_free_queue s)"
        by (simp add: c t1 freed end_push_same)
      have un_dom: "(pt_dirs t1 x = None) = (pt_dirs t x = None)" and un_phys: "phys_alloc (dir t1 x) = phys_alloc (dir t x)"
        and un_sp: "spare t x m \<Longrightarrow> spare t1 x m" for x m
        using un' by blast+
      have un_q: "distinct (ps_free_queue s)" "\<forall>d \<in> set (ps_free_queue s). in_tree t d" using un' by (simp_all add: q)
      have "freed_with ?t2 tr = freed_with t tr" for tr by (simp add: fun_eq_iff freed_with_def is_sys_def c un_phys)
      then have fr: "pt_freed t3 = pt_freed t @ map (freed_with t (pt_tracker t3)) (ps_free_queue s)" using fr3 by simp
      have d3: "x \<notin> set (ps_free_queue s) \<Longrightarrow> dir t3 x = dir t1 x" for x by (simp add: dir_def dirs3)
      have "spare t3 x m" if sx: "spare t x m" for x m
      proof -
        have "x \<notin> set (ps_free_queue s)" using un_q(2) sx by (auto simp: spare_def)
        then show ?thesis using un_sp[OF sx] by (simp add: spare_def it3 d3 dirs3)
      qed
      moreover have "{d. pt_dirs t3 d \<noteq> None} = {d. pt_dirs t d \<noteq> None} - set (ps_free_queue s)"
      proof (rule set_eqI)
        fix x show "x \<in> {d. pt_dirs t3 d \<noteq> None} \<longleftrightarrow> x \<in> {d. pt_dirs t d \<noteq> None} - set (ps_free_queue s)"
          using un_dom[of x] by (auto simp: dirs3)
      qed
      moreover have "\<forall>d. d \<notin> set (ps_free_queue s) \<longrightarrow> phys_alloc (dir t3 d) = phys_alloc (dir t d)" by (simp add: d3 un_phys)
      ultimately have "put_done t (remove1 r held) t3 (ps_free_queue s)"
        using inv3 f3 un_q fr unfolding put_done_def tree_inv_def by blast
      then show ?thesis using True Some loop t3 by (auto simp: uvm_page_tree_put_ptes_async_def Let_def w(2) upd simp del: put_loop.simps)
    qed
  qed
qed

section \<open>The tree is what the held ranges need\<close>

definition leads_to :: "uvm_page_tree \<Rightarrow> dir_id \<Rightarrow> dir_id \<Rightarrow> bool" where
  "leads_to t = (\<lambda>p c. \<exists>i. linked t p i c)\<^sup>*\<^sup>*"

lemma link_in_tree:
  assumes "tree_inv_at t held pend" "linked t p i d"
  shows "in_tree t p" "in_tree t d"
proof -
  show "in_tree t p"
  proof (rule ccontr)
    assume "\<not> in_tree t p"
    then have "spare t p (unat (dir_depth (dir t p)))"
      using link_facts(3)[OF inv_links[OF assms(1)] assms(2)] by (simp add: spare_def)
    then show False using spare_no_links(1)[OF assms(1)] assms(2) by blast
  qed
  show "in_tree t d" using assms(2) by (auto simp: in_tree_def)
qed

lemma leads_to_in_tree: "leads_to t p c \<Longrightarrow> tree_inv_at t held pend \<Longrightarrow> in_tree t c \<Longrightarrow> in_tree t p"
  unfolding leads_to_def by (induction rule: converse_rtranclp_induct) (auto dest: link_in_tree(1))

lemma needed_by_a_range:
  assumes inv: "tree_inv t held" and d: "in_tree t d" "pt_dirs t d \<noteq> None" "d \<noteq> pt_root t"
  shows "\<exists>r \<in> set held. leads_to t d (rg_table r)"
  using d
proof (induction "unat (hal_page_table_depth (pt_hal t) UVM_PAGE_SIZE_AGNOSTIC) - unat (dir_depth (dir t d))" arbitrary: d rule: less_induct)
  case less
  have inv': "tree_inv_at t held None" using inv by (simp add: tree_inv_def)
  obtain p i where l: "linked t p i d" using less.prems by (auto simp: in_tree_def)
  then have ref: "ref_count (dir t d) \<noteq> 0" using inv_ref[OF inv' l] by simp
  have ok: "dir_ok t held d" using inv_dir[OF inv' less.prems(2)] .
  show ?case
  proof (cases "children (dir t d) = 0")
    case True
    moreover have "unat (ref_count (dir t d)) \<noteq> 0" using ref by (simp add: unat_eq_0)
    ultimately have "held_count held d \<noteq> 0" using ok by (simp add: dir_ok_def)
    then obtain r where "r \<in> set held" "rg_table r = d"
      unfolding held_count_def sum_list_eq_0_iff by (auto split: if_splits)
    then show ?thesis by (auto simp: leads_to_def)
  next
    case False
    then obtain e where "e \<in> set (dir_entries (dir t d))" "e \<noteq> None"
      unfolding children_def length_0_conv filter_empty_conv by blast
    then obtain i c where l': "linked t d i c" using less.prems(2) by (auto simp: linked_iff in_set_conv_nth)
    note lf = link_facts[OF inv_links[OF inv'] l']
    have c: "in_tree t c" "pt_dirs t c \<noteq> None" "c \<noteq> pt_root t"
      using link_in_tree[OF inv' l'] lf(1) not_root_linked[OF inv' l'] by simp_all
    have "unat (dir_depth (dir t c)) \<le> unat (hal_page_table_depth (pt_hal t) UVM_PAGE_SIZE_AGNOSTIC)"
      using inv_dir[OF inv' c(2)] by (simp add: dir_ok_def)
    then have "\<exists>r \<in> set held. leads_to t c (rg_table r)" using less.hyps[OF _ c] lf(5) by simp
    then obtain r where r: "r \<in> set held" "leads_to t c (rg_table r)" by blast
    have "leads_to t d (rg_table r)"
      unfolding leads_to_def
      by (rule converse_rtranclp_into_rtranclp[where b = c]) (use l' r(2) in \<open>auto simp: leads_to_def\<close>)
    with r(1) show ?thesis by blast
  qed
qed

theorem page_tree_exact:
  assumes "tree_inv t held"
  shows "in_tree t d \<longleftrightarrow> d = pt_root t \<or> (\<exists>r \<in> set held. leads_to t d (rg_table r))"
proof
  have inv: "tree_inv_at t held None" using assms by (simp add: tree_inv_def)
  assume d: "in_tree t d"
  then have "pt_dirs t d \<noteq> None" using inv_root(1)[OF inv] link_facts(1)[OF inv_links[OF inv]] unfolding in_tree_def by blast
  then show "d = pt_root t \<or> (\<exists>r \<in> set held. leads_to t d (rg_table r))" using needed_by_a_range[OF assms d] by blast
next
  have inv: "tree_inv_at t held None" using assms by (simp add: tree_inv_def)
  assume "d = pt_root t \<or> (\<exists>r \<in> set held. leads_to t d (rg_table r))"
  then show "in_tree t d"
  proof
    show "d = pt_root t \<Longrightarrow> in_tree t d" by (simp add: in_tree_def)
    assume "\<exists>r \<in> set held. leads_to t d (rg_table r)"
    then show "in_tree t d" using leads_to_in_tree[OF _ inv] range_in_tree(1)[OF inv inv_range[OF inv]] by blast
  qed
qed

section \<open>Undoing the links of an attempt\<close>

text \<open>Only the fields of directories in \<open>S\<close> that name their parent differ.\<close>

definition set_parent :: "dir_id option \<Rightarrow> u32 \<Rightarrow> uvm_page_directory \<Rightarrow> uvm_page_directory" where
  "set_parent h i r = r\<lparr>host_parent := h, index_in_parent := i\<rparr>"

definition only_parents :: "dir_id set \<Rightarrow> uvm_page_tree \<Rightarrow> uvm_page_tree \<Rightarrow> bool" where
  "only_parents S t t' \<longleftrightarrow>
     t' = t\<lparr>pt_dirs := pt_dirs t'\<rparr> \<and> (\<forall>x. x \<notin> S \<longrightarrow> pt_dirs t' x = pt_dirs t x) \<and>
     (\<forall>x \<in> S. \<exists>h i. pt_dirs t' x = map_option (set_parent h i) (pt_dirs t x))"

lemma with_dirs:
  assumes "t = t0\<lparr>pt_dirs := pt_dirs t\<rparr>"
  shows "t\<lparr>pt_dirs := ds\<rparr> = t0\<lparr>pt_dirs := ds\<rparr>"
  by (subst assms) simp

lemma link_cached_dirs:
  assumes "c \<noteq> d"
  shows "link_cached d c idx ps t = t\<lparr>pt_dirs := (pt_dirs t)
     (c := Some (set_parent (Some d) idx (dir t c)),
      d := Some ((dir t d)\<lparr>ref_count := ref_count (dir t d) + 1,
        dir_entries := (dir_entries (dir t d))[unat (index_to_entry (pt_hal t) idx (dir_depth (dir t d)) ps) := Some c]\<rparr>))\<rparr>"
  using assms
  by (simp add: link_cached_def set_entry_def host_pde_write_def Let_def upd_dir_def dir_def set_parent_def fun_upd_twist)

lemma host_pde_clear_dirs:
  "host_pde_clear p idx ps t = t\<lparr>pt_dirs := (pt_dirs t)(p := Some ((dir t p)\<lparr>
     dir_entries := (dir_entries (dir t p))[unat (index_to_entry (pt_hal t) idx (dir_depth (dir t p)) ps) := None],
     ref_count := ref_count (dir t p) - 1\<rparr>))\<rparr>"
  by (simp add: host_pde_clear_def set_entry_def Let_def upd_dir_def dir_def)

lemma clear_link_commute:
  assumes "c \<noteq> d" "q \<noteq> d" "q \<noteq> c"
  shows "host_pde_clear q i ps (link_cached d c idx ps t) = link_cached d c idx ps (host_pde_clear q i ps t)"
  using assms
  by (simp add: link_cached_dirs host_pde_clear_dirs dir_def fun_upd_twist[of q])

lemma clear_link:
  assumes "c \<noteq> d" "pt_dirs t d \<noteq> None" "pt_dirs t c \<noteq> None"
    and "dir_entries (dir t d) ! unat (index_to_entry (pt_hal t) idx (dir_depth (dir t d)) ps) = None"
    and e: "unat (index_to_entry (pt_hal t) idx (dir_depth (dir t d)) ps) < length (dir_entries (dir t d))"
  shows "host_pde_clear d idx ps (link_cached d c idx ps t) = upd_dir c (set_parent (Some d) idx) t"
proof -
  let ?L = "link_cached d c idx ps t"
  let ?e = "unat (index_to_entry (pt_hal t) idx (dir_depth (dir t d)) ps)"
  let ?R = "(dir t d)\<lparr>ref_count := ref_count (dir t d) + 1, dir_entries := (dir_entries (dir t d))[?e := Some c]\<rparr>"
  have L: "dir ?L d = ?R" by (simp only: link_cached_dirs[OF assms(1)]) (simp add: dir_def)
  have "(dir_entries (dir t d))[?e := None] = dir_entries (dir t d)" using assms(4) by (metis list_update_id)
  then have R: "?R\<lparr>dir_entries := (dir_entries ?R)[?e := None], ref_count := ref_count ?R - 1\<rparr> = dir t d" by simp
  have "dir_depth ?R = dir_depth (dir t d)" "pt_hal ?L = pt_hal t" by (simp_all only: link_cached_dirs[OF assms(1)]) simp_all
  then have "host_pde_clear d idx ps ?L = ?L\<lparr>pt_dirs := (pt_dirs ?L)(d := Some (dir t d))\<rparr>"
    unfolding host_pde_clear_dirs L by (simp only: R)
  moreover have "pt_dirs t d = Some (dir t d)" using assms(2) by (auto simp: dir_def)
  ultimately show ?thesis
    unfolding link_cached_dirs[OF assms(1)] upd_dir_def using assms(1) by (simp add: fun_eq_iff)
qed

lemma undo_append:
  "undo_links ps (us @ [c]) t =
     (let u = undo_links ps us t in host_pde_clear (the (host_parent (dir u c))) (index_in_parent (dir u c)) ps u)"
  by (induction us arbitrary: t) (simp_all add: Let_def)

lemma clear_frame:
  "host_parent (dir (host_pde_clear p i ps t) x) = host_parent (dir t x)"
  "index_in_parent (dir (host_pde_clear p i ps t) x) = index_in_parent (dir t x)"
  "dir_depth (dir (host_pde_clear p i ps t) x) = dir_depth (dir t x)"
  "x \<noteq> p \<Longrightarrow> pt_dirs (host_pde_clear p i ps t) x = pt_dirs t x"
  by (simp_all add: host_pde_clear_dirs dir_def)

lemma undo_frame:
  "host_parent (dir (undo_links ps us t) x) = host_parent (dir t x)"
  "index_in_parent (dir (undo_links ps us t) x) = index_in_parent (dir t x)"
  "dir_depth (dir (undo_links ps us t) x) = dir_depth (dir t x)"
  "\<forall>u \<in> set us. host_parent (dir t u) \<noteq> Some x \<and> host_parent (dir t u) \<noteq> None \<Longrightarrow> pt_dirs (undo_links ps us t) x = pt_dirs t x"
  "pt_hal (undo_links ps us t) = pt_hal t"
proof (induction us arbitrary: t)
  case (Cons u us)
  { case 1 then show ?case using Cons.IH(1) by (simp add: clear_frame(1)) next
    case 2 then show ?case using Cons.IH(2) by (simp add: clear_frame(2)) next
    case 3 then show ?case using Cons.IH(3) by (simp add: clear_frame(3)) next
    case 4
    then obtain q where "host_parent (dir t u) = Some q" "q \<noteq> x" by auto
    then show ?case using Cons.IH(4)[of "host_pde_clear q (index_in_parent (dir t u)) ps t"] 4
      by (simp add: clear_frame del: host_pde_clear_fields) next
    case 5 then show ?case using Cons.IH(5) by simp }
qed simp_all

lemma undo_commute:
  assumes "c \<noteq> d" "\<forall>u \<in> set us. u \<noteq> c \<and> (\<exists>q. host_parent (dir t u) = Some q \<and> q \<noteq> d \<and> q \<noteq> c)"
  shows "undo_links ps us (link_cached d c idx ps t) = link_cached d c idx ps (undo_links ps us t)"
  using assms(2)
proof (induction us arbitrary: t)
  case (Cons u us)
  then obtain q where q: "host_parent (dir t u) = Some q" "q \<noteq> d" "q \<noteq> c" "u \<noteq> c" by auto
  have "host_parent (dir (link_cached d c idx ps t) u) = Some q" "index_in_parent (dir (link_cached d c idx ps t) u) = index_in_parent (dir t u)"
    using q assms(1) by (auto simp: link_cached_dirs dir_def set_parent_def)
  moreover have "\<forall>v \<in> set us. v \<noteq> c \<and> (\<exists>q'. host_parent (dir (host_pde_clear q (index_in_parent (dir t u)) ps t) v) = Some q' \<and> q' \<noteq> d \<and> q' \<noteq> c)"
    using Cons.prems by (simp add: clear_frame)
  ultimately show ?case
    using Cons.IH[of "host_pde_clear q (index_in_parent (dir t u)) ps t"] q(1)
    by (simp add: clear_link_commute[OF assms(1) q(2,3)])
qed simp

section \<open>One attempt to get entries\<close>

text \<open>What linking the directories \<open>us\<close>, which were spare, adds to a tree.\<close>

definition added :: "u32 \<Rightarrow> uvm_page_tree \<Rightarrow> dir_id list \<Rightarrow> uvm_page_tree \<Rightarrow> bool" where
  "added ps t us t' \<longleftrightarrow>
     t' = t\<lparr>pt_dirs := pt_dirs t'\<rparr> \<and>
     (\<forall>x. (pt_dirs t' x = None) = (pt_dirs t x = None) \<and> phys_alloc (dir t' x) = phys_alloc (dir t x) \<and>
        dir_depth (dir t' x) = dir_depth (dir t x)) \<and>
     (\<forall>p i x. linked t' p i x \<longleftrightarrow> linked t p i x \<or>
        x \<in> set us \<and> host_parent (dir t' x) = Some p \<and>
        i = unat (index_to_entry (pt_hal t) (index_in_parent (dir t' x)) (dir_depth (dir t p)) ps)) \<and>
     (\<forall>x \<in> set us. (\<exists>m. spare t x m) \<and> host_parent (dir t' x) \<noteq> None) \<and> distinct us"

definition room :: "uvm_page_tree \<Rightarrow> nat \<Rightarrow> bool" where
  "room t m \<longleftrightarrow> (\<forall>x. pt_dirs t x \<noteq> None \<longrightarrow> unat (ref_count (dir t x)) + m < 2 ^ 32)"

definition attempt ::
  "u32 \<Rightarrow> u64 \<Rightarrow> uvm_page_table_range list \<Rightarrow> dir_id option list \<Rightarrow> uvm_page_tree \<Rightarrow> nat \<Rightarrow> dir_id \<Rightarrow> dir_id list \<Rightarrow>
   uvm_page_tree \<Rightarrow> bool" where
  "attempt ps va held cache t0 n d us t \<longleftrightarrow>
     (\<exists>pend. (pend = None \<or> pend = Some d) \<and> tree_inv_at t held pend) \<and> walk t ps va n = Some d \<and>
     added ps t0 us t \<and> only_parents (set us) t0 (undo_links ps us t) \<and>
     (\<forall>u \<in> set us. in_tree t u \<and> Some u \<in> set cache \<and>
        (\<exists>q. host_parent (dir t u) = Some q \<and> unat (dir_depth (dir t q)) < n)) \<and>
     (\<forall>j c. j < length cache \<longrightarrow> n \<le> j \<longrightarrow> cache ! j = Some c \<longrightarrow> spare t c (Suc j))"

lemma added_fields:
  assumes "added ps t us t'"
  shows "pt_root t' = pt_root t" "pt_hal t' = pt_hal t" "pt_freed t' = pt_freed t" "pt_pushes t' = pt_pushes t"
    "pt_tracker t' = pt_tracker t" "pt_fake t' = pt_fake t" "pt_location t' = pt_location t"
proof -
  have "t' = t\<lparr>pt_dirs := pt_dirs t'\<rparr>" using assms by (simp add: added_def)
  then show "pt_root t' = pt_root t" "pt_hal t' = pt_hal t" "pt_freed t' = pt_freed t" "pt_pushes t' = pt_pushes t"
    "pt_tracker t' = pt_tracker t" "pt_fake t' = pt_fake t" "pt_location t' = pt_location t"
    by (metis uvm_page_tree.select_convs uvm_page_tree.surjective uvm_page_tree.update_convs(1))+
qed

lemma attempt_start:
  assumes "tree_inv t held" "\<forall>j c. j < length cache \<longrightarrow> cache ! j = Some c \<longrightarrow> spare t c (Suc j)"
  shows "attempt ps va held cache t 0 (pt_root t) [] t"
  using assms by (auto simp: attempt_def tree_inv_def added_def only_parents_def)

lemma attempt_down:
  assumes at: "attempt ps va held cache t0 n d us t" and c: "linked t d (slot (pt_hal t) ps va n) c"
  shows "attempt ps va held cache t0 (Suc n) c us t"
proof -
  obtain pend where pend: "pend = None \<or> pend = Some d" "tree_inv_at t held pend" using at by (auto simp: attempt_def)
  have "ref_count (dir t d) \<noteq> 0"
    using ref_0_no_links(1)[OF pend(2) link_facts(3)[OF inv_links[OF pend(2)] c]] c by blast
  then have "tree_inv_at t held None" using pend pend_drop by auto
  then have "\<exists>pend. (pend = None \<or> pend = Some c) \<and> tree_inv_at t held pend" by blast
  moreover have "walk t ps va (Suc n) = Some c" using at c unfolding attempt_def walk_Suc_iff by blast
  moreover have "\<forall>u \<in> set us. in_tree t u \<and> Some u \<in> set cache \<and> (\<exists>q. host_parent (dir t u) = Some q \<and> unat (dir_depth (dir t q)) < Suc n)"
    using at unfolding attempt_def by (meson less_SucI)
  moreover have "\<forall>j c. j < length cache \<longrightarrow> Suc n \<le> j \<longrightarrow> cache ! j = Some c \<longrightarrow> spare t c (Suc j)"
    using at unfolding attempt_def by (meson Suc_leD)
  ultimately show ?thesis using at unfolding attempt_def by blast
qed

lemma attempt_link:
  assumes at: "attempt ps va held cache t0 n d us t" and n: "n < length cache" "cache ! n = Some c" and hal: "pt_hal t = pt_hal t0"
    and slot: "slot (pt_hal t) ps va n < length (dir_entries (dir t d))" "dir_entries (dir t d) ! slot (pt_hal t) ps va n = None"
      "slot (pt_hal t) ps va n div unat (hal_entries_per_index (pt_hal t) (of_nat n)) = unat (va_index (pt_hal t) ps va n)"
    and room: "unat (ref_count (dir t d)) + 1 < 2 ^ 32"
  shows "attempt ps va held cache t0 (Suc n) c (us @ [c]) (link_cached d c (va_index (pt_hal t) ps va n) ps t)"
proof -
  let ?i = "va_index (pt_hal t) ps va n"
  let ?t = "link_cached d c ?i ps t"
  obtain pend where pend: "pend = None \<or> pend = Some d" "tree_inv_at t held pend" using at by (auto simp: attempt_def)
  have w: "walk t ps va n = Some d" using at by (simp add: attempt_def)
  note d = walk_facts[OF pend(2) w]
  then have dd: "dir_depth (dir t d) = of_nat n" using depth_word by blast
  have c: "spare t c (Suc n)" using at n by (simp add: attempt_def)
  have cd: "c \<noteq> d" using c d by (auto simp: spare_def)
  have e: "slot (pt_hal t) ps va n = unat (index_to_entry (pt_hal t) ?i (dir_depth (dir t d)) ps)" by (simp add: slot_def dd)
  have c': "spare t c (Suc (unat (dir_depth (dir t d))))" using c d by simp
  have d': "in_tree t d" "pt_dirs t d \<noteq> None" using d by simp_all
  note li = link_inv[OF pend(2) d' c' e slot(1,2) slot(3)[folded dd] room pend(1)]
  note L = link_cached_dirs[OF cd, of ?i ps t]
  have ad: "added ps t0 us t" and up: "\<forall>u \<in> set us. in_tree t u \<and> Some u \<in> set cache \<and>
      (\<exists>q. host_parent (dir t u) = Some q \<and> unat (dir_depth (dir t q)) < n)"
    using at unfolding attempt_def by blast+
  have dom: "(pt_dirs ?t x = None) = (pt_dirs t x = None)" for x using d c by (auto simp: L spare_def)
  have keep: "dir_depth (dir ?t x) = dir_depth (dir t x)" "phys_alloc (dir ?t x) = phys_alloc (dir t x)"
    "x \<noteq> c \<Longrightarrow> host_parent (dir ?t x) = host_parent (dir t x)" "x \<noteq> c \<Longrightarrow> index_in_parent (dir ?t x) = index_in_parent (dir t x)" for x
    using cd by (auto simp: L dir_def set_parent_def)
  have C: "host_parent (dir ?t c) = Some d" "index_in_parent (dir ?t c) = ?i" using li(6) by simp_all
  have it: "in_tree ?t x \<longleftrightarrow> in_tree t x \<or> x = c" for x
    unfolding in_tree_def li(2,4) using cd by auto
  have cus: "c \<notin> set us" using up c by (auto simp: spare_def)
  have noc: "\<not> linked t q i c" for q i using c by (auto simp: spare_def in_tree_def)
  show ?thesis
    unfolding attempt_def
  proof (intro conjI)
    show "\<exists>pend. (pend = None \<or> pend = Some c) \<and> tree_inv_at ?t held pend" using li(1) by blast
    have "walk ?t ps va n = Some d" by (rule walk_transfer[OF li(4,5) w]) (simp add: li(2))
    then show "walk ?t ps va (Suc n) = Some c" unfolding walk_Suc_iff li(2,5) by blast
    show "\<forall>u \<in> set (us @ [c]). in_tree ?t u \<and> Some u \<in> set cache \<and>
        (\<exists>q. host_parent (dir ?t u) = Some q \<and> unat (dir_depth (dir ?t q)) < Suc n)"
    proof
      fix u assume u: "u \<in> set (us @ [c])"
      show "in_tree ?t u \<and> Some u \<in> set cache \<and> (\<exists>q. host_parent (dir ?t u) = Some q \<and> unat (dir_depth (dir ?t q)) < Suc n)"
      proof (cases "u = c")
        case True
        then show ?thesis using n C d by (auto simp: it keep in_set_conv_nth)
      next
        case False
        then have "u \<in> set us" using u by simp
        with up False show ?thesis by (auto simp: it keep intro: less_SucI)
      qed
    qed
    show "\<forall>j x. j < length cache \<longrightarrow> Suc n \<le> j \<longrightarrow> cache ! j = Some x \<longrightarrow> spare ?t x (Suc j)"
    proof (intro allI impI)
      fix j x assume j: "j < length cache" "Suc n \<le> j" "cache ! j = Some x"
      then have x: "spare t x (Suc j)" using at unfolding attempt_def by (meson Suc_leD)
      then have "x \<noteq> c" using c j by (auto simp: spare_def)
      with x show "spare ?t x (Suc j)" by (simp add: spare_def dom it keep)
    qed
    note ad' = ad[unfolded added_def]
    show "added ps t0 (us @ [c]) ?t"
      unfolding added_def
    proof (intro conjI)
      have "t = t0\<lparr>pt_dirs := pt_dirs t\<rparr>" using ad' by blast
      from with_dirs[OF this] show "?t = t0\<lparr>pt_dirs := pt_dirs ?t\<rparr>" unfolding L by simp
      show "\<forall>x. (pt_dirs ?t x = None) = (pt_dirs t0 x = None) \<and> phys_alloc (dir ?t x) = phys_alloc (dir t0 x) \<and>
          dir_depth (dir ?t x) = dir_depth (dir t0 x)"
        using ad' by (simp add: dom keep)
      show "\<forall>p i x. linked ?t p i x \<longleftrightarrow> linked t0 p i x \<or> x \<in> set (us @ [c]) \<and> host_parent (dir ?t x) = Some p \<and>
          i = unat (index_to_entry (pt_hal t0) (index_in_parent (dir ?t x)) (dir_depth (dir t0 p)) ps)"
      proof (intro allI)
        fix p i x
        show "linked ?t p i x \<longleftrightarrow> linked t0 p i x \<or> x \<in> set (us @ [c]) \<and> host_parent (dir ?t x) = Some p \<and>
          i = unat (index_to_entry (pt_hal t0) (index_in_parent (dir ?t x)) (dir_depth (dir t0 p)) ps)"
        proof (cases "x = c")
          case True
          have "dir_depth (dir t0 d) = of_nat n" using ad' dd by metis
          moreover have "\<not> linked t0 p i c" using noc ad' by blast
          moreover have "linked ?t p i c \<longleftrightarrow> p = d \<and> i = slot (pt_hal t) ps va n" using li(2) noc by auto
          ultimately show ?thesis using True C by (auto simp: slot_def hal[symmetric])
        next
          case False
          then show ?thesis using ad' by (simp add: li(2) keep)
        qed
      qed
      have "\<not> in_tree t0 c" using c ad' added_fields(1)[OF ad] by (auto simp: spare_def in_tree_def)
      then have "\<exists>m. spare t0 c m" using c ad' by (simp add: spare_iff) (simp add: spare_def)
      moreover have "(\<exists>m. spare t0 x m) \<and> host_parent (dir ?t x) \<noteq> None" if "x \<in> set us" for x
      proof -
        have "x \<noteq> c" using that cus by auto
        then show ?thesis using ad' that keep(3) by simp
      qed
      ultimately show "\<forall>x \<in> set (us @ [c]). (\<exists>m. spare t0 x m) \<and> host_parent (dir ?t x) \<noteq> None"
        using C by auto
      show "distinct (us @ [c])" using ad' cus by simp
    qed
    let ?U = "undo_links ps us t"
    have par: "\<forall>u \<in> set us. u \<noteq> c \<and> (\<exists>q. host_parent (dir t u) = Some q \<and> q \<noteq> d \<and> q \<noteq> c)"
    proof
      fix u assume u: "u \<in> set us"
      then obtain q where q: "host_parent (dir t u) = Some q" "unat (dir_depth (dir t q)) < n" using up by blast
      then have "q \<noteq> d" "q \<noteq> c" using d c by (auto simp: spare_def)
      then show "u \<noteq> c \<and> (\<exists>q. host_parent (dir t u) = Some q \<and> q \<noteq> d \<and> q \<noteq> c)" using q(1) u cus by auto
    qed
    have "pt_dirs ?U d = pt_dirs t d" "pt_dirs ?U c = pt_dirs t c" using par by (auto intro!: undo_frame(4))
    then have U: "pt_dirs ?U d \<noteq> None" "pt_dirs ?U c \<noteq> None" "dir ?U d = dir t d" using d c by (simp_all add: spare_def dir_def)
    have com: "undo_links ps us ?t = link_cached d c ?i ps ?U" using undo_commute[OF cd par] .
    have "host_parent (dir (undo_links ps us ?t) c) = Some d" "index_in_parent (dir (undo_links ps us ?t) c) = ?i"
      using C by (simp_all add: undo_frame)
    then have "undo_links ps (us @ [c]) ?t = host_pde_clear d ?i ps (link_cached d c ?i ps ?U)"
      by (simp add: undo_append Let_def com)
    also have "\<dots> = upd_dir c (set_parent (Some d) ?i) ?U"
      using clear_link[OF cd U(1,2)] slot by (simp add: U(3) undo_frame(5) e)
    finally have fin: "undo_links ps (us @ [c]) ?t = upd_dir c (set_parent (Some d) ?i) ?U" .
    have op: "only_parents (set us) t0 ?U" using at by (simp add: attempt_def)
    have "pt_dirs ?U c = pt_dirs t0 c" using op cus by (simp add: only_parents_def)
    then have "Some (set_parent (Some d) ?i (dir ?U c)) = map_option (set_parent (Some d) ?i) (pt_dirs t0 c)"
      using U(2) by (auto simp: dir_def)
    moreover have "?U = t0\<lparr>pt_dirs := pt_dirs ?U\<rparr>" using op by (simp add: only_parents_def)
    note with_dirs[OF this]
    ultimately show "only_parents (set (us @ [c])) t0 (undo_links ps (us @ [c]) ?t)"
      using op unfolding fin only_parents_def upd_dir_def by auto
  qed
qed

definition depth_of_first :: "uvm_page_tree \<Rightarrow> u32 \<Rightarrow> dir_id list \<Rightarrow> bool" where
  "depth_of_first t idp us \<longleftrightarrow>
     (if us = [] then idp = - 1
      else map_option (\<lambda>p. dir_depth (dir t p)) (host_parent (dir t (hd us))) = Some idp)"

text \<open>The range found, with the references it holds.\<close>

definition found ::
  "u32 \<Rightarrow> u64 \<Rightarrow> nat \<Rightarrow> nat \<Rightarrow> uvm_page_table_range list \<Rightarrow> dir_id option list \<Rightarrow> uvm_page_tree \<Rightarrow> uvm_page_tree \<Rightarrow>
   uvm_page_table_range \<Rightarrow> u32 \<Rightarrow> dir_id list \<Rightarrow> bool" where
  "found ps va cnt D held cache t0 t rg idp us \<longleftrightarrow>
     rg_page_size rg = ps \<and> rg_start_index rg = va_index (pt_hal t) ps va D \<and> unat (rg_entry_count rg) = cnt \<and>
     walk t ps va D = Some (rg_table rg) \<and> tree_inv t (rg # held) \<and> added ps t0 us t \<and>
     (\<forall>u \<in> set us. in_tree t u \<and> Some u \<in> set cache) \<and> depth_of_first t idp us"

definition missing :: "dir_id option list \<Rightarrow> uvm_page_tree \<Rightarrow> uvm_page_tree \<Rightarrow> u32 \<Rightarrow> nat \<Rightarrow> bool" where
  "missing cache t0 t j D \<longleftrightarrow>
     unat j < D \<and> cache ! unat j = None \<and>
     (\<exists>us. only_parents (set us) t0 t \<and> (\<forall>u \<in> set us. Some u \<in> set cache \<and> (\<exists>m. spare t0 u m)))"

lemma range_init_found:
  assumes fmt: "tree_format (pt_hal t)" and k: "page_exp (pt_hal t) k" and at: "attempt (2 ^ k) va held cache t0 D d us t"
    and D: "D = pt_depth (pt_hal t) k" and hal: "pt_hal t = pt_hal t0"
    and i: "i = va_index (pt_hal t) (2 ^ k) va D" "j = va_index (pt_hal t) (2 ^ k) va' D" "unat i \<le> unat j"
    and cnt: "cnt = Suc (unat j - unat i)" and room: "room t cnt" and idp: "depth_of_first t idp us"
  shows "case page_table_range_init (2 ^ k) d i j t of (rg, t') \<Rightarrow> found (2 ^ k) va cnt D held cache t0 t' rg idp us"
proof -
  let ?c = "1 + j - i"
  let ?rg = "\<lparr>rg_table = d, rg_start_index = i, rg_entry_count = ?c, rg_page_size = 2 ^ k\<rparr>"
  let ?t = "upd_dir d (\<lambda>r. r\<lparr>ref_count := ref_count (dir t d) + ?c\<rparr>) t"
  obtain pend where pend: "pend = None \<or> pend = Some d" "tree_inv_at t held pend" using at by (auto simp: attempt_def)
  have w: "walk t (2 ^ k) va D = Some d" using at by (simp add: attempt_def)
  note d = walk_facts[OF pend(2) w]
  have j: "unat j < 2 ^ unat (hal_index_bits (pt_hal t) (of_nat D) (2 ^ k))"
    using tree_format.va_index_less[OF fmt k, of D va'] i D by simp
  have "i \<le> j" using i(3) by (simp add: word_le_nat_alt)
  then have ji: "unat (j - i) = unat j - unat i" by (rule unat_sub)
  have c: "unat ?c = cnt"
  proof -
    have "(2::nat) ^ unat (hal_index_bits (pt_hal t) (of_nat D) (2 ^ k)) \<le> 2 ^ 16"
      using tree_format.index_bits_small[OF fmt k, of D] D by (intro power_increasing) auto
    then have "unat j < 2 ^ 16" using j by (rule less_le_trans[rotated])
    then have "unat (j - i) + 1 < 2 ^ 32" using ji by simp
    then have "unat ((j - i) + 1) = unat (j - i) + 1" by (simp add: unat_word_ariths)
    then show ?thesis using ji cnt by (simp add: algebra_simps)
  qed
  have "?c \<noteq> 0" using c cnt by (metis Suc_neq_Zero unat_0)
  then have "0 < ?c" by (simp only: word_greater_zero_iff not_False_eq_True)
  moreover have "unat i + unat ?c \<le> 2 ^ unat (hal_index_bits (pt_hal t) (of_nat D) (2 ^ k))" using c cnt j i(3) by simp
  ultimately have rok: "range_ok t ?rg"
    unfolding range_ok_def uvm_page_table_range.select_convs using k w unfolding D by blast
  have "unat (ref_count (dir t d)) + unat ?c < 2 ^ 32" using room d c by (simp add: room_def)
  then have inv': "tree_inv_at ?t (?rg # held) None"
    using take_refs_inv[OF pend(2), of ?rg] d rok pend(1) by simp
  have eq: "page_table_range_init (2 ^ k) d i j t = (?rg, ?t)"
    by (simp add: page_table_range_init_def Let_def upd_dir_def)
  have dm: "(pt_dirs ?t x = None) = (pt_dirs t x = None)" for x using d by simp
  have kp: "dir_depth (dir ?t x) = dir_depth (dir t x)" "phys_alloc (dir ?t x) = phys_alloc (dir t x)"
    "host_parent (dir ?t x) = host_parent (dir t x)" "index_in_parent (dir ?t x) = index_in_parent (dir t x)"
    "dir_entries (dir ?t x) = dir_entries (dir t x)" for x
    by (simp_all add: dir_upd)
  have lk: "linked ?t p q x = linked t p q x" for p q x by (simp add: linked_iff dm kp del: upd_dir_fields)
  have "walk ?t (2 ^ k) va D = Some d" by (rule walk_transfer[OF _ _ w]) (simp_all add: lk)
  moreover have "added (2 ^ k) t0 us ?t"
  proof -
    have ad: "added (2 ^ k) t0 us t" using at by (simp add: attempt_def)
    then have "t = t0\<lparr>pt_dirs := pt_dirs t\<rparr>" by (simp add: added_def)
    from with_dirs[OF this] have "?t = t0\<lparr>pt_dirs := pt_dirs ?t\<rparr>" by (simp add: upd_dir_def)
    then show ?thesis using ad unfolding added_def dm kp lk by blast
  qed
  moreover have "\<forall>u \<in> set us. in_tree ?t u \<and> Some u \<in> set cache"
    using at by (simp add: attempt_def in_tree_def lk)
  moreover have "depth_of_first ?t idp us" using idp by (simp add: depth_of_first_def kp del: upd_dir_fields)
  ultimately show ?thesis unfolding eq using inv' i(1) c by (simp add: found_def tree_inv_def)
qed

lemma walk_loop_ok:
  assumes fmt: "tree_format (pt_hal t0)" and k: "page_exp (pt_hal t0) k" and D: "D = pt_depth (pt_hal t0) k"
    and len: "length cache = MAX_OPERATION_DEPTH"
    and ij: "unat (va_index (pt_hal t0) (2 ^ k) start D) \<le> unat (va_index (pt_hal t0) (2 ^ k) (start + size' - 1) D)"
    and cnt: "cnt = Suc (unat (va_index (pt_hal t0) (2 ^ k) (start + size' - 1) D) - unat (va_index (pt_hal t0) (2 ^ k) start D))"
    and "attempt (2 ^ k) start held cache t0 n d us t" "n \<le> D" "D - n < fuel" "room t (Suc cnt + (D - n))" "depth_of_first t idp us"
    and "sh - hal_index_bits (pt_hal t0) (of_nat n) (2 ^ k) = va_shift (pt_hal t0) (2 ^ k) n"
  shows "\<exists>res. walk_loop fuel (2 ^ k) start size' cache d sh idp us t = Some res \<and>
    (case res of
       Walk_needs t' j \<Rightarrow> missing cache t0 t' j D
     | Walk_found t' rg idp' us' \<Rightarrow> found (2 ^ k) start cnt D held cache t0 t' rg idp' us')"
  using assms(7-12)
proof (induction fuel arbitrary: n d us t idp sh)
  case (Suc fuel)
  note at = Suc.prems(1)
  have ad: "added (2 ^ k) t0 us t" using at by (simp add: attempt_def)
  note hal = added_fields(2)[OF ad]
  obtain pend where pend: "pend = None \<or> pend = Some d" "tree_inv_at t held pend" using at by (auto simp: attempt_def)
  have w: "walk t (2 ^ k) start n = Some d" using at by (simp add: attempt_def)
  note d = walk_facts[OF pend(2) w]
  then have dd: "dir_depth (dir t d) = of_nat n" using depth_word by blast
  have D4: "D \<le> 4" using tree_format.depth_range[OF fmt k] tree_format.depth_max[OF fmt] D by (simp add: MAX_OPERATION_DEPTH_def)
  have pd: "hal_page_table_depth (pt_hal t0) (2 ^ k) = of_nat D" using D by (simp add: pt_depth_def)
  have at_table: "(of_nat n :: u32) = of_nat D \<longleftrightarrow> n = D"
    using Suc.prems(2) D4 by (metis unat_of_nat_u32 le_less_trans less_le_trans one_less_numeral_iff semiring_norm(76) numeral_le_iff order_trans power_strict_increasing_iff pt_depth_def D unat_lt_2_32)
  show ?case
  proof (cases "n = D")
    case True
    have room: "room t cnt" using Suc.prems(4) by (auto simp: room_def)
    have r: "case page_table_range_init (2 ^ k) d (va_index (pt_hal t) (2 ^ k) start D) (va_index (pt_hal t) (2 ^ k) (start + size' - 1) D) t of
        (rg, t') \<Rightarrow> found (2 ^ k) start cnt D held cache t0 t' rg idp us"
      by (rule range_init_found) (use fmt k at True D ij cnt room Suc.prems(5) in \<open>simp_all add: hal\<close>)
    have sh: "sh - hal_index_bits (pt_hal t0) (of_nat D) (2 ^ k) = va_shift (pt_hal t0) (2 ^ k) D"
      using Suc.prems(6) True by simp
    have "walk_loop (Suc fuel) (2 ^ k) start size' cache d sh idp us t =
        (case page_table_range_init (2 ^ k) d (va_index (pt_hal t) (2 ^ k) start D) (va_index (pt_hal t) (2 ^ k) (start + size' - 1) D) t of
           (rg, t') \<Rightarrow> Some (Walk_found t' rg idp us))"
      by (simp add: Let_def dd pd hal True sh va_index_def)
    then show ?thesis using r by (auto split: prod.splits)
  next
    case False
    then have n: "n < D" using Suc.prems(2) by simp
    have n4: "n < length cache" "unat (of_nat n :: u32) = n" using n D4 len by (simp_all add: MAX_OPERATION_DEPTH_def unat_of_nat_u32)
    note sl = tree_format.slot_facts[OF fmt k, of n start, unfolded D[symmetric], OF n]
    have ok: "length (dir_entries (dir t d)) = unat (dir_entry_count (pt_hal t0) (of_nat n) UVM_PAGE_SIZE_AGNOSTIC)"
      using inv_dir[OF pend(2)] d by (simp add: dir_ok_def dd hal)
    have sh: "va_shift (pt_hal t0) (2 ^ k) n - hal_index_bits (pt_hal t0) (of_nat (Suc n)) (2 ^ k) = va_shift (pt_hal t0) (2 ^ k) (Suc n)"
      by simp
    have i: "entry_index_from_vaddr start (va_shift (pt_hal t0) (2 ^ k) n) (hal_index_bits (pt_hal t0) (of_nat n) (2 ^ k)) =
        va_index (pt_hal t0) (2 ^ k) start n"
      by (simp add: va_index_def)
    let ?s = "slot (pt_hal t0) (2 ^ k) start n"
    have s_eq: "unat (index_to_entry (pt_hal t0) (va_index (pt_hal t0) (2 ^ k) start n) (of_nat n) (2 ^ k)) = ?s" by (simp add: slot_def)
    have n': "Suc n \<le> D" "D - Suc n < fuel" using n Suc.prems(3) by simp_all
    show ?thesis
    proof (cases "dir_entries (dir t d) ! ?s")
      case (Some c)
      then have "linked t d (slot (pt_hal t) (2 ^ k) start n) c" using d ok sl(2) by (simp add: linked_iff hal)
      note at' = attempt_down[OF at this]
      have "walk_loop (Suc fuel) (2 ^ k) start size' cache d sh idp us t =
          walk_loop fuel (2 ^ k) start size' cache c (va_shift (pt_hal t0) (2 ^ k) n) idp us t"
        by (simp add: Let_def dd pd hal at_table False Suc.prems(6) i s_eq Some)
      moreover have "room t (Suc cnt + (D - Suc n))" using Suc.prems(4) n by (auto simp: room_def)
      ultimately show ?thesis using Suc.IH[OF at' n' _ Suc.prems(5) sh] by simp
    next
      case None
      show ?thesis
      proof (cases "cache ! n")
        case None': None
        have "walk_loop (Suc fuel) (2 ^ k) start size' cache d sh idp us t = Some (Walk_needs (undo_links (2 ^ k) us t) (of_nat n))"
          by (simp add: Let_def dd pd hal at_table False Suc.prems(6) i s_eq None None' n4)
        moreover have "missing cache t0 (undo_links (2 ^ k) us t) (of_nat n) D"
          using at ad n None' unfolding missing_def attempt_def added_def n4(2) by blast
        ultimately show ?thesis by simp
      next
        case (Some c)
        let ?t = "link_cached d c (va_index (pt_hal t) (2 ^ k) start n) (2 ^ k) t"
        have rm: "unat (ref_count (dir t d)) + 1 < 2 ^ 32" using Suc.prems(4) d by (auto simp: room_def)
        have at': "attempt (2 ^ k) start held cache t0 (Suc n) c (us @ [c]) ?t"
          by (rule attempt_link[OF at n4(1) Some hal _ _ _ rm]) (use sl ok None in \<open>simp_all add: hal\<close>)
        have c: "spare t c (Suc n)" using at n4(1) Some by (simp add: attempt_def)
        then have cd: "c \<noteq> d" using d by (auto simp: spare_def)
        note L = link_cached_dirs[OF cd, of "va_index (pt_hal t) (2 ^ k) start n" "2 ^ k" t]
        let ?idp = "if idp = - 1 then of_nat n else idp"
        have "walk_loop (Suc fuel) (2 ^ k) start size' cache d sh idp us t =
            walk_loop fuel (2 ^ k) start size' cache c (va_shift (pt_hal t0) (2 ^ k) n) ?idp (us @ [c]) ?t"
          by (simp add: Let_def dd pd hal at_table False Suc.prems(6) i s_eq None Some n4 del: walk_loop.simps(1))
        moreover have "room ?t (Suc cnt + (D - Suc n))"
          unfolding room_def
        proof (intro allI impI)
          fix x assume "pt_dirs ?t x \<noteq> None"
          then have "pt_dirs t x \<noteq> None" using c d by (auto simp: L spare_def split: if_splits)
          then have "unat (ref_count (dir t x)) + (Suc cnt + (D - n)) < 2 ^ 32" using Suc.prems(4) by (simp add: room_def)
          moreover have "unat (ref_count (dir ?t x)) \<le> unat (ref_count (dir t x)) + 1"
            using rm cd by (simp add: L dir_def set_parent_def unat_word_ariths)
          ultimately show "unat (ref_count (dir ?t x)) + (Suc cnt + (D - Suc n)) < 2 ^ 32" using n by linarith
        qed
        moreover have "depth_of_first ?t ?idp (us @ [c])"
        proof (cases us)
          case Nil
          then show ?thesis using Suc.prems(5) dd cd by (simp add: depth_of_first_def L dir_def set_parent_def)
        next
          case (Cons u us')
          then have u: "in_tree t u" "\<exists>q. host_parent (dir t u) = Some q \<and> unat (dir_depth (dir t q)) < n"
            using at by (simp_all add: attempt_def)
          then obtain q where q: "host_parent (dir t u) = Some q" "unat (dir_depth (dir t q)) < n" by blast
          then have idp: "idp = dir_depth (dir t q)" using Suc.prems(5) Cons by (simp add: depth_of_first_def)
          have "idp \<noteq> - 1"
          proof
            assume "idp = - 1"
            then have "unat (- 1 :: u32) < n" using q(2) idp by simp
            then show False using n D4 by (simp add: unsigned_minus_1_eq_mask mask_eq_exp_minus_1)
          qed
          moreover have "u \<noteq> c" using u(1) c by (auto simp: spare_def)
          then have "host_parent (dir ?t u) = Some q" using q(1) cd by (auto simp: L dir_def)
          moreover have "dir_depth (dir ?t q) = dir_depth (dir t q)" using cd by (simp add: L dir_def set_parent_def)
          ultimately show ?thesis using Cons idp by (simp add: depth_of_first_def)
        qed
        ultimately show ?thesis using Suc.IH[OF at' n' _ _ sh] by simp
      qed
    qed
  qed
qed simp

section \<open>Freeing what an attempt did not use\<close>

definition unused :: "dir_id list \<Rightarrow> dir_id option list \<Rightarrow> dir_id list" where
  "unused us cache = filter (\<lambda>c. c \<notin> set us) (map the (filter (\<lambda>c. c \<noteq> None) cache))"

lemma free_unused_eq: "free_unused_directories us cache t = fold free_dir (unused us cache) t"
  by (induction us cache t rule: free_unused_directories.induct) (auto simp: unused_def split: option.splits)

lemma set_unused: "set (unused us cache) = {c. Some c \<in> set cache \<and> c \<notin> set us}"
  by (force simp: unused_def)

definition cache_ok :: "dir_id option list \<Rightarrow> uvm_page_tree \<Rightarrow> bool" where
  "cache_ok cache t \<longleftrightarrow> (\<forall>j c. j < length cache \<longrightarrow> cache ! j = Some c \<longrightarrow> spare t c (Suc j))"

lemma cache_distinct: "cache_ok cache t \<Longrightarrow> distinct (map the (filter (\<lambda>c. c \<noteq> None) cache))"
proof -
  assume ok: "cache_ok cache t"
  have inj: "i = j" if "i < length cache" "j < length cache" "cache ! i = Some c" "cache ! j = Some c" for i j c
    using ok that unfolding cache_ok_def spare_def by (metis Suc_inject)
  show ?thesis using inj
  proof (induction cache)
    case (Cons a cache)
    have IH: "distinct (map the (filter (\<lambda>c. c \<noteq> None) cache))"
    proof (rule Cons.IH)
      fix i j c assume "i < length cache" "j < length cache" "cache ! i = Some c" "cache ! j = Some c"
      then show "i = j" using Cons.prems[of "Suc i" "Suc j" c] by simp
    qed
    have "Some c \<notin> set cache" if a: "a = Some c" for c
    proof
      assume "Some c \<in> set cache"
      then obtain j where "j < length cache" "cache ! j = Some c" by (auto simp: in_set_conv_nth)
      then show False using Cons.prems[of 0 "Suc j" c] a by simp
    qed
    then show ?case using IH by (cases a) force+
  qed simp
qed

lemma unused_distinct: "cache_ok cache t \<Longrightarrow> distinct (unused us cache)"
  unfolding unused_def using cache_distinct by (intro distinct_filter) blast

lemma cache_ok_set: "cache_ok cache t \<Longrightarrow> Some c \<in> set cache \<Longrightarrow> \<exists>m. spare t c m"
  by (auto simp: cache_ok_def in_set_conv_nth)

lemma added_spare:
  assumes "added ps t us t'" "spare t x m" "x \<notin> set us"
  shows "spare t' x m"
proof -
  have "pt_dirs t' x \<noteq> None" "dir_depth (dir t' x) = dir_depth (dir t x)" "\<And>p i. linked t' p i x \<Longrightarrow> linked t p i x"
    using assms unfolding added_def spare_def by auto
  then show ?thesis using assms(2) added_fields(1)[OF assms(1)] by (auto simp: spare_def in_tree_def)
qed

lemma only_parents_same:
  assumes op: "only_parents S t t'" and inv: "tree_inv_at t held pend" and S: "\<forall>u \<in> S. \<exists>m. spare t u m"
  shows "tree_inv_at t' held pend" "spare t' x m = spare t x m" "linked t' p i x = linked t p i x" "in_tree t' x = in_tree t x"
    "(pt_dirs t' x = None) = (pt_dirs t x = None)" "pt_root t' = pt_root t" "pt_hal t' = pt_hal t"
    "ref_count (dir t' x) = ref_count (dir t x) \<or> pt_dirs t x = None" "pt_tracker t' = pt_tracker t" "pt_fake t' = pt_fake t"
    "pt_pushes t' = pt_pushes t" "pt_freed t' = pt_freed t"
proof -
  have t': "t' = t\<lparr>pt_dirs := pt_dirs t'\<rparr>" using op by (simp add: only_parents_def)
  show f: "pt_root t' = pt_root t" "pt_hal t' = pt_hal t" "pt_tracker t' = pt_tracker t" "pt_fake t' = pt_fake t"
    "pt_pushes t' = pt_pushes t" "pt_freed t' = pt_freed t"
    by (subst t', simp)+
  have ds: "\<exists>h i. pt_dirs t' x = map_option (set_parent h i) (pt_dirs t x) \<and> x \<in> S \<or> pt_dirs t' x = pt_dirs t x" for x
    using op unfolding only_parents_def by blast
  show dm: "(pt_dirs t' x = None) = (pt_dirs t x = None)" for x using ds[of x] by auto
  have keep: "pt_dirs t x \<noteq> None \<Longrightarrow> dir_entries (dir t' x) = dir_entries (dir t x) \<and> ref_count (dir t' x) = ref_count (dir t x) \<and>
      dir_depth (dir t' x) = dir_depth (dir t x) \<and> children (dir t' x) = children (dir t x)" for x
    using ds[of x] by (auto simp: dir_def set_parent_def children_def)
  show lk: "linked t' p i x = linked t p i x" for p i x
    using keep[of p] dm[of p] by (cases "pt_dirs t p = None") (auto simp: linked_iff)
  show it: "in_tree t' x = in_tree t x" for x by (simp add: in_tree_def lk f)
  show "spare t' x m = spare t x m" using keep[of x] dm[of x] by (cases "pt_dirs t x = None") (auto simp: spare_def it)
  show "ref_count (dir t' x) = ref_count (dir t x) \<or> pt_dirs t x = None" using keep[of x] by blast
  show "tree_inv_at t' held pend"
  proof (rule dirs_outside_inv[OF inv f(1,2) lk])
    show "in_tree t d \<Longrightarrow> pt_dirs t' d = pt_dirs t d" for d using ds[of d] S by (auto simp: spare_def)
    show "pt_dirs t' p \<noteq> None \<Longrightarrow> \<not> in_tree t p \<Longrightarrow> dir_ok t' held p \<and> ref_count (dir t' p) = 0" for p
      using inv_dir[OF inv, of p] inv_spare[OF inv, of p] keep[of p] dm[of p] by (auto simp: dir_ok_def f)
  qed
qed

end
