(* ===== verification/Page_Tree_Get.thy ===== *)
theory Page_Tree_Get
  imports Page_Tree_Ops
begin

text \<open>
  Getting entries: the attempts under the lock, the allocations between them, and what other threads
  do to the tree meanwhile. The call ends after at most as many allocations as the tree has levels.
  Then the tree is the one all held ranges need, the new one among them, and every directory the call
  allocated is either in the tree or freed.
\<close>

lemma write_gpu_state_cases:
  assumes "write_gpu_state bg ps idp us t = (status, t')"
  shows "same_dirs t t'" "status = NV_OK \<and> (us = [] \<or> bg_status bg = NV_OK) \<or> status = bg_status bg \<and> us \<noteq> []"
    "pt_freed t' = pt_freed t" "status \<noteq> NV_OK \<Longrightarrow> pt_pushes t' = pt_pushes t" "pt_fake t' = pt_fake t"
proof -
  have "same_dirs t t' \<and> (status = NV_OK \<and> (us = [] \<or> bg_status bg = NV_OK) \<or> status = bg_status bg \<and> us \<noteq> []) \<and>
      pt_freed t' = pt_freed t \<and> (status \<noteq> NV_OK \<longrightarrow> pt_pushes t' = pt_pushes t) \<and> pt_fake t' = pt_fake t"
  proof (cases "us = []")
    case False
    obtain st p t1 where b: "begin_acquire_tree bg t = (st, p, t1)" by (cases "begin_acquire_tree bg t")
    note bs = begin_acquire_same[OF b]
    show ?thesis
    proof (cases "st = NV_OK")
      case True
      then show ?thesis using assms False b bs end_push_same
        by (auto simp: write_gpu_state_def Let_def same_dirs_def page_tree_end_def page_tree_tracker_overwrite_with_push_def)
    next
      case False
      then show ?thesis using assms \<open>us \<noteq> []\<close> b bs by (auto simp: write_gpu_state_def Let_def)
    qed
  qed (use assms in \<open>auto simp: write_gpu_state_def\<close>)
  then show "same_dirs t t'" "status = NV_OK \<and> (us = [] \<or> bg_status bg = NV_OK) \<or> status = bg_status bg \<and> us \<noteq> []"
    "pt_freed t' = pt_freed t" "status \<noteq> NV_OK \<Longrightarrow> pt_pushes t' = pt_pushes t" "pt_fake t' = pt_fake t" by blast+
qed

text \<open>The caller's contract: one page table holds all entries of the range.\<close>

definition within_table :: "uvm_mmu_mode_hal \<Rightarrow> nat \<Rightarrow> u64 \<Rightarrow> u64 \<Rightarrow> bool" where
  "within_table hal k start size' \<longleftrightarrow>
     unat (va_index hal (2 ^ k) start (pt_depth hal k)) \<le> unat (va_index hal (2 ^ k) (start + size' - 1) (pt_depth hal k))"

definition entries_of :: "uvm_mmu_mode_hal \<Rightarrow> nat \<Rightarrow> u64 \<Rightarrow> u64 \<Rightarrow> nat" where
  "entries_of hal k start size' =
     Suc (unat (va_index hal (2 ^ k) (start + size' - 1) (pt_depth hal k)) - unat (va_index hal (2 ^ k) start (pt_depth hal k)))"

text \<open>The range that stands for the entries of an address range in a tree.\<close>

definition covers :: "uvm_page_tree \<Rightarrow> nat \<Rightarrow> u64 \<Rightarrow> u64 \<Rightarrow> uvm_page_table_range \<Rightarrow> bool" where
  "covers t k start size' rg \<longleftrightarrow>
     rg_page_size rg = 2 ^ k \<and> rg_start_index rg = va_index (pt_hal t) (2 ^ k) start (pt_depth (pt_hal t) k) \<and>
     unat (rg_entry_count rg) = entries_of (pt_hal t) k start size' \<and>
     walk t (2 ^ k) start (pt_depth (pt_hal t) k) = Some (rg_table rg)"

lemma try_get_ok:
  assumes fmt: "tree_format (pt_hal t)" and k: "page_exp (pt_hal t) k" and len: "length cache = MAX_OPERATION_DEPTH"
    and ij: "within_table (pt_hal t) k start size'" and inv: "tree_inv t held" and cache: "cache_ok cache t"
    and room: "room t (Suc (entries_of (pt_hal t) k start size') + MAX_OPERATION_DEPTH)"
  shows "(\<exists>j t'. try_get_ptes bg (2 ^ k) start size' cache t = Some (NV_ERR_MORE_PROCESSING_REQUIRED, Some j, None, t') \<and>
      missing cache t t' j (pt_depth (pt_hal t) k)) \<or>
    (\<exists>rg idp us t1 t2 status t'. try_get_ptes bg (2 ^ k) start size' cache t = Some (status, None, Some rg, t') \<and>
      found (2 ^ k) start (entries_of (pt_hal t) k start size') (pt_depth (pt_hal t) k) held cache t t1 rg idp us \<and>
      t2 = fold free_dir (unused us cache) t1 \<and> write_gpu_state bg (2 ^ k) idp us t2 = (status, t'))"
proof -
  let ?D = "pt_depth (pt_hal t) k"
  have D: "?D \<le> MAX_OPERATION_DEPTH" using tree_format.depth_range[OF fmt k] tree_format.depth_max[OF fmt] by simp
  have at: "attempt (2 ^ k) start held cache t 0 (pt_root t) [] t"
    by (rule attempt_start[OF inv]) (use cache in \<open>simp add: cache_ok_def\<close>)
  have "room t (Suc (entries_of (pt_hal t) k start size') + (?D - 0))" using room D by (auto simp: room_def)
  from walk_loop_ok[OF fmt k refl len ij[unfolded within_table_def] entries_of_def[of "pt_hal t" k start size'] at _ _ this,
      of "Suc MAX_OPERATION_DEPTH" "- 1" "hal_num_va_bits (pt_hal t)"]
  obtain res where res: "walk_loop (Suc MAX_OPERATION_DEPTH) (2 ^ k) start size' cache (pt_root t) (hal_num_va_bits (pt_hal t)) (- 1) [] t = Some res"
    "case res of
       Walk_needs t' j \<Rightarrow> missing cache t t' j ?D
     | Walk_found t' rg idp' us' \<Rightarrow> found (2 ^ k) start (entries_of (pt_hal t) k start size') ?D held cache t t' rg idp' us'"
    using D by (auto simp: depth_of_first_def)
  show ?thesis
  proof (cases res)
    case (Walk_needs t' j)
    then show ?thesis using res by (simp add: try_get_ptes_def)
  next
    case (Walk_found t1 rg idp us)
    obtain status t' where w: "write_gpu_state bg (2 ^ k) idp us (fold free_dir (unused us cache) t1) = (status, t')"
      by (cases "write_gpu_state bg (2 ^ k) idp us (fold free_dir (unused us cache) t1)")
    have "try_get_ptes bg (2 ^ k) start size' cache t = Some (status, None, Some rg, t')"
      using res(1) w Walk_found by (simp add: try_get_ptes_def free_unused_eq del: walk_loop.simps)
    moreover have "found (2 ^ k) start (entries_of (pt_hal t) k start size') ?D held cache t t1 rg idp us"
      using res(2) Walk_found by simp
    ultimately show ?thesis using w by blast
  qed
qed

text \<open>A successful attempt leaves the tree with the new range, and no spare directory of the cache.\<close>

lemma found_result:
  assumes f: "found (2 ^ k) start cnt D held cache t t1 rg idp us" and cache: "cache_ok cache t"
    and t2: "t2 = fold free_dir (unused us cache) t1" and w: "write_gpu_state bg ps idp us t2 = (status, t')"
    and inv: "tree_inv t held"
  shows "tree_inv t' (rg # held)" "walk t' (2 ^ k) start D = Some (rg_table rg)" "pt_root t' = pt_root t" "pt_hal t' = pt_hal t"
    "Some c \<in> set cache \<Longrightarrow> pt_dirs t' c \<noteq> None \<Longrightarrow> in_tree t' c" "pt_dirs t c = None \<Longrightarrow> pt_dirs t' c = None"
    "spare t x m \<Longrightarrow> Some x \<notin> set cache \<Longrightarrow> spare t' x m" "in_tree t x \<Longrightarrow> in_tree t' x"
    "linked t p i x \<Longrightarrow> linked t' p i x"
proof -
  note ff = f[unfolded found_def]
  have ad: "added (2 ^ k) t us t1" and inv1: "tree_inv_at t1 (rg # held) None" using ff by (simp_all add: tree_inv_def)
  have sp: "\<forall>x \<in> set (unused us cache). \<exists>m. spare t1 x m"
    using cache_ok_set[OF cache] added_spare[OF ad] by (auto simp: set_unused) blast
  note fr = fold_free[OF inv1 sp unused_distinct[OF cache], folded t2]
  note sd = write_gpu_state_cases(1)[OF w]
  note c = same_dirs_cong[OF sd]
  show "tree_inv t' (rg # held)" using fr by (simp add: tree_inv_def c)
  have lk: "linked t' p i y = linked t1 p i y" for p i y using fr by (simp add: c)
  have it: "in_tree t' y = in_tree t1 y" for y using fr by (simp add: c)
  have dirs: "pt_dirs t' y = (if y \<in> set (unused us cache) then None else pt_dirs t1 y)" for y using fr by (simp add: c)
  show f': "pt_root t' = pt_root t" "pt_hal t' = pt_hal t" using fr added_fields(1,2)[OF ad] by (simp_all add: c)
  show "walk t' (2 ^ k) start D = Some (rg_table rg)"
    by (rule walk_transfer[of t' t1]) (use ff lk f' added_fields(1,2)[OF ad] in simp_all)
  show "Some c \<in> set cache \<Longrightarrow> pt_dirs t' c \<noteq> None \<Longrightarrow> in_tree t' c"
    using ff by (auto simp: dirs set_unused it split: if_splits)
  show "pt_dirs t c = None \<Longrightarrow> pt_dirs t' c = None" using ad by (simp add: dirs added_def)
  show "spare t' x m" if x: "spare t x m" "Some x \<notin> set cache"
  proof -
    have "x \<notin> set us" "x \<notin> set (unused us cache)" using ff x(2) by (auto simp: set_unused)
    then show ?thesis using added_spare[OF ad x(1)] by (simp add: spare_def dirs it dir_def)
  qed
  have mono: "linked t p i y \<Longrightarrow> linked t1 p i y" for p i y using ad by (simp add: added_def)
  then show "linked t p i x \<Longrightarrow> linked t' p i x" by (simp add: lk)
  from mono show "in_tree t x \<Longrightarrow> in_tree t' x" unfolding it unfolding in_tree_def added_fields(1)[OF ad] by blast
qed

section \<open>All attempts\<close>

text \<open>The tables of ranges stay where they are: the addresses that lead to them still do.\<close>

definition keeps_walks :: "uvm_page_table_range list \<Rightarrow> uvm_page_tree \<Rightarrow> uvm_page_tree \<Rightarrow> bool" where
  "keeps_walks held t t' \<longleftrightarrow>
     pt_root t' = pt_root t \<and> pt_hal t' = pt_hal t \<and>
     (\<forall>r \<in> set held. \<forall>ps va n. walk t ps va n = Some (rg_table r) \<longrightarrow> walk t' ps va n = Some (rg_table r))"

text \<open>
  The tree a thread shares with others: some ranges it does not know are held as well, not more than
  \<open>2 ^ 31\<close> entries of any table. References are counted in 32 bits.
\<close>

definition shared :: "uvm_page_table_range list \<Rightarrow> uvm_page_tree \<Rightarrow> bool" where
  "shared mine t \<longleftrightarrow> (\<exists>theirs. tree_inv t (mine @ theirs) \<and> (\<forall>d. held_count theirs d \<le> 2 ^ 31))"

definition countable_more :: "uvm_page_table_range list \<Rightarrow> nat \<Rightarrow> bool" where
  "countable_more mine n \<longleftrightarrow> (\<forall>d. held_count mine d + n < 2 ^ 30)"

lemma held_count_append: "held_count (xs @ ys) d = held_count xs d + held_count ys d"
  by (simp add: held_count_def)

lemma children_le: "children r \<le> length (dir_entries r)"
  by (simp add: children_def)

lemma room_for:
  assumes fmt: "tree_format (pt_hal t)" and inv: "tree_inv t (mine @ theirs)" and "\<forall>d. held_count theirs d \<le> 2 ^ 31"
    and "countable_more mine n"
  shows "room t (Suc n + MAX_OPERATION_DEPTH)"
  unfolding room_def
proof (intro allI impI)
  fix x assume x: "pt_dirs t x \<noteq> None"
  have ok: "dir_ok t (mine @ theirs) x" using inv_dir[OF inv[unfolded tree_inv_def] x] .
  have w: "dir_depth (dir t x) = of_nat (unat (dir_depth (dir t x)))" by simp
  have "unat (dir_entry_count (pt_hal t) (dir_depth (dir t x)) UVM_PAGE_SIZE_AGNOSTIC) \<le> 2 ^ 17"
    by (subst w, rule tree_format.entry_count_small[OF fmt]) (use ok in \<open>simp add: dir_ok_def\<close>)
  then have "children (dir t x) \<le> 2 ^ 17" using ok children_le[of "dir t x"] by (simp add: dir_ok_def)
  moreover have "held_count theirs x \<le> 2 ^ 31" using assms(3) by blast
  moreover have "held_count mine x + n < 2 ^ 30" using assms(4) unfolding countable_more_def by blast
  ultimately show "unat (ref_count (dir t x)) + (Suc n + MAX_OPERATION_DEPTH) < 2 ^ 32"
    using ok by (simp add: dir_ok_def MAX_OPERATION_DEPTH_def held_count_append)
qed

lemma keeps_walks_refl: "keeps_walks held t t"
  by (simp add: keeps_walks_def)

lemma keeps_walks_trans: "keeps_walks held t t' \<Longrightarrow> keeps_walks held t' t'' \<Longrightarrow> keeps_walks held t t''"
  by (simp add: keeps_walks_def)

lemma keeps_walks_links:
  assumes "pt_root t' = pt_root t" "pt_hal t' = pt_hal t" "\<And>p i x. linked t p i x \<Longrightarrow> linked t' p i x"
  shows "keeps_walks held t t'"
  unfolding keeps_walks_def using assms(1,2) by (auto intro: walk_transfer assms(3))

text \<open>
  What other threads keep while this one is not holding the lock: the tree stays one that the ranges of
  this thread and those of others need, this thread's tables stay in their places, and the directories this thread allocated, or is going to,
  are left alone.
\<close>

definition rely :: "uvm_page_table_range list \<Rightarrow> dir_id set \<Rightarrow> uvm_page_tree \<Rightarrow> uvm_page_tree \<Rightarrow> bool" where
  "rely mine ids t t' \<longleftrightarrow>
     keeps_walks mine t t' \<and>
     (shared mine t \<longrightarrow> shared mine t') \<and>
     (\<forall>c \<in> ids. pt_dirs t' c = pt_dirs t c \<and> (in_tree t' c \<longrightarrow> in_tree t c))"

definition ids_of :: "(nat \<Rightarrow> alloc_outcome) \<Rightarrow> dir_id set" where
  "ids_of outs = {c. \<exists>k. ao_dir (outs k) = Some c}"

text \<open>Each call of the allocator returns memory of its own.\<close>

definition fresh_allocs :: "(nat \<Rightarrow> alloc_outcome) \<Rightarrow> nat \<Rightarrow> uvm_page_tree \<Rightarrow> bool" where
  "fresh_allocs outs k t \<longleftrightarrow>
     (\<forall>j c. k \<le> j \<longrightarrow> ao_dir (outs j) = Some c \<longrightarrow> pt_dirs t c = None) \<and>
     (\<forall>i j c. ao_dir (outs i) = Some c \<longrightarrow> ao_dir (outs j) = Some c \<longrightarrow> i = j)"

definition get_result ::
  "nat \<Rightarrow> u64 \<Rightarrow> u64 \<Rightarrow> uvm_page_table_range list \<Rightarrow> dir_id set \<Rightarrow> begin_outcome \<Rightarrow>
   nv_status \<Rightarrow> uvm_page_table_range option \<Rightarrow> uvm_page_tree \<Rightarrow> bool" where
  "get_result k start size' mine ids bg status rg t \<longleftrightarrow>
     (case rg of
        None \<Rightarrow> status = NV_ERR_NO_MEMORY \<and> shared mine t \<and> (\<forall>c \<in> ids. pt_dirs t c = None)
      | Some r \<Rightarrow> (status = NV_OK \<or> status = bg_status bg) \<and> covers t k start size' r \<and>
          shared (r # mine) t \<and> (\<forall>c \<in> ids. pt_dirs t c \<noteq> None \<longrightarrow> in_tree t c))"

definition nones :: "dir_id option list \<Rightarrow> nat \<Rightarrow> nat" where
  "nones cache n = card {j. j < n \<and> cache ! j = None}"

lemma nones_update:
  assumes "j < n" "n \<le> length cache" "cache ! j = None"
  shows "nones (cache[j := Some c]) n < nones cache n"
proof -
  have fin: "finite {i. i < n \<and> cache ! i = None}" by simp
  have "{i. i < n \<and> cache[j := Some c] ! i = None} \<subset> {i. i < n \<and> cache ! i = None}"
    using assms by (auto simp: nth_list_update)
  from psubset_card_mono[OF fin this] show ?thesis by (simp add: nones_def)
qed

lemma rely_cache:
  assumes "rely mine ids t t'" "cache_ok cache t" "\<forall>c. Some c \<in> set cache \<longrightarrow> c \<in> ids"
  shows "cache_ok cache t'"
  unfolding cache_ok_def
proof (intro allI impI)
  fix j c assume j: "j < length cache" "cache ! j = Some c"
  then have "c \<in> ids" using assms(3) by (metis nth_mem)
  moreover have "spare t c (Suc j)" using assms(2) j by (simp add: cache_ok_def)
  ultimately show "spare t' c (Suc j)" using assms(1) unfolding rely_def spare_def dir_def by metis
qed

lemma get_loop_ok:
  assumes fmt: "tree_format hal" and k: "page_exp hal k" and ij: "within_table hal k start size'"
    and few: "countable_more mine (entries_of hal k start size')" and S: "ids_of outs \<subseteq> S"
    and alloc: "\<And>i t n. allocate_directory ap wait_fuel (outs i) t (2 ^ k) n \<noteq> None"
    and others: "\<And>i t. rely mine S t (others i t)" and bg: "bg_status bg \<noteq> NV_ERR_MORE_PROCESSING_REQUIRED"
    and "pt_hal t = hal" "shared mine t" "cache_ok cache t" "length cache = MAX_OPERATION_DEPTH"
    and "fresh_allocs outs i t" "\<forall>c \<in> ids_of outs. pt_dirs t c \<noteq> None \<longrightarrow> Some c \<in> set cache"
    and "\<forall>c. Some c \<in> set cache \<longrightarrow> c \<in> ids_of outs" "nones cache (pt_depth hal k) < fuel"
  shows "\<exists>status rg t'. get_loop ap outs others wait_fuel bg fuel i (2 ^ k) start size' n0 cache t = Some (status, rg, t') \<and>
    get_result k start size' mine (ids_of outs) bg status rg t' \<and> keeps_walks mine t t' \<and>
    (\<forall>c \<in> S - ids_of outs. pt_dirs t c = None \<longrightarrow> pt_dirs t' c = None)"
  using assms(9-16)
proof (induction fuel arbitrary: i t cache n0)
  case (Suc fuel)
  obtain theirs where inv: "tree_inv t (mine @ theirs)" and th: "\<forall>d. held_count theirs d \<le> 2 ^ 31"
    using Suc.prems(2) by (auto simp: shared_def)
  note hal = Suc.prems(1)
  have D: "pt_depth hal k \<le> MAX_OPERATION_DEPTH" "1 \<le> pt_depth hal k"
    using tree_format.depth_range[OF fmt k] tree_format.depth_max[OF fmt] by simp_all
  note rm = room_for[of t mine theirs, unfolded hal, OF fmt inv th few]
  note attempt_result = try_get_ok[of t k cache start size' "mine @ theirs" bg, unfolded hal, OF fmt k Suc.prems(4) ij inv Suc.prems(3) rm]
  from attempt_result show ?case
  proof (elim disjE exE conjE)
    fix rg idp us t1 t2 status t'
    assume t: "try_get_ptes bg (2 ^ k) start size' cache t = Some (status, None, Some rg, t')"
      and f: "found (2 ^ k) start (entries_of hal k start size') (pt_depth hal k) (mine @ theirs) cache t t1 rg idp us"
      and t2: "t2 = fold free_dir (unused us cache) t1" and w: "write_gpu_state bg (2 ^ k) idp us t2 = (status, t')"
    have st: "status \<noteq> NV_ERR_MORE_PROCESSING_REQUIRED" "status = NV_OK \<or> status = bg_status bg"
      using write_gpu_state_cases(2)[OF w] bg by auto
    note fr = found_result[OF f Suc.prems(3) t2 w inv]
    have hal1: "pt_hal t1 = hal" using f hal added_fields(2) by (auto simp: found_def)
    have "covers t' k start size' rg" using f fr(2,4) hal hal1 by (simp add: covers_def found_def)
    moreover have "\<forall>c \<in> ids_of outs. pt_dirs t' c \<noteq> None \<longrightarrow> in_tree t' c"
    proof (intro ballI impI)
      fix c assume c: "c \<in> ids_of outs" "pt_dirs t' c \<noteq> None"
      then have "pt_dirs t c \<noteq> None" using fr(6)[of c] by (cases "pt_dirs t c") auto
      then have "Some c \<in> set cache" using Suc.prems(6) c(1) by blast
      then show "in_tree t' c" using fr(5) c(2) by blast
    qed
    ultimately have "get_result k start size' mine (ids_of outs) bg status (Some rg) t'"
      using st fr(1) th by (auto simp: get_result_def shared_def)
    moreover have "keeps_walks mine t t'" by (rule keeps_walks_links[OF fr(3,4) fr(9)])
    ultimately show ?thesis using t st fr(6) by simp
  next
    fix j t1
    assume t: "try_get_ptes bg (2 ^ k) start size' cache t = Some (NV_ERR_MORE_PROCESSING_REQUIRED, Some j, None, t1)"
      and mis: "missing cache t t1 j (pt_depth hal k)"
    have j: "unat j < pt_depth hal k" "cache ! unat j = None" "unat j < length cache"
      using mis D Suc.prems(4) by (simp_all add: missing_def)
    have ids0: "\<forall>c. Some c \<in> set cache \<longrightarrow> c \<in> S" using Suc.prems(7) S by blast
    obtain us where us: "only_parents (set us) t t1" "\<forall>u \<in> set us. \<exists>m. spare t u m" using mis by (auto simp: missing_def)
    note op = only_parents_same[OF us(1) inv[unfolded tree_inv_def] us(2)]
    have t1: "pt_hal t1 = hal" "tree_inv t1 (mine @ theirs)" "cache_ok cache t1" "fresh_allocs outs i t1"
      "\<forall>c \<in> ids_of outs. pt_dirs t1 c \<noteq> None \<longrightarrow> Some c \<in> set cache"
      using Suc.prems(1,3,5,6) op(1,2,5,7) by (simp_all add: cache_ok_def fresh_allocs_def tree_inv_def)
    have kw1: "keeps_walks mine t t1" by (rule keeps_walks_links[OF op(6,7)]) (simp add: op(3))
    have none1: "pt_dirs t c = None \<Longrightarrow> pt_dirs t1 c = None" for c using op(5) by simp
    obtain c t2 where a: "allocate_directory ap wait_fuel (outs i) t1 (2 ^ k) (j + 1) = Some (c, t2)"
      using alloc[of i t1 "j + 1"] by auto
    show ?thesis
      using a
    proof (cases rule: allocate_directory_cases)
      case none
      note c = same_dirs_cong[OF none(2)]
      have r: "rely mine S t2 (others i t2)" by (rule others)
      have ok2: "cache_ok cache t2" using t1(3) by (simp add: cache_ok_def c)
      note ok3 = rely_cache[OF r ok2 ids0]
      have "shared mine t2" using t1(2) th by (auto simp: shared_def tree_inv_def c)
      then obtain theirs' where inv3: "tree_inv (others i t2) (mine @ theirs')" and th3: "\<forall>d. held_count theirs' d \<le> 2 ^ 31"
        using r by (auto simp: rely_def shared_def)
      have sp: "\<forall>x \<in> set (unused [] cache). \<exists>m. spare (others i t2) x m"
        using cache_ok_set[OF ok3] by (simp add: set_unused)
      note fr = fold_free[OF inv3[unfolded tree_inv_def] sp unused_distinct[OF ok3]]
      have "keeps_walks mine t1 t2" by (rule keeps_walks_links) (simp_all add: c)
      moreover have "keeps_walks mine t2 (others i t2)" using r by (simp add: rely_def)
      moreover have "keeps_walks mine (others i t2) (fold free_dir (unused [] cache) (others i t2))"
        by (rule keeps_walks_links) (simp_all add: fr)
      ultimately have kw: "keeps_walks mine t (fold free_dir (unused [] cache) (others i t2))"
        using kw1 keeps_walks_trans by blast
      have "\<forall>c \<in> ids_of outs. pt_dirs (fold free_dir (unused [] cache) (others i t2)) c = None"
      proof
        fix x assume x: "x \<in> ids_of outs"
        have "pt_dirs (others i t2) x = pt_dirs t1 x" using r x S by (auto simp: rely_def c)
        then show "pt_dirs (fold free_dir (unused [] cache) (others i t2)) x = None"
          using t1(5) x fr by (auto simp: set_unused)
      qed
      then have "get_result k start size' mine (ids_of outs) bg NV_ERR_NO_MEMORY None (fold free_dir (unused [] cache) (others i t2))"
        using fr th3 by (auto simp: get_result_def tree_inv_def shared_def)
      moreover have "\<forall>c \<in> S. pt_dirs t c = None \<longrightarrow> pt_dirs (fold free_dir (unused [] cache) (others i t2)) c = None"
        using r none1 fr by (simp add: rely_def c)
      moreover have "cache[unat j := None] = cache" using j by (metis list_update_id)
      ultimately show ?thesis using t a none kw by (simp add: free_unused_eq)
    next
      case (some d al)
      have j1: "unat (j + 1) = Suc (unat j)" using j D by (simp add: unat_word_ariths MAX_OPERATION_DEPTH_def)
      have d0: "pt_dirs t1 d = None" "d \<in> ids_of outs" using t1(4) some(2) by (auto simp: fresh_allocs_def ids_of_def)
      have j1w: "j + 1 = of_nat (Suc (unat j))" using depth_word[OF j1] .
      have n: "unat (j + 1) \<le> unat (hal_page_table_depth (pt_hal t1) UVM_PAGE_SIZE_AGNOSTIC)"
        "dir_entry_count (pt_hal t1) (j + 1) (2 ^ k) = dir_entry_count (pt_hal t1) (j + 1) UVM_PAGE_SIZE_AGNOSTIC"
        using tree_format.depth_range[OF fmt k] tree_format.entry_count_agnostic[OF fmt k, of "Suc (unat j)"] j j1 t1(1)
        by (simp_all add: j1w del: of_nat_Suc)
      note al = alloc_inv[OF t1(2)[unfolded tree_inv_def] d0(1) some(3-5) n]
      let ?cache = "cache[unat j := Some d]"
      have ok2: "cache_ok ?cache t2"
        unfolding cache_ok_def
      proof (intro allI impI)
        fix x c assume x: "x < length ?cache" "?cache ! x = Some c"
        show "spare t2 c (Suc x)"
          using x al(2) j1 t1(3) j(3) by (cases "x = unat j") (auto simp: cache_ok_def intro: al(3))
      qed
      have ids2: "\<forall>c. Some c \<in> set ?cache \<longrightarrow> c \<in> ids_of outs"
        using Suc.prems(7) d0(2) set_update_subset_insert[of cache "unat j" "Some d"] by auto
      then have idsS: "\<forall>c. Some c \<in> set ?cache \<longrightarrow> c \<in> S" using S by blast
      have r: "rely mine S t2 (others i t2)" by (rule others)
      have inv2: "shared mine t2" using al(1) th by (auto simp: shared_def tree_inv_def)
      have ids: "pt_dirs (others i t2) c = pt_dirs t2 c" if "c \<in> ids_of outs" for c using r that S by (auto simp: rely_def)
      have fresh: "fresh_allocs outs (Suc i) (others i t2)"
        unfolding fresh_allocs_def
      proof (intro conjI allI impI)
        fix j' c assume c: "Suc i \<le> j'" "ao_dir (outs j') = Some c"
        then have "c \<in> ids_of outs" by (auto simp: ids_of_def)
        moreover have "c \<noteq> d"
        proof
          assume "c = d"
          then have "j' = i" using c(2) some(2) t1(4) unfolding fresh_allocs_def by blast
          then show False using c(1) by simp
        qed
        moreover have "pt_dirs t1 c = None" using c t1(4) unfolding fresh_allocs_def by (meson Suc_leD)
        ultimately show "pt_dirs (others i t2) c = None" using ids by (simp add: some(3))
      next
        fix i' j' c assume "ao_dir (outs i') = Some c" "ao_dir (outs j') = Some c"
        then show "i' = j'" using t1(4) unfolding fresh_allocs_def by blast
      qed
      have doms: "\<forall>c \<in> ids_of outs. pt_dirs (others i t2) c \<noteq> None \<longrightarrow> Some c \<in> set ?cache"
      proof (intro ballI impI)
        fix c assume c: "c \<in> ids_of outs" "pt_dirs (others i t2) c \<noteq> None"
        show "Some c \<in> set ?cache"
        proof (cases "c = d")
          case True
          then show ?thesis using j(3) by (simp add: set_update_memI)
        next
          case False
          then have "pt_dirs t1 c \<noteq> None" using c ids by (simp add: some(3))
          then obtain x where x: "x < length cache" "cache ! x = Some c" using t1(5) c(1) by (metis in_set_conv_nth)
          then have "?cache ! x = Some c" using j(2) by (cases "x = unat j") auto
          with x(1) show ?thesis by (metis length_list_update nth_mem)
        qed
      qed
      have "nones ?cache (pt_depth hal k) < fuel"
        using nones_update[OF j(1) _ j(2), of d] D Suc.prems(4,8) by simp
      from Suc.IH[OF _ _ rely_cache[OF r ok2 idsS] _ fresh doms ids2 this, of "j"]
      obtain status rg t' where IH: "get_loop ap outs others wait_fuel bg fuel (Suc i) (2 ^ k) start size' j ?cache (others i t2) = Some (status, rg, t')"
        and IH': "get_result k start size' mine (ids_of outs) bg status rg t' \<and> keeps_walks mine (others i t2) t' \<and>
          (\<forall>c \<in> S - ids_of outs. pt_dirs (others i t2) c = None \<longrightarrow> pt_dirs t' c = None)"
        using r inv2 some(5) t1(1) Suc.prems(4) by (auto simp: rely_def keeps_walks_def)
      have "keeps_walks mine t1 t2" by (rule keeps_walks_links[OF some(4,5)]) (simp add: al(4))
      moreover have "keeps_walks mine t2 (others i t2)" using r by (simp add: rely_def)
      ultimately have "keeps_walks mine t t'" using kw1 IH' keeps_walks_trans by blast
      moreover have "pt_dirs (others i t2) c = None" if "c \<in> S - ids_of outs" "pt_dirs t c = None" for c
        using r that d0(2) none1 by (auto simp: rely_def some(3))
      ultimately show ?thesis using t a some(1) IH IH' by simp
    qed
  qed
qed simp

section \<open>Properties\<close>

lemma nones_replicate: "n \<le> m \<Longrightarrow> nones (replicate m None) n = n"
  by (simp add: nones_def) (simp add: card_Collect_less_nat cong: conj_cong)

lemma get_ptes_ok:
  assumes "pt_hal t \<in> set mmu_formats" "page_exp (pt_hal t) k" "within_table (pt_hal t) k start size'"
    and "shared mine t" "countable_more mine (entries_of (pt_hal t) k start size')"
    and "fresh_allocs outs 0 t" "\<And>i t n. allocate_directory ap wait_fuel (outs i) t (2 ^ k) n \<noteq> None"
    and "ids_of outs \<subseteq> S" "\<And>i t'. rely mine S t' (others i t')"
    and "bg_status bg \<noteq> NV_ERR_MORE_PROCESSING_REQUIRED" "pt_depth (pt_hal t) k < fuel"
  shows "\<exists>status rg t'. uvm_page_tree_get_ptes_async ap outs others wait_fuel bg fuel (2 ^ k) start size' t = Some (status, rg, t') \<and>
    get_result k start size' mine (ids_of outs) bg status rg t' \<and> keeps_walks mine t t' \<and>
    (\<forall>c \<in> S - ids_of outs. pt_dirs t c = None \<longrightarrow> pt_dirs t' c = None)"
proof -
  let ?hal = "pt_hal t" and ?cache = "replicate MAX_OPERATION_DEPTH None :: dir_id option list"
  note fmt = mmu_formats_tree[OF assms(1)]
  have D: "pt_depth ?hal k \<le> MAX_OPERATION_DEPTH"
    using tree_format.depth_range[OF fmt assms(2)] tree_format.depth_max[OF fmt] by simp
  have "cache_ok ?cache t" "length ?cache = MAX_OPERATION_DEPTH" "\<forall>c. Some c \<in> set ?cache \<longrightarrow> c \<in> ids_of outs"
    by (simp_all add: cache_ok_def)
  moreover have "\<forall>c \<in> ids_of outs. pt_dirs t c \<noteq> None \<longrightarrow> Some c \<in> set ?cache"
    using assms(6) by (auto simp: fresh_allocs_def ids_of_def)
  moreover have "nones ?cache (pt_depth ?hal k) < fuel" using nones_replicate[OF D] assms(11) by simp
  ultimately show ?thesis
    unfolding uvm_page_tree_get_ptes_async_def
    using get_loop_ok[where others = others and ?n0.0 = 0, OF fmt assms(2,3,5,8,7,9,10) refl assms(4) _ _ assms(6)] by blast
qed

text \<open>
  C2. Getting entries is correct, whatever other threads do in between. For a range that one page table
  holds, in a tree that the held ranges need exactly, with memory for the allocator to return, the call
  ends when it may make more attempts than the tree has levels below the root. Either it reports that
  memory ran out, the ranges held are as before and every directory it allocated is freed; or it returns
  the entries of the address range in the table that its address leads to, the tree is the one the old
  ranges and the new one need, and no directory it allocated is left outside the tree. The status is
  then that of the push that writes the GPU's tables. The tables of ranges already held stay in place.
\<close>

theorem get_ptes_correct:
  assumes "pt_hal t \<in> set mmu_formats" "page_exp (pt_hal t) k" "within_table (pt_hal t) k start size'"
    and "shared mine t" "countable_more mine (entries_of (pt_hal t) k start size')"
    and "fresh_allocs outs 0 t" "\<And>i t n. allocate_directory ap wait_fuel (outs i) t (2 ^ k) n \<noteq> None"
    and "ids_of outs \<subseteq> S" "\<And>i t'. rely mine S t' (others i t')"
    and "bg_status bg \<noteq> NV_ERR_MORE_PROCESSING_REQUIRED" "pt_depth (pt_hal t) k < fuel"
  shows "\<exists>status rg t'. uvm_page_tree_get_ptes_async ap outs others wait_fuel bg fuel (2 ^ k) start size' t = Some (status, rg, t') \<and>
    get_result k start size' mine (ids_of outs) bg status rg t' \<and> keeps_walks mine t t' \<and>
    (\<forall>c \<in> S - ids_of outs. pt_dirs t c = None \<longrightarrow> pt_dirs t' c = None)"
  using get_ptes_ok[OF assms] .

text \<open>
  C5. Putting entries is correct. Giving back a held range always ends within the levels of the tree. If
  the push can begin, the tree is then the one the remaining ranges need, and the directories unlinked
  are freed. If it cannot, the directories stay as they were.
\<close>

theorem put_ptes_correct:
  assumes "pt_hal t \<in> set mmu_formats" "tree_inv t held" "r \<in> set held"
  shows "\<exists>t'. uvm_page_tree_put_ptes_async bg r t = Some t' \<and>
    ((\<exists>gone. put_done t (remove1 r held) t' gone) \<or> bg_status bg \<noteq> NV_OK \<and> pt_dirs t' = pt_dirs t \<and> tree_inv t' held)"
  using put_async_ok[OF mmu_formats_tree[OF assms(1)] assms(2,3)] .


section \<open>A new tree\<close>

lemma root_only_inv:
  assumes "pt_dirs t = Map.empty(pt_root t := Some r)" "host_parent r = None" "dir_depth r = 0" "ref_count r = 0"
    and "dir_entries r = replicate (unat (dir_entry_count (pt_hal t) 0 UVM_PAGE_SIZE_AGNOSTIC)) None"
  shows "tree_inv t []"
proof -
  have nl: "\<not> linked t p i d" for p i d using assms by (auto simp: linked_def)
  show ?thesis
    unfolding tree_inv_def
    by (rule inv_intro) (use assms nl in \<open>auto simp: dir_def dir_ok_def children_def held_count_def in_tree_def split: if_splits\<close>)
qed

lemma init_inv_tree:
  assumes i: "uvm_page_tree_init ap fuel oc bg env fake hal big_page_size location = Some (NV_OK, t)"
  shows "tree_inv t [] \<and> pt_hal t = hal \<and> pt_location t = location"
proof -
  let ?t0 = "\<lparr>pt_dirs = Map.empty, pt_root = 0, pt_hal = hal, pt_big_page_size = big_page_size,
      pt_location = location, pt_tracker = uvm_tracker_init, pt_fake = fake, pt_pushes = [], pt_freed = []\<rparr>"
  from i obtain c t1 where a: "allocate_directory ap fuel oc ?t0 UVM_PAGE_SIZE_AGNOSTIC 0 = Some (c, t1)"
    by (auto simp: uvm_page_tree_init_def Let_def split: option.splits)
  show "tree_inv t [] \<and> pt_hal t = hal \<and> pt_location t = location"
    using a
  proof (cases rule: allocate_directory_cases)
    case none
    then show ?thesis using i a by (simp add: uvm_page_tree_init_def Let_def)
  next
    case (some d al)
    obtain status push t2 where b: "begin_acquire_tree bg (t1\<lparr>pt_root := d\<rparr>) = (status, push, t2)" by (metis prod_cases3)
    have loc: "pt_location t1 = location"
      using a some(1) phys_mem_allocate_dirs
      by (fastforce simp: allocate_directory_def allocate_directory_with_location_def Let_def split: option.splits prod.splits if_splits)
    have "status = NV_OK" "pt_dirs t = pt_dirs t2 \<and> pt_root t = pt_root t2 \<and> pt_hal t = pt_hal t2 \<and> pt_location t = pt_location t2"
      using i a b some(1)
      by (auto simp: uvm_page_tree_init_def Let_def page_tree_end_and_wait_def page_tree_end_def split: if_splits)
    moreover have "pt_location t2 = location" "same_dirs (t1\<lparr>pt_root := d\<rparr>) t2"
      using b begin_acquire_same[OF b] loc by (auto simp: begin_acquire_tree_def Let_def page_tree_begin_acquire_def)
    ultimately have f: "pt_dirs t = pt_dirs t1" "pt_root t = d" "pt_hal t = hal" "pt_location t = location"
      using some(5) by (simp_all add: same_dirs_def)
    have "pt_dirs t = Map.empty(pt_root t := Some \<lparr>host_parent = None, index_in_parent = 0, phys_alloc = al, ref_count = 0,
        dir_depth = 0, dir_entries = replicate (unat (dir_entry_count hal 0 UVM_PAGE_SIZE_AGNOSTIC)) None\<rparr>)"
      by (simp add: f some(3))
    then have "tree_inv t []" by (rule root_only_inv) (simp_all add: f)
    then show ?thesis using f by simp
  qed
qed

lemma nothing_held:
  assumes inv: "tree_inv t []"
  shows "ref_count (dir t (pt_root t)) = 0 \<and> (\<forall>d. in_tree t d \<longleftrightarrow> d = pt_root t)"
proof -
  have only: "in_tree t d \<longleftrightarrow> d = pt_root t" for d using page_tree_exact[OF inv] by simp
  have inv': "tree_inv_at t [] None" using inv by (simp add: tree_inv_def)
  have "\<not> linked t (pt_root t) i d" for i d
  proof
    assume l: "linked t (pt_root t) i d"
    then have "in_tree t d" by (auto simp: in_tree_def)
    then show False using only not_root_linked[OF inv' l] by blast
  qed
  then have "children (dir t (pt_root t)) = 0"
    using inv_root(1)[OF inv']
    by (auto simp: children_def filter_empty_conv linked_iff in_set_conv_nth) (metis option.exhaust)
  then have "unat (ref_count (dir t (pt_root t))) = 0"
    using inv_dir[OF inv' inv_root(1)[OF inv']] by (simp add: dir_ok_def held_count_def)
  then show "ref_count (dir t (pt_root t)) = 0 \<and> (\<forall>d. in_tree t d \<longleftrightarrow> d = pt_root t)" using only by (simp add: unat_eq_0)
qed


section \<open>Parts of a range\<close>

lemma same_table_ok:
  assumes "range_ok t r" "rg_table q = rg_table r" "rg_page_size q = rg_page_size r" "0 < rg_entry_count q"
    and "unat (rg_start_index q) + unat (rg_entry_count q) \<le> unat (rg_start_index r) + unat (rg_entry_count r)"
  shows "range_ok t q"
proof -
  from assms(1) obtain k va where r: "page_exp (pt_hal t) k" "rg_page_size r = 2 ^ k"
    "walk t (2 ^ k) va (pt_depth (pt_hal t) k) = Some (rg_table r)"
    "unat (rg_start_index r) + unat (rg_entry_count r) \<le>
       2 ^ unat (hal_index_bits (pt_hal t) (of_nat (pt_depth (pt_hal t) k)) (2 ^ k))"
    unfolding range_ok_def by blast
  from assms(5) r(4) have "unat (rg_start_index q) + unat (rg_entry_count q) \<le>
       2 ^ unat (hal_index_bits (pt_hal t) (of_nat (pt_depth (pt_hal t) k)) (2 ^ k))" by (rule le_trans)
  with r(1-3) assms(2-4) show ?thesis unfolding range_ok_def by auto
qed

lemma held_Cons: "r \<in> set held \<Longrightarrow> held_count (q # remove1 r held) d + (if d = rg_table r then unat (rg_entry_count r) else 0) =
    held_count held d + (if d = rg_table q then unat (rg_entry_count q) else 0)"
  using held_count_remove1[of r held d] by (auto simp: held_count_Cons)

text \<open>
  Splitting a range. Taking the upper pages of a held range holds their entries once more, the last
  ones of the range, and changes nothing else. Shrinking a held range to fewer pages, but not to none,
  keeps its first entries and gives up the others, so that taking the upper pages and then shrinking by
  as many leaves the two parts of the range held.
\<close>

theorem range_parts_correct:
  assumes "pt_hal t \<in> set mmu_formats" "tree_inv t held" "r \<in> set held" "0 < num" "num \<le> rg_entry_count r"
    and "unat (ref_count (dir t (rg_table r))) + unat num < 2 ^ 32"
  shows "case uvm_page_table_range_get_upper r num t of (upper, t1) \<Rightarrow>
      tree_inv t1 (upper # held) \<and> rg_table upper = rg_table r \<and> rg_page_size upper = rg_page_size r \<and> rg_entry_count upper = num \<and>
      unat (rg_start_index upper) + unat num = unat (rg_start_index r) + unat (rg_entry_count r) \<and>
      (num < rg_entry_count r \<longrightarrow>
        (\<exists>t2. uvm_page_table_range_shrink env fuel bg r (rg_entry_count r - num) t1 =
           Some (r\<lparr>rg_entry_count := rg_entry_count r - num\<rparr>, t2) \<and>
           tree_inv t2 (r\<lparr>rg_entry_count := rg_entry_count r - num\<rparr> # remove1 r (upper # held))))"
proof -
  let ?n = "rg_entry_count r - num"
  let ?us = "rg_start_index r + ?n"
  let ?up = "\<lparr>rg_table = rg_table r, rg_start_index = ?us, rg_entry_count = num, rg_page_size = rg_page_size r\<rparr>"
  let ?r = "r\<lparr>rg_entry_count := ?n\<rparr>"
  let ?t1 = "upd_dir (rg_table r) (\<lambda>q. q\<lparr>ref_count := ref_count (dir t (rg_table r)) + num\<rparr>) t"
  have inv: "tree_inv_at t held None" using assms(2) by (simp add: tree_inv_def)
  note rok = inv_range[OF inv assms(3)]
  have n: "unat ?n = unat (rg_entry_count r) - unat num" using assms(5) by (rule unat_sub)
  have le: "unat num \<le> unat (rg_entry_count r)" "0 < unat num" using assms(4,5) by (simp_all add: word_le_nat_alt unat_gt_0 word_greater_zero_iff)
  have "unat (rg_start_index r) + unat (rg_entry_count r) < 2 ^ 32"
  proof -
    from rok obtain k where k: "page_exp (pt_hal t) k" "unat (rg_start_index r) + unat (rg_entry_count r) \<le>
       2 ^ unat (hal_index_bits (pt_hal t) (of_nat (pt_depth (pt_hal t) k)) (2 ^ k))" unfolding range_ok_def by blast
    have "(2::nat) ^ unat (hal_index_bits (pt_hal t) (of_nat (pt_depth (pt_hal t) k)) (2 ^ k)) \<le> 2 ^ 16"
      using tree_format.index_bits_small[OF mmu_formats_tree[OF assms(1)] k(1) order_refl] by (intro power_increasing) auto
    from le_trans[OF k(2) this] show ?thesis by simp
  qed
  then have us: "unat ?us = unat (rg_start_index r) + (unat (rg_entry_count r) - unat num)"
    using n le by (simp add: unat_word_ariths)
  have upper: "range_ok t ?up" by (rule same_table_ok[OF rok]) (use us le assms(4) in simp_all)
  have eq: "uvm_page_table_range_get_upper r num t = (?up, ?t1)"
    by (simp add: uvm_page_table_range_get_upper_def page_table_range_init_def Let_def upd_dir_def)
  have inv1: "tree_inv_at ?t1 (?up # held) None"
    using take_refs_inv[OF inv, of ?up] range_in_tree[OF inv rok] upper assms(6) by simp
  have parts: "\<exists>t2. uvm_page_table_range_shrink env fuel bg r ?n ?t1 = Some (?r, t2) \<and> tree_inv t2 (?r # remove1 r (?up # held))"
    if lt: "num < rg_entry_count r"
  proof -
    have n0: "0 < ?n" using lt n by (simp add: word_less_nat_alt)
    have r1: "r \<in> set (?up # held)" using assms(3) by simp
    have "?n + num = rg_entry_count r" by simp
    then have hc: "held_count (?r # remove1 r (?up # held)) d + (if d = rg_table r then unat num else 0) = held_count (?up # held) d" for d
      using held_Cons[OF r1, of ?r d] n le by auto
    have rok1: "range_ok ?t1 r" using inv_range[OF inv1 r1] .
    have "range_ok ?t1 ?r" by (rule same_table_ok[OF rok1]) (use n0 n in simp_all)
    then have ranges: "\<And>q. q \<in> set (?r # remove1 r (?up # held)) \<Longrightarrow> range_ok ?t1 q"
      using inv_range[OF inv1] set_remove1_subset[of r "?up # held"] by auto
    note dr = drop_refs_inv[OF inv1 r1 assms(5) hc ranges]
    let ?t2 = "upd_dir (rg_table r) (\<lambda>q. q\<lparr>ref_count := ref_count (dir ?t1 (rg_table r)) - num\<rparr>) ?t1"
    have "unat (ref_count (dir ?t1 (rg_table r)) - num) \<noteq> 0"
      using dr(3) n0 by (simp add: held_count_Cons unat_eq_0 word_greater_zero_iff)
    then have "ref_count (dir ?t2 (rg_table r)) \<noteq> 0" unfolding dir_upd by auto
    then have "tree_inv ?t2 (?r # remove1 r (?up # held))"
      unfolding tree_inv_def using pend_drop[OF dr(1)] by blast
    moreover have "uvm_page_table_range_shrink env fuel bg r ?n ?t1 = Some (?r, ?t2)"
      using n0 by (simp add: uvm_page_table_range_shrink_def upd_dir_def)
    ultimately show ?thesis by blast
  qed
  show ?thesis
    unfolding eq using inv1 us le parts by (simp add: tree_inv_def)
qed

section \<open>Examples\<close>

definition sample_root :: uvm_page_directory where
  "sample_root = \<lparr>host_parent = None, index_in_parent = 0,
     phys_alloc = \<lparr>alloc_addr = \<lparr>phys_address = 0x1000, phys_aperture = UVM_APERTURE_SYS\<rparr>, alloc_size = 0x1000, alloc_handle = 0\<rparr>,
     ref_count = 0, dir_depth = 0, dir_entries = replicate 4 None\<rparr>"

definition sample_tree :: uvm_page_tree where
  "sample_tree = \<lparr>pt_dirs = (\<lambda>d. if d = 0 then Some sample_root else None), pt_root = 0, pt_hal = pascal_mmu_mode_hal,
     pt_big_page_size = UVM_PAGE_SIZE_64K, pt_location = UVM_APERTURE_SYS, pt_tracker = uvm_tracker_init, pt_fake = False,
     pt_pushes = [], pt_freed = []\<rparr>"

definition sample_alloc :: "nat \<Rightarrow> alloc_outcome" where
  "sample_alloc i = \<lparr>ao_dir = Some (Suc i), ao_page = Some (Suc i, of_nat (Suc (Suc i)) * 0x1000),
     ao_chunk = (NV_OK, Suc i, of_nat (Suc (Suc i)) * 0x1000, uvm_tracker_init), ao_kv = (\<lambda>_ _. None),
     ao_env = (\<lambda>_. \<lparr>completed_of = (\<lambda>_. 0), channel_status = (\<lambda>_. NV_OK), global_status = NV_OK\<rparr>)\<rparr>"

definition sample_begin :: begin_outcome where
  "sample_begin = \<lparr>bg_status = NV_OK, bg_push = zero_push\<lparr>push_channel := Some 0, channel_tracking_value := 1\<rparr>,
     bg_snapshot = \<lparr>completed_of = (\<lambda>_. 0), channel_status = (\<lambda>_. NV_OK), global_status = NV_OK\<rparr>, bg_kv = (\<lambda>_. None)\<rparr>"

lemma sample_tree_inv: "tree_inv sample_tree []"
  by (rule root_only_inv[of _ sample_root])
    (simp_all add: sample_tree_def sample_root_def fun_eq_iff dir_entry_count_def geometry_simps page_table_depth_pascal_def)

text \<open>A tree whose root leads to one table, three entries of which are held.\<close>

definition sample_leaf :: uvm_page_directory where
  "sample_leaf = sample_root\<lparr>host_parent := Some 0, dir_depth := 1, ref_count := 3, dir_entries := []\<rparr>"

definition sample_held_tree :: uvm_page_tree where
  "sample_held_tree = sample_tree\<lparr>pt_hal := kepler_64_mmu_mode_hal,
     pt_dirs := (\<lambda>d. if d = 0 then Some (sample_root\<lparr>ref_count := 1, dir_entries := (replicate (2 ^ 15) None)[1 := Some 1]\<rparr>)
                     else if d = 1 then Some sample_leaf else None)\<rparr>"

definition sample_range :: uvm_page_table_range where
  "sample_range = \<lparr>rg_table = 1, rg_start_index = 4, rg_entry_count = 3, rg_page_size = 2 ^ 12\<rparr>"

lemma sample_linked: "linked sample_held_tree p i d \<longleftrightarrow> p = 0 \<and> i = 1 \<and> d = 1"
  by (auto simp: linked_def sample_held_tree_def sample_tree_def sample_leaf_def nth_list_update split: if_splits)

lemma sample_held_dirs:
  "pt_dirs sample_held_tree p \<noteq> None \<longleftrightarrow> p = 0 \<or> p = 1" "dir sample_held_tree 1 = sample_leaf"
  "dir sample_held_tree 0 = sample_root\<lparr>ref_count := 1, dir_entries := (replicate (2 ^ 15) None)[1 := Some 1]\<rparr>"
  "pt_hal sample_held_tree = kepler_64_mmu_mode_hal" "pt_root sample_held_tree = 0"
  by (simp_all add: dir_def sample_held_tree_def sample_tree_def)

lemma sample_range_ok: "range_ok sample_held_tree sample_range"
proof -
  have "walk sample_held_tree (2 ^ 12) 0 1 = Some 1"
    unfolding One_nat_def walk_Suc_iff sample_linked
    by (simp add: sample_held_dirs slot_def index_to_entry_def va_index_def entry_index_from_vaddr_def geometry_simps)
  moreover have "page_exp kepler_64_mmu_mode_hal 12" "pt_depth kepler_64_mmu_mode_hal 12 = 1"
    "unat (hal_index_bits kepler_64_mmu_mode_hal 1 (2 ^ 12)) = 14"
    by (simp_all add: page_exp_kepler_64 pt_depth_simps) (simp add: geometry_simps)
  ultimately show ?thesis
    unfolding range_ok_def
    by (intro exI[of _ 12] exI[of _ 0]) (simp add: sample_held_dirs sample_range_def del: walk.simps)
qed

lemma sample_held_inv: "tree_inv sample_held_tree [sample_range]"
proof -
  have "children (dir sample_held_tree 0) = 1"
    using children_update[where r = "dir sample_held_tree 0" and es = "replicate (2 ^ 15) None" and i = 1 and v = "Some 1"]
    by (simp add: sample_held_dirs children_def)
  moreover have "children sample_leaf = 0" by (simp add: children_def sample_leaf_def)
  ultimately have ok: "dir_ok sample_held_tree [sample_range] p" if "p = 0 \<or> p = 1" for p
    using that
    by (auto simp: dir_ok_def sample_held_dirs held_count_def sample_range_def sample_root_def sample_leaf_def
        dir_entry_count_def geometry_simps page_table_depth_kepler_def push_bit_eq_mult simp del: One_nat_def)
  show ?thesis
    unfolding tree_inv_def
    by (rule inv_intro; (unfold sample_held_dirs(1))?)
      (use ok sample_range_ok in \<open>auto simp: sample_linked sample_held_dirs(2-) in_tree_def sample_root_def sample_leaf_def
        geometry_simps simp del: One_nat_def\<close>)
qed

lemma sample_allocates: "allocate_directory UVM_APERTURE_SYS 1 (sample_alloc i) t p n \<noteq> None"
  by (simp add: allocate_directory_def allocate_directory_with_location_def sample_alloc_def Let_def phys_mem_allocate_def
      phys_mem_allocate_vidmem_def phys_mem_allocate_sysmem_def uvm_tracker_is_empty_def uvm_tracker_init_def)

lemma get_ptes_correct_witness:
  "\<exists>status rg t'. uvm_page_tree_get_ptes_async UVM_APERTURE_SYS sample_alloc (\<lambda>_ t. t) 1 sample_begin 5 (2 ^ 12) 0x1000 0x2000 sample_tree =
     Some (status, rg, t') \<and> get_result 12 0x1000 0x2000 [] (ids_of sample_alloc) sample_begin status rg t' \<and>
     keeps_walks [] sample_tree t' \<and> (\<forall>c \<in> UNIV - ids_of sample_alloc. pt_dirs sample_tree c = None \<longrightarrow> pt_dirs t' c = None)"
proof (rule get_ptes_correct)
  show "pt_hal sample_tree \<in> set mmu_formats" "page_exp (pt_hal sample_tree) 12"
    by (simp_all add: sample_tree_def mmu_formats_def page_exp_pascal)
  show "within_table (pt_hal sample_tree) 12 0x1000 0x2000" by code_simp
  show "pt_depth (pt_hal sample_tree) 12 < 5" by (simp add: sample_tree_def pt_depth_simps)
  show "shared [] sample_tree" using sample_tree_inv by (auto simp: shared_def held_count_def intro: exI[of _ "[]"])
  have "entries_of (pt_hal sample_tree) 12 0x1000 0x2000 = 2" by code_simp
  then show "countable_more [] (entries_of (pt_hal sample_tree) 12 0x1000 0x2000)" by (simp add: countable_more_def held_count_def)
  show "fresh_allocs sample_alloc 0 sample_tree" by (auto simp: fresh_allocs_def sample_alloc_def sample_tree_def)
  show "allocate_directory UVM_APERTURE_SYS 1 (sample_alloc i) t (2 ^ 12) n \<noteq> None" for i t n by (rule sample_allocates)
qed (simp_all add: rely_def keeps_walks_refl sample_begin_def)

lemma put_ptes_correct_witness:
  "\<exists>t'. uvm_page_tree_put_ptes_async sample_begin sample_range sample_held_tree = Some t' \<and>
    ((\<exists>gone. put_done sample_held_tree (remove1 sample_range [sample_range]) t' gone) \<or>
     bg_status sample_begin \<noteq> NV_OK \<and> pt_dirs t' = pt_dirs sample_held_tree \<and> tree_inv t' [sample_range])"
  by (rule put_ptes_correct) (simp_all add: sample_held_dirs mmu_formats_def sample_held_inv)



lemma range_parts_correct_witness:
  "\<exists>upper t1 t2. uvm_page_table_range_get_upper sample_range 2 sample_held_tree = (upper, t1) \<and> tree_inv t1 [upper, sample_range] \<and>
    rg_start_index upper = 5 \<and> uvm_page_table_range_shrink (\<lambda>_. bg_snapshot sample_begin) 1 sample_begin sample_range 1 t1 =
      Some (sample_range\<lparr>rg_entry_count := 1\<rparr>, t2)"
proof -
  obtain upper t1 where u: "uvm_page_table_range_get_upper sample_range 2 sample_held_tree = (upper, t1)"
    by (cases "uvm_page_table_range_get_upper sample_range 2 sample_held_tree")
  have r: "rg_entry_count sample_range = 3" "rg_start_index sample_range = 4" "rg_table sample_range = 1"
    by (simp_all add: sample_range_def)
  have "unat (rg_start_index upper) = 5" if "unat (rg_start_index upper) + 2 = 7" using that by simp
  then show ?thesis
    using range_parts_correct[of sample_held_tree "[sample_range]" sample_range 2 "\<lambda>_. bg_snapshot sample_begin" 1 sample_begin] u
    by (auto simp: sample_held_inv sample_held_dirs mmu_formats_def sample_leaf_def r word_unat_eq_iff simp del: One_nat_def)
qed

end
