(* ===== verification/Page_Vec_Proofs.thy ===== *)
theory Page_Vec_Proofs
  imports Page_Range_Vec
begin

text \<open>
  Range vectors: their parts, what holding and putting them does to the tree, and what their pushes write.
\<close>

section \<open>The parts cut the range at the boundaries of tables\<close>

definition cover_exp :: "uvm_mmu_mode_hal \<Rightarrow> nat \<Rightarrow> nat" where
  "cover_exp hal k = unat (hal_index_bits hal (of_nat (pt_depth hal k)) (2 ^ k)) + k"

text \<open>What a caller must ask for: whole pages of a size the format has, within the address space.\<close>

definition vec_ok :: "uvm_mmu_mode_hal \<Rightarrow> nat \<Rightarrow> uvm_page_table_range_vec \<Rightarrow> bool" where
  "vec_ok hal k rv \<longleftrightarrow>
     page_exp hal k \<and> rv_page_size rv = 2 ^ k \<and> 0 < unat (rv_size rv) \<and> 2 ^ k dvd unat (rv_start rv) \<and> 2 ^ k dvd unat (rv_size rv) \<and>
     unat (rv_start rv) + unat (rv_size rv) \<le> 2 ^ unat (hal_num_va_bits hal)"

lemma cover_exp_le:
  assumes "tree_format hal" "page_exp hal k"
  shows "cover_exp hal k \<le> unat (hal_num_va_bits hal)" "cover_exp hal k < 64" "k \<le> cover_exp hal k"
proof -
  have g: "mmu_geometry hal" using assms(1) by (simp add: tree_format_def)
  show "cover_exp hal k \<le> unat (hal_num_va_bits hal)"
    using mmu_geometry.va_bits[OF g assms(2)] by (simp add: cover_exp_def bits_above_def)
  then show "cover_exp hal k < 64" using mmu_geometry.va_64[OF g] by simp
  show "k \<le> cover_exp hal k" by (simp add: cover_exp_def)
qed

lemma coverage_eq:
  assumes "tree_format hal" "page_exp hal k"
  shows "uvm_mmu_pde_coverage hal (2 ^ k) = 2 ^ cover_exp hal k"
proof -
  have k: "k < 32" using tree_format.exp_small[OF assms] .
  have "(ucast ((2::u32) ^ k) :: u64) = 2 ^ k"
    using k by (intro bit_word_eqI) (auto simp: bit_simps)
  moreover have "hal_page_table_depth hal (2 ^ k) = of_nat (pt_depth hal k)" by (simp add: pt_depth_def)
  ultimately show ?thesis
    by (simp add: uvm_mmu_pde_coverage_def uvm_mmu_page_tree_entries_def cover_exp_def power_add push_bit_eq_mult)
qed

lemma align_down_nat: "c < 64 \<Longrightarrow> unat (UVM_ALIGN_DOWN x (2 ^ c)) = unat x div 2 ^ c * 2 ^ c"
  by (simp add: UVM_ALIGN_DOWN_def mask_eq_exp_minus_1[symmetric] unat_and_not_mask)

lemma align_up_nat: "c < 64 \<Longrightarrow> unat x + 2 ^ c \<le> 2 ^ 64 \<Longrightarrow> unat (UVM_ALIGN_UP x (2 ^ c)) = (unat x + 2 ^ c - 1) div 2 ^ c * 2 ^ c"
  using unat_align_up[of c "2 ^ c" x] by simp

text \<open>The first address of part \<open>i\<close>, and the one after the last part's.\<close>

definition table_cut :: "nat \<Rightarrow> nat \<Rightarrow> nat \<Rightarrow> nat \<Rightarrow> nat" where
  "table_cut c first after i = min after (max first ((first div 2 ^ c + i) * 2 ^ c))"

definition cut_count :: "nat \<Rightarrow> nat \<Rightarrow> nat \<Rightarrow> nat" where
  "cut_count c first after = (after + 2 ^ c - 1) div 2 ^ c - first div 2 ^ c"

lemma cut_facts:
  assumes lt: "first < after" and i: "i < cut_count c first after"
  shows "table_cut c first after i < table_cut c first after (Suc i)"
    "table_cut c first after i div 2 ^ c = first div 2 ^ c + i" "(table_cut c first after (Suc i) - 1) div 2 ^ c = first div 2 ^ c + i"
    "table_cut c first after (Suc i) \<le> after" "first \<le> table_cut c first after i"
    "table_cut c first after i = max first ((first div 2 ^ c + i) * 2 ^ c)"
    "table_cut c first after (Suc i) = min after ((first div 2 ^ c + Suc i) * 2 ^ c)"
proof -
  let ?C = "2 ^ c :: nat" and ?q = "first div 2 ^ c"
  have C: "0 < ?C" by simp
  have "?q + i < (after + ?C - 1) div ?C" using i by (simp add: cut_count_def)
  then have "(?q + Suc i) * ?C \<le> after + ?C - 1"
    using less_eq_div_iff_mult_less_eq[OF C, of "?q + Suc i" "after + ?C - 1"] by simp
  moreover have "(?q + Suc i) * ?C = (?q + i) * ?C + ?C" by (simp add: algebra_simps)
  ultimately have below: "(?q + i) * ?C < after" using C by linarith
  have q: "?q * ?C \<le> first" "first < (?q + 1) * ?C" using dividend_less_div_times[OF C, of first] by (simp_all add: algebra_simps)
  have "(?q + 1) * ?C \<le> (?q + Suc i) * ?C" by (rule mult_le_mono1) simp
  then have up: "first < (?q + Suc i) * ?C" using q(2) by linarith
  show e: "table_cut c first after i = max first ((?q + i) * ?C)" using below lt by (simp add: table_cut_def)
  show e': "table_cut c first after (Suc i) = min after ((?q + Suc i) * ?C)" using up by (simp add: table_cut_def)
  show "table_cut c first after (Suc i) \<le> after" "first \<le> table_cut c first after i" by (simp_all add: e e')
  show lt': "table_cut c first after i < table_cut c first after (Suc i)" using below lt up C by (simp add: e e')
  have lo: "(?q + i) * ?C \<le> table_cut c first after i" by (simp add: e)
  have hi: "table_cut c first after (Suc i) \<le> (?q + i) * ?C + ?C" by (simp add: e' algebra_simps)
  have D: "x div ?C = ?q + i" if "(?q + i) * ?C \<le> x" "x < (?q + i) * ?C + ?C" for x
    using that by (intro div_nat_eqI) (simp_all add: algebra_simps)
  show "table_cut c first after i div ?C = ?q + i" by (rule D) (use lo hi lt' in linarith)+
  show "(table_cut c first after (Suc i) - 1) div ?C = ?q + i" by (rule D) (use lo hi lt' in linarith)+
qed

lemma cut_ends:
  assumes "first < after"
  shows "0 < cut_count c first after" "table_cut c first after 0 = first" "table_cut c first after (cut_count c first after) = after"
proof -
  let ?C = "2 ^ c :: nat" and ?q = "first div 2 ^ c" and ?u = "(after + 2 ^ c - 1) div 2 ^ c"
  have C: "0 < ?C" by simp
  have q: "?q * ?C \<le> first" by simp
  moreover have "Suc ?q * ?C = ?q * ?C + ?C" by simp
  ultimately have "Suc ?q * ?C \<le> after + ?C - 1" using assms C by linarith
  then have lt: "?q < ?u" using less_eq_div_iff_mult_less_eq[OF C, of "Suc ?q" "after + ?C - 1"] by (simp only: Suc_le_eq)
  then show "0 < cut_count c first after" by (simp add: cut_count_def)
  show "table_cut c first after 0 = first" using assms q by (simp add: table_cut_def max_absorb1)
  have "after + ?C - 1 < Suc ?u * ?C" using dividend_less_div_times[OF C, of "after + ?C - 1"] by simp
  then have "after \<le> ?u * ?C" using C by simp
  then show "table_cut c first after (cut_count c first after) = after" using lt by (simp add: cut_count_def table_cut_def)
qed

text \<open>The functions of the driver compute these cuts.\<close>

lemma calc_cut:
  assumes fmt: "tree_format hal" and ok: "vec_ok hal k rv" and c: "c = cover_exp hal k"
    and f: "first = unat (rv_start rv)" and a: "after = unat (rv_start rv) + unat (rv_size rv)"
  shows "unat (range_vec_calc_range_count hal rv) = cut_count c first after"
    "i < cut_count c first after \<Longrightarrow> unat (range_vec_calc_range_start hal rv i) = table_cut c first after i"
    "i < cut_count c first after \<Longrightarrow> unat (range_vec_calc_range_end hal rv i) = table_cut c first after (Suc i)"
    "i < cut_count c first after \<Longrightarrow>
       unat (range_vec_calc_range_size hal rv i) = table_cut c first after (Suc i) - table_cut c first after i"
proof -
  let ?C = "2 ^ c :: nat" and ?N = "2 ^ unat (hal_num_va_bits hal) :: nat"
  have k: "page_exp hal k" "rv_page_size rv = 2 ^ k" "after \<le> ?N" "first < after" using ok by (auto simp: vec_ok_def a f)
  have g: "mmu_geometry hal" using fmt by (simp add: tree_format_def)
  note ce = cover_exp_le[OF fmt k(1), folded c]
  have "?N \<le> 2 ^ 63" using mmu_geometry.va_64[OF g] by (intro power_increasing) auto
  then have N: "?N \<le> 9223372036854775808" by simp
  have CN: "?C \<le> ?N" using ce(1) by (intro power_increasing) auto
  have CN64: "after + ?C \<le> 18446744073709551616" using k(3) N CN by linarith
  note cov = coverage_eq[OF fmt k(1), folded k(2) c]
  have ends: "unat (rv_start rv + rv_size rv) = after" using k(3) N by (simp add: unat_word_ariths a)
  let ?q = "first div ?C" and ?u = "(after + ?C - 1) div ?C"
  have up: "unat (UVM_ALIGN_UP (rv_start rv + rv_size rv) (2 ^ c)) = ?u * ?C"
    using align_up_nat[OF ce(2), of "rv_start rv + rv_size rv"] CN64 ends by simp
  have down: "unat (UVM_ALIGN_DOWN (rv_start rv) (2 ^ c)) = ?q * ?C" using align_down_nat[OF ce(2)] by (simp add: f)
  have qu: "?q * ?C \<le> ?u * ?C"
    using cut_ends(1)[OF k(4), of c] by (intro mult_le_mono1) (simp add: cut_count_def)
  show cnt: "unat (range_vec_calc_range_count hal rv) = cut_count c first after"
  proof -
    have "unat (UVM_ALIGN_UP (rv_start rv + rv_size rv) (2 ^ c) - UVM_ALIGN_DOWN (rv_start rv) (2 ^ c)) = (?u - ?q) * ?C"
      using up down qu by (simp add: unat_sub word_le_nat_alt diff_mult_distrib)
    moreover have "fls ((2::u64) ^ c) = c" using fls_power[of c, where 'a = 64] ce(2) by (simp add: push_bit_eq_mult)
    ultimately have "unat (range_vec_calc_range_count hal rv) = drop_bit c ((?u - ?q) * ?C)"
      by (simp only: range_vec_calc_range_count_def Let_def cov uvm_div_pow2_64_def unat_drop_bit_eq)
    then show ?thesis by (simp add: cut_count_def drop_bit_eq_div)
  qed
  assume i: "i < cut_count c first after"
  note cf = cut_facts[OF k(4) i]
  have inN: "table_cut c first after (Suc i) \<le> ?N" using cf(4) k(3) by linarith
  have base: "unat (UVM_ALIGN_DOWN (rv_start rv) (2 ^ c) + of_nat i * 2 ^ c) = (?q + i) * ?C"
  proof -
    have "(?q + i) * ?C \<le> table_cut c first after i" by (simp add: cf(6))
    then have b: "(?q + i) * ?C < 18446744073709551616" using cf(1) inN N by linarith
    have w: "UVM_ALIGN_DOWN (rv_start rv) (2 ^ c) = of_nat (?q * ?C)" by (simp flip: down)
    have "UVM_ALIGN_DOWN (rv_start rv) (2 ^ c) + of_nat i * 2 ^ c = of_nat ((?q + i) * ?C)"
      unfolding w by (simp add: algebra_simps)
    then show ?thesis using b by (simp add: unat_of_nat del: of_nat_mult of_nat_add)
  qed
  show st: "unat (range_vec_calc_range_start hal rv i) = table_cut c first after i"
    using base cf(6) by (simp add: range_vec_calc_range_start_def Let_def cov max_def word_le_nat_alt f)
  have st1: "unat (range_vec_calc_range_start hal rv i + 1) = table_cut c first after i + 1"
    using st cf(1) inN N by (simp add: unat_word_ariths)
  have "table_cut c first after i + 1 + ?C \<le> 18446744073709551616" using cf(1) inN N CN by linarith
  then have "unat (UVM_ALIGN_UP (range_vec_calc_range_start hal rv i + 1) (2 ^ c)) = (table_cut c first after i + ?C) div ?C * ?C"
    using align_up_nat[OF ce(2), of "range_vec_calc_range_start hal rv i + 1"] st1 by simp
  also have "(table_cut c first after i + ?C) div ?C = first div ?C + Suc i" using cf(2) by (simp add: div_add_self2)
  finally show en: "unat (range_vec_calc_range_end hal rv i) = table_cut c first after (Suc i)"
    by (simp add: range_vec_calc_range_end_def Let_def cov min_def word_le_nat_alt ends cf(7))
  show "unat (range_vec_calc_range_size hal rv i) = table_cut c first after (Suc i) - table_cut c first after i"
    using st en cf(1) by (simp add: range_vec_calc_range_size_def unat_sub word_le_nat_alt)
qed

text \<open>Each part lies in one table, and has one entry for each of its pages.\<close>

lemma table_index:
  assumes fmt: "tree_format hal" and k: "page_exp hal k"
  shows "unat (va_index hal (2 ^ k) va (pt_depth hal k)) = unat va div 2 ^ k mod 2 ^ (cover_exp hal k - k)"
proof -
  have g: "mmu_geometry hal" using fmt by (simp add: tree_format_def)
  have "unat (hal_num_va_bits hal) - bits_above hal k (Suc (pt_depth hal k)) = k" using mmu_geometry.va_bits[OF g k] by simp
  then show ?thesis using mmu_geometry.va_index_eq[OF g k order_refl, of va] by (simp add: cover_exp_def)
qed

lemma same_table_entries:
  assumes c: "k \<le> c" and lt: "lo < hi" and same: "(lo :: nat) div 2 ^ c = (hi - 1) div 2 ^ c" and al: "2 ^ k dvd lo" "2 ^ k dvd hi"
  shows "lo div 2 ^ k mod 2 ^ (c - k) \<le> (hi - 1) div 2 ^ k mod 2 ^ (c - k)"
    "Suc ((hi - 1) div 2 ^ k mod 2 ^ (c - k) - lo div 2 ^ k mod 2 ^ (c - k)) = (hi - lo) div 2 ^ k"
proof -
  let ?K = "2 ^ k :: nat" and ?M = "2 ^ (c - k) :: nat"
  obtain a b where ab: "lo = ?K * a" "hi = ?K * b" using al by (elim dvdE)
  have K: "0 < ?K" by simp
  have ablt: "a < b" using lt ab by simp
  have h1: "(hi - 1) div ?K = b - 1"
  proof (rule div_nat_eqI)
    show "?K * (b - 1) \<le> hi - 1" using ablt ab K by (simp add: diff_mult_distrib2 diff_le_mono2 Suc_leI)
    have "?K * Suc (b - 1) = hi" using ablt ab by simp
    then show "hi - 1 < ?K * Suc (b - 1)" using lt by linarith
  qed
  have C: "2 ^ c = ?K * ?M" using c by (simp add: power_add[symmetric])
  have d: "a div ?M = (b - 1) div ?M" using same h1 ab unfolding C by (simp add: div_mult2_eq)
  have ma: "a mod ?M = a - ?M * (a div ?M)" "(b - 1) mod ?M = b - 1 - ?M * (a div ?M)"
    using d by (simp_all add: modulo_nat_def mult.commute)
  have "?M * (a div ?M) \<le> a" by (rule times_div_less_eq_dividend)
  then show "lo div 2 ^ k mod 2 ^ (c - k) \<le> (hi - 1) div 2 ^ k mod 2 ^ (c - k)"
    "Suc ((hi - 1) div 2 ^ k mod 2 ^ (c - k) - lo div 2 ^ k mod 2 ^ (c - k)) = (hi - lo) div 2 ^ k"
    unfolding h1 using ab ma ablt by (simp_all add: diff_mult_distrib2[symmetric]) linarith+
qed

lemma cut_aligned: "2 ^ k dvd first \<Longrightarrow> 2 ^ k dvd after \<Longrightarrow> k \<le> c \<Longrightarrow> 2 ^ k dvd table_cut c first after i"
  by (auto simp: table_cut_def min_def max_def intro: dvd_mult le_imp_power_dvd)

lemma range_vec_parts_ok:
  assumes "hal \<in> set mmu_formats" "vec_ok hal k rv"
  shows "case unat (range_vec_calc_range_count hal rv) of n \<Rightarrow>
    0 < n \<and> range_vec_calc_range_start hal rv 0 = rv_start rv \<and>
    range_vec_calc_range_end hal rv (n - 1) = rv_start rv + rv_size rv \<and>
    (\<forall>i < n. range_vec_calc_range_start hal rv i < range_vec_calc_range_end hal rv i \<and>
      (Suc i < n \<longrightarrow> range_vec_calc_range_start hal rv (Suc i) = range_vec_calc_range_end hal rv i) \<and>
      within_table hal k (range_vec_calc_range_start hal rv i) (range_vec_calc_range_size hal rv i) \<and>
      entries_of hal k (range_vec_calc_range_start hal rv i) (range_vec_calc_range_size hal rv i) * 2 ^ k =
        unat (range_vec_calc_range_size hal rv i))"
proof -
  note fmt = mmu_formats_tree[OF assms(1)]
  define c where "c = cover_exp hal k"
  define first where "first = unat (rv_start rv)"
  define after where "after = unat (rv_start rv) + unat (rv_size rv)"
  let ?n = "cut_count c first after"
  note cc = calc_cut[OF fmt assms(2) c_def first_def after_def]
  have k: "page_exp hal k" "first < after" "2 ^ k dvd first" "2 ^ k dvd after"
    and le: "after \<le> 2 ^ unat (hal_num_va_bits hal)"
    using assms(2) by (auto simp: vec_ok_def first_def after_def)
  note ce = cover_exp_le[OF fmt k(1), folded c_def]
  note ends = cut_ends[OF k(2), of c]
  have "(2::nat) ^ unat (hal_num_va_bits hal) < 2 ^ 64"
    using mmu_geometry.va_64 fmt by (intro power_strict_increasing) (auto simp: tree_format_def)
  then have small: "after < 2 ^ 64" using le by linarith
  have n: "unat (range_vec_calc_range_count hal rv) = ?n" by (rule cc(1))
  have s0: "range_vec_calc_range_start hal rv 0 = rv_start rv"
    using cc(2)[OF ends(1)] ends(2) by (simp add: word_unat_eq_iff first_def)
  have en: "range_vec_calc_range_end hal rv (?n - 1) = rv_start rv + rv_size rv"
    using cc(3)[of "?n - 1"] ends(1,3) small by (simp add: word_unat_eq_iff unat_word_ariths after_def)
  have part: "range_vec_calc_range_start hal rv i < range_vec_calc_range_end hal rv i \<and>
      (Suc i < ?n \<longrightarrow> range_vec_calc_range_start hal rv (Suc i) = range_vec_calc_range_end hal rv i) \<and>
      within_table hal k (range_vec_calc_range_start hal rv i) (range_vec_calc_range_size hal rv i) \<and>
      entries_of hal k (range_vec_calc_range_start hal rv i) (range_vec_calc_range_size hal rv i) * 2 ^ k =
        unat (range_vec_calc_range_size hal rv i)" if i: "i < ?n" for i
  proof -
    note cf = cut_facts[OF k(2) i]
    let ?lo = "table_cut c first after i" and ?hi = "table_cut c first after (Suc i)"
    let ?s = "range_vec_calc_range_start hal rv i" and ?z = "range_vec_calc_range_size hal rv i"
    have al: "2 ^ k dvd ?lo" "2 ^ k dvd ?hi" using cut_aligned k(3,4) ce(3) by blast+
    have "unat (?s + ?z - 1) = ?hi - 1"
    proof -
      have "unat (?s + ?z) = ?hi" using cc(2,4)[OF i] cf(1,4) small by (simp add: unat_word_ariths)
      moreover have "?s + ?z \<noteq> 0" using calculation cf(1) by auto
      ultimately show ?thesis by (simp add: unat_minus_one)
    qed
    then have "unat (va_index hal (2 ^ k) (?s + ?z - 1) (pt_depth hal k)) = (?hi - 1) div 2 ^ k mod 2 ^ (c - k)"
      "unat (va_index hal (2 ^ k) ?s (pt_depth hal k)) = ?lo div 2 ^ k mod 2 ^ (c - k)"
      using table_index[OF fmt k(1)] cc(2)[OF i] by (simp_all add: c_def)
    moreover note same_table_entries[OF ce(3) cf(1) _ al, unfolded cf(2,3), OF refl]
    moreover have "(?hi - ?lo) div 2 ^ k * 2 ^ k = ?hi - ?lo" using al by (simp add: dvd_diff_nat)
    ultimately have "within_table hal k ?s ?z" "entries_of hal k ?s ?z * 2 ^ k = unat ?z"
      using cc(4)[OF i] by (simp_all add: within_table_def entries_of_def)
    moreover have "?s < range_vec_calc_range_end hal rv i" using cc(2,3)[OF i] cf(1) by (simp add: word_less_nat_alt)
    moreover have "Suc i < ?n \<longrightarrow> range_vec_calc_range_start hal rv (Suc i) = range_vec_calc_range_end hal rv i"
      using cc(2)[of "Suc i"] cc(3)[OF i] by (simp add: word_unat_eq_iff)
    ultimately show ?thesis by blast
  qed
  show ?thesis using ends(1) s0 en part by (simp add: n)
qed

text \<open>
  The parts of a range vector cut its range exactly. There is at least one part; the first begins where
  the range begins, each other one where the one before it ends, and the last one ends where the range
  ends. No part is empty, each lies in a single page table, and it has one entry for each of its pages,
  which is the caller's side of getting its entries.
\<close>

theorem range_vec_parts:
  assumes "hal \<in> set mmu_formats" "vec_ok hal k rv"
  shows "case unat (range_vec_calc_range_count hal rv) of n \<Rightarrow>
    0 < n \<and> range_vec_calc_range_start hal rv 0 = rv_start rv \<and>
    range_vec_calc_range_end hal rv (n - 1) = rv_start rv + rv_size rv \<and>
    (\<forall>i < n. range_vec_calc_range_start hal rv i < range_vec_calc_range_end hal rv i \<and>
      (Suc i < n \<longrightarrow> range_vec_calc_range_start hal rv (Suc i) = range_vec_calc_range_end hal rv i) \<and>
      within_table hal k (range_vec_calc_range_start hal rv i) (range_vec_calc_range_size hal rv i) \<and>
      entries_of hal k (range_vec_calc_range_start hal rv i) (range_vec_calc_range_size hal rv i) * 2 ^ k =
        unat (range_vec_calc_range_size hal rv i))"
  using range_vec_parts_ok[OF assms] .

section \<open>Holding a vector\<close>

lemma shared_mset:
  assumes "mset xs = mset ys"
  shows "shared xs t = shared ys t"
proof -
  have "tree_inv t (xs @ theirs) = tree_inv t (ys @ theirs)" for theirs
  proof -
    have "held_count xs d = held_count ys d" for d
      using arg_cong[OF assms, of "\<lambda>M. sum_mset (image_mset (\<lambda>r. if rg_table r = d then unat (rg_entry_count r) else 0) M)"]
      by (simp add: held_count_def sum_mset_sum_list flip: mset_map)
    moreover have "set xs = set ys" using assms by (rule mset_eq_setD)
    ultimately show ?thesis by (simp add: tree_inv_def tree_inv_at_def dir_ok_def held_count_append ball_Un)
  qed
  then show ?thesis by (simp add: shared_def)
qed

lemma covers_keep: "covers t k start size' r \<Longrightarrow> keeps_walks held t t' \<Longrightarrow> r \<in> set held \<Longrightarrow> covers t' k start size' r"
  by (simp add: covers_def keeps_walks_def)

text \<open>Other threads, at each point of getting the ranges, keep what this thread holds at that point.\<close>

fun undisturbed ::
  "uvm_aperture \<Rightarrow> nat \<Rightarrow> nat \<Rightarrow> (nat \<Rightarrow> get_env) \<Rightarrow> uvm_page_table_range_vec \<Rightarrow> dir_id set \<Rightarrow> uvm_page_table_range list \<Rightarrow>
   nat \<Rightarrow> nat \<Rightarrow> uvm_page_tree \<Rightarrow> bool" where
  "undisturbed ap wait_fuel fuel ges rv S mine 0 i t \<longleftrightarrow> True"
| "undisturbed ap wait_fuel fuel ges rv S mine (Suc n) i t \<longleftrightarrow>
     rely mine S t (ge_before (ges i) t) \<and> (\<forall>j t'. rely mine S t' (ge_others (ges i) j t')) \<and>
     (case uvm_page_tree_get_ptes_async ap (ge_outs (ges i)) (ge_others (ges i)) wait_fuel (ge_begin (ges i)) fuel (rv_page_size rv)
             (range_vec_calc_range_start (pt_hal t) rv i) (range_vec_calc_range_size (pt_hal t) rv i) (ge_before (ges i) t) of
        Some (status, Some r, t') \<Rightarrow> undisturbed ap wait_fuel fuel ges rv S (r # mine) n (Suc i) t'
      | _ \<Rightarrow> True)"

fun puts_undisturbed :: "(nat \<Rightarrow> put_env) \<Rightarrow> uvm_page_table_range list \<Rightarrow> nat \<Rightarrow> uvm_page_table_range list \<Rightarrow> uvm_page_tree \<Rightarrow> bool" where
  "puts_undisturbed pes mine i [] t \<longleftrightarrow> True"
| "puts_undisturbed pes mine i (r # rs) t \<longleftrightarrow>
     rely (r # rs @ mine) {} t (pe_before (pes i) t) \<and>
     (case uvm_page_tree_put_ptes_async (pe_begin (pes i)) r (pe_before (pes i) t) of
        None \<Rightarrow> True | Some t' \<Rightarrow> puts_undisturbed pes mine (Suc i) rs t')"

lemma put_ranges_ok:
  assumes fmt: "tree_format hal"
  shows "pt_hal t = hal \<Longrightarrow> shared (rs @ mine) t \<Longrightarrow> \<forall>r \<in> set rs. 0 < rg_entry_count r \<Longrightarrow> puts_undisturbed pes mine i rs t \<Longrightarrow>
    \<forall>j. bg_status (pe_begin (pes j)) = NV_OK \<Longrightarrow>
    \<exists>t'. put_ranges_loop pes i (rs @ replicate m zero_range) t = Some t' \<and> shared mine t' \<and> pt_hal t' = hal"
proof (induction rs arbitrary: i t)
  case Nil
  then show ?case by (cases m) (simp_all add: zero_range_def)
next
  case (Cons r rs)
  let ?t = "pe_before (pes i) t"
  have rl: "rely (r # rs @ mine) {} t ?t" using Cons.prems(4) by simp
  then have h: "pt_hal ?t = hal" "shared (r # rs @ mine) ?t" using Cons.prems(1,2) by (simp_all add: rely_def keeps_walks_def)
  then obtain theirs where inv: "tree_inv ?t (r # rs @ mine @ theirs)" and th: "\<forall>d. held_count theirs d \<le> 2 ^ 31"
    by (auto simp: shared_def)
  have r: "r \<in> set (r # rs @ mine @ theirs)" by simp
  from put_async_ok[OF fmt[folded h(1)] inv r, of "pe_begin (pes i)"] Cons.prems(5)
  obtain t' gone where t': "uvm_page_tree_put_ptes_async (pe_begin (pes i)) r ?t = Some t'"
    and pd: "put_done ?t (rs @ mine @ theirs) t' gone" by auto
  have "shared (rs @ mine) t'" "pt_hal t' = hal" using pd th h by (auto simp: put_done_def shared_def)
  then have "\<exists>t''. put_ranges_loop pes (Suc i) (rs @ replicate m zero_range) t' = Some t'' \<and> shared mine t'' \<and> pt_hal t'' = hal"
    using Cons.IH[of t' "Suc i"] Cons.prems t' by simp
  then show ?case using Cons.prems(3) t' by auto
qed

text \<open>The allocations of all calls are different, and none is in use yet.\<close>

definition fresh_calls :: "(nat \<Rightarrow> get_env) \<Rightarrow> dir_id set \<Rightarrow> nat \<Rightarrow> uvm_page_tree \<Rightarrow> bool" where
  "fresh_calls ges S i t \<longleftrightarrow>
     (\<forall>a. ids_of (ge_outs (ges a)) \<subseteq> S) \<and> (\<forall>a b. a \<noteq> b \<longrightarrow> ids_of (ge_outs (ges a)) \<inter> ids_of (ge_outs (ges b)) = {}) \<and>
     (\<forall>a x y c. ao_dir (ge_outs (ges a) x) = Some c \<longrightarrow> ao_dir (ge_outs (ges a) y) = Some c \<longrightarrow> x = y) \<and>
     (\<forall>a c. i \<le> a \<longrightarrow> c \<in> ids_of (ge_outs (ges a)) \<longrightarrow> pt_dirs t c = None)"

definition total_entries :: "uvm_page_table_range list \<Rightarrow> nat" where
  "total_entries rs = sum_list (map (\<lambda>r. unat (rg_entry_count r)) rs)"

lemma held_count_total: "held_count rs d \<le> total_entries rs"
  by (induction rs) (simp_all add: held_count_def total_entries_def)

text \<open>The first \<open>i\<close> parts are held by the ranges \<open>rs\<close>.\<close>

definition parts_held :: "nat \<Rightarrow> uvm_page_table_range_vec \<Rightarrow> uvm_page_table_range list \<Rightarrow> uvm_page_tree \<Rightarrow> bool" where
  "parts_held k rv rs t \<longleftrightarrow>
     (\<forall>i < length rs. 0 < rg_entry_count (rs ! i) \<and>
        covers t k (range_vec_calc_range_start (pt_hal t) rv i) (range_vec_calc_range_size (pt_hal t) rv i) (rs ! i))"

lemma parts_held_keep:
  "parts_held k rv rs t \<Longrightarrow> keeps_walks held t t' \<Longrightarrow> set rs \<subseteq> set held \<Longrightarrow> parts_held k rv rs t'"
proof -
  assume ph: "parts_held k rv rs t" and kw: "keeps_walks held t t'" and sub: "set rs \<subseteq> set held"
  have hal: "pt_hal t' = pt_hal t" using kw by (simp add: keeps_walks_def)
  show "parts_held k rv rs t'"
    unfolding parts_held_def hal
  proof (intro allI impI)
    fix i assume i: "i < length rs"
    then have "rs ! i \<in> set held" using sub by auto
    with ph i show "0 < rg_entry_count (rs ! i) \<and>
        covers t' k (range_vec_calc_range_start (pt_hal t) rv i) (range_vec_calc_range_size (pt_hal t) rv i) (rs ! i)"
      using covers_keep[OF _ kw] unfolding parts_held_def by blast
  qed
qed

lemma parts_held_snoc:
  "parts_held k rv (rs @ [r]) t \<longleftrightarrow> parts_held k rv rs t \<and> 0 < rg_entry_count r \<and>
     covers t k (range_vec_calc_range_start (pt_hal t) rv (length rs)) (range_vec_calc_range_size (pt_hal t) rv (length rs)) r"
  by (auto simp: parts_held_def nth_append less_Suc_eq)

lemma more_entries:
  assumes few: "countable_more mine n" and held: "mset held = mset (rs @ mine)" and le: "total_entries rs + e \<le> n"
  shows "countable_more held e"
  unfolding countable_more_def
proof
  fix d
  have "held_count held d = held_count (rs @ mine) d"
    using arg_cong[OF held, of "\<lambda>M. sum_mset (image_mset (\<lambda>r. if rg_table r = d then unat (rg_entry_count r) else 0) M)"]
    by (simp add: held_count_def sum_mset_sum_list flip: mset_map)
  moreover have "held_count mine d + n < 2 ^ 30" using few by (simp add: countable_more_def)
  ultimately show "held_count held d + e < 2 ^ 30"
    using held_count_total[of rs d] le unfolding held_count_append by linarith
qed

lemma range_end_le:
  assumes "hal \<in> set mmu_formats" "vec_ok hal k rv" "i < unat (range_vec_calc_range_count hal rv)"
  shows "unat (range_vec_calc_range_end hal rv i) \<le> unat (rv_start rv) + unat (rv_size rv)"
proof -
  have "unat (rv_start rv) < unat (rv_start rv) + unat (rv_size rv)" using assms(2) by (simp add: vec_ok_def)
  note cf = cut_facts(4)[OF this] and cc = calc_cut[OF mmu_formats_tree[OF assms(1)] assms(2) refl refl refl]
  show ?thesis using cf cc(3) assms(3) cc(1) by simp
qed

lemma get_ranges_ok:
  assumes hal: "hal \<in> set mmu_formats" and ok: "vec_ok hal k rv"
    and alloc: "\<And>a b t n. allocate_directory ap wait_fuel (ge_outs (ges a) b) t (2 ^ k) n \<noteq> None"
    and bg: "\<And>a. bg_status (ge_begin (ges a)) \<noteq> NV_ERR_MORE_PROCESSING_REQUIRED"
    and fuel: "MAX_OPERATION_DEPTH < fuel" and N: "N = unat (range_vec_calc_range_count hal rv)"
    and few: "countable_more mine (unat (rv_size rv) div 2 ^ k)"
  shows "pt_hal t = hal \<Longrightarrow> shared (rs @ mine) t \<Longrightarrow> parts_held k rv rs t \<Longrightarrow> i = length rs \<Longrightarrow> i + n = N \<Longrightarrow>
    (0 < n \<Longrightarrow> total_entries rs * 2 ^ k + unat (rv_start rv) = unat (range_vec_calc_range_start hal rv i)) \<Longrightarrow>
    fresh_calls ges S i t \<Longrightarrow> mset held = mset (rs @ mine) \<Longrightarrow> undisturbed ap wait_fuel fuel ges rv S held n i t \<Longrightarrow>
    \<exists>status rs' m t'. get_ranges_loop ap wait_fuel fuel ges rv n i (rs @ replicate n zero_range) t =
        Some (status, rs' @ replicate m zero_range, t') \<and>
      pt_hal t' = hal \<and> length rs' + m = N \<and> shared (rs' @ mine) t' \<and> parts_held k rv rs' t' \<and> (status = NV_OK \<longrightarrow> m = 0)"
proof (induction n arbitrary: rs i t held)
  case 0
  then show ?case by (intro exI[of _ NV_OK] exI[of _ rs] exI[of _ 0] exI[of _ t]) simp
next
  case (Suc n)
  let ?ge = "ges i" and ?s = "range_vec_calc_range_start hal rv i" and ?z = "range_vec_calc_range_size hal rv i"
  let ?t = "ge_before ?ge t"
  note fmt = mmu_formats_tree[OF hal]
  have kp: "page_exp hal k" "rv_page_size rv = 2 ^ k" using ok by (simp_all add: vec_ok_def)
  have iN: "i < unat (range_vec_calc_range_count hal rv)" using Suc.prems(5) by (simp add: N)
  have pt: "within_table hal k ?s ?z" "entries_of hal k ?s ?z * 2 ^ k = unat ?z" "?s < range_vec_calc_range_end hal rv i"
    "Suc i < N \<Longrightarrow> range_vec_calc_range_start hal rv (Suc i) = range_vec_calc_range_end hal rv i"
    using range_vec_parts_ok[OF hal ok] iN by (auto simp: N)
  have z: "unat ?z = unat (range_vec_calc_range_end hal rv i) - unat ?s"
    using pt(3) by (simp add: range_vec_calc_range_size_def unat_sub less_imp_le)
  have sum': "(total_entries rs + entries_of hal k ?s ?z) * 2 ^ k + unat (rv_start rv) = unat (range_vec_calc_range_end hal rv i)"
    using Suc.prems(6) pt(2,3) z by (simp add: add_mult_distrib word_less_nat_alt)
  then have "(total_entries rs + entries_of hal k ?s ?z) * 2 ^ k \<le> unat (rv_size rv)"
    using range_end_le[OF hal ok iN] by linarith
  then have le: "total_entries rs + entries_of hal k ?s ?z \<le> unat (rv_size rv) div 2 ^ k"
    by (simp add: less_eq_div_iff_mult_less_eq)
  note und = Suc.prems(9)[simplified, unfolded Suc.prems(1) kp(2)]
  have rl: "rely held S t ?t" and oth: "\<And>j t'. rely held S t' (ge_others ?ge j t')" using und by blast+
  have sub: "set rs \<subseteq> set held" using mset_eq_setD[OF Suc.prems(8)] by auto
  have h: "pt_hal ?t = hal" "shared held ?t" "parts_held k rv rs ?t"
    using rl Suc.prems(1) shared_mset[OF Suc.prems(8), of t] Suc.prems(2) parts_held_keep[OF Suc.prems(3) _ sub, of ?t]
    by (auto simp: rely_def keeps_walks_def)
  have fr: "fresh_calls ges S i ?t" using rl Suc.prems(7) unfolding fresh_calls_def rely_def by (metis subsetD)
  have fa: "fresh_allocs (ge_outs ?ge) 0 ?t" and sS: "ids_of (ge_outs ?ge) \<subseteq> S"
    using fr unfolding fresh_calls_def fresh_allocs_def ids_of_def by blast+
  have dep: "pt_depth (pt_hal ?t) k < fuel"
    using tree_format.depth_range[OF fmt kp(1)] tree_format.depth_max[OF fmt] fuel h(1) by simp
  obtain status rg t' where get: "uvm_page_tree_get_ptes_async ap (ge_outs ?ge) (ge_others ?ge) wait_fuel (ge_begin ?ge) fuel (2 ^ k) ?s ?z ?t
        = Some (status, rg, t')"
    and res: "get_result k ?s ?z held (ids_of (ge_outs ?ge)) (ge_begin ?ge) status rg t'" and kw: "keeps_walks held ?t t'"
    and ids: "\<forall>c \<in> S - ids_of (ge_outs ?ge). pt_dirs ?t c = None \<longrightarrow> pt_dirs t' c = None"
    using get_ptes_ok[where t = ?t and start = ?s and size' = ?z and mine = held and others = "ge_others ?ge", unfolded h(1),
        OF hal kp(1) pt(1) h(2) more_entries[OF few Suc.prems(8) le] fa alloc sS oth bg dep[unfolded h(1)]] by blast
  have h': "pt_hal t' = hal" using kw h(1) by (simp add: keeps_walks_def)
  have ph': "parts_held k rv rs t'" using parts_held_keep[OF h(3) kw sub] .
  show ?case
  proof (cases rg)
    case None
    then have "status \<noteq> NV_OK" "shared (rs @ mine) t'"
      using res shared_mset[OF Suc.prems(8), of t'] by (simp_all add: get_result_def)
    then show ?thesis
      using get None h' ph' Suc.prems(1,4,5) h(1) kp(2)
      by (intro exI[of _ status] exI[of _ rs] exI[of _ "Suc n"] exI[of _ t']) (simp del: replicate_Suc)
  next
    case (Some r)
    have cv: "covers t' k ?s ?z r" and sh: "shared (r # held) t'" using res Some by (simp_all add: get_result_def)
    have cnt: "unat (rg_entry_count r) = entries_of hal k ?s ?z" using cv by (simp add: covers_def h')
    then have pos: "0 < rg_entry_count r" by (simp add: word_less_nat_alt entries_of_def)
    have ms: "mset (r # held) = mset ((rs @ [r]) @ mine)" using Suc.prems(8) by simp
    have sh': "shared ((rs @ [r]) @ mine) t'" using sh shared_mset[OF ms] by blast
    have ph2: "parts_held k rv (rs @ [r]) t'" using ph' cv pos Suc.prems(4) h' by (simp add: parts_held_snoc)
    have upd: "(rs @ replicate (Suc n) zero_range)[i := r] = (rs @ [r]) @ replicate n zero_range" using Suc.prems(4) by simp
    show ?thesis
    proof (cases "status = NV_OK")
      case False
      then show ?thesis
        using get Some h' ph2 sh' Suc.prems(1,4,5) h(1) kp(2) upd
        by (intro exI[of _ status] exI[of _ "rs @ [r]"] exI[of _ n] exI[of _ t']) (simp del: replicate_Suc)
    next
      case True
      have "total_entries (rs @ [r]) * 2 ^ k + unat (rv_start rv) = unat (range_vec_calc_range_start hal rv (Suc i))" if "0 < n"
        using that sum' cnt pt(4) Suc.prems(5) by (simp add: total_entries_def)
      moreover have "fresh_calls ges S (Suc i) t'"
      proof -
        have "pt_dirs t' c = None" if "Suc i \<le> a" "c \<in> ids_of (ge_outs (ges a))" for a c
        proof -
          have "a \<noteq> i" using that by simp
          then have "c \<in> S - ids_of (ge_outs ?ge)" using that fr unfolding fresh_calls_def by blast
          moreover have "pt_dirs ?t c = None" using that fr unfolding fresh_calls_def by (meson Suc_leD)
          ultimately show ?thesis using ids by blast
        qed
        then show ?thesis using fr by (simp add: fresh_calls_def)
      qed
      moreover have "undisturbed ap wait_fuel fuel ges rv S (r # held) n (Suc i) t'" using und get Some True by simp
      ultimately show ?thesis
        using Suc.IH[OF h' sh' ph2 _ _ _ _ ms, of "Suc i"] get Some True upd Suc.prems(1,4,5) h(1) kp(2)
        by (simp del: replicate_Suc)
    qed
  qed
qed

section \<open>Properties of creating and destroying\<close>

lemma calc_fields [simp]:
  "range_vec_calc_range_count hal (rv\<lparr>rv_ranges := x\<rparr>) = range_vec_calc_range_count hal rv"
  "range_vec_calc_range_start hal (rv\<lparr>rv_ranges := x\<rparr>) i = range_vec_calc_range_start hal rv i"
  "range_vec_calc_range_size hal (rv\<lparr>rv_ranges := x\<rparr>) i = range_vec_calc_range_size hal rv i"
  "range_vec_calc_range_count hal (rv\<lparr>rv_range_count := n\<rparr>) = range_vec_calc_range_count hal rv"
  by (simp_all add: range_vec_calc_range_count_def range_vec_calc_range_start_def range_vec_calc_range_size_def
      range_vec_calc_range_end_def)

lemma parts_held_fields [simp]: "parts_held k (rv\<lparr>rv_ranges := x\<rparr>) rs t = parts_held k rv rs t"
  by (simp add: parts_held_def)

lemma vec_ok_fields [simp]: "vec_ok hal k (rv\<lparr>rv_range_count := n\<rparr>) = vec_ok hal k rv"
  by (simp add: vec_ok_def)

text \<open>The vector of an address range before its ranges are got.\<close>

definition vec_for :: "uvm_mmu_mode_hal \<Rightarrow> u64 \<Rightarrow> u64 \<Rightarrow> u32 \<Rightarrow> uvm_page_table_range_vec" where
  "vec_for hal start size' page_size =
     (let rv = \<lparr>rv_start = start, rv_size = size', rv_page_size = page_size, rv_ranges = None, rv_range_count = 0\<rparr>
      in rv\<lparr>rv_range_count := range_vec_calc_range_count hal rv\<rparr>)"

definition vec_holds :: "nat \<Rightarrow> uvm_page_table_range_vec \<Rightarrow> uvm_page_table_range list \<Rightarrow> uvm_page_tree \<Rightarrow> bool" where
  "vec_holds k rv mine t \<longleftrightarrow>
     (case rv_ranges rv of
        None \<Rightarrow> False
      | Some rs \<Rightarrow> length rs = unat (rv_range_count rv) \<and> parts_held k rv rs t \<and> shared (rs @ mine) t)"

lemma parts_held_pos: "parts_held k rv rs t \<Longrightarrow> \<forall>r \<in> set rs. 0 < rg_entry_count r"
  by (auto simp: parts_held_def in_set_conv_nth)

lemma deinit_ok:
  assumes "tree_format (pt_hal t)" "rv_ranges rv = Some (rs @ replicate m zero_range)" "length rs + m = unat (rv_range_count rv)"
    and "shared (rs @ mine) t" "parts_held k rv rs t" "puts_undisturbed pes mine 0 rs t" "\<forall>j. bg_status (pe_begin (pes j)) = NV_OK"
  shows "\<exists>t1. uvm_page_table_range_vec_deinit pes env fuel rv t = map_option (\<lambda>(status, t). (zero_range_vec, t)) (uvm_page_tree_wait env fuel t1) \<and>
    shared mine t1"
proof -
  have m: "take (unat (rv_range_count rv)) (rs @ replicate m zero_range) = rs @ replicate m zero_range"
    by (simp add: assms(3)[symmetric])
  show ?thesis
    using put_ranges_ok[OF assms(1) refl assms(4) parts_held_pos[OF assms(5)] assms(6,7), of m] assms(2)
    by (auto simp: uvm_page_table_range_vec_deinit_def m simp del: take_append)
qed

lemma vec_init_ok:
  assumes hal: "pt_hal t \<in> set mmu_formats" and rv: "rv = vec_for (pt_hal t) start size' (2 ^ k)" and ok: "vec_ok (pt_hal t) k rv"
    and sh: "shared mine t" and few: "countable_more mine (unat size' div 2 ^ k)" and fresh: "fresh_calls ges S 0 t"
    and alloc: "\<And>a b t n. allocate_directory ap wait_fuel (ge_outs (ges a) b) t (2 ^ k) n \<noteq> None"
    and bg: "\<And>a. bg_status (ge_begin (ges a)) \<noteq> NV_ERR_MORE_PROCESSING_REQUIRED" and fuel: "MAX_OPERATION_DEPTH < fuel"
    and und: "undisturbed ap wait_fuel fuel ges rv S mine (unat (rv_range_count rv)) 0 t"
    and put: "\<And>status rs m t'. get_ranges_loop ap wait_fuel fuel ges rv (unat (rv_range_count rv)) 0
        (replicate (unat (rv_range_count rv)) zero_range) t = Some (status, rs @ replicate m zero_range, t') \<Longrightarrow>
        puts_undisturbed pes mine 0 rs t'"
    and beg: "\<forall>j. bg_status (pe_begin (pes j)) = NV_OK"
  shows "\<exists>status rv' t1. uvm_page_table_range_vec_init ap wait_fuel fuel True ges pes env start size' (2 ^ k) t =
      map_option (\<lambda>(w, t'). (if status = NV_OK then w else status, rv', t')) (uvm_page_tree_wait env wait_fuel t1) \<and>
    (if status = NV_OK then vec_holds k rv' mine t1 \<and> rv' = rv\<lparr>rv_ranges := rv_ranges rv'\<rparr> else rv' = zero_range_vec \<and> shared mine t1)"
proof -
  let ?hal = "pt_hal t" and ?n = "unat (rv_range_count rv)"
  have sz: "rv_size rv = size'" "rv_start rv = start" by (simp_all add: rv vec_for_def)
  have cnt: "?n = unat (range_vec_calc_range_count ?hal rv)" by (simp add: rv vec_for_def Let_def range_vec_calc_range_count_def)
  have "range_vec_calc_range_start ?hal rv 0 = rv_start rv" using range_vec_parts_ok[OF hal ok] by simp
  then have st: "0 < ?n \<Longrightarrow> total_entries [] * 2 ^ k + unat (rv_start rv) = unat (range_vec_calc_range_start ?hal rv 0)"
    by (simp add: total_entries_def)
  have ph0: "parts_held k rv [] t" by (simp add: parts_held_def)
  have "countable_more mine (unat (rv_size rv) div 2 ^ k)" using few by (simp add: sz)
  from get_ranges_ok[OF hal ok alloc bg fuel cnt this, where rs = "[]" and i = 0, unfolded append_Nil,
      OF refl sh ph0 _ _ st fresh refl und]
  obtain status rs m t1 where g: "get_ranges_loop ap wait_fuel fuel ges rv ?n 0 (replicate ?n zero_range) t =
        Some (status, rs @ replicate m zero_range, t1)"
    and t1: "pt_hal t1 = ?hal" "length rs + m = ?n" "shared (rs @ mine) t1" "parts_held k rv rs t1" "status = NV_OK \<longrightarrow> m = 0"
    by (simp; blast)
  have init: "uvm_page_table_range_vec_init ap wait_fuel fuel True ges pes env start size' (2 ^ k) t =
      (if status \<noteq> NV_OK then map_option (\<lambda>(rv, t). (status, rv, t))
           (uvm_page_table_range_vec_deinit pes env wait_fuel (rv\<lparr>rv_ranges := Some (rs @ replicate m zero_range)\<rparr>) t1)
       else map_option (\<lambda>(w, t'). (w, rv\<lparr>rv_ranges := Some (rs @ replicate m zero_range)\<rparr>, t')) (uvm_page_tree_wait env wait_fuel t1))"
    using g by (simp add: uvm_page_table_range_vec_init_def Let_def rv vec_for_def)
  show ?thesis
  proof (cases "status = NV_OK")
    case True
    then have "vec_holds k (rv\<lparr>rv_ranges := Some rs\<rparr>) mine t1" using t1 by (simp add: vec_holds_def)
    then show ?thesis using True t1(5) init
      by (intro exI[of _ NV_OK] exI[of _ "rv\<lparr>rv_ranges := Some rs\<rparr>"] exI[of _ t1]) simp
  next
    case False
    have fmt: "tree_format (pt_hal t1)" using mmu_formats_tree[OF hal] t1(1) by simp
    from deinit_ok[OF fmt _ _ t1(3) _ put[OF g] beg, of "rv\<lparr>rv_ranges := Some (rs @ replicate m zero_range)\<rparr>" m k env wait_fuel]
    obtain t2 where "uvm_page_table_range_vec_deinit pes env wait_fuel (rv\<lparr>rv_ranges := Some (rs @ replicate m zero_range)\<rparr>) t1 =
        map_option (\<lambda>(status, t). (zero_range_vec, t)) (uvm_page_tree_wait env wait_fuel t2)" "shared mine t2"
      using t1 by auto
    then show ?thesis using False init
      by (intro exI[of _ status] exI[of _ zero_range_vec] exI[of _ t2]) (auto simp: option.map_comp comp_def split: prod.splits intro: map_option_cong)
  qed
qed

text \<open>
  C22. A range vector is held whole or not at all. Creating one for whole pages of a supported size, in a
  tree shared with threads that leave this one's ranges alone, gets as far as the final wait for the tree's
  tracker. If every part was got, the vector holds the entries of each part and the tree is the one that
  needs them, whatever the wait then returns. If a part could not be got, the parts already held are put
  back and the vector is zeroed.
\<close>

theorem range_vec_init_correct:
  assumes "pt_hal t \<in> set mmu_formats" "rv = vec_for (pt_hal t) start size' (2 ^ k)" "vec_ok (pt_hal t) k rv"
    and "shared mine t" "countable_more mine (unat size' div 2 ^ k)" "fresh_calls ges S 0 t"
    and "\<And>a b t n. allocate_directory ap wait_fuel (ge_outs (ges a) b) t (2 ^ k) n \<noteq> None"
    and "\<And>a. bg_status (ge_begin (ges a)) \<noteq> NV_ERR_MORE_PROCESSING_REQUIRED" "MAX_OPERATION_DEPTH < fuel"
    and "undisturbed ap wait_fuel fuel ges rv S mine (unat (rv_range_count rv)) 0 t"
    and "\<And>status rs m t'. get_ranges_loop ap wait_fuel fuel ges rv (unat (rv_range_count rv)) 0
        (replicate (unat (rv_range_count rv)) zero_range) t = Some (status, rs @ replicate m zero_range, t') \<Longrightarrow>
        puts_undisturbed pes mine 0 rs t'"
    and "\<forall>j. bg_status (pe_begin (pes j)) = NV_OK"
  shows "\<exists>status rv' t1. uvm_page_table_range_vec_init ap wait_fuel fuel True ges pes env start size' (2 ^ k) t =
      map_option (\<lambda>(w, t'). (if status = NV_OK then w else status, rv', t')) (uvm_page_tree_wait env wait_fuel t1) \<and>
    (if status = NV_OK then vec_holds k rv' mine t1 \<and> rv' = rv\<lparr>rv_ranges := rv_ranges rv'\<rparr> else rv' = zero_range_vec \<and> shared mine t1)"
  using vec_init_ok[OF assms] .

text \<open>
  Destroying a held vector puts back each of its ranges, whatever other threads do in between, so that
  the tree is the one that needs only the other ranges, and zeroes the vector.
\<close>

theorem range_vec_deinit_correct:
  assumes "pt_hal t \<in> set mmu_formats" "vec_holds k rv mine t" "puts_undisturbed pes mine 0 (the (rv_ranges rv)) t"
    and "\<forall>j. bg_status (pe_begin (pes j)) = NV_OK"
  shows "\<exists>t1. uvm_page_table_range_vec_deinit pes env fuel rv t =
      map_option (\<lambda>(status, t). (zero_range_vec, t)) (uvm_page_tree_wait env fuel t1) \<and> shared mine t1"
proof -
  obtain rs where rs: "rv_ranges rv = Some rs" "length rs = unat (rv_range_count rv)" "parts_held k rv rs t" "shared (rs @ mine) t"
    using assms(2) by (auto simp: vec_holds_def split: option.splits)
  show ?thesis
    by (rule deinit_ok[OF mmu_formats_tree[OF assms(1)], where rs = rs and m = 0 and k = k]) (use rs assms(3,4) in simp_all)
qed

section \<open>What the pushes write\<close>

definition do_write :: "uvm_gpu_phys_address \<times> u64 \<Rightarrow> gpu_mem \<Rightarrow> gpu_mem" where
  "do_write w m = write_bytes (uvm_gpu_address_from_phys (fst w)) (bytes_of (snd w)) m"

definition bump :: "uvm_gpu_phys_address \<Rightarrow> u64 \<Rightarrow> uvm_gpu_phys_address" where
  "bump a n = a\<lparr>phys_address := phys_address a + n\<rparr>"

lemma bump_simps [simp]: "bump a 0 = a" "bump (bump a n) m = bump a (n + m)"
  by (simp_all add: bump_def algebra_simps)

text \<open>The writes of \<open>n\<close> entries from an address on, for pages from an offset on.\<close>

definition entry_writes :: "(u64 \<Rightarrow> u64) \<Rightarrow> u32 \<Rightarrow> nat \<Rightarrow> u64 \<Rightarrow> uvm_gpu_phys_address \<Rightarrow> (uvm_gpu_phys_address \<times> u64) list" where
  "entry_writes pte_maker page_size n offset a =
     map (\<lambda>j. (bump a (of_nat j * 8), pte_maker (offset + of_nat j * ucast page_size))) [0..<n]"

lemma entry_writes_Suc:
  "entry_writes f p (Suc n) off a = (a, f off) # entry_writes f p n (off + ucast p) (bump a 8)"
  by (simp add: entry_writes_def upt_conv_Cons map_Suc_upt[symmetric] comp_def algebra_simps del: upt_Suc)

lemma entry_writes_add:
  "entry_writes f p (n + m) off a = entry_writes f p n off a @ entry_writes f p m (off + of_nat n * ucast p) (bump a (of_nat n * 8))"
  by (induction n arbitrary: off a) (simp_all add: entry_writes_Suc algebra_simps, simp add: entry_writes_def)

lemma write_entries_ok:
  assumes "batch_ok b"
  shows "\<exists>b'. write_entries f p 8 n off a b = (off + of_nat n * ucast p, bump a (of_nat n * 8), b') \<and> batch_ok b' \<and>
    effect b' m = fold do_write (entry_writes f p n off a) (effect b m)"
  using assms
proof (induction n arbitrary: off a b)
  case (Suc n)
  note w = write_pte_spec[OF Suc.prems, of a "f off" m]
  have e: "a\<lparr>phys_address := phys_address a + 8\<rparr> = bump a 8" by (simp add: bump_def)
  have next': "write_entries f p 8 (Suc n) off a b =
      write_entries f p 8 n (off + ucast p) (bump a 8) (uvm_pte_batch_write_pte b a (f off) 8)" by (simp add: e)
  have pos: "off + ucast p + of_nat n * ucast p = off + of_nat (Suc n) * ucast p" "8 + of_nat n * 8 = of_nat (Suc n) * (8 :: u64)"
    by (simp_all add: algebra_simps)
  have m: "fold do_write (entry_writes f p (Suc n) off a) (effect b m) =
      fold do_write (entry_writes f p n (off + ucast p) (bump a 8)) (effect (uvm_pte_batch_write_pte b a (f off) 8) m)"
    using w by (simp add: entry_writes_Suc do_write_def)
  show ?case using Suc.IH[of "uvm_pte_batch_write_pte b a (f off) 8" "off + ucast p" "bump a 8"] w
    unfolding next' m bump_simps pos by blast
qed (simp add: entry_writes_def)

lemma batch_end_run:
  assumes "batch_ok b"
  shows "run_ops (cp_ops (batch_push (uvm_pte_batch_end b))) m = effect b m"
  using flush_spec[OF assms, of m]
  by (cases "batch_membar (uvm_pte_batch_flush_ptes b)")
    (simp_all add: uvm_pte_batch_end_def uvm_hal_wfi_membar_def uvm_hal_membar_def Let_def)

lemma begin_batch: "batch_ok (uvm_pte_batch_begin push)" "effect (uvm_pte_batch_begin push) m = run_ops (cp_ops push) m"
  by (simp_all add: batch_ok_def effect_def pending_def uvm_pte_batch_begin_def)

text \<open>Invalidates as operations of a push.\<close>

fun host_op :: "tlb_op \<Rightarrow> ce_op" where
  "host_op (Tlb_invalidate_all pdb depth mb) = Host_tlb_invalidate_all pdb depth mb"
| "host_op (Tlb_invalidate_va pdb depth base size' ps mb) = Host_tlb_invalidate_va pdb depth base size' ps mb"

lemma emit_tlb_ops: "cp_ops (emit_tlb op p) = cp_ops p @ [host_op op]"
  by (cases op) simp_all

lemma fold_emit_tlb: "cp_ops (fold emit_tlb ops p) = cp_ops p @ map host_op ops"
  by (induction ops arbitrary: p) (simp_all add: emit_tlb_ops)

lemma run_host_ops: "run_ops (map host_op ops) m = m"
proof (induction ops)
  case (Cons op ops)
  then show ?case by (cases op) simp_all
qed simp

definition vec_invalidates :: "push_params \<Rightarrow> uvm_page_tree \<Rightarrow> uvm_page_table_range_vec \<Rightarrow> uvm_membar \<Rightarrow> ce_op list" where
  "vec_invalidates pp t rv mb =
     map host_op (uvm_tlb_batch_single_invalidate
       \<lparr>tree_pdb_addr = alloc_addr (uvm_page_tree_pdb t), tree_hal = pt_hal t,
        va_invalidate_supported = pp_va_invalidate pp, max_pages = pp_max_pages pp\<rparr> [] (rv_start rv) (rv_size rv) (rv_page_size rv) mb)"

lemma single_invalidate_ops:
  "cp_ops (tree_single_invalidate pp t (rv_start rv) (rv_size rv) (rv_page_size rv) mb push) = cp_ops push @ vec_invalidates pp t rv mb"
  by (simp add: tree_single_invalidate_def vec_invalidates_def fold_emit_tlb)

definition run_pushes :: "ce_push list \<Rightarrow> gpu_mem \<Rightarrow> gpu_mem" where
  "run_pushes ps m = run_ops (concat (map cp_ops ps)) m"

lemma run_pushes_simps [simp]: "run_pushes [] m = m" "run_pushes (ps @ qs) m = run_pushes qs (run_pushes ps m)"
  "run_pushes [p] m = run_ops (cp_ops p) m"
  by (simp_all add: run_pushes_def)

text \<open>The state after a push of writes or clears: only pushes and trackers change.\<close>

definition pushed :: "ce_push list \<Rightarrow> uvm_page_tree \<Rightarrow> uvm_page_tree \<Rightarrow> bool" where
  "pushed ps t t' \<longleftrightarrow> t' = t\<lparr>pt_pushes := pt_pushes t @ ps\<rparr>"

lemma pushed_simps [simp]: "pushed [] t t" "pushed [p] t (page_tree_end p t)"
  by (simp_all add: pushed_def page_tree_end_def)

lemma pushed_self: "pushed ps t t \<Longrightarrow> ps = []"
  by (cases t) (simp add: pushed_def)

lemma pushed_append: "pushed ps t t' \<Longrightarrow> pushed qs t' t'' \<Longrightarrow> pushed (ps @ qs) t t''"
  by (simp add: pushed_def)

lemma pushed_same:
  assumes "pushed ps t t'"
  shows "pt_hal t' = pt_hal t" "pt_fake t' = pt_fake t" "uvm_page_table_range_entry_address t' r i = uvm_page_table_range_entry_address t r i"
    "vec_invalidates pp t' rv mb = vec_invalidates pp t rv mb"
  using assms
  by (simp_all add: pushed_def uvm_page_table_range_entry_address_def vec_invalidates_def uvm_page_tree_pdb_def dir_def)

lemma entries_per_push: "(word_of_nat UVM_MAX_PUSH_SIZE - 1024) div 8 = (16256 :: u32)"
  by (simp add: UVM_MAX_PUSH_SIZE_def)

lemma write_range_ok:
  assumes bg: "\<forall>j. bg_status (bgs j) = NV_OK" and cnt: "unat cnt < 2 ^ 31"
  shows "e \<le> cnt \<Longrightarrow> unat cnt - unat e < fuel \<Longrightarrow> uvm_mmu_pte_size (pt_hal (wv_tree s)) (rv_page_size rv) = 8 \<Longrightarrow>
    \<exists>s' ps. write_range_loop pp bgs mb f rv lst cnt fuel e s = Some (NV_OK, s') \<and>
      wv_offset s' = wv_offset s + of_nat (unat cnt - unat e) * ucast (rv_page_size rv) \<and> pushed ps (wv_tree s) (wv_tree s') \<and>
      (\<forall>m. run_pushes ps m = fold do_write (entry_writes f (rv_page_size rv) (unat cnt - unat e) (wv_offset s) (wv_addr s)) m) \<and>
      (lst \<and> e < cnt \<longrightarrow> (\<exists>qs p ops. ps = qs @ [p] \<and> cp_ops p = ops @ vec_invalidates pp (wv_tree s) rv mb))"
proof (induction fuel arbitrary: e s)
  case (Suc fuel)
  show ?case
  proof (cases "e < cnt")
    case False
    then have "e = cnt" using Suc.prems(1) by simp
    then show ?thesis using False
      by (intro exI[of _ s] exI[of _ "[]"]) (simp add: entry_writes_def)
  next
    case True
    let ?lim = "min cnt (e + 16256)" and ?t = "wv_tree s" and ?ps = "rv_page_size rv"
    have el: "unat (e + 16256) = unat e + 16256" using True cnt by (simp add: unat_word_ariths word_less_nat_alt)
    then have lim: "unat ?lim = min (unat cnt) (unat e + 16256)" by (simp add: min_def word_le_nat_alt)
    have e_lim: "e \<le> ?lim" "?lim \<le> cnt" "e < ?lim" using True el by (simp_all add: word_le_nat_alt word_less_nat_alt min_def)
    let ?n = "unat (?lim - e)"
    have n: "?n = unat ?lim - unat e" using unat_sub[OF e_lim(1)] .
    obtain push tracker where ba: "page_tree_begin_acquire (bgs (wv_push s)) ?t (wv_tracker s) = (NV_OK, push, tracker)"
      and p0: "cp_ops push = []" using bg by (simp add: page_tree_begin_acquire_def)
    obtain b where b: "write_entries f ?ps 8 ?n (wv_offset s) (wv_addr s) (uvm_pte_batch_begin push) =
        (wv_offset s + of_nat ?n * ucast ?ps, bump (wv_addr s) (of_nat ?n * 8), b)" and bok: "batch_ok b"
      using write_entries_ok[OF begin_batch(1), of f ?ps ?n "wv_offset s" "wv_addr s" push undefined] by blast
    have eff: "effect b m = fold do_write (entry_writes f ?ps ?n (wv_offset s) (wv_addr s)) m" for m
      using write_entries_ok[OF begin_batch(1), of f ?ps ?n "wv_offset s" "wv_addr s" push m] b p0 by (simp add: begin_batch)
    let ?p0 = "batch_push (uvm_pte_batch_end b)"
    let ?p = "if lst \<and> ?lim = cnt then tree_single_invalidate pp ?t (rv_start rv) (rv_size rv) ?ps mb ?p0
              else set_flag ?p0 UVM_PUSH_FLAG_CE_NEXT_MEMBAR_NONE"
    let ?t' = "page_tree_end ?p ?t"
    let ?tr = "if pt_fake ?t' then tracker else uvm_tracker_overwrite_with_push (bg_kv (bgs (wv_push s))) tracker (cp_push ?p)"
    let ?s = "\<lparr>wv_push = Suc (wv_push s), wv_offset = wv_offset s + of_nat ?n * ucast ?ps, wv_addr = bump (wv_addr s) (of_nat ?n * 8),
        wv_tracker = ?tr, wv_tree = ?t'\<rparr>"
    have step: "write_range_loop pp bgs mb f rv lst cnt (Suc fuel) e s = write_range_loop pp bgs mb f rv lst cnt fuel ?lim ?s"
      using True ba b Suc.prems(3) by (simp add: entries_per_push Let_def)
    have run_p: "run_pushes [?p] m = fold do_write (entry_writes f ?ps ?n (wv_offset s) (wv_addr s)) m" for m
      using batch_end_run[OF bok, of m] eff by (simp add: single_invalidate_ops vec_invalidates_def run_host_ops)
    have pd: "pushed [?p] ?t (wv_tree ?s)" by simp
    have f': "unat cnt - unat ?lim < fuel" using Suc.prems(2) e_lim(3) lim n by (simp add: word_less_nat_alt)
    have e8': "uvm_mmu_pte_size (pt_hal (wv_tree ?s)) ?ps = 8" using Suc.prems(3) by (simp add: page_tree_end_def)
    from Suc.IH[OF e_lim(2) f' e8'] obtain s' ps where IH: "write_range_loop pp bgs mb f rv lst cnt fuel ?lim ?s = Some (NV_OK, s')"
      and off: "wv_offset s' = wv_offset ?s + of_nat (unat cnt - unat ?lim) * ucast ?ps" and pd': "pushed ps (wv_tree ?s) (wv_tree s')"
      and run: "\<forall>m. run_pushes ps m = fold do_write (entry_writes f ?ps (unat cnt - unat ?lim) (wv_offset ?s) (wv_addr ?s)) m"
      and fin: "lst \<and> ?lim < cnt \<longrightarrow> (\<exists>qs p ops. ps = qs @ [p] \<and> cp_ops p = ops @ vec_invalidates pp (wv_tree ?s) rv mb)" by blast
    have tot: "unat cnt - unat e = ?n + (unat cnt - unat ?lim)" using n e_lim by (simp add: word_le_nat_alt)
    have fin': "lst \<longrightarrow> (\<exists>qs p ops. ?p # ps = qs @ [p] \<and> cp_ops p = ops @ vec_invalidates pp ?t rv mb)"
    proof
      assume l: lst
      show "\<exists>qs p ops. ?p # ps = qs @ [p] \<and> cp_ops p = ops @ vec_invalidates pp ?t rv mb"
      proof (cases "?lim < cnt")
        case True
        then obtain qs p ops where "ps = qs @ [p]" "cp_ops p = ops @ vec_invalidates pp (wv_tree ?s) rv mb" using fin l by blast
        then show ?thesis using pushed_same(4)[OF pd, of pp rv mb] by (intro exI[of _ "?p # qs"]) auto
      next
        case False
        then have c: "?lim = cnt" using e_lim(2) by simp
        then have "write_range_loop pp bgs mb f rv lst cnt fuel ?lim ?s = Some (NV_OK, ?s)" using f' by (cases fuel) simp_all
        then have "?s = s'" using IH by simp
        then have "ps = []" using pushed_self[of ps "wv_tree s'"] pd' by (simp only:)
        then show ?thesis using l c by (intro exI[of _ "[]"]) (simp add: single_invalidate_ops)
      qed
    qed
    have "wv_offset s' = wv_offset s + of_nat (unat cnt - unat e) * ucast ?ps"
      unfolding tot off by (simp add: algebra_simps)
    moreover have "run_pushes (?p # ps) m = fold do_write (entry_writes f ?ps (unat cnt - unat e) (wv_offset s) (wv_addr s)) m" for m
      using run run_p[of m] run_pushes_simps(2)[of "[?p]" ps m] unfolding tot entry_writes_add by simp
    moreover have "pushed (?p # ps) ?t (wv_tree s')" using pushed_append[OF pd pd'] by simp
    ultimately show ?thesis using step IH fin' by (intro exI[of _ s'] exI[of _ "?p # ps"]) simp
  qed
qed simp

text \<open>The writes that the entries of a vector ask for, from an offset on.\<close>

fun vec_writes ::
  "uvm_page_tree \<Rightarrow> (u64 \<Rightarrow> u64) \<Rightarrow> u32 \<Rightarrow> u64 \<Rightarrow> uvm_page_table_range list \<Rightarrow> (uvm_gpu_phys_address \<times> u64) list" where
  "vec_writes t f page_size offset [] = []"
| "vec_writes t f page_size offset (r # rs) =
     map (\<lambda>j. (uvm_page_table_range_entry_address t r (of_nat j), f (offset + of_nat j * ucast page_size)))
       [0..<unat (rg_entry_count r)] @
     vec_writes t f page_size (offset + of_nat (unat (rg_entry_count r)) * ucast page_size) rs"

lemma entry_address_bump:
  "uvm_mmu_pte_size (pt_hal t) (rg_page_size r) = 8 \<Longrightarrow>
   uvm_page_table_range_entry_address t r (of_nat j) = bump (uvm_page_table_range_entry_address t r 0) (of_nat j * 8)"
  by (simp add: uvm_page_table_range_entry_address_def bump_def Let_def distrib_right add.assoc)

lemma vec_writes_pushed: "pushed ps t t' \<Longrightarrow> vec_writes t' f p off rs = vec_writes t f p off rs"
  by (induction rs arbitrary: off) (simp_all add: pushed_same)

lemma write_loop_ok:
  assumes bg: "\<forall>j. bg_status (bgs j) = NV_OK"
  shows "uvm_mmu_pte_size (pt_hal (wv_tree s)) (rv_page_size rv) = 8 \<Longrightarrow>
    \<forall>r \<in> set rs. 0 < rg_entry_count r \<and> unat (rg_entry_count r) < 2 ^ 31 \<and> rg_page_size r = rv_page_size rv \<and> unat (rg_entry_count r) < fuel \<Longrightarrow>
    \<exists>s' ps. write_loop pp bgs mb f rv fuel rs s = Some (NV_OK, s') \<and> pushed ps (wv_tree s) (wv_tree s') \<and>
      (\<forall>m. run_pushes ps m = fold do_write (vec_writes (wv_tree s) f (rv_page_size rv) (wv_offset s) rs) m) \<and>
      (rs \<noteq> [] \<longrightarrow> (\<exists>qs p ops. ps = qs @ [p] \<and> cp_ops p = ops @ vec_invalidates pp (wv_tree s) rv mb))"
proof (induction rs arbitrary: s)
  case Nil
  then show ?case by (intro exI[of _ s] exI[of _ "[]"]) simp
next
  case (Cons r rs)
  let ?s = "s\<lparr>wv_addr := uvm_page_table_range_entry_address (wv_tree s) r 0\<rparr>" and ?c = "rg_entry_count r" and ?ps = "rv_page_size rv"
  have r: "0 < ?c" "unat ?c < 2 ^ 31" "rg_page_size r = ?ps" "unat ?c < fuel" using Cons.prems(2) by auto
  have e8: "uvm_mmu_pte_size (pt_hal (wv_tree ?s)) ?ps = 8" using Cons.prems(1) by simp
  from write_range_ok[OF bg r(2) _ _ e8, of 0 fuel pp mb f "rs = []"] r
  obtain s1 ps1 where w: "write_range_loop pp bgs mb f rv (rs = []) ?c fuel 0 ?s = Some (NV_OK, s1)"
    and off: "wv_offset s1 = wv_offset s + of_nat (unat ?c) * ucast ?ps" and pd: "pushed ps1 (wv_tree s) (wv_tree s1)"
    and run: "\<And>m. run_pushes ps1 m = fold do_write (entry_writes f ?ps (unat ?c) (wv_offset s) (uvm_page_table_range_entry_address (wv_tree s) r 0)) m"
    and fin: "rs = [] \<Longrightarrow> (\<exists>qs p ops. ps1 = qs @ [p] \<and> cp_ops p = ops @ vec_invalidates pp (wv_tree s) rv mb)"
    by auto
  have "uvm_mmu_pte_size (pt_hal (wv_tree s1)) ?ps = 8" using Cons.prems(1) pushed_same(1)[OF pd] by simp
  from Cons.IH[OF this] Cons.prems(2) obtain s2 ps2 where w2: "write_loop pp bgs mb f rv fuel rs s1 = Some (NV_OK, s2)"
    and pd2: "pushed ps2 (wv_tree s1) (wv_tree s2)"
    and run2: "\<And>m. run_pushes ps2 m = fold do_write (vec_writes (wv_tree s1) f ?ps (wv_offset s1) rs) m"
    and fin2: "rs \<noteq> [] \<longrightarrow> (\<exists>qs p ops. ps2 = qs @ [p] \<and> cp_ops p = ops @ vec_invalidates pp (wv_tree s1) rv mb)" by auto
  have hd': "map (\<lambda>j. (uvm_page_table_range_entry_address (wv_tree s) r (of_nat j), f (wv_offset s + of_nat j * ucast ?ps))) [0..<unat ?c] =
      entry_writes f ?ps (unat ?c) (wv_offset s) (uvm_page_table_range_entry_address (wv_tree s) r 0)"
    unfolding entry_writes_def by (rule map_cong[OF refl]) (subst entry_address_bump, use Cons.prems(1) r(3) in simp_all)
  have "run_pushes (ps1 @ ps2) m = fold do_write (vec_writes (wv_tree s) f ?ps (wv_offset s) (r # rs)) m" for m
    unfolding run_pushes_simps run run2 vec_writes.simps hd' fold_append comp_def off vec_writes_pushed[OF pd] ..
  moreover have "\<exists>qs p ops. ps1 @ ps2 = qs @ [p] \<and> cp_ops p = ops @ vec_invalidates pp (wv_tree s) rv mb"
  proof (cases "rs = []")
    case True
    then have "ps2 = []" using w2 pd2 pushed_self by auto
    then show ?thesis using fin[OF True] by simp
  next
    case False
    then obtain qs p ops where "ps2 = qs @ [p]" "cp_ops p = ops @ vec_invalidates pp (wv_tree s1) rv mb" using fin2 by blast
    then show ?thesis using pushed_same(4)[OF pd, of pp rv mb] by (intro exI[of _ "ps1 @ qs"]) auto
  qed
  ultimately show ?case using w w2 pushed_append[OF pd pd2] by (intro exI[of _ s2] exI[of _ "ps1 @ ps2"]) simp
qed

lemma write_ptes_ok:
  assumes "uvm_mmu_pte_size (pt_hal t) (rv_page_size rv) = 8" "rv_ranges rv = Some rs" "rs \<noteq> []"
    and "\<forall>r \<in> set rs. 0 < rg_entry_count r \<and> unat (rg_entry_count r) < 2 ^ 31 \<and> rg_page_size r = rv_page_size rv \<and>
      unat (rg_entry_count r) < push_fuel"
    and "\<forall>j. bg_status (bgs j) = NV_OK"
  shows "\<exists>tracker t' qs p ops. uvm_page_table_range_vec_write_ptes pp bgs push_fuel env fuel rv mb f t = tracker_done env fuel NV_OK tracker t' \<and>
    t' = t\<lparr>pt_pushes := pt_pushes t @ qs @ [p]\<rparr> \<and> cp_ops p = ops @ vec_invalidates pp t rv mb \<and>
    (\<forall>m. run_pushes (qs @ [p]) m = fold do_write (vec_writes t f (rv_page_size rv) 0 rs) m)"
proof -
  let ?s = "\<lparr>wv_push = 0, wv_offset = 0, wv_addr = \<lparr>phys_address = 0, phys_aperture = UVM_APERTURE_PEER 0\<rparr>,
              wv_tracker = uvm_tracker_init, wv_tree = t\<rparr>"
  obtain s' ps where w: "write_loop pp bgs mb f rv push_fuel rs ?s = Some (NV_OK, s')" and pd: "pushed ps t (wv_tree s')"
    and run: "\<forall>m. run_pushes ps m = fold do_write (vec_writes t f (rv_page_size rv) 0 rs) m"
    and fin: "\<exists>qs p ops. ps = qs @ [p] \<and> cp_ops p = ops @ vec_invalidates pp t rv mb"
    using write_loop_ok[OF assms(5), of ?s rv rs push_fuel pp mb f] assms(1,3,4) by auto
  from fin obtain qs p ops where "ps = qs @ [p]" "cp_ops p = ops @ vec_invalidates pp t rv mb" by blast
  then show ?thesis
    using w pd run assms(2)
    by (intro exI[of _ "wv_tracker s'"] exI[of _ "wv_tree s'"] exI[of _ qs] exI[of _ p] exI[of _ ops])
      (simp add: uvm_page_table_range_vec_write_ptes_def pushed_def)
qed

text \<open>
  C14. Writing the entries of a vector writes, one after the other, the entry of each page with what the
  caller's function makes of the page's offset in the vector, at the place in its table, however many pushes
  that takes; the last push ends with the TLB invalidate for the whole range, after its writes. This is for
  entries of 8 bytes and when every push can begin; it ends when the fuel exceeds the entries of a range.
\<close>

theorem range_vec_write_ptes_correct:
  assumes "uvm_mmu_pte_size (pt_hal t) (rv_page_size rv) = 8" "rv_ranges rv = Some rs" "rs \<noteq> []"
    and "\<forall>r \<in> set rs. 0 < rg_entry_count r \<and> unat (rg_entry_count r) < 2 ^ 31 \<and> rg_page_size r = rv_page_size rv \<and>
      unat (rg_entry_count r) < push_fuel"
    and "\<forall>j. bg_status (bgs j) = NV_OK"
  shows "\<exists>tracker t' qs p ops. uvm_page_table_range_vec_write_ptes pp bgs push_fuel env fuel rv mb f t = tracker_done env fuel NV_OK tracker t' \<and>
    t' = t\<lparr>pt_pushes := pt_pushes t @ qs @ [p]\<rparr> \<and> cp_ops p = ops @ vec_invalidates pp t rv mb \<and>
    (\<forall>m. run_pushes (qs @ [p]) m = fold do_write (vec_writes t f (rv_page_size rv) 0 rs) m)"
  using write_ptes_ok[OF assms] .

section \<open>Clearing\<close>

definition zeroed :: "uvm_gpu_address set \<Rightarrow> gpu_mem \<Rightarrow> gpu_mem" where
  "zeroed A m = (\<lambda>x. if x \<in> A then 0 else m x)"

lemma zeroed_simps [simp]: "zeroed {} m = m" "zeroed A (zeroed B m) = zeroed (A \<union> B) m"
  by (auto simp: zeroed_def)

definition entry_bytes :: "uvm_page_tree \<Rightarrow> u32 \<Rightarrow> uvm_page_table_range \<Rightarrow> uvm_gpu_address set" where
  "entry_bytes t entry_size r =
     (\<lambda>j. shift j (uvm_gpu_address_from_phys (uvm_page_table_range_entry_address t r 0))) ` {..<unat entry_size * unat (rg_entry_count r)}"

lemma write_zeros: "write_bytes d (replicate n 0) m = zeroed ((\<lambda>j. shift j d) ` {..<n}) m"
proof (induction n arbitrary: d m)
  case (Suc n)
  have "(\<lambda>j. shift j d) ` {..<Suc n} = insert d ((\<lambda>j. shift j (shift 1 d)) ` {..<n})"
    by (simp add: lessThan_Suc_eq_insert_0 image_image)
  moreover have "m(d := 0) = zeroed {d} m" by (simp add: zeroed_def fun_eq_iff)
  ultimately show ?case by (simp add: Suc)
qed simp

lemma zero_words: "concat (replicate k (bytes_of 0)) = replicate (8 * k) (0 :: u8)"
proof (induction k)
  case (Suc k)
  have "bytes_of 0 = replicate 8 0" by (simp add: bytes_of_def map_replicate_const)
  then show ?case using Suc by (simp flip: replicate_add)
qed simp

lemma clear_one:
  assumes "batch_ok b" "8 dvd unat es" "unat es * unat (rg_entry_count r) < 2 ^ 32"
  shows "batch_ok (uvm_pte_batch_clear_ptes b (uvm_page_table_range_entry_address t r 0) 0 es (rg_entry_count r))"
    "effect (uvm_pte_batch_clear_ptes b (uvm_page_table_range_entry_address t r 0) 0 es (rg_entry_count r)) m =
       zeroed (entry_bytes t es r) (effect b m)"
proof -
  have "unat (es * rg_entry_count r) = unat es * unat (rg_entry_count r)" using assms(3) by (simp add: unat_word_ariths)
  moreover have "8 * (unat es * unat (rg_entry_count r) div 8) = unat es * unat (rg_entry_count r)" using assms(2) by simp
  ultimately show "batch_ok (uvm_pte_batch_clear_ptes b (uvm_page_table_range_entry_address t r 0) 0 es (rg_entry_count r))"
    "effect (uvm_pte_batch_clear_ptes b (uvm_page_table_range_entry_address t r 0) 0 es (rg_entry_count r)) m =
       zeroed (entry_bytes t es r) (effect b m)"
    using clear_ptes_spec[OF assms(1), of "uvm_page_table_range_entry_address t r 0" 0 es "rg_entry_count r" m]
    by (simp_all add: zero_words write_zeros entry_bytes_def)
qed

text \<open>A fresh push has room for the clear of any one range and 512 bytes more.\<close>

definition first_fits :: "push_params \<Rightarrow> (nat \<Rightarrow> begin_outcome) \<Rightarrow> uvm_page_tree \<Rightarrow> u32 \<Rightarrow> uvm_page_table_range list \<Rightarrow> bool" where
  "first_fits pp bgs t es rs \<longleftrightarrow>
     (\<forall>j. \<forall>r \<in> set rs. has_space pp (batch_push (uvm_pte_batch_clear_ptes (uvm_pte_batch_begin \<lparr>cp_push = bg_push (bgs j), cp_ops = []\<rparr>)
        (uvm_page_table_range_entry_address t r 0) 0 es (rg_entry_count r))) 512)"

lemma clear_push_ok:
  assumes es: "8 dvd unat es"
  shows "batch_ok b \<Longrightarrow> \<forall>r \<in> set rs. unat es * unat (rg_entry_count r) < 2 ^ 32 \<Longrightarrow>
    \<exists>j c b'. clear_push_loop pp t es i rs b = (i + j, b') \<and> j \<le> c \<and> c \<le> length rs \<and> batch_ok b' \<and>
      (\<forall>m. effect b' m = zeroed (\<Union>r \<in> set (take c rs). entry_bytes t es r) (effect b m)) \<and>
      (rs \<noteq> [] \<longrightarrow> has_space pp (batch_push (uvm_pte_batch_clear_ptes b (uvm_page_table_range_entry_address t (hd rs) 0) 0 es
         (rg_entry_count (hd rs)))) 512 \<longrightarrow> 0 < j)"
proof (induction rs arbitrary: i b)
  case Nil
  then show ?case by (intro exI[of _ 0] exI[of _ 0] exI[of _ b]) simp
next
  case (Cons r rs)
  let ?b = "uvm_pte_batch_clear_ptes b (uvm_page_table_range_entry_address t r 0) 0 es (rg_entry_count r)"
  have c1: "batch_ok ?b" "effect ?b m = zeroed (entry_bytes t es r) (effect b m)" for m
    using clear_one[OF Cons.prems(1) es] Cons.prems(2) by auto
  show ?case
  proof (cases "has_space pp (batch_push ?b) 512")
    case True
    from Cons.IH[OF c1(1), of "Suc i"] Cons.prems(2) obtain j c b' where IH: "clear_push_loop pp t es (Suc i) rs ?b = (Suc i + j, b')"
      "j \<le> c" "c \<le> length rs" "batch_ok b'" "\<forall>m. effect b' m = zeroed (\<Union>r \<in> set (take c rs). entry_bytes t es r) (effect ?b m)" by auto
    then show ?thesis using True c1(2)
      by (intro exI[of _ "Suc j"] exI[of _ "Suc c"] exI[of _ b']) (simp add: Let_def Un_commute)
  next
    case False
    then show ?thesis using c1 by (intro exI[of _ 0] exI[of _ 1] exI[of _ ?b]) (simp add: Let_def)
  qed
qed

lemma clear_loop_ok:
  assumes bg: "\<forall>j. bg_status (bgs j) = NV_OK" and es: "8 dvd unat es"
    and small: "\<forall>r \<in> set rs. unat es * unat (rg_entry_count r) < 2 ^ 32"
  shows "length rs - i < fuel \<Longrightarrow> uvm_mmu_pte_size (pt_hal t) (rv_page_size rv) = es \<Longrightarrow> first_fits pp bgs t es rs \<Longrightarrow>
    \<exists>tracker' t' ps C. clear_loop pp bgs mb rv rs fuel j i tracker t = Some (NV_OK, tracker', t') \<and> pushed ps t t' \<and>
      set (drop i rs) \<subseteq> C \<and> C \<subseteq> set rs \<and> (\<forall>m. run_pushes ps m = zeroed (\<Union>r \<in> C. entry_bytes t es r) m) \<and>
      (i < length rs \<longrightarrow> (\<exists>qs p ops. ps = qs @ [p] \<and> cp_ops p = ops @ vec_invalidates pp t rv mb))"
proof (induction fuel arbitrary: i j tracker t)
  case (Suc fuel)
  show ?case
  proof (cases "i < length rs")
    case False
    then show ?thesis by (intro exI[of _ tracker] exI[of _ t] exI[of _ "[]"] exI[of _ "{}"]) simp
  next
    case True
    then have ilt: "i < length rs" .
    obtain push tracker1 where ba: "page_tree_begin_acquire (bgs j) t tracker = (NV_OK, push, tracker1)"
      and p0: "push = \<lparr>cp_push = bg_push (bgs j), cp_ops = []\<rparr>" using bg by (simp add: page_tree_begin_acquire_def)
    have sm: "\<forall>r \<in> set (drop i rs). unat es * unat (rg_entry_count r) < 2 ^ 32" using small set_drop_subset[of i rs] by blast
    from clear_push_ok[OF es begin_batch(1) sm, of pp t i push]
    obtain n c b where cl: "clear_push_loop pp t es i (drop i rs) (uvm_pte_batch_begin push) = (i + n, b)" "n \<le> c" "c \<le> length (drop i rs)"
      and bok: "batch_ok b" and eff: "\<And>m. effect b m = zeroed (\<Union>r \<in> set (take c (drop i rs)). entry_bytes t es r) (effect (uvm_pte_batch_begin push) m)"
      and adv: "has_space pp (batch_push (uvm_pte_batch_clear_ptes (uvm_pte_batch_begin push) (uvm_page_table_range_entry_address t (hd (drop i rs)) 0) 0 es
         (rg_entry_count (hd (drop i rs))))) 512 \<longrightarrow> 0 < n" using True by auto
    have "hd (drop i rs) \<in> set rs" using True by (simp add: hd_drop_conv_nth)
    then have n0: "0 < n" using adv Suc.prems(3) unfolding first_fits_def p0 by blast
    let ?p0 = "batch_push (uvm_pte_batch_end b)"
    let ?p = "if i + n = length rs then tree_single_invalidate pp t (rv_start rv) (rv_size rv) (rv_page_size rv) mb ?p0 else ?p0"
    let ?t = "page_tree_end ?p t"
    let ?tr = "if pt_fake ?t then tracker1 else uvm_tracker_overwrite_with_push (bg_kv (bgs j)) tracker1 (cp_push ?p)"
    have step: "clear_loop pp bgs mb rv rs (Suc fuel) j i tracker t = clear_loop pp bgs mb rv rs fuel (Suc j) (i + n) ?tr ?t"
      using True ba cl(1) Suc.prems(2) by (simp add: Let_def)
    have pd: "pushed [?p] t ?t" by simp
    have run_p: "run_pushes [?p] m = zeroed (\<Union>r \<in> set (take c (drop i rs)). entry_bytes t es r) m" for m
      using batch_end_run[OF bok, of m] eff[of m] p0 by (simp add: single_invalidate_ops vec_invalidates_def run_host_ops begin_batch)
    have same: "entry_bytes ?t es r = entry_bytes t es r" for r by (simp add: entry_bytes_def pushed_same(3)[OF pd])
    have "first_fits pp bgs ?t es rs" using Suc.prems(3) by (simp add: first_fits_def pushed_same(3)[OF pd])
    moreover have "uvm_mmu_pte_size (pt_hal ?t) (rv_page_size rv) = es" using Suc.prems(2) pushed_same(1)[OF pd] by simp
    moreover have "length rs - (i + n) < fuel" using Suc.prems(1) n0 True by simp
    ultimately obtain tr' t' ps C where IH: "clear_loop pp bgs mb rv rs fuel (Suc j) (i + n) ?tr ?t = Some (NV_OK, tr', t')" "pushed ps ?t t'"
      "set (drop (i + n) rs) \<subseteq> C" "C \<subseteq> set rs" "\<forall>m. run_pushes ps m = zeroed (\<Union>r \<in> C. entry_bytes t es r) m"
      "i + n < length rs \<longrightarrow> (\<exists>qs p ops. ps = qs @ [p] \<and> cp_ops p = ops @ vec_invalidates pp t rv mb)"
      using Suc.IH[of "i + n" ?t "Suc j" ?tr] unfolding same pushed_same(4)[OF pd] by blast
    have last': "\<exists>qs p ops. ?p # ps = qs @ [p] \<and> cp_ops p = ops @ vec_invalidates pp t rv mb"
    proof (cases "i + n < length rs")
      case True
      then obtain qs p ops where "ps = qs @ [p]" "cp_ops p = ops @ vec_invalidates pp t rv mb" using IH(6) by blast
      then show ?thesis by (intro exI[of _ "?p # qs"]) auto
    next
      case False
      then have e: "i + n = length rs" using cl(2,3) ilt by simp
      have "clear_loop pp bgs mb rv rs fuel (Suc j) (i + n) ?tr ?t = Some (NV_OK, ?tr, ?t)"
        using e \<open>length rs - (i + n) < fuel\<close> by (cases fuel) simp_all
      then have "t' = ?t" using IH(1) by simp
      then have "ps = []" using IH(2) pushed_self by blast
      then show ?thesis using e by (intro exI[of _ "[]"]) (simp add: single_invalidate_ops)
    qed
    let ?C = "set (take c (drop i rs)) \<union> C"
    have "set (take n (drop i rs)) \<subseteq> set (take c (drop i rs))" using cl(2) by (rule set_take_subset_set_take)
    moreover have "set (drop i rs) = set (take n (drop i rs)) \<union> set (drop (i + n) rs)"
      by (metis append_take_drop_id drop_drop add.commute set_append)
    ultimately have "set (drop i rs) \<subseteq> ?C" using IH(3) by blast
    moreover have "?C \<subseteq> set rs" using IH(4) set_take_subset set_drop_subset by (metis Un_least subset_trans)
    moreover have "run_pushes (?p # ps) m = zeroed (\<Union>r \<in> ?C. entry_bytes t es r) m" for m
      using IH(5) run_p[of m] run_pushes_simps(2)[of "[?p]" ps m] by (simp add: Un_commute)
    moreover have "pushed (?p # ps) t t'" using pushed_append[OF pd IH(2)] by simp
    ultimately show ?thesis using step IH(1) last'
      by (intro exI[of _ tr'] exI[of _ t'] exI[of _ "?p # ps"] exI[of _ ?C]) simp
  qed
qed simp

text \<open>
  C18. Clearing the entries of a vector ends, although a range at which a push is found full is cleared again
  by the next one: exactly the bytes of its entries become zero, and the last push ends with the TLB
  invalidate for the whole range. This needs that a fresh push has room to clear one range with 512 bytes to
  spare, which the loop relies on to make progress, and that every push can begin.
\<close>

theorem range_vec_clear_ptes_correct:
  assumes "rv_ranges rv = Some rs" "rs \<noteq> []" "es = uvm_mmu_pte_size (pt_hal t) (rv_page_size rv)" "8 dvd unat es"
    and "\<forall>r \<in> set rs. unat es * unat (rg_entry_count r) < 2 ^ 32" "\<forall>j. bg_status (bgs j) = NV_OK" "first_fits pp bgs t es rs"
    and "length rs < push_fuel"
  shows "\<exists>tracker t' qs p ops. uvm_page_table_range_vec_clear_ptes pp bgs push_fuel env fuel rv mb t = tracker_done env fuel NV_OK tracker t' \<and>
    t' = t\<lparr>pt_pushes := pt_pushes t @ qs @ [p]\<rparr> \<and> cp_ops p = ops @ vec_invalidates pp t rv mb \<and>
    (\<forall>m. run_pushes (qs @ [p]) m = zeroed (\<Union>r \<in> set rs. entry_bytes t es r) m)"
proof -
  have "length rs - 0 < push_fuel" "0 < length rs" using assms(2,8) by simp_all
  from clear_loop_ok[OF assms(6,4,5) this(1) assms(3)[symmetric] assms(7), of mb 0 uvm_tracker_init] this(2)
  obtain tracker t' ps C where w: "clear_loop pp bgs mb rv rs push_fuel 0 0 uvm_tracker_init t = Some (NV_OK, tracker, t')"
    and pd: "pushed ps t t'" and C: "set rs \<subseteq> C" "C \<subseteq> set rs"
    and run: "\<forall>m. run_pushes ps m = zeroed (\<Union>r \<in> C. entry_bytes t es r) m"
    and fin: "\<exists>qs p ops. ps = qs @ [p] \<and> cp_ops p = ops @ vec_invalidates pp t rv mb" by auto
  from fin obtain qs p ops where "ps = qs @ [p]" "cp_ops p = ops @ vec_invalidates pp t rv mb" by blast
  moreover have "C = set rs" using C by blast
  ultimately show ?thesis
    using w pd run assms(1)
    by (intro exI[of _ tracker] exI[of _ t'] exI[of _ qs] exI[of _ p] exI[of _ ops])
      (simp add: uvm_page_table_range_vec_clear_ptes_def pushed_def)
qed

section \<open>Examples\<close>

lemma vec_ok_pascal:
  assumes "0 < unat size'" "2 ^ 12 dvd unat start" "2 ^ 12 dvd unat size'" "unat start + unat size' \<le> 2 ^ 49"
  shows "vec_ok pascal_mmu_mode_hal 12 (vec_for pascal_mmu_mode_hal start size' (2 ^ 12))"
proof -
  have "page_exp pascal_mmu_mode_hal 12" by (simp add: page_exp_pascal)
  moreover have "unat (hal_num_va_bits pascal_mmu_mode_hal) = 49" by (simp add: pascal_mmu_mode_hal_def num_va_bits_pascal_def)
  ultimately show ?thesis unfolding vec_ok_def vec_for_def Let_def using assms by simp
qed

lemma range_vec_parts_witness:
  "unat (range_vec_calc_range_count pascal_mmu_mode_hal (vec_for pascal_mmu_mode_hal 0x1ff000 0x2000 (2 ^ 12))) = 2 \<and>
   range_vec_calc_range_end pascal_mmu_mode_hal (vec_for pascal_mmu_mode_hal 0x1ff000 0x2000 (2 ^ 12)) 1 = 0x201000"
proof -
  let ?rv = "vec_for pascal_mmu_mode_hal 0x1ff000 0x2000 (2 ^ 12)"
  have n: "unat (range_vec_calc_range_count pascal_mmu_mode_hal ?rv) = 2" by code_simp
  have ok: "vec_ok pascal_mmu_mode_hal 12 ?rv"
    by (rule vec_ok_pascal) simp_all
  have "pascal_mmu_mode_hal \<in> set mmu_formats" by (simp add: mmu_formats_def)
  note parts = range_vec_parts[OF this ok]
  have "range_vec_calc_range_end pascal_mmu_mode_hal ?rv (2 - 1) = rv_start ?rv + rv_size ?rv"
    using parts unfolding n by blast
  moreover have "rv_start ?rv + rv_size ?rv = 0x201000" by (simp add: vec_for_def)
  ultimately show ?thesis using n by simp
qed

definition sample_held_vec :: uvm_page_table_range_vec where
  "sample_held_vec = \<lparr>rv_start = 0x4000, rv_size = 0x3000, rv_page_size = 2 ^ 12, rv_ranges = Some [sample_range], rv_range_count = 1\<rparr>"

definition quiet_put :: "nat \<Rightarrow> put_env" where
  "quiet_put i = \<lparr>pe_before = (\<lambda>t. t), pe_begin = sample_begin\<rparr>"

definition quiet_get :: "nat \<Rightarrow> get_env" where
  "quiet_get i = \<lparr>ge_before = (\<lambda>t. t), ge_outs = (\<lambda>b. if i = 0 then sample_alloc b else (sample_alloc b)\<lparr>ao_dir := None\<rparr>),
     ge_others = (\<lambda>_ t. t), ge_begin = sample_begin\<rparr>"

definition sample_params :: push_params where
  "sample_params = \<lparr>pp_bytes = (\<lambda>_. 40), pp_va_invalidate = True, pp_max_pages = 64\<rparr>"

lemma rely_refl: "rely mine S t t"
  by (simp add: rely_def keeps_walks_refl)

lemma quiet_puts: "puts_undisturbed quiet_put mine i rs t"
  by (induction rs arbitrary: i t) (simp_all add: quiet_put_def rely_refl split: option.splits)

lemma sample_vec_holds: "vec_holds 12 sample_held_vec [] sample_held_tree"
proof -
  have w: "walk sample_held_tree (2 ^ 12) 0x4000 1 = Some 1"
    unfolding One_nat_def walk_Suc_iff sample_linked
    by (simp add: sample_held_dirs slot_def index_to_entry_def va_index_def entry_index_from_vaddr_def geometry_simps)
  have st: "range_vec_calc_range_start kepler_64_mmu_mode_hal sample_held_vec 0 = 0x4000"
    "range_vec_calc_range_size kepler_64_mmu_mode_hal sample_held_vec 0 = 0x3000" by code_simp+
  have ix: "va_index kepler_64_mmu_mode_hal (2 ^ 12) 0x4000 1 = 4" "entries_of kepler_64_mmu_mode_hal 12 0x4000 0x3000 = 3" by code_simp+
  have "covers sample_held_tree 12 0x4000 0x3000 sample_range"
    using w ix by (simp add: covers_def sample_held_dirs sample_range_def pt_depth_simps del: walk.simps)
  then have "parts_held 12 sample_held_vec [sample_range] sample_held_tree"
    using st by (simp add: parts_held_def sample_held_dirs) (simp add: sample_range_def)
  moreover have "shared [sample_range] sample_held_tree"
    using sample_held_inv by (auto simp: shared_def held_count_def intro: exI[of _ "[]"])
  ultimately show ?thesis by (simp add: vec_holds_def sample_held_vec_def parts_held_def)
qed

lemma range_vec_deinit_correct_witness:
  "\<exists>t1. uvm_page_table_range_vec_deinit quiet_put (\<lambda>_. bg_snapshot sample_begin) 1 sample_held_vec sample_held_tree =
      map_option (\<lambda>(status, t). (zero_range_vec, t)) (uvm_page_tree_wait (\<lambda>_. bg_snapshot sample_begin) 1 t1) \<and> shared [] t1"
  by (rule range_vec_deinit_correct[OF _ sample_vec_holds quiet_puts])
    (simp_all add: sample_held_dirs mmu_formats_def quiet_put_def sample_begin_def)

lemma range_vec_write_ptes_correct_witness:
  "\<exists>tracker t' qs p ops. uvm_page_table_range_vec_write_ptes sample_params (\<lambda>_. sample_begin) 4 (\<lambda>_. bg_snapshot sample_begin) 1
      sample_held_vec UVM_MEMBAR_NONE (\<lambda>offset. offset + 1) sample_held_tree =
      tracker_done (\<lambda>_. bg_snapshot sample_begin) 1 NV_OK tracker t' \<and>
    t' = sample_held_tree\<lparr>pt_pushes := pt_pushes sample_held_tree @ qs @ [p]\<rparr> \<and>
    cp_ops p = ops @ vec_invalidates sample_params sample_held_tree sample_held_vec UVM_MEMBAR_NONE \<and>
    (\<forall>m. run_pushes (qs @ [p]) m =
      fold do_write (vec_writes sample_held_tree (\<lambda>offset. offset + 1) (rv_page_size sample_held_vec) 0 [sample_range]) m)"
  by (rule range_vec_write_ptes_correct)
    (simp_all add: sample_held_vec_def sample_range_def sample_begin_def sample_held_dirs uvm_mmu_pte_size_def geometry_simps)

lemma range_vec_clear_ptes_correct_witness:
  "\<exists>tracker t' qs p ops. uvm_page_table_range_vec_clear_ptes sample_params (\<lambda>_. sample_begin) 2 (\<lambda>_. bg_snapshot sample_begin) 1
      sample_held_vec UVM_MEMBAR_NONE sample_held_tree = tracker_done (\<lambda>_. bg_snapshot sample_begin) 1 NV_OK tracker t' \<and>
    t' = sample_held_tree\<lparr>pt_pushes := pt_pushes sample_held_tree @ qs @ [p]\<rparr> \<and>
    cp_ops p = ops @ vec_invalidates sample_params sample_held_tree sample_held_vec UVM_MEMBAR_NONE \<and>
    (\<forall>m. run_pushes (qs @ [p]) m = zeroed (\<Union>r \<in> set [sample_range]. entry_bytes sample_held_tree 8 r) m)"
proof (rule range_vec_clear_ptes_correct)
  show "first_fits sample_params (\<lambda>_. sample_begin) sample_held_tree 8 [sample_range]"
    by (simp add: first_fits_def has_space_def uvm_push_has_space_def uvm_push_get_size_def sample_begin_def zero_push_def
        sample_params_def uvm_pte_batch_clear_ptes_def uvm_pte_batch_flush_ptes_def uvm_pte_batch_begin_def promote_membar_def
        UVM_MAX_PUSH_SIZE_def emit_ce_def set_flag_def uvm_push_set_flag_def uvm_push_get_and_reset_flag_def Let_def)
qed (simp_all add: sample_held_vec_def sample_range_def sample_begin_def sample_held_dirs uvm_mmu_pte_size_def geometry_simps)

lemma range_vec_init_correct_witness:
  "\<exists>status rv' t1. uvm_page_table_range_vec_init UVM_APERTURE_SYS 1 5 True quiet_get quiet_put (\<lambda>_. bg_snapshot sample_begin) 0x1000 0x2000
      (2 ^ 12) sample_tree =
      map_option (\<lambda>(w, t'). (if status = NV_OK then w else status, rv', t')) (uvm_page_tree_wait (\<lambda>_. bg_snapshot sample_begin) 1 t1) \<and>
    (if status = NV_OK then vec_holds 12 rv' [] t1 \<and> rv' = (vec_for pascal_mmu_mode_hal 0x1000 0x2000 (2 ^ 12))\<lparr>rv_ranges := rv_ranges rv'\<rparr>
     else rv' = zero_range_vec \<and> shared [] t1)"
proof (rule range_vec_init_correct)
  have hal: "pt_hal sample_tree = pascal_mmu_mode_hal" by (simp add: sample_tree_def)
  show "pt_hal sample_tree \<in> set mmu_formats" by (simp add: hal mmu_formats_def)
  show "vec_for pascal_mmu_mode_hal 0x1000 0x2000 (2 ^ 12) = vec_for (pt_hal sample_tree) 0x1000 0x2000 (2 ^ 12)" by (simp only: hal)
  show "vec_ok (pt_hal sample_tree) 12 (vec_for pascal_mmu_mode_hal 0x1000 0x2000 (2 ^ 12))"
    unfolding hal by (rule vec_ok_pascal) simp_all
  show "shared [] sample_tree" using sample_tree_inv by (auto simp: shared_def held_count_def intro: exI[of _ "[]"])
  show "countable_more [] (unat (0x2000 :: u64) div 2 ^ 12)" by (simp add: countable_more_def held_count_def)
  have "ids_of (ge_outs (quiet_get a)) = (if a = 0 then {c. \<exists>k. c = Suc k} else {})" for a
    by (auto simp: ids_of_def quiet_get_def sample_alloc_def)
  then show "fresh_calls quiet_get {c. \<exists>k. c = Suc k} 0 sample_tree"
    by (auto simp: fresh_calls_def quiet_get_def sample_alloc_def sample_tree_def split: if_splits)
  have "unat (rv_range_count (vec_for pascal_mmu_mode_hal 0x1000 0x2000 (2 ^ 12))) = Suc 0" by code_simp
  then show "undisturbed UVM_APERTURE_SYS 1 5 quiet_get (vec_for pascal_mmu_mode_hal 0x1000 0x2000 (2 ^ 12)) {c. \<exists>k. c = Suc k} []
      (unat (rv_range_count (vec_for pascal_mmu_mode_hal 0x1000 0x2000 (2 ^ 12)))) 0 sample_tree"
    by (simp add: quiet_get_def rely_refl split: option.splits)
  show "allocate_directory UVM_APERTURE_SYS 1 (ge_outs (quiet_get a) b) t (2 ^ 12) n \<noteq> None" for a b t n
    by (simp add: allocate_directory_def allocate_directory_with_location_def quiet_get_def sample_alloc_def Let_def phys_mem_allocate_def
        phys_mem_allocate_vidmem_def phys_mem_allocate_sysmem_def uvm_tracker_is_empty_def uvm_tracker_init_def)
qed (simp_all add: quiet_puts quiet_get_def quiet_put_def sample_begin_def MAX_OPERATION_DEPTH_def)

end
