(* ===== verification/Gpu_Peers.thy ===== *)
theory Gpu_Peers
  imports Page_Vec_Proofs
begin

text \<open>
  Identity mappings of GPU memory (end of \<^verbatim>\<open>uvm8_mmu.c\<close>) and peer access between GPUs (\<^verbatim>\<open>uvm8_gpu.c\<close>): the
  table of pairs, enabling and disabling peer access with the mappings each GPU gets of the other's memory.
  A GPU is its identifier. RM's answers are arguments, and so is what the page tables meet.
\<close>

section \<open>State\<close>

type_synonym uvm_gpu_id_t = u32

record uvm_gpu_identity_mapping =
  im_base :: u64
  im_range_vec :: "uvm_page_table_range_vec option"

text \<open>The fields of \<^verbatim>\<open>struct uvm_gpu_struct\<close> that identity mappings use.\<close>

record uvm_gpu =
  gpu_address_space_tree :: uvm_page_tree
  gpu_tlb_params :: push_params
  vidmem_max_physical_address :: u64
  gpu_rm_va_base :: u64
  gpu_rm_va_size :: u64
  big_page_internal_size :: u32
  big_page_swizzling :: bool
  big_page_identity_mapping :: uvm_gpu_identity_mapping
  peer_identity_mappings_supported :: bool
  peer_mappings :: "uvm_gpu_identity_mapping list"
  retained_count :: int

datatype uvm_gpu_link_type = UVM_GPU_LINK_INVALID | UVM_GPU_LINK_PCIE | UVM_GPU_LINK_NVLINK_1

record uvm_gpu_peer =
  peer_id_0 :: u8
  peer_id_1 :: u8
  peer_atomic_supported :: bool
  peer_link_type :: uvm_gpu_link_type
  registered_ref_count :: u64
  p2p_handle :: u32

definition zero_peer :: uvm_gpu_peer where
  "zero_peer = \<lparr>peer_id_0 = 0, peer_id_1 = 0, peer_atomic_supported = False, peer_link_type = UVM_GPU_LINK_INVALID,
     registered_ref_count = 0, p2p_handle = 0\<rparr>"

text \<open>
  The GPUs, the table of pairs, the P2P objects given back to RM and the GPUs nobody retains any more, whose
  state \<^verbatim>\<open>remove_gpu\<close> then tears down.
\<close>

record gpus_state =
  gs_gpus :: "uvm_gpu_id_t \<Rightarrow> uvm_gpu"
  gs_peers :: "nat \<Rightarrow> uvm_gpu_peer"
  gs_p2p_destroyed :: "u32 list"
  gs_removed :: "uvm_gpu_id_t list"

text \<open>What the page table operations of one mapping meet; see the theory of range vectors.\<close>

record mapping_env =
  me_location :: uvm_aperture
  me_wait_fuel :: nat
  me_fuel :: nat
  me_push_fuel :: nat
  me_mem_vec :: bool
  me_mem :: bool
  me_ges :: "nat \<Rightarrow> get_env"
  me_pes :: "nat \<Rightarrow> put_env"
  me_env :: "nat \<Rightarrow> snapshot"
  me_bgs :: "nat \<Rightarrow> begin_outcome"

definition upd_gpu :: "uvm_gpu_id_t \<Rightarrow> (uvm_gpu \<Rightarrow> uvm_gpu) \<Rightarrow> gpus_state \<Rightarrow> gpus_state" where
  "upd_gpu g f s = s\<lparr>gs_gpus := (gs_gpus s)(g := f (gs_gpus s g))\<rparr>"

definition upd_peer :: "nat \<Rightarrow> (uvm_gpu_peer \<Rightarrow> uvm_gpu_peer) \<Rightarrow> gpus_state \<Rightarrow> gpus_state" where
  "upd_peer i f s = s\<lparr>gs_peers := (gs_peers s)(i := f (gs_peers s i))\<rparr>"

section \<open>Page sizes\<close>

definition uvm_mmu_biggest_page_size_up_to :: "uvm_page_tree \<Rightarrow> u32 \<Rightarrow> u32" where
  "uvm_mmu_biggest_page_size_up_to t max_page_size =
     (let page_sizes = hal_page_sizes (pt_hal t) AND (max_page_size OR (max_page_size - 1))
      in push_bit (fls page_sizes) 1)"

definition uvm_mmu_biggest_page_size :: "uvm_page_tree \<Rightarrow> u32" where
  "uvm_mmu_biggest_page_size t = push_bit (fls (hal_page_sizes (pt_hal t))) 1"

section \<open>The table of pairs\<close>

definition UVM8_MAX_GPUS :: u32 where
  "UVM8_MAX_GPUS = 32"

definition SUM_FROM_0_TO_N :: "u32 \<Rightarrow> u32" where
  "SUM_FROM_0_TO_N n = n * (n + 1) div 2"

definition UVM8_MAX_UNIQUE_GPU_PAIRS :: u32 where
  "UVM8_MAX_UNIQUE_GPU_PAIRS = SUM_FROM_0_TO_N (UVM8_MAX_GPUS - 1)"

definition uvm_gpu_peer_table_index :: "uvm_gpu_id_t \<Rightarrow> uvm_gpu_id_t \<Rightarrow> u32" where
  "uvm_gpu_peer_table_index gpu_id_1 gpu_id_2 =
     (let square_index = (min gpu_id_1 gpu_id_2 - 1) * UVM8_MAX_GPUS + (max gpu_id_1 gpu_id_2 - 1);
          triangular_index = square_index - SUM_FROM_0_TO_N (min gpu_id_1 gpu_id_2)
      in triangular_index)"

definition peer_index :: "uvm_gpu_id_t \<Rightarrow> uvm_gpu_id_t \<Rightarrow> nat" where
  "peer_index gpu_id1 gpu_id2 = unat (uvm_gpu_peer_table_index gpu_id1 gpu_id2)"

definition uvm_gpu_peer_caps :: "gpus_state \<Rightarrow> uvm_gpu_id_t \<Rightarrow> uvm_gpu_id_t \<Rightarrow> uvm_gpu_peer" where
  "uvm_gpu_peer_caps s gpu_1 gpu_2 = gs_peers s (peer_index gpu_1 gpu_2)"

definition uvm_gpu_peer_aperture :: "gpus_state \<Rightarrow> uvm_gpu_id_t \<Rightarrow> uvm_gpu_id_t \<Rightarrow> uvm_aperture" where
  "uvm_gpu_peer_aperture s local_gpu remote_gpu =
     (let p2p_caps = uvm_gpu_peer_caps s local_gpu remote_gpu
      in UVM_APERTURE_PEER (if local_gpu < remote_gpu then peer_id_0 p2p_caps else peer_id_1 p2p_caps))"

definition peer_mapping_index :: "gpus_state \<Rightarrow> uvm_gpu_id_t \<Rightarrow> uvm_gpu_id_t \<Rightarrow> nat" where
  "peer_mapping_index s gpu peer = unat (UVM_APERTURE_PEER_ID (uvm_gpu_peer_aperture s gpu peer))"

definition uvm_gpu_peer_memory_address :: "gpus_state \<Rightarrow> uvm_gpu_id_t \<Rightarrow> uvm_gpu_id_t \<Rightarrow> uvm_gpu_phys_address \<Rightarrow> uvm_gpu_address" where
  "uvm_gpu_peer_memory_address s local_gpu peer_gpu addr =
     uvm_gpu_address_virtual (im_base (peer_mappings (gs_gpus s local_gpu) ! peer_mapping_index s local_gpu peer_gpu) + phys_address addr)"

section \<open>Identity mappings\<close>

definition identity_mapping_pte_maker :: "uvm_mmu_mode_hal \<Rightarrow> u32 \<Rightarrow> uvm_aperture \<Rightarrow> u64 \<Rightarrow> u64" where
  "identity_mapping_pte_maker hal page_size aperture offset =
     (let is_vol = (aperture \<noteq> UVM_APERTURE_VID)
      in hal_make_pte hal aperture offset UVM_PROT_READ_WRITE_ATOMIC is_vol page_size)"

definition create_identity_mapping ::
  "push_params \<Rightarrow> mapping_env \<Rightarrow> u64 \<Rightarrow> u64 \<Rightarrow> uvm_aperture \<Rightarrow> u32 \<Rightarrow> uvm_page_tree \<Rightarrow>
   (nv_status \<times> uvm_page_table_range_vec option \<times> uvm_page_tree) option" where
  "create_identity_mapping pp me base size' aperture page_size t =
     (case uvm_page_table_range_vec_create (me_location me) (me_wait_fuel me) (me_fuel me) (me_mem_vec me) (me_mem me)
             (me_ges me) (me_pes me) (me_env me) base size' page_size t of
        None \<Rightarrow> None
      | Some (status, range_vec, t) \<Rightarrow>
          (if status \<noteq> NV_OK then Some (status, range_vec, t)
           else map_option (\<lambda>(status, t). (if status \<noteq> NV_OK then status else NV_OK, range_vec, t))
                  (uvm_page_table_range_vec_write_ptes pp (me_bgs me) (me_push_fuel me) (me_env me) (me_wait_fuel me)
                     (the range_vec) UVM_MEMBAR_NONE
                     (identity_mapping_pte_maker (pt_hal t) (rv_page_size (the range_vec)) aperture) t)))"

definition create_big_page_identity_mapping :: "mapping_env \<Rightarrow> uvm_gpu \<Rightarrow> (nv_status \<times> uvm_gpu) option" where
  "create_big_page_identity_mapping me gpu =
     (let base = im_base (big_page_identity_mapping gpu);
          big_page_size = big_page_internal_size gpu;
          size' = UVM_ALIGN_UP (vidmem_max_physical_address gpu + 1) (ucast big_page_size)
      in map_option (\<lambda>(status, range_vec, t).
             (status, gpu\<lparr>gpu_address_space_tree := t, big_page_identity_mapping := \<lparr>im_base = base, im_range_vec = range_vec\<rparr>\<rparr>))
           (create_identity_mapping (gpu_tlb_params gpu) me base size' UVM_APERTURE_VID big_page_size (gpu_address_space_tree gpu)))"

definition uvm_mmu_create_big_page_identity_mappings :: "mapping_env \<Rightarrow> uvm_gpu \<Rightarrow> (nv_status \<times> uvm_gpu) option" where
  "uvm_mmu_create_big_page_identity_mappings me gpu =
     (if big_page_swizzling gpu then create_big_page_identity_mapping me gpu else Some (NV_OK, gpu))"

definition uvm_mmu_create_peer_identity_mappings ::
  "mapping_env \<Rightarrow> uvm_gpu_id_t \<Rightarrow> uvm_gpu_id_t \<Rightarrow> gpus_state \<Rightarrow> (nv_status \<times> gpus_state) option" where
  "uvm_mmu_create_peer_identity_mappings me gpu peer s =
     (let page_size = uvm_mmu_biggest_page_size (gpu_address_space_tree (gs_gpus s gpu));
          size' = UVM_ALIGN_UP (vidmem_max_physical_address (gs_gpus s peer) + 1) (ucast page_size);
          aperture = uvm_gpu_peer_aperture s gpu peer;
          peer_id = peer_mapping_index s gpu peer;
          base = im_base (peer_mappings (gs_gpus s gpu) ! peer_id)
      in if \<not> peer_identity_mappings_supported (gs_gpus s gpu) then Some (NV_OK, s)
         else map_option (\<lambda>(status, range_vec, t).
                (status, upd_gpu gpu (\<lambda>g. g\<lparr>gpu_address_space_tree := t,
                   peer_mappings := (peer_mappings g)[peer_id := \<lparr>im_base = base, im_range_vec = range_vec\<rparr>]\<rparr>) s))
              (create_identity_mapping (gpu_tlb_params (gs_gpus s gpu)) me base size' aperture page_size
                 (gpu_address_space_tree (gs_gpus s gpu))))"

text \<open>Clearing and destroying the vector of a mapping, as both functions that destroy mappings do it.\<close>

definition clear_and_destroy ::
  "push_params \<Rightarrow> mapping_env \<Rightarrow> uvm_membar \<Rightarrow> uvm_page_table_range_vec option \<Rightarrow> uvm_page_tree \<Rightarrow> uvm_page_tree option" where
  "clear_and_destroy pp me membar range_vec t =
     (case (case range_vec of
              None \<Rightarrow> Some t
            | Some rv \<Rightarrow> map_option snd
                (uvm_page_table_range_vec_clear_ptes pp (me_bgs me) (me_push_fuel me) (me_env me) (me_wait_fuel me) rv membar t)) of
        None \<Rightarrow> None
      | Some t \<Rightarrow> uvm_page_table_range_vec_destroy (me_pes me) (me_env me) (me_wait_fuel me) range_vec t)"

definition uvm_mmu_destroy_big_page_identity_mappings :: "mapping_env \<Rightarrow> uvm_gpu \<Rightarrow> uvm_gpu option" where
  "uvm_mmu_destroy_big_page_identity_mappings me gpu =
     map_option (\<lambda>t. gpu\<lparr>gpu_address_space_tree := t,
         big_page_identity_mapping := (big_page_identity_mapping gpu)\<lparr>im_range_vec := None\<rparr>\<rparr>)
       (clear_and_destroy (gpu_tlb_params gpu) me UVM_MEMBAR_GPU (im_range_vec (big_page_identity_mapping gpu))
          (gpu_address_space_tree gpu))"

definition uvm_mmu_destroy_peer_identity_mappings ::
  "mapping_env \<Rightarrow> uvm_gpu_id_t \<Rightarrow> uvm_gpu_id_t \<Rightarrow> gpus_state \<Rightarrow> gpus_state option" where
  "uvm_mmu_destroy_peer_identity_mappings me gpu peer s =
     (if peer_identity_mappings_supported (gs_gpus s gpu) then
        (let i = peer_mapping_index s gpu peer;
             mapping = peer_mappings (gs_gpus s gpu) ! i
         in map_option (\<lambda>t. upd_gpu gpu (\<lambda>g. g\<lparr>gpu_address_space_tree := t,
                 peer_mappings := (peer_mappings g)[i := mapping\<lparr>im_range_vec := None\<rparr>]\<rparr>) s)
              (clear_and_destroy (gpu_tlb_params (gs_gpus s gpu)) me UVM_MEMBAR_SYS (im_range_vec mapping)
                 (gpu_address_space_tree (gs_gpus s gpu))))
      else Some s)"

definition uvm_mmu_gpu_address_for_big_page_physical :: "uvm_gpu_address \<Rightarrow> uvm_gpu \<Rightarrow> uvm_gpu_address" where
  "uvm_mmu_gpu_address_for_big_page_physical physical gpu =
     (if big_page_swizzling gpu then uvm_gpu_address_virtual (im_base (big_page_identity_mapping gpu) + gpu_address physical)
      else physical)"

definition UVM_APERTURE_PEER_MAX :: nat where
  "UVM_APERTURE_PEER_MAX = 8"

definition UVM_PEER_IDENTITY_VA_SIZE :: u64 where
  "UVM_PEER_IDENTITY_VA_SIZE = 64 * 1024 * 1024 * 1024"

fun init_addresses_loop :: "nat \<Rightarrow> nat \<Rightarrow> uvm_gpu \<Rightarrow> uvm_gpu" where
  "init_addresses_loop 0 i gpu = gpu"
| "init_addresses_loop (Suc n) i gpu =
     init_addresses_loop n (Suc i)
       (gpu\<lparr>peer_mappings := (peer_mappings gpu)[i := (peer_mappings gpu ! i)
          \<lparr>im_base := gpu_rm_va_base gpu + gpu_rm_va_size gpu + UVM_PEER_IDENTITY_VA_SIZE * of_nat i\<rparr>]\<rparr>)"

definition uvm_mmu_init_gpu_peer_addresses :: "uvm_gpu \<Rightarrow> uvm_gpu" where
  "uvm_mmu_init_gpu_peer_addresses gpu =
     (if peer_identity_mappings_supported gpu then init_addresses_loop UVM_APERTURE_PEER_MAX 0 gpu else gpu)"

section \<open>Peer access\<close>

text \<open>What RM answers: \<^verbatim>\<open>nvUvmInterfaceP2pObjectCreate\<close> and \<^verbatim>\<open>nvUvmInterfaceGetP2PCaps\<close>.\<close>

record p2p_outcome =
  po_create :: "nv_status \<times> u32"
  po_caps_status :: nv_status
  po_prop_supported :: bool
  po_nvlink_supported :: bool
  po_atomic_supported :: bool
  po_peer_ids :: "u32 \<times> u32"

definition disable_peer_access ::
  "(nat \<Rightarrow> mapping_env) \<Rightarrow> uvm_gpu_id_t \<Rightarrow> uvm_gpu_id_t \<Rightarrow> gpus_state \<Rightarrow> gpus_state option" where
  "disable_peer_access mes gpu_1 gpu_2 s =
     (let handle = p2p_handle (uvm_gpu_peer_caps s gpu_1 gpu_2)
      in case uvm_mmu_destroy_peer_identity_mappings (mes 0) gpu_1 gpu_2 s of
           None \<Rightarrow> None
         | Some s \<Rightarrow>
             map_option (\<lambda>s. upd_peer (peer_index gpu_1 gpu_2) (\<lambda>_. zero_peer)
                  (s\<lparr>gs_p2p_destroyed := gs_p2p_destroyed s @ [handle]\<rparr>))
               (uvm_mmu_destroy_peer_identity_mappings (mes 1) gpu_2 gpu_1 s))"

definition enable_peer_access ::
  "p2p_outcome \<Rightarrow> (nat \<Rightarrow> mapping_env) \<Rightarrow> uvm_gpu_id_t \<Rightarrow> uvm_gpu_id_t \<Rightarrow> gpus_state \<Rightarrow> (nv_status \<times> gpus_state) option" where
  "enable_peer_access po mes gpu_1 gpu_2 s =
     (let (status, handle) = po_create po;
          i = peer_index gpu_1 gpu_2;
          cleanup = (\<lambda>status s. map_option (\<lambda>s. (status, s)) (disable_peer_access (\<lambda>c. mes (2 + c)) gpu_1 gpu_2 s))
      in if status \<noteq> NV_OK then Some (status, s)
         else
           let s = upd_peer i (\<lambda>p. p\<lparr>p2p_handle := handle\<rparr>) s
           in if po_caps_status po \<noteq> NV_OK then cleanup (po_caps_status po) s
              else if \<not> po_prop_supported po \<and> \<not> po_nvlink_supported po then cleanup NV_ERR_NOT_SUPPORTED s
              else
                let s = upd_peer i (\<lambda>p. p\<lparr>peer_link_type := if po_prop_supported po then UVM_GPU_LINK_PCIE else UVM_GPU_LINK_NVLINK_1,
                           peer_atomic_supported := po_atomic_supported po,
                           peer_id_0 := ucast (fst (po_peer_ids po)), peer_id_1 := ucast (snd (po_peer_ids po))\<rparr>) s
                in case uvm_mmu_create_peer_identity_mappings (mes 0) gpu_1 gpu_2 s of
                     None \<Rightarrow> None
                   | Some (status, s) \<Rightarrow>
                       if status \<noteq> NV_OK then cleanup status s
                       else case uvm_mmu_create_peer_identity_mappings (mes 1) gpu_2 gpu_1 s of
                              None \<Rightarrow> None
                            | Some (status, s) \<Rightarrow> if status \<noteq> NV_OK then cleanup status s else Some (NV_OK, s))"

definition uvm_gpu_retain :: "uvm_gpu_id_t \<Rightarrow> gpus_state \<Rightarrow> gpus_state" where
  "uvm_gpu_retain gpu = upd_gpu gpu (\<lambda>g. g\<lparr>retained_count := retained_count g + 1\<rparr>)"

definition uvm_gpu_retain_peer_access ::
  "p2p_outcome \<Rightarrow> (nat \<Rightarrow> mapping_env) \<Rightarrow> uvm_gpu_id_t \<Rightarrow> uvm_gpu_id_t \<Rightarrow> gpus_state \<Rightarrow> (nv_status \<times> gpus_state) option" where
  "uvm_gpu_retain_peer_access po mes gpu_1 gpu_2 s =
     (case (if registered_ref_count (uvm_gpu_peer_caps s gpu_1 gpu_2) = 0 then enable_peer_access po mes gpu_1 gpu_2 s
            else Some (NV_OK, s)) of
        None \<Rightarrow> None
      | Some (status, s) \<Rightarrow>
          if status \<noteq> NV_OK then Some (status, s)
          else Some (status, upd_peer (peer_index gpu_1 gpu_2) (\<lambda>p. p\<lparr>registered_ref_count := registered_ref_count p + 1\<rparr>)
                 (uvm_gpu_retain gpu_2 (uvm_gpu_retain gpu_1 s))))"

definition uvm_gpu_release_locked :: "uvm_gpu_id_t \<Rightarrow> gpus_state \<Rightarrow> gpus_state" where
  "uvm_gpu_release_locked gpu s =
     (let s = upd_gpu gpu (\<lambda>g. g\<lparr>retained_count := retained_count g - 1\<rparr>) s
      in if retained_count (gs_gpus s gpu) = 0 then s\<lparr>gs_removed := gs_removed s @ [gpu]\<rparr> else s)"

definition uvm_gpu_release_peer_access ::
  "(nat \<Rightarrow> mapping_env) \<Rightarrow> uvm_gpu_id_t \<Rightarrow> uvm_gpu_id_t \<Rightarrow> gpus_state \<Rightarrow> gpus_state option" where
  "uvm_gpu_release_peer_access mes gpu_1 gpu_2 s =
     (let i = peer_index gpu_1 gpu_2;
          s = upd_peer i (\<lambda>p. p\<lparr>registered_ref_count := registered_ref_count p - 1\<rparr>) s
      in map_option (\<lambda>s. uvm_gpu_release_locked gpu_2 (uvm_gpu_release_locked gpu_1 s))
           (if registered_ref_count (gs_peers s i) = 0 then disable_peer_access mes gpu_1 gpu_2 s else Some s))"

section \<open>Every pair of GPUs has an entry of its own\<close>

fun triangle :: "nat \<Rightarrow> nat" where
  "triangle 0 = 0"
| "triangle (Suc m) = triangle m + Suc m"

lemma triangle_eq: "m * (m + 1) div 2 = triangle m"
proof -
  have "m * (m + 1) = 2 * triangle m" by (induction m) simp_all
  then show ?thesis by simp
qed

lemma triangle_le: "m \<le> 32 \<Longrightarrow> triangle m \<le> 17 * m"
proof -
  assume "m \<le> 32"
  moreover have "2 * triangle m = m * (m + 1)" by (induction m) simp_all
  ultimately have "2 * triangle m \<le> m * 33" by simp
  then show ?thesis by simp
qed

text \<open>The last index of the row of GPU \<open>m\<close>.\<close>

definition row_end :: "nat \<Rightarrow> nat" where
  "row_end m = 32 * m - 1 - triangle m"

lemma row_end_mono: "1 \<le> m \<Longrightarrow> m \<le> n \<Longrightarrow> n \<le> 31 \<Longrightarrow> row_end m \<le> row_end n"
proof (induction n)
  case (Suc n)
  show ?case
  proof (cases "m = Suc n")
    case False
    then have "row_end m \<le> row_end n" using Suc by simp
    also have "row_end n \<le> row_end (Suc n)"
      using triangle_le[of n] Suc.prems by (simp add: row_end_def)
    finally show ?thesis .
  qed simp
qed simp

lemma peer_index_row:
  assumes "0 < a" "a < b" "b \<le> 32"
  shows "peer_index a b \<le> row_end (unat a)" "row_end (unat a - 1) < peer_index a b \<or> a = 1"
    "peer_index a b = unat b - 1 + 32 * (unat a - 1) - triangle (unat a)" "peer_index b a = peer_index a b"
    "triangle (unat a) \<le> 32 * (unat a - 1) + unat a"
proof -
  define m n where "m = unat a" and "n = unat b"
  have mn: "1 \<le> m" "m < n" "n \<le> 32"
    using assms by (simp_all add: m_def n_def word_less_nat_alt word_le_nat_alt Suc_le_eq)
  obtain k where k: "m = Suc k" using mn(1) by (cases m) simp_all
  have tri: "triangle m \<le> 32 * (m - 1) + m" using triangle_le[of k] mn by (simp add: k)
  have "m * (m + 1) \<le> 32 * 33" using mn by (intro mult_le_mono) simp_all
  then have "unat (a * (a + 1)) = m * (m + 1)"
    using mn by (simp add: unat_word_ariths m_def)
  then have T: "unat (SUM_FROM_0_TO_N a) = triangle m"
    unfolding SUM_FROM_0_TO_N_def unat_div triangle_eq[symmetric] by simp
  have a1: "unat (a - 1) = m - 1" "unat (b - 1) = n - 1"
    using mn by (simp_all add: m_def n_def unat_minus_one unat_eq_zero[symmetric])
  have sq: "unat ((a - 1) * UVM8_MAX_GPUS + (b - 1)) = (m - 1) * 32 + (n - 1)"
    unfolding UVM8_MAX_GPUS_def unat_word_ariths(1)[of "(a - 1) * 32"] unat_word_ariths(2) a1 using mn by simp
  have "a \<le> b" using assms(2) by (rule less_imp_le)
  then have mm: "min a b = a" "max a b = b" "min b a = a" "max b a = b" by (simp_all add: min_absorb1 min_absorb2 max_absorb1 max_absorb2)
  have le: "SUM_FROM_0_TO_N a \<le> (a - 1) * UVM8_MAX_GPUS + (b - 1)"
    unfolding word_le_nat_alt sq T using tri mn by simp
  have ix: "peer_index a b = (m - 1) * 32 + (n - 1) - triangle m"
    unfolding peer_index_def uvm_gpu_peer_table_index_def Let_def mm unat_sub[OF le] sq T ..
  show "peer_index a b \<le> row_end (unat a)" using mn unfolding ix row_end_def m_def[symmetric] by simp
  show "peer_index b a = peer_index a b" by (simp add: peer_index_def uvm_gpu_peer_table_index_def mm)
  show "peer_index a b = unat b - 1 + 32 * (unat a - 1) - triangle (unat a)"
    unfolding ix m_def[symmetric] n_def[symmetric] by simp
  show "triangle (unat a) \<le> 32 * (unat a - 1) + unat a" using tri by (simp add: m_def)
  show "row_end (unat a - 1) < peer_index a b \<or> a = 1"
  proof (cases "k = 0")
    case True
    then show ?thesis using k by (simp add: m_def word_unat_eq_iff)
  next
    case False
    moreover from this have "1 \<le> triangle k" by (cases k) simp_all
    ultimately have "32 * k - 1 - triangle k < (m - 1) * 32 + (n - 1) - triangle m"
      using mn triangle_le[of k] by (simp add: k)
    then have "row_end (m - 1) < peer_index a b" unfolding ix row_end_def by (simp only: k diff_Suc_1)
    then show ?thesis by (simp add: m_def)
  qed
qed

lemma peer_index_ordered_inj:
  assumes "0 < a" "a < b" "b \<le> 32" "0 < c" "c < d" "d \<le> 32" "peer_index a b = peer_index c d"
  shows "a = c \<and> b = d"
proof -
  have le: "\<not> x < z" if h: "0 < x" "x < y" "y \<le> 32" "0 < z" "z < w" "w \<le> 32" "peer_index x y = peer_index z w" for x y z w :: u32
  proof
    assume xz: "x < z"
    have n: "1 \<le> unat x" "unat x \<le> unat z - 1" "unat z - 1 \<le> 31"
      using h xz by (simp_all add: word_less_nat_alt word_le_nat_alt)
    have "z \<noteq> 1" using h(1) xz by (auto simp: word_less_nat_alt)
    then have "peer_index x y < peer_index z w"
      using peer_index_row(1)[OF h(1-3)] peer_index_row(2)[OF h(4-6)] row_end_mono[OF n] by linarith
    then show False using h(7) by simp
  qed
  have ac: "a = c" using le[OF assms] le[OF assms(4-6) assms(1-3) assms(7)[symmetric]] by simp
  have "unat b = unat d"
    using assms peer_index_row(3,5)[OF assms(1-3)] peer_index_row(3)[OF assms(4-6)] unfolding ac
    by (simp add: word_less_nat_alt)
  then show ?thesis using ac by (simp add: word_unat_eq_iff)
qed

text \<open>
  The table of pairs has an entry of its own for every two GPUs. For identifiers from 1 to 32 the index
  computed from two different GPUs is within the table, does not depend on their order, and differs from that
  of every other pair.
\<close>

theorem peer_table_index_unique:
  assumes "0 < a" "a \<le> 32" "0 < b" "b \<le> 32" "a \<noteq> b" "0 < c" "c \<le> 32" "0 < d" "d \<le> 32" "c \<noteq> d"
  shows "uvm_gpu_peer_table_index a b < UVM8_MAX_UNIQUE_GPU_PAIRS \<and>
    (uvm_gpu_peer_table_index a b = uvm_gpu_peer_table_index c d \<longleftrightarrow> {a, b} = {c, d})"
proof -
  have max': "UVM8_MAX_UNIQUE_GPU_PAIRS = 496" by (simp add: UVM8_MAX_UNIQUE_GPU_PAIRS_def SUM_FROM_0_TO_N_def UVM8_MAX_GPUS_def)
  have ordered: "\<exists>x y. 0 < x \<and> x < y \<and> y \<le> 32 \<and> {p, q} = {x, y} \<and> peer_index p q = peer_index x y"
    if "0 < p" "p \<le> 32" "0 < q" "q \<le> 32" "p \<noteq> q" for p q :: u32
  proof (cases "p < q")
    case True
    then show ?thesis using that by blast
  next
    case False
    then have "q < p" using that(5) by simp
    then show ?thesis using that peer_index_row(4)[of q p] by (intro exI[of _ q] exI[of _ p]) (simp add: insert_commute)
  qed
  obtain x y where xy: "0 < x" "x < y" "y \<le> 32" "{a, b} = {x, y}" "peer_index a b = peer_index x y" using ordered assms(1-5) by blast
  obtain z w where zw: "0 < z" "z < w" "w \<le> 32" "{c, d} = {z, w}" "peer_index c d = peer_index z w" using ordered assms(6-10) by blast
  have "1 \<le> unat x" "unat x \<le> 31" using xy by (simp_all add: word_less_nat_alt word_le_nat_alt)
  then have "peer_index x y \<le> row_end 31" using peer_index_row(1)[OF xy(1-3)] row_end_mono[of "unat x" 31] by simp
  then have "peer_index a b < 496" using xy(5) triangle_eq[of 31] by (simp add: row_end_def)
  moreover have "peer_index a b = peer_index c d \<longleftrightarrow> {a, b} = {c, d}"
  proof -
    have "{x, y} = {z, w} \<longleftrightarrow> x = z \<and> y = w"
      unfolding doubleton_eq_iff using less_asym[OF xy(2)] zw(2) by metis
    moreover have "peer_index x y = peer_index z w \<longleftrightarrow> x = z \<and> y = w"
      using peer_index_ordered_inj[OF xy(1-3) zw(1-3)] by metis
    ultimately show ?thesis unfolding xy(4,5) zw(4,5) by simp
  qed
  ultimately show ?thesis by (simp add: max' word_less_nat_alt peer_index_def word_unat_eq_iff)
qed

lemma peer_table_index_unique_witness:
  "uvm_gpu_peer_table_index 31 32 < UVM8_MAX_UNIQUE_GPU_PAIRS \<and> uvm_gpu_peer_table_index 31 32 \<noteq> uvm_gpu_peer_table_index 1 2"
  using peer_table_index_unique[of 31 32 1 2] by (simp add: doubleton_eq_iff)

section \<open>Identity mappings map the memory of a GPU one to one\<close>

text \<open>The address of entry \<open>j\<close> of range \<open>i\<close>, and the virtual address it maps.\<close>

definition page_va :: "uvm_mmu_mode_hal \<Rightarrow> uvm_page_table_range_vec \<Rightarrow> nat \<Rightarrow> nat \<Rightarrow> u64" where
  "page_va hal rv i j = range_vec_calc_range_start hal rv i + of_nat j * ucast (rv_page_size rv)"

lemma vec_writes_parts:
  assumes hal: "pt_hal t \<in> set mmu_formats" and ok: "vec_ok (pt_hal t) k rv" and ph: "parts_held k rv rs t"
    and n: "length rs = unat (range_vec_calc_range_count (pt_hal t) rv)"
  shows "d \<le> length rs \<Longrightarrow>
    vec_writes t f (rv_page_size rv) (range_vec_calc_range_start (pt_hal t) rv (length rs - d) - rv_start rv) (drop (length rs - d) rs) =
      concat (map (\<lambda>i. map (\<lambda>j. (uvm_page_table_range_entry_address t (rs ! i) (of_nat j), f (page_va (pt_hal t) rv i j - rv_start rv)))
        [0..<unat (rg_entry_count (rs ! i))]) [length rs - d..<length rs]) \<or> d = 0"
proof (induction d)
  case (Suc d)
  let ?i = "length rs - Suc d" and ?hal = "pt_hal t"
  have i: "?i < length rs" "Suc ?i = length rs - d" using Suc.prems by simp_all
  note parts = range_vec_parts_ok[OF hal ok, folded n, simplified]
  have k: "rv_page_size rv = 2 ^ k" "k < 32"
    using ok by (auto simp: vec_ok_def page_exp_def dest: bit_imp_le_length)
  have cnt: "unat (rg_entry_count (rs ! ?i)) = entries_of ?hal k (range_vec_calc_range_start ?hal rv ?i) (range_vec_calc_range_size ?hal rv ?i)"
    using ph i(1) by (simp add: parts_held_def covers_def)
  have sz: "(of_nat (unat (rg_entry_count (rs ! ?i))) :: u64) * ucast (rv_page_size rv) = range_vec_calc_range_size ?hal rv ?i"
  proof -
    have "(of_nat (unat (rg_entry_count (rs ! ?i)) * 2 ^ k) :: u64) = range_vec_calc_range_size ?hal rv ?i"
      unfolding cnt using parts i(1) by simp
    moreover have "ucast (2 ^ k :: u32) = (2 ^ k :: u64)" by (rule bit_word_eqI) (use k(2) in \<open>auto simp: bit_simps\<close>)
    ultimately show ?thesis by (simp add: k(1))
  qed
  have hd': "drop ?i rs = rs ! ?i # drop (length rs - d) rs" using Cons_nth_drop_Suc[OF i(1)] by (simp only: i(2))
  have upt: "[?i..<length rs] = ?i # [length rs - d..<length rs]" using upt_conv_Cons[OF i(1)] by (simp only: i(2))
  have first: "f (range_vec_calc_range_start ?hal rv ?i - rv_start rv + of_nat j * ucast (rv_page_size rv)) =
      f (page_va ?hal rv ?i j - rv_start rv)" for j by (simp add: page_va_def algebra_simps)
  show ?case
  proof (cases "d = 0")
    case True
    then show ?thesis using hd' upt first by simp
  next
    case False
    have "range_vec_calc_range_start ?hal rv (length rs - d) = range_vec_calc_range_end ?hal rv ?i"
      using parts i False Suc.prems by (metis diff_less length_greater_0_conv list.size(3) neq0_conv not_less_eq_eq zero_le)
    then have off: "range_vec_calc_range_start ?hal rv ?i - rv_start rv + range_vec_calc_range_size ?hal rv ?i =
        range_vec_calc_range_start ?hal rv (length rs - d) - rv_start rv"
      by (simp add: range_vec_calc_range_size_def)
    show ?thesis using Suc False unfolding hd' upt vec_writes.simps sz first off by simp
  qed
qed simp


section \<open>Peer access that cannot be enabled\<close>

lemma destroy_peer_clears:
  assumes "uvm_mmu_destroy_peer_identity_mappings me gpu peer s = Some s'" "peer_identity_mappings_supported (gs_gpus s gpu)"
    and "peer_mapping_index s gpu peer < length (peer_mappings (gs_gpus s gpu))"
  shows "im_range_vec (peer_mappings (gs_gpus s' gpu) ! peer_mapping_index s gpu peer) = None"
  using assms by (auto simp: uvm_mmu_destroy_peer_identity_mappings_def upd_gpu_def Let_def)

lemma destroy_peer_keeps:
  assumes "uvm_mmu_destroy_peer_identity_mappings me gpu peer s = Some s'"
  shows "gs_peers s' = gs_peers s" "g \<noteq> gpu \<Longrightarrow> gs_gpus s' g = gs_gpus s g"
  using assms by (auto simp: uvm_mmu_destroy_peer_identity_mappings_def upd_gpu_def Let_def split: if_splits)

lemma disable_peer_parts:
  assumes "disable_peer_access mes gpu_1 gpu_2 s = Some s'"
  obtains s1 s2 where "uvm_mmu_destroy_peer_identity_mappings (mes 0) gpu_1 gpu_2 s = Some s1"
    "uvm_mmu_destroy_peer_identity_mappings (mes 1) gpu_2 gpu_1 s1 = Some s2"
    "gs_gpus s' = gs_gpus s2" "gs_peers s' = (gs_peers s2)(peer_index gpu_1 gpu_2 := zero_peer)"
  using assms by (auto simp: disable_peer_access_def Let_def upd_peer_def split: option.splits)


definition empty_vec :: uvm_page_table_range_vec where
  "empty_vec = \<lparr>rv_start = 0, rv_size = 0, rv_page_size = 2 ^ 12, rv_ranges = Some [], rv_range_count = 0\<rparr>"

definition sample_me :: mapping_env where
  "sample_me = \<lparr>me_location = UVM_APERTURE_SYS, me_wait_fuel = 1, me_fuel = 5, me_push_fuel = 1, me_mem_vec = True, me_mem = True,
     me_ges = quiet_get, me_pes = quiet_put, me_env = (\<lambda>_. bg_snapshot sample_begin), me_bgs = (\<lambda>_. sample_begin)\<rparr>"

definition sample_gpu :: uvm_gpu where
  "sample_gpu = \<lparr>gpu_address_space_tree = sample_tree, gpu_tlb_params = sample_params, vidmem_max_physical_address = 0x3fffffff,
     gpu_rm_va_base = 0, gpu_rm_va_size = 2 ^ 40, big_page_internal_size = 2 ^ 16, big_page_swizzling = False,
     big_page_identity_mapping = \<lparr>im_base = 0, im_range_vec = None\<rparr>, peer_identity_mappings_supported = True,
     peer_mappings = [\<lparr>im_base = 2 ^ 40, im_range_vec = Some empty_vec\<rparr>], retained_count = 1\<rparr>"

text \<open>GPUs 1 and 2 have peer access with peer number 0; GPU 3 cannot get it.\<close>

definition sample_gpus :: gpus_state where
  "sample_gpus = \<lparr>gs_gpus = (\<lambda>g. if g = 1 then sample_gpu else sample_gpu\<lparr>peer_mappings := [\<lparr>im_base = 2 ^ 40, im_range_vec = None\<rparr>]\<rparr>),
     gs_peers = (\<lambda>i. if i = 0 then zero_peer\<lparr>registered_ref_count := 1, p2p_handle := 7\<rparr> else zero_peer),
     gs_p2p_destroyed = [], gs_removed = []\<rparr>"

definition not_connected :: p2p_outcome where
  "not_connected = \<lparr>po_create = (NV_OK, 8), po_caps_status = NV_OK, po_prop_supported = False, po_nvlink_supported = False,
     po_atomic_supported = False, po_peer_ids = (0, 0)\<rparr>"

lemma empty_tracker_waits: "uvm_tracker_wait env (Suc n) uvm_tracker_init = Some (NV_OK, 0, uvm_tracker_init)"
  by (simp add: uvm_tracker_wait_def uvm_tracker_is_completed_def uvm_tracker_is_empty_def uvm_tracker_remove_completed_def
      uvm_tracker_init_def Let_def remove_loop.simps[of _ 0 0])

lemma empty_vec_destroyed:
  assumes "pt_tracker t = uvm_tracker_init"
  shows "clear_and_destroy pp sample_me membar (Some empty_vec) t = Some t"
  using assms by (simp add: clear_and_destroy_def uvm_page_table_range_vec_clear_ptes_def empty_vec_def sample_me_def tracker_done_def
      uvm_tracker_wait_deinit_def empty_tracker_waits[of _ 0, simplified] uvm_page_table_range_vec_destroy_def
      uvm_page_table_range_vec_deinit_def uvm_page_tree_wait_def)



end
