(* ===== verification/Pmm_Chunk.thy ===== *)
theory Pmm_Chunk
  imports Tlb_Batch Tracker
begin

text \<open>
  Chunks of the GPU physical memory manager (\<^verbatim>\<open>uvm8_pmm_gpu.h\<close>): masks of chunk sizes and the loops over
  them, the packed flags of a chunk and their fields.
\<close>

section \<open>Chunk sizes\<close>

type_synonym uvm_chunk_size_t = u32

definition UVM_CHUNK_SIZE_MAX :: uvm_chunk_size_t where
  "UVM_CHUNK_SIZE_MAX = 2 * 1024 * 1024"

definition UVM_CHUNK_SIZE_INVALID :: uvm_chunk_size_t where
  "UVM_CHUNK_SIZE_INVALID = UVM_CHUNK_SIZE_MAX * 2"

definition UVM_MAX_CHUNK_SIZES :: nat where
  "UVM_MAX_CHUNK_SIZES = 6"

definition uvm_chunk_find_first_size :: "u32 \<Rightarrow> uvm_chunk_size_t" where
  "uvm_chunk_find_first_size chunk_sizes = push_bit (ffs chunk_sizes) 1"

definition uvm_chunk_find_last_size :: "u32 \<Rightarrow> uvm_chunk_size_t" where
  "uvm_chunk_find_last_size chunk_sizes = push_bit (fls chunk_sizes) 1"

definition uvm_chunk_find_next_size :: "u32 \<Rightarrow> uvm_chunk_size_t \<Rightarrow> uvm_chunk_size_t" where
  "uvm_chunk_find_next_size chunk_sizes chunk_size =
     push_bit (ffs ((chunk_sizes AND NOT (push_bit 1 chunk_size - 1)) OR UVM_CHUNK_SIZE_INVALID)) 1"

definition uvm_chunk_find_prev_size :: "u32 \<Rightarrow> uvm_chunk_size_t \<Rightarrow> uvm_chunk_size_t" where
  "uvm_chunk_find_prev_size chunk_sizes chunk_size =
     (let chunk_sizes = chunk_sizes AND (chunk_size - 1)
      in if chunk_sizes = 0 then UVM_CHUNK_SIZE_INVALID else push_bit (fls chunk_sizes) 1)"

text \<open>
  The sizes \<^verbatim>\<open>for_each_chunk_size_from\<close> and its reverse visit. The bound is the number of bits: a step goes to
  another bit of the mask.
\<close>

fun sizes_from :: "nat \<Rightarrow> u32 \<Rightarrow> uvm_chunk_size_t \<Rightarrow> uvm_chunk_size_t list" where
  "sizes_from 0 chunk_sizes sz = []"
| "sizes_from (Suc n) chunk_sizes sz =
     (if sz \<noteq> UVM_CHUNK_SIZE_INVALID then sz # sizes_from n chunk_sizes (uvm_chunk_find_next_size chunk_sizes sz) else [])"

definition for_each_chunk_size_from :: "u32 \<Rightarrow> uvm_chunk_size_t \<Rightarrow> uvm_chunk_size_t list" where
  "for_each_chunk_size_from chunk_sizes sz = sizes_from 32 chunk_sizes sz"

fun sizes_rev_from :: "nat \<Rightarrow> u32 \<Rightarrow> uvm_chunk_size_t \<Rightarrow> uvm_chunk_size_t list" where
  "sizes_rev_from 0 chunk_sizes sz = []"
| "sizes_rev_from (Suc n) chunk_sizes sz =
     (if sz \<noteq> UVM_CHUNK_SIZE_INVALID then sz # sizes_rev_from n chunk_sizes (uvm_chunk_find_prev_size chunk_sizes sz) else [])"

definition for_each_chunk_size_rev_from :: "u32 \<Rightarrow> uvm_chunk_size_t \<Rightarrow> uvm_chunk_size_t list" where
  "for_each_chunk_size_rev_from chunk_sizes sz = sizes_rev_from 32 chunk_sizes sz"

definition hweight_long :: "u32 \<Rightarrow> nat" where
  "hweight_long w = length (filter (bit w) [0..<32])"

section \<open>A chunk\<close>

datatype uvm_pmm_gpu_memory_type = UVM_PMM_GPU_MEMORY_TYPE_USER | UVM_PMM_GPU_MEMORY_TYPE_KERNEL

datatype uvm_pmm_gpu_chunk_state =
  UVM_PMM_GPU_CHUNK_STATE_PMA_OWNED
| UVM_PMM_GPU_CHUNK_STATE_FREE
| UVM_PMM_GPU_CHUNK_STATE_IS_SPLIT
| UVM_PMM_GPU_CHUNK_STATE_TEMP_PINNED
| UVM_PMM_GPU_CHUNK_STATE_ALLOCATED

fun state_num :: "uvm_pmm_gpu_chunk_state \<Rightarrow> u64" where
  "state_num UVM_PMM_GPU_CHUNK_STATE_PMA_OWNED = 0"
| "state_num UVM_PMM_GPU_CHUNK_STATE_FREE = 1"
| "state_num UVM_PMM_GPU_CHUNK_STATE_IS_SPLIT = 2"
| "state_num UVM_PMM_GPU_CHUNK_STATE_TEMP_PINNED = 3"
| "state_num UVM_PMM_GPU_CHUNK_STATE_ALLOCATED = 4"

text \<open>The field has three bits; only the numbers of states are ever stored.\<close>

definition state_of_num :: "u64 \<Rightarrow> uvm_pmm_gpu_chunk_state" where
  "state_of_num n =
     (if n = 0 then UVM_PMM_GPU_CHUNK_STATE_PMA_OWNED else if n = 1 then UVM_PMM_GPU_CHUNK_STATE_FREE
      else if n = 2 then UVM_PMM_GPU_CHUNK_STATE_IS_SPLIT else if n = 3 then UVM_PMM_GPU_CHUNK_STATE_TEMP_PINNED
      else UVM_PMM_GPU_CHUNK_STATE_ALLOCATED)"

text \<open>A chunk is a pointer; see the theory of the manager for the store. A VA block is a number.\<close>

type_synonym chunk_ptr = nat

record uvm_pmm_gpu_chunk_suballoc =
  sa_allocated :: u32
  sa_pinned_leaf_chunks :: u32
  sa_subchunks :: "chunk_ptr list"

record uvm_gpu_chunk =
  chunk_address :: u64
  chunk_flags :: u64
  chunk_va_block :: "nat option"
  chunk_parent :: "chunk_ptr option"
  chunk_suballoc :: "uvm_pmm_gpu_chunk_suballoc option"

definition UVM_GPU_CHUNK_FLAGS_TYPE_KERNEL :: nat where
  "UVM_GPU_CHUNK_FLAGS_TYPE_KERNEL = 0"

definition UVM_GPU_CHUNK_FLAGS_IN_EVICTION :: nat where
  "UVM_GPU_CHUNK_FLAGS_IN_EVICTION = 1"

definition UVM_GPU_CHUNK_FLAGS_INJECT_SPLIT_ERROR :: nat where
  "UVM_GPU_CHUNK_FLAGS_INJECT_SPLIT_ERROR = 2"

definition UVM_GPU_CHUNK_FLAGS_STATE_START :: nat where
  "UVM_GPU_CHUNK_FLAGS_STATE_START = UVM_GPU_CHUNK_FLAGS_INJECT_SPLIT_ERROR + 1"

text \<open>\<^verbatim>\<open>order_base_2\<close> of the 5 states and of the 22 sizes.\<close>

definition UVM_GPU_CHUNK_FLAGS_STATE_SIZE :: nat where
  "UVM_GPU_CHUNK_FLAGS_STATE_SIZE = 3"

definition UVM_GPU_CHUNK_FLAGS_SIZE_LOG2_START :: nat where
  "UVM_GPU_CHUNK_FLAGS_SIZE_LOG2_START = UVM_GPU_CHUNK_FLAGS_STATE_START + UVM_GPU_CHUNK_FLAGS_STATE_SIZE"

definition UVM_GPU_CHUNK_FLAGS_SIZE_LOG2_SIZE :: nat where
  "UVM_GPU_CHUNK_FLAGS_SIZE_LOG2_SIZE = 5"

definition uvm_gpu_chunk_get_flags :: "uvm_gpu_chunk \<Rightarrow> nat \<Rightarrow> nat \<Rightarrow> u64" where
  "uvm_gpu_chunk_get_flags chunk start sz =
     (let field = drop_bit start (chunk_flags chunk); m = push_bit sz 1 - 1 in field AND m)"

definition uvm_gpu_chunk_set_flags :: "uvm_gpu_chunk \<Rightarrow> nat \<Rightarrow> nat \<Rightarrow> u64 \<Rightarrow> uvm_gpu_chunk" where
  "uvm_gpu_chunk_set_flags chunk start sz val =
     (let m = push_bit sz 1 - 1 in chunk\<lparr>chunk_flags := (chunk_flags chunk AND NOT (push_bit start m)) OR push_bit start val\<rparr>)"

definition test_flag :: "uvm_gpu_chunk \<Rightarrow> nat \<Rightarrow> bool" where
  "test_flag chunk n = bit (chunk_flags chunk) n"

definition put_flag :: "uvm_gpu_chunk \<Rightarrow> nat \<Rightarrow> bool \<Rightarrow> uvm_gpu_chunk" where
  "put_flag chunk n b = chunk\<lparr>chunk_flags := (if b then chunk_flags chunk OR push_bit n 1 else chunk_flags chunk AND NOT (push_bit n 1))\<rparr>"

definition uvm_gpu_chunk_get_type :: "uvm_gpu_chunk \<Rightarrow> uvm_pmm_gpu_memory_type" where
  "uvm_gpu_chunk_get_type chunk =
     (if test_flag chunk UVM_GPU_CHUNK_FLAGS_TYPE_KERNEL then UVM_PMM_GPU_MEMORY_TYPE_KERNEL else UVM_PMM_GPU_MEMORY_TYPE_USER)"

definition uvm_gpu_chunk_set_type :: "uvm_gpu_chunk \<Rightarrow> uvm_pmm_gpu_memory_type \<Rightarrow> uvm_gpu_chunk" where
  "uvm_gpu_chunk_set_type chunk type = put_flag chunk UVM_GPU_CHUNK_FLAGS_TYPE_KERNEL (type = UVM_PMM_GPU_MEMORY_TYPE_KERNEL)"

definition uvm_gpu_chunk_get_inject_split_error :: "uvm_gpu_chunk \<Rightarrow> bool" where
  "uvm_gpu_chunk_get_inject_split_error chunk = test_flag chunk UVM_GPU_CHUNK_FLAGS_INJECT_SPLIT_ERROR"

definition uvm_gpu_chunk_set_inject_split_error :: "uvm_gpu_chunk \<Rightarrow> uvm_gpu_chunk" where
  "uvm_gpu_chunk_set_inject_split_error chunk = put_flag chunk UVM_GPU_CHUNK_FLAGS_INJECT_SPLIT_ERROR True"

definition uvm_gpu_chunk_clear_inject_split_error :: "uvm_gpu_chunk \<Rightarrow> uvm_gpu_chunk" where
  "uvm_gpu_chunk_clear_inject_split_error chunk = put_flag chunk UVM_GPU_CHUNK_FLAGS_INJECT_SPLIT_ERROR False"

definition uvm_gpu_chunk_get_state :: "uvm_gpu_chunk \<Rightarrow> uvm_pmm_gpu_chunk_state" where
  "uvm_gpu_chunk_get_state chunk =
     state_of_num (uvm_gpu_chunk_get_flags chunk UVM_GPU_CHUNK_FLAGS_STATE_START UVM_GPU_CHUNK_FLAGS_STATE_SIZE)"

definition uvm_gpu_chunk_set_state :: "uvm_gpu_chunk \<Rightarrow> uvm_pmm_gpu_chunk_state \<Rightarrow> uvm_gpu_chunk" where
  "uvm_gpu_chunk_set_state chunk state =
     uvm_gpu_chunk_set_flags chunk UVM_GPU_CHUNK_FLAGS_STATE_START UVM_GPU_CHUNK_FLAGS_STATE_SIZE (state_num state)"

definition uvm_gpu_chunk_get_size :: "uvm_gpu_chunk \<Rightarrow> uvm_chunk_size_t" where
  "uvm_gpu_chunk_get_size chunk =
     (let size_log2 = uvm_gpu_chunk_get_flags chunk UVM_GPU_CHUNK_FLAGS_SIZE_LOG2_START UVM_GPU_CHUNK_FLAGS_SIZE_LOG2_SIZE
      in push_bit (unat size_log2) 1)"

definition uvm_gpu_chunk_set_size :: "uvm_gpu_chunk \<Rightarrow> uvm_chunk_size_t \<Rightarrow> uvm_gpu_chunk" where
  "uvm_gpu_chunk_set_size chunk sz =
     uvm_gpu_chunk_set_flags chunk UVM_GPU_CHUNK_FLAGS_SIZE_LOG2_START UVM_GPU_CHUNK_FLAGS_SIZE_LOG2_SIZE (of_nat (fls sz))"

definition uvm_gpu_chunk_is_in_eviction :: "uvm_gpu_chunk \<Rightarrow> bool" where
  "uvm_gpu_chunk_is_in_eviction chunk = test_flag chunk UVM_GPU_CHUNK_FLAGS_IN_EVICTION"

definition uvm_gpu_chunk_set_in_eviction :: "uvm_gpu_chunk \<Rightarrow> bool \<Rightarrow> uvm_gpu_chunk" where
  "uvm_gpu_chunk_set_in_eviction chunk in_eviction = put_flag chunk UVM_GPU_CHUNK_FLAGS_IN_EVICTION in_eviction"

section \<open>The fields do not overlap\<close>

lemma bit_get_flags [simp]:
  "sz \<le> 64 \<Longrightarrow> bit (uvm_gpu_chunk_get_flags c start sz) n \<longleftrightarrow> n < sz \<and> bit (chunk_flags c) (start + n)"
  by (auto simp: uvm_gpu_chunk_get_flags_def bit_simps simp flip: mask_eq_exp_minus_1 push_bit_eq_mult)

lemma bit_set_flags:
  assumes "start + sz \<le> 64" "\<And>n. bit val n \<Longrightarrow> n < sz"
  shows "bit (chunk_flags (uvm_gpu_chunk_set_flags c start sz val)) n \<longleftrightarrow>
    (if start \<le> n \<and> n < start + sz then bit val (n - start) else bit (chunk_flags c) n)"
proof -
  have "bit val (n - start) \<Longrightarrow> start \<le> n \<Longrightarrow> n < start + sz" using assms(2)[of "n - start"] by simp
  then show ?thesis using assms(1)
    by (auto simp: uvm_gpu_chunk_set_flags_def bit_simps simp flip: mask_eq_exp_minus_1 dest: bit_imp_le_length)
qed

lemma bit_put_flag:
  "m < 64 \<Longrightarrow> bit (chunk_flags (put_flag c m b)) n \<longleftrightarrow> (if n = m then b else bit (chunk_flags c) n)"
  by (auto simp: put_flag_def bit_simps dest: bit_imp_le_length)

lemma bit_le_unat:
  fixes w :: "'a :: len word"
  assumes "bit w n"
  shows "2 ^ n \<le> unat w"
proof (rule ccontr)
  assume "\<not> 2 ^ n \<le> unat w"
  then have "unat (drop_bit n w) = 0" by (simp only: unat_drop_bit_eq) (simp add: drop_bit_eq_div)
  then have "drop_bit n w = 0" by (simp add: word_unat_eq_iff)
  then show False using assms by (simp add: bit_iff_odd_drop_bit)
qed

lemma small_bits:
  fixes val :: u64
  assumes "unat val < 2 ^ sz" "bit val n"
  shows "n < sz"
proof (rule ccontr)
  assume "\<not> n < sz"
  then have "(2::nat) ^ sz \<le> 2 ^ n" by simp
  moreover have "2 ^ n \<le> unat val" using assms(2) by (rule bit_le_unat)
  ultimately show False using assms(1) by linarith
qed

lemma state_num_small: "unat (state_num st) < 2 ^ 3"
  by (cases st) simp_all

lemma state_of_state_num [simp]: "state_of_num (state_num st) = st"
  by (cases st) (simp_all add: state_of_num_def)

lemmas field_defs = UVM_GPU_CHUNK_FLAGS_TYPE_KERNEL_def UVM_GPU_CHUNK_FLAGS_IN_EVICTION_def UVM_GPU_CHUNK_FLAGS_INJECT_SPLIT_ERROR_def
  UVM_GPU_CHUNK_FLAGS_STATE_START_def UVM_GPU_CHUNK_FLAGS_STATE_SIZE_def UVM_GPU_CHUNK_FLAGS_SIZE_LOG2_START_def
  UVM_GPU_CHUNK_FLAGS_SIZE_LOG2_SIZE_def

lemmas getter_defs = uvm_gpu_chunk_get_type_def uvm_gpu_chunk_get_state_def uvm_gpu_chunk_get_size_def
  uvm_gpu_chunk_is_in_eviction_def uvm_gpu_chunk_get_inject_split_error_def test_flag_def

lemmas setter_defs = uvm_gpu_chunk_set_type_def uvm_gpu_chunk_set_state_def uvm_gpu_chunk_set_size_def
  uvm_gpu_chunk_set_in_eviction_def uvm_gpu_chunk_set_inject_split_error_def uvm_gpu_chunk_clear_inject_split_error_def

lemma get_flags_cong:
  assumes "sz \<le> 64" "\<And>n. start \<le> n \<Longrightarrow> n < start + sz \<Longrightarrow> bit (chunk_flags c) n = bit (chunk_flags c') n"
  shows "uvm_gpu_chunk_get_flags c start sz = uvm_gpu_chunk_get_flags c' start sz"
  by (rule bit_word_eqI) (use assms in auto)

lemma get_set_flags:
  assumes "start + sz \<le> 64" "\<And>n. bit val n \<Longrightarrow> n < sz"
  shows "uvm_gpu_chunk_get_flags (uvm_gpu_chunk_set_flags c start sz val) start sz = val"
  by (rule bit_word_eqI) (use assms in \<open>auto simp: bit_set_flags[OF assms]\<close>)

lemma bit_set_state:
  "bit (chunk_flags (uvm_gpu_chunk_set_state c st)) n \<longleftrightarrow> (if 3 \<le> n \<and> n < 6 then bit (state_num st) (n - 3) else bit (chunk_flags c) n)"
  unfolding uvm_gpu_chunk_set_state_def field_defs
  by (subst bit_set_flags) (use small_bits[OF state_num_small] in auto)

lemma fls_log: "k < 22 \<Longrightarrow> fls (2 ^ k :: u32) = k"
  using fls_power[of k, where 'a = 32] by (simp add: push_bit_eq_mult)

lemma small_exp_bits: "k < 22 \<Longrightarrow> bit (of_nat k :: u64) n \<Longrightarrow> n < 5"
proof (rule small_bits)
  assume "k < 22"
  then show "unat (of_nat k :: u64) < 2 ^ 5" by (simp add: unat_of_nat)
qed

lemma bit_set_size:
  "k < 22 \<Longrightarrow> bit (chunk_flags (uvm_gpu_chunk_set_size c (2 ^ k))) n \<longleftrightarrow>
    (if 6 \<le> n \<and> n < 11 then bit (of_nat k :: u64) (n - 6) else bit (chunk_flags c) n)"
  unfolding uvm_gpu_chunk_set_size_def field_defs fls_log
  by (subst bit_set_flags) (use small_exp_bits in \<open>auto simp: fls_log\<close>)

lemma get_state_cong:
  "(\<And>n. 3 \<le> n \<Longrightarrow> n < 6 \<Longrightarrow> bit (chunk_flags c) n = bit (chunk_flags c') n) \<Longrightarrow> uvm_gpu_chunk_get_state c = uvm_gpu_chunk_get_state c'"
  unfolding uvm_gpu_chunk_get_state_def field_defs by (subst get_flags_cong[of _ _ c c']) auto

lemma get_size_cong:
  "(\<And>n. 6 \<le> n \<Longrightarrow> n < 11 \<Longrightarrow> bit (chunk_flags c) n = bit (chunk_flags c') n) \<Longrightarrow> uvm_gpu_chunk_get_size c = uvm_gpu_chunk_get_size c'"
  unfolding uvm_gpu_chunk_get_size_def field_defs by (subst get_flags_cong[of _ _ c c']) auto

lemma flag_bits:
  "uvm_gpu_chunk_get_type c = (if bit (chunk_flags c) 0 then UVM_PMM_GPU_MEMORY_TYPE_KERNEL else UVM_PMM_GPU_MEMORY_TYPE_USER)"
  "uvm_gpu_chunk_is_in_eviction c = bit (chunk_flags c) 1" "uvm_gpu_chunk_get_inject_split_error c = bit (chunk_flags c) 2"
  by (simp_all add: getter_defs field_defs del: bit_get_flags)

lemma state_laws [simp]:
  "uvm_gpu_chunk_get_state (uvm_gpu_chunk_set_state c st) = st"
  "uvm_gpu_chunk_get_type (uvm_gpu_chunk_set_state c st) = uvm_gpu_chunk_get_type c"
  "uvm_gpu_chunk_get_size (uvm_gpu_chunk_set_state c st) = uvm_gpu_chunk_get_size c"
  "uvm_gpu_chunk_is_in_eviction (uvm_gpu_chunk_set_state c st) = uvm_gpu_chunk_is_in_eviction c"
  "uvm_gpu_chunk_get_inject_split_error (uvm_gpu_chunk_set_state c st) = uvm_gpu_chunk_get_inject_split_error c"
proof -
  show "uvm_gpu_chunk_get_state (uvm_gpu_chunk_set_state c st) = st"
    unfolding uvm_gpu_chunk_get_state_def uvm_gpu_chunk_set_state_def field_defs
    by (subst get_set_flags) (use small_bits[OF state_num_small] in auto)
  show "uvm_gpu_chunk_get_size (uvm_gpu_chunk_set_state c st) = uvm_gpu_chunk_get_size c"
    by (rule get_size_cong) (simp add: bit_set_state)
qed (simp_all add: flag_bits bit_set_state)

lemma size_laws [simp]:
  assumes k: "k < 22"
  shows "uvm_gpu_chunk_get_size (uvm_gpu_chunk_set_size c (2 ^ k)) = 2 ^ k"
    "uvm_gpu_chunk_get_type (uvm_gpu_chunk_set_size c (2 ^ k)) = uvm_gpu_chunk_get_type c"
    "uvm_gpu_chunk_get_state (uvm_gpu_chunk_set_size c (2 ^ k)) = uvm_gpu_chunk_get_state c"
    "uvm_gpu_chunk_is_in_eviction (uvm_gpu_chunk_set_size c (2 ^ k)) = uvm_gpu_chunk_is_in_eviction c"
    "uvm_gpu_chunk_get_inject_split_error (uvm_gpu_chunk_set_size c (2 ^ k)) = uvm_gpu_chunk_get_inject_split_error c"
proof -
  have "uvm_gpu_chunk_get_flags (uvm_gpu_chunk_set_size c (2 ^ k)) 6 5 = of_nat k"
    by (rule bit_word_eqI) (use small_exp_bits[OF k] in \<open>auto simp: bit_set_size[OF k]\<close>)
  then show "uvm_gpu_chunk_get_size (uvm_gpu_chunk_set_size c (2 ^ k)) = 2 ^ k"
    using k by (simp add: uvm_gpu_chunk_get_size_def field_defs unat_of_nat)
  show "uvm_gpu_chunk_get_state (uvm_gpu_chunk_set_size c (2 ^ k)) = uvm_gpu_chunk_get_state c"
    by (rule get_state_cong) (simp add: bit_set_size[OF k])
qed (simp_all add: flag_bits bit_set_size[OF k])

lemma put_flag_laws:
  assumes "n < 3"
  shows "uvm_gpu_chunk_get_state (put_flag c n b) = uvm_gpu_chunk_get_state c"
    "uvm_gpu_chunk_get_size (put_flag c n b) = uvm_gpu_chunk_get_size c"
  by (rule get_state_cong, use assms in \<open>simp add: bit_put_flag\<close>) (rule get_size_cong, use assms in \<open>simp add: bit_put_flag\<close>)

lemma flag_laws [simp]:
  "uvm_gpu_chunk_get_type (uvm_gpu_chunk_set_type c ty) = ty"
  "uvm_gpu_chunk_get_state (uvm_gpu_chunk_set_type c ty) = uvm_gpu_chunk_get_state c"
  "uvm_gpu_chunk_get_size (uvm_gpu_chunk_set_type c ty) = uvm_gpu_chunk_get_size c"
  "uvm_gpu_chunk_is_in_eviction (uvm_gpu_chunk_set_type c ty) = uvm_gpu_chunk_is_in_eviction c"
  "uvm_gpu_chunk_get_inject_split_error (uvm_gpu_chunk_set_type c ty) = uvm_gpu_chunk_get_inject_split_error c"
  "uvm_gpu_chunk_get_type (uvm_gpu_chunk_set_in_eviction c e) = uvm_gpu_chunk_get_type c"
  "uvm_gpu_chunk_get_state (uvm_gpu_chunk_set_in_eviction c e) = uvm_gpu_chunk_get_state c"
  "uvm_gpu_chunk_get_size (uvm_gpu_chunk_set_in_eviction c e) = uvm_gpu_chunk_get_size c"
  "uvm_gpu_chunk_is_in_eviction (uvm_gpu_chunk_set_in_eviction c e) = e"
  "uvm_gpu_chunk_get_inject_split_error (uvm_gpu_chunk_set_in_eviction c e) = uvm_gpu_chunk_get_inject_split_error c"
  "uvm_gpu_chunk_get_type (uvm_gpu_chunk_set_inject_split_error c) = uvm_gpu_chunk_get_type c"
  "uvm_gpu_chunk_get_state (uvm_gpu_chunk_set_inject_split_error c) = uvm_gpu_chunk_get_state c"
  "uvm_gpu_chunk_get_size (uvm_gpu_chunk_set_inject_split_error c) = uvm_gpu_chunk_get_size c"
  "uvm_gpu_chunk_is_in_eviction (uvm_gpu_chunk_set_inject_split_error c) = uvm_gpu_chunk_is_in_eviction c"
  "uvm_gpu_chunk_get_inject_split_error (uvm_gpu_chunk_set_inject_split_error c)"
  "uvm_gpu_chunk_get_type (uvm_gpu_chunk_clear_inject_split_error c) = uvm_gpu_chunk_get_type c"
  "uvm_gpu_chunk_get_state (uvm_gpu_chunk_clear_inject_split_error c) = uvm_gpu_chunk_get_state c"
  "uvm_gpu_chunk_get_size (uvm_gpu_chunk_clear_inject_split_error c) = uvm_gpu_chunk_get_size c"
  "uvm_gpu_chunk_is_in_eviction (uvm_gpu_chunk_clear_inject_split_error c) = uvm_gpu_chunk_is_in_eviction c"
  "\<not> uvm_gpu_chunk_get_inject_split_error (uvm_gpu_chunk_clear_inject_split_error c)"
  by (cases ty; simp add: setter_defs field_defs put_flag_laws flag_bits bit_put_flag)+

text \<open>What a chunk holds outside of its flags is left alone.\<close>

lemma setters_keep [simp]:
  "chunk_address (uvm_gpu_chunk_set_flags c start sz val) = chunk_address c" "chunk_address (put_flag c n b) = chunk_address c"
  "chunk_parent (uvm_gpu_chunk_set_flags c start sz val) = chunk_parent c" "chunk_parent (put_flag c n b) = chunk_parent c"
  "chunk_suballoc (uvm_gpu_chunk_set_flags c start sz val) = chunk_suballoc c" "chunk_suballoc (put_flag c n b) = chunk_suballoc c"
  "chunk_va_block (uvm_gpu_chunk_set_flags c start sz val) = chunk_va_block c" "chunk_va_block (put_flag c n b) = chunk_va_block c"
  by (simp_all add: uvm_gpu_chunk_set_flags_def put_flag_def Let_def)

lemma field_updates_keep [simp]:
  "uvm_gpu_chunk_get_state (chunk_va_block_update f c) = uvm_gpu_chunk_get_state c"
  "uvm_gpu_chunk_get_state (chunk_suballoc_update g c) = uvm_gpu_chunk_get_state c"
  "uvm_gpu_chunk_get_size (chunk_va_block_update f c) = uvm_gpu_chunk_get_size c"
  "uvm_gpu_chunk_get_size (chunk_suballoc_update g c) = uvm_gpu_chunk_get_size c"
  "uvm_gpu_chunk_get_type (chunk_va_block_update f c) = uvm_gpu_chunk_get_type c"
  "uvm_gpu_chunk_get_type (chunk_suballoc_update g c) = uvm_gpu_chunk_get_type c"
  "uvm_gpu_chunk_is_in_eviction (chunk_va_block_update f c) = uvm_gpu_chunk_is_in_eviction c"
  "uvm_gpu_chunk_is_in_eviction (chunk_suballoc_update g c) = uvm_gpu_chunk_is_in_eviction c"
  "uvm_gpu_chunk_get_inject_split_error (chunk_va_block_update f c) = uvm_gpu_chunk_get_inject_split_error c"
  "uvm_gpu_chunk_get_inject_split_error (chunk_suballoc_update g c) = uvm_gpu_chunk_get_inject_split_error c"
  by (simp_all add: getter_defs uvm_gpu_chunk_get_flags_def)

section \<open>Walking a mask of sizes\<close>

text \<open>
  A mask holds the root size \<open>2 ^ 21\<close> and no larger one. In terms of exponents: the next and the previous
  size, 22 standing for none.
\<close>

definition mask_ok :: "u32 \<Rightarrow> bool" where
  "mask_ok m \<longleftrightarrow> bit m 21 \<and> (\<forall>i. bit m i \<longrightarrow> i \<le> 21)"

definition next_exp :: "u32 \<Rightarrow> nat \<Rightarrow> nat" where
  "next_exp m k = hd (filter (bit m) [Suc k..<22] @ [22])"

definition prev_exp :: "u32 \<Rightarrow> nat \<Rightarrow> nat" where
  "prev_exp m k = last (22 # filter (bit m) [0..<k])"

lemma power_word: "(2::'a::len word) ^ k = push_bit k 1"
  by (simp add: push_bit_eq_mult)

lemma size_consts: "UVM_CHUNK_SIZE_MAX = 2 ^ 21" "UVM_CHUNK_SIZE_INVALID = 2 ^ 22"
  by (simp_all add: UVM_CHUNK_SIZE_MAX_def UVM_CHUNK_SIZE_INVALID_def)

lemma low_bits: "k < 32 \<Longrightarrow> bit ((m :: u32) AND (2 ^ k - 1)) n \<longleftrightarrow> bit m n \<and> n < k"
  by (auto simp: bit_simps simp flip: mask_eq_exp_minus_1)

lemma high_bits: "k < 31 \<Longrightarrow> bit ((m :: u32) AND NOT (push_bit 1 (2 ^ k) - 1)) n \<longleftrightarrow> bit m n \<and> k < n"
proof -
  assume k: "k < 31"
  have "push_bit 1 (2 ^ k :: u32) - 1 = mask (Suc k)" by (simp add: mask_eq_exp_minus_1)
  then show ?thesis by (auto simp: bit_simps dest: bit_imp_le_length)
qed

lemma find_prev_eq:
  assumes k: "k < 22"
  shows "uvm_chunk_find_prev_size m (2 ^ k) = 2 ^ prev_exp m k"
proof -
  let ?w = "m AND (2 ^ k - 1)"
  have bits: "bit ?w n \<longleftrightarrow> bit m n \<and> n < k" for n using low_bits[of k m n] k by simp
  have up: "[0..<32] = [0..<k] @ [k..<32]" using k upt_add_eq_append[of 0 k "32 - k"] by simp
  have "filter (bit ?w) [k..<32] = []" by (simp add: bits filter_empty_conv)
  moreover have "filter (bit ?w) [0..<k] = filter (bit m) [0..<k]" by (rule filter_cong) (simp_all add: bits)
  ultimately have f: "filter (bit ?w) [0..<32] = filter (bit m) [0..<k]" unfolding up by simp
  show ?thesis
  proof (cases "?w = 0")
    case True
    then have "filter (bit m) [0..<k] = []" using f by (metis bit_0_eq bot_apply bot_bool_def filter_False)
    then show ?thesis using True by (simp add: uvm_chunk_find_prev_size_def prev_exp_def size_consts)
  next
    case False
    then have "filter (bit ?w) [0..<LENGTH(32)] \<noteq> []" by (rule set_bits_nonempty)
    then have ne: "filter (bit m) [0..<k] \<noteq> []" using f by simp
    then have "fls ?w = prev_exp m k" by (simp add: fls_def f prev_exp_def)
    then show ?thesis using False by (simp add: uvm_chunk_find_prev_size_def push_bit_eq_mult)
  qed
qed

lemma find_next_eq:
  assumes m: "mask_ok m" and k: "k < 22"
  shows "uvm_chunk_find_next_size m (2 ^ k) = 2 ^ next_exp m k"
proof -
  let ?w = "(m AND NOT (push_bit 1 (2 ^ k) - 1)) OR 2 ^ 22"
  have bits: "bit ?w n \<longleftrightarrow> (bit m n \<and> k < n) \<or> n = 22" for n
  proof -
    have "bit (2 ^ 22 :: u32) n \<longleftrightarrow> n = 22" unfolding power_word bit_push_bit_iff by (auto simp: bit_simps)
    moreover have "k < 31" using k by simp
    ultimately show ?thesis unfolding bit_or_iff using high_bits[of k m n] by blast
  qed
  have up: "[0..<32] = [0..<Suc k] @ [Suc k..<22] @ 22 # [23..<32]"
  proof -
    have "[0..<32] = [0..<Suc k] @ [Suc k..<32]" using k upt_add_eq_append[of 0 "Suc k" "31 - k"] by simp
    moreover have "[Suc k..<32] = [Suc k..<22] @ [22..<32]" using k upt_add_eq_append[of "Suc k" 22 10] by simp
    moreover have "[22..<32] = 22 # [23..<32::nat]" by (simp add: upt_rec)
    ultimately show ?thesis by simp
  qed
  have "filter (bit ?w) [0..<Suc k] = []" unfolding filter_empty_conv bits using k by auto
  moreover have "filter (bit ?w) [Suc k..<22] = filter (bit m) [Suc k..<22]"
  proof (rule filter_cong[OF refl])
    fix n assume "n \<in> set [Suc k..<22]"
    then have "k < n" "n \<noteq> 22" by simp_all
    then show "bit ?w n = bit m n" unfolding bits by blast
  qed
  moreover have "filter (bit ?w) [23..<32] = []" unfolding filter_empty_conv bits
  proof (intro ballI notI)
    fix n assume n: "n \<in> set [23..<32]" "bit m n \<and> k < n \<or> n = 22"
    from n(1) have "22 < n" unfolding set_upt atLeastLessThan_iff by linarith
    with n(2) m show False by (auto simp: mask_ok_def)
  qed
  moreover have "bit ?w 22" unfolding bits by blast
  ultimately have f: "filter (bit ?w) [0..<32] = filter (bit m) [Suc k..<22] @ [22]"
    unfolding up filter_append filter.simps by (simp only: if_True append_Nil append_Nil2)
  then have "ffs ?w = hd ((filter (bit m) [Suc k..<22] @ [22]) @ [0])" by (simp add: ffs_def)
  then have "ffs ?w = next_exp m k" unfolding next_exp_def by (simp only: hd_append2 append_is_Nil_conv list.distinct simp_thms)
  then show ?thesis by (simp add: uvm_chunk_find_next_size_def size_consts push_bit_eq_mult)
qed

lemma prev_exp_props:
  assumes "prev_exp m k \<noteq> 22 \<or> j < k \<and> bit m j"
  shows "k \<le> 22 \<Longrightarrow> prev_exp m k < k" "k \<le> 22 \<Longrightarrow> bit m (prev_exp m k)" "j < k \<Longrightarrow> bit m j \<Longrightarrow> j \<le> prev_exp m k"
proof -
  let ?l = "filter (bit m) [0..<k]"
  have ne: "?l \<noteq> []" using assms by (auto simp: prev_exp_def filter_empty_conv split: if_splits)
  then have e: "prev_exp m k = last ?l" by (simp add: prev_exp_def)
  have "last ?l \<in> set ?l" using ne by (rule last_in_set)
  then show "prev_exp m k < k" "bit m (prev_exp m k)" by (auto simp: e)
  show "j \<le> prev_exp m k" if "j < k" "bit m j"
  proof -
    have "sorted ?l" by (rule sorted_wrt_filter) simp
    moreover have "?l = butlast ?l @ [last ?l]" "j \<in> set ?l" using ne that by simp_all
    ultimately have "sorted (butlast ?l @ [last ?l])" "j \<in> set (butlast ?l @ [last ?l])" by simp_all
    then show ?thesis unfolding e by (auto simp: sorted_append)
  qed
qed

lemma next_exp_props:
  assumes m: "mask_ok m" and k: "k < 21"
  shows "k < next_exp m k" "next_exp m k \<le> 21" "bit m (next_exp m k)" "k < j \<Longrightarrow> bit m j \<Longrightarrow> next_exp m k \<le> j"
proof -
  let ?l = "filter (bit m) [Suc k..<22]"
  have "21 \<in> set ?l" using m k by (simp add: mask_ok_def)
  then have ne: "?l \<noteq> []" by (metis list.set(1) empty_iff)
  then have e: "next_exp m k = hd ?l" by (simp add: next_exp_def)
  have "hd ?l \<in> set ?l" using ne by (rule hd_in_set)
  then show "k < next_exp m k" "next_exp m k \<le> 21" "bit m (next_exp m k)" by (auto simp: e)
  show "next_exp m k \<le> j" if "k < j" "bit m j"
  proof -
    have "j \<le> 21" using m that(2) by (auto simp: mask_ok_def)
    then have j: "j \<in> set ?l" using that by simp
    have "sorted ?l" by (rule sorted_wrt_filter) simp
    then show ?thesis unfolding e using j ne by (cases ?l) auto
  qed
qed

lemma next_exp_21: "next_exp m 21 = 22"
  by (simp add: next_exp_def)

text \<open>The two directions agree.\<close>

lemma prev_next:
  assumes "mask_ok m" "bit m k" "k < 21"
  shows "prev_exp m (next_exp m k) = k"
proof -
  note n = next_exp_props[OF assms(1,3)]
  have p: "prev_exp m (next_exp m k) < next_exp m k" "bit m (prev_exp m (next_exp m k))" "k \<le> prev_exp m (next_exp m k)"
    using prev_exp_props[of m "next_exp m k" k] n assms by simp_all
  show ?thesis
  proof (rule ccontr)
    assume "prev_exp m (next_exp m k) \<noteq> k"
    then have "next_exp m k \<le> prev_exp m (next_exp m k)" using p by (intro n(4)) simp_all
    then show False using p(1) by simp
  qed
qed

lemma next_prev:
  assumes "mask_ok m" "bit m k" "k \<le> 21" "prev_exp m k \<noteq> 22"
  shows "next_exp m (prev_exp m k) = k"
proof -
  note p = prev_exp_props[of m k]
  have a: "prev_exp m k < k" "bit m (prev_exp m k)" using p assms by simp_all
  then have lt: "prev_exp m k < 21" using assms(3) by simp
  note n = next_exp_props[OF assms(1) lt]
  have "next_exp m (prev_exp m k) \<le> k" by (rule n(4)) (use a assms in simp_all)
  moreover have "\<not> next_exp m (prev_exp m k) < k"
  proof
    assume h: "next_exp m (prev_exp m k) < k"
    then have "next_exp m (prev_exp m k) \<le> prev_exp m k" using p(3)[OF _ h n(3)] n(3) by blast
    then show False using n(1) by simp
  qed
  ultimately show ?thesis by simp
qed

end
