(* ===== verification/Pmm_Gpu.thy ===== *)
theory Pmm_Gpu
  imports Pmm_Chunk
begin

text \<open>
  The GPU physical memory manager (\<^verbatim>\<open>uvm8_pmm_gpu.c\<close>): its state, splitting and merging chunks, claiming free
  chunks and freeing them. Each function that holds the list lock throughout, or each part of one between
  taking and releasing it, is one step; the mutex of the manager makes the rest of splits and merges one too.
\<close>

section \<open>State\<close>

text \<open>
  Root chunk \<open>i\<close> is the pointer \<open>i\<close>; the pointers after the root chunks are handed out by the caches of
  chunks, whose \<open>n\<close>-th allocation succeeds when \<open>pmm_kmem n\<close> holds. A freed chunk is not in the store. What is
  given back to the allocator PMA is recorded with the number of pages, their size and the flags.
\<close>

record uvm_pmm_gpu =
  pmm_chunk_sizes :: "uvm_pmm_gpu_memory_type \<Rightarrow> u32"
  pmm_root_chunks_count :: nat
  pmm_chunks :: "chunk_ptr \<Rightarrow> uvm_gpu_chunk option"
  pmm_trackers :: "nat \<Rightarrow> uvm_tracker"
  pmm_free_list :: "uvm_pmm_gpu_memory_type \<Rightarrow> nat \<Rightarrow> chunk_ptr list"
  va_block_unused_root_chunks :: "chunk_ptr list"
  va_block_used_root_chunks :: "chunk_ptr list"
  inject_pma_evict_error_after_num_chunks :: u32
  pmm_supports_eviction :: bool
  pmm_kmem :: "nat \<Rightarrow> bool"
  pmm_calls :: nat
  pmm_pma_freed :: "(u64 \<times> u64 \<times> u32 \<times> bool) list"

text \<open>What waiting for a tracker sees, its fuel, and the allocations of trackers.\<close>

record pmm_waits =
  pw_env :: "nat \<Rightarrow> snapshot"
  pw_fuel :: nat
  pw_kv :: "nat \<Rightarrow> kv_alloc"

definition ch :: "uvm_pmm_gpu \<Rightarrow> chunk_ptr \<Rightarrow> uvm_gpu_chunk" where
  "ch s p = the (pmm_chunks s p)"

abbreviation cstate :: "uvm_pmm_gpu \<Rightarrow> chunk_ptr \<Rightarrow> uvm_pmm_gpu_chunk_state" where
  "cstate s p \<equiv> uvm_gpu_chunk_get_state (ch s p)"

abbreviation csize :: "uvm_pmm_gpu \<Rightarrow> chunk_ptr \<Rightarrow> uvm_chunk_size_t" where
  "csize s p \<equiv> uvm_gpu_chunk_get_size (ch s p)"

abbreviation ctype :: "uvm_pmm_gpu \<Rightarrow> chunk_ptr \<Rightarrow> uvm_pmm_gpu_memory_type" where
  "ctype s p \<equiv> uvm_gpu_chunk_get_type (ch s p)"

abbreviation caddr :: "uvm_pmm_gpu \<Rightarrow> chunk_ptr \<Rightarrow> u64" where
  "caddr s p \<equiv> chunk_address (ch s p)"

abbreviation cparent :: "uvm_pmm_gpu \<Rightarrow> chunk_ptr \<Rightarrow> chunk_ptr option" where
  "cparent s p \<equiv> chunk_parent (ch s p)"

abbreviation csub :: "uvm_pmm_gpu \<Rightarrow> chunk_ptr \<Rightarrow> uvm_pmm_gpu_chunk_suballoc" where
  "csub s p \<equiv> the (chunk_suballoc (ch s p))"

definition upd_chunk :: "chunk_ptr \<Rightarrow> (uvm_gpu_chunk \<Rightarrow> uvm_gpu_chunk) \<Rightarrow> uvm_pmm_gpu \<Rightarrow> uvm_pmm_gpu" where
  "upd_chunk p f s = s\<lparr>pmm_chunks := (pmm_chunks s)(p := Some (f (ch s p)))\<rparr>"

definition upd_suballoc ::
  "chunk_ptr \<Rightarrow> (uvm_pmm_gpu_chunk_suballoc \<Rightarrow> uvm_pmm_gpu_chunk_suballoc) \<Rightarrow> uvm_pmm_gpu \<Rightarrow> uvm_pmm_gpu" where
  "upd_suballoc p f = upd_chunk p (\<lambda>c. c\<lparr>chunk_suballoc := map_option f (chunk_suballoc c)\<rparr>)"

abbreviation set_cstate :: "chunk_ptr \<Rightarrow> uvm_pmm_gpu_chunk_state \<Rightarrow> uvm_pmm_gpu \<Rightarrow> uvm_pmm_gpu" where
  "set_cstate p st \<equiv> upd_chunk p (\<lambda>c. uvm_gpu_chunk_set_state c st)"

definition kmem_cache_alloc :: "uvm_pmm_gpu \<Rightarrow> bool \<times> chunk_ptr \<times> uvm_pmm_gpu" where
  "kmem_cache_alloc s = (pmm_kmem s (pmm_calls s), pmm_root_chunks_count s + pmm_calls s, s\<lparr>pmm_calls := Suc (pmm_calls s)\<rparr>)"

definition kmem_cache_free :: "chunk_ptr \<Rightarrow> uvm_pmm_gpu \<Rightarrow> uvm_pmm_gpu" where
  "kmem_cache_free p s = s\<lparr>pmm_chunks := (pmm_chunks s)(p := None)\<rparr>"

text \<open>The node of a chunk is on at most one list of the manager.\<close>

definition list_del_init :: "chunk_ptr \<Rightarrow> uvm_pmm_gpu \<Rightarrow> uvm_pmm_gpu" where
  "list_del_init p s =
     s\<lparr>pmm_free_list := (\<lambda>ty i. removeAll p (pmm_free_list s ty i)),
       va_block_unused_root_chunks := removeAll p (va_block_unused_root_chunks s),
       va_block_used_root_chunks := removeAll p (va_block_used_root_chunks s)\<rparr>"

definition list_move_tail_free :: "chunk_ptr \<Rightarrow> uvm_pmm_gpu_memory_type \<Rightarrow> nat \<Rightarrow> uvm_pmm_gpu \<Rightarrow> uvm_pmm_gpu" where
  "list_move_tail_free p ty i s =
     (let s = list_del_init p s
      in s\<lparr>pmm_free_list := (pmm_free_list s)(ty := (pmm_free_list s ty)(i := pmm_free_list s ty i @ [p]))\<rparr>)"

definition list_move_tail_used :: "chunk_ptr \<Rightarrow> uvm_pmm_gpu \<Rightarrow> uvm_pmm_gpu" where
  "list_move_tail_used p s =
     (let s = list_del_init p s in s\<lparr>va_block_used_root_chunks := va_block_used_root_chunks s @ [p]\<rparr>)"

definition list_move_tail_unused :: "chunk_ptr \<Rightarrow> uvm_pmm_gpu \<Rightarrow> uvm_pmm_gpu" where
  "list_move_tail_unused p s =
     (let s = list_del_init p s in s\<lparr>va_block_unused_root_chunks := va_block_unused_root_chunks s @ [p]\<rparr>)"

definition list_first_chunk :: "chunk_ptr list \<Rightarrow> chunk_ptr option" where
  "list_first_chunk l = (case l of [] \<Rightarrow> None | p # _ \<Rightarrow> Some p)"

section \<open>Root chunks\<close>

definition root_chunk_from_address :: "u64 \<Rightarrow> chunk_ptr" where
  "root_chunk_from_address addr = unat (addr div ucast UVM_CHUNK_SIZE_MAX)"

definition root_chunk_from_chunk :: "uvm_pmm_gpu \<Rightarrow> chunk_ptr \<Rightarrow> chunk_ptr" where
  "root_chunk_from_chunk s p = root_chunk_from_address (caddr s p)"

definition chunk_is_root_chunk :: "uvm_pmm_gpu \<Rightarrow> chunk_ptr \<Rightarrow> bool" where
  "chunk_is_root_chunk s p \<longleftrightarrow> csize s p = UVM_CHUNK_SIZE_MAX"

definition chunk_is_root_chunk_pinned :: "uvm_pmm_gpu \<Rightarrow> chunk_ptr \<Rightarrow> bool" where
  "chunk_is_root_chunk_pinned s p =
     (let r = root_chunk_from_chunk s p
      in if cstate s r = UVM_PMM_GPU_CHUNK_STATE_TEMP_PINNED then True
         else if cstate s r \<noteq> UVM_PMM_GPU_CHUNK_STATE_IS_SPLIT then False
         else 0 < sa_pinned_leaf_chunks (csub s r))"

definition chunk_pin :: "chunk_ptr \<Rightarrow> uvm_pmm_gpu \<Rightarrow> uvm_pmm_gpu" where
  "chunk_pin p s =
     (let r = root_chunk_from_chunk s p;
          s = set_cstate p UVM_PMM_GPU_CHUNK_STATE_TEMP_PINNED s
      in if chunk_is_root_chunk s p then s
         else upd_suballoc r (\<lambda>sa. sa\<lparr>sa_pinned_leaf_chunks := sa_pinned_leaf_chunks sa + 1\<rparr>) s)"

definition chunk_unpin :: "chunk_ptr \<Rightarrow> uvm_pmm_gpu_chunk_state \<Rightarrow> uvm_pmm_gpu \<Rightarrow> uvm_pmm_gpu" where
  "chunk_unpin p new_state s =
     (let r = root_chunk_from_chunk s p;
          s = set_cstate p new_state s
      in if chunk_is_root_chunk s p then s
         else upd_suballoc r (\<lambda>sa. sa\<lparr>sa_pinned_leaf_chunks := sa_pinned_leaf_chunks sa - 1\<rparr>) s)"

definition chunk_is_in_eviction :: "uvm_pmm_gpu \<Rightarrow> chunk_ptr \<Rightarrow> bool" where
  "chunk_is_in_eviction s p \<longleftrightarrow> uvm_gpu_chunk_is_in_eviction (ch s (root_chunk_from_chunk s p))"

section \<open>Lists\<close>

definition find_free_list :: "uvm_pmm_gpu \<Rightarrow> uvm_pmm_gpu_memory_type \<Rightarrow> uvm_chunk_size_t \<Rightarrow> nat" where
  "find_free_list s type chunk_size = hweight_long (pmm_chunk_sizes s type AND (chunk_size - 1))"

definition find_free_list_chunk :: "uvm_pmm_gpu \<Rightarrow> chunk_ptr \<Rightarrow> nat" where
  "find_free_list_chunk s p = find_free_list s (ctype s p) (csize s p)"

definition chunk_update_lists_locked :: "chunk_ptr \<Rightarrow> uvm_pmm_gpu \<Rightarrow> uvm_pmm_gpu" where
  "chunk_update_lists_locked p s =
     (let r = root_chunk_from_chunk s p;
          chunk_type = ctype s p; chunk_state = cstate s p; root_chunk_state = cstate s r;
          s = (if chunk_type = UVM_PMM_GPU_MEMORY_TYPE_USER then
                 if chunk_is_root_chunk_pinned s p then list_del_init r s
                 else if root_chunk_state \<noteq> UVM_PMM_GPU_CHUNK_STATE_FREE then list_move_tail_used r s
                 else s
               else s)
      in if chunk_state = UVM_PMM_GPU_CHUNK_STATE_FREE then list_move_tail_free p (ctype s p) (find_free_list_chunk s p) s
         else if chunk_state = UVM_PMM_GPU_CHUNK_STATE_TEMP_PINNED then list_del_init p s
         else s)"

definition uvm_pmm_gpu_unpin_temp :: "chunk_ptr \<Rightarrow> nat \<Rightarrow> uvm_pmm_gpu \<Rightarrow> uvm_pmm_gpu" where
  "uvm_pmm_gpu_unpin_temp p va_block s =
     (let s = list_del_init p s;
          s = chunk_unpin p UVM_PMM_GPU_CHUNK_STATE_ALLOCATED s;
          s = upd_chunk p (\<lambda>c. c\<lparr>chunk_va_block := Some va_block\<rparr>) s
      in chunk_update_lists_locked p s)"

section \<open>Splitting and merging\<close>

definition num_subchunks :: "uvm_pmm_gpu \<Rightarrow> chunk_ptr \<Rightarrow> u32" where
  "num_subchunks s parent =
     (let parent_size = csize s parent; child_size = csize s (sa_subchunks (csub s parent) ! 0)
      in ucast (uvm_div_pow2_64 (ucast parent_size) (ucast child_size)))"

definition next_sibling :: "uvm_pmm_gpu \<Rightarrow> chunk_ptr \<Rightarrow> chunk_ptr option" where
  "next_sibling s p =
     (let parent = the (cparent s p);
          index = unat (uvm_div_pow2_64 (caddr s p - caddr s parent) (ucast (csize s p))) + 1
      in if index = unat (num_subchunks s parent) then None else Some (sa_subchunks (csub s parent) ! index))"

definition new_subchunk :: "uvm_gpu_chunk \<Rightarrow> chunk_ptr \<Rightarrow> uvm_chunk_size_t \<Rightarrow> nat \<Rightarrow> uvm_gpu_chunk" where
  "new_subchunk c p subchunk_size i =
     (let state = uvm_gpu_chunk_get_state c;
          sub = \<lparr>chunk_address = chunk_address c + ucast (of_nat i * subchunk_size), chunk_flags = 0, chunk_va_block = None,
                 chunk_parent = Some p, chunk_suballoc = None\<rparr>;
          sub = uvm_gpu_chunk_set_type sub (uvm_gpu_chunk_get_type c);
          sub = uvm_gpu_chunk_set_size sub subchunk_size;
          sub = uvm_gpu_chunk_set_state sub state
      in if state = UVM_PMM_GPU_CHUNK_STATE_ALLOCATED then sub\<lparr>chunk_va_block := chunk_va_block c\<rparr> else sub)"

text \<open>Allocates \<open>n\<close> more subchunks, from the one of index \<open>i\<close> on.\<close>

fun alloc_subchunks ::
  "uvm_gpu_chunk \<Rightarrow> chunk_ptr \<Rightarrow> uvm_chunk_size_t \<Rightarrow> nat \<Rightarrow> nat \<Rightarrow> chunk_ptr list \<Rightarrow> uvm_pmm_gpu \<Rightarrow>
   nv_status \<times> chunk_ptr list \<times> uvm_pmm_gpu" where
  "alloc_subchunks c p subchunk_size 0 i subs s = (NV_OK, subs, s)"
| "alloc_subchunks c p subchunk_size (Suc n) i subs s =
     (if uvm_gpu_chunk_get_inject_split_error c \<and> n = 0 then (NV_ERR_NO_MEMORY, subs, s)
      else let (ok, sub, s) = kmem_cache_alloc s
           in if \<not> ok then (NV_ERR_NO_MEMORY, subs, s)
              else alloc_subchunks c p subchunk_size n (Suc i) (subs @ [sub])
                     (s\<lparr>pmm_chunks := (pmm_chunks s)(sub := Some (new_subchunk c p subchunk_size i))\<rparr>))"

definition split_gpu_chunk :: "chunk_ptr \<Rightarrow> uvm_pmm_gpu \<Rightarrow> nv_status \<times> uvm_pmm_gpu" where
  "split_gpu_chunk p s =
     (let c = ch s p;
          type = ctype s p; state = cstate s p; chunk_size = csize s p;
          subchunk_size = uvm_chunk_find_prev_size (pmm_chunk_sizes s type) chunk_size;
          num_sub = unat (chunk_size div subchunk_size);
          r = root_chunk_from_chunk s p;
          (ok, _, s) = kmem_cache_alloc s
      in if \<not> ok then (NV_ERR_NO_MEMORY, s)
         else
           let (status, subs, s) = alloc_subchunks c p subchunk_size num_sub 0 [] s
           in if status \<noteq> NV_OK then (status, fold kmem_cache_free subs s)
              else
                let s = upd_chunk p (\<lambda>c. c\<lparr>chunk_suballoc :=
                          Some \<lparr>sa_allocated = of_nat num_sub, sa_pinned_leaf_chunks = 0, sa_subchunks = subs\<rparr>\<rparr>) s;
                    s = (if state = UVM_PMM_GPU_CHUNK_STATE_ALLOCATED then upd_chunk p (\<lambda>c. c\<lparr>chunk_va_block := None\<rparr>) s
                         else if state = UVM_PMM_GPU_CHUNK_STATE_TEMP_PINNED then
                           let s = upd_suballoc r (\<lambda>sa. sa\<lparr>sa_pinned_leaf_chunks := sa_pinned_leaf_chunks sa + (of_nat num_sub - 1)\<rparr>) s
                           in if chunk_is_root_chunk s p
                              then upd_suballoc r (\<lambda>sa. sa\<lparr>sa_pinned_leaf_chunks := sa_pinned_leaf_chunks sa + 1\<rparr>) s
                              else s
                         else s)
                in (NV_OK, set_cstate p UVM_PMM_GPU_CHUNK_STATE_IS_SPLIT s))"

definition merge_gpu_chunk :: "chunk_ptr \<Rightarrow> uvm_pmm_gpu \<Rightarrow> uvm_pmm_gpu" where
  "merge_gpu_chunk p s =
     (let r = root_chunk_from_chunk s p;
          num_sub = num_subchunks s p;
          first = sa_subchunks (csub s p) ! 0;
          child_state = cstate s first;
          s = (if child_state = UVM_PMM_GPU_CHUNK_STATE_ALLOCATED
               then upd_chunk p (\<lambda>c. c\<lparr>chunk_va_block := chunk_va_block (ch s first)\<rparr>) s
               else if child_state = UVM_PMM_GPU_CHUNK_STATE_TEMP_PINNED
               then upd_suballoc r (\<lambda>sa. sa\<lparr>sa_pinned_leaf_chunks := sa_pinned_leaf_chunks sa + (1 - num_sub)\<rparr>) s
               else s);
          s = set_cstate p child_state s;
          subchunks = take (unat num_sub) (sa_subchunks (csub s p));
          s = upd_chunk p (\<lambda>c. c\<lparr>chunk_suballoc := None\<rparr>) s
      in fold kmem_cache_free subchunks s)"

section \<open>Claiming and freeing\<close>

text \<open>Chunks under a root chunk that is being evicted are taken off the list.\<close>

fun drop_evicted :: "chunk_ptr list \<Rightarrow> uvm_pmm_gpu \<Rightarrow> uvm_pmm_gpu" where
  "drop_evicted [] s = s"
| "drop_evicted (p # ps) s = (if chunk_is_in_eviction s p then drop_evicted ps (list_del_init p s) else s)"

definition claim_free_chunk ::
  "uvm_pmm_gpu_memory_type \<Rightarrow> uvm_chunk_size_t \<Rightarrow> uvm_pmm_gpu \<Rightarrow> chunk_ptr option \<times> uvm_pmm_gpu" where
  "claim_free_chunk type chunk_size s =
     (let i = find_free_list s type chunk_size;
          s = drop_evicted (pmm_free_list s type i) s
      in case list_first_chunk (pmm_free_list s type i) of
           None \<Rightarrow> (None, s)
         | Some p \<Rightarrow>
             (let s = (case cparent s p of
                         None \<Rightarrow> s
                       | Some q \<Rightarrow> upd_suballoc q (\<lambda>sa. sa\<lparr>sa_allocated := sa_allocated sa + 1\<rparr>) s);
                  s = chunk_pin p s;
                  s = chunk_update_lists_locked p s
              in (Some p, s)))"

definition chunk_is_last_allocated_child :: "uvm_pmm_gpu \<Rightarrow> chunk_ptr \<Rightarrow> bool" where
  "chunk_is_last_allocated_child s p = (case cparent s p of None \<Rightarrow> False | Some q \<Rightarrow> sa_allocated (csub s q) = 1)"

definition chunk_free_locked :: "chunk_ptr \<Rightarrow> uvm_pmm_gpu \<Rightarrow> uvm_pmm_gpu" where
  "chunk_free_locked p s =
     (let r = root_chunk_from_chunk s p; chunk_state = cstate s p
      in if uvm_gpu_chunk_is_in_eviction (ch s r) then chunk_pin p (upd_chunk p (\<lambda>c. c\<lparr>chunk_va_block := None\<rparr>) s)
         else
           let s = (case cparent s p of
                      None \<Rightarrow> s
                    | Some q \<Rightarrow> upd_suballoc q (\<lambda>sa. sa\<lparr>sa_allocated := sa_allocated sa - 1\<rparr>) s);
               s = (if chunk_state = UVM_PMM_GPU_CHUNK_STATE_TEMP_PINNED then chunk_unpin p UVM_PMM_GPU_CHUNK_STATE_FREE s
                    else upd_chunk p (\<lambda>c. (uvm_gpu_chunk_set_state c UVM_PMM_GPU_CHUNK_STATE_FREE)\<lparr>chunk_va_block := None\<rparr>) s)
           in chunk_update_lists_locked p s)"

definition try_chunk_free :: "chunk_ptr \<Rightarrow> uvm_pmm_gpu \<Rightarrow> bool \<times> uvm_pmm_gpu" where
  "try_chunk_free p s = (if chunk_is_last_allocated_child s p then (False, s) else (True, chunk_free_locked p s))"

text \<open>Takes the free chunks under \<open>q\<close> off their list and pins them.\<close>

fun pin_subchunks :: "chunk_ptr list \<Rightarrow> uvm_pmm_gpu \<Rightarrow> uvm_pmm_gpu" where
  "pin_subchunks [] s = s"
| "pin_subchunks (p # ps) s = pin_subchunks ps (set_cstate p UVM_PMM_GPU_CHUNK_STATE_TEMP_PINNED (list_del_init p s))"

definition free_or_prepare_for_merge :: "chunk_ptr \<Rightarrow> uvm_pmm_gpu \<Rightarrow> chunk_ptr option \<times> uvm_pmm_gpu" where
  "free_or_prepare_for_merge p s =
     (case cparent s p of
        None \<Rightarrow> (None, snd (try_chunk_free p s))
      | Some q \<Rightarrow>
          (let is_last = chunk_is_last_allocated_child s p;
               s = chunk_free_locked p s
           in if \<not> is_last then (None, s)
              else
                let num_sub = num_subchunks s q;
                    s = pin_subchunks (take (unat num_sub) (sa_subchunks (csub s q))) s;
                    s = upd_suballoc (root_chunk_from_chunk s p)
                          (\<lambda>sa. sa\<lparr>sa_pinned_leaf_chunks := sa_pinned_leaf_chunks sa + num_sub\<rparr>) s;
                    s = upd_suballoc q (\<lambda>sa. sa\<lparr>sa_allocated := num_sub\<rparr>) s
                in (Some q, s)))"

text \<open>\<open>None\<close>: out of fuel, which bounds the levels.\<close>

fun free_chunk_with_merges :: "nat \<Rightarrow> chunk_ptr \<Rightarrow> uvm_pmm_gpu \<Rightarrow> uvm_pmm_gpu option" where
  "free_chunk_with_merges 0 p s = None"
| "free_chunk_with_merges (Suc fuel) p s =
     (case free_or_prepare_for_merge p s of
        (None, s) \<Rightarrow> Some s
      | (Some q, s) \<Rightarrow> free_chunk_with_merges fuel q (merge_gpu_chunk q s))"

definition MERGE_FUEL :: nat where
  "MERGE_FUEL = 23"

datatype free_root_chunk_mode = FREE_ROOT_CHUNK_MODE_DEFAULT | FREE_ROOT_CHUNK_MODE_PMA_EVICTION | FREE_ROOT_CHUNK_MODE_SKIP_PMA_FREE

text \<open>\<open>None\<close>: the wait for the chunk's tracker does not end within its fuel.\<close>

definition free_root_chunk :: "pmm_waits \<Rightarrow> chunk_ptr \<Rightarrow> free_root_chunk_mode \<Rightarrow> uvm_pmm_gpu \<Rightarrow> uvm_pmm_gpu option" where
  "free_root_chunk w r free_mode s =
     (case uvm_tracker_wait_deinit (pw_env w) (pw_fuel w) (pmm_trackers s r) of
        None \<Rightarrow> None
      | Some (status, tracker) \<Rightarrow>
          (let s = s\<lparr>pmm_trackers := (pmm_trackers s)(r := tracker)\<rparr>;
               s = chunk_unpin r UVM_PMM_GPU_CHUNK_STATE_PMA_OWNED s
           in if free_mode = FREE_ROOT_CHUNK_MODE_SKIP_PMA_FREE then Some s
              else Some (s\<lparr>pmm_pma_freed := pmm_pma_freed s @
                     [(caddr s r, 1, UVM_CHUNK_SIZE_MAX, free_mode = FREE_ROOT_CHUNK_MODE_PMA_EVICTION)]\<rparr>)))"

definition free_next_available_root_chunk :: "pmm_waits \<Rightarrow> uvm_pmm_gpu \<Rightarrow> uvm_pmm_gpu option" where
  "free_next_available_root_chunk w s =
     (let first = (\<lambda>type. list_first_chunk (pmm_free_list s type (find_free_list s type UVM_CHUNK_SIZE_MAX)))
      in case (case first UVM_PMM_GPU_MEMORY_TYPE_USER of None \<Rightarrow> first UVM_PMM_GPU_MEMORY_TYPE_KERNEL | Some p \<Rightarrow> Some p) of
           None \<Rightarrow> Some s
         | Some p \<Rightarrow>
             (let s = chunk_pin p (list_del_init p s)
              in free_root_chunk w (root_chunk_from_chunk s p) FREE_ROOT_CHUNK_MODE_DEFAULT s))"

definition free_chunk :: "pmm_waits \<Rightarrow> chunk_ptr \<Rightarrow> uvm_pmm_gpu \<Rightarrow> uvm_pmm_gpu option" where
  "free_chunk w p s =
     (let is_root = chunk_is_root_chunk s p;
          s = upd_chunk p uvm_gpu_chunk_clear_inject_split_error s;
          (freed, s) = try_chunk_free p s
      in if freed then if is_root then free_next_available_root_chunk w s else Some s
         else case free_chunk_with_merges MERGE_FUEL p s of
                None \<Rightarrow> None
              | Some s \<Rightarrow> free_next_available_root_chunk w s)"

text \<open>\<^verbatim>\<open>uvm_tracker_add_tracker_safe\<close> on two trackers that are not the same: the status and both after it.\<close>

definition add_tracker_safe :: "pmm_waits \<Rightarrow> uvm_tracker \<Rightarrow> uvm_tracker \<Rightarrow> (nv_status \<times> uvm_tracker \<times> uvm_tracker) option" where
  "add_tracker_safe w dst src =
     map_option (\<lambda>(status, st). (status, st 0, st 1))
       (uvm_tracker_add_tracker_safe (pw_kv w) (pw_env w) (pw_fuel w) ((\<lambda>_. src)(0 := dst)) 0 1)"

definition uvm_pmm_gpu_free :: "pmm_waits \<Rightarrow> chunk_ptr option \<Rightarrow> uvm_tracker option \<Rightarrow> uvm_pmm_gpu \<Rightarrow> uvm_pmm_gpu option" where
  "uvm_pmm_gpu_free w chunk tracker s =
     (case chunk of
        None \<Rightarrow> Some s
      | Some p \<Rightarrow>
          (let r = root_chunk_from_chunk s p
           in case (case tracker of
                      None \<Rightarrow> Some s
                    | Some tracker \<Rightarrow>
                        (let tracker = uvm_tracker_remove_completed (pw_env w 0) tracker;
                             root_tracker = uvm_tracker_remove_completed (pw_env w 0) (pmm_trackers s r)
                         in map_option (\<lambda>(status, t, _). s\<lparr>pmm_trackers := (pmm_trackers s)(r := t)\<rparr>)
                              (add_tracker_safe w root_tracker tracker))) of
                None \<Rightarrow> None
              | Some s \<Rightarrow> free_chunk w p s))"

end
