(* ===== verification/Pmm_Evict.thy ===== *)
theory Pmm_Evict
  imports Pmm_Gpu
begin

text \<open>
  Walks of the chunk tree, in-place splits and merges, and eviction (\<^verbatim>\<open>uvm8_pmm_gpu.c\<close>). What moving the pages of
  a VA block off the GPU does is an argument; it is the VA block's part of the contract of eviction.
\<close>

section \<open>Walking the tree of chunks\<close>

datatype chunk_walk_order = CHUNK_WALK_PRE_ORDER | CHUNK_WALK_POST_ORDER

type_synonym 'd chunk_walk_func = "chunk_ptr \<Rightarrow> 'd \<Rightarrow> uvm_pmm_gpu \<Rightarrow> (nv_status \<times> 'd \<times> uvm_pmm_gpu) option"

text \<open>The inner loop: from a leaf up to the next sibling, or to the start. \<open>None\<close>: out of fuel.\<close>

fun chunk_walk_up ::
  "chunk_walk_order \<Rightarrow> 'd chunk_walk_func \<Rightarrow> chunk_ptr \<Rightarrow> nat \<Rightarrow> chunk_ptr \<Rightarrow> 'd \<Rightarrow> uvm_pmm_gpu \<Rightarrow>
   (nv_status \<times> chunk_ptr \<times> 'd \<times> uvm_pmm_gpu) option" where
  "chunk_walk_up ord func start 0 cur d s = None"
| "chunk_walk_up ord func start (Suc fuel) cur d s =
     (if cur = start then Some (NV_OK, cur, d, s)
      else case (if ord = CHUNK_WALK_POST_ORDER then func cur d s else Some (NV_OK, d, s)) of
             None \<Rightarrow> None
           | Some (status, d, s) \<Rightarrow>
               if status \<noteq> NV_OK then Some (status, cur, d, s)
               else case next_sibling s cur of
                      Some sibling \<Rightarrow> Some (NV_OK, sibling, d, s)
                    | None \<Rightarrow> chunk_walk_up ord func start fuel (the (cparent s cur)) d s)"

fun chunk_walk_loop ::
  "chunk_walk_order \<Rightarrow> 'd chunk_walk_func \<Rightarrow> chunk_ptr \<Rightarrow> nat \<Rightarrow> chunk_ptr \<Rightarrow> 'd \<Rightarrow> uvm_pmm_gpu \<Rightarrow>
   (nv_status \<times> 'd \<times> uvm_pmm_gpu) option" where
  "chunk_walk_loop ord func start 0 cur d s = None"
| "chunk_walk_loop ord func start (Suc fuel) cur d s =
     (case (if ord = CHUNK_WALK_PRE_ORDER then func cur d s else Some (NV_OK, d, s)) of
        None \<Rightarrow> None
      | Some (status, d, s) \<Rightarrow>
          if status \<noteq> NV_OK \<and> status \<noteq> NV_WARN_NOTHING_TO_DO then Some (status, d, s)
          else
            case (if status \<noteq> NV_WARN_NOTHING_TO_DO \<and> cstate s cur = UVM_PMM_GPU_CHUNK_STATE_IS_SPLIT
                  then Some (NV_OK, sa_subchunks (csub s cur) ! 0, d, s)
                  else chunk_walk_up ord func start (Suc fuel) cur d s) of
              None \<Rightarrow> None
            | Some (status, cur, d, s) \<Rightarrow>
                if status \<noteq> NV_OK then Some (status, d, s)
                else if cur \<noteq> start then chunk_walk_loop ord func start fuel cur d s
                else if ord = CHUNK_WALK_POST_ORDER then func cur d s
                else Some (NV_OK, d, s))"

definition chunk_walk ::
  "nat \<Rightarrow> chunk_ptr \<Rightarrow> 'd chunk_walk_func \<Rightarrow> 'd \<Rightarrow> chunk_walk_order \<Rightarrow> uvm_pmm_gpu \<Rightarrow> (nv_status \<times> 'd \<times> uvm_pmm_gpu) option" where
  "chunk_walk fuel start func d ord s = chunk_walk_loop ord func start fuel start d s"

definition chunk_walk_pre_order ::
  "nat \<Rightarrow> chunk_ptr \<Rightarrow> 'd chunk_walk_func \<Rightarrow> 'd \<Rightarrow> uvm_pmm_gpu \<Rightarrow> (nv_status \<times> 'd \<times> uvm_pmm_gpu) option" where
  "chunk_walk_pre_order fuel start func d = chunk_walk fuel start func d CHUNK_WALK_PRE_ORDER"

definition chunk_walk_post_order ::
  "nat \<Rightarrow> chunk_ptr \<Rightarrow> 'd chunk_walk_func \<Rightarrow> 'd \<Rightarrow> uvm_pmm_gpu \<Rightarrow> (nv_status \<times> 'd \<times> uvm_pmm_gpu) option" where
  "chunk_walk_post_order fuel start func d = chunk_walk fuel start func d CHUNK_WALK_POST_ORDER"

section \<open>Splitting and merging in place\<close>

record split_walk =
  sw_min_size :: uvm_chunk_size_t
  sw_num_subchunks_curr :: nat
  sw_num_subchunks_total :: nat
  sw_subchunks :: "chunk_ptr list"
  sw_inject_error :: bool

text \<open>The caller's array holds what has been written so far.\<close>

definition split_walk_func :: "split_walk chunk_walk_func" where
  "split_walk_func p args s =
     (let chunk_size = csize s p;
          child_size = uvm_chunk_find_prev_size (pmm_chunk_sizes s (ctype s p)) chunk_size;
          num_children = unat (chunk_size div child_size);
          s = (if sw_inject_error args \<and> child_size = sw_min_size args \<and>
                  sw_num_subchunks_curr args + num_children = sw_num_subchunks_total args
               then upd_chunk p uvm_gpu_chunk_set_inject_split_error s else s);
          (status, s) = split_gpu_chunk p s
      in if status \<noteq> NV_OK then Some (status, args, s)
         else if child_size = sw_min_size args then
           Some (NV_WARN_NOTHING_TO_DO,
             args\<lparr>sw_subchunks := sw_subchunks args @ take num_children (sa_subchunks (csub s p)),
                  sw_num_subchunks_curr := sw_num_subchunks_curr args + num_children\<rparr>, s)
         else Some (NV_OK, args, s))"

definition merge_walk_func :: "unit chunk_walk_func" where
  "merge_walk_func p u s =
     Some (NV_OK, u, if cstate s p = UVM_PMM_GPU_CHUNK_STATE_IS_SPLIT then merge_gpu_chunk p s else s)"

definition uvm_pmm_gpu_merge_chunk_locked :: "nat \<Rightarrow> chunk_ptr \<Rightarrow> uvm_pmm_gpu \<Rightarrow> uvm_pmm_gpu option" where
  "uvm_pmm_gpu_merge_chunk_locked fuel p s = map_option (\<lambda>(status, u, s). s) (chunk_walk_post_order fuel p merge_walk_func () s)"

definition uvm_pmm_gpu_merge_chunk :: "nat \<Rightarrow> chunk_ptr \<Rightarrow> uvm_pmm_gpu \<Rightarrow> uvm_pmm_gpu option" where
  "uvm_pmm_gpu_merge_chunk fuel p s = uvm_pmm_gpu_merge_chunk_locked fuel p s"

definition uvm_pmm_gpu_split_chunk ::
  "nat \<Rightarrow> chunk_ptr \<Rightarrow> uvm_chunk_size_t \<Rightarrow> uvm_pmm_gpu \<Rightarrow> (nv_status \<times> chunk_ptr list \<times> uvm_pmm_gpu) option" where
  "uvm_pmm_gpu_split_chunk fuel p subchunk_size s =
     (let inject = uvm_gpu_chunk_get_inject_split_error (ch s p);
          walk_args = \<lparr>sw_min_size = subchunk_size, sw_num_subchunks_curr = 0,
                       sw_num_subchunks_total = unat (csize s p div subchunk_size), sw_subchunks = [], sw_inject_error = inject\<rparr>;
          s = (if inject then upd_chunk p uvm_gpu_chunk_clear_inject_split_error s else s)
      in case chunk_walk_pre_order fuel p split_walk_func walk_args s of
           None \<Rightarrow> None
         | Some (status, args, s) \<Rightarrow>
             if status \<noteq> NV_OK then map_option (\<lambda>s. (status, sw_subchunks args, s)) (uvm_pmm_gpu_merge_chunk_locked fuel p s)
             else Some (status, sw_subchunks args, s))"

record get_subchunks_walk =
  gw_num_to_write :: nat
  gw_num_to_skip :: nat
  gw_subchunks :: "chunk_ptr list"

definition get_subchunks_walk_func :: "get_subchunks_walk chunk_walk_func" where
  "get_subchunks_walk_func p args s =
     Some (if cstate s p = UVM_PMM_GPU_CHUNK_STATE_IS_SPLIT then (NV_OK, args, s)
           else if gw_num_to_skip args \<noteq> 0 then (NV_OK, args\<lparr>gw_num_to_skip := gw_num_to_skip args - 1\<rparr>, s)
           else
             let args = args\<lparr>gw_subchunks := gw_subchunks args @ [p]\<rparr>
             in if length (gw_subchunks args) = gw_num_to_write args then (NV_ERR_OUT_OF_RANGE, args, s) else (NV_OK, args, s))"

text \<open>The array written; its length is what the function returns.\<close>

definition uvm_pmm_gpu_get_subchunks :: "nat \<Rightarrow> chunk_ptr \<Rightarrow> nat \<Rightarrow> nat \<Rightarrow> uvm_pmm_gpu \<Rightarrow> (chunk_ptr list \<times> uvm_pmm_gpu) option" where
  "uvm_pmm_gpu_get_subchunks fuel parent start_index num s =
     (if num = 0 then Some ([], s)
      else map_option (\<lambda>(status, args, s). (gw_subchunks args, s))
             (chunk_walk_post_order fuel parent get_subchunks_walk_func
                \<lparr>gw_num_to_write = num, gw_num_to_skip = start_index, gw_subchunks = []\<rparr> s))"

section \<open>Eviction\<close>

text \<open>
  \<open>ev_block n va_block r s\<close> is the \<open>n\<close>-th \<^verbatim>\<open>uvm_va_block_evict_chunks\<close>, run without the mutex: its status, the tracker
  of the copies and the manager afterwards. \<open>ev_pin n\<close> is the \<open>n\<close>-th \<^verbatim>\<open>nvUvmInterfacePmaPinPages\<close>.
\<close>

record evict_env =
  ev_block :: "nat \<Rightarrow> nat \<Rightarrow> chunk_ptr \<Rightarrow> uvm_pmm_gpu \<Rightarrow> nv_status \<times> uvm_tracker \<times> uvm_pmm_gpu"
  ev_pin :: "nat \<Rightarrow> nv_status"
  ev_waits :: pmm_waits
  ev_walk_fuel :: nat

definition uvm_pmm_gpu_mark_chunk_evicted :: "chunk_ptr \<Rightarrow> uvm_pmm_gpu \<Rightarrow> uvm_pmm_gpu" where
  "uvm_pmm_gpu_mark_chunk_evicted p s = chunk_pin p (upd_chunk p (\<lambda>c. c\<lparr>chunk_va_block := None\<rparr>) s)"

definition evict_root_chunk_from_va_block ::
  "evict_env \<Rightarrow> nat \<Rightarrow> chunk_ptr \<Rightarrow> nat \<Rightarrow> uvm_pmm_gpu \<Rightarrow> (nv_status \<times> uvm_pmm_gpu) option" where
  "evict_root_chunk_from_va_block ev n r va_block s =
     (let (status, tracker, s) = ev_block ev n va_block r s
      in if status = NV_OK
         then map_option (\<lambda>(status, t, _). (status, s\<lparr>pmm_trackers := (pmm_trackers s)(r := t)\<rparr>))
                (add_tracker_safe (ev_waits ev) (pmm_trackers s r) tracker)
         else Some (status, s))"

definition pin_free_chunks_func :: "unit chunk_walk_func" where
  "pin_free_chunks_func p u s =
     Some (NV_OK, u,
       if cstate s p = UVM_PMM_GPU_CHUNK_STATE_FREE then
         (let s = chunk_pin p (list_del_init p s)
          in case cparent s p of
               None \<Rightarrow> s
             | Some q \<Rightarrow> upd_suballoc q (\<lambda>sa. sa\<lparr>sa_allocated := sa_allocated sa + 1\<rparr>) s)
       else s)"

definition free_first_pinned_chunk_func :: "unit chunk_walk_func" where
  "free_first_pinned_chunk_func p u s =
     (if cstate s p = UVM_PMM_GPU_CHUNK_STATE_TEMP_PINNED
      then map_option (\<lambda>s. (NV_ERR_MORE_DATA_AVAILABLE, u, s)) (free_chunk_with_merges MERGE_FUEL p s)
      else Some (NV_OK, u, s))"

text \<open>The block found is retained until its pages are moved.\<close>

definition find_and_retain_va_block_to_evict :: "nat option chunk_walk_func" where
  "find_and_retain_va_block_to_evict p found s =
     Some (if cstate s p = UVM_PMM_GPU_CHUNK_STATE_ALLOCATED then (NV_ERR_MORE_DATA_AVAILABLE, chunk_va_block (ch s p), s)
           else (NV_OK, found, s))"

text \<open>The loop over the VA blocks that have chunks under the root chunk: the last status.\<close>

fun evict_blocks_loop :: "evict_env \<Rightarrow> nat \<Rightarrow> nat \<Rightarrow> chunk_ptr \<Rightarrow> uvm_pmm_gpu \<Rightarrow> (nv_status \<times> uvm_pmm_gpu) option" where
  "evict_blocks_loop ev 0 n r s = None"
| "evict_blocks_loop ev (Suc fuel) n r s =
     (case chunk_walk_pre_order (ev_walk_fuel ev) r find_and_retain_va_block_to_evict None s of
        None \<Rightarrow> None
      | Some (status, found, s) \<Rightarrow>
          if status \<noteq> NV_ERR_MORE_DATA_AVAILABLE then Some (NV_OK, s)
          else case evict_root_chunk_from_va_block ev n r (the found) s of
                 None \<Rightarrow> None
               | Some (status, s) \<Rightarrow>
                   if status \<noteq> NV_OK then Some (status, s) else evict_blocks_loop ev fuel (Suc n) r s)"

fun free_pinned_loop :: "evict_env \<Rightarrow> nat \<Rightarrow> chunk_ptr \<Rightarrow> uvm_pmm_gpu \<Rightarrow> uvm_pmm_gpu option" where
  "free_pinned_loop ev 0 r s = None"
| "free_pinned_loop ev (Suc fuel) r s =
     (case chunk_walk_pre_order (ev_walk_fuel ev) r free_first_pinned_chunk_func () s of
        None \<Rightarrow> None
      | Some (status, u, s) \<Rightarrow> if status = NV_ERR_MORE_DATA_AVAILABLE then free_pinned_loop ev fuel r s else Some s)"

definition evict_root_chunk :: "evict_env \<Rightarrow> nat \<Rightarrow> nat \<Rightarrow> chunk_ptr \<Rightarrow> uvm_pmm_gpu \<Rightarrow> (nv_status \<times> uvm_pmm_gpu) option" where
  "evict_root_chunk ev fuel n r s =
     (case chunk_walk_pre_order (ev_walk_fuel ev) r pin_free_chunks_func () s of
        None \<Rightarrow> None
      | Some (_, _, s) \<Rightarrow>
          (case evict_blocks_loop ev fuel n r s of
             None \<Rightarrow> None
           | Some (status, s) \<Rightarrow>
               if status = NV_OK then
                 map_option (\<lambda>s. (NV_OK, upd_chunk r (\<lambda>c. uvm_gpu_chunk_set_in_eviction c False) s))
                   (uvm_pmm_gpu_merge_chunk_locked (ev_walk_fuel ev) r s)
               else
                 let s = upd_chunk r (\<lambda>c. uvm_gpu_chunk_set_in_eviction c False) s;
                     s = chunk_update_lists_locked r s
                 in case free_pinned_loop ev fuel r s of
                      None \<Rightarrow> None
                    | Some s \<Rightarrow> map_option (\<lambda>s. (status, s)) (free_next_available_root_chunk (ev_waits ev) s)))"

definition chunk_is_evictable :: "uvm_pmm_gpu \<Rightarrow> chunk_ptr \<Rightarrow> bool" where
  "chunk_is_evictable s p =
     (let r = root_chunk_from_chunk s p
      in if cstate s r = UVM_PMM_GPU_CHUNK_STATE_PMA_OWNED then False
         else if chunk_is_root_chunk_pinned s p then False
         else if chunk_is_in_eviction s p then False
         else True)"

definition chunk_start_eviction :: "chunk_ptr \<Rightarrow> uvm_pmm_gpu \<Rightarrow> uvm_pmm_gpu" where
  "chunk_start_eviction p s =
     (let r = root_chunk_from_chunk s p
      in upd_chunk r (\<lambda>c. uvm_gpu_chunk_set_in_eviction c True) (list_del_init r s))"

definition uvm_pmm_gpu_mark_root_chunk_used :: "chunk_ptr \<Rightarrow> uvm_pmm_gpu \<Rightarrow> uvm_pmm_gpu" where
  "uvm_pmm_gpu_mark_root_chunk_used p s =
     (if \<not> chunk_is_root_chunk_pinned s p \<and> \<not> chunk_is_in_eviction s p then list_move_tail_used p s else s)"

definition uvm_pmm_gpu_mark_root_chunk_unused :: "chunk_ptr \<Rightarrow> uvm_pmm_gpu \<Rightarrow> uvm_pmm_gpu" where
  "uvm_pmm_gpu_mark_root_chunk_unused p s =
     (if \<not> chunk_is_root_chunk_pinned s p \<and> \<not> chunk_is_in_eviction s p then list_move_tail_unused p s else s)"

definition pick_root_chunk_to_evict :: "uvm_pmm_gpu \<Rightarrow> chunk_ptr option \<times> uvm_pmm_gpu" where
  "pick_root_chunk_to_evict s =
     (case (case list_first_chunk (va_block_unused_root_chunks s) of
              None \<Rightarrow> list_first_chunk (va_block_used_root_chunks s)
            | Some p \<Rightarrow> Some p) of
        None \<Rightarrow> (None, s)
      | Some p \<Rightarrow> (let s = chunk_start_eviction p s in (Some (root_chunk_from_chunk s p), s)))"

definition pick_and_evict_root_chunk ::
  "evict_env \<Rightarrow> nat \<Rightarrow> nat \<Rightarrow> uvm_pmm_gpu_memory_type \<Rightarrow> bool \<Rightarrow> uvm_pmm_gpu \<Rightarrow> (nv_status \<times> chunk_ptr option \<times> uvm_pmm_gpu) option" where
  "pick_and_evict_root_chunk ev fuel n type pma_eviction s =
     (case pick_root_chunk_to_evict s of
        (None, s) \<Rightarrow> Some (NV_ERR_NO_MEMORY, None, s)
      | (Some r, s) \<Rightarrow>
          (case evict_root_chunk ev fuel n r s of
             None \<Rightarrow> None
           | Some (status, s) \<Rightarrow>
               if status \<noteq> NV_OK then Some (status, None, s)
               else if type = UVM_PMM_GPU_MEMORY_TYPE_KERNEL then
                 (let status = ev_pin ev n
                  in if status = NV_ERR_IN_USE then
                       map_option (\<lambda>s. (status, None, s))
                         (free_root_chunk (ev_waits ev) r
                            (if pma_eviction then FREE_ROOT_CHUNK_MODE_PMA_EVICTION else FREE_ROOT_CHUNK_MODE_DEFAULT) s)
                     else Some (NV_OK, Some r, upd_chunk r (\<lambda>c. uvm_gpu_chunk_set_type c UVM_PMM_GPU_MEMORY_TYPE_KERNEL) s))
               else Some (NV_OK, Some r, s)))"

fun pick_and_evict_root_chunk_retry ::
  "nat \<Rightarrow> evict_env \<Rightarrow> nat \<Rightarrow> nat \<Rightarrow> uvm_pmm_gpu_memory_type \<Rightarrow> bool \<Rightarrow> uvm_pmm_gpu \<Rightarrow>
   (nv_status \<times> chunk_ptr option \<times> uvm_pmm_gpu) option" where
  "pick_and_evict_root_chunk_retry 0 ev fuel n type pma_eviction s = None"
| "pick_and_evict_root_chunk_retry (Suc tries) ev fuel n type pma_eviction s =
     (case pick_and_evict_root_chunk ev fuel n type pma_eviction s of
        None \<Rightarrow> None
      | Some (status, out, s) \<Rightarrow>
          if status = NV_ERR_IN_USE then pick_and_evict_root_chunk_retry tries ev fuel (Suc n) type pma_eviction s
          else Some (status, out, s))"

definition uvm_pmm_should_inject_pma_eviction_error :: "uvm_pmm_gpu \<Rightarrow> bool \<times> uvm_pmm_gpu" where
  "uvm_pmm_should_inject_pma_eviction_error s =
     (let n = inject_pma_evict_error_after_num_chunks s
      in if 0 < n then (n - 1 = 0, s\<lparr>inject_pma_evict_error_after_num_chunks := n - 1\<rparr>) else (False, s))"

end
