(* ===== verification/Pmm_Alloc.thy ===== *)
theory Pmm_Alloc
  imports Pmm_Evict
begin

text \<open>
  Allocation of GPU memory (\<^verbatim>\<open>uvm8_pmm_gpu.c\<close>): root chunks from PMA or by eviction, splits down to the size
  asked for, allocating several chunks with the work they still have to wait for.
\<close>

section \<open>Root chunks\<close>

text \<open>
  What one allocation of a chunk meets: PMA's answer, and eviction with its numbering of attempts.
\<close>

record alloc_env =
  al_pma :: "nv_status \<times> u64"
  al_evict :: evict_env
  al_evict_fuel :: nat
  al_tries :: nat

definition alloc_root_chunk ::
  "nv_status \<times> u64 \<Rightarrow> uvm_pmm_gpu_memory_type \<Rightarrow> uvm_pmm_gpu \<Rightarrow> nv_status \<times> chunk_ptr option \<times> uvm_pmm_gpu" where
  "alloc_root_chunk pma type s =
     (let (status, pa) = pma
      in if status \<noteq> NV_OK then (status, None, s)
         else
           let r = root_chunk_from_address pa;
               s = s\<lparr>pmm_trackers := (pmm_trackers s)(r := uvm_tracker_init)\<rparr>;
               s = upd_chunk r (\<lambda>c. uvm_gpu_chunk_set_state (uvm_gpu_chunk_set_type c type) UVM_PMM_GPU_CHUNK_STATE_TEMP_PINNED) s
           in (NV_OK, Some r, s))"

definition alloc_or_evict_root_chunk ::
  "alloc_env \<Rightarrow> uvm_pmm_gpu_memory_type \<Rightarrow> bool \<Rightarrow> uvm_pmm_gpu \<Rightarrow> (nv_status \<times> chunk_ptr option \<times> uvm_pmm_gpu) option" where
  "alloc_or_evict_root_chunk al type evict s =
     (let (status, chunk, s) = alloc_root_chunk (al_pma al) type s
      in if status \<noteq> NV_OK then
           if evict \<and> pmm_supports_eviction s
           then pick_and_evict_root_chunk_retry (al_tries al) (al_evict al) (al_evict_fuel al) 0 type False s
           else Some (status, None, s)
         else Some (status, chunk, s))"

section \<open>Allocation with splits\<close>

text \<open>The first of the sizes that has a free chunk.\<close>

fun claim_bigger ::
  "uvm_pmm_gpu_memory_type \<Rightarrow> uvm_chunk_size_t list \<Rightarrow> uvm_pmm_gpu \<Rightarrow> (chunk_ptr \<times> uvm_chunk_size_t) option \<times> uvm_pmm_gpu" where
  "claim_bigger type [] s = (None, s)"
| "claim_bigger type (sz # szs) s =
     (case claim_free_chunk type sz s of
        (Some p, s) \<Rightarrow> (Some (p, sz), s)
      | (None, s) \<Rightarrow> claim_bigger type szs s)"

text \<open>\<open>None\<close>: a merge out of fuel, or a size that is not among the smaller ones, where the driver panics.\<close>

fun split_down ::
  "uvm_chunk_size_t \<Rightarrow> uvm_chunk_size_t list \<Rightarrow> chunk_ptr \<Rightarrow> uvm_pmm_gpu \<Rightarrow> (nv_status \<times> chunk_ptr option \<times> uvm_pmm_gpu) option" where
  "split_down chunk_size [] p s = None"
| "split_down chunk_size (cur_size # sizes) p s =
     (if cur_size = chunk_size then Some (NV_OK, Some p, s)
      else
        let (status, s) = split_gpu_chunk p s
        in if status \<noteq> NV_OK then map_option (\<lambda>s. (status, None, s)) (free_chunk_with_merges MERGE_FUEL p s)
           else
             let subs = sa_subchunks (csub s p);
                 s = fold chunk_free_locked (drop 1 (take (unat (num_subchunks s p)) subs)) s
             in split_down chunk_size sizes (subs ! 0) s)"

definition alloc_chunk_with_splits ::
  "alloc_env \<Rightarrow> uvm_pmm_gpu_memory_type \<Rightarrow> uvm_chunk_size_t \<Rightarrow> bool \<Rightarrow> uvm_pmm_gpu \<Rightarrow>
   (nv_status \<times> chunk_ptr option \<times> uvm_pmm_gpu) option" where
  "alloc_chunk_with_splits al type chunk_size evict s =
     (let chunk_sizes = pmm_chunk_sizes s type
      in case claim_free_chunk type chunk_size s of
           (Some p, s) \<Rightarrow> Some (NV_OK, Some p, s)
         | (None, s) \<Rightarrow>
             (case claim_bigger type (for_each_chunk_size_from chunk_sizes chunk_size) s of
                (Some (p, cur_size), s) \<Rightarrow> split_down chunk_size (for_each_chunk_size_rev_from chunk_sizes cur_size) p s
              | (None, s) \<Rightarrow>
                  (case alloc_or_evict_root_chunk al type evict s of
                     None \<Rightarrow> None
                   | Some (status, chunk, s) \<Rightarrow>
                       if status \<noteq> NV_OK then Some (status, None, s)
                       else split_down chunk_size (for_each_chunk_size_rev_from chunk_sizes UVM_CHUNK_SIZE_MAX) (the chunk) s)))"

definition alloc_chunk ::
  "alloc_env \<Rightarrow> uvm_pmm_gpu_memory_type \<Rightarrow> uvm_chunk_size_t \<Rightarrow> bool \<Rightarrow> uvm_pmm_gpu \<Rightarrow>
   (nv_status \<times> chunk_ptr option \<times> uvm_pmm_gpu) option" where
  "alloc_chunk al type chunk_size evict s =
     (case claim_free_chunk type chunk_size s of
        (Some p, s) \<Rightarrow> Some (NV_OK, Some p, s)
      | (None, s) \<Rightarrow>
          if chunk_size = UVM_CHUNK_SIZE_MAX then alloc_or_evict_root_chunk al type evict s
          else case alloc_chunk_with_splits al type chunk_size evict s of
                 None \<Rightarrow> None
               | Some (status, chunk, s) \<Rightarrow>
                   if status \<noteq> NV_OK
                   then map_option (\<lambda>s. (status, None, s)) (free_next_available_root_chunk (ev_waits (al_evict al)) s)
                   else Some (NV_OK, chunk, s))"

section \<open>Several chunks\<close>

fun free_chunks :: "pmm_waits \<Rightarrow> chunk_ptr list \<Rightarrow> uvm_pmm_gpu \<Rightarrow> uvm_pmm_gpu option" where
  "free_chunks w [] s = Some s"
| "free_chunks w (p # ps) s = (case free_chunk w p s of None \<Rightarrow> None | Some s \<Rightarrow> free_chunks w ps s)"

text \<open>
  The loop of \<^verbatim>\<open>uvm_pmm_gpu_alloc\<close>: the status, the chunks allocated, the last one first, and the tracker of
  what they wait for. A chunk whose tracker cannot be added is among them.
\<close>

fun alloc_loop ::
  "(nat \<Rightarrow> alloc_env) \<Rightarrow> pmm_waits \<Rightarrow> nat \<Rightarrow> nat \<Rightarrow> uvm_pmm_gpu_memory_type \<Rightarrow> uvm_chunk_size_t \<Rightarrow> bool \<Rightarrow> chunk_ptr list \<Rightarrow>
   uvm_tracker \<Rightarrow> uvm_pmm_gpu \<Rightarrow> (nv_status \<times> chunk_ptr list \<times> uvm_tracker \<times> uvm_pmm_gpu) option" where
  "alloc_loop als w 0 i type chunk_size evict chunks local_tracker s = Some (NV_OK, chunks, local_tracker, s)"
| "alloc_loop als w (Suc n) i type chunk_size evict chunks local_tracker s =
     (case alloc_chunk (als i) type chunk_size evict s of
        None \<Rightarrow> None
      | Some (status, chunk, s) \<Rightarrow>
          if status \<noteq> NV_OK then Some (status, chunks, local_tracker, s)
          else
            let p = the chunk;
                r = root_chunk_from_chunk s p;
                root_tracker = uvm_tracker_remove_completed (pw_env w 0) (pmm_trackers s r)
            in case add_tracker_safe w local_tracker root_tracker of
                 None \<Rightarrow> None
               | Some (status, local_tracker, root_tracker) \<Rightarrow>
                   (let s = s\<lparr>pmm_trackers := (pmm_trackers s)(r := root_tracker)\<rparr>
                    in if status \<noteq> NV_OK then Some (status, p # chunks, local_tracker, s)
                       else alloc_loop als w n (Suc i) type chunk_size evict (p # chunks) local_tracker s))"

text \<open>\<open>gpu_of\<close> is the GPU of a channel. The results: status, the chunks in order, the caller's tracker, the manager.\<close>

definition uvm_pmm_gpu_alloc ::
  "(nat \<Rightarrow> alloc_env) \<Rightarrow> pmm_waits \<Rightarrow> (channel_id \<Rightarrow> nat) \<Rightarrow> nat \<Rightarrow> nat \<Rightarrow> uvm_chunk_size_t \<Rightarrow> uvm_pmm_gpu_memory_type \<Rightarrow> bool \<Rightarrow>
   uvm_tracker option \<Rightarrow> uvm_pmm_gpu \<Rightarrow> (nv_status \<times> chunk_ptr list \<times> uvm_tracker option \<times> uvm_pmm_gpu) option" where
  "uvm_pmm_gpu_alloc als w gpu_of gpu num_chunks chunk_size mem_type evict out_tracker s =
     (let error = (\<lambda>status chunks out s. map_option (\<lambda>s. (status, rev chunks, out, s)) (free_chunks w chunks s))
      in case alloc_loop als w num_chunks 0 mem_type chunk_size evict [] uvm_tracker_init s of
           None \<Rightarrow> None
         | Some (status, chunks, local_tracker, s) \<Rightarrow>
             if status \<noteq> NV_OK then error status chunks out_tracker s
             else
               case uvm_tracker_wait_for_other_gpus (pw_env w) (pw_fuel w) gpu_of local_tracker gpu of
                 None \<Rightarrow> None
               | Some (status, local_tracker) \<Rightarrow>
                   if status \<noteq> NV_OK then error status chunks out_tracker s
                   else
                     case (case out_tracker of
                             None \<Rightarrow> Some (NV_OK, local_tracker, None)
                           | Some out \<Rightarrow> map_option (\<lambda>(status, out, src). (status, uvm_tracker_clear src, Some out))
                                          (add_tracker_safe w out local_tracker)) of
                       None \<Rightarrow> None
                     | Some (status, local_tracker, out_tracker) \<Rightarrow>
                         if status \<noteq> NV_OK then error status chunks out_tracker s
                         else map_option (\<lambda>(status, t). (status, rev chunks, out_tracker, s))
                                (uvm_tracker_wait_deinit (pw_env w) (pw_fuel w) local_tracker))"

definition uvm_pmm_gpu_alloc_kernel ::
  "(nat \<Rightarrow> alloc_env) \<Rightarrow> pmm_waits \<Rightarrow> (channel_id \<Rightarrow> nat) \<Rightarrow> nat \<Rightarrow> nat \<Rightarrow> uvm_chunk_size_t \<Rightarrow> bool \<Rightarrow>
   uvm_tracker option \<Rightarrow> uvm_pmm_gpu \<Rightarrow> (nv_status \<times> chunk_ptr list \<times> uvm_tracker option \<times> uvm_pmm_gpu) option" where
  "uvm_pmm_gpu_alloc_kernel als w gpu_of gpu num_chunks chunk_size evict out_tracker s =
     map_option (\<lambda>(status, chunks, out, s).
         if status \<noteq> NV_OK then (status, chunks, out, s)
         else (NV_OK, chunks, out, fold (\<lambda>p. chunk_unpin p UVM_PMM_GPU_CHUNK_STATE_ALLOCATED) chunks s))
       (uvm_pmm_gpu_alloc als w gpu_of gpu num_chunks chunk_size UVM_PMM_GPU_MEMORY_TYPE_KERNEL evict out_tracker s)"

definition uvm_pmm_gpu_alloc_user ::
  "(nat \<Rightarrow> alloc_env) \<Rightarrow> pmm_waits \<Rightarrow> (channel_id \<Rightarrow> nat) \<Rightarrow> nat \<Rightarrow> nat \<Rightarrow> uvm_chunk_size_t \<Rightarrow> bool \<Rightarrow>
   uvm_tracker option \<Rightarrow> uvm_pmm_gpu \<Rightarrow> (nv_status \<times> chunk_ptr list \<times> uvm_tracker option \<times> uvm_pmm_gpu) option" where
  "uvm_pmm_gpu_alloc_user als w gpu_of gpu num_chunks chunk_size evict out_tracker s =
     uvm_pmm_gpu_alloc als w gpu_of gpu num_chunks chunk_size UVM_PMM_GPU_MEMORY_TYPE_USER evict out_tracker s"

section \<open>Eviction by PMA\<close>

text \<open>
  The loop of \<^verbatim>\<open>uvm_pmm_gpu_pma_evict_pages\<close>; \<open>pages\<close> are the addresses evicted so far. Its callers' page size
  divides the root chunk.
\<close>

fun evict_pages_loop ::
  "(nat \<Rightarrow> evict_env) \<Rightarrow> nat \<Rightarrow> nat \<Rightarrow> nat \<Rightarrow> nat \<Rightarrow> u32 \<Rightarrow> u64 \<Rightarrow> u64 \<Rightarrow> u64 \<Rightarrow> u64 list \<Rightarrow> uvm_pmm_gpu \<Rightarrow>
   (nv_status \<times> u64 list \<times> uvm_pmm_gpu) option" where
  "evict_pages_loop evs tries fuel 0 i page_size num_left phys_start phys_end pages s = None"
| "evict_pages_loop evs tries fuel (Suc n) i page_size num_left phys_start phys_end pages s =
     (if num_left = 0 then Some (NV_OK, pages, s)
      else
        let pages_per_chunk = ucast (UVM_CHUNK_SIZE_MAX div page_size);
            pages_this_time = min pages_per_chunk num_left;
            (inject, s) = uvm_pmm_should_inject_pma_eviction_error s;
            free_pages = (\<lambda>s. if pages \<noteq> [] then s\<lparr>pmm_pma_freed := pmm_pma_freed s @ map (\<lambda>a. (a, 1, page_size, True)) pages\<rparr> else s)
        in case (if inject then Some (NV_ERR_NO_MEMORY, None, s)
                 else pick_and_evict_root_chunk_retry tries (evs i) fuel 0 UVM_PMM_GPU_MEMORY_TYPE_KERNEL True s) of
             None \<Rightarrow> None
           | Some (status, chunk, s) \<Rightarrow>
               if status \<noteq> NV_OK then Some (status, pages, free_pages s)
               else
                 let r = root_chunk_from_chunk s (the chunk); address = caddr s (the chunk)
                 in if address < phys_start \<or> phys_end < address + ucast UVM_CHUNK_SIZE_MAX then
                      map_option (\<lambda>s. (NV_ERR_NO_MEMORY, pages, free_pages s))
                        (free_root_chunk (ev_waits (evs i)) r FREE_ROOT_CHUNK_MODE_PMA_EVICTION s)
                    else
                      case free_root_chunk (ev_waits (evs i)) r FREE_ROOT_CHUNK_MODE_SKIP_PMA_FREE s of
                        None \<Rightarrow> None
                      | Some s \<Rightarrow>
                          (let pages = pages @ map (\<lambda>k. address + of_nat k * ucast page_size) [0..<unat pages_this_time];
                               s = (if pages_this_time \<noteq> pages_per_chunk
                                    then s\<lparr>pmm_pma_freed := pmm_pma_freed s @
                                           [(address + pages_this_time * ucast page_size, pages_per_chunk - pages_this_time, page_size, True)]\<rparr>
                                    else s)
                           in evict_pages_loop evs tries fuel n (Suc i) page_size (num_left - pages_this_time) phys_start phys_end pages s))"

definition uvm_pmm_gpu_pma_evict_pages ::
  "(nat \<Rightarrow> evict_env) \<Rightarrow> nat \<Rightarrow> nat \<Rightarrow> nat \<Rightarrow> u32 \<Rightarrow> u32 \<Rightarrow> u64 \<Rightarrow> u64 \<Rightarrow> uvm_pmm_gpu \<Rightarrow> (nv_status \<times> u64 list \<times> uvm_pmm_gpu) option" where
  "uvm_pmm_gpu_pma_evict_pages evs tries fuel n page_size num_pages_to_evict phys_start phys_end s =
     evict_pages_loop evs tries fuel n 0 page_size (ucast num_pages_to_evict) phys_start phys_end [] s"

text \<open>
  Waiting for a root chunk to be evictable or back with PMA. \<open>others k\<close> is what other threads do before the
  \<open>k\<close>-th look; the driver gives up when the time is out after \<open>spins\<close> more looks, whatever the last one found.
\<close>

fun start_range_eviction ::
  "(nat \<Rightarrow> uvm_pmm_gpu \<Rightarrow> uvm_pmm_gpu) \<Rightarrow> nat \<Rightarrow> nat \<Rightarrow> chunk_ptr \<Rightarrow> uvm_pmm_gpu \<Rightarrow> nv_status \<times> bool \<times> uvm_pmm_gpu" where
  "start_range_eviction others spins k r s =
     (let s = others k s;
          root_chunk_state = cstate s r;
          eviction_started = (root_chunk_state \<noteq> UVM_PMM_GPU_CHUNK_STATE_PMA_OWNED \<and> chunk_is_evictable s r);
          s = (if eviction_started then chunk_start_eviction r s else s)
      in case spins of
           0 \<Rightarrow> (NV_ERR_NO_MEMORY, eviction_started, s)
         | Suc spins \<Rightarrow>
             if \<not> eviction_started \<and> root_chunk_state \<noteq> UVM_PMM_GPU_CHUNK_STATE_PMA_OWNED
             then start_range_eviction others spins (Suc k) r s
             else (NV_OK, eviction_started, s))"

declare start_range_eviction.simps [simp del]

fun evict_range_loop ::
  "(nat \<Rightarrow> evict_env) \<Rightarrow> (nat \<Rightarrow> nat \<Rightarrow> uvm_pmm_gpu \<Rightarrow> uvm_pmm_gpu) \<Rightarrow> nat \<Rightarrow> nat \<Rightarrow> nat \<Rightarrow> nat \<Rightarrow> u64 \<Rightarrow> u64 \<Rightarrow> uvm_pmm_gpu \<Rightarrow>
   (nv_status \<times> uvm_pmm_gpu) option" where
  "evict_range_loop evs others spins fuel 0 i address phys_end s = None"
| "evict_range_loop evs others spins fuel (Suc n) i address phys_end s =
     (if address \<le> phys_end then
        (let r = root_chunk_from_address address;
             (status, started, s) = start_range_eviction (others i) spins 0 r s
         in if status \<noteq> NV_OK then Some (status, s)
            else if \<not> started then evict_range_loop evs others spins fuel n (Suc i) (address + ucast UVM_CHUNK_SIZE_MAX) phys_end s
            else
              case evict_root_chunk (evs i) fuel 0 r s of
                None \<Rightarrow> None
              | Some (status, s) \<Rightarrow>
                  (let (inject, s) = uvm_pmm_should_inject_pma_eviction_error s
                   in if status \<noteq> NV_OK then Some (status, s)
                      else case free_root_chunk (ev_waits (evs i)) r FREE_ROOT_CHUNK_MODE_PMA_EVICTION s of
                             None \<Rightarrow> None
                           | Some s \<Rightarrow>
                               if inject then Some (NV_ERR_NO_MEMORY, s)
                               else evict_range_loop evs others spins fuel n (Suc i) (address + ucast UVM_CHUNK_SIZE_MAX) phys_end s))
      else Some (NV_OK, s))"

definition uvm_pmm_gpu_pma_evict_range ::
  "(nat \<Rightarrow> evict_env) \<Rightarrow> (nat \<Rightarrow> nat \<Rightarrow> uvm_pmm_gpu \<Rightarrow> uvm_pmm_gpu) \<Rightarrow> nat \<Rightarrow> nat \<Rightarrow> nat \<Rightarrow> u64 \<Rightarrow> u64 \<Rightarrow> uvm_pmm_gpu \<Rightarrow>
   (nv_status \<times> uvm_pmm_gpu) option" where
  "uvm_pmm_gpu_pma_evict_range evs others spins fuel n phys_begin phys_end s =
     evict_range_loop evs others spins fuel n 0 (UVM_ALIGN_DOWN phys_begin (ucast UVM_CHUNK_SIZE_MAX)) phys_end s"

section \<open>Waiting for all work\<close>

text \<open>The loop of \<^verbatim>\<open>uvm_pmm_gpu_sync\<close> over the root chunks \<open>rs\<close>. Errors of the waits are global and ignored here.\<close>

fun sync_loop :: "pmm_waits \<Rightarrow> chunk_ptr list \<Rightarrow> uvm_pmm_gpu \<Rightarrow> uvm_pmm_gpu option" where
  "sync_loop w [] s = Some s"
| "sync_loop w (r # rs) s =
     (if cstate s r \<noteq> UVM_PMM_GPU_CHUNK_STATE_PMA_OWNED then
        case uvm_tracker_wait (pw_env w) (pw_fuel w) (pmm_trackers s r) of
          None \<Rightarrow> None
        | Some (status, k, tracker) \<Rightarrow> sync_loop w rs (s\<lparr>pmm_trackers := (pmm_trackers s)(r := tracker)\<rparr>)
      else sync_loop w rs s)"

definition uvm_pmm_gpu_sync :: "pmm_waits \<Rightarrow> uvm_pmm_gpu \<Rightarrow> uvm_pmm_gpu option" where
  "uvm_pmm_gpu_sync w s = sync_loop w [0..<pmm_root_chunks_count s] s"

section \<open>Initialization\<close>

text \<open>\<open>user_sizes\<close>, \<open>kernel_sizes\<close> and \<open>mem_sizes\<close> are what the MMU and \<^verbatim>\<open>uvm_mem\<close> ask for.\<close>

definition init_chunk_sizes :: "u32 \<Rightarrow> u32 \<Rightarrow> u32 \<Rightarrow> uvm_pmm_gpu_memory_type \<Rightarrow> u32" where
  "init_chunk_sizes user_sizes kernel_sizes mem_sizes type =
     (case type of
        UVM_PMM_GPU_MEMORY_TYPE_USER \<Rightarrow> UVM_CHUNK_SIZE_MAX OR user_sizes
      | UVM_PMM_GPU_MEMORY_TYPE_KERNEL \<Rightarrow> UVM_CHUNK_SIZE_MAX OR kernel_sizes OR mem_sizes)"

definition init_root_chunk :: "nat \<Rightarrow> uvm_gpu_chunk" where
  "init_root_chunk i =
     (uvm_gpu_chunk_set_size (uvm_gpu_chunk_set_state
        \<lparr>chunk_address = 0, chunk_flags = 0, chunk_va_block = None, chunk_parent = None, chunk_suballoc = None\<rparr>
        UVM_PMM_GPU_CHUNK_STATE_PMA_OWNED) UVM_CHUNK_SIZE_MAX)\<lparr>chunk_address := of_nat i * ucast UVM_CHUNK_SIZE_MAX\<rparr>"

definition init_root_chunks_count :: "u64 \<Rightarrow> nat" where
  "init_root_chunks_count vidmem_max_physical_address =
     unat (UVM_ALIGN_UP vidmem_max_physical_address (ucast UVM_CHUNK_SIZE_MAX) div ucast UVM_CHUNK_SIZE_MAX)"

definition init_state :: "u32 \<Rightarrow> u32 \<Rightarrow> u32 \<Rightarrow> u64 \<Rightarrow> bool \<Rightarrow> (nat \<Rightarrow> bool) \<Rightarrow> uvm_pmm_gpu" where
  "init_state user_sizes kernel_sizes mem_sizes vidmem_max supports_eviction kmem =
     \<lparr>pmm_chunk_sizes = init_chunk_sizes user_sizes kernel_sizes mem_sizes,
      pmm_root_chunks_count = init_root_chunks_count vidmem_max,
      pmm_chunks = (\<lambda>p. if p < init_root_chunks_count vidmem_max then Some (init_root_chunk p) else None),
      pmm_trackers = (\<lambda>_. uvm_tracker_init), pmm_free_list = (\<lambda>_ _. []), va_block_unused_root_chunks = [],
      va_block_used_root_chunks = [], inject_pma_evict_error_after_num_chunks = 0,
      pmm_supports_eviction = supports_eviction, pmm_kmem = kmem, pmm_calls = 0, pmm_pma_freed = []\<rparr>"

end
