(* ===== verification/Pmm_Inv.thy ===== *)
theory Pmm_Inv
  imports Pmm_Alloc
begin

text \<open>
  The invariant of the physical memory manager: every root chunk is the root of a tree of chunks that halve its
  memory by the sizes of its type, the counts of children in use are exact, and the free lists hold the free
  chunks. Lemmas for the steps that keep the tree as it is, for splits and for merges.
\<close>

section \<open>Reading the store\<close>

definition live :: "uvm_pmm_gpu \<Rightarrow> chunk_ptr \<Rightarrow> bool" where
  "live s p \<longleftrightarrow> pmm_chunks s p \<noteq> None"

definition cexp :: "uvm_pmm_gpu \<Rightarrow> chunk_ptr \<Rightarrow> nat" where
  "cexp s p = fls (csize s p)"

definition is_leaf :: "uvm_pmm_gpu \<Rightarrow> chunk_ptr \<Rightarrow> bool" where
  "is_leaf s p \<longleftrightarrow> live s p \<and> chunk_suballoc (ch s p) = None"

abbreviation csubs :: "uvm_pmm_gpu \<Rightarrow> chunk_ptr \<Rightarrow> chunk_ptr list" where
  "csubs s p \<equiv> sa_subchunks (csub s p)"

abbreviation is_split :: "uvm_pmm_gpu \<Rightarrow> chunk_ptr \<Rightarrow> bool" where
  "is_split s p \<equiv> cstate s p = UVM_PMM_GPU_CHUNK_STATE_IS_SPLIT"

abbreviation is_free :: "uvm_pmm_gpu \<Rightarrow> chunk_ptr \<Rightarrow> bool" where
  "is_free s p \<equiv> cstate s p = UVM_PMM_GPU_CHUNK_STATE_FREE"

lemma size_log_small: "unat (uvm_gpu_chunk_get_flags c 6 5) < 32"
proof -
  have "uvm_gpu_chunk_get_flags c 6 5 = take_bit 5 (uvm_gpu_chunk_get_flags c 6 5)"
    by (rule bit_word_eqI) (auto simp: bit_simps)
  also have "\<dots> = uvm_gpu_chunk_get_flags c 6 5 mod 32" by (simp add: take_bit_eq_mod)
  finally have "unat (uvm_gpu_chunk_get_flags c 6 5) = unat (uvm_gpu_chunk_get_flags c 6 5) mod 32"
    using unat_mod[of "uvm_gpu_chunk_get_flags c 6 5" 32] by simp
  then show ?thesis by (metis mod_less_divisor zero_less_numeral)
qed

lemma csize_eq: "csize s p = 2 ^ cexp s p" "cexp s p < 32"
proof -
  define n where "n = unat (uvm_gpu_chunk_get_flags (ch s p) 6 5)"
  have n: "n < 32" "csize s p = push_bit n 1"
    by (simp_all add: n_def size_log_small uvm_gpu_chunk_get_size_def field_defs)
  then have "cexp s p = n" unfolding cexp_def n(2) by (intro fls_power) simp
  then show "csize s p = 2 ^ cexp s p" "cexp s p < 32" using n by (simp_all add: push_bit_eq_mult)
qed

text \<open>What a step that neither splits nor merges leaves alone of a chunk.\<close>

definition shape :: "uvm_pmm_gpu \<Rightarrow> chunk_ptr \<Rightarrow>
    u64 \<times> chunk_ptr option \<times> uvm_pmm_gpu_memory_type \<times> uvm_chunk_size_t \<times> chunk_ptr list option" where
  "shape s p = (caddr s p, cparent s p, ctype s p, csize s p, map_option sa_subchunks (chunk_suballoc (ch s p)))"

definition same_shape :: "uvm_pmm_gpu \<Rightarrow> uvm_pmm_gpu \<Rightarrow> bool" where
  "same_shape s s' \<longleftrightarrow> pmm_chunk_sizes s' = pmm_chunk_sizes s \<and> pmm_root_chunks_count s' = pmm_root_chunks_count s \<and>
     pmm_calls s' = pmm_calls s \<and> (\<forall>p. live s' p = live s p \<and> (live s p \<longrightarrow> shape s' p = shape s p))"

section \<open>The tree\<close>

definition mask_of :: "uvm_pmm_gpu \<Rightarrow> chunk_ptr \<Rightarrow> u32" where
  "mask_of s p = pmm_chunk_sizes s (ctype s p)"

definition child_ok :: "uvm_pmm_gpu \<Rightarrow> chunk_ptr \<Rightarrow> nat \<Rightarrow> bool" where
  "child_ok s q i \<longleftrightarrow>
     (let p = csubs s q ! i
      in live s p \<and> cparent s p = Some q \<and> ctype s p = ctype s q \<and> cexp s p = prev_exp (mask_of s q) (cexp s q) \<and>
         unat (caddr s p) = unat (caddr s q) + i * 2 ^ cexp s p)"

definition split_ok :: "uvm_pmm_gpu \<Rightarrow> chunk_ptr \<Rightarrow> bool" where
  "split_ok s q \<longleftrightarrow>
     prev_exp (mask_of s q) (cexp s q) \<noteq> 22 \<and> length (csubs s q) = 2 ^ (cexp s q - prev_exp (mask_of s q) (cexp s q)) \<and>
     (\<forall>i < length (csubs s q). child_ok s q i)"

definition chunk_ok :: "uvm_pmm_gpu \<Rightarrow> chunk_ptr \<Rightarrow> bool" where
  "chunk_ok s p \<longleftrightarrow>
     bit (mask_of s p) (cexp s p) \<and> (cparent s p = None \<longleftrightarrow> p < pmm_root_chunks_count s) \<and>
     (p < pmm_root_chunks_count s \<longrightarrow> cexp s p = 21 \<and> unat (caddr s p) = p * 2 ^ 21) \<and>
     (\<forall>q. cparent s p = Some q \<longrightarrow> live s q \<and> chunk_suballoc (ch s q) \<noteq> None \<and> p \<in> set (csubs s q)) \<and>
     (chunk_suballoc (ch s p) \<noteq> None \<longrightarrow> split_ok s p)"

definition tree_ok :: "uvm_pmm_gpu \<Rightarrow> bool" where
  "tree_ok s \<longleftrightarrow>
     (\<forall>ty. mask_ok (pmm_chunk_sizes s ty)) \<and> pmm_root_chunks_count s * 2 ^ 21 \<le> 2 ^ 63 \<and>
     (\<forall>p < pmm_root_chunks_count s. live s p) \<and>
     (\<forall>p. live s p \<longrightarrow> chunk_ok s p \<and> p < pmm_root_chunks_count s + pmm_calls s)"

text \<open>The states of the chunks of a tree and the counts of children that are not free.\<close>

definition used_children :: "uvm_pmm_gpu \<Rightarrow> chunk_ptr \<Rightarrow> nat" where
  "used_children s q = length (filter (\<lambda>p. \<not> is_free s p) (csubs s q))"

definition states_ok :: "uvm_pmm_gpu \<Rightarrow> bool" where
  "states_ok s \<longleftrightarrow>
     (\<forall>p. live s p \<longrightarrow>
        (is_split s p \<longleftrightarrow> chunk_suballoc (ch s p) \<noteq> None) \<and>
        (cstate s p = UVM_PMM_GPU_CHUNK_STATE_PMA_OWNED \<longrightarrow> p < pmm_root_chunks_count s) \<and>
        (is_split s p \<longrightarrow> unat (sa_allocated (csub s p)) = used_children s p \<and> 0 < used_children s p))"

section \<open>The free lists\<close>

definition free_set :: "uvm_pmm_gpu \<Rightarrow> uvm_pmm_gpu_memory_type \<Rightarrow> nat \<Rightarrow> chunk_ptr set" where
  "free_set s ty i = {p. live s p \<and> is_free s p \<and> ctype s p = ty \<and> find_free_list_chunk s p = i}"

definition lists_ok :: "uvm_pmm_gpu \<Rightarrow> bool" where
  "lists_ok s \<longleftrightarrow>
     (\<forall>ty i. distinct (pmm_free_list s ty i) \<and> set (pmm_free_list s ty i) \<subseteq> free_set s ty i \<and>
        (\<forall>p \<in> free_set s ty i. \<not> chunk_is_in_eviction s p \<longrightarrow> p \<in> set (pmm_free_list s ty i)))"

text \<open>The count of pinned leaves under a split root chunk.\<close>

definition pinned_leaves :: "uvm_pmm_gpu \<Rightarrow> chunk_ptr \<Rightarrow> chunk_ptr set" where
  "pinned_leaves s r =
     {p. is_leaf s p \<and> cstate s p = UVM_PMM_GPU_CHUNK_STATE_TEMP_PINNED \<and> root_chunk_from_chunk s p = r}"

definition pins_ok :: "uvm_pmm_gpu \<Rightarrow> bool" where
  "pins_ok s \<longleftrightarrow>
     (\<forall>r < pmm_root_chunks_count s. chunk_suballoc (ch s r) \<noteq> None \<longrightarrow>
        unat (sa_pinned_leaf_chunks (csub s r)) = card (pinned_leaves s r))"

definition pmm_inv :: "uvm_pmm_gpu \<Rightarrow> bool" where
  "pmm_inv s \<longleftrightarrow> tree_ok s \<and> states_ok s \<and> pins_ok s \<and> lists_ok s"

section \<open>Facts of the tree\<close>

lemma tree_chunk: "tree_ok s \<Longrightarrow> live s p \<Longrightarrow> chunk_ok s p"
  by (simp add: tree_ok_def)

lemma tree_mask: "tree_ok s \<Longrightarrow> mask_ok (mask_of s p)"
  by (simp add: tree_ok_def mask_of_def)

lemma exp_le: "tree_ok s \<Longrightarrow> live s p \<Longrightarrow> cexp s p \<le> 21 \<and> bit (mask_of s p) (cexp s p)"
  using tree_chunk[of s p] tree_mask[of s p] by (auto simp: chunk_ok_def mask_ok_def)

lemma parent_facts:
  assumes t: "tree_ok s" and p: "live s p" and q: "cparent s p = Some q"
  obtains i where "live s q" "chunk_suballoc (ch s q) \<noteq> None" "i < length (csubs s q)" "csubs s q ! i = p" "child_ok s q i"
    "ctype s p = ctype s q" "mask_of s p = mask_of s q" "cexp s p = prev_exp (mask_of s q) (cexp s q)" "cexp s p < cexp s q"
    "cexp s q = next_exp (mask_of s p) (cexp s p)" "unat (caddr s p) = unat (caddr s q) + i * 2 ^ cexp s p"
    "length (csubs s q) = 2 ^ (cexp s q - cexp s p)" "\<not> p < pmm_root_chunks_count s"
proof -
  have c: "live s q" "chunk_suballoc (ch s q) \<noteq> None" "p \<in> set (csubs s q)" "\<not> p < pmm_root_chunks_count s"
    using tree_chunk[OF t p] q by (auto simp: chunk_ok_def)
  then have so: "split_ok s q" using tree_chunk[OF t c(1)] by (simp add: chunk_ok_def)
  obtain i where i: "i < length (csubs s q)" "csubs s q ! i = p" using c(3) by (auto simp: in_set_conv_nth)
  then have co: "child_ok s q i" using so by (simp add: split_ok_def)
  then have ty: "ctype s p = ctype s q" "cexp s p = prev_exp (mask_of s q) (cexp s q)" by (simp_all add: child_ok_def Let_def i(2))
  have m: "mask_of s p = mask_of s q" by (simp add: mask_of_def ty(1))
  have n22: "prev_exp (mask_of s q) (cexp s q) \<noteq> 22" using so by (simp add: split_ok_def)
  note e = exp_le[OF t c(1)]
  show ?thesis
    by (rule that[OF c(1,2) i co ty(1) m ty(2) _ _ _ _ c(4)])
      (use co so ty m n22 e prev_exp_props(1)[of "mask_of s q" "cexp s q"] next_prev[OF tree_mask[OF t], of q "cexp s q"] in
        \<open>simp_all add: child_ok_def Let_def i(2) split_ok_def\<close>)
qed

lemma root_facts:
  assumes "tree_ok s" "live s p" "cparent s p = None"
  shows "p < pmm_root_chunks_count s" "cexp s p = 21" "unat (caddr s p) = p * 2 ^ 21"
  using tree_chunk[OF assms(1,2)] assms(3) by (auto simp: chunk_ok_def)

lemma root_live: "tree_ok s \<Longrightarrow> p < pmm_root_chunks_count s \<Longrightarrow> live s p \<and> cparent s p = None"
  by (auto simp: tree_ok_def chunk_ok_def)

text \<open>A chunk starts at a multiple of its size and lies within its root chunk.\<close>

lemma chunk_place:
  assumes t: "tree_ok s"
  shows "live s p \<Longrightarrow> n = 21 - cexp s p \<Longrightarrow>
    \<exists>r. r < pmm_root_chunks_count s \<and> 2 ^ cexp s p dvd unat (caddr s p) \<and> r * 2 ^ 21 \<le> unat (caddr s p) \<and>
      unat (caddr s p) + 2 ^ cexp s p \<le> Suc r * 2 ^ 21 \<and> ctype s r = ctype s p"
proof (induction n arbitrary: p rule: less_induct)
  case (less n)
  show ?case
  proof (cases "cparent s p")
    case None
    note r = root_facts[OF t less.prems(1) None]
    show ?thesis by (rule exI[of _ p]) (simp add: r)
  next
    case (Some q)
    obtain i where q: "live s q" "i < length (csubs s q)" "ctype s p = ctype s q" "cexp s p < cexp s q"
      "unat (caddr s p) = unat (caddr s q) + i * 2 ^ cexp s p" "length (csubs s q) = 2 ^ (cexp s q - cexp s p)"
      using parent_facts[OF t less.prems(1) Some] by metis
    have "cexp s q \<le> 21" using exp_le[OF t q(1)] by simp
    then have "21 - cexp s q < n" using q(4) less.prems(2) by simp
    from less.IH[OF this q(1) refl] obtain r where r: "r < pmm_root_chunks_count s" "2 ^ cexp s q dvd unat (caddr s q)"
      "r * 2 ^ 21 \<le> unat (caddr s q)" "unat (caddr s q) + 2 ^ cexp s q \<le> Suc r * 2 ^ 21" "ctype s r = ctype s q" by blast
    have d: "(2::nat) ^ cexp s p dvd 2 ^ cexp s q" using q(4) by (intro le_imp_power_dvd) simp
    have "i * 2 ^ cexp s p + 2 ^ cexp s p = Suc i * 2 ^ cexp s p" by simp
    also have "\<dots> \<le> 2 ^ (cexp s q - cexp s p) * 2 ^ cexp s p" using q(2,6) by (intro mult_le_mono1) simp
    also have "\<dots> = 2 ^ cexp s q" using q(4) by (simp flip: power_add)
    finally have le: "i * 2 ^ cexp s p + 2 ^ cexp s p \<le> 2 ^ cexp s q" .
    have "2 ^ cexp s p dvd unat (caddr s p)" using dvd_trans[OF d r(2)] q(5) by simp
    then show ?thesis using r q(3,5) le by (intro exI[of _ r]) simp
  qed
qed

lemma chunk_align: "tree_ok s \<Longrightarrow> live s p \<Longrightarrow> 2 ^ cexp s p dvd unat (caddr s p)"
  using chunk_place[of s p "21 - cexp s p"] by blast

lemma root_of_eq:
  assumes t: "tree_ok s" and p: "live s p"
  shows "root_chunk_from_chunk s p = unat (caddr s p) div 2 ^ 21" "root_chunk_from_chunk s p < pmm_root_chunks_count s"
    "ctype s (root_chunk_from_chunk s p) = ctype s p" "unat (caddr s p) + 2 ^ cexp s p \<le> pmm_root_chunks_count s * 2 ^ 21"
proof -
  have e: "root_chunk_from_chunk s p = unat (caddr s p) div 2 ^ 21"
    by (simp add: root_chunk_from_chunk_def root_chunk_from_address_def unat_div UVM_CHUNK_SIZE_MAX_def)
  then show "root_chunk_from_chunk s p = unat (caddr s p) div 2 ^ 21" .
  obtain r where r: "r < pmm_root_chunks_count s" "r * 2 ^ 21 \<le> unat (caddr s p)"
    "unat (caddr s p) + 2 ^ cexp s p \<le> Suc r * 2 ^ 21" "ctype s r = ctype s p" using chunk_place[OF t p refl] by blast
  moreover have "unat (caddr s p) < Suc r * 2 ^ 21" using r(3) by (rule order.strict_trans2[rotated]) simp
  ultimately have "root_chunk_from_chunk s p = r" unfolding e by (intro div_nat_eqI) simp_all
  then show "root_chunk_from_chunk s p < pmm_root_chunks_count s" "ctype s (root_chunk_from_chunk s p) = ctype s p"
    using r by simp_all
  have "Suc r * 2 ^ 21 \<le> pmm_root_chunks_count s * 2 ^ 21" using r(1) by (intro mult_le_mono1) simp
  then show "unat (caddr s p) + 2 ^ cexp s p \<le> pmm_root_chunks_count s * 2 ^ 21" using r(3) by linarith
qed

section \<open>Leaves are disjoint and cover their root chunk\<close>

definition span :: "uvm_pmm_gpu \<Rightarrow> chunk_ptr \<Rightarrow> nat set" where
  "span s p = {unat (caddr s p)..<unat (caddr s p) + 2 ^ cexp s p}"

lemma aligned_start:
  assumes "tree_ok s" "live s p" "x \<in> span s p"
  shows "unat (caddr s p) = x div 2 ^ cexp s p * 2 ^ cexp s p"
proof -
  obtain m where m: "unat (caddr s p) = 2 ^ cexp s p * m" using chunk_align[OF assms(1,2)] by (auto elim: dvdE)
  have "x div 2 ^ cexp s p = m" using assms(3) by (intro div_nat_eqI) (auto simp: span_def m algebra_simps)
  then show ?thesis by (simp add: m)
qed

lemma child_span:
  assumes "tree_ok s" "live s p" "cparent s p = Some q"
  shows "span s p \<subseteq> span s q"
proof -
  obtain i where i: "i < length (csubs s q)" "cexp s p < cexp s q"
    "unat (caddr s p) = unat (caddr s q) + i * 2 ^ cexp s p" "length (csubs s q) = 2 ^ (cexp s q - cexp s p)"
    using parent_facts[OF assms] by metis
  have "i * 2 ^ cexp s p + 2 ^ cexp s p = Suc i * 2 ^ cexp s p" by simp
  also have "\<dots> \<le> 2 ^ (cexp s q - cexp s p) * 2 ^ cexp s p" using i(1,4) by (intro mult_le_mono1) simp
  also have "\<dots> = 2 ^ cexp s q" using i(2) by (simp flip: power_add)
  finally show ?thesis using i(3) by (auto simp: span_def)
qed

lemma chunk_unique:
  assumes t: "tree_ok s"
  shows "live s p \<Longrightarrow> live s q \<Longrightarrow> cexp s p = cexp s q \<Longrightarrow> ctype s p = ctype s q \<Longrightarrow> caddr s p = caddr s q \<Longrightarrow>
    n = 21 - cexp s p \<Longrightarrow> p = q"
proof (induction n arbitrary: p q rule: less_induct)
  case (less n)
  have no_root: "cparent s x = None" if h: "live s x" "cexp s x = 21" for x
  proof (rule ccontr)
    assume "cparent s x \<noteq> None"
    then obtain y where p: "cparent s x = Some y" by blast
    have y: "live s y" "cexp s x < cexp s y" by (rule parent_facts[OF t h(1) p], assumption)+
    then show False using exp_le[OF t y(1)] h(2) by simp
  qed
  show ?case
  proof (cases "cparent s p")
    case None
    note p = root_facts[OF t less.prems(1) None]
    then have "cparent s q = None" using no_root[OF less.prems(2)] less.prems(3) by simp
    note q = root_facts[OF t less.prems(2) this]
    have "p * 2 ^ 21 = q * 2 ^ 21" by (rule trans[OF sym[OF p(3)]]) (simp only: less.prems(5) q(3))
    then show ?thesis by simp
  next
    case (Some pp)
    obtain i where i: "live s pp" "csubs s pp ! i = p" "ctype s p = ctype s pp" "cexp s p < cexp s pp"
      "cexp s pp = next_exp (mask_of s p) (cexp s p)" "unat (caddr s p) = unat (caddr s pp) + i * 2 ^ cexp s p"
      using parent_facts[OF t less.prems(1) Some] by metis
    have "cexp s q \<noteq> 21" using i(4) exp_le[OF t i(1)] less.prems(3) by simp
    then obtain qq where qq: "cparent s q = Some qq" using root_facts(2)[OF t less.prems(2)] by fastforce
    obtain j where j: "live s qq" "csubs s qq ! j = q" "ctype s q = ctype s qq" "cexp s q < cexp s qq"
      "cexp s qq = next_exp (mask_of s q) (cexp s q)" "unat (caddr s q) = unat (caddr s qq) + j * 2 ^ cexp s q"
      using parent_facts[OF t less.prems(2) qq] by metis
    have e: "cexp s pp = cexp s qq" using i(5) j(5) less.prems(3,4) by (simp add: mask_of_def)
    have "unat (caddr s p) \<in> span s p" "unat (caddr s p) \<in> span s q" using less.prems(3,5) by (simp_all add: span_def)
    then have "unat (caddr s p) \<in> span s pp" "unat (caddr s p) \<in> span s qq"
      using child_span[OF t less.prems(1) Some] child_span[OF t less.prems(2) qq] by blast+
    then have "caddr s pp = caddr s qq"
      using aligned_start[OF t i(1)] aligned_start[OF t j(1)] e by (simp add: word_unat_eq_iff)
    moreover have "ctype s pp = ctype s qq" using i(3) j(3) less.prems(4) by simp
    moreover have "21 - cexp s pp < n" using i(4) conjunct1[OF exp_le[OF t i(1)]] less.prems(6) by linarith
    ultimately have pq: "pp = qq" using less.IH[OF _ i(1) j(1) e] by blast
    then have "i * 2 ^ cexp s p = j * 2 ^ cexp s p" using i(6) j(6) less.prems(3,5) by simp
    then show ?thesis using i(2) j(2) pq by simp
  qed
qed

text \<open>The chunk of a given larger size that a chunk is under.\<close>

lemma ancestor:
  assumes t: "tree_ok s"
  shows "live s q \<Longrightarrow> bit (mask_of s q) e \<Longrightarrow> cexp s q \<le> e \<Longrightarrow> n = 21 - cexp s q \<Longrightarrow>
    \<exists>a. live s a \<and> cexp s a = e \<and> ctype s a = ctype s q \<and> span s q \<subseteq> span s a \<and> (if e = cexp s q then a = q else chunk_suballoc (ch s a) \<noteq> None)"
proof (induction n arbitrary: q rule: less_induct)
  case (less n)
  show ?case
  proof (cases "e = cexp s q")
    case True
    then show ?thesis using less.prems by (intro exI[of _ q]) simp
  next
    case False
    have "e \<le> 21" using tree_mask[OF t, of q] less.prems(2) by (auto simp: mask_ok_def)
    then have lt: "cexp s q < 21" using False less.prems(3) by simp
    then obtain p where p: "cparent s q = Some p" using root_facts(2)[OF t less.prems(1)] by fastforce
    obtain i where i: "live s p" "chunk_suballoc (ch s p) \<noteq> None" "ctype s q = ctype s p" "mask_of s q = mask_of s p" "cexp s q < cexp s p"
      "cexp s p = next_exp (mask_of s q) (cexp s q)" using parent_facts[OF t less.prems(1) p] by metis
    have le: "cexp s p \<le> e"
      unfolding i(6) using next_exp_props(4)[OF tree_mask[OF t] lt] less.prems(2,3) False by simp
    have "21 - cexp s p < n" using i(5) lt less.prems(4) by simp
    from less.IH[OF this i(1) _ le refl] less.prems(2) i(4) obtain a where
      "live s a" "cexp s a = e" "ctype s a = ctype s p" "span s p \<subseteq> span s a" "if e = cexp s p then a = p else chunk_suballoc (ch s a) \<noteq> None"
      by auto
    then show ?thesis using child_span[OF t less.prems(1) p] i(2,3) False by (intro exI[of _ a]) (auto split: if_splits)
  qed
qed

lemma leaves_disjoint:
  assumes t: "tree_ok s" and p: "is_leaf s p" and q: "is_leaf s q" and ne: "p \<noteq> q"
  shows "span s p \<inter> span s q = {}"
proof (rule ccontr)
  assume "span s p \<inter> span s q \<noteq> {}"
  then obtain x where x: "x \<in> span s p" "x \<in> span s q" by blast
  have *: False if h: "is_leaf s a" "is_leaf s b" "a \<noteq> b" "x \<in> span s a" "x \<in> span s b" "cexp s b \<le> cexp s a" for a b
  proof -
    have l: "live s a" "live s b" using h by (simp_all add: is_leaf_def)
    have r: "x div 2 ^ 21 = root_chunk_from_chunk s y" if hy: "live s y" "x \<in> span s y" for y
    proof -
      obtain r where r: "r * 2 ^ 21 \<le> unat (caddr s y)" "unat (caddr s y) + 2 ^ cexp s y \<le> Suc r * 2 ^ 21"
        using chunk_place[OF t hy(1) refl] by blast
      have "unat (caddr s y) < Suc r * 2 ^ 21" using r(2) by (rule order.strict_trans2[rotated]) simp
      then have "unat (caddr s y) div 2 ^ 21 = r" using r(1) by (intro div_nat_eqI) simp_all
      moreover have "x div 2 ^ 21 = r" using r hy(2) by (intro div_nat_eqI) (auto simp: span_def)
      ultimately show ?thesis using root_of_eq(1)[OF t hy(1)] by simp
    qed
    have "ctype s a = ctype s b" using root_of_eq(3)[OF t] l r h(4,5) by metis
    then have m: "mask_of s b = mask_of s a" by (simp add: mask_of_def)
    have "bit (mask_of s b) (cexp s a)" using exp_le[OF t l(1)] m by simp
    from ancestor[OF t l(2) this h(6) refl] obtain c where c: "live s c" "cexp s c = cexp s a" "ctype s c = ctype s b"
      "span s b \<subseteq> span s c" "if cexp s a = cexp s b then c = b else chunk_suballoc (ch s c) \<noteq> None" by blast
    have "x \<in> span s c" using c(4) h(5) by blast
    then have "caddr s c = caddr s a" using aligned_start[OF t c(1)] aligned_start[OF t l(1) h(4)] c(2) by (simp add: word_unat_eq_iff)
    then have "c = a" using chunk_unique[OF t c(1) l(1) c(2)] c(3) \<open>ctype s a = ctype s b\<close> by simp
    then show False using c(5) h(1,3) by (auto simp: is_leaf_def split: if_splits)
  qed
  show False using *[OF p q ne x] *[OF q p ne[symmetric] x(2,1)] by fastforce
qed

lemma leaves_cover:
  assumes t: "tree_ok s"
  shows "live s q \<Longrightarrow> x \<in> span s q \<Longrightarrow> n = cexp s q \<Longrightarrow> \<exists>p. is_leaf s p \<and> x \<in> span s p \<and> span s p \<subseteq> span s q"
proof (induction n arbitrary: q rule: less_induct)
  case (less n)
  show ?case
  proof (cases "chunk_suballoc (ch s q) = None")
    case True
    then show ?thesis using less.prems by (intro exI[of _ q]) (simp add: is_leaf_def)
  next
    case False
    let ?e = "prev_exp (mask_of s q) (cexp s q)"
    have so: "split_ok s q" using tree_chunk[OF t less.prems(1)] False by (simp add: chunk_ok_def)
    have e: "?e < cexp s q"
      using prev_exp_props(1)[of "mask_of s q" "cexp s q"] exp_le[OF t less.prems(1)] so by (simp add: split_ok_def)
    define i where "i = (x - unat (caddr s q)) div 2 ^ ?e"
    have "x - unat (caddr s q) < 2 ^ (cexp s q - ?e) * 2 ^ ?e" using less.prems(2) e by (auto simp: span_def simp flip: power_add)
    then have il: "i < length (csubs s q)" unfolding i_def using so by (simp add: split_ok_def less_mult_imp_div_less)
    then have co: "child_ok s q i" using so by (simp add: split_ok_def)
    let ?p = "csubs s q ! i"
    have p: "live s ?p" "cparent s ?p = Some q" "cexp s ?p = ?e" "unat (caddr s ?p) = unat (caddr s q) + i * 2 ^ ?e"
      using co by (simp_all add: child_ok_def Let_def)
    have "x \<in> span s ?p"
    proof -
      have "i * 2 ^ ?e \<le> x - unat (caddr s q)" "x - unat (caddr s q) < 2 ^ ?e + i * 2 ^ ?e"
        unfolding i_def by (simp_all add: mult.commute[of _ "2 ^ ?e"] dividend_less_times_div)
      then show ?thesis using less.prems(2) p(3,4) by (auto simp: span_def)
    qed
    from less.IH[OF _ p(1) this refl] e p(3) less.prems(3) obtain l where "is_leaf s l" "x \<in> span s l" "span s l \<subseteq> span s ?p" by auto
    then show ?thesis using child_span[OF t p(1,2)] by blast
  qed
qed

section \<open>The initial state\<close>

lemma address_update_keeps:
  "uvm_gpu_chunk_get_state (c\<lparr>chunk_address := a\<rparr>) = uvm_gpu_chunk_get_state c"
  "uvm_gpu_chunk_get_size (c\<lparr>chunk_address := a\<rparr>) = uvm_gpu_chunk_get_size c"
  by (simp_all add: getter_defs uvm_gpu_chunk_get_flags_def)

lemma init_root_chunk_facts:
  "uvm_gpu_chunk_get_state (init_root_chunk i) = UVM_PMM_GPU_CHUNK_STATE_PMA_OWNED"
  "uvm_gpu_chunk_get_size (init_root_chunk i) = 2 ^ 21" "chunk_parent (init_root_chunk i) = None"
  "chunk_suballoc (init_root_chunk i) = None" "i < 2 ^ 42 \<Longrightarrow> unat (chunk_address (init_root_chunk i)) = i * 2 ^ 21"
proof -
  show "uvm_gpu_chunk_get_size (init_root_chunk i) = 2 ^ 21" "uvm_gpu_chunk_get_state (init_root_chunk i) = UVM_PMM_GPU_CHUNK_STATE_PMA_OWNED"
    unfolding init_root_chunk_def size_consts by (subst address_update_keeps, subst size_laws, simp, simp?)+
  show "chunk_parent (init_root_chunk i) = None" "chunk_suballoc (init_root_chunk i) = None"
    by (simp_all add: init_root_chunk_def setter_defs)
  assume "i < 2 ^ 42"
  then have "i * 2097152 < 2 ^ 64" by simp
  then show "unat (chunk_address (init_root_chunk i)) = i * 2 ^ 21"
    by (simp add: init_root_chunk_def size_consts unat_word_ariths unat_of_nat UVM_CHUNK_SIZE_MAX_def take_bit_eq_mod)
qed

lemma fls_2_21: "fls (0x200000 :: u32) = 21"
  using fls_log[of 21] by simp

lemma init_count:
  assumes "unat vm \<le> 2 ^ 38"
  shows "init_root_chunks_count vm = (unat vm + (2 ^ 21 - 1)) div 2 ^ 21" "init_root_chunks_count vm \<le> 2 ^ 17"
proof -
  have k: "(ucast UVM_CHUNK_SIZE_MAX :: u64) = 2 ^ 21" by (simp add: UVM_CHUNK_SIZE_MAX_def)
  have u: "unat (2 ^ 21 :: u64) = 2 ^ 21" by simp
  have a: "unat (UVM_ALIGN_UP vm (2 ^ 21)) = (unat vm + 2 ^ 21 - 1) mod 2 ^ 64 div 2 ^ 21 * 2 ^ 21"
    by (rule unat_align_up) simp_all
  have m: "(unat vm + 2 ^ 21 - 1) mod 2 ^ 64 = unat vm + (2 ^ 21 - 1)" using assms by simp
  show e: "init_root_chunks_count vm = (unat vm + (2 ^ 21 - 1)) div 2 ^ 21"
    unfolding init_root_chunks_count_def k unat_div u a m by (rule nonzero_mult_div_cancel_right) simp
  have "(unat vm + (2 ^ 21 - 1)) div 2 ^ 21 < Suc (2 ^ 17)" using assms by (intro less_mult_imp_div_less) simp
  then show "init_root_chunks_count vm \<le> 2 ^ 17" unfolding e by simp
qed

lemma pmm_init_inv:
  assumes m: "\<And>ty. mask_ok (init_chunk_sizes u k m ty)" and vm: "unat vm \<le> 2 ^ 38"
  shows "pmm_inv (init_state u k m vm ev kmem)"
proof -
  let ?s = "init_state u k m vm ev kmem"
  note n = init_count(2)[OF vm]
  have live: "live ?s p \<longleftrightarrow> p < init_root_chunks_count vm" for p by (simp add: live_def init_state_def)
  have c: "ch ?s p = init_root_chunk p" if "p < init_root_chunks_count vm" for p using that by (simp add: ch_def init_state_def)
  have f: "pmm_root_chunks_count ?s = init_root_chunks_count vm" "pmm_calls ?s = 0" "pmm_free_list ?s = (\<lambda>_ _. [])"
    "pmm_chunk_sizes ?s = init_chunk_sizes u k m" by (simp_all add: init_state_def)
  have "chunk_ok ?s p" if p: "p < init_root_chunks_count vm" for p
    using m p n by (simp add: chunk_ok_def c f cexp_def init_root_chunk_facts fls_2_21 mask_of_def mask_ok_def)
  then have "tree_ok ?s" using m n by (simp add: tree_ok_def f live)
  moreover have "states_ok ?s" by (simp add: states_ok_def live c f init_root_chunk_facts)
  moreover have "pins_ok ?s" by (simp add: pins_ok_def c f init_root_chunk_facts)
  moreover have "free_set ?s ty i = {}" for ty i by (auto simp: free_set_def live c init_root_chunk_facts)
  then have "lists_ok ?s" by (simp add: lists_ok_def f)
  ultimately show ?thesis by (simp add: pmm_inv_def)
qed

section \<open>A root chunk has few leaves\<close>

lemma leaves_of_root:
  assumes t: "tree_ok s"
  shows "finite {p. is_leaf s p \<and> root_chunk_from_chunk s p = r}" "card {p. is_leaf s p \<and> root_chunk_from_chunk s p = r} \<le> 2 ^ 21"
proof -
  let ?L = "{p. is_leaf s p \<and> root_chunk_from_chunk s p = r}"
  let ?a = "\<lambda>p. unat (caddr s p)"
  have inj: "inj_on ?a ?L"
  proof (rule inj_onI, rule ccontr)
    fix p q assume h: "p \<in> ?L" "q \<in> ?L" "?a p = ?a q" "p \<noteq> q"
    have "?a p \<in> span s p \<inter> span s q" using h(3) by (simp add: span_def)
    then show False using leaves_disjoint[OF t, of p q] h by blast
  qed
  have sub: "?a ` ?L \<subseteq> {r * 2 ^ 21..<r * 2 ^ 21 + 2 ^ 21}"
  proof
    fix x assume "x \<in> ?a ` ?L"
    then obtain p where p: "is_leaf s p" "root_chunk_from_chunk s p = r" "x = ?a p" by blast
    then have "x div 2 ^ 21 = r" using root_of_eq(1)[OF t, of p] by (simp add: is_leaf_def)
    then show "x \<in> {r * 2 ^ 21..<r * 2 ^ 21 + 2 ^ 21}"
      using div_times_less_eq_dividend[of x "2 ^ 21"] dividend_less_div_times[of "2 ^ 21" x] by auto
  qed
  have "finite (?a ` ?L)" using sub by (rule finite_subset) simp
  then show "finite ?L" using inj by (rule finite_imageD)
  have "card ?L = card (?a ` ?L)" using inj by (rule card_image[symmetric])
  also have "\<dots> \<le> card {r * 2 ^ 21..<r * 2 ^ 21 + 2 ^ 21}" using sub by (intro card_mono) simp_all
  finally show "card ?L \<le> 2 ^ 21" by simp
qed

lemma pinned_leaves_small: "tree_ok s \<Longrightarrow> finite (pinned_leaves s r)" "tree_ok s \<Longrightarrow> card (pinned_leaves s r) \<le> 2 ^ 21"
proof -
  assume t: "tree_ok s"
  have sub: "pinned_leaves s r \<subseteq> {p. is_leaf s p \<and> root_chunk_from_chunk s p = r}" by (auto simp: pinned_leaves_def)
  show "finite (pinned_leaves s r)" using finite_subset[OF sub leaves_of_root(1)[OF t]] .
  show "card (pinned_leaves s r) \<le> 2 ^ 21" using card_mono[OF leaves_of_root(1)[OF t] sub] leaves_of_root(2)[OF t, of r] by linarith
qed

end
