(* ===== verification/Pmm_Frame.thy ===== *)
theory Pmm_Frame
  imports Pmm_Inv
begin

text \<open>
  What the small updates of the physical memory manager change: the frame lemmas that carry its invariant
  through the steps that neither split nor merge a chunk.
\<close>

section \<open>Updates of one chunk\<close>

lemma named_setters_keep [simp]:
  "chunk_address (uvm_gpu_chunk_set_state c st) = chunk_address c" "chunk_parent (uvm_gpu_chunk_set_state c st) = chunk_parent c"
  "chunk_suballoc (uvm_gpu_chunk_set_state c st) = chunk_suballoc c" "chunk_va_block (uvm_gpu_chunk_set_state c st) = chunk_va_block c"
  "chunk_address (uvm_gpu_chunk_set_type c ty) = chunk_address c" "chunk_parent (uvm_gpu_chunk_set_type c ty) = chunk_parent c"
  "chunk_suballoc (uvm_gpu_chunk_set_type c ty) = chunk_suballoc c" "chunk_va_block (uvm_gpu_chunk_set_type c ty) = chunk_va_block c"
  "chunk_address (uvm_gpu_chunk_set_size c n) = chunk_address c" "chunk_parent (uvm_gpu_chunk_set_size c n) = chunk_parent c"
  "chunk_suballoc (uvm_gpu_chunk_set_size c n) = chunk_suballoc c" "chunk_va_block (uvm_gpu_chunk_set_size c n) = chunk_va_block c"
  "chunk_address (uvm_gpu_chunk_set_in_eviction c e) = chunk_address c" "chunk_parent (uvm_gpu_chunk_set_in_eviction c e) = chunk_parent c"
  "chunk_suballoc (uvm_gpu_chunk_set_in_eviction c e) = chunk_suballoc c" "chunk_va_block (uvm_gpu_chunk_set_in_eviction c e) = chunk_va_block c"
  "chunk_address (uvm_gpu_chunk_set_inject_split_error c) = chunk_address c" "chunk_parent (uvm_gpu_chunk_set_inject_split_error c) = chunk_parent c"
  "chunk_suballoc (uvm_gpu_chunk_set_inject_split_error c) = chunk_suballoc c" "chunk_va_block (uvm_gpu_chunk_set_inject_split_error c) = chunk_va_block c"
  "chunk_address (uvm_gpu_chunk_clear_inject_split_error c) = chunk_address c" "chunk_parent (uvm_gpu_chunk_clear_inject_split_error c) = chunk_parent c"
  "chunk_suballoc (uvm_gpu_chunk_clear_inject_split_error c) = chunk_suballoc c"
  "chunk_va_block (uvm_gpu_chunk_clear_inject_split_error c) = chunk_va_block c"
  by (cases ty; simp add: setter_defs)+

lemma ch_upd_chunk [simp]: "ch (upd_chunk p f s) q = (if q = p then f (ch s p) else ch s q)"
  by (simp add: ch_def upd_chunk_def)

lemma live_upd_chunk [simp]: "live (upd_chunk p f s) q \<longleftrightarrow> q = p \<or> live s q"
  by (simp add: live_def upd_chunk_def)

lemma ch_upd_suballoc [simp]:
  "ch (upd_suballoc p f s) q =
     (if q = p then (ch s p)\<lparr>chunk_suballoc := map_option f (chunk_suballoc (ch s p))\<rparr> else ch s q)"
  by (simp add: upd_suballoc_def)

lemma live_upd_suballoc [simp]: "live (upd_suballoc p f s) q \<longleftrightarrow> q = p \<or> live s q"
  by (simp add: upd_suballoc_def)

text \<open>The rest of the manager.\<close>

lemma upd_chunk_rest [simp]:
  "pmm_chunk_sizes (upd_chunk p f s) = pmm_chunk_sizes s" "pmm_root_chunks_count (upd_chunk p f s) = pmm_root_chunks_count s"
  "pmm_calls (upd_chunk p f s) = pmm_calls s" "pmm_free_list (upd_chunk p f s) = pmm_free_list s" "pmm_kmem (upd_chunk p f s) = pmm_kmem s"
  "va_block_used_root_chunks (upd_chunk p f s) = va_block_used_root_chunks s"
  "va_block_unused_root_chunks (upd_chunk p f s) = va_block_unused_root_chunks s"
  "pmm_trackers (upd_chunk p f s) = pmm_trackers s" "pmm_supports_eviction (upd_chunk p f s) = pmm_supports_eviction s"
  "pmm_pma_freed (upd_chunk p f s) = pmm_pma_freed s"
  by (simp_all add: upd_chunk_def)

lemma upd_suballoc_rest [simp]:
  "pmm_chunk_sizes (upd_suballoc p g s) = pmm_chunk_sizes s" "pmm_root_chunks_count (upd_suballoc p g s) = pmm_root_chunks_count s"
  "pmm_calls (upd_suballoc p g s) = pmm_calls s" "pmm_free_list (upd_suballoc p g s) = pmm_free_list s" "pmm_kmem (upd_suballoc p g s) = pmm_kmem s"
  "va_block_used_root_chunks (upd_suballoc p g s) = va_block_used_root_chunks s"
  "va_block_unused_root_chunks (upd_suballoc p g s) = va_block_unused_root_chunks s"
  "pmm_trackers (upd_suballoc p g s) = pmm_trackers s" "pmm_supports_eviction (upd_suballoc p g s) = pmm_supports_eviction s"
  "pmm_pma_freed (upd_suballoc p g s) = pmm_pma_freed s"
  by (simp_all add: upd_suballoc_def)

text \<open>The lists leave the chunks alone.\<close>

lemma lists_chunks [simp]:
  "ch (list_del_init p s) = ch s" "ch (list_move_tail_free p ty i s) = ch s" "ch (list_move_tail_used p s) = ch s" "ch (list_move_tail_unused p s) = ch s"
  "live (list_del_init p s) = live s" "live (list_move_tail_free p ty i s) = live s" "live (list_move_tail_used p s) = live s"
  "live (list_move_tail_unused p s) = live s"
  by (simp_all add: fun_eq_iff ch_def live_def list_del_init_def list_move_tail_free_def list_move_tail_used_def list_move_tail_unused_def Let_def)

lemma list_del_rest [simp]:
  "pmm_chunk_sizes (list_del_init p s) = pmm_chunk_sizes s" "pmm_root_chunks_count (list_del_init p s) = pmm_root_chunks_count s"
  "pmm_calls (list_del_init p s) = pmm_calls s" "pmm_kmem (list_del_init p s) = pmm_kmem s" "pmm_trackers (list_del_init p s) = pmm_trackers s"
  "pmm_supports_eviction (list_del_init p s) = pmm_supports_eviction s" "pmm_pma_freed (list_del_init p s) = pmm_pma_freed s"
  "pmm_free_list (list_del_init p s) ty i = removeAll p (pmm_free_list s ty i)"
  "va_block_used_root_chunks (list_del_init p s) = removeAll p (va_block_used_root_chunks s)"
  "va_block_unused_root_chunks (list_del_init p s) = removeAll p (va_block_unused_root_chunks s)"
  by (simp_all add: list_del_init_def)

lemma list_move_free_rest [simp]:
  "pmm_chunk_sizes (list_move_tail_free p ty i s) = pmm_chunk_sizes s" "pmm_root_chunks_count (list_move_tail_free p ty i s) = pmm_root_chunks_count s"
  "pmm_calls (list_move_tail_free p ty i s) = pmm_calls s" "pmm_kmem (list_move_tail_free p ty i s) = pmm_kmem s"
  "pmm_trackers (list_move_tail_free p ty i s) = pmm_trackers s" "pmm_supports_eviction (list_move_tail_free p ty i s) = pmm_supports_eviction s"
  "pmm_pma_freed (list_move_tail_free p ty i s) = pmm_pma_freed s"
  "pmm_free_list (list_move_tail_free p ty i s) ty' i' = removeAll p (pmm_free_list s ty' i') @ (if ty' = ty \<and> i' = i then [p] else [])"
  "va_block_used_root_chunks (list_move_tail_free p ty i s) = removeAll p (va_block_used_root_chunks s)"
  "va_block_unused_root_chunks (list_move_tail_free p ty i s) = removeAll p (va_block_unused_root_chunks s)"
  by (simp_all add: list_move_tail_free_def Let_def)

lemma list_move_used_rest [simp]:
  "pmm_chunk_sizes (list_move_tail_used p s) = pmm_chunk_sizes s" "pmm_root_chunks_count (list_move_tail_used p s) = pmm_root_chunks_count s"
  "pmm_calls (list_move_tail_used p s) = pmm_calls s" "pmm_kmem (list_move_tail_used p s) = pmm_kmem s"
  "pmm_trackers (list_move_tail_used p s) = pmm_trackers s" "pmm_supports_eviction (list_move_tail_used p s) = pmm_supports_eviction s"
  "pmm_pma_freed (list_move_tail_used p s) = pmm_pma_freed s"
  "pmm_free_list (list_move_tail_used p s) ty i = removeAll p (pmm_free_list s ty i)"
  "va_block_used_root_chunks (list_move_tail_used p s) = removeAll p (va_block_used_root_chunks s) @ [p]"
  "va_block_unused_root_chunks (list_move_tail_used p s) = removeAll p (va_block_unused_root_chunks s)"
  by (simp_all add: list_move_tail_used_def Let_def)

lemma list_move_unused_rest [simp]:
  "pmm_chunk_sizes (list_move_tail_unused p s) = pmm_chunk_sizes s" "pmm_root_chunks_count (list_move_tail_unused p s) = pmm_root_chunks_count s"
  "pmm_calls (list_move_tail_unused p s) = pmm_calls s" "pmm_kmem (list_move_tail_unused p s) = pmm_kmem s"
  "pmm_trackers (list_move_tail_unused p s) = pmm_trackers s" "pmm_supports_eviction (list_move_tail_unused p s) = pmm_supports_eviction s"
  "pmm_pma_freed (list_move_tail_unused p s) = pmm_pma_freed s"
  "pmm_free_list (list_move_tail_unused p s) ty i = removeAll p (pmm_free_list s ty i)"
  "va_block_used_root_chunks (list_move_tail_unused p s) = removeAll p (va_block_used_root_chunks s)"
  "va_block_unused_root_chunks (list_move_tail_unused p s) = removeAll p (va_block_unused_root_chunks s) @ [p]"
  by (simp_all add: list_move_tail_unused_def Let_def)

lemma trackers_frame [simp]:
  "ch (s\<lparr>pmm_trackers := t\<rparr>) = ch s" "live (s\<lparr>pmm_trackers := t\<rparr>) = live s"
  "ch (s\<lparr>pmm_pma_freed := x\<rparr>) = ch s" "live (s\<lparr>pmm_pma_freed := x\<rparr>) = live s"
  by (simp_all add: fun_eq_iff ch_def live_def)

section \<open>Shapes\<close>

lemma same_shape_refl [simp]: "same_shape s s"
  by (simp add: same_shape_def)

lemma same_shape_trans: "same_shape s s' \<Longrightarrow> same_shape s' s'' \<Longrightarrow> same_shape s s''"
  by (auto simp: same_shape_def)

lemma same_shape_upd_chunk:
  assumes "live s p" "chunk_address (f (ch s p)) = caddr s p" "chunk_parent (f (ch s p)) = cparent s p"
    "uvm_gpu_chunk_get_type (f (ch s p)) = ctype s p" "uvm_gpu_chunk_get_size (f (ch s p)) = csize s p"
    "map_option sa_subchunks (chunk_suballoc (f (ch s p))) = map_option sa_subchunks (chunk_suballoc (ch s p))"
  shows "same_shape s (upd_chunk p f s)"
  using assms by (auto simp: same_shape_def shape_def)

lemma same_shape_set_state: "live s p \<Longrightarrow> same_shape s (set_cstate p st s)"
  by (rule same_shape_upd_chunk) simp_all

lemma same_shape_suballoc:
  "live s p \<Longrightarrow> (\<And>sa. sa_subchunks (g sa) = sa_subchunks sa) \<Longrightarrow> same_shape s (upd_suballoc p g s)"
  unfolding upd_suballoc_def by (rule same_shape_upd_chunk) (simp_all add: option.map_comp o_def)

lemma same_shape_eqI:
  "pmm_chunk_sizes s' = pmm_chunk_sizes s \<Longrightarrow> pmm_root_chunks_count s' = pmm_root_chunks_count s \<Longrightarrow> pmm_calls s' = pmm_calls s \<Longrightarrow>
   ch s' = ch s \<Longrightarrow> live s' = live s \<Longrightarrow> same_shape s s'"
  by (simp add: same_shape_def shape_def)

lemma same_shape_facts:
  assumes "same_shape s s'" "live s p"
  shows "caddr s' p = caddr s p" "cparent s' p = cparent s p" "ctype s' p = ctype s p" "csize s' p = csize s p" "cexp s' p = cexp s p"
    "(chunk_suballoc (ch s' p) = None) = (chunk_suballoc (ch s p) = None)" "chunk_suballoc (ch s p) \<noteq> None \<Longrightarrow> csubs s' p = csubs s p"
    "mask_of s' p = mask_of s p" "root_chunk_from_chunk s' p = root_chunk_from_chunk s p" "find_free_list_chunk s' p = find_free_list_chunk s p"
proof -
  have sh: "shape s' p = shape s p" "pmm_chunk_sizes s' = pmm_chunk_sizes s" using assms by (simp_all add: same_shape_def)
  then show e: "caddr s' p = caddr s p" "cparent s' p = cparent s p" "ctype s' p = ctype s p" "csize s' p = csize s p"
    by (simp_all add: shape_def)
  show "(chunk_suballoc (ch s' p) = None) = (chunk_suballoc (ch s p) = None)" using sh(1) by (auto simp: shape_def)
  show "csubs s' p = csubs s p" if "chunk_suballoc (ch s p) \<noteq> None" using sh(1) that by (auto simp: shape_def)
  show "cexp s' p = cexp s p" "mask_of s' p = mask_of s p" "root_chunk_from_chunk s' p = root_chunk_from_chunk s p"
    "find_free_list_chunk s' p = find_free_list_chunk s p"
    using e sh(2) by (simp_all add: cexp_def mask_of_def root_chunk_from_chunk_def find_free_list_chunk_def find_free_list_def)
qed

lemma same_shape_rest:
  assumes "same_shape s s'"
  shows "live s' = live s" "pmm_chunk_sizes s' = pmm_chunk_sizes s" "pmm_root_chunks_count s' = pmm_root_chunks_count s" "pmm_calls s' = pmm_calls s"
  using assms by (auto simp: same_shape_def)

lemma same_shape_tree:
  assumes sh: "same_shape s s'" and t: "tree_ok s"
  shows "tree_ok s'"
proof -
  note f = same_shape_facts[OF sh] and r = same_shape_rest[OF sh]
  have "chunk_ok s' p" if l: "live s p" for p
  proof -
    have ok: "chunk_ok s p" using tree_chunk[OF t l] .
    have "split_ok s' p" if sp: "chunk_suballoc (ch s p) \<noteq> None"
    proof -
      have so: "split_ok s p" using ok sp by (simp add: chunk_ok_def)
      have "child_ok s' p i" if "i < length (csubs s p)" for i
        using so that f[OF l] sp f[of "csubs s p ! i"] by (auto simp: split_ok_def child_ok_def Let_def r)
      then show ?thesis using so f[OF l] sp by (simp add: split_ok_def)
    qed
    then show ?thesis using ok f[OF l] f by (auto simp: chunk_ok_def r)
  qed
  then show ?thesis using t by (simp add: tree_ok_def r)
qed

section \<open>Counts\<close>

lemma length_filter_change:
  assumes "distinct xs" "p \<in> set xs" "\<And>x. x \<in> set xs \<Longrightarrow> x \<noteq> p \<Longrightarrow> P' x = P x"
  shows "length (filter P' xs) + (if P p then 1 else 0) = length (filter P xs) + (if P' p then 1 else 0)"
  using assms
proof (induction xs)
  case (Cons x xs)
  show ?case
  proof (cases "x = p")
    case True
    then have "filter P' xs = filter P xs" using Cons.prems by (intro filter_cong) auto
    then show ?thesis using True by simp
  next
    case False
    then show ?thesis using Cons by simp
  qed
qed simp

lemma csubs_facts:
  assumes t: "tree_ok s" and q: "live s q" "chunk_suballoc (ch s q) \<noteq> None"
  shows "distinct (csubs s q)" "length (csubs s q) \<le> 2 ^ 21" "csubs s q \<noteq> []"
    "p \<in> set (csubs s q) \<Longrightarrow> live s p \<and> cparent s p = Some q" "2 \<le> length (csubs s q)"
proof -
  have so: "split_ok s q" using tree_chunk[OF t q(1)] q(2) by (simp add: chunk_ok_def)
  have co: "child_ok s q i" if "i < length (csubs s q)" for i using so that by (simp add: split_ok_def)
  show "distinct (csubs s q)"
    unfolding distinct_conv_nth
  proof (intro allI impI)
    fix i j assume h: "i < length (csubs s q)" "j < length (csubs s q)" "i \<noteq> j"
    then have "unat (caddr s (csubs s q ! i)) \<noteq> unat (caddr s (csubs s q ! j))"
      using co[OF h(1)] co[OF h(2)] by (simp add: child_ok_def Let_def)
    then show "csubs s q ! i \<noteq> csubs s q ! j" by metis
  qed
  have e: "prev_exp (mask_of s q) (cexp s q) < cexp s q"
    using prev_exp_props(1)[of "mask_of s q" "cexp s q"] exp_le[OF t q(1)] so by (simp add: split_ok_def)
  have l: "length (csubs s q) = 2 ^ (cexp s q - prev_exp (mask_of s q) (cexp s q))" using so by (simp add: split_ok_def)
  also have "\<dots> \<le> (2::nat) ^ 21" using conjunct1[OF exp_le[OF t q(1)]] by (intro power_increasing) (linarith, simp)
  finally show "length (csubs s q) \<le> 2 ^ 21" .
  have "(2::nat) ^ 1 \<le> 2 ^ (cexp s q - prev_exp (mask_of s q) (cexp s q))" using e by (intro power_increasing) simp_all
  then show "2 \<le> length (csubs s q)" using l by simp
  then show "csubs s q \<noteq> []" by auto
  show "live s p \<and> cparent s p = Some q" if "p \<in> set (csubs s q)"
    using that co by (auto simp: in_set_conv_nth child_ok_def Let_def)
qed

lemma used_le: "used_children s q \<le> length (csubs s q)"
  by (simp add: used_children_def)

lemma used_children_cong:
  assumes "\<And>x. x \<in> set (csubs s q) \<Longrightarrow> cstate s' x = cstate s x" "csubs s' q = csubs s q"
  shows "used_children s' q = used_children s q"
  unfolding used_children_def assms(2) by (intro arg_cong[where f = length] filter_cong) (simp_all add: assms(1))

definition alloc_delta :: "bool \<Rightarrow> bool \<Rightarrow> u32" where
  "alloc_delta f f' = (if f = f' then 0 else if f then 1 else - 1)"

lemma u32_inc: "unat (a :: u32) = n \<Longrightarrow> n < 2 ^ 32 - 1 \<Longrightarrow> unat (a + 1) = n + 1"
  by (simp add: unat_word_ariths)

lemma u32_dec: "unat (a :: u32) = n \<Longrightarrow> 0 < n \<Longrightarrow> unat (a - 1) = n - 1"
  by (metis unat_minus_one neq0_conv unat_0)

lemma states_change:
  assumes sh: "same_shape s s'" and t: "tree_ok s" and so: "states_ok s" and p: "live s p" "chunk_suballoc (ch s p) = None"
    and other: "\<And>q. live s q \<Longrightarrow> q \<noteq> p \<Longrightarrow> cstate s' q = cstate s q"
    and st: "cstate s' p \<noteq> UVM_PMM_GPU_CHUNK_STATE_IS_SPLIT" "cstate s' p = UVM_PMM_GPU_CHUNK_STATE_PMA_OWNED \<Longrightarrow> p < pmm_root_chunks_count s"
    and cnt: "\<And>q. live s q \<Longrightarrow> chunk_suballoc (ch s q) \<noteq> None \<Longrightarrow>
        sa_allocated (csub s' q) = sa_allocated (csub s q) + (if cparent s p = Some q then alloc_delta (is_free s p) (is_free s' p) else 0)"
    and not_last: "\<And>q. cparent s p = Some q \<Longrightarrow> \<not> is_free s p \<Longrightarrow> is_free s' p \<Longrightarrow> sa_allocated (csub s q) \<noteq> 1"
  shows "states_ok s'"
proof -
  note f = same_shape_facts[OF sh] and r = same_shape_rest[OF sh]
  have "unat (sa_allocated (csub s' q)) = used_children s' q \<and> 0 < used_children s' q"
    if q: "live s q" "chunk_suballoc (ch s q) \<noteq> None" for q
  proof -
    note c = csubs_facts[OF t q]
    have sp: "is_split s q" "unat (sa_allocated (csub s q)) = used_children s q" "0 < used_children s q"
      using so q by (auto simp: states_ok_def)
    show ?thesis
    proof (cases "cparent s p = Some q")
      case False
      then have np: "p \<notin> set (csubs s q)" using c(4) by blast
      have "used_children s' q = used_children s q"
        using np c(4) other f(7)[OF q] by (intro used_children_cong) metis+
      then show ?thesis using cnt[OF q] False sp by simp
    next
      case True
      have "p \<in> set (csubs s q)" using tree_chunk[OF t p(1)] True by (auto simp: chunk_ok_def)
      then have ch: "used_children s' q + (if is_free s p then 0 else 1) = used_children s q + (if is_free s' p then 0 else 1)"
        using length_filter_change[OF c(1), of p "\<lambda>x. \<not> is_free s' x" "\<lambda>x. \<not> is_free s x"] other c(4) f(7)[OF q]
        by (auto simp: used_children_def)
      have a: "sa_allocated (csub s' q) = sa_allocated (csub s q) + alloc_delta (is_free s p) (is_free s' p)"
        using cnt[OF q] True by simp
      have le: "used_children s q \<le> 2 ^ 21" using used_le[of s q] c(2) by linarith
      consider "is_free s p = is_free s' p" | "is_free s p" "\<not> is_free s' p" | "\<not> is_free s p" "is_free s' p" by blast
      then show ?thesis
      proof cases
        case 1
        then show ?thesis using a ch sp by (simp add: alloc_delta_def)
      next
        case 2
        then show ?thesis using a ch sp u32_inc[OF sp(2)] le by (simp add: alloc_delta_def)
      next
        case 3
        have "sa_allocated (csub s q) \<noteq> 1" using not_last[OF True] 3 by simp
        then have "used_children s q \<noteq> 1" using sp(2) by (metis unat_1 word_unat_eq_iff)
        then show ?thesis using a ch sp u32_dec[OF sp(2)] 3 by (simp add: alloc_delta_def)
      qed
    qed
  qed
  moreover have "is_split s' q \<longleftrightarrow> chunk_suballoc (ch s' q) \<noteq> None" if "live s q" for q
    using so that f(6)[OF that] other[OF that] st(1) p(2) by (cases "q = p") (auto simp: states_ok_def)
  moreover have "q < pmm_root_chunks_count s" if "live s q" "cstate s' q = UVM_PMM_GPU_CHUNK_STATE_PMA_OWNED" for q
    using so that other[OF that(1)] st(2) by (cases "q = p") (auto simp: states_ok_def)
  ultimately show ?thesis using f(6) by (auto simp: states_ok_def r)
qed

section \<open>Free lists\<close>

lemma root_is_live: "tree_ok s \<Longrightarrow> live s p \<Longrightarrow> live s (root_chunk_from_chunk s p)"
  using root_of_eq(2) by (auto simp: tree_ok_def)

lemma root_of_root:
  assumes "tree_ok s" "live s p" "cparent s p = None"
  shows "root_chunk_from_chunk s p = p"
  using root_facts[OF assms] root_of_eq(1)[OF assms(1,2)] by simp

lemma is_root_iff:
  assumes t: "tree_ok s" and l: "live s p"
  shows "chunk_is_root_chunk s p \<longleftrightarrow> cparent s p = None"
proof
  assume "cparent s p = None"
  then show "chunk_is_root_chunk s p"
    using root_facts(2)[OF t l] csize_eq(1)[of s p] by (simp add: chunk_is_root_chunk_def size_consts)
next
  assume r: "chunk_is_root_chunk s p"
  show "cparent s p = None"
  proof (rule ccontr)
    assume "cparent s p \<noteq> None"
    then obtain q where q: "cparent s p = Some q" by blast
    have lt: "live s q" "cexp s p < cexp s q" by (rule parent_facts[OF t l q], assumption)+
    have "cexp s p = 21" using r fls_log[of 21] by (simp add: cexp_def chunk_is_root_chunk_def size_consts)
    then show False using exp_le[OF t lt(1)] lt(2) by simp
  qed
qed

text \<open>The root of a chunk with a parent is split.\<close>

lemma root_split:
  assumes t: "tree_ok s" and p: "live s p" "cparent s p \<noteq> None"
  shows "chunk_suballoc (ch s (root_chunk_from_chunk s p)) \<noteq> None" "cexp s p < 21" "root_chunk_from_chunk s p \<noteq> p"
proof -
  obtain q where q: "cparent s p = Some q" using p(2) by blast
  have lt: "live s q" "cexp s p < cexp s q" by (rule parent_facts[OF t p(1) q], assumption)+
  then show e: "cexp s p < 21" using exp_le[OF t lt(1)] by simp
  have b: "bit (mask_of s p) 21" using tree_mask[OF t] by (simp add: mask_ok_def)
  obtain a where a: "live s a" "cexp s a = 21" "span s p \<subseteq> span s a" "chunk_suballoc (ch s a) \<noteq> None"
    using ancestor[OF t p(1) b _ refl] e by auto
  have "cparent s a = None"
  proof (rule ccontr)
    assume "cparent s a \<noteq> None"
    then obtain y where y: "cparent s a = Some y" by blast
    have "live s y" "cexp s a < cexp s y" by (rule parent_facts[OF t a(1) y], assumption)+
    then show False using exp_le[OF t, of y] a(2) by simp
  qed
  note ra = root_facts[OF t a(1) this]
  have "unat (caddr s p) \<in> span s p" by (simp add: span_def)
  then have "unat (caddr s p) \<in> span s a" using a(3) by blast
  then have "unat (caddr s p) div 2 ^ 21 = a" unfolding span_def ra by (intro div_nat_eqI) simp_all
  then have ra: "root_chunk_from_chunk s p = a" using root_of_eq(1)[OF t p(1)] by simp
  then show "chunk_suballoc (ch s (root_chunk_from_chunk s p)) \<noteq> None" using a(4) by simp
  show "root_chunk_from_chunk s p \<noteq> p" using ra a(2) e by auto
qed

text \<open>What one chunk's free list entry must become when its state does.\<close>

definition free_entry :: "uvm_pmm_gpu \<Rightarrow> chunk_ptr \<Rightarrow> uvm_pmm_gpu_memory_type \<Rightarrow> nat \<Rightarrow> chunk_ptr list" where
  "free_entry s p ty i = (if is_free s p \<and> ctype s p = ty \<and> find_free_list_chunk s p = i then [p] else [])"

definition same_eviction :: "uvm_pmm_gpu \<Rightarrow> uvm_pmm_gpu \<Rightarrow> bool" where
  "same_eviction s s' \<longleftrightarrow>
     (\<forall>p. live s p \<longrightarrow> uvm_gpu_chunk_is_in_eviction (ch s' p) = uvm_gpu_chunk_is_in_eviction (ch s p))"

lemma lists_change:
  assumes sh: "same_shape s s'" and t: "tree_ok s" and lo: "lists_ok s" and p: "live s p" and ev: "same_eviction s s'"
    and other: "\<And>q. live s q \<Longrightarrow> q \<noteq> p \<Longrightarrow> cstate s' q = cstate s q"
    and fl: "\<And>ty i. pmm_free_list s' ty i = removeAll p (pmm_free_list s ty i) @ free_entry s' p ty i"
  shows "lists_ok s'"
  unfolding lists_ok_def
proof (intro allI conjI)
  note f = same_shape_facts[OF sh] and r = same_shape_rest[OF sh]
  fix ty i
  have d: "distinct (pmm_free_list s ty i)" "set (pmm_free_list s ty i) \<subseteq> free_set s ty i"
    "\<And>q. q \<in> free_set s ty i \<Longrightarrow> \<not> chunk_is_in_eviction s q \<Longrightarrow> q \<in> set (pmm_free_list s ty i)"
    using lo by (auto simp: lists_ok_def)
  have fs: "q \<in> free_set s' ty i \<longleftrightarrow> q \<in> free_set s ty i" if "q \<noteq> p" for q
    using that other f by (auto simp: free_set_def r)
  have fp: "p \<in> free_set s' ty i \<longleftrightarrow> free_entry s' p ty i = [p]" using p by (simp add: free_set_def free_entry_def r)
  have fe: "free_entry s' p ty i = [] \<or> free_entry s' p ty i = [p]" by (simp add: free_entry_def)
  show "distinct (pmm_free_list s' ty i)" unfolding fl using d(1) fe by (auto simp: distinct_removeAll)
  show "set (pmm_free_list s' ty i) \<subseteq> free_set s' ty i" unfolding fl using d(2) fe fs fp by auto
  show "\<forall>q \<in> free_set s' ty i. \<not> chunk_is_in_eviction s' q \<longrightarrow> q \<in> set (pmm_free_list s' ty i)"
  proof (intro ballI impI)
    fix q assume q: "q \<in> free_set s' ty i" "\<not> chunk_is_in_eviction s' q"
    then have l: "live s q" by (simp add: free_set_def r)
    have "\<not> chunk_is_in_eviction s q"
      using q(2) ev root_is_live[OF t l] f(9)[OF l] by (simp add: chunk_is_in_eviction_def same_eviction_def)
    then show "q \<in> set (pmm_free_list s' ty i)" unfolding fl using q(1) d(3)[of q] fs[of q] fp by (cases "q = p") auto
  qed
qed

text \<open>Lists of the manager after \<^verbatim>\<open>chunk_update_lists_locked\<close>.\<close>

lemma update_lists_frame [simp]:
  "ch (chunk_update_lists_locked p s) = ch s" "live (chunk_update_lists_locked p s) = live s"
  "pmm_chunk_sizes (chunk_update_lists_locked p s) = pmm_chunk_sizes s"
  "pmm_root_chunks_count (chunk_update_lists_locked p s) = pmm_root_chunks_count s"
  "pmm_calls (chunk_update_lists_locked p s) = pmm_calls s" "pmm_kmem (chunk_update_lists_locked p s) = pmm_kmem s"
  "pmm_trackers (chunk_update_lists_locked p s) = pmm_trackers s"
  "pmm_supports_eviction (chunk_update_lists_locked p s) = pmm_supports_eviction s"
  "pmm_pma_freed (chunk_update_lists_locked p s) = pmm_pma_freed s"
  by (simp_all add: chunk_update_lists_locked_def Let_def)

lemma update_lists_free_list:
  assumes off: "\<And>ty i. root_chunk_from_chunk s p \<noteq> p \<Longrightarrow> root_chunk_from_chunk s p \<notin> set (pmm_free_list s ty i)"
    and st: "is_free s p \<or> cstate s p = UVM_PMM_GPU_CHUNK_STATE_TEMP_PINNED \<or> (\<forall>ty i. p \<notin> set (pmm_free_list s ty i))"
  shows "pmm_free_list (chunk_update_lists_locked p s) ty i = removeAll p (pmm_free_list s ty i) @ free_entry s p ty i"
proof -
  let ?r = "root_chunk_from_chunk s p"
  define s1 where "s1 = (if ctype s p = UVM_PMM_GPU_MEMORY_TYPE_USER then
      if chunk_is_root_chunk_pinned s p then list_del_init ?r s
      else if cstate s ?r \<noteq> UVM_PMM_GPU_CHUNK_STATE_FREE then list_move_tail_used ?r s else s else s)"
  have s1: "ch s1 = ch s" "find_free_list_chunk s1 p = find_free_list_chunk s p"
    by (simp_all add: s1_def find_free_list_chunk_def find_free_list_def)
  have e: "chunk_update_lists_locked p s =
      (if is_free s p then list_move_tail_free p (ctype s p) (find_free_list_chunk s p) s1
       else if cstate s p = UVM_PMM_GPU_CHUNK_STATE_TEMP_PINNED then list_del_init p s1 else s1)"
    unfolding chunk_update_lists_locked_def Let_def by (fold s1_def) (simp add: s1)
  have l: "pmm_free_list s1 ty i = pmm_free_list s ty i \<or> pmm_free_list s1 ty i = removeAll ?r (pmm_free_list s ty i)" by (simp add: s1_def)
  have rr: "removeAll ?r (pmm_free_list s ty i) = pmm_free_list s ty i \<or> ?r = p" using off[of ty i] by auto
  have rp: "removeAll p (pmm_free_list s1 ty i) = removeAll p (pmm_free_list s ty i)" using l rr by auto
  have same: "pmm_free_list s1 ty i = pmm_free_list s ty i" if "p \<notin> set (pmm_free_list s ty i)" using l rr that by auto
  consider "is_free s p" | "cstate s p = UVM_PMM_GPU_CHUNK_STATE_TEMP_PINNED"
    | "\<not> is_free s p" "cstate s p \<noteq> UVM_PMM_GPU_CHUNK_STATE_TEMP_PINNED" "p \<notin> set (pmm_free_list s ty i)" using st by blast
  then show ?thesis
  proof cases
    case 1
    then show ?thesis unfolding e free_entry_def by (simp add: rp eq_commute)
  next
    case 2
    then show ?thesis unfolding e free_entry_def by (simp add: rp)
  next
    case 3
    then show ?thesis unfolding e free_entry_def by (simp add: same)
  qed
qed

section \<open>Pinned leaves\<close>

abbreviation is_pinned :: "uvm_pmm_gpu \<Rightarrow> chunk_ptr \<Rightarrow> bool" where
  "is_pinned s p \<equiv> cstate s p = UVM_PMM_GPU_CHUNK_STATE_TEMP_PINNED"

lemma pins_change:
  assumes sh: "same_shape s s'" and t: "tree_ok s" and po: "pins_ok s" and p: "live s p" "chunk_suballoc (ch s p) = None"
    and other: "\<And>q. live s q \<Longrightarrow> q \<noteq> p \<Longrightarrow> cstate s' q = cstate s q"
    and cnt: "\<And>r. r < pmm_root_chunks_count s \<Longrightarrow> chunk_suballoc (ch s r) \<noteq> None \<Longrightarrow>
        sa_pinned_leaf_chunks (csub s' r) = sa_pinned_leaf_chunks (csub s r) +
          (if root_chunk_from_chunk s p = r then alloc_delta (\<not> is_pinned s p) (\<not> is_pinned s' p) else 0)"
  shows "pins_ok s'"
  unfolding pins_ok_def
proof (intro allI impI)
  note f = same_shape_facts[OF sh] and r = same_shape_rest[OF sh]
  fix r' assume h: "r' < pmm_root_chunks_count s'" "chunk_suballoc (ch s' r') \<noteq> None"
  then have l: "live s r'" using t r(3) by (simp add: tree_ok_def)
  have c: "r' < pmm_root_chunks_count s" "chunk_suballoc (ch s r') \<noteq> None" using h f(6)[OF l] r(3) by simp_all
  have u: "unat (sa_pinned_leaf_chunks (csub s r')) = card (pinned_leaves s r')" using po c by (simp add: pins_ok_def)
  have le: "card (pinned_leaves s r') \<le> 2 ^ 21" and fin: "finite (pinned_leaves s r')" using pinned_leaves_small[OF t] by blast+
  have mem: "q \<in> pinned_leaves s' r' \<longleftrightarrow> (if q = p then is_pinned s' p \<and> root_chunk_from_chunk s p = r' else q \<in> pinned_leaves s r')" for q
    using p f other by (auto simp: pinned_leaves_def is_leaf_def r(1))
  have pm: "p \<in> pinned_leaves s r' \<longleftrightarrow> is_pinned s p \<and> root_chunk_from_chunk s p = r'"
    using p by (simp add: pinned_leaves_def is_leaf_def)
  note a = cnt[OF c]
  consider "root_chunk_from_chunk s p \<noteq> r' \<or> is_pinned s p = is_pinned s' p"
    | "root_chunk_from_chunk s p = r'" "\<not> is_pinned s p" "is_pinned s' p" | "root_chunk_from_chunk s p = r'" "is_pinned s p" "\<not> is_pinned s' p"
    by blast
  then show "unat (sa_pinned_leaf_chunks (csub s' r')) = card (pinned_leaves s' r')"
  proof cases
    case 1
    have "pinned_leaves s' r' = pinned_leaves s r'"
      using 1 pm by (intro set_eqI) (auto simp: mem split: if_splits)
    then show ?thesis using a u 1 by (auto simp: alloc_delta_def)
  next
    case 2
    have "pinned_leaves s' r' = insert p (pinned_leaves s r')" using 2 by (intro set_eqI) (auto simp: mem)
    moreover have "p \<notin> pinned_leaves s r'" using 2 by (simp add: pinned_leaves_def)
    ultimately show ?thesis using a 2 u32_inc[OF u] le fin by (simp add: alloc_delta_def)
  next
    case 3
    have "pinned_leaves s' r' = pinned_leaves s r' - {p}" using 3 by (intro set_eqI) (auto simp: mem)
    moreover have m: "p \<in> pinned_leaves s r'" using 3 p by (simp add: pinned_leaves_def is_leaf_def)
    moreover have "0 < card (pinned_leaves s r')" using m fin by (auto simp: card_gt_0_iff)
    ultimately show ?thesis using a 3 u32_dec[OF u] fin by (simp add: alloc_delta_def)
  qed
qed

text \<open>A step that changes the state of one leaf, with the counts above it and its place on the lists.\<close>

lemma leaf_step:
  assumes inv: "pmm_inv s" and p: "is_leaf s p" and sh: "same_shape s s'" and ev: "same_eviction s s'"
    and other: "\<And>q. live s q \<Longrightarrow> q \<noteq> p \<Longrightarrow> cstate s' q = cstate s q"
    and st: "cstate s' p \<noteq> UVM_PMM_GPU_CHUNK_STATE_IS_SPLIT" "cstate s' p = UVM_PMM_GPU_CHUNK_STATE_PMA_OWNED \<Longrightarrow> p < pmm_root_chunks_count s"
    and allocated: "\<And>q. live s q \<Longrightarrow> chunk_suballoc (ch s q) \<noteq> None \<Longrightarrow>
        sa_allocated (csub s' q) = sa_allocated (csub s q) + (if cparent s p = Some q then alloc_delta (is_free s p) (is_free s' p) else 0)"
    and pinned: "\<And>r. r < pmm_root_chunks_count s \<Longrightarrow> chunk_suballoc (ch s r) \<noteq> None \<Longrightarrow>
        sa_pinned_leaf_chunks (csub s' r) = sa_pinned_leaf_chunks (csub s r) +
          (if root_chunk_from_chunk s p = r then alloc_delta (\<not> is_pinned s p) (\<not> is_pinned s' p) else 0)"
    and not_last: "\<And>q. cparent s p = Some q \<Longrightarrow> \<not> is_free s p \<Longrightarrow> is_free s' p \<Longrightarrow> sa_allocated (csub s q) \<noteq> 1"
    and fl: "\<And>ty i. pmm_free_list s' ty i = removeAll p (pmm_free_list s ty i) @ free_entry s' p ty i"
  shows "pmm_inv s'"
proof -
  have i: "tree_ok s" "states_ok s" "pins_ok s" "lists_ok s" and l: "live s p" "chunk_suballoc (ch s p) = None"
    using inv p by (simp_all add: pmm_inv_def is_leaf_def)
  show ?thesis unfolding pmm_inv_def
    using same_shape_tree[OF sh i(1)] states_change[OF sh i(1,2) l other st allocated not_last]
      pins_change[OF sh i(1,3) l other pinned] lists_change[OF sh i(1,4) l(1) ev other fl] by blast
qed

end
