(* ===== verification/Pmm_Steps.thy ===== *)
theory Pmm_Steps
  imports Pmm_Frame
begin

text \<open>
  The steps of the physical memory manager that change the state of one chunk, each the work done while the list
  lock is held: claiming, pinning, unpinning and freeing. Each keeps the invariant.
\<close>

section \<open>What the updates leave alone\<close>

lemma root_of_frame [simp]:
  "root_chunk_from_chunk (upd_suballoc q g s) p = root_chunk_from_chunk s p"
  "root_chunk_from_chunk (set_cstate q st s) p = root_chunk_from_chunk s p"
  "root_chunk_from_chunk (list_del_init q s) p = root_chunk_from_chunk s p"
  "root_chunk_from_chunk (chunk_update_lists_locked q s) p = root_chunk_from_chunk s p"
  "root_chunk_from_chunk (upd_chunk q (\<lambda>c. c\<lparr>chunk_va_block := v\<rparr>) s) p = root_chunk_from_chunk s p"
  "root_chunk_from_chunk (upd_chunk q (\<lambda>c. (uvm_gpu_chunk_set_state c st)\<lparr>chunk_va_block := v\<rparr>) s) p = root_chunk_from_chunk s p"
  "root_chunk_from_chunk (upd_chunk q (\<lambda>c. uvm_gpu_chunk_set_in_eviction c e) s) p = root_chunk_from_chunk s p"
  "root_chunk_from_chunk (upd_chunk q uvm_gpu_chunk_clear_inject_split_error s) p = root_chunk_from_chunk s p"
  by (simp_all add: root_chunk_from_chunk_def)

lemma is_root_frame [simp]:
  "chunk_is_root_chunk (upd_suballoc q g s) p = chunk_is_root_chunk s p"
  "chunk_is_root_chunk (set_cstate q st s) p = chunk_is_root_chunk s p"
  "chunk_is_root_chunk (list_del_init q s) p = chunk_is_root_chunk s p"
  "chunk_is_root_chunk (upd_chunk q (\<lambda>c. c\<lparr>chunk_va_block := v\<rparr>) s) p = chunk_is_root_chunk s p"
  "chunk_is_root_chunk (upd_chunk q (\<lambda>c. (uvm_gpu_chunk_set_state c st)\<lparr>chunk_va_block := v\<rparr>) s) p = chunk_is_root_chunk s p"
  by (simp_all add: chunk_is_root_chunk_def)

lemma free_entry_update [simp]: "free_entry (chunk_update_lists_locked p s) q = free_entry s q"
  by (simp add: fun_eq_iff free_entry_def find_free_list_chunk_def find_free_list_def)

lemma inv_parts: "pmm_inv s \<Longrightarrow> tree_ok s" "pmm_inv s \<Longrightarrow> states_ok s" "pmm_inv s \<Longrightarrow> pins_ok s" "pmm_inv s \<Longrightarrow> lists_ok s"
  by (simp_all add: pmm_inv_def)

lemma off_lists: "lists_ok s \<Longrightarrow> \<not> is_free s p \<Longrightarrow> p \<notin> set (pmm_free_list s ty i)"
  by (auto simp: lists_ok_def free_set_def)

lemma off_lists_root:
  assumes inv: "pmm_inv s" and p: "live s p" and ne: "root_chunk_from_chunk s p \<noteq> p"
  shows "root_chunk_from_chunk s p \<notin> set (pmm_free_list s ty i)"
proof -
  note i = inv_parts[OF inv]
  have "cparent s p \<noteq> None" using root_of_root[OF i(1) p] ne by blast
  then have "chunk_suballoc (ch s (root_chunk_from_chunk s p)) \<noteq> None" using root_split(1)[OF i(1) p] by blast
  then have "is_split s (root_chunk_from_chunk s p)" using i(2) root_is_live[OF i(1) p] by (auto simp: states_ok_def)
  then show ?thesis using off_lists[OF i(4)] by simp
qed

lemma leaf_not_split: "states_ok s \<Longrightarrow> is_leaf s p \<Longrightarrow> \<not> is_split s p"
  by (auto simp: states_ok_def is_leaf_def)

lemma parent_ne: "tree_ok s \<Longrightarrow> live s p \<Longrightarrow> cparent s p = Some q \<Longrightarrow> q \<noteq> p \<and> live s q \<and> chunk_suballoc (ch s q) \<noteq> None"
  using parent_facts[of s p q] by (metis less_irrefl)

text \<open>The places a leaf's state shows up in: its root and its parent.\<close>

lemma leaf_place:
  assumes inv: "pmm_inv s" and p: "is_leaf s p"
  shows "cparent s p = None \<Longrightarrow> chunk_is_root_chunk s p \<and> root_chunk_from_chunk s p = p"
    "cparent s p = Some q \<Longrightarrow> \<not> chunk_is_root_chunk s p \<and> root_chunk_from_chunk s p \<noteq> p \<and> q \<noteq> p \<and> live s q \<and>
       chunk_suballoc (ch s q) \<noteq> None \<and> live s (root_chunk_from_chunk s p) \<and> chunk_suballoc (ch s (root_chunk_from_chunk s p)) \<noteq> None"
proof -
  note i = inv_parts[OF inv]
  have l: "live s p" using p by (simp add: is_leaf_def)
  show "chunk_is_root_chunk s p \<and> root_chunk_from_chunk s p = p" if "cparent s p = None"
    using that is_root_iff[OF i(1) l] root_of_root[OF i(1) l] by simp
  show "\<not> chunk_is_root_chunk s p \<and> root_chunk_from_chunk s p \<noteq> p \<and> q \<noteq> p \<and> live s q \<and>
       chunk_suballoc (ch s q) \<noteq> None \<and> live s (root_chunk_from_chunk s p) \<and> chunk_suballoc (ch s (root_chunk_from_chunk s p)) \<noteq> None"
    if "cparent s p = Some q"
    using that is_root_iff[OF i(1) l] root_split[OF i(1) l] parent_ne[OF i(1) l that] root_is_live[OF i(1) l] by simp
qed

section \<open>Claiming a free chunk\<close>

text \<open>What claiming does with the first chunk of the free list.\<close>

definition take_chunk :: "chunk_ptr \<Rightarrow> uvm_pmm_gpu \<Rightarrow> uvm_pmm_gpu" where
  "take_chunk p s =
     (let s = (case cparent s p of None \<Rightarrow> s | Some q \<Rightarrow> upd_suballoc q (\<lambda>sa. sa\<lparr>sa_allocated := sa_allocated sa + 1\<rparr>) s)
      in chunk_update_lists_locked p (chunk_pin p s))"

lemma claim_eq:
  "claim_free_chunk type chunk_size s =
     (let i = find_free_list s type chunk_size; s = drop_evicted (pmm_free_list s type i) s
      in case list_first_chunk (pmm_free_list s type i) of None \<Rightarrow> (None, s) | Some p \<Rightarrow> (Some p, take_chunk p s))"
  by (simp add: claim_free_chunk_def take_chunk_def Let_def split: option.split)

lemma take_chunk_inv:
  assumes inv: "pmm_inv s" and p: "is_leaf s p" "is_free s p"
  shows "pmm_inv (take_chunk p s)" "same_shape s (take_chunk p s)" "cstate (take_chunk p s) p = UVM_PMM_GPU_CHUNK_STATE_TEMP_PINNED"
    "\<And>q. q \<noteq> p \<Longrightarrow> cstate (take_chunk p s) q = cstate s q"
proof -
  note i = inv_parts[OF inv] and pl = leaf_place[OF inv p(1)]
  have l: "live s p" "chunk_suballoc (ch s p) = None" using p by (simp_all add: is_leaf_def)
  define s1 where "s1 = (case cparent s p of None \<Rightarrow> s | Some q \<Rightarrow> upd_suballoc q (\<lambda>sa. sa\<lparr>sa_allocated := sa_allocated sa + 1\<rparr>) s)"
  define s2 where "s2 = chunk_pin p s1"
  have e: "take_chunk p s = chunk_update_lists_locked p s2" by (simp add: take_chunk_def s1_def s2_def Let_def)
  have sh1: "same_shape s s1" unfolding s1_def using pl(2) by (auto split: option.splits intro: same_shape_suballoc)
  note f1 = same_shape_facts[OF sh1] and r1 = same_shape_rest[OF sh1]
  have "same_shape s1 s2"
    using pl f1[OF l(1)] l(1) unfolding s2_def chunk_pin_def Let_def
    by (cases "cparent s p") (auto intro!: same_shape_trans[OF same_shape_set_state same_shape_suballoc] same_shape_set_state simp: r1 s1_def)
  then have sh2: "same_shape s s2" using sh1 same_shape_trans by blast
  show sh: "same_shape s (take_chunk p s)" unfolding e by (rule same_shape_trans[OF sh2]) (rule same_shape_eqI, simp_all)
  show c: "cstate (take_chunk p s) p = UVM_PMM_GPU_CHUNK_STATE_TEMP_PINNED" unfolding e s2_def chunk_pin_def Let_def by simp
  show o: "cstate (take_chunk p s) q = cstate s q" if "q \<noteq> p" for q
    unfolding e s2_def chunk_pin_def Let_def s1_def using that by (auto split: option.splits)
  have ev: "same_eviction s (take_chunk p s)"
    unfolding e s2_def chunk_pin_def Let_def s1_def same_eviction_def by (auto split: option.splits)
  show "pmm_inv (take_chunk p s)"
  proof (rule leaf_step[OF inv p(1) sh ev o])
    show "sa_allocated (csub (take_chunk p s) q) =
        sa_allocated (csub s q) + (if cparent s p = Some q then alloc_delta (is_free s p) (is_free (take_chunk p s) p) else 0)"
      if "live s q" "chunk_suballoc (ch s q) \<noteq> None" for q
      using that p(2) pl l unfolding c e s2_def chunk_pin_def Let_def s1_def
      by (cases "cparent s p") (auto simp: alloc_delta_def option.map_sel)
    show "sa_pinned_leaf_chunks (csub (take_chunk p s) r) = sa_pinned_leaf_chunks (csub s r) +
          (if root_chunk_from_chunk s p = r then alloc_delta (\<not> is_pinned s p) (\<not> is_pinned (take_chunk p s) p) else 0)"
      if "r < pmm_root_chunks_count s" "chunk_suballoc (ch s r) \<noteq> None" for r
      using that p(2) pl l unfolding c e s2_def chunk_pin_def Let_def s1_def
      by (cases "cparent s p") (auto simp: alloc_delta_def option.map_sel)
    show "pmm_free_list (take_chunk p s) ty i = removeAll p (pmm_free_list s ty i) @ free_entry (take_chunk p s) p ty i" for ty i
    proof -
      have fl: "pmm_free_list s2 = pmm_free_list s" "root_chunk_from_chunk s2 p = root_chunk_from_chunk s p" "is_pinned s2 p"
        unfolding s2_def chunk_pin_def Let_def s1_def by (auto split: option.splits)
      show ?thesis unfolding e free_entry_update
        using update_lists_free_list[of s2 p ty i] off_lists_root[OF inv l(1)] fl by simp
    qed
  qed (use c p in simp_all)
qed

text \<open>Dropping chunks in eviction from a free list.\<close>

lemma drop_evicted_frame [simp]:
  "ch (drop_evicted l s) = ch s" "live (drop_evicted l s) = live s" "pmm_chunk_sizes (drop_evicted l s) = pmm_chunk_sizes s"
  "pmm_root_chunks_count (drop_evicted l s) = pmm_root_chunks_count s" "pmm_calls (drop_evicted l s) = pmm_calls s"
  "pmm_kmem (drop_evicted l s) = pmm_kmem s" "pmm_trackers (drop_evicted l s) = pmm_trackers s"
  "pmm_supports_eviction (drop_evicted l s) = pmm_supports_eviction s"
  by (induction l s rule: drop_evicted.induct) auto

lemma in_eviction_frame [simp]:
  "chunk_is_in_eviction (list_del_init q s) p = chunk_is_in_eviction s p"
  "chunk_is_in_eviction (drop_evicted l s) p = chunk_is_in_eviction s p"
  by (simp_all add: chunk_is_in_eviction_def root_chunk_from_chunk_def)

lemma same_shape_drop: "same_shape s (drop_evicted l s)"
  by (rule same_shape_eqI) simp_all

lemma drop_evicted_lists:
  "pmm_free_list (drop_evicted l s) ty i = filter (\<lambda>p. p \<notin> set (takeWhile (chunk_is_in_eviction s) l)) (pmm_free_list s ty i)"
proof (induction l s rule: drop_evicted.induct)
  case (2 p ps s)
  show ?case
  proof (cases "chunk_is_in_eviction s p")
    case True
    have "chunk_is_in_eviction (list_del_init p s) = chunk_is_in_eviction s" by (simp add: fun_eq_iff)
    then have "pmm_free_list (drop_evicted ps (list_del_init p s)) ty i =
        filter (\<lambda>x. x \<noteq> p \<and> x \<notin> set (takeWhile (chunk_is_in_eviction s) ps)) (pmm_free_list s ty i)"
      using 2 True by (simp add: removeAll_filter_not_eq) (intro filter_cong, auto)
    then show ?thesis using True by simp
  next
    case False
    then show ?thesis by simp
  qed
qed simp

lemma inv_frame:
  assumes inv: "pmm_inv s" and e: "ch s' = ch s" "live s' = live s" "pmm_chunk_sizes s' = pmm_chunk_sizes s"
    "pmm_root_chunks_count s' = pmm_root_chunks_count s" "pmm_calls s' = pmm_calls s" and lo: "lists_ok s'"
  shows "pmm_inv s'"
proof -
  have sh: "same_shape s s'" using e by (intro same_shape_eqI)
  have "states_ok s'" using inv e by (simp add: pmm_inv_def states_ok_def used_children_def)
  moreover have "pinned_leaves s' = pinned_leaves s"
    using e by (simp add: fun_eq_iff pinned_leaves_def is_leaf_def root_chunk_from_chunk_def)
  then have "pins_ok s'" using inv e by (simp add: pmm_inv_def pins_ok_def)
  ultimately show ?thesis using same_shape_tree[OF sh] inv lo by (simp add: pmm_inv_def)
qed

lemma drop_evicted_inv:
  assumes inv: "pmm_inv s"
  shows "pmm_inv (drop_evicted l s)"
proof (rule inv_frame[OF inv])
  have sub: "free_set (drop_evicted l s) ty i = free_set s ty i" for ty i
    by (simp add: free_set_def find_free_list_chunk_def find_free_list_def)
  have "p \<in> set (pmm_free_list (drop_evicted l s) ty i)" if "p \<in> free_set s ty i" "\<not> chunk_is_in_eviction s p" for p ty i
    using inv_parts(4)[OF inv] that by (auto simp: lists_ok_def drop_evicted_lists dest: set_takeWhileD)
  moreover have "distinct (pmm_free_list s ty i)" "set (pmm_free_list s ty i) \<subseteq> free_set s ty i" for ty i
    using inv_parts(4)[OF inv] by (auto simp: lists_ok_def)
  ultimately show "lists_ok (drop_evicted l s)" unfolding lists_ok_def sub drop_evicted_lists by fastforce
qed simp_all

text \<open>The first chunk left is not in eviction; when none is left, all of the list was in eviction.\<close>

lemma dropWhile_filter:
  "distinct l \<Longrightarrow> filter (\<lambda>p. p \<notin> set (takeWhile P l)) l = dropWhile P l"
proof -
  assume d: "distinct l"
  have "filter (\<lambda>p. p \<notin> set (takeWhile P l)) (takeWhile P l @ dropWhile P l) = dropWhile P l"
    using d distinct_append[of "takeWhile P l" "dropWhile P l"] by (subst filter_append) (auto intro!: filter_True)
  then show ?thesis by simp
qed

lemma claim_free_chunk_cases:
  assumes inv: "pmm_inv s" and sz: "\<And>p. live s p \<Longrightarrow> ctype s p = type \<Longrightarrow> find_free_list_chunk s p = find_free_list s type sz \<Longrightarrow> csize s p = sz"
  obtains (none) s' where "claim_free_chunk type sz s = (None, s')" "pmm_inv s'" "ch s' = ch s" "same_shape s s'"
      "\<And>p. live s p \<Longrightarrow> is_free s p \<Longrightarrow> ctype s p = type \<Longrightarrow> csize s p = sz \<Longrightarrow> chunk_is_in_eviction s p"
    | (some) p s' where "claim_free_chunk type sz s = (Some p, take_chunk p s')" "pmm_inv s'" "ch s' = ch s" "same_shape s s'"
      "is_leaf s p" "is_free s p" "ctype s p = type" "csize s p = sz" "\<not> chunk_is_in_eviction s p"
proof -
  let ?i = "find_free_list s type sz"
  let ?l = "pmm_free_list s type ?i"
  let ?s = "drop_evicted ?l s"
  note i = inv_parts[OF inv]
  have d: "distinct ?l" "set ?l \<subseteq> free_set s type ?i" "\<And>q. q \<in> free_set s type ?i \<Longrightarrow> \<not> chunk_is_in_eviction s q \<Longrightarrow> q \<in> set ?l"
    using i(4) by (auto simp: lists_ok_def)
  have dl: "pmm_free_list ?s type ?i = dropWhile (chunk_is_in_eviction s) ?l"
    by (simp add: drop_evicted_lists dropWhile_filter[OF d(1)])
  have inv': "pmm_inv ?s" and sh: "same_shape s ?s" using drop_evicted_inv[OF inv] same_shape_drop by blast+
  show ?thesis
  proof (cases "dropWhile (chunk_is_in_eviction s) ?l")
    case Nil
    have "chunk_is_in_eviction s p" if h: "live s p" "is_free s p" "ctype s p = type" "csize s p = sz" for p
    proof (rule ccontr)
      assume n: "\<not> chunk_is_in_eviction s p"
      have "p \<in> free_set s type ?i" using h by (simp add: free_set_def find_free_list_chunk_def)
      then show False using d(3) n Nil by (auto simp: dropWhile_eq_Nil_conv)
    qed
    moreover have "claim_free_chunk type sz s = (None, ?s)"
      unfolding claim_eq Let_def dl Nil list_first_chunk_def by simp
    ultimately show ?thesis by (intro none[OF _ inv' _ sh]) simp_all
  next
    case (Cons p ps)
    have p: "p \<in> set ?l" using Cons set_dropWhileD by (metis list.set_intros(1))
    then have pf: "live s p" "is_free s p" "ctype s p = type" "find_free_list_chunk s p = ?i" using d(2) by (auto simp: free_set_def)
    have "is_leaf s p" using i(2) pf(1,2) by (auto simp: states_ok_def is_leaf_def)
    moreover have "\<not> chunk_is_in_eviction s p" using Cons by (metis dropWhile_eq_Cons_conv)
    ultimately show ?thesis using Cons pf sz[OF pf(1,3,4)]
      by (intro some[OF _ inv' _ sh, of p]) (simp_all add: claim_eq Let_def dl list_first_chunk_def)
  qed
qed

section \<open>Freeing\<close>

text \<open>The last child in use is not freed alone: its siblings are merged with it.\<close>

lemma last_child_iff:
  "chunk_is_last_allocated_child s p \<longleftrightarrow> (\<exists>q. cparent s p = Some q \<and> sa_allocated (csub s q) = 1)"
  by (simp add: chunk_is_last_allocated_child_def split: option.split)

lemma free_locked_frame:
  assumes inv: "pmm_inv s" and p: "is_leaf s p" and st: "cstate s p = UVM_PMM_GPU_CHUNK_STATE_ALLOCATED \<or> is_pinned s p"
    and ev: "\<not> chunk_is_in_eviction s p"
  shows "same_shape s (chunk_free_locked p s)" "is_free (chunk_free_locked p s) p"
    "\<And>q. q \<noteq> p \<Longrightarrow> cstate (chunk_free_locked p s) q = cstate s q" "same_eviction s (chunk_free_locked p s)"
    "\<And>q. live s q \<Longrightarrow> chunk_suballoc (ch s q) \<noteq> None \<Longrightarrow>
       sa_allocated (csub (chunk_free_locked p s) q) = sa_allocated (csub s q) + (if cparent s p = Some q then - 1 else 0)"
    "\<And>r. r < pmm_root_chunks_count s \<Longrightarrow> chunk_suballoc (ch s r) \<noteq> None \<Longrightarrow>
       sa_pinned_leaf_chunks (csub (chunk_free_locked p s) r) = sa_pinned_leaf_chunks (csub s r) +
         (if root_chunk_from_chunk s p = r \<and> is_pinned s p then - 1 else 0)"
    "\<And>ty i. pmm_free_list (chunk_free_locked p s) ty i = removeAll p (pmm_free_list s ty i) @ free_entry (chunk_free_locked p s) p ty i"
proof -
  note i = inv_parts[OF inv] and pl = leaf_place[OF inv p(1)]
  have l: "live s p" "chunk_suballoc (ch s p) = None" using p by (simp_all add: is_leaf_def)
  define s1 where "s1 = (case cparent s p of None \<Rightarrow> s | Some q \<Rightarrow> upd_suballoc q (\<lambda>sa. sa\<lparr>sa_allocated := sa_allocated sa - 1\<rparr>) s)"
  define s2 where "s2 = (if is_pinned s p then chunk_unpin p UVM_PMM_GPU_CHUNK_STATE_FREE s1
      else upd_chunk p (\<lambda>c. (uvm_gpu_chunk_set_state c UVM_PMM_GPU_CHUNK_STATE_FREE)\<lparr>chunk_va_block := None\<rparr>) s1)"
  have e: "chunk_free_locked p s = chunk_update_lists_locked p s2"
    using ev by (simp add: chunk_free_locked_def chunk_is_in_eviction_def s1_def s2_def Let_def)
  have sh1: "same_shape s s1" unfolding s1_def using pl(2) by (auto split: option.splits intro: same_shape_suballoc)
  note f1 = same_shape_facts[OF sh1] and r1 = same_shape_rest[OF sh1]
  have "same_shape s1 (chunk_unpin p UVM_PMM_GPU_CHUNK_STATE_FREE s1)"
    using pl f1[OF l(1)] l(1) unfolding chunk_unpin_def Let_def
    by (cases "cparent s p") (auto intro!: same_shape_trans[OF same_shape_set_state same_shape_suballoc] same_shape_set_state simp: r1 s1_def)
  moreover have "same_shape s1 (upd_chunk p (\<lambda>c. (uvm_gpu_chunk_set_state c UVM_PMM_GPU_CHUNK_STATE_FREE)\<lparr>chunk_va_block := None\<rparr>) s1)"
    using l(1) by (intro same_shape_upd_chunk) (simp_all add: r1)
  ultimately have sh2: "same_shape s s2" using same_shape_trans[OF sh1] by (simp add: s2_def)
  show sh: "same_shape s (chunk_free_locked p s)" unfolding e by (rule same_shape_trans[OF sh2]) (rule same_shape_eqI, simp_all)
  show c: "is_free (chunk_free_locked p s) p" unfolding e s2_def chunk_unpin_def Let_def by simp
  show o: "cstate (chunk_free_locked p s) q = cstate s q" if "q \<noteq> p" for q
    unfolding e s2_def chunk_unpin_def Let_def s1_def using that by (auto split: option.splits)
  show sev: "same_eviction s (chunk_free_locked p s)"
    unfolding e s2_def chunk_unpin_def Let_def s1_def same_eviction_def by (auto split: option.splits)
  show "sa_allocated (csub (chunk_free_locked p s) q) = sa_allocated (csub s q) + (if cparent s p = Some q then - 1 else 0)"
    if "live s q" "chunk_suballoc (ch s q) \<noteq> None" for q
    using that st pl l unfolding e s2_def chunk_unpin_def Let_def s1_def
    by (cases "cparent s p") (auto simp: option.map_sel)
  show "sa_pinned_leaf_chunks (csub (chunk_free_locked p s) r) = sa_pinned_leaf_chunks (csub s r) +
        (if root_chunk_from_chunk s p = r \<and> is_pinned s p then - 1 else 0)"
    if "r < pmm_root_chunks_count s" "chunk_suballoc (ch s r) \<noteq> None" for r
    using that st pl l unfolding e s2_def chunk_unpin_def Let_def s1_def
    by (cases "cparent s p") (auto simp: option.map_sel)
  show "pmm_free_list (chunk_free_locked p s) ty i = removeAll p (pmm_free_list s ty i) @ free_entry (chunk_free_locked p s) p ty i" for ty i
  proof -
    have fl: "pmm_free_list s2 = pmm_free_list s" "root_chunk_from_chunk s2 p = root_chunk_from_chunk s p" "is_free s2 p"
      unfolding s2_def chunk_unpin_def Let_def s1_def by (auto split: option.splits)
    show ?thesis unfolding e free_entry_update
      using update_lists_free_list[of s2 p ty i] off_lists_root[OF inv l(1)] fl by simp
  qed
qed

lemma free_locked_inv:
  assumes inv: "pmm_inv s" and p: "is_leaf s p" and st: "cstate s p = UVM_PMM_GPU_CHUNK_STATE_ALLOCATED \<or> is_pinned s p"
    and ev: "\<not> chunk_is_in_eviction s p" and nl: "\<not> chunk_is_last_allocated_child s p"
  shows "pmm_inv (chunk_free_locked p s)"
proof -
  note f = free_locked_frame[OF inv p st ev]
  show ?thesis
  proof (rule leaf_step[OF inv p f(1) f(4) f(3)])
    show "sa_allocated (csub s q) \<noteq> 1" if "cparent s p = Some q" for q using nl that by (simp add: last_child_iff)
  qed (use f st in \<open>auto simp: alloc_delta_def\<close>)
qed

text \<open>Under a root chunk in eviction freeing only pins, for the eviction to find.\<close>

lemma pin_inv:
  assumes inv: "pmm_inv s" and p: "is_leaf s p" "cstate s p = UVM_PMM_GPU_CHUNK_STATE_ALLOCATED"
  defines "s' \<equiv> chunk_pin p (upd_chunk p (\<lambda>c. c\<lparr>chunk_va_block := None\<rparr>) s)"
  shows "pmm_inv s'" "same_shape s s'" "is_pinned s' p" "\<And>q. q \<noteq> p \<Longrightarrow> cstate s' q = cstate s q"
proof -
  note i = inv_parts[OF inv] and pl = leaf_place[OF inv p(1)]
  have l: "live s p" "chunk_suballoc (ch s p) = None" using p by (simp_all add: is_leaf_def)
  let ?s1 = "upd_chunk p (\<lambda>c. c\<lparr>chunk_va_block := None\<rparr>) s"
  have sh1: "same_shape s ?s1" using l(1) by (intro same_shape_upd_chunk) simp_all
  have "same_shape ?s1 s'"
    using pl l(1) unfolding s'_def chunk_pin_def Let_def
    by (cases "cparent s p") (auto intro!: same_shape_trans[OF same_shape_set_state same_shape_suballoc] same_shape_set_state)
  then show sh: "same_shape s s'" using same_shape_trans[OF sh1] by blast
  show c: "is_pinned s' p" unfolding s'_def chunk_pin_def Let_def by simp
  show o: "cstate s' q = cstate s q" if "q \<noteq> p" for q
    unfolding s'_def chunk_pin_def Let_def using that by auto
  have ev: "same_eviction s s'" unfolding s'_def chunk_pin_def Let_def same_eviction_def by auto
  show "pmm_inv s'"
  proof (rule leaf_step[OF inv p(1) sh ev o])
    show "sa_allocated (csub s' q) =
        sa_allocated (csub s q) + (if cparent s p = Some q then alloc_delta (is_free s p) (is_free s' p) else 0)"
      if "live s q" "chunk_suballoc (ch s q) \<noteq> None" for q
      using that p(2) pl l unfolding c s'_def chunk_pin_def Let_def
      by (cases "cparent s p") (auto simp: alloc_delta_def option.map_sel)
    show "sa_pinned_leaf_chunks (csub s' r) = sa_pinned_leaf_chunks (csub s r) +
          (if root_chunk_from_chunk s p = r then alloc_delta (\<not> is_pinned s p) (\<not> is_pinned s' p) else 0)"
      if "r < pmm_root_chunks_count s" "chunk_suballoc (ch s r) \<noteq> None" for r
      using that p(2) pl l unfolding c s'_def chunk_pin_def Let_def
      by (cases "cparent s p") (auto simp: alloc_delta_def option.map_sel)
    have fl: "pmm_free_list s' = pmm_free_list s" unfolding s'_def chunk_pin_def Let_def by simp
    show "pmm_free_list s' ty i = removeAll p (pmm_free_list s ty i) @ free_entry s' p ty i" for ty i
      using off_lists[OF i(4)] p(2) by (simp add: fl free_entry_def c)
  qed (use c in simp_all)
qed

lemma free_locked_evicted_inv:
  assumes inv: "pmm_inv s" and p: "is_leaf s p" "cstate s p = UVM_PMM_GPU_CHUNK_STATE_ALLOCATED" and ev: "chunk_is_in_eviction s p"
  shows "pmm_inv (chunk_free_locked p s)" "same_shape s (chunk_free_locked p s)" "is_pinned (chunk_free_locked p s) p"
    "\<And>q. q \<noteq> p \<Longrightarrow> cstate (chunk_free_locked p s) q = cstate s q"
proof -
  have e: "chunk_free_locked p s = chunk_pin p (upd_chunk p (\<lambda>c. c\<lparr>chunk_va_block := None\<rparr>) s)"
    using ev by (simp add: chunk_free_locked_def chunk_is_in_eviction_def Let_def)
  show "pmm_inv (chunk_free_locked p s)" "same_shape s (chunk_free_locked p s)" "is_pinned (chunk_free_locked p s) p"
    "\<And>q. q \<noteq> p \<Longrightarrow> cstate (chunk_free_locked p s) q = cstate s q"
    unfolding e using pin_inv[OF inv p] by blast+
qed

section \<open>Unpinning\<close>

lemma unpin_inv:
  assumes inv: "pmm_inv s" and p: "is_leaf s p" "is_pinned s p"
  defines "s' \<equiv> chunk_unpin p UVM_PMM_GPU_CHUNK_STATE_ALLOCATED s"
  shows "pmm_inv s'" "same_shape s s'" "cstate s' p = UVM_PMM_GPU_CHUNK_STATE_ALLOCATED" "\<And>q. q \<noteq> p \<Longrightarrow> cstate s' q = cstate s q"
    "same_eviction s s'"
proof -
  note i = inv_parts[OF inv] and pl = leaf_place[OF inv p(1)]
  have l: "live s p" "chunk_suballoc (ch s p) = None" using p by (simp_all add: is_leaf_def)
  show sh: "same_shape s s'"
    using pl l(1) unfolding s'_def chunk_unpin_def Let_def
    by (cases "cparent s p") (auto intro!: same_shape_trans[OF same_shape_set_state same_shape_suballoc] same_shape_set_state)
  show c: "cstate s' p = UVM_PMM_GPU_CHUNK_STATE_ALLOCATED" unfolding s'_def chunk_unpin_def Let_def by simp
  show o: "cstate s' q = cstate s q" if "q \<noteq> p" for q
    unfolding s'_def chunk_unpin_def Let_def using that by auto
  show ev: "same_eviction s s'" unfolding s'_def chunk_unpin_def Let_def same_eviction_def by auto
  show "pmm_inv s'"
  proof (rule leaf_step[OF inv p(1) sh ev o])
    show "sa_allocated (csub s' q) =
        sa_allocated (csub s q) + (if cparent s p = Some q then alloc_delta (is_free s p) (is_free s' p) else 0)"
      if "live s q" "chunk_suballoc (ch s q) \<noteq> None" for q
      using that p(2) pl l unfolding c s'_def chunk_unpin_def Let_def
      by (cases "cparent s p") (auto simp: alloc_delta_def option.map_sel)
    show "sa_pinned_leaf_chunks (csub s' r) = sa_pinned_leaf_chunks (csub s r) +
          (if root_chunk_from_chunk s p = r then alloc_delta (\<not> is_pinned s p) (\<not> is_pinned s' p) else 0)"
      if "r < pmm_root_chunks_count s" "chunk_suballoc (ch s r) \<noteq> None" for r
      using that p(2) pl l unfolding c s'_def chunk_unpin_def Let_def
      by (cases "cparent s p") (auto simp: alloc_delta_def option.map_sel)
    have fl: "pmm_free_list s' = pmm_free_list s" unfolding s'_def chunk_unpin_def Let_def by simp
    show "pmm_free_list s' ty i = removeAll p (pmm_free_list s ty i) @ free_entry s' p ty i" for ty i
      using off_lists[OF i(4)] p(2) by (simp add: fl free_entry_def c)
  qed (use c in simp_all)
qed

section \<open>Steps that leave states and counts alone\<close>

lemma quiet_step:
  assumes inv: "pmm_inv s" and sh: "same_shape s s'" and ev: "same_eviction s s'" and st: "\<And>q. live s q \<Longrightarrow> cstate s' q = cstate s q"
    and sub: "\<And>q. live s q \<Longrightarrow> chunk_suballoc (ch s' q) = chunk_suballoc (ch s q)"
    and fl: "\<And>ty i. pmm_free_list s' ty i = pmm_free_list s ty i"
  shows "pmm_inv s'"
proof -
  note i = inv_parts[OF inv] and f = same_shape_facts[OF sh] and r = same_shape_rest[OF sh]
  note t' = same_shape_tree[OF sh i(1)]
  have "used_children s' q = used_children s q" if "live s q" "is_split s q" for q
  proof (rule used_children_cong)
    have sp: "chunk_suballoc (ch s q) \<noteq> None" using i(2) that by (auto simp: states_ok_def)
    show "cstate s' x = cstate s x" if "x \<in> set (csubs s q)" for x using st csubs_facts(4)[OF i(1) \<open>live s q\<close> sp that] by blast
    show "csubs s' q = csubs s q" by (simp add: sub that(1))
  qed
  then have "states_ok s'" using i(2) st sub unfolding states_ok_def r by auto
  moreover have "pinned_leaves s' r' = pinned_leaves s r'" for r'
    using st sub f(9) by (auto simp: pinned_leaves_def is_leaf_def r)
  then have "pins_ok s'" using i(1,3) sub unfolding pins_ok_def r by (auto simp: tree_ok_def)
  moreover have "free_set s' ty j = free_set s ty j" for ty j using st f by (auto simp: free_set_def r)
  moreover have "chunk_is_in_eviction s' q = chunk_is_in_eviction s q" if "live s q" for q
    using ev root_is_live[OF i(1) that] f(9)[OF that] by (simp add: chunk_is_in_eviction_def same_eviction_def)
  then have "chunk_is_in_eviction s' q = chunk_is_in_eviction s q" if "q \<in> free_set s ty j" for q ty j
    using that by (simp add: free_set_def)
  ultimately show ?thesis using t' i(4) fl by (simp add: pmm_inv_def lists_ok_def)
qed

lemma update_lists_step:
  assumes inv: "pmm_inv s" and p: "live s p" "\<not> is_free s p"
  shows "pmm_inv (chunk_update_lists_locked p s)"
proof -
  note i = inv_parts[OF inv]
  have n: "p \<notin> set (pmm_free_list s ty j)" for ty j using off_lists[OF i(4) p(2)] .
  have fl: "pmm_free_list (chunk_update_lists_locked p s) ty j = pmm_free_list s ty j" for ty j
    using update_lists_free_list[of s p ty j] off_lists_root[OF inv p(1)] n p(2) by (simp add: free_entry_def)
  show ?thesis by (rule quiet_step[OF inv]) (simp_all add: fl same_eviction_def same_shape_eqI)
qed

lemma unpin_temp_inv:
  assumes inv: "pmm_inv s" and p: "is_leaf s p" "is_pinned s p"
  shows "pmm_inv (uvm_pmm_gpu_unpin_temp p b s)" "same_shape s (uvm_pmm_gpu_unpin_temp p b s)"
    "cstate (uvm_pmm_gpu_unpin_temp p b s) p = UVM_PMM_GPU_CHUNK_STATE_ALLOCATED"
    "\<And>q. q \<noteq> p \<Longrightarrow> cstate (uvm_pmm_gpu_unpin_temp p b s) q = cstate s q" "chunk_va_block (ch (uvm_pmm_gpu_unpin_temp p b s) p) = Some b"
proof -
  let ?s1 = "list_del_init p s"
  let ?s2 = "chunk_unpin p UVM_PMM_GPU_CHUNK_STATE_ALLOCATED ?s1"
  let ?s3 = "upd_chunk p (\<lambda>c. c\<lparr>chunk_va_block := Some b\<rparr>) ?s2"
  have e: "uvm_pmm_gpu_unpin_temp p b s = chunk_update_lists_locked p ?s3" by (simp add: uvm_pmm_gpu_unpin_temp_def Let_def)
  have l: "live s p" using p by (simp add: is_leaf_def)
  have "p \<notin> set (pmm_free_list s ty j)" for ty j using off_lists[OF inv_parts(4)[OF inv]] p(2) by simp
  then have i1: "pmm_inv ?s1" by (intro quiet_step[OF inv]) (simp_all add: same_eviction_def same_shape_eqI)
  have p1: "is_leaf ?s1 p" "is_pinned ?s1 p" using p by (simp_all add: is_leaf_def)
  note u = unpin_inv[OF i1 p1]
  have l2: "live ?s2 p" using same_shape_rest(1)[OF u(2)] l by simp
  have sh3: "same_shape ?s2 ?s3" using l2 by (intro same_shape_upd_chunk) simp_all
  have i3: "pmm_inv ?s3" by (rule quiet_step[OF u(1) sh3]) (auto simp: same_eviction_def)
  show "pmm_inv (uvm_pmm_gpu_unpin_temp p b s)" unfolding e by (rule update_lists_step[OF i3]) (use u(3) l2 in simp_all)
  have "same_shape s ?s1" by (rule same_shape_eqI) simp_all
  then have "same_shape s ?s3" using same_shape_trans u(2) sh3 by blast
  then show "same_shape s (uvm_pmm_gpu_unpin_temp p b s)" unfolding e by (rule same_shape_trans) (rule same_shape_eqI, simp_all)
  show "cstate (uvm_pmm_gpu_unpin_temp p b s) p = UVM_PMM_GPU_CHUNK_STATE_ALLOCATED" "chunk_va_block (ch (uvm_pmm_gpu_unpin_temp p b s) p) = Some b"
    unfolding e using u(3) by simp_all
  show "cstate (uvm_pmm_gpu_unpin_temp p b s) q = cstate s q" if "q \<noteq> p" for q
    unfolding e using u(4)[OF that] that by simp
qed

end
