(* ===== verification/Pmm_Split.thy ===== *)
theory Pmm_Split
  imports Pmm_Steps
begin

text \<open>
  Splitting a chunk and merging one keep the invariant of the physical memory manager.
\<close>

section \<open>Allocating the subchunks\<close>

text \<open>The store with \<open>m\<close> subchunks of \<open>c\<close> from \<open>base\<close> on, the first of index \<open>i\<close>.\<close>

definition with_subchunks ::
  "uvm_gpu_chunk \<Rightarrow> chunk_ptr \<Rightarrow> uvm_chunk_size_t \<Rightarrow> nat \<Rightarrow> nat \<Rightarrow> nat \<Rightarrow> (chunk_ptr \<Rightarrow> uvm_gpu_chunk option) \<Rightarrow> chunk_ptr \<Rightarrow> uvm_gpu_chunk option" where
  "with_subchunks c p sz i base m chunks =
     (\<lambda>x. if base \<le> x \<and> x < base + m then Some (new_subchunk c p sz (i + (x - base))) else chunks x)"

lemma with_subchunks_0 [simp]: "with_subchunks c p sz i base 0 chunks = chunks"
  by (rule ext) (auto simp: with_subchunks_def)

lemma with_subchunks_Suc:
  "with_subchunks c p sz (Suc i) (Suc base) m (chunks(base := Some (new_subchunk c p sz i))) = with_subchunks c p sz i base (Suc m) chunks"
proof
  fix x
  consider "x < base" | "x = base" | "base < x" by linarith
  then show "with_subchunks c p sz (Suc i) (Suc base) m (chunks(base := Some (new_subchunk c p sz i))) x = with_subchunks c p sz i base (Suc m) chunks x"
  proof cases
    case 3
    then have "Suc (i + (x - Suc base)) = i + (x - base)" by simp
    then show ?thesis using 3 by (auto simp: with_subchunks_def)
  qed (auto simp: with_subchunks_def)
qed

lemma alloc_subchunks_ok:
  "alloc_subchunks c p sz n i subs s = (status, subs', s') \<Longrightarrow>
   \<exists>m calls. m \<le> n \<and> pmm_calls s + m \<le> calls \<and> (status = NV_OK \<longrightarrow> m = n) \<and> (status \<noteq> NV_OK \<longrightarrow> status = NV_ERR_NO_MEMORY) \<and>
     subs' = subs @ [pmm_root_chunks_count s + pmm_calls s..<pmm_root_chunks_count s + pmm_calls s + m] \<and>
     s' = s\<lparr>pmm_chunks := with_subchunks c p sz i (pmm_root_chunks_count s + pmm_calls s) m (pmm_chunks s), pmm_calls := calls\<rparr>"
proof (induction n arbitrary: i subs s)
  case 0
  then show ?case by (intro exI[of _ 0] exI[of _ "pmm_calls s"]) simp
next
  case (Suc n)
  show ?case
  proof (cases "uvm_gpu_chunk_get_inject_split_error c \<and> n = 0")
    case True
    then show ?thesis using Suc.prems by (intro exI[of _ 0] exI[of _ "pmm_calls s"]) simp
  next
    case False
    let ?b = "pmm_root_chunks_count s + pmm_calls s"
    show ?thesis
    proof (cases "pmm_kmem s (pmm_calls s)")
      case no: False
      show ?thesis using False no Suc.prems
        by (intro exI[of _ 0] exI[of _ "Suc (pmm_calls s)"]) (auto simp: kmem_cache_alloc_def)
    next
      case True
      let ?s1 = "s\<lparr>pmm_calls := Suc (pmm_calls s), pmm_chunks := (pmm_chunks s)(?b := Some (new_subchunk c p sz i))\<rparr>"
      have "alloc_subchunks c p sz n (Suc i) (subs @ [?b]) ?s1 = (status, subs', s')"
        using Suc.prems False True by (simp add: kmem_cache_alloc_def)
      from Suc.IH[OF this] obtain m calls where m: "m \<le> n \<and> pmm_calls ?s1 + m \<le> calls \<and> (status = NV_OK \<longrightarrow> m = n) \<and>
          (status \<noteq> NV_OK \<longrightarrow> status = NV_ERR_NO_MEMORY) \<and>
          subs' = (subs @ [?b]) @ [pmm_root_chunks_count ?s1 + pmm_calls ?s1..<pmm_root_chunks_count ?s1 + pmm_calls ?s1 + m] \<and>
          s' = ?s1\<lparr>pmm_chunks := with_subchunks c p sz (Suc i) (pmm_root_chunks_count ?s1 + pmm_calls ?s1) m (pmm_chunks ?s1), pmm_calls := calls\<rparr>"
        by blast
      have b: "pmm_root_chunks_count ?s1 + pmm_calls ?s1 = Suc ?b" by simp
      have "[?b..<?b + Suc m] = ?b # [Suc ?b..<Suc ?b + m]" using upt_conv_Cons[of ?b "?b + Suc m"] by simp
      then show ?thesis using m unfolding b
        by (intro exI[of _ "Suc m"] exI[of _ calls]) (simp add: with_subchunks_Suc del: upt_Suc fun_upd_apply)
    qed
  qed
qed

lemma free_all_chunks: "pmm_chunks (fold kmem_cache_free ps s) = (\<lambda>x. if x \<in> set ps then None else pmm_chunks s x)"
  by (induction ps arbitrary: s) (auto simp: kmem_cache_free_def fun_eq_iff)

lemma free_all_rest: "fold kmem_cache_free ps s = s\<lparr>pmm_chunks := (\<lambda>x. if x \<in> set ps then None else pmm_chunks s x)\<rparr>"
proof (induction ps arbitrary: s)
  case (Cons p ps)
  have "(\<lambda>x. if x \<in> set ps then None else if x = p then None else pmm_chunks s x) =
    (\<lambda>x. if x = p \<or> x \<in> set ps then None else pmm_chunks s x)" by auto
  then show ?case unfolding fold.simps o_apply Cons by (simp add: kmem_cache_free_def cong: if_cong)
qed simp

text \<open>Chunks not allocated yet are not in the store.\<close>

lemma fresh_chunks:
  assumes t: "tree_ok s" and m: "m \<ge> pmm_calls s"
  shows "(\<lambda>x. if pmm_root_chunks_count s + m \<le> x \<and> x < b then None else pmm_chunks s x) = pmm_chunks s"
proof
  fix x
  have "pmm_chunks s x = None" if "pmm_root_chunks_count s + m \<le> x"
    using t that m unfolding tree_ok_def live_def by fastforce
  then show "(if pmm_root_chunks_count s + m \<le> x \<and> x < b then None else pmm_chunks s x) = pmm_chunks s x" by simp
qed

section \<open>What a split does\<close>

text \<open>The exponent of the size of the subchunks of a chunk, and the number of them.\<close>

abbreviation sub_exp :: "uvm_pmm_gpu \<Rightarrow> chunk_ptr \<Rightarrow> nat" where
  "sub_exp s p \<equiv> prev_exp (mask_of s p) (cexp s p)"

abbreviation sub_num :: "uvm_pmm_gpu \<Rightarrow> chunk_ptr \<Rightarrow> nat" where
  "sub_num s p \<equiv> 2 ^ (cexp s p - sub_exp s p)"

lemma subchunk_size_eq:
  assumes t: "tree_ok s" and p: "live s p" and sub: "sub_exp s p \<noteq> 22"
  shows "uvm_chunk_find_prev_size (pmm_chunk_sizes s (ctype s p)) (csize s p) = 2 ^ sub_exp s p" "sub_exp s p < cexp s p"
    "unat (csize s p div 2 ^ sub_exp s p) = sub_num s p" "bit (mask_of s p) (sub_exp s p)"
proof -
  note e = exp_le[OF t p] and m = tree_mask[OF t, of p]
  have lt: "cexp s p < 32" using e by linarith
  show "uvm_chunk_find_prev_size (pmm_chunk_sizes s (ctype s p)) (csize s p) = 2 ^ sub_exp s p"
    unfolding csize_eq(1) using e by (simp add: find_prev_eq mask_of_def)
  show le: "sub_exp s p < cexp s p" "bit (mask_of s p) (sub_exp s p)" using prev_exp_props[of "mask_of s p" "cexp s p"] e sub by auto
  have "unat (csize s p) = 2 ^ cexp s p" "unat (2 ^ sub_exp s p :: u32) = 2 ^ sub_exp s p"
    using lt le unfolding csize_eq(1) by (simp_all add: unat_2_power)
  then show "unat (csize s p div 2 ^ sub_exp s p) = sub_num s p" using le by (simp add: unat_div power_diff)
qed

lemma root_of_eqI: "caddr s' p = caddr s p \<Longrightarrow> root_chunk_from_chunk s' p = root_chunk_from_chunk s p"
  by (simp add: root_chunk_from_chunk_def)

text \<open>
  What a split does to the chunks: \<open>p\<close> has the subchunks \<open>b\<close>, \<open>b + 1\<close>, \<open>\<dots>\<close> in its state, the count of pinned leaves of its
  root chunk follows, and every other chunk stays as it is.
\<close>

definition split_effect :: "uvm_pmm_gpu \<Rightarrow> chunk_ptr \<Rightarrow> uvm_pmm_gpu \<Rightarrow> chunk_ptr \<Rightarrow> nat \<Rightarrow> bool" where
  "split_effect s p s' b calls \<longleftrightarrow>
     (b = pmm_root_chunks_count s + Suc (pmm_calls s) \<and> pmm_calls s' = calls \<and> Suc (pmm_calls s) + sub_num s p \<le> calls \<and>
      pmm_chunk_sizes s' = pmm_chunk_sizes s \<and> pmm_root_chunks_count s' = pmm_root_chunks_count s \<and> pmm_free_list s' = pmm_free_list s \<and>
      pmm_trackers s' = pmm_trackers s \<and> pmm_supports_eviction s' = pmm_supports_eviction s \<and> pmm_kmem s' = pmm_kmem s) \<and>
     ((\<forall>x. live s' x \<longleftrightarrow> live s x \<or> b \<le> x \<and> x < b + sub_num s p) \<and>
      (\<forall>x. b \<le> x \<longrightarrow> x < b + sub_num s p \<longrightarrow> \<not> live s x \<and> ch s' x = new_subchunk (ch s p) p (2 ^ sub_exp s p) (x - b)) \<and>
      (\<forall>x. live s x \<longrightarrow> caddr s' x = caddr s x \<and> cparent s' x = cparent s x \<and> ctype s' x = ctype s x \<and> csize s' x = csize s x) \<and>
      (\<forall>x. live s x \<longrightarrow> uvm_gpu_chunk_is_in_eviction (ch s' x) = uvm_gpu_chunk_is_in_eviction (ch s x)) \<and>
      (\<forall>x. live s x \<longrightarrow> x \<noteq> p \<longrightarrow> cstate s' x = cstate s x \<and> (chunk_suballoc (ch s' x) = None) = (chunk_suballoc (ch s x) = None) \<and>
         (chunk_suballoc (ch s x) \<noteq> None \<longrightarrow> csubs s' x = csubs s x \<and> sa_allocated (csub s' x) = sa_allocated (csub s x)))) \<and>
     (is_split s' p \<and> chunk_suballoc (ch s' p) \<noteq> None \<and> csubs s' p = [b..<b + sub_num s p] \<and> sa_allocated (csub s' p) = of_nat (sub_num s p) \<and>
      (\<forall>r < pmm_root_chunks_count s. chunk_suballoc (ch s' r) \<noteq> None \<longrightarrow> sa_pinned_leaf_chunks (csub s' r) =
          (if r = p then 0 else sa_pinned_leaf_chunks (csub s r)) +
          (if is_pinned s p \<and> root_chunk_from_chunk s p = r then of_nat (sub_num s p) - (if r = p then 0 else 1) else 0)))"

text \<open>The outcome of a split: nothing but the numbering of allocations changes, or the chunk has its subchunks.\<close>

lemma split_cases:
  assumes inv: "pmm_inv s" and p: "is_leaf s p" "cstate s p = UVM_PMM_GPU_CHUNK_STATE_ALLOCATED \<or> is_pinned s p" and sub: "sub_exp s p \<noteq> 22"
  obtains (fail) calls where "split_gpu_chunk p s = (NV_ERR_NO_MEMORY, s\<lparr>pmm_calls := calls\<rparr>)" "pmm_calls s \<le> calls"
    | (ok) s' b calls where "split_gpu_chunk p s = (NV_OK, s')" "split_effect s p s' b calls"
proof -
  note i = inv_parts[OF inv]
  have l: "live s p" "chunk_suballoc (ch s p) = None" using p by (simp_all add: is_leaf_def)
  note z = subchunk_size_eq[OF i(1) l(1) sub] and pl = leaf_place[OF inv p(1)]
  let ?b = "pmm_root_chunks_count s + Suc (pmm_calls s)" and ?n = "sub_num s p"
  let ?r = "root_chunk_from_chunk s p"
  have fresh: "\<not> live s x" if "?b \<le> x" for x using i(1) that unfolding tree_ok_def by fastforce
  show ?thesis
  proof (cases "pmm_kmem s (pmm_calls s)")
    case False
    then show ?thesis by (intro fail[of "Suc (pmm_calls s)"]) (simp_all add: split_gpu_chunk_def kmem_cache_alloc_def Let_def)
  next
    case kt: True
    let ?s0 = "s\<lparr>pmm_calls := Suc (pmm_calls s)\<rparr>"
    obtain status subs s1 where a: "alloc_subchunks (ch s p) p (2 ^ sub_exp s p) ?n 0 [] ?s0 = (status, subs, s1)" by (metis prod_cases3)
    from alloc_subchunks_ok[OF a] obtain m calls where m: "m \<le> ?n" "Suc (pmm_calls s) + m \<le> calls" "status = NV_OK \<Longrightarrow> m = ?n"
      "status \<noteq> NV_OK \<Longrightarrow> status = NV_ERR_NO_MEMORY" "subs = [?b..<?b + m]"
      "s1 = s\<lparr>pmm_chunks := with_subchunks (ch s p) p (2 ^ sub_exp s p) 0 ?b m (pmm_chunks s), pmm_calls := calls\<rparr>"
      by auto
    show ?thesis
    proof (cases "status = NV_OK")
      case False
      have "(\<lambda>x. if x \<in> set [?b..<?b + m] then None else with_subchunks (ch s p) p (2 ^ sub_exp s p) 0 ?b m (pmm_chunks s) x) = pmm_chunks s"
      proof
        fix x
        show "(if x \<in> set [?b..<?b + m] then None else with_subchunks (ch s p) p (2 ^ sub_exp s p) 0 ?b m (pmm_chunks s) x) = pmm_chunks s x"
          using fresh[of x] by (auto simp: with_subchunks_def live_def)
      qed
      then have "fold kmem_cache_free subs s1 = s\<lparr>pmm_calls := calls\<rparr>"
        unfolding free_all_rest m(5) by (simp add: m(6) cong: if_cong)
      then have "split_gpu_chunk p s = (NV_ERR_NO_MEMORY, s\<lparr>pmm_calls := calls\<rparr>)"
        using kt a False m(4) by (simp add: split_gpu_chunk_def kmem_cache_alloc_def Let_def z)
      then show ?thesis using m(2) by (intro fail[of calls]) simp_all
    next
      case True
      have mn: "m = ?n" using m(3)[OF True] .
      have c1: "ch s1 x = (if ?b \<le> x \<and> x < ?b + ?n then new_subchunk (ch s p) p (2 ^ sub_exp s p) (x - ?b) else ch s x)" for x
        by (simp add: m(6) mn ch_def with_subchunks_def)
      have l1: "live s1 x \<longleftrightarrow> live s x \<or> ?b \<le> x \<and> x < ?b + ?n" for x
        by (auto simp: m(6) mn live_def with_subchunks_def)
      have r1: "pmm_chunk_sizes s1 = pmm_chunk_sizes s" "pmm_root_chunks_count s1 = pmm_root_chunks_count s" "pmm_free_list s1 = pmm_free_list s"
        "pmm_trackers s1 = pmm_trackers s" "pmm_supports_eviction s1 = pmm_supports_eviction s" "pmm_kmem s1 = pmm_kmem s" "pmm_calls s1 = calls"
        by (simp_all add: m(6))
      have pb: "p < ?b" "?r < ?b" using fresh[of p] l(1) root_of_eq(2)[OF i(1) l(1)] by (auto simp: not_le[symmetric])
      let ?sub = "\<lparr>sa_allocated = of_nat ?n, sa_pinned_leaf_chunks = 0, sa_subchunks = subs\<rparr>"
      define s2 where "s2 = upd_chunk p (\<lambda>c. c\<lparr>chunk_suballoc := Some ?sub\<rparr>) s1"
      define s3 where "s3 = (if cstate s p = UVM_PMM_GPU_CHUNK_STATE_ALLOCATED then upd_chunk p (\<lambda>c. c\<lparr>chunk_va_block := None\<rparr>) s2
          else if is_pinned s p then
            let s = upd_suballoc ?r (\<lambda>sa. sa\<lparr>sa_pinned_leaf_chunks := sa_pinned_leaf_chunks sa + (of_nat ?n - 1)\<rparr>) s2
            in if chunk_is_root_chunk s p
               then upd_suballoc ?r (\<lambda>sa. sa\<lparr>sa_pinned_leaf_chunks := sa_pinned_leaf_chunks sa + 1\<rparr>) s else s
          else s2)"
      define s' where "s' = set_cstate p UVM_PMM_GPU_CHUNK_STATE_IS_SPLIT s3"
      have e: "split_gpu_chunk p s = (NV_OK, s')"
        unfolding split_gpu_chunk_def kmem_cache_alloc_def Let_def z(1,3) prod.case using kt a True
        by (simp add: s'_def s3_def s2_def Let_def)
      have root2: "chunk_is_root_chunk s2 p = chunk_is_root_chunk s p"
        using pb by (simp add: chunk_is_root_chunk_def s2_def c1)
      have nodes: "?r \<noteq> p \<or> cparent s p = None" "cparent s p = None \<longleftrightarrow> chunk_is_root_chunk s p" "cparent s p = None \<longleftrightarrow> ?r = p"
        using pl by (cases "cparent s p"; auto)+
      show ?thesis
      proof (rule ok[OF e, of ?b calls], unfold split_effect_def, intro conjI allI impI refl)
        show "pmm_calls s' = calls" "pmm_chunk_sizes s' = pmm_chunk_sizes s" "pmm_root_chunks_count s' = pmm_root_chunks_count s"
          "pmm_free_list s' = pmm_free_list s" "pmm_trackers s' = pmm_trackers s" "pmm_supports_eviction s' = pmm_supports_eviction s"
          "pmm_kmem s' = pmm_kmem s"
          by (simp_all add: s'_def s3_def s2_def Let_def r1)
        show "Suc (pmm_calls s) + ?n \<le> calls" using m(2) mn by simp
        show "live s' x \<longleftrightarrow> live s x \<or> ?b \<le> x \<and> x < ?b + ?n" for x
          using l(1) root_is_live[OF i(1) l(1)] by (auto simp: s'_def s3_def s2_def Let_def l1)
        show "\<not> live s x" if "?b \<le> x" "x < ?b + ?n" for x using fresh[of x] that by simp
        show "ch s' x = new_subchunk (ch s p) p (2 ^ sub_exp s p) (x - ?b)" if "?b \<le> x" "x < ?b + ?n" for x
          using fresh[of x] that pb by (auto simp: s'_def s3_def s2_def Let_def c1)
        have old: "\<not> (?b \<le> x \<and> x < ?b + ?n)" if "live s x" for x using fresh[of x] that by blast
        show "caddr s' x = caddr s x" "cparent s' x = cparent s x" "ctype s' x = ctype s x" "csize s' x = csize s x"
          "uvm_gpu_chunk_is_in_eviction (ch s' x) = uvm_gpu_chunk_is_in_eviction (ch s x)" if "live s x" for x
          using old[OF that] old[OF l(1)] old[OF root_is_live[OF i(1) l(1)]] by (auto simp: s'_def s3_def s2_def Let_def c1)
        show "cstate s' x = cstate s x" "(chunk_suballoc (ch s' x) = None) = (chunk_suballoc (ch s x) = None)" if "live s x" "x \<noteq> p" for x
          using old[OF that(1)] that(2) old[OF root_is_live[OF i(1) l(1)]] by (auto simp: s'_def s3_def s2_def Let_def c1 option.map_sel)
        show "csubs s' x = csubs s x" "sa_allocated (csub s' x) = sa_allocated (csub s x)" if "live s x" "x \<noteq> p" "chunk_suballoc (ch s x) \<noteq> None" for x
          using old[OF that(1)] that(2,3) old[OF root_is_live[OF i(1) l(1)]] by (auto simp: s'_def s3_def s2_def Let_def c1 option.map_sel)
        show "is_split s' p" by (simp add: s'_def)
        show "chunk_suballoc (ch s' p) \<noteq> None" "csubs s' p = [?b..<?b + ?n]" "sa_allocated (csub s' p) = of_nat ?n"
          using pb m(5) mn by (simp_all add: s'_def s3_def s2_def Let_def c1 option.map_sel)
        show "sa_pinned_leaf_chunks (csub s' r) =
          (if r = p then 0 else sa_pinned_leaf_chunks (csub s r)) +
          (if is_pinned s p \<and> ?r = r then of_nat ?n - (if r = p then 0 else 1) else 0)"
          if "r < pmm_root_chunks_count s" "chunk_suballoc (ch s' r) \<noteq> None" for r
          using that pb p(2) nodes root2 by (auto simp: s'_def s3_def s2_def Let_def c1 option.map_sel split: if_splits)
      qed
    qed
  qed
qed

lemma split_effect_rest:
  assumes "split_effect s p s' b calls"
  shows "b = pmm_root_chunks_count s + Suc (pmm_calls s)" "pmm_calls s' = calls" "Suc (pmm_calls s) + sub_num s p \<le> calls"
    "pmm_chunk_sizes s' = pmm_chunk_sizes s" "pmm_root_chunks_count s' = pmm_root_chunks_count s" "pmm_free_list s' = pmm_free_list s"
    "pmm_trackers s' = pmm_trackers s" "pmm_supports_eviction s' = pmm_supports_eviction s" "pmm_kmem s' = pmm_kmem s"
  using assms[unfolded split_effect_def, THEN conjunct1] by blast+

lemma split_effect_chunks:
  assumes "split_effect s p s' b calls"
  shows "live s' x \<longleftrightarrow> live s x \<or> b \<le> x \<and> x < b + sub_num s p"
    "b \<le> x \<Longrightarrow> x < b + sub_num s p \<Longrightarrow> \<not> live s x \<and> ch s' x = new_subchunk (ch s p) p (2 ^ sub_exp s p) (x - b)"
    "live s x \<Longrightarrow> caddr s' x = caddr s x \<and> cparent s' x = cparent s x \<and> ctype s' x = ctype s x \<and> csize s' x = csize s x"
    "live s x \<Longrightarrow> uvm_gpu_chunk_is_in_eviction (ch s' x) = uvm_gpu_chunk_is_in_eviction (ch s x)"
    "live s x \<Longrightarrow> x \<noteq> p \<Longrightarrow> cstate s' x = cstate s x \<and> (chunk_suballoc (ch s' x) = None) = (chunk_suballoc (ch s x) = None) \<and>
       (chunk_suballoc (ch s x) \<noteq> None \<longrightarrow> csubs s' x = csubs s x \<and> sa_allocated (csub s' x) = sa_allocated (csub s x))"
  using assms[unfolded split_effect_def, THEN conjunct2, THEN conjunct1] by blast+

lemma split_effect_split:
  assumes "split_effect s p s' b calls"
  shows "is_split s' p" "chunk_suballoc (ch s' p) \<noteq> None" "csubs s' p = [b..<b + sub_num s p]" "sa_allocated (csub s' p) = of_nat (sub_num s p)"
    "r < pmm_root_chunks_count s \<Longrightarrow> chunk_suballoc (ch s' r) \<noteq> None \<Longrightarrow> sa_pinned_leaf_chunks (csub s' r) =
       (if r = p then 0 else sa_pinned_leaf_chunks (csub s r)) +
       (if is_pinned s p \<and> root_chunk_from_chunk s p = r then of_nat (sub_num s p) - (if r = p then 0 else 1) else 0)"
  using assms[unfolded split_effect_def, THEN conjunct2, THEN conjunct2] by blast+

lemma new_subchunk_facts:
  assumes e: "e < 22"
  shows "chunk_address (new_subchunk c p (2 ^ e) i) = chunk_address c + ucast (of_nat i * 2 ^ e :: u32)"
    "chunk_parent (new_subchunk c p (2 ^ e) i) = Some p" "chunk_suballoc (new_subchunk c p (2 ^ e) i) = None"
    "uvm_gpu_chunk_get_state (new_subchunk c p (2 ^ e) i) = uvm_gpu_chunk_get_state c"
    "uvm_gpu_chunk_get_type (new_subchunk c p (2 ^ e) i) = uvm_gpu_chunk_get_type c"
    "uvm_gpu_chunk_get_size (new_subchunk c p (2 ^ e) i) = 2 ^ e"
  using e by (simp_all add: new_subchunk_def Let_def)

text \<open>The facts of a split chunk and its new subchunks.\<close>

lemma split_tree:
  assumes inv: "pmm_inv s" and p: "is_leaf s p" "cstate s p = UVM_PMM_GPU_CHUNK_STATE_ALLOCATED \<or> is_pinned s p" and sub: "sub_exp s p \<noteq> 22"
    and e: "split_gpu_chunk p s = (NV_OK, s')"
  shows "tree_ok s'" "is_split s' p" "length (csubs s' p) = sub_num s p" "mask_of s' p = mask_of s p"
    "\<And>x. x \<in> set (csubs s' p) \<Longrightarrow> \<not> live s x \<and> is_leaf s' x \<and> cstate s' x = cstate s p \<and> cexp s' x = sub_exp s p \<and> ctype s' x = ctype s p \<and>
        root_chunk_from_chunk s' x = root_chunk_from_chunk s p \<and> cparent s' x = Some p"
    "\<And>x. live s' x \<longleftrightarrow> live s x \<or> x \<in> set (csubs s' p)"
proof -
  obtain b calls where ef: "split_effect s p s' b calls" by (rule split_cases[OF inv p sub]) (use e in auto)
  note er = split_effect_rest[OF ef] and ec = split_effect_chunks[OF ef] and es = split_effect_split[OF ef]
  note i = inv_parts[OF inv]
  have l: "live s p" "chunk_suballoc (ch s p) = None" using p by (simp_all add: is_leaf_def)
  note z = subchunk_size_eq[OF i(1) l(1) sub] and el = exp_le[OF i(1) l(1)]
  let ?e = "sub_exp s p" and ?n = "sub_num s p"
  have e22: "?e < 22" using z(2) el by linarith
  show "is_split s' p" using es(1) .
  have subs: "set (csubs s' p) = {b..<b + ?n}" "length (csubs s' p) = ?n" using es(3) by simp_all
  then show "length (csubs s' p) = ?n" by simp
  have old: "caddr s' x = caddr s x" "cparent s' x = cparent s x" "ctype s' x = ctype s x" "csize s' x = csize s x"
    "mask_of s' x = mask_of s x" "cexp s' x = cexp s x" "root_chunk_from_chunk s' x = root_chunk_from_chunk s x" if "live s x" for x
  proof -
    show a: "caddr s' x = caddr s x" "cparent s' x = cparent s x" "ctype s' x = ctype s x" "csize s' x = csize s x"
      using ec(3)[OF that] by blast+
    show "mask_of s' x = mask_of s x" "cexp s' x = cexp s x" "root_chunk_from_chunk s' x = root_chunk_from_chunk s x"
      unfolding mask_of_def cexp_def a er(4) by (simp_all add: root_of_eqI[OF a(1)])
  qed
  show "mask_of s' p = mask_of s p" using old(5)[OF l(1)] .
  have addr: "unat (caddr s' x) = unat (caddr s p) + (x - b) * 2 ^ ?e" "(x - b) * 2 ^ ?e + 2 ^ ?e \<le> 2 ^ cexp s p" if "x \<in> {b..<b + ?n}" for x
  proof -
    have k: "x - b < ?n" using that unfolding atLeastLessThan_iff by linarith
    have "(x - b) * 2 ^ ?e + 2 ^ ?e = Suc (x - b) * 2 ^ ?e" by simp
    also have "\<dots> \<le> ?n * 2 ^ ?e" using k by (intro mult_le_mono1) simp
    also have "\<dots> = 2 ^ cexp s p" using z(2) by (simp flip: power_add)
    finally show le: "(x - b) * 2 ^ ?e + 2 ^ ?e \<le> 2 ^ cexp s p" .
    also have "(2::nat) ^ cexp s p \<le> 2 ^ 21" using el by (intro power_increasing) simp_all
    finally have lt: "(x - b) * 2 ^ ?e < 2 ^ 21" by (rule order.strict_trans2[rotated]) simp
    have c: "ch s' x = new_subchunk (ch s p) p (2 ^ ?e) (x - b)" using ec(2)[of x] that by simp
    have "unat (of_nat (x - b) * 2 ^ ?e :: u32) = unat (of_nat ((x - b) * 2 ^ ?e) :: u32)" by simp
    also have "\<dots> = (x - b) * 2 ^ ?e" using lt by (subst unat_of_nat) (simp add: take_bit_eq_mod)
    finally have u: "unat (of_nat (x - b) * 2 ^ ?e :: u32) = (x - b) * 2 ^ ?e" .
    have uc: "unat (ucast (of_nat (x - b) * 2 ^ ?e :: u32) :: u64) = (x - b) * 2 ^ ?e"
      unfolding unsigned_ucast_eq u using lt by (intro take_bit_nat_eq_self) simp
    have "unat (caddr s p) + (x - b) * 2 ^ ?e < 2 ^ 64"
      using root_of_eq(4)[OF i(1) l(1)] i(1) le by (simp add: tree_ok_def)
    then show "unat (caddr s' x) = unat (caddr s p) + (x - b) * 2 ^ ?e"
      unfolding c new_subchunk_facts(1)[OF e22] unat_word_ariths uc by simp
  qed
  have kid: "\<not> live s x" "is_leaf s' x" "cstate s' x = cstate s p" "cexp s' x = ?e" "ctype s' x = ctype s p" "cparent s' x = Some p"
    if "x \<in> {b..<b + ?n}" for x
    using ec(1)[of x] ec(2)[of x] that new_subchunk_facts[OF e22] fls_log[OF e22] by (simp_all add: is_leaf_def cexp_def)
  have root: "root_chunk_from_chunk s' x = root_chunk_from_chunk s p" if x: "x \<in> {b..<b + ?n}" for x
  proof -
    obtain r where r: "r * 2 ^ 21 \<le> unat (caddr s p)" "unat (caddr s p) + 2 ^ cexp s p \<le> Suc r * 2 ^ 21"
      using chunk_place[OF i(1) l(1) refl] by blast
    have h: "r * 2 ^ 21 \<le> y \<Longrightarrow> y < unat (caddr s p) + 2 ^ cexp s p \<Longrightarrow> y div 2 ^ 21 = r" for y
      using r by (intro div_nat_eqI) simp_all
    have "unat (caddr s' x) div 2 ^ 21 = r" "unat (caddr s p) div 2 ^ 21 = r"
      by (rule h; use r addr[OF x] in \<open>auto intro: order.strict_trans2[rotated]\<close>)+
    then show ?thesis by (simp add: root_chunk_from_chunk_def root_chunk_from_address_def unat_div UVM_CHUNK_SIZE_MAX_def)
  qed
  show "\<not> live s x \<and> is_leaf s' x \<and> cstate s' x = cstate s p \<and> cexp s' x = ?e \<and> ctype s' x = ctype s p \<and>
        root_chunk_from_chunk s' x = root_chunk_from_chunk s p \<and> cparent s' x = Some p" if "x \<in> set (csubs s' p)" for x
    using kid[of x] root[of x] that subs by simp
  show lv: "live s' x \<longleftrightarrow> live s x \<or> x \<in> set (csubs s' p)" for x using ec(1)[of x] subs by simp
  have new_split: "split_ok s' p"
  proof -
    have "child_ok s' p k" if "k < ?n" for k
    proof -
      have x: "csubs s' p ! k = b + k" "b + k \<in> {b..<b + ?n}" using that es(3) by simp_all
      show ?thesis unfolding child_ok_def Let_def x(1)
        using kid[OF x(2)] addr[OF x(2)] old[OF l(1)] by (simp add: is_leaf_def)
    qed
    then show ?thesis using sub old[OF l(1)] subs(2) by (simp add: split_ok_def)
  qed
  have kids_chunk: "chunk_ok s' x \<and> x < pmm_root_chunks_count s + calls" if x: "x \<in> {b..<b + ?n}" for x
  proof -
    have "mask_of s' x = mask_of s p" using kid(5)[OF x] er(4) by (simp add: mask_of_def)
    moreover have "\<not> x < pmm_root_chunks_count s" using x er(1) by simp
    ultimately show ?thesis
      using kid[OF x] z(4) x subs er(1,3,5) es(2) lv[of p] l(1) by (auto simp: chunk_ok_def is_leaf_def)
  qed
  have old_chunk: "chunk_ok s' x" if x: "live s x" for x
  proof -
    note c = tree_chunk[OF i(1) x]
    have "split_ok s' x" if h: "chunk_suballoc (ch s x) \<noteq> None"
    proof -
      have ne: "x \<noteq> p" using h l by auto
      have so: "split_ok s x" using c h by (simp add: chunk_ok_def)
      have cs: "csubs s' x = csubs s x" using ec(5)[OF x ne] h by blast
      have "child_ok s' x k" if "k < length (csubs s x)" for k
      proof -
        have co: "child_ok s x k" using so that by (simp add: split_ok_def)
        then have "live s (csubs s x ! k)" by (simp add: child_ok_def Let_def)
        then show ?thesis using co old[OF x] old[of "csubs s x ! k"] lv cs by (simp add: child_ok_def Let_def)
      qed
      then show ?thesis using so old[OF x] cs by (simp add: split_ok_def)
    qed
    moreover have "live s' q \<and> chunk_suballoc (ch s' q) \<noteq> None \<and> x \<in> set (csubs s' q)" if h: "cparent s x = Some q" for q
    proof -
      have q: "live s q" "chunk_suballoc (ch s q) \<noteq> None" "x \<in> set (csubs s q)" using c h by (auto simp: chunk_ok_def)
      then have "q \<noteq> p" using l by auto
      then show ?thesis using ec(5)[OF q(1)] q lv by auto
    qed
    moreover have "split_ok s' x" if "chunk_suballoc (ch s' x) \<noteq> None"
      using calculation(1) new_split ec(5)[OF x] that by (cases "x = p") auto
    ultimately show ?thesis using c unfolding chunk_ok_def old[OF x] er(5) by blast
  qed
  have "x < pmm_root_chunks_count s + calls" if "live s x" for x
    using i(1) that er(3) unfolding tree_ok_def by fastforce
  then show "tree_ok s'"
    using i(1) old_chunk kids_chunk lv subs er(2,4,5) unfolding tree_ok_def by auto
qed

text \<open>A root chunk that is a leaf is the only leaf of its memory.\<close>

lemma root_leaf_unique:
  assumes t: "tree_ok s" and p: "is_leaf s p" "cparent s p = None" and x: "is_leaf s x" "root_chunk_from_chunk s x = p"
  shows "x = p"
proof (rule ccontr)
  assume ne: "x \<noteq> p"
  have lx: "live s x" "chunk_suballoc (ch s x) = None" and lp: "live s p" using x p by (simp_all add: is_leaf_def)
  then have "unat (caddr s x) div 2 ^ 21 = p" using root_of_eq(1)[OF t] x(2) by simp
  then have "p * 2 ^ 21 \<le> unat (caddr s x)" "unat (caddr s x) < p * 2 ^ 21 + 2 ^ 21"
    using div_times_less_eq_dividend[of "unat (caddr s x)" "2 ^ 21"] dividend_less_div_times[of "2 ^ 21" "unat (caddr s x)"] by auto
  then have "unat (caddr s x) \<in> span s p" using root_facts[OF t lp p(2)] by (simp add: span_def)
  moreover have "unat (caddr s x) \<in> span s x" by (simp add: span_def)
  ultimately show False using leaves_disjoint[OF t x(1) p(1) ne] by blast
qed

lemma split_states:
  assumes inv: "pmm_inv s" and p: "is_leaf s p" "cstate s p = UVM_PMM_GPU_CHUNK_STATE_ALLOCATED \<or> is_pinned s p" and sub: "sub_exp s p \<noteq> 22"
    and ef: "split_effect s p s' b calls" and e: "split_gpu_chunk p s = (NV_OK, s')"
  shows "states_ok s'"
proof -
  note i = inv_parts[OF inv] and er = split_effect_rest[OF ef] and ec = split_effect_chunks[OF ef] and es = split_effect_split[OF ef]
  note st = split_tree[OF inv p sub e]
  have l: "live s p" "chunk_suballoc (ch s p) = None" using p by (simp_all add: is_leaf_def)
  have n: "sub_num s p \<le> 2 ^ 21" "0 < sub_num s p" using csubs_facts(2,3)[OF st(1) _ es(2)] st(3) st(6)[of p] l(1) by auto
  have up: "used_children s' p = sub_num s p"
  proof -
    have "filter (\<lambda>x. \<not> is_free s' x) (csubs s' p) = csubs s' p" using st(5) p(2) by (intro filter_True) auto
    then show ?thesis by (simp add: used_children_def st(3))
  qed
  have un: "unat (of_nat (sub_num s p) :: u32) = sub_num s p" using n by (subst unat_of_nat) (simp add: take_bit_eq_mod)
  have nf: "is_free s' x = is_free s x" if "live s x" for x using ec(5)[OF that] es(1) p(2) by (cases "x = p") auto
  have used: "used_children s' x = used_children s x" if x: "live s x" "chunk_suballoc (ch s x) \<noteq> None" "x \<noteq> p" for x
    using ec(5)[OF x(1,3)] x(2) nf csubs_facts(4)[OF i(1) x(1,2)] unfolding used_children_def
    by (intro arg_cong[where f = length]) (simp, intro filter_cong, auto)
  show "states_ok s'" unfolding states_ok_def
  proof (intro allI impI)
    fix x assume "live s' x"
    then consider "x \<in> set (csubs s' p)" | "x = p" | "live s x" "x \<noteq> p" using st(6) by blast
    then show "is_split s' x = (chunk_suballoc (ch s' x) \<noteq> None) \<and>
         (cstate s' x = UVM_PMM_GPU_CHUNK_STATE_PMA_OWNED \<longrightarrow> x < pmm_root_chunks_count s') \<and>
         (is_split s' x \<longrightarrow> unat (sa_allocated (csub s' x)) = used_children s' x \<and> 0 < used_children s' x)"
    proof cases
      case 1
      then show ?thesis using st(5)[OF 1] p(2) by (auto simp: is_leaf_def)
    next
      case 2
      have "unat (sa_allocated (csub s' p)) = used_children s' p" unfolding es(4) up un ..
      then show ?thesis unfolding 2 using es(1,2) up n(2) by simp
    next
      case 3
      show ?thesis using i(2) ec(5)[OF 3] used[OF 3(1) _ 3(2)] 3(1) er(5) unfolding states_ok_def by auto
    qed
  qed
qed

lemma split_pins:
  assumes inv: "pmm_inv s" and p: "is_leaf s p" "cstate s p = UVM_PMM_GPU_CHUNK_STATE_ALLOCATED \<or> is_pinned s p" and sub: "sub_exp s p \<noteq> 22"
    and ef: "split_effect s p s' b calls" and e: "split_gpu_chunk p s = (NV_OK, s')"
  shows "pins_ok s'"
  unfolding pins_ok_def
proof (intro allI impI)
  note i = inv_parts[OF inv] and er = split_effect_rest[OF ef] and ec = split_effect_chunks[OF ef] and es = split_effect_split[OF ef]
  note st = split_tree[OF inv p sub e] and pl = leaf_place[OF inv p(1)]
  let ?n = "sub_num s p"
  have l: "live s p" "chunk_suballoc (ch s p) = None" using p by (simp_all add: is_leaf_def)
  have n: "?n \<le> 2 ^ 21" "0 < ?n" using csubs_facts(2,3)[OF st(1) _ es(2)] st(3) st(6)[of p] l(1) by auto
  have un: "unat (of_nat ?n :: u32) = ?n" using n by (subst unat_of_nat) (simp add: take_bit_eq_mod)
  have root: "root_chunk_from_chunk s' x = root_chunk_from_chunk s x" if "live s x" for x using ec(3)[OF that] by (intro root_of_eqI) simp
  fix r assume r: "r < pmm_root_chunks_count s'" "chunk_suballoc (ch s' r) \<noteq> None"
  then have rl: "r < pmm_root_chunks_count s" "live s r" using er(5) i(1) by (auto simp: tree_ok_def)
  note a = es(5)[OF rl(1) r(2)]
  have mem: "x \<in> pinned_leaves s' r \<longleftrightarrow>
      (if x \<in> set (csubs s' p) then is_pinned s p \<and> root_chunk_from_chunk s p = r else x \<in> pinned_leaves s r \<and> x \<noteq> p)" for x
  proof (cases "x \<in> set (csubs s' p)")
    case True
    then show ?thesis using st(5)[OF True] by (simp add: pinned_leaves_def)
  next
    case False
    then show ?thesis using st(6)[of x] ec(5)[of x] es(2) root[of x] by (cases "x = p") (auto simp: pinned_leaves_def is_leaf_def)
  qed
  have fin: "finite (pinned_leaves s r)" and small: "card (pinned_leaves s r) \<le> 2 ^ 21" using pinned_leaves_small[OF i(1)] by blast+
  have pm: "p \<in> pinned_leaves s r \<longleftrightarrow> is_pinned s p \<and> root_chunk_from_chunk s p = r" using p(1) by (simp add: pinned_leaves_def)
  have old: "unat (sa_pinned_leaf_chunks (csub s r)) = card (pinned_leaves s r)" if "r \<noteq> p"
    using i(3) rl r(2) ec(5)[OF rl(2) that] by (simp add: pins_ok_def)
  have only: "pinned_leaves s p \<subseteq> {p}" if "r = p"
  proof -
    have "cparent s p = None" using root_live[OF i(1)] rl(1) that by blast
    then show ?thesis using root_leaf_unique[OF i(1) p(1)] by (auto simp: pinned_leaves_def)
  qed
  show "unat (sa_pinned_leaf_chunks (csub s' r)) = card (pinned_leaves s' r)"
  proof (cases "is_pinned s p \<and> root_chunk_from_chunk s p = r")
    case True
    have "pinned_leaves s' r = (pinned_leaves s r - {p}) \<union> set (csubs s' p)"
      using True st(5) by (intro set_eqI) (auto simp: mem)
    moreover have "(pinned_leaves s r - {p}) \<inter> set (csubs s' p) = {}" using st(5) by (auto simp: pinned_leaves_def is_leaf_def)
    moreover have "card (set (csubs s' p)) = ?n" using csubs_facts(1)[OF st(1) _ es(2)] st(3) st(6)[of p] l(1) by (simp add: distinct_card)
    ultimately have c: "card (pinned_leaves s' r) = card (pinned_leaves s r - {p}) + ?n" using fin by (simp add: card_Un_disjoint)
    show ?thesis
    proof (cases "r = p")
      case rp: True
      then have e0: "pinned_leaves s r - {p} = {}" using only by blast
      have "card (pinned_leaves s' r) = ?n" unfolding c e0 by simp
      then show ?thesis using a True rp un by simp
    next
      case False
      have c1: "card (pinned_leaves s r - {p}) = card (pinned_leaves s r) - 1" "0 < card (pinned_leaves s r)"
        using True pm fin by (auto simp: card_gt_0_iff)
      have w: "sa_pinned_leaf_chunks (csub s r) + (of_nat ?n - 1) = (sa_pinned_leaf_chunks (csub s r) - 1) + of_nat ?n" by simp
      have "unat (sa_pinned_leaf_chunks (csub s r) - 1) = card (pinned_leaves s r) - 1" using u32_dec[OF old[OF False] c1(2)] .
      then have "unat ((sa_pinned_leaf_chunks (csub s r) - 1) + of_nat ?n) = card (pinned_leaves s r) - 1 + ?n"
        unfolding unat_word_ariths un using small n by simp
      moreover have sp: "sa_pinned_leaf_chunks (csub s' r) = sa_pinned_leaf_chunks (csub s r) + (of_nat ?n - 1)"
        using a True False by simp
      ultimately show ?thesis unfolding sp w c c1(1) by blast
    qed
  next
    case False
    have "x \<notin> pinned_leaves s r" if "x \<in> set (csubs s' p)" for x using st(5)[OF that] by (simp add: pinned_leaves_def is_leaf_def)
    then have c: "pinned_leaves s' r = pinned_leaves s r" using pm False by (intro set_eqI) (unfold mem, metis)
    have sp: "sa_pinned_leaf_chunks (csub s' r) = (if r = p then 0 else sa_pinned_leaf_chunks (csub s r))"
      using a unfolding if_not_P[OF False] by (simp only: add_0_right)
    show ?thesis
    proof (cases "r = p")
      case True
      have "pinned_leaves s r = {}" using only[OF True] pm False True by blast
      then show ?thesis unfolding c sp using True by simp
    next
      case False
      then show ?thesis unfolding c sp using old[OF False] by simp
    qed
  qed
qed

lemma split_inv:
  assumes inv: "pmm_inv s" and p: "is_leaf s p" "cstate s p = UVM_PMM_GPU_CHUNK_STATE_ALLOCATED \<or> is_pinned s p" and sub: "sub_exp s p \<noteq> 22"
    and ef: "split_effect s p s' b calls" and e: "split_gpu_chunk p s = (NV_OK, s')"
  shows "pmm_inv s'"
proof -
  note i = inv_parts[OF inv] and er = split_effect_rest[OF ef] and ec = split_effect_chunks[OF ef] and es = split_effect_split[OF ef]
  note st = split_tree[OF inv p sub e]
  have fs: "free_set s' ty j = free_set s ty j" for ty j
  proof (intro set_eqI)
    fix x
    show "x \<in> free_set s' ty j \<longleftrightarrow> x \<in> free_set s ty j"
    proof (cases "live s x")
      case True
      have "is_free s' x = is_free s x" using ec(5)[OF True] es(1) p(2) by (cases "x = p") auto
      then show ?thesis using True st(6)[of x] ec(3)[OF True] er(4) by (simp add: free_set_def find_free_list_chunk_def find_free_list_def)
    next
      case False
      then show ?thesis using st(5)[of x] st(6)[of x] p(2) by (auto simp: free_set_def)
    qed
  qed
  have "chunk_is_in_eviction s' x = chunk_is_in_eviction s x" if "live s x" for x
    using ec(4)[OF root_is_live[OF i(1) that]] ec(3)[OF that] root_of_eqI[of s' x s] by (simp add: chunk_is_in_eviction_def)
  then have "chunk_is_in_eviction s' x = chunk_is_in_eviction s x" if "x \<in> free_set s ty j" for x ty j using that by (simp add: free_set_def)
  then have "lists_ok s'" using i(4) by (simp add: lists_ok_def er(6) fs)
  then show ?thesis using st(1) split_states[OF inv p sub ef e] split_pins[OF inv p sub ef e] by (simp add: pmm_inv_def)
qed

end
