(* ===== verification/Pmm_Merge.thy ===== *)
theory Pmm_Merge
  imports Pmm_Split
begin

text \<open>
  Freeing the last chunk in use under a parent pins all the children, merges them and goes on with the parent.
  Each of these steps keeps the invariant of the physical memory manager, and the loop ends.
\<close>

section \<open>The number of subchunks\<close>

lemma num_subchunks_eq:
  assumes t: "tree_ok s" and q: "live s q" "chunk_suballoc (ch s q) \<noteq> None"
  shows "num_subchunks s q = of_nat (length (csubs s q))" "unat (num_subchunks s q) = length (csubs s q)"
proof -
  have so: "split_ok s q" using tree_chunk[OF t q(1)] q(2) by (simp add: chunk_ok_def)
  let ?p = "csubs s q ! 0"
  have "0 < length (csubs s q)" using csubs_facts(3)[OF t q] by simp
  then have co: "child_ok s q 0" using so by (simp add: split_ok_def)
  have e: "cexp s ?p = sub_exp s q" using co by (simp add: child_ok_def Let_def)
  have le: "cexp s q \<le> 21" using exp_le[OF t q(1)] by simp
  have lt: "sub_exp s q < cexp s q"
    using prev_exp_props(1)[of "mask_of s q" "cexp s q"] le so by (simp add: split_ok_def)
  have u: "(ucast (2 ^ k :: u32) :: u64) = 2 ^ k" if "k < 32" for k
  proof -
    have "(2::nat) ^ k < 2 ^ 64" using that by (intro power_strict_increasing) simp_all
    then show ?thesis using that by (intro word_unat_eq_iff[THEN iffD2]) (simp add: unsigned_ucast_eq unat_2_power take_bit_eq_mod)
  qed
  have uc: "unat (2 ^ cexp s q :: u64) = 2 ^ cexp s q" using le by (intro unat_2_power) simp
  have "uvm_div_pow2_64 (2 ^ cexp s q) (2 ^ sub_exp s q) = drop_bit (sub_exp s q) (2 ^ cexp s q)"
    using fls_power[of "sub_exp s q", where 'a = 64] lt le by (simp add: uvm_div_pow2_64_def push_bit_eq_mult)
  also have "unat \<dots> = 2 ^ cexp s q div 2 ^ sub_exp s q"  unfolding unat_drop_bit_eq uc by (rule drop_bit_eq_div)
  also have "\<dots> = sub_num s q" using lt by (simp add: power_diff)
  finally have d: "unat (uvm_div_pow2_64 (2 ^ cexp s q) (2 ^ sub_exp s q)) = length (csubs s q)" using so by (simp add: split_ok_def)
  have n: "num_subchunks s q = ucast (uvm_div_pow2_64 (2 ^ cexp s q) (2 ^ sub_exp s q))"
    unfolding num_subchunks_def Let_def csize_eq(1) e using u lt le by simp
  have l: "length (csubs s q) < 2 ^ 32" using csubs_facts(2)[OF t q] by simp
  show un: "unat (num_subchunks s q) = length (csubs s q)"
    unfolding n unsigned_ucast_eq d using l by (intro take_bit_nat_eq_self) simp
  show "num_subchunks s q = of_nat (length (csubs s q))" unfolding un[symmetric] by simp
qed

text \<open>Chunks within a chunk are under the same root chunk.\<close>

lemma span_root:
  assumes t: "tree_ok s" and q: "live s q" and x: "live s x" "span s x \<subseteq> span s q"
  shows "root_chunk_from_chunk s x = root_chunk_from_chunk s q"
proof -
  obtain r where r: "r * 2 ^ 21 \<le> unat (caddr s q)" "unat (caddr s q) + 2 ^ cexp s q \<le> Suc r * 2 ^ 21"
    using chunk_place[OF t q refl] by blast
  have h: "y div 2 ^ 21 = r" if "y \<in> span s q" for y using that r by (intro div_nat_eqI) (auto simp: span_def)
  have "unat (caddr s x) \<in> span s x" "unat (caddr s q) \<in> span s q" by (simp_all add: span_def)
  then have "unat (caddr s x) div 2 ^ 21 = r" "unat (caddr s q) div 2 ^ 21 = r" using h x(2) by blast+
  then show ?thesis using root_of_eq(1)[OF t] q x(1) by simp
qed

section \<open>Pinning the children\<close>

lemma pin_subchunks_frame [simp]:
  "pmm_chunk_sizes (pin_subchunks ps s) = pmm_chunk_sizes s" "pmm_root_chunks_count (pin_subchunks ps s) = pmm_root_chunks_count s"
  "pmm_calls (pin_subchunks ps s) = pmm_calls s" "pmm_kmem (pin_subchunks ps s) = pmm_kmem s"
  "pmm_trackers (pin_subchunks ps s) = pmm_trackers s" "pmm_supports_eviction (pin_subchunks ps s) = pmm_supports_eviction s"
  "live (pin_subchunks ps s) x \<longleftrightarrow> live s x \<or> x \<in> set ps"
  by (induction ps s rule: pin_subchunks.induct) auto

lemma pin_subchunks_ch:
  "distinct ps \<Longrightarrow> ch (pin_subchunks ps s) x =
     (if x \<in> set ps then uvm_gpu_chunk_set_state (ch s x) UVM_PMM_GPU_CHUNK_STATE_TEMP_PINNED else ch s x)"
  by (induction ps s rule: pin_subchunks.induct) auto

lemma pin_subchunks_lists: "pmm_free_list (pin_subchunks ps s) ty i = filter (\<lambda>x. x \<notin> set ps) (pmm_free_list s ty i)"
proof (induction ps s rule: pin_subchunks.induct)
  case (2 p ps s)
  have "filter (\<lambda>x. x \<notin> set ps) (filter ((\<noteq>) p) (pmm_free_list s ty i)) = filter (\<lambda>x. x \<notin> set (p # ps)) (pmm_free_list s ty i)"
    unfolding filter_filter by (intro filter_cong) auto
  then show ?case using 2 by (simp add: removeAll_filter_not_eq)
qed simp

text \<open>The state after preparing the merge of the children of \<open>q\<close>.\<close>

definition prepared :: "uvm_pmm_gpu \<Rightarrow> chunk_ptr \<Rightarrow> uvm_pmm_gpu \<Rightarrow> bool" where
  "prepared s q s' \<longleftrightarrow> same_shape s s' \<and> same_eviction s s' \<and>
     (\<forall>x. cstate s' x = (if x \<in> set (csubs s q) then UVM_PMM_GPU_CHUNK_STATE_TEMP_PINNED else cstate s x)) \<and>
     (\<forall>x. live s x \<longrightarrow> chunk_suballoc (ch s x) \<noteq> None \<longrightarrow>
        sa_allocated (csub s' x) = (if x = q then of_nat (length (csubs s q)) else sa_allocated (csub s x))) \<and>
     (\<forall>ty i. pmm_free_list s' ty i = filter (\<lambda>x. x \<notin> set (csubs s q)) (pmm_free_list s ty i))"

lemma last_child_facts:
  assumes inv: "pmm_inv s" and p: "is_leaf s p" "\<not> is_free s p" and q: "cparent s p = Some q" and last: "sa_allocated (csub s q) = 1"
  shows "x \<in> set (csubs s q) \<Longrightarrow> is_leaf s x \<and> (x = p \<or> is_free s x)"
proof -
  note i = inv_parts[OF inv]
  have l: "live s p" using p by (simp add: is_leaf_def)
  note ql = parent_ne[OF i(1) l q]
  have ps: "p \<in> set (csubs s q)" using tree_chunk[OF i(1) l] q by (auto simp: chunk_ok_def)
  have "is_split s q" "unat (sa_allocated (csub s q)) = used_children s q" using i(2) ql by (auto simp: states_ok_def)
  then have u: "length (filter (\<lambda>y. \<not> is_free s y) (csubs s q)) = 1" using last by (simp add: used_children_def)
  then obtain y where y: "filter (\<lambda>y. \<not> is_free s y) (csubs s q) = [y]" by (auto simp: length_Suc_conv)
  have "p \<in> set (filter (\<lambda>y. \<not> is_free s y) (csubs s q))" using ps p(2) by simp
  then have yp: "y = p" unfolding y by simp
  assume x: "x \<in> set (csubs s q)"
  then have lx: "live s x" using csubs_facts(4)[OF i(1)] ql by blast
  have "x = p \<or> is_free s x"
  proof (rule ccontr)
    assume "\<not> (x = p \<or> is_free s x)"
    then have "x \<in> set (filter (\<lambda>y. \<not> is_free s y) (csubs s q))" using x by simp
    then show False using y yp \<open>\<not> (x = p \<or> is_free s x)\<close> by simp
  qed
  moreover have "is_leaf s x" if "is_free s x" using i(2) lx that by (auto simp: states_ok_def is_leaf_def)
  ultimately show "is_leaf s x \<and> (x = p \<or> is_free s x)" using p(1) by blast
qed

lemma prepare_step:
  assumes inv: "pmm_inv s" and p: "is_leaf s p" "cstate s p = UVM_PMM_GPU_CHUNK_STATE_ALLOCATED \<or> is_pinned s p"
    and ev: "\<not> chunk_is_in_eviction s p" and q: "cparent s p = Some q" and last: "sa_allocated (csub s q) = 1"
  obtains s' where "free_or_prepare_for_merge p s = (Some q, s')" "prepared s q s'" "pmm_inv s'"
proof -
  note i = inv_parts[OF inv] and f = free_locked_frame[OF inv p ev] and pl = leaf_place[OF inv p(1)]
  let ?r = "root_chunk_from_chunk s p" and ?subs = "csubs s q"
  have l: "live s p" "chunk_suballoc (ch s p) = None" using p by (simp_all add: is_leaf_def)
  have ql: "q \<noteq> p" "live s q" "chunk_suballoc (ch s q) \<noteq> None" using parent_ne[OF i(1) l(1) q] by simp_all
  have rl: "live s ?r" "chunk_suballoc (ch s ?r) \<noteq> None" "?r \<noteq> p" using pl(2)[OF q] by simp_all
  have ps: "p \<in> set ?subs" using tree_chunk[OF i(1) l(1)] q by (auto simp: chunk_ok_def)
  note c = csubs_facts[OF i(1) ql(2,3)]
  have nf: "\<not> is_free s p" using p(2) by auto
  note kids = last_child_facts[OF inv p(1) nf q last]
  define s1 where "s1 = chunk_free_locked p s"
  note f = f[folded s1_def]
  note sh1 = same_shape_facts[OF f(1)] and r1 = same_shape_rest[OF f(1)]
  have t1: "tree_ok s1" using same_shape_tree[OF f(1) i(1)] .
  have q1: "live s1 q" "chunk_suballoc (ch s1 q) \<noteq> None" "csubs s1 q = ?subs" "cparent s1 p = Some q"
    using ql sh1[OF ql(2)] sh1[OF l(1)] q by (simp_all add: r1)
  have n1: "num_subchunks s1 q = of_nat (length ?subs)" "unat (num_subchunks s1 q) = length ?subs"
    using num_subchunks_eq[OF t1 q1(1,2)] q1(3) by simp_all
  have n: "length ?subs \<le> 2 ^ 21" "card (set ?subs) = length ?subs" using c(1,2) by (simp_all add: distinct_card)
  have un: "unat (of_nat (length ?subs) :: u32) = length ?subs" using n(1) by (subst unat_of_nat) (simp add: take_bit_eq_mod)
  define s2 where "s2 = pin_subchunks ?subs s1"
  define s3 where "s3 = upd_suballoc ?r (\<lambda>sa. sa\<lparr>sa_pinned_leaf_chunks := sa_pinned_leaf_chunks sa + of_nat (length ?subs)\<rparr>) s2"
  define s' where "s' = upd_suballoc q (\<lambda>sa. sa\<lparr>sa_allocated := of_nat (length ?subs)\<rparr>) s3"
  have sub_live: "live s1 x" if "x \<in> set ?subs" for x using c(4)[OF that] by (simp add: r1)
  have root_kid: "root_chunk_from_chunk s x = ?r" if "x \<in> set ?subs" for x
  proof -
    have "live s x" "cparent s x = Some q" using c(4)[OF that] by simp_all
    then have "span s x \<subseteq> span s q" using child_span[OF i(1)] by blast
    moreover have "span s p \<subseteq> span s q" using child_span[OF i(1) l(1) q] .
    ultimately show ?thesis using span_root[OF i(1) ql(2)] \<open>live s x\<close> l(1) by metis
  qed
  have rne: "?r \<notin> set ?subs" using kids rl(2) by (auto simp: is_leaf_def)
  have qne: "q \<notin> set ?subs" using kids ql(3) by (auto simp: is_leaf_def)
  have root2: "root_chunk_from_chunk s2 p = ?r"
    using sh1(9)[OF l(1)] by (simp add: root_chunk_from_chunk_def s2_def pin_subchunks_ch[OF c(1)])
  have e: "free_or_prepare_for_merge p s = (Some q, s')"
    unfolding free_or_prepare_for_merge_def Let_def s1_def[symmetric] q option.case n1 q1(3) using last q
    by (simp add: chunk_is_last_allocated_child_def s'_def s3_def root2[symmetric] s2_def un)
  have ch': "ch s' x = (if x \<in> set ?subs then uvm_gpu_chunk_set_state (ch s1 x) UVM_PMM_GPU_CHUNK_STATE_TEMP_PINNED
      else (ch s1 x)\<lparr>chunk_suballoc := map_option (\<lambda>sa. sa
         \<lparr>sa_pinned_leaf_chunks := (if x = ?r then sa_pinned_leaf_chunks sa + of_nat (length ?subs) else sa_pinned_leaf_chunks sa),
          sa_allocated := (if x = q then of_nat (length ?subs) else sa_allocated sa)\<rparr>) (chunk_suballoc (ch s1 x))\<rparr>)" for x
  proof -
    have c2: "ch s2 x = (if x \<in> set ?subs then uvm_gpu_chunk_set_state (ch s1 x) UVM_PMM_GPU_CHUNK_STATE_TEMP_PINNED else ch s1 x)"
      by (simp add: s2_def pin_subchunks_ch[OF c(1)])
    show ?thesis
    proof (cases "x \<in> set ?subs")
      case True
      then have "x \<noteq> ?r" "x \<noteq> q" using rne qne by blast+
      then show ?thesis using True c2 by (simp add: s'_def s3_def)
    next
      case False
      then have c1: "ch s2 x = ch s1 x" using c2 by simp
      let ?g = "\<lambda>sa. sa\<lparr>sa_pinned_leaf_chunks := sa_pinned_leaf_chunks sa + of_nat (length ?subs)\<rparr>"
      let ?h = "\<lambda>sa. sa\<lparr>sa_allocated := of_nat (length ?subs)\<rparr>"
      have s3x: "ch s3 x = (if x = ?r then (ch s2 x)\<lparr>chunk_suballoc := map_option ?g (chunk_suballoc (ch s2 x))\<rparr> else ch s2 x)"
        by (cases "x = ?r") (simp_all add: s3_def)
      have s'x: "ch s' x = (if x = q then (ch s3 x)\<lparr>chunk_suballoc := map_option ?h (chunk_suballoc (ch s3 x))\<rparr> else ch s3 x)"
        by (cases "x = q") (simp_all add: s'_def)
      define c0 where "c0 = ch s1 x"
      define b1 b2 where "b1 = (x = ?r)" and "b2 = (x = q)"
      show ?thesis unfolding s'x s3x c1 if_not_P[OF False] unfolding c0_def[symmetric] b1_def[symmetric] b2_def[symmetric]
        by (cases c0; cases "chunk_suballoc c0"; cases b1; cases b2) simp_all
    qed
  qed
  have live': "live s' x = live s x" for x
    using ql(2) rl(1) c(4)[of x] by (auto simp: s'_def s3_def s2_def r1)
  have rest': "pmm_chunk_sizes s' = pmm_chunk_sizes s1" "pmm_root_chunks_count s' = pmm_root_chunks_count s1" "pmm_calls s' = pmm_calls s1"
    by (simp_all add: s'_def s3_def s2_def)
  have "same_shape s1 s'" unfolding same_shape_def shape_def using rest' live' r1(1)
    by (simp add: ch' option.map_comp o_def)
  then have sh: "same_shape s s'" using same_shape_trans[OF f(1)] by blast
  have sev: "same_eviction s s'" using f(4) by (simp add: same_eviction_def ch')
  have st: "cstate s' x = (if x \<in> set ?subs then UVM_PMM_GPU_CHUNK_STATE_TEMP_PINNED else cstate s x)" for x
    using f(3)[of x] ps by (auto simp: ch')
  have al: "sa_allocated (csub s' x) = (if x = q then of_nat (length ?subs) else sa_allocated (csub s x))"
    if "live s x" "chunk_suballoc (ch s x) \<noteq> None" for x
  proof -
    have x: "x \<notin> set ?subs" using kids that(2) by (auto simp: is_leaf_def)
    have "chunk_suballoc (ch s1 x) \<noteq> None" using sh1(6)[OF that(1)] that(2) by simp
    then show ?thesis using x f(5)[OF that] q by (auto simp: ch' option.map_sel)
  qed
  have fl: "pmm_free_list s' ty j = filter (\<lambda>x. x \<notin> set ?subs) (pmm_free_list s ty j)" for ty j
  proof -
    have "pmm_free_list s' ty j = filter (\<lambda>x. x \<notin> set ?subs) (removeAll p (pmm_free_list s ty j) @ free_entry s1 p ty j)"
      by (simp add: s'_def s3_def s2_def pin_subchunks_lists f(7))
    also have "\<dots> = filter (\<lambda>x. x \<notin> set ?subs) (removeAll p (pmm_free_list s ty j))" using ps by (simp add: free_entry_def)
    also have "\<dots> = filter (\<lambda>x. x \<notin> set ?subs) (pmm_free_list s ty j)"
      unfolding removeAll_filter_not_eq filter_filter using ps by (intro filter_cong) auto
    finally show ?thesis .
  qed
  have prep: "prepared s q s'" unfolding prepared_def using sh sev st al fl by blast
  note sh' = same_shape_facts[OF sh] and r' = same_shape_rest[OF sh]
  have pins: "pins_ok s'" unfolding pins_ok_def
  proof (intro allI impI)
    fix r assume "r < pmm_root_chunks_count s'" "chunk_suballoc (ch s' r) \<noteq> None"
    then have h: "r < pmm_root_chunks_count s" "live s r" "chunk_suballoc (ch s r) \<noteq> None"
      using i(1) sh'(6)[of r] by (auto simp: r' tree_ok_def)
    have hn: "r \<notin> set ?subs" using kids h(3) by (auto simp: is_leaf_def)
    have u: "unat (sa_pinned_leaf_chunks (csub s r)) = card (pinned_leaves s r)" using i(3) h by (simp add: pins_ok_def)
    have fin: "finite (pinned_leaves s r)" and small: "card (pinned_leaves s r) \<le> 2 ^ 21" using pinned_leaves_small[OF i(1)] by blast+
    have mem: "x \<in> pinned_leaves s' r \<longleftrightarrow> (if x \<in> set ?subs then r = ?r else x \<in> pinned_leaves s r)" for x
    proof (cases "x \<in> set ?subs")
      case True
      then show ?thesis using kids[OF True] st[of x] sh'[of x] root_kid[OF True] by (auto simp: pinned_leaves_def is_leaf_def r')
    next
      case False
      then show ?thesis using st[of x] sh'[of x] by (auto simp: pinned_leaves_def is_leaf_def r')
    qed
    have a: "sa_pinned_leaf_chunks (csub s' r) = sa_pinned_leaf_chunks (csub s r) +
        (if ?r = r \<and> is_pinned s p then - 1 else 0) + (if r = ?r then of_nat (length ?subs) else 0)"
      using f(6)[OF h(1,3)] hn h(3) sh1(6)[OF h(2)] by (auto simp: ch' option.map_sel)
    have kid_pin: "x = p \<and> is_pinned s p" if "x \<in> set ?subs" "x \<in> pinned_leaves s r" for x
      using kids[OF that(1)] that(2) by (auto simp: pinned_leaves_def)
    show "unat (sa_pinned_leaf_chunks (csub s' r)) = card (pinned_leaves s' r)"
    proof (cases "r = ?r")
      case False
      then have "x \<notin> pinned_leaves s r" if "x \<in> set ?subs" for x using root_kid[OF that] by (auto simp: pinned_leaves_def)
      then have e': "pinned_leaves s' r = pinned_leaves s r" using False by (intro set_eqI) (unfold mem, metis)
      show ?thesis unfolding e' using a False u by simp
    next
      case True
      have e': "pinned_leaves s' r = (pinned_leaves s r - {p}) \<union> set ?subs" 
      proof (intro set_eqI)
        show "x \<in> pinned_leaves s' r \<longleftrightarrow> x \<in> (pinned_leaves s r - {p}) \<union> set ?subs" for x
          unfolding mem using ps True by (cases "x \<in> set ?subs") auto
      qed
      have "(pinned_leaves s r - {p}) \<inter> set ?subs = {}" using kid_pin by blast
      then have cd: "card (pinned_leaves s' r) = card (pinned_leaves s r - {p}) + length ?subs"
        unfolding e' using fin n(2) by (subst card_Un_disjoint) simp_all
      show ?thesis
      proof (cases "is_pinned s p")
        case pin: True
        have pm: "p \<in> pinned_leaves s r" using pin True p(1) by (simp add: pinned_leaves_def)
        then have pos: "0 < card (pinned_leaves s r)" using fin by (auto simp: card_gt_0_iff)
        have cd1: "card (pinned_leaves s r - {p}) = card (pinned_leaves s r) - 1" using pm fin by simp
        have a1: "sa_pinned_leaf_chunks (csub s' r) = (sa_pinned_leaf_chunks (csub s r) - 1) + of_nat (length ?subs)"
          using a True pin by simp
        show ?thesis unfolding a1 cd cd1 unat_word_ariths(1) un u32_dec[OF u pos] using small n(1) by simp
      next
        case False
        then have cd1: "pinned_leaves s r - {p} = pinned_leaves s r" by (auto simp: pinned_leaves_def)
        have a1: "sa_pinned_leaf_chunks (csub s' r) = sa_pinned_leaf_chunks (csub s r) + of_nat (length ?subs)"
          using a True False by simp
        show ?thesis unfolding a1 cd cd1 unat_word_ariths(1) un u using small n(1) by simp
      qed
    qed
  qed
  have t': "tree_ok s'" using same_shape_tree[OF sh i(1)] .
  have own: "x = q" if "y \<in> set ?subs" "y \<in> set (csubs s x)" "live s x" "chunk_suballoc (ch s x) \<noteq> None" for x y
    using csubs_facts(4)[OF i(1) that(3,4,2)] c(4)[OF that(1)] by simp
  have "states_ok s'" unfolding states_ok_def
  proof (intro allI impI)
    fix x assume "live s' x"
    then have x: "live s x" by (simp add: r')
    have used: "used_children s' x = (if x = q then length ?subs else used_children s x)" if h: "chunk_suballoc (ch s x) \<noteq> None"
    proof (cases "x = q")
      case True
      have "filter (\<lambda>y. \<not> is_free s' y) ?subs = ?subs" by (intro filter_True) (simp add: st)
      then show ?thesis using True sh'(7)[OF ql(2,3)] by (simp add: used_children_def)
    next
      case False
      have "cstate s' y = cstate s y" if "y \<in> set (csubs s x)" for y using own[OF _ that x h] False by (auto simp: st)
      then show ?thesis using False sh'(7)[OF x h] used_children_cong[of s x s'] by simp
    qed
    have sp: "is_split s' x \<longleftrightarrow> is_split s x" "cstate s' x = UVM_PMM_GPU_CHUNK_STATE_PMA_OWNED \<Longrightarrow> cstate s x = UVM_PMM_GPU_CHUNK_STATE_PMA_OWNED"
      using kids[of x] leaf_not_split[OF i(2), of x] by (auto simp: st split: if_splits)
    have o: "is_split s x = (chunk_suballoc (ch s x) \<noteq> None)" "cstate s x = UVM_PMM_GPU_CHUNK_STATE_PMA_OWNED \<longrightarrow> x < pmm_root_chunks_count s"
      "is_split s x \<longrightarrow> unat (sa_allocated (csub s x)) = used_children s x \<and> 0 < used_children s x"
      using i(2) x by (simp_all add: states_ok_def)
    have "unat (sa_allocated (csub s' x)) = used_children s' x \<and> 0 < used_children s' x" if h: "chunk_suballoc (ch s x) \<noteq> None"
      unfolding al[OF x h] used[OF h] using o h un c(3) by (cases "x = q") simp_all
    then show "is_split s' x = (chunk_suballoc (ch s' x) \<noteq> None) \<and>
         (cstate s' x = UVM_PMM_GPU_CHUNK_STATE_PMA_OWNED \<longrightarrow> x < pmm_root_chunks_count s') \<and>
         (is_split s' x \<longrightarrow> unat (sa_allocated (csub s' x)) = used_children s' x \<and> 0 < used_children s' x)"
      using sp o sh'(6)[OF x] r'(3) by auto
  qed
  moreover have "lists_ok s'" unfolding lists_ok_def
  proof (intro allI conjI)
    fix ty j
    have d: "distinct (pmm_free_list s ty j)" "set (pmm_free_list s ty j) \<subseteq> free_set s ty j"
      "\<And>x. x \<in> free_set s ty j \<Longrightarrow> \<not> chunk_is_in_eviction s x \<Longrightarrow> x \<in> set (pmm_free_list s ty j)"
      using i(4) by (auto simp: lists_ok_def)
    have fs: "x \<in> free_set s' ty j \<longleftrightarrow> x \<in> free_set s ty j \<and> x \<notin> set ?subs" for x
      using sh'[of x] by (auto simp: free_set_def r' st)
    show "distinct (pmm_free_list s' ty j)" "set (pmm_free_list s' ty j) \<subseteq> free_set s' ty j" unfolding fl using d fs by auto
    show "\<forall>x \<in> free_set s' ty j. \<not> chunk_is_in_eviction s' x \<longrightarrow> x \<in> set (pmm_free_list s' ty j)"
    proof (intro ballI impI)
      fix x assume x: "x \<in> free_set s' ty j" "\<not> chunk_is_in_eviction s' x"
      then have l: "live s x" by (simp add: free_set_def r')
      have "\<not> chunk_is_in_eviction s x"
        using x(2) sev root_is_live[OF i(1) l] sh'(9)[OF l] by (simp add: chunk_is_in_eviction_def same_eviction_def)
      then show "x \<in> set (pmm_free_list s' ty j)" unfolding fl using x(1) d(3) fs by auto
    qed
  qed
  ultimately have "pmm_inv s'" using t' pins by (simp add: pmm_inv_def)
  then show ?thesis using that[OF e prep] by blast
qed

section \<open>Merging\<close>

definition merge_effect :: "uvm_pmm_gpu \<Rightarrow> chunk_ptr \<Rightarrow> uvm_pmm_gpu_chunk_state \<Rightarrow> uvm_pmm_gpu \<Rightarrow> bool" where
  "merge_effect s q st s' \<longleftrightarrow>
     (pmm_calls s' = pmm_calls s \<and> pmm_chunk_sizes s' = pmm_chunk_sizes s \<and> pmm_root_chunks_count s' = pmm_root_chunks_count s \<and>
      pmm_free_list s' = pmm_free_list s) \<and>
     ((\<forall>x. live s' x \<longleftrightarrow> live s x \<and> x \<notin> set (csubs s q)) \<and>
      (\<forall>x. live s' x \<longrightarrow> caddr s' x = caddr s x \<and> cparent s' x = cparent s x \<and> ctype s' x = ctype s x \<and> csize s' x = csize s x \<and>
         uvm_gpu_chunk_is_in_eviction (ch s' x) = uvm_gpu_chunk_is_in_eviction (ch s x)) \<and>
      (\<forall>x. live s' x \<longrightarrow> x \<noteq> q \<longrightarrow> cstate s' x = cstate s x \<and> (chunk_suballoc (ch s' x) = None) = (chunk_suballoc (ch s x) = None) \<and>
         (chunk_suballoc (ch s x) \<noteq> None \<longrightarrow> csubs s' x = csubs s x \<and> sa_allocated (csub s' x) = sa_allocated (csub s x)))) \<and>
     (cstate s' q = st \<and> chunk_suballoc (ch s' q) = None \<and>
      (\<forall>r < pmm_root_chunks_count s. chunk_suballoc (ch s' r) \<noteq> None \<longrightarrow> sa_pinned_leaf_chunks (csub s' r) =
         sa_pinned_leaf_chunks (csub s r) +
         (if st = UVM_PMM_GPU_CHUNK_STATE_TEMP_PINNED \<and> root_chunk_from_chunk s q = r then 1 - of_nat (length (csubs s q)) else 0)))"

lemma merge_effect_facts:
  assumes "merge_effect s q st s'"
  shows "pmm_calls s' = pmm_calls s" "pmm_chunk_sizes s' = pmm_chunk_sizes s" "pmm_root_chunks_count s' = pmm_root_chunks_count s"
    "pmm_free_list s' = pmm_free_list s"
    "live s' x \<longleftrightarrow> live s x \<and> x \<notin> set (csubs s q)"
    "live s' x \<Longrightarrow> caddr s' x = caddr s x \<and> cparent s' x = cparent s x \<and> ctype s' x = ctype s x \<and> csize s' x = csize s x \<and>
       uvm_gpu_chunk_is_in_eviction (ch s' x) = uvm_gpu_chunk_is_in_eviction (ch s x)"
    "live s' x \<Longrightarrow> x \<noteq> q \<Longrightarrow> cstate s' x = cstate s x \<and> (chunk_suballoc (ch s' x) = None) = (chunk_suballoc (ch s x) = None) \<and>
       (chunk_suballoc (ch s x) \<noteq> None \<longrightarrow> csubs s' x = csubs s x \<and> sa_allocated (csub s' x) = sa_allocated (csub s x))"
    "cstate s' q = st" "chunk_suballoc (ch s' q) = None"
    "r < pmm_root_chunks_count s \<Longrightarrow> chunk_suballoc (ch s' r) \<noteq> None \<Longrightarrow> sa_pinned_leaf_chunks (csub s' r) =
         sa_pinned_leaf_chunks (csub s r) +
         (if st = UVM_PMM_GPU_CHUNK_STATE_TEMP_PINNED \<and> root_chunk_from_chunk s q = r then 1 - of_nat (length (csubs s q)) else 0)"
  subgoal using assms[unfolded merge_effect_def, THEN conjunct1] by blast
  subgoal using assms[unfolded merge_effect_def, THEN conjunct1] by blast
  subgoal using assms[unfolded merge_effect_def, THEN conjunct1] by blast
  subgoal using assms[unfolded merge_effect_def, THEN conjunct1] by blast
  subgoal using assms[unfolded merge_effect_def, THEN conjunct2, THEN conjunct1] by blast
  subgoal using assms[unfolded merge_effect_def, THEN conjunct2, THEN conjunct1] by blast
  subgoal using assms[unfolded merge_effect_def, THEN conjunct2, THEN conjunct1] by blast
  subgoal using assms[unfolded merge_effect_def, THEN conjunct2, THEN conjunct2] by blast
  subgoal using assms[unfolded merge_effect_def, THEN conjunct2, THEN conjunct2] by blast
  subgoal using assms[unfolded merge_effect_def, THEN conjunct2, THEN conjunct2] by blast
  done

text \<open>What can be merged: a split chunk whose children are leaves in one state, pinned or allocated.\<close>

definition mergeable :: "uvm_pmm_gpu \<Rightarrow> chunk_ptr \<Rightarrow> uvm_pmm_gpu_chunk_state \<Rightarrow> bool" where
  "mergeable s q st \<longleftrightarrow> live s q \<and> chunk_suballoc (ch s q) \<noteq> None \<and>
     (st = UVM_PMM_GPU_CHUNK_STATE_ALLOCATED \<or> st = UVM_PMM_GPU_CHUNK_STATE_TEMP_PINNED) \<and>
     (\<forall>x \<in> set (csubs s q). is_leaf s x \<and> cstate s x = st)"

lemma not_own_child: "tree_ok s \<Longrightarrow> live s q \<Longrightarrow> chunk_suballoc (ch s q) \<noteq> None \<Longrightarrow> q \<notin> set (csubs s q)"
  using csubs_facts(4) parent_ne by blast

lemma merge_effect:
  assumes inv: "pmm_inv s" and m: "mergeable s q st"
  shows "merge_effect s q st (merge_gpu_chunk q s)"
proof -
  note i = inv_parts[OF inv]
  have q: "live s q" "chunk_suballoc (ch s q) \<noteq> None" and st: "st = UVM_PMM_GPU_CHUNK_STATE_ALLOCATED \<or> st = UVM_PMM_GPU_CHUNK_STATE_TEMP_PINNED"
    and kids: "\<And>x. x \<in> set (csubs s q) \<Longrightarrow> is_leaf s x \<and> cstate s x = st" using m by (auto simp: mergeable_def)
  note c = csubs_facts[OF i(1) q] and n = num_subchunks_eq[OF i(1) q]
  let ?r = "root_chunk_from_chunk s q" and ?subs = "csubs s q"
  have first: "cstate s (?subs ! 0) = st" using kids c(3) by simp
  have rl: "live s ?r" using root_is_live[OF i(1) q(1)] .
  have rq: "?r = q \<or> chunk_suballoc (ch s ?r) \<noteq> None" using root_of_root[OF i(1) q(1)] root_split(1)[OF i(1) q(1)] by blast
  have rs: "?r \<notin> set ?subs"
  proof
    assume "?r \<in> set ?subs"
    then have "cparent s ?r = Some q" using c(4) by blast
    then show False using root_live[OF i(1) root_of_eq(2)[OF i(1) q(1)]] by simp
  qed
  have qs: "q \<notin> set ?subs" using not_own_child[OF i(1) q] .
  define s1 where "s1 = (if st = UVM_PMM_GPU_CHUNK_STATE_ALLOCATED then upd_chunk q (\<lambda>c. c\<lparr>chunk_va_block := chunk_va_block (ch s (?subs ! 0))\<rparr>) s
      else upd_suballoc ?r (\<lambda>sa. sa\<lparr>sa_pinned_leaf_chunks := sa_pinned_leaf_chunks sa + (1 - num_subchunks s q)\<rparr>) s)"
  define s2 where "s2 = set_cstate q st s1"
  define s3 where "s3 = upd_chunk q (\<lambda>c. c\<lparr>chunk_suballoc := None\<rparr>) s2"
  have cs: "csubs s2 q = ?subs" using q(2) by (auto simp: s2_def s1_def option.map_sel)
  have e: "merge_gpu_chunk q s = fold kmem_cache_free ?subs s3"
    unfolding merge_gpu_chunk_def Let_def first using st cs n(2) by (auto simp: s3_def s2_def s1_def)
  let ?s' = "fold kmem_cache_free ?subs s3"
  have c': "ch ?s' x = (if x \<in> set ?subs then the None else ch s3 x)" for x by (simp add: free_all_rest ch_def)
  have l': "live ?s' x \<longleftrightarrow> live s3 x \<and> x \<notin> set ?subs" for x by (simp add: free_all_rest live_def)
  have l3: "live s3 x = live s x" for x using q(1) rl by (auto simp: s3_def s2_def s1_def)
  have r3: "pmm_calls ?s' = pmm_calls s" "pmm_chunk_sizes ?s' = pmm_chunk_sizes s" "pmm_root_chunks_count ?s' = pmm_root_chunks_count s"
    "pmm_free_list ?s' = pmm_free_list s"
    unfolding free_all_rest by (simp_all add: s3_def s2_def s1_def)
  show ?thesis unfolding e merge_effect_def
  proof (intro conjI allI impI)
    show "live ?s' x \<longleftrightarrow> live s x \<and> x \<notin> set ?subs" for x by (simp add: l' l3)
    show "caddr ?s' x = caddr s x" "cparent ?s' x = cparent s x" "ctype ?s' x = ctype s x" "csize ?s' x = csize s x"
      "uvm_gpu_chunk_is_in_eviction (ch ?s' x) = uvm_gpu_chunk_is_in_eviction (ch s x)" if "live ?s' x" for x
      using that unfolding l' c' by (auto simp: s3_def s2_def s1_def)
    show "cstate ?s' x = cstate s x" "(chunk_suballoc (ch ?s' x) = None) = (chunk_suballoc (ch s x) = None)" if "live ?s' x" "x \<noteq> q" for x
      using that unfolding l' c' by (auto simp: s3_def s2_def s1_def)
    show "csubs ?s' x = csubs s x" "sa_allocated (csub ?s' x) = sa_allocated (csub s x)"
      if "live ?s' x" "x \<noteq> q" "chunk_suballoc (ch s x) \<noteq> None" for x
      using that unfolding l' c' by (auto simp: s3_def s2_def s1_def option.map_sel)
    show "cstate ?s' q = st" "chunk_suballoc (ch ?s' q) = None" using qs unfolding c' by (simp_all add: s3_def s2_def)
    show "sa_pinned_leaf_chunks (csub ?s' r) = sa_pinned_leaf_chunks (csub s r) +
         (if st = UVM_PMM_GPU_CHUNK_STATE_TEMP_PINNED \<and> ?r = r then 1 - of_nat (length ?subs) else 0)"
      if "r < pmm_root_chunks_count s" "chunk_suballoc (ch ?s' r) \<noteq> None" for r
    proof -
      have rn: "r \<notin> set ?subs" using root_live[OF i(1) that(1)] c(4)[of r] by auto
      have rq': "r \<noteq> q" using that(2) qs unfolding c' by (auto simp: s3_def)
      show ?thesis unfolding c' if_not_P[OF rn] using rq' rq st n(1) by (auto simp: s3_def s2_def s1_def option.map_sel)
    qed
  qed (simp_all add: r3)
qed

lemma merge_tree:
  assumes inv: "pmm_inv s" and m: "mergeable s q st" and ef: "merge_effect s q st s'"
  shows "tree_ok s'"
proof -
  note i = inv_parts[OF inv] and f = merge_effect_facts[OF ef]
  have q: "live s q" "chunk_suballoc (ch s q) \<noteq> None" and kids: "\<And>x. x \<in> set (csubs s q) \<Longrightarrow> is_leaf s x"
    using m by (auto simp: mergeable_def)
  have old: "caddr s' x = caddr s x" "cparent s' x = cparent s x" "ctype s' x = ctype s x" "csize s' x = csize s x"
    "mask_of s' x = mask_of s x" "cexp s' x = cexp s x" if "live s' x" for x
  proof -
    show a: "caddr s' x = caddr s x" "cparent s' x = cparent s x" "ctype s' x = ctype s x" "csize s' x = csize s x"
      using f(6)[OF that] by blast+
    show "mask_of s' x = mask_of s x" "cexp s' x = cexp s x" unfolding mask_of_def cexp_def a f(2) by simp_all
  qed
  have "chunk_ok s' x" if l': "live s' x" for x
  proof -
    have l: "live s x" "x \<notin> set (csubs s q)" using l' f(5) by blast+
    note c = tree_chunk[OF i(1) l(1)]
    have par: "live s' y \<and> chunk_suballoc (ch s' y) \<noteq> None \<and> x \<in> set (csubs s' y)" if h: "cparent s x = Some y" for y
    proof -
      have y: "live s y" "chunk_suballoc (ch s y) \<noteq> None" "x \<in> set (csubs s y)" using c h by (auto simp: chunk_ok_def)
      have "y \<noteq> q" using y(3) l(2) by blast
      moreover have "live s' y" using y kids f(5) by (auto simp: is_leaf_def)
      ultimately show ?thesis using f(7)[of y] y by auto
    qed
    have "split_ok s' x" if h: "chunk_suballoc (ch s' x) \<noteq> None"
    proof -
      have xq: "x \<noteq> q" using h f(9) by auto
      have sx: "chunk_suballoc (ch s x) \<noteq> None" using f(7)[OF l' xq] h by blast
      have cs: "csubs s' x = csubs s x" using f(7)[OF l' xq] sx by blast
      have so: "split_ok s x" using c sx by (simp add: chunk_ok_def)
      have "child_ok s' x k" if k: "k < length (csubs s x)" for k
      proof -
        have co: "child_ok s x k" using so k by (simp add: split_ok_def)
        have y: "live s (csubs s x ! k)" "cparent s (csubs s x ! k) = Some x" using co by (simp_all add: child_ok_def Let_def)
        then have "csubs s x ! k \<notin> set (csubs s q)" using csubs_facts(4)[OF i(1) q] xq by auto
        then have ly: "live s' (csubs s x ! k)" using y(1) f(5) by blast
        show ?thesis using co old[OF l'] old[OF ly] ly cs by (simp add: child_ok_def Let_def)
      qed
      then show ?thesis using so old[OF l'] cs by (simp add: split_ok_def)
    qed
    then show ?thesis using c par unfolding chunk_ok_def old[OF l'] f(3) by blast
  qed
  moreover have "live s' x" if "x < pmm_root_chunks_count s" for x
    using root_live[OF i(1) that] csubs_facts(4)[OF i(1) q, of x] f(5)[of x] by auto
  ultimately show ?thesis using i(1) f(5) unfolding tree_ok_def f(1,2,3) by blast
qed

lemma merge_inv:
  assumes inv: "pmm_inv s" and m: "mergeable s q st" and ef: "merge_effect s q st s'"
  shows "pmm_inv s'"
proof -
  note i = inv_parts[OF inv] and f = merge_effect_facts[OF ef]
  note t' = merge_tree[OF inv m ef]
  have q: "live s q" "chunk_suballoc (ch s q) \<noteq> None" and st: "st = UVM_PMM_GPU_CHUNK_STATE_ALLOCATED \<or> st = UVM_PMM_GPU_CHUNK_STATE_TEMP_PINNED"
    and kids: "\<And>x. x \<in> set (csubs s q) \<Longrightarrow> is_leaf s x \<and> cstate s x = st" using m by (auto simp: mergeable_def)
  note c = csubs_facts[OF i(1) q]
  have lq: "live s' q" using f(5) q(1) not_own_child[OF i(1) q] by blast
  have sq: "is_split s q" using i(2) q by (auto simp: states_ok_def)
  have nf: "is_free s' x = is_free s x" if "live s' x" for x using f(7)[OF that] f(8) st sq by (cases "x = q") auto
  have root: "root_chunk_from_chunk s' x = root_chunk_from_chunk s x" if "live s' x" for x using f(6)[OF that] by (intro root_of_eqI) simp
  have "states_ok s'" unfolding states_ok_def
  proof (intro allI impI)
    fix x assume x: "live s' x"
    show "is_split s' x = (chunk_suballoc (ch s' x) \<noteq> None) \<and>
         (cstate s' x = UVM_PMM_GPU_CHUNK_STATE_PMA_OWNED \<longrightarrow> x < pmm_root_chunks_count s') \<and>
         (is_split s' x \<longrightarrow> unat (sa_allocated (csub s' x)) = used_children s' x \<and> 0 < used_children s' x)"
    proof (cases "x = q")
      case True
      then show ?thesis using f(8,9) st by auto
    next
      case False
      have l: "live s x" using x f(5) by blast
      have used: "used_children s' x = used_children s x" if h: "chunk_suballoc (ch s x) \<noteq> None"
      proof -
        have cs: "csubs s' x = csubs s x" using f(7)[OF x False] h by blast
        have "is_free s' y = is_free s y" if "y \<in> set (csubs s x)" for y
        proof (rule nf)
          have y: "live s y" "cparent s y = Some x" using csubs_facts(4)[OF i(1) l h that] by simp_all
          then show "live s' y" using f(5) csubs_facts(4)[OF i(1) q, of y] False by auto
        qed
        then have "filter (\<lambda>y. \<not> is_free s' y) (csubs s x) = filter (\<lambda>y. \<not> is_free s y) (csubs s x)" by (intro filter_cong) simp_all
        then show ?thesis by (simp add: used_children_def cs)
      qed
      show ?thesis using i(2) l f(3) f(7)[OF x False] used unfolding states_ok_def by auto
    qed
  qed
  moreover have "pins_ok s'" unfolding pins_ok_def
  proof (intro allI impI)
    fix r assume "r < pmm_root_chunks_count s'" and rs: "chunk_suballoc (ch s' r) \<noteq> None"
    then have rl: "r < pmm_root_chunks_count s" by (simp add: f(3))
    then have rl': "live s' r" using t' f(3) by (simp add: tree_ok_def)
    have rq: "r \<noteq> q" using rs f(9) by auto
    have sr: "chunk_suballoc (ch s r) \<noteq> None" using f(7)[OF rl' rq] rs by blast
    have u: "unat (sa_pinned_leaf_chunks (csub s r)) = card (pinned_leaves s r)" using i(3) rl sr by (simp add: pins_ok_def)
    have fin: "finite (pinned_leaves s r)" and small: "card (pinned_leaves s r) \<le> 2 ^ 21" using pinned_leaves_small[OF i(1)] by blast+
    note a = f(10)[OF rl rs]
    have mem: "x \<in> pinned_leaves s' r \<longleftrightarrow> x = q \<and> st = UVM_PMM_GPU_CHUNK_STATE_TEMP_PINNED \<and> root_chunk_from_chunk s q = r \<or>
        x \<noteq> q \<and> x \<in> pinned_leaves s r \<and> x \<notin> set (csubs s q)" for x
    proof (cases "x = q")
      case True
      then show ?thesis using f(8,9) lq root[OF lq] by (auto simp: pinned_leaves_def is_leaf_def)
    next
      case False
      then show ?thesis using f(5)[of x] f(7)[of x] root[of x] by (auto simp: pinned_leaves_def is_leaf_def)
    qed
    have qn: "q \<notin> pinned_leaves s r" using sq by (simp add: pinned_leaves_def)
    show "unat (sa_pinned_leaf_chunks (csub s' r)) = card (pinned_leaves s' r)"
    proof (cases "st = UVM_PMM_GPU_CHUNK_STATE_TEMP_PINNED \<and> root_chunk_from_chunk s q = r")
      case True
      have sub: "set (csubs s q) \<subseteq> pinned_leaves s r"
      proof
        fix x assume x: "x \<in> set (csubs s q)"
        have "root_chunk_from_chunk s x = root_chunk_from_chunk s q"
          using span_root[OF i(1) q(1)] child_span[OF i(1)] c(4)[OF x] by blast
        then show "x \<in> pinned_leaves s r" using kids[OF x] True by (simp add: pinned_leaves_def)
      qed
      have e: "pinned_leaves s' r = insert q (pinned_leaves s r - set (csubs s q))"
        using True qn by (intro set_eqI) (auto simp: mem)
      have cc: "card (set (csubs s q)) = length (csubs s q)" using c(1) by (simp add: distinct_card)
      have le: "length (csubs s q) \<le> card (pinned_leaves s r)" using card_mono[OF fin sub] cc by simp
      have cd: "card (pinned_leaves s' r) = Suc (card (pinned_leaves s r) - length (csubs s q))"
        unfolding e using qn fin sub cc by (simp add: card_Diff_subset finite_subset)
      have sp: "sa_pinned_leaf_chunks (csub s' r) = (sa_pinned_leaf_chunks (csub s r) - of_nat (length (csubs s q))) + 1"
        using a True by simp
      have "unat (of_nat (length (csubs s q)) :: u32) = length (csubs s q)" using c(2) by (subst unat_of_nat) (simp add: take_bit_eq_mod)
      then have v: "unat (sa_pinned_leaf_chunks (csub s r) - of_nat (length (csubs s q))) = card (pinned_leaves s r) - length (csubs s q)"
        using le u by (subst unat_sub) (simp_all add: word_le_nat_alt)
      have lt: "card (pinned_leaves s r) - length (csubs s q) < 2 ^ 32 - 1" using small by simp
      show ?thesis unfolding sp cd u32_inc[OF v lt] by simp
    next
      case False
      have "x \<notin> pinned_leaves s r" if x: "x \<in> set (csubs s q)" for x
      proof -
        have "root_chunk_from_chunk s x = root_chunk_from_chunk s q"
          using span_root[OF i(1) q(1)] child_span[OF i(1)] c(4)[OF x] by blast
        then show ?thesis using kids[OF x] False by (auto simp: pinned_leaves_def)
      qed
      then have e: "pinned_leaves s' r = pinned_leaves s r" using False qn by (intro set_eqI) (unfold mem, metis)
      show ?thesis unfolding e a if_not_P[OF False] using u by simp
    qed
  qed
  moreover have "free_set s' ty j = free_set s ty j" for ty j
  proof (intro set_eqI)
    fix x
    show "x \<in> free_set s' ty j \<longleftrightarrow> x \<in> free_set s ty j"
    proof (cases "live s' x")
      case True
      then show ?thesis using nf[OF True] f(5)[of x] f(6)[OF True] by (simp add: free_set_def find_free_list_chunk_def find_free_list_def f(2))
    next
      case False
      then have "\<not> live s x \<or> x \<in> set (csubs s q)" using f(5) by blast
      then have "x \<notin> free_set s ty j" using kids[of x] st by (auto simp: free_set_def)
      then show ?thesis using False by (simp add: free_set_def)
    qed
  qed
  moreover have "chunk_is_in_eviction s' x = chunk_is_in_eviction s x" if "x \<in> free_set s ty j" for x ty j
  proof -
    have l: "live s x" "x \<notin> set (csubs s q)" using that kids[of x] st by (auto simp: free_set_def)
    then have l': "live s' x" using f(5) by blast
    have "live s' (root_chunk_from_chunk s x)" using root_of_eq(2)[OF i(1) l(1)] t' f(3) by (simp add: tree_ok_def)
    then show ?thesis using f(6) root[OF l'] by (simp add: chunk_is_in_eviction_def)
  qed
  then have "lists_ok s'" using i(4) calculation(3) by (simp add: lists_ok_def f(4))
  ultimately show ?thesis using t' by (simp add: pmm_inv_def)
qed

end
