(* ===== verification/Pmm_Free.thy ===== *)
theory Pmm_Free
  imports Pmm_Merge
begin

text \<open>
  What freeing a chunk does: the chunks in use are the same but for the one freed, and the invariant holds,
  so that a parent whose children are all free is merged.
\<close>

section \<open>The chunks in use\<close>

text \<open>Leaves that are pinned or allocated: what the callers hold.\<close>

definition held :: "uvm_pmm_gpu \<Rightarrow> chunk_ptr set" where
  "held s = {p. is_leaf s p \<and> (cstate s p = UVM_PMM_GPU_CHUNK_STATE_ALLOCATED \<or> is_pinned s p)}"

text \<open>What the holder of a chunk sees of it.\<close>

definition view :: "uvm_pmm_gpu \<Rightarrow> chunk_ptr \<Rightarrow> u64 \<times> uvm_chunk_size_t \<times> uvm_pmm_gpu_memory_type \<times> uvm_pmm_gpu_chunk_state" where
  "view s p = (caddr s p, csize s p, ctype s p, cstate s p)"

text \<open>From \<open>s\<close> to \<open>s'\<close> the chunks in use become \<open>H\<close>; those that were in use before are the same, and so are root chunks.\<close>

definition changes_to :: "uvm_pmm_gpu \<Rightarrow> uvm_pmm_gpu \<Rightarrow> chunk_ptr set \<Rightarrow> bool" where
  "changes_to s s' H \<longleftrightarrow> held s' = H \<and> (\<forall>x \<in> H \<inter> held s. view s' x = view s x) \<and>
     pmm_chunk_sizes s' = pmm_chunk_sizes s \<and> pmm_root_chunks_count s' = pmm_root_chunks_count s \<and>
     (\<forall>r < pmm_root_chunks_count s. uvm_gpu_chunk_is_in_eviction (ch s' r) = uvm_gpu_chunk_is_in_eviction (ch s r))"

lemma changes_to_trans:
  assumes "changes_to s s1 H1" "changes_to s1 s2 H2" "H2 \<inter> held s \<subseteq> H1"
  shows "changes_to s s2 H2"
  unfolding changes_to_def
proof (intro conjI ballI)
  fix x assume x: "x \<in> H2 \<inter> held s"
  then have "x \<in> H1" using assms(3) by blast
  then have "view s1 x = view s x" "view s2 x = view s1 x" using assms(1,2) x by (auto simp: changes_to_def)
  then show "view s2 x = view s x" by simp
qed (use assms in \<open>auto simp: changes_to_def\<close>)

lemma same_shape_changes:
  assumes t: "tree_ok s" and sh: "same_shape s s'" and ev: "same_eviction s s'" and st: "\<And>x. live s x \<Longrightarrow> x \<noteq> p \<Longrightarrow> cstate s' x = cstate s x"
    and p: "is_leaf s p"
    and H: "H = held s - {p} \<union> (if cstate s' p = UVM_PMM_GPU_CHUNK_STATE_ALLOCATED \<or> is_pinned s' p then {p} else {})"
    and same: "p \<in> H \<Longrightarrow> p \<in> held s \<Longrightarrow> cstate s' p = cstate s p"
  shows "changes_to s s' H"
proof -
  note f = same_shape_facts[OF sh] and r = same_shape_rest[OF sh]
  have leaf: "is_leaf s' x \<longleftrightarrow> is_leaf s x" for x using f(6) by (auto simp: is_leaf_def r)
  have "x \<in> held s' \<longleftrightarrow> x \<in> H" for x
    using leaf[of x] st[of x] p unfolding H by (cases "x = p") (auto simp: held_def is_leaf_def)
  moreover have "view s' x = view s x" if "x \<in> H" "x \<in> held s" for x
    using f[of x] st[of x] that same by (cases "x = p") (auto simp: view_def held_def is_leaf_def)
  moreover have "uvm_gpu_chunk_is_in_eviction (ch s' r) = uvm_gpu_chunk_is_in_eviction (ch s r)" if "r < pmm_root_chunks_count s" for r
    using t that ev by (simp add: tree_ok_def same_eviction_def)
  ultimately show ?thesis using r by (auto simp: changes_to_def)
qed

lemma held_leaf: "p \<in> held s \<Longrightarrow> is_leaf s p \<and> (cstate s p = UVM_PMM_GPU_CHUNK_STATE_ALLOCATED \<or> is_pinned s p)"
  by (simp add: held_def)

lemma free_locked_changes:
  assumes inv: "pmm_inv s" and p: "p \<in> held s" and ev: "\<not> chunk_is_in_eviction s p" and nl: "\<not> chunk_is_last_allocated_child s p"
  shows "pmm_inv (chunk_free_locked p s)" "changes_to s (chunk_free_locked p s) (held s - {p})"
proof -
  note h = held_leaf[OF p]
  show "pmm_inv (chunk_free_locked p s)" using free_locked_inv[OF inv _ _ ev nl] h by blast
  have fr: "same_shape s (chunk_free_locked p s)" "is_free (chunk_free_locked p s) p"
    "\<And>q. q \<noteq> p \<Longrightarrow> cstate (chunk_free_locked p s) q = cstate s q" "same_eviction s (chunk_free_locked p s)"
    using free_locked_frame(1-4)[OF inv _ _ ev] h by blast+
  show "changes_to s (chunk_free_locked p s) (held s - {p})"
    by (rule same_shape_changes[OF inv_parts(1)[OF inv] fr(1,4) fr(3), of p]) (use h fr(2) in auto)
qed

section \<open>Merging on the way up\<close>

lemma in_eviction_eq:
  assumes "pmm_inv s" "live s x" "live s' x" "caddr s' x = caddr s x"
    "\<And>r. r < pmm_root_chunks_count s \<Longrightarrow> uvm_gpu_chunk_is_in_eviction (ch s' r) = uvm_gpu_chunk_is_in_eviction (ch s r)"
  shows "chunk_is_in_eviction s' x = chunk_is_in_eviction s x"
  using assms(5) root_of_eq(2)[OF inv_parts(1)[OF assms(1)] assms(2)] root_of_eqI[of s' x s, OF assms(4)] by (simp add: chunk_is_in_eviction_def)

lemma merge_last_child:
  assumes inv: "pmm_inv s" and p: "p \<in> held s" and ev: "\<not> chunk_is_in_eviction s p" and q: "cparent s p = Some q"
    and last: "sa_allocated (csub s q) = 1"
  obtains s1 where "free_or_prepare_for_merge p s = (Some q, s1)" "pmm_inv s1" "pmm_inv (merge_gpu_chunk q s1)"
    "changes_to s (merge_gpu_chunk q s1) (held s - {p} \<union> {q})" "q \<notin> held s" "\<not> chunk_is_in_eviction (merge_gpu_chunk q s1) q"
    "cexp (merge_gpu_chunk q s1) q > cexp s p"
proof -
  note i = inv_parts[OF inv] and h = held_leaf[OF p]
  have l: "live s p" using h by (simp add: is_leaf_def)
  have ql: "live s q" "chunk_suballoc (ch s q) \<noteq> None" "q \<noteq> p" using parent_ne[OF i(1) l q] by simp_all
  have nf: "\<not> is_free s p" using h by auto
  have kids: "is_leaf s x \<and> (x = p \<or> is_free s x)" if "x \<in> set (csubs s q)" for x
    using last_child_facts[OF inv _ nf q last that] h by blast
  obtain s1 where s1: "free_or_prepare_for_merge p s = (Some q, s1)" "prepared s q s1" "pmm_inv s1"
    using prepare_step[OF inv _ _ ev q last] h by blast
  have pr: "same_shape s s1" "same_eviction s s1"
    "\<And>x. cstate s1 x = (if x \<in> set (csubs s q) then UVM_PMM_GPU_CHUNK_STATE_TEMP_PINNED else cstate s x)"
    using s1(2) by (auto simp: prepared_def)
  note f = same_shape_facts[OF pr(1)] and r = same_shape_rest[OF pr(1)]
  have subs: "csubs s1 q = csubs s q" using f(7)[OF ql(1,2)] .
  have leaf1: "is_leaf s1 x \<longleftrightarrow> is_leaf s x" for x using f(6) by (auto simp: is_leaf_def r)
  have m: "mergeable s1 q UVM_PMM_GPU_CHUNK_STATE_TEMP_PINNED"
    using ql f(6)[OF ql(1)] kids by (auto simp: mergeable_def r(1) subs pr(3) leaf1)
  let ?s2 = "merge_gpu_chunk q s1"
  note ef = merge_effect[OF s1(3) m]
  note g = merge_effect_facts[OF ef]
  have inv2: "pmm_inv ?s2" using merge_inv[OF s1(3) m ef] .
  have qn: "q \<notin> set (csubs s q)" using not_own_child[OF i(1) ql(1,2)] .
  have lq2: "live ?s2 q" using g(5) ql(1) r(1) qn subs by simp
  have qh: "q \<notin> held s" using ql(2) by (simp add: held_def is_leaf_def)
  have pq: "p \<in> set (csubs s q)" using tree_chunk[OF i(1) l] q by (auto simp: chunk_ok_def)
  have H: "x \<in> held ?s2 \<longleftrightarrow> x \<in> held s - {p} \<union> {q}" for x
  proof (cases "x = q")
    case True
    then show ?thesis using g(8,9) lq2 by (simp add: held_def is_leaf_def)
  next
    case False
    show ?thesis
    proof (cases "x \<in> set (csubs s q)")
      case True
      then have "x \<notin> held ?s2" using g(5)[of x] subs by (auto simp: held_def is_leaf_def)
      moreover have "x \<notin> held s - {p}" using kids[OF True] by (auto simp: held_def)
      ultimately show ?thesis using False by blast
    next
      case nk: False
      then have "live ?s2 x \<longleftrightarrow> live s x" using g(5)[of x] r(1) subs by simp
      then show ?thesis using nk False pq g(7)[of x] f(6)[of x] pr(3)[of x] by (auto simp: held_def is_leaf_def)
    qed
  qed
  have root2: "live ?s2 r'" "r' \<notin> set (csubs s q)" if "r' < pmm_root_chunks_count s" for r'
    using inv_parts(1)[OF inv2] that g(3) r(3) g(5)[of r'] subs by (simp_all add: tree_ok_def)
  have ev2: "uvm_gpu_chunk_is_in_eviction (ch ?s2 r') = uvm_gpu_chunk_is_in_eviction (ch s r')" if "r' < pmm_root_chunks_count s" for r'
    using g(6)[OF root2(1)[OF that]] pr(2) root_live[OF i(1) that] i(1) that by (simp add: same_eviction_def tree_ok_def)
  have "changes_to s ?s2 (held s - {p} \<union> {q})" unfolding changes_to_def
  proof (intro conjI ballI allI impI)
    show "held ?s2 = held s - {p} \<union> {q}" using H by blast
    show "view ?s2 x = view s x" if "x \<in> (held s - {p} \<union> {q}) \<inter> held s" for x
    proof -
      have x: "x \<noteq> q" "x \<in> held s" "x \<noteq> p" using that qh by auto
      then have l: "live s x" "live ?s2 x" using H[of x] by (auto simp: held_def is_leaf_def)
      have "x \<notin> set (csubs s q)" using l(2) g(5)[of x] subs by simp
      then show ?thesis using g(6)[OF l(2)] g(7)[OF l(2) x(1)] f[OF l(1)] pr(3)[of x] by (simp add: view_def)
    qed
  qed (simp_all add: g(2,3) r ev2)
  moreover have "\<not> chunk_is_in_eviction ?s2 q"
  proof -
    have "root_chunk_from_chunk s p = root_chunk_from_chunk s q" using span_root[OF i(1) ql(1) l] child_span[OF i(1) l q] by blast
    then have "\<not> chunk_is_in_eviction s q" using ev by (simp add: chunk_is_in_eviction_def)
    moreover have "caddr ?s2 q = caddr s q" using g(6)[OF lq2] f(1)[OF ql(1)] by simp
    ultimately show ?thesis using in_eviction_eq[OF inv ql(1) lq2 _ ev2] by simp
  qed
  moreover have "cexp ?s2 q > cexp s p"
  proof -
    have "cexp s p < cexp s q" by (rule parent_facts[OF i(1) l q])
    moreover have "cexp ?s2 q = cexp s q" using g(6)[OF lq2] f(4)[OF ql(1)] by (simp add: cexp_def)
    ultimately show ?thesis by simp
  qed
  ultimately show ?thesis using that[OF s1(1,3) inv2 _ qh] by blast
qed

text \<open>The loop ends, and frees exactly the chunk.\<close>

lemma free_with_merges:
  assumes "pmm_inv s" "p \<in> held s" "\<not> chunk_is_in_eviction s p" "22 - cexp s p \<le> fuel" "0 < fuel"
  shows "\<exists>s'. free_chunk_with_merges fuel p s = Some s' \<and> pmm_inv s' \<and> changes_to s s' (held s - {p})"
  using assms
proof (induction fuel arbitrary: p s)
  case (Suc fuel)
  note inv = Suc.prems(1) and p = Suc.prems(2) and ev = Suc.prems(3)
  note i = inv_parts[OF inv] and h = held_leaf[OF p]
  have l: "live s p" using h by (simp add: is_leaf_def)
  show ?case
  proof (cases "chunk_is_last_allocated_child s p")
    case False
    then have "free_or_prepare_for_merge p s = (None, chunk_free_locked p s)"
      by (simp add: free_or_prepare_for_merge_def try_chunk_free_def Let_def split: option.split)
    then show ?thesis using free_locked_changes[OF inv p ev False] by simp
  next
    case True
    then obtain q where q: "cparent s p = Some q" "sa_allocated (csub s q) = 1" by (auto simp: last_child_iff)
    obtain s1 where s1: "free_or_prepare_for_merge p s = (Some q, s1)" "pmm_inv s1" "pmm_inv (merge_gpu_chunk q s1)"
      "changes_to s (merge_gpu_chunk q s1) (held s - {p} \<union> {q})" "q \<notin> held s" "\<not> chunk_is_in_eviction (merge_gpu_chunk q s1) q"
      "cexp (merge_gpu_chunk q s1) q > cexp s p"
      using merge_last_child[OF inv p ev q] by blast
    let ?s2 = "merge_gpu_chunk q s1"
    have H2: "held ?s2 = held s - {p} \<union> {q}" using s1(4) by (simp add: changes_to_def)
    have lq: "live ?s2 q" using H2 by (auto simp: held_def is_leaf_def)
    have "cexp ?s2 q \<le> 21" using exp_le[OF inv_parts(1)[OF s1(3)] lq] by simp
    then have "22 - cexp ?s2 q \<le> fuel" "0 < fuel" using Suc.prems(4) s1(7) by linarith+
    from Suc.IH[OF s1(3) _ s1(6) this] H2 obtain s' where s': "free_chunk_with_merges fuel q ?s2 = Some s'" "pmm_inv s'"
      "changes_to ?s2 s' (held ?s2 - {q})" by auto
    have e: "held ?s2 - {q} = held s - {p}" using H2 s1(5) by blast
    have "changes_to s s' (held s - {p})" using changes_to_trans[OF s1(4) s'(3)] e by auto
    then show ?thesis using s1(1) s' by simp
  qed
qed simp

section \<open>Free lists by size\<close>

lemma find_free_list_eq:
  assumes "k < 22"
  shows "find_free_list s ty (2 ^ k) = length (filter (bit (pmm_chunk_sizes s ty)) [0..<k])"
proof -
  let ?m = "pmm_chunk_sizes s ty"
  have up: "[0..<32] = [0..<k] @ [k..<32]" using assms upt_add_eq_append[of 0 k "32 - k"] by simp
  have b: "bit (?m AND (2 ^ k - 1)) n \<longleftrightarrow> bit ?m n \<and> n < k" for n using low_bits[of k ?m n] assms by simp
  have "filter (bit (?m AND (2 ^ k - 1))) [k..<32] = []" unfolding filter_empty_conv b by simp
  moreover have "filter (bit (?m AND (2 ^ k - 1))) [0..<k] = filter (bit ?m) [0..<k]" by (rule filter_cong) (simp_all add: b)
  ultimately show ?thesis unfolding find_free_list_def hweight_long_def up filter_append by simp
qed

lemma filter_upt_less: "j < k \<Longrightarrow> P j \<Longrightarrow> length (filter P [0..<j]) < length (filter P [0..<k])"
proof -
  assume jk: "j < k" and P: "P j"
  then have "[0..<k] = [0..<j] @ j # [Suc j..<k]" using upt_add_eq_append[of 0 j "k - j"] by (simp add: upt_rec[of j k])
  then show ?thesis using P by simp
qed

text \<open>A free list holds chunks of one size.\<close>

lemma free_list_size:
  assumes t: "tree_ok s" and l: "live s p" "ctype s p = ty" "find_free_list_chunk s p = find_free_list s ty (2 ^ k)"
    and k: "k \<le> 21" "bit (pmm_chunk_sizes s ty) k"
  shows "csize s p = 2 ^ k"
proof -
  note e = exp_le[OF t l(1)]
  have m: "bit (pmm_chunk_sizes s ty) (cexp s p)" "cexp s p < 22" using e l(2) by (simp_all add: mask_of_def)
  have "find_free_list s ty (csize s p) = find_free_list s ty (2 ^ k)" using l(2,3) by (simp add: find_free_list_chunk_def)
  then have eq: "length (filter (bit (pmm_chunk_sizes s ty)) [0..<cexp s p]) = length (filter (bit (pmm_chunk_sizes s ty)) [0..<k])"
    unfolding csize_eq(1) using m(2) k(1) by (simp add: find_free_list_eq)
  have "\<not> cexp s p < k" using filter_upt_less[of "cexp s p" k "bit (pmm_chunk_sizes s ty)"] m(1) eq by auto
  moreover have "\<not> k < cexp s p" using filter_upt_less[of k "cexp s p" "bit (pmm_chunk_sizes s ty)"] k(2) eq by auto
  ultimately show ?thesis unfolding csize_eq(1) by simp
qed

section \<open>Giving root chunks back\<close>

lemma root_pma_step:
  fixes ts :: "nat \<Rightarrow> uvm_tracker"
  assumes inv: "pmm_inv s" and p: "is_leaf s p" "is_free s p" "cparent s p = None"
  defines "s1 \<equiv> chunk_pin p (list_del_init p s)"
  defines "s' \<equiv> chunk_unpin p UVM_PMM_GPU_CHUNK_STATE_PMA_OWNED (s1\<lparr>pmm_trackers := ts\<rparr>)"
  shows "pmm_inv s'" "changes_to s s' (held s)"
proof -
  note i = inv_parts[OF inv] and pl = leaf_place(1)[OF inv p(1,3)]
  have l: "live s p" "chunk_suballoc (ch s p) = None" using p by (simp_all add: is_leaf_def)
  have c: "ch s' x = (if x = p then uvm_gpu_chunk_set_state (uvm_gpu_chunk_set_state (ch s p) UVM_PMM_GPU_CHUNK_STATE_TEMP_PINNED) UVM_PMM_GPU_CHUNK_STATE_PMA_OWNED else ch s x)" for x
    using pl by (auto simp: s'_def s1_def chunk_pin_def chunk_unpin_def Let_def chunk_is_root_chunk_def root_chunk_from_chunk_def)
  have lv: "live s' x = live s x" for x
    using pl l(1) by (auto simp: s'_def s1_def chunk_pin_def chunk_unpin_def Let_def chunk_is_root_chunk_def root_chunk_from_chunk_def)
  have r: "pmm_chunk_sizes s' = pmm_chunk_sizes s" "pmm_root_chunks_count s' = pmm_root_chunks_count s" "pmm_calls s' = pmm_calls s"
    "pmm_free_list s' ty j = removeAll p (pmm_free_list s ty j)" for ty j
    by (simp_all add: s'_def s1_def chunk_pin_def chunk_unpin_def Let_def)
  have sh: "same_shape s s'" using r(1-3) lv by (auto simp: same_shape_def shape_def c)
  have ev: "same_eviction s s'" by (simp add: same_eviction_def c)
  have pr: "p < pmm_root_chunks_count s" using root_facts(1)[OF i(1) l(1) p(3)] .
  show "pmm_inv s'"
    by (rule leaf_step[OF inv p(1) sh ev]) (use p l pr in \<open>auto simp: c r free_entry_def alloc_delta_def\<close>)
  show "changes_to s s' (held s)"
    by (rule same_shape_changes[OF i(1) sh ev _ p(1)]) (use p in \<open>auto simp: c held_def\<close>)
qed

text \<open>The waits for the work of a root chunk end.\<close>

definition waits_end :: "pmm_waits \<Rightarrow> uvm_pmm_gpu \<Rightarrow> bool" where
  "waits_end w s \<longleftrightarrow> (\<forall>r < pmm_root_chunks_count s. uvm_tracker_wait_deinit (pw_env w) (pw_fuel w) (pmm_trackers s r) \<noteq> None)"

lemma inv_pma_freed: "pmm_inv s \<Longrightarrow> pmm_inv (s\<lparr>pmm_pma_freed := x\<rparr>)"
  by (erule quiet_step) (simp_all add: same_shape_eqI same_eviction_def)

lemma changes_pma_freed: "changes_to s (s'\<lparr>pmm_pma_freed := x\<rparr>) H = changes_to s s' H"
  by (simp add: changes_to_def held_def is_leaf_def view_def)

lemma first_root_facts:
  assumes inv: "pmm_inv s" and p: "list_first_chunk (pmm_free_list s ty (find_free_list s ty UVM_CHUNK_SIZE_MAX)) = Some p"
  shows "is_leaf s p" "is_free s p" "cparent s p = None"
proof -
  note i = inv_parts[OF inv]
  have "p \<in> set (pmm_free_list s ty (find_free_list s ty UVM_CHUNK_SIZE_MAX))"
    using p by (auto simp: list_first_chunk_def split: list.splits)
  then have f: "live s p" "is_free s p" "ctype s p = ty" "find_free_list_chunk s p = find_free_list s ty (2 ^ 21)"
    using i(4) by (auto simp: lists_ok_def free_set_def size_consts)
  then show "is_leaf s p" "is_free s p" using i(2) by (auto simp: states_ok_def is_leaf_def)
  have "bit (pmm_chunk_sizes s ty) 21" using i(1) by (simp add: tree_ok_def mask_ok_def)
  then have "csize s p = UVM_CHUNK_SIZE_MAX" using free_list_size[OF i(1) f(1,3,4)] by (simp add: size_consts)
  then show "cparent s p = None" using is_root_iff[OF i(1) f(1)] by (simp add: chunk_is_root_chunk_def)
qed

lemma free_next_available:
  assumes inv: "pmm_inv s" and w: "waits_end w s"
  shows "\<exists>s'. free_next_available_root_chunk w s = Some s' \<and> pmm_inv s' \<and> changes_to s s' (held s)"
proof -
  let ?first = "\<lambda>ty. list_first_chunk (pmm_free_list s ty (find_free_list s ty UVM_CHUNK_SIZE_MAX))"
  let ?c = "case ?first UVM_PMM_GPU_MEMORY_TYPE_USER of None \<Rightarrow> ?first UVM_PMM_GPU_MEMORY_TYPE_KERNEL | Some p \<Rightarrow> Some p"
  show ?thesis
  proof (cases ?c)
    case None
    then show ?thesis using inv by (simp add: free_next_available_root_chunk_def Let_def changes_to_def)
  next
    case (Some p)
    then obtain ty where "?first ty = Some p" by (auto split: option.splits)
    note p = first_root_facts[OF inv this]
    have l: "live s p" using p(1) by (simp add: is_leaf_def)
    let ?s1 = "chunk_pin p (list_del_init p s)"
    have pl: "chunk_is_root_chunk s p" "root_chunk_from_chunk s p = p" using leaf_place(1)[OF inv p(1,3)] by blast+
    have r: "root_chunk_from_chunk ?s1 p = p" "pmm_trackers ?s1 = pmm_trackers s"
      using pl by (simp_all add: chunk_pin_def Let_def)
    have pr: "p < pmm_root_chunks_count s" using root_facts(1)[OF inv_parts(1)[OF inv] l p(3)] .
    obtain status tracker where t: "uvm_tracker_wait_deinit (pw_env w) (pw_fuel w) (pmm_trackers s p) = Some (status, tracker)"
      using w pr unfolding waits_end_def by (metis not_None_eq surj_pair)
    let ?s' = "chunk_unpin p UVM_PMM_GPU_CHUNK_STATE_PMA_OWNED (?s1\<lparr>pmm_trackers := (pmm_trackers ?s1)(p := tracker)\<rparr>)"
    have e: "free_next_available_root_chunk w s =
        Some (?s'\<lparr>pmm_pma_freed := pmm_pma_freed ?s' @ [(caddr ?s' p, 1, UVM_CHUNK_SIZE_MAX, False)]\<rparr>)"
      unfolding free_next_available_root_chunk_def Let_def Some option.case r(1) free_root_chunk_def r(2) t by simp
    show ?thesis unfolding e using root_pma_step[OF inv p] inv_pma_freed changes_pma_freed by blast
  qed
qed

section \<open>Freeing a chunk\<close>

lemma trackers_free_locked [simp]: "pmm_trackers (chunk_free_locked p s) = pmm_trackers s"
  by (simp add: chunk_free_locked_def chunk_pin_def chunk_unpin_def Let_def split: option.split)

lemma trackers_pin_subchunks: "pmm_trackers (pin_subchunks ps s) = pmm_trackers s"
  by simp

lemma trackers_merge: "pmm_trackers (merge_gpu_chunk q s) = pmm_trackers s"
  by (simp add: merge_gpu_chunk_def Let_def free_all_rest)

lemma trackers_free_with_merges: "free_chunk_with_merges fuel p s = Some s' \<Longrightarrow> pmm_trackers s' = pmm_trackers s"
proof (induction fuel arbitrary: p s)
  case (Suc fuel)
  obtain c s1 where e: "free_or_prepare_for_merge p s = (c, s1)" by (metis surj_pair)
  have t: "pmm_trackers s1 = pmm_trackers s"
    using e by (auto simp: free_or_prepare_for_merge_def try_chunk_free_def Let_def split: option.splits if_splits)
  show ?case using Suc.prems Suc.IH t e trackers_merge by (cases c) auto
qed simp

lemma clear_inject:
  assumes inv: "pmm_inv s" and p: "live s p"
  defines "s1 \<equiv> upd_chunk p uvm_gpu_chunk_clear_inject_split_error s"
  shows "pmm_inv s1" "changes_to s s1 (held s)" "chunk_is_in_eviction s1 p = chunk_is_in_eviction s p" "cexp s1 p = cexp s p"
proof -
  have sh: "same_shape s s1" unfolding s1_def using p by (intro same_shape_upd_chunk) simp_all
  show "pmm_inv s1" by (rule quiet_step[OF inv sh]) (auto simp: s1_def same_eviction_def)
  show "changes_to s s1 (held s)"
    unfolding changes_to_def s1_def using p by (auto simp: held_def is_leaf_def view_def)
  show "chunk_is_in_eviction s1 p = chunk_is_in_eviction s p" "cexp s1 p = cexp s p"
    by (simp_all add: s1_def chunk_is_in_eviction_def root_chunk_from_chunk_def cexp_def)
qed

lemma free_chunk_ok:
  assumes inv: "pmm_inv s" and p: "p \<in> held s" and ev: "\<not> chunk_is_in_eviction s p" and w: "waits_end w s"
  shows "\<exists>s'. free_chunk w p s = Some s' \<and> pmm_inv s' \<and> changes_to s s' (held s - {p})"
proof -
  let ?s1 = "upd_chunk p uvm_gpu_chunk_clear_inject_split_error s"
  have l: "live s p" using p by (simp add: held_def is_leaf_def)
  note c = clear_inject[OF inv l]
  have h1: "held ?s1 = held s" using c(2) by (simp add: changes_to_def)
  have p1: "p \<in> held ?s1" "\<not> chunk_is_in_eviction ?s1 p" using p ev c(3) h1 by blast+
  have w1: "waits_end w s'" if "pmm_trackers s' = pmm_trackers s" "changes_to ?s1 s' H" for s' H
    using w that by (simp add: waits_end_def changes_to_def)
  have last: "chunk_is_root_chunk ?s1 p = chunk_is_root_chunk s p" by (simp add: chunk_is_root_chunk_def)
  have fin: "\<exists>s''. free_next_available_root_chunk w s' = Some s'' \<and> pmm_inv s'' \<and> changes_to s s'' (held s - {p})"
    if h: "pmm_inv s'" "changes_to ?s1 s' (held ?s1 - {p})" "pmm_trackers s' = pmm_trackers s" for s'
  proof -
    obtain s'' where s'': "free_next_available_root_chunk w s' = Some s''" "pmm_inv s''" "changes_to s' s'' (held s')"
      using free_next_available[OF h(1) w1[OF h(3,2)]] by blast
    have H: "held s' = held s - {p}" using h(2) h1 by (simp add: changes_to_def)
    have "changes_to ?s1 s'' (held s - {p})" by (rule changes_to_trans[OF h(2)]) (use s''(3) H h1 in auto)
    then have "changes_to s s'' (held s - {p})" by (rule changes_to_trans[OF c(2)]) auto
    then show ?thesis using s'' by blast
  qed
  show ?thesis
  proof (cases "chunk_is_last_allocated_child ?s1 p")
    case False
    let ?s2 = "chunk_free_locked p ?s1"
    have t: "try_chunk_free p ?s1 = (True, ?s2)" using False by (simp add: try_chunk_free_def)
    note f = free_locked_changes[OF c(1) p1 False]
    show ?thesis
    proof (cases "chunk_is_root_chunk s p")
      case True
      then have "free_chunk w p s = free_next_available_root_chunk w ?s2" by (simp add: free_chunk_def t Let_def)
      then show ?thesis using fin[OF f] by simp
    next
      case False
      then have "free_chunk w p s = Some ?s2" by (simp add: free_chunk_def t Let_def)
      moreover have "changes_to s ?s2 (held s - {p})" by (rule changes_to_trans[OF c(2)]) (use f(2) h1 in auto)
      ultimately show ?thesis using f(1) by simp
    qed
  next
    case True
    have t: "try_chunk_free p ?s1 = (False, ?s1)" using True by (simp add: try_chunk_free_def)
    have fuel: "22 - cexp ?s1 p \<le> MERGE_FUEL" "0 < MERGE_FUEL" unfolding MERGE_FUEL_def by linarith+
    obtain s2 where s2: "free_chunk_with_merges MERGE_FUEL p ?s1 = Some s2" "pmm_inv s2" "changes_to ?s1 s2 (held ?s1 - {p})"
      using free_with_merges[OF c(1) p1 fuel] by blast
    then have "free_chunk w p s = free_next_available_root_chunk w s2" by (simp add: free_chunk_def t Let_def)
    then show ?thesis using fin[OF s2(2,3)] trackers_free_with_merges[OF s2(1)] by simp
  qed
qed

end
