(* ===== verification/Pmm_Alloc_Proofs.thy ===== *)
theory Pmm_Alloc_Proofs
  imports Pmm_Free
begin

text \<open>
  Allocating a chunk when no root chunk is being evicted: the chunk is new to the caller, has the size and type
  asked for and overlaps no chunk in use; when it fails, the chunks in use are the same.
\<close>

definition no_eviction :: "uvm_pmm_gpu \<Rightarrow> bool" where
  "no_eviction s \<longleftrightarrow> (\<forall>r < pmm_root_chunks_count s. \<not> uvm_gpu_chunk_is_in_eviction (ch s r))"

lemma no_eviction_changes: "no_eviction s \<Longrightarrow> changes_to s s' H \<Longrightarrow> no_eviction s'"
  by (simp add: no_eviction_def changes_to_def)

lemma no_eviction_chunk: "pmm_inv s \<Longrightarrow> no_eviction s \<Longrightarrow> live s p \<Longrightarrow> \<not> chunk_is_in_eviction s p"
  using root_of_eq(2)[OF inv_parts(1)] by (simp add: no_eviction_def chunk_is_in_eviction_def)

lemma changes_refl: "changes_to s s (held s)"
  by (simp add: changes_to_def)

section \<open>Freeing all subchunks but one\<close>

lemma free_siblings:
  assumes "pmm_inv s" "no_eviction s" "live s q" "chunk_suballoc (ch s q) \<noteq> None" "x \<in> set (csubs s q)" "\<not> is_free s x"
    "distinct ps" "x \<notin> set ps" "set ps \<subseteq> set (csubs s q)" "set ps \<subseteq> held s"
  shows "pmm_inv (fold chunk_free_locked ps s) \<and> changes_to s (fold chunk_free_locked ps s) (held s - set ps) \<and>
    same_shape s (fold chunk_free_locked ps s)"
  using assms
proof (induction ps arbitrary: s)
  case Nil
  then show ?case by (simp add: changes_refl)
next
  case (Cons p ps)
  note inv = Cons.prems(1) and ne = Cons.prems(2) and q = Cons.prems(3,4) and x = Cons.prems(5,6)
  note i = inv_parts[OF inv]
  have p: "p \<in> held s" "p \<in> set (csubs s q)" "p \<noteq> x" using Cons.prems(8,9,10) by auto
  have l: "live s p" "cparent s p = Some q" using csubs_facts(4)[OF i(1) q p(2)] by simp_all
  note ev = no_eviction_chunk[OF inv ne l(1)]
  have nl: "\<not> chunk_is_last_allocated_child s p"
  proof
    assume "chunk_is_last_allocated_child s p"
    then have la: "sa_allocated (csub s q) = 1" using l(2) by (simp add: last_child_iff)
    have "is_leaf s p" "\<not> is_free s p" using held_leaf[OF p(1)] by auto
    from last_child_facts[OF inv this l(2) la x(1)] x(2) p(3) show False by simp
  qed
  let ?s1 = "chunk_free_locked p s"
  note f = free_locked_changes[OF inv p(1) ev nl]
  have fr: "same_shape s ?s1" "\<And>y. y \<noteq> p \<Longrightarrow> cstate ?s1 y = cstate s y"
    using free_locked_frame(1,3)[OF inv _ _ ev] held_leaf[OF p(1)] by blast+
  note sf = same_shape_facts[OF fr(1) q(1)] and sr = same_shape_rest[OF fr(1)]
  have h1: "held ?s1 = held s - {p}" using f(2) by (simp add: changes_to_def)
  have "pmm_inv (fold chunk_free_locked ps ?s1) \<and> changes_to ?s1 (fold chunk_free_locked ps ?s1) (held ?s1 - set ps) \<and>
    same_shape ?s1 (fold chunk_free_locked ps ?s1)"
    by (rule Cons.IH[OF f(1) no_eviction_changes[OF ne f(2)]]) (use q x p sf sr fr(2) h1 Cons.prems in auto)
  then have g: "pmm_inv (fold chunk_free_locked ps ?s1)" "changes_to ?s1 (fold chunk_free_locked ps ?s1) (held s - set (p # ps))"
    "same_shape ?s1 (fold chunk_free_locked ps ?s1)" by (simp_all add: h1 Diff_insert2[symmetric])
  have "changes_to s (fold chunk_free_locked ps ?s1) (held s - set (p # ps))" by (rule changes_to_trans[OF f(2) g(2)]) auto
  then show ?case using g same_shape_trans[OF fr(1)] by simp
qed

section \<open>Splitting down\<close>

text \<open>Only the numbering of allocations changes.\<close>

lemma calls_step:
  assumes inv: "pmm_inv s" and m: "pmm_calls s \<le> n"
  shows "pmm_inv (s\<lparr>pmm_calls := n\<rparr>)" "changes_to s (s\<lparr>pmm_calls := n\<rparr>) (held s)"
proof -
  let ?s = "s\<lparr>pmm_calls := n\<rparr>"
  have c: "ch ?s = ch s" "live ?s = live s" by (simp_all add: fun_eq_iff ch_def live_def)
  have "child_ok ?s = child_ok s" by (simp add: fun_eq_iff child_ok_def c cexp_def mask_of_def)
  then have "split_ok ?s = split_ok s" by (simp add: fun_eq_iff split_ok_def c cexp_def mask_of_def)
  then have "chunk_ok ?s = chunk_ok s" by (simp add: fun_eq_iff chunk_ok_def c cexp_def mask_of_def)
  then have "tree_ok ?s" using inv_parts(1)[OF inv] m unfolding tree_ok_def by (fastforce simp: c)
  moreover have "states_ok ?s" using inv_parts(2)[OF inv] by (simp add: states_ok_def c used_children_def)
  moreover have "pins_ok ?s" using inv_parts(3)[OF inv] by (simp add: pins_ok_def c pinned_leaves_def is_leaf_def root_chunk_from_chunk_def)
  moreover have "lists_ok ?s" using inv_parts(4)[OF inv]
    by (simp add: lists_ok_def c free_set_def find_free_list_chunk_def find_free_list_def chunk_is_in_eviction_def root_chunk_from_chunk_def)
  ultimately show "pmm_inv ?s" by (simp add: pmm_inv_def)
  show "changes_to s ?s (held s)" by (simp add: changes_to_def c held_def is_leaf_def view_def)
qed

text \<open>A split of a pinned chunk, of which all subchunks but the first are freed.\<close>

lemma split_one:
  assumes inv: "pmm_inv s" and ne: "no_eviction s" and p: "p \<in> held s" "is_pinned s p" and sub: "sub_exp s p \<noteq> 22"
    and e: "split_gpu_chunk p s = (NV_OK, s1)"
  defines "x \<equiv> csubs s1 p ! 0"
  defines "s2 \<equiv> fold chunk_free_locked (drop 1 (take (unat (num_subchunks s1 p)) (csubs s1 p))) s1"
  shows "pmm_inv s2" "changes_to s s2 (held s - {p} \<union> {x})" "x \<in> held s2" "is_pinned s2 x" "cexp s2 x = sub_exp s p" "ctype s2 x = ctype s p"
    "x \<notin> held s" "\<not> live s x" "\<And>y. live s y \<Longrightarrow> live s2 y"
proof -
  note h = held_leaf[OF p(1)]
  have l: "live s p" using h by (simp add: is_leaf_def)
  obtain b calls where ef: "split_effect s p s1 b calls" by (rule split_cases[OF inv _ _ sub]) (use e h in auto)
  note ec = split_effect_chunks[OF ef] and es = split_effect_split[OF ef] and er = split_effect_rest[OF ef]
  have st: "tree_ok s1" "is_split s1 p" "length (csubs s1 p) = sub_num s p"
    "\<And>y. y \<in> set (csubs s1 p) \<Longrightarrow> \<not> live s y \<and> is_leaf s1 y \<and> cstate s1 y = cstate s p \<and> cexp s1 y = sub_exp s p \<and> ctype s1 y = ctype s p"
    "\<And>y. live s1 y \<longleftrightarrow> live s y \<or> y \<in> set (csubs s1 p)"
    using split_tree[OF inv _ _ sub e] h by blast+
  have inv1: "pmm_inv s1" using split_inv[OF inv _ _ sub ef e] h by blast
  have lp: "live s1 p" using st(5) l by blast
  note c = csubs_facts[OF st(1) lp es(2)] and n = num_subchunks_eq(2)[OF st(1) lp es(2)]
  have H1: "held s1 = held s - {p} \<union> set (csubs s1 p)"
  proof (intro set_eqI)
    fix y
    consider "y \<in> set (csubs s1 p)" | "y = p" "y \<notin> set (csubs s1 p)" | "y \<noteq> p" "y \<notin> set (csubs s1 p)" by blast
    then show "y \<in> held s1 \<longleftrightarrow> y \<in> held s - {p} \<union> set (csubs s1 p)"
    proof cases
      case 1
      then show ?thesis using st(4)[OF 1] p(2) by (simp add: held_def)
    next
      case 2
      then show ?thesis using es(2) by (simp add: held_def is_leaf_def)
    next
      case 3
      then show ?thesis using st(5)[of y] ec(5)[of y] by (auto simp: held_def is_leaf_def)
    qed
  qed
  have ch1: "changes_to s s1 (held s - {p} \<union> set (csubs s1 p))" unfolding changes_to_def
  proof (intro conjI ballI allI impI H1)
    show "view s1 y = view s y" if "y \<in> (held s - {p} \<union> set (csubs s1 p)) \<inter> held s" for y
    proof -
      have y: "live s y" using that by (simp add: held_def is_leaf_def)
      then have "y \<noteq> p" using that st(4)[of y] by blast
      then show ?thesis using ec(3)[OF y] ec(5)[OF y] by (simp add: view_def)
    qed
    show "uvm_gpu_chunk_is_in_eviction (ch s1 r) = uvm_gpu_chunk_is_in_eviction (ch s r)" if "r < pmm_root_chunks_count s" for r
      using ec(4) inv_parts(1)[OF inv] that by (simp add: tree_ok_def)
  qed (simp_all add: er)
  have ne1: "no_eviction s1" using no_eviction_changes[OF ne ch1] .
  have xs: "csubs s1 p = x # drop 1 (csubs s1 p)" using c(3) by (cases "csubs s1 p") (simp_all add: x_def)
  have x1: "x \<in> set (csubs s1 p)" "x \<notin> set (drop 1 (csubs s1 p))" "distinct (drop 1 (csubs s1 p))"
    using xs c(1) by (metis list.set_intros(1), metis distinct.simps(2), metis distinct_drop)
  have sub1: "set (drop 1 (csubs s1 p)) \<subseteq> set (csubs s1 p)" by (rule set_drop_subset)
  have s2: "s2 = fold chunk_free_locked (drop 1 (csubs s1 p)) s1" by (simp add: s2_def n)
  have xf: "\<not> is_free s1 x" "cstate s1 x = UVM_PMM_GPU_CHUNK_STATE_TEMP_PINNED" using st(4)[OF x1(1)] p(2) by simp_all
  have held1: "set (drop 1 (csubs s1 p)) \<subseteq> held s1" using H1 sub1 by blast
  note g = free_siblings[OF inv1 ne1 lp es(2) x1(1) xf(1) x1(3,2) sub1 held1, folded s2]
  show "pmm_inv s2" using g by blast
  have c2: "changes_to s1 s2 (held s1 - set (drop 1 (csubs s1 p)))" using g by blast
  have e2: "held s1 - set (drop 1 (csubs s1 p)) = held s - {p} \<union> {x}"
  proof -
    have "y \<notin> held s" if "y \<in> set (csubs s1 p)" for y using st(4)[OF that] by (simp add: held_def is_leaf_def)
    moreover have "set (csubs s1 p) = insert x (set (drop 1 (csubs s1 p)))" using xs by (metis list.simps(15))
    ultimately show ?thesis unfolding H1 using x1(2) by auto
  qed
  then show "changes_to s s2 (held s - {p} \<union> {x})" using changes_to_trans[OF ch1 c2] x1(1) by auto
  show x2: "x \<in> held s2" using c2 e2 by (simp add: changes_to_def)
  have "view s2 x = view s1 x" using c2 e2 x2 H1 x1(1) by (auto simp: changes_to_def)
  then have "cstate s2 x = cstate s1 x" "csize s2 x = csize s1 x" "ctype s2 x = ctype s1 x" by (simp_all add: view_def)
  then show "is_pinned s2 x" "cexp s2 x = sub_exp s p" "ctype s2 x = ctype s p" using xf(2) st(4)[OF x1(1)] by (simp_all add: cexp_def)
  show "x \<notin> held s" "\<not> live s x" using st(4)[OF x1(1)] by (simp_all add: held_def is_leaf_def)
  have "same_shape s1 s2" using g by blast
  then show "live s2 y" if "live s y" for y using that st(5)[of y] same_shape_rest(1) by simp
qed

text \<open>What an allocation step returns: a new chunk in place of those of \<open>P\<close>, or nothing.\<close>

definition alloc_result :: "uvm_pmm_gpu \<Rightarrow> chunk_ptr set \<Rightarrow> nat \<Rightarrow> uvm_pmm_gpu_memory_type \<Rightarrow> nv_status \<times> chunk_ptr option \<times> uvm_pmm_gpu \<Rightarrow> bool" where
  "alloc_result s P k ty res \<longleftrightarrow>
     (case res of (status, c, s') \<Rightarrow>
        pmm_inv s' \<and>
        (if status = NV_OK then
           (\<exists>x. c = Some x \<and> changes_to s s' (held s - P \<union> {x}) \<and> is_pinned s' x \<and> csize s' x = 2 ^ k \<and> ctype s' x = ty \<and> (x \<in> P \<or> x \<notin> held s))
         else c = None \<and> changes_to s s' (held s - P)))"

lemma split_down_ok:
  assumes "pmm_inv s" "no_eviction s" "p \<in> held s" "is_pinned s p" "bit (mask_of s p) k" "k \<le> cexp s p" "cexp s p < n"
  shows "\<exists>res. split_down (2 ^ k) (sizes_rev_from n (mask_of s p) (2 ^ cexp s p)) p s = Some res \<and> alloc_result s {p} k (ctype s p) res \<and>
    (\<forall>x. fst (snd res) = Some x \<longrightarrow> x = p \<or> \<not> live s x)"
  using assms
proof (induction n arbitrary: p s)
  case (Suc n)
  note inv = Suc.prems(1) and ne = Suc.prems(2) and p = Suc.prems(3,4) and k = Suc.prems(5,6)
  note i = inv_parts[OF inv] and h = held_leaf[OF p(1)]
  have l: "live s p" using h by (simp add: is_leaf_def)
  note e = exp_le[OF i(1) l] and m = tree_mask[OF i(1), of p]
  have e22: "cexp s p < 22" using e by linarith
  have ninv: "(2 ^ cexp s p :: u32) \<noteq> UVM_CHUNK_SIZE_INVALID"
  proof
    assume "(2 ^ cexp s p :: u32) = UVM_CHUNK_SIZE_INVALID"
    then have "unat (2 ^ cexp s p :: u32) = unat (2 ^ 22 :: u32)" by (simp only: size_consts)
    then have "(2::nat) ^ cexp s p = 2 ^ 22" using e22 by (simp add: unat_2_power)
    then have "cexp s p = 22" by (rule power_inject_exp[THEN iffD1, rotated]) simp
    then show False using e22 by simp
  qed
  have sizes: "sizes_rev_from (Suc n) (mask_of s p) (2 ^ cexp s p) = 2 ^ cexp s p # sizes_rev_from n (mask_of s p) (2 ^ sub_exp s p)"
    using ninv e22 by (simp add: find_prev_eq)
  have inj: "(2 ^ cexp s p :: u32) = 2 ^ k \<longleftrightarrow> k = cexp s p"
  proof
    assume "(2 ^ cexp s p :: u32) = 2 ^ k"
    then have "unat (2 ^ cexp s p :: u32) = unat (2 ^ k :: u32)" by simp
    then have "(2::nat) ^ cexp s p = 2 ^ k" using e22 k(2) by (simp add: unat_2_power)
    then show "k = cexp s p" by (simp add: power_inject_exp)
  qed simp
  show ?case
  proof (cases "k = cexp s p")
    case True
    then have "split_down (2 ^ k) (sizes_rev_from (Suc n) (mask_of s p) (2 ^ cexp s p)) p s = Some (NV_OK, Some p, s)"
      unfolding sizes by simp
    moreover have "held s - {p} \<union> {p} = held s" using p(1) by blast
    then have "alloc_result s {p} k (ctype s p) (NV_OK, Some p, s)"
      using inv p True csize_eq(1)[of s p] changes_refl[of s] by (simp add: alloc_result_def)
    ultimately show ?thesis by (metis fst_conv snd_conv option.inject)
  next
    case False
    then have lt: "k < cexp s p" using k(2) by simp
    note pe = prev_exp_props[of "mask_of s p" "cexp s p" k]
    have sub: "sub_exp s p \<noteq> 22" "sub_exp s p < cexp s p" "k \<le> sub_exp s p" using pe lt k(1) e by auto
    have ne2: "(2 ^ cexp s p :: u32) \<noteq> 2 ^ k" using inj False by blast
    show ?thesis
    proof (cases rule: split_cases[OF inv conjunct1[OF h] conjunct2[OF h] sub(1)])
      case (1 calls)
      let ?s1 = "s\<lparr>pmm_calls := calls\<rparr>"
      note c = calls_step[OF inv 1(2)]
      have h1: "held ?s1 = held s" using c(2) by (simp add: changes_to_def)
      have ne1: "no_eviction ?s1" using no_eviction_changes[OF ne c(2)] .
      have l1: "live ?s1 p" using l by (simp add: live_def)
      have fuel: "22 - cexp ?s1 p \<le> MERGE_FUEL" "0 < MERGE_FUEL" unfolding MERGE_FUEL_def by linarith+
      obtain s2 where s2: "free_chunk_with_merges MERGE_FUEL p ?s1 = Some s2" "pmm_inv s2" "changes_to ?s1 s2 (held ?s1 - {p})"
        using free_with_merges[OF c(1) _ no_eviction_chunk[OF c(1) ne1 l1] fuel] p(1) h1 by blast
      have "changes_to s s2 (held s - {p})" by (rule changes_to_trans[OF c(2)]) (use s2(3) h1 in auto)
      then have "alloc_result s {p} k (ctype s p) (NV_ERR_NO_MEMORY, None, s2)" using s2(2) by (simp add: alloc_result_def)
      moreover have "split_down (2 ^ k) (sizes_rev_from (Suc n) (mask_of s p) (2 ^ cexp s p)) p s = Some (NV_ERR_NO_MEMORY, None, s2)"
        unfolding sizes using ne2 by (simp add: 1(1) s2(1))
      ultimately show ?thesis by auto
    next
      case (2 s1 b calls)
      let ?x = "csubs s1 p ! 0"
      let ?s2 = "fold chunk_free_locked (drop 1 (take (unat (num_subchunks s1 p)) (csubs s1 p))) s1"
      note o = split_one[OF inv ne p sub(1) 2(1)]
      have H2: "held ?s2 = held s - {p} \<union> {?x}" using o(2) by (simp add: changes_to_def)
      have mx: "mask_of ?s2 ?x = mask_of s p" using o(2,6) by (simp add: mask_of_def changes_to_def)
      have "bit (mask_of ?s2 ?x) k" "k \<le> cexp ?s2 ?x" "cexp ?s2 ?x < n" using k sub o(5) Suc.prems(7) mx by simp_all
      from Suc.IH[OF o(1) no_eviction_changes[OF ne o(2)] o(3,4) this]
      obtain res where res: "split_down (2 ^ k) (sizes_rev_from n (mask_of s p) (2 ^ sub_exp s p)) ?x ?s2 = Some res"
        "alloc_result ?s2 {?x} k (ctype s p) res" "\<And>y. fst (snd res) = Some y \<Longrightarrow> y = ?x \<or> \<not> live ?s2 y"
        unfolding mx o(5,6) by blast
      have new: "\<not> live s y" if "fst (snd res) = Some y" for y using res(3)[OF that] o(8,9) by blast
      have "split_down (2 ^ k) (sizes_rev_from (Suc n) (mask_of s p) (2 ^ cexp s p)) p s = Some res"
        unfolding sizes split_down.simps if_not_P[OF ne2] 2(1) Let_def prod.case using res(1) by simp
      moreover have "alloc_result s {p} k (ctype s p) res"
      proof -
        obtain status c s' where r: "res = (status, c, s')" by (metis prod_cases3)
        have sets: "held ?s2 - {?x} = held s - {p}" using H2 o(7) by blast
        show ?thesis
        proof (cases "status = NV_OK")
          case True
          then obtain y where y: "c = Some y" "changes_to ?s2 s' (held ?s2 - {?x} \<union> {y})" "is_pinned s' y" "csize s' y = 2 ^ k"
            "ctype s' y = ctype s p" "y \<in> {?x} \<or> y \<notin> held ?s2" "pmm_inv s'" using res(2) by (auto simp: alloc_result_def r)
          have yn: "y \<notin> held s" using new[of y] y(1) by (simp add: r held_def is_leaf_def)
          have "changes_to s s' (held s - {p} \<union> {y})"
          proof (rule changes_to_trans[OF o(2)])
            show "changes_to ?s2 s' (held s - {p} \<union> {y})" using y(2) sets by simp
            show "(held s - {p} \<union> {y}) \<inter> held s \<subseteq> held s - {p} \<union> {?x}" using yn by blast
          qed
          moreover have "y \<in> {p} \<or> y \<notin> held s" using yn by blast
          ultimately show ?thesis using y True by (auto simp: alloc_result_def r)
        next
          case False
          then have "changes_to ?s2 s' (held s - {p})" "c = None" "pmm_inv s'" using res(2) sets by (auto simp: alloc_result_def r)
          then show ?thesis using False changes_to_trans[OF o(2), of s' "held s - {p}"] by (auto simp: alloc_result_def r)
        qed
      qed
      ultimately show ?thesis using new by blast
    qed
  qed
qed simp

section \<open>Claiming\<close>

lemma size_of_list:
  assumes inv: "pmm_inv s" and k: "k \<le> 21" "bit (pmm_chunk_sizes s ty) k"
  shows "live s p \<Longrightarrow> ctype s p = ty \<Longrightarrow> find_free_list_chunk s p = find_free_list s ty (2 ^ k) \<Longrightarrow> csize s p = 2 ^ k"
  using free_list_size[OF inv_parts(1)[OF inv] _ _ _ k] by blast

lemma same_chunks_changes: "ch s' = ch s \<Longrightarrow> same_shape s s' \<Longrightarrow> changes_to s s' (held s)"
  using same_shape_rest[of s s'] by (simp add: changes_to_def held_def is_leaf_def view_def)

lemma take_chunk_rest [simp]:
  "pmm_trackers (chunk_pin p s) = pmm_trackers s" "pmm_supports_eviction (chunk_pin p s) = pmm_supports_eviction s"
  "pmm_trackers (take_chunk p s) = pmm_trackers s" "pmm_supports_eviction (take_chunk p s) = pmm_supports_eviction s"
  by (simp_all add: take_chunk_def chunk_pin_def Let_def split: option.split)

lemma take_chunk_changes:
  assumes inv: "pmm_inv s" and p: "is_leaf s p" "is_free s p"
  shows "pmm_inv (take_chunk p s)" "changes_to s (take_chunk p s) (held s \<union> {p})" "is_pinned (take_chunk p s) p" "p \<notin> held s"
    "csize (take_chunk p s) p = csize s p" "ctype (take_chunk p s) p = ctype s p"
proof -
  note t = take_chunk_inv[OF inv p]
  have l: "live s p" using p by (simp add: is_leaf_def)
  show "pmm_inv (take_chunk p s)" "is_pinned (take_chunk p s) p" using t(1,3) by blast+
  show np: "p \<notin> held s" using p by (simp add: held_def)
  show "csize (take_chunk p s) p = csize s p" "ctype (take_chunk p s) p = ctype s p" using same_shape_facts[OF t(2) l] by blast+
  have ev: "same_eviction s (take_chunk p s)"
    unfolding take_chunk_def chunk_pin_def Let_def same_eviction_def by (auto split: option.splits)
  show "changes_to s (take_chunk p s) (held s \<union> {p})"
    by (rule same_shape_changes[OF inv_parts(1)[OF inv] t(2) ev t(4) p(1)]) (use np t(3) in auto)
qed

lemma claim_result:
  assumes inv: "pmm_inv s" and k: "k \<le> 21" "bit (pmm_chunk_sizes s ty) k"
  obtains (none) s' where "claim_free_chunk ty (2 ^ k) s = (None, s')" "pmm_inv s'" "changes_to s s' (held s)" "ch s' = ch s"
      "pmm_trackers s' = pmm_trackers s" "pmm_supports_eviction s' = pmm_supports_eviction s"
    | (some) p s' where "claim_free_chunk ty (2 ^ k) s = (Some p, s')" "pmm_inv s'" "changes_to s s' (held s \<union> {p})" "is_pinned s' p"
      "csize s' p = 2 ^ k" "ctype s' p = ty" "p \<notin> held s" "pmm_trackers s' = pmm_trackers s"
proof -
  have tr: "pmm_trackers s' = pmm_trackers s \<and> pmm_supports_eviction s' = pmm_supports_eviction s" if "claim_free_chunk ty (2 ^ k) s = (c, s')" for c s'
    using that by (auto simp: claim_eq Let_def split: option.splits)
  show ?thesis
  proof (rule claim_free_chunk_cases[OF inv, of ty "2 ^ k"])
    show "csize s p = 2 ^ k" if "live s p" "ctype s p = ty" "find_free_list_chunk s p = find_free_list s ty (2 ^ k)" for p
      using size_of_list[OF inv k that] .
  next
    fix s' assume h: "claim_free_chunk ty (2 ^ k) s = (None, s')" "pmm_inv s'" "ch s' = ch s" "same_shape s s'"
    show thesis using none[OF h(1,2) same_chunks_changes[OF h(3,4)] h(3)] tr[OF h(1)] by blast
  next
    fix p s' assume h: "claim_free_chunk ty (2 ^ k) s = (Some p, take_chunk p s')" "pmm_inv s'" "ch s' = ch s" "same_shape s s'"
      "is_leaf s p" "is_free s p" "ctype s p = ty" "csize s p = 2 ^ k"
    have p: "is_leaf s' p" "is_free s' p"
      using h(3,5,6) same_shape_rest(1)[OF h(4)] by (simp_all add: is_leaf_def)
    note t = take_chunk_changes[OF h(2) p]
    have hs: "held s' = held s" using same_chunks_changes[OF h(3,4)] by (simp add: changes_to_def)
    have "changes_to s (take_chunk p s') (held s \<union> {p})"
      by (rule changes_to_trans[OF same_chunks_changes[OF h(3,4)]]) (use t(2,4) hs in auto)
    then show thesis using some[OF h(1) t(1)] t hs tr[OF h(1)] h(3,7,8) by simp
  qed
qed

section \<open>A root chunk from PMA\<close>

text \<open>PMA hands out memory it owns: the root chunk of the address is not one the driver has.\<close>

definition pma_ok :: "nv_status \<times> u64 \<Rightarrow> uvm_pmm_gpu \<Rightarrow> bool" where
  "pma_ok pma s \<longleftrightarrow> (fst pma = NV_OK \<longrightarrow> root_chunk_from_address (snd pma) < pmm_root_chunks_count s \<and>
     cstate s (root_chunk_from_address (snd pma)) = UVM_PMM_GPU_CHUNK_STATE_PMA_OWNED)"

text \<open>The type of a root chunk that is a leaf can change.\<close>

lemma take_root:
  fixes ts :: "nat \<Rightarrow> uvm_tracker" and ty :: uvm_pmm_gpu_memory_type
  assumes inv: "pmm_inv s" and r: "r < pmm_root_chunks_count s" "cstate s r = UVM_PMM_GPU_CHUNK_STATE_PMA_OWNED"
  defines "s' \<equiv> upd_chunk r (\<lambda>c. uvm_gpu_chunk_set_state (uvm_gpu_chunk_set_type c ty) UVM_PMM_GPU_CHUNK_STATE_TEMP_PINNED) (s\<lparr>pmm_trackers := ts\<rparr>)"
  shows "pmm_inv s'" "changes_to s s' (held s \<union> {r})" "is_pinned s' r" "csize s' r = 2 ^ 21" "ctype s' r = ty" "r \<notin> held s"
proof -
  note i = inv_parts[OF inv]
  have l: "live s r" "cparent s r = None" using root_live[OF i(1) r(1)] by simp_all
  have leaf: "chunk_suballoc (ch s r) = None" using i(2) l(1) r(2) by (auto simp: states_ok_def)
  have c: "ch s' x = (if x = r then uvm_gpu_chunk_set_state (uvm_gpu_chunk_set_type (ch s r) ty) UVM_PMM_GPU_CHUNK_STATE_TEMP_PINNED else ch s x)" for x
    by (simp add: s'_def)
  have lv: "live s' = live s" using l(1) by (auto simp: s'_def fun_eq_iff)
  have rest: "pmm_chunk_sizes s' = pmm_chunk_sizes s" "pmm_root_chunks_count s' = pmm_root_chunks_count s" "pmm_calls s' = pmm_calls s"
    "pmm_free_list s' = pmm_free_list s" by (simp_all add: s'_def)
  have old: "caddr s' x = caddr s x" "cparent s' x = cparent s x" "csize s' x = csize s x" "cexp s' x = cexp s x"
    "chunk_suballoc (ch s' x) = chunk_suballoc (ch s x)" "root_chunk_from_chunk s' x = root_chunk_from_chunk s x"
    "uvm_gpu_chunk_is_in_eviction (ch s' x) = uvm_gpu_chunk_is_in_eviction (ch s x)" for x
    by (simp_all add: c cexp_def root_chunk_from_chunk_def)
  have ty: "ctype s' x = ctype s x" "mask_of s' x = mask_of s x" "cstate s' x = cstate s x" if "x \<noteq> r" for x
    using that by (simp_all add: c mask_of_def rest)
  have "chunk_ok s' x" if x: "live s x" for x
  proof (cases "x = r")
    case True
    note rf = root_facts[OF i(1) l]
    have "bit (mask_of s' r) 21" using i(1) by (simp add: mask_of_def rest tree_ok_def mask_ok_def)
    then show ?thesis using True rf leaf l(2) r(1) by (simp add: chunk_ok_def old rest)
  next
    case False
    note co = tree_chunk[OF i(1) x]
    have "split_ok s' x" if h: "chunk_suballoc (ch s x) \<noteq> None"
    proof -
      have so: "split_ok s x" using co h by (simp add: chunk_ok_def)
      have "child_ok s' x k" if "k < length (csubs s x)" for k
      proof -
        have ck: "child_ok s x k" using so that by (simp add: split_ok_def)
        then have "csubs s x ! k \<noteq> r" using l(2) by (auto simp: child_ok_def Let_def)
        then show ?thesis using ck ty[OF False] ty[of "csubs s x ! k"] by (simp add: child_ok_def Let_def old lv)
      qed
      then show ?thesis using so ty[OF False] by (simp add: split_ok_def old)
    qed
    then show ?thesis using co ty[OF False] unfolding chunk_ok_def old rest lv by simp
  qed
  then have t': "tree_ok s'" using i(1) by (simp add: tree_ok_def rest lv)
  have nf: "is_free s' x = is_free s x" for x using r(2) by (simp add: c)
  have "states_ok s'" unfolding states_ok_def
  proof (intro allI impI)
    fix x assume "live s' x"
    then have x: "live s x" by (simp add: lv)
    have "used_children s' x = used_children s x" by (simp add: used_children_def old nf)
    then show "is_split s' x = (chunk_suballoc (ch s' x) \<noteq> None) \<and>
         (cstate s' x = UVM_PMM_GPU_CHUNK_STATE_PMA_OWNED \<longrightarrow> x < pmm_root_chunks_count s') \<and>
         (is_split s' x \<longrightarrow> unat (sa_allocated (csub s' x)) = used_children s' x \<and> 0 < used_children s' x)"
      using i(2) x leaf ty(3)[of x] by (cases "x = r") (simp_all add: c states_ok_def rest)
  qed
  moreover have "pins_ok s'" unfolding pins_ok_def
  proof (intro allI impI)
    fix r' assume h: "r' < pmm_root_chunks_count s'" "chunk_suballoc (ch s' r') \<noteq> None"
    have "r' \<noteq> r" using h(2) leaf by (auto simp: old)
    then have "pinned_leaves s' r' = pinned_leaves s r'"
      using root_of_root[OF i(1) l] r(2) ty(3) leaf by (auto simp: pinned_leaves_def is_leaf_def lv old c)
    then show "unat (sa_pinned_leaf_chunks (csub s' r')) = card (pinned_leaves s' r')" using i(3) h by (simp add: pins_ok_def old rest)
  qed
  moreover have "free_set s' tt j = free_set s tt j" for tt j
    using r(2) by (auto simp: free_set_def lv c find_free_list_chunk_def find_free_list_def rest split: if_splits)
  then have "lists_ok s'" using i(4) by (simp add: lists_ok_def rest chunk_is_in_eviction_def old)
  ultimately show "pmm_inv s'" using t' by (simp add: pmm_inv_def)
  show "r \<notin> held s" using r(2) by (simp add: held_def)
  show "is_pinned s' r" "ctype s' r = ty" by (simp_all add: c)
  show "csize s' r = 2 ^ 21" using csize_eq(1)[of s r] root_facts(2)[OF i(1) l] by (simp add: old)
  show "changes_to s s' (held s \<union> {r})" unfolding changes_to_def
  proof (intro conjI ballI)
    show "held s' = held s \<union> {r}"
      using r(2) l(1) leaf by (auto simp: held_def is_leaf_def lv old c split: if_splits)
    show "view s' x = view s x" if "x \<in> (held s \<union> {r}) \<inter> held s" for x
      using that r(2) by (auto simp: view_def old c held_def)
  qed (simp_all add: rest old)
qed

section \<open>Combining results\<close>

lemma alloc_result_after:
  assumes c: "changes_to s s1 (held s \<union> P)" "P \<inter> held s = {}" and res: "alloc_result s1 P k ty res"
  shows "alloc_result s {} k ty res"
proof -
  obtain status c s' where r: "res = (status, c, s')" by (metis prod_cases3)
  have h: "held s1 = held s \<union> P" using c(1) by (simp add: changes_to_def)
  have e: "held s1 - P = held s" using h c(2) by blast
  show ?thesis
  proof (cases "status = NV_OK")
    case True
    then obtain x where x: "c = Some x" "changes_to s1 s' (held s \<union> {x})" "is_pinned s' x" "csize s' x = 2 ^ k" "ctype s' x = ty"
      "x \<in> P \<or> x \<notin> held s1" "pmm_inv s'" using res e by (auto simp: alloc_result_def r)
    have "x \<notin> held s" using x(6) h c(2) by blast
    moreover have "changes_to s s' (held s \<union> {x})" by (rule changes_to_trans[OF c(1) x(2)]) (use x(6) h c(2) in auto)
    ultimately show ?thesis using x True by (simp add: alloc_result_def r)
  next
    case False
    then have f: "changes_to s1 s' (held s)" "c = None" "pmm_inv s'" using res e by (auto simp: alloc_result_def r)
    have "changes_to s s' (held s)" by (rule changes_to_trans[OF c(1) f(1)]) auto
    then show ?thesis using f False by (simp add: alloc_result_def r)
  qed
qed

lemma claimed_result:
  assumes "pmm_inv s'" "changes_to s s' (held s \<union> {p})" "is_pinned s' p" "csize s' p = 2 ^ k" "ctype s' p = ty" "p \<notin> held s"
  shows "alloc_result s {} k ty (NV_OK, Some p, s')"
  using assms by (simp add: alloc_result_def)

lemma failed_result: "pmm_inv s' \<Longrightarrow> changes_to s s' (held s) \<Longrightarrow> status \<noteq> NV_OK \<Longrightarrow> alloc_result s {} k ty (status, None, s')"
  by (simp add: alloc_result_def)

section \<open>Looking for a bigger chunk\<close>

lemma sizes_from_elem:
  assumes "mask_ok m" "bit m k" "sz \<in> set (sizes_from n m (2 ^ k))"
  shows "\<exists>j. sz = 2 ^ j \<and> bit m j \<and> k \<le> j \<and> j \<le> 21"
  using assms
proof (induction n arbitrary: k)
  case (Suc n)
  have k: "k \<le> 21" using Suc.prems(1,2) by (auto simp: mask_ok_def)
  show ?case
  proof (cases "sz = 2 ^ k")
    case True
    then show ?thesis using Suc.prems(2) k by blast
  next
    case False
    then have sz: "sz \<in> set (sizes_from n m (2 ^ next_exp m k))"
      using Suc.prems find_next_eq[OF Suc.prems(1), of k] k by (auto split: if_splits)
    show ?thesis
    proof (cases "k = 21")
      case True
      then have "sizes_from n m (2 ^ next_exp m k) = []" by (cases n) (simp_all add: next_exp_21 size_consts)
      then show ?thesis using sz by simp
    next
      case False
      then have lt: "k < 21" using k by simp
      note ne = next_exp_props[OF Suc.prems(1) lt]
      obtain j where "sz = 2 ^ j" "bit m j" "next_exp m k \<le> j" "j \<le> 21" using Suc.IH[OF Suc.prems(1) ne(3) sz] by blast
      then show ?thesis using ne(1) by (intro exI[of _ j]) simp
    qed
  qed
qed simp

lemma claim_bigger_result:
  assumes "pmm_inv s" "\<forall>sz \<in> set szs. \<exists>j. sz = 2 ^ j \<and> bit (pmm_chunk_sizes s ty) j \<and> k \<le> j \<and> j \<le> 21"
  shows "(\<exists>s'. claim_bigger ty szs s = (None, s') \<and> pmm_inv s' \<and> changes_to s s' (held s) \<and> ch s' = ch s \<and> pmm_trackers s' = pmm_trackers s \<and>
        pmm_supports_eviction s' = pmm_supports_eviction s) \<or>
    (\<exists>p j s'. claim_bigger ty szs s = (Some (p, 2 ^ j), s') \<and> pmm_inv s' \<and> changes_to s s' (held s \<union> {p}) \<and> is_pinned s' p \<and>
        csize s' p = 2 ^ j \<and> ctype s' p = ty \<and> p \<notin> held s \<and> k \<le> j \<and> j \<le> 21 \<and> pmm_trackers s' = pmm_trackers s)"
  using assms
proof (induction szs arbitrary: s)
  case Nil
  then show ?case using changes_refl by auto
next
  case (Cons sz szs)
  obtain j where j: "sz = 2 ^ j" "bit (pmm_chunk_sizes s ty) j" "k \<le> j" "j \<le> 21" using Cons.prems(2) by auto
  show ?case
  proof (cases rule: claim_result[OF Cons.prems(1) j(4,2)])
    case (1 s1)
    have sz1: "pmm_chunk_sizes s1 = pmm_chunk_sizes s" using 1(3) by (simp add: changes_to_def)
    have h1: "held s1 = held s" using 1(3) by (simp add: changes_to_def)
    have e: "claim_bigger ty (sz # szs) s = claim_bigger ty szs s1" by (simp add: j(1) 1(1))
    have tr: "changes_to s s' H" if "changes_to s1 s' H" "H \<inter> held s \<subseteq> held s" for s' H using changes_to_trans[OF 1(3) that] .
    have szs1: "\<forall>sz \<in> set szs. \<exists>j. sz = 2 ^ j \<and> bit (pmm_chunk_sizes s1 ty) j \<and> k \<le> j \<and> j \<le> 21"
      using Cons.prems(2) sz1 by simp
    from Cons.IH[OF 1(2) szs1] show ?thesis
    proof (elim disjE)
      assume "\<exists>s'. claim_bigger ty szs s1 = (None, s') \<and> pmm_inv s' \<and> changes_to s1 s' (held s1) \<and> ch s' = ch s1 \<and> pmm_trackers s' = pmm_trackers s1 \<and>
        pmm_supports_eviction s' = pmm_supports_eviction s1"
      then show ?thesis using e 1 h1 tr by (intro disjI1) auto
    next
      assume "\<exists>p j s'. claim_bigger ty szs s1 = (Some (p, 2 ^ j), s') \<and> pmm_inv s' \<and> changes_to s1 s' (held s1 \<union> {p}) \<and> is_pinned s' p \<and>
        csize s' p = 2 ^ j \<and> ctype s' p = ty \<and> p \<notin> held s1 \<and> k \<le> j \<and> j \<le> 21 \<and> pmm_trackers s' = pmm_trackers s1"
      then obtain p j' s' where g: "claim_bigger ty szs s1 = (Some (p, 2 ^ j'), s')" "pmm_inv s'" "changes_to s1 s' (held s1 \<union> {p})" "is_pinned s' p"
        "csize s' p = 2 ^ j'" "ctype s' p = ty" "p \<notin> held s1" "k \<le> j'" "j' \<le> 21" "pmm_trackers s' = pmm_trackers s1" by blast
      have "changes_to s s' (held s \<union> {p})" by (rule tr) (use g(3,7) h1 in auto)
      then show ?thesis using e g h1 1(5) by (intro disjI2 exI[of _ p] exI[of _ j'] exI[of _ s']) simp
    qed
  next
    case (2 p s1)
    then show ?thesis using j by (intro disjI2 exI[of _ p] exI[of _ j] exI[of _ s1]) simp
  qed
qed

section \<open>The trackers\<close>

lemma trackers_alloc_subchunks: "pmm_trackers (snd (snd (alloc_subchunks c p sz n i subs s))) = pmm_trackers s"
  by (induction c p sz n i subs s rule: alloc_subchunks.induct) (auto simp: kmem_cache_alloc_def)

lemma trackers_split: "split_gpu_chunk p s = (status, s') \<Longrightarrow> pmm_trackers s' = pmm_trackers s"
proof -
  assume e: "split_gpu_chunk p s = (status, s')"
  let ?sz = "uvm_chunk_find_prev_size (pmm_chunk_sizes s (ctype s p)) (csize s p)"
  obtain st subs s1 where a: "alloc_subchunks (ch s p) p ?sz (unat (csize s p div ?sz)) 0 [] (s\<lparr>pmm_calls := Suc (pmm_calls s)\<rparr>) = (st, subs, s1)"
    by (metis prod_cases3)
  have "pmm_trackers s1 = pmm_trackers s"
    using trackers_alloc_subchunks[of "ch s p" p ?sz "unat (csize s p div ?sz)" 0 "[]" "s\<lparr>pmm_calls := Suc (pmm_calls s)\<rparr>"]
    unfolding a by simp
  then show ?thesis using e a by (auto simp: split_gpu_chunk_def kmem_cache_alloc_def Let_def free_all_rest split: if_splits)
qed

lemma trackers_fold_free: "pmm_trackers (fold chunk_free_locked ps s) = pmm_trackers s"
  by (induction ps arbitrary: s) simp_all

lemma trackers_split_down: "split_down sz szs p s = Some (status, c, s') \<Longrightarrow> pmm_trackers s' = pmm_trackers s"
proof (induction sz szs p s rule: split_down.induct)
  case (2 sz cur szs p s)
  obtain st s1 where e: "split_gpu_chunk p s = (st, s1)" by (metis surj_pair)
  show ?case
  proof (cases "cur = sz")
    case True
    then show ?thesis using "2.prems" by simp
  next
    case False
    show ?thesis
    proof (cases "st = NV_OK")
      case True
      then show ?thesis using "2.prems" "2.IH"[OF False e[symmetric]] False e trackers_split[OF e] by (simp add: Let_def trackers_fold_free)
    next
      case nok: False
      then show ?thesis using "2.prems" False e trackers_split[OF e] trackers_free_with_merges by (auto simp: Let_def)
    qed
  qed
qed simp

section \<open>Allocating a chunk\<close>

text \<open>A fresh tracker has nothing to wait for.\<close>

lemma wait_init: "0 < fuel \<Longrightarrow> uvm_tracker_wait_deinit env fuel uvm_tracker_init \<noteq> None"
proof -
  assume "0 < fuel"
  then obtain n where n: "fuel = Suc n" by (cases fuel) simp_all
  have "uvm_tracker_is_completed (env 0) uvm_tracker_init = (True, uvm_tracker_init)"
    by (simp add: uvm_tracker_is_completed_def uvm_tracker_remove_completed_def uvm_tracker_init_def remove_loop.simps Let_def)
  then show ?thesis by (simp add: n uvm_tracker_wait_deinit_def uvm_tracker_wait_def)
qed

lemma waits_end_fuel: "waits_end w s \<Longrightarrow> 0 < pmm_root_chunks_count s \<Longrightarrow> 0 < pw_fuel w"
  by (cases "pw_fuel w") (auto simp: waits_end_def uvm_tracker_wait_deinit_def uvm_tracker_wait_def)

lemma waits_end_mono:
  assumes "waits_end w s" "pmm_root_chunks_count s' = pmm_root_chunks_count s"
    "\<And>r. r < pmm_root_chunks_count s \<Longrightarrow> pmm_trackers s' r = pmm_trackers s r \<or> pmm_trackers s' r = uvm_tracker_init"
  shows "waits_end w s'"
  unfolding waits_end_def
proof (intro allI impI)
  fix r assume "r < pmm_root_chunks_count s'"
  then have r: "r < pmm_root_chunks_count s" using assms(2) by simp
  then have "0 < pw_fuel w" using waits_end_fuel[OF assms(1)] by linarith
  then show "uvm_tracker_wait_deinit (pw_env w) (pw_fuel w) (pmm_trackers s' r) \<noteq> None"
    using assms(1,3) r wait_init unfolding waits_end_def by metis
qed

text \<open>What an allocation leaves of the trackers.\<close>

definition trackers_fresh :: "uvm_pmm_gpu \<Rightarrow> uvm_pmm_gpu \<Rightarrow> bool" where
  "trackers_fresh s s' \<longleftrightarrow> (\<forall>r. pmm_trackers s' r = pmm_trackers s r \<or> pmm_trackers s' r = uvm_tracker_init)"

lemma alloc_root_result:
  assumes inv: "pmm_inv s" and pma: "pma_ok pma s"
  shows "alloc_result s {} 21 ty (alloc_root_chunk pma ty s)" "trackers_fresh s (snd (snd (alloc_root_chunk pma ty s)))"
proof -
  obtain status pa where p: "pma = (status, pa)" by (metis surj_pair)
  let ?r = "root_chunk_from_address pa"
  show "trackers_fresh s (snd (snd (alloc_root_chunk pma ty s)))"
    by (simp add: alloc_root_chunk_def p Let_def trackers_fresh_def)
  show "alloc_result s {} 21 ty (alloc_root_chunk pma ty s)"
  proof (cases "status = NV_OK")
    case True
    have r: "?r < pmm_root_chunks_count s" "cstate s ?r = UVM_PMM_GPU_CHUNK_STATE_PMA_OWNED" using pma True by (simp_all add: pma_ok_def p)
    let ?s' = "upd_chunk ?r (\<lambda>c. uvm_gpu_chunk_set_state (uvm_gpu_chunk_set_type c ty) UVM_PMM_GPU_CHUNK_STATE_TEMP_PINNED)
        (s\<lparr>pmm_trackers := (pmm_trackers s)(?r := uvm_tracker_init)\<rparr>)"
    have e: "alloc_root_chunk pma ty s = (NV_OK, Some ?r, ?s')" using True by (simp add: alloc_root_chunk_def p Let_def)
    show ?thesis unfolding e using take_root[OF inv r] by (intro claimed_result)
  next
    case False
    then have "alloc_root_chunk pma ty s = (status, None, s)" by (simp add: alloc_root_chunk_def p)
    then show ?thesis using inv changes_refl[of s] False by (simp add: alloc_result_def)
  qed
qed

lemma pma_ok_frame: "pma_ok pma s \<Longrightarrow> ch s' = ch s \<Longrightarrow> pmm_root_chunks_count s' = pmm_root_chunks_count s \<Longrightarrow> pma_ok pma s'"
  by (simp add: pma_ok_def)

lemma alloc_or_evict_none:
  assumes "\<not> (evict \<and> pmm_supports_eviction s)"
  shows "alloc_or_evict_root_chunk al ty evict s = Some (alloc_root_chunk (al_pma al) ty s)"
proof -
  obtain status c s' where r: "alloc_root_chunk (al_pma al) ty s = (status, c, s')" by (metis prod_cases3)
  have "status \<noteq> NV_OK \<Longrightarrow> c = None \<and> s' = s" using r by (auto simp: alloc_root_chunk_def Let_def split: prod.splits if_splits)
  then show ?thesis using assms r by (auto simp: alloc_or_evict_root_chunk_def)
qed

text \<open>Splitting a claimed chunk of size \<open>2 ^ j\<close>.\<close>

lemma split_claimed:
  assumes inv: "pmm_inv s1" and ne: "no_eviction s1" and c: "changes_to s s1 (held s \<union> {p})" "p \<notin> held s" and p: "is_pinned s1 p" "csize s1 p = 2 ^ j" "ctype s1 p = ty"
    and j: "k \<le> j" "j \<le> 21" and k: "bit (pmm_chunk_sizes s ty) k"
  obtains res where "split_down (2 ^ k) (for_each_chunk_size_rev_from (pmm_chunk_sizes s ty) (2 ^ j)) p s1 = Some res" "alloc_result s {} k ty res"
    "pmm_trackers (snd (snd res)) = pmm_trackers s1"
proof -
  have sz: "pmm_chunk_sizes s1 = pmm_chunk_sizes s" and h: "p \<in> held s1" using c(1) by (simp_all add: changes_to_def)
  have e: "cexp s1 p = j" using j(2) by (simp add: cexp_def p(2) fls_log)
  have m: "mask_of s1 p = pmm_chunk_sizes s ty" by (simp add: mask_of_def p(3) sz)
  have j32: "cexp s1 p < 32" using e j(2) by simp
  obtain res where r: "split_down (2 ^ k) (sizes_rev_from 32 (mask_of s1 p) (2 ^ cexp s1 p)) p s1 = Some res" "alloc_result s1 {p} k (ctype s1 p) res"
    using split_down_ok[OF inv ne h p(1) _ _ j32, of k] k j(1) m e by auto
  have "alloc_result s {} k ty res" by (rule alloc_result_after[OF c(1)]) (use c(2) r(2) p(3) in auto)
  moreover have "pmm_trackers (snd (snd res)) = pmm_trackers s1" using r(1) trackers_split_down by (metis prod.collapse)
  ultimately show ?thesis using that r(1) m e by (simp add: for_each_chunk_size_rev_from_def)
qed

lemma alloc_with_splits_ok:
  assumes inv: "pmm_inv s" and ne: "no_eviction s" and k: "k \<le> 21" "bit (pmm_chunk_sizes s ty) k" and pma: "pma_ok (al_pma al) s"
    and evict: "\<not> (evict \<and> pmm_supports_eviction s)"
  shows "\<exists>res. alloc_chunk_with_splits al ty (2 ^ k) evict s = Some res \<and> alloc_result s {} k ty res \<and> trackers_fresh s (snd (snd res))"
proof (cases rule: claim_result[OF inv k])
  case (2 p s1)
  then show ?thesis using claimed_result[OF 2(2-7)] by (auto simp: alloc_chunk_with_splits_def trackers_fresh_def Let_def)
next
  case c1: (1 s1)
  have s1: "pmm_chunk_sizes s1 = pmm_chunk_sizes s" "pmm_root_chunks_count s1 = pmm_root_chunks_count s" "held s1 = held s"
    using c1(3) by (simp_all add: changes_to_def)
  have m: "mask_ok (pmm_chunk_sizes s ty)" using inv_parts(1)[OF inv] by (simp add: tree_ok_def)
  have szs: "\<forall>sz \<in> set (for_each_chunk_size_from (pmm_chunk_sizes s ty) (2 ^ k)). \<exists>j. sz = 2 ^ j \<and> bit (pmm_chunk_sizes s1 ty) j \<and> k \<le> j \<and> j \<le> 21"
    using sizes_from_elem[OF m k(2)] by (simp add: for_each_chunk_size_from_def s1(1))
  have H1: "changes_to s s' H" if "changes_to s1 s' H" "H \<inter> held s \<subseteq> held s" for s' H using changes_to_trans[OF c1(3) that] .
  from claim_bigger_result[OF c1(2) szs] show ?thesis
  proof (elim disjE exE conjE)
    fix p j s2 assume h: "claim_bigger ty (for_each_chunk_size_from (pmm_chunk_sizes s ty) (2 ^ k)) s1 = (Some (p, 2 ^ j), s2)" "pmm_inv s2"
      "changes_to s1 s2 (held s1 \<union> {p})" "is_pinned s2 p" "csize s2 p = 2 ^ j" "ctype s2 p = ty" "p \<notin> held s1" "k \<le> j" "j \<le> 21"
      "pmm_trackers s2 = pmm_trackers s1"
    have c2: "changes_to s s2 (held s \<union> {p})" by (rule H1) (use h(3,7) s1(3) in auto)
    have np: "p \<notin> held s" using h(7) s1(3) by simp
    obtain res where res: "split_down (2 ^ k) (for_each_chunk_size_rev_from (pmm_chunk_sizes s ty) (2 ^ j)) p s2 = Some res"
      "alloc_result s {} k ty res" "pmm_trackers (snd (snd res)) = pmm_trackers s2"
      using split_claimed[OF h(2) no_eviction_changes[OF ne c2] c2 np h(4,5,6,8,9) k(2)] by blast
    then show ?thesis using h c1 by (simp add: alloc_chunk_with_splits_def trackers_fresh_def Let_def)
  next
    fix s2 assume h: "claim_bigger ty (for_each_chunk_size_from (pmm_chunk_sizes s ty) (2 ^ k)) s1 = (None, s2)" "pmm_inv s2"
      "changes_to s1 s2 (held s1)" "ch s2 = ch s1" "pmm_trackers s2 = pmm_trackers s1" "pmm_supports_eviction s2 = pmm_supports_eviction s1"
    have c2: "changes_to s s2 (held s)" by (rule H1) (use h(3) s1(3) in auto)
    have s2: "ch s2 = ch s" "pmm_root_chunks_count s2 = pmm_root_chunks_count s" "held s2 = held s" "pmm_chunk_sizes s2 = pmm_chunk_sizes s"
      using h(4) c1(4) c2 by (simp_all add: changes_to_def)
    have pma2: "pma_ok (al_pma al) s2" using pma_ok_frame[OF pma s2(1,2)] .
    note ar = alloc_root_result[OF h(2) pma2, of ty]
    obtain status c s3 where r: "alloc_root_chunk (al_pma al) ty s2 = (status, c, s3)" by (metis prod_cases3)
    have ae: "alloc_or_evict_root_chunk al ty evict s2 = Some (status, c, s3)"
      using alloc_or_evict_none[of evict s2 al ty] evict h(6) c1(6) r by simp
    have tr: "trackers_fresh s s3" using ar(2) h(5) c1(5) by (simp add: r trackers_fresh_def)
    show ?thesis
    proof (cases "status = NV_OK")
      case False
      then have "alloc_result s2 {} 21 ty (status, c, s3)" "c = None" using ar(1) by (simp_all add: r alloc_result_def)
      then have "changes_to s2 s3 (held s2)" "pmm_inv s3" using False by (simp_all add: alloc_result_def)
      then have "alloc_result s {} k ty (status, None, s3)"
        using changes_to_trans[OF c2] s2(3) False by (intro failed_result) auto
      moreover have "alloc_chunk_with_splits al ty (2 ^ k) evict s = Some (status, None, s3)"
        using c1(1) h(1) ae False by (simp add: alloc_chunk_with_splits_def Let_def)
      ultimately show ?thesis using tr by auto
    next
      case True
      then obtain p where p: "c = Some p" "changes_to s2 s3 (held s2 \<union> {p})" "is_pinned s3 p" "csize s3 p = 2 ^ 21" "ctype s3 p = ty" "p \<notin> held s2" "pmm_inv s3"
        using ar(1) by (auto simp: r alloc_result_def)
      have c3: "changes_to s s3 (held s \<union> {p})" by (rule changes_to_trans[OF c2]) (use p(2,6) s2(3) in auto)
      have np: "p \<notin> held s" using p(6) s2(3) by simp
      obtain res where res: "split_down (2 ^ k) (for_each_chunk_size_rev_from (pmm_chunk_sizes s ty) (2 ^ 21)) p s3 = Some res"
        "alloc_result s {} k ty res" "pmm_trackers (snd (snd res)) = pmm_trackers s3"
        using split_claimed[OF p(7) no_eviction_changes[OF ne c3] c3 np p(3,4,5) k(1) order_refl k(2)] by blast
      have "alloc_chunk_with_splits al ty (2 ^ k) evict s = Some res"
        using c1(1) h(1) ae True p(1) res(1) by (simp add: alloc_chunk_with_splits_def Let_def size_consts)
      then show ?thesis using res tr by (auto simp: trackers_fresh_def)
    qed
  qed
qed

text \<open>Without eviction, allocating a chunk ends; it returns a new one, or fails and changes nothing of the chunks in use.\<close>

lemma alloc_chunk_ok:
  assumes inv: "pmm_inv s" and ne: "no_eviction s" and k: "k \<le> 21" "bit (pmm_chunk_sizes s ty) k" and pma: "pma_ok (al_pma al) s"
    and evict: "\<not> (evict \<and> pmm_supports_eviction s)" and w: "waits_end (ev_waits (al_evict al)) s"
  shows "\<exists>res. alloc_chunk al ty (2 ^ k) evict s = Some res \<and> alloc_result s {} k ty res"
proof (cases rule: claim_result[OF inv k])
  case (2 p s1)
  then show ?thesis using claimed_result[OF 2(2-7)] by (auto simp: alloc_chunk_def)
next
  case c1: (1 s1)
  have s1: "pmm_chunk_sizes s1 = pmm_chunk_sizes s" "pmm_root_chunks_count s1 = pmm_root_chunks_count s" "held s1 = held s"
    using c1(3) by (simp_all add: changes_to_def)
  have pma1: "pma_ok (al_pma al) s1" using pma_ok_frame[OF pma c1(4) s1(2)] .
  have ev1: "\<not> (evict \<and> pmm_supports_eviction s1)" using evict c1(6) by simp
  have ne1: "no_eviction s1" using no_eviction_changes[OF ne c1(3)] .
  have after: "alloc_result s {} k ty res" if "alloc_result s1 {} k ty res" for res
    by (rule alloc_result_after[of s s1 "{}"]) (use c1(3) that in auto)
  have k1: "bit (pmm_chunk_sizes s1 ty) k" using k(2) s1(1) by simp
  show ?thesis
  proof (cases "k = 21")
    case True
    then have sz: "(2 ^ k :: u32) = UVM_CHUNK_SIZE_MAX" by (simp add: size_consts)
    then have "alloc_chunk al ty (2 ^ k) evict s = Some (alloc_root_chunk (al_pma al) ty s1)"
      using c1(1) alloc_or_evict_none[OF ev1] by (simp add: alloc_chunk_def)
    then show ?thesis using after alloc_root_result(1)[OF c1(2) pma1, of ty] True by blast
  next
    case False
    then have sz: "(2 ^ k :: u32) \<noteq> UVM_CHUNK_SIZE_MAX"
    proof -
      have "(2::nat) ^ k < 2 ^ 21" using k(1) False by (intro power_strict_increasing) simp_all
      moreover have "unat (2 ^ k :: u32) = 2 ^ k" using k(1) by (simp add: unat_2_power)
      moreover have "unat (2 ^ 21 :: u32) = 2 ^ 21" by simp
      ultimately have "unat (2 ^ k :: u32) \<noteq> unat (2 ^ 21 :: u32)" by linarith
      then show ?thesis by (metis size_consts(1))
    qed
    obtain res where r: "alloc_chunk_with_splits al ty (2 ^ k) evict s1 = Some res" "alloc_result s1 {} k ty res" "trackers_fresh s1 (snd (snd res))"
      using alloc_with_splits_ok[OF c1(2) ne1 k(1) k1 pma1 ev1] by blast
    obtain status c s2 where res: "res = (status, c, s2)" by (metis prod_cases3)
    show ?thesis
    proof (cases "status = NV_OK")
      case True
      then obtain p where "c = Some p" using r(2) by (auto simp: alloc_result_def res)
      then have "alloc_chunk al ty (2 ^ k) evict s = Some res"
        using c1(1) sz r(1) True by (simp add: alloc_chunk_def res)
      then show ?thesis using after r(2) by blast
    next
      case False
      have f: "pmm_inv s2" "changes_to s1 s2 (held s1)" using r(2) False by (simp_all add: alloc_result_def res)
      have "waits_end (ev_waits (al_evict al)) s2"
        by (rule waits_end_mono[OF w]) (use f(2) s1(2) r(3) c1(5) in \<open>auto simp: changes_to_def trackers_fresh_def res\<close>)
      from free_next_available[OF f(1) this] obtain s3 where s3: "free_next_available_root_chunk (ev_waits (al_evict al)) s2 = Some s3"
        "pmm_inv s3" "changes_to s2 s3 (held s2)" by blast
      have h2: "held s2 = held s1" using f(2) by (simp add: changes_to_def)
      have "changes_to s1 s3 (held s1)" by (rule changes_to_trans[OF f(2)]) (use s3(3) h2 in auto)
      then have "alloc_result s1 {} k ty (status, None, s3)" using s3(2) False by (simp add: alloc_result_def)
      moreover have "alloc_chunk al ty (2 ^ k) evict s = Some (status, None, s3)"
        using c1(1) sz r(1) False s3(1) by (simp add: alloc_chunk_def res)
      ultimately show ?thesis using after by blast
    qed
  qed
qed

text \<open>Chunks in use do not overlap.\<close>

lemma held_disjoint: "pmm_inv s \<Longrightarrow> p \<in> held s \<Longrightarrow> q \<in> held s \<Longrightarrow> p \<noteq> q \<Longrightarrow> span s p \<inter> span s q = {}"
  using leaves_disjoint[OF inv_parts(1)] held_leaf by blast

lemma view_span: "view s' x = view s x \<Longrightarrow> span s' x = span s x"
  by (simp add: view_def span_def cexp_def)

end
