(* ===== verification/Pmm_Proofs.thy ===== *)
theory Pmm_Proofs
  imports Pmm_Alloc_Proofs
begin

text \<open>
  The properties of the physical memory manager: its invariant under any interleaving of critical sections, the
  partition of the memory, allocation and freeing against the set of chunks in use, and what eviction relies on.
\<close>

section \<open>The remaining critical sections\<close>

text \<open>Eviction pins a free chunk it walks over.\<close>

lemma pin_free_inv:
  assumes inv: "pmm_inv s" and p: "is_leaf s p" "is_free s p"
  defines "s' \<equiv> (case cparent (chunk_pin p (list_del_init p s)) p of None \<Rightarrow> chunk_pin p (list_del_init p s)
      | Some q \<Rightarrow> upd_suballoc q (\<lambda>sa. sa\<lparr>sa_allocated := sa_allocated sa + 1\<rparr>) (chunk_pin p (list_del_init p s)))"
  shows "pmm_inv s'"
proof -
  note i = inv_parts[OF inv] and pl = leaf_place[OF inv p(1)]
  have l: "live s p" "chunk_suballoc (ch s p) = None" using p by (simp_all add: is_leaf_def)
  let ?s1 = "chunk_pin p (list_del_init p s)"
  have par: "cparent ?s1 p = cparent s p" by (simp add: chunk_pin_def Let_def l)
  have sh0: "same_shape s (list_del_init p s)" by (rule same_shape_eqI) simp_all
  have "same_shape (list_del_init p s) ?s1"
    using pl l(1) unfolding chunk_pin_def Let_def
    by (cases "cparent s p") (auto intro!: same_shape_trans[OF same_shape_set_state same_shape_suballoc] same_shape_set_state)
  then have sh1: "same_shape s ?s1" using same_shape_trans[OF sh0] by blast
  have "same_shape ?s1 s'"
    using pl(2) same_shape_rest(1)[OF sh1] unfolding s'_def par by (auto split: option.splits intro: same_shape_suballoc)
  then have sh: "same_shape s s'" using same_shape_trans[OF sh1] by blast
  have c: "is_pinned s' p" using pl unfolding s'_def par chunk_pin_def Let_def by (auto split: option.splits)
  have o: "cstate s' q = cstate s q" if "q \<noteq> p" for q
    using that unfolding s'_def par chunk_pin_def Let_def by (auto split: option.splits)
  have ev: "same_eviction s s'" unfolding s'_def par chunk_pin_def Let_def same_eviction_def by (auto split: option.splits)
  show ?thesis
  proof (rule leaf_step[OF inv p(1) sh ev o])
    show "sa_allocated (csub s' q) = sa_allocated (csub s q) + (if cparent s p = Some q then alloc_delta (is_free s p) (is_free s' p) else 0)"
      if "live s q" "chunk_suballoc (ch s q) \<noteq> None" for q
      using that p(2) pl l unfolding c s'_def par chunk_pin_def Let_def
      by (cases "cparent s p") (auto simp: alloc_delta_def option.map_sel)
    show "sa_pinned_leaf_chunks (csub s' r) = sa_pinned_leaf_chunks (csub s r) +
          (if root_chunk_from_chunk s p = r then alloc_delta (\<not> is_pinned s p) (\<not> is_pinned s' p) else 0)"
      if "r < pmm_root_chunks_count s" "chunk_suballoc (ch s r) \<noteq> None" for r
      using that p(2) pl l unfolding c s'_def par chunk_pin_def Let_def
      by (cases "cparent s p") (auto simp: alloc_delta_def option.map_sel)
    show "pmm_free_list s' ty j = removeAll p (pmm_free_list s ty j) @ free_entry s' p ty j" for ty j
      using c by (auto simp: s'_def par chunk_pin_def Let_def free_entry_def split: option.splits)
  qed (use c in simp_all)
qed

text \<open>A pinned root chunk goes back to PMA.\<close>

lemma unpin_pma_inv:
  assumes inv: "pmm_inv s" and p: "is_leaf s p" "is_pinned s p" "cparent s p = None"
  shows "pmm_inv (chunk_unpin p UVM_PMM_GPU_CHUNK_STATE_PMA_OWNED s)"
proof -
  note i = inv_parts[OF inv] and pl = leaf_place(1)[OF inv p(1,3)]
  have l: "live s p" "chunk_suballoc (ch s p) = None" using p by (simp_all add: is_leaf_def)
  have e: "chunk_unpin p UVM_PMM_GPU_CHUNK_STATE_PMA_OWNED s = set_cstate p UVM_PMM_GPU_CHUNK_STATE_PMA_OWNED s"
    using pl by (simp add: chunk_unpin_def Let_def)
  have pr: "p < pmm_root_chunks_count s" using root_facts(1)[OF i(1) l(1) p(3)] .
  have off: "p \<notin> set (pmm_free_list s ty j)" for ty j using off_lists[OF i(4)] p(2) by simp
  show ?thesis unfolding e
    by (rule leaf_step[OF inv p(1) same_shape_set_state[OF l(1)]])
      (use p l pr off pl in \<open>auto simp: same_eviction_def alloc_delta_def free_entry_def\<close>)
qed

text \<open>The eviction flag of a root chunk. It is cleared when no chunk under it is free.\<close>

lemma eviction_flag_inv:
  assumes inv: "pmm_inv s" and r: "r < pmm_root_chunks_count s"
    and e: "\<not> e \<Longrightarrow> \<forall>x. live s x \<longrightarrow> root_chunk_from_chunk s x = r \<longrightarrow> \<not> is_free s x"
  defines "s' \<equiv> upd_chunk r (\<lambda>c. uvm_gpu_chunk_set_in_eviction c e) s"
  shows "pmm_inv s'"
proof -
  note i = inv_parts[OF inv]
  have l: "live s r" using i(1) r by (simp add: tree_ok_def)
  have sh: "same_shape s s'" unfolding s'_def using l by (intro same_shape_upd_chunk) simp_all
  note f = same_shape_facts[OF sh] and rr = same_shape_rest[OF sh]
  have c: "cstate s' x = cstate s x" "chunk_suballoc (ch s' x) = chunk_suballoc (ch s x)" "pmm_free_list s' = pmm_free_list s" for x
    by (simp_all add: s'_def)
  have "states_ok s'" using i(2) by (simp add: states_ok_def rr c used_children_def)
  moreover have "pinned_leaves s' x = pinned_leaves s x" for x using f(9) by (auto simp: pinned_leaves_def is_leaf_def rr c)
  then have "pins_ok s'" using i(3) by (simp add: pins_ok_def rr c)
  moreover have fs: "free_set s' ty j = free_set s ty j" for ty j using f by (auto simp: free_set_def rr c)
  have "lists_ok s'" unfolding lists_ok_def fs c(3)
  proof (intro allI conjI ballI impI)
    fix ty j
    have d: "distinct (pmm_free_list s ty j)" "set (pmm_free_list s ty j) \<subseteq> free_set s ty j"
      "\<And>x. x \<in> free_set s ty j \<Longrightarrow> \<not> chunk_is_in_eviction s x \<Longrightarrow> x \<in> set (pmm_free_list s ty j)"
      using i(4) by (auto simp: lists_ok_def)
    show "distinct (pmm_free_list s ty j)" "set (pmm_free_list s ty j) \<subseteq> free_set s ty j" using d by blast+
    show "x \<in> set (pmm_free_list s ty j)" if x: "x \<in> free_set s ty j" "\<not> chunk_is_in_eviction s' x" for x
    proof (rule d(3)[OF x(1)])
      have lx: "live s x" "is_free s x" using x(1) by (simp_all add: free_set_def)
      show "\<not> chunk_is_in_eviction s x"
        using x(2) f(9)[OF lx(1)] e lx by (cases "root_chunk_from_chunk s x = r") (auto simp: chunk_is_in_eviction_def s'_def)
    qed
  qed
  ultimately show ?thesis using same_shape_tree[OF sh i(1)] by (simp add: pmm_inv_def)
qed

lemma del_evicted_inv:
  assumes inv: "pmm_inv s" and p: "chunk_is_in_eviction s p \<or> \<not> is_free s p"
  shows "pmm_inv (list_del_init p s)"
proof (rule inv_frame[OF inv])
  note i = inv_parts[OF inv]
  have fs: "free_set (list_del_init p s) ty j = free_set s ty j" for ty j
    by (simp add: free_set_def find_free_list_chunk_def find_free_list_def)
  have "distinct (pmm_free_list s ty j)" "set (pmm_free_list s ty j) \<subseteq> free_set s ty j" for ty j
    using i(4) by (auto simp: lists_ok_def)
  moreover have "x \<in> set (pmm_free_list s ty j) \<and> x \<noteq> p" if "x \<in> free_set s ty j" "\<not> chunk_is_in_eviction s x" for x ty j
    using i(4) that p by (auto simp: lists_ok_def free_set_def)
  ultimately show "lists_ok (list_del_init p s)" by (fastforce simp: lists_ok_def fs distinct_removeAll)
qed simp_all

lemma del_then_flag: "upd_chunk r f (list_del_init p s) = list_del_init p (upd_chunk r f s)"
  by (simp add: upd_chunk_def list_del_init_def ch_def)

lemma start_eviction_inv:
  assumes inv: "pmm_inv s" and p: "live s p"
  shows "pmm_inv (chunk_start_eviction p s)"
proof -
  let ?r = "root_chunk_from_chunk s p"
  have r: "?r < pmm_root_chunks_count s" using root_of_eq(2)[OF inv_parts(1)[OF inv] p] .
  let ?s1 = "upd_chunk ?r (\<lambda>c. uvm_gpu_chunk_set_in_eviction c True) s"
  have i1: "pmm_inv ?s1" by (rule eviction_flag_inv[OF inv r]) simp
  have lr: "live s ?r" "cparent s ?r = None" using root_live[OF inv_parts(1)[OF inv] r] by simp_all
  have "root_chunk_from_chunk s ?r = ?r" using root_of_root[OF inv_parts(1)[OF inv] lr] .
  then have "chunk_is_in_eviction ?s1 ?r" by (simp add: chunk_is_in_eviction_def)
  then show ?thesis using del_evicted_inv[OF i1, of ?r] by (simp add: chunk_start_eviction_def Let_def del_then_flag)
qed

lemma clear_eviction_inv:
  assumes inv: "pmm_inv s" and r: "r < pmm_root_chunks_count s"
    and n: "\<And>x. live s x \<Longrightarrow> root_chunk_from_chunk s x = r \<Longrightarrow> \<not> is_free s x"
  shows "pmm_inv (upd_chunk r (\<lambda>c. uvm_gpu_chunk_set_in_eviction c False) s)"
  by (rule eviction_flag_inv[OF inv r]) (use n in blast)

text \<open>The lists of root chunks with pages of VA blocks only order eviction.\<close>

lemma move_used_inv:
  assumes inv: "pmm_inv s" and p: "live s p" "\<not> is_free s p"
  shows "pmm_inv (list_move_tail_used p s)" "pmm_inv (list_move_tail_unused p s)"
proof -
  have off: "removeAll p (pmm_free_list s ty i) = pmm_free_list s ty i" for ty i
    using off_lists[OF inv_parts(4)[OF inv] p(2), of ty i] by (rule removeAll_id)
  have fl: "pmm_free_list (list_move_tail_used p s) ty i = pmm_free_list s ty i"
    "pmm_free_list (list_move_tail_unused p s) ty i = pmm_free_list s ty i" for ty i
    using off by (simp_all add: list_move_tail_used_def list_move_tail_unused_def list_del_init_def Let_def)
  have ch: "ch (list_move_tail_used p s) = ch s" "ch (list_move_tail_unused p s) = ch s"
    by (simp_all add: list_move_tail_used_def list_move_tail_unused_def list_del_init_def Let_def ch_def fun_eq_iff)
  have sh: "same_shape s (list_move_tail_used p s)" "same_shape s (list_move_tail_unused p s)"
    using ch by (simp_all add: same_shape_def shape_def live_def list_move_tail_used_def list_move_tail_unused_def list_del_init_def Let_def)
  show "pmm_inv (list_move_tail_used p s)"
    by (rule quiet_step[OF inv sh(1)]) (simp_all add: ch fl off same_eviction_def)
  show "pmm_inv (list_move_tail_unused p s)"
    by (rule quiet_step[OF inv sh(2)]) (simp_all add: ch fl off same_eviction_def)
qed

lemma trackers_inv: "pmm_inv s \<Longrightarrow> pmm_inv (s\<lparr>pmm_trackers := ts\<rparr>)"
  by (erule quiet_step) (simp_all add: same_shape_def shape_def live_def same_eviction_def ch_def)

lemma free_root_inv:
  assumes inv: "pmm_inv s" and p: "is_leaf s r" "is_pinned s r" "cparent s r = None" and e: "free_root_chunk w r mode s = Some s'"
  shows "pmm_inv s'"
proof -
  obtain status t where w: "uvm_tracker_wait_deinit (pw_env w) (pw_fuel w) (pmm_trackers s r) = Some (status, t)"
    using e by (auto simp: free_root_chunk_def split: option.splits)
  let ?s0 = "s\<lparr>pmm_trackers := (pmm_trackers s)(r := t)\<rparr>"
  have "is_leaf ?s0 r" "is_pinned ?s0 r" "cparent ?s0 r = None" using p by (simp_all add: is_leaf_def live_def ch_def)
  then have i: "pmm_inv (chunk_unpin r UVM_PMM_GPU_CHUNK_STATE_PMA_OWNED ?s0)" by (intro unpin_pma_inv[OF trackers_inv[OF inv]])
  show ?thesis using e i inv_pma_freed[OF i] by (auto simp: free_root_chunk_def w Let_def split: if_splits)
qed

lemma try_free_inv:
  assumes inv: "pmm_inv s" and p: "p \<in> held s" and ev: "chunk_is_in_eviction s p \<Longrightarrow> \<not> is_pinned s p"
  shows "pmm_inv (snd (try_chunk_free p s))"
proof (cases "chunk_is_last_allocated_child s p")
  case False
  note h = held_leaf[OF p]
  show ?thesis
  proof (cases "chunk_is_in_eviction s p")
    case True
    then show ?thesis using free_locked_evicted_inv(1)[OF inv] h ev False by (simp add: try_chunk_free_def)
  qed (use False free_locked_inv[OF inv] h in \<open>simp add: try_chunk_free_def\<close>)
qed (simp add: try_chunk_free_def inv)

lemma prepare_inv:
  assumes inv: "pmm_inv s" and p: "p \<in> held s" and ev: "\<not> chunk_is_in_eviction s p"
  shows "pmm_inv (snd (free_or_prepare_for_merge p s))"
proof -
  note h = held_leaf[OF p]
  consider (root) "cparent s p = None" | (last) q where "cparent s p = Some q" "sa_allocated (csub s q) = 1"
    | (more) q where "cparent s p = Some q" "sa_allocated (csub s q) \<noteq> 1" by fastforce
  then show ?thesis
  proof cases
    case root
    then show ?thesis using try_free_inv[OF inv p] ev by (simp add: free_or_prepare_for_merge_def)
  next
    case last
    obtain s' where "free_or_prepare_for_merge p s = (Some q, s')" "pmm_inv s'"
      using prepare_step[OF inv _ _ ev last] h by blast
    then show ?thesis by simp
  next
    case more
    then have "\<not> chunk_is_last_allocated_child s p" by (simp add: chunk_is_last_allocated_child_def)
    then show ?thesis using free_locked_inv[OF inv _ _ ev] h more(1) by (simp add: free_or_prepare_for_merge_def Let_def)
  qed
qed

lemma split_step_inv:
  assumes inv: "pmm_inv s" and p: "p \<in> held s" and sub: "sub_exp s p \<noteq> 22"
  shows "pmm_inv (snd (split_gpu_chunk p s))"
proof -
  note h = held_leaf[OF p]
  show ?thesis
  proof (rule split_cases[OF inv _ _ sub])
    show "is_leaf s p" "cstate s p = UVM_PMM_GPU_CHUNK_STATE_ALLOCATED \<or> is_pinned s p" using h by simp_all
    fix calls assume "split_gpu_chunk p s = (NV_ERR_NO_MEMORY, s\<lparr>pmm_calls := calls\<rparr>)" "pmm_calls s \<le> calls"
    then show ?thesis using calls_step(1)[OF inv] by simp
  next
    fix s' b calls assume "split_gpu_chunk p s = (NV_OK, s')" "split_effect s p s' b calls"
    then show ?thesis using split_inv[OF inv _ _ sub] h by simp
  qed
qed

section \<open>The manager under any interleaving\<close>

text \<open>
  One critical section of the manager, with what its caller guarantees: a chunk is freed, pinned or split by
  the one that holds it, PMA hands out root chunks it owns, and the eviction of a root chunk ends when all its
  chunks are pinned or in use.
\<close>

inductive pmm_step :: "uvm_pmm_gpu \<Rightarrow> uvm_pmm_gpu \<Rightarrow> bool" where
  claim: "k \<le> 21 \<Longrightarrow> bit (pmm_chunk_sizes s ty) k \<Longrightarrow> pmm_step s (snd (claim_free_chunk ty (2 ^ k) s))"
| from_pma: "pma_ok pma s \<Longrightarrow> pmm_step s (snd (snd (alloc_root_chunk pma ty s)))"
| split: "p \<in> held s \<Longrightarrow> sub_exp s p \<noteq> 22 \<Longrightarrow> pmm_step s (snd (split_gpu_chunk p s))"
| unpin_user: "p \<in> held s \<Longrightarrow> is_pinned s p \<Longrightarrow> pmm_step s (uvm_pmm_gpu_unpin_temp p b s)"
| unpin_kernel: "p \<in> held s \<Longrightarrow> is_pinned s p \<Longrightarrow> pmm_step s (chunk_unpin p UVM_PMM_GPU_CHUNK_STATE_ALLOCATED s)"
| try_free: "p \<in> held s \<Longrightarrow> (chunk_is_in_eviction s p \<Longrightarrow> \<not> is_pinned s p) \<Longrightarrow> pmm_step s (snd (try_chunk_free p s))"
| prepare: "p \<in> held s \<Longrightarrow> \<not> chunk_is_in_eviction s p \<Longrightarrow> pmm_step s (snd (free_or_prepare_for_merge p s))"
| merge: "mergeable s q st \<Longrightarrow> pmm_step s (merge_gpu_chunk q s)"
| to_pma: "r \<in> held s \<Longrightarrow> is_pinned s r \<Longrightarrow> cparent s r = None \<Longrightarrow> free_root_chunk w r mode s = Some s' \<Longrightarrow> pmm_step s s'"
| start_eviction: "live s p \<Longrightarrow> pmm_step s (chunk_start_eviction p s)"
| pin_free: "is_leaf s p \<Longrightarrow> is_free s p \<Longrightarrow> pin_free_chunks_func p () s = Some (status, u, s') \<Longrightarrow> pmm_step s s'"
| evicted: "p \<in> held s \<Longrightarrow> cstate s p = UVM_PMM_GPU_CHUNK_STATE_ALLOCATED \<Longrightarrow> pmm_step s (uvm_pmm_gpu_mark_chunk_evicted p s)"
| end_eviction: "r < pmm_root_chunks_count s \<Longrightarrow> (\<And>x. live s x \<Longrightarrow> root_chunk_from_chunk s x = r \<Longrightarrow> \<not> is_free s x) \<Longrightarrow>
    pmm_step s (upd_chunk r (\<lambda>c. uvm_gpu_chunk_set_in_eviction c False) s)"
| mark_used: "live s p \<Longrightarrow> \<not> is_free s p \<Longrightarrow> pmm_step s (uvm_pmm_gpu_mark_root_chunk_used p s)"
| mark_unused: "live s p \<Longrightarrow> \<not> is_free s p \<Longrightarrow> pmm_step s (uvm_pmm_gpu_mark_root_chunk_unused p s)"

inductive pmm_reachable :: "uvm_pmm_gpu \<Rightarrow> bool" where
  init: "(\<And>ty. mask_ok (init_chunk_sizes u k m ty)) \<Longrightarrow> unat vm \<le> 2 ^ 38 \<Longrightarrow> pmm_reachable (init_state u k m vm ev kmem)"
| step: "pmm_reachable s \<Longrightarrow> pmm_step s s' \<Longrightarrow> pmm_reachable s'"

lemma alloc_result_inv: "alloc_result s P k ty res \<Longrightarrow> pmm_inv (snd (snd res))"
  by (auto simp: alloc_result_def split: prod.splits)

lemma pmm_step_inv:
  assumes "pmm_step s s'" "pmm_inv s"
  shows "pmm_inv s'"
  using assms
proof (induction rule: pmm_step.induct)
  case (claim k s ty)
  show ?case by (rule claim_result[OF claim(3,1,2)]) simp_all
next
  case (from_pma pma s ty)
  show ?case using alloc_result_inv[OF alloc_root_result(1)[OF from_pma(2,1)]] .
next
  case (split p s)
  then show ?case by (intro split_step_inv)
next
  case (unpin_user p s b)
  then show ?case using unpin_temp_inv(1) held_leaf by blast
next
  case (unpin_kernel p s)
  then show ?case using unpin_inv(1) held_leaf by blast
next
  case (try_free p s)
  then show ?case by (intro try_free_inv)
next
  case (prepare p s)
  then show ?case by (intro prepare_inv)
next
  case (merge s q st)
  then show ?case using merge_inv merge_effect by blast
next
  case (to_pma r s w mode s')
  then show ?case using free_root_inv held_leaf by blast
next
  case (start_eviction s p)
  then show ?case by (intro start_eviction_inv)
next
  case (pin_free s p status u s')
  then show ?case using pin_free_inv[OF pin_free(4,1,2)] by (simp add: pin_free_chunks_func_def Let_def)
next
  case (evicted p s)
  then show ?case using pin_inv(1) held_leaf by (simp add: uvm_pmm_gpu_mark_chunk_evicted_def)
next
  case (end_eviction r s)
  then show ?case by (intro clear_eviction_inv)
next
  case (mark_used s p)
  then show ?case using move_used_inv(1) by (simp add: uvm_pmm_gpu_mark_root_chunk_used_def)
next
  case (mark_unused s p)
  then show ?case using move_used_inv(2) by (simp add: uvm_pmm_gpu_mark_root_chunk_unused_def)
qed

lemma pmm_reachable_inv: "pmm_reachable s \<Longrightarrow> pmm_inv s"
proof (induction rule: pmm_reachable.induct)
  case (init u k m vm ev kmem)
  then show ?case by (rule pmm_init_inv)
next
  case (step s s')
  then show ?case using pmm_step_inv by blast
qed

lemma partition_ok:
  assumes inv: "pmm_inv s" and x: "x < pmm_root_chunks_count s * 2 ^ 21"
  shows "\<exists>!p. is_leaf s p \<and> x \<in> span s p"
proof -
  note t = inv_parts(1)[OF inv]
  let ?r = "x div 2 ^ 21"
  have r: "?r < pmm_root_chunks_count s" using x by (simp add: less_mult_imp_div_less)
  note l = root_live[OF t r]
  note f = root_facts[OF t conjunct1[OF l] conjunct2[OF l]]
  have "x \<in> span s ?r"
    unfolding span_def f(2,3) using div_mult_mod_eq[of x "2 ^ 21"] mod_less_divisor[of "2 ^ 21" x] by auto
  then obtain p where p: "is_leaf s p" "x \<in> span s p" using leaves_cover[OF t conjunct1[OF l] _ refl] by blast
  show ?thesis
  proof (rule ex1I[of _ p])
    show "q = p" if "is_leaf s q \<and> x \<in> span s q" for q
      using leaves_disjoint[OF t p(1), of q] p(2) that by blast
  qed (use p in simp)
qed

section \<open>The abstract allocator\<close>

text \<open>What the manager promises its callers: a map from the chunks in use to their address, size, type and state.\<close>

definition allocation ::
  "uvm_pmm_gpu \<Rightarrow> chunk_ptr \<Rightarrow> (u64 \<times> uvm_chunk_size_t \<times> uvm_pmm_gpu_memory_type \<times> uvm_pmm_gpu_chunk_state) option" where
  "allocation s p = (if p \<in> held s then Some (view s p) else None)"

lemma changes_allocation:
  assumes "changes_to s s' H" "H \<subseteq> held s"
  shows "allocation s' = (\<lambda>p. if p \<in> H then allocation s p else None)"
  using assms by (auto simp: changes_to_def allocation_def fun_eq_iff)

lemma alloc_changes_allocation:
  assumes "changes_to s s' (held s \<union> {x})" "x \<notin> held s"
  shows "allocation s' = (allocation s)(x := Some (view s' x))"
  using assms by (auto simp: changes_to_def allocation_def fun_eq_iff)

lemma free_allocation:
  assumes inv: "pmm_inv s" and p: "p \<in> held s" and ev: "\<not> chunk_is_in_eviction s p" and w: "waits_end w s"
  shows "\<exists>s'. free_chunk w p s = Some s' \<and> pmm_inv s' \<and> allocation s' = (allocation s)(p := None)"
proof -
  obtain s' where s': "free_chunk w p s = Some s'" "pmm_inv s'" "changes_to s s' (held s - {p})"
    using free_chunk_ok[OF assms] by blast
  have "allocation s' = (allocation s)(p := None)"
    using changes_allocation[OF s'(3)] by (auto simp: allocation_def fun_eq_iff)
  then show ?thesis using s' by blast
qed

lemma evictable_facts:
  assumes inv: "pmm_inv s" and p: "live s p" and e: "chunk_is_evictable s p"
    and x: "is_leaf s x" "root_chunk_from_chunk s x = root_chunk_from_chunk s p"
  shows "is_free s x \<or> cstate s x = UVM_PMM_GPU_CHUNK_STATE_ALLOCATED"
proof -
  note i = inv_parts[OF inv]
  let ?r = "root_chunk_from_chunk s p"
  have r: "?r < pmm_root_chunks_count s" using root_of_eq(2)[OF i(1) p] .
  note lr = root_live[OF i(1) r]
  have rr: "root_chunk_from_chunk s ?r = ?r" using root_of_root[OF i(1)] lr by blast
  have n: "cstate s ?r \<noteq> UVM_PMM_GPU_CHUNK_STATE_PMA_OWNED" "\<not> is_pinned s ?r"
      "is_split s ?r \<Longrightarrow> sa_pinned_leaf_chunks (csub s ?r) = 0"
    using e by (auto simp: chunk_is_evictable_def Let_def chunk_is_root_chunk_pinned_def word_gt_0 split: if_splits)
  have "\<not> is_split s x" using leaf_not_split[OF i(2) x(1)] .
  moreover have "cstate s x \<noteq> UVM_PMM_GPU_CHUNK_STATE_PMA_OWNED \<and> \<not> is_pinned s x"
  proof (cases "chunk_suballoc (ch s ?r) = None")
    case True
    then have "x = ?r" using root_leaf_unique[OF i(1), of ?r x] lr x by (simp add: is_leaf_def)
    then show ?thesis using n by simp
  next
    case False
    then have "is_split s ?r" using i(2) lr by (simp add: states_ok_def)
    then have "card (pinned_leaves s ?r) = 0" using n(3) i(3) r False by (metis pins_ok_def unat_0)
    then have "pinned_leaves s ?r = {}" using pinned_leaves_small(1)[OF i(1)] by simp
    then have np: "\<not> is_pinned s x" using x by (auto simp: pinned_leaves_def)
    have "x \<noteq> ?r" using False x(1) by (auto simp: is_leaf_def)
    moreover have "root_chunk_from_chunk s x = x" if "x < pmm_root_chunks_count s"
      using root_of_root[OF i(1)] root_live[OF i(1) that] by blast
    ultimately have "\<not> x < pmm_root_chunks_count s" using x(2) by metis
    then have "cstate s x \<noteq> UVM_PMM_GPU_CHUNK_STATE_PMA_OWNED" using i(2) x(1) by (auto simp: states_ok_def is_leaf_def)
    then show ?thesis using np by simp
  qed
  ultimately show ?thesis by (cases "cstate s x") auto
qed

lemma split_allocation:
  assumes inv: "pmm_inv s" and p: "p \<in> held s" and sub: "sub_exp s p \<noteq> 22" and e: "split_gpu_chunk p s = (NV_OK, s')"
  shows "pmm_inv s'" "mergeable s' p (cstate s p)" "pmm_inv (merge_gpu_chunk p s')" "allocation (merge_gpu_chunk p s') = allocation s"
proof -
  have pl: "is_leaf s p" "cstate s p = UVM_PMM_GPU_CHUNK_STATE_ALLOCATED \<or> is_pinned s p" using held_leaf[OF p] by simp_all
  obtain b calls where ef: "split_effect s p s' b calls"
  proof (rule split_cases[OF inv pl sub])
    show thesis if "split_gpu_chunk p s = (NV_ERR_NO_MEMORY, s\<lparr>pmm_calls := c\<rparr>)" for c using that e by simp
    show thesis if "split_gpu_chunk p s = (NV_OK, t)" "split_effect s p t b' c" for t b' c using that e \<open>\<And>b calls. split_effect s p s' b calls \<Longrightarrow> thesis\<close> by simp
  qed
  note st = split_tree[OF inv pl sub e] and sc = split_effect_chunks[OF ef]
  show i': "pmm_inv s'" using split_inv[OF inv pl sub ef e] .
  show m: "mergeable s' p (cstate s p)"
    using st(2,5,6) pl inv_parts(2)[OF i'] split_effect_split(2)[OF ef] by (auto simp: mergeable_def is_leaf_def)
  note me = merge_effect[OF i' m]
  note mf = merge_effect_facts[OF me]
  show "pmm_inv (merge_gpu_chunk p s')" using merge_inv[OF i' m me] .
  let ?s2 = "merge_gpu_chunk p s'"
  have l: "live ?s2 x = live s x" for x using mf(5)[of x] st(5,6)[of x] by blast
  have v: "view ?s2 x = view s x \<and> is_leaf ?s2 x = is_leaf s x" if "live s x" for x
    using mf(6)[of x] mf(7)[of x] mf(8,9) sc(3)[OF that] sc(5)[OF that] l[of x] that pl
    by (cases "x = p") (auto simp: view_def is_leaf_def)
  have "x \<in> held ?s2 \<longleftrightarrow> x \<in> held s" for x
    using v[of x] l[of x] by (auto simp: held_def is_leaf_def view_def)
  then show "allocation ?s2 = allocation s" using v held_leaf by (fastforce simp: allocation_def fun_eq_iff is_leaf_def)
qed

end
