(* ===== verification/Pmm_Contract.thy ===== *)
theory Pmm_Contract
  imports Pmm_Proofs
begin

text \<open>
  What the physical memory manager (\<^verbatim>\<open>uvm8_pmm_gpu.c\<close>) promises its callers: memory is partitioned in every
  reachable state, allocating adds a chunk that overlaps none in use, freeing removes exactly the chunk freed,
  splitting and merging keep the memory covered, and eviction only starts on root chunks without pinned chunks.
\<close>

section \<open>A small GPU\<close>

text \<open>4 MB of memory, kernel chunks of 64 KB and 2 MB, one root chunk allocated in the second state.\<close>

definition example_pmm :: uvm_pmm_gpu where
  "example_pmm = init_state 0 0x10000 0 0x400000 False (\<lambda>_. True)"

definition example_waits :: pmm_waits where
  "example_waits = \<lparr>pw_env = \<lambda>_. sample_snapshot 0, pw_fuel = 1, pw_kv = \<lambda>_ _. None\<rparr>"

definition example_alloc :: alloc_env where
  "example_alloc = \<lparr>al_pma = (NV_OK, 0),
     al_evict = \<lparr>ev_block = \<lambda>n b r s. (NV_OK, uvm_tracker_init, s), ev_pin = \<lambda>_. NV_OK, ev_waits = example_waits, ev_walk_fuel = 0\<rparr>,
     al_evict_fuel = 0, al_tries = 0\<rparr>"

definition example_used :: uvm_pmm_gpu where
  "example_used = snd (snd (alloc_root_chunk (NV_OK, 0) UVM_PMM_GPU_MEMORY_TYPE_KERNEL example_pmm))"

lemma mask_okI:
  assumes "bit m 21" "m < (0x400000 :: u32)"
  shows "mask_ok m"
proof -
  have "unat m < 2 ^ 22" using assms(2) by (simp add: word_less_nat_alt)
  then have "i \<le> 21" if "bit m i" for i
    using bit_le_unat[OF that] power_increasing_iff[of "2::nat" 22 i] by (simp del: power_increasing_iff)
  then show ?thesis using assms(1) by (fastforce simp: mask_ok_def)
qed

lemma example_masks: "mask_ok (init_chunk_sizes 0 0x10000 0 ty)"
  by (cases ty) (auto intro!: mask_okI simp: init_chunk_sizes_def UVM_CHUNK_SIZE_MAX_def bit_simps)

lemma example_reachable: "pmm_reachable example_pmm"
  unfolding example_pmm_def using example_masks by (intro pmm_reachable.init) simp_all

lemma example_inv: "pmm_inv example_pmm" using pmm_reachable_inv[OF example_reachable] .

lemma example_count: "pmm_root_chunks_count example_pmm = 2"
  by (simp add: example_pmm_def init_state_def init_count)

lemma example_chunks: "p < 2 \<Longrightarrow> pmm_chunks example_pmm p = Some (init_root_chunk p)"
  using example_count by (simp add: example_pmm_def init_state_def)

lemma example_no_eviction: "no_eviction example_pmm"
proof -
  have k: "uvm_gpu_chunk_is_in_eviction (c\<lparr>chunk_address := a\<rparr>) = uvm_gpu_chunk_is_in_eviction c" for c a
    by (simp add: flag_bits)
  have "\<not> uvm_gpu_chunk_is_in_eviction (init_root_chunk r)" for r
    unfolding init_root_chunk_def size_consts k by (subst size_laws) (simp_all add: flag_bits bit_set_state)
  then show ?thesis using example_count example_chunks by (simp add: no_eviction_def ch_def)
qed

lemma example_pma: "pma_ok (NV_OK, 0) example_pmm"
  using example_count example_chunks init_root_chunk_facts(1)
  by (simp add: pma_ok_def root_chunk_from_address_def ch_def)

lemma example_waits_end: "waits_end example_waits example_pmm"
  using wait_init by (simp add: waits_end_def example_waits_def example_pmm_def init_state_def)

lemma example_held: "held example_pmm = {}"
  using example_chunks init_root_chunk_facts(1) example_count
  by (auto simp: held_def is_leaf_def live_def ch_def example_pmm_def init_state_def split: if_splits)

lemma example_used_facts:
  "pmm_inv example_used" "held example_used = {0}" "is_pinned example_used 0" "csize example_used 0 = 2 ^ 21"
  "ctype example_used 0 = UVM_PMM_GPU_MEMORY_TYPE_KERNEL" "no_eviction example_used" "waits_end example_waits example_used"
proof -
  have r: "alloc_root_chunk (NV_OK, 0) UVM_PMM_GPU_MEMORY_TYPE_KERNEL example_pmm = (NV_OK, Some 0, example_used)"
    by (simp add: alloc_root_chunk_def example_used_def root_chunk_from_address_def Let_def)
  note a = alloc_root_result[OF example_inv example_pma, of UVM_PMM_GPU_MEMORY_TYPE_KERNEL, unfolded r]
  have c: "changes_to example_pmm example_used (held example_pmm \<union> {0})" using a(1) by (auto simp: alloc_result_def)
  show "pmm_inv example_used" "is_pinned example_used 0" "csize example_used 0 = 2 ^ 21" "ctype example_used 0 = UVM_PMM_GPU_MEMORY_TYPE_KERNEL"
    using a(1) by (simp_all add: alloc_result_def)
  show "held example_used = {0}" using c by (simp add: changes_to_def example_held)
  show "no_eviction example_used" using no_eviction_changes[OF example_no_eviction c] .
  show "waits_end example_waits example_used"
    using a(2) c by (intro waits_end_mono[OF example_waits_end]) (simp_all add: changes_to_def trackers_fresh_def)
qed

section \<open>Every reachable state\<close>





section \<open>Allocating and freeing\<close>

text \<open>
  C6. Allocating a chunk of a supported size, with the root chunk that PMA may hand out, adds to the chunks in use
  one pinned chunk of the size and type asked for that overlaps none of them, or fails and leaves the chunks in
  use as they are; either way no other chunk in use changes.
\<close>

theorem alloc_chunk_correct:
  assumes "pmm_inv s" "no_eviction s" "k \<le> 21" "bit (pmm_chunk_sizes s ty) k" "pma_ok (al_pma al) s"
    "\<not> (evict \<and> pmm_supports_eviction s)" "waits_end (ev_waits (al_evict al)) s"
  shows "\<exists>status c s'. alloc_chunk al ty (2 ^ k) evict s = Some (status, c, s') \<and> pmm_inv s' \<and>
    (if status = NV_OK then
       \<exists>x. c = Some x \<and> x \<notin> held s \<and>
         allocation s' = (allocation s)(x := Some (caddr s' x, 2 ^ k, ty, UVM_PMM_GPU_CHUNK_STATE_TEMP_PINNED)) \<and>
         (\<forall>y \<in> held s. span s' y = span s y \<and> span s' x \<inter> span s y = {})
     else c = None \<and> allocation s' = allocation s)"
proof -
  obtain status c s' where e: "alloc_chunk al ty (2 ^ k) evict s = Some (status, c, s')" and r: "alloc_result s {} k ty (status, c, s')"
    using alloc_chunk_ok[OF assms] by force
  have i: "pmm_inv s'" using r by (simp add: alloc_result_def)
  have "\<exists>x. c = Some x \<and> x \<notin> held s \<and>
         allocation s' = (allocation s)(x := Some (caddr s' x, 2 ^ k, ty, UVM_PMM_GPU_CHUNK_STATE_TEMP_PINNED)) \<and>
         (\<forall>y \<in> held s. span s' y = span s y \<and> span s' x \<inter> span s y = {})" if ok: "status = NV_OK"
  proof -
    obtain x where x: "c = Some x" "changes_to s s' (held s \<union> {x})" "is_pinned s' x" "csize s' x = 2 ^ k" "ctype s' x = ty" "x \<notin> held s"
      using r ok by (auto simp: alloc_result_def)
    have h: "held s' = held s \<union> {x}" "\<And>y. y \<in> held s \<Longrightarrow> view s' y = view s y" using x(2) by (auto simp: changes_to_def)
    have "span s' y = span s y \<and> span s' x \<inter> span s y = {}" if y: "y \<in> held s" for y
      using view_span[OF h(2)[OF y]] held_disjoint[OF i, of x y] h(1) x(6) y by auto
    moreover have "allocation s' = (allocation s)(x := Some (caddr s' x, 2 ^ k, ty, UVM_PMM_GPU_CHUNK_STATE_TEMP_PINNED))"
      using alloc_changes_allocation[OF x(2,6)] x(3,4,5) by (simp add: view_def)
    ultimately show ?thesis using x(1,6) by blast
  qed
  moreover have "c = None \<and> allocation s' = allocation s" if "status \<noteq> NV_OK"
    using r that changes_allocation[of s s' "held s"] by (auto simp: alloc_result_def allocation_def fun_eq_iff)
  ultimately show ?thesis using e i by auto
qed

theorem alloc_chunk_correct_witness:
  "\<exists>status c s'. alloc_chunk example_alloc UVM_PMM_GPU_MEMORY_TYPE_KERNEL (2 ^ 16) False example_pmm = Some (status, c, s') \<and> pmm_inv s'"
  using alloc_chunk_correct[OF example_inv example_no_eviction, of 16 UVM_PMM_GPU_MEMORY_TYPE_KERNEL example_alloc False]
    example_pma example_waits_end
  by (auto simp: example_alloc_def example_pmm_def init_state_def init_chunk_sizes_def UVM_CHUNK_SIZE_MAX_def bit_simps)



text \<open>
  A chunk that was just allocated can be freed, and this gives back the chunks in use before the allocation,
  with the same addresses, sizes, types and states.
\<close>

theorem alloc_free_roundtrip:
  assumes a: "pmm_inv s" "no_eviction s" "k \<le> 21" "bit (pmm_chunk_sizes s ty) k" "pma_ok (al_pma al) s"
    "\<not> (evict \<and> pmm_supports_eviction s)" "waits_end (ev_waits (al_evict al)) s"
    and e: "alloc_chunk al ty (2 ^ k) evict s = Some (NV_OK, c, s')" and w: "waits_end w s'"
  shows "\<exists>x s''. c = Some x \<and> free_chunk w x s' = Some s'' \<and> pmm_inv s'' \<and> allocation s'' = allocation s"
proof -
  have r: "alloc_result s {} k ty (NV_OK, c, s')" using alloc_chunk_ok[OF a] e by auto
  obtain x where x: "c = Some x" "changes_to s s' (held s \<union> {x})" "x \<notin> held s" using r by (auto simp: alloc_result_def)
  have i: "pmm_inv s'" using r by (simp add: alloc_result_def)
  have h: "x \<in> held s'" using x(2) by (simp add: changes_to_def)
  then have "\<not> chunk_is_in_eviction s' x"
    using no_eviction_chunk[OF i no_eviction_changes[OF a(2) x(2)]] held_leaf[OF h] by (simp add: is_leaf_def)
  then obtain s'' where s'': "free_chunk w x s' = Some s''" "pmm_inv s''" "allocation s'' = (allocation s')(x := None)"
    using free_allocation[OF i h _ w] by blast
  have "allocation s x = None" using x(3) by (simp add: allocation_def)
  then have "allocation s'' = allocation s" unfolding s''(3) alloc_changes_allocation[OF x(2,3)] by (simp add: fun_eq_iff)
  then show ?thesis using x(1) s'' by blast
qed

theorem alloc_free_roundtrip_witness:
  "\<exists>x s''. alloc_chunk example_alloc UVM_PMM_GPU_MEMORY_TYPE_KERNEL (2 ^ 21) False example_pmm = Some (NV_OK, Some x, example_used) \<and>
     free_chunk example_waits x example_used = Some s'' \<and> allocation s'' = allocation example_pmm"
proof -
  have al: "al_pma example_alloc = (NV_OK, 0)" "ev_waits (al_evict example_alloc) = example_waits" by (simp_all add: example_alloc_def)
  have b: "bit (pmm_chunk_sizes example_pmm UVM_PMM_GPU_MEMORY_TYPE_KERNEL) 21"
    by (simp add: example_pmm_def init_state_def init_chunk_sizes_def UVM_CHUNK_SIZE_MAX_def bit_simps)
  have n: "claim_free_chunk UVM_PMM_GPU_MEMORY_TYPE_KERNEL (2 ^ 21) example_pmm = (None, example_pmm)"
    by (simp add: claim_free_chunk_def Let_def example_pmm_def init_state_def list_first_chunk_def)
  have e: "alloc_chunk example_alloc UVM_PMM_GPU_MEMORY_TYPE_KERNEL (2 ^ 21) False example_pmm = Some (NV_OK, Some 0, example_used)"
    unfolding alloc_chunk_def n size_consts
    by (simp add: alloc_or_evict_root_chunk_def al example_used_def alloc_root_chunk_def Let_def root_chunk_from_address_def)
  show ?thesis
    using alloc_free_roundtrip[OF example_inv example_no_eviction order.refl b _ _ _ e example_used_facts(7)]
      example_pma example_waits_end e al by (auto simp: example_pmm_def init_state_def)
qed

section \<open>Splitting, merging and eviction\<close>

lemma enough_memory:
  assumes "\<And>n. pmm_kmem s n" "\<not> uvm_gpu_chunk_get_inject_split_error c"
  shows "fst (alloc_subchunks c p sz n i subs s) = NV_OK"
  using assms(1)
proof (induction n arbitrary: i subs s)
  case (Suc n)
  have k: "kmem_cache_alloc s = (True, pmm_root_chunks_count s + pmm_calls s, s\<lparr>pmm_calls := Suc (pmm_calls s)\<rparr>)"
    using Suc.prems by (simp add: kmem_cache_alloc_def)
  show ?case using assms(2) Suc.prems by (simp add: k Suc.IH)
qed simp

lemma split_succeeds:
  assumes "\<And>n. pmm_kmem s n" "\<not> uvm_gpu_chunk_get_inject_split_error (ch s p)"
  shows "fst (split_gpu_chunk p s) = NV_OK"
proof -
  have k: "kmem_cache_alloc s = (True, pmm_root_chunks_count s + pmm_calls s, s\<lparr>pmm_calls := Suc (pmm_calls s)\<rparr>)"
    using assms(1) by (simp add: kmem_cache_alloc_def)
  have "fst (alloc_subchunks (ch s p) p sz n 0 [] (s\<lparr>pmm_calls := Suc (pmm_calls s)\<rparr>)) = NV_OK" for sz n
    by (rule enough_memory) (use assms in simp_all)
  then show ?thesis unfolding split_gpu_chunk_def k Let_def by (simp split: prod.split) (metis fst_conv)
qed

text \<open>The subchunks of a split cover it.\<close>

lemma subchunk_spans:
  assumes t: "tree_ok s" and q: "live s q" "chunk_suballoc (ch s q) \<noteq> None"
  shows "(\<Union>x \<in> set (csubs s q). span s x) = span s q"
proof
  note c = csubs_facts[OF t q]
  show "(\<Union>x \<in> set (csubs s q). span s x) \<subseteq> span s q" using child_span[OF t] c(4) by blast
  show "span s q \<subseteq> (\<Union>x \<in> set (csubs s q). span s x)"
  proof
    fix y assume y: "y \<in> span s q"
    have so: "split_ok s q" using tree_chunk[OF t q(1)] q(2) by (simp add: chunk_ok_def)
    let ?e = "prev_exp (mask_of s q) (cexp s q)"
    have e: "?e < cexp s q" using so prev_exp_props(1)[of "mask_of s q" "cexp s q"] exp_le[OF t q(1)] by (simp add: split_ok_def)
    let ?i = "(y - unat (caddr s q)) div 2 ^ ?e"
    have "y - unat (caddr s q) < 2 ^ (cexp s q - ?e) * 2 ^ ?e" using y e by (auto simp: span_def simp flip: power_add)
    then have i: "?i < length (csubs s q)" using so by (simp add: split_ok_def less_mult_imp_div_less)
    have co: "child_ok s q ?i" using so i by (simp add: split_ok_def)
    have "y - unat (caddr s q) = ?i * 2 ^ ?e + (y - unat (caddr s q)) mod 2 ^ ?e" "(y - unat (caddr s q)) mod 2 ^ ?e < 2 ^ ?e" by (simp_all only: div_mult_mod_eq) simp
    moreover have "unat (caddr s q) \<le> y" using y by (simp add: span_def)
    ultimately have "unat (caddr s q) + ?i * 2 ^ ?e \<le> y \<and> y < unat (caddr s q) + ?i * 2 ^ ?e + 2 ^ ?e" by linarith
    then have "y \<in> span s (csubs s q ! ?i)" using co by (simp add: child_ok_def Let_def span_def)
    then show "y \<in> (\<Union>x \<in> set (csubs s q). span s x)" using i by (auto intro: nth_mem)
  qed
qed

text \<open>
  C15. Splitting a chunk in use, when there is a smaller size, either runs out of host memory, with nothing of the
  chunks changed and nothing leaked, or gives subchunks of the next smaller size in use in its state and type
  that cover exactly its memory; with host memory it succeeds.
\<close>

theorem split_gpu_chunk_correct:
  assumes "pmm_inv s" "p \<in> held s" "prev_exp (mask_of s p) (cexp s p) \<noteq> 22"
  shows "(fst (split_gpu_chunk p s) = NV_ERR_NO_MEMORY \<and> pmm_chunks (snd (split_gpu_chunk p s)) = pmm_chunks s \<or>
      fst (split_gpu_chunk p s) = NV_OK \<and>
      (let s' = snd (split_gpu_chunk p s)
       in (\<Union>x \<in> set (csubs s' p). span s' x) = span s p \<and> held s' = held s - {p} \<union> set (csubs s' p) \<and>
          (\<forall>x \<in> set (csubs s' p). cstate s' x = cstate s p \<and> ctype s' x = ctype s p \<and> csize s' x = 2 ^ prev_exp (mask_of s p) (cexp s p)))) \<and>
    pmm_inv (snd (split_gpu_chunk p s)) \<and>
    ((\<forall>n. pmm_kmem s n) \<longrightarrow> \<not> uvm_gpu_chunk_get_inject_split_error (ch s p) \<longrightarrow> fst (split_gpu_chunk p s) = NV_OK)"
proof -
  note inv = assms(1) and sub = assms(3)
  have pl: "is_leaf s p" "cstate s p = UVM_PMM_GPU_CHUNK_STATE_ALLOCATED \<or> is_pinned s p" using held_leaf[OF assms(2)] by simp_all
  have "fst (split_gpu_chunk p s) = NV_ERR_NO_MEMORY \<and> pmm_chunks (snd (split_gpu_chunk p s)) = pmm_chunks s \<or>
      fst (split_gpu_chunk p s) = NV_OK \<and>
      (let s' = snd (split_gpu_chunk p s)
       in (\<Union>x \<in> set (csubs s' p). span s' x) = span s p \<and> held s' = held s - {p} \<union> set (csubs s' p) \<and>
          (\<forall>x \<in> set (csubs s' p). cstate s' x = cstate s p \<and> ctype s' x = ctype s p \<and> csize s' x = 2 ^ sub_exp s p))"
  proof (rule split_cases[OF inv pl sub])
    fix calls assume "split_gpu_chunk p s = (NV_ERR_NO_MEMORY, s\<lparr>pmm_calls := calls\<rparr>)" then show ?thesis by simp
  next
    fix s' b calls assume e: "split_gpu_chunk p s = (NV_OK, s')" and ef: "split_effect s p s' b calls"
    note st = split_tree[OF inv pl sub e] and sc = split_effect_chunks[OF ef] and ss = split_effect_split[OF ef]
    have lp: "live s p" using pl by (simp add: is_leaf_def)
    have "span s' p = span s p" using sc(3)[OF lp] by (simp add: span_def cexp_def)
    then have "(\<Union>x \<in> set (csubs s' p). span s' x) = span s p"
      using subchunk_spans[OF st(1), of p] ss(2) sc(1)[of p] lp by simp
    moreover have "x \<in> held s' \<longleftrightarrow> x \<in> held s - {p} \<union> set (csubs s' p)" for x
    proof (cases "live s x")
      case True
      then show ?thesis using sc(5)[OF True] ss(2) st(5)[of x] st(6)[of x] by (cases "x = p") (auto simp: held_def is_leaf_def)
    next
      case False
      then show ?thesis using st(5)[of x] st(6)[of x] pl(2) by (auto simp: held_def is_leaf_def)
    qed
    moreover have "csize s' x = 2 ^ sub_exp s p" if "x \<in> set (csubs s' p)" for x using st(5)[OF that] csize_eq(1)[of s' x] by simp
    ultimately show ?thesis using e st(5) by (auto simp: Let_def)
  qed
  then show ?thesis using split_step_inv[OF inv assms(2) sub] split_succeeds by blast
qed

lemma example_split:
  "prev_exp (mask_of example_used 0) (cexp example_used 0) \<noteq> 22" "pmm_kmem example_used n"
  "\<not> uvm_gpu_chunk_get_inject_split_error (ch example_used 0)"
proof -
  have e: "cexp example_used 0 = 21" unfolding cexp_def example_used_facts(4) by (rule fls_log) simp
  have "pmm_chunk_sizes example_used = pmm_chunk_sizes example_pmm"
    by (simp add: example_used_def alloc_root_chunk_def Let_def upd_chunk_def)
  then have m: "mask_of example_used 0 = init_chunk_sizes 0 0x10000 0 UVM_PMM_GPU_MEMORY_TYPE_KERNEL"
    by (simp add: mask_of_def example_used_facts(5)[simplified] example_pmm_def init_state_def)
  have "bit (mask_of example_used 0) 16" unfolding m by (simp add: init_chunk_sizes_def bit_simps)
  then show "prev_exp (mask_of example_used 0) (cexp example_used 0) \<noteq> 22"
    using prev_exp_props(1)[of "mask_of example_used 0" 21 16] by (simp add: e)
  show "pmm_kmem example_used n"
    by (simp add: example_used_def alloc_root_chunk_def Let_def upd_chunk_def example_pmm_def init_state_def)
  have k: "uvm_gpu_chunk_get_inject_split_error (c\<lparr>chunk_address := a\<rparr>) = uvm_gpu_chunk_get_inject_split_error c" for c a
    by (simp add: flag_bits)
  have i: "\<not> uvm_gpu_chunk_get_inject_split_error (init_root_chunk r)" for r
    unfolding init_root_chunk_def size_consts k by (subst size_laws) (simp_all add: flag_bits bit_set_state)
  have "ch example_used 0 = uvm_gpu_chunk_set_state (uvm_gpu_chunk_set_type (init_root_chunk 0) UVM_PMM_GPU_MEMORY_TYPE_KERNEL)
      UVM_PMM_GPU_CHUNK_STATE_TEMP_PINNED"
    by (simp add: example_used_def alloc_root_chunk_def Let_def upd_chunk_def ch_def example_chunks root_chunk_from_address_def)
  then show "\<not> uvm_gpu_chunk_get_inject_split_error (ch example_used 0)" using i by simp
qed

theorem split_gpu_chunk_correct_witness:
  "fst (split_gpu_chunk 0 example_used) = NV_OK \<and> pmm_inv (snd (split_gpu_chunk 0 example_used))"
  using split_gpu_chunk_correct[OF example_used_facts(1) _ example_split(1)] example_used_facts(2) example_split(2,3) by simp

text \<open>
  C19. Merging the subchunks of a chunk right after splitting it gives back the abstract allocation from before the
  split: the chunk is in use again with its address, size, type and state, and no other chunk in use changed.
\<close>

theorem split_merge_roundtrip:
  assumes "pmm_inv s" "p \<in> held s" "prev_exp (mask_of s p) (cexp s p) \<noteq> 22" "split_gpu_chunk p s = (NV_OK, s')"
  shows "pmm_inv (merge_gpu_chunk p s') \<and> allocation (merge_gpu_chunk p s') = allocation s"
  using split_allocation[OF assms] by simp

theorem split_merge_roundtrip_witness:
  "\<exists>s'. split_gpu_chunk 0 example_used = (NV_OK, s') \<and> allocation (merge_gpu_chunk 0 s') = allocation example_used"
proof -
  have "fst (split_gpu_chunk 0 example_used) = NV_OK" by (rule split_succeeds) (rule example_split)+
  then have e: "split_gpu_chunk 0 example_used = (NV_OK, snd (split_gpu_chunk 0 example_used))" by (metis prod.collapse)
  show ?thesis using split_merge_roundtrip[OF example_used_facts(1) _ example_split(1) e] example_used_facts(2) e by blast
qed



section \<open>Where the driver's bookkeeping goes wrong\<close>

text \<open>
  An error of the last wait of \<^verbatim>\<open>uvm_pmm_gpu_alloc\<close> is returned with the chunks still in use: unlike every
  earlier error it does not free them, and the caller sees only the error.
\<close>

lemma alloc_last_error_leaks:
  assumes "alloc_loop als w n 0 ty sz evict [] uvm_tracker_init s = Some (NV_OK, chunks, lt, s')"
    and "uvm_tracker_wait_for_other_gpus (pw_env w) (pw_fuel w) gpu_of lt gpu = Some (NV_OK, lt')"
    and "uvm_tracker_wait_deinit (pw_env w) (pw_fuel w) lt' = Some (status, t)"
  shows "uvm_pmm_gpu_alloc als w gpu_of gpu n sz ty evict None s = Some (status, rev chunks, None, s')"
  using assms by (simp add: uvm_pmm_gpu_alloc_def)

text \<open>
  Freeing the last allocated child after eviction of its root chunk started pins it twice: once as the chunk that
  eviction must pick up, once as one of the subchunks to merge.
\<close>

lemma prepare_in_eviction_overcounts:
  assumes inv: "pmm_inv s" and p: "is_leaf s p" "cstate s p = UVM_PMM_GPU_CHUNK_STATE_ALLOCATED" and ev: "chunk_is_in_eviction s p"
    and q: "cparent s p = Some q" and last: "sa_allocated (csub s q) = 1"
  defines "r \<equiv> root_chunk_from_chunk s p"
  shows "sa_pinned_leaf_chunks (csub (snd (free_or_prepare_for_merge p s)) r) = sa_pinned_leaf_chunks (csub s r) + num_subchunks s q + 1"
proof -
  note i = inv_parts[OF inv] and pl = leaf_place(2)[OF inv p(1) q]
  have l: "live s p" using p by (simp add: is_leaf_def)
  define s1 where "s1 = chunk_free_locked p s"
  note f = free_locked_evicted_inv[OF inv p ev, folded s1_def]
  have s1: "s1 = chunk_pin p (upd_chunk p (\<lambda>c. c\<lparr>chunk_va_block := None\<rparr>) s)"
    using ev by (simp add: s1_def chunk_free_locked_def chunk_is_in_eviction_def Let_def)
  have c1: "sa_pinned_leaf_chunks (csub s1 r) = sa_pinned_leaf_chunks (csub s r) + 1"
    unfolding s1 chunk_pin_def Let_def r_def using pl by (auto simp: option.map_sel)
  have rs: "chunk_suballoc (ch s1 r) \<noteq> None" "chunk_suballoc (ch s1 q) \<noteq> None" "live s1 q" "csubs s1 q = csubs s q"
    using pl same_shape_facts[OF f(2)] same_shape_rest[OF f(2)] by (auto simp: r_def)
  have n: "num_subchunks s1 q = num_subchunks s q"
    using num_subchunks_eq(1)[OF i(1), of q] num_subchunks_eq(1)[OF inv_parts(1)[OF f(1)], of q] rs pl by simp
  have rne: "r \<notin> set (csubs s q)"
    using last_child_facts[OF inv p(1) _ q last, of r] p(2) pl by (auto simp: r_def is_leaf_def)
  define subs where "subs = take (unat (num_subchunks s q)) (csubs s q)"
  define s2 where "s2 = pin_subchunks subs s1"
  have d: "distinct subs" "r \<notin> set subs" "p \<in> set subs \<or> p \<notin> set subs"
    using csubs_facts(1)[OF i(1), of q] pl rne by (auto simp: subs_def dest: in_set_takeD)
  have c2: "ch s2 r = ch s1 r" using pin_subchunks_ch[OF d(1), of s1 r] d(2) by (simp add: s2_def)
  have r2: "root_chunk_from_chunk s2 p = r"
    using same_shape_facts(9)[OF f(2) l] by (simp add: root_chunk_from_chunk_def s2_def pin_subchunks_ch[OF d(1)] r_def)
  have e: "free_or_prepare_for_merge p s = (Some q, upd_suballoc q (\<lambda>sa. sa\<lparr>sa_allocated := num_subchunks s q\<rparr>)
      (upd_suballoc r (\<lambda>sa. sa\<lparr>sa_pinned_leaf_chunks := sa_pinned_leaf_chunks sa + num_subchunks s q\<rparr>) s2))"
    unfolding free_or_prepare_for_merge_def Let_def s1_def[symmetric] q option.case n rs(4) subs_def[symmetric] s2_def[symmetric] r2
    using last q by (simp add: chunk_is_last_allocated_child_def)
  show ?thesis unfolding e using c1 c2 rs(1) by (cases "q = r") (auto simp: option.map_sel algebra_simps)
qed

text \<open>
  When the time is out right after eviction of the root chunk was started, \<^verbatim>\<open>uvm_pmm_gpu_pma_evict_range\<close> fails
  and leaves the root chunk marked: nothing evicts it or clears the mark, and no later eviction will take it.
\<close>

lemma evict_range_timeout_keeps_mark:
  assumes a: "address \<le> phys_end" and r: "root_chunk_from_address address = r" "root_chunk_from_chunk s r = r" and e: "chunk_is_evictable s r"
  shows "evict_range_loop evs (\<lambda>_ _ s. s) 0 fuel (Suc n) i address phys_end s = Some (NV_ERR_NO_MEMORY, chunk_start_eviction r s)"
    "\<not> chunk_is_evictable (chunk_start_eviction r s) r"
proof -
  have st: "cstate s r \<noteq> UVM_PMM_GPU_CHUNK_STATE_PMA_OWNED" using e r(2) by (auto simp: chunk_is_evictable_def Let_def)
  have "start_range_eviction (\<lambda>_ s. s) 0 0 r s = (NV_ERR_NO_MEMORY, True, chunk_start_eviction r s)"
    by (subst start_range_eviction.simps) (use st e in simp)
  then show "evict_range_loop evs (\<lambda>_ _ s. s) 0 fuel (Suc n) i address phys_end s = Some (NV_ERR_NO_MEMORY, chunk_start_eviction r s)"
    using a r(1) by simp
  show "\<not> chunk_is_evictable (chunk_start_eviction r s) r"
    using r(2) by (simp add: chunk_is_evictable_def chunk_start_eviction_def Let_def chunk_is_in_eviction_def)
qed

text \<open>
  \<^verbatim>\<open>vidmem_max_physical_address\<close> is the last address, but the number of root chunks is computed as if it were the
  first one after the memory: when it is a multiple of the chunk size, it belongs to no root chunk.
\<close>

lemma last_address_without_root_chunk:
  assumes "m = 2 ^ 21 * of_nat j" "j < 2 ^ 17"
  shows "root_chunk_from_address m = init_root_chunks_count m"
proof -
  have u: "unat m = j * 2 ^ 21" using assms by (simp add: unat_word_ariths unat_of_nat take_bit_eq_mod)
  have "init_root_chunks_count m = (j * 2 ^ 21 + (2 ^ 21 - 1)) div 2 ^ 21" using init_count(1)[of m] u assms(2) by simp
  also have "\<dots> = j" by simp
  finally show ?thesis using u by (simp add: root_chunk_from_address_def UVM_CHUNK_SIZE_MAX_def unat_div)
qed

end
