(* ===== verification/Spec2Isabelle.thy ===== *)
theory Spec2Isabelle
  imports UVM_Prelude Range_Tree Range_Allocator Gpu_Semaphore Tracker Pushbuffer Channel Push
    Lock_Tracking Kvmalloc Gpu_Types Pte_Batch Hw_Fields Mmu_Format Tlb_Batch Hal_Methods Hal_Table Copy_Engine
    Page_Tree Page_Tree_Inv Page_Tree_Ops Page_Tree_Get Page_Range_Vec Page_Vec_Proofs Gpu_Peers
    Pmm_Chunk Pmm_Gpu Pmm_Evict Pmm_Alloc Pmm_Inv Pmm_Frame Pmm_Steps Pmm_Split Pmm_Merge Pmm_Free Pmm_Alloc_Proofs
    Pmm_Proofs Pmm_Contract
begin

text \<open>
  A model of the unified memory driver (\<^verbatim>\<open>nvidia-uvm\<close>) of the NVIDIA Linux kernel modules, release
  367.44: the GPU-facing core that keeps CPU and GPU in step. All source paths are relative to
  \<^verbatim>\<open>src/NVIDIA-Linux-x86-367.44/kernel/nvidia-uvm/\<close>. The manifest maps every definition to its lines.

  \<^bold>\<open>How the parts work together.\<close> CPU threads write methods for a GPU into pushes. A push takes space in
  the pushbuffer, runs on a channel, and ends by releasing the channel's tracking semaphore. What has
  completed is read back from that semaphore, and a tracker gathers (channel, value) pairs to wait for.
  Page tables are changed by pushes: the PTE batch gathers writes of entries, the TLB batch the
  invalidates that must follow, the MMU formats give the bits of entries, and the hardware abstraction
  layer (HAL) the methods of each GPU generation. Range trees, the range allocator, kvmalloc and the
  lock order checker serve all of them.

  \<^bold>\<open>Theories and what they model.\<close>

  \<^item> \<open>UVM_Prelude\<close>: integer widths, status codes, alignment macros and the lemmas on words, lists and
    loops that the components share.
  \<^item> \<open>Range_Tree\<close> (\<^verbatim>\<open>uvm8_range_tree.c\<close>) and \<open>Range_Allocator\<close> (\<^verbatim>\<open>uvm8_range_allocator.c\<close>): the threaded
    search tree of address ranges behind the locale \<open>range_store\<close>, and the first-fit allocator that keeps
    its free ranges in one. Lemmas: the tree stays sorted and disjoint, searches and iterations are
    exact, allocations are aligned, in range and disjoint, frees coalesce.
  \<^item> \<open>Gpu_Semaphore\<close> (\<^verbatim>\<open>uvm8_gpu_semaphore.c\<close>): semaphore pools and the extension of 32-bit payloads
    to 64-bit values. \<open>Tracker\<close> (\<^verbatim>\<open>uvm8_tracker.c\<close>): collecting, merging and waiting for entries.
  \<^item> \<open>Pushbuffer\<close>, \<open>Channel\<close>, \<open>Push\<close> (\<^verbatim>\<open>uvm8_pushbuffer.c\<close>, \<^verbatim>\<open>uvm8_channel.c\<close>, \<^verbatim>\<open>uvm8_push.c\<close>): space for
    pushes, the GPFIFO rings, beginning and ending pushes. The main lemmas: in every reachable state
    pushes in flight use disjoint memory, space comes back, the ring never overflows, progress retires
    completed entries in order, acquires cover exactly what a tracker holds.
  \<^item> \<open>Lock_Tracking\<close> (\<^verbatim>\<open>uvm8_lock.c\<close>, \<^verbatim>\<open>uvm8_thread_context.c\<close>): the run-time check of the lock order and the
    proof that accepted acquisitions cannot deadlock. \<open>Kvmalloc\<close> (\<^verbatim>\<open>uvm8_kvmalloc.c\<close>): allocation by size,
    reallocation and the leak checker's accounts.
  \<^item> \<open>Gpu_Types\<close> (\<^verbatim>\<open>uvm8_hal_types.h\<close>): apertures, addresses, membars, GPU memory and the operations a push
    holds. \<open>Pte_Batch\<close> (\<^verbatim>\<open>uvm8_pte_batch.c\<close>): refinement of entry-by-entry writes. \<open>Tlb_Batch\<close>
    (\<^verbatim>\<open>uvm8_tlb_batch.c\<close>): equivalence with a reference that sees all ranges at once, and coverage.
  \<^item> \<open>Hw_Fields\<close> (\<^verbatim>\<open>nvmisc.h\<close>): bit field macros. \<open>Mmu_Format\<close> (\<^verbatim>\<open>uvm8_pascal_mmu.c\<close>,
    \<^verbatim>\<open>uvm8_kepler_mmu.c\<close>): entries decode to what they were made from; the geometry laws are the
    locale \<open>mmu_geometry\<close>, interpreted for the three formats.
  \<^item> \<open>Hal_Methods\<close> (\<^verbatim>\<open>uvm8_kepler_host.c\<close>, \<^verbatim>\<open>uvm8_maxwell_host.c\<close>, \<^verbatim>\<open>uvm8_pascal_host.c\<close>, \<^verbatim>\<open>uvm8_push_macros.h\<close>):
    the words each host operation appends, read back by a decoder of the method format. \<open>Hal_Table\<close>
    (\<^verbatim>\<open>uvm8_hal.c\<close> and the \<^verbatim>\<open>init_properties\<close> of the architectures): inheritance of functions between
    hardware classes and the choice for a GPU.
  \<^item> \<open>Copy_Engine\<close> (\<^verbatim>\<open>uvm8_kepler_ce.c\<close>, \<^verbatim>\<open>uvm8_pascal_ce.c\<close>): the words of copies, fills and semaphore
    releases, and an interpreter of the engine's methods; the locale \<open>ce_class_laws\<close> says what a class
    must promise for the shared loops to fill and copy memory, and is interpreted for Kepler and Pascal.

  \<^item> \<open>Page_Tree\<close> (\<^verbatim>\<open>uvm8_mmu.c\<close>): the tree of page directories of an address space and the pushes that
    write the GPU's copy. \<open>Page_Tree_Inv\<close>: its invariant and the steps that keep it, over the locale
    \<open>tree_format\<close>, interpreted for the three formats. \<open>Page_Tree_Ops\<close>, \<open>Page_Tree_Get\<close>: putting and getting
    entries, whatever other threads do between the critical sections. Main lemmas: the tree is exactly
    the one the held ranges need, failed attempts leave it as it was, nothing allocated is lost.
  \<^item> \<open>Page_Range_Vec\<close>, \<open>Page_Vec_Proofs\<close> (\<^verbatim>\<open>uvm8_mmu.c\<close>): vectors of ranges over an interval. Main
    lemmas: the parts partition the interval, creating and destroying hold and release every part once,
    writing and clearing touch exactly the entries of the interval. \<open>Gpu_Peers\<close> (\<^verbatim>\<open>uvm8_mmu.c\<close>,
    \<^verbatim>\<open>uvm8_gpu.c\<close>): identity mappings made with them, and the table and counts of peer access.
  \<^item> \<open>Pmm_Chunk\<close>, \<open>Pmm_Gpu\<close>, \<open>Pmm_Evict\<close>, \<open>Pmm_Alloc\<close> (\<^verbatim>\<open>uvm8_pmm_gpu.h\<close>, \<^verbatim>\<open>uvm8_pmm_gpu.c\<close>): the physical
    memory manager: packed chunk flags and sizes; free lists, splits, merges, claims and frees; walks and
    eviction; allocation, eviction by PMA, initialization. \<open>Pmm_Inv\<close>: its invariant (the tree of chunks,
    states and counts, pinned leaves, free lists) and the partition of memory by unsplit chunks. \<open>Pmm_Frame\<close>,
    \<open>Pmm_Steps\<close>, \<open>Pmm_Split\<close>, \<open>Pmm_Merge\<close>: each step keeps it. \<open>Pmm_Free\<close>, \<open>Pmm_Alloc_Proofs\<close>: what a free
    or an allocation does to the chunks in use. \<open>Pmm_Proofs\<close>: any interleaving of critical sections.
    \<open>Pmm_Contract\<close>: the properties its callers rely on.

  \<^bold>\<open>Conventions.\<close> C integers are words of their width. Pointers are numbers or indices into a store, NULL is
  \<open>None\<close>, and errors are \<open>nv_status\<close> values or sums. Locks make an operation, or each critical section of
  it, one step. What the kernel, the resource manager (RM) and other threads do is an argument: outcomes
  of allocations, snapshots of the environment for each iteration of a waiting loop. Loops whose end
  depends on such arguments have fuel, \<open>None\<close> meaning that it ran out; for each the lemmas say which fuel
  is enough: a waiting loop that sees everything completed after \<open>N\<close> iterations needs \<open>N + 1\<close>, loops over
  a count or a size in bytes need one more than it (\<open>2 ^ 32\<close> for a batch of 32-bit counts), the unloading
  loop of the leak checker one more than the recorded origins,
  the walks of a page tree one more than its depth of 4, getting entries one attempt per level, the merges
  that follow a free one more than the 22 chunk sizes. Loops bounded by the data recurse on it.
  Assertions of the driver are compiled out of release builds; they are not guards of the model, and where
  they matter their truth is a lemma or a hypothesis of the contract.

  \<^bold>\<open>Not modelled.\<close> RM is a closed object file; \<^verbatim>\<open>nv.c\<close>, \<^verbatim>\<open>os-interface.c\<close>, mode setting and DRM are glue around
  it. UVM lite is the previous generation of the driver and mostly calls the kernel's memory management.
  Tools events, procfs and the built-in tests are input and output. VA blocks, VA spaces and fault servicing
  move pages through the kernel's memory management, whose page tables, notifiers and locks would all be
  arguments; what they use below it (ranges, page tables, chunks, trackers, pushes) is modelled. The moving
  of pages off the GPU is an argument of eviction, as is PMA of allocation.
\<close>

end
